(* ===== verification/Prelude.thy ===== *)
theory Prelude
  imports "HOL-Library.Word" "HOL-Library.Multiset" "HOL-Library.Monad_Syntax"
begin

text \<open>
  Shared vocabulary of the development.

  The sources are C and C++ programs. Their fixed-width unsigned integers are words
  (\<open>u8\<close> to \<open>u64\<close>), so that addition, subtraction and shifts wrap as they do there.
  A block of memory is a list of cells. A function whose C counterpart can leave the
  memory it was given reads and writes through \<open>load\<close> and \<open>store\<close>, which return
  \<open>None\<close> outside the block: in every model of this development \<open>None\<close> of such a
  function stands for undefined behaviour of the C code, and the safety theorems
  say that it does not happen.
\<close>

unbundle bit_operations_syntax

section \<open>Machine integers\<close>

type_synonym u8 = "8 word"
type_synonym u16 = "16 word"
type_synonym u32 = "32 word"
type_synonym u64 = "64 word"

type_synonym bytes = "u8 list"

text \<open>The range of a word, and the wrap-around that does not happen.\<close>

lemma unat_u8: "unat (x :: u8) < 256"
  using unsigned_less [of x] by simp

lemma unat_u16: "unat (x :: u16) < 65536"
  using unsigned_less [of x] by simp

lemma unat_u32: "unat (x :: u32) < 2 ^ 32"
  using unsigned_less [of x] by simp

lemma unat_u64: "unat (x :: u64) < 2 ^ 64"
  using unsigned_less [of x] by simp

lemma unat_of_nat_u32: "n < 2 ^ 32 \<Longrightarrow> unat (of_nat n :: u32) = n"
  by (simp add: unat_of_nat)

lemma unat_of_nat_u64: "n < 2 ^ 64 \<Longrightarrow> unat (of_nat n :: u64) = n"
  by (simp add: unat_of_nat)

lemma unat_of_int_u32: "0 \<le> k \<Longrightarrow> k < 2 ^ 32 \<Longrightarrow> unat (word_of_int k :: u32) = nat k"
  by (simp add: unsigned_of_int take_bit_int_eq_self)

lemma unat_add_u32: "unat a + unat b < 2 ^ 32 \<Longrightarrow> unat (a + b :: u32) = unat a + unat b"
  by (simp add: unat_word_ariths)

lemma unat_add_u64: "unat a + unat b < 2 ^ 64 \<Longrightarrow> unat (a + b :: u64) = unat a + unat b"
  by (simp add: unat_word_ariths)

lemma unat_ucast_u32_u64 [simp]: "unat (ucast (n :: u32) :: u64) = unat n"
  using unat_u32 [of n] by (simp add: unsigned_ucast_eq take_bit_nat_eq_self)

lemma unat_ucast_u8_u32 [simp]: "unat (ucast (n :: u8) :: u32) = unat n"
  using unat_u8 [of n] by (simp add: unsigned_ucast_eq take_bit_nat_eq_self)

lemma sint_small_u32: "unat (m :: u32) < 2 ^ 31 \<Longrightarrow> sint m = int (unat m)"
proof -
  assume "unat m < 2 ^ 31"
  then have "int (unat m) < int (2 ^ 31)" by (simp only: of_nat_less_iff)
  then have "signed_take_bit 31 (uint m) = uint m"
    using order_trans [OF _ uint_ge_0 [of m], of "- 2147483648"]
    by (intro signed_take_bit_int_eq_self) simp_all
  then show ?thesis by (simp add: sint_uint)
qed

text \<open>
  Signed arithmetic of the sources (\<open>int\<close> and \<open>int64_t\<close>): the exact result where the type holds it,
  and \<open>None\<close>, undefined behaviour, where it does not.
\<close>

definition int32 :: "int \<Rightarrow> int option" where
  "int32 x = (if - (2 ^ 31) \<le> x \<and> x < 2 ^ 31 then Some x else None)"

definition int64 :: "int \<Rightarrow> int option" where
  "int64 x = (if - (2 ^ 63) \<le> x \<and> x < 2 ^ 63 then Some x else None)"

lemma int32_nonneg: "0 \<le> x \<Longrightarrow> x < 2 ^ 31 \<Longrightarrow> int32 x = Some x"
  by (simp add: int32_def)

lemma int64_nonneg: "0 \<le> x \<Longrightarrow> x < 2 ^ 63 \<Longrightarrow> int64 x = Some x"
  by (simp add: int64_def)

named_theorems mem_simps \<open>rewriting of memory reads and writes\<close>
named_theorems byte_simps \<open>numbers read from and written to bytes\<close>

section \<open>Memory cells\<close>

definition load :: "'a list \<Rightarrow> nat \<Rightarrow> 'a option" where
  "load m i = (if i < length m then Some (m ! i) else None)"

definition store :: "'a list \<Rightarrow> nat \<Rightarrow> 'a \<Rightarrow> 'a list option" where
  "store m i v = (if i < length m then Some (m[i := v]) else None)"

lemma load_in [mem_simps]: "i < length m \<Longrightarrow> load m i = Some (m ! i)"
  by (simp add: load_def)

lemma store_in [mem_simps]: "i < length m \<Longrightarrow> store m i v = Some (m[i := v])"
  by (simp add: store_def)

lemma load_Some_iff: "load m i = Some v \<longleftrightarrow> i < length m \<and> v = m ! i"
  by (auto simp: load_def)

lemma store_Some_iff: "store m i v = Some m' \<longleftrightarrow> i < length m \<and> m' = m[i := v]"
  by (auto simp: store_def)

text \<open>The cells \<open>i, \<dots>, j - 1\<close> of a block.\<close>

definition subl :: "'a list \<Rightarrow> nat \<Rightarrow> nat \<Rightarrow> 'a list" where
  "subl m i j = take (j - i) (drop i m)"

lemma length_subl [simp]: "j \<le> length m \<Longrightarrow> length (subl m i j) = j - i"
  by (simp add: subl_def)

lemma nth_subl: "k < j - i \<Longrightarrow> j \<le> length m \<Longrightarrow> subl m i j ! k = m ! (i + k)"
  by (simp add: subl_def)

lemma subl_empty [simp]: "j \<le> i \<Longrightarrow> subl m i j = []"
  by (simp add: subl_def)

lemma subl_update_outside [simp]:
  "k < i \<or> j \<le> k \<Longrightarrow> subl (m[k := v]) i j = subl m i j"
  by (auto simp: subl_def intro!: nth_equalityI)

lemma subl_append: "i \<le> k \<Longrightarrow> k \<le> j \<Longrightarrow> subl m i j = subl m i k @ subl m k j"
proof -
  assume "i \<le> k" "k \<le> j"
  then have "take (j - i) (drop i m) = take ((k - i) + (j - k)) (drop i m)" by simp
  also have "\<dots> = take (k - i) (drop i m) @ take (j - k) (drop (k - i) (drop i m))"
    by (rule take_add)
  finally show ?thesis using \<open>i \<le> k\<close> by (simp add: subl_def)
qed

lemma subl_Cons: "i < j \<Longrightarrow> i < length m \<Longrightarrow> subl m i j = m ! i # subl m (Suc i) j"
  by (simp add: subl_def flip: Cons_nth_drop_Suc) (simp add: take_Cons' Suc_diff_Suc)

lemma set_subl: "j \<le> length m \<Longrightarrow> set (subl m i j) = {m ! k | k. i \<le> k \<and> k < j}"
proof -
  assume j: "j \<le> length m"
  have "set (subl m i j) = {subl m i j ! k | k. k < j - i}"
    using j by (auto simp: set_conv_nth)
  also have "\<dots> = {m ! k | k. i \<le> k \<and> k < j}"
  proof (intro set_eqI iffI)
    fix x
    assume "x \<in> {subl m i j ! k | k. k < j - i}"
    then obtain k where "x = subl m i j ! k" "k < j - i" by auto
    with j show "x \<in> {m ! k | k. i \<le> k \<and> k < j}"
      by (auto simp: nth_subl intro!: exI [of _ "i + k"])
  next
    fix x
    assume "x \<in> {m ! k | k. i \<le> k \<and> k < j}"
    then obtain k where "x = m ! k" "i \<le> k" "k < j" by auto
    with j show "x \<in> {subl m i j ! k | k. k < j - i}"
      by (auto simp: nth_subl intro!: exI [of _ "k - i"])
  qed
  finally show ?thesis .
qed

section \<open>Numbers in bytes\<close>

text \<open>
  The targets are little-endian: a \<open>uint16_t\<close> or \<open>uint32_t\<close> read through a pointer
  cast has its low byte first, and \<open>htons\<close>, \<open>ntohl\<close> and their kin swap the bytes.
\<close>

definition le16 :: "u8 \<Rightarrow> u8 \<Rightarrow> u16" where
  "le16 a b = ucast a OR push_bit 8 (ucast b)"

definition le32 :: "u8 \<Rightarrow> u8 \<Rightarrow> u8 \<Rightarrow> u8 \<Rightarrow> u32" where
  "le32 a b c d = ucast a OR push_bit 8 (ucast b) OR push_bit 16 (ucast c) OR push_bit 24 (ucast d)"

definition be16 :: "u8 \<Rightarrow> u8 \<Rightarrow> u16" where
  "be16 a b = le16 b a"

definition be32 :: "u8 \<Rightarrow> u8 \<Rightarrow> u8 \<Rightarrow> u8 \<Rightarrow> u32" where
  "be32 a b c d = le32 d c b a"

definition byte16 :: "u16 \<Rightarrow> nat \<Rightarrow> u8" where
  "byte16 w k = ucast (drop_bit (8 * k) w)"

definition byte32 :: "u32 \<Rightarrow> nat \<Rightarrow> u8" where
  "byte32 w k = ucast (drop_bit (8 * k) w)"

definition htons :: "u16 \<Rightarrow> u16" where
  "htons w = le16 (byte16 w 1) (byte16 w 0)"

definition htonl :: "u32 \<Rightarrow> u32" where
  "htonl w = le32 (byte32 w 3) (byte32 w 2) (byte32 w 1) (byte32 w 0)"

abbreviation ntohs :: "u16 \<Rightarrow> u16" where
  "ntohs \<equiv> htons"

abbreviation ntohl :: "u32 \<Rightarrow> u32" where
  "ntohl \<equiv> htonl"

lemma byte16_le16 [byte_simps]: "byte16 (le16 a b) 0 = a" "byte16 (le16 a b) 1 = b"
  "byte16 (le16 a b) (Suc 0) = b"
  by (rule bit_word_eqI; auto simp: byte16_def le16_def bit_simps dest: bit_imp_le_length)+

lemma byte32_le32 [byte_simps]: "byte32 (le32 a b c d) 0 = a" "byte32 (le32 a b c d) 1 = b"
  "byte32 (le32 a b c d) (Suc 0) = b" "byte32 (le32 a b c d) 2 = c" "byte32 (le32 a b c d) 3 = d"
  by (rule bit_word_eqI; auto simp: byte32_def le32_def bit_simps dest: bit_imp_le_length)+

lemma le16_byte16 [byte_simps]: "le16 (byte16 w 0) (byte16 w 1) = w"
  "le16 (byte16 w 0) (byte16 w (Suc 0)) = w"
  by (rule bit_word_eqI; auto simp: byte16_def le16_def bit_simps dest: bit_imp_le_length)+

lemma le32_byte32 [byte_simps]: "le32 (byte32 w 0) (byte32 w 1) (byte32 w 2) (byte32 w 3) = w"
proof (rule bit_word_eqI)
  fix n
  assume "n < LENGTH(32)"
  then show "bit (le32 (byte32 w 0) (byte32 w 1) (byte32 w 2) (byte32 w 3)) n = bit w n"
    by (cases "n < 8"; cases "n < 16"; cases "n < 24") (auto simp: byte32_def le32_def bit_simps)
qed

lemma htons_le16 [byte_simps]: "htons (le16 a b) = be16 a b"
  by (simp add: htons_def be16_def byte_simps)

lemma htonl_le32 [byte_simps]: "htonl (le32 a b c d) = be32 a b c d"
  by (simp add: htonl_def be32_def byte_simps)

definition load16 :: "bytes \<Rightarrow> nat \<Rightarrow> u16 option" where
  "load16 m i = do { a \<leftarrow> load m i; b \<leftarrow> load m (i + 1); Some (le16 a b) }"

definition load32 :: "bytes \<Rightarrow> nat \<Rightarrow> u32 option" where
  "load32 m i = do { a \<leftarrow> load m i; b \<leftarrow> load m (i + 1); c \<leftarrow> load m (i + 2); d \<leftarrow> load m (i + 3);
     Some (le32 a b c d) }"

definition store16 :: "bytes \<Rightarrow> nat \<Rightarrow> u16 \<Rightarrow> bytes option" where
  "store16 m i w = do { m \<leftarrow> store m i (byte16 w 0); store m (i + 1) (byte16 w 1) }"

definition store32 :: "bytes \<Rightarrow> nat \<Rightarrow> u32 \<Rightarrow> bytes option" where
  "store32 m i w = do { m \<leftarrow> store m i (byte32 w 0); m \<leftarrow> store m (i + 1) (byte32 w 1);
     m \<leftarrow> store m (i + 2) (byte32 w 2); store m (i + 3) (byte32 w 3) }"

lemma load16_in [mem_simps]: "i + 1 < length m \<Longrightarrow> load16 m i = Some (le16 (m ! i) (m ! (i + 1)))"
  by (simp add: load16_def load_def)

lemma load32_in [mem_simps]: "i + 3 < length m \<Longrightarrow>
  load32 m i = Some (le32 (m ! i) (m ! (i + 1)) (m ! (i + 2)) (m ! (i + 3)))"
  by (simp add: load32_def load_def)

end
