(* ===== verification/Midl.thy ===== *)
theory Midl
  imports Prelude
begin

text \<open>
  The ID lists of LMDB (\<open>src/lmdb/midl.c\<close>, \<open>src/lmdb/midl.h\<close>), which the hash
  database of the client uses through LMDB: growable arrays of page numbers kept in
  descending order, and arrays of ID/pointer pairs kept in ascending order.

  An \<open>MDB_IDL\<close> is the list of cells \<open>ids[0], ids[1], \<dots>\<close>; cell 0 is the
  count. A list made by \<open>mdb_midl_alloc\<close> has one more cell in front, \<open>ids[-1]\<close>,
  which holds its capacity: \<open>MDB_IDL_buf\<close>. The C library's \<open>realloc\<close> is a
  parameter; what the code relies on is \<open>realloc_spec\<close>.
\<close>

section \<open>Data\<close>

type_synonym MDB_ID = u64
type_synonym MDB_IDL = "MDB_ID list"

record MDB_IDL_buf =
  alloclen :: MDB_ID
  ids :: MDB_IDL

record MDB_ID2 =
  mid :: MDB_ID
  mptr :: u64

type_synonym MDB_ID2L = "MDB_ID2 list"

definition MDB_IDL_UM_MAX :: nat where
  "MDB_IDL_UM_MAX = 2 ^ (16 + 1) - 1"

definition ENOMEM :: int where
  "ENOMEM = 12"

definition CMP :: "MDB_ID \<Rightarrow> MDB_ID \<Rightarrow> int" where
  "CMP x y = (if x < y then -1 else if x > y then 1 else 0)"

section \<open>Binary search\<close>

text \<open>
  The loop that \<open>mdb_midl_search\<close> and \<open>mdb_mid2l_search\<close> share, over the
  comparison \<open>val_at\<close> of the entry at a position with the key. The C variables are
  32-bit; \<open>base + n\<close> never exceeds the count the loop starts with, so none of the
  sums in the loop wraps. The increment after the loop can (count \<open>2 ^ 32 - 1\<close>).
\<close>

function midl_search_loop ::
  "(nat \<Rightarrow> int option) \<Rightarrow> nat \<Rightarrow> nat \<Rightarrow> nat \<Rightarrow> int \<Rightarrow> nat option" where
  "midl_search_loop val_at base n cursor val =
    (if 0 < n then
       let pivot = n div 2; cursor = base + pivot + 1 in
       do {
         val \<leftarrow> val_at cursor;
         (if val < 0 then midl_search_loop val_at base pivot cursor val
          else if val > 0 then midl_search_loop val_at cursor (n - (pivot + 1)) cursor val
          else Some cursor)
       }
     else Some (if val > 0 then (cursor + 1) mod 2 ^ 32 else cursor))"
  by pat_completeness auto
termination
  by (relation "measure (\<lambda>(v, b, n, c, x). n)") auto

declare midl_search_loop.simps [simp del]

definition mdb_midl_search :: "MDB_IDL \<Rightarrow> MDB_ID \<Rightarrow> nat option" where
  "mdb_midl_search idl ident =
    do {
      n \<leftarrow> load idl 0;
      midl_search_loop (\<lambda>k. map_option (\<lambda>e. CMP e ident) (load idl k)) 0 (unat n mod 2 ^ 32) 1 0
    }"

definition mdb_mid2l_search :: "MDB_ID2L \<Rightarrow> MDB_ID \<Rightarrow> nat option" where
  "mdb_mid2l_search idl ident =
    do {
      e0 \<leftarrow> load idl 0;
      midl_search_loop (\<lambda>k. map_option (\<lambda>e. CMP ident (mid e)) (load idl k)) 0
        (unat (mid e0) mod 2 ^ 32) 1 0
    }"

section \<open>Allocation and growth\<close>

definition block_of :: "MDB_IDL_buf \<Rightarrow> MDB_ID list" where
  "block_of b = alloclen b # ids b"

definition of_block :: "MDB_ID list \<Rightarrow> MDB_IDL_buf" where
  "of_block cells = \<lparr>alloclen = hd cells, ids = tl cells\<rparr>"

type_synonym realloc_fun = "MDB_ID list \<Rightarrow> nat \<Rightarrow> MDB_ID list option"

text \<open>
  \<open>malloc\<close> takes a size in bytes and returns the cells of a block that is at least
  that big, or \<open>None\<close> for a null pointer; \<open>realloc\<close> takes the old block as well and
  keeps the cells both blocks have.
\<close>

definition malloc_spec :: "(nat \<Rightarrow> MDB_ID list option) \<Rightarrow> bool" where
  "malloc_spec ma \<longleftrightarrow> (\<forall>n cells. ma n = Some cells \<longrightarrow> length cells = n div 8)"

definition realloc_spec :: "realloc_fun \<Rightarrow> bool" where
  "realloc_spec re \<longleftrightarrow>
    (\<forall>blk n blk'. re blk n = Some blk' \<longrightarrow>
       length blk' = n div 8 \<and> (\<forall>i < min (n div 8) (length blk). blk' ! i = blk ! i))"

definition mdb_midl_alloc ::
  "(nat \<Rightarrow> MDB_ID list option) \<Rightarrow> int \<Rightarrow> MDB_IDL_buf option option" where
  "mdb_midl_alloc ma num =
    (case ma (unat ((word_of_int (num + 2) :: u64) * 8)) of
       None \<Rightarrow> Some None
     | Some cells \<Rightarrow>
         do {
           cells \<leftarrow> store cells 0 (word_of_int num);
           cells \<leftarrow> store cells 1 0;
           Some (Some (of_block cells))
         })"

definition mdb_midl_shrink :: "realloc_fun \<Rightarrow> MDB_IDL_buf \<Rightarrow> MDB_IDL_buf option" where
  "mdb_midl_shrink re b =
    (if unat (alloclen b) > MDB_IDL_UM_MAX then
       case re (block_of b) ((MDB_IDL_UM_MAX + 2) * 8) of
         None \<Rightarrow> Some b
       | Some blk \<Rightarrow>
           do { blk \<leftarrow> store blk 0 (of_nat MDB_IDL_UM_MAX); Some (of_block blk) }
     else Some b)"

definition mdb_midl_grow ::
  "realloc_fun \<Rightarrow> MDB_IDL_buf \<Rightarrow> int \<Rightarrow> (int \<times> MDB_IDL_buf) option" where
  "mdb_midl_grow re b num =
    (case re (block_of b) (unat ((alloclen b + word_of_int num + 2) * 8)) of
       None \<Rightarrow> Some (ENOMEM, b)
     | Some idn \<Rightarrow>
         do {
           n \<leftarrow> load idn 0;
           idn \<leftarrow> store idn 0 (n + word_of_int num);
           Some (0, of_block idn)
         })"

definition mdb_midl_need ::
  "realloc_fun \<Rightarrow> MDB_IDL_buf \<Rightarrow> u32 \<Rightarrow> (int \<times> MDB_IDL_buf) option" where
  "mdb_midl_need re b num =
    do {
      c \<leftarrow> load (ids b) 0;
      let num = num + ucast c in
      (if (ucast num :: u64) > alloclen b then
         let num = (num + num div 4 + (256 + 2)) AND (- 256) in
         case re (block_of b) (unat ((ucast num :: u64) * 8)) of
           None \<Rightarrow> Some (ENOMEM, b)
         | Some blk \<Rightarrow>
             do { blk \<leftarrow> store blk 0 (ucast (num - 2)); Some (0, of_block blk) }
       else Some (0, b))
    }"

section \<open>Appending\<close>

definition mdb_midl_append ::
  "realloc_fun \<Rightarrow> MDB_IDL_buf \<Rightarrow> MDB_ID \<Rightarrow> (int \<times> MDB_IDL_buf) option" where
  "mdb_midl_append re b ident =
    do {
      c \<leftarrow> load (ids b) 0;
      (r, b) \<leftarrow> (if c \<ge> alloclen b then mdb_midl_grow re b (int MDB_IDL_UM_MAX)
                 else Some (0, b));
      (if r \<noteq> 0 then Some (ENOMEM, b)
       else do {
         c \<leftarrow> load (ids b) 0;
         cells \<leftarrow> store (ids b) 0 (c + 1);
         cells \<leftarrow> store cells (unat (c + 1)) ident;
         Some (0, b\<lparr>ids := cells\<rparr>)
       })
    }"

text \<open>\<open>memcpy\<close> of \<open>n\<close> cells, from \<open>src\<close> at \<open>si\<close> to \<open>dst\<close> at \<open>di\<close>.\<close>

definition copy_cells :: "'a list \<Rightarrow> nat \<Rightarrow> 'a list \<Rightarrow> nat \<Rightarrow> nat \<Rightarrow> 'a list option" where
  "copy_cells dst di src si n =
    (if di + n \<le> length dst \<and> si + n \<le> length src
     then Some (take di dst @ subl src si (si + n) @ drop (di + n) dst) else None)"

definition mdb_midl_append_list ::
  "realloc_fun \<Rightarrow> MDB_IDL_buf \<Rightarrow> MDB_IDL \<Rightarrow> (int \<times> MDB_IDL_buf) option" where
  "mdb_midl_append_list re b app =
    do {
      c \<leftarrow> load (ids b) 0;
      a \<leftarrow> load app 0;
      (r, b) \<leftarrow> (if c + a \<ge> alloclen b then mdb_midl_grow re b (sint (ucast a :: u32))
                 else Some (0, b));
      (if r \<noteq> 0 then Some (ENOMEM, b)
       else do {
         c \<leftarrow> load (ids b) 0;
         cells \<leftarrow> copy_cells (ids b) (unat c + 1) app 1 (unat a);
         cells \<leftarrow> store cells 0 (c + a);
         Some (0, b\<lparr>ids := cells\<rparr>)
       })
    }"

text \<open>\<open>while (n) ids[n--] = id++;\<close> with \<open>ids\<close> advanced by \<open>len\<close>.\<close>

fun append_range_loop :: "MDB_ID list \<Rightarrow> nat \<Rightarrow> nat \<Rightarrow> MDB_ID \<Rightarrow> MDB_ID list option" where
  "append_range_loop cells len 0 ident = Some cells"
| "append_range_loop cells len (Suc n) ident =
     do { cells \<leftarrow> store cells (len + Suc n) ident; append_range_loop cells len n (ident + 1) }"

definition mdb_midl_append_range ::
  "realloc_fun \<Rightarrow> MDB_IDL_buf \<Rightarrow> MDB_ID \<Rightarrow> u32 \<Rightarrow> (int \<times> MDB_IDL_buf) option" where
  "mdb_midl_append_range re b ident n =
    do {
      len \<leftarrow> load (ids b) 0;
      (r, b) \<leftarrow> (if len + ucast n > alloclen b
                 then mdb_midl_grow re b (sint (n OR of_nat MDB_IDL_UM_MAX))
                 else Some (0, b));
      (if r \<noteq> 0 then Some (ENOMEM, b)
       else do {
         cells \<leftarrow> store (ids b) 0 (len + ucast n);
         cells \<leftarrow> append_range_loop cells (unat len) (unat n) ident;
         Some (0, b\<lparr>ids := cells\<rparr>)
       })
    }"

section \<open>Merging\<close>

text \<open>
  The two loops of \<open>mdb_midl_xmerge\<close>. \<open>k = i + j\<close> is an invariant of both, so \<open>k\<close>
  is positive whenever it is decremented; \<open>--j\<close> at \<open>j = 0\<close> would leave the array.
\<close>

fun xmerge_shift ::
  "MDB_IDL \<Rightarrow> nat \<Rightarrow> nat \<Rightarrow> MDB_ID \<Rightarrow> MDB_ID \<Rightarrow> (MDB_IDL \<times> nat \<times> nat \<times> MDB_ID) option" where
  "xmerge_shift idl j k old_id merge_id =
    (if old_id < merge_id then
       do {
         idl \<leftarrow> store idl k old_id;
         (case j of
            0 \<Rightarrow> None
          | Suc j \<Rightarrow>
              do { old_id \<leftarrow> load idl j; xmerge_shift idl j (k - 1) old_id merge_id })
       }
     else Some (idl, j, k, old_id))"

declare xmerge_shift.simps [simp del]

fun xmerge_loop ::
  "MDB_IDL \<Rightarrow> MDB_IDL \<Rightarrow> nat \<Rightarrow> nat \<Rightarrow> nat \<Rightarrow> MDB_ID \<Rightarrow> MDB_IDL option" where
  "xmerge_loop merge idl 0 j k old_id = Some idl"
| "xmerge_loop merge idl (Suc i) j k old_id =
     do {
       merge_id \<leftarrow> load merge (Suc i);
       (idl, j, k, old_id) \<leftarrow> xmerge_shift idl j k old_id merge_id;
       idl \<leftarrow> store idl k merge_id;
       xmerge_loop merge idl i j (k - 1) old_id
     }"

definition mdb_midl_xmerge :: "MDB_IDL \<Rightarrow> MDB_IDL \<Rightarrow> MDB_IDL option" where
  "mdb_midl_xmerge idl merge =
    do {
      i \<leftarrow> load merge 0;
      j \<leftarrow> load idl 0;
      let total = i + j in do {
        idl \<leftarrow> store idl 0 (- 1);
        old_id \<leftarrow> load idl (unat j);
        idl \<leftarrow> xmerge_loop merge idl (unat i) (unat j) (unat total) old_id;
        store idl 0 total
      }
    }"

section \<open>Insertion into an ascending list of pairs\<close>

fun mid2l_shift :: "MDB_ID2L \<Rightarrow> nat \<Rightarrow> nat \<Rightarrow> MDB_ID2L option" where
  "mid2l_shift idl i x =
    (if i > x then
       do {
         e \<leftarrow> load idl (i - 1);
         idl \<leftarrow> store idl i e;
         mid2l_shift idl (i - 1) x
       }
     else Some idl)"

declare mid2l_shift.simps [simp del]

definition mdb_mid2l_insert :: "MDB_ID2L \<Rightarrow> MDB_ID2 \<Rightarrow> (int \<times> MDB_ID2L) option" where
  "mdb_mid2l_insert idl ident =
    do {
      x \<leftarrow> mdb_mid2l_search idl (mid ident);
      (if x < 1 then Some (-2, idl)
       else do {
         e0 \<leftarrow> load idl 0;
         dup \<leftarrow> (if x \<le> unat (mid e0)
                 then map_option (\<lambda>e. mid e = mid ident) (load idl x) else Some False);
         (if dup then Some (-1, idl)
          else if unat (mid e0) \<ge> MDB_IDL_UM_MAX then Some (-2, idl)
          else do {
            idl \<leftarrow> store idl 0 (e0\<lparr>mid := mid e0 + 1\<rparr>);
            idl \<leftarrow> mid2l_shift idl (unat (mid e0 + 1) mod 2 ^ 32) x;
            idl \<leftarrow> store idl x ident;
            Some (0, idl)
          })
       })
    }"

definition mdb_mid2l_append :: "MDB_ID2L \<Rightarrow> MDB_ID2 \<Rightarrow> (int \<times> MDB_ID2L) option" where
  "mdb_mid2l_append idl ident =
    do {
      e0 \<leftarrow> load idl 0;
      (if unat (mid e0) \<ge> MDB_IDL_UM_MAX then Some (-2, idl)
       else do {
         idl \<leftarrow> store idl 0 (e0\<lparr>mid := mid e0 + 1\<rparr>);
         idl \<leftarrow> store idl (unat (mid e0 + 1)) ident;
         Some (0, idl)
       })
    }"

section \<open>What the lists hold, and the invariant of an allocated list\<close>

text \<open>What an ID list holds: its first \<open>ids[0]\<close> entries.\<close>

definition idl_entries :: "MDB_IDL \<Rightarrow> MDB_ID list" where
  "idl_entries idl = subl idl 1 (Suc (unat (idl ! 0)))"

definition id2_entries :: "MDB_ID2L \<Rightarrow> MDB_ID2 list" where
  "id2_entries idl = subl idl 1 (Suc (unat (mid (idl ! 0))))"

text \<open>
  The invariant of an allocated list: the block has exactly the cells its capacity says,
  and the count does not exceed the capacity.
\<close>

definition midl_ok :: "MDB_IDL_buf \<Rightarrow> bool" where
  "midl_ok b \<longleftrightarrow> length (ids b) = Suc (unat (alloclen b)) \<and> unat (ids b ! 0) \<le> unat (alloclen b)"

abbreviation entries :: "MDB_IDL_buf \<Rightarrow> MDB_ID list" where
  "entries b \<equiv> idl_entries (ids b)"

text \<open>\<open>b'\<close> is \<open>b\<close> in a bigger block: nothing the list holds has changed.\<close>

definition extends :: "MDB_IDL_buf \<Rightarrow> MDB_IDL_buf \<Rightarrow> bool" where
  "extends b b' \<longleftrightarrow> midl_ok b' \<and> unat (alloclen b) \<le> unat (alloclen b') \<and>
    (\<forall>i < length (ids b). ids b' ! i = ids b ! i)"

section \<open>Binary search is correct in either order\<close>

locale idl_order =
  fixes cmp :: "'e \<Rightarrow> MDB_ID \<Rightarrow> int"
    and entry_id :: "'e \<Rightarrow> MDB_ID"
    and before :: "MDB_ID \<Rightarrow> MDB_ID \<Rightarrow> bool"
  assumes cmp_neg: "cmp e k < 0 \<longleftrightarrow> before k (entry_id e)"
    and cmp_pos: "cmp e k > 0 \<longleftrightarrow> before (entry_id e) k"
    and before_trans: "before a b \<Longrightarrow> before b c \<Longrightarrow> before a c"
    and before_irrefl: "\<not> before a a"
    and before_total: "before a b \<or> a = b \<or> before b a"
begin

lemma cmp_zero: "cmp e k = 0 \<longleftrightarrow> entry_id e = k"
  by (metis before_irrefl before_total cmp_neg cmp_pos linorder_neq_iff)

text \<open>Positions \<open>1 .. N\<close> of a block in the order of the list, equal ids allowed.\<close>

definition ordered :: "'e list \<Rightarrow> nat \<Rightarrow> bool" where
  "ordered es N \<longleftrightarrow>
    (\<forall>i j. 1 \<le> i \<longrightarrow> i < j \<longrightarrow> j \<le> N \<longrightarrow> \<not> before (entry_id (es ! j)) (entry_id (es ! i)))"

definition split_at :: "'e list \<Rightarrow> nat \<Rightarrow> MDB_ID \<Rightarrow> nat \<Rightarrow> bool" where
  "split_at es N k x \<longleftrightarrow> 1 \<le> x \<and> x \<le> Suc N \<and>
    (\<forall>i. 1 \<le> i \<longrightarrow> i < x \<longrightarrow> before (entry_id (es ! i)) k) \<and>
    (\<forall>i. x \<le> i \<longrightarrow> i \<le> N \<longrightarrow> before k (entry_id (es ! i)))"

definition found_at :: "'e list \<Rightarrow> nat \<Rightarrow> MDB_ID \<Rightarrow> nat \<Rightarrow> bool" where
  "found_at es N k x \<longleftrightarrow> 1 \<le> x \<and> x \<le> N \<and> entry_id (es ! x) = k"

lemma ordered_before:
  assumes "ordered es N" "1 \<le> i" "i \<le> j" "j \<le> N" "before (entry_id (es ! j)) k"
  shows "before (entry_id (es ! i)) k"
proof (cases "i = j")
  case False
  then have "\<not> before (entry_id (es ! j)) (entry_id (es ! i))"
    using assms by (simp add: ordered_def)
  then have "entry_id (es ! i) = entry_id (es ! j) \<or> before (entry_id (es ! i)) (entry_id (es ! j))"
    using before_total by blast
  then show ?thesis using assms(5) by (auto intro: before_trans)
qed (use assms in simp)

lemma ordered_after:
  assumes "ordered es N" "1 \<le> i" "i \<le> j" "j \<le> N" "before k (entry_id (es ! i))"
  shows "before k (entry_id (es ! j))"
proof (cases "i = j")
  case False
  then have "\<not> before (entry_id (es ! j)) (entry_id (es ! i))"
    using assms by (simp add: ordered_def)
  then have "entry_id (es ! i) = entry_id (es ! j) \<or> before (entry_id (es ! i)) (entry_id (es ! j))"
    using before_total by blast
  then show ?thesis using assms(5) by (auto intro: before_trans)
qed (use assms in simp)

lemma search_loop_spec:
  assumes "ordered es N" and "N < length es" and "Suc N < 2 ^ 32"
    and "base + n \<le> N"
    and "\<forall>i. 1 \<le> i \<longrightarrow> i \<le> base \<longrightarrow> before (entry_id (es ! i)) k"
    and "\<forall>i. base + n < i \<longrightarrow> i \<le> N \<longrightarrow> before k (entry_id (es ! i))"
    and "val < 0 \<longrightarrow> cursor = base + n + 1" and "val > 0 \<longrightarrow> cursor = base"
    and "val = 0 \<longrightarrow> base = 0 \<and> cursor = 1"
  shows "\<exists>x. midl_search_loop (\<lambda>i. map_option (\<lambda>e. cmp e k) (load es i)) base n cursor val = Some x
    \<and> (found_at es N k x \<or> split_at es N k x)"
  using assms
proof (induction n arbitrary: base cursor val rule: less_induct)
  case (less n)
  note inv = less.prems
  let ?va = "\<lambda>i. map_option (\<lambda>e. cmp e k) (load es i)"
  show ?case
  proof (cases "0 < n")
    case False
    then have n: "n = 0" by simp
    have x: "(if val > 0 then (cursor + 1) mod 2 ^ 32 else cursor) = base + 1"
      using inv(3,4,7-9) n by (cases val "0 :: int" rule: linorder_cases) auto
    have "split_at es N k (base + 1)"
      using inv n by (auto simp: split_at_def)
    then show ?thesis
      using x n by (subst midl_search_loop.simps) auto
  next
    case True
    define p where "p = n div 2"
    define c where "c = base + p + 1"
    have p: "p < n" "p + 1 \<le> n" using True by (auto simp: p_def)
    have c: "1 \<le> c" "c \<le> N" "c < length es" using p inv(2,4) by (auto simp: c_def)
    have unf: "midl_search_loop ?va base n cursor val =
      (if cmp (es ! c) k < 0 then midl_search_loop ?va base p c (cmp (es ! c) k)
       else if cmp (es ! c) k > 0 then midl_search_loop ?va c (n - (p + 1)) c (cmp (es ! c) k)
       else Some c)"
      using True c by (subst midl_search_loop.simps) (simp add: Let_def load_in p_def c_def)
    consider (lt) "cmp (es ! c) k < 0" | (gt) "cmp (es ! c) k > 0" | (eq) "cmp (es ! c) k = 0"
      by linarith
    then show ?thesis
    proof cases
      case lt
      then have "before k (entry_id (es ! c))" by (simp add: cmp_neg)
      then have "\<forall>i. base + p < i \<longrightarrow> i \<le> N \<longrightarrow> before k (entry_id (es ! i))"
        using ordered_after [OF inv(1) c(1)] by (auto simp: c_def)
      then have "\<exists>x. midl_search_loop ?va base p c (cmp (es ! c) k) = Some x
        \<and> (found_at es N k x \<or> split_at es N k x)"
        using p lt inv(4) by (intro less.IH) (use inv in \<open>auto simp: c_def\<close>)
      then show ?thesis using lt unf by simp
    next
      case gt
      then have "before (entry_id (es ! c)) k" by (simp add: cmp_pos)
      then have "\<forall>i. 1 \<le> i \<longrightarrow> i \<le> c \<longrightarrow> before (entry_id (es ! i)) k"
        using ordered_before [OF inv(1) _ _ c(2)] by auto
      moreover have eq: "c + (n - (p + 1)) = base + n" using p by (simp add: c_def)
      ultimately have "\<exists>x. midl_search_loop ?va c (n - (p + 1)) c (cmp (es ! c) k) = Some x
        \<and> (found_at es N k x \<or> split_at es N k x)"
        using p gt inv(4) by (intro less.IH) (use inv in auto)
      then show ?thesis using gt unf by simp
    next
      case eq
      then have "found_at es N k c" using c by (simp add: found_at_def cmp_zero)
      then show ?thesis using eq unf by auto
    qed
  qed
qed

lemma search_spec:
  assumes "ordered es N" and "N < length es" and "Suc N < 2 ^ 32"
  shows "\<exists>x. midl_search_loop (\<lambda>i. map_option (\<lambda>e. cmp e k) (load es i)) 0 N 1 0 = Some x
    \<and> (found_at es N k x \<or> split_at es N k x)"
  by (rule search_loop_spec [OF assms]) auto

end

interpretation desc: idl_order CMP "\<lambda>e. e" "\<lambda>a b. b < a"
  by unfold_locales (auto simp: CMP_def)

interpretation asc: idl_order "\<lambda>e k. CMP k (mid e)" mid "\<lambda>a b. a < b"
  by unfold_locales (auto simp: CMP_def)

section \<open>Merging keeps the order and loses nothing\<close>

lemma subl_Suc: "i \<le> j \<Longrightarrow> j < length m \<Longrightarrow> subl m i (Suc j) = subl m i j @ [m ! j]"
  by (simp add: subl_def Suc_diff_le take_Suc_conv_app_nth)

definition xm_inv :: "MDB_IDL \<Rightarrow> MDB_IDL \<Rightarrow> nat \<Rightarrow> nat \<Rightarrow> nat \<Rightarrow> MDB_ID multiset \<Rightarrow> bool" where
  "xm_inv merge idl i j K MS \<longleftrightarrow>
    i + j \<le> K \<and> K < length idl \<and> i < length merge \<and> idl ! 0 = - 1 \<and>
    sorted_wrt (\<ge>) (subl idl 1 (Suc j)) \<and> sorted_wrt (\<ge>) (subl merge 1 (Suc i)) \<and>
    sorted_wrt (\<ge>) (subl idl (Suc (i + j)) (Suc K)) \<and>
    (\<forall>t \<in> set (subl idl (Suc (i + j)) (Suc K)).
       \<forall>a \<in> set (subl idl 1 (Suc j)) \<union> set (subl merge 1 (Suc i)). t \<le> a) \<and>
    mset (subl idl 1 (Suc j)) + mset (subl merge 1 (Suc i)) +
      mset (subl idl (Suc (i + j)) (Suc K)) = MS"

lemma xm_shift_step:
  assumes inv: "xm_inv merge idl (Suc i) (Suc j) K MS"
    and lt: "idl ! Suc j < merge ! Suc i"
  shows "xm_inv merge (idl[Suc i + Suc j := idl ! Suc j]) (Suc i) j K MS"
proof -
  let ?k = "Suc i + Suc j" let ?idl = "idl[?k := idl ! Suc j]"
  have b: "?k \<le> K" "K < length idl" "Suc i < length merge" using inv by (auto simp: xm_inv_def)
  have A: "subl idl 1 (Suc (Suc j)) = subl idl 1 (Suc j) @ [idl ! Suc j]"
    using b by (intro subl_Suc) auto
  have M: "subl merge 1 (Suc (Suc i)) = subl merge 1 (Suc i) @ [merge ! Suc i]"
    using b by (intro subl_Suc) auto
  have A': "subl ?idl 1 (Suc j) = subl idl 1 (Suc j)" by simp
  have T': "subl ?idl (Suc (Suc i + j)) (Suc K) = idl ! Suc j # subl idl (Suc ?k) (Suc K)"
    using b by (subst subl_Cons) auto
  show ?thesis
    using inv lt b unfolding xm_inv_def A A' T' M
    by (auto simp: sorted_wrt_append ball_Un)
qed

lemma xm_place_step:
  assumes inv: "xm_inv merge idl (Suc i) j K MS"
    and ge: "\<not> idl ! j < merge ! Suc i"
  shows "xm_inv merge (idl[Suc i + j := merge ! Suc i]) i j K MS"
proof -
  let ?k = "Suc i + j" let ?idl = "idl[?k := merge ! Suc i]"
  have b: "?k \<le> K" "K < length idl" "Suc i < length merge" using inv by (auto simp: xm_inv_def)
  have M: "subl merge 1 (Suc (Suc i)) = subl merge 1 (Suc i) @ [merge ! Suc i]"
    using b by (intro subl_Suc) auto
  have A': "subl ?idl 1 (Suc j) = subl idl 1 (Suc j)" by simp
  have T': "subl ?idl (Suc (i + j)) (Suc K) = merge ! Suc i # subl idl (Suc ?k) (Suc K)"
    using b by (subst subl_Cons) auto
  have "\<forall>a \<in> set (subl idl 1 (Suc j)). merge ! Suc i \<le> a"
  proof (cases j)
    case (Suc j')
    then have A: "subl idl 1 (Suc j) = subl idl 1 j @ [idl ! j]"
      using b by (intro subl_Suc) auto
    then have "\<forall>a \<in> set (subl idl 1 (Suc j)). idl ! j \<le> a"
      using inv unfolding xm_inv_def A by (auto simp: sorted_wrt_append)
    then show ?thesis using ge by (meson not_less order_trans)
  qed simp
  then show ?thesis
    using inv b unfolding xm_inv_def A' T' M
    by (auto simp: sorted_wrt_append ball_Un)
qed

lemma xmerge_shift_inv:
  assumes "xm_inv merge idl (Suc i) j K MS"
  shows "\<exists>idl' j'. xmerge_shift idl j (Suc i + j) (idl ! j) (merge ! Suc i)
      = Some (idl', j', Suc i + j', idl' ! j') \<and>
    xm_inv merge idl' (Suc i) j' K MS \<and> \<not> idl' ! j' < merge ! Suc i \<and> length idl' = length idl"
  using assms
proof (induction j arbitrary: idl)
  case 0
  then have "idl ! 0 = - 1" by (simp add: xm_inv_def)
  then have "\<not> idl ! 0 < merge ! Suc i" using word_n1_ge [of "merge ! Suc i"] by (simp add: not_less)
  with 0 show ?case by (subst xmerge_shift.simps) auto
next
  case (Suc j)
  let ?idl = "idl[Suc i + Suc j := idl ! Suc j]"
  show ?case
  proof (cases "idl ! Suc j < merge ! Suc i")
    case True
    from Suc.prems have b: "Suc i + Suc j < length idl" by (simp add: xm_inv_def)
    have "xmerge_shift idl (Suc j) (Suc i + Suc j) (idl ! Suc j) (merge ! Suc i)
      = xmerge_shift ?idl j (Suc i + j) (?idl ! j) (merge ! Suc i)"
      using True b by (subst xmerge_shift.simps) (simp add: mem_simps)
    then show ?thesis using Suc.IH [OF xm_shift_step [OF Suc.prems True]] by simp
  next
    case False
    with Suc.prems show ?thesis by (subst xmerge_shift.simps) auto
  qed
qed

lemma xmerge_loop_inv:
  assumes "xm_inv merge idl i j K MS"
  shows "\<exists>idl'. xmerge_loop merge idl i j (i + j) (idl ! j) = Some idl' \<and>
    length idl' = length idl \<and> sorted_wrt (\<ge>) (subl idl' 1 (Suc K)) \<and> mset (subl idl' 1 (Suc K)) = MS"
  using assms
proof (induction i arbitrary: idl j)
  case 0
  then have "subl idl 1 (Suc K) = subl idl 1 (Suc j) @ subl idl (Suc j) (Suc K)"
    by (intro subl_append) (auto simp: xm_inv_def)
  with 0 show ?case by (auto simp: xm_inv_def sorted_wrt_append)
next
  case (Suc i)
  from xmerge_shift_inv [OF Suc.prems] obtain idl' j' where sh:
    "xmerge_shift idl j (Suc i + j) (idl ! j) (merge ! Suc i) = Some (idl', j', Suc i + j', idl' ! j')"
    and inv: "xm_inv merge idl' (Suc i) j' K MS" and ge: "\<not> idl' ! j' < merge ! Suc i"
    and len: "length idl' = length idl" by blast
  let ?idl = "idl'[Suc i + j' := merge ! Suc i]"
  from inv have b: "Suc i + j' < length idl'" "Suc i < length merge" by (auto simp: xm_inv_def)
  have "xmerge_loop merge idl (Suc i) j (Suc i + j) (idl ! j)
    = xmerge_loop merge ?idl i j' (i + j') (?idl ! j')"
    using b sh by (simp add: mem_simps)
  then show ?case using Suc.IH [OF xm_place_step [OF inv ge]] len by simp
qed

text \<open>
  merging a descending list into a descending list that has room for it gives a
  descending list with exactly the entries of both, counted with multiplicity; every cell
  access is inside the arrays.
\<close>

theorem mdb_midl_xmerge_correct:
  assumes "unat (idl ! 0) + unat (merge ! 0) < length idl" and "unat (merge ! 0) < length merge"
    and "unat (idl ! 0) + unat (merge ! 0) < 2 ^ 64"
    and "sorted_wrt (\<ge>) (idl_entries idl)" and "sorted_wrt (\<ge>) (idl_entries merge)"
  shows "\<exists>idl'. mdb_midl_xmerge idl merge = Some idl' \<and> length idl' = length idl \<and>
    sorted_wrt (\<ge>) (idl_entries idl') \<and>
    mset (idl_entries idl') = mset (idl_entries idl) + mset (idl_entries merge)"
proof -
  let ?i = "unat (merge ! 0)" and ?j = "unat (idl ! 0)"
  let ?idl = "idl[0 := - 1]"
  have tot: "unat (merge ! 0 + idl ! 0) = ?i + ?j"
    using assms(3) by (subst unat_add_lem [THEN iffD1]) auto
  have ne: "merge \<noteq> []" "idl \<noteq> []" using assms(1,2) by auto
  have A: "subl ?idl 1 (Suc ?j) = idl_entries idl" by (simp add: idl_entries_def)
  have inv: "xm_inv merge ?idl ?i ?j (?i + ?j) (mset (idl_entries idl) + mset (idl_entries merge))"
    unfolding xm_inv_def A using assms ne by (auto simp: idl_entries_def)
  obtain idl' where loop: "xmerge_loop merge ?idl ?i ?j (?i + ?j) (?idl ! ?j) = Some idl'"
    and res: "length idl' = length ?idl" "sorted_wrt (\<ge>) (subl idl' 1 (Suc (?i + ?j)))"
      "mset (subl idl' 1 (Suc (?i + ?j))) = mset (idl_entries idl) + mset (idl_entries merge)"
    using xmerge_loop_inv [OF inv] by blast
  let ?out = "idl'[0 := merge ! 0 + idl ! 0]"
  have "mdb_midl_xmerge idl merge = Some ?out"
    using ne assms loop res(1) by (simp add: mdb_midl_xmerge_def load_in store_in tot)
  moreover have "idl_entries ?out = subl idl' 1 (Suc (?i + ?j))"
    using ne res(1) by (simp add: idl_entries_def tot)
  ultimately show ?thesis using res by auto
qed

section \<open>Insertion into an ID2 list\<close>

lemma mid2l_shift_eq:
  "x \<le> i \<Longrightarrow> i < length idl \<Longrightarrow>
    mid2l_shift idl i x = Some (take (Suc x) idl @ subl idl x i @ drop (Suc i) idl)"
proof (induction i arbitrary: idl)
  case 0
  then show ?case by (subst mid2l_shift.simps) simp
next
  case (Suc i)
  show ?case
  proof (cases "x = Suc i")
    case True
    with Suc.prems show ?thesis by (subst mid2l_shift.simps) simp
  next
    case False
    let ?idl = "idl[Suc i := idl ! i]"
    have xi: "x \<le> i" "i < length ?idl" using False Suc.prems by auto
    have "mid2l_shift idl (Suc i) x = mid2l_shift ?idl i x"
      using xi Suc.prems by (subst mid2l_shift.simps) (simp add: mem_simps)
    also have "\<dots> = Some (take (Suc x) ?idl @ subl ?idl x i @ drop (Suc i) ?idl)"
      by (rule Suc.IH [OF xi])
    also have "take (Suc x) ?idl = take (Suc x) idl" using xi by simp
    also have "subl ?idl x i @ drop (Suc i) ?idl = subl idl x (Suc i) @ drop (Suc (Suc i)) idl"
      using xi Suc.prems by (simp add: subl_Suc drop_update_swap Cons_nth_drop_Suc [symmetric])
    finally show ?thesis .
  qed
qed

lemma subl_take_drop: "subl m i j = drop i (take j m)"
  by (simp add: subl_def drop_take)

lemma asc_ordered:
  assumes "sorted_wrt (<) (map mid (id2_entries idl))" and "unat (mid (idl ! 0)) < length idl"
  shows "asc.ordered idl (unat (mid (idl ! 0)))"
  unfolding asc.ordered_def
proof (intro allI impI)
  fix i j
  let ?N = "unat (mid (idl ! 0))"
  assume ij: "1 \<le> i" "i < j" "j \<le> ?N"
  then have "map mid (id2_entries idl) ! (i - 1) < map mid (id2_entries idl) ! (j - 1)"
    using assms by (intro sorted_wrt_nth_less [of "(<)"]) (auto simp: id2_entries_def)
  then show "\<not> mid (idl ! j) < mid (idl ! i)"
    using ij assms(2) by (simp add: id2_entries_def nth_subl)
qed

lemma id2_entries_conv:
  assumes "unat (mid (idl ! 0)) < length idl"
  shows "set (id2_entries idl) = {idl ! k | k. 1 \<le> k \<and> k \<le> unat (mid (idl ! 0))}"
  using assms by (auto simp: id2_entries_def set_subl less_Suc_eq_le)

lemma mid2l_search_found:
  assumes "sorted_wrt (<) (map mid (id2_entries idl))" and "unat (mid (idl ! 0)) < length idl"
    and "Suc (unat (mid (idl ! 0))) < 2 ^ 32"
  shows "\<exists>x. mdb_mid2l_search idl k = Some x \<and>
    (if k \<in> mid ` set (id2_entries idl) then asc.found_at idl (unat (mid (idl ! 0))) k x
     else asc.split_at idl (unat (mid (idl ! 0))) k x)"
proof -
  let ?N = "unat (mid (idl ! 0))"
  have ne: "idl \<noteq> []" using assms(2) by auto
  obtain x where x: "mdb_mid2l_search idl k = Some x"
    and r: "asc.found_at idl ?N k x \<or> asc.split_at idl ?N k x"
    using asc.search_spec [OF asc_ordered [OF assms(1,2)] assms(2,3), of k] ne assms(3)
    by (auto simp: mdb_mid2l_search_def load_in)
  have "asc.split_at idl ?N k x \<Longrightarrow> k \<notin> mid ` set (id2_entries idl)"
    unfolding id2_entries_conv [OF assms(2)] asc.split_at_def
    by (auto simp: not_less) (metis leI order_less_irrefl)
  moreover have "asc.found_at idl ?N k x \<Longrightarrow> k \<in> mid ` set (id2_entries idl)"
    unfolding id2_entries_conv [OF assms(2)] asc.found_at_def by auto
  ultimately show ?thesis using x r by auto
qed

lemma mid2l_insert_new:
  assumes srt: "sorted_wrt (<) (map mid (id2_entries idl))"
    and len: "Suc (unat (mid (idl ! 0))) < length idl"
    and room: "unat (mid (idl ! 0)) < MDB_IDL_UM_MAX"
    and new: "mid e \<notin> mid ` set (id2_entries idl)"
  shows "\<exists>idl'. mdb_mid2l_insert idl e = Some (0, idl') \<and> length idl' = length idl \<and>
    sorted_wrt (<) (map mid (id2_entries idl')) \<and>
    mset (id2_entries idl') = add_mset e (mset (id2_entries idl))"
proof -
  let ?N = "unat (mid (idl ! 0))"
  have N: "?N < length idl" "Suc ?N < 2 ^ 32" using len room by (auto simp: MDB_IDL_UM_MAX_def)
  obtain x where x: "mdb_mid2l_search idl (mid e) = Some x"
    and sp: "asc.split_at idl ?N (mid e) x"
    using mid2l_search_found [OF srt N, of "mid e"] new by auto
  have xb: "1 \<le> x" "x \<le> Suc ?N" using sp by (auto simp: asc.split_at_def)
  define d where "d = (idl ! 0)\<lparr>mid := mid (idl ! 0) + 1\<rparr>"
  define idl0 where "idl0 = idl[0 := d]"
  have cnt: "unat (mid (idl ! 0) + 1) = Suc ?N"
    using N by (subst unat_add_lem [THEN iffD1]) auto
  have l0: "length idl0 = length idl" by (simp add: idl0_def)
  define out where "out = take x idl0 @ e # subl idl0 x (Suc ?N) @ drop (Suc (Suc ?N)) idl0"
  have dup: "x \<le> ?N \<Longrightarrow> mid (idl ! x) \<noteq> mid e"
    using sp by (auto simp: asc.split_at_def)
  have sh: "mid2l_shift idl0 (Suc ?N) x =
    Some (take (Suc x) idl0 @ subl idl0 x (Suc ?N) @ drop (Suc (Suc ?N)) idl0)"
    using xb len by (intro mid2l_shift_eq) (auto simp: l0)
  have upd: "(take (Suc x) idl0 @ subl idl0 x (Suc ?N) @ drop (Suc (Suc ?N)) idl0)[x := e] = out"
    using xb len l0 by (simp add: out_def list_update_append take_Suc_conv_app_nth)
  have ld: "load idl 0 = Some (idl ! 0)" and st: "store idl 0 d = Some idl0"
    using len by (auto simp: load_def store_def idl0_def)
  have dp: "(if x \<le> ?N then map_option (\<lambda>a. mid a = mid e) (load idl x) else Some False) = Some False"
    using dup N(1) by (simp add: load_def)
  have st2: "store (take (Suc x) idl0 @ subl idl0 x (Suc ?N) @ drop (Suc (Suc ?N)) idl0) x e = Some out"
    using xb len l0 upd by (subst store_in) auto
  have "unat (mid (idl ! 0) + 1) mod 2 ^ 32 = Suc ?N" using N(2) by (simp add: cnt)
  then have "mdb_mid2l_insert idl e = Some (0, out)"
    using x xb(1) room by (simp add: mdb_mid2l_insert_def ld st dp sh st2 flip: d_def)
  moreover have hd: "out ! 0 = d" using xb len by (cases idl) (auto simp: out_def nth_append idl0_def)
  have ent: "id2_entries out = subl idl 1 x @ e # subl idl x (Suc ?N)"
  proof -
    have "id2_entries out = drop 1 (take (Suc (Suc ?N)) out)"
      by (simp add: id2_entries_def hd d_def cnt subl_take_drop)
    also have "take (Suc (Suc ?N)) out = take x idl0 @ e # subl idl0 x (Suc ?N)"
      using xb len l0 by (simp add: out_def Suc_diff_le)
    also have "drop 1 \<dots> = drop 1 (take x idl0) @ e # subl idl0 x (Suc ?N)"
      using xb len l0 by (simp add: min_def)
    finally show ?thesis using xb by (simp add: idl0_def subl_take_drop [symmetric])
  qed
  have old: "id2_entries idl = subl idl 1 x @ subl idl x (Suc ?N)"
    unfolding id2_entries_def using xb by (intro subl_append) auto
  have lo: "\<forall>a \<in> set (subl idl 1 x). mid a < mid e"
    using sp xb len by (auto simp: set_subl asc.split_at_def)
  have hi: "\<forall>a \<in> set (subl idl x (Suc ?N)). mid e < mid a"
    using sp xb len by (auto simp: set_subl asc.split_at_def)
  have "sorted_wrt (<) (map mid (id2_entries out))"
    using srt lo hi unfolding ent old by (auto simp: sorted_wrt_append intro: order_less_trans)
  moreover have "length out = length idl" using xb len l0 by (simp add: out_def)
  moreover have "mset (id2_entries out) = add_mset e (mset (id2_entries idl))"
    unfolding ent old by simp
  ultimately show ?thesis by blast
qed

lemma mid2l_insert_dup:
  assumes srt: "sorted_wrt (<) (map mid (id2_entries idl))"
    and N: "unat (mid (idl ! 0)) < length idl" "Suc (unat (mid (idl ! 0))) < 2 ^ 32"
    and dup: "mid e \<in> mid ` set (id2_entries idl)"
  shows "mdb_mid2l_insert idl e = Some (-1, idl)"
proof -
  obtain x where "mdb_mid2l_search idl (mid e) = Some x"
    and "asc.found_at idl (unat (mid (idl ! 0))) (mid e) x"
    using mid2l_search_found [OF srt N, of "mid e"] dup by auto
  then show ?thesis using N by (auto simp: mdb_mid2l_insert_def asc.found_at_def load_def)
qed

lemma mid2l_insert_full:
  assumes srt: "sorted_wrt (<) (map mid (id2_entries idl))"
    and N: "unat (mid (idl ! 0)) < length idl" "Suc (unat (mid (idl ! 0))) < 2 ^ 32"
    and new: "mid e \<notin> mid ` set (id2_entries idl)"
    and full: "MDB_IDL_UM_MAX \<le> unat (mid (idl ! 0))"
  shows "mdb_mid2l_insert idl e = Some (-2, idl)"
proof -
  obtain x where "mdb_mid2l_search idl (mid e) = Some x"
    and "asc.split_at idl (unat (mid (idl ! 0))) (mid e) x"
    using mid2l_search_found [OF srt N, of "mid e"] new by auto
  then show ?thesis using N full by (auto simp: mdb_mid2l_insert_def asc.split_at_def load_def)
qed

section \<open>Growth and appending\<close>

text \<open>The allocator refuses some request for this list.\<close>

definition realloc_fails :: "realloc_fun \<Rightarrow> MDB_IDL_buf \<Rightarrow> bool" where
  "realloc_fails re b \<longleftrightarrow> (\<exists>n. re (block_of b) n = None)"

lemma extends_refl: "midl_ok b \<Longrightarrow> extends b b"
  by (simp add: extends_def)

lemma extends_entries:
  assumes "midl_ok b" "extends b b'"
  shows "entries b' = entries b" and "ids b' ! 0 = ids b ! 0" and "midl_ok b'"
proof -
  have le: "length (ids b) \<le> length (ids b')" "unat (ids b ! 0) < length (ids b)"
    using assms by (auto simp: extends_def midl_ok_def)
  show eq0: "ids b' ! 0 = ids b ! 0" using assms le by (auto simp: extends_def midl_ok_def)
  have "subl (ids b') 1 (Suc (unat (ids b ! 0))) = subl (ids b) 1 (Suc (unat (ids b ! 0)))"
    using assms le by (intro nth_equalityI) (auto simp: nth_subl extends_def)
  then show "entries b' = entries b" by (simp add: idl_entries_def eq0)
  show "midl_ok b'" using assms by (simp add: extends_def)
qed

lemma unat_cells: "a + n + 2 < 2 ^ 61 \<Longrightarrow> unat ((of_nat a + of_nat n + 2 :: u64) * 8) = (a + n + 2) * 8"
proof -
  assume "a + n + 2 < 2 ^ 61"
  then have lt: "(a + n + 2) * 8 < 2 ^ 64" by simp
  have "(of_nat a + of_nat n + 2 :: u64) * 8 = of_nat ((a + n + 2) * 8)" by simp
  then show ?thesis using lt by (simp only: unat_of_nat_u64)
qed

lemma mdb_midl_grow_cases:
  assumes re: "realloc_spec re" and ok: "midl_ok b" and room: "unat (alloclen b) + n + 2 < 2 ^ 61"
  obtains b' where "mdb_midl_grow re b (int n) = Some (0, b')" "extends b b'"
      "unat (alloclen b') = unat (alloclen b) + n"
  | "mdb_midl_grow re b (int n) = Some (ENOMEM, b)" "realloc_fails re b"
proof -
  let ?a = "unat (alloclen b)"
  have bytes: "unat ((alloclen b + word_of_int (int n) + 2) * 8) = (?a + n + 2) * 8"
    using unat_cells [OF room] by simp
  have al: "unat (alloclen b + of_nat n) = ?a + n"
    using room by (simp add: unat_word_ariths unat_of_nat)
  show ?thesis
  proof (cases "re (block_of b) ((?a + n + 2) * 8)")
    case None
    then show ?thesis by (intro that(2))
      (auto simp: mdb_midl_grow_def bytes realloc_fails_def simp del: of_int_of_nat_eq distrib_right_numeral)
  next
    case (Some blk)
    with re have len: "length blk = ?a + n + 2"
      and same: "\<forall>i < length (block_of b). i < ?a + n + 2 \<longrightarrow> blk ! i = block_of b ! i"
      unfolding realloc_spec_def by fastforce+
    then obtain h t where blk: "blk = h # t" by (cases blk) auto
    have h: "h = alloclen b" using same blk by (force simp: block_of_def)
    have t: "t ! i = ids b ! i" if "i < length (ids b)" for i
      using same [rule_format, of "Suc i"] that ok blk by (simp add: block_of_def midl_ok_def)
    have "mdb_midl_grow re b (int n) = Some (0, of_block ((alloclen b + of_nat n) # t))"
      using Some h blk 
      by (simp add: mdb_midl_grow_def bytes load_def store_def del: of_int_of_nat_eq distrib_right_numeral)
        (simp add: of_block_def)
    moreover have "extends b (of_block ((alloclen b + of_nat n) # t))"
      using t len blk al ok by (auto simp: extends_def of_block_def midl_ok_def)
    ultimately show ?thesis using al by (intro that(1)) (auto simp: of_block_def)
  qed
qed

text \<open>Appending to a list that has room: the count and the cells after it change.\<close>

lemma entries_append:
  assumes "midl_ok b" and "unat (ids b ! 0) + length xs \<le> unat (alloclen b)"
    and "length cells = length (ids b)"
    and "\<forall>i. 1 \<le> i \<longrightarrow> i \<le> unat (ids b ! 0) \<longrightarrow> cells ! i = ids b ! i"
    and "\<forall>i < length xs. cells ! (Suc (unat (ids b ! 0)) + i) = xs ! i"
    and "cells ! 0 = ids b ! 0 + of_nat (length xs)"
  shows "entries (b\<lparr>ids := cells\<rparr>) = entries b @ xs" and "midl_ok (b\<lparr>ids := cells\<rparr>)"
proof -
  let ?c = "unat (ids b ! 0)" let ?n = "length xs"
  have lt: "?c + ?n < 2 ^ 64"
    using assms(2) unat_u64 [of "alloclen b"] by linarith
  have c: "unat (cells ! 0) = ?c + ?n"
    using lt assms(6) by (simp add: unat_word_ariths unat_of_nat)
  have len: "Suc (?c + ?n) \<le> length cells" using assms(1-3) by (simp add: midl_ok_def)
  show "midl_ok (b\<lparr>ids := cells\<rparr>)" using assms(1-3) c by (simp add: midl_ok_def)
  have "subl cells 1 (Suc (?c + ?n)) = subl cells 1 (Suc ?c) @ subl cells (Suc ?c) (Suc (?c + ?n))"
    by (rule subl_append) auto
  also have "subl cells 1 (Suc ?c) = idl_entries (ids b)"
    using len assms by (intro nth_equalityI) (auto simp: idl_entries_def nth_subl)
  also have "subl cells (Suc ?c) (Suc (?c + ?n)) = xs"
    using len assms(5) by (intro nth_equalityI) (auto simp: nth_subl)
  finally show "entries (b\<lparr>ids := cells\<rparr>) = entries b @ xs" by (simp add: idl_entries_def c)
qed

text \<open>The growth step in front of every append: it fails cleanly or makes room for \<open>m\<close> more.\<close>

lemma make_room_cases:
  assumes re: "realloc_spec re" and wf: "midl_ok b" and room: "unat (alloclen b) + n + 2 < 2 ^ 61"
    and stay: "\<not> P \<Longrightarrow> unat (ids b ! 0) + m \<le> unat (alloclen b)" and mn: "m \<le> n"
  obtains "(if P then mdb_midl_grow re b (int n) else Some (0, b)) = Some (ENOMEM, b)"
      "realloc_fails re b"
  | b1 where "(if P then mdb_midl_grow re b (int n) else Some (0, b)) = Some (0, b1)"
      "midl_ok b1" "entries b1 = entries b" "ids b1 ! 0 = ids b ! 0"
      "unat (ids b1 ! 0) + m \<le> unat (alloclen b1)"
proof (cases P)
  case True
  from re wf room show ?thesis
  proof (cases rule: mdb_midl_grow_cases)
    case (1 b')
    with wf mn have "unat (ids b ! 0) + m \<le> unat (alloclen b')" by (simp add: midl_ok_def)
    then show ?thesis using True 1 extends_entries [OF wf 1(2)] by (intro that(2) [of b']) auto
  next
    case 2
    then show ?thesis using True by (intro that(1)) simp_all
  qed
next
  case False
  then show ?thesis using stay wf by (intro that(2) [of b]) auto
qed

lemma append_spec:
  assumes re: "realloc_spec re" and wf: "midl_ok b" and room: "unat (alloclen b) < 2 ^ 60"
  shows "\<exists>r b'. mdb_midl_append re b x = Some (r, b') \<and> midl_ok b' \<and>
    (r = 0 \<and> entries b' = entries b @ [x] \<or> r = ENOMEM \<and> b' = b \<and> realloc_fails re b)"
proof -
  let ?P = "ids b ! 0 \<ge> alloclen b"
  have ld: "load (ids b) 0 = Some (ids b ! 0)" using wf by (simp add: midl_ok_def load_def)
  have r: "unat (alloclen b) + MDB_IDL_UM_MAX + 2 < 2 ^ 61"
    using room by (simp add: MDB_IDL_UM_MAX_def)
  have "\<not> ?P \<Longrightarrow> unat (ids b ! 0) + 1 \<le> unat (alloclen b)" by (simp add: word_le_nat_alt)
  then show ?thesis
  proof (rule make_room_cases [OF re wf r])
    show "1 \<le> MDB_IDL_UM_MAX" by (simp add: MDB_IDL_UM_MAX_def)
  next
    assume f: "realloc_fails re b" and "(if ?P then mdb_midl_grow re b (int MDB_IDL_UM_MAX) else Some (0, b)) = Some (ENOMEM, b)"
    then show ?thesis using wf f by (simp add: mdb_midl_append_def ld ENOMEM_def)
  next
    fix b1
    assume g: "(if ?P then mdb_midl_grow re b (int MDB_IDL_UM_MAX) else Some (0, b)) = Some (0, b1)"
      and b1: "midl_ok b1" "entries b1 = entries b" "unat (ids b1 ! 0) + 1 \<le> unat (alloclen b1)"
    let ?c = "ids b1 ! 0"
    have c1: "unat (?c + 1) = Suc (unat ?c)"
      using b1(3) unat_u64 [of "alloclen b1"] by (subst unat_add_u64) auto
    have len: "Suc (unat ?c) < length (ids b1)" using b1 by (simp add: midl_ok_def)
    have l0: "0 < length (ids b1)" using len by linarith
    let ?cells = "(ids b1)[0 := ?c + 1, Suc (unat ?c) := x]"
    have app: "mdb_midl_append re b x = Some (0, b1\<lparr>ids := ?cells\<rparr>)"
      
      using g len l0 by (simp add: mdb_midl_append_def ld load_in store_in c1)
    have "entries (b1\<lparr>ids := ?cells\<rparr>) = entries b1 @ [x] \<and> midl_ok (b1\<lparr>ids := ?cells\<rparr>)"
      using b1 len l0 by (intro conjI entries_append [where xs = "[x]"]) auto
    then show ?thesis using app b1(2) by auto
  qed
qed

lemma append_range_loop_eq:
  "len + n < length cells \<Longrightarrow>
    append_range_loop cells len n x =
      Some (take (Suc len) cells @ map (\<lambda>k. x + of_nat (n - Suc k)) [0..<n] @ drop (Suc (len + n)) cells)"
proof (induction n arbitrary: cells x)
  case 0
  then show ?case by simp
next
  case (Suc n)
  let ?cells = "cells[len + Suc n := x]"
  have "append_range_loop cells len (Suc n) x = append_range_loop ?cells len n (x + 1)"
    using Suc.prems by (simp add: store_in)
  also have "\<dots> = Some (take (Suc len) ?cells @ map (\<lambda>k. x + 1 + of_nat (n - Suc k)) [0..<n]
      @ drop (Suc (len + n)) ?cells)"
    using Suc.prems by (intro Suc.IH) simp
  also have "drop (Suc (len + n)) ?cells = x # drop (Suc (len + Suc n)) cells"
    using Suc.prems by (simp add: Cons_nth_drop_Suc [symmetric])
  also have "map (\<lambda>k. x + 1 + of_nat (n - Suc k)) [0..<n] = map (\<lambda>k. x + of_nat (Suc n - Suc k)) [0..<n]"
    by (auto simp: of_nat_diff)
  finally show ?case using Suc.prems by simp
qed

text \<open>
  \<open>mdb_midl_append_range\<close> either reports \<open>ENOMEM\<close> and leaves the list alone, or
  appends the ids \<open>x + n - 1, \<dots>, x\<close> in descending order; the block always matches its
  capacity.
\<close>

theorem mdb_midl_append_range_correct:
  assumes re: "realloc_spec re" and wf: "midl_ok b" and room: "unat (alloclen b) < 2 ^ 60"
    and n: "unat n < 2 ^ 31"
  shows "\<exists>r b'. mdb_midl_append_range re b x n = Some (r, b') \<and> midl_ok b' \<and>
    (r = 0 \<and> entries b' = entries b @ map (\<lambda>k. x + of_nat (unat n - Suc k)) [0..<unat n] \<or>
     r = ENOMEM \<and> b' = b \<and> realloc_fails re b)"
proof -
  define m :: u32 where "m = n OR of_nat MDB_IDL_UM_MAX"
  let ?P = "ids b ! 0 + ucast n > alloclen b"
  let ?xs = "map (\<lambda>k. x + of_nat (unat n - Suc k)) [0..<unat n]"
  have ld: "load (ids b) 0 = Some (ids b ! 0)" using wf by (simp add: midl_ok_def load_def)
  have m31: "unat m < 2 ^ 31"
  proof -
    have "take_bit 31 n = n" 
      using n by (simp add: word_unat_eq_iff unsigned_take_bit_eq take_bit_nat_eq_self)
    then have "take_bit 31 m = m"
      by (simp add: m_def MDB_IDL_UM_MAX_def take_bit_or)
    then show ?thesis by (metis unsigned_take_bit_eq take_bit_nat_less_exp)
  qed
  have nm: "unat n \<le> unat m"
    unfolding m_def by (simp add: word_le_nat_alt [symmetric] le_word_or2)
  have si: "sint m = int (unat m)" using m31 by (rule sint_small_u32)
  have cn: "unat (ids b ! 0 + ucast n) = unat (ids b ! 0) + unat n"
    using wf room n by (subst unat_add_u64) (auto simp: midl_ok_def)
  have r: "unat (alloclen b) + unat m + 2 < 2 ^ 61" using room m31 by simp
  have "\<not> ?P \<Longrightarrow> unat (ids b ! 0) + unat n \<le> unat (alloclen b)"
    by (simp add: word_le_nat_alt not_less cn)
  then show ?thesis
  proof (rule make_room_cases [OF re wf r])
    show "unat n \<le> unat m" by (rule nm)
  next
    assume f: "realloc_fails re b" and "(if ?P then mdb_midl_grow re b (int (unat m)) else Some (0, b)) = Some (ENOMEM, b)"
    then have "mdb_midl_append_range re b x n = Some (ENOMEM, b)"
      unfolding mdb_midl_append_range_def m_def [symmetric] ld bind.bind_lunit si
      by (simp only: bind.bind_lunit) (simp add: ENOMEM_def)
    then show ?thesis using wf f by simp
  next
    fix b1
    assume g: "(if ?P then mdb_midl_grow re b (int (unat m)) else Some (0, b)) = Some (0, b1)"
      and b1: "midl_ok b1" "entries b1 = entries b" "ids b1 ! 0 = ids b ! 0"
        "unat (ids b1 ! 0) + unat n \<le> unat (alloclen b1)"
    let ?c = "unat (ids b1 ! 0)"
    have len: "?c + unat n < length (ids b1)" using b1 by (simp add: midl_ok_def)
    have l0: "0 < length (ids b1)" using len by linarith
    let ?init = "(ids b1)[0 := ids b1 ! 0 + ucast n]"
    let ?cells = "take (Suc ?c) ?init @ ?xs @ drop (Suc (?c + unat n)) ?init"
    have app: "mdb_midl_append_range re b x n = Some (0, b1\<lparr>ids := ?cells\<rparr>)"
      unfolding mdb_midl_append_range_def m_def [symmetric] ld bind.bind_lunit si g
      using len b1(3) l0 by (simp add: store_in append_range_loop_eq)
    have hd: "?cells ! 0 = ids b1 ! 0 + of_nat (length ?xs)"
      using len l0 by (simp add: nth_append)
    have "entries (b1\<lparr>ids := ?cells\<rparr>) = entries b1 @ ?xs \<and> midl_ok (b1\<lparr>ids := ?cells\<rparr>)"
      using b1 len l0 hd by (intro conjI entries_append [where xs = ?xs]) (auto simp: nth_append)
    then show ?thesis using app b1(2) by auto
  qed
qed

text \<open>
  \<open>mdb_midl_append_list\<close> either reports \<open>ENOMEM\<close> and leaves the list alone, or
  appends the entries of the other list in their order; the block always matches its
  capacity.
\<close>

theorem mdb_midl_append_list_correct:
  assumes re: "realloc_spec re" and wf: "midl_ok b" and room: "unat (alloclen b) < 2 ^ 60"
    and app: "unat (app ! 0) < length app" and small: "unat (app ! 0) < 2 ^ 31"
  shows "\<exists>r b'. mdb_midl_append_list re b app = Some (r, b') \<and> midl_ok b' \<and>
    (r = 0 \<and> entries b' = entries b @ idl_entries app \<or> r = ENOMEM \<and> b' = b \<and> realloc_fails re b)"
proof -
  let ?a = "app ! 0" let ?n = "unat (app ! 0)"
  let ?P = "ids b ! 0 + ?a \<ge> alloclen b"
  have ld: "load (ids b) 0 = Some (ids b ! 0)" using wf by (simp add: midl_ok_def load_def)
  have la: "load app 0 = Some ?a" using app by (auto simp: load_def)
  have un: "unat (ucast ?a :: u32) = ?n"
    using small by (simp add: unsigned_ucast_eq take_bit_nat_eq_self)
  have si: "sint (ucast ?a :: u32) = int ?n"
    using sint_small_u32 [of "ucast ?a"] small by (simp only: un)
  have cn: "unat (ids b ! 0 + ?a) = unat (ids b ! 0) + ?n"
    using wf room small by (subst unat_add_u64) (auto simp: midl_ok_def)
  have r: "unat (alloclen b) + ?n + 2 < 2 ^ 61" using room small by simp
  have "\<not> ?P \<Longrightarrow> unat (ids b ! 0) + ?n \<le> unat (alloclen b)"
    by (simp add: word_le_nat_alt cn)
  then show ?thesis
  proof (rule make_room_cases [OF re wf r])
    show "?n \<le> ?n" ..
  next
    assume f: "realloc_fails re b" and "(if ?P then mdb_midl_grow re b (int ?n) else Some (0, b)) = Some (ENOMEM, b)"
    then have "mdb_midl_append_list re b app = Some (ENOMEM, b)"
      unfolding mdb_midl_append_list_def ld la bind.bind_lunit si
      by (simp only: bind.bind_lunit) (simp add: ENOMEM_def)
    then show ?thesis using wf f by simp
  next
    fix b1
    assume g: "(if ?P then mdb_midl_grow re b (int ?n) else Some (0, b)) = Some (0, b1)"
      and b1: "midl_ok b1" "entries b1 = entries b" "unat (ids b1 ! 0) + ?n \<le> unat (alloclen b1)"
    let ?c = "unat (ids b1 ! 0)"
    have len: "?c + ?n < length (ids b1)" using b1 by (simp add: midl_ok_def)
    have l0: "0 < length (ids b1)" using len by linarith
    let ?mid = "take (Suc ?c) (ids b1) @ idl_entries app @ drop (Suc (?c + ?n)) (ids b1)"
    let ?cells = "?mid[0 := ids b1 ! 0 + ?a]"
    have xs: "length (idl_entries app) = ?n" using app by (simp add: idl_entries_def)
    have cp: "copy_cells (ids b1) (?c + 1) app 1 ?n = Some ?mid"
      using len app by (simp add: copy_cells_def idl_entries_def)
    have app': "mdb_midl_append_list re b app = Some (0, b1\<lparr>ids := ?cells\<rparr>)"
      unfolding mdb_midl_append_list_def ld la bind.bind_lunit si g
      using len l0 cp by (simp add: load_in store_in xs)
    have "entries (b1\<lparr>ids := ?cells\<rparr>) = entries b1 @ idl_entries app \<and> midl_ok (b1\<lparr>ids := ?cells\<rparr>)"
      using b1 len l0
      by (intro conjI entries_append [where xs = "idl_entries app"]) (auto simp: nth_append xs)
    then show ?thesis using app' b1(2) by auto
  qed
qed

text \<open>The new size that \<open>mdb_midl_need\<close> computes: rounded down to a multiple of 256.\<close>

lemma need_round:
  fixes t :: u32
  assumes "unat t < 2 ^ 31"
  defines "m \<equiv> (t + t div 4 + (256 + 2)) AND (- 256)"
  shows "unat (m - 2) = unat m - 2" and "unat t + 3 \<le> unat m"
proof -
  let ?s = "t + t div 4 + (256 + 2)"
  have d: "unat (t div 4) = unat t div 4" by (simp add: unat_div)
  have "unat (t + t div 4) = unat t + unat t div 4"
    using assms(1) by (subst unat_add_u32) (auto simp: d)
  then have s: "unat ?s = unat t + unat t div 4 + 258"
    using assms(1) by (subst unat_add_u32) auto
  have "m = ?s - take_bit 8 ?s"
  proof -
    have nm: "(- 256 :: u32) = NOT (mask 8)" by (simp add: mask_numeral)
    have "m AND take_bit 8 ?s = 0"
      unfolding m_def nm by (rule bit_word_eqI) (auto simp: bit_simps)
    then have "m + take_bit 8 ?s = m OR take_bit 8 ?s" by (rule disjunctive_add_eq_or)
    also have "\<dots> = ?s" unfolding m_def nm by (rule bit_word_eqI) (auto simp: bit_simps)
    finally show ?thesis by (simp add: eq_diff_eq)
  qed
  moreover have "unat (take_bit 8 ?s) \<le> 255"
    by (simp add: unsigned_take_bit_eq less_Suc_eq_le [symmetric]) (simp add: take_bit_nat_def)
  moreover have "take_bit 8 ?s \<le> ?s"
    by (simp add: word_le_nat_alt unsigned_take_bit_eq take_bit_nat_less_eq_self)
  ultimately have "unat m = unat ?s - unat (take_bit 8 ?s)" "unat (take_bit 8 ?s) \<le> 255"
    by (auto simp: unat_sub)
  then have "unat t + 3 \<le> unat m" unfolding s by auto
  then show "unat (m - 2) = unat m - 2" "unat t + 3 \<le> unat m"
    by (auto simp: unat_sub word_le_nat_alt)
qed

text \<open>
  after \<open>mdb_midl_need\<close> returned 0 the list has room for \<open>num\<close> more entries and
  holds what it held; otherwise it reports \<open>ENOMEM\<close> and nothing changed.
\<close>

theorem mdb_midl_need_correct:
  assumes re: "realloc_spec re" and wf: "midl_ok b"
    and small: "unat (ids b ! 0) + unat num < 2 ^ 31"
  shows "\<exists>r b'. mdb_midl_need re b num = Some (r, b') \<and> midl_ok b' \<and> entries b' = entries b \<and>
    (r = 0 \<and> unat (ids b' ! 0) + unat num \<le> unat (alloclen b') \<or> r = ENOMEM \<and> b' = b \<and> realloc_fails re b)"
proof -
  let ?c = "ids b ! 0"
  define t :: u32 where "t = num + ucast ?c"
  define m :: u32 where "m = (t + t div 4 + (256 + 2)) AND (- 256)"
  have ld: "load (ids b) 0 = Some ?c" using wf by (simp add: midl_ok_def load_def)
  have uc: "unat (ucast ?c :: u32) = unat ?c"
    using small by (simp add: unsigned_ucast_eq take_bit_nat_eq_self)
  have t: "unat t = unat ?c + unat num"
    unfolding t_def using small by (subst unat_add_u32) (auto simp: uc)
  have m2: "unat (m - 2) = unat m - 2" "unat t + 3 \<le> unat m"
    unfolding m_def using need_round [of t] t small by auto
  have bytes: "unat ((ucast m :: u64) * 8) = unat m * 8"
    using unat_u32 [of m] by (simp add: unat_word_ariths)
  show ?thesis
  proof (cases "(ucast t :: u64) > alloclen b")
    case False
    then have "mdb_midl_need re b num = Some (0, b)"
      by (simp add: mdb_midl_need_def ld Let_def flip: t_def)
    moreover have "unat ?c + unat num \<le> unat (alloclen b)"
      using False t by (simp add: word_less_nat_alt)
    ultimately show ?thesis using wf by simp
  next
    case True
    then have big: "unat (alloclen b) < unat t" by (simp add: word_less_nat_alt)
    have unf: "mdb_midl_need re b num = (case re (block_of b) (unat m * 8) of
        None \<Rightarrow> Some (ENOMEM, b)
      | Some blk \<Rightarrow> do { blk \<leftarrow> store blk 0 (ucast (m - 2)); Some (0, of_block blk) })"
      using True unfolding mdb_midl_need_def ld bind.bind_lunit Let_def t_def [symmetric] m_def [symmetric] bytes
      by simp
    show ?thesis
    proof (cases "re (block_of b) (unat m * 8)")
      case None
      then show ?thesis using wf by (auto simp: unf realloc_fails_def)
    next
      case (Some blk)
      with re have len: "length blk = unat m"
        and same: "\<forall>i < length (block_of b). i < unat m \<longrightarrow> blk ! i = block_of b ! i"
        unfolding realloc_spec_def by fastforce+
      then obtain h tl' where blk: "blk = h # tl'" using m2 by (cases blk) auto
      let ?b = "of_block (ucast (m - 2) # tl')"
      have tl': "tl' ! i = ids b ! i" if "i < length (ids b)" for i
        using same [rule_format, of "Suc i"] that wf m2 big blk
        by (simp add: block_of_def midl_ok_def)
      have ext: "extends b ?b"
        using tl' [of 0] tl' len blk m2 t big wf by (auto simp: extends_def of_block_def midl_ok_def)
      note e = extends_entries [OF wf ext]
      have "mdb_midl_need re b num = Some (0, ?b)"
        using Some blk by (simp add: unf store_def)
      moreover have "unat ?c + unat num \<le> unat (alloclen ?b)"
        using m2 t by (simp add: of_block_def)
      ultimately show ?thesis using e by auto
    qed
  qed
qed

lemma alloc_spec:
  assumes ma: "malloc_spec ma" and num: "0 \<le> num" "num < 2 ^ 31"
  shows "mdb_midl_alloc ma num = Some None \<or>
    (\<exists>b. mdb_midl_alloc ma num = Some (Some b) \<and> midl_ok b \<and> entries b = [] \<and>
       unat (alloclen b) = nat num)"
proof -
  obtain n where n: "num = int n" "n < 2 ^ 31" using num by (cases num) auto
  have bytes: "unat ((word_of_int (num + 2) :: u64) * 8) = (n + 2) * 8"
    using unat_cells [of n 0] n by (simp add: algebra_simps)
  show ?thesis
  proof (cases "ma ((n + 2) * 8)")
    case None
    then show ?thesis unfolding mdb_midl_alloc_def bytes by simp
  next
    case (Some cells)
    with ma have len: "length cells = n + 2" by (auto simp: malloc_spec_def)
    then obtain a c cs where cells: "cells = a # c # cs" by (cases cells; cases "tl cells") auto
    have "mdb_midl_alloc ma num = Some (Some \<lparr>alloclen = of_nat n, ids = 0 # cs\<rparr>)"
      unfolding mdb_midl_alloc_def bytes
      using Some cells n by (simp add: store_def of_block_def)
    moreover have "unat (of_nat n :: u64) = n" using n by (simp add: unat_of_nat_u64)
    ultimately show ?thesis using len cells n by (auto simp: midl_ok_def idl_entries_def)
  qed
qed


section \<open>The properties of the ID lists\<close>

lemma desc_ordered:
  assumes "sorted_wrt (\<ge>) (idl_entries idl)" and "unat (idl ! 0) < length idl"
  shows "desc.ordered idl (unat (idl ! 0))"
  unfolding desc.ordered_def
proof (intro allI impI)
  fix i j
  assume ij: "1 \<le> i" "i < j" "j \<le> unat (idl ! 0)"
  then have "idl_entries idl ! (i - 1) \<ge> idl_entries idl ! (j - 1)"
    using assms by (intro sorted_wrt_nth_less [of "(\<ge>)"]) (auto simp: idl_entries_def)
  then show "\<not> idl ! i < idl ! j" using ij assms by (simp add: idl_entries_def nth_subl)
qed

text \<open>
  on a descending list, \<open>mdb_midl_search\<close> terminates without leaving the array and
  returns a position of the key when the list holds it, and otherwise the position that
  separates the greater ids from the smaller ones.
\<close>

theorem mdb_midl_search_correct:
  assumes "sorted_wrt (\<ge>) (idl_entries idl)" and "unat (idl ! 0) < length idl"
    and "Suc (unat (idl ! 0)) < 2 ^ 32"
  shows "\<exists>x. mdb_midl_search idl k = Some x \<and> 1 \<le> x \<and> x \<le> Suc (unat (idl ! 0)) \<and>
    (if k \<in> set (idl_entries idl) then x \<le> unat (idl ! 0) \<and> idl ! x = k
     else (\<forall>i. 1 \<le> i \<longrightarrow> i < x \<longrightarrow> k < idl ! i) \<and>
          (\<forall>i. x \<le> i \<longrightarrow> i \<le> unat (idl ! 0) \<longrightarrow> idl ! i < k))"
proof -
  let ?N = "unat (idl ! 0)"
  have "unat (idl ! 0) mod 2 ^ 32 = ?N" using assms(3) by simp
  moreover have "load idl 0 = Some (idl ! 0)" using assms(2) by (auto simp: load_def)
  ultimately obtain x where x: "mdb_midl_search idl k = Some x"
    and r: "desc.found_at idl ?N k x \<or> desc.split_at idl ?N k x"
    using desc.search_spec [OF desc_ordered [OF assms(1,2)] assms(2,3), of k]
    by (auto simp: mdb_midl_search_def)
  have "k \<in> set (idl_entries idl) \<longleftrightarrow> (\<exists>i. 1 \<le> i \<and> i \<le> ?N \<and> idl ! i = k)"
    using assms(2) by (auto simp: idl_entries_def set_subl less_Suc_eq_le)
  then show ?thesis
    using x r unfolding desc.found_at_def desc.split_at_def
    by (cases "desc.found_at idl ?N k x")
      (auto simp: desc.found_at_def, (metis less_irrefl not_le_imp_less)+)
qed

theorem mdb_midl_search_witness:
  "\<exists>x. mdb_midl_search [3, 9, 7, 5] 6 = Some x \<and> 1 \<le> x \<and> x \<le> 4 \<and>
    (\<forall>i. 1 \<le> i \<longrightarrow> i < x \<longrightarrow> 6 < [3, 9, 7, 5 :: MDB_ID] ! i)"
  using mdb_midl_search_correct [of "[3, 9, 7, 5]" 6]
  by (auto simp: idl_entries_def subl_def)

text \<open>
  \<open>mdb_mid2l_insert\<close> on an ascending list reports -1 for an id the list has and -2 when
  the list is full, changing nothing; otherwise it inserts the pair and keeps the list
  ascending and duplicate-free.
\<close>

theorem mdb_mid2l_insert_correct:
  assumes "sorted_wrt (<) (map mid (id2_entries idl))"
    and "unat (mid (idl ! 0)) \<le> MDB_IDL_UM_MAX" and "MDB_IDL_UM_MAX < length idl"
  shows "if mid e \<in> mid ` set (id2_entries idl) then mdb_mid2l_insert idl e = Some (-1, idl)
    else if unat (mid (idl ! 0)) = MDB_IDL_UM_MAX then mdb_mid2l_insert idl e = Some (-2, idl)
    else \<exists>idl'. mdb_mid2l_insert idl e = Some (0, idl') \<and> length idl' = length idl \<and>
      sorted_wrt (<) (map mid (id2_entries idl')) \<and>
      mset (id2_entries idl') = add_mset e (mset (id2_entries idl))"
proof -
  have N: "unat (mid (idl ! 0)) < length idl" "Suc (unat (mid (idl ! 0))) < 2 ^ 32"
    using assms(2,3) by (auto simp: MDB_IDL_UM_MAX_def)
  show ?thesis
    using assms mid2l_insert_dup [OF assms(1) N, of e] mid2l_insert_full [OF assms(1) N, of e]
      mid2l_insert_new [OF assms(1), of e] by auto
qed

theorem mdb_mid2l_insert_witness:
  "\<exists>idl'. mdb_mid2l_insert (replicate 131072 \<lparr>mid = 0, mptr = 0\<rparr>) \<lparr>mid = 5, mptr = 1\<rparr> = Some (0, idl') \<and>
    mset (id2_entries idl') = {#\<lparr>mid = 5, mptr = 1\<rparr>#}"
  using mdb_mid2l_insert_correct [of "replicate 131072 \<lparr>mid = 0, mptr = 0\<rparr>" "\<lparr>mid = 5, mptr = 1\<rparr>"]
  by (auto simp: id2_entries_def MDB_IDL_UM_MAX_def)

subsection \<open>Instances\<close>

text \<open>A reallocation that never fails and clears what it adds.\<close>

definition zero_realloc :: realloc_fun where
  "zero_realloc blk n = Some (take (n div 8) blk @ replicate (n div 8 - length blk) 0)"

lemma zero_realloc_spec: "realloc_spec zero_realloc"
  by (auto simp: realloc_spec_def zero_realloc_def nth_append)

theorem mdb_midl_xmerge_witness:
  "\<exists>idl'. mdb_midl_xmerge [2, 9, 4, 0, 0] [2, 7, 4] = Some idl' \<and>
    mset (idl_entries idl') = {#9, 7, 4, 4#}"
  using mdb_midl_xmerge_correct [of "[2, 9, 4, 0, 0]" "[2, 7, 4]"]
  by (auto simp: idl_entries_def subl_def)

theorem mdb_midl_append_range_witness:
  "\<exists>b'. mdb_midl_append_range zero_realloc \<lparr>alloclen = 2, ids = [1, 7, 0]\<rparr> 20 3 = Some (0, b') \<and>
    entries b' = [7, 22, 21, 20]"
  using mdb_midl_append_range_correct [OF zero_realloc_spec, of "\<lparr>alloclen = 2, ids = [1, 7, 0]\<rparr>" 3 20]
  by (auto simp: midl_ok_def idl_entries_def subl_def realloc_fails_def zero_realloc_def upt_rec)

theorem mdb_midl_append_list_witness:
  "\<exists>b'. mdb_midl_append_list zero_realloc \<lparr>alloclen = 2, ids = [1, 7, 0]\<rparr> [2, 5, 4] = Some (0, b') \<and>
    entries b' = [7, 5, 4]"
  using mdb_midl_append_list_correct [OF zero_realloc_spec, of "\<lparr>alloclen = 2, ids = [1, 7, 0]\<rparr>" "[2, 5, 4]"]
  by (auto simp: midl_ok_def idl_entries_def subl_def realloc_fails_def zero_realloc_def)

theorem mdb_midl_need_witness:
  "\<exists>b'. mdb_midl_need zero_realloc \<lparr>alloclen = 2, ids = [1, 7, 0]\<rparr> 9 = Some (0, b') \<and>
    entries b' = [7] \<and> unat (ids b' ! 0) + 9 \<le> unat (alloclen b')"
  using mdb_midl_need_correct [OF zero_realloc_spec, of "\<lparr>alloclen = 2, ids = [1, 7, 0]\<rparr>" 9]
  by (auto simp: midl_ok_def idl_entries_def subl_def realloc_fails_def zero_realloc_def)

end
