(* ===== verification/MidlSort.thy ===== *)
theory MidlSort
  imports Midl
begin

text \<open>
  \<open>mdb_midl_sort\<close> of \<open>src/lmdb/midl.c\<close>: a quicksort with a median of three, an explicit
  stack of 64 integers and insertion sort below eight cells, into descending order. The
  definitions come first; the proof establishes that the loop terminates, never leaves the
  array or the stack, permutes the entries and leaves them in order.

  The indices are \<open>int\<close>. They are never negative where they are used, so they are natural
  numbers here; sums that can leave \<open>int\<close> are checked (\<open>add32\<close>) and are \<open>None\<close> when they do.
\<close>


section \<open>The program\<close>

definition add32 :: "nat \<Rightarrow> nat \<Rightarrow> nat option" where
  "add32 a b = map_option nat (int32 (int a + int b))"

lemma add32_in: "a + b < 2 ^ 31 \<Longrightarrow> add32 a b = Some (a + b)"
  by (simp add: add32_def int32_def nat_add_distrib flip: of_nat_add of_nat_less_iff)

lemma int32_pred: "n \<le> 2 ^ 31 \<Longrightarrow> int32 (int n - 1) = Some (int n - 1)"
proof -
  assume "n \<le> 2 ^ 31"
  then have "int n \<le> int (2 ^ 31)" by (simp only: of_nat_le_iff)
  then have "- (2 ^ 31) \<le> int n - 1 \<and> int n - 1 < 2 ^ 31" by simp
  then show ?thesis by (simp only: int32_def if_True simp_thms)
qed

lemma add32_SomeD: "add32 a b = Some c \<Longrightarrow> c = a + b"
  by (auto simp: add32_def int32_def nat_add_distrib split: if_splits)

definition SMALL :: nat where
  "SMALL = 8"

definition MIDL_SWAP :: "MDB_IDL \<Rightarrow> nat \<Rightarrow> nat \<Rightarrow> MDB_IDL option" where
  "MIDL_SWAP idl a b =
    do { x \<leftarrow> load idl a; y \<leftarrow> load idl b; idl \<leftarrow> store idl a y; store idl b x }"

definition swap_if_less :: "MDB_IDL \<Rightarrow> nat \<Rightarrow> nat \<Rightarrow> MDB_IDL option" where
  "swap_if_less idl a b =
    do { x \<leftarrow> load idl a; y \<leftarrow> load idl b; (if x < y then MIDL_SWAP idl a b else Some idl) }"

text \<open>The two loops of the insertion sort.\<close>

fun ins_down :: "MDB_IDL \<Rightarrow> MDB_ID \<Rightarrow> nat \<Rightarrow> (MDB_IDL \<times> nat) option" where
  "ins_down idl a i =
    (if i \<ge> 1 then
       do {
         v \<leftarrow> load idl i;
         (if v \<ge> a then Some (idl, i)
          else do { idl \<leftarrow> store idl (i + 1) v; ins_down idl a (i - 1) })
       }
     else Some (idl, i))"

declare ins_down.simps [simp del]

function ins_sort :: "MDB_IDL \<Rightarrow> nat \<Rightarrow> nat \<Rightarrow> MDB_IDL option" where
  "ins_sort idl j ir =
    (if j \<le> ir then
       do {
         a \<leftarrow> load idl j;
         (idl, i) \<leftarrow> ins_down idl a (j - 1);
         idl \<leftarrow> store idl (i + 1) a;
         j \<leftarrow> add32 j 1;
         ins_sort idl j ir
       }
     else Some idl)"
  by pat_completeness auto
termination
  by (relation "measure (\<lambda>(idl, j, ir). Suc ir - j)") (auto dest!: add32_SomeD)

declare ins_sort.simps [simp del]

text \<open>The scans of the partition, \<open>do i++; while (ids[i] > a);\<close> and its mirror image.\<close>

function scan_up :: "MDB_IDL \<Rightarrow> MDB_ID \<Rightarrow> nat \<Rightarrow> nat option" where
  "scan_up idl a i =
    do { i \<leftarrow> add32 i 1; v \<leftarrow> load idl i; (if v > a then scan_up idl a i else Some i) }"
  by pat_completeness auto
termination
  by (relation "measure (\<lambda>(idl, a, i). length idl - i)") (auto simp: load_Some_iff dest!: add32_SomeD)

declare scan_up.simps [simp del]

fun scan_down :: "MDB_IDL \<Rightarrow> MDB_ID \<Rightarrow> nat \<Rightarrow> nat option" where
  "scan_down idl a 0 = None"
| "scan_down idl a (Suc j) =
     do { v \<leftarrow> load idl j; (if v < a then scan_down idl a j else Some j) }"

lemma scan_up_bounds: "scan_up idl a i = Some i' \<Longrightarrow> i < i' \<and> i' < length idl"
proof (induction idl a i rule: scan_up.induct)
  case (1 idl a i)
  from "1.prems" obtain k v where k: "add32 i 1 = Some k" and v: "load idl k = Some v"
    and r: "(if v > a then scan_up idl a k else Some k) = Some i'"
    by (subst (asm) scan_up.simps) (auto simp: bind_eq_Some_conv)
  then show ?case using "1.IH" [OF k v] by (auto simp: load_Some_iff split: if_splits dest!: add32_SomeD)
qed

lemma scan_down_bounds: "scan_down idl a j = Some j' \<Longrightarrow> j' < j"
  by (induction idl a j rule: scan_down.induct)
    (auto simp: bind_eq_Some_conv less_Suc_eq split: if_splits)

lemma length_MIDL_SWAP: "MIDL_SWAP idl a b = Some idl' \<Longrightarrow> length idl' = length idl"
  by (auto simp: MIDL_SWAP_def bind_eq_Some_conv store_Some_iff)

function part_loop :: "MDB_IDL \<Rightarrow> MDB_ID \<Rightarrow> nat \<Rightarrow> nat \<Rightarrow> (MDB_IDL \<times> nat \<times> nat) option" where
  "part_loop idl a i j =
    do {
      i \<leftarrow> scan_up idl a i;
      j \<leftarrow> scan_down idl a j;
      (if j < i then Some (idl, i, j)
       else do { idl \<leftarrow> MIDL_SWAP idl i j; part_loop idl a i j })
    }"
  by pat_completeness auto
termination
  by (relation "measure (\<lambda>(idl, a, i, j). length idl - i)")
    (auto dest!: scan_up_bounds length_MIDL_SWAP)

declare part_loop.simps [simp del]

lemma part_loop_bounds:
  "part_loop idl a i j = Some (idl', i', j') \<Longrightarrow> i < i' \<and> j' < j \<and> j' < i'"
proof (induction idl a i j rule: part_loop.induct)
  case (1 idl a i j)
  from "1.prems" obtain i1 j1 where up: "scan_up idl a i = Some i1" and dn: "scan_down idl a j = Some j1"
    and r: "(if j1 < i1 then Some (idl, i1, j1)
       else do { idl \<leftarrow> MIDL_SWAP idl i1 j1; part_loop idl a i1 j1 }) = Some (idl', i', j')"
    by (subst (asm) part_loop.simps) (auto simp: bind_eq_Some_conv)
  note b = scan_up_bounds [OF up] scan_down_bounds [OF dn]
  show ?case
  proof (cases "j1 < i1")
    case True
    with r b show ?thesis by auto
  next
    case False
    with r obtain idl1 where "MIDL_SWAP idl i1 j1 = Some idl1"
      "part_loop idl1 a i1 j1 = Some (idl', i', j')" by (auto simp: bind_eq_Some_conv)
    from "1.IH" [OF up dn False this] b show ?thesis by auto
  qed
qed

definition partition_step :: "MDB_IDL \<Rightarrow> nat \<Rightarrow> nat \<Rightarrow> (MDB_IDL \<times> nat \<times> nat) option" where
  "partition_step idl l ir =
    do {
      s \<leftarrow> add32 l ir;
      let k = drop_bit 1 s;
      idl \<leftarrow> MIDL_SWAP idl k (l + 1);
      idl \<leftarrow> swap_if_less idl l ir;
      idl \<leftarrow> swap_if_less idl (l + 1) ir;
      idl \<leftarrow> swap_if_less idl l (l + 1);
      a \<leftarrow> load idl (l + 1);
      (idl, i, j) \<leftarrow> part_loop idl a (l + 1) ir;
      v \<leftarrow> load idl j;
      idl \<leftarrow> store idl (l + 1) v;
      idl \<leftarrow> store idl j a;
      Some (idl, i, j)
    }"

lemma partition_step_bounds:
  "partition_step idl l ir = Some (idl', i, j) \<Longrightarrow> l + 2 \<le> i \<and> j < ir \<and> j < i"
  by (auto simp: partition_step_def bind_eq_Some_conv dest!: part_loop_bounds)

text \<open>What a segment of the work list still costs, for termination.\<close>

definition seg_weight :: "nat \<times> nat \<Rightarrow> nat" where
  "seg_weight s = 2 * (Suc (snd s) - fst s) + 1"

text \<open>
  The outer loop. \<open>istack\<close> is an array of 64 ints; the pair pushed when \<open>jstack\<close>
  becomes \<open>2 * d\<close> is element \<open>d\<close> of the stack here, the last one pushed first, so
  the push stays in the array when \<open>2 * d < 64\<close>.
\<close>

function sort_loop :: "MDB_IDL \<Rightarrow> nat \<Rightarrow> nat \<Rightarrow> (nat \<times> nat) list \<Rightarrow> MDB_IDL option" where
  "sort_loop idl l ir istack =
    (if int ir - int l < int SMALL then
       do {
         j \<leftarrow> add32 l 1;
         idl \<leftarrow> ins_sort idl j ir;
         (case istack of
            [] \<Rightarrow> Some idl
          | (l, ir) # istack \<Rightarrow> sort_loop idl l ir istack)
       }
     else
       do {
         (idl, i, j) \<leftarrow> partition_step idl l ir;
         (if 2 * Suc (length istack) < 64 then
            if int ir - int i + 1 \<ge> int j - int l
            then sort_loop idl l (j - 1) ((i, ir) # istack)
            else sort_loop idl i ir ((l, j - 1) # istack)
          else None)
       })"
  by pat_completeness auto

termination
proof (relation "measure (\<lambda>(idl, l, ir, st). sum_list (map seg_weight ((l, ir) # st)))", goal_cases)
  case 1
  show ?case by simp
next
  case (2 idl l ir st j idl1 x xs l1 ir1)
  then show ?case by (cases x) (simp add: seg_weight_def)
next
  case (3 idl l ir st x idl1 y i j)
  then have "l + 2 \<le> i \<and> j < ir \<and> j < i" "l + 8 \<le> ir"
    by (auto dest!: partition_step_bounds simp: SMALL_def)
  then show ?case by (simp add: seg_weight_def) linarith
next
  case (4 idl l ir st x idl1 y i j)
  then have "l + 2 \<le> i \<and> j < ir \<and> j < i" "l + 8 \<le> ir"
    by (auto dest!: partition_step_bounds simp: SMALL_def)
  then show ?case by (simp add: seg_weight_def) linarith
qed

declare sort_loop.simps [simp del]

text \<open>
  \<open>ir = (int) ids[0]\<close>: a negative \<open>ir\<close> makes the loop leave at once, as \<open>0\<close> does, when
  \<open>ir - l\<close> is still an \<open>int\<close>.
\<close>

definition mdb_midl_sort :: "MDB_IDL \<Rightarrow> MDB_IDL option" where
  "mdb_midl_sort idl =
    do {
      n \<leftarrow> load idl 0;
      let ir = sint (ucast n :: u32);
      d \<leftarrow> int32 (ir - 1);
      sort_loop idl 1 (nat ir) []
    }"

section \<open>Insertion sort of a segment\<close>

text \<open>\<open>same_outside l r idl idl'\<close>: only cells \<open>l .. r\<close> may differ.\<close>

definition same_outside :: "nat \<Rightarrow> nat \<Rightarrow> 'a list \<Rightarrow> 'a list \<Rightarrow> bool" where
  "same_outside l r idl idl' \<longleftrightarrow>
    length idl' = length idl \<and> (\<forall>p. p < l \<or> r < p \<longrightarrow> idl' ! p = idl ! p)"

lemma same_outside_refl [simp]: "same_outside l r idl idl"
  by (simp add: same_outside_def)

lemma same_outside_trans:
  "same_outside l r a b \<Longrightarrow> same_outside l r b c \<Longrightarrow> same_outside l r a c"
  by (simp add: same_outside_def)

lemma same_outside_update: "l \<le> p \<Longrightarrow> p \<le> r \<Longrightarrow> same_outside l r idl (idl[p := v])"
  by (auto simp: same_outside_def nth_list_update)

text \<open>
  The hole of the inner loop is at \<open>i + 1\<close>: the cells below it are the sorted prefix,
  those above it are smaller than the element being inserted.
\<close>

definition hole :: "nat \<Rightarrow> nat \<Rightarrow> MDB_ID \<Rightarrow> MDB_IDL \<Rightarrow> nat \<Rightarrow> MDB_ID multiset \<Rightarrow> bool" where
  "hole l j a idl i M \<longleftrightarrow>
    l \<le> Suc i \<and> i < j \<and> j < length idl \<and>
    sorted_wrt (\<ge>) (subl idl l (Suc i) @ subl idl (i + 2) (Suc j)) \<and>
    (\<forall>x \<in> set (subl idl (i + 2) (Suc j)). x < a) \<and>
    mset (subl idl l (Suc i)) + mset (subl idl (i + 2) (Suc j)) = M"

lemma hole_shift:
  assumes "hole l j a idl i M" and "l \<le> i" and "idl ! i < a"
  shows "hole l j a (idl[Suc i := idl ! i]) (i - 1) M"
proof -
  from assms have b: "i < j" "j < length idl" by (auto simp: hole_def)
  have lo: "subl idl l (Suc i) = subl idl l i @ [idl ! i]"
    using assms b by (intro subl_Suc) auto
  have hi: "subl (idl[Suc i := idl ! i]) (Suc i) (Suc j) = idl ! i # subl idl (i + 2) (Suc j)"
    using b by (subst subl_Cons) auto
  have "i - 1 + 2 = Suc i \<or> i = 0" by auto
  then show ?thesis
    using assms lo hi by (cases i) (auto simp: hole_def)
qed

lemma ins_down_hole:
  assumes "hole l j a idl i M" and "1 \<le> l" and "1 < l \<longrightarrow> idl ! (l - 1) \<ge> a"
  shows "\<exists>idl' i'. ins_down idl a i = Some (idl', i') \<and> hole l j a idl' i' M \<and>
    same_outside l j idl idl' \<and> (l \<le> i' \<longrightarrow> idl' ! i' \<ge> a)"
  using assms
proof (induction i arbitrary: idl)
  case 0
  then have "l = 1" by (auto simp: hole_def)
  with 0 show ?case by (subst ins_down.simps) auto
next
  case (Suc i)
  from Suc.prems(1) have b: "Suc i < j" "j < length idl" "l \<le> Suc (Suc i)" by (auto simp: hole_def)
  show ?case
  proof (cases "idl ! Suc i \<ge> a")
    case True
    with b Suc.prems show ?thesis by (subst ins_down.simps) (auto simp: load_in)
  next
    case False
    let ?idl = "idl[Suc (Suc i) := idl ! Suc i]"
    have l: "l \<le> Suc i" using False Suc.prems b by (cases "l = Suc (Suc i)") auto
    have step: "ins_down idl a (Suc i) = ins_down ?idl a i"
      using False b by (subst ins_down.simps) (simp add: load_in store_in)
    have h: "hole l j a ?idl i M"
      using hole_shift [OF Suc.prems(1) l] False by (simp add: not_le)
    have "?idl ! (l - 1) \<ge> a" if "1 < l" using that Suc.prems(3) l by simp
    from Suc.IH [OF h Suc.prems(2)] this obtain idl' i' where
      "ins_down ?idl a i = Some (idl', i')" "hole l j a idl' i' M" "same_outside l j ?idl idl'"
      "l \<le> i' \<longrightarrow> idl' ! i' \<ge> a" by blast
    moreover have "same_outside l j idl ?idl" using l b by (intro same_outside_update) auto
    ultimately show ?thesis using step same_outside_trans by (metis (no_types))
  qed
qed

lemma hole_fill:
  assumes "hole l j a idl i M" and "l \<le> i \<longrightarrow> idl ! i \<ge> a"
  shows "sorted_wrt (\<ge>) (subl (idl[Suc i := a]) l (Suc j))"
    and "mset (subl (idl[Suc i := a]) l (Suc j)) = add_mset a M"
proof -
  from assms have b: "l \<le> Suc i" "i < j" "j < length idl" by (auto simp: hole_def)
  have "subl (idl[Suc i := a]) l (Suc j) = subl (idl[Suc i := a]) l (Suc i) @ subl (idl[Suc i := a]) (Suc i) (Suc j)"
    using b by (intro subl_append) auto
  also have "subl (idl[Suc i := a]) (Suc i) (Suc j) = a # subl idl (i + 2) (Suc j)"
    using b by (subst subl_Cons) auto
  finally have eq: "subl (idl[Suc i := a]) l (Suc j) = subl idl l (Suc i) @ a # subl idl (i + 2) (Suc j)"
    by simp
  have "\<forall>x \<in> set (subl idl l (Suc i)). x \<ge> a"
  proof (cases "l \<le> i")
    case True
    then have "subl idl l (Suc i) = subl idl l i @ [idl ! i]" using b by (intro subl_Suc) auto
    then show ?thesis using assms True unfolding hole_def
      by (auto simp: sorted_wrt_append intro: order_trans)
  qed (use b in auto)
  then show "sorted_wrt (\<ge>) (subl (idl[Suc i := a]) l (Suc j))"
    using assms unfolding eq hole_def by (auto simp: sorted_wrt_append less_imp_le)
  show "mset (subl (idl[Suc i := a]) l (Suc j)) = add_mset a M"
    using assms unfolding eq hole_def by simp
qed

lemma ins_sort_spec:
  assumes "1 \<le> l" and "l < j" and "j \<le> Suc ir" and "ir < length idl" and "ir \<le> 2 ^ 30"
    and "sorted_wrt (\<ge>) (subl idl l j)"
    and "1 < l \<longrightarrow> (\<forall>q. l \<le> q \<longrightarrow> q \<le> ir \<longrightarrow> idl ! (l - 1) \<ge> idl ! q)"
  shows "\<exists>idl'. ins_sort idl j ir = Some idl' \<and> same_outside l ir idl idl' \<and>
    sorted_wrt (\<ge>) (subl idl' l (Suc ir)) \<and> mset (subl idl' l (Suc ir)) = mset (subl idl l (Suc ir))"
  using assms
proof (induction "Suc ir - j" arbitrary: idl j)
  case 0
  then show ?case by (subst ins_sort.simps) (auto simp: le_antisym not_less_eq_eq)
next
  case (Suc n)
  let ?a = "idl ! j"
  have j: "j \<le> ir" "j < length idl" using Suc by auto
  have sj: "subl idl l (Suc j) = subl idl l j @ [?a]" using Suc j by (intro subl_Suc) auto
  have "hole l j ?a idl (j - 1) (mset (subl idl l j))"
    using Suc j by (simp add: hole_def)
  then obtain idl1 i where down: "ins_down idl ?a (j - 1) = Some (idl1, i)"
    and h: "hole l j ?a idl1 i (mset (subl idl l j))" and so: "same_outside l j idl idl1"
    and ge: "l \<le> i \<longrightarrow> idl1 ! i \<ge> ?a"
    using ins_down_hole [of l j ?a idl "j - 1" "mset (subl idl l j)"] Suc.prems j by auto
  let ?idl = "idl1[Suc i := ?a]"
  have len1: "length idl1 = length idl" using so by (simp add: same_outside_def)
  have i: "l \<le> Suc i" "i < j" using h by (auto simp: hole_def)
  have so': "same_outside l j idl ?idl"
    using so i by (metis same_outside_trans same_outside_update Suc_leI)
  have f: "sorted_wrt (\<ge>) (subl ?idl l (Suc j))" "mset (subl ?idl l (Suc j)) = mset (subl idl l (Suc j))"
    using hole_fill [OF h ge] by (auto simp: sj)
  have rest: "subl ?idl (Suc j) (Suc ir) = subl idl (Suc j) (Suc ir)"
    using so' j len1 Suc.prems by (intro nth_equalityI) (auto simp: nth_subl same_outside_def)
  have ms: "mset (subl ?idl l (Suc ir)) = mset (subl idl l (Suc ir))"
  proof -
    have sp: "subl xs l (Suc ir) = subl xs l (Suc j) @ subl xs (Suc j) (Suc ir)" for xs :: MDB_IDL
      using j Suc.prems by (intro subl_append) auto
    show ?thesis unfolding sp [of ?idl] sp [of idl] mset_append f(2) rest ..
  qed
  have step: "ins_sort idl j ir = ins_sort ?idl (j + 1) ir"
    using j down i len1 Suc.prems(5) by (subst ins_sort.simps) (simp add: load_in store_in add32_in)
  have guard: "1 < l \<longrightarrow> (\<forall>q. l \<le> q \<longrightarrow> q \<le> ir \<longrightarrow> ?idl ! (l - 1) \<ge> ?idl ! q)"
  proof (intro impI allI)
    fix q assume q: "1 < l" "l \<le> q" "q \<le> ir"
    have "?idl ! q \<in> set (subl ?idl l (Suc ir))"
      using q len1 Suc.prems by (auto simp: set_subl less_Suc_eq_le)
    then have "?idl ! q \<in> set (subl idl l (Suc ir))" using ms by (metis set_mset_mset)
    then obtain q' where "l \<le> q'" "q' \<le> ir" "?idl ! q = idl ! q'"
      using Suc.prems by (auto simp: set_subl less_Suc_eq_le)
    moreover have "?idl ! (l - 1) = idl ! (l - 1)" using so' q by (simp add: same_outside_def)
    ultimately show "?idl ! (l - 1) \<ge> ?idl ! q" using q Suc.prems(7) by simp
  qed
  have "n = Suc ir - (j + 1)" using Suc.hyps(2) by simp
  from Suc.hyps(1) [OF this, of ?idl] f(1) guard j i len1 Suc.prems obtain idl' where
    "ins_sort ?idl (j + 1) ir = Some idl'" "same_outside l ir ?idl idl'"
    "sorted_wrt (\<ge>) (subl idl' l (Suc ir))" "mset (subl idl' l (Suc ir)) = mset (subl ?idl l (Suc ir))"
    by auto
  moreover have "same_outside l ir idl ?idl"
    using so' j by (auto simp: same_outside_def)
  ultimately show ?case using step ms same_outside_trans by metis
qed

section \<open>Partitioning a segment\<close>

text \<open>\<open>permutes l r idl idl'\<close>: the cells \<open>l .. r\<close> are permuted, the others kept.\<close>

definition permutes :: "nat \<Rightarrow> nat \<Rightarrow> MDB_IDL \<Rightarrow> MDB_IDL \<Rightarrow> bool" where
  "permutes l r idl idl' \<longleftrightarrow>
    same_outside l r idl idl' \<and> mset (subl idl' l (Suc r)) = mset (subl idl l (Suc r))"

lemma permutes_refl [simp]: "permutes l r idl idl"
  by (simp add: permutes_def)

lemma permutes_trans: "permutes l r a b \<Longrightarrow> permutes l r b c \<Longrightarrow> permutes l r a c"
  by (auto simp: permutes_def intro: same_outside_trans)

lemma permutes_length: "permutes l r a b \<Longrightarrow> length b = length a"
  by (simp add: permutes_def same_outside_def)

lemma permutes_nth:
  assumes "permutes l r idl idl'" "r < length idl" "l \<le> p" "p \<le> r"
  obtains q where "l \<le> q" "q \<le> r" "idl' ! p = idl ! q"
proof -
  have "idl' ! p \<in> set (subl idl' l (Suc r))"
    using assms permutes_length [OF assms(1)] by (auto simp: set_subl less_Suc_eq_le)
  then have "idl' ! p \<in> set (subl idl l (Suc r))"
    using assms(1) unfolding permutes_def by (metis set_mset_mset)
  then show ?thesis using assms(2) that by (auto simp: set_subl less_Suc_eq_le)
qed

lemma permutes_swap:
  assumes "l \<le> p" "p \<le> r" "l \<le> q" "q \<le> r" "r < length idl"
  shows "permutes l r idl (idl[p := idl ! q, q := idl ! p])"
proof -
  let ?idl = "idl[p := idl ! q, q := idl ! p]"
  have "subl ?idl l (Suc r) =
    (subl idl l (Suc r))[p - l := subl idl l (Suc r) ! (q - l), q - l := subl idl l (Suc r) ! (p - l)]"
    using assms by (intro nth_equalityI) (auto simp: nth_subl nth_list_update)
  also have "mset \<dots> = mset (subl idl l (Suc r))"
    using assms by (intro mset_swap) auto
  finally have "mset (subl ?idl l (Suc r)) = mset (subl idl l (Suc r))" .
  moreover have "same_outside l r idl ?idl"
    using assms by (auto simp: same_outside_def)
  ultimately show ?thesis by (simp add: permutes_def)
qed

lemma MIDL_SWAP_eq:
  "p < length idl \<Longrightarrow> q < length idl \<Longrightarrow> MIDL_SWAP idl p q = Some (idl[p := idl ! q, q := idl ! p])"
  by (simp add: MIDL_SWAP_def load_in store_in)

lemma swap_if_less_eq:
  "p < length idl \<Longrightarrow> q < length idl \<Longrightarrow> swap_if_less idl p q =
    Some (if idl ! p < idl ! q then idl[p := idl ! q, q := idl ! p] else idl)"
  by (simp add: swap_if_less_def MIDL_SWAP_eq load_in)

lemma scan_up_stops:
  assumes "i < p" "p < length idl" "\<not> idl ! p > a" "p \<le> 2 ^ 30"
  shows "\<exists>i'. scan_up idl a i = Some i' \<and> i < i' \<and> i' \<le> p \<and> \<not> idl ! i' > a \<and>
    (\<forall>k. i < k \<longrightarrow> k < i' \<longrightarrow> idl ! k > a)"
  using assms
proof (induction "p - i" arbitrary: i)
  case 0
  then show ?case by simp
next
  case (Suc n)
  show ?case
  proof (cases "idl ! Suc i > a")
    case True
    then have "Suc i < p" using Suc.prems by (cases "Suc i = p") auto
    moreover have "n = p - Suc i" using Suc.hyps(2) by simp
    ultimately obtain i' where
      i': "scan_up idl a (Suc i) = Some i'" "Suc i < i'" "i' \<le> p" "\<not> idl ! i' > a"
      "\<forall>k. Suc i < k \<longrightarrow> k < i' \<longrightarrow> idl ! k > a"
      using Suc.hyps(1) [of "Suc i"] Suc.prems by blast
    have "scan_up idl a i = Some i'"
      using True i'(1) Suc.prems by (subst scan_up.simps) (simp add: load_in add32_in)
    then show ?thesis using i' True by (metis Suc_lessD Suc_lessI)
  next
    case False
    then have "scan_up idl a i = Some (Suc i)"
      using Suc.prems by (subst scan_up.simps) (simp add: load_in add32_in)
    then show ?thesis using False Suc.prems by auto
  qed
qed

lemma scan_down_stops:
  assumes "p < j" "j \<le> length idl" "\<not> idl ! p < a"
  shows "\<exists>j'. scan_down idl a j = Some j' \<and> p \<le> j' \<and> j' < j \<and> \<not> idl ! j' < a \<and>
    (\<forall>k. j' < k \<longrightarrow> k < j \<longrightarrow> idl ! k < a)"
  using assms
proof (induction j)
  case 0
  then show ?case by simp
next
  case (Suc j)
  show ?case
  proof (cases "idl ! j < a")
    case True
    then have "p < j" using Suc.prems by (cases "p = j") auto
    with Suc obtain j' where j': "scan_down idl a j = Some j'" "p \<le> j'" "j' < j" "\<not> idl ! j' < a"
      "\<forall>k. j' < k \<longrightarrow> k < j \<longrightarrow> idl ! k < a" by auto
    then show ?thesis using True Suc.prems by (auto simp: load_in less_Suc_eq)
  next
    case False
    then show ?thesis using Suc.prems by (auto simp: load_in)
  qed
qed

text \<open>Both scans are stopped by what the earlier rounds have put on either side.\<close>

definition part_inv :: "nat \<Rightarrow> nat \<Rightarrow> MDB_ID \<Rightarrow> MDB_IDL \<Rightarrow> nat \<Rightarrow> nat \<Rightarrow> bool" where
  "part_inv l ir a idl i j \<longleftrightarrow>
    l < i \<and> i \<le> j \<and> j \<le> ir \<and> ir < length idl \<and> ir \<le> 2 ^ 30 \<and> (i = j \<longrightarrow> l + 1 < i \<and> j < ir) \<and>
    idl ! (l + 1) = a \<and>
    (\<forall>p. l \<le> p \<longrightarrow> p \<le> i \<longrightarrow> idl ! p \<ge> a) \<and> (\<forall>p. j \<le> p \<longrightarrow> p \<le> ir \<longrightarrow> idl ! p \<le> a)"

lemma part_loop_spec:
  assumes "part_inv l ir a idl i j"
  shows "\<exists>idl' i' j'. part_loop idl a i j = Some (idl', i', j') \<and> permutes l ir idl idl' \<and>
    l + 1 \<le> j' \<and> j' < i' \<and> i' \<le> ir \<and> idl' ! (l + 1) = a \<and> idl' ! j' \<ge> a \<and>
    (\<forall>p. l \<le> p \<longrightarrow> p < i' \<longrightarrow> idl' ! p \<ge> a) \<and> (\<forall>p. j' < p \<longrightarrow> p \<le> ir \<longrightarrow> idl' ! p \<le> a)"
  using assms
proof (induction "length idl - i" arbitrary: idl i j rule: less_induct)
  case less
  note inv = less.prems [unfolded part_inv_def]
  define up where "up = (if i < j then j else j + 1)"
  define dn where "dn = (if i < j then i else i - 1)"
  have "i < up" "up < length idl" "\<not> idl ! up > a" "up \<le> 2 ^ 30"
    using inv by (auto simp: up_def not_less)
  then obtain i' where i': "scan_up idl a i = Some i'" "i < i'" "i' \<le> up" "idl ! i' \<le> a"
    "\<forall>k. i < k \<longrightarrow> k < i' \<longrightarrow> idl ! k > a" using scan_up_stops [of i up idl a] by (auto simp: not_less)
  have "dn < j" "j \<le> length idl" "\<not> idl ! dn < a"
    using inv by (auto simp: dn_def not_less)
  then obtain j' where j': "scan_down idl a j = Some j'" "dn \<le> j'" "j' < j" "idl ! j' \<ge> a"
    "\<forall>k. j' < k \<longrightarrow> k < j \<longrightarrow> idl ! k < a" using scan_down_stops [of dn j idl a] by (auto simp: not_less)
  have ub: "i' \<le> ir" using i'(3) inv by (auto simp: up_def split: if_splits)
  have lb: "l + 1 \<le> j'" using j'(2) inv by (auto simp: dn_def split: if_splits)
  have ge: "\<forall>p. l \<le> p \<longrightarrow> p < i' \<longrightarrow> idl ! p \<ge> a"
    using inv i'(5) by (metis less_imp_le not_less)
  have le: "\<forall>p. j' < p \<longrightarrow> p \<le> ir \<longrightarrow> idl ! p \<le> a"
    using inv j'(5) by (metis less_imp_le not_less)
  show ?case
  proof (cases "j' < i'")
    case True
    then have "part_loop idl a i j = Some (idl, i', j')"
      using i'(1) j'(1) by (subst part_loop.simps) simp
    then show ?thesis using True ub lb ge le j'(4) inv by auto
  next
    case False
    let ?idl = "idl[i' := idl ! j', j' := idl ! i']"
    have len: "i' < length idl" "j' < length idl" using ub inv j' by auto
    have step: "part_loop idl a i j = part_loop ?idl a i' j'"
      using False i'(1) j'(1) len by (subst part_loop.simps) (simp add: MIDL_SWAP_eq)
    have perm: "permutes l ir idl ?idl"
      using False ub lb inv i'(2) j'(3) by (intro permutes_swap) auto
    have dec: "length ?idl - i' < length idl - i" using len i'(2) by simp
    have "part_inv l ir a ?idl i' j'"
      unfolding part_inv_def using False inv i' j' ub lb ge le len
      by (auto simp: nth_list_update)
    from less.hyps [OF dec this] obtain idl' i'' j'' where
      r: "part_loop ?idl a i' j' = Some (idl', i'', j'')" "permutes l ir ?idl idl'"
      "l + 1 \<le> j''" "j'' < i''" "i'' \<le> ir" "idl' ! (l + 1) = a" "idl' ! j'' \<ge> a"
      "\<forall>p. l \<le> p \<longrightarrow> p < i'' \<longrightarrow> idl' ! p \<ge> a" "\<forall>p. j'' < p \<longrightarrow> p \<le> ir \<longrightarrow> idl' ! p \<le> a"
      by blast
    then show ?thesis using step permutes_trans [OF perm r(2)] by auto
  qed
qed

lemma swap_if_less_perm:
  assumes "l \<le> p" "p \<le> r" "l \<le> q" "q \<le> r" "r < length idl"
  obtains idl' where "swap_if_less idl p q = Some idl'" "permutes l r idl idl'"
    "idl' ! p = max (idl ! p) (idl ! q)" "idl' ! q = min (idl ! p) (idl ! q)"
    "\<forall>k. k \<noteq> p \<longrightarrow> k \<noteq> q \<longrightarrow> idl' ! k = idl ! k"
proof -
  have len: "p < length idl" "q < length idl" using assms by auto
  show ?thesis
    by (rule that [OF swap_if_less_eq [OF len]])
      (use assms len permutes_swap [of l p r q idl] in \<open>auto simp: max_def min_def nth_list_update\<close>)
qed

lemma partition_step_spec:
  assumes "l + 2 \<le> ir" and "ir < length idl" and "ir \<le> 2 ^ 30"
  shows "\<exists>idl' i j. partition_step idl l ir = Some (idl', i, j) \<and> permutes l ir idl idl' \<and>
    l < j \<and> j < i \<and> l + 2 \<le> i \<and> i \<le> ir \<and>
    (\<forall>p q. l \<le> p \<longrightarrow> p < q \<longrightarrow> q \<le> ir \<longrightarrow> q < j \<or> i \<le> p \<or> idl' ! p \<ge> idl' ! q)"
proof -
  let ?k = "(l + ir) div 2"
  have sum: "add32 l ir = Some (l + ir)" using assms by (intro add32_in) simp
  define d0 where "d0 = idl[?k := idl ! (l + 1), l + 1 := idl ! ?k]"
  have k: "l \<le> ?k" "?k \<le> ir" using assms by auto
  have s0: "MIDL_SWAP idl ?k (l + 1) = Some d0" "permutes l ir idl d0"
    unfolding d0_def using assms k by (auto intro!: MIDL_SWAP_eq permutes_swap)
  obtain d1 where s1: "swap_if_less d0 l ir = Some d1" "permutes l ir d0 d1"
    "d1 ! l = max (d0 ! l) (d0 ! ir)" "d1 ! ir = min (d0 ! l) (d0 ! ir)"
    using swap_if_less_perm [of l l ir ir d0] assms permutes_length [OF s0(2)] by auto
  have p1: "permutes l ir idl d1" using permutes_trans s0(2) s1(2) by blast
  obtain d2 where s2: "swap_if_less d1 (l + 1) ir = Some d2" "permutes l ir d1 d2"
    "d2 ! (l + 1) = max (d1 ! (l + 1)) (d1 ! ir)" "d2 ! ir = min (d1 ! (l + 1)) (d1 ! ir)"
    "\<forall>k. k \<noteq> l + 1 \<longrightarrow> k \<noteq> ir \<longrightarrow> d2 ! k = d1 ! k"
    using swap_if_less_perm [of l "l + 1" ir ir d1] assms permutes_length [OF p1] by auto
  have p2: "permutes l ir idl d2" using permutes_trans p1 s2(2) by blast
  obtain d3 where s3: "swap_if_less d2 l (l + 1) = Some d3" "permutes l ir d2 d3"
    "d3 ! l = max (d2 ! l) (d2 ! (l + 1))" "d3 ! (l + 1) = min (d2 ! l) (d2 ! (l + 1))"
    "\<forall>k. k \<noteq> l \<longrightarrow> k \<noteq> l + 1 \<longrightarrow> d3 ! k = d2 ! k"
    using swap_if_less_perm [of l l ir "l + 1" d2] assms permutes_length [OF p2] by auto
  have p3: "permutes l ir idl d3" using permutes_trans p2 s3(2) by blast
  let ?a = "d3 ! (l + 1)"
  have med: "d3 ! l \<ge> ?a" "d3 ! ir \<le> ?a"
  proof -
    show "d3 ! l \<ge> ?a" using s3(3,4) by (auto simp: max_def min_def)
    have l2: "d2 ! l = d1 ! l" using s2(5) assms by simp
    have "d2 ! ir \<le> d1 ! ir" "d2 ! ir \<le> d2 ! (l + 1)" using s2(3,4) by (auto simp: min_def max_def)
    moreover have "d1 ! ir \<le> d1 ! l" using s1(3,4) by (auto simp: min_def max_def)
    moreover have "d3 ! ir = d2 ! ir" using s3(5) assms by simp
    ultimately show "d3 ! ir \<le> ?a" using s3(4) l2 by (auto simp: min_def)
  qed
  have len3: "length d3 = length idl" using permutes_length [OF p3] .
  have "part_inv l ir ?a d3 (l + 1) ir"
    unfolding part_inv_def using assms med len3 by (auto simp: le_Suc_eq)
  then obtain d4 i j where pl: "part_loop d3 ?a (l + 1) ir = Some (d4, i, j)" "permutes l ir d3 d4"
    "l + 1 \<le> j" "j < i" "i \<le> ir" "d4 ! (l + 1) = ?a" "d4 ! j \<ge> ?a"
    "\<forall>p. l \<le> p \<longrightarrow> p < i \<longrightarrow> d4 ! p \<ge> ?a" "\<forall>p. j < p \<longrightarrow> p \<le> ir \<longrightarrow> d4 ! p \<le> ?a"
    using part_loop_spec by blast
  have p4: "permutes l ir idl d4" using permutes_trans p3 pl(2) by blast
  have len4: "length d4 = length idl" using permutes_length [OF p4] .
  let ?out = "d4[l + 1 := d4 ! j, j := ?a]"
  have out: "partition_step idl l ir = Some (?out, i, j)"
    unfolding partition_step_def using assms sum s0 s1 s2 s3 pl len3 len4
    by (simp add: load_in store_in drop_bit_eq_div)
  have "permutes l ir d4 ?out"
    using permutes_swap [of l "l + 1" ir j d4] assms pl len4 by simp
  then have "permutes l ir idl ?out" using permutes_trans p4 by blast
  moreover have "q < j \<or> i \<le> p \<or> ?out ! p \<ge> ?out ! q" if "l \<le> p" "p < q" "q \<le> ir" for p q
  proof (cases "q < j \<or> i \<le> p")
    case False
    have "?out ! p \<ge> ?a" using False that pl assms len4 by (auto simp: nth_list_update)
    moreover have "?out ! q \<le> ?a" using False that pl assms len4 by (auto simp: nth_list_update)
    ultimately show ?thesis using order_trans by blast
  qed auto
  moreover have "l + 2 \<le> i" using pl by simp
  ultimately show ?thesis using out pl by auto
qed

section \<open>The outer loop\<close>

definition in_seg :: "nat \<Rightarrow> nat \<times> nat \<Rightarrow> bool" where
  "in_seg p s \<longleftrightarrow> fst s \<le> p \<and> p \<le> snd s"

text \<open>
  Two cells that are out of order lie in one segment that is still to be sorted, and the
  segments are disjoint parts of the list.
\<close>

definition sort_inv :: "nat \<Rightarrow> MDB_IDL \<Rightarrow> (nat \<times> nat) list \<Rightarrow> bool" where
  "sort_inv N idl segs \<longleftrightarrow> N < length idl \<and>
    (\<forall>s \<in> set segs. 1 \<le> fst s \<and> fst s \<le> Suc N \<and> snd s \<le> N) \<and>
    sorted_wrt (\<lambda>s t. \<forall>p. \<not> (in_seg p s \<and> in_seg p t)) segs \<and>
    (\<forall>p q. 1 \<le> p \<longrightarrow> p < q \<longrightarrow> q \<le> N \<longrightarrow>
       idl ! p \<ge> idl ! q \<or> (\<exists>s \<in> set segs. in_seg p s \<and> in_seg q s))"

lemma sort_inv_replace:
  assumes inv: "sort_inv N idl ((l, ir) # segs)" and perm: "permutes l ir idl idl'"
    and sub: "\<forall>s \<in> set new. 1 \<le> fst s \<and> (\<forall>p. in_seg p s \<longrightarrow> in_seg p (l, ir)) \<and> fst s \<le> Suc N \<and> snd s \<le> N"
    and dis: "sorted_wrt (\<lambda>s t. \<forall>p. \<not> (in_seg p s \<and> in_seg p t)) new"
    and ord: "\<forall>p q. l \<le> p \<longrightarrow> p < q \<longrightarrow> q \<le> ir \<longrightarrow>
      idl' ! p \<ge> idl' ! q \<or> (\<exists>s \<in> set new. in_seg p s \<and> in_seg q s)"
  shows "sort_inv N idl' (new @ segs)"
proof -
  have b: "N < length idl" "1 \<le> l" "ir \<le> N" using inv by (auto simp: sort_inv_def)
  have away: "\<not> in_seg p s" if "in_seg p (l, ir)" "s \<in> set segs" for p s
    using inv that by (auto simp: sort_inv_def)
  have out: "idl' ! p = idl ! p" if "\<not> in_seg p (l, ir)" for p
    using perm that by (auto simp: permutes_def same_outside_def in_seg_def)
  have "idl' ! p \<ge> idl' ! q \<or> (\<exists>s \<in> set (new @ segs). in_seg p s \<and> in_seg q s)"
    if pq: "1 \<le> p" "p < q" "q \<le> N" for p q
  proof -
    have old: "idl ! p' \<ge> idl ! q' \<or> (\<exists>s \<in> set ((l, ir) # segs). in_seg p' s \<and> in_seg q' s)"
      if "1 \<le> p'" "p' < q'" "q' \<le> N" for p' q'
      using inv that by (simp add: sort_inv_def)
    consider (both) "in_seg p (l, ir)" "in_seg q (l, ir)"
      | (left) "in_seg p (l, ir)" "\<not> in_seg q (l, ir)"
      | (right) "\<not> in_seg p (l, ir)" "in_seg q (l, ir)"
      | (none) "\<not> in_seg p (l, ir)" "\<not> in_seg q (l, ir)" by blast
    then show ?thesis
    proof cases
      case both
      then show ?thesis using ord pq by (auto simp: in_seg_def)
    next
      case left
      then obtain p' where p': "l \<le> p'" "p' \<le> ir" "idl' ! p = idl ! p'"
        using permutes_nth [OF perm] b by (auto simp: in_seg_def)
      then have "in_seg p' (l, ir)" "1 \<le> p'" "p' < q" using left pq b by (auto simp: in_seg_def)
      then show ?thesis using old [of p' q] left pq p' out [of q] away [of p'] by auto
    next
      case right
      then obtain q' where q': "l \<le> q'" "q' \<le> ir" "idl' ! q = idl ! q'"
        using permutes_nth [OF perm] b by (auto simp: in_seg_def)
      then have "in_seg q' (l, ir)" "p < q'" "q' \<le> N" using right pq b by (auto simp: in_seg_def)
      then show ?thesis using old [of p q'] right pq q' out [of p] away [of q'] by auto
    next
      case none
      then show ?thesis using old [OF pq] out by auto
    qed
  qed
  moreover have "sorted_wrt (\<lambda>s t. \<forall>p. \<not> (in_seg p s \<and> in_seg p t)) (new @ segs)"
  proof -
    have "\<forall>s \<in> set new. \<forall>t \<in> set segs. \<forall>p. \<not> (in_seg p s \<and> in_seg p t)"
      using sub away by blast
    then show ?thesis using inv dis unfolding sorted_wrt_append sort_inv_def by simp
  qed
  ultimately show ?thesis
    using inv sub permutes_length [OF perm] by (auto simp: sort_inv_def)
qed

text \<open>
  The smaller part is sorted first, so the segment on top of a stack of \<open>d\<close> pairs has
  at most \<open>N / 2 ^ d\<close> cells; a segment that is partitioned has at least nine.
\<close>

fun stack_ok :: "nat \<Rightarrow> (nat \<times> nat) list \<Rightarrow> bool" where
  "stack_ok N [] = True"
| "stack_ok N ((l, ir) # st) = ((Suc ir - l) * 2 ^ length st \<le> N \<and> stack_ok N st)"

lemma stack_depth:
  assumes "(Suc ir - l) * 2 ^ d \<le> N" and "l + 8 \<le> ir" and "N < 2 ^ 31"
  shows "2 * Suc d < 64"
proof (rule ccontr)
  assume "\<not> 2 * Suc d < 64"
  then have "31 \<le> d" by simp
  then have "(2 :: nat) ^ 31 \<le> 2 ^ d" by (rule power_increasing) simp
  also have "\<dots> \<le> (Suc ir - l) * 2 ^ d" using assms(2) by simp
  finally show False using assms by simp
qed

lemma sort_loop_spec:
  assumes "sort_inv N idl ((l, ir) # st)" and "stack_ok N ((l, ir) # st)" and "N \<le> 2 ^ 30"
    and "1 \<le> l"
  shows "\<exists>idl'. sort_loop idl l ir st = Some idl' \<and> sort_inv N idl' [] \<and> permutes 1 N idl idl'"
  using assms
proof (induction idl l ir st rule: sort_loop.induct)
  case (1 idl l ir st)
  note inv = "1.prems"(1) and stk = "1.prems"(2) and N = "1.prems"(3) and l1 = "1.prems"(4)
  have b: "N < length idl" "ir \<le> N" using inv by (auto simp: sort_inv_def)
  have "l \<le> Suc N" using inv by (auto simp: sort_inv_def)
  then have next_l: "add32 l 1 = Some (l + 1)" using N by (intro add32_in) simp
  have widen: "permutes 1 N idl idl'" if "permutes l ir idl idl'" for idl'
  proof -
    have sp: "l \<le> Suc ir \<Longrightarrow> subl xs 1 (Suc N) = subl xs 1 l @ subl xs l (Suc ir) @ subl xs (Suc ir) (Suc N)"
      for xs :: MDB_IDL
      using l1 b by (metis Suc_le_mono subl_append le_trans)
    show ?thesis
    proof (cases "l \<le> Suc ir")
      case True
      have "subl idl' 1 l = subl idl 1 l" "subl idl' (Suc ir) (Suc N) = subl idl (Suc ir) (Suc N)"
        using that b l1 True permutes_length [OF that]
        by (auto intro!: nth_equalityI simp: nth_subl permutes_def same_outside_def)
      then show ?thesis
        using that b l1 unfolding permutes_def sp [OF True, of idl] sp [OF True, of idl']
        by (auto simp: same_outside_def)
    next
      case False
      then have "idl' = idl"
        using that by (auto simp: permutes_def same_outside_def intro!: nth_equalityI)
      then show ?thesis by simp
    qed
  qed
  show ?case
  proof (cases "int ir - int l < int SMALL")
    case True
    have guard: "1 < l \<longrightarrow> (\<forall>q. l \<le> q \<longrightarrow> q \<le> ir \<longrightarrow> idl ! (l - 1) \<ge> idl ! q)"
    proof (intro impI allI)
      fix q assume q: "1 < l" "l \<le> q" "q \<le> ir"
      have "idl ! (l - 1) \<ge> idl ! q \<or> (\<exists>s \<in> set ((l, ir) # st). in_seg (l - 1) s \<and> in_seg q s)"
        using inv q b unfolding sort_inv_def by (elim conjE allE [of _ "l - 1"] allE [of _ q]) auto
      moreover have "\<not> in_seg q s" if "s \<in> set st" for s
        using inv that q by (auto simp: sort_inv_def in_seg_def)
      ultimately show "idl ! (l - 1) \<ge> idl ! q" using q by (auto simp: in_seg_def)
    qed
    have "\<exists>idl1. ins_sort idl (l + 1) ir = Some idl1 \<and> permutes l ir idl idl1 \<and>
      sorted_wrt (\<ge>) (subl idl1 l (Suc ir))"
    proof (cases "l \<le> ir")
      case True
      then have "subl idl l (l + 1) = [idl ! l]" using b by (subst subl_Cons) auto
      then show ?thesis
        using ins_sort_spec [of l "l + 1" ir idl] l1 True b guard N by (auto simp: permutes_def)
    next
      case False
      then have "ins_sort idl (l + 1) ir = Some idl" by (subst ins_sort.simps) simp
      then show ?thesis using False by simp
    qed
    then obtain idl1 where isrt: "ins_sort idl (l + 1) ir = Some idl1" and perm: "permutes l ir idl idl1"
      and srt: "sorted_wrt (\<ge>) (subl idl1 l (Suc ir))" by blast
    have ord: "idl1 ! p \<ge> idl1 ! q" if "l \<le> p" "p < q" "q \<le> ir" for p q
      using sorted_wrt_nth_less [OF srt, of "p - l" "q - l"] that b permutes_length [OF perm]
      by (simp add: nth_subl)
    have inv1: "sort_inv N idl1 st"
      using sort_inv_replace [OF inv perm, of "[]"] ord by simp
    show ?thesis
    proof (cases st)
      case Nil
      then show ?thesis
        using True next_l isrt inv1 widen [OF perm] by (subst sort_loop.simps) auto
    next
      case (Cons s st')
      obtain l' ir' where s: "s = (l', ir')" by (cases s)
      have "sort_inv N idl1 ((l', ir') # st')" "stack_ok N ((l', ir') # st')" "1 \<le> l'"
        using inv1 stk Cons s by (auto simp: sort_inv_def)
      then obtain idl' where "sort_loop idl1 l' ir' st' = Some idl'" "sort_inv N idl' []"
        "permutes 1 N idl1 idl'"
        using "1.IH"(1) [OF True next_l isrt Cons s [symmetric]] N by blast
      then show ?thesis
        using True next_l isrt Cons s widen [OF perm] permutes_trans by (subst sort_loop.simps) auto
    qed
  next
    case False
    then have big: "l + 8 \<le> ir" by (simp add: SMALL_def)
    then obtain idl1 i j where ps: "partition_step idl l ir = Some (idl1, i, j)"
      and perm: "permutes l ir idl idl1" and ij: "l < j" "j < i" "l + 2 \<le> i" "i \<le> ir"
      and ord: "\<forall>p q. l \<le> p \<longrightarrow> p < q \<longrightarrow> q \<le> ir \<longrightarrow> q < j \<or> i \<le> p \<or> idl1 ! p \<ge> idl1 ! q"
      using partition_step_spec [of l ir idl] b N by auto
    have room: "2 * Suc (length st) < 64"
      using stack_depth [of ir l "length st" N] stk big N by simp
    have size: "(Suc ir - l) * 2 ^ length st \<le> N" "stack_ok N st" using stk by auto
    have half: "n * 2 ^ Suc (length st) \<le> N" if "n + m \<le> Suc ir - l" "n \<le> m" for n m
    proof -
      have "n * 2 ^ Suc (length st) = (n * 2) * 2 ^ length st" by simp
      also have "\<dots> \<le> (Suc ir - l) * 2 ^ length st" using that by (intro mult_right_mono) auto
      also have "\<dots> \<le> N" by (rule size(1))
      finally show ?thesis .
    qed
    have part: "n * 2 ^ length st \<le> N" if "n \<le> Suc ir - l" for n
      using size(1) that by (meson le_trans mult_le_mono1)
    have ord': "idl1 ! p \<ge> idl1 ! q \<or> (\<exists>s \<in> {(l, j - 1), (i, ir)}. in_seg p s \<and> in_seg q s)"
      if "l \<le> p" "p < q" "q \<le> ir" for p q
    proof -
      have "q < j \<or> i \<le> p \<or> idl1 ! p \<ge> idl1 ! q" using ord that by blast
      then show ?thesis using that by (elim disjE) (auto simp: in_seg_def)
    qed
    show ?thesis
    proof (cases "int ir - int i + 1 \<ge> int j - int l")
      case right: True
      have "sort_inv N idl1 ([(l, j - 1), (i, ir)] @ st)"
        using inv ij l1 b ord' by (intro sort_inv_replace [OF inv perm]) (auto simp: in_seg_def)
      moreover have "stack_ok N ((l, j - 1) # (i, ir) # st)"
        using half [of "j - l" "Suc ir - i"] part [of "Suc ir - i"] right ij size by simp
      ultimately obtain idl' where "sort_loop idl1 l (j - 1) ((i, ir) # st) = Some idl'"
        "sort_inv N idl' []" "permutes 1 N idl1 idl'"
        using "1.IH"(2) [OF False ps refl refl room right] N l1 by auto
      then show ?thesis
        using False ps room right widen [OF perm] permutes_trans by (subst sort_loop.simps) auto
    next
      case left: False
      have "sort_inv N idl1 ([(i, ir), (l, j - 1)] @ st)"
        using inv ij l1 b ord' by (intro sort_inv_replace [OF inv perm]) (auto simp: in_seg_def)
      moreover have "stack_ok N ((i, ir) # (l, j - 1) # st)"
        using half [of "Suc ir - i" "j - l"] part [of "j - l"] left ij size by simp
      ultimately obtain idl' where "sort_loop idl1 i ir ((l, j - 1) # st) = Some idl'"
        "sort_inv N idl' []" "permutes 1 N idl1 idl'"
        using "1.IH"(3) [OF False ps refl refl room left] N ij by auto
      then show ?thesis
        using False ps room left widen [OF perm] permutes_trans by (subst sort_loop.simps) auto
    qed
  qed
qed

text \<open>
  C30: for every list of at most \<open>2 ^ 30\<close> entries (where no sum of indices leaves \<open>int\<close>),
  \<open>mdb_midl_sort\<close> returns, never writes outside the list or its 64-integer stack, and leaves
  a descending permutation of the entries.
\<close>

theorem mdb_midl_sort_correct:
  assumes "unat (idl ! 0) < length idl" and "unat (idl ! 0) \<le> 2 ^ 30"
  shows "\<exists>idl'. mdb_midl_sort idl = Some idl' \<and> length idl' = length idl \<and>
    sorted_wrt (\<ge>) (idl_entries idl') \<and> mset (idl_entries idl') = mset (idl_entries idl)"
proof -
  let ?N = "unat (idl ! 0)"
  have "unat (ucast (idl ! 0) :: u32) = ?N"
    using assms(2) by (simp add: unsigned_ucast_eq take_bit_nat_eq_self)
  then have ir: "sint (ucast (idl ! 0) :: u32) = int ?N"
    using sint_small_u32 [of "ucast (idl ! 0)"] assms(2) by simp
  have d: "int32 (int ?N - 1) = Some (int ?N - 1)" using assms(2) by (intro int32_pred) simp
  have "sort_inv ?N idl [(1, ?N)]" using assms(1) by (auto simp: sort_inv_def in_seg_def)
  moreover have "stack_ok ?N [(1, ?N)]" by simp
  ultimately obtain idl' where sl: "sort_loop idl 1 ?N [] = Some idl'" and inv: "sort_inv ?N idl' []"
    and perm: "permutes 1 ?N idl idl'"
    using sort_loop_spec [of ?N idl 1 ?N "[]"] assms(2) by auto
  have hd: "idl' ! 0 = idl ! 0" and len: "length idl' = length idl"
    using perm by (auto simp: permutes_def same_outside_def)
  have "load idl 0 = Some (idl ! 0)" using assms(1) by (auto simp: load_def)
  then have "mdb_midl_sort idl = Some idl'" using sl ir d by (simp add: mdb_midl_sort_def)
  moreover have "sorted_wrt (\<ge>) (idl_entries idl')"
    using inv len assms(1) unfolding idl_entries_def hd
    by (auto simp: sorted_wrt_iff_nth_less nth_subl sort_inv_def)
  moreover have "mset (idl_entries idl') = mset (idl_entries idl)"
    using perm by (simp add: idl_entries_def hd permutes_def)
  ultimately show ?thesis using len by blast
qed

theorem mdb_midl_sort_witness:
  "\<exists>idl'. mdb_midl_sort [3, 5, 9, 7] = Some idl' \<and> sorted_wrt (\<ge>) (idl_entries idl') \<and>
    mset (idl_entries idl') = {#5, 7, 9#}"
  using mdb_midl_sort_correct [of "[3, 5, 9, 7]"] by (auto simp: idl_entries_def subl_def)

text \<open>
  Beyond the bound the sum overflows: a list that claims \<open>2 ^ 31 - 1\<close> entries, whatever it holds,
  already does so when the first pivot is chosen.
\<close>

lemma mdb_midl_sort_overflow:
  "load idl 0 = Some (2 ^ 31 - 1) \<Longrightarrow> mdb_midl_sort idl = None"
  by (simp add: mdb_midl_sort_def int32_def sort_loop.simps SMALL_def partition_step_def add32_def)

end
