(* ===== verification/Natpmp.thy ===== *)
theory Natpmp
  imports Prelude
begin

text \<open>
  The NAT-PMP client library (\<open>src/natpmp/natpmp.c\<close>, \<open>natpmp.h\<close>,
  \<open>wingettimeofday.c\<close>): the request packets, the response parser and the retry timer.

  What the operating system returns is an argument of the model: the result of
  \<open>send\<close> as a function of the packet, the datagram or error of \<open>recvfrom\<close>, the
  clock, and the 16 bytes that happen to be in the uninitialised receive buffer.
  A pointer argument that the code compares with \<open>NULL\<close> is an option. The macro
  \<open>timercmp\<close> comes from the system headers and differs between them, so the functions
  that use it take it as an argument too.
\<close>

section \<open>Constants\<close>

definition NATPMP_PORT :: u16 where
  [simp]: "NATPMP_PORT = 5351"

definition NATPMP_RESPTYPE_PUBLICADDRESS :: u16 where
  [simp]: "NATPMP_RESPTYPE_PUBLICADDRESS = 0"

definition NATPMP_RESPTYPE_UDPPORTMAPPING :: u16 where
  [simp]: "NATPMP_RESPTYPE_UDPPORTMAPPING = 1"

definition NATPMP_RESPTYPE_TCPPORTMAPPING :: u16 where
  [simp]: "NATPMP_RESPTYPE_TCPPORTMAPPING = 2"

definition NATPMP_PROTOCOL_UDP :: int where
  [simp]: "NATPMP_PROTOCOL_UDP = 1"

definition NATPMP_PROTOCOL_TCP :: int where
  [simp]: "NATPMP_PROTOCOL_TCP = 2"

definition NATPMP_ERR_INVALIDARGS :: int where
  [simp]: "NATPMP_ERR_INVALIDARGS = -1"

definition NATPMP_ERR_SOCKETERROR :: int where
  [simp]: "NATPMP_ERR_SOCKETERROR = -2"

definition NATPMP_ERR_CANNOTGETGATEWAY :: int where
  [simp]: "NATPMP_ERR_CANNOTGETGATEWAY = -3"

definition NATPMP_ERR_CLOSEERR :: int where
  [simp]: "NATPMP_ERR_CLOSEERR = -4"

definition NATPMP_ERR_RECVFROM :: int where
  [simp]: "NATPMP_ERR_RECVFROM = -5"

definition NATPMP_ERR_NOPENDINGREQ :: int where
  [simp]: "NATPMP_ERR_NOPENDINGREQ = -6"

definition NATPMP_ERR_NOGATEWAYSUPPORT :: int where
  [simp]: "NATPMP_ERR_NOGATEWAYSUPPORT = -7"

definition NATPMP_ERR_CONNECTERR :: int where
  [simp]: "NATPMP_ERR_CONNECTERR = -8"

definition NATPMP_ERR_WRONGPACKETSOURCE :: int where
  [simp]: "NATPMP_ERR_WRONGPACKETSOURCE = -9"

definition NATPMP_ERR_SENDERR :: int where
  [simp]: "NATPMP_ERR_SENDERR = -10"

definition NATPMP_ERR_FCNTLERROR :: int where
  [simp]: "NATPMP_ERR_FCNTLERROR = -11"

definition NATPMP_ERR_GETTIMEOFDAYERR :: int where
  [simp]: "NATPMP_ERR_GETTIMEOFDAYERR = -12"

definition NATPMP_ERR_UNSUPPORTEDVERSION :: int where
  [simp]: "NATPMP_ERR_UNSUPPORTEDVERSION = -14"

definition NATPMP_ERR_UNSUPPORTEDOPCODE :: int where
  [simp]: "NATPMP_ERR_UNSUPPORTEDOPCODE = -15"

definition NATPMP_ERR_UNDEFINEDERROR :: int where
  [simp]: "NATPMP_ERR_UNDEFINEDERROR = -49"

definition NATPMP_ERR_NOTAUTHORIZED :: int where
  [simp]: "NATPMP_ERR_NOTAUTHORIZED = -51"

definition NATPMP_ERR_NETWORKFAILURE :: int where
  [simp]: "NATPMP_ERR_NETWORKFAILURE = -52"

definition NATPMP_ERR_OUTOFRESOURCES :: int where
  [simp]: "NATPMP_ERR_OUTOFRESOURCES = -53"

definition NATPMP_TRYAGAIN :: int where
  [simp]: "NATPMP_TRYAGAIN = -100"

section \<open>Data\<close>

record timeval =
  tv_sec :: int
  tv_usec :: int

record natpmp_t =
  s_sock :: int
  gateway :: u32
  has_pending_request :: int
  pending_request :: bytes
  pending_request_len :: nat
  try_number :: nat
  retry_time :: timeval

text \<open>The union \<open>pnu\<close>: which member was written last; a fresh response has neither.\<close>

datatype pnu_t =
  PnuUndefined
| PublicAddress (s_addr : u32)
| NewPortMapping (privateport : u16) (mappedpublicport : u16) (map_lifetime : u32)

record natpmpresp_t =
  resp_type :: u16
  resultcode :: u16
  epoch :: u32
  pnu :: pnu_t

datatype sock_error = EWOULDBLOCK | ECONNREFUSED | OtherSockError

text \<open>\<open>recvfrom\<close>: the bytes it stored (at most 16) and the sender's address, or the error.\<close>

datatype recv_result = Received bytes u32 | RecvFailed sock_error

section \<open>The clock\<close>

text \<open>
  \<open>natpmp_gettimeofday\<close> on a count of 100 ns units since 1601. The casts to
  \<open>long\<close>, 32 bits wide on Windows, are written out. The function fails only on a null
  pointer, which no caller passes.
\<close>

definition to_long :: "int \<Rightarrow> int" where
  "to_long x = sint (word_of_int x :: u32)"

definition natpmp_gettimeofday :: "int \<Rightarrow> timeval" where
  "natpmp_gettimeofday ns100 =
    \<lparr>tv_sec = to_long ((ns100 - 116444736000000000) div 10000000),
     tv_usec = to_long ((ns100 div 10) mod 1000000)\<rparr>"

text \<open>\<open>timercmp(a, b, >=)\<close> as glibc expands it, and as \<open>winsock2.h\<close> does.\<close>

definition timercmp_ge_glibc :: "timeval \<Rightarrow> timeval \<Rightarrow> bool" where
  "timercmp_ge_glibc a b =
    (if tv_sec a = tv_sec b then tv_usec a \<ge> tv_usec b else tv_sec a \<ge> tv_sec b)"

definition timercmp_ge_winsock :: "timeval \<Rightarrow> timeval \<Rightarrow> bool" where
  "timercmp_ge_winsock a b =
    (tv_sec a \<ge> tv_sec b \<or> tv_sec a = tv_sec b \<and> tv_usec a \<ge> tv_usec b)"

section \<open>Set-up and shutdown\<close>

text \<open>What the operating system answers during \<open>initnatpmp\<close>.\<close>

record init_io =
  io_socket :: int
  io_nonblock :: bool
  io_defaultgateway :: "u32 option"
  io_connect :: "u32 \<Rightarrow> u16 \<Rightarrow> bool"

definition zero_natpmp :: natpmp_t where
  "zero_natpmp = \<lparr>s_sock = 0, gateway = 0, has_pending_request = 0,
     pending_request = replicate 12 0, pending_request_len = 0, try_number = 0,
     retry_time = \<lparr>tv_sec = 0, tv_usec = 0\<rparr>\<rparr>"

definition initnatpmp ::
  "init_io \<Rightarrow> natpmp_t option \<Rightarrow> bool \<Rightarrow> u32 \<Rightarrow> int \<times> natpmp_t option" where
  "initnatpmp io po forcegw forcedgw =
    (case po of
       None \<Rightarrow> (NATPMP_ERR_INVALIDARGS, None)
     | Some _ \<Rightarrow>
         let p = zero_natpmp\<lparr>s_sock := io_socket io\<rparr> in
         if s_sock p < 0 then (NATPMP_ERR_SOCKETERROR, Some p)
         else if \<not> io_nonblock io then (NATPMP_ERR_FCNTLERROR, Some p)
         else case (if forcegw then Some forcedgw else io_defaultgateway io) of
           None \<Rightarrow> (NATPMP_ERR_CANNOTGETGATEWAY, Some p)
         | Some gw \<Rightarrow>
             let p = p\<lparr>gateway := gw\<rparr> in
             if \<not> io_connect io (gateway p) NATPMP_PORT then (NATPMP_ERR_CONNECTERR, Some p)
             else (0, Some p))"

definition closenatpmp :: "(int \<Rightarrow> int) \<Rightarrow> natpmp_t option \<Rightarrow> int" where
  "closenatpmp closesocket po =
    (case po of
       None \<Rightarrow> NATPMP_ERR_INVALIDARGS
     | Some p \<Rightarrow> if closesocket (s_sock p) < 0 then NATPMP_ERR_CLOSEERR else 0)"

section \<open>Sending\<close>

definition sendpendingrequest :: "(bytes \<Rightarrow> int) \<Rightarrow> natpmp_t option \<Rightarrow> int" where
  "sendpendingrequest send po =
    (case po of
       None \<Rightarrow> NATPMP_ERR_INVALIDARGS
     | Some p \<Rightarrow>
         let r = send (take (pending_request_len p) (pending_request p)) in
         if r < 0 then NATPMP_ERR_SENDERR else r)"

text \<open>The carry of microseconds into seconds that follows every addition to \<open>retry_time\<close>.\<close>

definition carry_usec :: "timeval \<Rightarrow> timeval" where
  "carry_usec t =
    (if tv_usec t \<ge> 1000000 then \<lparr>tv_sec = tv_sec t + 1, tv_usec = tv_usec t - 1000000\<rparr> else t)"

definition sendnatpmprequest ::
  "(bytes \<Rightarrow> int) \<Rightarrow> timeval \<Rightarrow> natpmp_t option \<Rightarrow> int \<times> natpmp_t option" where
  "sendnatpmprequest send now po =
    (case po of
       None \<Rightarrow> (NATPMP_ERR_INVALIDARGS, None)
     | Some p \<Rightarrow>
         let p = p\<lparr>has_pending_request := 1, try_number := 1\<rparr>;
             n = sendpendingrequest send (Some p);
             p = p\<lparr>retry_time := carry_usec (now\<lparr>tv_usec := tv_usec now + 250000\<rparr>)\<rparr>
         in (n, Some p))"

definition getnatpmprequesttimeout ::
  "timeval option \<Rightarrow> natpmp_t option \<Rightarrow> timeval option \<Rightarrow> int \<times> timeval option" where
  "getnatpmprequesttimeout now_io po timeout =
    (case (po, timeout) of
       (Some p, Some timeout) \<Rightarrow>
         if has_pending_request p = 0 then (NATPMP_ERR_NOPENDINGREQ, Some timeout)
         else (case now_io of
           None \<Rightarrow> (NATPMP_ERR_GETTIMEOFDAYERR, Some timeout)
         | Some now \<Rightarrow>
             let sec = tv_sec (retry_time p) - tv_sec now;
                 usec = tv_usec (retry_time p) - tv_usec now
             in (0, Some (if usec < 0 then \<lparr>tv_sec = sec - 1, tv_usec = usec + 1000000\<rparr>
                          else \<lparr>tv_sec = sec, tv_usec = usec\<rparr>)))
     | _ \<Rightarrow> (NATPMP_ERR_INVALIDARGS, timeout))"

definition sendpublicaddressrequest ::
  "(bytes \<Rightarrow> int) \<Rightarrow> timeval \<Rightarrow> natpmp_t option \<Rightarrow> int \<times> natpmp_t option" where
  "sendpublicaddressrequest send now po =
    (case po of
       None \<Rightarrow> (NATPMP_ERR_INVALIDARGS, None)
     | Some p \<Rightarrow>
         sendnatpmprequest send now
           (Some (p\<lparr>pending_request := (pending_request p)[0 := 0, 1 := 0],
                    pending_request_len := 2\<rparr>)))"

text \<open>A 16 or 32 bit store through a pointer into the request buffer.\<close>

definition put16 :: "bytes \<Rightarrow> nat \<Rightarrow> u16 \<Rightarrow> bytes" where
  "put16 m i w = m[i := byte16 w 0, i + 1 := byte16 w 1]"

definition put32 :: "bytes \<Rightarrow> nat \<Rightarrow> u32 \<Rightarrow> bytes" where
  "put32 m i w = m[i := byte32 w 0, i + 1 := byte32 w 1, i + 2 := byte32 w 2, i + 3 := byte32 w 3]"

definition sendnewportmappingrequest ::
  "(bytes \<Rightarrow> int) \<Rightarrow> timeval \<Rightarrow> natpmp_t option \<Rightarrow> int \<Rightarrow> u16 \<Rightarrow> u16 \<Rightarrow> u32 \<Rightarrow>
     int \<times> natpmp_t option" where
  "sendnewportmappingrequest send now po protocol priv pub life =
    (case po of
       None \<Rightarrow> (NATPMP_ERR_INVALIDARGS, None)
     | Some p \<Rightarrow>
         if protocol \<noteq> NATPMP_PROTOCOL_TCP \<and> protocol \<noteq> NATPMP_PROTOCOL_UDP
         then (NATPMP_ERR_INVALIDARGS, Some p)
         else
           let req = (pending_request p)[0 := 0, 1 := word_of_int protocol, 2 := 0, 3 := 0];
               req = put16 req 4 (htons priv);
               req = put16 req 6 (htons pub);
               req = put32 req 8 (htonl life)
           in sendnatpmprequest send now
                (Some (p\<lparr>pending_request := req, pending_request_len := 12\<rparr>)))"

section \<open>Receiving\<close>

text \<open>
  \<open>buf\<close> after \<open>recvfrom\<close>: the datagram over whatever the stack held. The code does
  not look at the number of bytes received.
\<close>

definition recv_buf :: "bytes \<Rightarrow> bytes \<Rightarrow> bytes" where
  "recv_buf stale data = take 16 (data @ drop (length data) stale)"

definition result_error :: "u16 \<Rightarrow> int" where
  "result_error code =
    (if code = 1 then NATPMP_ERR_UNSUPPORTEDVERSION
     else if code = 2 then NATPMP_ERR_NOTAUTHORIZED
     else if code = 3 then NATPMP_ERR_NETWORKFAILURE
     else if code = 4 then NATPMP_ERR_OUTOFRESOURCES
     else if code = 5 then NATPMP_ERR_UNSUPPORTEDOPCODE
     else NATPMP_ERR_UNDEFINEDERROR)"

definition readnatpmpresponse ::
  "bytes \<Rightarrow> recv_result \<Rightarrow> natpmp_t option \<Rightarrow> natpmpresp_t \<Rightarrow> int \<times> natpmpresp_t" where
  "readnatpmpresponse stale rcv po response =
    (case po of
       None \<Rightarrow> (NATPMP_ERR_INVALIDARGS, response)
     | Some p \<Rightarrow>
         (case rcv of
            RecvFailed e \<Rightarrow>
              ((case e of
                  EWOULDBLOCK \<Rightarrow> NATPMP_TRYAGAIN
                | ECONNREFUSED \<Rightarrow> NATPMP_ERR_NOGATEWAYSUPPORT
                | OtherSockError \<Rightarrow> NATPMP_ERR_RECVFROM), response)
          | Received data src \<Rightarrow>
              if src \<noteq> gateway p then (NATPMP_ERR_WRONGPACKETSOURCE, response)
              else
                let buf = recv_buf stale data;
                    response = response\<lparr>resultcode := ntohs (le16 (buf ! 2) (buf ! 3)),
                      epoch := ntohl (le32 (buf ! 4) (buf ! 5) (buf ! 6) (buf ! 7))\<rparr>
                in
                if buf ! 0 \<noteq> 0 then (NATPMP_ERR_UNSUPPORTEDVERSION, response)
                else if buf ! 1 < 128 \<or> buf ! 1 > 130 then (NATPMP_ERR_UNSUPPORTEDOPCODE, response)
                else if resultcode response \<noteq> 0 then (result_error (resultcode response), response)
                else
                  let response = response\<lparr>resp_type := ucast (buf ! 1 AND 0x7f)\<rparr> in
                  if buf ! 1 = 128 then
                    (0, response\<lparr>pnu := PublicAddress (le32 (buf ! 8) (buf ! 9) (buf ! 10) (buf ! 11))\<rparr>)
                  else
                    (0, response\<lparr>pnu := NewPortMapping
                      (ntohs (le16 (buf ! 8) (buf ! 9))) (ntohs (le16 (buf ! 10) (buf ! 11)))
                      (ntohl (le32 (buf ! 12) (buf ! 13) (buf ! 14) (buf ! 15)))\<rparr>)))"

text \<open>What one call of \<open>readnatpmpresponseorretry\<close> gets from the system.\<close>

record wait_io =
  io_stale :: bytes
  io_recv :: recv_result
  io_now :: timeval
  io_send :: "bytes \<Rightarrow> int"

definition readnatpmpresponseorretry ::
  "(timeval \<Rightarrow> timeval \<Rightarrow> bool) \<Rightarrow> wait_io \<Rightarrow> natpmp_t option \<Rightarrow> natpmpresp_t option \<Rightarrow>
     int \<times> natpmp_t option \<times> natpmpresp_t option" where
  "readnatpmpresponseorretry timer_ge io po ro =
    (case (po, ro) of
       (Some p, Some response) \<Rightarrow>
         if has_pending_request p = 0 then (NATPMP_ERR_NOPENDINGREQ, po, ro)
         else
           let (n, response) = readnatpmpresponse (io_stale io) (io_recv io) po response in
           if n < 0 then
             if n = NATPMP_TRYAGAIN \<and> timer_ge (io_now io) (retry_time p) then
               if try_number p \<ge> 9 then (NATPMP_ERR_NOGATEWAYSUPPORT, po, Some response)
               else
                 let delay = 250 * 2 ^ try_number p;
                     t = retry_time p;
                     p = p\<lparr>retry_time := carry_usec
                            \<lparr>tv_sec = tv_sec t + delay div 1000,
                             tv_usec = tv_usec t + delay mod 1000 * 1000\<rparr>,
                           try_number := try_number p + 1\<rparr>;
                     r = sendpendingrequest (io_send io) (Some p)
                 in if r < 0 then (r, Some p, Some response) else (n, Some p, Some response)
             else (n, po, Some response)
           else (n, Some (p\<lparr>has_pending_request := 0\<rparr>), Some response)
     | _ \<Rightarrow> (NATPMP_ERR_INVALIDARGS, po, ro))"

section \<open>Messages\<close>

definition strnatpmperr :: "int \<Rightarrow> string" where
  "strnatpmperr r =
    (if r = NATPMP_ERR_INVALIDARGS then ''invalid arguments''
     else if r = NATPMP_ERR_SOCKETERROR then ''socket() failed''
     else if r = NATPMP_ERR_CANNOTGETGATEWAY then ''cannot get default gateway ip address''
     else if r = NATPMP_ERR_CLOSEERR then ''closesocket() failed''
     else if r = NATPMP_ERR_RECVFROM then ''recvfrom() failed''
     else if r = NATPMP_ERR_NOPENDINGREQ then ''no pending request''
     else if r = NATPMP_ERR_NOGATEWAYSUPPORT then ''the gateway does not support nat-pmp''
     else if r = NATPMP_ERR_CONNECTERR then ''connect() failed''
     else if r = NATPMP_ERR_WRONGPACKETSOURCE then ''packet not received from the default gateway''
     else if r = NATPMP_ERR_SENDERR then ''send() failed''
     else if r = NATPMP_ERR_FCNTLERROR then ''fcntl() failed''
     else if r = NATPMP_ERR_GETTIMEOFDAYERR then ''gettimeofday() failed''
     else if r = NATPMP_ERR_UNSUPPORTEDVERSION then ''unsupported nat-pmp version error from server''
     else if r = NATPMP_ERR_UNSUPPORTEDOPCODE then ''unsupported nat-pmp opcode error from server''
     else if r = NATPMP_ERR_UNDEFINEDERROR then ''undefined nat-pmp server error''
     else if r = NATPMP_ERR_NOTAUTHORIZED then ''not authorized''
     else if r = NATPMP_ERR_NETWORKFAILURE then ''network failure''
     else if r = NATPMP_ERR_OUTOFRESOURCES then ''nat-pmp server out of resources''
     else ''Unknown libnatpmp error'')"

section \<open>The packets of RFC 6886\<close>

text \<open>
  The protocol, as the specification the code is checked against: a mapping request is
  version 0, the opcode (1 for UDP, 2 for TCP), two reserved bytes, two port numbers and a
  lifetime, all big-endian; a response has the opcode plus 128, a result code and the
  gateway's epoch, then the address or the mapping.
\<close>

datatype nat_request =
  AddressRequest
| MappingRequest (rq_tcp : bool) (rq_private : u16) (rq_public : u16) (rq_lifetime : u32)

fun decode_request :: "bytes \<Rightarrow> nat_request option" where
  "decode_request [ver, opc] = (if ver = 0 \<and> opc = 0 then Some AddressRequest else None)"
| "decode_request [ver, opc, r0, r1, a0, a1, b0, b1, l0, l1, l2, l3] =
    (if ver = 0 \<and> r0 = 0 \<and> r1 = 0 \<and> (opc = 1 \<or> opc = 2)
     then Some (MappingRequest (opc = 2) (be16 a0 a1) (be16 b0 b1) (be32 l0 l1 l2 l3)) else None)"
| "decode_request _ = None"

definition bytes16 :: "u16 \<Rightarrow> bytes" where
  "bytes16 w = [byte16 w 1, byte16 w 0]"

definition bytes32 :: "u32 \<Rightarrow> bytes" where
  "bytes32 w = [byte32 w 3, byte32 w 2, byte32 w 1, byte32 w 0]"

definition mapping_reply :: "bool \<Rightarrow> u16 \<Rightarrow> u32 \<Rightarrow> u16 \<Rightarrow> u16 \<Rightarrow> u32 \<Rightarrow> bytes" where
  "mapping_reply tcp code ep priv pub life =
    [0, if tcp then 130 else 129] @ bytes16 code @ bytes32 ep @ bytes16 priv @ bytes16 pub @ bytes32 life"

definition address_reply :: "u16 \<Rightarrow> u32 \<Rightarrow> u32 \<Rightarrow> bytes" where
  "address_reply code ep ip = [0, 128] @ bytes16 code @ bytes32 ep @ bytes32 ip"

lemma be16_bytes [byte_simps]: "be16 (byte16 w 1) (byte16 w 0) = w"
  "be16 (byte16 w (Suc 0)) (byte16 w 0) = w"
  by (simp_all add: be16_def byte_simps)

lemma be32_bytes [byte_simps]: "be32 (byte32 w 3) (byte32 w 2) (byte32 w 1) (byte32 w 0) = w"
  "be32 (byte32 w 3) (byte32 w 2) (byte32 w (Suc 0)) (byte32 w 0) = w"
  using le32_byte32 [of w] by (simp_all add: be32_def)

lemma byte16_htons [byte_simps]: "byte16 (htons w) 0 = byte16 w 1" "byte16 (htons w) (Suc 0) = byte16 w 0"
  by (simp_all add: htons_def byte_simps)

lemma byte32_htonl [byte_simps]:
  "byte32 (htonl w) 0 = byte32 w 3" "byte32 (htonl w) (Suc 0) = byte32 w 2"
  "byte32 (htonl w) 2 = byte32 w 1" "byte32 (htonl w) 3 = byte32 w 0"
  by (simp_all add: htonl_def byte_simps)

text \<open>The packet that a pending request puts on the wire.\<close>

definition packet :: "natpmp_t \<Rightarrow> bytes" where
  "packet p = take (pending_request_len p) (pending_request p)"

lemma length_12: "length xs = 12 \<Longrightarrow>
  \<exists>a b c d e f g h i j k l. xs = [a, b, c, d, e, f, g, h, i, j, k, l]"
  by (auto simp: numeral_eq_Suc length_Suc_conv)

text \<open>
  a mapping request for TCP or UDP is sent as the packet RFC 6886 prescribes for
  exactly these ports and this lifetime, and becomes the pending request with its first
  retry 250 ms ahead; any other protocol is refused and nothing changes.
\<close>

theorem sendnewportmappingrequest_correct:
  assumes "length (pending_request p) = 12"
  shows "if protocol = NATPMP_PROTOCOL_TCP \<or> protocol = NATPMP_PROTOCOL_UDP
    then \<exists>p'. sendnewportmappingrequest send now (Some p) protocol priv pub life =
           (if send (packet p') < 0 then NATPMP_ERR_SENDERR else send (packet p'), Some p') \<and>
         decode_request (packet p') =
           Some (MappingRequest (protocol = NATPMP_PROTOCOL_TCP) priv pub life) \<and>
         length (pending_request p') = 12 \<and> gateway p' = gateway p \<and>
         has_pending_request p' = 1 \<and> try_number p' = 1 \<and>
         retry_time p' = carry_usec (now\<lparr>tv_usec := tv_usec now + 250000\<rparr>)
    else sendnewportmappingrequest send now (Some p) protocol priv pub life =
         (NATPMP_ERR_INVALIDARGS, Some p)"
proof -
  obtain a b c d e f g h i j k l where "pending_request p = [a, b, c, d, e, f, g, h, i, j, k, l]"
    using length_12 [OF assms] by blast
  then show ?thesis
    by (auto simp: sendnewportmappingrequest_def sendnatpmprequest_def sendpendingrequest_def Let_def
      packet_def put16_def put32_def byte_simps)
qed

lemma recv_buf_exact: "length data = 16 \<Longrightarrow> recv_buf stale data = data"
  by (simp add: recv_buf_def)

lemma recv_buf_nth: "i < length data \<Longrightarrow> i < 16 \<Longrightarrow> recv_buf stale data ! i = data ! i"
  by (simp add: recv_buf_def nth_append)

lemma result_error_neg [simp]: "result_error code < 0" "result_error code \<le> 0"
  "result_error code \<noteq> 0" "result_error code \<noteq> -100"
  by (auto simp: result_error_def)

lemma mapping_reply_bytes:
  "mapping_reply tcp code ep priv pub life =
    [0, if tcp then 130 else 129, byte16 code 1, byte16 code 0,
     byte32 ep 3, byte32 ep 2, byte32 ep 1, byte32 ep 0, byte16 priv 1, byte16 priv 0,
     byte16 pub 1, byte16 pub 0, byte32 life 3, byte32 life 2, byte32 life 1, byte32 life 0]"
  by (simp add: mapping_reply_def bytes16_def bytes32_def)

lemma mapping_reply_read:
  "readnatpmpresponse stale (Received (mapping_reply tcp code ep priv pub life) (gateway p)) (Some p) r =
    (if code = 0
     then (0, r\<lparr>resp_type := if tcp then NATPMP_RESPTYPE_TCPPORTMAPPING else NATPMP_RESPTYPE_UDPPORTMAPPING,
                resultcode := 0, epoch := ep, pnu := NewPortMapping priv pub life\<rparr>)
     else (result_error code, r\<lparr>resultcode := code, epoch := ep\<rparr>))"
  unfolding mapping_reply_bytes readnatpmpresponse_def
  by (simp add: recv_buf_exact byte_simps Let_def)

lemma address_reply_read:
  "readnatpmpresponse stale (Received (address_reply code ep ip) (gateway p)) (Some p) r =
    (if code = 0
     then (0, r\<lparr>resp_type := NATPMP_RESPTYPE_PUBLICADDRESS, resultcode := 0, epoch := ep,
                pnu := PublicAddress (htonl ip)\<rparr>)
     else (result_error code, r\<lparr>resultcode := code, epoch := ep\<rparr>))"
  by (simp add: readnatpmpresponse_def address_reply_def bytes16_def bytes32_def recv_buf_nth
    byte_simps Let_def) (simp add: htonl_def)

text \<open>
  The client reads back what the gateway encoded: a mapping reply from the gateway
  with result 0 yields its ports, lifetime, epoch and type, an address reply the address, and
  a reply with another result code the error of that code.
\<close>

theorem readnatpmpresponse_replies:
  "readnatpmpresponse stale (Received (mapping_reply tcp code ep priv pub life) (gateway p)) (Some p) r =
    (if code = 0
     then (0, r\<lparr>resp_type := if tcp then NATPMP_RESPTYPE_TCPPORTMAPPING else NATPMP_RESPTYPE_UDPPORTMAPPING,
                resultcode := 0, epoch := ep, pnu := NewPortMapping priv pub life\<rparr>)
     else (result_error code, r\<lparr>resultcode := code, epoch := ep\<rparr>)) \<and>
   readnatpmpresponse stale (Received (address_reply code ep ip) (gateway p)) (Some p) r =
    (if code = 0
     then (0, r\<lparr>resp_type := NATPMP_RESPTYPE_PUBLICADDRESS, resultcode := 0, epoch := ep,
                pnu := PublicAddress (htonl ip)\<rparr>)
     else (result_error code, r\<lparr>resultcode := code, epoch := ep\<rparr>))"
  by (simp only: mapping_reply_read address_reply_read)

text \<open>The replies that are accepted, with what they leave in the response.\<close>

definition accepted :: "natpmp_t \<Rightarrow> bytes \<Rightarrow> recv_result \<Rightarrow> bool" where
  "accepted p stale rcv \<longleftrightarrow>
    (\<exists>data. rcv = Received data (gateway p) \<and>
      (let buf = recv_buf stale data in
        buf ! 0 = 0 \<and> 128 \<le> buf ! 1 \<and> buf ! 1 \<le> 130 \<and> be16 (buf ! 2) (buf ! 3) = 0))"

lemma readnatpmpresponse_code:
  "readnatpmpresponse stale rcv (Some p) r = (n, r') \<Longrightarrow>
    (n = 0 \<longleftrightarrow> accepted p stale rcv) \<and> n \<le> 0 \<and>
    (n = NATPMP_TRYAGAIN \<longleftrightarrow> rcv = RecvFailed EWOULDBLOCK)"
  by (auto simp: readnatpmpresponse_def accepted_def Let_def byte_simps not_less
    split: recv_result.splits sock_error.splits if_splits)

section \<open>The retry timer\<close>

definition usecs :: "timeval \<Rightarrow> int" where
  "usecs t = tv_sec t * 1000000 + tv_usec t"

definition normal :: "timeval \<Rightarrow> bool" where
  "normal t \<longleftrightarrow> 0 \<le> tv_usec t \<and> tv_usec t < 1000000"

lemma carry_usec:
  assumes "0 \<le> tv_usec t" "tv_usec t < 2000000"
  shows "normal (carry_usec t)" "usecs (carry_usec t) = usecs t"
  using assms by (auto simp: carry_usec_def normal_def usecs_def)

lemma natpmp_gettimeofday_usecs:
  assumes "116444736000000000 \<le> ns" "ns < 116444736000000000 + 2 ^ 31 * 10000000"
  shows "normal (natpmp_gettimeofday ns)"
    and "usecs (natpmp_gettimeofday ns) = (ns - 116444736000000000) div 10"
proof -
  have long: "to_long x = x" if "0 \<le> x" "x < 2 ^ 31" for x
    using that by (simp add: to_long_def sint_uint uint_word_of_int signed_take_bit_int_eq_self
      take_bit_int_eq_self)
  let ?d = "ns - 116444736000000000"
  have sec: "to_long (?d div 10000000) = ?d div 10000000"
    using assms by (intro long) auto
  have eq: "ns div 10 mod 1000000 = ?d div 10 mod 1000000"
  proof -
    have "ns div 10 = (?d + 11644473600000000 * 10) div 10" by simp
    also have "\<dots> = 11644473600000000 + ?d div 10" by (rule div_mult_self1) simp
    finally have "ns div 10 mod 1000000 = (?d div 10 + 11644473600 * 1000000) mod 1000000"
      by (simp add: add.commute)
    then show ?thesis by (simp only: mod_mult_self1)
  qed
  have "?d div 10000000 = ?d div 10 div 1000000" by (simp add: zdiv_zmult2_eq [symmetric])
  then have whole: "?d div 10000000 * 1000000 + ?d div 10 mod 1000000 = ?d div 10" by simp
  show "normal (natpmp_gettimeofday ns)" "usecs (natpmp_gettimeofday ns) = ?d div 10"
    using sec whole long [of "ns div 10 mod 1000000"] 
    by (auto simp: normal_def natpmp_gettimeofday_def usecs_def eq)
qed

lemma request_timeout:
  assumes "normal (retry_time p)" and "normal now" and "has_pending_request p \<noteq> 0"
  shows "\<exists>t'. getnatpmprequesttimeout (Some now) (Some p) (Some t) = (0, Some t') \<and>
      normal t' \<and> usecs t' = usecs (retry_time p) - usecs now"
  using assms by (auto simp: getnatpmprequesttimeout_def Let_def normal_def usecs_def)

text \<open>
  the timeout handed to \<open>select\<close> is normalised and is exactly the time from now to
  the retry deadline; without a pending request no timeout is produced.
\<close>

theorem getnatpmprequesttimeout_correct:
  assumes "normal (retry_time p)" and "normal now"
  shows "if has_pending_request p = 0
    then getnatpmprequesttimeout (Some now) (Some p) (Some t) = (NATPMP_ERR_NOPENDINGREQ, Some t)
    else \<exists>t'. getnatpmprequesttimeout (Some now) (Some p) (Some t) = (0, Some t') \<and>
      normal t' \<and> usecs t' = usecs (retry_time p) - usecs now"
  using request_timeout [OF assms] by (simp add: getnatpmprequesttimeout_def)

text \<open>
  The life of one request: it is sent at time \<open>t0\<close> and then polled any number of times,
  with any answers of the system.
\<close>

inductive natpmp_run :: "(timeval \<Rightarrow> timeval \<Rightarrow> bool) \<Rightarrow> timeval \<Rightarrow> natpmp_t \<Rightarrow> bool"
  for timer_ge t0 where
  start: "sendnatpmprequest send t0 (Some p) = (n, Some p') \<Longrightarrow> natpmp_run timer_ge t0 p'"
| poll: "natpmp_run timer_ge t0 p \<Longrightarrow>
    readnatpmpresponseorretry timer_ge io (Some p) (Some r) = (n, Some p', Some r') \<Longrightarrow>
    natpmp_run timer_ge t0 p'"

definition on_schedule :: "timeval \<Rightarrow> natpmp_t \<Rightarrow> bool" where
  "on_schedule t0 p \<longleftrightarrow> 1 \<le> try_number p \<and> try_number p \<le> 9 \<and> normal (retry_time p) \<and>
    usecs (retry_time p) = usecs t0 + 250000 * (2 ^ try_number p - 1)"

lemma sendnatpmprequest_schedule:
  assumes "normal t0" and "sendnatpmprequest send t0 (Some p) = (n, Some p')"
  shows "on_schedule t0 p'"
  using assms carry_usec [of "t0\<lparr>tv_usec := tv_usec t0 + 250000\<rparr>"]
  by (auto simp: sendnatpmprequest_def Let_def on_schedule_def normal_def usecs_def)

definition next_retry :: "natpmp_t \<Rightarrow> timeval" where
  "next_retry p = carry_usec
    \<lparr>tv_sec = tv_sec (retry_time p) + 250 * 2 ^ try_number p div 1000,
     tv_usec = tv_usec (retry_time p) + 250 * 2 ^ try_number p mod 1000 * 1000\<rparr>"

text \<open>The state after one poll: the request is done, was sent again, or nothing changed.\<close>

lemma poll_cases:
  assumes "readnatpmpresponseorretry timer_ge io (Some p) (Some r) = (n, Some p', Some r')"
  obtains (same) "p' = p"
  | (retry) "has_pending_request p \<noteq> 0" "io_recv io = RecvFailed EWOULDBLOCK"
      "timer_ge (io_now io) (retry_time p)" "try_number p < 9"
      "p' = p\<lparr>retry_time := next_retry p, try_number := try_number p + 1\<rparr>"
      "n = NATPMP_TRYAGAIN \<or> n = NATPMP_ERR_SENDERR"
  | (answered) "n = 0" "has_pending_request p \<noteq> 0" "accepted p (io_stale io) (io_recv io)"
      "p' = p\<lparr>has_pending_request := 0\<rparr>"
proof (cases "has_pending_request p = 0")
  case True
  then show ?thesis using assms by (intro same) (simp add: readnatpmpresponseorretry_def)
next
  case pending: False
  obtain m q where mq: "readnatpmpresponse (io_stale io) (io_recv io) (Some p) r = (m, q)"
    by (cases "readnatpmpresponse (io_stale io) (io_recv io) (Some p) r")
  note code = readnatpmpresponse_code [OF mq]
  consider "m = 0" | "m < 0" "m = NATPMP_TRYAGAIN \<and> timer_ge (io_now io) (retry_time p) \<and> try_number p < 9"
    | "m < 0" "\<not> (m = NATPMP_TRYAGAIN \<and> timer_ge (io_now io) (retry_time p) \<and> try_number p < 9)"
    using code by linarith
  then show ?thesis
  proof cases
    case 1
    then show ?thesis using assms mq code pending
      by (intro answered) (auto simp: readnatpmpresponseorretry_def)
  next
    case 2
    then show ?thesis using assms mq code pending
      by (intro retry) (auto simp: readnatpmpresponseorretry_def Let_def sendpendingrequest_def
        next_retry_def split: if_splits)
  next
    case 3
    then show ?thesis using assms mq pending
      by (intro same) (auto simp: readnatpmpresponseorretry_def Let_def split: if_splits)
  qed
qed

lemma next_retry:
  assumes "normal (retry_time p)"
  shows "normal (next_retry p)" "usecs (next_retry p) = usecs (retry_time p) + 250000 * 2 ^ try_number p"
proof -
  let ?d = "250 * 2 ^ try_number p :: int"
  have m: "0 \<le> ?d mod 1000" "?d mod 1000 < 1000" by auto
  have b: "0 \<le> tv_usec (retry_time p) + ?d mod 1000 * 1000"
    "tv_usec (retry_time p) + ?d mod 1000 * 1000 < 2000000"
    using assms m by (auto simp: normal_def)
  show "normal (next_retry p)" unfolding next_retry_def using b by (intro carry_usec(1)) simp_all
  have "usecs (next_retry p) = (tv_sec (retry_time p) + ?d div 1000) * 1000000 +
      (tv_usec (retry_time p) + ?d mod 1000 * 1000)"
    unfolding next_retry_def using b by (subst carry_usec(2)) (simp_all add: usecs_def)
  also have "\<dots> = usecs (retry_time p) + 1000 * (?d div 1000 * 1000 + ?d mod 1000)"
    by (simp add: usecs_def algebra_simps)
  also have "?d div 1000 * 1000 + ?d mod 1000 = ?d" by (rule div_mult_mod_eq)
  finally show "usecs (next_retry p) = usecs (retry_time p) + 250000 * 2 ^ try_number p" by simp
qed

text \<open>
  C38: whatever the system answers and however \<open>timercmp\<close> is expanded, the deadlines of a
  request follow the exponential schedule: after \<open>k\<close> transmissions the next deadline is
  \<open>250 ms * (2 ^ k - 1)\<close> after the first one, microseconds stay normalised, and there are
  never more than nine transmissions.
\<close>

theorem natpmp_retry_schedule:
  assumes "natpmp_run timer_ge t0 p" and "normal t0"
  shows "on_schedule t0 p"
  using assms
proof (induction rule: natpmp_run.induct)
  case (start send p n p')
  then show ?case by (intro sendnatpmprequest_schedule)
next
  case (poll p io r n p' r')
  then have inv: "on_schedule t0 p" by blast
  from poll.hyps(2) show ?case
  proof (cases rule: poll_cases)
    case same
    with inv show ?thesis by simp
  next
    case retry
    then show ?thesis using inv next_retry [of p]
      by (auto simp: on_schedule_def algebra_simps)
  next
    case answered
    with inv show ?thesis by (simp add: on_schedule_def)
  qed
qed

text \<open>
  What the waiting code needs of \<open>timercmp\<close>: it may not miss a deadline that has passed.
  Both expansions have that; only glibc's has the converse.
\<close>

locale timer_order =
  fixes timer_ge :: "timeval \<Rightarrow> timeval \<Rightarrow> bool"
  assumes passed: "normal a \<Longrightarrow> normal b \<Longrightarrow> usecs b \<le> usecs a \<Longrightarrow> timer_ge a b"
begin

lemma overdue_poll:
  assumes poll: "readnatpmpresponseorretry timer_ge io (Some p) (Some r) = (n, Some p', Some r')"
    and "has_pending_request p \<noteq> 0" and "io_recv io = RecvFailed EWOULDBLOCK"
    and "normal (io_now io)" "normal (retry_time p)" "usecs (retry_time p) \<le> usecs (io_now io)"
    and "try_number p < 9"
  shows "p' = p\<lparr>retry_time := next_retry p, try_number := try_number p + 1\<rparr>"
proof -
  have "timer_ge (io_now io) (retry_time p)" using assms passed by blast
  then show ?thesis
    using assms by (auto simp: readnatpmpresponseorretry_def readnatpmpresponse_def Let_def
      next_retry_def split: if_splits)
qed

end

lemma usecs_ge_iff:
  assumes "normal a" "normal b"
  shows "usecs b \<le> usecs a \<longleftrightarrow> timercmp_ge_glibc a b"
proof (cases "tv_sec a" "tv_sec b" rule: linorder_cases)
  case less
  then have "tv_sec a * 1000000 + 1000000 \<le> tv_sec b * 1000000" by simp
  then show ?thesis using assms less by (simp add: usecs_def normal_def timercmp_ge_glibc_def)
next
  case greater
  then have "tv_sec b * 1000000 + 1000000 \<le> tv_sec a * 1000000" by simp
  then show ?thesis using assms greater by (simp add: usecs_def normal_def timercmp_ge_glibc_def)
qed (simp add: usecs_def timercmp_ge_glibc_def)

interpretation glibc: timer_order timercmp_ge_glibc
  by unfold_locales (simp add: usecs_ge_iff)

interpretation winsock: timer_order timercmp_ge_winsock
proof unfold_locales
  fix a b
  assume "normal a" "normal b" "usecs b \<le> usecs a"
  then have "timercmp_ge_glibc a b" by (simp add: usecs_ge_iff)
  then show "timercmp_ge_winsock a b"
    by (auto simp: timercmp_ge_glibc_def timercmp_ge_winsock_def split: if_splits)
qed

text \<open>With \<open>winsock2.h\<close> the request is repeated before its deadline within the same second.\<close>

lemma winsock_retries_early:
  "timercmp_ge_winsock \<lparr>tv_sec = 7, tv_usec = 0\<rparr> \<lparr>tv_sec = 7, tv_usec = 999999\<rparr>"
  "\<not> timercmp_ge_glibc \<lparr>tv_sec = 7, tv_usec = 0\<rparr> \<lparr>tv_sec = 7, tv_usec = 999999\<rparr>"
  by (simp_all add: timercmp_ge_winsock_def timercmp_ge_glibc_def)

text \<open>
  A datagram of two bytes from the gateway is accepted when the uninitialised buffer happens
  to hold a reply: the number of bytes received is not checked.
\<close>

lemma short_reply_accepted:
  "readnatpmpresponse (mapping_reply True 0 ep priv pub life) (Received [0, 130] (gateway p)) (Some p) r =
    (0, r\<lparr>resp_type := NATPMP_RESPTYPE_TCPPORTMAPPING, resultcode := 0, epoch := ep,
          pnu := NewPortMapping priv pub life\<rparr>)"
  unfolding mapping_reply_bytes readnatpmpresponse_def
  by (simp add: recv_buf_def byte_simps Let_def)

section \<open>Instances\<close>

theorem sendnewportmappingrequest_witness:
  "\<exists>p'. sendnewportmappingrequest (\<lambda>b. int (length b)) \<lparr>tv_sec = 5, tv_usec = 0\<rparr> (Some zero_natpmp) 2 80 81 3600 =
      (int (length (packet p')), Some p') \<and>
    decode_request (packet p') = Some (MappingRequest True 80 81 3600)"
  using sendnewportmappingrequest_correct [of zero_natpmp 2 "\<lambda>b. int (length b)" "\<lparr>tv_sec = 5, tv_usec = 0\<rparr>" 80 81 3600]
  by (auto simp: zero_natpmp_def)

theorem getnatpmprequesttimeout_witness:
  "\<exists>t'. getnatpmprequesttimeout (Some \<lparr>tv_sec = 4, tv_usec = 900000\<rparr>)
      (Some (zero_natpmp\<lparr>has_pending_request := 1, retry_time := \<lparr>tv_sec = 5, tv_usec = 100000\<rparr>\<rparr>))
      (Some \<lparr>tv_sec = 0, tv_usec = 0\<rparr>) = (0, Some t') \<and> usecs t' = 200000"
  using getnatpmprequesttimeout_correct [of "zero_natpmp\<lparr>has_pending_request := 1, retry_time := \<lparr>tv_sec = 5, tv_usec = 100000\<rparr>\<rparr>"
    "\<lparr>tv_sec = 4, tv_usec = 900000\<rparr>" "\<lparr>tv_sec = 0, tv_usec = 0\<rparr>"]
  by (auto simp: normal_def usecs_def)

theorem natpmp_retry_schedule_witness:
  "on_schedule \<lparr>tv_sec = 5, tv_usec = 0\<rparr>
    (zero_natpmp\<lparr>has_pending_request := 1, try_number := 1, retry_time := \<lparr>tv_sec = 5, tv_usec = 250000\<rparr>\<rparr>)"
proof (rule natpmp_retry_schedule)
  show "natpmp_run timercmp_ge_glibc \<lparr>tv_sec = 5, tv_usec = 0\<rparr>
    (zero_natpmp\<lparr>has_pending_request := 1, try_number := 1, retry_time := \<lparr>tv_sec = 5, tv_usec = 250000\<rparr>\<rparr>)"
    by (rule natpmp_run.start [of "\<lambda>b. 0" _ zero_natpmp 0])
      (simp add: sendnatpmprequest_def sendpendingrequest_def carry_usec_def zero_natpmp_def)
qed (simp add: normal_def)

end
