(* ===== verification/MapperNatpmp.thy ===== *)
theory MapperNatpmp
  imports Natpmp
begin

text \<open>
  The client's port mapper over NAT-PMP (\<open>src/client/Mapper_NATPMP.cpp\<close>,
  \<open>Mapper_NATPMP.h\<close>, \<open>Mapper.h\<close>). The file-static \<open>nat\<close> is passed
  explicitly, as \<open>nt\<close>.

  The waiting loop may run for as long as the system has nothing to report, so it has fuel,
  and \<open>None\<close> means that it is still waiting. Turn \<open>i\<close> of the loop gets a clock reading
  and, given the timeout that was passed to \<open>select\<close> (if it was called), the answers of
  the calls that follow.
\<close>

section \<open>Definitions\<close>

datatype Protocol = PROTOCOL_TCP | PROTOCOL_UDP

record Mapper_NATPMP =
  m_gateway :: string
  lifetime :: int
  publicPort :: int

record mapper_io =
  io_clock :: "nat \<Rightarrow> timeval"
  io_select :: "nat \<Rightarrow> timeval option \<Rightarrow> wait_io"

definition DEFAULT_LIFETIME :: u32 where
  "DEFAULT_LIFETIME = 3600"

definition mapper_init ::
  "init_io \<Rightarrow> (u32 \<Rightarrow> string) \<Rightarrow> Mapper_NATPMP \<Rightarrow> natpmp_t \<Rightarrow> bool \<times> Mapper_NATPMP \<times> natpmp_t" where
  "mapper_init io inet_ntop m nt =
    (case initnatpmp io (Some nt) False 0 of
       (r, Some nt) \<Rightarrow>
         if r \<ge> 0 then (True, m\<lparr>m_gateway := inet_ntop (gateway nt)\<rparr>, nt) else (False, m, nt)
     | (r, None) \<Rightarrow> (False, m, nt))"

definition reqType :: "Protocol \<Rightarrow> int" where
  "reqType protocol =
    (if protocol = PROTOCOL_TCP then NATPMP_PROTOCOL_TCP else NATPMP_PROTOCOL_UDP)"

definition respType :: "Protocol \<Rightarrow> u16" where
  "respType protocol =
    (if protocol = PROTOCOL_TCP then NATPMP_RESPTYPE_TCPPORTMAPPING
     else NATPMP_RESPTYPE_UDPPORTMAPPING)"

definition sendRequest ::
  "(bytes \<Rightarrow> int) \<Rightarrow> timeval \<Rightarrow> natpmp_t \<Rightarrow> u16 \<Rightarrow> Protocol \<Rightarrow> u32 \<Rightarrow> bool \<times> natpmp_t" where
  "sendRequest send now nt port protocol life =
    (case sendnewportmappingrequest send now (Some nt) (reqType protocol) port port life of
       (n, po) \<Rightarrow> (n \<ge> 0, case po of Some nt \<Rightarrow> nt | None \<Rightarrow> nt))"

text \<open>
  One turn of the loop in \<open>read\<close>: what the system answers in it (the result of \<open>select\<close> itself is
  ignored), and the code and the two structures it updates.
\<close>

definition turn_io :: "mapper_io \<Rightarrow> nat \<Rightarrow> natpmp_t \<Rightarrow> wait_io" where
  "turn_io io i nt =
    (let (t, tmo) = getnatpmprequesttimeout (Some (io_clock io i)) (Some nt)
                      (Some \<lparr>tv_sec = 0, tv_usec = 0\<rparr>)
     in io_select io i (if t \<ge> 0 then tmo else None))"

definition read_turn ::
  "(timeval \<Rightarrow> timeval \<Rightarrow> bool) \<Rightarrow> mapper_io \<Rightarrow> nat \<Rightarrow> natpmp_t \<Rightarrow> natpmpresp_t \<Rightarrow>
     int \<times> natpmp_t \<times> natpmpresp_t" where
  "read_turn timer_ge io i nt response =
    (case readnatpmpresponseorretry timer_ge (turn_io io i nt) (Some nt) (Some response) of
       (res, Some nt, Some response) \<Rightarrow> (res, nt, response)
     | (res, _, _) \<Rightarrow> (res, nt, response))"

fun read_loop ::
  "(timeval \<Rightarrow> timeval \<Rightarrow> bool) \<Rightarrow> mapper_io \<Rightarrow> nat \<Rightarrow> nat \<Rightarrow> natpmp_t \<Rightarrow> natpmpresp_t \<Rightarrow>
     (bool \<times> natpmp_t \<times> natpmpresp_t) option" where
  "read_loop timer_ge io 0 i nt response = None"
| "read_loop timer_ge io (Suc fuel) i nt response =
    (let (res, nt, response) = read_turn timer_ge io i nt response in
     if res = NATPMP_TRYAGAIN \<and> try_number nt \<le> 5
     then read_loop timer_ge io fuel (Suc i) nt response
     else Some (res \<ge> 0, nt, response))"

definition addMapping ::
  "(timeval \<Rightarrow> timeval \<Rightarrow> bool) \<Rightarrow> mapper_io \<Rightarrow> (bytes \<Rightarrow> int) \<Rightarrow> timeval \<Rightarrow> nat \<Rightarrow> natpmpresp_t \<Rightarrow>
     Mapper_NATPMP \<Rightarrow> natpmp_t \<Rightarrow> int \<Rightarrow> Protocol \<Rightarrow> (bool \<times> Mapper_NATPMP \<times> natpmp_t) option" where
  "addMapping timer_ge io send now fuel response m nt port protocol =
    (let (sent, nt) = sendRequest send now nt (word_of_int port) protocol DEFAULT_LIFETIME in
     if sent then
       map_option (\<lambda>(ok, nt, response).
         if ok \<and> resp_type response = respType protocol \<and>
            uint (privateport (pnu response)) = port \<and>
            mappedpublicport (pnu response) \<noteq> 0 \<and> map_lifetime (pnu response) \<noteq> 0
         then (True, m\<lparr>lifetime := uint (min 3600 (map_lifetime (pnu response))),
                       publicPort := uint (mappedpublicport (pnu response))\<rparr>, nt)
         else (False, m, nt)) (read_loop timer_ge io fuel 0 nt response)
     else Some (False, m, nt))"

definition removeMapping ::
  "(timeval \<Rightarrow> timeval \<Rightarrow> bool) \<Rightarrow> mapper_io \<Rightarrow> (bytes \<Rightarrow> int) \<Rightarrow> timeval \<Rightarrow> nat \<Rightarrow> natpmpresp_t \<Rightarrow>
     Mapper_NATPMP \<Rightarrow> natpmp_t \<Rightarrow> int \<Rightarrow> Protocol \<Rightarrow> (bool \<times> Mapper_NATPMP \<times> natpmp_t) option" where
  "removeMapping timer_ge io send now fuel response m nt port protocol =
    (let (sent, nt) = sendRequest send now nt (word_of_int port) protocol 0 in
     if sent then
       map_option (\<lambda>(ok, nt, response).
         if ok \<and> resp_type response = respType protocol \<and>
            uint (privateport (pnu response)) = port \<and> map_lifetime (pnu response) = 0
         then (True, m\<lparr>lifetime := 0, publicPort := 0\<rparr>, nt)
         else (False, m, nt)) (read_loop timer_ge io fuel 0 nt response)
     else Some (False, m, nt))"

text \<open>The address in host order, or \<open>None\<close> for the default \<open>IpAddress\<close>.\<close>

definition getExternalIP ::
  "(timeval \<Rightarrow> timeval \<Rightarrow> bool) \<Rightarrow> mapper_io \<Rightarrow> (bytes \<Rightarrow> int) \<Rightarrow> timeval \<Rightarrow> nat \<Rightarrow> natpmpresp_t \<Rightarrow>
     natpmp_t \<Rightarrow> (u32 option \<times> natpmp_t) option" where
  "getExternalIP timer_ge io send now fuel response nt =
    (case sendpublicaddressrequest send now (Some nt) of
       (n, Some nt) \<Rightarrow>
         if n \<ge> 0 then
           map_option (\<lambda>(ok, nt, response).
             (if ok \<and> resp_type response = NATPMP_RESPTYPE_PUBLICADDRESS
              then Some (ntohl (s_addr (pnu response))) else None, nt))
             (read_loop timer_ge io fuel 0 nt response)
         else Some (None, nt)
     | (n, None) \<Rightarrow> Some (None, nt))"

definition renewal :: "Mapper_NATPMP \<Rightarrow> int" where
  "renewal m = lifetime m div 2"

section \<open>The waiting loop ends\<close>

text \<open>
  The clock readings are normalised. A turn is early when \<open>select\<close> comes back before its timeout
  (by the clock that is read afterwards) although there is nothing to read: after a signal, or when it reports
  a datagram that \<open>recvfrom\<close> then does not deliver.
\<close>

definition clocks_normal :: "mapper_io \<Rightarrow> bool" where
  "clocks_normal io \<longleftrightarrow> (\<forall>i. normal (io_clock io i)) \<and> (\<forall>i t. normal (io_now (io_select io i t)))"

definition early_turn :: "mapper_io \<Rightarrow> nat \<Rightarrow> bool" where
  "early_turn io i \<longleftrightarrow> (\<exists>t. io_recv (io_select io i (Some t)) = RecvFailed EWOULDBLOCK \<and>
     usecs (io_now (io_select io i (Some t))) < usecs (io_clock io i) + usecs t)"

fun early_turns :: "mapper_io \<Rightarrow> nat \<Rightarrow> nat \<Rightarrow> nat" where
  "early_turns io i 0 = 0"
| "early_turns io i (Suc n) = (if early_turn io i then 1 else 0) + early_turns io (Suc i) n"

lemma readnatpmpresponseorretry_Some:
  "\<exists>n p' r'. readnatpmpresponseorretry timer_ge io (Some p) (Some r) = (n, Some p', Some r')"
  by (simp add: readnatpmpresponseorretry_def Let_def split: prod.splits)

lemma tryagain_recv:
  assumes "readnatpmpresponseorretry timer_ge io (Some p) (Some r) = (NATPMP_TRYAGAIN, Some p', Some r')"
  shows "io_recv io = RecvFailed EWOULDBLOCK \<and> has_pending_request p \<noteq> 0"
proof -
  obtain m q where mq: "readnatpmpresponse (io_stale io) (io_recv io) (Some p) r = (m, q)"
    by (cases "readnatpmpresponse (io_stale io) (io_recv io) (Some p) r")
  then show ?thesis
    using assms readnatpmpresponse_code [OF mq]
    by (auto simp: readnatpmpresponseorretry_def Let_def sendpendingrequest_def split: if_splits)
qed

context timer_order
begin

lemma read_turn_progress:
  assumes io: "clocks_normal io" and norm: "normal (retry_time p)" and "try_number p < 9"
    and turn: "read_turn timer_ge io i p r = (NATPMP_TRYAGAIN, p', r')"
  shows "normal (retry_time p') \<and> try_number p \<le> try_number p' \<and>
    (early_turn io i \<or> try_number p' = Suc (try_number p))"
proof -
  let ?z = "\<lparr>tv_sec = 0, tv_usec = 0\<rparr>"
  obtain t tmo where to: "getnatpmprequesttimeout (Some (io_clock io i)) (Some p) (Some ?z) = (t, tmo)"
    by (cases "getnatpmprequesttimeout (Some (io_clock io i)) (Some p) (Some ?z)")
  define w where "w = turn_io io i p"
  obtain n q s where rd: "readnatpmpresponseorretry timer_ge w (Some p) (Some r) = (n, Some q, Some s)"
    using readnatpmpresponseorretry_Some by blast
  have nq: "n = NATPMP_TRYAGAIN" "q = p'" using turn rd by (auto simp: read_turn_def w_def)
  have recv: "io_recv w = RecvFailed EWOULDBLOCK" and pend: "has_pending_request p \<noteq> 0"
    using tryagain_recv rd nq by blast+
  have nc: "normal (io_clock io i)" "normal (io_now w)"
    using io by (auto simp: clocks_normal_def w_def turn_io_def split: prod.splits)
  obtain d where d: "t = 0" "tmo = Some d" "usecs d = usecs (retry_time p) - usecs (io_clock io i)"
    using request_timeout [OF norm nc(1) pend, of ?z] to by auto
  have w: "w = io_select io i (Some d)" using to d(1,2) by (simp add: w_def turn_io_def)
  show ?thesis
  proof (cases "usecs (retry_time p) \<le> usecs (io_now w)")
    case True
    then have "q = p\<lparr>retry_time := next_retry p, try_number := try_number p + 1\<rparr>"
      using overdue_poll [OF rd pend recv nc(2) norm] assms(3) by blast
    then show ?thesis using nq next_retry(1) [OF norm] by simp
  next
    case False
    then have "early_turn io i" using recv d(3) unfolding early_turn_def w by (intro exI [of _ d]) auto
    moreover have "normal (retry_time q) \<and> try_number p \<le> try_number q"
      using rd by (cases rule: poll_cases) (use norm next_retry(1) [OF norm] in auto)
    ultimately show ?thesis using nq by simp
  qed
qed

lemma read_loop_ends:
  assumes "clocks_normal io" and "normal (retry_time p)" and "6 + early_turns io i fuel \<le> try_number p + fuel"
    and "0 < fuel" and "try_number p < 9"
  shows "read_loop timer_ge io fuel i p r \<noteq> None"
  using assms
proof (induction fuel arbitrary: i p r)
  case (Suc fuel)
  obtain n p' r' where turn: "read_turn timer_ge io i p r = (n, p', r')" by (metis prod_cases3)
  show ?case
  proof (cases "n = NATPMP_TRYAGAIN \<and> try_number p' \<le> 5")
    case True
    with read_turn_progress [OF Suc.prems(1,2,5)] turn
    have "normal (retry_time p')" "try_number p \<le> try_number p'"
      "early_turn io i \<or> try_number p' = Suc (try_number p)" by blast+
    then have "read_loop timer_ge io fuel (Suc i) p' r' \<noteq> None"
      using Suc.prems True by (intro Suc.IH) (auto split: if_splits)
    then show ?thesis using turn True by simp
  next
    case False
    then show ?thesis using turn by auto
  qed
qed simp

end

section \<open>What an accepted reply says\<close>

text \<open>
  The reply in \<open>buf\<close> to a mapping request: version 0, the opcode of the protocol plus
  128, result 0, and the mapping itself.
\<close>

definition mapping_in :: "bytes \<Rightarrow> Protocol \<Rightarrow> u16 \<Rightarrow> u16 \<Rightarrow> u32 \<Rightarrow> bool" where
  "mapping_in buf protocol priv pub life \<longleftrightarrow>
    buf ! 0 = 0 \<and> buf ! 1 = (if protocol = PROTOCOL_TCP then 130 else 129) \<and>
    be16 (buf ! 2) (buf ! 3) = 0 \<and> be16 (buf ! 8) (buf ! 9) = priv \<and>
    be16 (buf ! 10) (buf ! 11) = pub \<and> be32 (buf ! 12) (buf ! 13) (buf ! 14) (buf ! 15) = life"

text \<open>What the turns of a run of the loop got from the system, in their order.\<close>

fun loop_reads ::
  "(timeval \<Rightarrow> timeval \<Rightarrow> bool) \<Rightarrow> mapper_io \<Rightarrow> nat \<Rightarrow> nat \<Rightarrow> natpmp_t \<Rightarrow> natpmpresp_t \<Rightarrow> wait_io list" where
  "loop_reads timer_ge io 0 i nt response = []"
| "loop_reads timer_ge io (Suc fuel) i nt response =
    turn_io io i nt #
    (let (res, nt, response) = read_turn timer_ge io i nt response in
     if res = NATPMP_TRYAGAIN \<and> try_number nt \<le> 5
     then loop_reads timer_ge io fuel (Suc i) nt response else [])"

text \<open>
  The run got nothing in all its turns but the last, and in the last one a datagram of the gateway
  that put \<open>P\<close> into the buffer. A datagram shorter than 16 bytes is completed there by what
  the stack held; a longer one is the buffer.
\<close>

definition reply_received :: "wait_io list \<Rightarrow> u32 \<Rightarrow> (bytes \<Rightarrow> bool) \<Rightarrow> bool" where
  "reply_received ws gw P \<longleftrightarrow>
    (\<exists>pre w data. ws = pre @ [w] \<and> (\<forall>v \<in> set pre. io_recv v = RecvFailed EWOULDBLOCK) \<and>
       io_recv w = Received data gw \<and> P (recv_buf (io_stale w) data) \<and>
       (16 \<le> length data \<longrightarrow> P (take 16 data)))"

lemma opcode_cases: "(128 :: u8) \<le> b \<Longrightarrow> b \<le> 130 \<Longrightarrow> b = 128 \<or> b = 129 \<or> b = 130"
  by (simp add: word_le_nat_alt word_unat_eq_iff) arith

lemma readnatpmpresponse_ok:
  assumes "readnatpmpresponse stale rcv (Some p) r = (0, r')"
  obtains data where "rcv = Received data (gateway p)"
    and "resp_type r' = respType protocol \<Longrightarrow>
      mapping_in (recv_buf stale data) protocol (privateport (pnu r')) (mappedpublicport (pnu r'))
        (map_lifetime (pnu r'))"
    and "resp_type r' = NATPMP_RESPTYPE_PUBLICADDRESS \<Longrightarrow>
      recv_buf stale data ! 1 = 128 \<and> be16 (recv_buf stale data ! 2) (recv_buf stale data ! 3) = 0 \<and>
      ntohl (s_addr (pnu r')) = be32 (recv_buf stale data ! 8) (recv_buf stale data ! 9)
        (recv_buf stale data ! 10) (recv_buf stale data ! 11)"
proof -
  obtain data where rcv: "rcv = Received data (gateway p)"
    and b: "128 \<le> recv_buf stale data ! 1" "recv_buf stale data ! 1 \<le> 130"
    using readnatpmpresponse_code [OF assms] by (auto simp: accepted_def Let_def)
  show ?thesis
    using assms opcode_cases [OF b] rcv
    by (intro that [of data])
      (auto simp: readnatpmpresponse_def Let_def mapping_in_def respType_def byte_simps split: if_splits)
qed

lemma readnatpmpresponseorretry_ok:
  assumes "readnatpmpresponseorretry timer_ge w (Some p) (Some r) = (n, Some p', Some r')" "n \<ge> 0"
  shows "readnatpmpresponse (io_stale w) (io_recv w) (Some p) r = (0, r')"
proof -
  obtain m q where mq: "readnatpmpresponse (io_stale w) (io_recv w) (Some p) r = (m, q)"
    by (cases "readnatpmpresponse (io_stale w) (io_recv w) (Some p) r")
  then show ?thesis
    using assms readnatpmpresponse_code [OF mq]
    by (auto simp: readnatpmpresponseorretry_def Let_def split: if_splits)
qed

lemma poll_gateway:
  assumes "readnatpmpresponseorretry timer_ge w (Some p) (Some r) = (n, Some p', Some r')"
  shows "gateway p' = gateway p"
  using assms by (cases rule: poll_cases) auto

lemma read_loop_ok:
  assumes "read_loop timer_ge io fuel i p r = Some (True, p', r')"
  shows "gateway p' = gateway p \<and>
    (\<exists>pre w q s. loop_reads timer_ge io fuel i p r = pre @ [w] \<and>
       (\<forall>v \<in> set pre. io_recv v = RecvFailed EWOULDBLOCK) \<and> gateway q = gateway p \<and>
       readnatpmpresponse (io_stale w) (io_recv w) (Some q) s = (0, r'))"
  using assms
proof (induction fuel arbitrary: i p r)
  case (Suc fuel)
  let ?w = "turn_io io i p"
  obtain n q s where turn: "read_turn timer_ge io i p r = (n, q, s)" by (metis prod_cases3)
  then have rd: "readnatpmpresponseorretry timer_ge ?w (Some p) (Some r) = (n, Some q, Some s)"
    using readnatpmpresponseorretry_Some [of timer_ge ?w p r] by (auto simp: read_turn_def)
  note gw = poll_gateway [OF rd]
  show ?case
  proof (cases "n = NATPMP_TRYAGAIN \<and> try_number q \<le> 5")
    case True
    then have run: "read_loop timer_ge io fuel (Suc i) q s = Some (True, p', r')"
      "loop_reads timer_ge io (Suc fuel) i p r = ?w # loop_reads timer_ge io fuel (Suc i) q s"
      using Suc.prems turn by simp_all
    have "io_recv ?w = RecvFailed EWOULDBLOCK" using tryagain_recv rd True by blast
    moreover obtain pre w q' s' where ih: "gateway p' = gateway q" "loop_reads timer_ge io fuel (Suc i) q s = pre @ [w]"
      "\<forall>v \<in> set pre. io_recv v = RecvFailed EWOULDBLOCK" "gateway q' = gateway q"
      "readnatpmpresponse (io_stale w) (io_recv w) (Some q') s' = (0, r')"
      using Suc.IH [OF run(1)] by blast
    ultimately show ?thesis
      using gw unfolding run(2) ih(2) by (intro conjI exI [of _ "?w # pre"] exI [of _ w] exI [of _ q'] exI [of _ s']) auto
  next
    case False
    then have "n \<ge> 0" "p' = q" "r' = s" "loop_reads timer_ge io (Suc fuel) i p r = [] @ [?w]"
      using Suc.prems turn by (auto split: if_splits)
    then show ?thesis using readnatpmpresponseorretry_ok [OF rd] gw by fastforce
  qed
qed simp

lemma recv_buf_long: "16 \<le> length data \<Longrightarrow> recv_buf stale data = take 16 data"
  by (simp add: recv_buf_def)

lemma read_loop_reply:
  assumes "read_loop timer_ge io fuel i p r = Some (True, p', r')"
  shows "resp_type r' = respType protocol \<Longrightarrow>
      reply_received (loop_reads timer_ge io fuel i p r) (gateway p) (\<lambda>buf. mapping_in buf protocol (privateport (pnu r'))
        (mappedpublicport (pnu r')) (map_lifetime (pnu r')))"
    and "resp_type r' = NATPMP_RESPTYPE_PUBLICADDRESS \<Longrightarrow>
      reply_received (loop_reads timer_ge io fuel i p r) (gateway p) (\<lambda>buf. buf ! 1 = 128 \<and> be16 (buf ! 2) (buf ! 3) = 0 \<and>
        ntohl (s_addr (pnu r')) = be32 (buf ! 8) (buf ! 9) (buf ! 10) (buf ! 11))"
proof -
  obtain pre w q s where run: "loop_reads timer_ge io fuel i p r = pre @ [w]"
      "\<forall>v \<in> set pre. io_recv v = RecvFailed EWOULDBLOCK" and g: "gateway q = gateway p"
    and rd: "readnatpmpresponse (io_stale w) (io_recv w) (Some q) s = (0, r')"
    using read_loop_ok [OF assms] by blast
  have reply: "reply_received (pre @ [w]) (gateway p) P"
    if "io_recv w = Received data (gateway q)" "P (recv_buf (io_stale w) data)" for P data
    using that run(2) g recv_buf_long [of data "io_stale w"] unfolding reply_received_def by auto
  show "resp_type r' = respType protocol \<Longrightarrow>
      reply_received (loop_reads timer_ge io fuel i p r) (gateway p) (\<lambda>buf. mapping_in buf protocol (privateport (pnu r'))
        (mappedpublicport (pnu r')) (map_lifetime (pnu r')))"
    unfolding run(1) by (rule readnatpmpresponse_ok [OF rd, of protocol]) (rule reply, assumption, blast)
  show "resp_type r' = NATPMP_RESPTYPE_PUBLICADDRESS \<Longrightarrow>
      reply_received (loop_reads timer_ge io fuel i p r) (gateway p) (\<lambda>buf. buf ! 1 = 128 \<and> be16 (buf ! 2) (buf ! 3) = 0 \<and>
        ntohl (s_addr (pnu r')) = be32 (buf ! 8) (buf ! 9) (buf ! 10) (buf ! 11))"
    unfolding run(1) by (rule readnatpmpresponse_ok [OF rd, of protocol]) (rule reply, assumption, blast)
qed

section \<open>The properties of the mapper\<close>

lemma sendRequest_state:
  assumes "sendRequest send now nt port protocol life = (ok, nt')"
  shows "gateway nt' = gateway nt \<and> try_number nt' = 1 \<and> has_pending_request nt' = 1 \<and>
    retry_time nt' = carry_usec (now\<lparr>tv_usec := tv_usec now + 250000\<rparr>)"
  using assms
  by (cases protocol) (auto simp: sendRequest_def sendnewportmappingrequest_def sendnatpmprequest_def reqType_def Let_def)

text \<open>
  C39: when \<open>addMapping\<close> reports success, the waiting loop of this call received nothing until its last
  turn, and there a datagram from the gateway of the session. In the buffer that this datagram was
  read into stands a reply of the right protocol, result 0, for exactly this port; the mapper's public
  port is the one in the buffer, and its lifetime is the one in the buffer or 3600 if that is greater;
  both are positive. The buffer is the datagram itself when that has 16 bytes; a shorter one is
  completed by what the stack held (\<open>short_reply_accepted\<close>).
\<close>

theorem addMapping_sound:
  assumes "addMapping timer_ge io send now fuel r m nt port protocol = Some (True, m', nt')"
  defines "n0 \<equiv> snd (sendRequest send now nt (word_of_int port) protocol DEFAULT_LIFETIME)"
  shows "0 < publicPort m' \<and> publicPort m' < 65536 \<and> 0 < lifetime m' \<and> lifetime m' \<le> 3600 \<and>
    (\<exists>priv pub life. uint priv = port \<and> publicPort m' = uint pub \<and> lifetime m' = min 3600 (uint life) \<and>
       reply_received (loop_reads timer_ge io fuel 0 n0 r) (gateway nt) (\<lambda>buf. mapping_in buf protocol priv pub life))"
proof -
  obtain ok where sr: "sendRequest send now nt (word_of_int port) protocol DEFAULT_LIFETIME = (ok, n0)"
    by (metis n0_def prod.collapse)
  with assms(1) have ok by (auto simp: addMapping_def split: if_splits)
  with assms(1) sr obtain n1 r' where loop: "read_loop timer_ge io fuel 0 n0 r = Some (True, n1, r')"
    and ty: "resp_type r' = respType protocol" and port: "uint (privateport (pnu r')) = port"
    and pub: "mappedpublicport (pnu r') \<noteq> 0" and life: "map_lifetime (pnu r') \<noteq> 0"
    and m': "m' = m\<lparr>lifetime := uint (min 3600 (map_lifetime (pnu r'))),
                     publicPort := uint (mappedpublicport (pnu r'))\<rparr>"
    by (auto simp: addMapping_def split: if_splits)
  have min: "uint (min 3600 (map_lifetime (pnu r'))) = min 3600 (uint (map_lifetime (pnu r')))"
    by (auto simp: min_def word_le_def)
  have "0 < uint (mappedpublicport (pnu r'))" "uint (mappedpublicport (pnu r')) < 65536"
    "0 < uint (map_lifetime (pnu r'))"
    using pub life unsigned_less [of "mappedpublicport (pnu r')"]
    by (auto simp: order_less_le uint_0_iff [symmetric] eq_commute [of 0])
  then show ?thesis
    using read_loop_reply(1) [OF loop ty] sendRequest_state [OF sr] m' min port
    by (intro conjI exI [of _ "privateport (pnu r')"] exI [of _ "mappedpublicport (pnu r')"]
      exI [of _ "map_lifetime (pnu r')"]) auto
qed

text \<open>
  C40: a mapping request is decided after at most five turns of the waiting loop, not counting early
  turns, in which \<open>select\<close> came back before its timeout with nothing to read; so after at most five
  turns in all when \<open>select\<close> always waits. That holds on both platforms, whatever the gateway answers,
  as long as the clock gives normalised times.
\<close>

theorem addMapping_returns:
  assumes "clocks_normal io" and "normal now" and "5 + early_turns io 0 fuel \<le> fuel"
    and "timer_ge = timercmp_ge_glibc \<or> timer_ge = timercmp_ge_winsock"
  shows "addMapping timer_ge io send now fuel r m nt port protocol \<noteq> None"
proof -
  obtain ok n0 where sr: "sendRequest send now nt (word_of_int port) protocol DEFAULT_LIFETIME = (ok, n0)"
    by fastforce
  have "normal (retry_time n0)" "try_number n0 = 1"
    using sendRequest_state [OF sr] carry_usec(1) assms(2) by (auto simp: normal_def)
  then have "read_loop timer_ge io fuel 0 n0 r \<noteq> None"
    using glibc.read_loop_ends [of io n0 0 fuel r] winsock.read_loop_ends [of io n0 0 fuel r] assms
    by auto
  then show ?thesis using sr by (simp add: addMapping_def del: not_None_eq)
qed

text \<open>
  A gateway that answers the first wait with a mapping reply for the requested port, a
  non-zero public port and a non-zero lifetime gets its mapping recorded.
\<close>

theorem addMapping_success:
  assumes "\<forall>b. 0 \<le> send b" and "0 < fuel" and "uint priv = port" and "pub \<noteq> 0" and "life \<noteq> 0"
    and "\<forall>t. io_recv (io_select io 0 t) =
      Received (mapping_reply (protocol = PROTOCOL_TCP) 0 ep priv pub life) (gateway nt)"
    and "length (pending_request nt) = 12"
  shows "\<exists>nt'. addMapping timer_ge io send now fuel r m nt port protocol =
    Some (True, m\<lparr>lifetime := min 3600 (uint life), publicPort := uint pub\<rparr>, nt') \<and>
    has_pending_request nt' = 0"
proof -
  obtain ok n0 where sr: "sendRequest send now nt (word_of_int port) protocol DEFAULT_LIFETIME = (ok, n0)"
    by fastforce
  have "0 \<le> sendpendingrequest send (Some q)" for q
    using assms(1) by (simp add: sendpendingrequest_def Let_def not_less)
  then have ok: ok
    using sr by (cases protocol)
      (auto simp: sendRequest_def sendnewportmappingrequest_def sendnatpmprequest_def reqType_def Let_def)
  note st = sendRequest_state [OF sr]
  obtain k where fuel: "fuel = Suc k" using assms(2) by (cases fuel) auto
  let ?r = "r\<lparr>resp_type := respType protocol, resultcode := 0, epoch := ep, pnu := NewPortMapping priv pub life\<rparr>"
  have "io_recv (turn_io io 0 n0) = Received (mapping_reply (protocol = PROTOCOL_TCP) 0 ep priv pub life) (gateway nt)"
    using assms(6) by (simp add: turn_io_def split: prod.splits)
  then have "read_turn timer_ge io 0 n0 r = (0, n0\<lparr>has_pending_request := 0\<rparr>, ?r)"
    using st mapping_reply_read [of _ "protocol = PROTOCOL_TCP" 0 ep priv pub life n0 r]
    by (simp add: read_turn_def readnatpmpresponseorretry_def respType_def split: prod.splits)
  moreover have "uint (min 3600 life) = min 3600 (uint life)" by (auto simp: min_def word_le_def)
  ultimately show ?thesis using sr ok fuel assms(3-5) by (simp add: addMapping_def)
qed

subsection \<open>Instances\<close>

text \<open>A silent gateway whose waits take the full timeout, and one that answers at once.\<close>

definition silent_io :: mapper_io where
  "silent_io = \<lparr>io_clock = (\<lambda>i. \<lparr>tv_sec = 0, tv_usec = 0\<rparr>),
    io_select = (\<lambda>i t. \<lparr>io_stale = replicate 16 0, io_recv = RecvFailed EWOULDBLOCK,
      io_now = (case t of None \<Rightarrow> \<lparr>tv_sec = 0, tv_usec = 0\<rparr>
        | Some t \<Rightarrow> \<lparr>tv_sec = usecs t div 1000000, tv_usec = usecs t mod 1000000\<rparr>),
      io_send = (\<lambda>b. 12)\<rparr>)\<rparr>"

definition reply_io :: mapper_io where
  "reply_io = \<lparr>io_clock = (\<lambda>i. \<lparr>tv_sec = 0, tv_usec = 0\<rparr>),
    io_select = (\<lambda>i t. \<lparr>io_stale = replicate 16 0,
      io_recv = Received (mapping_reply True 0 9 80 8080 7200) 0,
      io_now = \<lparr>tv_sec = 0, tv_usec = 0\<rparr>, io_send = (\<lambda>b. 12)\<rparr>)\<rparr>"

abbreviation fresh_resp :: natpmpresp_t where
  "fresh_resp \<equiv> \<lparr>resp_type = 0, resultcode = 0, epoch = 0, pnu = PnuUndefined\<rparr>"

abbreviation fresh_mapper :: Mapper_NATPMP where
  "fresh_mapper \<equiv> \<lparr>m_gateway = '''', lifetime = 0, publicPort = 0\<rparr>"

theorem addMapping_returns_witness:
  "addMapping timercmp_ge_winsock silent_io (\<lambda>b. 12) \<lparr>tv_sec = 0, tv_usec = 0\<rparr> 5 fresh_resp
     fresh_mapper zero_natpmp 80 PROTOCOL_TCP \<noteq> None"
proof (rule addMapping_returns)
  show "clocks_normal silent_io"
    by (auto simp: clocks_normal_def silent_io_def normal_def split: option.splits)
  have "\<not> early_turn silent_io i" for i
    by (auto simp: early_turn_def silent_io_def usecs_def)
  then have "early_turns silent_io i n = 0" for i n by (induction n arbitrary: i) auto
  then show "5 + early_turns silent_io 0 5 \<le> 5" by simp
qed (simp_all add: normal_def)

theorem addMapping_success_witness:
  "\<exists>nt'. addMapping timercmp_ge_winsock reply_io (\<lambda>b. 12) \<lparr>tv_sec = 0, tv_usec = 0\<rparr> 5 fresh_resp
     fresh_mapper zero_natpmp 80 PROTOCOL_TCP =
     Some (True, \<lparr>m_gateway = '''', lifetime = 3600, publicPort = 8080\<rparr>, nt')"
  using addMapping_success [of "\<lambda>b. 12" 5 80 80 8080 7200 reply_io PROTOCOL_TCP 9 zero_natpmp
    timercmp_ge_winsock "\<lparr>tv_sec = 0, tv_usec = 0\<rparr>" fresh_resp fresh_mapper]
  by (auto simp: reply_io_def zero_natpmp_def)

theorem addMapping_sound_witness:
  "\<exists>m' nt'. addMapping timercmp_ge_winsock reply_io (\<lambda>b. 12) \<lparr>tv_sec = 0, tv_usec = 0\<rparr> 1 fresh_resp
     fresh_mapper zero_natpmp 80 PROTOCOL_TCP = Some (True, m', nt') \<and> 0 < publicPort m' \<and>
     lifetime m' \<le> 3600"
proof -
  let ?r = "fresh_resp\<lparr>resp_type := 2, resultcode := 0, epoch := 9, pnu := NewPortMapping 80 8080 7200\<rparr>"
  have rd: "readnatpmpresponse st (Received (mapping_reply True 0 9 80 8080 7200) 0) (Some p) fresh_resp = (0, ?r)"
    if "gateway p = 0" for st p
    using that by (simp add: mapping_reply_bytes readnatpmpresponse_def recv_buf_exact byte_simps Let_def)
  obtain n0 where sr: "sendRequest (\<lambda>b. 12) \<lparr>tv_sec = 0, tv_usec = 0\<rparr> zero_natpmp 80 PROTOCOL_TCP DEFAULT_LIFETIME =
      (True, n0)"
    by (simp add: sendRequest_def sendnewportmappingrequest_def sendnatpmprequest_def
      sendpendingrequest_def reqType_def Let_def)
  have "addMapping timercmp_ge_winsock reply_io (\<lambda>b. 12) \<lparr>tv_sec = 0, tv_usec = 0\<rparr> 1 fresh_resp
     fresh_mapper zero_natpmp 80 PROTOCOL_TCP =
     Some (True, \<lparr>m_gateway = '''', lifetime = 3600, publicPort = 8080\<rparr>, n0\<lparr>has_pending_request := 0\<rparr>)"
    using sr sendRequest_state [OF sr] rd [of n0]
    by (simp add: addMapping_def read_turn_def turn_io_def readnatpmpresponseorretry_def reply_io_def respType_def
      zero_natpmp_def split: prod.splits)
  from this addMapping_sound [OF this] show ?thesis by blast
qed

end
