(* ===== verification/Mmdb.thy ===== *)
theory Mmdb
  imports Prelude
begin

text \<open>
  The MaxMind DB reader, data section (\<open>src/maxminddb/maxminddb.c\<close>,
  \<open>maxminddb.h\<close>), which the client uses to find the country of an address.

  The mapped file is the list \<open>file_content\<close>; a pointer into it is an index. Offsets,
  sizes and counts are the words of the source, so every sum and difference wraps as in C.
  The union of \<open>MMDB_entry_data_s\<close> is a datatype. A read outside the mapped file gives
  \<open>None\<close>.
\<close>

section \<open>Constants and structures\<close>

definition MMDB_DATA_TYPE_EXTENDED :: nat where [simp]: "MMDB_DATA_TYPE_EXTENDED = 0"
definition MMDB_DATA_TYPE_POINTER :: nat where [simp]: "MMDB_DATA_TYPE_POINTER = 1"
definition MMDB_DATA_TYPE_UTF8_STRING :: nat where [simp]: "MMDB_DATA_TYPE_UTF8_STRING = 2"
definition MMDB_DATA_TYPE_DOUBLE :: nat where [simp]: "MMDB_DATA_TYPE_DOUBLE = 3"
definition MMDB_DATA_TYPE_BYTES :: nat where [simp]: "MMDB_DATA_TYPE_BYTES = 4"
definition MMDB_DATA_TYPE_UINT16 :: nat where [simp]: "MMDB_DATA_TYPE_UINT16 = 5"
definition MMDB_DATA_TYPE_UINT32 :: nat where [simp]: "MMDB_DATA_TYPE_UINT32 = 6"
definition MMDB_DATA_TYPE_MAP :: nat where [simp]: "MMDB_DATA_TYPE_MAP = 7"
definition MMDB_DATA_TYPE_INT32 :: nat where [simp]: "MMDB_DATA_TYPE_INT32 = 8"
definition MMDB_DATA_TYPE_UINT64 :: nat where [simp]: "MMDB_DATA_TYPE_UINT64 = 9"
definition MMDB_DATA_TYPE_UINT128 :: nat where [simp]: "MMDB_DATA_TYPE_UINT128 = 10"
definition MMDB_DATA_TYPE_ARRAY :: nat where [simp]: "MMDB_DATA_TYPE_ARRAY = 11"
definition MMDB_DATA_TYPE_BOOLEAN :: nat where [simp]: "MMDB_DATA_TYPE_BOOLEAN = 14"
definition MMDB_DATA_TYPE_FLOAT :: nat where [simp]: "MMDB_DATA_TYPE_FLOAT = 15"

datatype mmdb_status =
  MMDB_SUCCESS
| MMDB_FILE_OPEN_ERROR
| MMDB_CORRUPT_SEARCH_TREE_ERROR
| MMDB_INVALID_METADATA_ERROR
| MMDB_IO_ERROR
| MMDB_OUT_OF_MEMORY_ERROR
| MMDB_UNKNOWN_DATABASE_FORMAT_ERROR
| MMDB_INVALID_DATA_ERROR
| MMDB_INVALID_LOOKUP_PATH_ERROR
| MMDB_LOOKUP_PATH_DOES_NOT_MATCH_DATA_ERROR
| MMDB_INVALID_NODE_NUMBER_ERROR
| MMDB_IPV6_LOOKUP_IN_IPV4_DATABASE_ERROR

text \<open>
  The union of an entry. A string is a pointer into the file, or the literal \<open>""\<close> of
  the code (\<open>None\<close>). Floating-point values and the 128-bit number are the bytes that the
  code stores.
\<close>

datatype MMDB_value =
  NoValue
| Pointer (pointer : u32)
| Utf8String "nat option"
| Double_bytes bytes
| Bytes_at nat
| Uint16 (uint16 : u16)
| Uint32 (uint32 : u32)
| Int32 u32
| Uint64 (uint64 : u64)
| Uint128 bytes
| Boolean bool
| Float_bytes bytes

record MMDB_entry_data_s =
  has_data :: bool
  value_of :: MMDB_value
  e_offset :: u32
  offset_to_next :: u32
  data_size :: u32
  e_type :: nat

text \<open>
  Arrays on the heap are lists, \<open>None\<close> is the null pointer, and the count that goes with an
  array is a field of its own, as in the code.
\<close>

record MMDB_description_s =
  d_language :: "bytes option"
  d_description :: "bytes option"

record MMDB_metadata_s =
  node_count :: u32
  record_size :: u16
  ip_version :: u16
  database_type :: "bytes option"
  languages_count :: nat
  languages_names :: "bytes option list option"
  binary_format_major_version :: u16
  binary_format_minor_version :: u16
  build_epoch :: u64
  description_count :: nat
  descriptions :: "MMDB_description_s option list option"

record MMDB_ipv4_start_node_s =
  s_netmask :: u16
  node_value :: u32

text \<open>
  Pointers into the mapped file are positions in \<open>file_content\<close>; before the file is mapped
  \<open>file_content\<close> is empty.
\<close>

record MMDB_s =
  open_flags :: u32
  filename :: "bytes option"
  file_size :: int
  file_content :: bytes
  data_section :: nat
  data_section_size :: u32
  metadata_section :: nat
  metadata_section_size :: u32
  full_record_byte_size :: u16
  depth :: u16
  ipv4_start_node :: MMDB_ipv4_start_node_s
  metadata :: MMDB_metadata_s

text \<open>\<open>memset(entry_data, 0, sizeof(MMDB_entry_data_s))\<close>.\<close>

definition zero_entry :: MMDB_entry_data_s where
  "zero_entry = \<lparr>has_data = False, value_of = NoValue, e_offset = 0, offset_to_next = 0,
     data_size = 0, e_type = 0\<rparr>"

section \<open>Reading numbers from the data section\<close>

text \<open>\<open>mem[offset]\<close>, and \<open>n\<close> bytes from there, with \<open>mem = mmdb->data_section\<close>.\<close>

definition peek :: "MMDB_s \<Rightarrow> u32 \<Rightarrow> u8 option" where
  "peek db offset = load (file_content db) (data_section db + unat offset)"

definition peek_bytes :: "MMDB_s \<Rightarrow> u32 \<Rightarrow> nat \<Rightarrow> bytes option" where
  "peek_bytes db offset n =
    (if data_section db + unat offset + n \<le> length (file_content db)
     then Some (subl (file_content db) (data_section db + unat offset)
                  (data_section db + unat offset + n)) else None)"

definition get_uint32 :: "u8 \<Rightarrow> u8 \<Rightarrow> u8 \<Rightarrow> u8 \<Rightarrow> u32" where
  "get_uint32 p0 p1 p2 p3 = ucast p0 * 16777216 + ucast p1 * 65536 + ucast p2 * 256 + ucast p3"

definition get_uint24 :: "u8 \<Rightarrow> u8 \<Rightarrow> u8 \<Rightarrow> u32" where
  "get_uint24 p0 p1 p2 = ucast p0 * 65536 + ucast p1 * 256 + ucast p2"

definition get_uint16 :: "u8 \<Rightarrow> u8 \<Rightarrow> u32" where
  "get_uint16 p0 p1 = ucast p0 * 256 + ucast p1"

fun get_uintX :: "bytes \<Rightarrow> u64 \<Rightarrow> u64" where
  "get_uintX [] v = v"
| "get_uintX (p # ps) v = get_uintX ps (push_bit 8 v + ucast p)"

definition get_sintX :: "bytes \<Rightarrow> u32" where
  "get_sintX ps = ucast (get_uintX ps 0)"

definition get_ieee754_float :: "bytes \<Rightarrow> bytes" where
  "get_ieee754_float p = rev p"

definition get_ieee754_double :: "bytes \<Rightarrow> bytes" where
  "get_ieee754_double p = rev p"

definition get_ext_type :: "nat \<Rightarrow> nat" where
  "get_ext_type raw_ext_type = 7 + raw_ext_type"

definition get_ptr_from :: "MMDB_s \<Rightarrow> u8 \<Rightarrow> u32 \<Rightarrow> u32 \<Rightarrow> u32 option" where
  "get_ptr_from db ctrl offset psize =
    (if psize = 1 then
       do { p0 \<leftarrow> peek db offset; Some (push_bit 8 (ucast (ctrl AND 7)) + ucast p0) }
     else if psize = 2 then
       do { p0 \<leftarrow> peek db offset; p1 \<leftarrow> peek db (offset + 1);
            Some (2048 + push_bit 16 (ucast (ctrl AND 7)) + push_bit 8 (ucast p0) + ucast p1) }
     else if psize = 3 then
       do { p0 \<leftarrow> peek db offset; p1 \<leftarrow> peek db (offset + 1); p2 \<leftarrow> peek db (offset + 2);
            Some (2048 + 524288 + push_bit 24 (ucast (ctrl AND 7)) + get_uint24 p0 p1 p2) }
     else
       do { p0 \<leftarrow> peek db offset; p1 \<leftarrow> peek db (offset + 1); p2 \<leftarrow> peek db (offset + 2);
            p3 \<leftarrow> peek db (offset + 3); Some (get_uint32 p0 p1 p2 p3) })"

section \<open>Decoding one entry\<close>

text \<open>
  \<open>decode_one\<close> in the order of the code: control byte and type, pointer, size, compound
  and boolean values, scalar values. Each part ends the function with a status or goes on.
\<close>

definition decode_type ::
  "MMDB_s \<Rightarrow> u8 \<Rightarrow> u32 \<Rightarrow> (mmdb_status + nat \<times> u32) option" where
  "decode_type db ctrl offset =
    (let ty = unat (drop_bit 5 ctrl AND 7) in
     if ty = MMDB_DATA_TYPE_EXTENDED then
       if offset > data_section_size db - 1 then Some (Inl MMDB_INVALID_DATA_ERROR)
       else do { b \<leftarrow> peek db offset; Some (Inr (get_ext_type (unat b), offset + 1)) }
     else Some (Inr (ty, offset)))"

definition decode_pointer ::
  "MMDB_s \<Rightarrow> u8 \<Rightarrow> u32 \<Rightarrow> MMDB_entry_data_s \<Rightarrow> (mmdb_status \<times> MMDB_entry_data_s) option" where
  "decode_pointer db ctrl offset ed =
    (let psize = ucast (drop_bit 3 ctrl AND 3) + 1 in
     if offset > data_section_size db - psize \<or> data_section_size db < psize
     then Some (MMDB_INVALID_DATA_ERROR, ed)
     else do {
       ptr \<leftarrow> get_ptr_from db ctrl offset psize;
       Some (MMDB_SUCCESS, ed\<lparr>value_of := Pointer ptr, data_size := psize,
               offset_to_next := offset + psize\<rparr>)
     })"

definition decode_size ::
  "MMDB_s \<Rightarrow> u8 \<Rightarrow> u32 \<Rightarrow> (mmdb_status + u32 \<times> u32) option" where
  "decode_size db ctrl offset =
    (let sz = ucast (ctrl AND 31) in
     if sz = 29 then
       if offset > data_section_size db - 1 then Some (Inl MMDB_INVALID_DATA_ERROR)
       else do { p0 \<leftarrow> peek db offset; Some (Inr (29 + ucast p0, offset + 1)) }
     else if sz = 30 then
       if offset > data_section_size db - 2 then Some (Inl MMDB_INVALID_DATA_ERROR)
       else do { p0 \<leftarrow> peek db offset; p1 \<leftarrow> peek db (offset + 1);
                 Some (Inr (285 + get_uint16 p0 p1, offset + 2)) }
     else if sz = 31 then
       if offset > data_section_size db - 3 then Some (Inl MMDB_INVALID_DATA_ERROR)
       else do { p0 \<leftarrow> peek db offset; p1 \<leftarrow> peek db (offset + 1); p2 \<leftarrow> peek db (offset + 2);
                 Some (Inr (65821 + get_uint24 p0 p1 p2, offset + 3)) }
     else Some (Inr (sz, offset)))"

definition decode_scalar ::
  "MMDB_s \<Rightarrow> nat \<Rightarrow> u32 \<Rightarrow> u32 \<Rightarrow> MMDB_entry_data_s \<Rightarrow>
     (mmdb_status \<times> MMDB_entry_data_s) option" where
  "decode_scalar db ty sz offset ed =
    (let fin = (\<lambda>ed. Some (MMDB_SUCCESS, ed\<lparr>offset_to_next := offset + sz\<rparr>));
         bad = Some (MMDB_INVALID_DATA_ERROR, ed)
     in
     if ty = MMDB_DATA_TYPE_UINT16 then
       if sz > 2 then bad
       else do { bs \<leftarrow> peek_bytes db offset (unat sz);
                 fin (ed\<lparr>value_of := Uint16 (ucast (get_uintX bs 0))\<rparr>) }
     else if ty = MMDB_DATA_TYPE_UINT32 then
       if sz > 4 then bad
       else do { bs \<leftarrow> peek_bytes db offset (unat sz);
                 fin (ed\<lparr>value_of := Uint32 (ucast (get_uintX bs 0))\<rparr>) }
     else if ty = MMDB_DATA_TYPE_INT32 then
       if sz > 4 then bad
       else do { bs \<leftarrow> peek_bytes db offset (unat sz);
                 fin (ed\<lparr>value_of := Int32 (get_sintX bs)\<rparr>) }
     else if ty = MMDB_DATA_TYPE_UINT64 then
       if sz > 8 then bad
       else do { bs \<leftarrow> peek_bytes db offset (unat sz);
                 fin (ed\<lparr>value_of := Uint64 (get_uintX bs 0)\<rparr>) }
     else if ty = MMDB_DATA_TYPE_UINT128 then
       if sz > 16 then bad
       else do { bs \<leftarrow> peek_bytes db offset (unat sz);
                 fin (ed\<lparr>value_of := Uint128 (replicate (16 - unat sz) 0 @ bs)\<rparr>) }
     else if ty = MMDB_DATA_TYPE_FLOAT then
       if sz \<noteq> 4 then bad
       else do { bs \<leftarrow> peek_bytes db offset 4;
                 fin (ed\<lparr>value_of := Float_bytes (get_ieee754_float bs)\<rparr>) }
     else if ty = MMDB_DATA_TYPE_DOUBLE then
       if sz \<noteq> 8 then bad
       else do { bs \<leftarrow> peek_bytes db offset 8;
                 fin (ed\<lparr>value_of := Double_bytes (get_ieee754_double bs)\<rparr>) }
     else if ty = MMDB_DATA_TYPE_UTF8_STRING then
       fin (ed\<lparr>value_of := Utf8String (if sz = 0 then None else Some (data_section db + unat offset)),
               data_size := sz\<rparr>)
     else if ty = MMDB_DATA_TYPE_BYTES then
       fin (ed\<lparr>value_of := Bytes_at (data_section db + unat offset), data_size := sz\<rparr>)
     else fin ed)"

definition decode_sized ::
  "MMDB_s \<Rightarrow> nat \<Rightarrow> u32 \<Rightarrow> u32 \<Rightarrow> MMDB_entry_data_s \<Rightarrow>
     (mmdb_status \<times> MMDB_entry_data_s) option" where
  "decode_sized db ty sz offset ed =
    (if ty = MMDB_DATA_TYPE_MAP \<or> ty = MMDB_DATA_TYPE_ARRAY then
       Some (MMDB_SUCCESS, ed\<lparr>data_size := sz, offset_to_next := offset\<rparr>)
     else if ty = MMDB_DATA_TYPE_BOOLEAN then
       Some (MMDB_SUCCESS, ed\<lparr>value_of := Boolean (sz \<noteq> 0), data_size := 0,
               offset_to_next := offset\<rparr>)
     else if offset > data_section_size db - sz \<or> data_section_size db < sz
     then Some (MMDB_INVALID_DATA_ERROR, ed)
     else decode_scalar db ty sz offset ed)"

definition decode_one ::
  "MMDB_s \<Rightarrow> u32 \<Rightarrow> MMDB_entry_data_s \<Rightarrow> (mmdb_status \<times> MMDB_entry_data_s) option" where
  "decode_one db offset ed =
    (if offset > data_section_size db - 1 then Some (MMDB_INVALID_DATA_ERROR, ed)
     else do {
       let ed = ed\<lparr>e_offset := offset, has_data := True\<rparr>;
       ctrl \<leftarrow> peek db offset;
       t \<leftarrow> decode_type db ctrl (offset + 1);
       (case t of
          Inl e \<Rightarrow> Some (e, ed)
        | Inr (ty, offset) \<Rightarrow>
            let ed = ed\<lparr>e_type := ty\<rparr> in
            if ty = MMDB_DATA_TYPE_POINTER then decode_pointer db ctrl offset ed
            else do {
              s \<leftarrow> decode_size db ctrl offset;
              (case s of
                 Inl e \<Rightarrow> Some (e, ed)
               | Inr (sz, offset) \<Rightarrow> decode_sized db ty sz offset ed)
            })
     })"

text \<open>The macro \<open>CHECKED_DECODE_ONE\<close>: go on with the entry, or return its error.\<close>

definition checked ::
  "(mmdb_status \<times> 'e) option \<Rightarrow> ('e \<Rightarrow> (mmdb_status \<times> 'e) option) \<Rightarrow> (mmdb_status \<times> 'e) option" where
  "checked r k =
    do { (status, ed) \<leftarrow> r; (if status \<noteq> MMDB_SUCCESS then Some (status, ed) else k ed) }"

definition decode_one_follow ::
  "MMDB_s \<Rightarrow> u32 \<Rightarrow> MMDB_entry_data_s \<Rightarrow> (mmdb_status \<times> MMDB_entry_data_s) option" where
  "decode_one_follow db offset ed =
    checked (decode_one db offset ed) (\<lambda>ed.
      if e_type ed = MMDB_DATA_TYPE_POINTER then
        let next = offset_to_next ed in
        checked (decode_one db (pointer (value_of ed)) ed) (\<lambda>ed.
          if e_type ed = MMDB_DATA_TYPE_POINTER then Some (MMDB_INVALID_DATA_ERROR, ed)
          else if e_type ed \<noteq> MMDB_DATA_TYPE_MAP \<and> e_type ed \<noteq> MMDB_DATA_TYPE_ARRAY
          then Some (MMDB_SUCCESS, ed\<lparr>offset_to_next := next\<rparr>)
          else Some (MMDB_SUCCESS, ed))
      else Some (MMDB_SUCCESS, ed))"

section \<open>Decoding stays inside the data section\<close>

text \<open>
  What \<open>MMDB_open\<close> establishes for the data section: it lies in the mapped file and has at
  least three bytes.
\<close>

definition db_ok :: "MMDB_s \<Rightarrow> bool" where
  "db_ok db \<longleftrightarrow> data_section db + unat (data_section_size db) \<le> length (file_content db) \<and>
    3 \<le> unat (data_section_size db)"

abbreviation sect :: "MMDB_s \<Rightarrow> nat" where
  "sect db \<equiv> unat (data_section_size db)"

lemma peek_in: "db_ok db \<Longrightarrow> unat off < sect db \<Longrightarrow>
  peek db off = Some (file_content db ! (data_section db + unat off))"
  by (auto simp: peek_def load_def db_ok_def)

lemma peek_bytes_in: "db_ok db \<Longrightarrow> unat off + n \<le> sect db \<Longrightarrow>
  \<exists>bs. peek_bytes db off n = Some bs \<and> length bs = n"
  by (auto simp: peek_bytes_def db_ok_def)

text \<open>The bounds checks of the code, which subtract from the size of the section.\<close>

lemma beyond_iff:
  assumes "unat k \<le> unat s"
  shows "off > s - k \<longleftrightarrow> unat s < unat off + unat (k :: u32)"
proof -
  have "unat (s - k) = unat s - unat k" using assms by (simp add: unat_sub word_le_nat_alt)
  then show ?thesis using assms by (auto simp: word_less_nat_alt)
qed

lemma unat_off_add:
  assumes "unat off + unat k \<le> unat (s :: u32)"
  shows "unat (off + k :: u32) = unat off + unat k"
  using assms unat_u32 [of s] by (intro unat_add_u32) simp

lemma beyond_1: "db_ok db \<Longrightarrow> off > data_section_size db - 1 \<longleftrightarrow> sect db < unat off + 1"
  using beyond_iff [of 1 "data_section_size db" off] by (simp add: db_ok_def)

lemma beyond_2: "db_ok db \<Longrightarrow> off > data_section_size db - 2 \<longleftrightarrow> sect db < unat off + 2"
  using beyond_iff [of 2 "data_section_size db" off] by (simp add: db_ok_def)

lemma beyond_3: "db_ok db \<Longrightarrow> off > data_section_size db - 3 \<longleftrightarrow> sect db < unat off + 3"
  using beyond_iff [of 3 "data_section_size db" off] by (simp add: db_ok_def)

lemmas beyond_simps = beyond_1 beyond_2 beyond_3

lemma step_1: "unat (off :: u32) + 1 \<le> sect db \<Longrightarrow> unat (off + 1) = unat off + 1"
  using unat_off_add [of off 1 "data_section_size db"] by simp

lemma step_2: "unat (off :: u32) + 2 \<le> sect db \<Longrightarrow> unat (off + 2) = unat off + 2"
  using unat_off_add [of off 2 "data_section_size db"] by simp

lemma step_3: "unat (off :: u32) + 3 \<le> sect db \<Longrightarrow> unat (off + 3) = unat off + 3"
  using unat_off_add [of off 3 "data_section_size db"] by simp

lemmas step_simps = step_1 step_2 step_3

lemma decode_type_safe:
  assumes "db_ok db" and "unat off \<le> sect db"
  shows "decode_type db ctrl off = Some (Inl MMDB_INVALID_DATA_ERROR) \<or>
    (\<exists>ty off'. decode_type db ctrl off = Some (Inr (ty, off')) \<and>
       unat off \<le> unat off' \<and> unat off' \<le> sect db)"
proof (cases "unat off < sect db")
  case True
  then show ?thesis using assms step_1 [of off db]
    by (auto simp: decode_type_def Let_def beyond_simps peek_in)
next
  case False
  then show ?thesis using assms by (auto simp: decode_type_def Let_def beyond_simps)
qed

lemma decode_size_safe:
  assumes ok: "db_ok db" and "unat off \<le> sect db"
  shows "decode_size db ctrl off = Some (Inl MMDB_INVALID_DATA_ERROR) \<or>
    (\<exists>sz off'. decode_size db ctrl off = Some (Inr (sz, off')) \<and>
       unat off \<le> unat off' \<and> unat off' \<le> sect db)"
proof -
  consider "sect db < unat off + 1" | "unat off + 1 = sect db" | "unat off + 2 = sect db"
    | "unat off + 3 \<le> sect db" by linarith
  then show ?thesis
    by cases (use assms(2) step_simps [of off db] peek_in [OF ok] beyond_simps [OF ok] in
      \<open>auto simp: decode_size_def Let_def\<close>)
qed

lemma psize_bounds: "1 \<le> unat (ucast (drop_bit 3 (ctrl :: u8) AND 3) + 1 :: u32)"
  "unat (ucast (drop_bit 3 (ctrl :: u8) AND 3) + 1 :: u32) \<le> 4"
proof -
  have "drop_bit 3 ctrl AND 3 \<le> 3" by (rule word_and_le1)
  then have le: "unat (ucast (drop_bit 3 ctrl AND 3) :: u32) \<le> 3"
    by (simp add: word_le_nat_alt)
  then have "unat (ucast (drop_bit 3 ctrl AND 3) + 1 :: u32) =
      unat (ucast (drop_bit 3 ctrl AND 3) :: u32) + 1"
    by (subst unat_add_u32) auto
  then show "1 \<le> unat (ucast (drop_bit 3 ctrl AND 3) + 1 :: u32)"
    "unat (ucast (drop_bit 3 ctrl AND 3) + 1 :: u32) \<le> 4" using le by linarith+
qed

text \<open>
  A decoded entry: it ends after it starts, inside the section; a pointer entry holds a
  pointer and a string lies in the section.
\<close>

definition string_in :: "MMDB_s \<Rightarrow> MMDB_entry_data_s \<Rightarrow> bool" where
  "string_in db ed \<longleftrightarrow>
    (\<exists>po. value_of ed = Utf8String po \<and>
      (case po of
         None \<Rightarrow> data_size ed = 0
       | Some i \<Rightarrow> data_section db \<le> i \<and> i + unat (data_size ed) \<le> data_section db + sect db))"

definition entry_ok :: "MMDB_s \<Rightarrow> u32 \<Rightarrow> MMDB_entry_data_s \<Rightarrow> bool" where
  "entry_ok db off ed \<longleftrightarrow> has_data ed \<and> e_offset ed = off \<and>
    unat off < unat (offset_to_next ed) \<and> unat (offset_to_next ed) \<le> sect db \<and>
    (e_type ed = MMDB_DATA_TYPE_POINTER \<longrightarrow> (\<exists>p. value_of ed = Pointer p)) \<and>
    (e_type ed = MMDB_DATA_TYPE_UTF8_STRING \<longrightarrow> string_in db ed)"

lemma get_ptr_from_safe:
  assumes "db_ok db" and "unat off + unat psz \<le> sect db" and "1 \<le> unat psz" "unat psz \<le> 4"
  shows "\<exists>p. get_ptr_from db ctrl off psz = Some p"
proof -
  have "unat psz = 1 \<or> unat psz = 2 \<or> unat psz = 3 \<or> unat psz = 4" using assms by arith
  then consider "psz = 1" | "psz = 2" | "psz = 3" | "psz = 4"
    by (auto simp: word_unat_eq_iff)
  then show ?thesis
    by cases (use assms step_simps [of off db] in \<open>auto simp: get_ptr_from_def peek_in\<close>)
qed

text \<open>The later parts of \<open>decode_one\<close> leave the header fields alone.\<close>

definition same_header :: "MMDB_entry_data_s \<Rightarrow> MMDB_entry_data_s \<Rightarrow> bool" where
  "same_header ed ed' \<longleftrightarrow>
    has_data ed' = has_data ed \<and> e_offset ed' = e_offset ed \<and> e_type ed' = e_type ed"

text \<open>
  How a part may end: with \<open>MMDB_INVALID_DATA_ERROR\<close>, or successfully with the next offset
  between the current one and the end of the section.
\<close>

definition ends_ok :: "MMDB_s \<Rightarrow> u32 \<Rightarrow> MMDB_entry_data_s \<Rightarrow> (MMDB_entry_data_s \<Rightarrow> bool) \<Rightarrow>
    (mmdb_status \<times> MMDB_entry_data_s) option \<Rightarrow> bool" where
  "ends_ok db off ed P r \<longleftrightarrow>
    (\<exists>st ed'. r = Some (st, ed') \<and> same_header ed ed' \<and>
      (st = MMDB_INVALID_DATA_ERROR \<or>
       st = MMDB_SUCCESS \<and> unat off \<le> unat (offset_to_next ed') \<and>
         unat (offset_to_next ed') \<le> sect db \<and> P ed'))"

lemma decode_pointer_safe:
  assumes ok: "db_ok db" and "unat off \<le> sect db"
  shows "ends_ok db off ed (\<lambda>ed'. \<exists>p. value_of ed' = Pointer p) (decode_pointer db ctrl off ed)"
proof -
  define psz :: u32 where "psz = ucast (drop_bit 3 ctrl AND 3) + 1"
  note pb = psize_bounds [of ctrl, folded psz_def]
  have out: "(off > data_section_size db - psz \<or> data_section_size db < psz) \<longleftrightarrow>
      \<not> unat off + unat psz \<le> sect db"
    using beyond_iff [of psz "data_section_size db" off] by (auto simp: word_less_nat_alt)
  show ?thesis
  proof (cases "unat off + unat psz \<le> sect db")
    case True
    then obtain p where "get_ptr_from db ctrl off psz = Some p"
      using get_ptr_from_safe [OF ok True] pb by blast
    then show ?thesis using True out unat_off_add [OF True]
      by (simp add: decode_pointer_def Let_def ends_ok_def same_header_def flip: psz_def)
  next
    case False
    then show ?thesis using out
      by (simp add: decode_pointer_def Let_def ends_ok_def same_header_def flip: psz_def)
  qed
qed

lemma decode_scalar_safe:
  assumes ok: "db_ok db" and fit: "unat off + unat sz \<le> sect db"
  shows "ends_ok db off ed (\<lambda>ed'. ty = MMDB_DATA_TYPE_UTF8_STRING \<longrightarrow> string_in db ed')
    (decode_scalar db ty sz off ed)"
proof -
  obtain bs where bs: "peek_bytes db off (unat sz) = Some bs"
    using peek_bytes_in [OF ok fit] by blast
  have s4: "sz = 4 \<Longrightarrow> peek_bytes db off 4 = Some bs" and s8: "sz = 8 \<Longrightarrow> peek_bytes db off 8 = Some bs"
    using bs by auto
  have n: "unat off \<le> unat (off + sz)" "unat (off + sz) \<le> sect db"
    using unat_off_add [OF fit] fit by simp_all
  show ?thesis
  proof (cases "ty = MMDB_DATA_TYPE_UTF8_STRING")
    case True
    then show ?thesis using fit n
      by (simp add: decode_scalar_def Let_def string_in_def ends_ok_def same_header_def)
  next
    case False
    then show ?thesis using bs s4 s8 n
      by (auto simp: decode_scalar_def Let_def ends_ok_def same_header_def)
  qed
qed

lemma decode_sized_safe:
  assumes ok: "db_ok db" and off: "unat off \<le> sect db"
  shows "ends_ok db off ed (\<lambda>ed'. ty = MMDB_DATA_TYPE_UTF8_STRING \<longrightarrow> string_in db ed')
    (decode_sized db ty sz off ed)"
proof (cases "ty = MMDB_DATA_TYPE_MAP \<or> ty = MMDB_DATA_TYPE_ARRAY \<or> ty = MMDB_DATA_TYPE_BOOLEAN")
  case True
  then show ?thesis using off
    by (elim disjE) (simp_all add: decode_sized_def ends_ok_def same_header_def)
next
  case False
  have out: "(off > data_section_size db - sz \<or> data_section_size db < sz) \<longleftrightarrow>
      \<not> unat off + unat sz \<le> sect db"
    using beyond_iff [of sz "data_section_size db" off] by (auto simp: word_less_nat_alt)
  show ?thesis
  proof (cases "unat off + unat sz \<le> sect db")
    case True
    then have "decode_sized db ty sz off ed = decode_scalar db ty sz off ed"
      using False out by (simp add: decode_sized_def)
    then show ?thesis using decode_scalar_safe [OF ok True] by simp
  next
    case no: False
    then show ?thesis using False out by (simp add: decode_sized_def ends_ok_def same_header_def)
  qed
qed

lemma decode_one_safe:
  assumes ok: "db_ok db"
  shows "\<exists>st ed'. decode_one db off ed = Some (st, ed') \<and>
    (st = MMDB_INVALID_DATA_ERROR \<or> st = MMDB_SUCCESS \<and> entry_ok db off ed')"
proof (cases "off > data_section_size db - 1")
  case True
  then show ?thesis by (simp add: decode_one_def)
next
  case False
  then have lt: "unat off < sect db" using beyond_1 [OF ok, of off] by simp
  then have o1: "unat (off + 1) = unat off + 1" using step_1 [of off db] by simp
  obtain ctrl where ctrl: "peek db off = Some ctrl" using peek_in [OF ok lt] by simp
  define e0 where "e0 = ed\<lparr>e_offset := off, has_data := True\<rparr>"
  consider (err) "decode_type db ctrl (off + 1) = Some (Inl MMDB_INVALID_DATA_ERROR)"
    | (ty) ty off' where "decode_type db ctrl (off + 1) = Some (Inr (ty, off'))"
      "unat off < unat off'" "unat off' \<le> sect db"
    using decode_type_safe [OF ok, of "off + 1" ctrl] lt o1 by fastforce
  then show ?thesis
  proof cases
    case err
    then show ?thesis using False ctrl by (simp add: decode_one_def Let_def)
  next
    case ty
    have final: ?thesis if "ends_ok db off'' (e0\<lparr>e_type := ty\<rparr>) P (decode_one db off ed)"
      "unat off' \<le> unat off''"
      "\<And>ed'. P ed' \<Longrightarrow> ty = MMDB_DATA_TYPE_UTF8_STRING \<Longrightarrow> string_in db ed'"
      "\<And>ed'. P ed' \<Longrightarrow> ty = MMDB_DATA_TYPE_POINTER \<Longrightarrow> \<exists>p. value_of ed' = Pointer p" for P off''
      using that ty(2) unfolding ends_ok_def same_header_def e0_def entry_ok_def by fastforce
    show ?thesis
    proof (cases "ty = MMDB_DATA_TYPE_POINTER")
      case True
      then have "decode_one db off ed = decode_pointer db ctrl off' (e0\<lparr>e_type := ty\<rparr>)"
        using False ctrl ty by (simp add: decode_one_def Let_def e0_def)
      then show ?thesis using decode_pointer_safe [OF ok ty(3), of "e0\<lparr>e_type := ty\<rparr>" ctrl] True
        by (intro final [of off' "\<lambda>ed'. \<exists>p. value_of ed' = Pointer p"]) auto
    next
      case no: False
      consider (err2) "decode_size db ctrl off' = Some (Inl MMDB_INVALID_DATA_ERROR)"
        | (sz) sz o2 where "decode_size db ctrl off' = Some (Inr (sz, o2))"
          "unat off' \<le> unat o2" "unat o2 \<le> sect db"
        using decode_size_safe [OF ok ty(3), of ctrl] by blast
      then show ?thesis
      proof cases
        case err2
        then show ?thesis using False ctrl ty no by (simp add: decode_one_def Let_def)
      next
        case sz
        then have "decode_one db off ed = decode_sized db ty sz o2 (e0\<lparr>e_type := ty\<rparr>)"
          using False ctrl ty no by (simp add: decode_one_def Let_def e0_def)
        then show ?thesis using decode_sized_safe [OF ok sz(3), of "e0\<lparr>e_type := ty\<rparr>" ty sz] no sz(2)
          by (intro final [of o2 "\<lambda>ed'. ty = MMDB_DATA_TYPE_UTF8_STRING \<longrightarrow> string_in db ed'"]) auto
      qed
    qed
  qed
qed

end
