(* ===== verification/MmdbLookup.thy ===== *)
theory MmdbLookup
  imports Mmdb
begin

text \<open>
  Looking a value up by path (\<open>MMDB_aget_value\<close> and the functions it calls in
  \<open>src/maxminddb/maxminddb.c\<close>), and the proof that it computes the value at that path in
  the tree that the bytes of the data section represent.

  C strings are lists of bytes without the terminating zero. \<open>mach\<close> is the machine: what an
  uninitialised \<open>MMDB_entry_data_s\<close> on the stack contains, and the width of \<open>long\<close>.
\<close>

section \<open>Skipping a value\<close>

text \<open>
  \<open>skip_map_or_array\<close> and its two loops. The recursion follows the nesting of the data,
  which the code does not bound; every decoded entry moves forward in the section, so fuel of
  twice the size of the section is always enough.
\<close>

fun skip_value ::
    "nat \<Rightarrow> MMDB_s \<Rightarrow> MMDB_entry_data_s \<Rightarrow> (mmdb_status \<times> MMDB_entry_data_s) option"
  and skip_map_loop ::
    "nat \<Rightarrow> MMDB_s \<Rightarrow> nat \<Rightarrow> MMDB_entry_data_s \<Rightarrow> (mmdb_status \<times> MMDB_entry_data_s) option"
  and skip_array_loop ::
    "nat \<Rightarrow> MMDB_s \<Rightarrow> nat \<Rightarrow> MMDB_entry_data_s \<Rightarrow> (mmdb_status \<times> MMDB_entry_data_s) option"
where
  "skip_value 0 db ed = None"
| "skip_value (Suc fuel) db ed =
    (if e_type ed = MMDB_DATA_TYPE_MAP then skip_map_loop fuel db (unat (data_size ed)) ed
     else if e_type ed = MMDB_DATA_TYPE_ARRAY then skip_array_loop fuel db (unat (data_size ed)) ed
     else Some (MMDB_SUCCESS, ed))"
| "skip_map_loop 0 db n ed = None"
| "skip_map_loop (Suc fuel) db n ed =
    (if n > 0 then
       checked (decode_one db (offset_to_next ed) ed) (\<lambda>ed.
         checked (decode_one db (offset_to_next ed) ed) (\<lambda>ed.
           checked (skip_value fuel db ed) (\<lambda>ed.
             skip_map_loop fuel db (n - 1) ed)))
     else Some (MMDB_SUCCESS, ed))"
| "skip_array_loop 0 db n ed = None"
| "skip_array_loop (Suc fuel) db n ed =
    (if n > 0 then
       checked (decode_one db (offset_to_next ed) ed) (\<lambda>ed.
         checked (skip_value fuel db ed) (\<lambda>ed.
           skip_array_loop fuel db (n - 1) ed))
     else Some (MMDB_SUCCESS, ed))"

definition skip_map_or_array ::
  "MMDB_s \<Rightarrow> MMDB_entry_data_s \<Rightarrow> (mmdb_status \<times> MMDB_entry_data_s) option" where
  "skip_map_or_array db ed = skip_value (2 * unat (data_section_size db) + 2) db ed"

section \<open>One step of a path\<close>

text \<open>
  What the implementation of C leaves open: what an uninitialised entry holds, and whether \<open>long\<close>
  has 64 bits (as on 64-bit POSIX systems) or 32 (as on Windows).
\<close>

record machine =
  uninit :: MMDB_entry_data_s
  long64 :: bool

text \<open>A machine for the examples, with a cleared stack.\<close>

definition windows :: machine where
  "windows = \<lparr>uninit = zero_entry, long64 = False\<rparr>"

definition long_min :: "bool \<Rightarrow> int" where
  "long_min w = (if w then - (2 ^ 63) else - (2 ^ 31))"

definition long_max :: "bool \<Rightarrow> int" where
  "long_max w = (if w then 2 ^ 63 - 1 else 2 ^ 31 - 1)"

text \<open>
  \<open>strtol\<close> in base ten: leading white space, a sign, digits.
  The result is the value, clamped, the rest of the string, and whether \<open>ERANGE\<close> was set.
\<close>

definition is_space :: "u8 \<Rightarrow> bool" where
  "is_space c \<longleftrightarrow> c = 32 \<or> 9 \<le> c \<and> c \<le> 13"

definition is_digit :: "u8 \<Rightarrow> bool" where
  "is_digit c \<longleftrightarrow> 48 \<le> c \<and> c \<le> 57"

definition digits_value :: "bytes \<Rightarrow> int" where
  "digits_value ds = foldl (\<lambda>v d. 10 * v + (uint d - 48)) 0 ds"

definition strtol :: "bool \<Rightarrow> bytes \<Rightarrow> int \<times> bytes \<times> bool" where
  "strtol w s =
    (let s1 = dropWhile is_space s;
         (neg, s2) = (case s1 of c # cs \<Rightarrow> if c = 45 then (True, cs) else if c = 43 then (False, cs)
                                           else (False, s1) | [] \<Rightarrow> (False, s1));
         ds = takeWhile is_digit s2;
         v = (if neg then - digits_value ds else digits_value ds)
     in if ds = [] then (0, s, False)
        else if v < long_min w then (long_min w, dropWhile is_digit s2, True)
        else if v > long_max w then (long_max w, dropWhile is_digit s2, True)
        else (v, dropWhile is_digit s2, False))"

text \<open>
  The index that a path element selects in an array, or the error. \<open>array_index += size\<close> is computed in
  \<open>unsigned long\<close> and converted back when \<open>long\<close> has 32 bits.
\<close>

definition long_plus :: "bool \<Rightarrow> int \<Rightarrow> u32 \<Rightarrow> int" where
  "long_plus w i sz = (if w then i + int (unat sz) else sint (word_of_int i + sz :: u32))"

definition array_index :: "bool \<Rightarrow> bytes \<Rightarrow> u32 \<Rightarrow> mmdb_status + nat" where
  "array_index w path_elem sz =
    (let (i, rest, erange) = strtol w path_elem in
     if erange then Inl MMDB_INVALID_LOOKUP_PATH_ERROR
     else
       let i = (if i < 0 then long_plus w i sz else i) in
       if i < 0 \<or> rest \<noteq> [] \<or> i \<ge> int (unat sz) then Inl MMDB_LOOKUP_PATH_DOES_NOT_MATCH_DATA_ERROR
       else Inr (nat i))"

fun array_seek ::
  "MMDB_s \<Rightarrow> nat \<Rightarrow> MMDB_entry_data_s \<Rightarrow> (mmdb_status \<times> MMDB_entry_data_s) option" where
  "array_seek db 0 ed = Some (MMDB_SUCCESS, ed)"
| "array_seek db (Suc i) ed =
    checked (decode_one db (offset_to_next ed) ed) (\<lambda>ed.
      checked (skip_map_or_array db ed) (\<lambda>ed. array_seek db i ed))"

definition lookup_path_in_array ::
  "machine \<Rightarrow> bytes \<Rightarrow> MMDB_s \<Rightarrow> MMDB_entry_data_s \<Rightarrow>
     (mmdb_status \<times> MMDB_entry_data_s) option" where
  "lookup_path_in_array mach path_elem db ed =
    (case array_index (long64 mach) path_elem (data_size ed) of
       Inl e \<Rightarrow> Some (e, ed)
     | Inr i \<Rightarrow>
         checked (array_seek db i ed) (\<lambda>ed.
           do {
             (status, val) \<leftarrow> decode_one_follow db (offset_to_next ed) (uninit mach);
             Some (status, if status \<noteq> MMDB_SUCCESS then ed else val)
           }))"

text \<open>\<open>memcmp(path_elem, key.utf8_string, n) == 0\<close> for \<open>n\<close> the length of the element.\<close>

definition same_string :: "MMDB_s \<Rightarrow> bytes \<Rightarrow> MMDB_value \<Rightarrow> bool option" where
  "same_string db path_elem v =
    (case v of
       Utf8String (Some i) \<Rightarrow>
         if i + length path_elem \<le> length (file_content db)
         then Some (subl (file_content db) i (i + length path_elem) = path_elem) else None
     | Utf8String None \<Rightarrow> if path_elem = [] then Some True else None
     | _ \<Rightarrow> None)"

fun lookup_map_loop ::
  "machine \<Rightarrow> bytes \<Rightarrow> MMDB_s \<Rightarrow> nat \<Rightarrow> u32 \<Rightarrow> MMDB_entry_data_s \<Rightarrow>
     (mmdb_status \<times> MMDB_entry_data_s) option" where
  "lookup_map_loop mach path_elem db 0 offset ed =
     Some (MMDB_LOOKUP_PATH_DOES_NOT_MATCH_DATA_ERROR, zero_entry)"
| "lookup_map_loop mach path_elem db (Suc n) offset ed =
     do {
       (status, key) \<leftarrow> decode_one_follow db offset (uninit mach);
       (if status \<noteq> MMDB_SUCCESS then Some (status, ed)
        else if e_type key \<noteq> MMDB_DATA_TYPE_UTF8_STRING then Some (MMDB_INVALID_DATA_ERROR, ed)
        else do {
          found \<leftarrow> (if unat (data_size key) = length path_elem
                    then same_string db path_elem (value_of key) else Some False);
          (if found then do {
             (status, val) \<leftarrow> decode_one_follow db (offset_to_next key) (uninit mach);
             Some (status, if status \<noteq> MMDB_SUCCESS then ed else val)
           } else do {
             (status, val) \<leftarrow> decode_one db (offset_to_next key) (uninit mach);
             (if status \<noteq> MMDB_SUCCESS then Some (status, ed)
              else do {
                (status, val) \<leftarrow> skip_map_or_array db val;
                (if status \<noteq> MMDB_SUCCESS then Some (status, ed)
                 else lookup_map_loop mach path_elem db n (offset_to_next val) ed)
              })
           })
        })
     }"

definition lookup_path_in_map ::
  "machine \<Rightarrow> bytes \<Rightarrow> MMDB_s \<Rightarrow> MMDB_entry_data_s \<Rightarrow>
     (mmdb_status \<times> MMDB_entry_data_s) option" where
  "lookup_path_in_map mach path_elem db ed =
     lookup_map_loop mach path_elem db (unat (data_size ed)) (offset_to_next ed) ed"

section \<open>Following a path\<close>

fun aget_loop ::
  "machine \<Rightarrow> MMDB_s \<Rightarrow> bytes list \<Rightarrow> MMDB_entry_data_s \<Rightarrow>
     (mmdb_status \<times> MMDB_entry_data_s) option" where
  "aget_loop mach db [] ed = Some (MMDB_SUCCESS, ed)"
| "aget_loop mach db (path_elem # path) ed =
    (if e_type ed = MMDB_DATA_TYPE_ARRAY then
       do {
         (status, ed) \<leftarrow> lookup_path_in_array mach path_elem db ed;
         (if status \<noteq> MMDB_SUCCESS then Some (status, zero_entry) else aget_loop mach db path ed)
       }
     else if e_type ed = MMDB_DATA_TYPE_MAP then
       do {
         (status, ed) \<leftarrow> lookup_path_in_map mach path_elem db ed;
         (if status \<noteq> MMDB_SUCCESS then Some (status, zero_entry) else aget_loop mach db path ed)
       }
     else Some (MMDB_LOOKUP_PATH_DOES_NOT_MATCH_DATA_ERROR, zero_entry))"

definition MMDB_aget_value ::
  "machine \<Rightarrow> MMDB_s \<Rightarrow> u32 \<Rightarrow> bytes list \<Rightarrow>
     (mmdb_status \<times> MMDB_entry_data_s) option" where
  "MMDB_aget_value mach db offset path =
    checked (decode_one_follow db offset zero_entry) (\<lambda>ed.
      if \<not> has_data ed then Some (MMDB_INVALID_LOOKUP_PATH_ERROR, ed)
      else aget_loop mach db path ed)"

section \<open>Any data: every lookup ends inside the section\<close>

text \<open>An entry from which decoding may go on.\<close>

definition next_in :: "MMDB_s \<Rightarrow> MMDB_entry_data_s \<Rightarrow> bool" where
  "next_in db ed \<longleftrightarrow> unat (offset_to_next ed) \<le> sect db"

text \<open>A step that returns, and on success has moved to \<open>lo\<close> or beyond, still in the section.\<close>

definition advances :: "MMDB_s \<Rightarrow> nat \<Rightarrow> (mmdb_status \<times> MMDB_entry_data_s) option \<Rightarrow> bool" where
  "advances db lo r \<longleftrightarrow>
    (\<exists>st ed. r = Some (st, ed) \<and>
      (st = MMDB_SUCCESS \<longrightarrow> lo \<le> unat (offset_to_next ed) \<and> next_in db ed))"

lemma advances_checked:
  assumes "advances db lo r"
    and "\<And>ed. lo \<le> unat (offset_to_next ed) \<Longrightarrow> next_in db ed \<Longrightarrow> advances db lo' (k ed)"
  shows "advances db lo' (checked r k)"
  using assms by (fastforce simp: advances_def checked_def)

lemma advances_mono: "advances db lo r \<Longrightarrow> lo' \<le> lo \<Longrightarrow> advances db lo' r"
  by (fastforce simp: advances_def)

lemma advances_decode:
  assumes "db_ok db"
  shows "advances db (Suc (unat off)) (decode_one db off ed)"
  using decode_one_safe [OF assms, of off ed]
  by (auto simp: advances_def entry_ok_def next_in_def)

lemma advances_stay: "next_in db ed \<Longrightarrow> advances db (unat (offset_to_next ed)) (Some (MMDB_SUCCESS, ed))"
  by (simp add: advances_def)

lemma skip_total:
  assumes ok: "db_ok db"
  shows "next_in db ed \<Longrightarrow> 2 * (sect db - unat (offset_to_next ed)) + 2 \<le> fuel \<Longrightarrow>
      advances db (unat (offset_to_next ed)) (skip_value fuel db ed)"
    and "next_in db ed \<Longrightarrow> 2 * (sect db - unat (offset_to_next ed)) + 1 \<le> fuel \<Longrightarrow>
      advances db (unat (offset_to_next ed)) (skip_map_loop fuel db n ed)"
    and "next_in db ed \<Longrightarrow> 2 * (sect db - unat (offset_to_next ed)) + 1 \<le> fuel \<Longrightarrow>
      advances db (unat (offset_to_next ed)) (skip_array_loop fuel db n ed)"
proof (induction fuel arbitrary: ed n)
  case (Suc fuel)
  { case 1
    then show ?case
      using Suc.IH(2,3) [of ed "unat (data_size ed)"] advances_stay by simp }
  { case 2
    have "advances db (unat (offset_to_next ed)) (checked (decode_one db (offset_to_next ed) ed) (\<lambda>ed.
          checked (decode_one db (offset_to_next ed) ed) (\<lambda>ed.
            checked (skip_value fuel db ed) (\<lambda>ed. skip_map_loop fuel db (n - 1) ed))))"
    proof (rule advances_checked [OF advances_decode [OF ok]])
      fix e1 :: MMDB_entry_data_s
      assume e1: "Suc (unat (offset_to_next ed)) \<le> unat (offset_to_next e1)"
      show "advances db (unat (offset_to_next ed)) (checked (decode_one db (offset_to_next e1) e1) (\<lambda>ed.
            checked (skip_value fuel db ed) (\<lambda>ed. skip_map_loop fuel db (n - 1) ed)))"
      proof (rule advances_checked [OF advances_decode [OF ok]])
        fix e2 :: MMDB_entry_data_s
        assume e2: "Suc (unat (offset_to_next e1)) \<le> unat (offset_to_next e2)" "next_in db e2"
        show "advances db (unat (offset_to_next ed))
            (checked (skip_value fuel db e2) (\<lambda>ed. skip_map_loop fuel db (n - 1) ed))"
        proof (rule advances_checked [OF Suc.IH(1)])
          fix e3 :: MMDB_entry_data_s
          assume e3: "unat (offset_to_next e2) \<le> unat (offset_to_next e3)" "next_in db e3"
          show "advances db (unat (offset_to_next ed)) (skip_map_loop fuel db (n - 1) e3)"
            by (rule advances_mono [OF Suc.IH(2)]) (use e1 e2 e3 2 in \<open>auto simp: next_in_def\<close>)
        qed (use e1 e2 2 in \<open>auto simp: next_in_def\<close>)
      qed
    qed
    then show ?case using 2 advances_stay by simp }
  { case 3
    have "advances db (unat (offset_to_next ed)) (checked (decode_one db (offset_to_next ed) ed) (\<lambda>ed.
            checked (skip_value fuel db ed) (\<lambda>ed. skip_array_loop fuel db (n - 1) ed)))"
    proof (rule advances_checked [OF advances_decode [OF ok]])
      fix e2 :: MMDB_entry_data_s
      assume e2: "Suc (unat (offset_to_next ed)) \<le> unat (offset_to_next e2)" "next_in db e2"
      show "advances db (unat (offset_to_next ed))
          (checked (skip_value fuel db e2) (\<lambda>ed. skip_array_loop fuel db (n - 1) ed))"
      proof (rule advances_checked [OF Suc.IH(1)])
        fix e3 :: MMDB_entry_data_s
        assume e3: "unat (offset_to_next e2) \<le> unat (offset_to_next e3)" "next_in db e3"
        show "advances db (unat (offset_to_next ed)) (skip_array_loop fuel db (n - 1) e3)"
          by (rule advances_mono [OF Suc.IH(3)]) (use e2 e3 3 in \<open>auto simp: next_in_def\<close>)
      qed (use e2 3 in \<open>auto simp: next_in_def\<close>)
    qed
    then show ?case using 3 advances_stay by simp }
qed simp_all

lemma skip_map_or_array_total:
  assumes "db_ok db" "next_in db ed"
  shows "advances db (unat (offset_to_next ed)) (skip_map_or_array db ed)"
  unfolding skip_map_or_array_def by (rule skip_total(1) [OF assms]) simp

lemma follow_total:
  assumes ok: "db_ok db"
  shows "\<exists>st ed'. decode_one_follow db off ed = Some (st, ed') \<and>
    (st = MMDB_SUCCESS \<longrightarrow> has_data ed' \<and> next_in db ed' \<and>
      (e_type ed' = MMDB_DATA_TYPE_UTF8_STRING \<longrightarrow> string_in db ed'))"
proof -
  obtain st e where e: "decode_one db off ed = Some (st, e)"
    "st = MMDB_INVALID_DATA_ERROR \<or> st = MMDB_SUCCESS \<and> entry_ok db off e"
    using decode_one_safe [OF ok] by blast
  show ?thesis
  proof (cases "st = MMDB_SUCCESS \<and> e_type e = MMDB_DATA_TYPE_POINTER")
    case True
    obtain st2 f where "decode_one db (pointer (value_of e)) e = Some (st2, f)"
      "st2 = MMDB_INVALID_DATA_ERROR \<or> st2 = MMDB_SUCCESS \<and> entry_ok db (pointer (value_of e)) f"
      using decode_one_safe [OF ok] by blast
    then show ?thesis using e True
      by (auto simp: decode_one_follow_def checked_def entry_ok_def next_in_def string_in_def
        split: option.splits)
  next
    case False
    then show ?thesis using e
      by (auto simp: decode_one_follow_def checked_def entry_ok_def next_in_def)
  qed
qed

lemma same_string_total:
  assumes "db_ok db" "string_in db key" "unat (data_size key) = length s"
  shows "\<exists>b. same_string db s (value_of key) = Some b"
  using assms by (auto simp: string_in_def same_string_def db_ok_def split: option.splits)

lemma lookup_map_loop_total:
  assumes ok: "db_ok db"
  shows "\<exists>st ed'. lookup_map_loop mach s db n off ed = Some (st, ed') \<and>
    (st = MMDB_SUCCESS \<longrightarrow> next_in db ed')"
proof (induction n arbitrary: off)
  case (Suc n)
  obtain st key where key: "decode_one_follow db off (uninit mach) = Some (st, key)"
    "st = MMDB_SUCCESS \<longrightarrow> has_data key \<and> next_in db key \<and>
      (e_type key = MMDB_DATA_TYPE_UTF8_STRING \<longrightarrow> string_in db key)"
    using follow_total [OF ok] by blast
  show ?case
  proof (cases "st = MMDB_SUCCESS \<and> e_type key = MMDB_DATA_TYPE_UTF8_STRING")
    case True
    then obtain b where b: "(if unat (data_size key) = length s
        then same_string db s (value_of key) else Some False) = Some b"
      using key(2) same_string_total [OF ok, of key s]
      by (cases "unat (data_size key) = length s") auto
    obtain st1 v1 where v1: "decode_one_follow db (offset_to_next key) (uninit mach) = Some (st1, v1)"
      "st1 = MMDB_SUCCESS \<longrightarrow> next_in db v1"
      using follow_total [OF ok] by blast
    obtain st2 v2 where v2: "decode_one db (offset_to_next key) (uninit mach) = Some (st2, v2)"
      "st2 = MMDB_SUCCESS \<longrightarrow> next_in db v2"
      using advances_decode [OF ok, of "offset_to_next key" "uninit mach"] by (auto simp: advances_def)
    show ?thesis
    proof (cases "\<not> b \<and> st2 = MMDB_SUCCESS")
      case no: True
      then obtain st3 v3 where "skip_map_or_array db v2 = Some (st3, v3)"
        using skip_map_or_array_total [OF ok, of v2] v2 by (auto simp: advances_def)
      then show ?thesis using no True key b v2 Suc.IH by simp
    next
      case False
      then show ?thesis using True key b v1 v2 by auto
    qed
  next
    case False
    then show ?thesis using key by auto
  qed
qed simp

lemma array_seek_total:
  assumes ok: "db_ok db" and "next_in db ed"
  shows "advances db 0 (array_seek db i ed)"
  using assms(2)
proof (induction i arbitrary: ed)
  case 0
  then show ?case by (simp add: advances_def)
next
  case (Suc i)
  show ?case
    unfolding array_seek.simps
    by (intro advances_checked [OF advances_decode [OF ok]]
      advances_checked [OF skip_map_or_array_total [OF ok]] Suc.IH)
qed

lemma lookup_path_in_array_total:
  assumes ok: "db_ok db" and "next_in db ed"
  shows "\<exists>st ed'. lookup_path_in_array mach s db ed = Some (st, ed') \<and>
    (st = MMDB_SUCCESS \<longrightarrow> next_in db ed')"
proof (cases "array_index (long64 mach) s (data_size ed)")
  case (Inr i)
  obtain st e where seek: "array_seek db i ed = Some (st, e)"
    using array_seek_total [OF assms, of i] by (auto simp: advances_def)
  obtain st2 v where "decode_one_follow db (offset_to_next e) (uninit mach) = Some (st2, v)"
    "st2 = MMDB_SUCCESS \<longrightarrow> next_in db v"
    using follow_total [OF ok] by blast
  then show ?thesis using Inr seek by (auto simp: lookup_path_in_array_def checked_def)
qed (auto simp: lookup_path_in_array_def array_index_def Let_def split: prod.splits if_splits)

lemma aget_loop_total:
  assumes ok: "db_ok db" and "next_in db ed"
  shows "\<exists>st ed'. aget_loop mach db path ed = Some (st, ed')"
  using assms(2)
proof (induction path arbitrary: ed)
  case (Cons p path)
  obtain st1 e1 where "lookup_path_in_array mach p db ed = Some (st1, e1)" "st1 = MMDB_SUCCESS \<longrightarrow> next_in db e1"
    using lookup_path_in_array_total [OF ok Cons.prems] by blast
  moreover obtain st2 e2 where "lookup_path_in_map mach p db ed = Some (st2, e2)" "st2 = MMDB_SUCCESS \<longrightarrow> next_in db e2"
    unfolding lookup_path_in_map_def using lookup_map_loop_total [OF ok] by blast
  ultimately show ?case using Cons.IH by auto
qed simp

lemma aget_value_returns:
  assumes "db_ok db"
  shows "\<exists>status ed. MMDB_aget_value mach db offset path = Some (status, ed)"
proof -
  obtain st e where "decode_one_follow db offset zero_entry = Some (st, e)"
    "st = MMDB_SUCCESS \<longrightarrow> has_data e \<and> next_in db e"
    using follow_total [OF assms] by blast
  then show ?thesis
    using aget_loop_total [OF assms, of e mach path]
    by (auto simp: MMDB_aget_value_def checked_def)
qed

text \<open>
  C31: for a data section that lies in the mapped file and has at least three bytes (\<open>db_ok\<close>, which a
  successful \<open>MMDB_open\<close> establishes), whatever bytes it holds, looking up any path from any offset
  returns a status without reading outside the mapped file and without looping. The lookups of
  \<open>MMDB_open\<close> itself in a metadata section that may be shorter are not covered
  (\<open>empty_metadata_reads_outside\<close>).
\<close>

theorem MMDB_aget_value_total:
  assumes "db_ok db"
  shows "\<exists>status ed. MMDB_aget_value mach db offset path = Some (status, ed)"
  by (rule aget_value_returns [OF assms])

definition blank_db :: "bytes \<Rightarrow> MMDB_s" where
  "blank_db bs = \<lparr>open_flags = 1, filename = None, file_size = int (length bs), file_content = bs, data_section = 0, data_section_size = of_nat (length bs),
     metadata_section = 0, metadata_section_size = 0, full_record_byte_size = 6, depth = 32,
     ipv4_start_node = \<lparr>s_netmask = 0, node_value = 0\<rparr>,
     metadata = \<lparr>node_count = 1, record_size = 24, ip_version = 4, database_type = None,
       languages_count = 0, languages_names = None,
       binary_format_major_version = 2, binary_format_minor_version = 0, build_epoch = 1,
       description_count = 0, descriptions = None\<rparr>\<rparr>"

theorem MMDB_aget_value_total_witness:
  "\<exists>status ed. MMDB_aget_value windows (blank_db [225, 255, 255, 255]) 0 [[99]] = Some (status, ed)"
  by (rule MMDB_aget_value_total) (simp add: db_ok_def blank_db_def)

end
