(* ===== verification/MmdbRep.thy ===== *)
theory MmdbRep
  imports MmdbLookup
begin

text \<open>
  The abstract meaning of the data section: the tree of maps, arrays, strings and scalars
  that starts at an offset, with pointers resolved, and the proof that \<open>MMDB_aget_value\<close>
  implements the lookup of a path in that tree.
\<close>

section \<open>The tree behind the bytes\<close>

datatype mmval =
  MScalar nat MMDB_value
| MString bytes
| MArray "mmval list"
| MMap "(bytes \<times> mmval) list"

definition entry_string :: "MMDB_s \<Rightarrow> MMDB_entry_data_s \<Rightarrow> bytes option" where
  "entry_string db ed =
    (case value_of ed of
       Utf8String None \<Rightarrow> if data_size ed = 0 then Some [] else None
     | Utf8String (Some i) \<Rightarrow>
         if i + unat (data_size ed) \<le> length (file_content db)
         then Some (subl (file_content db) i (i + unat (data_size ed))) else None
     | _ \<Rightarrow> None)"

text \<open>The entry at \<open>off\<close> decodes, whatever was in the structure before.\<close>

definition decodes :: "MMDB_s \<Rightarrow> u32 \<Rightarrow> (MMDB_entry_data_s \<Rightarrow> bool) \<Rightarrow> bool" where
  "decodes db off Q \<longleftrightarrow>
    (\<forall>ed. \<exists>ed'. decode_one db off ed = Some (MMDB_SUCCESS, ed') \<and> has_data ed' \<and> Q ed')"

text \<open>
  \<open>rep0 db off v n\<close>: the bytes at \<open>off\<close>, which are not a pointer, represent \<open>v\<close> and end
  at \<open>n\<close>. \<open>rep\<close> allows a pointer, whose own end counts.
\<close>

inductive rep0 :: "MMDB_s \<Rightarrow> u32 \<Rightarrow> mmval \<Rightarrow> u32 \<Rightarrow> bool"
  and rep :: "MMDB_s \<Rightarrow> u32 \<Rightarrow> mmval \<Rightarrow> u32 \<Rightarrow> bool"
  and rep_list :: "MMDB_s \<Rightarrow> u32 \<Rightarrow> mmval list \<Rightarrow> u32 \<Rightarrow> bool"
  and rep_map :: "MMDB_s \<Rightarrow> u32 \<Rightarrow> (bytes \<times> mmval) list \<Rightarrow> u32 \<Rightarrow> bool"
  for db where
  scalar: "decodes db off (\<lambda>e. e_type e = ty \<and> value_of e = x \<and> offset_to_next e = n) \<Longrightarrow>
    ty \<notin> {MMDB_DATA_TYPE_POINTER, MMDB_DATA_TYPE_UTF8_STRING, MMDB_DATA_TYPE_MAP, MMDB_DATA_TYPE_ARRAY} \<Longrightarrow>
    rep0 db off (MScalar ty x) n"
| string: "decodes db off (\<lambda>e. e_type e = MMDB_DATA_TYPE_UTF8_STRING \<and>
      entry_string db e = Some s \<and> offset_to_next e = n) \<Longrightarrow>
    rep0 db off (MString s) n"
| array: "decodes db off (\<lambda>e. e_type e = MMDB_DATA_TYPE_ARRAY \<and>
      unat (data_size e) = length vs \<and> offset_to_next e = m) \<Longrightarrow>
    rep_list db m vs n \<Longrightarrow> rep0 db off (MArray vs) n"
| map: "decodes db off (\<lambda>e. e_type e = MMDB_DATA_TYPE_MAP \<and>
      unat (data_size e) = length kvs \<and> offset_to_next e = m) \<Longrightarrow>
    rep_map db m kvs n \<Longrightarrow> rep0 db off (MMap kvs) n"
| direct: "rep0 db off v n \<Longrightarrow> rep db off v n"
| pointer: "decodes db off (\<lambda>e. e_type e = MMDB_DATA_TYPE_POINTER \<and>
      value_of e = Pointer p \<and> offset_to_next e = n) \<Longrightarrow>
    rep0 db p v m \<Longrightarrow> rep db off v n"
| nil: "rep_list db m [] m"
| cons: "rep db m v m' \<Longrightarrow> rep_list db m' vs n \<Longrightarrow> rep_list db m (v # vs) n"
| nil_map: "rep_map db m [] m"
| cons_map: "rep db m (MString k) m' \<Longrightarrow> rep db m' v m'' \<Longrightarrow> rep_map db m'' kvs n \<Longrightarrow>
    rep_map db m ((k, v) # kvs) n"

inductive_cases rep_listE: "rep_list db m (v # vs) n"
inductive_cases rep_mapE: "rep_map db m ((k, v) # kvs) n"

text \<open>The value at a path, or the error that the library reports for it.\<close>

fun tree_get :: "bool \<Rightarrow> mmval \<Rightarrow> bytes list \<Rightarrow> mmdb_status + mmval" where
  "tree_get w v [] = Inr v"
| "tree_get w (MArray vs) (p # path) =
    (case array_index w p (of_nat (length vs)) of
       Inl e \<Rightarrow> Inl e
     | Inr i \<Rightarrow> tree_get w (vs ! i) path)"
| "tree_get w (MMap kvs) (p # path) =
    (case map_of kvs p of
       None \<Rightarrow> Inl MMDB_LOOKUP_PATH_DOES_NOT_MATCH_DATA_ERROR
     | Some v \<Rightarrow> tree_get w v path)"
| "tree_get w _ (p # path) = Inl MMDB_LOOKUP_PATH_DOES_NOT_MATCH_DATA_ERROR"

text \<open>An entry structure describes a value.\<close>

definition shows_val :: "MMDB_s \<Rightarrow> MMDB_entry_data_s \<Rightarrow> mmval \<Rightarrow> bool" where
  "shows_val db ed v \<longleftrightarrow> has_data ed \<and>
    (case v of
       MScalar ty x \<Rightarrow> e_type ed = ty \<and> value_of ed = x \<and>
         ty \<notin> {MMDB_DATA_TYPE_POINTER, MMDB_DATA_TYPE_UTF8_STRING, MMDB_DATA_TYPE_MAP, MMDB_DATA_TYPE_ARRAY}
     | MString s \<Rightarrow> e_type ed = MMDB_DATA_TYPE_UTF8_STRING \<and> entry_string db ed = Some s
     | MArray vs \<Rightarrow> e_type ed = MMDB_DATA_TYPE_ARRAY \<and> unat (data_size ed) = length vs \<and>
         (\<exists>n. rep_list db (offset_to_next ed) vs n)
     | MMap kvs \<Rightarrow> e_type ed = MMDB_DATA_TYPE_MAP \<and> unat (data_size ed) = length kvs \<and>
         (\<exists>n. rep_map db (offset_to_next ed) kvs n))"

section \<open>Skipping follows the representation\<close>

lemma checked_Some: "checked r k = Some x \<longleftrightarrow>
  (\<exists>st ed. r = Some (st, ed) \<and> (if st = MMDB_SUCCESS then k ed = Some x else x = (st, ed)))"
  by (auto simp: checked_def bind_eq_Some_conv split: if_splits)

lemma checked_mono:
  assumes "checked r k = Some x" and "\<And>y. r = Some y \<Longrightarrow> r' = Some y"
    and "\<And>ed. k ed = Some x \<Longrightarrow> k' ed = Some x"
  shows "checked r' k' = Some x"
  using assms by (cases r) (auto simp: checked_def split: if_splits)

lemma skip_Suc:
  shows "skip_value f db ed = Some r \<Longrightarrow> skip_value (Suc f) db ed = Some r"
    and "skip_map_loop f db n ed = Some r \<Longrightarrow> skip_map_loop (Suc f) db n ed = Some r"
    and "skip_array_loop f db n ed = Some r \<Longrightarrow> skip_array_loop (Suc f) db n ed = Some r"
proof (induction f arbitrary: ed n r)
  case (Suc f)
  { case 1
    then show ?case
      using Suc.IH(2,3) by (auto simp only: skip_value.simps(2) split: if_splits) }
  { case 2
    show ?case
    proof (cases "n > 0")
      case True
      have "checked (decode_one db (offset_to_next ed) ed) (\<lambda>ed.
          checked (decode_one db (offset_to_next ed) ed) (\<lambda>ed.
            checked (skip_value f db ed) (\<lambda>ed. skip_map_loop f db (n - 1) ed))) = Some r"
        using 2 True by simp
      then have "checked (decode_one db (offset_to_next ed) ed) (\<lambda>ed.
          checked (decode_one db (offset_to_next ed) ed) (\<lambda>ed.
            checked (skip_value (Suc f) db ed) (\<lambda>ed. skip_map_loop (Suc f) db (n - 1) ed))) = Some r"
        by (elim checked_mono) (blast intro: Suc.IH)+
      then show ?thesis by (subst skip_map_loop.simps(2)) (simp only: True if_True)
    qed (use 2 in simp) }
  { case 3
    show ?case
    proof (cases "n > 0")
      case True
      have "checked (decode_one db (offset_to_next ed) ed) (\<lambda>ed.
            checked (skip_value f db ed) (\<lambda>ed. skip_array_loop f db (n - 1) ed)) = Some r"
        using 3 True by simp
      then have "checked (decode_one db (offset_to_next ed) ed) (\<lambda>ed.
            checked (skip_value (Suc f) db ed) (\<lambda>ed. skip_array_loop (Suc f) db (n - 1) ed)) = Some r"
        by (elim checked_mono) (blast intro: Suc.IH)+
      then show ?thesis by (subst skip_array_loop.simps(2)) (simp only: True if_True)
    qed (use 3 in simp) }
qed simp_all

lemma skip_more:
  assumes "f \<le> f'"
  shows "skip_value f db ed = Some r \<Longrightarrow> skip_value f' db ed = Some r"
    and "skip_map_loop f db n ed = Some r \<Longrightarrow> skip_map_loop f' db n ed = Some r"
    and "skip_array_loop f db n ed = Some r \<Longrightarrow> skip_array_loop f' db n ed = Some r"
  using assms by (induction f' rule: dec_induct) (blast intro: skip_Suc)+

text \<open>Decoding at \<open>off\<close> and skipping ends at \<open>n\<close>.\<close>

definition skips :: "MMDB_s \<Rightarrow> u32 \<Rightarrow> u32 \<Rightarrow> bool" where
  "skips db off n \<longleftrightarrow> decodes db off (\<lambda>e.
    \<exists>f e'. skip_value f db e = Some (MMDB_SUCCESS, e') \<and> offset_to_next e' = n)"

lemma decodes_mono: "decodes db off P \<Longrightarrow> (\<And>e. P e \<Longrightarrow> Q e) \<Longrightarrow> decodes db off Q"
  unfolding decodes_def by meson

lemma decodes_mono':
  "decodes db off P \<Longrightarrow> (\<And>e. has_data e \<Longrightarrow> P e \<Longrightarrow> Q e) \<Longrightarrow> decodes db off Q"
  unfolding decodes_def by meson

lemma rep_string_decodes:
  assumes "rep db m (MString k) m'"
  shows "decodes db m (\<lambda>e. offset_to_next e = m')"
  using assms by (cases rule: rep.cases) (auto elim: rep0.cases intro: decodes_mono)

lemma rep_skips:
  shows "rep0 db off v n \<Longrightarrow> skips db off n"
    and "rep db off v n \<Longrightarrow> skips db off n"
    and "rep_list db m vs n \<Longrightarrow> offset_to_next ed = m \<Longrightarrow>
      \<exists>f e. skip_array_loop f db (length vs) ed = Some (MMDB_SUCCESS, e) \<and> offset_to_next e = n"
    and "rep_map db m kvs n \<Longrightarrow> offset_to_next ed = m \<Longrightarrow>
      \<exists>f e. skip_map_loop f db (length kvs) ed = Some (MMDB_SUCCESS, e) \<and> offset_to_next e = n"
proof (induction arbitrary: and and ed and ed rule: rep0_rep_rep_list_rep_map.inducts)
  case (scalar off ty x n)
  then show ?case unfolding skips_def
    by (elim decodes_mono) (auto intro!: exI [of _ "Suc 0"])
next
  case (string off s n)
  then show ?case unfolding skips_def
    by (elim decodes_mono) (auto intro!: exI [of _ "Suc 0"])
next
  case (array off vs m n)
  from array(1) show ?case unfolding skips_def
  proof (rule decodes_mono)
    fix e :: MMDB_entry_data_s
    assume e: "e_type e = MMDB_DATA_TYPE_ARRAY \<and> unat (data_size e) = length vs \<and> offset_to_next e = m"
    then obtain f e' where "skip_array_loop f db (length vs) e = Some (MMDB_SUCCESS, e')" "offset_to_next e' = n"
      using array(3) [of e] by blast
    then show "\<exists>f e'. skip_value f db e = Some (MMDB_SUCCESS, e') \<and> offset_to_next e' = n"
      using e by (intro exI [of _ "Suc f"]) auto
  qed
next
  case (map off kvs m n)
  from map(1) show ?case unfolding skips_def
  proof (rule decodes_mono)
    fix e :: MMDB_entry_data_s
    assume e: "e_type e = MMDB_DATA_TYPE_MAP \<and> unat (data_size e) = length kvs \<and> offset_to_next e = m"
    then obtain f e' where "skip_map_loop f db (length kvs) e = Some (MMDB_SUCCESS, e')" "offset_to_next e' = n"
      using map(3) [of e] by blast
    then show "\<exists>f e'. skip_value f db e = Some (MMDB_SUCCESS, e') \<and> offset_to_next e' = n"
      using e by (intro exI [of _ "Suc f"]) auto
  qed
next
  case (pointer off p n v m)
  from pointer(1) show ?case unfolding skips_def
    by (elim decodes_mono) (auto intro!: exI [of _ "Suc 0"])
next
  case (nil m)
  then show ?case by (auto intro!: exI [of _ "Suc 0"])
next
  case (cons m v m' vs n)
  from cons(2,5) obtain e1 f1 e2 where
    1: "decode_one db (offset_to_next ed) ed = Some (MMDB_SUCCESS, e1)"
      "skip_value f1 db e1 = Some (MMDB_SUCCESS, e2)" "offset_to_next e2 = m'"
    unfolding skips_def decodes_def by blast
  from cons(4) [OF 1(3)] obtain f2 e where
    2: "skip_array_loop f2 db (length vs) e2 = Some (MMDB_SUCCESS, e)" "offset_to_next e = n" by blast
  let ?f = "max f1 f2"
  have "skip_array_loop (Suc ?f) db (length (v # vs)) ed = Some (MMDB_SUCCESS, e)"
    using 1(1) skip_more(1) [OF _ 1(2), of ?f] skip_more(3) [OF _ 2(1), of ?f]
    by (simp add: checked_def)
  then show ?case using 2(2) by blast
next
  case (nil_map m)
  then show ?case by (auto intro!: exI [of _ "Suc 0"])
next
  case (cons_map m k m' v m'' kvs n)
  from rep_string_decodes [OF cons_map(1)] cons_map(7) obtain e0 where
    0: "decode_one db (offset_to_next ed) ed = Some (MMDB_SUCCESS, e0)" "offset_to_next e0 = m'"
    unfolding decodes_def by blast
  from cons_map(4) 0(2) obtain e1 f1 e2 where
    1: "decode_one db (offset_to_next e0) e0 = Some (MMDB_SUCCESS, e1)"
      "skip_value f1 db e1 = Some (MMDB_SUCCESS, e2)" "offset_to_next e2 = m''"
    unfolding skips_def decodes_def by blast
  from cons_map(6) [OF 1(3)] obtain f2 e where
    2: "skip_map_loop f2 db (length kvs) e2 = Some (MMDB_SUCCESS, e)" "offset_to_next e = n" by blast
  let ?f = "max f1 f2"
  have "skip_map_loop (Suc ?f) db (length ((k, v) # kvs)) ed = Some (MMDB_SUCCESS, e)"
    using 0(1) 1(1) skip_more(1) [OF _ 1(2), of ?f] skip_more(2) [OF _ 2(1), of ?f]
    by (simp add: checked_def)
  then show ?case using 2(2) by blast
qed

lemma rep_skip:
  assumes ok: "db_ok db" and "rep db off v n"
  obtains e1 e2 where "decode_one db off ed = Some (MMDB_SUCCESS, e1)"
    "skip_map_or_array db e1 = Some (MMDB_SUCCESS, e2)" "offset_to_next e2 = n"
proof -
  obtain e1 f e2 where 1: "decode_one db off ed = Some (MMDB_SUCCESS, e1)"
    "skip_value f db e1 = Some (MMDB_SUCCESS, e2)" "offset_to_next e2 = n"
    using rep_skips(2) [OF assms(2)] unfolding skips_def decodes_def by blast
  have "next_in db e1"
    using advances_decode [OF ok, of off ed] 1(1) by (auto simp: advances_def)
  then obtain r where r: "skip_map_or_array db e1 = Some r"
    using skip_map_or_array_total [OF ok, of e1] by (auto simp: advances_def)
  let ?F = "2 * sect db + 2"
  have "skip_value (max f ?F) db e1 = Some (MMDB_SUCCESS, e2)" "skip_value (max f ?F) db e1 = Some r"
    using skip_more(1) [OF _ 1(2), of "max f ?F"] r skip_more(1) [of ?F "max f ?F" db e1 r]
    by (simp_all add: skip_map_or_array_def)
  then have "r = (MMDB_SUCCESS, e2)" by simp
  then show ?thesis using r 1 that by blast
qed

fun container :: "mmval \<Rightarrow> bool" where
  "container (MArray vs) = True"
| "container (MMap kvs) = True"
| "container _ = False"

lemma rep0_shows:
  assumes "rep0 db off v n"
  shows "decodes db off (\<lambda>e. e_type e \<noteq> MMDB_DATA_TYPE_POINTER \<and> shows_val db e v \<and>
    (\<not> container v \<longrightarrow> offset_to_next e = n) \<and> (container v \<longrightarrow> e_type e \<in> {MMDB_DATA_TYPE_MAP, MMDB_DATA_TYPE_ARRAY}))"
  using assms
proof (cases rule: rep0.cases)
  case (scalar ty x)
  from scalar(2) show ?thesis
    by (rule decodes_mono') (use scalar in \<open>auto simp: shows_val_def\<close>)
next
  case (string s)
  from string(2) show ?thesis
    by (rule decodes_mono') (use string in \<open>auto simp: shows_val_def\<close>)
next
  case (array vs m)
  from array(2) show ?thesis
    by (rule decodes_mono') (use array in \<open>auto simp: shows_val_def\<close>)
next
  case (map kvs m)
  from map(2) show ?thesis
    by (rule decodes_mono') (use map in \<open>auto simp: shows_val_def\<close>)
qed

lemma shows_val_next: "\<not> container v \<Longrightarrow> shows_val db (e\<lparr>offset_to_next := n\<rparr>) v = shows_val db e v"
  by (cases v) (auto simp: shows_val_def entry_string_def split: MMDB_value.splits option.splits)

lemma shows_val_type: "shows_val db e v \<Longrightarrow>
  (e_type e = MMDB_DATA_TYPE_MAP \<or> e_type e = MMDB_DATA_TYPE_ARRAY) = container v"
  by (cases v) (auto simp: shows_val_def)

lemma rep_follow:
  assumes "rep db off v n"
  obtains e where "decode_one_follow db off ed = Some (MMDB_SUCCESS, e)" "shows_val db e v"
    "\<not> container v \<longrightarrow> offset_to_next e = n"
  using assms
proof (cases rule: rep.cases)
  case direct
  then obtain e where "decode_one db off ed = Some (MMDB_SUCCESS, e)" "e_type e \<noteq> MMDB_DATA_TYPE_POINTER"
    "shows_val db e v" "\<not> container v \<longrightarrow> offset_to_next e = n"
    using rep0_shows unfolding decodes_def by blast
  then show ?thesis by (intro that) (auto simp: decode_one_follow_def checked_def)
next
  case (pointer p m)
  obtain e1 where 1: "decode_one db off ed = Some (MMDB_SUCCESS, e1)"
    "e_type e1 = MMDB_DATA_TYPE_POINTER" "value_of e1 = Pointer p" "offset_to_next e1 = n"
    using pointer(1) unfolding decodes_def by blast
  obtain e2 where 2: "decode_one db p e1 = Some (MMDB_SUCCESS, e2)" "e_type e2 \<noteq> MMDB_DATA_TYPE_POINTER"
    "shows_val db e2 v"
    using rep0_shows [OF pointer(2)] unfolding decodes_def by blast
  show ?thesis
  proof (cases "container v")
    case True
    then show ?thesis
      using 1 2 shows_val_type [OF 2(3)] by (intro that [of e2]) (auto simp: decode_one_follow_def checked_def)
  next
    case False
    then show ?thesis
      using 1 2 shows_val_type [OF 2(3)] shows_val_next [OF False]
      by (intro that [of "e2\<lparr>offset_to_next := n\<rparr>"]) (auto simp: decode_one_follow_def checked_def)
  qed
qed

lemma entry_string_length: "entry_string db e = Some s \<Longrightarrow> unat (data_size e) = length s"
  by (auto simp: entry_string_def split: MMDB_value.splits option.splits if_splits)

lemma same_string_entry:
  assumes "entry_string db e = Some k" "length k = length p"
  shows "same_string db p (value_of e) = Some (k = p)"
  using assms entry_string_length [OF assms(1)]
  by (auto simp: entry_string_def same_string_def split: MMDB_value.splits option.splits if_splits)

lemma lookup_map_loop_rep:
  assumes ok: "db_ok db"
  shows "rep_map db m kvs n \<Longrightarrow>
    \<exists>st e. lookup_map_loop mach p db (length kvs) m ed = Some (st, e) \<and>
      (case map_of kvs p of
         None \<Rightarrow> st = MMDB_LOOKUP_PATH_DOES_NOT_MATCH_DATA_ERROR
       | Some v \<Rightarrow> st = MMDB_SUCCESS \<and> shows_val db e v)"
proof (induction kvs arbitrary: m)
  case (Cons kv kvs)
  obtain k v where kv: "kv = (k, v)" by (cases kv)
  obtain m' m'' where r: "rep db m (MString k) m'" "rep db m' v m''" "rep_map db m'' kvs n"
    using Cons.prems kv by (auto elim: rep_mapE)
  obtain key where key: "decode_one_follow db m (uninit mach) = Some (MMDB_SUCCESS, key)"
    "e_type key = MMDB_DATA_TYPE_UTF8_STRING" "entry_string db key = Some k" "offset_to_next key = m'"
    using rep_follow [OF r(1), of "uninit mach"] by (auto simp: shows_val_def)
  have found: "(if unat (data_size key) = length p then same_string db p (value_of key) else Some False) =
      Some (k = p)"
    using same_string_entry [OF key(3), of p] entry_string_length [OF key(3)] by auto
  show ?case
  proof (cases "k = p")
    case True
    obtain e where "decode_one_follow db m' (uninit mach) = Some (MMDB_SUCCESS, e)" "shows_val db e v"
      using rep_follow [OF r(2), of "uninit mach"] by blast
    then show ?thesis using True kv key found by simp
  next
    case False
    obtain e1 e2 where "decode_one db m' (uninit mach) = Some (MMDB_SUCCESS, e1)"
      "skip_map_or_array db e1 = Some (MMDB_SUCCESS, e2)" "offset_to_next e2 = m''"
      using rep_skip [OF ok r(2)] by blast
    then show ?thesis using False kv key found Cons.IH [OF r(3)] by simp
  qed
qed simp

lemma array_seek_rep:
  assumes ok: "db_ok db"
  shows "rep_list db m vs n \<Longrightarrow> offset_to_next ed = m \<Longrightarrow> i < length vs \<Longrightarrow>
    \<exists>e o' n'. array_seek db i ed = Some (MMDB_SUCCESS, e) \<and> offset_to_next e = o' \<and> rep db o' (vs ! i) n'"
proof (induction i arbitrary: m vs ed)
  case 0
  then obtain v vs' where "vs = v # vs'" by (cases vs) auto
  with 0 show ?case by (auto elim: rep_listE)
next
  case (Suc i)
  obtain v vs' where vs: "vs = v # vs'" using Suc.prems(3) by (cases vs) auto
  obtain m' where r: "rep db m v m'" "rep_list db m' vs' n"
    using Suc.prems(1) vs by (auto elim: rep_listE)
  obtain e1 e2 where e: "decode_one db m ed = Some (MMDB_SUCCESS, e1)"
    "skip_map_or_array db e1 = Some (MMDB_SUCCESS, e2)" "offset_to_next e2 = m'"
    using rep_skip [OF ok r(1)] by blast
  show ?case using Suc.IH [OF r(2) e(3)] Suc.prems(2,3) vs e by (simp add: checked_def)
qed

lemma array_index_less:
  assumes "array_index w p sz = Inr i"
  shows "i < unat sz"
proof -
  obtain v rest er where "strtol w p = (v, rest, er)" by (metis prod_cases3)
  with assms obtain j where "i = nat j" "0 \<le> j" "j < int (unat sz)"
    by (auto simp: array_index_def Let_def simp del: of_nat_unat split: if_splits)
  then show ?thesis by (simp only: nat_less_iff)
qed

lemma of_nat_unat_u32: "of_nat (unat (x :: u32)) = x"
  by simp

lemma aget_loop_rep:
  assumes ok: "db_ok db" and "shows_val db ed v"
  shows "\<exists>st e. aget_loop mach db path ed = Some (st, e) \<and>
    (case tree_get (long64 mach) v path of
       Inl err \<Rightarrow> st = err \<and> e = zero_entry
     | Inr w \<Rightarrow> st = MMDB_SUCCESS \<and> shows_val db e w)"
  using assms(2)
proof (induction path arbitrary: ed v)
  case (Cons p path)
  show ?case
  proof (cases v)
    case (MArray vs)
    then have sv: "e_type ed = MMDB_DATA_TYPE_ARRAY" "unat (data_size ed) = length vs"
      and ds: "data_size ed = of_nat (length vs)"
      using Cons.prems of_nat_unat_u32 [of "data_size ed"] by (auto simp: shows_val_def)
    show ?thesis
    proof (cases "array_index (long64 mach) p (data_size ed)")
      case (Inl err)
      then have "err \<noteq> MMDB_SUCCESS" by (auto simp: array_index_def Let_def split: prod.splits if_splits)
      then show ?thesis using Inl sv ds MArray by (simp add: lookup_path_in_array_def)
    next
      case (Inr i)
      then have "i < length vs" using array_index_less sv by metis
      then obtain e o' n' where seek: "array_seek db i ed = Some (MMDB_SUCCESS, e)" "offset_to_next e = o'"
        "rep db o' (vs ! i) n'"
        using array_seek_rep [OF ok] Cons.prems MArray by (fastforce simp: shows_val_def)
      obtain e' where "decode_one_follow db o' (uninit mach) = Some (MMDB_SUCCESS, e')" "shows_val db e' (vs ! i)"
        using rep_follow [OF seek(3), of "uninit mach"] by blast
      then show ?thesis using Inr sv ds MArray seek Cons.IH [of e' "vs ! i"]
        by (simp add: lookup_path_in_array_def checked_def)
    qed
  next
    case (MMap kvs)
    then obtain n where sv: "e_type ed = MMDB_DATA_TYPE_MAP" "unat (data_size ed) = length kvs"
      "rep_map db (offset_to_next ed) kvs n"
      using Cons.prems by (auto simp: shows_val_def)
    obtain st e where lk: "lookup_path_in_map mach p db ed = Some (st, e)"
      "case map_of kvs p of None \<Rightarrow> st = MMDB_LOOKUP_PATH_DOES_NOT_MATCH_DATA_ERROR
       | Some v \<Rightarrow> st = MMDB_SUCCESS \<and> shows_val db e v"
      using lookup_map_loop_rep [OF ok sv(3), of mach p ed] sv(2) by (auto simp: lookup_path_in_map_def)
    then show ?thesis using MMap sv Cons.IH [of e] by (auto split: option.splits)
  qed (use Cons.prems in \<open>auto simp: shows_val_def\<close>)
qed simp

lemma aget_value_rep:
  assumes "db_ok db" and "rep db off v n"
  shows "\<exists>st e. MMDB_aget_value mach db off path = Some (st, e) \<and>
    (case tree_get (long64 mach) v path of
       Inl err \<Rightarrow> st = err \<and> e = zero_entry
     | Inr w \<Rightarrow> st = MMDB_SUCCESS \<and> shows_val db e w)"
proof -
  obtain e where "decode_one_follow db off zero_entry = Some (MMDB_SUCCESS, e)" "shows_val db e v"
    using rep_follow [OF assms(2), of zero_entry] by blast
  then show ?thesis
    using aget_loop_rep [OF assms(1), of e v mach path]
    by (simp add: MMDB_aget_value_def checked_def shows_val_def)
qed

end
