(* ===== verification/MmdbFormat.thy ===== *)
theory MmdbFormat
  imports MmdbRep
begin

text \<open>
  The encoding of values that the MaxMind DB format prescribes, and the proof that the
  library reads it back: an encoded tree of strings, numbers, booleans, arrays and maps is
  represented by its bytes, so a lookup by path returns the encoded value.
\<close>

section \<open>The encoding\<close>

text \<open>
  A control byte has the type in its upper three bits and the size in its lower five; types
  above seven follow in a byte of their own, and sizes from 29 on in one, two or three bytes.
\<close>

definition low_bits :: "nat \<Rightarrow> nat" where
  "low_bits n = (if n < 29 then n else if n < 285 then 29 else if n < 65821 then 30 else 31)"

definition size_bytes :: "nat \<Rightarrow> bytes" where
  "size_bytes n =
    (if n < 29 then []
     else if n < 285 then [of_nat (n - 29)]
     else if n < 65821 then [of_nat ((n - 285) div 256), of_nat ((n - 285) mod 256)]
     else [of_nat ((n - 65821) div 65536), of_nat ((n - 65821) div 256 mod 256),
           of_nat ((n - 65821) mod 256)])"

definition header :: "nat \<Rightarrow> nat \<Rightarrow> bytes" where
  "header ty n =
    (if ty \<le> 7 then [of_nat (32 * ty + low_bits n)] else [of_nat (low_bits n), of_nat (ty - 7)])
      @ size_bytes n"

definition max_size :: nat where
  "max_size = 65821 + 2 ^ 24"

section \<open>Bytes in the section\<close>

definition bytes_at :: "MMDB_s \<Rightarrow> u32 \<Rightarrow> bytes \<Rightarrow> bool" where
  "bytes_at db off bs \<longleftrightarrow> unat off + length bs \<le> sect db \<and>
    (\<forall>i < length bs. file_content db ! (data_section db + unat off + i) = bs ! i)"

lemma unat_off_nat:
  fixes off :: u32
  assumes "unat off + n \<le> sect db"
  shows "unat (off + of_nat n) = unat off + n"
  using assms unat_u32 [of "data_section_size db"]
  by (subst unat_add_u32) (simp_all add: unat_of_nat_u32)

lemma bytes_at_append:
  "bytes_at db off (xs @ ys) \<longleftrightarrow> bytes_at db off xs \<and> bytes_at db (off + of_nat (length xs)) ys"
proof (cases "unat off + length xs \<le> sect db")
  case True
  note o = unat_off_nat [OF True]
  have "(\<forall>i < length xs + length ys. file_content db ! (data_section db + unat off + i) = (xs @ ys) ! i) \<longleftrightarrow>
    (\<forall>i < length xs. file_content db ! (data_section db + unat off + i) = xs ! i) \<and>
    (\<forall>i < length ys. file_content db ! (data_section db + unat off + length xs + i) = ys ! i)"
    (is "?L \<longleftrightarrow> ?A \<and> ?B")
  proof
    assume L: ?L
    have ?A using L by (auto simp: nth_append)
    moreover have ?B
    proof (intro allI impI)
      fix i assume "i < length ys"
      then show "file_content db ! (data_section db + unat off + length xs + i) = ys ! i"
        using L [rule_format, of "length xs + i"] by (simp add: nth_append add.assoc)
    qed
    ultimately show "?A \<and> ?B" ..
  next
    assume AB: "?A \<and> ?B"
    show ?L
    proof (intro allI impI)
      fix i assume "i < length xs + length ys"
      then show "file_content db ! (data_section db + unat off + i) = (xs @ ys) ! i"
        using AB [THEN conjunct2, rule_format, of "i - length xs"] AB
        by (cases "i < length xs") (auto simp: nth_append add.assoc)
    qed
  qed
  then show ?thesis using o by (auto simp: bytes_at_def add.assoc)
next
  case False
  then show ?thesis by (auto simp: bytes_at_def)
qed

lemma peek_at:
  assumes "db_ok db" "bytes_at db off bs" "i < length bs"
  shows "peek db (off + of_nat i) = Some (bs ! i)"
proof -
  have "unat (off + of_nat i) = unat off + i"
    using assms unat_off_nat [of off i db] by (simp add: bytes_at_def)
  then show ?thesis using assms by (simp add: peek_in bytes_at_def add.assoc)
qed

lemma peek_bytes_at:
  assumes "db_ok db" "bytes_at db off bs"
  shows "peek_bytes db off (length bs) = Some bs"
  using assms
  by (auto simp: peek_bytes_def bytes_at_def db_ok_def nth_subl intro!: nth_equalityI)

section \<open>Headers\<close>

lemma ctrl_byte:
  assumes "t < 8" "l < 32"
  shows "unat (drop_bit 5 (of_nat (32 * t + l) :: u8) AND 7) = t"
    and "unat (of_nat (32 * t + l) AND 31 :: u8) = l"
proof -
  have u: "unat (of_nat (32 * t + l) :: u8) = 32 * t + l"
    by (subst unat_of_nat) (use assms in simp)
  have m3: "unat (w AND 7 :: u8) = unat w mod 8" for w
    using take_bit_eq_mask [of 3 "unat w"] by (simp add: unsigned_and_eq mask_eq_exp_minus_1 take_bit_nat_def)
  have m5: "unat (w AND 31 :: u8) = unat w mod 32" for w
    using take_bit_eq_mask [of 5 "unat w"] by (simp add: unsigned_and_eq mask_eq_exp_minus_1 take_bit_nat_def)
  have d5: "unat (drop_bit 5 w :: u8) = unat w div 32" for w
    using unat_u8 [of w] by (simp add: unsigned_drop_bit_eq drop_bit_nat_def take_bit_nat_eq_self)
  show "unat (drop_bit 5 (of_nat (32 * t + l) :: u8) AND 7) = t"
    unfolding m3 d5 u using assms by simp
  show "unat (of_nat (32 * t + l) AND 31 :: u8) = l"
    unfolding m5 u using assms by simp
qed

lemma ucast_small: "a < 256 \<Longrightarrow> ucast (of_nat a :: u8) = (of_nat a :: u32)"
  by (simp add: word_unat_eq_iff unat_of_nat)

lemma size_split:
  "285 \<le> n \<Longrightarrow> of_nat n = (285 + (of_nat ((n - 285) div 256) * 256 + of_nat ((n - 285) mod 256)) :: u32)"
  "65821 \<le> n \<Longrightarrow> of_nat n = (65821 + (of_nat ((n - 65821) div 65536) * 65536 +
     of_nat ((n - 65821) div 256 mod 256) * 256 + of_nat ((n - 65821) mod 256)) :: u32)"
proof -
  assume "285 \<le> n"
  then have "n = 285 + ((n - 285) div 256 * 256 + (n - 285) mod 256)" by simp
  then have "(of_nat n :: u32) = of_nat (285 + ((n - 285) div 256 * 256 + (n - 285) mod 256))" by simp
  then show "of_nat n = (285 + (of_nat ((n - 285) div 256) * 256 + of_nat ((n - 285) mod 256)) :: u32)"
    by (simp only: of_nat_add of_nat_mult of_nat_numeral)
next
  assume n: "65821 \<le> n"
  let ?m = "n - 65821"
  have "?m div 65536 * 65536 + ?m div 256 mod 256 * 256 + ?m mod 256 = ?m"
  proof -
    have "?m div 65536 = ?m div 256 div 256" by (simp add: div_mult2_eq [symmetric])
    then show ?thesis using div_mult_mod_eq [of "?m div 256" 256] div_mult_mod_eq [of ?m 256] by linarith
  qed
  then have "(of_nat n :: u32) = of_nat (65821 + (?m div 65536 * 65536 + ?m div 256 mod 256 * 256 + ?m mod 256))"
    using n by simp
  then show "of_nat n = (65821 + (of_nat (?m div 65536) * 65536 +
     of_nat (?m div 256 mod 256) * 256 + of_nat (?m mod 256)) :: u32)"
    by (simp only: of_nat_add of_nat_mult of_nat_numeral)
qed

lemma decode_size_bytes:
  assumes ok: "db_ok db" and at: "bytes_at db off (size_bytes n)" and n: "n < max_size"
    and low: "unat (ctrl AND 31) = low_bits n"
  shows "decode_size db ctrl off = Some (Inr (of_nat n, off + of_nat (length (size_bytes n))))"
proof -
  have c: "(ucast (ctrl AND 31) :: u32) = of_nat (low_bits n)"
    using low by (simp add: word_unat_eq_iff unat_of_nat low_bits_def)
  note pk = peek_at [OF ok at, of 0] peek_at [OF ok at, of 1] peek_at [OF ok at, of 2]
  consider "n < 29" | "29 \<le> n" "n < 285" | "285 \<le> n" "n < 65821" | "65821 \<le> n" by linarith
  then show ?thesis
  proof cases
    case 1
    then have "(of_nat n :: u32) \<noteq> 29" "(of_nat n :: u32) \<noteq> 30" "(of_nat n :: u32) \<noteq> 31"
      by (simp_all add: word_unat_eq_iff unat_of_nat)
    then show ?thesis using 1 c by (simp add: decode_size_def size_bytes_def low_bits_def)
  next
    case 2
    then have "29 + ucast (of_nat (n - 29) :: u8) = (of_nat n :: u32)"
      using ucast_small [of "n - 29"] by (simp only:) (simp add: of_nat_diff)
    then show ?thesis using 2 c pk at
      by (simp add: decode_size_def size_bytes_def low_bits_def beyond_1 [OF ok] bytes_at_def Let_def)
  next
    case 3
    then have b: "(n - 285) div 256 < 256" "(n - 285) mod 256 < 256" by auto
    then show ?thesis using 3 c pk at size_split(1) [OF 3(1)]
      by (simp add: decode_size_def size_bytes_def low_bits_def beyond_2 [OF ok] bytes_at_def Let_def
        get_uint16_def ucast_small)
  next
    case 4
    then have b: "(n - 65821) div 65536 < 256" "(n - 65821) div 256 mod 256 < 256" "(n - 65821) mod 256 < 256"
      using n by (auto simp: max_size_def)
    then show ?thesis using 4 c pk at size_split(2) [OF 4]
      by (simp add: decode_size_def size_bytes_def low_bits_def beyond_3 [OF ok] bytes_at_def Let_def
        get_uint24_def ucast_small)
  qed
qed

lemma decode_header:
  assumes ok: "db_ok db" and at: "bytes_at db off (header ty n)"
    and ty: "2 \<le> ty" "ty \<le> 15" and n: "n < max_size"
  shows "decode_one db off ed = decode_sized db ty (of_nat n) (off + of_nat (length (header ty n)))
    (ed\<lparr>e_offset := off, has_data := True, e_type := ty\<rparr>)"
proof -
  have l: "low_bits n < 32" by (simp add: low_bits_def)
  have in1: "\<not> off > data_section_size db - 1"
    using at by (simp add: beyond_1 [OF ok] bytes_at_def header_def split: if_splits)
  show ?thesis
  proof (cases "ty \<le> 7")
    case True
    let ?c = "of_nat (32 * ty + low_bits n) :: u8"
    have h: "header ty n = [?c] @ size_bytes n" using True by (simp add: header_def)
    have at2: "bytes_at db (off + 1) (size_bytes n)" using at unfolding h bytes_at_append by simp
    have pk: "peek db off = Some ?c" using peek_at [OF ok at, of 0] by (simp add: h)
    have "decode_type db ?c (off + 1) = Some (Inr (ty, off + 1))"
      using ctrl_byte(1) [of ty "low_bits n"] True ty l by (simp add: decode_type_def Let_def)
    moreover have "decode_size db ?c (off + 1) = Some (Inr (of_nat n, off + 1 + of_nat (length (size_bytes n))))"
      using ctrl_byte(2) [of ty "low_bits n"] True l by (intro decode_size_bytes [OF ok at2 n]) simp
    ultimately show ?thesis
      using in1 pk ty True by (simp add: decode_one_def Let_def h add.assoc del: of_nat_add of_nat_mult)
  next
    case False
    let ?c = "of_nat (low_bits n) :: u8"
    have h: "header ty n = [?c, of_nat (ty - 7)] @ size_bytes n" using False by (simp add: header_def)
    have at2: "bytes_at db (off + 2) (size_bytes n)" using at unfolding h bytes_at_append by simp
    have pk: "peek db off = Some ?c" "peek db (off + 1) = Some (of_nat (ty - 7))"
      using peek_at [OF ok at, of 0] peek_at [OF ok at, of 1] by (simp_all add: h)
    have in2: "\<not> off + 1 > data_section_size db - 1"
      using at unat_off_nat [of off 1 db] by (simp add: beyond_1 [OF ok] bytes_at_def h)
    have "unat (of_nat (ty - 7) :: u8) = ty - 7" using ty by (simp add: unat_of_nat)
    then have "decode_type db ?c (off + 1) = Some (Inr (ty, off + 1 + 1))"
      using ctrl_byte(1) [of 0 "low_bits n"] False ty l in2 pk
      by (simp add: decode_type_def Let_def get_ext_type_def)
    moreover have "decode_size db ?c (off + 2) = Some (Inr (of_nat n, off + 2 + of_nat (length (size_bytes n))))"
      using ctrl_byte(2) [of 0 "low_bits n"] l by (intro decode_size_bytes [OF ok at2 n]) simp
    ultimately show ?thesis
      using in1 pk ty False by (simp add: decode_one_def Let_def h add.assoc)
  qed
qed

section \<open>Values\<close>

datatype doc =
  DString bytes
| DUint16 u16
| DUint32 u32
| DBool bool
| DArray "doc list"
| DMap "(bytes \<times> doc) list"

fun enc :: "doc \<Rightarrow> bytes" and enc_list :: "doc list \<Rightarrow> bytes" and enc_map :: "(bytes \<times> doc) list \<Rightarrow> bytes" where
  "enc (DString s) = header MMDB_DATA_TYPE_UTF8_STRING (length s) @ s"
| "enc (DUint16 w) = header MMDB_DATA_TYPE_UINT16 2 @ [byte16 w 1, byte16 w 0]"
| "enc (DUint32 w) = header MMDB_DATA_TYPE_UINT32 4 @ [byte32 w 3, byte32 w 2, byte32 w 1, byte32 w 0]"
| "enc (DBool b) = header MMDB_DATA_TYPE_BOOLEAN (if b then 1 else 0)"
| "enc (DArray ds) = header MMDB_DATA_TYPE_ARRAY (length ds) @ enc_list ds"
| "enc (DMap kvs) = header MMDB_DATA_TYPE_MAP (length kvs) @ enc_map kvs"
| "enc_list [] = []"
| "enc_list (d # ds) = enc d @ enc_list ds"
| "enc_map [] = []"
| "enc_map ((k, d) # kvs) = (header MMDB_DATA_TYPE_UTF8_STRING (length k) @ k) @ enc d @ enc_map kvs"

fun meaning :: "doc \<Rightarrow> mmval" and meaning_map :: "(bytes \<times> doc) list \<Rightarrow> (bytes \<times> mmval) list" where
  "meaning (DString s) = MString s"
| "meaning (DUint16 w) = MScalar MMDB_DATA_TYPE_UINT16 (Uint16 w)"
| "meaning (DUint32 w) = MScalar MMDB_DATA_TYPE_UINT32 (Uint32 w)"
| "meaning (DBool b) = MScalar MMDB_DATA_TYPE_BOOLEAN (Boolean b)"
| "meaning (DArray ds) = MArray (map meaning ds)"
| "meaning (DMap kvs) = MMap (meaning_map kvs)"
| "meaning_map [] = []"
| "meaning_map ((k, d) # kvs) = (k, meaning d) # meaning_map kvs"

fun sizes_ok :: "doc \<Rightarrow> bool" and sizes_ok_map :: "(bytes \<times> doc) list \<Rightarrow> bool" where
  "sizes_ok (DString s) \<longleftrightarrow> length s < max_size"
| "sizes_ok (DArray ds) \<longleftrightarrow> length ds < max_size \<and> list_all sizes_ok ds"
| "sizes_ok (DMap kvs) \<longleftrightarrow> length kvs < max_size \<and> sizes_ok_map kvs"
| "sizes_ok _ \<longleftrightarrow> True"
| "sizes_ok_map [] \<longleftrightarrow> True"
| "sizes_ok_map ((k, d) # kvs) \<longleftrightarrow> length k < max_size \<and> sizes_ok d \<and> sizes_ok_map kvs"

lemma max_size_32: "n < max_size \<Longrightarrow> n < 2 ^ 32"
  by (simp add: max_size_def)

lemma unat_size: "n < max_size \<Longrightarrow> unat (of_nat n :: u32) = n"
  using max_size_32 unat_of_nat_u32 by blast

text \<open>A payload of \<open>n\<close> bytes after a header passes the bounds check.\<close>

lemma payload_in:
  assumes "bytes_at db off bs" "length bs = n" "n < max_size"
  shows "\<not> (off > data_section_size db - of_nat n \<or> data_section_size db < of_nat n)"
proof -
  have "unat off + unat (of_nat n :: u32) \<le> sect db" using assms by (simp add: bytes_at_def unat_size)
  then show ?thesis
    using beyond_iff [of "of_nat n" "data_section_size db" off] by (auto simp: word_less_nat_alt)
qed

lemma decodes_string:
  assumes ok: "db_ok db" and at: "bytes_at db off (header MMDB_DATA_TYPE_UTF8_STRING (length s) @ s)"
    and n: "length s < max_size"
  shows "decodes db off (\<lambda>e. e_type e = MMDB_DATA_TYPE_UTF8_STRING \<and> entry_string db e = Some s \<and>
    offset_to_next e = off + of_nat (length (header MMDB_DATA_TYPE_UTF8_STRING (length s) @ s)))"
proof -
  let ?h = "header MMDB_DATA_TYPE_UTF8_STRING (length s)" let ?o = "off + of_nat (length ?h)"
  have h: "bytes_at db off ?h" "bytes_at db ?o s" using at by (simp_all only: bytes_at_append)
  note pk = peek_bytes_at [OF ok h(2)]
  then have str: "data_section db + unat ?o + length s \<le> length (file_content db)"
    "subl (file_content db) (data_section db + unat ?o) (data_section db + unat ?o + length s) = s"
    by (auto simp: peek_bytes_def split: if_splits)
  have zero: "(of_nat (length s) :: u32) = 0 \<longleftrightarrow> s = []"
    unfolding word_unat_eq_iff [of "of_nat (length s)"] unat_size [OF n] by simp
  show ?thesis
    unfolding decodes_def
  proof
    fix ed
    show "\<exists>ed'. decode_one db off ed = Some (MMDB_SUCCESS, ed') \<and> has_data ed' \<and>
      e_type ed' = MMDB_DATA_TYPE_UTF8_STRING \<and> entry_string db ed' = Some s \<and>
      offset_to_next ed' = off + of_nat (length (?h @ s))"
      using decode_header [OF ok h(1) _ _ n, of ed] payload_in [OF h(2) refl n] str zero unat_size [OF n]
      by (auto simp: decode_sized_def decode_scalar_def Let_def entry_string_def add.assoc)
  qed
qed

definition number :: "bytes \<Rightarrow> nat" where
  "number bs = foldl (\<lambda>v b. 256 * v + unat b) 0 bs"

lemma get_uintX_fold:
  assumes "unat v < 256 ^ k" and "k + length bs \<le> 8"
  shows "unat (get_uintX bs v) = foldl (\<lambda>v b. 256 * v + unat b) (unat v) bs"
  using assms
proof (induction bs arbitrary: v k)
  case (Cons b bs)
  have "(256 :: nat) ^ Suc k \<le> 256 ^ 8" using Cons.prems(2) by (intro power_increasing) auto
  then have le: "256 * unat v + unat b < 256 ^ Suc k" "(256 :: nat) ^ Suc k \<le> 2 ^ 64"
    using Cons.prems(1) unat_u8 [of b] by auto
  have ub: "unat (ucast b :: u64) = unat b"
    using unat_u8 [of b] by (simp add: unsigned_ucast_eq take_bit_nat_eq_self)
  have "unat (push_bit 8 v) = 256 * unat v"
    using le by (simp add: unsigned_push_bit_eq push_bit_nat_def take_bit_nat_eq_self)
  then have step: "unat (push_bit 8 v + ucast b) = 256 * unat v + unat b"
    using le by (subst unat_add_u64) (auto simp: ub)
  show ?case
    using Cons.IH [of "push_bit 8 v + ucast b" "Suc k"] Cons.prems(2) le step by simp
qed simp

lemma unat_byte16: "unat (byte16 w k) = unat w div 2 ^ (8 * k) mod 256"
  using unat_u16 [of w]
  by (simp add: byte16_def unsigned_ucast_eq unsigned_drop_bit_eq take_bit_nat_def drop_bit_nat_def)

lemma unat_byte32: "unat (byte32 w k) = unat w div 2 ^ (8 * k) mod 256"
  using unat_u32 [of w]
  by (simp add: byte32_def unsigned_ucast_eq unsigned_drop_bit_eq take_bit_nat_def drop_bit_nat_def)

lemma get_uintX_16: "ucast (get_uintX [byte16 w 1, byte16 w 0] 0) = (w :: u16)"
proof -
  have "unat (get_uintX [byte16 w 1, byte16 w 0] 0) = unat w div 256 mod 256 * 256 + unat w mod 256"
    using get_uintX_fold [of 0 0 "[byte16 w 1, byte16 w 0]"]
    by (simp add: unat_byte16)
  also have "\<dots> = unat w" using unat_u16 [of w] div_mult_mod_eq [of "unat w" 256] by simp
  finally show ?thesis
    using unat_u16 [of w] by (simp add: word_unat_eq_iff unsigned_ucast_eq take_bit_nat_eq_self)
qed

lemma get_uintX_32:
  "ucast (get_uintX [byte32 w 3, byte32 w 2, byte32 w 1, byte32 w 0] 0) = (w :: u32)"
proof -
  let ?n = "unat w"
  have "unat (get_uintX [byte32 w 3, byte32 w 2, byte32 w 1, byte32 w 0] 0) =
      ((?n div 16777216 mod 256 * 256 + ?n div 65536 mod 256) * 256 + ?n div 256 mod 256) * 256 + ?n mod 256"
    using get_uintX_fold [of 0 0 "[byte32 w 3, byte32 w 2, byte32 w 1, byte32 w 0]"]
    by (simp add: unat_byte32 algebra_simps)
  also have "\<dots> = ?n"
  proof -
    have top: "?n div 16777216 mod 256 = ?n div 65536 div 256"
      using unat_u32 [of w] by (simp add: div_mult2_eq [symmetric])
    have two: "?n div 65536 = ?n div 256 div 256" by (simp add: div_mult2_eq [symmetric])
    have a: "?n div 16777216 mod 256 * 256 + ?n div 65536 mod 256 = ?n div 256 div 256"
      unfolding top two [symmetric] by (rule div_mult_mod_eq)
    have b: "?n div 256 div 256 * 256 + ?n div 256 mod 256 = ?n div 256" by (rule div_mult_mod_eq)
    have c: "?n div 256 * 256 + ?n mod 256 = ?n" by (rule div_mult_mod_eq)
    show ?thesis unfolding a b c ..
  qed
  finally show ?thesis
    using unat_u32 [of w] by (simp add: word_unat_eq_iff unsigned_ucast_eq take_bit_nat_eq_self)
qed

lemma decodes_number:
  assumes ok: "db_ok db" and len: "length bs = n" and at: "bytes_at db off (header ty n @ bs)"
    and ty: "ty = MMDB_DATA_TYPE_UINT16 \<and> n = 2 \<or> ty = MMDB_DATA_TYPE_UINT32 \<and> n = 4"
  shows "decodes db off (\<lambda>e. e_type e = ty \<and>
    value_of e = (if ty = MMDB_DATA_TYPE_UINT16 then Uint16 (ucast (get_uintX bs 0)) else Uint32 (ucast (get_uintX bs 0))) \<and>
    offset_to_next e = off + of_nat (length (header ty n @ bs)))"
proof -
  let ?h = "header ty n" let ?o = "off + of_nat (length ?h)"
  have h: "bytes_at db off ?h" "bytes_at db ?o bs" using at by (simp_all only: bytes_at_append)
  have n: "n < max_size" using ty by (auto simp: max_size_def)
  have pk: "peek_bytes db ?o (length bs) = Some bs" by (rule peek_bytes_at [OF ok h(2)])
  have lo: "2 \<le> ty" "ty \<le> 15" using ty by auto
  show ?thesis
    unfolding decodes_def
  proof
    fix ed
    show "\<exists>ed'. decode_one db off ed = Some (MMDB_SUCCESS, ed') \<and> has_data ed' \<and> e_type ed' = ty \<and>
      value_of ed' = (if ty = MMDB_DATA_TYPE_UINT16 then Uint16 (ucast (get_uintX bs 0)) else Uint32 (ucast (get_uintX bs 0))) \<and>
      offset_to_next ed' = off + of_nat (length (?h @ bs))"
      using decode_header [OF ok h(1) lo n, of ed] payload_in [OF h(2) len n] pk unat_size [OF n] ty len
      by (auto simp: decode_sized_def decode_scalar_def Let_def add.assoc)
  qed
qed

lemma decodes_bool:
  assumes ok: "db_ok db" and at: "bytes_at db off (header MMDB_DATA_TYPE_BOOLEAN (if b then 1 else 0))"
  shows "decodes db off (\<lambda>e. e_type e = MMDB_DATA_TYPE_BOOLEAN \<and> value_of e = Boolean b \<and>
    offset_to_next e = off + of_nat (length (header MMDB_DATA_TYPE_BOOLEAN (if b then 1 else 0))))"
  using decode_header [OF ok at]
  by (auto simp: decodes_def decode_sized_def max_size_def)

lemma decodes_container:
  assumes ok: "db_ok db" and at: "bytes_at db off (header ty n)" and n: "n < max_size"
    and ty: "ty = MMDB_DATA_TYPE_MAP \<or> ty = MMDB_DATA_TYPE_ARRAY"
  shows "decodes db off (\<lambda>e. e_type e = ty \<and> unat (data_size e) = n \<and>
    offset_to_next e = off + of_nat (length (header ty n)))"
  using decode_header [OF ok at _ _ n] ty unat_size [OF n]
  by (auto simp: decodes_def decode_sized_def)

lemma enc_rep:
  assumes ok: "db_ok db"
  shows "bytes_at db off (enc d) \<Longrightarrow> sizes_ok d \<Longrightarrow>
      rep0 db off (meaning d) (off + of_nat (length (enc d)))"
    and "bytes_at db off (enc_list ds) \<Longrightarrow> list_all sizes_ok ds \<Longrightarrow>
      rep_list db off (map meaning ds) (off + of_nat (length (enc_list ds)))"
    and "bytes_at db off (enc_map kvs) \<Longrightarrow> sizes_ok_map kvs \<Longrightarrow>
      rep_map db off (meaning_map kvs) (off + of_nat (length (enc_map kvs)))"
proof (induction d and ds and kvs arbitrary: off and off and off rule: enc_enc_list_enc_map.induct)
  case (1 s)
  then show ?case using decodes_string [OF ok] by (auto intro!: rep0_rep_rep_list_rep_map.string)
next
  case (2 w)
  then show ?case
    using decodes_number [OF ok, of "[byte16 w 1, byte16 w 0]" 2 off MMDB_DATA_TYPE_UINT16] get_uintX_16 [of w]
    by (auto intro!: rep0_rep_rep_list_rep_map.scalar)
next
  case (3 w)
  then show ?case
    using decodes_number [OF ok, of "[byte32 w 3, byte32 w 2, byte32 w 1, byte32 w 0]" 4 off MMDB_DATA_TYPE_UINT32]
      get_uintX_32 [of w]
    by (auto intro!: rep0_rep_rep_list_rep_map.scalar)
next
  case (4 b)
  then show ?case
    using decodes_bool [OF ok, of off b] by (auto intro!: rep0_rep_rep_list_rep_map.scalar)
next
  case (5 ds)
  let ?h = "header MMDB_DATA_TYPE_ARRAY (length ds)"
  have at: "bytes_at db off ?h" "bytes_at db (off + of_nat (length ?h)) (enc_list ds)"
    using 5(2) by (simp_all only: enc.simps bytes_at_append)
  have "decodes db off (\<lambda>e. e_type e = MMDB_DATA_TYPE_ARRAY \<and> unat (data_size e) = length (map meaning ds) \<and>
      offset_to_next e = off + of_nat (length ?h))"
    using decodes_container [OF ok at(1)] 5(3) by simp
  moreover have "rep_list db (off + of_nat (length ?h)) (map meaning ds)
      (off + of_nat (length ?h) + of_nat (length (enc_list ds)))"
    using 5(1) at(2) 5(3) by simp
  ultimately show ?case
    by (auto simp: add.assoc intro: rep0_rep_rep_list_rep_map.array)
next
  case (6 kvs)
  let ?h = "header MMDB_DATA_TYPE_MAP (length kvs)"
  have at: "bytes_at db off ?h" "bytes_at db (off + of_nat (length ?h)) (enc_map kvs)"
    using 6(2) by (simp_all only: enc.simps bytes_at_append)
  have len: "length (meaning_map kvs) = length kvs" by (induction kvs) auto
  have "decodes db off (\<lambda>e. e_type e = MMDB_DATA_TYPE_MAP \<and> unat (data_size e) = length (meaning_map kvs) \<and>
      offset_to_next e = off + of_nat (length ?h))"
    using decodes_container [OF ok at(1)] 6(3) len by simp
  moreover have "rep_map db (off + of_nat (length ?h)) (meaning_map kvs)
      (off + of_nat (length ?h) + of_nat (length (enc_map kvs)))"
    using 6(1) at(2) 6(3) by simp
  ultimately show ?case
    by (auto simp: add.assoc intro: rep0_rep_rep_list_rep_map.map)
next
  case 7
  then show ?case by (auto intro: rep0_rep_rep_list_rep_map.nil)
next
  case (8 d ds)
  then have "rep0 db off (meaning d) (off + of_nat (length (enc d)))"
    "rep_list db (off + of_nat (length (enc d))) (map meaning ds)
      (off + of_nat (length (enc d)) + of_nat (length (enc_list ds)))"
    by (simp_all add: bytes_at_append)
  then show ?case by (auto simp: add.assoc intro: rep0_rep_rep_list_rep_map.intros)
next
  case 9
  then show ?case by (auto intro: rep0_rep_rep_list_rep_map.nil_map)
next
  case (10 k d kvs)
  let ?k = "header MMDB_DATA_TYPE_UTF8_STRING (length k) @ k"
  have at: "bytes_at db off ?k" "bytes_at db (off + of_nat (length ?k)) (enc d)"
    "bytes_at db (off + of_nat (length ?k) + of_nat (length (enc d))) (enc_map kvs)"
    using 10(3) unfolding enc_map.simps bytes_at_append [of db _ ?k] bytes_at_append [of db _ "enc d"] by simp_all
  have "rep0 db off (MString k) (off + of_nat (length ?k))"
    using decodes_string [OF ok at(1)] 10(4) by (auto intro!: rep0_rep_rep_list_rep_map.string)
  moreover have "rep0 db (off + of_nat (length ?k)) (meaning d) (off + of_nat (length ?k) + of_nat (length (enc d)))"
    using 10(1) [OF at(2)] 10(4) by simp
  moreover have "rep_map db (off + of_nat (length ?k) + of_nat (length (enc d))) (meaning_map kvs)
      (off + of_nat (length ?k) + of_nat (length (enc d)) + of_nat (length (enc_map kvs)))"
    using 10(2) [OF at(3)] 10(4) by simp
  ultimately have "rep_map db off ((k, meaning d) # meaning_map kvs)
      (off + of_nat (length ?k) + of_nat (length (enc d)) + of_nat (length (enc_map kvs)))"
    by (intro rep0_rep_rep_list_rep_map.cons_map [OF rep0_rep_rep_list_rep_map.direct rep0_rep_rep_list_rep_map.direct])
  then show ?case by (simp add: add.assoc)
qed

section \<open>The properties of lookup by path\<close>

text \<open>
  C32: when the bytes at an offset represent a tree of maps, arrays, strings and scalars
  (pointers resolved), \<open>MMDB_aget_value\<close> computes the lookup of the path in that tree: it
  returns the entry of the value at the path, or the error for a path that does not exist and
  a cleared entry.
\<close>

theorem MMDB_aget_value_refines:
  assumes "db_ok db" and "rep db off v n"
  shows "\<exists>st e. MMDB_aget_value mach db off path = Some (st, e) \<and>
    (case tree_get (long64 mach) v path of
       Inl err \<Rightarrow> st = err \<and> e = zero_entry
     | Inr w \<Rightarrow> st = MMDB_SUCCESS \<and> shows_val db e w)"
  by (rule aget_value_rep [OF assms])

text \<open>
  A document encoded as the format prescribes is read back: looking up a path in the
  bytes gives the entry of the document's value at that path, or the error that the path
  does not exist, for documents of every size class and nesting.
\<close>

theorem encoded_lookup:
  assumes "db_ok db" and "bytes_at db off (enc d)" and "sizes_ok d"
  shows "\<exists>st e. MMDB_aget_value mach db off path = Some (st, e) \<and>
    (case tree_get (long64 mach) (meaning d) path of
       Inl err \<Rightarrow> st = err \<and> e = zero_entry
     | Inr w \<Rightarrow> st = MMDB_SUCCESS \<and> shows_val db e w)"
  using aget_value_rep [OF assms(1) rep0_rep_rep_list_rep_map.direct [OF enc_rep(1) [OF assms]]] .

subsection \<open>Instances\<close>

definition sample_doc :: doc where
  "sample_doc = DMap [([99], DMap [([105], DString [68, 69])]), ([110], DArray [DUint16 7, DBool True])]"

definition sample_db :: MMDB_s where
  "sample_db = blank_db (enc sample_doc)"

lemma length_sample: "length (enc sample_doc) = 18"
  by (simp add: sample_doc_def header_def size_bytes_def low_bits_def)

lemma sample_ok: "db_ok sample_db" "bytes_at sample_db 0 (enc sample_doc)" "sizes_ok sample_doc"
  by (simp_all add: db_ok_def bytes_at_def sample_db_def blank_db_def length_sample)
    (simp add: sample_doc_def max_size_def)

theorem encoded_lookup_witness:
  "\<exists>e. MMDB_aget_value windows sample_db 0 [[99], [105]] = Some (MMDB_SUCCESS, e) \<and>
    entry_string sample_db e = Some [68, 69]"
  using encoded_lookup [OF sample_ok, of windows "[[99], [105]]"]
  by (auto simp: sample_doc_def shows_val_def)

theorem MMDB_aget_value_refines_witness:
  "\<exists>e. MMDB_aget_value windows sample_db 0 [[99], [106]] =
    Some (MMDB_LOOKUP_PATH_DOES_NOT_MATCH_DATA_ERROR, e)"
  using MMDB_aget_value_refines
    [OF sample_ok(1) rep0_rep_rep_list_rep_map.direct [OF enc_rep(1) [OF sample_ok]], of windows "[[99], [106]]"]
  by (auto simp: sample_doc_def)

end
