(* ===== verification/DataPool.thy ===== *)
theory DataPool
  imports Mmdb
begin

text \<open>
  The memory pool behind entry lists (\<open>src/maxminddb/data-pool.c\<close>): blocks of cells that
  double in size, handed out one cell at a time and finally linked into one list.

  A cell is named by its block and its position in it. \<open>size_t\<close> has 64 bits. \<open>calloc\<close> is a
  parameter that says which requests succeed; a pool never makes the same request twice. A
  block that is \<open>NULL\<close> has no cells. The back pointer \<open>pool\<close> of the first cell of a block is only
  read to free the pool and is left out.
\<close>

section \<open>The pool\<close>

type_synonym cell_ref = "nat \<times> nat"

record MMDB_entry_data_list_s =
  entry_data :: MMDB_entry_data_s
  next_cell :: "cell_ref option"

record MMDB_data_pool_s =
  pool_index :: nat
  pool_size :: u64
  pool_used :: u64
  sizes :: "u64 list"
  blocks :: "MMDB_entry_data_list_s list list"

definition DATA_POOL_NUM_BLOCKS :: nat where
  "DATA_POOL_NUM_BLOCKS = 32"

definition SIZE_MAX :: u64 where
  "SIZE_MAX = - 1"

text \<open>The sizes of the two structures on the 64-bit targets.\<close>

definition sizeof_cell :: u64 where
  "sizeof_cell = 56"

definition sizeof_pool :: u64 where
  "sizeof_pool = 544"

definition can_multiply :: "u64 \<Rightarrow> u64 \<Rightarrow> u64 \<Rightarrow> bool" where
  "can_multiply mx m n = (if m = 0 then False else n \<le> mx div m)"

definition zero_cell :: MMDB_entry_data_list_s where
  "zero_cell = \<lparr>entry_data = zero_entry, next_cell = None\<rparr>"

definition data_pool_new :: "(u64 \<Rightarrow> u64 \<Rightarrow> bool) \<Rightarrow> u64 \<Rightarrow> MMDB_data_pool_s option" where
  "data_pool_new calloc sz =
    (if \<not> calloc 1 sizeof_pool then None
     else if sz = 0 \<or> \<not> can_multiply SIZE_MAX sz sizeof_cell then None
     else if \<not> calloc sz sizeof_cell then None
     else Some \<lparr>pool_index = 0, pool_size = sz, pool_used = 0,
       sizes = (replicate DATA_POOL_NUM_BLOCKS 0)[0 := sz],
       blocks = (replicate DATA_POOL_NUM_BLOCKS [])[0 := replicate (unat sz) zero_cell]\<rparr>)"

definition data_pool_alloc ::
  "(u64 \<Rightarrow> u64 \<Rightarrow> bool) \<Rightarrow> MMDB_data_pool_s \<Rightarrow> MMDB_data_pool_s \<times> cell_ref option" where
  "data_pool_alloc calloc pool =
    (if pool_used pool < pool_size pool then
       (pool\<lparr>pool_used := pool_used pool + 1\<rparr>, Some (pool_index pool, unat (pool_used pool)))
     else
       let new_index = pool_index pool + 1 in
       if new_index = DATA_POOL_NUM_BLOCKS then (pool, None)
       else if \<not> can_multiply SIZE_MAX (pool_size pool) 2 then (pool, None)
       else
         let new_size = pool_size pool * 2 in
         if \<not> can_multiply SIZE_MAX new_size sizeof_cell then (pool, None)
         else if \<not> calloc new_size sizeof_cell then (pool, None)
         else
           (pool\<lparr>pool_index := new_index, pool_size := new_size, pool_used := 1,
                 sizes := (sizes pool)[new_index := new_size],
                 blocks := (blocks pool)[new_index := replicate (unat new_size) zero_cell]\<rparr>,
            Some (new_index, 0)))"

text \<open>
  \<open>data_pool_to_list\<close>: the loop over the cells of a block, the link to the next block, and
  the loop over the blocks.
\<close>

fun link_cells ::
  "nat \<Rightarrow> nat \<Rightarrow> nat \<Rightarrow> MMDB_entry_data_list_s list \<Rightarrow> MMDB_entry_data_list_s list option" where
  "link_cells i j 0 block = Some block"
| "link_cells i j (Suc n) block =
    do { cur \<leftarrow> load block j;
         block \<leftarrow> store block j (cur\<lparr>next_cell := Some (i, j + 1)\<rparr>);
         link_cells i (j + 1) n block }"

definition link_block :: "MMDB_data_pool_s \<Rightarrow> nat \<Rightarrow> MMDB_data_pool_s option" where
  "link_block pool i =
    do {
      let block = blocks pool ! i;
      let sz = (if i = pool_index pool then pool_used pool else sizes pool ! i);
      block \<leftarrow> link_cells i 0 (unat (sz - 1)) block;
      block \<leftarrow> (if i < pool_index pool then do {
                  last \<leftarrow> load block (unat (sz - 1));
                  store block (unat (sz - 1)) (last\<lparr>next_cell := Some (i + 1, 0)\<rparr>) }
                else Some block);
      Some (pool\<lparr>blocks := (blocks pool)[i := block]\<rparr>)
    }"

fun link_blocks :: "MMDB_data_pool_s \<Rightarrow> nat \<Rightarrow> nat \<Rightarrow> MMDB_data_pool_s option" where
  "link_blocks pool i 0 = Some pool"
| "link_blocks pool i (Suc n) = do { pool \<leftarrow> link_block pool i; link_blocks pool (i + 1) n }"

definition data_pool_to_list ::
  "MMDB_data_pool_s \<Rightarrow> (MMDB_data_pool_s \<times> cell_ref option) option" where
  "data_pool_to_list pool =
    (if pool_index pool = 0 \<and> pool_used pool = 0 then Some (pool, None)
     else do { pool' \<leftarrow> link_blocks pool 0 (pool_index pool + 1); Some (pool', Some (0, 0)) })"

text \<open>Reading and writing a cell through its pointer.\<close>

definition get_cell :: "MMDB_data_pool_s \<Rightarrow> cell_ref \<Rightarrow> MMDB_entry_data_list_s option" where
  "get_cell pool r = do { block \<leftarrow> load (blocks pool) (fst r); load block (snd r) }"

definition set_entry :: "MMDB_data_pool_s \<Rightarrow> cell_ref \<Rightarrow> MMDB_entry_data_s \<Rightarrow> MMDB_data_pool_s option" where
  "set_entry pool r ed =
    do { block \<leftarrow> load (blocks pool) (fst r);
         c \<leftarrow> load block (snd r);
         block \<leftarrow> store block (snd r) (c\<lparr>entry_data := ed\<rparr>);
         bs \<leftarrow> store (blocks pool) (fst r) block;
         Some (pool\<lparr>blocks := bs\<rparr>) }"

section \<open>The pool invariant\<close>

lemma can_multiply_iff: "can_multiply mx m n \<longleftrightarrow> 0 < unat m \<and> unat m * unat n \<le> unat mx"
proof (cases "m = 0")
  case False
  then have pos: "0 < unat m" by (simp add: unat_gt_0)
  have "n \<le> mx div m \<longleftrightarrow> unat n \<le> unat mx div unat m"
    by (simp add: word_le_nat_alt unat_div)
  also have "\<dots> \<longleftrightarrow> unat m * unat n \<le> unat mx"
    using pos by (simp add: less_eq_div_iff_mult_less_eq mult.commute)
  finally show ?thesis using False pos by (simp add: can_multiply_def)
qed (simp add: can_multiply_def)

definition pool_ok :: "MMDB_data_pool_s \<Rightarrow> bool" where
  "pool_ok pool \<longleftrightarrow>
    pool_index pool < DATA_POOL_NUM_BLOCKS \<and>
    length (sizes pool) = DATA_POOL_NUM_BLOCKS \<and> length (blocks pool) = DATA_POOL_NUM_BLOCKS \<and>
    pool_size pool = sizes pool ! pool_index pool \<and>
    unat (pool_used pool) \<le> unat (pool_size pool) \<and>
    (0 < pool_index pool \<longrightarrow> 0 < unat (pool_used pool)) \<and>
    (\<forall>i \<le> pool_index pool. length (blocks pool ! i) = unat (sizes pool ! i) \<and>
       unat (sizes pool ! 0) * 2 ^ i = unat (sizes pool ! i) \<and> 0 < unat (sizes pool ! i))"

text \<open>The cells handed out, in order.\<close>

definition block_refs :: "nat \<Rightarrow> nat \<Rightarrow> cell_ref list" where
  "block_refs i n = map (Pair i) [0..<n]"

definition pool_refs :: "MMDB_data_pool_s \<Rightarrow> cell_ref list" where
  "pool_refs pool =
    concat (map (\<lambda>i. block_refs i (unat (sizes pool ! i))) [0..<pool_index pool]) @
    block_refs (pool_index pool) (unat (pool_used pool))"

lemma block_refs_Suc: "block_refs i (Suc n) = block_refs i n @ [(i, n)]"
  by (simp add: block_refs_def)

lemma set_block_refs: "set (block_refs i n) = {(i, j) | j. j < n}"
  by (auto simp: block_refs_def)

lemma set_pool_refs:
  "set (pool_refs pool) = {(i, j). i < pool_index pool \<and> j < unat (sizes pool ! i) \<or>
     i = pool_index pool \<and> j < unat (pool_used pool)}"
  by (auto simp: pool_refs_def set_block_refs)

lemma distinct_pool_refs: "distinct (pool_refs pool)"
proof -
  have "distinct (concat (map (\<lambda>i. block_refs i (f i)) [0..<n]))" for f n
    by (induction n) (auto simp: set_block_refs block_refs_def distinct_map inj_on_def)
  then show ?thesis
    by (auto simp: pool_refs_def set_block_refs) (auto simp: block_refs_def distinct_map inj_on_def)
qed

lemma pool_okD:
  assumes "pool_ok pool"
  shows "pool_index pool < length (blocks pool)" "length (blocks pool) = DATA_POOL_NUM_BLOCKS"
    "length (sizes pool) = DATA_POOL_NUM_BLOCKS" "pool_index pool < DATA_POOL_NUM_BLOCKS"
    "pool_size pool = sizes pool ! pool_index pool" "unat (pool_used pool) \<le> unat (pool_size pool)"
    "0 < pool_index pool \<Longrightarrow> 0 < unat (pool_used pool)"
    "i \<le> pool_index pool \<Longrightarrow> length (blocks pool ! i) = unat (sizes pool ! i)"
    "i \<le> pool_index pool \<Longrightarrow> unat (sizes pool ! 0) * 2 ^ i = unat (sizes pool ! i)"
    "i \<le> pool_index pool \<Longrightarrow> 0 < unat (sizes pool ! i)" "0 < unat (pool_size pool)"
  using assms unfolding pool_ok_def by auto

lemma pool_refs_cell:
  assumes ok: "pool_ok pool" and "r \<in> set (pool_refs pool)"
  shows "\<exists>c. get_cell pool r = Some c"
proof -
  obtain i j where r: "r = (i, j)" "i \<le> pool_index pool" "j < length (blocks pool ! i)"
    using assms(2) pool_okD [OF ok] by (fastforce simp: set_pool_refs)
  then show ?thesis using pool_okD(1) [OF ok] by (simp add: get_cell_def load_def)
qed

lemma num_blocks_pos: "0 < DATA_POOL_NUM_BLOCKS"
  by (simp add: DATA_POOL_NUM_BLOCKS_def)

lemma data_pool_new_ok:
  assumes "data_pool_new calloc sz = Some pool"
  shows "pool_ok pool" "pool_refs pool = []"
  using assms num_blocks_pos
  by (auto simp: data_pool_new_def pool_ok_def pool_refs_def block_refs_def unat_gt_0 split: if_splits)

text \<open>When the pool can grow no further.\<close>

definition exhausted :: "(u64 \<Rightarrow> u64 \<Rightarrow> bool) \<Rightarrow> MMDB_data_pool_s \<Rightarrow> bool" where
  "exhausted calloc pool \<longleftrightarrow> pool_used pool = pool_size pool \<and>
    (pool_index pool = DATA_POOL_NUM_BLOCKS - 1 \<or>
     unat SIZE_MAX < unat (pool_size pool) * 2 * unat sizeof_cell \<or>
     \<not> calloc (pool_size pool * 2) sizeof_cell)"

definition grown :: "MMDB_data_pool_s \<Rightarrow> MMDB_data_pool_s" where
  "grown pool =
    pool\<lparr>pool_index := pool_index pool + 1, pool_size := pool_size pool * 2, pool_used := 1,
         sizes := (sizes pool)[pool_index pool + 1 := pool_size pool * 2],
         blocks := (blocks pool)[pool_index pool + 1 := replicate (unat (pool_size pool * 2)) zero_cell]\<rparr>"

lemma size_small:
  assumes "can_multiply SIZE_MAX m n"
  shows "unat (m * n) = unat m * unat n"
  using assms by (simp add: can_multiply_iff SIZE_MAX_def unat_word_ariths unsigned_minus_1_eq_mask mask_eq_exp_minus_1)

lemma data_pool_alloc_cases:
  assumes "pool_ok pool"
  obtains (room) "unat (pool_used pool) < unat (pool_size pool)"
      "data_pool_alloc calloc pool =
        (pool\<lparr>pool_used := pool_used pool + 1\<rparr>, Some (pool_index pool, unat (pool_used pool)))"
  | (grow) "pool_used pool = pool_size pool" "pool_index pool + 1 < DATA_POOL_NUM_BLOCKS"
      "unat (pool_size pool * 2) = unat (pool_size pool) * 2"
      "data_pool_alloc calloc pool = (grown pool, Some (pool_index pool + 1, 0))"
  | (full) "exhausted calloc pool" "data_pool_alloc calloc pool = (pool, None)"
proof -
  have le: "unat (pool_used pool) \<le> unat (pool_size pool)" and ix: "pool_index pool < DATA_POOL_NUM_BLOCKS"
    and pos: "0 < unat (pool_size pool)"
    using pool_okD [OF assms] by simp_all
  show ?thesis
  proof (cases "pool_used pool < pool_size pool")
    case True
    then show ?thesis using room by (simp add: data_pool_alloc_def word_less_nat_alt)
  next
    case False
    then have eq: "pool_used pool = pool_size pool" using le by (simp add: word_less_nat_alt word_unat_eq_iff)
    let ?go = "pool_index pool + 1 \<noteq> DATA_POOL_NUM_BLOCKS \<and> can_multiply SIZE_MAX (pool_size pool) 2 \<and>
      can_multiply SIZE_MAX (pool_size pool * 2) sizeof_cell \<and> calloc (pool_size pool * 2) sizeof_cell"
    show ?thesis
    proof (cases ?go)
      case True
      then have "data_pool_alloc calloc pool = (grown pool, Some (pool_index pool + 1, 0))"
        using eq by (simp add: data_pool_alloc_def grown_def Let_def)
      moreover have "unat (pool_size pool * 2) = unat (pool_size pool) * 2"
        using True size_small [of "pool_size pool" 2] by simp
      ultimately show ?thesis using grow eq True ix by simp
    next
      case no: False
      then have "data_pool_alloc calloc pool = (pool, None)"
        using eq by (auto simp: data_pool_alloc_def Let_def)
      moreover have "exhausted calloc pool"
      proof (cases "can_multiply SIZE_MAX (pool_size pool) 2")
        case True
        then have "unat (pool_size pool * 2) = unat (pool_size pool) * 2"
          using size_small [of "pool_size pool" 2] by simp
        then show ?thesis using no True eq pos
          by (auto simp: exhausted_def can_multiply_iff)
      next
        case False
        then have "unat SIZE_MAX < unat (pool_size pool) * 2" using pos by (simp add: can_multiply_iff)
        then have "unat SIZE_MAX < unat (pool_size pool) * 2 * unat sizeof_cell"
          by (simp add: sizeof_cell_def)
        then show ?thesis using eq by (simp add: exhausted_def)
      qed
      ultimately show ?thesis using full by blast
    qed
  qed
qed

text \<open>Nothing is linked before \<open>data_pool_to_list\<close>.\<close>

definition unlinked :: "MMDB_data_pool_s \<Rightarrow> bool" where
  "unlinked pool \<longleftrightarrow> (\<forall>i \<le> pool_index pool. \<forall>c \<in> set (blocks pool ! i). next_cell c = None)"

lemma unlinked_new: "data_pool_new calloc sz = Some pool \<Longrightarrow> unlinked pool"
  using num_blocks_pos by (auto simp: data_pool_new_def unlinked_def zero_cell_def split: if_splits)

lemma grown_ok:
  assumes ok: "pool_ok pool" and full: "pool_used pool = pool_size pool"
    and ix: "pool_index pool + 1 < DATA_POOL_NUM_BLOCKS"
    and sz: "unat (pool_size pool * 2) = unat (pool_size pool) * 2"
  shows "pool_ok (grown pool)"
    and "pool_refs (grown pool) = pool_refs pool @ [(pool_index pool + 1, 0)]"
    and "r \<in> set (pool_refs pool) \<Longrightarrow> get_cell (grown pool) r = get_cell pool r"
    and "unlinked pool \<Longrightarrow> unlinked (grown pool)"
proof -
  note d = pool_okD [OF ok]
  have pw: "unat (sizes pool ! 0) * 2 ^ (pool_index pool + 1) = unat (pool_size pool) * 2"
    using d(9) [of "pool_index pool"] d(5) by simp
  show "pool_ok (grown pool)"
    unfolding pool_ok_def using d ix sz pw
    by (auto simp: grown_def nth_list_update le_Suc_eq Suc_le_eq)
  show "pool_refs (grown pool) = pool_refs pool @ [(pool_index pool + 1, 0)]"
    using d(5) full by (auto simp: pool_refs_def grown_def block_refs_def intro!: arg_cong [of _ _ concat])
  show "get_cell (grown pool) r = get_cell pool r" if "r \<in> set (pool_refs pool)"
    using that d(1,2) ix by (auto simp: set_pool_refs get_cell_def grown_def load_def)
  show "unlinked (grown pool)" if "unlinked pool"
    using that d(2) ix by (auto simp: unlinked_def grown_def nth_list_update le_Suc_eq zero_cell_def)
qed

lemma room_ok:
  assumes ok: "pool_ok pool" and room: "unat (pool_used pool) < unat (pool_size pool)"
  shows "pool_ok (pool\<lparr>pool_used := pool_used pool + 1\<rparr>)"
    and "pool_refs (pool\<lparr>pool_used := pool_used pool + 1\<rparr>) =
      pool_refs pool @ [(pool_index pool, unat (pool_used pool))]"
proof -
  have "unat (pool_used pool + 1) = unat (pool_used pool) + 1"
    using room unat_u64 [of "pool_size pool"] by (subst unat_add_u64) auto
  then show "pool_ok (pool\<lparr>pool_used := pool_used pool + 1\<rparr>)"
    and "pool_refs (pool\<lparr>pool_used := pool_used pool + 1\<rparr>) =
      pool_refs pool @ [(pool_index pool, unat (pool_used pool))]"
    using ok room by (simp_all add: pool_ok_def pool_refs_def block_refs_Suc)
qed

lemma get_cell_used [simp]: "get_cell (pool\<lparr>pool_used := u\<rparr>) r = get_cell pool r"
  by (simp add: get_cell_def)

lemma unlinked_used [simp]: "unlinked (pool\<lparr>pool_used := u\<rparr>) = unlinked pool"
  by (simp add: unlinked_def)

text \<open>An allocation that succeeds appends one cell, keeps the others, or the pool is exhausted.\<close>

lemma data_pool_alloc_ok:
  assumes ok: "pool_ok pool" and alloc: "data_pool_alloc calloc pool = (pool', Some r)"
  shows "pool_ok pool'" and "pool_refs pool' = pool_refs pool @ [r]"
    and "q \<in> set (pool_refs pool) \<Longrightarrow> get_cell pool' q = get_cell pool q"
    and "unlinked pool \<Longrightarrow> unlinked pool'"
proof -
  have "pool_ok pool' \<and> pool_refs pool' = pool_refs pool @ [r] \<and>
    (\<forall>q \<in> set (pool_refs pool). get_cell pool' q = get_cell pool q) \<and> (unlinked pool \<longrightarrow> unlinked pool')"
  proof (cases rule: data_pool_alloc_cases [OF ok, of calloc])
    case 1
    then show ?thesis using alloc room_ok [OF ok 1(1)] by auto
  next
    case 2
    then show ?thesis using alloc grown_ok [OF ok 2(1-3)] by auto
  next
    case 3
    then show ?thesis using alloc by simp
  qed
  then show "pool_ok pool'" and "pool_refs pool' = pool_refs pool @ [r]"
    and "q \<in> set (pool_refs pool) \<Longrightarrow> get_cell pool' q = get_cell pool q"
    and "unlinked pool \<Longrightarrow> unlinked pool'" by blast+
qed

lemma data_pool_alloc_none:
  assumes "pool_ok pool" and "data_pool_alloc calloc pool = (pool', None)"
  shows "pool' = pool"
  using assms(2) by (cases rule: data_pool_alloc_cases [OF assms(1), of calloc]) auto

lemma set_entry_ok:
  assumes ok: "pool_ok pool" and r: "r \<in> set (pool_refs pool)"
  obtains pool' c where "set_entry pool r ed = Some pool'" "pool_ok pool'" "pool_refs pool' = pool_refs pool"
    "get_cell pool r = Some c" "get_cell pool' r = Some (c\<lparr>entry_data := ed\<rparr>)"
    "\<And>q. q \<noteq> r \<Longrightarrow> get_cell pool' q = get_cell pool q" "unlinked pool \<Longrightarrow> unlinked pool'"
proof -
  obtain i j where ij: "r = (i, j)" "i \<le> pool_index pool" "j < length (blocks pool ! i)"
    using r pool_okD [OF ok] by (fastforce simp: set_pool_refs)
  have i: "i < length (blocks pool)" using ij pool_okD(1) [OF ok] by simp
  let ?b = "(blocks pool ! i)[j := (blocks pool ! i ! j)\<lparr>entry_data := ed\<rparr>]"
  let ?p = "pool\<lparr>blocks := (blocks pool)[i := ?b]\<rparr>"
  show ?thesis
  proof (rule that [of ?p "blocks pool ! i ! j"])
    show "set_entry pool r ed = Some ?p" using ij i by (simp add: set_entry_def load_def store_def)
    show "pool_ok ?p" using ok i by (auto simp: pool_ok_def nth_list_update)
    show "pool_refs ?p = pool_refs pool" by (simp add: pool_refs_def)
    show "get_cell pool r = Some (blocks pool ! i ! j)" using ij i by (simp add: get_cell_def load_def)
    show "get_cell ?p r = Some ((blocks pool ! i ! j)\<lparr>entry_data := ed\<rparr>)"
      using ij i by (simp add: get_cell_def load_def)
    show "get_cell ?p q = get_cell pool q" if "q \<noteq> r" for q
      using that ij i by (cases q) (auto simp: get_cell_def load_def nth_list_update)
    show "unlinked ?p" if "unlinked pool"
      using that ij i set_update_subset_insert [of "blocks pool ! i" j "(blocks pool ! i ! j)\<lparr>entry_data := ed\<rparr>"]
      by (fastforce simp: unlinked_def nth_list_update split: if_splits)
  qed
qed

section \<open>Linking the list\<close>

lemma link_cells_spec:
  assumes "j + n \<le> length b"
  shows "\<exists>b'. link_cells i j n b = Some b' \<and> length b' = length b \<and>
    (\<forall>k < length b. b' ! k = (if j \<le> k \<and> k < j + n then (b ! k)\<lparr>next_cell := Some (i, k + 1)\<rparr> else b ! k))"
  using assms
proof (induction n arbitrary: j b)
  case (Suc n)
  let ?b = "b[j := (b ! j)\<lparr>next_cell := Some (i, j + 1)\<rparr>]"
  have step: "link_cells i j (Suc n) b = link_cells i (j + 1) n ?b"
    using Suc.prems by (simp add: load_def store_def)
  obtain b' where b': "link_cells i (j + 1) n ?b = Some b'" "length b' = length ?b"
    "\<forall>k < length ?b. b' ! k = (if j + 1 \<le> k \<and> k < j + 1 + n then (?b ! k)\<lparr>next_cell := Some (i, k + 1)\<rparr> else ?b ! k)"
    using Suc.IH [of "j + 1" ?b] Suc.prems by auto
  then show ?case unfolding step
    by (intro exI [of _ b']) (auto simp: nth_list_update not_less_eq_eq dest: le_antisym)
qed auto

text \<open>The successor of a handed out cell in the finished list.\<close>

definition block_used :: "MMDB_data_pool_s \<Rightarrow> nat \<Rightarrow> nat" where
  "block_used pool i = unat (if i = pool_index pool then pool_used pool else sizes pool ! i)"

definition succ_cell :: "MMDB_data_pool_s \<Rightarrow> nat \<Rightarrow> nat \<Rightarrow> cell_ref option" where
  "succ_cell pool i j =
    (if j + 1 < block_used pool i then Some (i, j + 1)
     else if i < pool_index pool then Some (i + 1, 0) else None)"

definition linked_block :: "MMDB_data_pool_s \<Rightarrow> nat \<Rightarrow> MMDB_entry_data_list_s list" where
  "linked_block pool i = map (\<lambda>j. if j < block_used pool i
     then (blocks pool ! i ! j)\<lparr>next_cell := succ_cell pool i j\<rparr> else blocks pool ! i ! j)
     [0..<length (blocks pool ! i)]"

lemma block_used_bounds:
  assumes "pool_ok pool" and "i \<le> pool_index pool" and "pool_index pool \<noteq> 0 \<or> pool_used pool \<noteq> 0"
  shows "0 < block_used pool i" "block_used pool i \<le> length (blocks pool ! i)"
  using pool_okD [OF assms(1)] assms(2,3) by (auto simp: block_used_def unat_gt_0)

lemma link_block_spec:
  assumes ok: "pool_ok pool" and ul: "\<forall>c \<in> set (blocks pool ! i). next_cell c = None"
    and i: "i \<le> pool_index pool" and ne: "pool_index pool \<noteq> 0 \<or> pool_used pool \<noteq> 0"
  shows "link_block pool i = Some (pool\<lparr>blocks := (blocks pool)[i := linked_block pool i]\<rparr>)"
proof -
  define sz where "sz = (if i = pool_index pool then pool_used pool else sizes pool ! i)"
  define b where "b = blocks pool ! i"
  have used: "block_used pool i = unat sz" by (simp add: block_used_def sz_def)
  have bd: "0 < unat sz" "unat sz \<le> length b"
    using block_used_bounds [OF ok i ne] by (simp_all add: used b_def)
  then have sz1: "unat (sz - 1) = unat sz - 1" by (simp add: unat_sub word_le_nat_alt)
  have none: "next_cell (b ! k) = None" if "k < length b" for k
    using ul that by (simp add: b_def)
  have le: "0 + (unat sz - 1) \<le> length b" using bd by simp
  obtain b1 where b1: "link_cells i 0 (unat (sz - 1)) b = Some b1" "length b1 = length b"
    "\<forall>k < length b. b1 ! k = (if k < unat sz - 1 then (b ! k)\<lparr>next_cell := Some (i, k + 1)\<rparr> else b ! k)"
    unfolding sz1 using link_cells_spec [OF le, of i] by auto
  have "(if i < pool_index pool then do {
           last \<leftarrow> load b1 (unat (sz - 1));
           store b1 (unat (sz - 1)) (last\<lparr>next_cell := Some (i + 1, 0)\<rparr>) }
         else Some b1) = Some (linked_block pool i)"
    (is "?l = _")
  proof (cases "i < pool_index pool")
    case True
    have "?l = Some (b1[unat sz - 1 := (b ! (unat sz - 1))\<lparr>next_cell := Some (i + 1, 0)\<rparr>])"
      using True b1 bd sz1 by (simp add: load_def store_def)
    also have "b1[unat sz - 1 := (b ! (unat sz - 1))\<lparr>next_cell := Some (i + 1, 0)\<rparr>] = linked_block pool i"
      using True b1 bd by (intro nth_equalityI)
        (auto simp: linked_block_def used succ_cell_def nth_list_update simp flip: b_def)
    finally show ?thesis .
  next
    case False
    have "b1 = linked_block pool i"
      using False b1 bd none by (intro nth_equalityI)
        (auto simp: linked_block_def used succ_cell_def simp flip: b_def)
    then show ?thesis using False by simp
  qed
  then show ?thesis
    using b1(1) by (simp add: link_block_def Let_def flip: sz_def b_def)
qed

text \<open>The finished pool: every block in use is linked.\<close>

definition linked_pool :: "MMDB_data_pool_s \<Rightarrow> nat \<Rightarrow> MMDB_data_pool_s" where
  "linked_pool pool n = pool\<lparr>blocks := map (\<lambda>i. if i < n then linked_block pool i else blocks pool ! i)
     [0..<length (blocks pool)]\<rparr>"

lemma linked_pool_0: "linked_pool pool 0 = pool"
  by (simp add: linked_pool_def map_nth)

lemma linked_pool_sel [simp]:
  "pool_index (linked_pool pool n) = pool_index pool" "pool_size (linked_pool pool n) = pool_size pool"
  "pool_used (linked_pool pool n) = pool_used pool" "sizes (linked_pool pool n) = sizes pool"
  "length (blocks (linked_pool pool n)) = length (blocks pool)"
  by (simp_all add: linked_pool_def)

lemma linked_pool_nth:
  "i < length (blocks pool) \<Longrightarrow> blocks (linked_pool pool n) ! i = (if i < n then linked_block pool i else blocks pool ! i)"
  by (simp add: linked_pool_def)

lemma length_linked_block [simp]: "length (linked_block pool i) = length (blocks pool ! i)"
  by (simp add: linked_block_def)

text \<open>\<open>link_block\<close> does not look at the links of other blocks.\<close>

lemma link_block_step:
  assumes ok: "pool_ok pool" and ul: "unlinked pool" and i: "i \<le> pool_index pool"
    and ne: "pool_index pool \<noteq> 0 \<or> pool_used pool \<noteq> 0"
  shows "link_block (linked_pool pool i) i = Some (linked_pool pool (Suc i))"
proof -
  have len: "i < length (blocks pool)" using i pool_okD(1) [OF ok] by simp
  let ?p = "linked_pool pool i"
  have b: "blocks ?p ! i = blocks pool ! i" using len by (simp add: linked_pool_nth)
  have "pool_ok ?p" using ok pool_okD(1) [OF ok] by (auto simp: pool_ok_def linked_pool_nth)
  moreover have "linked_block ?p i = linked_block pool i"
    by (simp add: linked_block_def b block_used_def succ_cell_def)
  ultimately have "link_block ?p i = Some (?p\<lparr>blocks := (blocks ?p)[i := linked_block pool i]\<rparr>)"
    using link_block_spec [of ?p i] ul i ne by (simp add: b unlinked_def)
  also have "(blocks (linked_pool pool i))[i := linked_block pool i] = blocks (linked_pool pool (Suc i))"
    using len by (intro nth_equalityI) (auto simp: linked_pool_nth nth_list_update)
  finally show ?thesis by (simp add: linked_pool_def)
qed

lemma link_blocks_spec:
  assumes "pool_ok pool" "unlinked pool" "pool_index pool \<noteq> 0 \<or> pool_used pool \<noteq> 0"
  shows "i + n \<le> pool_index pool + 1 \<Longrightarrow> link_blocks (linked_pool pool i) i n = Some (linked_pool pool (i + n))"
proof (induction n arbitrary: i)
  case (Suc n)
  then show ?case using link_block_step [OF assms(1,2) _ assms(3), of i] Suc.IH [of "Suc i"] by simp
qed simp

lemma data_pool_to_list_spec:
  assumes "pool_ok pool" "unlinked pool" "pool_refs pool \<noteq> []"
  shows "data_pool_to_list pool = Some (linked_pool pool (pool_index pool + 1), Some (0, 0))"
proof -
  have ne: "pool_index pool \<noteq> 0 \<or> pool_used pool \<noteq> 0"
    using assms(3) by (auto simp: pool_refs_def block_refs_def)
  then show ?thesis
    using link_blocks_spec [OF assms(1,2) ne, of 0 "pool_index pool + 1"]
    by (auto simp: data_pool_to_list_def linked_pool_0)
qed

text \<open>Following the links of a finished list.\<close>

fun follow :: "MMDB_data_pool_s \<Rightarrow> nat \<Rightarrow> cell_ref option \<Rightarrow> MMDB_entry_data_s list option" where
  "follow pool fuel None = Some []"
| "follow pool 0 (Some r) = None"
| "follow pool (Suc fuel) (Some r) =
    do { c \<leftarrow> get_cell pool r; es \<leftarrow> follow pool fuel (next_cell c); Some (entry_data c # es) }"

definition entry_at :: "MMDB_data_pool_s \<Rightarrow> cell_ref \<Rightarrow> MMDB_entry_data_s" where
  "entry_at pool r = (case get_cell pool r of Some c \<Rightarrow> entry_data c | None \<Rightarrow> zero_entry)"

definition pool_entries :: "MMDB_data_pool_s \<Rightarrow> MMDB_entry_data_s list" where
  "pool_entries pool = map (entry_at pool) (pool_refs pool)"

fun chained :: "MMDB_data_pool_s \<Rightarrow> cell_ref list \<Rightarrow> cell_ref option \<Rightarrow> bool" where
  "chained pool [] e = True"
| "chained pool [r] e = (\<exists>c. get_cell pool r = Some c \<and> next_cell c = e)"
| "chained pool (r # s # rs) e =
    ((\<exists>c. get_cell pool r = Some c \<and> next_cell c = Some s) \<and> chained pool (s # rs) e)"

lemma chained_append:
  "rs \<noteq> [] \<Longrightarrow> ss \<noteq> [] \<Longrightarrow>
    chained pool (rs @ ss) e \<longleftrightarrow> chained pool rs (Some (hd ss)) \<and> chained pool ss e"
proof (induction rs rule: induct_list012)
  case (2 r)
  then show ?case by (cases ss) auto
qed auto

lemma follow_chained:
  assumes "chained pool rs None" and "rs \<noteq> []"
  shows "follow pool (length rs) (Some (hd rs)) = Some (map (entry_at pool) rs)"
  using assms by (induction rs rule: induct_list012) (auto simp: entry_at_def)

lemma linked_cell:
  assumes ok: "pool_ok pool" and "i \<le> pool_index pool" and "j < block_used pool i"
    and ne: "pool_index pool \<noteq> 0 \<or> pool_used pool \<noteq> 0"
  shows "\<exists>c. get_cell pool (i, j) = Some c \<and>
    get_cell (linked_pool pool (pool_index pool + 1)) (i, j) = Some (c\<lparr>next_cell := succ_cell pool i j\<rparr>)"
proof -
  have "i < length (blocks pool)" "j < length (blocks pool ! i)"
    using assms block_used_bounds [OF ok assms(2) ne] pool_okD(1) [OF ok] by simp_all
  then show ?thesis using assms(2,3) by (simp add: get_cell_def load_def linked_pool_nth linked_block_def)
qed

lemma pool_refs_blocks:
  assumes "pool_ok pool"
  shows "pool_refs pool = concat (map (\<lambda>i. block_refs i (block_used pool i)) [0..<pool_index pool + 1])"
  by (auto simp: pool_refs_def block_used_def intro!: arg_cong [of _ _ concat])

lemma chained_block:
  assumes ok: "pool_ok pool" and i: "i \<le> pool_index pool"
    and ne: "pool_index pool \<noteq> 0 \<or> pool_used pool \<noteq> 0"
  shows "n < block_used pool i \<Longrightarrow>
    chained (linked_pool pool (pool_index pool + 1)) (block_refs i (Suc n)) (succ_cell pool i n)"
proof (induction n)
  case 0
  then show ?case using linked_cell [OF ok i _ ne, of 0] by (auto simp: block_refs_def)
next
  case (Suc n)
  have "succ_cell pool i n = Some (i, Suc n)" using Suc.prems by (simp add: succ_cell_def)
  then have "chained (linked_pool pool (pool_index pool + 1)) (block_refs i (Suc n)) (Some (hd [(i, Suc n)]))"
    using Suc by simp
  moreover have "chained (linked_pool pool (pool_index pool + 1)) [(i, Suc n)] (succ_cell pool i (Suc n))"
    using linked_cell [OF ok i Suc.prems ne] by auto
  ultimately show ?case
    unfolding block_refs_Suc [of i "Suc n"] by (subst chained_append) (auto simp: block_refs_def)
qed

lemma chained_blocks:
  assumes ok: "pool_ok pool" and ne: "pool_index pool \<noteq> 0 \<or> pool_used pool \<noteq> 0"
  shows "n \<le> pool_index pool \<Longrightarrow>
    chained (linked_pool pool (pool_index pool + 1))
      (concat (map (\<lambda>i. block_refs i (block_used pool i)) [0..<n + 1]))
      (if n < pool_index pool then Some (n + 1, 0) else None)"
proof (induction n)
  case 0
  have "chained (linked_pool pool (pool_index pool + 1)) (block_refs 0 (Suc (block_used pool 0 - 1)))
      (succ_cell pool 0 (block_used pool 0 - 1))"
    using chained_block [OF ok _ ne, of 0 "block_used pool 0 - 1"] block_used_bounds [OF ok _ ne, of 0] by simp
  then show ?case using block_used_bounds [OF ok _ ne, of 0] by (simp add: succ_cell_def)
next
  case (Suc n)
  let ?B = "\<lambda>i. block_refs i (block_used pool i)"
  have pos: "0 < block_used pool (Suc n)" "0 < block_used pool 0"
    using block_used_bounds [OF ok _ ne] Suc.prems by simp_all
  have hd: "hd (?B (Suc n)) = (Suc n, 0)" "?B (Suc n) \<noteq> []"
    using pos by (simp_all add: block_refs_def hd_map)
  have "chained (linked_pool pool (pool_index pool + 1)) (block_refs (Suc n) (Suc (block_used pool (Suc n) - 1)))
      (succ_cell pool (Suc n) (block_used pool (Suc n) - 1))"
    using chained_block [OF ok Suc.prems ne, of "block_used pool (Suc n) - 1"] pos by simp
  then have last: "chained (linked_pool pool (pool_index pool + 1)) (?B (Suc n))
      (if Suc n < pool_index pool then Some (Suc n + 1, 0) else None)"
    using pos by (simp add: succ_cell_def)
  have ne0: "concat (map ?B [0..<n + 1]) \<noteq> []"
    using pos(2) by (simp add: block_refs_def upt_rec [of 0 "Suc n"] del: upt_Suc)
  have eq: "concat (map ?B [0..<Suc n + 1]) = concat (map ?B [0..<n + 1]) @ ?B (Suc n)" by simp
  have first: "chained (linked_pool pool (pool_index pool + 1)) (concat (map ?B [0..<n + 1])) (Some (hd (?B (Suc n))))"
    using Suc hd by simp
  show ?case unfolding eq chained_append [OF ne0 hd(2)] using first last by blast
qed

lemma data_pool_list:
  assumes ok: "pool_ok pool" and ul: "unlinked pool" and refs: "pool_refs pool \<noteq> []"
  shows "\<exists>pool'. data_pool_to_list pool = Some (pool', Some (0, 0)) \<and>
    follow pool' (length (pool_refs pool)) (Some (0, 0)) = Some (pool_entries pool)"
proof -
  let ?p = "linked_pool pool (pool_index pool + 1)"
  have ne: "pool_index pool \<noteq> 0 \<or> pool_used pool \<noteq> 0"
    using refs by (auto simp: pool_refs_def block_refs_def)
  have "chained ?p (pool_refs pool) None"
    using chained_blocks [OF ok ne, of "pool_index pool"] pool_refs_blocks [OF ok] by simp
  from follow_chained [OF this refs]
  have f: "follow ?p (length (pool_refs pool)) (Some (hd (pool_refs pool))) = Some (map (entry_at ?p) (pool_refs pool))" .
  have "hd (pool_refs pool) = (0, 0)"
    using block_used_bounds(1) [OF ok _ ne, of 0] unfolding pool_refs_blocks [OF ok]
    by (simp add: block_refs_def upt_rec [of 0 "Suc (pool_index pool)"] hd_map upt_rec del: upt_Suc)
  moreover have "entry_at ?p r = entry_at pool r" if mem: "r \<in> set (pool_refs pool)" for r
  proof -
    obtain i j where r: "r = (i, j)" "i \<le> pool_index pool" "j < block_used pool i"
      using mem unfolding pool_refs_blocks [OF ok] by (auto simp: set_block_refs simp del: upt_Suc)
    then show ?thesis using linked_cell [OF ok r(2,3) ne] by (auto simp: entry_at_def)
  qed
  ultimately show ?thesis
    using f data_pool_to_list_spec [OF ok ul refs] by (simp add: pool_entries_def cong: map_cong)
qed

section \<open>The pool as an allocator\<close>

text \<open>
  What the code that fills a list relies on: allocation appends a new cell and keeps the
  contents of the others, and writing a cell changes only that cell.
\<close>

locale cell_allocator =
  fixes ok :: "'p \<Rightarrow> bool" and refs :: "'p \<Rightarrow> 'r list" and get :: "'p \<Rightarrow> 'r \<Rightarrow> 'e"
    and alloc :: "'p \<Rightarrow> 'p \<times> 'r option" and put :: "'p \<Rightarrow> 'r \<Rightarrow> 'e \<Rightarrow> 'p option"
  assumes refs_distinct: "distinct (refs p)"
    and alloc_ok: "ok p \<Longrightarrow> alloc p = (p', Some r) \<Longrightarrow> ok p' \<and> refs p' = refs p @ [r] \<and>
      (\<forall>q \<in> set (refs p). get p' q = get p q)"
    and put_ok: "ok p \<Longrightarrow> r \<in> set (refs p) \<Longrightarrow>
      \<exists>p'. put p r e = Some p' \<and> ok p' \<and> refs p' = refs p \<and> get p' r = e \<and>
        (\<forall>q. q \<noteq> r \<longrightarrow> get p' q = get p q)"
begin

lemma alloc_entries:
  assumes "ok p" and "alloc p = (p', Some r)"
  shows "map (get p') (refs p') = map (get p) (refs p) @ [get p' r]"
  using alloc_ok [OF assms] by simp

lemma put_entries:
  assumes "ok p" and "refs p = rs @ r # ss" and "put p r e = Some p'"
  shows "map (get p') (refs p') = map (get p) rs @ e # map (get p) ss" and "ok p'" and "refs p' = refs p"
proof -
  obtain p'' where p: "put p r e = Some p''" "ok p''" "refs p'' = refs p" "get p'' r = e"
    "\<forall>q. q \<noteq> r \<longrightarrow> get p'' q = get p q"
    using put_ok [OF assms(1), of r e] assms(2) by auto
  have "r \<notin> set rs" "r \<notin> set ss" using refs_distinct [of p] assms(2) by auto
  then have "map (get p'') rs = map (get p) rs" "map (get p'') ss = map (get p) ss"
    using p(5) by (auto intro!: map_cong)
  then show "map (get p') (refs p') = map (get p) rs @ e # map (get p) ss" and "ok p'" and "refs p' = refs p"
    using p assms by auto
qed

end

interpretation dp: cell_allocator "\<lambda>p. pool_ok p \<and> unlinked p" pool_refs entry_at "data_pool_alloc calloc" set_entry
  for calloc
proof unfold_locales
  show "distinct (pool_refs p)" for p by (rule distinct_pool_refs)
next
  fix p p' r
  assume "pool_ok p \<and> unlinked p" "data_pool_alloc calloc p = (p', Some r)"
  then show "(pool_ok p' \<and> unlinked p') \<and> pool_refs p' = pool_refs p @ [r] \<and>
      (\<forall>q \<in> set (pool_refs p). entry_at p' q = entry_at p q)"
    using data_pool_alloc_ok [of p calloc p' r] by (simp add: entry_at_def)
next
  fix p r e
  assume *: "pool_ok p \<and> unlinked p" "r \<in> set (pool_refs p)"
  then show "\<exists>p'. set_entry p r e = Some p' \<and> (pool_ok p' \<and> unlinked p') \<and> pool_refs p' = pool_refs p \<and>
      entry_at p' r = e \<and> (\<forall>q. q \<noteq> r \<longrightarrow> entry_at p' q = entry_at p q)"
    by (elim conjE set_entry_ok [of p r e]) (auto simp: entry_at_def)
qed

text \<open>Taking cells from the pool and filling them one after the other.\<close>

fun fill :: "(u64 \<Rightarrow> u64 \<Rightarrow> bool) \<Rightarrow> MMDB_data_pool_s \<Rightarrow> MMDB_entry_data_s list \<Rightarrow> MMDB_data_pool_s option" where
  "fill calloc pool [] = Some pool"
| "fill calloc pool (e # es) =
    (case data_pool_alloc calloc pool of
       (pool, None) \<Rightarrow> None
     | (pool, Some r) \<Rightarrow> do { pool \<leftarrow> set_entry pool r e; fill calloc pool es })"

lemma fill_entries:
  assumes "fill calloc pool es = Some pool'" and "pool_ok pool" and "unlinked pool"
  shows "pool_ok pool' \<and> unlinked pool' \<and> pool_entries pool' = pool_entries pool @ es"
  using assms
proof (induction es arbitrary: pool)
  case (Cons e es)
  then obtain p1 r p2 where p: "data_pool_alloc calloc pool = (p1, Some r)" "set_entry p1 r e = Some p2"
    "fill calloc p2 es = Some pool'"
    by (auto split: prod.splits option.splits bind_splits)
  have ok: "pool_ok pool \<and> unlinked pool" using Cons.prems by simp
  note a = dp.alloc_ok [OF ok p(1)]
  then have refs: "pool_refs p1 = pool_refs pool @ r # []" by simp
  note b = dp.put_entries [of p1, OF _ refs p(2)]
  have "map (entry_at p2) (pool_refs p2) = map (entry_at p1) (pool_refs pool) @ [e]" using b a by simp
  then have "pool_entries p2 = pool_entries pool @ [e]" using a by (simp add: pool_entries_def)
  then show ?case using Cons.IH [OF p(3)] a b by simp
qed (simp add: pool_entries_def)

text \<open>
  an allocation hands out a cell of the current or a new block that nobody else has and
  leaves the contents of all others alone; it fails, without changing the pool, only when the
  array of blocks is full, the byte count would wrap or the system has no memory.
\<close>

theorem data_pool_alloc_correct:
  assumes "pool_ok pool"
  shows "case data_pool_alloc calloc pool of
      (pool', Some r) \<Rightarrow> pool_ok pool' \<and> pool_refs pool' = pool_refs pool @ [r] \<and>
        r \<notin> set (pool_refs pool) \<and> (\<exists>c. get_cell pool' r = Some c) \<and>
        (\<forall>q \<in> set (pool_refs pool). get_cell pool' q = get_cell pool q)
    | (pool', None) \<Rightarrow> pool' = pool \<and> exhausted calloc pool"
proof (cases "snd (data_pool_alloc calloc pool)")
  case None
  then show ?thesis by (cases rule: data_pool_alloc_cases [OF assms, of calloc]) auto
next
  case (Some r)
  then obtain p' where p': "data_pool_alloc calloc pool = (p', Some r)" by (metis prod.collapse)
  note ok = data_pool_alloc_ok [OF assms p']
  have "r \<notin> set (pool_refs pool)" using distinct_pool_refs [of p'] ok(2) by simp
  then show ?thesis using p' ok pool_refs_cell [OF ok(1), of r] by simp
qed

text \<open>
  The list that \<open>data_pool_to_list\<close> returns has the entries in the order in which their
  cells were taken from the pool, across all blocks, and ends after the last one.
\<close>

theorem data_pool_to_list_in_order:
  assumes "data_pool_new calloc sz = Some pool" and "fill calloc pool es = Some pool'" and "es \<noteq> []"
  shows "\<exists>pool''. data_pool_to_list pool' = Some (pool'', Some (0, 0)) \<and>
    follow pool'' (length es) (Some (0, 0)) = Some es"
proof -
  have "pool_ok pool' \<and> unlinked pool' \<and> pool_entries pool' = pool_entries pool @ es"
    using fill_entries [OF assms(2)] data_pool_new_ok [OF assms(1)] unlinked_new [OF assms(1)] by blast
  moreover have "pool_entries pool = []" using data_pool_new_ok(2) [OF assms(1)] by (simp add: pool_entries_def)
  ultimately have p: "pool_ok pool'" "unlinked pool'" "pool_entries pool' = es" by simp_all
  then have "pool_refs pool' \<noteq> []" "length (pool_refs pool') = length es"
    using assms(3) by (auto simp: pool_entries_def)
  then show ?thesis using data_pool_list [OF p(1,2)] p(3) by simp
qed

subsection \<open>Instances\<close>

definition small_pool :: MMDB_data_pool_s where
  "small_pool = \<lparr>pool_index = 0, pool_size = 2, pool_used = 0,
     sizes = (replicate DATA_POOL_NUM_BLOCKS 0)[0 := 2],
     blocks = (replicate DATA_POOL_NUM_BLOCKS [])[0 := replicate 2 zero_cell]\<rparr>"

lemma small_pool_new: "data_pool_new (\<lambda>_ _. True) 2 = Some small_pool"
  by (simp add: data_pool_new_def small_pool_def can_multiply_def sizeof_cell_def SIZE_MAX_def)

theorem data_pool_alloc_witness:
  "case data_pool_alloc (\<lambda>_ _. True) small_pool of
      (pool', Some r) \<Rightarrow> pool_ok pool' \<and> pool_refs pool' = pool_refs small_pool @ [r] \<and>
        r \<notin> set (pool_refs small_pool) \<and> (\<exists>c. get_cell pool' r = Some c) \<and>
        (\<forall>q \<in> set (pool_refs small_pool). get_cell pool' q = get_cell small_pool q)
    | (pool', None) \<Rightarrow> pool' = small_pool \<and> exhausted (\<lambda>_ _. True) small_pool"
  by (rule data_pool_alloc_correct [OF data_pool_new_ok(1) [OF small_pool_new]])

text \<open>Three entries in a pool that starts with room for two.\<close>

lemma fill_three: "fill (\<lambda>_ _. True) small_pool [zero_entry, zero_entry, zero_entry] \<noteq> None"
  by code_simp

theorem data_pool_to_list_witness:
  "\<exists>pool' pool''. fill (\<lambda>_ _. True) small_pool [zero_entry, zero_entry, zero_entry] = Some pool' \<and>
    data_pool_to_list pool' = Some (pool'', Some (0, 0)) \<and>
    follow pool'' 3 (Some (0, 0)) = Some [zero_entry, zero_entry, zero_entry]"
proof -
  obtain pool' where p: "fill (\<lambda>_ _. True) small_pool [zero_entry, zero_entry, zero_entry] = Some pool'"
    using fill_three by blast
  have "length [zero_entry, zero_entry, zero_entry] = 3" by simp
  then show ?thesis using data_pool_to_list_in_order [OF small_pool_new p] p by (metis list.discI)
qed

end
