(* ===== verification/MmdbList.thy ===== *)
theory MmdbList
  imports MmdbFormat DataPool
begin

text \<open>
  Listing everything under an offset of the data section
  (\<open>MMDB_get_entry_data_list\<close> in \<open>src/maxminddb/maxminddb.c\<close>): the values are decoded in
  depth-first order into cells of a data pool, which is then linked into a list.
\<close>

section \<open>Decoding into the pool\<close>

definition MAXIMUM_DATA_STRUCTURE_DEPTH :: nat where
  "MAXIMUM_DATA_STRUCTURE_DEPTH = 512"

definition MMDB_POOL_INIT_SIZE :: u64 where
  "MMDB_POOL_INIT_SIZE = 64"

text \<open>\<open>decode_one\<close> into the entry of a cell, and the assignment to its \<open>offset_to_next\<close>.\<close>

definition decode_into ::
  "MMDB_s \<Rightarrow> u32 \<Rightarrow> cell_ref \<Rightarrow> MMDB_data_pool_s \<Rightarrow> (mmdb_status \<times> MMDB_data_pool_s) option" where
  "decode_into db offset r pool =
    do { c \<leftarrow> get_cell pool r;
         (status, ed) \<leftarrow> decode_one db offset (entry_data c);
         pool \<leftarrow> set_entry pool r ed;
         Some (status, pool) }"

definition set_next ::
  "u32 \<Rightarrow> cell_ref \<Rightarrow> MMDB_data_pool_s \<Rightarrow> (mmdb_status \<times> MMDB_data_pool_s) option" where
  "set_next offset r pool =
    do { c \<leftarrow> get_cell pool r;
         pool \<leftarrow> set_entry pool r ((entry_data c)\<lparr>offset_to_next := offset\<rparr>);
         Some (MMDB_SUCCESS, pool) }"

text \<open>
  The loops hand the offset of the next element on; on success the enclosing container ends
  there.
\<close>

definition container_end ::
  "(mmdb_status \<times> u32 \<times> MMDB_data_pool_s) option \<Rightarrow> cell_ref \<Rightarrow> (mmdb_status \<times> MMDB_data_pool_s) option" where
  "container_end res r =
    do { (status, offset, pool) \<leftarrow> res;
         (if status \<noteq> MMDB_SUCCESS then Some (status, pool) else set_next offset r pool) }"

text \<open>A new cell filled by \<open>build\<close>, after which \<open>k\<close> goes on at the offset where its value ends.\<close>

definition with_cell ::
  "(u64 \<Rightarrow> u64 \<Rightarrow> bool) \<Rightarrow> (cell_ref \<Rightarrow> MMDB_data_pool_s \<Rightarrow> (mmdb_status \<times> MMDB_data_pool_s) option) \<Rightarrow>
    (u32 \<Rightarrow> MMDB_data_pool_s \<Rightarrow> (mmdb_status \<times> u32 \<times> MMDB_data_pool_s) option) \<Rightarrow>
    u32 \<Rightarrow> MMDB_data_pool_s \<Rightarrow> (mmdb_status \<times> u32 \<times> MMDB_data_pool_s) option" where
  "with_cell calloc build k offset pool =
    (case data_pool_alloc calloc pool of
       (pool, None) \<Rightarrow> Some (MMDB_OUT_OF_MEMORY_ERROR, offset, pool)
     | (pool, Some r) \<Rightarrow>
         do { (status, pool) \<leftarrow> build r pool;
              (if status \<noteq> MMDB_SUCCESS then Some (status, offset, pool)
               else do { c \<leftarrow> get_cell pool r; k (offset_to_next (entry_data c)) pool }) })"

text \<open>The case of a pointer, where \<open>recurse\<close> is the recursive call one level deeper.\<close>

definition list_pointer ::
  "(u32 \<Rightarrow> cell_ref \<Rightarrow> MMDB_data_pool_s \<Rightarrow> (mmdb_status \<times> MMDB_data_pool_s) option) \<Rightarrow>
    MMDB_s \<Rightarrow> cell_ref \<Rightarrow> MMDB_entry_data_s \<Rightarrow> MMDB_data_pool_s \<Rightarrow> (mmdb_status \<times> MMDB_data_pool_s) option" where
  "list_pointer recurse db r ed pool =
    (let next_offset = offset_to_next ed; last_offset = pointer (value_of ed) in
     checked (decode_into db last_offset r pool) (\<lambda>pool.
       do {
         c \<leftarrow> get_cell pool r;
         if e_type (entry_data c) = MMDB_DATA_TYPE_POINTER then Some (MMDB_INVALID_DATA_ERROR, pool)
         else if e_type (entry_data c) = MMDB_DATA_TYPE_ARRAY \<or> e_type (entry_data c) = MMDB_DATA_TYPE_MAP
         then checked (recurse last_offset r pool) (set_next next_offset r)
         else set_next next_offset r pool
       }))"

function (sequential) get_entry_data_list ::
    "(u64 \<Rightarrow> u64 \<Rightarrow> bool) \<Rightarrow> MMDB_s \<Rightarrow> nat \<Rightarrow> u32 \<Rightarrow> cell_ref \<Rightarrow> MMDB_data_pool_s \<Rightarrow>
      (mmdb_status \<times> MMDB_data_pool_s) option"
  and list_array_loop ::
    "(u64 \<Rightarrow> u64 \<Rightarrow> bool) \<Rightarrow> MMDB_s \<Rightarrow> nat \<Rightarrow> nat \<Rightarrow> u32 \<Rightarrow> MMDB_data_pool_s \<Rightarrow>
      (mmdb_status \<times> u32 \<times> MMDB_data_pool_s) option"
  and list_map_loop ::
    "(u64 \<Rightarrow> u64 \<Rightarrow> bool) \<Rightarrow> MMDB_s \<Rightarrow> nat \<Rightarrow> nat \<Rightarrow> u32 \<Rightarrow> MMDB_data_pool_s \<Rightarrow>
      (mmdb_status \<times> u32 \<times> MMDB_data_pool_s) option"
where
  "get_entry_data_list calloc db level offset r pool =
    (if level \<ge> MAXIMUM_DATA_STRUCTURE_DEPTH then Some (MMDB_INVALID_DATA_ERROR, pool)
     else checked (decode_into db offset r pool) (\<lambda>pool.
       do {
         c \<leftarrow> get_cell pool r;
         let ed = entry_data c;
         if e_type ed = MMDB_DATA_TYPE_POINTER then
           list_pointer (get_entry_data_list calloc db (Suc level)) db r ed pool
         else if e_type ed = MMDB_DATA_TYPE_ARRAY then
           container_end (list_array_loop calloc db (Suc level) (unat (data_size ed)) (offset_to_next ed) pool) r
         else if e_type ed = MMDB_DATA_TYPE_MAP then
           container_end (list_map_loop calloc db (Suc level) (unat (data_size ed)) (offset_to_next ed) pool) r
         else Some (MMDB_SUCCESS, pool)
       }))"
| "list_array_loop calloc db level 0 offset pool = Some (MMDB_SUCCESS, offset, pool)"
| "list_array_loop calloc db level (Suc n) offset pool =
    with_cell calloc (get_entry_data_list calloc db level offset)
      (list_array_loop calloc db level n) offset pool"
| "list_map_loop calloc db level 0 offset pool = Some (MMDB_SUCCESS, offset, pool)"
| "list_map_loop calloc db level (Suc n) offset pool =
    with_cell calloc (get_entry_data_list calloc db level offset)
      (\<lambda>offset. with_cell calloc (get_entry_data_list calloc db level offset)
        (list_map_loop calloc db level n) offset) offset pool"
  by pat_completeness auto
termination
  by (relation "inv_image (less_than <*lex*> less_than) (\<lambda>x. case x of
      Inl (calloc, db, level, offset, r, pool) \<Rightarrow> (513 - level, 0)
    | Inr (Inl (calloc, db, level, n, offset, pool)) \<Rightarrow> (513 - level, Suc n)
    | Inr (Inr (calloc, db, level, n, offset, pool)) \<Rightarrow> (513 - level, Suc n))")
    (auto simp: MAXIMUM_DATA_STRUCTURE_DEPTH_def)

definition MMDB_get_entry_data_list ::
  "(u64 \<Rightarrow> u64 \<Rightarrow> bool) \<Rightarrow> MMDB_s \<Rightarrow> u32 \<Rightarrow> (mmdb_status \<times> (MMDB_data_pool_s \<times> cell_ref) option) option" where
  "MMDB_get_entry_data_list calloc db offset =
    (case data_pool_new calloc MMDB_POOL_INIT_SIZE of
       None \<Rightarrow> Some (MMDB_OUT_OF_MEMORY_ERROR, None)
     | Some pool \<Rightarrow>
         (case data_pool_alloc calloc pool of
            (pool, None) \<Rightarrow> Some (MMDB_OUT_OF_MEMORY_ERROR, None)
          | (pool, Some r) \<Rightarrow>
              do {
                (status, pool) \<leftarrow> get_entry_data_list calloc db 0 offset r pool;
                if status \<noteq> MMDB_SUCCESS then Some (status, None)
                else do {
                  (pool, list) \<leftarrow> data_pool_to_list pool;
                  (case list of
                     None \<Rightarrow> Some (MMDB_OUT_OF_MEMORY_ERROR, None)
                   | Some l \<Rightarrow> Some (MMDB_SUCCESS, Some (pool, l)))
                }
              }))"

declare get_entry_data_list.simps [simp del]

section \<open>Listing always returns\<close>

definition pool_inv :: "MMDB_data_pool_s \<Rightarrow> bool" where
  "pool_inv pool \<longleftrightarrow> pool_ok pool \<and> unlinked pool"

text \<open>A step that returns with a pool that has at least the cells it had before.\<close>

definition stays :: "MMDB_data_pool_s \<Rightarrow> (mmdb_status \<times> MMDB_data_pool_s) option \<Rightarrow> bool" where
  "stays pool res \<longleftrightarrow> (\<exists>st pool'. res = Some (st, pool') \<and> pool_inv pool' \<and>
     set (pool_refs pool) \<subseteq> set (pool_refs pool'))"

definition loop_stays :: "MMDB_data_pool_s \<Rightarrow> (mmdb_status \<times> u32 \<times> MMDB_data_pool_s) option \<Rightarrow> bool" where
  "loop_stays pool res \<longleftrightarrow> stays pool (map_option (\<lambda>(st, off, pool). (st, pool)) res)"

lemma stays_refl: "pool_inv pool \<Longrightarrow> stays pool (Some (st, pool))"
  by (simp add: stays_def)

lemma stays_trans:
  "stays pool' res \<Longrightarrow> set (pool_refs pool) \<subseteq> set (pool_refs pool') \<Longrightarrow> stays pool res"
  by (fastforce simp: stays_def)

lemma stays_checked:
  assumes "stays pool res"
    and "\<And>pool'. pool_inv pool' \<Longrightarrow> set (pool_refs pool) \<subseteq> set (pool_refs pool') \<Longrightarrow> stays pool' (k pool')"
  shows "stays pool (checked res k)"
proof -
  obtain st pool' where r: "res = Some (st, pool')" "pool_inv pool'" "set (pool_refs pool) \<subseteq> set (pool_refs pool')"
    using assms(1) by (auto simp: stays_def)
  show ?thesis
  proof (cases "st = MMDB_SUCCESS")
    case True
    then show ?thesis using r stays_trans [OF assms(2) [OF r(2,3)] r(3)] by (simp add: checked_def)
  next
    case False
    then show ?thesis using r by (simp add: checked_def stays_def)
  qed
qed

lemma write_stays:
  assumes "pool_inv pool" and "r \<in> set (pool_refs pool)"
  obtains pool' where "set_entry pool r ed = Some pool'" "pool_inv pool'" "pool_refs pool' = pool_refs pool"
    "entry_at pool' r = ed" "\<And>q. q \<noteq> r \<Longrightarrow> entry_at pool' q = entry_at pool q"
  using dp.put_ok [of pool r ed] assms unfolding pool_inv_def by blast

lemma pool_inv_cell:
  assumes "pool_inv pool" and "r \<in> set (pool_refs pool)"
  obtains c where "get_cell pool r = Some c" "entry_data c = entry_at pool r"
  using pool_refs_cell [of pool r] assms by (auto simp: pool_inv_def entry_at_def)

lemma decode_into_stays:
  assumes "db_ok db" and inv: "pool_inv pool" "r \<in> set (pool_refs pool)"
  shows "stays pool (decode_into db off r pool)"
proof -
  obtain c where c: "get_cell pool r = Some c" using pool_inv_cell [OF inv] by blast
  obtain st ed where ed: "decode_one db off (entry_data c) = Some (st, ed)"
    using decode_one_safe [OF assms(1)] by blast
  obtain pool' where "set_entry pool r ed = Some pool'" "pool_inv pool'" "pool_refs pool' = pool_refs pool"
    using write_stays [OF inv, of ed] by blast
  then show ?thesis using c ed by (simp add: decode_into_def stays_def)
qed

lemma set_next_stays:
  assumes inv: "pool_inv pool" "r \<in> set (pool_refs pool)"
  shows "stays pool (set_next off r pool)"
proof -
  obtain c where c: "get_cell pool r = Some c" using pool_inv_cell [OF inv] by blast
  obtain pool' where "set_entry pool r ((entry_data c)\<lparr>offset_to_next := off\<rparr>) = Some pool'" "pool_inv pool'"
    "pool_refs pool' = pool_refs pool"
    using write_stays [OF inv] by blast
  then show ?thesis using c by (simp add: set_next_def stays_def)
qed

lemma container_end_stays:
  assumes "loop_stays pool res" and "r \<in> set (pool_refs pool)"
  shows "stays pool (container_end res r)"
proof -
  obtain st off pool' where r: "res = Some (st, off, pool')" "pool_inv pool'" "set (pool_refs pool) \<subseteq> set (pool_refs pool')"
    using assms(1) by (auto simp: stays_def loop_stays_def)
  have "stays pool (set_next off r pool')"
    using stays_trans [OF set_next_stays [OF r(2), of r off] r(3)] assms(2) r(3) by blast
  then show ?thesis using r by (auto simp: container_end_def stays_def)
qed

lemma with_cell_stays:
  assumes inv: "pool_inv pool"
    and build: "\<And>r pool. pool_inv pool \<Longrightarrow> r \<in> set (pool_refs pool) \<Longrightarrow> stays pool (build r pool)"
    and k: "\<And>off pool. pool_inv pool \<Longrightarrow> loop_stays pool (k off pool)"
  shows "loop_stays pool (with_cell calloc build k off pool)"
proof (cases "data_pool_alloc calloc pool")
  case (Pair p1 ro)
  show ?thesis
  proof (cases ro)
    case None
    then have "p1 = pool"
      using Pair data_pool_alloc_none [of pool calloc] inv by (simp add: pool_inv_def)
    then show ?thesis using Pair None inv by (simp add: with_cell_def loop_stays_def stays_def)
  next
    case (Some r)
    then have p1: "pool_inv p1" "pool_refs p1 = pool_refs pool @ [r]"
      using Pair dp.alloc_ok [of pool calloc p1 r] inv by (auto simp: pool_inv_def)
    then obtain st p2 where p2: "build r p1 = Some (st, p2)" "pool_inv p2" "set (pool_refs p1) \<subseteq> set (pool_refs p2)"
      using build [of p1 r] by (auto simp: stays_def)
    then obtain c where c: "get_cell p2 r = Some c" using pool_inv_cell [of p2 r] p1 by auto
    have "loop_stays pool (k (offset_to_next (entry_data c)) p2)"
      unfolding loop_stays_def
      by (rule stays_trans [OF k [OF p2(2), unfolded loop_stays_def]]) (use p1(2) p2(3) in auto)
    then show ?thesis
      using Pair Some p1 p2 c by (auto simp: with_cell_def loop_stays_def stays_def)
  qed
qed

lemma list_loops_stay:
  assumes "\<And>off r pool. pool_inv pool \<Longrightarrow> r \<in> set (pool_refs pool) \<Longrightarrow>
      stays pool (get_entry_data_list calloc db lv off r pool)"
  shows "pool_inv pool \<Longrightarrow> loop_stays pool (list_array_loop calloc db lv n off pool)"
    and "pool_inv pool \<Longrightarrow> loop_stays pool (list_map_loop calloc db lv n off pool)"
proof (induction n arbitrary: off pool)
  case (Suc n)
  { case 1
    then show ?case using Suc.IH(1) assms by (auto intro!: with_cell_stays) }
  { case 2
    then show ?case using Suc.IH(2) assms by (auto intro!: with_cell_stays) }
qed (simp_all add: loop_stays_def stays_refl)

lemma list_pointer_stays:
  assumes ok: "db_ok db" and inv: "pool_inv pool" "r \<in> set (pool_refs pool)"
    and rec: "\<And>off pool. pool_inv pool \<Longrightarrow> r \<in> set (pool_refs pool) \<Longrightarrow> stays pool (recurse off r pool)"
  shows "stays pool (list_pointer recurse db r ed pool)"
  unfolding list_pointer_def Let_def
proof (rule stays_checked [OF decode_into_stays [OF ok inv]], goal_cases)
  case (1 p)
  then have r: "r \<in> set (pool_refs p)" using inv by blast
  obtain c where c: "get_cell p r = Some c" using pool_inv_cell [OF 1(1) r] by blast
  have "stays p (checked (recurse (pointer (value_of ed)) r p) (set_next (offset_to_next ed) r))"
    by (rule stays_checked [OF rec [OF 1(1) r]]) (use r set_next_stays in blast)
  then show ?case using c set_next_stays [OF 1(1) r] stays_refl [OF 1(1)] by simp
qed

lemma get_entry_data_list_stays:
  assumes ok: "db_ok db"
  shows "pool_inv pool \<Longrightarrow> r \<in> set (pool_refs pool) \<Longrightarrow>
    stays pool (get_entry_data_list calloc db lv off r pool)"
proof (induction "512 - lv" arbitrary: lv off r pool rule: less_induct)
  case less
  show ?case
  proof (cases "lv < 512")
    case False
    then show ?thesis using less.prems
      by (subst get_entry_data_list.simps) (simp add: MAXIMUM_DATA_STRUCTURE_DEPTH_def stays_refl)
  next
    case True
    have rec: "stays pool (get_entry_data_list calloc db (Suc lv) off r pool)"
      if "pool_inv pool" "r \<in> set (pool_refs pool)" for off r pool
      using less.hyps that True by simp
    show ?thesis
      unfolding get_entry_data_list.simps [of calloc db lv]
    proof (subst if_not_P, goal_cases)
      case 2
      show ?case
      proof (rule stays_checked [OF decode_into_stays [OF ok less.prems]], goal_cases)
        case (1 p)
        then have r: "r \<in> set (pool_refs p)" using less.prems by blast
        obtain c where c: "get_cell p r = Some c" using pool_inv_cell [OF 1(1) r] by blast
        show ?case
          using c list_pointer_stays [of db p r "get_entry_data_list calloc db (Suc lv)", OF ok 1(1) r rec]
            list_loops_stay [OF rec 1(1)] container_end_stays [OF _ r] stays_refl [OF 1(1)]
          by (simp add: Let_def)
      qed
    qed (use True in \<open>simp add: MAXIMUM_DATA_STRUCTURE_DEPTH_def\<close>)
  qed
qed

section \<open>What the list contains\<close>

text \<open>The values under a value, in the order in which they are listed, and the nesting depth.\<close>

fun flatten :: "mmval \<Rightarrow> mmval list" where
  "flatten (MScalar ty x) = [MScalar ty x]"
| "flatten (MString s) = [MString s]"
| "flatten (MArray vs) = MArray vs # concat (map flatten vs)"
| "flatten (MMap kvs) = MMap kvs # concat (map (\<lambda>kv. MString (fst kv) # flatten (snd kv)) kvs)"

fun height :: "mmval \<Rightarrow> nat" where
  "height (MScalar ty x) = 0"
| "height (MString s) = 0"
| "height (MArray vs) = Suc (foldr max (map height vs) 0)"
| "height (MMap kvs) = Suc (foldr max (map (\<lambda>kv. height (snd kv)) kvs) 0)"

definition shows_node :: "MMDB_s \<Rightarrow> MMDB_entry_data_s \<Rightarrow> mmval \<Rightarrow> bool" where
  "shows_node db ed v \<longleftrightarrow> has_data ed \<and>
    (case v of
       MScalar ty x \<Rightarrow> e_type ed = ty \<and> value_of ed = x \<and>
         ty \<notin> {MMDB_DATA_TYPE_POINTER, MMDB_DATA_TYPE_UTF8_STRING, MMDB_DATA_TYPE_MAP, MMDB_DATA_TYPE_ARRAY}
     | MString s \<Rightarrow> e_type ed = MMDB_DATA_TYPE_UTF8_STRING \<and> entry_string db ed = Some s
     | MArray vs \<Rightarrow> e_type ed = MMDB_DATA_TYPE_ARRAY \<and> unat (data_size ed) = length vs
     | MMap kvs \<Rightarrow> e_type ed = MMDB_DATA_TYPE_MAP \<and> unat (data_size ed) = length kvs)"

lemma entry_string_next [simp]: "entry_string db (ed\<lparr>offset_to_next := n\<rparr>) = entry_string db ed"
  by (simp add: entry_string_def cong: if_cong MMDB_value.case_cong option.case_cong)

lemma shows_node_next [simp]: "shows_node db (ed\<lparr>offset_to_next := n\<rparr>) v = shows_node db ed v"
  by (cases v) (simp_all add: shows_node_def)

lemma rep0_decodes: "rep0 db off v n \<Longrightarrow> decodes db off (\<lambda>e. shows_node db e v)"
  by (erule rep0.cases; simp only:) (elim decodes_mono', simp add: shows_node_def)+

text \<open>Cell \<open>r\<close>, the last one of the pool, and new cells after it hold \<open>v\<close>, which ends at \<open>n\<close>.\<close>

definition listed ::
  "MMDB_s \<Rightarrow> MMDB_data_pool_s \<Rightarrow> cell_ref list \<Rightarrow> cell_ref \<Rightarrow> mmval \<Rightarrow> u32 \<Rightarrow>
    (mmdb_status \<times> MMDB_data_pool_s) option \<Rightarrow> bool" where
  "listed db pool rs r v n res \<longleftrightarrow>
    (\<exists>st pool'. res = Some (st, pool') \<and>
      (st = MMDB_OUT_OF_MEMORY_ERROR \<or>
       st = MMDB_SUCCESS \<and> pool_inv pool' \<and>
         (\<exists>new. pool_refs pool' = rs @ r # new \<and> (\<forall>q \<in> set rs. entry_at pool' q = entry_at pool q) \<and>
            list_all2 (shows_node db) (map (entry_at pool') (r # new)) (flatten v) \<and>
            offset_to_next (entry_at pool' r) = n)))"

definition loop_listed ::
  "MMDB_s \<Rightarrow> MMDB_data_pool_s \<Rightarrow> mmval list \<Rightarrow> u32 \<Rightarrow>
    (mmdb_status \<times> u32 \<times> MMDB_data_pool_s) option \<Rightarrow> bool" where
  "loop_listed db pool vs n res \<longleftrightarrow>
    (\<exists>st off pool'. res = Some (st, off, pool') \<and>
      (st = MMDB_OUT_OF_MEMORY_ERROR \<or>
       st = MMDB_SUCCESS \<and> off = n \<and> pool_inv pool' \<and>
         (\<exists>new. pool_refs pool' = pool_refs pool @ new \<and>
            (\<forall>q \<in> set (pool_refs pool). entry_at pool' q = entry_at pool q) \<and>
            list_all2 (shows_node db) (map (entry_at pool') new) vs)))"

lemma decode_into_listed:
  assumes "decodes db off Q" and inv: "pool_inv pool" "pool_refs pool = rs @ [r]"
  obtains pool' where "decode_into db off r pool = Some (MMDB_SUCCESS, pool')" "pool_inv pool'"
    "pool_refs pool' = rs @ [r]" "\<forall>q \<in> set rs. entry_at pool' q = entry_at pool q"
    "has_data (entry_at pool' r)" "Q (entry_at pool' r)"
proof -
  have r: "r \<in> set (pool_refs pool)" "r \<notin> set rs"
    using inv(2) distinct_pool_refs [of pool] by auto
  obtain c where c: "get_cell pool r = Some c" using pool_inv_cell [OF inv(1) r(1)] by blast
  obtain ed where ed: "decode_one db off (entry_data c) = Some (MMDB_SUCCESS, ed)" "has_data ed" "Q ed"
    using assms(1) unfolding decodes_def by blast
  obtain p where "set_entry pool r ed = Some p" "pool_inv p" "pool_refs p = pool_refs pool" "entry_at p r = ed"
    "\<And>q. q \<noteq> r \<Longrightarrow> entry_at p q = entry_at pool q"
    using write_stays [OF inv(1) r(1), of ed] by blast
  moreover from this r(2) have "\<forall>q \<in> set rs. entry_at p q = entry_at pool q" by metis
  ultimately show ?thesis using c ed inv by (intro that [of p]) (simp_all add: decode_into_def)
qed

lemma set_next_listed:
  assumes inv: "pool_inv pool" "r \<in> set (pool_refs pool)"
  obtains pool' where "set_next off r pool = Some (MMDB_SUCCESS, pool')" "pool_inv pool'"
    "pool_refs pool' = pool_refs pool" "entry_at pool' r = (entry_at pool r)\<lparr>offset_to_next := off\<rparr>"
    "\<And>q. q \<noteq> r \<Longrightarrow> entry_at pool' q = entry_at pool q"
proof -
  obtain c where c: "get_cell pool r = Some c" "entry_data c = entry_at pool r"
    using pool_inv_cell [OF inv] by blast
  obtain p where "set_entry pool r ((entry_at pool r)\<lparr>offset_to_next := off\<rparr>) = Some p" "pool_inv p"
    "pool_refs p = pool_refs pool" "entry_at p r = (entry_at pool r)\<lparr>offset_to_next := off\<rparr>"
    "\<And>q. q \<noteq> r \<Longrightarrow> entry_at p q = entry_at pool q"
    using write_stays [OF inv] by blast
  then show ?thesis using c by (intro that [of p]) (simp_all add: set_next_def)
qed

lemma with_cell_listed:
  assumes inv: "pool_inv pool"
    and build: "\<And>r p. pool_inv p \<Longrightarrow> pool_refs p = pool_refs pool @ [r] \<Longrightarrow>
      listed db p (pool_refs pool) r v m (build r p)"
    and k: "\<And>p. pool_inv p \<Longrightarrow> loop_listed db p vs n (k m p)"
  shows "loop_listed db pool (flatten v @ vs) n (with_cell calloc build k off pool)"
proof (cases "data_pool_alloc calloc pool")
  case (Pair p1 ro)
  show ?thesis
  proof (cases ro)
    case None
    then show ?thesis using Pair by (simp add: with_cell_def loop_listed_def)
  next
    case (Some r)
    then have p1: "pool_inv p1" "pool_refs p1 = pool_refs pool @ [r]"
      "\<forall>q \<in> set (pool_refs pool). entry_at p1 q = entry_at pool q"
      using Pair dp.alloc_ok [of pool calloc p1 r] inv by (auto simp: pool_inv_def)
    from build [OF p1(1,2)] obtain st p2 where b: "build r p1 = Some (st, p2)"
      and st: "st = MMDB_OUT_OF_MEMORY_ERROR \<or> st = MMDB_SUCCESS \<and> pool_inv p2 \<and>
         (\<exists>new. pool_refs p2 = pool_refs pool @ r # new \<and> (\<forall>q \<in> set (pool_refs pool). entry_at p2 q = entry_at p1 q) \<and>
            list_all2 (shows_node db) (map (entry_at p2) (r # new)) (flatten v) \<and>
            offset_to_next (entry_at p2 r) = m)"
      unfolding listed_def by blast
    show ?thesis
    proof (cases "st = MMDB_SUCCESS")
      case False
      then show ?thesis using st b Pair Some by (auto simp: with_cell_def loop_listed_def)
    next
      case True
      then obtain new where new: "pool_inv p2" "pool_refs p2 = pool_refs pool @ r # new"
        "\<forall>q \<in> set (pool_refs pool). entry_at p2 q = entry_at p1 q"
        "list_all2 (shows_node db) (map (entry_at p2) (r # new)) (flatten v)"
        "offset_to_next (entry_at p2 r) = m" using st by auto
      then obtain c where c: "get_cell p2 r = Some c" "entry_data c = entry_at p2 r"
        using pool_inv_cell [of p2 r] by auto
      from k [OF new(1)] obtain st3 off3 p3 where p3: "k m p2 = Some (st3, off3, p3)"
        "st3 = MMDB_OUT_OF_MEMORY_ERROR \<or> st3 = MMDB_SUCCESS \<and> off3 = n \<and> pool_inv p3 \<and>
         (\<exists>more. pool_refs p3 = pool_refs p2 @ more \<and>
            (\<forall>q \<in> set (pool_refs p2). entry_at p3 q = entry_at p2 q) \<and>
            list_all2 (shows_node db) (map (entry_at p3) more) vs)"
        unfolding loop_listed_def by blast
      have res: "with_cell calloc build k off pool = Some (st3, off3, p3)"
        using Pair Some b True c new(5) p3(1) by (simp add: with_cell_def)
      show ?thesis
      proof (cases "st3 = MMDB_SUCCESS")
        case False
        then show ?thesis using res p3 by (auto simp: loop_listed_def)
      next
        case True
        then obtain more where more: "pool_refs p3 = pool_refs p2 @ more" "off3 = n" "pool_inv p3"
            "\<forall>q \<in> set (pool_refs p2). entry_at p3 q = entry_at p2 q"
            "list_all2 (shows_node db) (map (entry_at p3) more) vs" using p3 by auto
        have "map (entry_at p3) (r # new) = map (entry_at p2) (r # new)" using more(4) new(2) by simp
        then have "list_all2 (shows_node db) (map (entry_at p3) ((r # new) @ more)) (flatten v @ vs)"
          unfolding map_append using new(4) more(5) by (intro list_all2_appendI) (simp_all only:)
        moreover have "\<forall>q \<in> set (pool_refs pool). entry_at p3 q = entry_at pool q"
          using more(4) new(2,3) p1(3) by simp
        ultimately show ?thesis
          unfolding loop_listed_def using res True more new(2)
          by (intro exI [of _ st3] exI [of _ off3] exI [of _ p3]) auto
      qed
    qed
  qed
qed

lemma listed_from:
  assumes "listed db p1 rs r v n res" and "\<forall>q \<in> set rs. entry_at p1 q = entry_at p q"
  shows "listed db p rs r v n res"
  using assms unfolding listed_def by fastforce

lemma listed_here:
  assumes "pool_inv p" and "pool_refs p = rs @ [r]" and "shows_node db (entry_at p r) v"
    and "flatten v = [v]" and "offset_to_next (entry_at p r) = n"
  shows "listed db p rs r v n (Some (MMDB_SUCCESS, p))"
  using assms by (simp add: listed_def)

lemma listed_set_next:
  assumes "listed db p rs r v m res"
  shows "listed db p rs r v n (checked res (set_next n r))"
proof -
  obtain st p1 where r1: "res = Some (st, p1)" and
    st: "st = MMDB_OUT_OF_MEMORY_ERROR \<or> st = MMDB_SUCCESS \<and> pool_inv p1 \<and>
         (\<exists>new. pool_refs p1 = rs @ r # new \<and> (\<forall>q \<in> set rs. entry_at p1 q = entry_at p q) \<and>
            list_all2 (shows_node db) (map (entry_at p1) (r # new)) (flatten v))"
    using assms unfolding listed_def by blast
  show ?thesis
  proof (cases "st = MMDB_SUCCESS")
    case False
    then show ?thesis using r1 st by (simp add: checked_def listed_def)
  next
    case True
    then obtain new where new: "pool_inv p1" "pool_refs p1 = rs @ r # new"
      "\<forall>q \<in> set rs. entry_at p1 q = entry_at p q"
      "list_all2 (shows_node db) (map (entry_at p1) (r # new)) (flatten v)" using st by auto
    obtain p2 where p2: "set_next n r p1 = Some (MMDB_SUCCESS, p2)" "pool_inv p2"
      "pool_refs p2 = pool_refs p1" "entry_at p2 r = (entry_at p1 r)\<lparr>offset_to_next := n\<rparr>"
      "\<And>q. q \<noteq> r \<Longrightarrow> entry_at p2 q = entry_at p1 q"
      using set_next_listed [OF new(1), of r n] new(2) by auto
    have nin: "r \<notin> set rs" "r \<notin> set new" using distinct_pool_refs [of p1] new(2) by auto
    have same: "map (entry_at p2) new = map (entry_at p1) new" "\<forall>q \<in> set rs. entry_at p2 q = entry_at p q"
      using p2(5) new(3) nin by (auto intro!: map_cong) (metis p2(5))+
    obtain w ws where f: "flatten v = w # ws" using new(4) by (cases "flatten v") auto
    have "list_all2 (shows_node db) (map (entry_at p2) (r # new)) (flatten v)"
      using new(4) unfolding list.map same(1) p2(4) f by simp
    moreover have "checked res (set_next n r) = Some (MMDB_SUCCESS, p2)"
      using r1 True p2(1) by (simp add: checked_def)
    moreover have "pool_refs p2 = rs @ r # new" "offset_to_next (entry_at p2 r) = n"
      using p2(3,4) new(2) by simp_all
    ultimately show ?thesis unfolding listed_def using same(2) p2(2) by blast
  qed
qed

lemma container_end_listed:
  assumes "loop_listed db p vs n res" and refs: "pool_refs p = rs @ [r]"
    and v: "shows_node db (entry_at p r) v" "flatten v = v # vs"
  shows "listed db p rs r v n (container_end res r)"
proof -
  obtain st off p1 where r1: "res = Some (st, off, p1)" and
    st: "st = MMDB_OUT_OF_MEMORY_ERROR \<or> st = MMDB_SUCCESS \<and> off = n \<and> pool_inv p1 \<and>
         (\<exists>new. pool_refs p1 = pool_refs p @ new \<and>
            (\<forall>q \<in> set (pool_refs p). entry_at p1 q = entry_at p q) \<and>
            list_all2 (shows_node db) (map (entry_at p1) new) vs)"
    using assms(1) unfolding loop_listed_def by blast
  have "listed db p rs r v (offset_to_next (entry_at p1 r)) (Some (st, p1))"
    using st refs v unfolding listed_def by auto
  from listed_set_next [OF this] show ?thesis
    using r1 st by (auto simp: container_end_def checked_def listed_def)
qed

lemma height_bound:
  "v \<in> set vs \<Longrightarrow> height v < height (MArray vs)"
  "kv \<in> set kvs \<Longrightarrow> height (snd kv) < height (MMap kvs)"
  by (induction vs; fastforce simp: less_Suc_eq_le)
    (induction kvs; fastforce simp: less_Suc_eq_le)

lemma get_entry_data_list_decoded:
  assumes "decodes db off Q" and "lv < 512" and "pool_inv p" and "pool_refs p = rs @ [r]"
    and "\<And>p1 ed. pool_inv p1 \<Longrightarrow> pool_refs p1 = rs @ [r] \<Longrightarrow> \<forall>q \<in> set rs. entry_at p1 q = entry_at p q \<Longrightarrow>
      ed = entry_at p1 r \<Longrightarrow> has_data ed \<Longrightarrow> Q ed \<Longrightarrow>
      listed db p rs r v n
        (if e_type ed = MMDB_DATA_TYPE_POINTER then
           list_pointer (get_entry_data_list calloc db (Suc lv)) db r ed p1
         else if e_type ed = MMDB_DATA_TYPE_ARRAY then
           container_end (list_array_loop calloc db (Suc lv) (unat (data_size ed)) (offset_to_next ed) p1) r
         else if e_type ed = MMDB_DATA_TYPE_MAP then
           container_end (list_map_loop calloc db (Suc lv) (unat (data_size ed)) (offset_to_next ed) p1) r
         else Some (MMDB_SUCCESS, p1))"
  shows "listed db p rs r v n (get_entry_data_list calloc db lv off r p)"
proof -
  obtain p1 where p1: "decode_into db off r p = Some (MMDB_SUCCESS, p1)" "pool_inv p1"
    "pool_refs p1 = rs @ [r]" "\<forall>q \<in> set rs. entry_at p1 q = entry_at p q" "has_data (entry_at p1 r)" "Q (entry_at p1 r)"
    using decode_into_listed [OF assms(1,3,4)] by blast
  obtain c where c: "get_cell p1 r = Some c" "entry_data c = entry_at p1 r"
    using pool_inv_cell [OF p1(2), of r] p1(3) by auto
  show ?thesis
    using assms(5) [OF p1(2-4) c(2) p1(5,6) [folded c(2)]] p1(1) c(1) assms(2)
    by (subst get_entry_data_list.simps)
      (simp add: MAXIMUM_DATA_STRUCTURE_DEPTH_def checked_def Let_def split del: if_split)
qed

lemma listed_pointer:
  assumes rep: "rep0 db (pointer (value_of ed)) v m" and inv: "pool_inv p" "pool_refs p = rs @ [r]"
    and n: "offset_to_next ed = n"
    and rec: "\<And>p. pool_inv p \<Longrightarrow> pool_refs p = rs @ [r] \<Longrightarrow> listed db p rs r v m (recurse (pointer (value_of ed)) r p)"
  shows "listed db p rs r v n (list_pointer recurse db r ed p)"
proof -
  obtain p1 where p1: "decode_into db (pointer (value_of ed)) r p = Some (MMDB_SUCCESS, p1)" "pool_inv p1"
    "pool_refs p1 = rs @ [r]" "\<forall>q \<in> set rs. entry_at p1 q = entry_at p q" "shows_node db (entry_at p1 r) v"
    using decode_into_listed [OF rep0_decodes [OF rep] inv] by blast
  obtain c where c: "get_cell p1 r = Some c" "entry_data c = entry_at p1 r"
    using pool_inv_cell [OF p1(2), of r] p1(3) by auto
  have np: "e_type (entry_at p1 r) \<noteq> MMDB_DATA_TYPE_POINTER"
    using p1(5) by (cases v) (auto simp: shows_node_def)
  have "listed db p1 rs r v n (if e_type (entry_at p1 r) = MMDB_DATA_TYPE_ARRAY \<or> e_type (entry_at p1 r) = MMDB_DATA_TYPE_MAP
      then checked (recurse (pointer (value_of ed)) r p1) (set_next n r) else set_next n r p1)"
  proof (cases "container v")
    case True
    then show ?thesis using p1(5) listed_set_next [OF rec [OF p1(2,3)]]
      by (cases v) (simp_all add: shows_node_def)
  next
    case False
    then have "flatten v = [v]" and ty: "e_type (entry_at p1 r) \<notin> {MMDB_DATA_TYPE_ARRAY, MMDB_DATA_TYPE_MAP}"
      using p1(5) by (cases v; auto simp: shows_node_def)+
    from listed_set_next [OF listed_here [OF p1(2,3,5) this(1) refl], of n] ty show ?thesis
      by (simp add: checked_def)
  qed
  from listed_from [OF this p1(4)] show ?thesis
    using p1(1) c np n by (simp add: list_pointer_def checked_def Let_def)
qed

lemma rep_listed:
  shows "rep0 db off v n \<Longrightarrow> lv + 2 * height v < 512 \<Longrightarrow> pool_inv p \<Longrightarrow> pool_refs p = rs @ [r] \<Longrightarrow>
      listed db p rs r v n (get_entry_data_list calloc db lv off r p)"
    and "rep db off v n \<Longrightarrow> lv + 2 * height v + 1 < 512 \<Longrightarrow> pool_inv p \<Longrightarrow> pool_refs p = rs @ [r] \<Longrightarrow>
      listed db p rs r v n (get_entry_data_list calloc db lv off r p)"
    and "rep_list db m vs n \<Longrightarrow> \<forall>v \<in> set vs. lv + 2 * height v + 1 < 512 \<Longrightarrow> pool_inv p \<Longrightarrow>
      loop_listed db p (concat (map flatten vs)) n (list_array_loop calloc db lv (length vs) m p)"
    and "rep_map db m kvs n \<Longrightarrow> lv + 1 < 512 \<and> (\<forall>kv \<in> set kvs. lv + 2 * height (snd kv) + 1 < 512) \<Longrightarrow> pool_inv p \<Longrightarrow>
      loop_listed db p (concat (map (\<lambda>kv. MString (fst kv) # flatten (snd kv)) kvs)) n
        (list_map_loop calloc db lv (length kvs) m p)"
proof (induction arbitrary: lv p rs r and lv p rs r and lv p and lv p rule: rep0_rep_rep_list_rep_map.inducts)
  case (scalar off ty x n)
  show ?case
    by (rule get_entry_data_list_decoded [OF scalar(1) _ scalar(4,5)])
      (use scalar(2,3) in \<open>auto simp: shows_node_def intro!: listed_from [OF listed_here]\<close>)
next
  case (string off s n)
  show ?case
    by (rule get_entry_data_list_decoded [OF string(1) _ string(3,4)])
      (use string(2) in \<open>auto simp: shows_node_def intro!: listed_from [OF listed_here]\<close>)
next
  case (array off vs m n)
  show ?case
  proof (rule get_entry_data_list_decoded [OF array(1) _ array(5,6)], goal_cases)
    case (2 p1 ed)
    have "\<forall>v \<in> set vs. Suc lv + 2 * height v + 1 < 512" using array(4) height_bound(1) by fastforce
    from container_end_listed [OF array(3) [OF this 2(1)] 2(2), of "MArray vs"]
    have "listed db p1 rs r (MArray vs) n (container_end (list_array_loop calloc db (Suc lv) (length vs) m p1) r)"
      using 2(4-6) by (simp add: shows_node_def)
    from listed_from [OF this 2(3)] show ?case using 2(4-6) by simp
  qed (use array in simp)
next
  case (map off kvs m n)
  show ?case
  proof (rule get_entry_data_list_decoded [OF map(1) _ map(5,6)], goal_cases)
    case (2 p1 ed)
    have "Suc lv + 1 < 512 \<and> (\<forall>kv \<in> set kvs. Suc lv + 2 * height (snd kv) + 1 < 512)"
      using map(4) height_bound(2) by fastforce
    from container_end_listed [OF map(3) [OF this 2(1)] 2(2), of "MMap kvs"]
    have "listed db p1 rs r (MMap kvs) n (container_end (list_map_loop calloc db (Suc lv) (length kvs) m p1) r)"
      using 2(4-6) by (simp add: shows_node_def)
    from listed_from [OF this 2(3)] show ?case using 2(4-6) by simp
  qed (use map in simp)
next
  case (direct off v n)
  then show ?case by simp
next
  case (pointer off ptr n v m)
  show ?case
  proof (rule get_entry_data_list_decoded [OF pointer(1) _ pointer(5,6)], goal_cases)
    case (2 p1 ed)
    have "listed db p1 rs r v n (list_pointer (get_entry_data_list calloc db (Suc lv)) db r ed p1)"
      using 2 pointer(2,4) by (intro listed_pointer [of db ed v m]) (auto intro!: pointer(3))
    then show ?case using 2 listed_from by auto
  qed (use pointer in simp)
next
  case (nil m)
  then show ?case by (simp add: loop_listed_def)
next
  case (cons m v m' vs n)
  have "loop_listed db p (flatten v @ concat (map flatten vs)) n
      (with_cell calloc (get_entry_data_list calloc db lv m) (list_array_loop calloc db lv (length vs)) m p)"
    using cons.prems by (intro with_cell_listed [where m = m'] cons.IH) auto
  then show ?case by simp
next
  case (nil_map m)
  then show ?case by (simp add: loop_listed_def)
next
  case (cons_map m k m' v m'' kvs n)
  let ?rest = "concat (map (\<lambda>kv. MString (fst kv) # flatten (snd kv)) kvs)"
  have "loop_listed db p (flatten (MString k) @ flatten v @ ?rest) n
      (with_cell calloc (get_entry_data_list calloc db lv m)
        (\<lambda>offset. with_cell calloc (get_entry_data_list calloc db lv offset)
          (list_map_loop calloc db lv (length kvs)) offset) m p)"
    using cons_map.prems by (intro with_cell_listed [where m = m'] with_cell_listed [where m = m''] cons_map.IH) auto
  then show ?case by simp
qed

section \<open>The properties of listing\<close>

lemma new_pool_cell:
  assumes "data_pool_new calloc sz = Some p0" and "data_pool_alloc calloc p0 = (p1, Some r)"
  shows "pool_inv p1" "pool_refs p1 = [r]"
  using dp.alloc_ok [of p0 calloc p1 r] data_pool_new_ok [OF assms(1)] unlinked_new [OF assms(1)] assms(2)
  by (auto simp: pool_inv_def)

lemma MMDB_get_entry_data_list_cases:
  obtains (no_memory) "MMDB_get_entry_data_list calloc db off = Some (MMDB_OUT_OF_MEMORY_ERROR, None)"
  | (listing) p r where "pool_inv p" "pool_refs p = [r]"
      "MMDB_get_entry_data_list calloc db off =
        do { (status, pool) \<leftarrow> get_entry_data_list calloc db 0 off r p;
             if status \<noteq> MMDB_SUCCESS then Some (status, None)
             else do {
               (pool, list) \<leftarrow> data_pool_to_list pool;
               (case list of
                  None \<Rightarrow> Some (MMDB_OUT_OF_MEMORY_ERROR, None)
                | Some l \<Rightarrow> Some (MMDB_SUCCESS, Some (pool, l))) } }"
proof (cases "data_pool_new calloc MMDB_POOL_INIT_SIZE")
  case None
  then show ?thesis using no_memory by (simp add: MMDB_get_entry_data_list_def)
next
  case (Some p0)
  obtain p1 ro where a: "data_pool_alloc calloc p0 = (p1, ro)" by fastforce
  show ?thesis
  proof (cases ro)
    case None
    then show ?thesis using no_memory Some a by (simp add: MMDB_get_entry_data_list_def)
  next
    case (Some r)
    note c = new_pool_cell [OF \<open>data_pool_new calloc MMDB_POOL_INIT_SIZE = Some p0\<close> a [unfolded Some]]
    show ?thesis
      by (rule listing [OF c])
        (simp add: MMDB_get_entry_data_list_def a Some \<open>data_pool_new calloc MMDB_POOL_INIT_SIZE = Some p0\<close>)
  qed
qed

text \<open>
  C37: listing returns for every content of the data section, however deep or cyclic its
  pointers are, and it returns a list exactly when it reports success.
\<close>

theorem MMDB_get_entry_data_list_total:
  assumes "db_ok db"
  shows "\<exists>status list. MMDB_get_entry_data_list calloc db off = Some (status, list) \<and>
    (status = MMDB_SUCCESS \<longleftrightarrow> list \<noteq> None)"
proof (cases rule: MMDB_get_entry_data_list_cases [of calloc db off])
  case (listing p r)
  then obtain st p1 where p1: "get_entry_data_list calloc db 0 off r p = Some (st, p1)" "pool_inv p1"
    "r \<in> set (pool_refs p1)"
    using get_entry_data_list_stays [OF assms listing(1), of r calloc 0 off] by (auto simp: stays_def)
  then obtain p2 where "data_pool_to_list p1 = Some (p2, Some (0, 0))"
    using data_pool_list [of p1] length_pos_if_in_set [OF p1(3)] by (auto simp: pool_inv_def)
  then show ?thesis using listing(3) p1 by auto
qed simp

text \<open>
  When the bytes at an offset represent a value nested less than 255 deep, the list has one
  entry for the value and each value and key below it, in depth-first order, pointers resolved,
  unless memory runs out.
\<close>

theorem MMDB_get_entry_data_list_correct:
  assumes "rep db off v n" and "2 * height v + 1 < MAXIMUM_DATA_STRUCTURE_DEPTH"
  shows "MMDB_get_entry_data_list calloc db off = Some (MMDB_OUT_OF_MEMORY_ERROR, None) \<or>
    (\<exists>pool es. MMDB_get_entry_data_list calloc db off = Some (MMDB_SUCCESS, Some (pool, (0, 0))) \<and>
      follow pool (length (flatten v)) (Some (0, 0)) = Some es \<and>
      list_all2 (shows_node db) es (flatten v))"
proof (cases rule: MMDB_get_entry_data_list_cases [of calloc db off])
  case (listing p r)
  have "listed db p [] r v n (get_entry_data_list calloc db 0 off r p)"
    using rep_listed(2) [OF assms(1), of 0 p "[]" r calloc] assms(2) listing
    by (simp add: MAXIMUM_DATA_STRUCTURE_DEPTH_def)
  then obtain st p1 where p1: "get_entry_data_list calloc db 0 off r p = Some (st, p1)"
    "st = MMDB_OUT_OF_MEMORY_ERROR \<or> st = MMDB_SUCCESS \<and> pool_inv p1 \<and> pool_refs p1 \<noteq> [] \<and>
      list_all2 (shows_node db) (pool_entries p1) (flatten v)"
    unfolding listed_def pool_entries_def by auto
  show ?thesis
  proof (cases "st = MMDB_SUCCESS")
    case True
    then have ok: "pool_inv p1" "pool_refs p1 \<noteq> []" "list_all2 (shows_node db) (pool_entries p1) (flatten v)"
      using p1(2) by auto
    have len: "length (pool_refs p1) = length (flatten v)"
      using list_all2_lengthD [OF ok(3)] by (simp add: pool_entries_def)
    obtain p2 where "data_pool_to_list p1 = Some (p2, Some (0, 0))"
      "follow p2 (length (flatten v)) (Some (0, 0)) = Some (pool_entries p1)"
      using data_pool_list [of p1] ok len by (auto simp: pool_inv_def)
    then show ?thesis using listing(3) p1(1) True ok(3) by auto
  next
    case False
    then show ?thesis using listing(3) p1 by auto
  qed
qed simp

theorem MMDB_get_entry_data_list_total_witness:
  "\<exists>status list. MMDB_get_entry_data_list (\<lambda>_ _. True) (blank_db [225, 255, 255, 255]) 0 = Some (status, list) \<and>
    (status = MMDB_SUCCESS \<longleftrightarrow> list \<noteq> None)"
  by (rule MMDB_get_entry_data_list_total) (simp add: db_ok_def blank_db_def)

theorem MMDB_get_entry_data_list_witness:
  "let v = meaning sample_doc in
    MMDB_get_entry_data_list (\<lambda>_ _. True) sample_db 0 = Some (MMDB_OUT_OF_MEMORY_ERROR, None) \<or>
    (\<exists>pool es. MMDB_get_entry_data_list (\<lambda>_ _. True) sample_db 0 = Some (MMDB_SUCCESS, Some (pool, (0, 0))) \<and>
      follow pool (length (flatten v)) (Some (0, 0)) = Some es \<and>
      list_all2 (shows_node sample_db) es (flatten v))"
  unfolding Let_def
  by (rule MMDB_get_entry_data_list_correct
      [OF rep0_rep_rep_list_rep_map.direct [OF enc_rep(1) [OF sample_ok]]])
    (simp add: sample_doc_def MAXIMUM_DATA_STRUCTURE_DEPTH_def)

end
