(* ===== verification/Buffers.thy ===== *)
theory Buffers
  imports Prelude
begin

text \<open>
  Writes into fixed-size buffers, and the arithmetic of data that arrive in pieces of any size and
  are processed in blocks: shared by the hash object and the verifying stream.
\<close>

text \<open>
  \<open>memcpy\<close> or \<open>memset\<close> into a buffer. The result is longer than the buffer exactly when the copy
  leaves it, so that an invariant on the length of the buffer excludes that.
\<close>

definition blit :: "'a list \<Rightarrow> nat \<Rightarrow> 'a list \<Rightarrow> 'a list" where
  "blit m i xs = take i m @ xs @ drop (i + length xs) m"

lemma blit_prefix: "i \<le> length m \<Longrightarrow> take (i + length xs) (blit m i xs) = take i m @ xs"
  by (simp add: blit_def)

lemma length_blit: "i + length xs \<le> length m \<Longrightarrow> length (blit m i xs) = length m"
  by (simp add: blit_def)

text \<open>Data that arrive in pieces and are processed in blocks of \<open>k\<close>: the full blocks and the rest.\<close>

definition full :: "nat \<Rightarrow> 'a list \<Rightarrow> 'a list" where
  "full k m = take (length m - length m mod k) m"

definition rest :: "nat \<Rightarrow> 'a list \<Rightarrow> 'a list" where
  "rest k m = drop (length m - length m mod k) m"

lemma full_rest: "full k m @ rest k m = m"
  by (simp add: full_def rest_def)

lemma length_full: "length (full k m) = length m - length m mod k" and
  length_rest: "length (rest k m) = length m mod k"
  by (simp_all add: full_def rest_def)

lemma full_mod: "length (full k m) mod k = 0"
  by (simp add: length_full minus_mod_eq_mult_div)

lemma full_rest_eqI:
  assumes "0 < k" "m = xs @ ys" "length xs mod k = 0" "length ys < k"
  shows "full k m = xs" "rest k m = ys"
proof -
  have "(length xs + length ys) mod k = length ys"
    using assms(3,4) by (metis add_0 mod_add_left_eq mod_less)
  then show "full k m = xs" "rest k m = ys" using assms(2) by (simp_all add: full_def rest_def)
qed

text \<open>How the parts change when data \<open>d\<close> arrive.\<close>

lemma full_rest_short:
  assumes "length (rest k m) + length d < k"
  shows "full k (m @ d) = full k m" "rest k (m @ d) = rest k m @ d"
proof -
  have m: "m @ d = full k m @ (rest k m @ d)" by (simp add: full_rest flip: append_assoc)
  have "0 < k" using assms by simp
  from full_rest_eqI [OF this m full_mod] assms
  show "full k (m @ d) = full k m" "rest k (m @ d) = rest k m @ d" by simp_all
qed

lemma full_rest_block:
  assumes "length (rest k m) + length d = k" "0 < k"
  shows "full k (m @ d) = full k m @ (rest k m @ d)" "rest k (m @ d) = []"
proof -
  have m: "m @ d = (full k m @ (rest k m @ d)) @ []" by (simp add: full_rest flip: append_assoc)
  have "length (full k m @ (rest k m @ d)) mod k = 0" using assms full_mod [of k m] by simp
  from full_rest_eqI [OF assms(2) m this] assms(2)
  show "full k (m @ d) = full k m @ (rest k m @ d)" "rest k (m @ d) = []" by simp_all
qed

end
