(* ===== verification/TigerHash.thy ===== *)
theory TigerHash
  imports TigerTable Buffers
begin

text \<open>
  The Tiger hash of the client (\<open>client/TigerHash.cpp\<close>, \<open>client/TigerHash.h\<close>).

  \<open>build\<close> has the preprocessor switches under which the file is compiled. The object is the
  record \<open>TigerHash\<close>; \<open>TigerHash_update\<close> and \<open>TigerHash_finalize\<close> are its two operations, with
  the buffer \<open>tmp\<close> of 64 bytes that collects an incomplete block. The theorems say that the
  digest is that of the padded message, however the message was cut into updates, and that every
  build computes the same digest.
\<close>

section \<open>The compression function\<close>

record build =
  TIGER_ARCH64 :: bool
  TIGER_SLOW_MULT :: bool
  TIGER_BIG_ENDIAN :: bool

type_synonym abc = "u64 \<times> u64 \<times> u64"
type_synonym block = "u64 \<times> u64 \<times> u64 \<times> u64 \<times> u64 \<times> u64 \<times> u64 \<times> u64"

text \<open>\<open>(c >> (k*8)) & 0xFF\<close>, and the same byte taken through the narrowing casts of 32-bit builds.\<close>

definition byte_at :: "u64 \<Rightarrow> nat \<Rightarrow> nat" where
  "byte_at c k = unat (drop_bit (8 * k) c AND 0xFF)"

definition cast8 :: "u64 \<Rightarrow> nat" where
  "cast8 c = unat (ucast c :: u8)"

definition cast32_8 :: "u64 \<Rightarrow> nat \<Rightarrow> nat" where
  "cast32_8 c k = unat (ucast (drop_bit (8 * k) (ucast c :: u32)) :: u8)"

definition round_arch64 :: "u64 \<Rightarrow> u64 \<Rightarrow> u64 \<Rightarrow> u64 \<Rightarrow> abc" where
  "round_arch64 a b c x = (
     let c = c XOR x;
         a = a - (t1 ! byte_at c 0 XOR t2 ! byte_at c 2 XOR t3 ! byte_at c 4 XOR t4 ! byte_at c 6);
         b = b + (t4 ! byte_at c 1 XOR t3 ! byte_at c 3 XOR t2 ! byte_at c 5 XOR t1 ! byte_at c 7)
     in (a, b, c))"

definition round_arch32 :: "u64 \<Rightarrow> u64 \<Rightarrow> u64 \<Rightarrow> u64 \<Rightarrow> abc" where
  "round_arch32 a b c x = (
     let c = c XOR x;
         h = drop_bit (4 * 8) c;
         a = a - (t1 ! cast8 c XOR t2 ! cast32_8 c 2 XOR t3 ! cast8 h XOR t4 ! cast32_8 h 2);
         b = b + (t4 ! cast32_8 c 1 XOR t3 ! cast32_8 c 3 XOR t2 ! cast32_8 h 1 XOR t1 ! cast32_8 h 3)
     in (a, b, c))"

definition tiger_round :: "build \<Rightarrow> u64 \<Rightarrow> u64 \<Rightarrow> u64 \<Rightarrow> u64 \<Rightarrow> abc" where
  "tiger_round cfg = (if TIGER_ARCH64 cfg then round_arch64 else round_arch32)"

text \<open>
  The six \<open>pass\<close> macros differ only in how they multiply: \<open>m\<close> is the statement between two
  rounds. A round on \<open>(b, c, a)\<close> returns the new values in that order.
\<close>

definition pass_with :: "(u64 \<Rightarrow> u64) \<Rightarrow> build \<Rightarrow> abc \<Rightarrow> block \<Rightarrow> abc" where
  "pass_with m cfg s x = (
     case s of (a, b, c) \<Rightarrow> case x of (x0, x1, x2, x3, x4, x5, x6, x7) \<Rightarrow>
     let (a, b, c) = tiger_round cfg a b c x0; b = m b;
         (b, c, a) = tiger_round cfg b c a x1; c = m c;
         (c, a, b) = tiger_round cfg c a b x2; a = m a;
         (a, b, c) = tiger_round cfg a b c x3; b = m b;
         (b, c, a) = tiger_round cfg b c a x4; c = m c;
         (c, a, b) = tiger_round cfg c a b x5; a = m a;
         (a, b, c) = tiger_round cfg a b c x6; b = m b;
         (b, c, a) = tiger_round cfg b c a x7; c = m c
     in (a, b, c))"

definition pass5_slow :: "build \<Rightarrow> abc \<Rightarrow> block \<Rightarrow> abc" where
  "pass5_slow = pass_with (\<lambda>b. b + push_bit 2 b)"

definition pass7_slow :: "build \<Rightarrow> abc \<Rightarrow> block \<Rightarrow> abc" where
  "pass7_slow = pass_with (\<lambda>b. push_bit 3 b - b)"

definition pass9_slow :: "build \<Rightarrow> abc \<Rightarrow> block \<Rightarrow> abc" where
  "pass9_slow = pass_with (\<lambda>b. b + push_bit 3 b)"

definition pass5 :: "build \<Rightarrow> abc \<Rightarrow> block \<Rightarrow> abc" where
  "pass5 = pass_with (\<lambda>b. b * 5)"

definition pass7 :: "build \<Rightarrow> abc \<Rightarrow> block \<Rightarrow> abc" where
  "pass7 = pass_with (\<lambda>b. b * 7)"

definition pass9 :: "build \<Rightarrow> abc \<Rightarrow> block \<Rightarrow> abc" where
  "pass9 = pass_with (\<lambda>b. b * 9)"

definition key_schedule :: "block \<Rightarrow> block" where
  "key_schedule x = (case x of (x0, x1, x2, x3, x4, x5, x6, x7) \<Rightarrow>
     let x0 = x0 - (x7 XOR 0xA5A5A5A5A5A5A5A5);
         x1 = x1 XOR x0;
         x2 = x2 + x1;
         x3 = x3 - (x2 XOR push_bit 19 (NOT x1));
         x4 = x4 XOR x3;
         x5 = x5 + x4;
         x6 = x6 - (x5 XOR drop_bit 23 (NOT x4));
         x7 = x7 XOR x6;
         x0 = x0 + x7;
         x1 = x1 - (x0 XOR push_bit 19 (NOT x7));
         x2 = x2 XOR x1;
         x3 = x3 + x2;
         x4 = x4 - (x3 XOR drop_bit 23 (NOT x2));
         x5 = x5 XOR x4;
         x6 = x6 + x5;
         x7 = x7 - (x6 XOR 0x0123456789ABCDEF)
     in (x0, x1, x2, x3, x4, x5, x6, x7))"

definition tiger_compress :: "build \<Rightarrow> block \<Rightarrow> abc \<Rightarrow> abc" where
  "tiger_compress cfg x s = (case s of (a, b, c) \<Rightarrow>
     let p5 = (if TIGER_SLOW_MULT cfg then pass5_slow else pass5) cfg;
         p7 = (if TIGER_SLOW_MULT cfg then pass7_slow else pass7) cfg;
         p9 = (if TIGER_SLOW_MULT cfg then pass9_slow else pass9) cfg;
         (a, b, c) = p5 (a, b, c) x;
         x = key_schedule x;
         (c, a, b) = p7 (c, a, b) x;
         x = key_schedule x;
         (b, c, a) = p9 (b, c, a) x
     in (a, b, c))"

definition tiger_compress_macro :: "build \<Rightarrow> block \<Rightarrow> abc \<Rightarrow> abc" where
  "tiger_compress_macro cfg str state =
     (case state of (s0, s1, s2) \<Rightarrow> case tiger_compress cfg str state of (a, b, c) \<Rightarrow>
        (s0 XOR a, b - s1, s2 + c))"

section \<open>Words and bytes\<close>

text \<open>
  \<open>native64\<close> reads and \<open>native_bytes\<close> writes a \<open>uint64_t\<close> through a pointer cast, on a
  little-endian or a big-endian machine.
\<close>

definition le64 :: "bytes \<Rightarrow> u64" where
  "le64 bs = foldr (\<lambda>b w. ucast b OR push_bit 8 w) bs 0"

definition native64 :: "build \<Rightarrow> bytes \<Rightarrow> u64" where
  "native64 cfg bs = le64 (if TIGER_BIG_ENDIAN cfg then rev bs else bs)"

definition le_bytes :: "u64 \<Rightarrow> bytes" where
  "le_bytes w = map (\<lambda>k. ucast (drop_bit (8 * k) w)) [0, 1, 2, 3, 4, 5, 6, 7]"

definition native_bytes :: "build \<Rightarrow> u64 \<Rightarrow> bytes" where
  "native_bytes cfg w = (if TIGER_BIG_ENDIAN cfg then rev (le_bytes w) else le_bytes w)"

definition words8 :: "(bytes \<Rightarrow> u64) \<Rightarrow> bytes \<Rightarrow> block" where
  "words8 f bs = (let w = (\<lambda>i. f (take 8 (drop (8 * i) bs)))
     in (w 0, w 1, w 2, w 3, w 4, w 5, w 6, w 7))"

text \<open>The loops \<open>buf[j ^ 7] = tmp[j]\<close> of big-endian builds.\<close>

definition swap_bytes :: "bytes \<Rightarrow> bytes" where
  "swap_bytes bs = fold (\<lambda>j buf. buf[j XOR 7 := bs ! j]) [0..<length bs] (replicate (length bs) 0)"

definition compress_block :: "build \<Rightarrow> bytes \<Rightarrow> abc \<Rightarrow> abc" where
  "compress_block cfg bs =
     tiger_compress_macro cfg
       (words8 (native64 cfg) (if TIGER_BIG_ENDIAN cfg then swap_bytes bs else bs))"

section \<open>The hash object\<close>

definition BLOCK_SIZE :: nat where
  "BLOCK_SIZE = 512 div 8"

definition BYTES :: nat where
  "BYTES = 192 div 8"

record TigerHash =
  tmp :: bytes
  res :: abc
  pos :: u64

text \<open>The constructor leaves \<open>tmp\<close> uninitialised: \<open>junk i\<close> is what its byte \<open>i\<close> holds.\<close>

definition TigerHash_new :: "(nat \<Rightarrow> u8) \<Rightarrow> TigerHash" where
  "TigerHash_new junk =
     \<lparr>tmp = map junk [0..<BLOCK_SIZE], res = (0x0123456789ABCDEF, 0xFEDCBA9876543210, 0xF096A5B4C3B2E187), pos = 0\<rparr>"

text \<open>The first part of \<open>update\<close> fills the buffer; the rest of the data is returned.\<close>

definition tmppos_of :: "TigerHash \<Rightarrow> nat" where
  "tmppos_of h = unat (pos h AND (of_nat BLOCK_SIZE - 1))"

definition fill_tmp :: "build \<Rightarrow> TigerHash \<Rightarrow> bytes \<Rightarrow> TigerHash \<times> bytes" where
  "fill_tmp cfg h str = (
     let tmppos = tmppos_of h in
     if tmppos \<noteq> 0 then
       let n = min (length str) (BLOCK_SIZE - tmppos);
           h = h\<lparr>tmp := blit (tmp h) tmppos (take n str), pos := pos h + of_nat n\<rparr>;
           str = drop n str
       in if tmppos + n = BLOCK_SIZE then (h\<lparr>res := compress_block cfg (tmp h) (res h)\<rparr>, str)
          else (h, str)
     else (h, str))"

function bulk_loop :: "build \<Rightarrow> TigerHash \<Rightarrow> bytes \<Rightarrow> TigerHash \<times> bytes" where
  "bulk_loop cfg h str =
     (if length str \<ge> BLOCK_SIZE then
        bulk_loop cfg
          (h\<lparr>res := compress_block cfg (take BLOCK_SIZE str) (res h), pos := pos h + of_nat BLOCK_SIZE\<rparr>)
          (drop BLOCK_SIZE str)
      else (h, str))"
  by pat_completeness auto
termination
  by (relation "measure (\<lambda>(_, _, str). length str)") (auto simp: BLOCK_SIZE_def)

declare bulk_loop.simps [simp del]

definition TigerHash_update :: "build \<Rightarrow> TigerHash \<Rightarrow> bytes \<Rightarrow> TigerHash" where
  "TigerHash_update cfg h data = (
     let (h, str) = fill_tmp cfg h data;
         (h, str) = bulk_loop cfg h str
     in h\<lparr>tmp := blit (tmp h) 0 str, pos := pos h + of_nat (length str)\<rparr>)"

definition getResult :: "build \<Rightarrow> TigerHash \<Rightarrow> bytes" where
  "getResult cfg h = (case res h of (r0, r1, r2) \<Rightarrow>
     let bs = native_bytes cfg r0 @ native_bytes cfg r1 @ native_bytes cfg r2
     in if TIGER_BIG_ENDIAN cfg then swap_bytes bs else bs)"

definition TigerHash_finalize :: "build \<Rightarrow> TigerHash \<Rightarrow> bytes" where
  "TigerHash_finalize cfg h = (
     let tmppos = tmppos_of h;
         h = h\<lparr>tmp := (tmp h)[tmppos := 0x01]\<rparr>;
         tmppos = tmppos + 1;
         h = (if tmppos > BLOCK_SIZE - 8 then
                let h = h\<lparr>tmp := blit (tmp h) tmppos (replicate (BLOCK_SIZE - tmppos) 0)\<rparr>;
                    h = h\<lparr>res := compress_block cfg (tmp h) (res h)\<rparr>
                in h\<lparr>tmp := replicate BLOCK_SIZE 0\<rparr>
              else
                let h = h\<lparr>tmp := blit (tmp h) tmppos (replicate (BLOCK_SIZE - tmppos - 8) 0)\<rparr>
                in if TIGER_BIG_ENDIAN cfg then h\<lparr>tmp := swap_bytes (tmp h)\<rparr> else h);
         h = h\<lparr>tmp := blit (tmp h) 56 (native_bytes cfg (push_bit 3 (pos h)))\<rparr>;
         h = h\<lparr>res := tiger_compress_macro cfg (words8 (native64 cfg) (tmp h)) (res h)\<rparr>
     in getResult cfg h)"

section \<open>All builds compress alike\<close>

lemma byte_at_ucast: "byte_at c k = unat (ucast (drop_bit (8 * k) c) :: u8)"
proof -
  have "(0xFF :: u64) = mask 8" by (simp add: mask_eq_exp_minus_1)
  then show ?thesis
    unfolding byte_at_def unsigned_ucast_eq by (simp only: unsigned_take_bit_eq flip: take_bit_eq_mask) simp
qed

lemma ucast_via_u32:
  assumes "n \<le> 24"
  shows "(ucast (drop_bit n (ucast (c :: u64) :: u32)) :: u8) = ucast (drop_bit n c)"
  using assms by (intro bit_word_eqI) (simp add: bit_simps)

lemma cast8_byte_at: "cast8 c = byte_at c 0"
  by (simp add: cast8_def byte_at_ucast)

lemma cast32_8_byte_at: "k < 4 \<Longrightarrow> cast32_8 c k = byte_at c k"
  by (simp add: cast32_8_def byte_at_ucast ucast_via_u32)

lemma byte_at_high: "byte_at (drop_bit 32 c) k = byte_at c (4 + k)"
  by (simp add: byte_at_def add.commute)

lemma round_builds: "round_arch32 = round_arch64"
  by (intro ext) (simp add: round_arch32_def round_arch64_def Let_def cast8_byte_at cast32_8_byte_at
      byte_at_high)

definition generic_build :: build where
  "generic_build = \<lparr>TIGER_ARCH64 = True, TIGER_SLOW_MULT = False, TIGER_BIG_ENDIAN = False\<rparr>"

lemma tiger_round_build: "tiger_round cfg = round_arch64"
  by (simp add: tiger_round_def round_builds)

lemma slow_mult:
  "pass5_slow = pass5" "pass7_slow = pass7" "pass9_slow = pass9"
proof -
  have *: "(\<lambda>b :: u64. b + push_bit 2 b) = (\<lambda>b. b * 5)" "(\<lambda>b :: u64. push_bit 3 b - b) = (\<lambda>b. b * 7)"
    "(\<lambda>b :: u64. b + push_bit 3 b) = (\<lambda>b. b * 9)"
    by (auto simp: fun_eq_iff push_bit_eq_mult algebra_simps)
  show "pass5_slow = pass5" "pass7_slow = pass7" "pass9_slow = pass9"
    by (simp_all add: pass5_slow_def pass5_def pass7_slow_def pass7_def pass9_slow_def pass9_def *)
qed

lemma pass_build: "pass_with m cfg = pass_with m generic_build"
  by (intro ext) (simp add: pass_with_def tiger_round_build)

lemma compress_build: "tiger_compress_macro cfg = tiger_compress_macro generic_build"
  by (intro ext) (simp add: tiger_compress_macro_def tiger_compress_def slow_mult pass5_def pass7_def
      pass9_def pass_build [of _ cfg])

text \<open>Swapping the bytes of every word undoes what the other byte order does to the reads.\<close>

lemma xor_7: "k < 8 \<Longrightarrow> (8 * i + k) XOR 7 = 8 * i + (7 - k :: nat)"
proof -
  have 3: "n XOR 7 = (if even n then 1 else 0) + 2 * ((if even (n div 2) then 1 else 0) +
      2 * ((if even (n div 4) then 1 else 0) + 2 * (n div 8)))" for n :: nat
    by (simp add: xor_nat_rec [of n] xor_nat_rec [of "n div 2"] xor_nat_rec [of "n div 4"]
        div_mult2_eq [symmetric] even_iff_mod_2_eq_zero)
  assume "k < 8"
  then consider "k = 0" | "k = 1" | "k = 2" | "k = 3" | "k = 4" | "k = 5" | "k = 6" | "k = 7" by linarith
  then show ?thesis by cases (simp_all add: 3, presburger+)
qed

lemma fold_update_nth:
  assumes "distinct (map g js)" "\<And>j. j \<in> set js \<Longrightarrow> g j < length buf"
  shows "length (fold (\<lambda>j b. b[g j := f j]) js buf) = length buf \<and>
    (\<forall>j\<in>set js. fold (\<lambda>j b. b[g j := f j]) js buf ! g j = f j) \<and>
    (\<forall>i. i \<notin> g ` set js \<longrightarrow> fold (\<lambda>j b. b[g j := f j]) js buf ! i = buf ! i)"
  using assms
proof (induction js arbitrary: buf)
  case Nil
  then show ?case by simp
next
  case (Cons a js)
  have "distinct (map g js)" "g a \<notin> g ` set js" "\<And>j. j \<in> set js \<Longrightarrow> g j < length (buf[g a := f a])"
    using Cons.prems by auto
  with Cons.IH [of "buf[g a := f a]"] Cons.prems(2) [of a] show ?case by auto
qed

lemma swap_bytes_nth:
  assumes "length bs = 8 * n" "i < n" "k < 8"
  shows "swap_bytes bs ! (8 * i + (7 - k)) = bs ! (8 * i + k)" "length (swap_bytes bs) = length bs"
proof -
  have inv: "(j XOR 7) XOR 7 = j" for j :: nat by (simp add: xor.assoc)
  have lt: "j XOR 7 < 8 * n" if "j < 8 * n" for j
  proof -
    have "j XOR 7 = (8 * (j div 8) + j mod 8) XOR 7" by simp
    also have "\<dots> = 8 * (j div 8) + (7 - j mod 8)" by (intro xor_7) simp
    also have "\<dots> < 8 * n" using less_mult_imp_div_less [of j n 8] that by linarith
    finally show ?thesis .
  qed
  have "distinct (map (\<lambda>j. j XOR 7) [0..<length bs])"
    by (auto simp: distinct_map inj_on_def dest: arg_cong [of _ _ "\<lambda>j. j XOR 7"] simp: inv)
  from fold_update_nth [OF this, of "replicate (length bs) 0" "\<lambda>j. bs ! j"] lt assms(1)
  have *: "length (swap_bytes bs) = length bs"
    "\<And>j. j < length bs \<Longrightarrow> swap_bytes bs ! (j XOR 7) = bs ! j"
    by (auto simp: swap_bytes_def)
  show "length (swap_bytes bs) = length bs" by (fact *)
  show "swap_bytes bs ! (8 * i + (7 - k)) = bs ! (8 * i + k)"
    using *(2) [of "8 * i + k"] assms by (simp add: xor_7)
qed

lemma swap_bytes_word:
  assumes "length bs = 8 * n" "i < n"
  shows "take 8 (drop (8 * i) (swap_bytes bs)) = rev (take 8 (drop (8 * i) bs))"
proof (rule nth_equalityI)
  have len: "length (swap_bytes bs) = length bs"
    using swap_bytes_nth(2) [OF assms, of 0] by simp
  show "length (take 8 (drop (8 * i) (swap_bytes bs))) = length (rev (take 8 (drop (8 * i) bs)))"
    by (simp add: len)
  fix k
  assume "k < length (take 8 (drop (8 * i) (swap_bytes bs)))"
  then have k: "k < 8" by simp
  have "8 * i + 8 \<le> 8 * n" using assms(2) by linarith
  then have "rev (take 8 (drop (8 * i) bs)) ! k = bs ! (8 * i + (7 - k))"
    using k assms(1) by (simp add: rev_nth)
  moreover have "swap_bytes bs ! (8 * i + (7 - (7 - k))) = bs ! (8 * i + (7 - k))"
    using k by (intro swap_bytes_nth(1) [OF assms]) simp
  ultimately show "take 8 (drop (8 * i) (swap_bytes bs)) ! k = rev (take 8 (drop (8 * i) bs)) ! k"
    using k len assms \<open>8 * i + 8 \<le> 8 * n\<close> by simp
qed

definition tiger_block :: "bytes \<Rightarrow> abc \<Rightarrow> abc" where
  "tiger_block bs = tiger_compress_macro generic_build (words8 le64 bs)"

lemma words8_swapped:
  assumes "length bs = 64"
  shows "words8 (native64 cfg) (if TIGER_BIG_ENDIAN cfg then swap_bytes bs else bs) = words8 le64 bs"
proof -
  have *: "take 8 (drop (8 * i) (swap_bytes bs)) = rev (take 8 (drop (8 * i) bs))" if "i < 8" for i
    using assms that by (intro swap_bytes_word [of bs 8]) simp_all
  show ?thesis
    using * [of 0] * [of 1] * [of 2] * [of 3] * [of 4] * [of 5] * [of 6] * [of 7]
    by (simp add: words8_def native64_def)
qed

lemma compress_block_tiger: "length bs = 64 \<Longrightarrow> compress_block cfg bs = tiger_block bs"
  by (simp add: compress_block_def tiger_block_def words8_swapped compress_build [of cfg])

lemma length_le_bytes [simp]: "length (le_bytes w) = 8"
  by (simp add: le_bytes_def)

lemma length_native_bytes [simp]: "length (native_bytes cfg w) = 8"
  by (simp add: native_bytes_def)

lemma words_of_bytes:
  assumes "length bs = 24"
  shows "bs = take 8 bs @ take 8 (drop 8 bs) @ take 8 (drop 16 bs)"
proof -
  have "take 8 (drop 16 bs) = drop 16 bs" using assms by simp
  moreover have "drop 8 bs = take 8 (drop 8 bs) @ drop 16 bs"
    using append_take_drop_id [of 8 "drop 8 bs"] by simp
  ultimately show ?thesis using append_take_drop_id [of 8 bs] by simp
qed

lemma getResult_le:
  "getResult cfg h = (case res h of (r0, r1, r2) \<Rightarrow> le_bytes r0 @ le_bytes r1 @ le_bytes r2)"
proof (cases "TIGER_BIG_ENDIAN cfg")
  case True
  obtain r0 r1 r2 where r: "res h = (r0, r1, r2)" by (cases "res h") auto
  let ?bs = "rev (le_bytes r0) @ rev (le_bytes r1) @ rev (le_bytes r2)"
  have *: "take 8 (drop (8 * i) (swap_bytes ?bs)) = rev (take 8 (drop (8 * i) ?bs))" if "i < 3" for i
    using that by (intro swap_bytes_word [of ?bs 3]) simp_all
  have "length (swap_bytes ?bs) = 24" using swap_bytes_nth(2) [of ?bs 3 0 0] by simp
  then have "swap_bytes ?bs = le_bytes r0 @ le_bytes r1 @ le_bytes r2"
    using words_of_bytes [of "swap_bytes ?bs"] * [of 0] * [of 1] * [of 2] by simp
  then show ?thesis using True r by (simp add: getResult_def native_bytes_def)
next
  case False
  then show ?thesis by (simp add: getResult_def native_bytes_def split: prod.split)
qed

section \<open>The digest of a message\<close>

text \<open>
  The specification: the message is padded with the byte 1, with zeros, and with the number of its
  bits as a little-endian word, to a multiple of 64 bytes; the blocks are chained through the
  compression function.
\<close>

function chain :: "bytes \<Rightarrow> abc \<Rightarrow> abc" where
  "chain bs s = (if length bs \<ge> 64 then chain (drop 64 bs) (tiger_block (take 64 bs) s) else s)"
  by pat_completeness auto
termination
  by (relation "measure (\<lambda>(bs, _). length bs)") auto

declare chain.simps [simp del]

definition tiger_iv :: abc where
  "tiger_iv = (0x0123456789ABCDEF, 0xFEDCBA9876543210, 0xF096A5B4C3B2E187)"

definition tiger_pad :: "bytes \<Rightarrow> bytes" where
  "tiger_pad m =
     m @ [0x01] @ replicate ((119 - length m mod 64) mod 64) 0 @ le_bytes (of_nat (8 * length m))"

definition tiger :: "bytes \<Rightarrow> bytes" where
  "tiger m = (case chain (tiger_pad m) tiger_iv of (r0, r1, r2) \<Rightarrow>
     le_bytes r0 @ le_bytes r1 @ le_bytes r2)"

lemma length_tiger [simp]: "length (tiger m) = BYTES"
  by (simp add: tiger_def BYTES_def split: prod.split)

lemma chain_short: "length bs < 64 \<Longrightarrow> chain bs s = s"
  by (simp add: chain.simps)

lemma chain_block: "length b = 64 \<Longrightarrow> chain (b @ bs) s = chain bs (tiger_block b s)"
  by (simp add: chain.simps [of "b @ bs"])

lemma chain_append: "length xs mod 64 = 0 \<Longrightarrow> chain (xs @ ys) s = chain ys (chain xs s)"
proof (induction xs s rule: chain.induct)
  case (1 bs s)
  show ?case
  proof (cases "64 \<le> length bs")
    case True
    then have "chain (take 64 bs @ (drop 64 bs @ ys)) s = chain (drop 64 bs @ ys) (tiger_block (take 64 bs) s)"
      by (intro chain_block) simp
    then have "chain (bs @ ys) s = chain (drop 64 bs @ ys) (tiger_block (take 64 bs) s)"
      by (simp only: append_assoc [symmetric] append_take_drop_id)
    also have "\<dots> = chain ys (chain (drop 64 bs) (tiger_block (take 64 bs) s))"
      using 1 True by (simp add: le_mod_geq)
    finally show ?thesis using True by (simp add: chain.simps [of bs])
  next
    case False
    with 1 have "bs = []" by simp
    then show ?thesis by (simp add: chain_short)
  qed
qed

text \<open>
  An object represents the message fed so far: the complete blocks are in \<open>res\<close>, the beginning
  of the next one in \<open>tmp\<close>, and \<open>pos\<close> counts the bytes modulo \<open>2 ^ 64\<close>.
\<close>

definition hashes :: "TigerHash \<Rightarrow> bytes \<Rightarrow> bool" where
  "hashes h m \<longleftrightarrow> length (tmp h) = 64 \<and> pos h = of_nat (length m) \<and>
     take (length m mod 64) (tmp h) = rest 64 m \<and> res h = chain (full 64 m) tiger_iv"

lemma hashes_new: "hashes (TigerHash_new junk) []"
  by (simp add: hashes_def BLOCK_SIZE_def TigerHash_new_def rest_def full_def chain_short tiger_iv_def)

lemma tmppos_hashes: "hashes h m \<Longrightarrow> tmppos_of h = length m mod 64"
proof -
  have "(of_nat BLOCK_SIZE - 1 :: u64) = mask 6" by (simp add: BLOCK_SIZE_def mask_eq_exp_minus_1)
  moreover have "length m mod 18446744073709551616 mod 64 = length m mod 64"
    by (rule mod_mod_cancel) simp
  moreover assume "hashes h m"
  ultimately show ?thesis
    by (simp add: tmppos_of_def hashes_def flip: take_bit_eq_mask)
      (simp add: take_bit_eq_mod unat_mod unat_of_nat)
qed

lemma extend_rest:
  assumes "hashes h m" "length m mod 64 + length d < 64"
  shows "hashes (h\<lparr>tmp := blit (tmp h) (length m mod 64) d, pos := pos h + of_nat (length d)\<rparr>) (m @ d)"
proof -
  have fr: "full 64 (m @ d) = full 64 m" "rest 64 (m @ d) = rest 64 m @ d"
    using full_rest_short [of 64 m d] assms(2) by (simp_all add: length_rest)
  have "(length m + length d) mod 64 = length m mod 64 + length d"
    using assms(2) by (metis mod_add_left_eq mod_less)
  with assms fr show ?thesis
    by (simp add: hashes_def length_blit blit_prefix)
qed

lemma extend_block:
  assumes "length (rest 64 m @ d) = 64"
  shows "chain (full 64 (m @ d)) s = tiger_block (rest 64 m @ d) (chain (full 64 m) s)" "rest 64 (m @ d) = []"
proof -
  note fr = full_rest_block [of 64 m d]
  show "rest 64 (m @ d) = []" using fr(2) assms by simp
  show "chain (full 64 (m @ d)) s = tiger_block (rest 64 m @ d) (chain (full 64 m) s)"
    using chain_block [OF assms, of "[]"] fr(1) assms by (simp add: chain_append full_mod chain_short)
qed

lemma fill_tmp_hashes:
  assumes h: "hashes h m" and f: "fill_tmp cfg h d = (h', d')"
  obtains e where "d = e @ d'" "hashes h' (m @ e)" "d' = [] \<or> rest 64 (m @ e) = []"
proof -
  define n where "n = min (length d) (64 - length m mod 64)"
  show thesis
  proof (cases "length m mod 64 = 0")
    case True
    with f h have "h' = h" "d' = d" by (simp_all add: fill_tmp_def tmppos_hashes)
    with h True that [of "[]"] show ?thesis by (simp add: rest_def)
  next
    case False
    let ?h = "h\<lparr>tmp := blit (tmp h) (length m mod 64) (take n d), pos := pos h + of_nat n\<rparr>"
    have len: "length (take n d) = n" by (simp add: n_def)
    have d': "d' = drop n d"
      using f h False by (auto simp: fill_tmp_def tmppos_hashes Let_def n_def BLOCK_SIZE_def split: if_splits)
    show ?thesis
    proof (cases "length m mod 64 + n = 64")
      case full: True
      then have h': "h' = ?h\<lparr>res := compress_block cfg (tmp ?h) (res h)\<rparr>"
        using f h False by (auto simp: fill_tmp_def tmppos_hashes Let_def n_def BLOCK_SIZE_def split: if_splits)
      have lt: "length (tmp h) = 64" "take (length m mod 64) (tmp h) = rest 64 m" using h by (simp_all add: hashes_def)
      have blk: "length (rest 64 m @ take n d) = 64" using full len by (simp add: length_rest)
      have "tmp ?h = rest 64 m @ take n d"
        using lt full len by (simp add: blit_def)
      moreover have "(length m + n) mod 64 = 0"
        using full by (metis mod_add_left_eq mod_self)
      ultimately have "hashes h' (m @ take n d)"
        using h blk len by (simp add: hashes_def h' compress_block_tiger extend_block [OF blk])
      with extend_block(2) [OF blk] show ?thesis by (intro that [of "take n d"]) (simp_all add: d')
    next
      case part: False
      have lt: "length m mod 64 + n < 64" using part by (simp add: n_def)
      have h': "h' = ?h"
        using f h False part by (auto simp: fill_tmp_def tmppos_hashes Let_def n_def BLOCK_SIZE_def split: if_splits)
      from part have "n = length d" by (auto simp: n_def min_def split: if_splits)
      with extend_rest [OF h, of "take n d"] lt len that [of d] show ?thesis by (simp add: h' d')
    qed
  qed
qed

lemma bulk_loop_hashes:
  assumes "hashes h m" "rest 64 m = []" "bulk_loop cfg h d = (h', d')"
  obtains e where "d = e @ d'" "hashes h' (m @ e)" "rest 64 (m @ e) = []" "length d' < 64"
  using assms
proof (induction cfg h d arbitrary: m thesis rule: bulk_loop.induct)
  case (1 cfg h d)
  show ?case
  proof (cases "64 \<le> length d")
    case True
    let ?h = "h\<lparr>res := compress_block cfg (take 64 d) (res h), pos := pos h + of_nat 64\<rparr>"
    have blk: "length (rest 64 m @ take 64 d) = 64" using True 1(4) by simp
    have "length m mod 64 = 0" using 1(4) length_rest [of 64 m] by simp
    then have "hashes ?h (m @ take 64 d)"
      using 1(3,4) True blk by (simp add: hashes_def compress_block_tiger extend_block [OF blk])
    moreover have "bulk_loop cfg ?h (drop 64 d) = (h', d')"
      using 1(5) True by (simp add: bulk_loop.simps [of cfg h] BLOCK_SIZE_def)
    ultimately obtain e where "drop 64 d = e @ d'" "hashes h' ((m @ take 64 d) @ e)"
        "rest 64 ((m @ take 64 d) @ e) = []" "length d' < 64"
      using 1(1) [of "m @ take 64 d"] True extend_block(2) [OF blk] by (auto simp: BLOCK_SIZE_def)
    then show ?thesis
      using append_take_drop_id [of 64 d] by (intro 1(2) [of "take 64 d @ e"]) simp_all
  next
    case False
    with 1(5) have "h' = h" "d' = d" by (simp_all add: bulk_loop.simps [of cfg h] BLOCK_SIZE_def)
    with False 1(2) [of "[]"] 1(3,4) show ?thesis by simp
  qed
qed

lemma TigerHash_update_hashes:
  assumes h: "hashes h m"
  shows "hashes (TigerHash_update cfg h d) (m @ d)"
proof -
  obtain h1 d1 where 1: "fill_tmp cfg h d = (h1, d1)" by fastforce
  obtain h2 d2 where 2: "bulk_loop cfg h1 d1 = (h2, d2)" by fastforce
  obtain e where e: "d = e @ d1" "hashes h1 (m @ e)" "d1 = [] \<or> rest 64 (m @ e) = []"
    using fill_tmp_hashes [OF h 1] by blast
  have upd: "TigerHash_update cfg h d = h2\<lparr>tmp := blit (tmp h2) 0 d2, pos := pos h2 + of_nat (length d2)\<rparr>"
    by (simp add: TigerHash_update_def 1 2)
  show ?thesis
  proof (cases "d1 = []")
    case True
    with 2 have "h2 = h1" "d2 = []" by (simp_all add: bulk_loop.simps BLOCK_SIZE_def)
    then have "TigerHash_update cfg h d = h1" by (simp add: upd blit_def)
    with e True show ?thesis by simp
  next
    case False
    with e have r: "rest 64 (m @ e) = []" by simp
    obtain f where f: "d1 = f @ d2" "hashes h2 ((m @ e) @ f)" "rest 64 ((m @ e) @ f) = []" "length d2 < 64"
      using bulk_loop_hashes [OF e(2) r 2] by blast
    have z: "length ((m @ e) @ f) mod 64 = 0" using f(3) length_rest [of 64 "(m @ e) @ f"] by simp
    with extend_rest [OF f(2), of d2] f(4) have "hashes (TigerHash_update cfg h d) (((m @ e) @ f) @ d2)"
      by (simp add: upd)
    then show ?thesis by (simp add: e(1) f(1))
  qed
qed

lemma list_update_append_drop:
  "take n t = r \<Longrightarrow> n < length t \<Longrightarrow> t[n := x] = r @ x # drop (Suc n) t"
  by (auto simp: upd_conv_take_nth_drop)

text \<open>The last block, or the last two when the length does not fit behind the data.\<close>

lemma words8_append8:
  assumes "length a = 56" "length b = 8"
  shows "words8 f (a @ b) = (case words8 f (a @ b') of (w0, w1, w2, w3, w4, w5, w6, w7) \<Rightarrow>
    (w0, w1, w2, w3, w4, w5, w6, f b))"
  using assms by (simp add: words8_def)

lemma native64_bytes: "native64 cfg (native_bytes cfg w) = le64 (le_bytes w)"
  by (simp add: native64_def native_bytes_def)

lemma last_block:
  assumes "length a = 56" "length t = 64" "take 56 t = a"
  shows "words8 (native64 cfg) (blit (if TIGER_BIG_ENDIAN cfg then swap_bytes t else t) 56 (native_bytes cfg w)) =
    words8 le64 (a @ le_bytes w)"
proof -
  let ?t = "if TIGER_BIG_ENDIAN cfg then swap_bytes t else t"
  have len: "length ?t = 64" using swap_bytes_nth(2) [of t 8 0 0] assms(2) by simp
  then have "blit ?t 56 (native_bytes cfg w) = take 56 ?t @ native_bytes cfg w" "?t = take 56 ?t @ drop 56 ?t"
    by (simp_all add: blit_def)
  moreover have "words8 (native64 cfg) ?t = words8 le64 t" by (rule words8_swapped [OF assms(2)])
  moreover have "t = a @ drop 56 t" using assms(3) append_take_drop_id [of 56 t] by simp
  ultimately show ?thesis
    using words8_append8 [of "take 56 ?t" "native_bytes cfg w" "native64 cfg" "drop 56 ?t"]
      words8_append8 [of a "le_bytes w" le64 "drop 56 t"] len assms(1)
    by (simp add: native64_bytes split: prod.splits)
qed

lemma words8_zero: "words8 (native64 cfg) (blit (replicate 64 0) 56 (native_bytes cfg w)) =
  words8 le64 (replicate 56 0 @ le_bytes w)"
proof -
  have "take 56 (replicate 64 (0 :: u8)) = replicate 56 0" by simp
  moreover have "native64 cfg (replicate 8 0) = le64 (replicate 8 0)" by (simp add: native64_def)
  ultimately show ?thesis by (simp add: words8_def blit_def native64_bytes numeral_eq_Suc)
qed

lemma chain_last: "length b = 64 \<Longrightarrow> chain (full 64 m @ b) s = tiger_block b (chain (full 64 m) s)"
  using chain_block [of b "[]"] by (simp add: chain_append full_mod chain_short)

lemma TigerHash_finalize_tiger:
  assumes h: "hashes h m"
  shows "TigerHash_finalize cfg h = tiger m"
proof -
  define r where "r = length m mod 64"
  have r: "r < 64" "length (rest 64 m) = r" by (simp_all add: r_def length_rest)
  let ?w = "push_bit 3 (pos h)"
  have w: "?w = of_nat (8 * length m)" using h by (simp add: hashes_def push_bit_eq_mult mult.commute)
  have tmp: "(tmp h)[r := 1] = rest 64 m @ 1 # drop (Suc r) (tmp h)" "length (tmp h) = 64"
    using h r by (auto simp: hashes_def r_def [symmetric] intro!: list_update_append_drop)
  have res: "res h = chain (full 64 m) tiger_iv" using h by (simp add: hashes_def)
  note fin = TigerHash_finalize_def Let_def tmppos_hashes [OF h] r_def [symmetric] BLOCK_SIZE_def
    compress_build [of cfg] getResult_le
  show ?thesis
  proof (cases "56 \<le> r")
    case True
    let ?b1 = "rest 64 m @ 1 # replicate (63 - r) 0" and ?b2 = "replicate 56 0 @ le_bytes ?w"
    have z: "replicate (119 - r) (0 :: u8) = replicate (63 - r) 0 @ replicate 56 0"
      using r True by (simp flip: replicate_add)
    have "(119 - r) mod 64 = 119 - r" using True r by simp
    then have "tiger_pad m = (full 64 m @ ?b1) @ ?b2"
      using full_rest [of 64 m] by (simp add: tiger_pad_def r_def [symmetric] w z flip: append_assoc)
    moreover have "length ?b1 = 64" "length ?b2 = 64" using r True by simp_all
    moreover from this have "length (full 64 m @ ?b1) mod 64 = 0" using full_mod [of 64 m] by simp
    ultimately have "chain (tiger_pad m) tiger_iv = tiger_block ?b2 (tiger_block ?b1 (res h))"
      using chain_append [of "full 64 m @ ?b1" ?b2 tiger_iv] chain_last [of ?b1 m tiger_iv]
        chain_block [of ?b2 "[]"]
      by (simp add: chain_short res)
    moreover have "blit ((tmp h)[r := 1]) (Suc r) (replicate (63 - r) 0) = ?b1"
      using r tmp by (simp add: blit_def)
    ultimately show ?thesis
      using True r by (simp add: fin words8_zero tiger_def compress_block_tiger tiger_block_def)
  next
    case False
    let ?a = "rest 64 m @ 1 # replicate (55 - r) 0" and ?t = "blit ((tmp h)[r := 1]) (Suc r) (replicate (55 - r) 0)"
    have "(119 - r) mod 64 = 55 - r" using False by (simp add: mod_if)
    then have "tiger_pad m = full 64 m @ (?a @ le_bytes ?w)"
      using full_rest [of 64 m] by (simp add: tiger_pad_def r_def [symmetric] w flip: append_assoc)
    then have "chain (tiger_pad m) tiger_iv = tiger_block (?a @ le_bytes ?w) (res h)"
      using r False chain_last [of "?a @ le_bytes ?w" m] by (simp add: res)
    moreover have "length ?t = 64" "take 56 ?t = ?a"
      using r False tmp by (simp_all add: blit_def take_Cons')
    ultimately show ?thesis
      using False r last_block [of ?a ?t cfg ?w]
      by (simp add: fin tiger_def tiger_block_def split: if_splits)
  qed
qed

lemma updates_hashes:
  "hashes h m \<Longrightarrow> hashes (foldl (TigerHash_update cfg) h ds) (m @ concat ds)"
proof (induction ds arbitrary: h m)
  case (Cons d ds)
  from Cons.IH [OF TigerHash_update_hashes [OF Cons.prems, of cfg d]] show ?case by simp
qed simp

text \<open>
  C4: whatever the build and however the message is cut into calls of \<open>update\<close>, the digest is
  that of the padded message; and no call writes outside the 64 bytes of \<open>tmp\<close>.
\<close>

theorem tiger_digest_correct:
  "let h = foldl (TigerHash_update cfg) (TigerHash_new junk) ds
   in TigerHash_finalize cfg h = tiger (concat ds) \<and> length (tmp h) = BLOCK_SIZE"
proof -
  have "hashes (foldl (TigerHash_update cfg) (TigerHash_new junk) ds) (concat ds)"
    using updates_hashes [OF hashes_new, of cfg junk ds] by simp
  then show ?thesis by (simp add: TigerHash_finalize_tiger hashes_def BLOCK_SIZE_def)
qed

section \<open>The interface of a hash class\<close>

text \<open>
  \<open>MerkleTree\<close> is a template over a class with a constructor, \<open>update\<close>, \<open>finalize\<close> and the constant
  \<open>BYTES\<close>. The contract that its code relies on: the digest depends on the bytes fed only, not on
  how they were cut, and has \<open>BYTES\<close> bytes.
\<close>

record 's Hasher =
  hasher_new :: 's
  hasher_update :: "'s \<Rightarrow> bytes \<Rightarrow> 's"
  hasher_finalize :: "'s \<Rightarrow> bytes"
  hasher_BYTES :: nat

locale hasher =
  fixes H :: "'s Hasher" and digest :: "bytes \<Rightarrow> bytes"
  assumes finalize_digest: "hasher_finalize H (foldl (hasher_update H) (hasher_new H) ds) = digest (concat ds)"
    and length_digest [simp]: "length (digest m) = hasher_BYTES H"

definition TigerHasher :: "build \<Rightarrow> (nat \<Rightarrow> u8) \<Rightarrow> TigerHash Hasher" where
  "TigerHasher cfg junk = \<lparr>hasher_new = TigerHash_new junk, hasher_update = TigerHash_update cfg,
     hasher_finalize = TigerHash_finalize cfg, hasher_BYTES = BYTES\<rparr>"

interpretation tiger_hasher: hasher "TigerHasher cfg junk" tiger for cfg junk
proof unfold_locales
  fix ds
  have "hashes (foldl (TigerHash_update cfg) (TigerHash_new junk) ds) (concat ds)"
    using updates_hashes [OF hashes_new, of cfg junk ds] by simp
  then show "hasher_finalize (TigerHasher cfg junk)
      (foldl (hasher_update (TigerHasher cfg junk)) (hasher_new (TigerHasher cfg junk)) ds) = tiger (concat ds)"
    by (simp add: TigerHasher_def TigerHash_finalize_tiger)
qed (simp add: TigerHasher_def)

end
