(* ===== verification/MerkleTree.thy ===== *)
theory MerkleTree
  imports TigerHash "HOL-Library.Signed_Division"
begin

text \<open>
  The Merkle tree over a hash class (\<open>client/MerkleTree.h\<close>), which with the Tiger hash gives the
  TTH root by which Direct Connect names a file.

  The record \<open>MerkleTree\<close> has the members of the class. \<open>update\<close> hashes blocks of 1024 bytes and
  keeps, like a binary counter, one pending hash per size (\<open>blocks\<close>); hashes that have reached
  \<open>blockSize\<close> become \<open>leaves\<close>. \<open>finalize\<close> joins the pending hashes and computes the root from the
  leaves. The sizes are \<open>int64_t\<close>: where an expression can leave that type (the doubling loops of
  \<open>getHash\<close> and \<open>load\<close>, the sum in \<open>calcBlocks\<close>) it goes through \<open>int64\<close>, which is \<open>None\<close> there;
  the sizes that \<open>update\<close> adds up are at most the number of bytes hashed. \<open>calcBlockSize\<close>, which is
  unsigned, is on 64-bit words. Loops that do not end for every argument are partial functions.

  The specification is the hash tree of the Tiger Tree Hash: the hashes of the 1024-byte blocks,
  combined by splitting at the greatest power of two below their number.
\<close>

section \<open>The program\<close>

definition BASE_BLOCK_SIZE :: nat where
  "BASE_BLOCK_SIZE = 1024"

definition MIN_BLOCK_SIZE :: u64 where
  "MIN_BLOCK_SIZE = 65536"

record MerkleTree =
  blocks :: "(bytes \<times> int) list"
  leaves :: "bytes list"
  fileSize :: int
  blockSize :: int
  root :: bytes

definition MerkleTree_new :: "'s Hasher \<Rightarrow> int \<Rightarrow> MerkleTree" where
  "MerkleTree_new H bs =
     \<lparr>blocks = [], leaves = [], fileSize = 0, blockSize = bs, root = replicate (hasher_BYTES H) 0\<rparr>"

definition MerkleTree_root :: "int \<Rightarrow> int \<Rightarrow> bytes \<Rightarrow> MerkleTree" where
  "MerkleTree_root fs bs r = \<lparr>blocks = [], leaves = [r], fileSize = fs, blockSize = bs, root = r\<rparr>"

definition leafHash :: "'s Hasher \<Rightarrow> bytes \<Rightarrow> bytes" where
  "leafHash H d = hasher_finalize H (hasher_update H (hasher_update H (hasher_new H) [0]) d)"

definition combine :: "'s Hasher \<Rightarrow> bytes \<Rightarrow> bytes \<Rightarrow> bytes" where
  "combine H a b =
     hasher_finalize H (hasher_update H (hasher_update H (hasher_update H (hasher_new H) [1]) a) b)"

text \<open>\<open>reduceBlocks\<close>: the loop on \<open>size\<close>, with the \<open>resize\<close> at its exits.\<close>

function reduce_loop :: "'s Hasher \<Rightarrow> int \<Rightarrow> nat \<Rightarrow> (bytes \<times> int) list \<Rightarrow> bytes list \<Rightarrow>
    (bytes \<times> int) list \<times> bytes list" where
  "reduce_loop H bs n bl lv =
     (let a = bl ! (n - 2); b = bl ! (n - 1) in
      if snd a = snd b then
        let lv' = (if snd a * 2 = bs then lv @ [combine H (fst a) (fst b)] else lv);
            n' = (if snd a * 2 = bs then n - 2 else n - 1);
            bl' = (if snd a * 2 = bs then bl else bl[n - 2 := (combine H (fst a) (fst b), snd a * 2)])
        in if n' < 2 then (take n' bl', lv') else reduce_loop H bs n' bl' lv'
      else (take n bl, lv))"
  by pat_completeness auto
termination
  by (relation "measure (\<lambda>(_, _, n, _, _). n)") (auto split: if_splits)

declare reduce_loop.simps [simp del]

definition reduceBlocks :: "'s Hasher \<Rightarrow> MerkleTree \<Rightarrow> MerkleTree" where
  "reduceBlocks H t = (if length (blocks t) > 1
     then let (bl, lv) = reduce_loop H (blockSize t) (length (blocks t)) (blocks t) (leaves t)
          in t\<lparr>blocks := bl, leaves := lv\<rparr>
     else t)"

definition add_block :: "'s Hasher \<Rightarrow> MerkleTree \<Rightarrow> bytes \<Rightarrow> MerkleTree" where
  "add_block H t d =
     (if int BASE_BLOCK_SIZE < blockSize t
      then reduceBlocks H (t\<lparr>blocks := blocks t @ [(leafHash H d, int BASE_BLOCK_SIZE)]\<rparr>)
      else t\<lparr>leaves := leaves t @ [leafHash H d]\<rparr>)"

function update_loop :: "'s Hasher \<Rightarrow> MerkleTree \<Rightarrow> bytes \<Rightarrow> MerkleTree" where
  "update_loop H t d =
     (let t = add_block H t (take BASE_BLOCK_SIZE d); d = drop BASE_BLOCK_SIZE d
      in if d \<noteq> [] then update_loop H t d else t)"
  by pat_completeness auto
termination
  by (relation "measure (\<lambda>(_, _, d). length d)") (auto simp: BASE_BLOCK_SIZE_def)

declare update_loop.simps [simp del]

definition MerkleTree_update :: "'s Hasher \<Rightarrow> MerkleTree \<Rightarrow> bytes \<Rightarrow> MerkleTree" where
  "MerkleTree_update H t d =
     (if d = [] \<and> \<not> (leaves t = [] \<and> blocks t = []) then t
      else let t = update_loop H t d in t\<lparr>fileSize := fileSize t + int (length d)\<rparr>)"

text \<open>\<open>getHash\<close>: the loop that doubles \<open>l\<close>, and the recursion.\<close>

partial_function (option) double_loop :: "int \<Rightarrow> int \<Rightarrow> int option" where
  "double_loop len l = do { l2 \<leftarrow> int64 (l * 2); if l2 < len then double_loop len l2 else Some l }"

partial_function (option) getHash :: "'s Hasher \<Rightarrow> MerkleTree \<Rightarrow> int \<Rightarrow> int \<Rightarrow> bytes option" where
  "getHash H t start len =
     (if len \<le> blockSize t then
        if blockSize t = 0 then None
        else let i = start sdiv blockSize t in
          if i < int (length (leaves t)) then (if i < 0 then None else Some (leaves t ! nat i))
          else Some (replicate (hasher_BYTES H) 0)
      else do {
        l \<leftarrow> double_loop len (blockSize t);
        a \<leftarrow> getHash H t start l;
        b \<leftarrow> getHash H t (start + l) (len - l);
        Some (combine H a b)
      })"

definition calcRoot :: "'s Hasher \<Rightarrow> MerkleTree \<Rightarrow> MerkleTree option" where
  "calcRoot H t = do { r \<leftarrow> getHash H t 0 (fileSize t); Some (t\<lparr>root := r\<rparr>) }"

text \<open>The loop of \<open>finalize\<close>, which joins the pending hashes from the smallest to the largest.\<close>

function join_loop :: "'s Hasher \<Rightarrow> nat \<Rightarrow> (bytes \<times> int) list \<Rightarrow> (bytes \<times> int) list" where
  "join_loop H n bl =
     (let a = bl ! (n - 2); b = bl ! (n - 1);
          bl = bl[n - 2 := (combine H (fst a) (fst b), snd a)]
      in if n \<le> 2 then take 1 bl else join_loop H (n - 1) bl)"
  by pat_completeness auto
termination
  by (relation "measure (\<lambda>(_, n, _). n)") auto

declare join_loop.simps [simp del]

definition MerkleTree_finalize :: "'s Hasher \<Rightarrow> MerkleTree \<Rightarrow> MerkleTree option" where
  "MerkleTree_finalize H t = (
     let t = (if leaves t = [] \<and> blocks t = [] then MerkleTree_update H t [] else t);
         t = (if length (blocks t) > 1 then t\<lparr>blocks := join_loop H (length (blocks t)) (blocks t)\<rparr> else t);
         t = (if blocks t \<noteq> [] then t\<lparr>leaves := leaves t @ [fst (hd (blocks t))], blocks := []\<rparr> else t)
     in calcRoot H t)"

text \<open>Leaves from and to bytes.\<close>

partial_function (option) load_loop :: "nat \<Rightarrow> int \<Rightarrow> int \<Rightarrow> int option" where
  "load_loop hashCount fs bl = do {
     c \<leftarrow> int64 (bl * int hashCount);
     if c < fs then do { bl \<leftarrow> int64 (bl * 2); load_loop hashCount fs bl } else Some bl
   }"

function split_hashes :: "nat \<Rightarrow> bytes \<Rightarrow> bytes list" where
  "split_hashes n d = (if 0 < n \<and> n \<le> length d then take n d # split_hashes n (drop n d) else [])"
  by pat_completeness auto
termination
  by (relation "measure (\<lambda>(_, d). length d)") auto

declare split_hashes.simps [simp del]

definition MerkleTree_load :: "'s Hasher \<Rightarrow> MerkleTree \<Rightarrow> int \<Rightarrow> bytes \<Rightarrow> (bool \<times> MerkleTree) option" where
  "MerkleTree_load H t fs d =
     (if length d mod hasher_BYTES H \<noteq> 0 then Some (False, t)
      else do {
        let hashCount = length d div hasher_BYTES H;
        let t = t\<lparr>leaves := split_hashes (hasher_BYTES H) d\<rparr>;
        bl \<leftarrow> load_loop hashCount fs (int BASE_BLOCK_SIZE);
        let t = t\<lparr>fileSize := fs, blockSize := bl\<rparr>;
        t \<leftarrow> calcRoot H t;
        Some (True, t)
      })"

definition getLeafData :: "MerkleTree \<Rightarrow> bytes" where
  "getLeafData t = (if length (leaves t) \<noteq> 0 then concat (leaves t) else [])"

definition MerkleTree_clear :: "MerkleTree \<Rightarrow> MerkleTree" where
  "MerkleTree_clear t = t\<lparr>blocks := [], leaves := [], fileSize := 0\<rparr>"

text \<open>The sizes.\<close>

partial_function (option) block_size_loop :: "u64 \<Rightarrow> u64 \<Rightarrow> u64 \<Rightarrow> u64 option" where
  "block_size_loop maxHashes fs bs =
     (if maxHashes * bs < fs then block_size_loop maxHashes fs (push_bit 1 bs) else Some bs)"

definition calcBlockSize :: "u64 \<Rightarrow> nat \<Rightarrow> u64 option" where
  "calcBlockSize fs maxLevels =
     block_size_loop (push_bit (maxLevels - 1) 1) fs (of_nat BASE_BLOCK_SIZE)"

definition calcBlocks :: "int \<Rightarrow> int \<Rightarrow> int option" where
  "calcBlocks fs bs = do {
     s \<leftarrow> int64 (fs + bs);
     s \<leftarrow> int64 (s - 1);
     if bs = 0 then None else Some (max (s sdiv bs) 1)
   }"

definition calcBlocks16 :: "int \<Rightarrow> u16 option" where
  "calcBlocks16 fs = do {
     bs \<leftarrow> calcBlockSize (word_of_int fs) 10;
     n \<leftarrow> calcBlocks fs (sint bs);
     Some (word_of_int n)
   }"

definition getMaxBlockSize :: "u64 \<Rightarrow> u64 option" where
  "getMaxBlockSize fs = do { bs \<leftarrow> calcBlockSize fs 10; Some (max bs MIN_BLOCK_SIZE) }"

section \<open>The hash tree of a list of leaves\<close>

text \<open>The greatest power of two below \<open>n\<close>, for \<open>n \<ge> 2\<close>.\<close>

fun pow_below :: "nat \<Rightarrow> nat" where
  "pow_below n = (if n \<le> 2 then 1 else 2 * pow_below ((n + 1) div 2))"

declare pow_below.simps [simp del]

lemma pow_below_exists: "2 \<le> n \<Longrightarrow> \<exists>i. pow_below n = 2 ^ i \<and> 2 ^ i < n \<and> n \<le> 2 * 2 ^ i"
proof (induction n rule: pow_below.induct)
  case (1 n)
  show ?case
  proof (cases "n \<le> 2")
    case True
    with 1(2) show ?thesis by (intro exI [of _ 0]) (simp add: pow_below.simps)
  next
    case False
    then obtain i where "pow_below ((n + 1) div 2) = 2 ^ i" "2 ^ i < (n + 1) div 2" "(n + 1) div 2 \<le> 2 * 2 ^ i"
      using 1(1) by force
    with False show ?thesis by (intro exI [of _ "Suc i"]) (simp add: pow_below.simps [of n], linarith)
  qed
qed

lemma power_two_between:
  assumes "(2 :: nat) ^ i < n" "n \<le> 2 * 2 ^ k"
  shows "i \<le> k"
proof -
  have "(2 :: nat) ^ i < 2 ^ Suc k" using assms by simp
  then show ?thesis using power_less_imp_less_exp [of "2 :: nat" i "Suc k"] by simp
qed

lemma pow_below_eqI:
  assumes "2 ^ i < n" "n \<le> 2 * 2 ^ i"
  shows "pow_below n = 2 ^ i"
proof -
  have "1 \<le> (2 :: nat) ^ i" by simp
  then have "2 \<le> n" using assms(1) by linarith
  then obtain k where k: "pow_below n = 2 ^ k" "2 ^ k < n" "n \<le> 2 * 2 ^ k"
    using pow_below_exists by blast
  then have "i = k" using power_two_between [of i n k] power_two_between [of k n i] assms by simp
  then show ?thesis using k by simp
qed

lemma pow_below_bounds:
  assumes "2 \<le> n"
  shows "0 < pow_below n" "pow_below n < n" "n \<le> 2 * pow_below n"
  using pow_below_exists [OF assms] by auto

function tree_root :: "('a \<Rightarrow> 'a \<Rightarrow> 'a) \<Rightarrow> 'a list \<Rightarrow> 'a" where
  "tree_root c hs = (if length hs \<le> 1 then hd hs
     else let k = pow_below (length hs) in c (tree_root c (take k hs)) (tree_root c (drop k hs)))"
  by pat_completeness auto
termination
proof (relation "measure (\<lambda>(_, hs). length hs)")
  fix hs :: "'a list" and k c
  assume "\<not> length hs \<le> 1" "k = pow_below (length hs)"
  then show "((c :: 'a \<Rightarrow> 'a \<Rightarrow> 'a, take k hs), c, hs) \<in> measure (\<lambda>(_, hs). length hs)"
    "((c :: 'a \<Rightarrow> 'a \<Rightarrow> 'a, drop k hs), c, hs) \<in> measure (\<lambda>(_, hs). length hs)"
    using pow_below_bounds [of "length hs"] by auto
qed simp

declare tree_root.simps [simp del]

lemma tree_root_single [simp]: "tree_root c [h] = h"
  by (simp add: tree_root.simps)

lemma tree_root_split:
  "2 \<le> length hs \<Longrightarrow> tree_root c hs =
    c (tree_root c (take (pow_below (length hs)) hs)) (tree_root c (drop (pow_below (length hs)) hs))"
  by (subst tree_root.simps) (simp add: Let_def)

lemma tree_root_append:
  assumes "length xs = 2 ^ i" "0 < length ys" "length ys \<le> 2 ^ i"
  shows "tree_root c (xs @ ys) = c (tree_root c xs) (tree_root c ys)"
proof -
  have "pow_below (length (xs @ ys)) = 2 ^ i" using assms by (intro pow_below_eqI) simp_all
  moreover have "\<not> length (xs @ ys) \<le> 1"
    using assms(1,2) one_le_power [of "2 :: nat" i] unfolding length_append by linarith
  ultimately show ?thesis
    using tree_root.simps [of c "xs @ ys"] by (simp only: if_not_P Let_def) (simp add: assms(1))
qed

text \<open>Pieces of \<open>k\<close> elements, the last one possibly shorter.\<close>

function groups :: "nat \<Rightarrow> 'a list \<Rightarrow> 'a list list" where
  "groups k xs = (if xs = [] \<or> k = 0 then [] else take k xs # groups k (drop k xs))"
  by pat_completeness auto
termination
  by (relation "measure (\<lambda>(_, xs). length xs)") auto

declare groups.simps [simp del]

lemma groups_Nil [simp]: "groups k [] = []"
  by (simp add: groups.simps)

lemma groups_short: "0 < length xs \<Longrightarrow> length xs \<le> k \<Longrightarrow> groups k xs = [xs]"
  by (cases "k = 0") (simp_all add: groups.simps)

lemma groups_append: "0 < k \<Longrightarrow> k dvd length xs \<Longrightarrow> groups k (xs @ ys) = groups k xs @ groups k ys"
proof (induction k xs rule: groups.induct)
  case (1 k xs)
  show ?case
  proof (cases "xs = []")
    case False
    with 1(3) have "k \<le> length xs" by (simp add: dvd_imp_le)
    with False 1 show ?thesis by (simp add: groups.simps [of k "xs @ ys"] groups.simps [of k xs] dvd_diff_nat)
  qed simp
qed

lemma length_groups: "0 < k \<Longrightarrow> length (groups k xs) = (length xs + k - 1) div k"
proof (induction k xs rule: groups.induct)
  case (1 k xs)
  show ?case
  proof (cases "length xs \<le> k")
    case True
    then show ?thesis
    proof (cases xs)
      case (Cons x ys)
      then have "(length xs + k - 1) div k = (length ys + k) div k" by simp
      also have "\<dots> = length ys div k + 1" using 1(2) by (intro div_add_self2) simp
      also have "length ys div k = 0" using True Cons by simp
      finally have "(length xs + k - 1) div k = 1" by simp
      moreover have "groups k xs = [xs]" using True Cons by (intro groups_short) simp_all
      ultimately show ?thesis by (simp only: list.size add_0 One_nat_def)
    qed (use 1(2) in simp)
  next
    case False
    then have "(length xs + k - 1) div k = Suc ((length xs - k + k - 1) div k)"
      using 1(2) by (subst le_div_geq) auto
    with False 1 show ?thesis by (subst groups.simps) auto
  qed
qed

lemma concat_groups: "0 < k \<Longrightarrow> concat (groups k xs) = xs"
  by (induction k xs rule: groups.induct) (subst groups.simps, simp)

lemma groups_nonempty: "g \<in> set (groups k xs) \<Longrightarrow> g \<noteq> []"
proof (induction k xs rule: groups.induct)
  case (1 k xs)
  then show ?case by (cases "xs = [] \<or> k = 0") (auto simp: groups.simps [of k xs])
qed

lemma groups_one: "groups 1 xs = map (\<lambda>x. [x]) xs"
  by (induction xs) (simp_all add: groups.simps [of "Suc 0" "_ # _"])

section \<open>Pending hashes\<close>

text \<open>
  The pending hashes of a list of block hashes: one root for each power of two in the binary
  representation of their number, the largest first.
\<close>

function pending :: "('a \<Rightarrow> 'a \<Rightarrow> 'a) \<Rightarrow> 'a list \<Rightarrow> ('a \<times> int) list" where
  "pending c hs = (if hs = [] then []
     else let k = pow_below (length hs + 1)
          in (tree_root c (take k hs), int BASE_BLOCK_SIZE * int k) # pending c (drop k hs))"
  by pat_completeness auto
termination
proof (relation "measure (\<lambda>(_, hs). length hs)")
  fix hs :: "'a list" and k c
  assume "hs \<noteq> []" "k = pow_below (length hs + 1)"
  then show "((c :: 'a \<Rightarrow> 'a \<Rightarrow> 'a, drop k hs), c, hs) \<in> measure (\<lambda>(_, hs). length hs)"
    using pow_below_bounds(1) [of "length hs + 1"] by (auto simp: Suc_le_eq)
qed simp

declare pending.simps [simp del]

lemma pending_Nil [simp]: "pending c [] = []"
  by (simp add: pending.simps)

lemma pending_Nil_iff [simp]: "pending c hs = [] \<longleftrightarrow> hs = []"
  by (subst pending.simps) (simp add: Let_def)

lemma pending_power: "length hs = 2 ^ i \<Longrightarrow> pending c hs = [(tree_root c hs, int BASE_BLOCK_SIZE * 2 ^ i)]"
proof -
  assume len: "length hs = 2 ^ i"
  have "pow_below (length hs + 1) = 2 ^ i" using len by (intro pow_below_eqI) simp_all
  moreover have "hs \<noteq> []" using len by auto
  ultimately show ?thesis using len by (subst pending.simps) simp
qed

lemma greatest_power:
  assumes "0 < n" "2 ^ i dvd n"
  obtains k where "pow_below (n + 1) = 2 ^ k" "2 ^ k \<le> n" "n < 2 * 2 ^ k" "i \<le> k" "2 ^ i dvd n - 2 ^ k"
    "n + 2 ^ i \<le> 2 * 2 ^ k"
proof -
  obtain k where k: "pow_below (n + 1) = 2 ^ k" "2 ^ k \<le> n" "n < 2 * 2 ^ k"
    using pow_below_exists [of "n + 1"] assms(1) by (auto simp: Suc_le_eq)
  have "2 ^ i < n + 1" using dvd_imp_le [OF assms(2)] assms(1) by simp
  then have ik: "i \<le> k" using power_two_between [of i "n + 1" k] k(3) by simp
  have dv: "(2 :: nat) ^ i dvd 2 ^ k" "(2 :: nat) ^ i dvd 2 * 2 ^ k"
    using ik le_imp_power_dvd [of i k 2] by (auto intro: dvd_mult)
  then have "2 ^ i dvd 2 * 2 ^ k - n" using assms(2) by (intro dvd_diff_nat)
  then have "2 ^ i \<le> 2 * 2 ^ k - n" using k(3) by (intro dvd_imp_le) simp_all
  then have "n + 2 ^ i \<le> 2 * 2 ^ k" using k(3) by simp
  with that k ik dv assms(2) show ?thesis by (simp add: dvd_diff_nat)
qed

lemma pending_append:
  assumes "length ys = 2 ^ i" "2 * 2 ^ i dvd length xs"
  shows "pending c (xs @ ys) = pending c xs @ [(tree_root c ys, int BASE_BLOCK_SIZE * 2 ^ i)]"
  using assms(2)
proof (induction c xs rule: pending.induct)
  case (1 c xs)
  show ?case
  proof (cases "xs = []")
    case True
    then show ?thesis using pending_power [OF assms(1)] by simp
  next
    case False
    then obtain k where k: "pow_below (length xs + 1) = 2 ^ k" "2 ^ k \<le> length xs" "length xs < 2 * 2 ^ k"
        "2 * 2 ^ i dvd length xs - 2 ^ k" "length xs + 2 * 2 ^ i \<le> 2 * 2 ^ k"
      using greatest_power [of "length xs" "Suc i"] 1(2) by auto
    have "pow_below (length (xs @ ys) + 1) = 2 ^ k"
      using k assms(1) by (intro pow_below_eqI) (auto intro: le_less_trans)
    with k False 1(1) [OF False refl]
    show ?thesis by (subst (1 2) pending.simps) (simp add: Let_def)
  qed
qed

lemma pending_last:
  assumes "xs \<noteq> []" "2 ^ i dvd length xs"
  shows "int BASE_BLOCK_SIZE * 2 ^ i \<le> snd (last (pending c xs))"
  using assms
proof (induction c xs rule: pending.induct)
  case (1 c xs)
  then obtain k where k: "pow_below (length xs + 1) = 2 ^ k" "2 ^ k \<le> length xs" "i \<le> k" "2 ^ i dvd length xs - 2 ^ k"
    using greatest_power [of "length xs" i] by auto
  then show ?case
    using 1 by (subst pending.simps) (auto simp: Let_def BASE_BLOCK_SIZE_def power_increasing)
qed

text \<open>
  One more block is pushed and the pending hashes are reduced: the invariant of the loop is that
  the last entry is the root of \<open>2 ^ i\<close> hashes \<open>ys\<close> and the others are those of the hashes \<open>xs\<close>
  before them.
\<close>

lemma two_power_dvd_sum:
  assumes "2 * 2 ^ i dvd n" "0 < n"
  shows "n + 2 ^ i \<noteq> (2 :: nat) ^ j"
proof
  assume sum: "n + 2 ^ i = 2 ^ j"
  then have "(2 :: nat) ^ i < 2 ^ j" using assms(2) by linarith
  then have "i < j" by simp
  then have "(2 :: nat) ^ Suc i dvd 2 ^ j" by (intro le_imp_power_dvd) simp
  then have "2 * 2 ^ i dvd 2 ^ j - n" using assms(1) by (intro dvd_diff_nat) simp_all
  moreover have "2 ^ j - n = 2 ^ i" using sum by linarith
  ultimately have "2 * 2 ^ i dvd (2 :: nat) ^ i" by simp
  then show False using dvd_imp_le [of "2 * 2 ^ i" "(2 :: nat) ^ i"] by simp
qed

text \<open>The hashes \<open>xs\<close> end with \<open>2 ^ i\<close> ones that are pending as one entry, or do not.\<close>

lemma split_last_power:
  assumes "2 ^ i dvd length xs" "\<not> 2 * 2 ^ i dvd length xs"
  obtains us zs where "xs = us @ zs" "length zs = 2 ^ i" "2 * 2 ^ i dvd length us"
proof -
  obtain q where q: "length xs = 2 ^ i * q" using assms(1) by blast
  have "odd q"
  proof
    assume "even q"
    then obtain p where "q = 2 * p" by blast
    then have "length xs = (2 * 2 ^ i) * p" using q by simp
    then show False using assms(2) by simp
  qed
  then obtain p where "q = 2 * p + 1" by (rule oddE)
  then have len: "length xs = 2 * 2 ^ i * p + 2 ^ i" using q by (simp add: algebra_simps)
  show thesis
    by (rule that [of "take (length xs - 2 ^ i) xs" "drop (length xs - 2 ^ i) xs"]) (simp_all add: len)
qed

lemma take_snoc_nth:
  assumes "take n bl = p @ [a]" "n \<le> length bl"
  shows "n = Suc (length p)" "bl ! (n - 1) = a"
proof -
  show n: "n = Suc (length p)" using arg_cong [OF assms(1), of length] assms(2) by simp
  have "take n bl ! (n - 1) = a" by (simp only: assms(1)) (simp add: n)
  then show "bl ! (n - 1) = a" by (simp add: n)
qed

lemma take_snoc2_nth:
  assumes "take n bl = (p @ [b]) @ [a]" "n \<le> length bl"
  shows "n = Suc (Suc (length p))" "bl ! (n - 2) = b" "bl ! (n - 1) = a" "take (n - 2) bl = p"
proof -
  show n: "n = Suc (Suc (length p))" using arg_cong [OF assms(1), of length] assms(2) by simp
  show "bl ! (n - 1) = a" by (rule take_snoc_nth(2) [OF assms])
  have "take n bl ! (n - 2) = b" by (simp only: assms(1)) (simp add: n nth_append)
  then show "bl ! (n - 2) = b" by (simp add: n)
  have "take (n - 2) (take n bl) = p" by (simp only: assms(1)) (simp add: n)
  then show "take (n - 2) bl = p" by (simp add: min_def split: if_splits)
qed

lemma reduce_loop_pending:
  assumes "take n bl = pending (combine H) xs @ [(tree_root (combine H) ys, int BASE_BLOCK_SIZE * 2 ^ i)]"
    "n \<le> length bl" "xs \<noteq> []" "length ys = 2 ^ i" "2 ^ i dvd length xs" "length xs + 2 ^ i \<le> 2 ^ j"
  shows "reduce_loop H (int BASE_BLOCK_SIZE * 2 ^ j) n bl lv =
    (if length xs + 2 ^ i = 2 ^ j then ([], lv @ [tree_root (combine H) (xs @ ys)])
     else (pending (combine H) (xs @ ys), lv))"
  using assms
proof (induction n arbitrary: bl xs ys i rule: less_induct)
  case (less n)
  let ?B = "int BASE_BLOCK_SIZE" and ?R = "tree_root (combine H)"
  show ?case
  proof (cases "2 * 2 ^ i dvd length xs")
    case True
    obtain p b where p: "pending (combine H) xs = p @ [b]"
      using less.prems(3) pending_Nil_iff [of "combine H" xs] by (metis rev_exhaust)
    have "?B * 2 ^ Suc i \<le> snd b"
      using pending_last [of xs "Suc i" "combine H"] True less.prems(3) p by simp
    moreover have "?B * 2 ^ i < ?B * 2 ^ Suc i" by (simp add: BASE_BLOCK_SIZE_def)
    ultimately have "snd b \<noteq> ?B * 2 ^ i" by linarith
    then show ?thesis
      using take_snoc2_nth [OF less.prems(1) [unfolded p] less.prems(2)] two_power_dvd_sum [OF True]
        pending_append [OF less.prems(4) True, of "combine H"] less.prems(1,3)
      by (subst reduce_loop.simps) (simp add: p)
  next
    case False
    obtain us zs where us: "xs = us @ zs" "length zs = 2 ^ i" "2 * 2 ^ i dvd length us"
      using split_last_power [OF less.prems(5) False] .
    have tk: "take n bl = (pending (combine H) us @ [(?R zs, ?B * 2 ^ i)]) @ [(?R ys, ?B * 2 ^ i)]"
      using less.prems(1) pending_append [OF us(2,3), of "combine H"] by (simp add: us(1))
    note nth = take_snoc2_nth [OF tk less.prems(2)]
    have cmb: "combine H (?R zs) (?R ys) = ?R (zs @ ys)"
      using tree_root_append [OF us(2), of ys "combine H"] less.prems(4) by simp
    let ?bl = "bl[n - 2 := (?R (zs @ ys), ?B * 2 ^ Suc i)]"
    have bl: "take (n - 1) ?bl = pending (combine H) us @ [(?R (zs @ ys), ?B * 2 ^ Suc i)]"
      using nth less.prems(2) by (simp add: take_Suc_conv_app_nth)
    have len: "length xs + 2 ^ i = length us + 2 * 2 ^ i" "length (zs @ ys) = 2 ^ Suc i"
      using us less.prems(4) by simp_all
    show ?thesis
    proof (cases "(2 :: nat) * 2 ^ i = 2 ^ j")
      case True
      then have pj: "(2 :: int) * 2 ^ i = 2 ^ j" by (metis power_Suc power_inject_exp one_less_numeral_iff semiring_norm(76))
      have "us = []" using len(1) less.prems(6) True by simp
      with nth show ?thesis
        using True pj len(1) by (subst reduce_loop.simps) (simp add: cmb us(1) pj [symmetric] mult.commute)
    next
      case neq: False
      then have pj: "(2 :: int) ^ j \<noteq> 2 * 2 ^ i" by (metis power_Suc power_inject_exp one_less_numeral_iff semiring_norm(76))
      have step: "reduce_loop H (?B * 2 ^ j) n bl lv =
          (if n - 1 < 2 then (take (n - 1) ?bl, lv) else reduce_loop H (?B * 2 ^ j) (n - 1) ?bl lv)"
        using nth pj by (subst reduce_loop.simps)
          (simp add: cmb BASE_BLOCK_SIZE_def Let_def mult.commute mult.left_commute)
      show ?thesis
      proof (cases "us = []")
        case True
        with nth have "n - 1 < 2" by simp
        then show ?thesis
          using step bl True neq len pending_power [OF len(2), of "combine H"] us(1) by simp
      next
        case ne: False
        then have "0 < length (pending (combine H) us)" by simp
        then have n: "\<not> n - 1 < 2" using nth(1) by linarith
        have "reduce_loop H (?B * 2 ^ j) (n - 1) ?bl lv =
            (if length us + 2 ^ Suc i = 2 ^ j then ([], lv @ [?R (us @ (zs @ ys))])
             else (pending (combine H) (us @ (zs @ ys)), lv))"
          using bl less.prems(2,6) us(3) ne len n nth(1)
          by (intro less.IH) simp_all
        with step n us(1) len(1) show ?thesis by simp
      qed
    qed
  qed
qed

section \<open>The tree while it is built\<close>

text \<open>
  The tree holds the block hashes \<open>hs\<close>: all but the last less than \<open>2 ^ j\<close> of them have been
  turned into leaves, the others are pending.
\<close>

definition holds :: "'s Hasher \<Rightarrow> nat \<Rightarrow> MerkleTree \<Rightarrow> bytes list \<Rightarrow> bool" where
  "holds H j t hs \<longleftrightarrow> blockSize t = int BASE_BLOCK_SIZE * 2 ^ j \<and>
     (\<exists>us vs. hs = us @ vs \<and> 2 ^ j dvd length us \<and> length vs < 2 ^ j \<and>
        leaves t = map (tree_root (combine H)) (groups (2 ^ j) us) \<and>
        blocks t = pending (combine H) vs)"

lemma holdsI:
  assumes "blockSize t = int BASE_BLOCK_SIZE * 2 ^ j" "hs = us @ vs" "2 ^ j dvd length us" "length vs < 2 ^ j"
    "leaves t = map (tree_root (combine H)) (groups (2 ^ j) us)" "blocks t = pending (combine H) vs"
  shows "holds H j t hs"
  using assms by (auto simp: holds_def)

lemma holds_new: "holds H j (MerkleTree_new H (int BASE_BLOCK_SIZE * 2 ^ j)) []"
  by (rule holdsI [of _ _ _ "[]" "[]"]) (simp_all add: MerkleTree_new_def)

lemma groups_snoc_power:
  assumes "2 ^ j dvd length us" "length ys = 2 ^ j"
  shows "groups (2 ^ j) (us @ ys) = groups (2 ^ j) us @ [ys]"
proof -
  have "groups (2 ^ j) ys = [ys]" using assms(2) by (intro groups_short) simp_all
  with assms(1) show ?thesis by (simp add: groups_append)
qed

lemma reduceBlocks_holds:
  assumes hs: "hs = us @ vs" "2 ^ j dvd length us" "length vs < 2 ^ j" and j: "0 < j"
    and t: "blockSize t = int BASE_BLOCK_SIZE * 2 ^ j"
      "leaves t = map (tree_root (combine H)) (groups (2 ^ j) us)"
      "blocks t = pending (combine H) vs @ [(h, int BASE_BLOCK_SIZE)]"
  shows "holds H j (reduceBlocks H t) (hs @ [h])"
proof (cases "vs = []")
  case True
  have "(1 :: nat) < 2 ^ j" using j by (intro one_less_power) simp_all
  with True t show ?thesis
    by (intro holdsI [of _ _ _ us "[h]"]) (simp_all add: reduceBlocks_def hs pending_power [of "[h]" 0])
next
  case False
  then have "length (blocks t) > 1" using t(3) by simp
  then have red: "reduceBlocks H t = (let (bl, lv) = reduce_loop H (int BASE_BLOCK_SIZE * 2 ^ j)
      (length (blocks t)) (blocks t) (leaves t) in t\<lparr>blocks := bl, leaves := lv\<rparr>)"
    by (simp add: reduceBlocks_def t(1))
  have loop: "reduce_loop H (int BASE_BLOCK_SIZE * 2 ^ j) (length (blocks t)) (blocks t) (leaves t) =
      (if length vs + 2 ^ 0 = 2 ^ j then ([], leaves t @ [tree_root (combine H) (vs @ [h])])
       else (pending (combine H) (vs @ [h]), leaves t))"
    using False hs(3) by (intro reduce_loop_pending) (simp_all add: t(3))
  show ?thesis
  proof (cases "Suc (length vs) = 2 ^ j")
    case True
    then have "reduceBlocks H t = t\<lparr>blocks := [], leaves := leaves t @ [tree_root (combine H) (vs @ [h])]\<rparr>"
      using red loop by simp
    then show ?thesis
      using True hs t groups_snoc_power [OF hs(2), of "vs @ [h]"]
      by (intro holdsI [of _ _ _ "us @ (vs @ [h])" "[]"]) simp_all
  next
    case False
    then have "reduceBlocks H t = t\<lparr>blocks := pending (combine H) (vs @ [h])\<rparr>"
      using red loop by simp
    then show ?thesis
      using False hs t by (intro holdsI [of _ _ _ us "vs @ [h]"]) simp_all
  qed
qed

lemma add_block_holds:
  assumes "holds H j t hs"
  shows "holds H j (add_block H t d) (hs @ [leafHash H d])"
proof -
  obtain us vs where t: "hs = us @ vs" "2 ^ j dvd length us" "length vs < 2 ^ j"
      "blockSize t = int BASE_BLOCK_SIZE * 2 ^ j"
      "leaves t = map (tree_root (combine H)) (groups (2 ^ j) us)" "blocks t = pending (combine H) vs"
    using assms by (auto simp: holds_def)
  show ?thesis
  proof (cases j)
    case 0
    with t show ?thesis
      by (intro holdsI [of _ _ _ "us @ [leafHash H d]" "[]"])
        (simp_all add: add_block_def BASE_BLOCK_SIZE_def groups_one [simplified])
  next
    case (Suc i)
    then have "int BASE_BLOCK_SIZE < int BASE_BLOCK_SIZE * 2 ^ j"
      using power_gt1 [of "2 :: int" i] by (simp add: BASE_BLOCK_SIZE_def)
    then have "add_block H t d = reduceBlocks H (t\<lparr>blocks := blocks t @ [(leafHash H d, int BASE_BLOCK_SIZE)]\<rparr>)"
      using t(4) by (simp only: add_block_def if_True)
    then show ?thesis
      using Suc t by (simp only:) (rule reduceBlocks_holds [OF refl], simp_all)
  qed
qed

lemma add_block_fileSize [simp]: "fileSize (add_block H t d) = fileSize t"
  by (simp add: add_block_def reduceBlocks_def split: prod.split)

lemma update_loop_fileSize [simp]: "fileSize (update_loop H t d) = fileSize t"
  by (induction H t d rule: update_loop.induct) (subst update_loop.simps, simp add: Let_def)

text \<open>The blocks that \<open>update\<close> hashes: an empty file has one empty block.\<close>

definition base_blocks :: "bytes \<Rightarrow> bytes list" where
  "base_blocks d = (if d = [] then [[]] else groups BASE_BLOCK_SIZE d)"

lemma update_loop_holds:
  "holds H j t hs \<Longrightarrow> holds H j (update_loop H t d) (hs @ map (leafHash H) (base_blocks d))"
proof (induction H t d arbitrary: hs rule: update_loop.induct)
  case (1 H t d)
  have B: "BASE_BLOCK_SIZE \<noteq> 0" by (simp add: BASE_BLOCK_SIZE_def)
  note add = add_block_holds [OF 1(2), of "take BASE_BLOCK_SIZE d"]
  show ?case
  proof (cases "drop BASE_BLOCK_SIZE d = []")
    case True
    then have "base_blocks d = [d]" "take BASE_BLOCK_SIZE d = d"
      by (cases "d = []"; simp add: base_blocks_def groups_short)+
    with add True show ?thesis by (subst update_loop.simps) simp
  next
    case False
    then have "base_blocks d = take BASE_BLOCK_SIZE d # base_blocks (drop BASE_BLOCK_SIZE d)"
      using B by (auto simp: base_blocks_def groups.simps [of BASE_BLOCK_SIZE d])
    with 1(1) [OF refl refl False add] False show ?thesis by (subst update_loop.simps) simp
  qed
qed

lemma update_holds:
  assumes "holds H j t hs" "d \<noteq> [] \<or> hs = []"
  shows "holds H j (MerkleTree_update H t d) (hs @ map (leafHash H) (base_blocks d))"
    "fileSize (MerkleTree_update H t d) = fileSize t + int (length d)"
proof -
  have "\<not> (d = [] \<and> \<not> (leaves t = [] \<and> blocks t = []))"
    using assms by (auto simp: holds_def)
  then have u: "MerkleTree_update H t d =
      (update_loop H t d)\<lparr>fileSize := fileSize (update_loop H t d) + int (length d)\<rparr>"
    by (auto simp: MerkleTree_update_def)
  show "holds H j (MerkleTree_update H t d) (hs @ map (leafHash H) (base_blocks d))"
    using update_loop_holds [OF assms(1), of d] by (simp add: u holds_def)
  show "fileSize (MerkleTree_update H t d) = fileSize t + int (length d)" by (simp add: u)
qed

text \<open>\<open>finalize\<close> joins the pending hashes to the root of the blocks they stand for.\<close>

lemma pending_Cons:
  assumes "hs \<noteq> []"
  obtains i xs ys where "hs = xs @ ys" "length xs = 2 ^ i" "length ys < 2 ^ i"
    "pending c hs = (tree_root c xs, int BASE_BLOCK_SIZE * 2 ^ i) # pending c ys"
proof -
  obtain k where k: "pow_below (length hs + 1) = 2 ^ k" "2 ^ k \<le> length hs" "length hs < 2 * 2 ^ k"
    using greatest_power [of "length hs" 0] assms by auto
  with assms that [of "take (2 ^ k) hs" "drop (2 ^ k) hs" k] show ?thesis
    by (simp add: pending.simps [of c hs] Let_def)
qed

fun join :: "('a \<Rightarrow> 'a \<Rightarrow> 'a) \<Rightarrow> 'a list \<Rightarrow> 'a" where
  "join c [] = undefined"
| "join c [x] = x"
| "join c (x # xs) = c x (join c xs)"

lemma join_snoc2: "join c (xs @ [a, b]) = join c (xs @ [c a b])"
proof (induction xs)
  case (Cons x xs)
  then show ?case by (cases xs) auto
qed simp

lemma join_pending: "hs \<noteq> [] \<Longrightarrow> join c (map fst (pending c hs)) = tree_root c hs"
proof (induction hs rule: length_induct)
  case (1 hs)
  obtain i xs ys where h: "hs = xs @ ys" "length xs = 2 ^ i" "length ys < 2 ^ i"
      "pending c hs = (tree_root c xs, int BASE_BLOCK_SIZE * 2 ^ i) # pending c ys"
    using pending_Cons [OF 1(2)] .
  show ?case
  proof (cases "ys = []")
    case True
    with h show ?thesis by simp
  next
    case False
    have "length ys < length hs" using h(1,2) by simp
    with 1 False have "join c (map fst (pending c ys)) = tree_root c ys" by blast
    moreover obtain p ps where "pending c ys = p # ps" using False by (cases "pending c ys") auto
    ultimately show ?thesis
      using h False tree_root_append [OF h(2), of ys c] by simp
  qed
qed

lemma join_loop_join:
  assumes "2 \<le> n" "n \<le> length bl"
  shows "\<exists>s. join_loop H n bl = [(join (combine H) (map fst (take n bl)), s)]"
  using assms
proof (induction H n bl rule: join_loop.induct)
  case (1 H n bl)
  let ?a = "bl ! (n - 2)" and ?b = "bl ! (n - 1)"
  let ?bl = "bl[n - 2 := (combine H (fst ?a) (fst ?b), snd ?a)]"
  have t: "take n bl = take (n - 2) bl @ [?a, ?b]"
  proof -
    have "take n bl = take (n - 1) bl @ [?b]" using 1(2,3) take_Suc_conv_app_nth [of "n - 1" bl] by simp
    also have "take (n - 1) bl = take (n - 2) bl @ [?a]"
      using 1(2,3) take_Suc_conv_app_nth [of "n - 2" bl] by (simp add: Suc_diff_Suc numeral_2_eq_2)
    finally show ?thesis by simp
  qed
  have t': "take (n - 1) ?bl = take (n - 2) bl @ [(combine H (fst ?a) (fst ?b), snd ?a)]"
    using 1(2,3) take_Suc_conv_app_nth [of "n - 2" ?bl] by (simp add: Suc_diff_Suc numeral_2_eq_2)
  have eq: "join (combine H) (map fst (take (n - 1) ?bl)) = join (combine H) (map fst (take n bl))"
    unfolding t t' by (simp add: join_snoc2)
  show ?case
  proof (cases "n \<le> 2")
    case True
    with 1(2) have "n = 2" by simp
    then have "join_loop H n bl = take (n - 1) ?bl" by (simp add: join_loop.simps Let_def)
    with eq t' \<open>n = 2\<close> show ?thesis by (simp only:) simp
  next
    case False
    then have "join_loop H n bl = join_loop H (n - 1) ?bl" by (subst join_loop.simps) (simp add: Let_def)
    with 1(1) [OF refl refl refl False] False 1(3) eq show ?thesis by simp
  qed
qed

lemma groups_append_short:
  assumes "k dvd length us" "0 < length vs" "length vs < k"
  shows "groups k (us @ vs) = groups k us @ [vs]"
proof -
  have "0 < k" using assms(2,3) by simp
  then show ?thesis using assms by (simp add: groups_append groups_short)
qed

definition finished :: "'s Hasher \<Rightarrow> nat \<Rightarrow> MerkleTree \<Rightarrow> bytes list \<Rightarrow> bool" where
  "finished H j t hs \<longleftrightarrow> blockSize t = int BASE_BLOCK_SIZE * 2 ^ j \<and> blocks t = [] \<and>
     leaves t = map (tree_root (combine H)) (groups (2 ^ j) hs)"

definition join_blocks :: "'s Hasher \<Rightarrow> MerkleTree \<Rightarrow> MerkleTree" where
  "join_blocks H t = (
     let t = (if length (blocks t) > 1 then t\<lparr>blocks := join_loop H (length (blocks t)) (blocks t)\<rparr> else t)
     in if blocks t \<noteq> [] then t\<lparr>leaves := leaves t @ [fst (hd (blocks t))], blocks := []\<rparr> else t)"

lemma MerkleTree_finalize_join:
  "MerkleTree_finalize H t =
    calcRoot H (join_blocks H (if leaves t = [] \<and> blocks t = [] then MerkleTree_update H t [] else t))"
  by (simp add: MerkleTree_finalize_def join_blocks_def Let_def)

lemma join_blocks_finished:
  assumes "holds H j t hs"
  shows "finished H j (join_blocks H t) hs" "fileSize (join_blocks H t) = fileSize t"
proof -
  let ?R = "tree_root (combine H)"
  show "fileSize (join_blocks H t) = fileSize t" by (simp add: join_blocks_def Let_def)
  obtain us vs where t: "hs = us @ vs" "2 ^ j dvd length us" "length vs < 2 ^ j"
      "blockSize t = int BASE_BLOCK_SIZE * 2 ^ j"
      "leaves t = map ?R (groups (2 ^ j) us)" "blocks t = pending (combine H) vs"
    using assms by (auto simp: holds_def)
  show "finished H j (join_blocks H t) hs"
  proof (cases "vs = []")
    case True
    with t show ?thesis by (simp add: finished_def join_blocks_def)
  next
    case False
    let ?bl = "if length (blocks t) > 1 then join_loop H (length (blocks t)) (blocks t) else blocks t"
    have "\<exists>s. ?bl = [(join (combine H) (map fst (blocks t)), s)]"
    proof (cases "length (blocks t) > 1")
      case True
      then show ?thesis using join_loop_join [of "length (blocks t)" "blocks t" H] by simp
    next
      case False
      moreover have "blocks t \<noteq> []" using t(6) \<open>vs \<noteq> []\<close> by simp
      ultimately obtain p where "blocks t = [p]" by (cases "blocks t") auto
      then show ?thesis by (cases p) simp
    qed
    then obtain s where "?bl = [(?R vs, s)]"
      using join_pending [OF False, of "combine H"] t(6) by auto
    then have "leaves (join_blocks H t) = leaves t @ [?R vs]" "blocks (join_blocks H t) = []"
      "blockSize (join_blocks H t) = blockSize t"
      by (auto simp: join_blocks_def Let_def split: if_splits)
    then show ?thesis
      using t False groups_append_short [OF t(2), of vs] by (simp add: finished_def)
  qed
qed

section \<open>The root from the leaves\<close>

text \<open>A part of the file of \<open>len\<close> bytes that starts at a leaf and takes \<open>n\<close> leaves.\<close>

definition spans :: "int \<Rightarrow> int \<Rightarrow> nat \<Rightarrow> bool" where
  "spans bs len n \<longleftrightarrow> 0 < n \<and> len \<le> bs * int n \<and> (bs * int (n - 1) < len \<or> n = 1)"

lemma double_loop_spans:
  assumes "0 < bs" "spans bs len n" "2 ^ i < n"
  shows "double_loop len (bs * 2 ^ i) = Some (bs * int (pow_below n)) \<or>
    double_loop len (bs * 2 ^ i) = None \<and> 2 ^ 62 < len"
  using assms(3)
proof (induction "n - 2 ^ i" arbitrary: i rule: less_induct)
  case less
  let ?l = "bs * 2 ^ i"
  have n: "bs * int (n - 1) < len" "len \<le> bs * int n"
    using assms(2) less.prems by (auto simp: spans_def)
  have "int (2 ^ i) \<le> int (n - 1)" using less.prems by linarith
  then have "bs * int (2 ^ i) \<le> bs * int (n - 1)" using assms(1) by (intro mult_left_mono) simp_all
  then have "bs * int (2 ^ i) < len" using n(1) by (rule le_less_trans)
  then have l: "0 < ?l" "?l < len" using assms(1) by simp_all
  show ?case
  proof (cases "?l * 2 < 2 ^ 63")
    case False
    then have "int64 (?l * 2) = None" by (simp add: int64_def)
    moreover have "2 ^ 62 < len" using False l(2) by simp
    ultimately show ?thesis by (subst (1 2) double_loop.simps) simp
  next
    case True
    then have g: "int64 (?l * 2) = Some (?l * 2)" using l(1) by (intro int64_nonneg) simp_all
    show ?thesis
    proof (cases "2 ^ Suc i < n")
      case True
      then have "int (2 ^ Suc i) \<le> int (n - 1)" by linarith
      then have "bs * int (2 ^ Suc i) \<le> bs * int (n - 1)" using assms(1) by (intro mult_left_mono) simp_all
      then have "?l * 2 < len" using n by (simp add: mult.assoc mult.commute)
      then have "double_loop len ?l = double_loop len (bs * 2 ^ Suc i)"
        using g by (subst double_loop.simps) (simp add: ac_simps)
      moreover have "double_loop len (bs * 2 ^ Suc i) = Some (bs * int (pow_below n)) \<or>
          double_loop len (bs * 2 ^ Suc i) = None \<and> 2 ^ 62 < len"
        using True by (intro less.hyps) (auto intro!: diff_less_mono2)
      ultimately show ?thesis by simp
    next
      case False
      then have "pow_below n = 2 ^ i" using less.prems by (intro pow_below_eqI) simp_all
      moreover have "int n \<le> int (2 ^ Suc i)" using False by (simp only: of_nat_le_iff not_less)
      then have "bs * int n \<le> bs * int (2 ^ Suc i)" using assms(1) by (intro mult_left_mono) simp_all
      then have "\<not> ?l * 2 < len" using n by (simp add: mult.assoc mult.commute)
      then have "double_loop len ?l = Some ?l" using g by (subst double_loop.simps) simp
      ultimately show ?thesis by simp
    qed
  qed
qed

lemma spans_split:
  assumes "0 < bs" "spans bs len n" "2 \<le> n"
  shows "spans bs (bs * int (pow_below n)) (pow_below n)"
    "spans bs (len - bs * int (pow_below n)) (n - pow_below n)"
  using pow_below_bounds [OF assms(3)] assms
  by (auto simp: spans_def of_nat_diff algebra_simps)

text \<open>
  The root from the leaves, in files of any size: where the doubling leaves \<open>int64_t\<close>, which needs
  more than \<open>2 ^ 62\<close> bytes, there is no result.
\<close>

lemma getHash_tree_root:
  assumes bs: "0 < blockSize t" and "spans (blockSize t) len n" "s + n \<le> length (leaves t)"
  shows "getHash H t (blockSize t * int s) len = Some (tree_root (combine H) (take n (drop s (leaves t)))) \<or>
    getHash H t (blockSize t * int s) len = None \<and> 2 ^ 62 < len"
  using assms(2,3)
proof (induction n arbitrary: s len rule: less_induct)
  case (less n)
  let ?bs = "blockSize t"
  show ?case
  proof (cases "n = 1")
    case True
    have "(?bs * int s) sdiv ?bs = int s" using bs by (simp add: signed_divide_int_def sgn_if abs_mult)
    moreover have "take 1 (drop s (leaves t)) = [leaves t ! s]"
      using less.prems(2) True by (simp add: take_Suc_conv_app_nth [of 0, simplified] hd_drop_conv_nth)
    ultimately have "getHash H t (?bs * int s) len = Some (tree_root (combine H) (take n (drop s (leaves t))))"
      using less.prems True bs by (subst getHash.simps) (simp add: spans_def Let_def)
    then show ?thesis ..
  next
    case False
    let ?k = "pow_below n"
    have n: "2 \<le> n" using False less.prems(1) by (simp add: spans_def)
    note k = pow_below_bounds [OF n] and sp = spans_split [OF bs less.prems(1) n]
    have "?bs * int 1 \<le> ?bs * int (n - 1)" using bs n by (intro mult_left_mono) simp_all
    then have "\<not> len \<le> ?bs" using less.prems(1) False unfolding spans_def by linarith
    then have step: "getHash H t (?bs * int s) len = do {
        l \<leftarrow> double_loop len ?bs;
        a \<leftarrow> getHash H t (?bs * int s) l;
        b \<leftarrow> getHash H t (?bs * int s + l) (len - l);
        Some (combine H a b)
      }" by (subst getHash.simps) simp
    have d: "double_loop len ?bs = Some (?bs * int ?k) \<or> double_loop len ?bs = None \<and> 2 ^ 62 < len"
      using double_loop_spans [OF bs less.prems(1), of 0] n by simp
    have a: "getHash H t (?bs * int s) (?bs * int ?k) =
        Some (tree_root (combine H) (take ?k (drop s (leaves t)))) \<or>
        getHash H t (?bs * int s) (?bs * int ?k) = None \<and> 2 ^ 62 < ?bs * int ?k"
      using k sp(1) less.prems(2) by (intro less.IH) simp_all
    have b: "getHash H t (?bs * int (s + ?k)) (len - ?bs * int ?k) =
        Some (tree_root (combine H) (take (n - ?k) (drop (s + ?k) (leaves t)))) \<or>
        getHash H t (?bs * int (s + ?k)) (len - ?bs * int ?k) = None \<and> 2 ^ 62 < len - ?bs * int ?k"
      using k sp(2) less.prems(2) by (intro less.IH) simp_all
    have le: "?bs * int ?k \<le> len" "0 \<le> ?bs * int ?k"
    proof -
      have "?bs * int ?k \<le> ?bs * int (n - 1)" using bs k by (intro mult_left_mono) simp_all
      then show "?bs * int ?k \<le> len" using less.prems(1) False unfolding spans_def by linarith
    qed (use bs in simp)
    have "tree_root (combine H) (take n (drop s (leaves t))) =
        combine H (tree_root (combine H) (take ?k (drop s (leaves t))))
          (tree_root (combine H) (take (n - ?k) (drop (s + ?k) (leaves t))))"
    proof -
      have "length (take n (drop s (leaves t))) = n" using less.prems(2) by simp
      with tree_root_split [of "take n (drop s (leaves t))" "combine H"] n k show ?thesis
        by (simp add: drop_take add.commute)
    qed
    with d a b le show ?thesis unfolding step by (auto simp: distrib_left)
  qed
qed

lemma calcRoot_cases:
  assumes "0 < blockSize t" "spans (blockSize t) (fileSize t) (length (leaves t))"
  shows "calcRoot H t = Some (t\<lparr>root := tree_root (combine H) (leaves t)\<rparr>) \<or>
    calcRoot H t = None \<and> 2 ^ 62 < fileSize t"
  using getHash_tree_root [OF assms(1,2), of 0 H] by (auto simp: calcRoot_def)

lemma calcRoot_tree_root:
  assumes "0 < blockSize t" "spans (blockSize t) (fileSize t) (length (leaves t))" "fileSize t \<le> 2 ^ 62"
  shows "calcRoot H t = Some (t\<lparr>root := tree_root (combine H) (leaves t)\<rparr>)"
  using calcRoot_cases [OF assms(1,2), of H] assms(3) by auto

text \<open>Roots of groups of \<open>2 ^ j\<close> hashes: the root of these roots is the root of all.\<close>

lemma take_groups: "0 < k \<Longrightarrow> groups k (take (q * k) xs) = take q (groups k xs)" and
  drop_groups: "0 < k \<Longrightarrow> groups k (drop (q * k) xs) = drop q (groups k xs)"
proof -
  assume k: "0 < k"
  show "groups k (take (q * k) xs) = take q (groups k xs)"
  proof (induction q arbitrary: xs)
    case (Suc q)
    show ?case
    proof (cases "xs = []")
      case False
      have "groups k (take (Suc q * k) xs) = take k xs # groups k (take (q * k) (drop k xs))"
        using k False by (subst groups.simps) (simp add: drop_take)
      with Suc [of "drop k xs"] k False show ?thesis by (simp add: groups.simps [of k xs])
    qed simp
  qed simp
  show "groups k (drop (q * k) xs) = drop q (groups k xs)"
  proof (induction q arbitrary: xs)
    case (Suc q)
    have "drop (Suc q * k) xs = drop (q * k) (drop k xs)" by (simp add: add.commute)
    then show ?case using k Suc [of "drop k xs"] by (cases "xs = []") (simp_all add: groups.simps [of k xs])
  qed simp
qed

lemma tree_root_groups:
  "0 < length hs \<Longrightarrow> tree_root c (map (tree_root c) (groups (2 ^ j) hs)) = tree_root c hs"
proof (induction hs rule: length_induct)
  case (1 hs)
  let ?g = "groups (2 ^ j) hs"
  show ?case
  proof (cases "length hs \<le> 2 ^ j")
    case True
    then show ?thesis using 1(2) by (simp add: groups_short)
  next
    case False
    then have n: "2 \<le> length hs" using one_le_power [of "2 :: nat" j] by linarith
    then obtain i where i: "pow_below (length hs) = 2 ^ i" "2 ^ i < length hs" "length hs \<le> 2 * 2 ^ i"
      using pow_below_exists by blast
    then have "j \<le> i" using power_two_between [of j "length hs" i] False by simp
    then have ij: "(2 :: nat) ^ i = 2 ^ (i - j) * 2 ^ j" by (simp flip: power_add)
    have g: "take (2 ^ (i - j)) ?g = groups (2 ^ j) (take (2 ^ i) hs)"
      "drop (2 ^ (i - j)) ?g = groups (2 ^ j) (drop (2 ^ i) hs)"
      by (simp_all only: ij take_groups drop_groups zero_less_power zero_less_numeral)
    have len: "length (take (2 ^ (i - j)) ?g) = 2 ^ (i - j)" "0 < length (drop (2 ^ (i - j)) ?g)"
      "length (drop (2 ^ (i - j)) ?g) \<le> 2 ^ (i - j)"
    proof -
      have *: "length ?g = (length hs + 2 ^ j - 1) div 2 ^ j" by (simp add: length_groups)
      have "2 ^ (i - j) * 2 ^ j + 2 ^ j \<le> length hs + 2 ^ j - 1" using i(2) ij by simp
      then have "(2 ^ (i - j) + 1) * 2 ^ j \<le> length hs + 2 ^ j - 1" by simp
      then have lo: "2 ^ (i - j) + 1 \<le> length ?g"
        unfolding * by (simp only: less_eq_div_iff_mult_less_eq zero_less_power zero_less_numeral)
      have "length hs + 2 ^ j - 1 < length hs + 2 ^ j" using 1(2) by simp
      also have "\<dots> \<le> (2 * 2 ^ (i - j) + 1) * 2 ^ j" using i(3) ij by (simp add: algebra_simps)
      finally have "length ?g < 2 * 2 ^ (i - j) + 1"
        unfolding * by (simp only: div_less_iff_less_mult zero_less_power zero_less_numeral)
      with lo show "length (take (2 ^ (i - j)) ?g) = 2 ^ (i - j)" "0 < length (drop (2 ^ (i - j)) ?g)"
        "length (drop (2 ^ (i - j)) ?g) \<le> 2 ^ (i - j)" by simp_all
    qed
    have "tree_root c (map (tree_root c) ?g) =
        tree_root c (map (tree_root c) (take (2 ^ (i - j)) ?g) @ map (tree_root c) (drop (2 ^ (i - j)) ?g))"
      by (simp flip: map_append)
    also have "\<dots> = c (tree_root c (map (tree_root c) (take (2 ^ (i - j)) ?g)))
        (tree_root c (map (tree_root c) (drop (2 ^ (i - j)) ?g)))"
      using len by (intro tree_root_append) simp_all
    also have "\<dots> = c (tree_root c (take (2 ^ i) hs)) (tree_root c (drop (2 ^ i) hs))"
    proof -
      have "hs \<noteq> []" "take (2 ^ i) hs \<noteq> []" "drop (2 ^ i) hs \<noteq> []" using i(2) by auto
      with 1(1) i(2) show ?thesis by (simp add: g)
    qed
    also have "\<dots> = tree_root c hs"
      using tree_root_split [OF n, of c] i(1) by simp
    finally show ?thesis .
  qed
qed

section \<open>The root of a file\<close>

text \<open>
  The specification, for the digest function \<open>dg\<close> of the hash class: the leaves of a tree with
  blocks of \<open>1024 * 2 ^ j\<close> bytes, and the root.
\<close>

definition node :: "(bytes \<Rightarrow> bytes) \<Rightarrow> bytes \<Rightarrow> bytes \<Rightarrow> bytes" where
  "node dg a b = dg (1 # a @ b)"

definition block_hashes :: "(bytes \<Rightarrow> bytes) \<Rightarrow> bytes \<Rightarrow> bytes list" where
  "block_hashes dg m = map (\<lambda>d. dg (0 # d)) (base_blocks m)"

definition tth :: "(bytes \<Rightarrow> bytes) \<Rightarrow> bytes \<Rightarrow> bytes" where
  "tth dg m = tree_root (node dg) (block_hashes dg m)"

definition tth_leaves :: "(bytes \<Rightarrow> bytes) \<Rightarrow> nat \<Rightarrow> bytes \<Rightarrow> bytes list" where
  "tth_leaves dg j m = map (tree_root (node dg)) (groups (2 ^ j) (block_hashes dg m))"

text \<open>
  A file cut into updates as \<open>update\<close> wants them: every piece but the last a multiple of 1024 bytes.
  Empty pieces are skipped, except in front of data.
\<close>

definition full_cut :: "bytes list \<Rightarrow> bool" where
  "full_cut ds \<longleftrightarrow> list_all (\<lambda>d. length d mod BASE_BLOCK_SIZE = 0) (butlast ds) \<and> [] \<notin> set ds"

definition well_cut :: "bytes list \<Rightarrow> bool" where
  "well_cut ds \<longleftrightarrow> full_cut (filter (\<lambda>d. d \<noteq> []) ds) \<and> (concat ds = [] \<or> hd ds \<noteq> [])"

lemma groups_bounds:
  assumes "0 < k" "xs \<noteq> []"
  shows "0 < length (groups k xs) \<and> length xs \<le> k * length (groups k xs) \<and>
    k * (length (groups k xs) - 1) < length xs"
  using assms
proof (induction k xs rule: groups.induct)
  case (1 k xs)
  show ?case
  proof (cases "length xs \<le> k")
    case True
    then show ?thesis using 1 by (simp add: groups_short)
  next
    case False
    then have "groups k xs = take k xs # groups k (drop k xs)" using 1(3) by (subst groups.simps) (use 1(2) in simp)
    moreover have "0 < length (groups k (drop k xs)) \<and> length (drop k xs) \<le> k * length (groups k (drop k xs)) \<and>
        k * (length (groups k (drop k xs)) - 1) < length (drop k xs)"
      using False 1(2,3) by (intro 1(1)) simp_all
    ultimately show ?thesis using False by (cases "length (groups k (drop k xs))") auto
  qed
qed

lemma spans_leaves: "spans (int BASE_BLOCK_SIZE * 2 ^ j) (int (length m)) (length (tth_leaves dg j m))"
proof (cases "m = []")
  case True
  then show ?thesis by (simp add: spans_def tth_leaves_def block_hashes_def base_blocks_def groups_short)
next
  case False
  define q where "q = length (groups BASE_BLOCK_SIZE m)"
  define n where "n = length (tth_leaves dg j m)"
  have q: "0 < q" "length m \<le> BASE_BLOCK_SIZE * q" "BASE_BLOCK_SIZE * (q - 1) < length m"
    using groups_bounds [of BASE_BLOCK_SIZE m] False by (simp_all add: q_def BASE_BLOCK_SIZE_def)
  have "length (block_hashes dg m) = q" using False by (simp add: block_hashes_def base_blocks_def q_def)
  then have n: "0 < n" "q \<le> 2 ^ j * n" "2 ^ j * (n - 1) < q"
    using groups_bounds [of "2 ^ j" "block_hashes dg m"] q(1) by (auto simp: n_def tth_leaves_def)
  have "length m \<le> BASE_BLOCK_SIZE * (2 ^ j * n)"
    using q(2) n(2) mult_le_mono2 order_trans by blast
  moreover have "BASE_BLOCK_SIZE * (2 ^ j * (n - 1)) \<le> BASE_BLOCK_SIZE * (q - 1)"
    using n(3) by (intro mult_le_mono2) simp
  then have "BASE_BLOCK_SIZE * (2 ^ j * (n - 1)) < length m" using q(3) by linarith
  ultimately have "int (length m) \<le> int (BASE_BLOCK_SIZE * (2 ^ j * n))"
    "int (BASE_BLOCK_SIZE * (2 ^ j * (n - 1))) < int (length m)"
    by (simp_all only: of_nat_le_iff of_nat_less_iff)
  then show ?thesis using n(1) by (simp add: spans_def n_def [symmetric] mult.assoc)
qed

lemma int_le_2_62: "n \<le> 2 ^ 62 \<Longrightarrow> int n \<le> 2 ^ 62"
  by (simp flip: of_nat_le_iff)

lemma base_blocks_append:
  "length m mod BASE_BLOCK_SIZE = 0 \<Longrightarrow> d \<noteq> [] \<Longrightarrow>
    base_blocks (m @ d) = groups BASE_BLOCK_SIZE m @ base_blocks d"
  by (simp add: base_blocks_def groups_append BASE_BLOCK_SIZE_def mod_eq_0_iff_dvd)

lemma base_blocks_nonempty: "m \<noteq> [] \<Longrightarrow> base_blocks m = groups BASE_BLOCK_SIZE m"
  by (simp add: base_blocks_def)

lemma updates_full_blocks:
  assumes "list_all (\<lambda>d. length d mod BASE_BLOCK_SIZE = 0) ds" "[] \<notin> set ds"
  shows "holds H j (foldl (MerkleTree_update H) (MerkleTree_new H (int BASE_BLOCK_SIZE * 2 ^ j)) ds)
      (map (leafHash H) (groups BASE_BLOCK_SIZE (concat ds)))"
    "fileSize (foldl (MerkleTree_update H) (MerkleTree_new H (int BASE_BLOCK_SIZE * 2 ^ j)) ds) =
      int (length (concat ds))"
    "length (concat ds) mod BASE_BLOCK_SIZE = 0"
  using assms
proof (induction ds rule: rev_induct)
  case Nil
  { case 1 then show ?case by (simp add: holds_new) }
  { case 2 then show ?case by (simp add: MerkleTree_new_def) }
  { case 3 then show ?case by simp }
next
  case (snoc d ds)
  { case 1
    then show ?case
      using update_holds(1) [OF snoc(1), of d] base_blocks_append [OF snoc(3), of d] base_blocks_nonempty
      by (auto simp: list_all_iff simp flip: map_append) }
  { case 2
    then show ?case using snoc(1,2) update_holds(2) [OF snoc(1), of d] by (auto simp: list_all_iff) }
  { case 3 then show ?case using snoc(3) by (auto simp: list_all_iff mod_add_eq) }
qed

lemma updates_blocks:
  assumes "full_cut ds" "ds \<noteq> []"
  shows "holds H j (foldl (MerkleTree_update H) (MerkleTree_new H (int BASE_BLOCK_SIZE * 2 ^ j)) ds)
      (map (leafHash H) (base_blocks (concat ds)))"
    "fileSize (foldl (MerkleTree_update H) (MerkleTree_new H (int BASE_BLOCK_SIZE * 2 ^ j)) ds) =
      int (length (concat ds))"
proof -
  obtain es d where ds: "ds = es @ [d]" using assms(2) by (cases ds rule: rev_cases) auto
  then have es: "list_all (\<lambda>d. length d mod BASE_BLOCK_SIZE = 0) es" "[] \<notin> set es" "d \<noteq> []"
    using assms(1) by (auto simp: full_cut_def)
  note full = updates_full_blocks(1,2) [OF es(1,2), where H = H and j = j] updates_full_blocks(3) [OF es(1,2)]
  show "holds H j (foldl (MerkleTree_update H) (MerkleTree_new H (int BASE_BLOCK_SIZE * 2 ^ j)) ds)
      (map (leafHash H) (base_blocks (concat ds)))"
    using update_holds(1) [OF full(1), of d] base_blocks_append [OF full(3) es(3)] es(3)
    by (simp add: ds flip: map_append)
  show "fileSize (foldl (MerkleTree_update H) (MerkleTree_new H (int BASE_BLOCK_SIZE * 2 ^ j)) ds) =
      int (length (concat ds))"
    using update_holds(2) [OF full(1), of d] full(2) es(3) by (simp add: ds)
qed

lemma holds_empty_iff:
  assumes "holds H j t hs"
  shows "(leaves t = [] \<and> blocks t = []) = (hs = [])"
proof -
  obtain us vs where "hs = us @ vs" "leaves t = map (tree_root (combine H)) (groups (2 ^ j) us)"
      "blocks t = pending (combine H) vs"
    using assms by (auto simp: holds_def)
  then show ?thesis using groups_bounds [of "2 ^ j" us] by auto
qed

text \<open>What \<open>finalize\<close> starts from, after such a sequence of updates.\<close>

lemma before_join:
  fixes H :: "'s Hasher" and j :: nat
  assumes "full_cut ds"
  defines "t \<equiv> foldl (MerkleTree_update H) (MerkleTree_new H (int BASE_BLOCK_SIZE * 2 ^ j)) ds"
  defines "t' \<equiv> if leaves t = [] \<and> blocks t = [] then MerkleTree_update H t [] else t"
  shows "holds H j t' (map (leafHash H) (base_blocks (concat ds)))" "fileSize t' = int (length (concat ds))"
proof -
  have "holds H j t' (map (leafHash H) (base_blocks (concat ds))) \<and> fileSize t' = int (length (concat ds))"
  proof (cases "ds = []")
    case True
    then have t: "t = MerkleTree_new H (int BASE_BLOCK_SIZE * 2 ^ j)" by (simp add: t_def)
    then have "t' = MerkleTree_update H t []" by (simp add: t'_def MerkleTree_new_def)
    with update_holds [OF holds_new, of "[]" H j] True t show ?thesis by (simp add: MerkleTree_new_def)
  next
    case False
    note u = updates_blocks [OF assms(1) False, where H = H and j = j]
    have "concat ds \<noteq> []" using assms(1) False by (cases ds) (auto simp: full_cut_def)
    then have "base_blocks (concat ds) \<noteq> []"
      using groups_bounds [of BASE_BLOCK_SIZE "concat ds"] by (auto simp: base_blocks_def BASE_BLOCK_SIZE_def)
    then have "t' = t" using holds_empty_iff [OF u(1)] by (auto simp: t'_def t_def)
    with u show ?thesis by (simp add: t_def)
  qed
  then show "holds H j t' (map (leafHash H) (base_blocks (concat ds)))" "fileSize t' = int (length (concat ds))"
    by simp_all
qed

text \<open>The empty pieces behind the first piece change nothing.\<close>

lemma updates_skip:
  assumes "holds H j t hs" "hs \<noteq> []"
  shows "foldl (MerkleTree_update H) t ds = foldl (MerkleTree_update H) t (filter (\<lambda>d. d \<noteq> []) ds)"
  using assms
proof (induction ds arbitrary: t hs)
  case (Cons d ds)
  show ?case
  proof (cases "d = []")
    case True
    then have "MerkleTree_update H t d = t"
      using holds_empty_iff [OF Cons.prems(1)] Cons.prems(2) by (auto simp: MerkleTree_update_def)
    with True Cons.IH [OF Cons.prems] show ?thesis by simp
  next
    case False
    from Cons.IH [OF update_holds(1) [OF Cons.prems(1)]] False Cons.prems(2) show ?thesis by simp
  qed
qed simp

lemma base_blocks_not_Nil: "base_blocks d \<noteq> []"
  using groups_bounds [of BASE_BLOCK_SIZE d] by (auto simp: base_blocks_def BASE_BLOCK_SIZE_def)

lemma finalize_skip:
  fixes H :: "'s Hasher" and j :: nat
  assumes "well_cut ds"
  defines "n \<equiv> MerkleTree_new H (int BASE_BLOCK_SIZE * 2 ^ j)"
  shows "MerkleTree_finalize H (foldl (MerkleTree_update H) n ds) =
    MerkleTree_finalize H (foldl (MerkleTree_update H) n (filter (\<lambda>d. d \<noteq> []) ds))"
proof (cases ds)
  case (Cons d es)
  have h: "holds H j (MerkleTree_update H n d) (map (leafHash H) (base_blocks d))"
    using update_holds(1) [OF holds_new, of d H j] by (simp add: n_def)
  note skip = updates_skip [OF h, of es] base_blocks_not_Nil [of d]
  show ?thesis
  proof (cases "d = []")
    case True
    then have es: "filter (\<lambda>d. d \<noteq> []) es = []" using assms(1) Cons by (auto simp: well_cut_def filter_empty_conv)
    have "\<not> (leaves (MerkleTree_update H n []) = [] \<and> blocks (MerkleTree_update H n []) = [])"
      using holds_empty_iff [OF h] skip(2) True by simp
    moreover have "leaves n = [] \<and> blocks n = []" by (simp add: n_def MerkleTree_new_def)
    ultimately have "MerkleTree_finalize H (MerkleTree_update H n []) = MerkleTree_finalize H n"
      unfolding MerkleTree_finalize_join by (simp only: if_True if_False simp_thms)
    with True Cons skip es show ?thesis by simp
  qed (use Cons skip in simp)
qed simp

lemma concat_filter_Nil: "concat (filter (\<lambda>d. d \<noteq> []) ds) = concat ds"
  by (induction ds) auto

context hasher begin

lemma leafHash_digest: "leafHash H d = digest (0 # d)"
  using finalize_digest [of "[[0], d]"] by (simp add: leafHash_def)

lemma combine_node: "combine H = node digest"
  using finalize_digest [of "[[1], _, _]"] by (intro ext) (simp add: combine_def node_def)

lemma block_hashes_leafHash: "map (leafHash H) (base_blocks m) = block_hashes digest m"
  by (simp add: block_hashes_def leafHash_digest)

lemma length_tree_root:
  "hs \<noteq> [] \<Longrightarrow> \<forall>h\<in>set hs. length h = hasher_BYTES H \<Longrightarrow> length (tree_root (node digest) hs) = hasher_BYTES H"
  by (subst tree_root.simps) (simp add: Let_def node_def)

lemma length_tth_leaves: "\<forall>h\<in>set (tth_leaves digest j m). length h = hasher_BYTES H"
proof
  fix h
  assume "h \<in> set (tth_leaves digest j m)"
  then obtain g where g: "h = tree_root (node digest) g" "g \<in> set (groups (2 ^ j) (block_hashes digest m))"
    by (auto simp: tth_leaves_def)
  have "g \<noteq> []" using g(2) by (rule groups_nonempty)
  moreover have "set g \<subseteq> set (block_hashes digest m)"
    using g(2) concat_groups [of "2 ^ j" "block_hashes digest m"] by (metis UN_upper set_concat zero_less_power zero_less_numeral)
  ultimately show "length h = hasher_BYTES H"
    unfolding g(1) by (intro length_tree_root) (auto simp: block_hashes_def)
qed

lemma finalize_tth_full:
  assumes "full_cut ds" "length (concat ds) \<le> 2 ^ 62"
  obtains t where
    "MerkleTree_finalize H (foldl (MerkleTree_update H) (MerkleTree_new H (int BASE_BLOCK_SIZE * 2 ^ j)) ds) = Some t"
    "root t = tth digest (concat ds)" "leaves t = tth_leaves digest j (concat ds)" "blocks t = []"
    "fileSize t = int (length (concat ds))" "blockSize t = int BASE_BLOCK_SIZE * 2 ^ j"
proof -
  define t where "t = foldl (MerkleTree_update H) (MerkleTree_new H (int BASE_BLOCK_SIZE * 2 ^ j)) ds"
  define t' where "t' = (if leaves t = [] \<and> blocks t = [] then MerkleTree_update H t [] else t)"
  note b = before_join [OF assms(1), of H j, folded t_def, folded t'_def]
  let ?u = "join_blocks H t'"
  have "finished H j ?u (block_hashes digest (concat ds))"
    using join_blocks_finished(1) [OF b(1)] by (simp add: block_hashes_leafHash)
  then have u: "blockSize ?u = int BASE_BLOCK_SIZE * 2 ^ j" "blocks ?u = []"
      "leaves ?u = tth_leaves digest j (concat ds)" "fileSize ?u = int (length (concat ds))"
    using join_blocks_finished(2) [OF b(1)] b(2) by (simp_all add: finished_def tth_leaves_def combine_node)
  have "spans (blockSize ?u) (fileSize ?u) (length (leaves ?u))"
    unfolding u by (rule spans_leaves)
  then have "calcRoot H ?u = Some (?u\<lparr>root := tree_root (node digest) (leaves ?u)\<rparr>)"
    using calcRoot_tree_root [of ?u H] u(1,4) int_le_2_62 [OF assms(2)]
    by (simp add: combine_node BASE_BLOCK_SIZE_def)
  moreover have "block_hashes digest (concat ds) \<noteq> []"
    by (simp add: block_hashes_def base_blocks_not_Nil)
  then have "tree_root (node digest) (leaves ?u) = tth digest (concat ds)"
    by (simp add: u tth_leaves_def tth_def tree_root_groups)
  moreover have "MerkleTree_finalize H t = calcRoot H ?u"
    by (simp add: MerkleTree_finalize_join t'_def)
  ultimately show ?thesis
    using u by (intro that [of "?u\<lparr>root := tth digest (concat ds)\<rparr>"]) (simp_all add: t_def)
qed

theorem finalize_tth:
  assumes "well_cut ds" "length (concat ds) \<le> 2 ^ 62"
  obtains t where
    "MerkleTree_finalize H (foldl (MerkleTree_update H) (MerkleTree_new H (int BASE_BLOCK_SIZE * 2 ^ j)) ds) = Some t"
    "root t = tth digest (concat ds)" "leaves t = tth_leaves digest j (concat ds)" "blocks t = []"
    "fileSize t = int (length (concat ds))" "blockSize t = int BASE_BLOCK_SIZE * 2 ^ j"
proof -
  have "full_cut (filter (\<lambda>d. d \<noteq> []) ds)" using assms(1) by (simp add: well_cut_def)
  from finalize_tth_full [OF this, of j] show ?thesis
    using that assms(2) unfolding concat_filter_Nil finalize_skip [OF assms(1)] by blast
qed

end

text \<open>
  C1: a file of at most \<open>2 ^ 62\<close> bytes is cut into updates, each a multiple of 1024 bytes except the
  last one that is not empty, with no empty update in front of the data (empty updates further back
  are allowed). Then \<open>finalize\<close> gives a result, and the tree ends with the TTH root of the file, with
  the leaves of the chosen block size, and with the size of the file; the root does not depend on
  the block size.
\<close>

theorem TigerTree_finalize_correct:
  assumes "well_cut ds" and "length (concat ds) \<le> 2 ^ 62"
  shows "\<exists>t. MerkleTree_finalize (TigerHasher cfg junk) (foldl (MerkleTree_update (TigerHasher cfg junk))
        (MerkleTree_new (TigerHasher cfg junk) (int BASE_BLOCK_SIZE * 2 ^ j)) ds) = Some t \<and>
      root t = tth tiger (concat ds) \<and> leaves t = tth_leaves tiger j (concat ds) \<and>
      fileSize t = int (length (concat ds))"
  using tiger_hasher.finalize_tth [OF assms] by metis

theorem TigerTree_finalize_witness:
  "\<exists>t. MerkleTree_finalize (TigerHasher generic_build (\<lambda>_. 0))
      (foldl (MerkleTree_update (TigerHasher generic_build (\<lambda>_. 0)))
        (MerkleTree_new (TigerHasher generic_build (\<lambda>_. 0)) (int BASE_BLOCK_SIZE * 2 ^ 6))
        [replicate 2048 7, [], [1, 2, 3]]) = Some t \<and>
      root t = tth tiger (replicate 2048 7 @ [1, 2, 3]) \<and>
      leaves t = tth_leaves tiger 6 (replicate 2048 7 @ [1, 2, 3]) \<and> fileSize t = 2051"
  using TigerTree_finalize_correct [of "[replicate 2048 7, [], [1, 2, 3]]" generic_build "\<lambda>_. 0" 6]
  by (simp add: well_cut_def full_cut_def BASE_BLOCK_SIZE_def)

text \<open>
  An empty update in front of the data, which the comment of \<open>update\<close> allows (its length is a
  multiple of 1024), adds a leaf of its own: a short file then gets the root of the empty file.
\<close>

lemma leading_empty_update:
  assumes "d \<noteq> []" "length d \<le> BASE_BLOCK_SIZE"
  shows "\<exists>t. MerkleTree_finalize (TigerHasher cfg junk) (foldl (MerkleTree_update (TigerHasher cfg junk))
        (MerkleTree_new (TigerHasher cfg junk) (int BASE_BLOCK_SIZE)) [[], d]) = Some t \<and>
      root t = tth tiger []"
proof -
  let ?H = "TigerHasher cfg junk"
  have u: "update_loop ?H t d = add_block ?H t d" if "length d \<le> BASE_BLOCK_SIZE" for t d
    using that by (subst update_loop.simps) (simp add: Let_def)
  have "tth tiger [] = leafHash ?H []"
    by (simp add: tth_def block_hashes_def base_blocks_def tree_root.simps tiger_hasher.leafHash_digest)
  moreover have "getHash ?H t 0 (int (length d)) = Some a"
    if "leaves t = [a, b]" "blockSize t = int BASE_BLOCK_SIZE" for t a b
    using that assms(2) by (subst getHash.simps) (simp add: BASE_BLOCK_SIZE_def)
  ultimately show ?thesis
    using assms
    by (simp add: MerkleTree_finalize_def calcRoot_def MerkleTree_update_def u add_block_def MerkleTree_new_def Let_def)
qed

section \<open>Stored leaves\<close>

lemma split_hashes_concat:
  "0 < n \<Longrightarrow> \<forall>h\<in>set hs. length h = n \<Longrightarrow> split_hashes n (concat hs) = hs"
proof (induction hs)
  case (Cons h hs)
  then show ?case by (subst split_hashes.simps) simp
qed (simp add: split_hashes.simps)

lemma load_loop_spans:
  assumes "spans (int BASE_BLOCK_SIZE * 2 ^ j) fs n" "2 \<le> n" "i \<le> j" "fs \<le> 2 ^ 62"
  shows "load_loop n fs (int BASE_BLOCK_SIZE * 2 ^ i) = Some (int BASE_BLOCK_SIZE * 2 ^ j)"
  using assms(3)
proof (induction rule: inc_induct)
  let ?B = "int BASE_BLOCK_SIZE"
  case base
  have "?B * 2 ^ j * int n \<le> ?B * 2 ^ j * (2 * int (n - 1))"
    using assms(2) by (intro mult_left_mono) auto
  also have "\<dots> = 2 * (?B * 2 ^ j * int (n - 1))" by simp
  also have "\<dots> < 2 * fs" using assms(1,2) unfolding spans_def by linarith
  finally have "int64 (?B * 2 ^ j * int n) = Some (?B * 2 ^ j * int n)"
    using assms(4) by (intro int64_nonneg) simp_all
  then show ?case using assms(1) by (subst load_loop.simps) (simp add: spans_def)
next
  case (step i)
  let ?B = "int BASE_BLOCK_SIZE"
  have le: "?B * 2 ^ i * int n \<le> ?B * 2 ^ i * (2 * int (n - 1))"
    using assms(2) by (intro mult_left_mono) auto
  also have "\<dots> = ?B * 2 ^ Suc i * int (n - 1)" by simp
  also have "\<dots> \<le> ?B * 2 ^ j * int (n - 1)"
    using step(1,2) by (intro mult_right_mono mult_left_mono power_increasing) auto
  also have "\<dots> < fs" using assms(1,2) by (auto simp: spans_def)
  finally have lt: "?B * 2 ^ i * int n < fs" .
  then have c: "int64 (?B * 2 ^ i * int n) = Some (?B * 2 ^ i * int n)"
    using assms(4) by (intro int64_nonneg) simp_all
  have "?B * 2 ^ i * 2 \<le> ?B * 2 ^ i * int n" using assms(2) by (intro mult_left_mono) auto
  then have "int64 (?B * 2 ^ i * 2) = Some (?B * 2 ^ i * 2)"
    using lt assms(4) by (intro int64_nonneg) simp_all
  with c lt step(3) show ?case by (subst load_loop.simps) (simp add: ac_simps)
qed

text \<open>With one leaf the loop ends at the smallest size that holds the file.\<close>

lemma load_loop_one:
  assumes "fs \<le> 2 ^ 62" "i \<le> 52" "i = 0 \<or> int BASE_BLOCK_SIZE * 2 ^ i < 2 * fs"
  shows "\<exists>k. load_loop 1 fs (int BASE_BLOCK_SIZE * 2 ^ i) = Some (int BASE_BLOCK_SIZE * 2 ^ k) \<and>
    fs \<le> int BASE_BLOCK_SIZE * 2 ^ k \<and> (k = 0 \<or> int BASE_BLOCK_SIZE * 2 ^ k < 2 * fs)"
  using assms(2,3)
proof (induction "52 - i" arbitrary: i rule: less_induct)
  case less
  let ?l = "int BASE_BLOCK_SIZE * 2 ^ i"
  have "(2 :: int) ^ i \<le> 2 ^ 52" using less.prems(1) by (intro power_increasing) simp_all
  then have l: "?l \<le> 2 ^ 62" by (simp add: BASE_BLOCK_SIZE_def)
  then have c: "int64 ?l = Some ?l" by (intro int64_nonneg) simp_all
  show ?case
  proof (cases "?l < fs")
    case True
    have "i \<noteq> 52" using True assms(1) by (auto simp: BASE_BLOCK_SIZE_def)
    then have i: "Suc i \<le> 52" "52 - Suc i < 52 - i" using less.prems(1) by simp_all
    have "int64 (?l * 2) = Some (?l * 2)" using True assms(1) by (intro int64_nonneg) simp_all
    then have "load_loop 1 fs ?l = load_loop 1 fs (int BASE_BLOCK_SIZE * 2 ^ Suc i)"
      using c True by (subst load_loop.simps) (simp add: ac_simps)
    moreover have "int BASE_BLOCK_SIZE * 2 ^ Suc i < 2 * fs" using True by simp
    ultimately show ?thesis using less.hyps [OF i(2,1)] by simp
  next
    case False
    then have "load_loop 1 fs ?l = Some ?l" using c by (subst load_loop.simps) simp
    with False less.prems(2) show ?thesis by auto
  qed
qed

lemma length_concat_const: "\<forall>h\<in>set hs. length h = n \<Longrightarrow> length (concat hs) = n * length hs"
  by (induction hs) auto

context hasher begin

lemma load_result:
  assumes "0 < hasher_BYTES H" "leaves t = tth_leaves digest j m" "fileSize t = int (length m)" "length m \<le> 2 ^ 62"
    and bl: "load_loop (length (leaves t)) (fileSize t) (int BASE_BLOCK_SIZE) = Some bl" "0 < bl"
      "spans bl (fileSize t) (length (leaves t))"
  shows "MerkleTree_load H u (fileSize t) (getLeafData t) = Some (True,
    u\<lparr>leaves := leaves t, fileSize := fileSize t, blockSize := bl, root := tth digest m\<rparr>)"
proof -
  let ?u = "u\<lparr>leaves := leaves t, fileSize := fileSize t, blockSize := bl\<rparr>"
  have len: "\<forall>h\<in>set (leaves t). length h = hasher_BYTES H"
    using length_tth_leaves [of j m] assms(2) by simp
  have data: "getLeafData t = concat (leaves t)" "length (concat (leaves t)) = hasher_BYTES H * length (leaves t)"
    using length_concat_const [OF len] by (simp_all add: getLeafData_def)
  have "calcRoot H ?u = Some (?u\<lparr>root := tree_root (node digest) (leaves t)\<rparr>)"
    using calcRoot_tree_root [of ?u H] bl(2,3) assms(3) int_le_2_62 [OF assms(4)] by (simp add: combine_node)
  moreover have "block_hashes digest m \<noteq> []" by (simp add: block_hashes_def base_blocks_not_Nil)
  then have "tree_root (node digest) (leaves t) = tth digest m"
    by (simp add: assms(2) tth_leaves_def tth_def tree_root_groups)
  ultimately show ?thesis
    using bl(1) split_hashes_concat [OF assms(1) len] assms(1) by (simp add: MerkleTree_load_def data)
qed

theorem load_getLeafData:
  assumes "0 < hasher_BYTES H" "leaves t = tth_leaves digest j m" "fileSize t = int (length m)" "length m \<le> 2 ^ 62"
  shows "\<exists>bl. MerkleTree_load H u (fileSize t) (getLeafData t) = Some (True,
      u\<lparr>leaves := leaves t, fileSize := fileSize t, blockSize := bl, root := tth digest m\<rparr>) \<and>
    (if 2 \<le> length (leaves t) then bl = int BASE_BLOCK_SIZE * 2 ^ j
     else \<exists>k. bl = int BASE_BLOCK_SIZE * 2 ^ k \<and> fileSize t \<le> bl \<and> (k = 0 \<or> bl < 2 * fileSize t))"
proof (cases "2 \<le> length (leaves t)")
  case True
  have sp: "spans (int BASE_BLOCK_SIZE * 2 ^ j) (fileSize t) (length (leaves t))"
    unfolding assms(2,3) by (rule spans_leaves)
  have "load_loop (length (leaves t)) (fileSize t) (int BASE_BLOCK_SIZE) = Some (int BASE_BLOCK_SIZE * 2 ^ j)"
    using load_loop_spans [OF sp True, of 0] assms(3) int_le_2_62 [OF assms(4)] by simp
  from load_result [OF assms this _ sp, of u] True show ?thesis by (simp add: BASE_BLOCK_SIZE_def)
next
  case False
  have "length (leaves t) \<noteq> 0"
    using groups_bounds [of "2 ^ j" "block_hashes digest m"]
    by (auto simp: assms(2) tth_leaves_def block_hashes_def base_blocks_not_Nil)
  with False have one: "length (leaves t) = 1" by linarith
  obtain k where k: "load_loop 1 (fileSize t) (int BASE_BLOCK_SIZE) = Some (int BASE_BLOCK_SIZE * 2 ^ k)"
      "fileSize t \<le> int BASE_BLOCK_SIZE * 2 ^ k" "k = 0 \<or> int BASE_BLOCK_SIZE * 2 ^ k < 2 * fileSize t"
    using load_loop_one [of "fileSize t" 0] assms(3) int_le_2_62 [OF assms(4)] by auto
  have "spans (int BASE_BLOCK_SIZE * 2 ^ k) (fileSize t) (length (leaves t))"
    using k(2) one by (simp add: spans_def)
  from load_result [OF assms _ _ this, of u] one k show ?thesis by (auto simp: BASE_BLOCK_SIZE_def)
qed

end

text \<open>
  C5: a finished tree of a file of at most \<open>2 ^ 62\<close> bytes, restored from its stored leaves and the
  file size, has the same leaves, size and root. Its block size is the old one when the tree has at
  least two leaves; a tree of one leaf gets the smallest block size, 1024 times a power of two, that
  holds the file, whatever it was built with.
\<close>

theorem TigerTree_load_roundtrip:
  assumes "well_cut ds" and "length (concat ds) \<le> 2 ^ 62"
    and "MerkleTree_finalize (TigerHasher cfg junk) (foldl (MerkleTree_update (TigerHasher cfg junk))
      (MerkleTree_new (TigerHasher cfg junk) (int BASE_BLOCK_SIZE * 2 ^ j)) ds) = Some t"
  shows "\<exists>bl. MerkleTree_load (TigerHasher cfg junk) u (fileSize t) (getLeafData t) = Some (True,
      u\<lparr>leaves := leaves t, fileSize := fileSize t, blockSize := bl, root := root t\<rparr>) \<and>
    (if 2 \<le> length (leaves t) then bl = blockSize t
     else \<exists>k. bl = int BASE_BLOCK_SIZE * 2 ^ k \<and> fileSize t \<le> bl \<and> (k = 0 \<or> bl < 2 * fileSize t))"
proof -
  have t: "root t = tth tiger (concat ds)" "leaves t = tth_leaves tiger j (concat ds)"
      "fileSize t = int (length (concat ds))" "blockSize t = int BASE_BLOCK_SIZE * 2 ^ j"
    using tiger_hasher.finalize_tth [OF assms(1,2), of cfg junk j] assms(3) by (metis option.inject)+
  have "0 < hasher_BYTES (TigerHasher cfg junk)" by (simp add: TigerHasher_def BYTES_def)
  from tiger_hasher.load_getLeafData [OF this t(2,3) assms(2), of u] show ?thesis unfolding t(1,4) .
qed

theorem TigerTree_load_roundtrip_witness:
  "\<exists>t. MerkleTree_finalize (TigerHasher generic_build (\<lambda>_. 0))
      (foldl (MerkleTree_update (TigerHasher generic_build (\<lambda>_. 0)))
        (MerkleTree_new (TigerHasher generic_build (\<lambda>_. 0)) (int BASE_BLOCK_SIZE * 2 ^ 0))
        [replicate 1024 7, [1, 2, 3]]) = Some t \<and>
     MerkleTree_load (TigerHasher generic_build (\<lambda>_. 0)) t (fileSize t) (getLeafData t) = Some (True, t)"
proof -
  let ?ds = "[replicate 1024 7, [1, 2, 3]] :: bytes list"
  have w: "well_cut ?ds" "length (concat ?ds) \<le> 2 ^ 62"
    by (simp_all add: well_cut_def full_cut_def BASE_BLOCK_SIZE_def)
  obtain t where t: "MerkleTree_finalize (TigerHasher generic_build (\<lambda>_. 0))
      (foldl (MerkleTree_update (TigerHasher generic_build (\<lambda>_. 0)))
        (MerkleTree_new (TigerHasher generic_build (\<lambda>_. 0)) (int BASE_BLOCK_SIZE * 2 ^ 0)) ?ds) = Some t"
      "leaves t = tth_leaves tiger 0 (concat ?ds)"
    using tiger_hasher.finalize_tth [OF w, of generic_build "\<lambda>_. 0" 0] by metis
  have "length (leaves t) = 2"
    by (simp add: t(2) tth_leaves_def block_hashes_def base_blocks_def length_groups BASE_BLOCK_SIZE_def)
  with TigerTree_load_roundtrip [OF w t(1), of t] t(1) show ?thesis by simp
qed

text \<open>A tree without leaves for a file that is not empty: the loop of \<open>load\<close> does not end.\<close>

lemma load_loop_no_leaves: "0 < fs \<Longrightarrow> load_loop 0 fs bl = None"
proof (cases "load_loop 0 fs bl")
  case (Some r)
  have *: "0 < n \<or> fs \<le> 0" if "load_loop n fs bl = Some r" for n fs bl r
    using that
  proof (rule load_loop.raw_induct [rotated])
    fix f :: "nat \<Rightarrow> int \<Rightarrow> int \<Rightarrow> int option" and n fs bl r
    assume ih: "\<And>n fs bl r. f n fs bl = Some r \<Longrightarrow> 0 < n \<or> fs \<le> 0"
      and step: "do { c \<leftarrow> int64 (bl * int n);
        if c < fs then do { bl \<leftarrow> int64 (bl * 2); f n fs bl } else Some bl } = Some r"
    show "0 < n \<or> fs \<le> 0"
    proof (cases "n = 0 \<and> 0 < fs")
      case True
      with step have "f n fs (bl * 2) = Some r" by (auto simp: int64_def split: if_splits)
      then show ?thesis by (rule ih)
    qed auto
  qed
  assume "0 < fs"
  with * [OF Some] show ?thesis by simp
qed simp

lemma load_no_leaves: "0 < fs \<Longrightarrow> MerkleTree_load H t fs [] = None"
  by (simp add: MerkleTree_load_def load_loop_no_leaves)

section \<open>Block sizes\<close>

lemma unat_two_power: "n < 64 \<Longrightarrow> unat (2 ^ n :: u64) = 2 ^ n"
  using unat_of_nat_u64 [of "2 ^ n"] power_strict_increasing [of n 64 "2 :: nat"] by simp

lemma block_size_loop_10:
  assumes "unat fs \<le> 2 ^ 63" "i \<le> 44" "i = 0 \<or> 2 ^ (18 + i) < unat fs"
  shows "\<exists>k. block_size_loop (2 ^ 9) fs (2 ^ (10 + i)) = Some (2 ^ (10 + k)) \<and> k \<le> 44 \<and>
    unat fs \<le> 2 ^ (19 + k) \<and> (k = 0 \<or> 2 ^ (18 + k) < unat fs)"
  using assms(2,3)
proof (induction "44 - i" arbitrary: i rule: less_induct)
  case less
  have p: "(2 ^ 9 * 2 ^ (10 + i) :: u64) = 2 ^ (19 + i)" by (simp add: power_add)
  have u: "unat (2 ^ (19 + i) :: u64) = 2 ^ (19 + i)" using less.prems(1) by (intro unat_two_power) simp
  show ?case
  proof (cases "2 ^ (19 + i) < unat fs")
    case True
    then have "(2 :: nat) ^ (19 + i) < 2 ^ 63" using assms(1) by (rule less_le_trans)
    then have i: "19 + i < 63" by (rule power_less_imp_less_exp [rotated]) simp
    have "\<exists>k. block_size_loop (2 ^ 9) fs (2 ^ (10 + Suc i)) = Some (2 ^ (10 + k)) \<and> k \<le> 44 \<and>
        unat fs \<le> 2 ^ (19 + k) \<and> (k = 0 \<or> 2 ^ (18 + k) < unat fs)"
      using i True by (intro less.hyps) simp_all
    moreover have "(2 :: u64) ^ 9 * 2 ^ (10 + i) < fs" unfolding p word_less_nat_alt u by (fact True)
    moreover have "push_bit 1 (2 ^ (10 + i) :: u64) = 2 ^ (10 + Suc i)"
      by (simp only: push_bit_eq_mult add_Suc_right power_Suc power_one_right mult.commute)
    ultimately show ?thesis by (subst block_size_loop.simps) (simp only: if_True)
  next
    case False
    then have "\<not> (2 :: u64) ^ 9 * 2 ^ (10 + i) < fs" unfolding p word_less_nat_alt u .
    then have "block_size_loop (2 ^ 9) fs (2 ^ (10 + i)) = Some (2 ^ (10 + i))"
      by (subst block_size_loop.simps) (simp only: if_False)
    with False less.prems show ?thesis by (intro exI [of _ i]) (simp only: not_less simp_thms)
  qed
qed

lemma spans_calcBlocks:
  assumes "0 < bs" "0 \<le> fs" "spans bs fs n" "fs + bs < 2 ^ 63"
  shows "calcBlocks fs bs = Some (int n)"
proof -
  have g: "int64 (fs + bs) = Some (fs + bs)" "int64 (fs + bs - 1) = Some (fs + bs - 1)"
    using assms(1,2,4) by (intro int64_nonneg; simp)+
  have "max ((fs + bs - 1) sdiv bs) 1 = int n"
  proof (cases "fs = 0")
    case True
    moreover have "n = 1"
    proof (rule ccontr)
      assume "n \<noteq> 1"
      with assms(3) True have "bs * int (n - 1) < 0" unfolding spans_def by linarith
      moreover have "0 \<le> bs * int (n - 1)" using assms(1) by (intro mult_nonneg_nonneg) simp_all
      ultimately show False by linarith
    qed
    ultimately show ?thesis
      using assms(1) by (simp add: signed_divide_int_def sgn_if)
  next
    case False
    have n: "0 < n" "fs \<le> bs * int n" "bs * (int n - 1) < fs"
      using assms False by (auto simp: spans_def of_nat_diff)
    have "(fs + bs - 1) div bs = int n"
    proof (rule int_div_pos_eq)
      show "fs + bs - 1 = bs * int n + (fs + bs - 1 - bs * int n)" by simp
    qed (use n in \<open>simp_all add: algebra_simps\<close>)
    moreover have "(fs + bs - 1) sdiv bs = (fs + bs - 1) div bs"
      using assms(1,2) by (simp add: signed_divide_int_def sgn_if)
    ultimately show ?thesis using n(1) by simp
  qed
  with g assms(1) show ?thesis by (simp add: calcBlocks_def)
qed

lemma sint_two_power: "n < 63 \<Longrightarrow> sint (2 ^ n :: u64) = 2 ^ n"
proof -
  assume n: "n < 63"
  then have "(2 :: int) ^ n < 2 ^ 63" by (intro power_strict_increasing) simp_all
  moreover have "uint (2 ^ n :: u64) = 2 ^ n" using arg_cong [OF unat_two_power [of n], of int] n by simp
  moreover have "- (2 ^ 63) \<le> (2 :: int) ^ n" by (rule order_trans [of _ 0]) simp_all
  ultimately show ?thesis by (simp add: sint_uint signed_take_bit_int_eq_self)
qed

lemma calcBlockSize_10:
  assumes "n \<le> 2 ^ 63"
  obtains k where "calcBlockSize (of_nat n) 10 = Some (2 ^ (10 + k))" "k \<le> 44"
    "n \<le> 2 ^ (19 + k)" "k = 0 \<or> 2 ^ (18 + k) < n" "sint (2 ^ (10 + k) :: u64) = int BASE_BLOCK_SIZE * 2 ^ k"
proof -
  have fs: "unat (of_nat n :: u64) = n" using assms by (intro unat_of_nat_u64) simp
  obtain k where k: "block_size_loop (2 ^ 9) (of_nat n) (2 ^ (10 + 0)) = Some (2 ^ (10 + k))" "k \<le> 44"
      "n \<le> 2 ^ (19 + k)" "k = 0 \<or> 2 ^ (18 + k) < n"
    using block_size_loop_10 [of "of_nat n" 0] assms unfolding fs by auto
  have "sint (2 ^ (10 + k) :: u64) = int BASE_BLOCK_SIZE * 2 ^ k"
    using sint_two_power [of "10 + k"] k(2) by (simp add: BASE_BLOCK_SIZE_def power_add)
  moreover have "calcBlockSize (of_nat n) 10 = Some (2 ^ (10 + k))"
    using k(1) by (simp add: calcBlockSize_def BASE_BLOCK_SIZE_def push_bit_eq_mult)
  ultimately show ?thesis using k(2-4) by (intro that)
qed

lemma leaves_of_block_size:
  assumes "length m \<le> 2 ^ (19 + k)" "k = 0 \<or> 2 ^ (18 + k) < length m"
  shows "length (tth_leaves dg k m) \<le> 512" "k = 0 \<or> 256 < length (tth_leaves dg k m)"
proof -
  let ?n = "length (tth_leaves dg k m)" and ?bs = "int BASE_BLOCK_SIZE * 2 ^ k"
  have bs: "?bs = 2 ^ (10 + k)" by (simp add: BASE_BLOCK_SIZE_def power_add)
  have sp: "spans ?bs (int (length m)) ?n" by (rule spans_leaves)
  have "?bs * int (?n - 1) < ?bs * 512 \<or> ?n = 1"
  proof -
    have "int (length m) \<le> int (2 ^ (19 + k))" using assms(1) by (simp only: of_nat_le_iff)
    also have "\<dots> = ?bs * 512" by (simp add: bs power_add)
    finally show ?thesis using sp by (auto simp: spans_def)
  qed
  then show "?n \<le> 512" by (auto simp: BASE_BLOCK_SIZE_def)
  show "k = 0 \<or> 256 < ?n"
  proof (cases "k = 0")
    case False
    then have "int (2 ^ (18 + k)) < int (length m)" using assms(2) by (simp only: of_nat_less_iff simp_thms)
    also have "int (length m) \<le> ?bs * int ?n" using sp by (simp add: spans_def)
    finally have "?bs * 256 < ?bs * int ?n" by (simp add: bs power_add)
    then show ?thesis by (simp add: BASE_BLOCK_SIZE_def)
  qed simp
qed

text \<open>
  C6: for every file size below \<open>2 ^ 63 - 2 ^ 54\<close> the unsigned loop of \<open>calcBlockSize\<close> ends without
  wrap-around, at a power of two times 1024 with which the file has at most 512 blocks, more than 256
  of them when the size was doubled at all; the signed sum of \<open>calcBlocks\<close> does not overflow, and both
  forms of \<open>calcBlocks\<close>, the 16-bit one included, give the number of leaves that the tree will have.
\<close>

theorem calcBlockSize_correct:
  assumes "length m < 2 ^ 63 - 2 ^ 54"
  shows "\<exists>k. calcBlockSize (of_nat (length m)) 10 = Some (2 ^ (10 + k)) \<and> k \<le> 44 \<and>
    length (tth_leaves dg k m) \<le> 512 \<and> (k = 0 \<or> 256 < length (tth_leaves dg k m)) \<and>
    calcBlocks (int (length m)) (sint (2 ^ (10 + k) :: u64)) = Some (int (length (tth_leaves dg k m))) \<and>
    map_option unat (calcBlocks16 (int (length m))) = Some (length (tth_leaves dg k m))"
proof -
  have "length m \<le> 2 ^ 63" using assms by simp
  then obtain k where k: "calcBlockSize (of_nat (length m)) 10 = Some (2 ^ (10 + k))" "k \<le> 44"
      "length m \<le> 2 ^ (19 + k)" "k = 0 \<or> 2 ^ (18 + k) < length m"
      "sint (2 ^ (10 + k) :: u64) = int BASE_BLOCK_SIZE * 2 ^ k"
    by (rule calcBlockSize_10)
  let ?n = "length (tth_leaves dg k m)"
  note n = leaves_of_block_size [OF k(3,4), of dg]
  have "(2 :: int) ^ k \<le> 2 ^ 44" using k(2) by (intro power_increasing) simp_all
  moreover have "int (length m) < 2 ^ 63 - 2 ^ 54" using assms by (simp flip: of_nat_less_iff)
  ultimately have "int (length m) + int BASE_BLOCK_SIZE * 2 ^ k < 2 ^ 63" by (simp add: BASE_BLOCK_SIZE_def)
  then have c: "calcBlocks (int (length m)) (sint (2 ^ (10 + k) :: u64)) = Some (int ?n)"
    using spans_calcBlocks [OF _ _ spans_leaves, of k m dg] by (simp add: k(5) BASE_BLOCK_SIZE_def)
  have "unat (of_nat ?n :: u16) = ?n" using n(1) by (simp add: unat_of_nat)
  then have "map_option unat (calcBlocks16 (int (length m))) = Some ?n"
    using c k(1) by (simp add: calcBlocks16_def)
  with c k(1,2) n show ?thesis by - (intro exI [of _ k] conjI; assumption)
qed

theorem calcBlockSize_witness:
  "\<exists>k. calcBlockSize (of_nat (length (replicate 3000000 (0 :: u8)))) 10 = Some (2 ^ (10 + k)) \<and> k \<le> 44 \<and>
    length (tth_leaves tiger k (replicate 3000000 0)) \<le> 512 \<and>
    (k = 0 \<or> 256 < length (tth_leaves tiger k (replicate 3000000 0))) \<and>
    calcBlocks (int (length (replicate 3000000 (0 :: u8)))) (sint (2 ^ (10 + k) :: u64)) =
      Some (int (length (tth_leaves tiger k (replicate 3000000 0)))) \<and>
    map_option unat (calcBlocks16 (int (length (replicate 3000000 (0 :: u8))))) =
      Some (length (tth_leaves tiger k (replicate 3000000 0)))"
  using calcBlockSize_correct [of "replicate 3000000 0" tiger] by (simp only: length_replicate) simp

text \<open>The sizes from there up to the greatest \<open>int64_t\<close>: the sum overflows.\<close>

lemma calcBlocks_overflow:
  assumes "2 ^ 63 - 2 ^ 54 \<le> n" "n < 2 ^ 63"
  shows "calcBlocks16 (int n) = None"
proof -
  have "n \<le> 2 ^ 63" using assms(2) by simp
  then obtain k where k: "calcBlockSize (of_nat n) 10 = Some (2 ^ (10 + k))" "k \<le> 44" "n \<le> 2 ^ (19 + k)"
      "sint (2 ^ (10 + k) :: u64) = int BASE_BLOCK_SIZE * 2 ^ k"
    by (rule calcBlockSize_10)
  have "k = 44"
  proof (rule ccontr)
    assume "k \<noteq> 44"
    then have "(2 :: nat) ^ (19 + k) \<le> 2 ^ 62" using k(2) by (intro power_increasing) simp_all
    then show False using k(3) assms(1) by simp
  qed
  moreover have "2 ^ 63 - 2 ^ 54 \<le> int n" using assms(1) by (simp flip: of_nat_le_iff)
  ultimately show ?thesis
    using k(1,4) by (simp add: calcBlocks16_def calcBlocks_def int64_def BASE_BLOCK_SIZE_def)
qed

end
