(* ===== verification/MerkleStream.thy ===== *)
theory MerkleStream
  imports MerkleTree
begin

text \<open>
  Downloads checked against a hash tree (\<open>client/MerkleCheckOutputStream.h\<close>), and the tree itself
  received from a peer (\<open>TreeOutputStream\<close> of \<open>client/QueueManager.cpp\<close> and the tree part of
  \<open>DownloadManager::endData\<close>).

  An output stream below is a state of type \<open>'o\<close> with the two operations of the record
  \<open>OutputStream\<close>; exceptions are values of \<open>stream_error\<close>. The theorems say that a segment of
  the file passes the check however it is cut into writes, and that what passes is the file, as
  long as the digest does not collide on the data at hand.
\<close>

section \<open>The verifying stream\<close>

datatype stream_error = TTH_INCONSISTENCY | OtherException string

record 'o OutputStream =
  os_write :: "'o \<Rightarrow> bytes \<Rightarrow> stream_error + 'o \<times> nat"
  os_flush :: "'o \<Rightarrow> bool \<Rightarrow> stream_error + 'o \<times> nat"

record 'o MerkleCheckOutputStream =
  mc_s :: 'o
  mc_real :: MerkleTree
  mc_cur :: MerkleTree
  mc_verified :: nat
  mc_buf :: bytes
  mc_bufPos :: nat

definition MerkleCheckOutputStream_new ::
    "'s Hasher \<Rightarrow> (nat \<Rightarrow> u8) \<Rightarrow> MerkleTree \<Rightarrow> 'o \<Rightarrow> int \<Rightarrow> 'o MerkleCheckOutputStream option" where
  "MerkleCheckOutputStream_new H junk tree os start =
     (if blockSize tree = 0 then None
      else let cur = (MerkleTree_new H (blockSize tree))\<lparr>fileSize := start\<rparr>;
               nBlocks = start sdiv blockSize tree;
               cur = (if nBlocks < 0 \<or> nBlocks > int (length (leaves tree)) then cur
                      else cur\<lparr>leaves := take (nat nBlocks) (leaves tree) @ leaves cur\<rparr>)
           in Some \<lparr>mc_s = os, mc_real = tree, mc_cur = cur, mc_verified = 0,
                mc_buf = map junk [0..<BASE_BLOCK_SIZE], mc_bufPos = 0\<rparr>)"

text \<open>\<open>commitBytes\<close>: first the buffered block is completed, then the rest is taken.\<close>

definition commit_buffered :: "'s Hasher \<Rightarrow> 'o MerkleCheckOutputStream \<Rightarrow> bytes \<Rightarrow>
    'o MerkleCheckOutputStream \<times> bytes" where
  "commit_buffered H st b =
     (if mc_bufPos st \<noteq> 0 then
        let n = min (BASE_BLOCK_SIZE - mc_bufPos st) (length b);
            st = st\<lparr>mc_buf := blit (mc_buf st) (mc_bufPos st) (take n b), mc_bufPos := mc_bufPos st + n\<rparr>;
            st = (if mc_bufPos st = BASE_BLOCK_SIZE
                  then st\<lparr>mc_cur := MerkleTree_update H (mc_cur st) (take BASE_BLOCK_SIZE (mc_buf st)), mc_bufPos := 0\<rparr>
                  else st)
        in (st, drop n b)
      else (st, b))"

definition commitBytes :: "'s Hasher \<Rightarrow> 'o MerkleCheckOutputStream \<Rightarrow> bytes \<Rightarrow> 'o MerkleCheckOutputStream" where
  "commitBytes H st b =
     (let (st, b) = commit_buffered H st b in
      if b \<noteq> [] then
        let part = length b - length b mod BASE_BLOCK_SIZE;
            st = (if part \<noteq> 0 then st\<lparr>mc_cur := MerkleTree_update H (mc_cur st) (take part b)\<rparr> else st);
            b = drop part b
        in st\<lparr>mc_buf := blit (mc_buf st) 0 b, mc_bufPos := length b\<rparr>
      else st)"

function checkTrees_loop :: "bytes list \<Rightarrow> bytes list \<Rightarrow> nat \<Rightarrow> stream_error + nat" where
  "checkTrees_loop cur rl v =
     (if length cur > v then
        if length cur > length rl \<or> cur ! v \<noteq> rl ! v then Inl TTH_INCONSISTENCY
        else checkTrees_loop cur rl (v + 1)
      else Inr v)"
  by pat_completeness auto
termination
  by (relation "measure (\<lambda>(cur, _, v). length cur - v)") auto

declare checkTrees_loop.simps [simp del]

definition checkTrees :: "'o MerkleCheckOutputStream \<Rightarrow> stream_error + 'o MerkleCheckOutputStream" where
  "checkTrees st = (case checkTrees_loop (leaves (mc_cur st)) (leaves (mc_real st)) (mc_verified st) of
     Inl e \<Rightarrow> Inl e | Inr v \<Rightarrow> Inr (st\<lparr>mc_verified := v\<rparr>))"

definition MerkleCheck_write :: "'s Hasher \<Rightarrow> 'o OutputStream \<Rightarrow> 'o MerkleCheckOutputStream \<Rightarrow> bytes \<Rightarrow>
    stream_error + 'o MerkleCheckOutputStream \<times> nat" where
  "MerkleCheck_write H os st b =
     (case checkTrees (commitBytes H st b) of
        Inl e \<Rightarrow> Inl e
      | Inr st \<Rightarrow> (case os_write os (mc_s st) b of
          Inl e \<Rightarrow> Inl e
        | Inr (s, n) \<Rightarrow> Inr (st\<lparr>mc_s := s\<rparr>, n)))"

definition MerkleCheck_flushBuffers :: "'s Hasher \<Rightarrow> 'o OutputStream \<Rightarrow> 'o MerkleCheckOutputStream \<Rightarrow> bool \<Rightarrow>
    (stream_error + 'o MerkleCheckOutputStream \<times> nat) option" where
  "MerkleCheck_flushBuffers H os st force = do {
     let st = (if mc_bufPos st \<noteq> 0
       then st\<lparr>mc_cur := MerkleTree_update H (mc_cur st) (take (mc_bufPos st) (mc_buf st))\<rparr> else st);
     let st = st\<lparr>mc_bufPos := 0\<rparr>;
     cur \<leftarrow> MerkleTree_finalize H (mc_cur st);
     let st = st\<lparr>mc_cur := cur\<rparr>;
     Some (case (if length (leaves cur) = length (leaves (mc_real st))
                 then if root cur \<noteq> root (mc_real st) then Inl TTH_INCONSISTENCY else Inr st
                 else checkTrees st) of
        Inl e \<Rightarrow> Inl e
      | Inr st \<Rightarrow> (case os_flush os (mc_s st) force of
          Inl e \<Rightarrow> Inl e
        | Inr (s, n) \<Rightarrow> Inr (st\<lparr>mc_s := s\<rparr>, n)))
   }"

definition verifiedBytes :: "'o MerkleCheckOutputStream \<Rightarrow> int" where
  "verifiedBytes st = min (fileSize (mc_real st)) (blockSize (mc_cur st) * int (length (leaves (mc_cur st))))"

section \<open>A tree from a peer\<close>

record TreeOutputStream =
  to_tree :: MerkleTree
  to_buf :: bytes
  to_bufPos :: nat

partial_function (option) TreeOutputStream_loop :: "nat \<Rightarrow> TreeOutputStream \<Rightarrow> bytes \<Rightarrow> TreeOutputStream option" where
  "TreeOutputStream_loop hb st b =
     (if b \<noteq> [] then
        if to_bufPos st = 0 \<and> length b \<ge> hb then
          TreeOutputStream_loop hb
            (st\<lparr>to_tree := (to_tree st)\<lparr>leaves := leaves (to_tree st) @ [take hb b]\<rparr>\<rparr>) (drop hb b)
        else
          let n = min (hb - to_bufPos st) (length b);
              st = st\<lparr>to_buf := blit (to_buf st) (to_bufPos st) (take n b), to_bufPos := to_bufPos st + n\<rparr>;
              st = (if to_bufPos st = hb
                    then st\<lparr>to_tree := (to_tree st)\<lparr>leaves := leaves (to_tree st) @ [take hb (to_buf st)]\<rparr>,
                         to_bufPos := 0\<rparr>
                    else st)
          in TreeOutputStream_loop hb st (drop n b)
      else Some st)"

definition TreeOutputStream_write :: "'s Hasher \<Rightarrow> TreeOutputStream \<Rightarrow> bytes \<Rightarrow> (TreeOutputStream \<times> nat) option" where
  "TreeOutputStream_write H st b = do {
     st \<leftarrow> TreeOutputStream_loop (hasher_BYTES H) st b;
     Some (st, length b)
   }"

text \<open>
  \<open>endData\<close> for a tree: the block size is found by the same loop as in \<open>load\<close>; the Boolean says
  whether the tree has the wanted root.
\<close>

definition endData_tree :: "'s Hasher \<Rightarrow> bytes \<Rightarrow> MerkleTree \<Rightarrow> (bool \<times> MerkleTree) option" where
  "endData_tree H tthRoot t = do {
     bl \<leftarrow> load_loop (length (leaves t)) (fileSize t) (int BASE_BLOCK_SIZE);
     let t = t\<lparr>blockSize := bl\<rparr>;
     t \<leftarrow> calcRoot H t;
     Some (if tthRoot \<noteq> root t then (False, t\<lparr>fileSize := 0\<rparr>) else (True, t))
   }"

section \<open>A tree with leaves in front\<close>

text \<open>
  The verifying stream starts with the leaves of what was downloaded before: they stay in front
  of the leaves that the updates add.
\<close>

definition pre :: "bytes list \<Rightarrow> int \<Rightarrow> MerkleTree \<Rightarrow> MerkleTree" where
  "pre P off t = t\<lparr>leaves := P @ leaves t, fileSize := off + fileSize t\<rparr>"

lemma pre_simps [simp]:
  "blocks (pre P off t) = blocks t" "leaves (pre P off t) = P @ leaves t" "blockSize (pre P off t) = blockSize t"
  "fileSize (pre P off t) = off + fileSize t"
  by (simp_all add: pre_def)

lemma reduce_loop_pre:
  "reduce_loop H bs n bl (P @ lv) = (case reduce_loop H bs n bl lv of (bl, lv) \<Rightarrow> (bl, P @ lv))"
proof (induction H bs n bl lv rule: reduce_loop.induct)
  case (1 H bs n bl lv)
  let ?a = "bl ! (n - 2)" and ?b = "bl ! (n - 1)"
  note unf = reduce_loop.simps [of H bs n bl "P @ lv"] reduce_loop.simps [of H bs n bl lv] Let_def
  consider "snd ?a \<noteq> snd ?b" | "snd ?a = snd ?b" "snd ?a * 2 = bs" "n - 2 < 2" |
    "snd ?a = snd ?b" "snd ?a * 2 \<noteq> bs" "n - 1 < 2" |
    (leaf) "snd ?a = snd ?b" "snd ?a * 2 = bs" "\<not> n - 2 < 2" |
    (node) "snd ?a = snd ?b" "snd ?a * 2 \<noteq> bs" "\<not> n - 1 < 2" by blast
  then show ?case
  proof cases
    case leaf
    then show ?thesis using 1 [OF refl refl leaf(1) refl refl refl] by (simp add: unf)
  next
    case node
    then show ?thesis using 1 [OF refl refl node(1) refl refl refl] by (simp add: unf)
  qed (simp_all add: unf)
qed

lemma reduceBlocks_pre: "reduceBlocks H (pre P off t) = pre P off (reduceBlocks H t)"
  by (simp add: reduceBlocks_def reduce_loop_pre pre_def split: prod.split)

lemma add_block_pre: "add_block H (pre P off t) d = pre P off (add_block H t d)"
proof (cases "int BASE_BLOCK_SIZE < blockSize t")
  case True
  then show ?thesis
    using reduceBlocks_pre [of H P off "t\<lparr>blocks := blocks t @ [(leafHash H d, int BASE_BLOCK_SIZE)]\<rparr>"]
    by (cases t) (simp add: add_block_def pre_def)
qed (simp add: add_block_def pre_def)

lemma update_loop_pre: "update_loop H (pre P off t) d = pre P off (update_loop H t d)"
proof (induction H t d rule: update_loop.induct)
  case (1 H t d)
  then show ?case by (subst (1 2) update_loop.simps) (simp add: Let_def add_block_pre)
qed

lemma update_pre: "d \<noteq> [] \<Longrightarrow> MerkleTree_update H (pre P off t) d = pre P off (MerkleTree_update H t d)"
  by (simp add: MerkleTree_update_def update_loop_pre) (simp add: pre_def)

lemma join_blocks_pre: "join_blocks H (pre P off t) = pre P off (join_blocks H t)"
  by (simp add: join_blocks_def Let_def pre_def)

section \<open>Buffering\<close>

text \<open>The stream has taken the data \<open>d\<close> after the leaves \<open>P\<close> of the first \<open>off\<close> bytes.\<close>

definition streams :: "'s Hasher \<Rightarrow> nat \<Rightarrow> bytes list \<Rightarrow> int \<Rightarrow> 'o MerkleCheckOutputStream \<Rightarrow> bytes \<Rightarrow> bool" where
  "streams H j P off st d \<longleftrightarrow>
     length (mc_buf st) = BASE_BLOCK_SIZE \<and> mc_bufPos st = length d mod BASE_BLOCK_SIZE \<and>
     take (mc_bufPos st) (mc_buf st) = rest BASE_BLOCK_SIZE d \<and>
     (\<exists>t. mc_cur st = pre P off t \<and> fileSize t = int (length (full BASE_BLOCK_SIZE d)) \<and>
        holds H j t (map (leafHash H) (groups BASE_BLOCK_SIZE (full BASE_BLOCK_SIZE d))))"

lemma streams_verified [simp]: "streams H j P off (st\<lparr>mc_verified := v, mc_s := s\<rparr>) d = streams H j P off st d"
  by (simp add: streams_def)

lemma BASE_BLOCK_SIZE_pos [simp]: "0 < BASE_BLOCK_SIZE"
  by (simp add: BASE_BLOCK_SIZE_def)

lemma update_full:
  assumes "holds H j t (map (leafHash H) (groups BASE_BLOCK_SIZE d))" "length d mod BASE_BLOCK_SIZE = 0"
    "x \<noteq> []" "fileSize t = int (length d)"
  shows "holds H j (MerkleTree_update H t x) (map (leafHash H) (groups BASE_BLOCK_SIZE (d @ x)))"
    "fileSize (MerkleTree_update H t x) = int (length (d @ x))"
  using update_holds [OF assms(1), of x] assms
  by (simp_all add: groups_append base_blocks_nonempty mod_eq_0_iff_dvd)

lemma streams_update:
  assumes "streams H j P off st d" "x \<noteq> []" "full BASE_BLOCK_SIZE (d @ y) = full BASE_BLOCK_SIZE d @ x"
    "length (mc_buf st') = BASE_BLOCK_SIZE" "mc_bufPos st' = length (d @ y) mod BASE_BLOCK_SIZE"
    "take (mc_bufPos st') (mc_buf st') = rest BASE_BLOCK_SIZE (d @ y)"
    "mc_cur st' = MerkleTree_update H (mc_cur st) x"
  shows "streams H j P off st' (d @ y)"
proof -
  obtain t where t: "mc_cur st = pre P off t" "fileSize t = int (length (full BASE_BLOCK_SIZE d))"
      "holds H j t (map (leafHash H) (groups BASE_BLOCK_SIZE (full BASE_BLOCK_SIZE d)))"
    using assms(1) by (auto simp: streams_def)
  have "mc_cur st' = pre P off (MerkleTree_update H t x)" using t(1) assms(2,7) by (simp add: update_pre)
  with update_full [OF t(3) full_mod assms(2) t(2)] assms(3-6) show ?thesis
    unfolding streams_def by auto
qed

lemma commit_buffered_streams:
  assumes st: "streams H j P off st d" and c: "commit_buffered H st b = (st', b')"
  obtains e where "b = e @ b'" "streams H j P off st' (d @ e)" "b' = [] \<or> rest BASE_BLOCK_SIZE (d @ e) = []"
    "mc_s st' = mc_s st" "mc_real st' = mc_real st" "mc_verified st' = mc_verified st"
proof -
  let ?B = BASE_BLOCK_SIZE
  have bp: "length (mc_buf st) = ?B" "mc_bufPos st = length d mod ?B" "length (rest ?B d) = mc_bufPos st"
      "take (mc_bufPos st) (mc_buf st) = rest ?B d" "mc_bufPos st < ?B"
    using st unfolding streams_def by (auto simp: length_rest)
  define n where "n = min (?B - mc_bufPos st) (length b)"
  show thesis
  proof (cases "mc_bufPos st = 0")
    case True
    with c bp(3) have "st' = st" "b' = b" "rest ?B d = []" by (simp_all add: commit_buffered_def)
    with st show ?thesis by (intro that [of "[]"]) simp_all
  next
    case False
    have len: "length (take n b) = n" by (simp add: n_def)
    have b': "b' = drop n b" using c False by (simp add: commit_buffered_def Let_def n_def)
    let ?buf = "blit (mc_buf st) (mc_bufPos st) (take n b)"
    have "mc_bufPos st + n \<le> ?B" using bp(5) by (simp add: n_def)
    then have buf: "length ?buf = ?B" "take (mc_bufPos st + n) ?buf = rest ?B d @ take n b"
      using length_blit [of "mc_bufPos st" "take n b" "mc_buf st"]
        blit_prefix [of "mc_bufPos st" "mc_buf st" "take n b"] bp(1,4,5) len by simp_all
    show ?thesis
    proof (cases "mc_bufPos st + n = ?B")
      case True
      have st': "st' = st\<lparr>mc_buf := ?buf, mc_bufPos := 0,
          mc_cur := MerkleTree_update H (mc_cur st) (take ?B ?buf)\<rparr>"
        using c False True by (cases st) (auto simp: commit_buffered_def Let_def n_def)
      have "length (rest ?B d) + length (take n b) = ?B" using bp(3) len True by simp
      note fr = full_rest_block [OF this BASE_BLOCK_SIZE_pos]
      have "take ?B ?buf = rest ?B d @ take n b" using buf(2) True by simp
      then have "mc_cur st' = MerkleTree_update H (mc_cur st) (rest ?B d @ take n b)"
        "mc_buf st' = ?buf" "mc_bufPos st' = 0" by (simp_all add: st')
      moreover have "rest ?B d @ take n b \<noteq> []" using bp(3) False by auto
      moreover have "length (d @ take n b) mod ?B = 0" using fr(2) length_rest [of ?B "d @ take n b"] by simp
      ultimately have "streams H j P off st' (d @ take n b)"
        using fr buf(1) by (intro streams_update [OF st, of "rest ?B d @ take n b"]) simp_all
      with fr(2) show ?thesis by (intro that [of "take n b"]) (simp_all add: b' st')
    next
      case part: False
      then have n: "n = length b" "mc_bufPos st + n < ?B" using bp(5) by (auto simp: n_def)
      have st': "st' = st\<lparr>mc_buf := ?buf, mc_bufPos := mc_bufPos st + n\<rparr>"
        using c False part by (simp add: commit_buffered_def Let_def n_def)
      have "length (rest ?B d) + length b < ?B" using bp(3) n by simp
      note fr = full_rest_short [OF this]
      have "length (d @ b) mod ?B = mc_bufPos st + n"
        using length_rest [of ?B "d @ b"] fr(2) bp(3) n by simp
      then have "streams H j P off st' (d @ b)"
        using st fr buf n by (simp add: streams_def st')
      with n show ?thesis by (intro that [of b]) (simp_all add: b' st')
    qed
  qed
qed

lemma commitBytes_streams:
  assumes st: "streams H j P off st d"
  shows "streams H j P off (commitBytes H st b) (d @ b) \<and> mc_s (commitBytes H st b) = mc_s st \<and>
    mc_real (commitBytes H st b) = mc_real st \<and> mc_verified (commitBytes H st b) = mc_verified st"
proof -
  let ?B = BASE_BLOCK_SIZE
  obtain st1 b1 where c: "commit_buffered H st b = (st1, b1)" by fastforce
  obtain e where e: "b = e @ b1" "streams H j P off st1 (d @ e)" "b1 = [] \<or> rest ?B (d @ e) = []"
      "mc_s st1 = mc_s st" "mc_real st1 = mc_real st" "mc_verified st1 = mc_verified st"
    using commit_buffered_streams [OF st c] .
  show ?thesis
  proof (cases "b1 = []")
    case True
    with c e show ?thesis by (simp add: commitBytes_def)
  next
    case False
    define part where "part = length b1 - length b1 mod ?B"
    have z: "length (d @ e) mod ?B = 0" using e(3) False length_rest [of ?B "d @ e"] by simp
    then have f: "full ?B (d @ e) = d @ e" using e(3) False full_rest [of ?B "d @ e"] by simp
    have dm: "(d @ e) @ b1 = ((d @ e) @ take part b1) @ drop part b1" by simp
    have "part mod ?B = 0" "length (take part b1) = part"
      by (simp_all add: part_def minus_mod_eq_mult_div)
    then have "length ((d @ e) @ take part b1) mod ?B = 0"
      using z unfolding length_append [of "d @ e"] by (simp only: mod_eq_0_iff_dvd dvd_add)
    moreover have "length (drop part b1) < ?B" by (simp add: part_def)
    ultimately have fr: "full ?B ((d @ e) @ b1) = (d @ e) @ take part b1" "rest ?B ((d @ e) @ b1) = drop part b1"
      using full_rest_eqI [OF BASE_BLOCK_SIZE_pos dm] by auto
    have len: "length ((d @ e) @ b1) mod ?B = length (drop part b1)"
      using fr(2) length_rest [of ?B "(d @ e) @ b1"] by simp
    let ?st = "st1\<lparr>mc_cur := (if part \<noteq> 0 then MerkleTree_update H (mc_cur st1) (take part b1) else mc_cur st1),
        mc_buf := blit (mc_buf st1) 0 (drop part b1), mc_bufPos := length (drop part b1)\<rparr>"
    have cb: "commitBytes H st b = ?st" using False c by (simp add: commitBytes_def Let_def part_def)
    have buf: "length (mc_buf st1) = ?B" using e(2) by (simp add: streams_def)
    have "length (drop part b1) \<le> ?B" by (simp add: part_def less_imp_le)
    then have blt: "length (blit (mc_buf st1) 0 (drop part b1)) = ?B"
        "take (length (drop part b1)) (blit (mc_buf st1) 0 (drop part b1)) = drop part b1"
      using buf blit_prefix [of 0 "mc_buf st1" "drop part b1"] by (auto simp: length_blit)
    have "streams H j P off ?st ((d @ e) @ b1)"
    proof (cases "part = 0")
      case True
      then show ?thesis using e(2) fr len blt f unfolding streams_def by simp
    next
      case nz: False
      then have "take part b1 \<noteq> []" using False by simp
      then show ?thesis
        using fr len blt f nz by (intro streams_update [OF e(2), of "take part b1"]) simp_all
    qed
    then show ?thesis using cb e(1,4-6) by simp
  qed
qed

section \<open>Leaves of a part of a file\<close>

definition file_leaves :: "(bytes \<Rightarrow> bytes) \<Rightarrow> nat \<Rightarrow> bytes \<Rightarrow> bytes list" where
  "file_leaves dg j m =
     map (tree_root (node dg)) (groups (2 ^ j) (map (\<lambda>d. dg (0 # d)) (groups BASE_BLOCK_SIZE m)))"

lemma file_leaves_Nil [simp]: "file_leaves dg j [] = []"
  by (simp add: file_leaves_def)

lemma tth_leaves_file: "m \<noteq> [] \<Longrightarrow> tth_leaves dg j m = file_leaves dg j m"
  by (simp add: tth_leaves_def file_leaves_def block_hashes_def base_blocks_nonempty)

lemma length_groups_dvd: "0 < k \<Longrightarrow> k dvd length xs \<Longrightarrow> length (groups k xs) = length xs div k"
proof -
  assume k: "0 < k" "k dvd length xs"
  then obtain q where q: "length xs = k * q" by blast
  have "(k * q + k - 1) div k = q"
    using k(1) by (intro div_nat_eqI) auto
  then show ?thesis using k(1) by (simp add: length_groups q)
qed

lemma file_leaves_append:
  assumes "BASE_BLOCK_SIZE * 2 ^ j dvd length x"
  shows "file_leaves dg j (x @ y) = file_leaves dg j x @ file_leaves dg j y"
proof -
  obtain q where q: "length x = BASE_BLOCK_SIZE * 2 ^ j * q" using assms by blast
  then have B: "BASE_BLOCK_SIZE dvd length x" by simp
  have "length (groups BASE_BLOCK_SIZE x) = 2 ^ j * q"
    using length_groups_dvd [OF BASE_BLOCK_SIZE_pos B] q by (simp add: mult.assoc BASE_BLOCK_SIZE_def)
  then have "2 ^ j dvd length (map (\<lambda>d. dg (0 # d)) (groups BASE_BLOCK_SIZE x))" by simp
  then show ?thesis using B by (simp add: file_leaves_def groups_append)
qed

lemma length_file_leaves:
  assumes "BASE_BLOCK_SIZE * 2 ^ j dvd length x"
  shows "length (file_leaves dg j x) = length x div (BASE_BLOCK_SIZE * 2 ^ j)"
proof -
  obtain q where q: "length x = BASE_BLOCK_SIZE * 2 ^ j * q" using assms by blast
  then have "length (groups BASE_BLOCK_SIZE x) = 2 ^ j * q"
    using length_groups_dvd [of BASE_BLOCK_SIZE x] by (simp add: mult.assoc BASE_BLOCK_SIZE_def)
  then show ?thesis using length_groups_dvd [of "2 ^ j" "map (\<lambda>d. dg (0 # d)) (groups BASE_BLOCK_SIZE x)"]
    by (simp add: file_leaves_def q)
qed

text \<open>The complete leaves of the data \<open>d\<close> are those that the tree has.\<close>

lemma full_blocks:
  fixes d :: bytes
  obtains y where "full BASE_BLOCK_SIZE d = full (BASE_BLOCK_SIZE * 2 ^ j) d @ y"
    "BASE_BLOCK_SIZE dvd length (full (BASE_BLOCK_SIZE * 2 ^ j) d)"
    "2 ^ j dvd length (groups BASE_BLOCK_SIZE (full (BASE_BLOCK_SIZE * 2 ^ j) d))"
    "length (groups BASE_BLOCK_SIZE y) < 2 ^ j"
proof -
  let ?B = BASE_BLOCK_SIZE and ?S = "BASE_BLOCK_SIZE * 2 ^ j"
  define n2 where "n2 = length d - length d mod ?B"
  define n1 where "n1 = length d - length d mod ?S"
  have S: "0 < ?S" by simp
  have "length d mod ?S mod ?B = length d mod ?B" by (rule mod_mod_cancel) simp
  then have le: "length d mod ?B \<le> length d mod ?S" by (metis mod_less_eq_dividend)
  have n: "n1 \<le> n2" "n2 - n1 < ?S" using le mod_less_divisor [OF S, of "length d"] mod_less_eq_dividend [of "length d" ?S]
    unfolding n1_def n2_def by linarith+
  have dv: "?S dvd n1" "?B dvd n1" "?B dvd n2"
    by (simp_all add: n1_def n2_def minus_mod_eq_mult_div)
  let ?y = "drop n1 (take n2 d)"
  have ylen: "length ?y = n2 - n1" by (simp add: n2_def)
  have "full ?B d = full ?S d @ ?y"
    using n(1) append_take_drop_id [of n1 "take n2 d"]
    by (simp add: full_def n1_def [symmetric] n2_def [symmetric] min_def)
  moreover have len: "length (full ?S d) = n1" by (simp add: full_def n1_def)
  moreover have "length (groups ?B (full ?S d)) = n1 div ?B"
    using dv(2) len by (simp add: length_groups_dvd)
  moreover have "2 ^ j dvd n1 div ?B" using dv(1) by (auto simp: BASE_BLOCK_SIZE_def mult.assoc)
  moreover have "length (groups ?B ?y) < 2 ^ j"
  proof -
    have "?B dvd length ?y" using dv ylen by (simp add: dvd_diff_nat)
    then have "length (groups ?B ?y) = (n2 - n1) div ?B" using ylen by (simp add: length_groups_dvd)
    also have "\<dots> < 2 ^ j" using n(2) by (simp add: div_less_iff_less_mult mult.commute)
    finally show ?thesis .
  qed
  ultimately show thesis using that [of ?y] dv(2) by simp
qed

lemma holds_full:
  assumes "holds H j t hs"
  shows "leaves t = map (tree_root (combine H)) (groups (2 ^ j) (full (2 ^ j) hs))"
proof -
  obtain us vs where t: "hs = us @ vs" "2 ^ j dvd length us" "length vs < 2 ^ j"
      "leaves t = map (tree_root (combine H)) (groups (2 ^ j) us)"
    using assms by (auto simp: holds_def)
  then have "full (2 ^ j) hs = us" by (intro full_rest_eqI(1)) (simp_all add: mod_eq_0_iff_dvd)
  with t show ?thesis by simp
qed

context hasher begin

lemma leafHash_fun: "leafHash H = (\<lambda>d. digest (0 # d))"
  by (intro ext) (rule leafHash_digest)

lemma streams_leaves:
  assumes "streams H j P off st d"
  shows "leaves (mc_cur st) = P @ file_leaves digest j (full (BASE_BLOCK_SIZE * 2 ^ j) d)"
proof -
  let ?h = "\<lambda>d. map (\<lambda>d. digest (0 # d)) (groups BASE_BLOCK_SIZE d)"
  obtain t where t: "mc_cur st = pre P off t" "holds H j t (?h (full BASE_BLOCK_SIZE d))"
    using assms by (auto simp: streams_def leafHash_fun)
  obtain y where y: "full BASE_BLOCK_SIZE d = full (BASE_BLOCK_SIZE * 2 ^ j) d @ y"
    "BASE_BLOCK_SIZE dvd length (full (BASE_BLOCK_SIZE * 2 ^ j) d)"
    "2 ^ j dvd length (groups BASE_BLOCK_SIZE (full (BASE_BLOCK_SIZE * 2 ^ j) d))"
    "length (groups BASE_BLOCK_SIZE y) < 2 ^ j"
    using full_blocks .
  have "full (2 ^ j) (?h (full BASE_BLOCK_SIZE d)) = ?h (full (BASE_BLOCK_SIZE * 2 ^ j) d)"
    using y by (intro full_rest_eqI(1) [of _ _ _ "?h y"]) (simp_all add: groups_append mod_eq_0_iff_dvd)
  with holds_full [OF t(2)] t(1) show ?thesis by (simp add: file_leaves_def combine_node)
qed

end

section \<open>What passes the check\<close>

lemma checkTrees_loop_eq:
  "checkTrees_loop cur rl v =
    (if v < length cur \<and> (length rl < length cur \<or> (\<exists>i. v \<le> i \<and> i < length cur \<and> cur ! i \<noteq> rl ! i))
     then Inl TTH_INCONSISTENCY else Inr (max v (length cur)))"
proof (induction cur rl v rule: checkTrees_loop.induct)
  case (1 cur rl v)
  have split_v: "(\<exists>i. v \<le> i \<and> i < length cur \<and> cur ! i \<noteq> rl ! i) \<longleftrightarrow>
      cur ! v \<noteq> rl ! v \<or> (\<exists>i. v + 1 \<le> i \<and> i < length cur \<and> cur ! i \<noteq> rl ! i)" if "v < length cur"
    using that by (metis Suc_eq_plus1 Suc_leI le_neq_implies_less le_refl Suc_leD)
  show ?case
  proof (cases "v < length cur \<and> \<not> (length cur > length rl \<or> cur ! v \<noteq> rl ! v)")
    case True
    then have "checkTrees_loop cur rl v = checkTrees_loop cur rl (v + 1)"
      by (simp add: checkTrees_loop.simps [of cur rl v])
    with True split_v 1 show ?thesis
      by (cases "v + 1 < length cur") (auto simp: less_Suc_eq_le max_def)
  next
    case False
    then show ?thesis by (subst checkTrees_loop.simps) (auto simp: max_def)
  qed
qed

lemma prefix_nth: "length xs \<le> length ys \<Longrightarrow> take (length xs) ys = xs \<longleftrightarrow> (\<forall>i<length xs. xs ! i = ys ! i)"
  by (auto simp: list_eq_iff_nth_eq)

text \<open>The leaves seen so far are the first leaves of the real tree.\<close>

definition verified_ok :: "'o MerkleCheckOutputStream \<Rightarrow> bool" where
  "verified_ok st \<longleftrightarrow> mc_verified st \<le> length (leaves (mc_real st)) \<and>
     (\<exists>zs. leaves (mc_cur st) = take (mc_verified st) (leaves (mc_real st)) @ zs)"

lemma take_length_le: "xs = take (length xs) ys \<Longrightarrow> length xs \<le> length ys"
  by (metis length_take min.cobounded1)

lemma checkTrees_iff:
  assumes "verified_ok st"
  shows "checkTrees st =
    (if leaves (mc_cur st) = take (length (leaves (mc_cur st))) (leaves (mc_real st))
     then Inr (st\<lparr>mc_verified := length (leaves (mc_cur st))\<rparr>) else Inl TTH_INCONSISTENCY)"
proof -
  let ?c = "leaves (mc_cur st)" and ?r = "leaves (mc_real st)" and ?v = "mc_verified st"
  obtain zs where zs: "?v \<le> length ?r" "?c = take ?v ?r @ zs" using assms by (auto simp: verified_ok_def)
  then have v: "?v \<le> length ?c" "\<And>i. i < ?v \<Longrightarrow> ?c ! i = ?r ! i" by (simp_all add: nth_append)
  show ?thesis
  proof (cases "?v = length ?c")
    case True
    then have "zs = []" using zs by simp
    then show ?thesis using True zs by (simp add: checkTrees_def checkTrees_loop_eq)
  next
    case False
    then have "?v < length ?c" using v(1) by simp
    moreover have "(\<exists>i. ?v \<le> i \<and> i < length ?c \<and> ?c ! i \<noteq> ?r ! i) \<longleftrightarrow> (\<exists>i<length ?c. ?c ! i \<noteq> ?r ! i)"
      using v(2) by (meson not_le)
    moreover have "?c = take (length ?c) ?r \<longleftrightarrow> length ?c \<le> length ?r \<and> (\<forall>i<length ?c. ?c ! i = ?r ! i)"
      using prefix_nth [of ?c ?r] take_length_le [of ?c ?r] by metis
    ultimately show ?thesis by (auto simp: checkTrees_def checkTrees_loop_eq max_def)
  qed
qed

text \<open>A sequence of writes, up to the first exception.\<close>

fun write_all :: "'s Hasher \<Rightarrow> 'o OutputStream \<Rightarrow> 'o MerkleCheckOutputStream \<Rightarrow> bytes list \<Rightarrow>
    stream_error + 'o MerkleCheckOutputStream" where
  "write_all H os st [] = Inr st"
| "write_all H os st (w # ws) = (case MerkleCheck_write H os st w of
     Inl e \<Rightarrow> Inl e | Inr (st, n) \<Rightarrow> write_all H os st ws)"

context hasher begin

lemma full_append_dvd:
  fixes d :: bytes
  shows "k dvd length (full k d)" "\<exists>y. full k (d @ b) = full k d @ y"
proof -
  show "k dvd length (full k d)" using full_mod [of k d] by (simp add: mod_eq_0_iff_dvd)
  define n1 where "n1 = length d - length d mod k"
  define n2 where "n2 = length (d @ b) - length (d @ b) mod k"
  have "length d div k * k \<le> length (d @ b) div k * k" by (intro mult_le_mono1 div_le_mono) simp
  then have "n1 \<le> n2" by (simp only: n1_def n2_def minus_mod_eq_div_mult)
  then have "take n1 (take n2 (d @ b)) = take n1 (d @ b)" by (simp only: take_take min_absorb1)
  also have "\<dots> = take n1 d" by (simp add: n1_def)
  finally have "take n2 (d @ b) = take n1 d @ drop n1 (take n2 (d @ b))"
    by (metis append_take_drop_id)
  then show "\<exists>y. full k (d @ b) = full k d @ y" by (auto simp only: full_def n1_def n2_def)
qed

lemma write_step:
  fixes b :: bytes
  assumes st: "streams H j P off st d" "verified_ok st"
  defines "L \<equiv> P @ file_leaves digest j (full (BASE_BLOCK_SIZE * 2 ^ j) (d @ b))"
  shows "MerkleCheck_write H os st b =
      (if L = take (length L) (leaves (mc_real st)) then
         (case os_write os (mc_s st) b of Inl e \<Rightarrow> Inl e
          | Inr (s, n) \<Rightarrow> Inr ((commitBytes H st b)\<lparr>mc_verified := length L, mc_s := s\<rparr>, n))
       else Inl TTH_INCONSISTENCY)"
proof -
  note c = commitBytes_streams [OF st(1), of b]
  let ?S = "BASE_BLOCK_SIZE * 2 ^ j"
  obtain y where y: "full ?S (d @ b) = full ?S d @ y" "?S dvd length (full ?S d)"
    using full_append_dvd by blast
  have L: "leaves (mc_cur (commitBytes H st b)) = L"
    unfolding L_def by (rule streams_leaves [OF conjunct1 [OF c]])
  moreover have "L = leaves (mc_cur st) @ file_leaves digest j y"
    using streams_leaves [OF st(1)] y by (simp add: L_def file_leaves_append)
  ultimately have "verified_ok (commitBytes H st b)" using st(2) c by (auto simp: verified_ok_def)
  from checkTrees_iff [OF this] c L show ?thesis by (simp add: MerkleCheck_write_def)
qed

lemma write_ok:
  assumes st: "streams H j P off st d" "verified_ok st" and w: "MerkleCheck_write H os st b = Inr (st', n)"
  shows "streams H j P off st' (d @ b)" "verified_ok st'" "mc_real st' = mc_real st"
proof -
  let ?L = "P @ file_leaves digest j (full (BASE_BLOCK_SIZE * 2 ^ j) (d @ b))"
  note c = commitBytes_streams [OF st(1), of b]
  obtain s where L: "?L = take (length ?L) (leaves (mc_real st))"
    and st': "st' = (commitBytes H st b)\<lparr>mc_verified := length ?L, mc_s := s\<rparr>"
    using w write_step [OF st, of os b] by (auto split: if_splits sum.splits)
  have "leaves (mc_cur (commitBytes H st b)) = ?L" by (rule streams_leaves [OF conjunct1 [OF c]])
  then show "verified_ok st'"
    using c L take_length_le [OF L] by (auto simp: verified_ok_def st' simp del: length_append)
  show "streams H j P off st' (d @ b)" "mc_real st' = mc_real st" using c by (simp_all add: st')
qed

lemma write_all_ok:
  assumes "streams H j P off st d" "verified_ok st" "write_all H os st ws = Inr st'"
  shows "streams H j P off st' (d @ concat ws) \<and> verified_ok st' \<and> mc_real st' = mc_real st"
  using assms
proof (induction ws arbitrary: st d)
  case (Cons w ws)
  obtain st1 n where w: "MerkleCheck_write H os st w = Inr (st1, n)"
    using Cons.prems(3) by (auto split: sum.splits)
  note ok = write_ok [OF Cons.prems(1,2) w]
  show ?case using Cons.IH [OF ok(1,2)] Cons.prems(3) w ok(3) by simp
qed simp

end

section \<open>Collisions\<close>

text \<open>The strings that are hashed for the tree over a list of blocks.\<close>

function tree_inputs :: "(bytes \<Rightarrow> bytes) \<Rightarrow> bytes list \<Rightarrow> bytes set" where
  "tree_inputs dg bs = (if length bs \<le> 1 then {0 # hd bs}
     else let k = pow_below (length bs);
              R = (\<lambda>bs. tree_root (node dg) (map (\<lambda>d. dg (0 # d)) bs))
          in {1 # R (take k bs) @ R (drop k bs)} \<union> tree_inputs dg (take k bs) \<union> tree_inputs dg (drop k bs))"
  by pat_completeness auto
termination
proof (relation "measure (\<lambda>(_, bs). length bs)")
  fix bs :: "bytes list" and k dg and R :: "bytes list \<Rightarrow> bytes"
  assume "\<not> length bs \<le> 1" "k = pow_below (length bs)"
  then show "((dg, take k bs), dg, bs) \<in> measure (\<lambda>(_, bs). length bs)"
    "((dg, drop k bs), dg, bs) \<in> measure (\<lambda>(_, bs). length bs)"
    using pow_below_bounds [of "length bs"] by auto
qed simp

declare tree_inputs.simps [simp del]

text \<open>All that is hashed for the leaves and the root of a file.\<close>

definition hash_inputs :: "(bytes \<Rightarrow> bytes) \<Rightarrow> nat \<Rightarrow> bytes \<Rightarrow> bytes set" where
  "hash_inputs dg j m = tree_inputs dg (base_blocks m) \<union>
     (\<Union>g\<in>set (groups (2 ^ j) (base_blocks m)). tree_inputs dg g)"

definition collision :: "(bytes \<Rightarrow> bytes) \<Rightarrow> bytes set \<Rightarrow> bool" where
  "collision dg S \<longleftrightarrow> (\<exists>x\<in>S. \<exists>y\<in>S. x \<noteq> y \<and> dg x = dg y)"

lemma collision_mono: "collision dg S \<Longrightarrow> S \<subseteq> T \<Longrightarrow> collision dg T"
  by (auto simp: collision_def)

lemma no_collisionD:
  "\<not> collision dg (S \<union> T) \<Longrightarrow> x \<in> S \<Longrightarrow> y \<in> T \<Longrightarrow> dg x = dg y \<Longrightarrow> x = y"
  by (auto simp: collision_def)

abbreviation block_root :: "(bytes \<Rightarrow> bytes) \<Rightarrow> bytes list \<Rightarrow> bytes" where
  "block_root dg bs \<equiv> tree_root (node dg) (map (\<lambda>d. dg (0 # d)) bs)"

lemma tree_inputs_single: "length bs = 1 \<Longrightarrow> tree_inputs dg bs = {0 # hd bs} \<and> block_root dg bs = dg (0 # hd bs)"
  by (cases bs) (simp_all add: tree_inputs.simps)

lemma tree_inputs_split:
  assumes "2 \<le> length bs"
  defines "k \<equiv> pow_below (length bs)"
  shows "tree_inputs dg bs = {1 # block_root dg (take k bs) @ block_root dg (drop k bs)} \<union>
      tree_inputs dg (take k bs) \<union> tree_inputs dg (drop k bs) \<and>
    block_root dg bs = dg (1 # block_root dg (take k bs) @ block_root dg (drop k bs))"
proof -
  have "tree_root (node dg) (map (\<lambda>d. dg (0 # d)) bs) =
      node dg (block_root dg (take k bs)) (block_root dg (drop k bs))"
    using tree_root_split [of "map (\<lambda>d. dg (0 # d)) bs"] assms by (simp add: take_map drop_map)
  with assms show ?thesis by (subst tree_inputs.simps) (simp add: Let_def node_def)
qed

lemma root_input:
  assumes "bs \<noteq> []"
  shows "\<exists>x\<in>tree_inputs dg bs. block_root dg bs = dg x \<and> (length bs = 1 \<longleftrightarrow> hd x = 0) \<and> (length bs \<noteq> 1 \<longleftrightarrow> hd x = 1)"
proof (cases "length bs = 1")
  case True
  then show ?thesis using tree_inputs_single [OF True, of dg] by simp
next
  case False
  then have "2 \<le> length bs" using assms by (cases bs) (auto simp: Suc_le_eq)
  from tree_inputs_split [OF this, of dg] False show ?thesis by auto
qed

context hasher begin

lemma length_block_root: "bs \<noteq> [] \<Longrightarrow> length (block_root digest bs) = hasher_BYTES H"
  by (rule length_tree_root) auto

text \<open>Equal roots come from equal blocks, or show a collision.\<close>

lemma block_root_inj:
  assumes "block_root digest bs = block_root digest cs" "bs \<noteq> []" "cs \<noteq> []"
    "\<not> collision digest (tree_inputs digest bs \<union> tree_inputs digest cs)"
  shows "bs = cs"
  using assms
proof (induction "length bs" arbitrary: bs cs rule: less_induct)
  case less
  let ?R = "block_root digest" and ?I = "tree_inputs digest"
  obtain x y where x: "x \<in> ?I bs" "?R bs = digest x" "length bs = 1 \<longleftrightarrow> hd x = 0" "length bs \<noteq> 1 \<longleftrightarrow> hd x = 1"
      and y: "y \<in> ?I cs" "?R cs = digest y" "length cs = 1 \<longleftrightarrow> hd y = 0" "length cs \<noteq> 1 \<longleftrightarrow> hd y = 1"
    using root_input [OF less.prems(2), of digest] root_input [OF less.prems(3), of digest] by blast
  have "x = y" using no_collisionD [OF less.prems(4) x(1) y(1)] less.prems(1) x(2) y(2) by simp
  show ?case
  proof (cases "length bs = 1")
    case True
    then have c: "length cs = 1" using \<open>x = y\<close> x(3) y(3) by simp
    have "hd bs = hd cs"
      using x(1) y(1) \<open>x = y\<close> tree_inputs_single [OF True, of digest] tree_inputs_single [OF c, of digest] by simp
    moreover have "bs = [hd bs]" "cs = [hd cs]" using True c by (auto simp: length_Suc_conv)
    ultimately show ?thesis by metis
  next
    case False
    then have "length cs \<noteq> 1" using \<open>x = y\<close> x(3) y(3) by simp
    moreover have "length bs \<noteq> 0" "length cs \<noteq> 0" using less.prems(2,3) by simp_all
    ultimately have two: "2 \<le> length bs" "2 \<le> length cs" using False by linarith+
    let ?k = "pow_below (length bs)" and ?l = "pow_below (length cs)"
    note b = tree_inputs_split [OF two(1), of digest] and c = tree_inputs_split [OF two(2), of digest]
    note kb = pow_below_bounds [OF two(1)] and lb = pow_below_bounds [OF two(2)]
    have eq: "1 # ?R (take ?k bs) @ ?R (drop ?k bs) = 1 # ?R (take ?l cs) @ ?R (drop ?l cs)"
    proof (rule no_collisionD [OF less.prems(4)])
      show "1 # ?R (take ?k bs) @ ?R (drop ?k bs) \<in> ?I bs" "1 # ?R (take ?l cs) @ ?R (drop ?l cs) \<in> ?I cs"
        unfolding conjunct1 [OF b] conjunct1 [OF c] by blast+
      show "digest (1 # ?R (take ?k bs) @ ?R (drop ?k bs)) = digest (1 # ?R (take ?l cs) @ ?R (drop ?l cs))"
        using conjunct2 [OF b] conjunct2 [OF c] less.prems(1) by (simp only:)
    qed
    have ne: "take ?k bs \<noteq> []" "drop ?k bs \<noteq> []" "take ?l cs \<noteq> []" "drop ?l cs \<noteq> []"
      using kb lb two less.prems(2,3) by auto
    have parts: "?R (take ?k bs) = ?R (take ?l cs)" "?R (drop ?k bs) = ?R (drop ?l cs)"
      using eq length_block_root [OF ne(1)] length_block_root [OF ne(3)] by simp_all
    have "\<not> collision digest (?I (take ?k bs) \<union> ?I (take ?l cs))"
      "\<not> collision digest (?I (drop ?k bs) \<union> ?I (drop ?l cs))"
      using less.prems(4) by (rule contrapos_nn, elim collision_mono, unfold conjunct1 [OF b] conjunct1 [OF c], blast)+
    then have "take ?k bs = take ?l cs" "drop ?k bs = drop ?l cs"
      using less.hyps [of "take ?k bs" "take ?l cs"] less.hyps [of "drop ?k bs" "drop ?l cs"] parts ne kb by auto
    then show ?thesis by (metis append_take_drop_id)
  qed
qed

end

section \<open>The end of a segment\<close>

lemma block_hashes_nonempty: "block_hashes dg m \<noteq> []"
  using groups_bounds [of BASE_BLOCK_SIZE m]
  by (auto simp: block_hashes_def base_blocks_def)

lemma root_of_leaves: "tree_root (node dg) (tth_leaves dg j m) = tth dg m"
  using block_hashes_nonempty [of dg m] by (simp add: tth_leaves_def tth_def tree_root_groups)

lemma file_leaves_empty_iff:
  assumes "BASE_BLOCK_SIZE * 2 ^ j dvd length m"
  shows "file_leaves dg j m = [] \<longleftrightarrow> m = []"
proof
  assume "file_leaves dg j m = []"
  then have "length m div (BASE_BLOCK_SIZE * 2 ^ j) = 0" using length_file_leaves [OF assms, of dg] by simp
  then show "m = []" using assms by (auto elim!: dvdE)
qed simp

lemma groups_empty_iff: "0 < k \<Longrightarrow> groups k d = [] \<longleftrightarrow> d = []"
  using groups_bounds [of k d] by auto

context hasher begin

lemma new_streams:
  assumes "blockSize tree = int BASE_BLOCK_SIZE * 2 ^ j" "k \<le> length (leaves tree)"
  obtains st where
    "MerkleCheckOutputStream_new H junk tree os (int (BASE_BLOCK_SIZE * 2 ^ j * k)) = Some st"
    "streams H j (take k (leaves tree)) (int (BASE_BLOCK_SIZE * 2 ^ j * k)) st []" "verified_ok st"
    "mc_real st = tree" "mc_s st = os"
proof -
  let ?start = "int (BASE_BLOCK_SIZE * 2 ^ j * k)" and ?bs = "int BASE_BLOCK_SIZE * 2 ^ j"
  have "?start sdiv ?bs = int k"
    by (simp add: signed_divide_int_def sgn_if abs_mult BASE_BLOCK_SIZE_def)
  then have nw: "MerkleCheckOutputStream_new H junk tree os ?start =
      Some \<lparr>mc_s = os, mc_real = tree, mc_cur = pre (take k (leaves tree)) ?start (MerkleTree_new H ?bs),
        mc_verified = 0, mc_buf = map junk [0..<BASE_BLOCK_SIZE], mc_bufPos = 0\<rparr>" (is "_ = Some ?st")
    using assms by (simp add: MerkleCheckOutputStream_new_def pre_def MerkleTree_new_def BASE_BLOCK_SIZE_def)
  have "holds H j (MerkleTree_new H ?bs) []" by (rule holds_new)
  then have "streams H j (take k (leaves tree)) ?start ?st []"
    unfolding streams_def
    by (auto simp: full_def rest_def MerkleTree_new_def intro!: exI [of _ "MerkleTree_new H ?bs"])
  with nw show ?thesis by (intro that [of ?st]) (simp_all add: verified_ok_def)
qed

lemma finalize_pre:
  assumes m0: "BASE_BLOCK_SIZE * 2 ^ j dvd length m0" and t: "holds H j t (map (leafHash H) (groups BASE_BLOCK_SIZE d))"
    "fileSize t = int (length d)"
  obtains u where "MerkleTree_finalize H (pre (file_leaves digest j m0) (int (length m0)) t) = Some u"
      "leaves u = tth_leaves digest j (m0 @ d)" "root u = tth digest (m0 @ d)" |
    "MerkleTree_finalize H (pre (file_leaves digest j m0) (int (length m0)) t) = None" "2 ^ 62 < length (m0 @ d)"
proof -
  let ?c = "pre (file_leaves digest j m0) (int (length m0)) t"
  define c' where "c' = (if leaves ?c = [] \<and> blocks ?c = [] then MerkleTree_update H ?c [] else ?c)"
  let ?u = "join_blocks H c'"
  have empty: "(leaves ?c = [] \<and> blocks ?c = []) \<longleftrightarrow> m0 @ d = []"
    using holds_empty_iff [OF t(1)] file_leaves_empty_iff [OF m0, of digest] by (auto simp: groups_empty_iff)
  have u: "leaves ?u = tth_leaves digest j (m0 @ d) \<and> fileSize ?u = int (length (m0 @ d)) \<and>
      blockSize ?u = int BASE_BLOCK_SIZE * 2 ^ j"
  proof (cases "m0 @ d = []")
    case True
    then have "?c = t" by (simp add: pre_def)
    then have c': "c' = MerkleTree_update H t []" using empty True by (simp add: c'_def)
    have t0: "holds H j t []" "fileSize t = 0" using t True by simp_all
    note up = update_holds [OF t0(1), of "[]"]
    from join_blocks_finished [OF up(1)] up(2) t0(2) True c' show ?thesis
      by (simp add: finished_def tth_leaves_def combine_node block_hashes_leafHash flip: block_hashes_leafHash)
  next
    case False
    then have "c' = ?c" using empty by (auto simp: c'_def)
    with join_blocks_finished [OF t(1)] t(2) False m0 show ?thesis
      by (simp add: finished_def join_blocks_pre combine_node leafHash_fun tth_leaves_file file_leaves_append)
        (simp add: file_leaves_def)
  qed
  then have "calcRoot H ?u = Some (?u\<lparr>root := tth digest (m0 @ d)\<rparr>) \<or>
      calcRoot H ?u = None \<and> 2 ^ 62 < int (length (m0 @ d))"
    using calcRoot_cases [of ?u H] spans_leaves [of j "m0 @ d" digest] root_of_leaves [of digest j "m0 @ d"]
    by (simp add: combine_node BASE_BLOCK_SIZE_def)
  moreover have "MerkleTree_finalize H ?c = calcRoot H ?u"
    by (simp add: MerkleTree_finalize_join c'_def)
  moreover have "2 ^ 62 < length (m0 @ d)" if "2 ^ 62 < int (length (m0 @ d))"
    using int_le_2_62 [of "length (m0 @ d)"] that by (meson not_le)
  ultimately show ?thesis
    using u that(1) [of "?u\<lparr>root := tth digest (m0 @ d)\<rparr>"] that(2) by fastforce
qed

lemma flush_cur:
  assumes "streams H j P off st d"
  defines "cur \<equiv> if mc_bufPos st \<noteq> 0 then MerkleTree_update H (mc_cur st) (take (mc_bufPos st) (mc_buf st)) else mc_cur st"
  obtains t where "cur = pre P off t" "holds H j t (map (leafHash H) (groups BASE_BLOCK_SIZE d))"
    "fileSize t = int (length d)"
proof -
  let ?B = BASE_BLOCK_SIZE
  obtain t where t: "mc_cur st = pre P off t" "fileSize t = int (length (full ?B d))"
      "holds H j t (map (leafHash H) (groups ?B (full ?B d)))"
      and buf: "take (mc_bufPos st) (mc_buf st) = rest ?B d" "mc_bufPos st = length (rest ?B d)"
    using assms(1) by (auto simp: streams_def length_rest)
  show thesis
  proof (cases "rest ?B d = []")
    case True
    then have "full ?B d = d" using full_rest [of ?B d] by simp
    then show ?thesis using t buf True by (intro that) (simp_all add: cur_def)
  next
    case False
    then have "cur = pre P off (MerkleTree_update H t (rest ?B d))"
      using t(1) buf by (simp add: cur_def update_pre)
    with update_full [OF t(3) full_mod False t(2)] show ?thesis
      by (intro that) (simp_all add: full_rest)
  qed
qed

lemma flush_step:
  fixes os :: "'o OutputStream"
  assumes m0: "BASE_BLOCK_SIZE * 2 ^ j dvd length m0"
    and st: "streams H j (file_leaves digest j m0) (int (length m0)) st d"
    and none: "MerkleCheck_flushBuffers H os st force = None \<Longrightarrow> 2 ^ 62 < length (m0 @ d) \<Longrightarrow> R"
    and some: "\<And>(u :: 'o MerkleCheckOutputStream) c. leaves (mc_cur u) = tth_leaves digest j (m0 @ d) \<Longrightarrow>
      root (mc_cur u) = tth digest (m0 @ d) \<Longrightarrow> mc_real u = mc_real st \<Longrightarrow> mc_verified u = mc_verified st \<Longrightarrow>
      c = (if length (leaves (mc_cur u)) = length (leaves (mc_real st))
        then if root (mc_cur u) \<noteq> root (mc_real st) then Inl TTH_INCONSISTENCY else Inr u
        else checkTrees u) \<Longrightarrow>
      MerkleCheck_flushBuffers H os st force = Some (case c of
        Inl e \<Rightarrow> Inl e
      | Inr u \<Rightarrow> (case os_flush os (mc_s u) force of Inl e \<Rightarrow> Inl e | Inr (s, n) \<Rightarrow> Inr (u\<lparr>mc_s := s\<rparr>, n))) \<Longrightarrow> R"
  shows R
proof -
  let ?cur = "if mc_bufPos st \<noteq> 0 then MerkleTree_update H (mc_cur st) (take (mc_bufPos st) (mc_buf st)) else mc_cur st"
  obtain t where t: "?cur = pre (file_leaves digest j m0) (int (length m0)) t"
      "holds H j t (map (leafHash H) (groups BASE_BLOCK_SIZE d))" "fileSize t = int (length d)"
    using flush_cur [OF st] .
  have flush: "MerkleCheck_flushBuffers H os st force = do {
      v \<leftarrow> MerkleTree_finalize H ?cur;
      let u = st\<lparr>mc_bufPos := 0, mc_cur := v\<rparr>;
      Some (case (if length (leaves v) = length (leaves (mc_real st))
          then if root v \<noteq> root (mc_real st) then Inl TTH_INCONSISTENCY else Inr u else checkTrees u) of
        Inl e \<Rightarrow> Inl e
      | Inr u \<Rightarrow> (case os_flush os (mc_s u) force of Inl e \<Rightarrow> Inl e | Inr (s, n) \<Rightarrow> Inr (u\<lparr>mc_s := s\<rparr>, n)))
    }" by (cases "mc_bufPos st = 0") (simp_all add: MerkleCheck_flushBuffers_def Let_def cong: if_cong)
  show R
  proof (rule finalize_pre [OF m0 t(2,3)])
    fix v
    assume "MerkleTree_finalize H (pre (file_leaves digest j m0) (int (length m0)) t) = Some v"
      and v: "leaves v = tth_leaves digest j (m0 @ d)" "root v = tth digest (m0 @ d)"
    then have "MerkleTree_finalize H ?cur = Some v" unfolding t(1) by simp
    then have "MerkleCheck_flushBuffers H os st force = Some (case
        (if length (leaves v) = length (leaves (mc_real st))
          then if root v \<noteq> root (mc_real st) then Inl TTH_INCONSISTENCY else Inr (st\<lparr>mc_bufPos := 0, mc_cur := v\<rparr>)
          else checkTrees (st\<lparr>mc_bufPos := 0, mc_cur := v\<rparr>)) of
        Inl e \<Rightarrow> Inl e
      | Inr u \<Rightarrow> (case os_flush os (mc_s u) force of Inl e \<Rightarrow> Inl e | Inr (s, n) \<Rightarrow> Inr (u\<lparr>mc_s := s\<rparr>, n)))"
      unfolding flush by (simp only: bind.bind_lunit Let_def)
    with v show R by (intro some [of "st\<lparr>mc_bufPos := 0, mc_cur := v\<rparr>", OF _ _ _ _ refl]) simp_all
  next
    assume "MerkleTree_finalize H (pre (file_leaves digest j m0) (int (length m0)) t) = None"
      and big: "2 ^ 62 < length (m0 @ d)"
    then have "MerkleTree_finalize H ?cur = None" unfolding t(1) by simp
    then show R using big by (intro none) (simp_all add: flush)
  qed
qed

end

section \<open>A segment of a download\<close>

text \<open>A segment: the stream is built at \<open>start\<close>, the pieces are written, the stream is flushed.\<close>

definition download_segment :: "'s Hasher \<Rightarrow> 'o OutputStream \<Rightarrow> (nat \<Rightarrow> u8) \<Rightarrow> MerkleTree \<Rightarrow> 'o \<Rightarrow> int \<Rightarrow>
    bytes list \<Rightarrow> (stream_error + 'o MerkleCheckOutputStream \<times> nat) option" where
  "download_segment H os junk tree s start ws = do {
     st \<leftarrow> MerkleCheckOutputStream_new H junk tree s start;
     case write_all H os st ws of
       Inl e \<Rightarrow> Some (Inl e)
     | Inr st \<Rightarrow> MerkleCheck_flushBuffers H os st True
   }"

lemma groups_map: "groups k (map f xs) = map (map f) (groups k xs)"
proof (induction k xs rule: groups.induct)
  case (1 k xs)
  show ?case
    by (subst groups.simps, subst (2) groups.simps) (use 1 in \<open>simp add: take_map drop_map\<close>)
qed

lemma tth_leaves_blocks: "tth_leaves dg j m = map (block_root dg) (groups (2 ^ j) (base_blocks m))"
  by (simp add: tth_leaves_def block_hashes_def groups_map)

lemma concat_base_blocks: "concat (base_blocks m) = m"
  by (simp add: base_blocks_def concat_groups)

lemma take_file_leaves:
  assumes "BASE_BLOCK_SIZE * 2 ^ j * k \<le> length m"
  shows "take k (tth_leaves dg j m) = file_leaves dg j (take (BASE_BLOCK_SIZE * 2 ^ j * k) m)"
    "k \<le> length (tth_leaves dg j m)"
proof -
  let ?m0 = "take (BASE_BLOCK_SIZE * 2 ^ j * k) m" and ?r = "drop (BASE_BLOCK_SIZE * 2 ^ j * k) m"
  have len: "length ?m0 = BASE_BLOCK_SIZE * 2 ^ j * k" using assms by simp
  have fl: "length (file_leaves dg j ?m0) = k" using length_file_leaves [of j ?m0 dg] len by simp
  show "take k (tth_leaves dg j m) = file_leaves dg j ?m0" "k \<le> length (tth_leaves dg j m)"
  proof (atomize (full), cases "m = []")
    case True
    then have "k = 0" using assms by (simp add: BASE_BLOCK_SIZE_def)
    then show "take k (tth_leaves dg j m) = file_leaves dg j ?m0 \<and> k \<le> length (tth_leaves dg j m)" by simp
  next
    case False
    then have "tth_leaves dg j m = file_leaves dg j ?m0 @ file_leaves dg j ?r"
      using file_leaves_append [of j ?m0 dg ?r] len by (simp add: tth_leaves_file)
    with fl show "take k (tth_leaves dg j m) = file_leaves dg j ?m0 \<and> k \<le> length (tth_leaves dg j m)" by simp
  qed
qed

lemma verified_ok_extend:
  "verified_ok st \<Longrightarrow> mc_real u = mc_real st \<Longrightarrow> mc_verified u = mc_verified st \<Longrightarrow>
    leaves (mc_cur u) = leaves (mc_cur st) @ zs \<Longrightarrow> verified_ok u"
  by (auto simp: verified_ok_def)

context hasher begin

lemma streams_prefix:
  assumes "BASE_BLOCK_SIZE * 2 ^ j dvd length m0" "streams H j (file_leaves digest j m0) off st d"
  shows "\<exists>zs. tth_leaves digest j (m0 @ d) = leaves (mc_cur st) @ zs"
proof (cases "m0 @ d = []")
  case True
  then show ?thesis using streams_leaves [OF assms(2)] by (simp add: full_def)
next
  case False
  let ?S = "BASE_BLOCK_SIZE * 2 ^ j"
  have "d = full ?S d @ rest ?S d" by (simp add: full_rest)
  then have "file_leaves digest j d = file_leaves digest j (full ?S d) @ file_leaves digest j (rest ?S d)"
    using file_leaves_append [OF full_append_dvd(1), of digest j d "rest ?S d"] by simp
  with False assms streams_leaves [OF assms(2)] show ?thesis
    by (simp add: tth_leaves_file file_leaves_append)
qed

lemma leaves_prefix_inj:
  assumes "tth_leaves digest j x = take (length (tth_leaves digest j x)) (tth_leaves digest j m)"
    "\<not> collision digest (hash_inputs digest j m \<union> hash_inputs digest j x)"
  shows "x = take (length x) m"
proof -
  let ?gx = "groups (2 ^ j) (base_blocks x)" and ?gm = "groups (2 ^ j) (base_blocks m)"
  have le: "length ?gx \<le> length ?gm" using take_length_le [OF assms(1)] by (simp add: tth_leaves_blocks)
  have "?gx = take (length ?gx) ?gm"
  proof (rule nth_equalityI)
    show "length ?gx = length (take (length ?gx) ?gm)" using le by simp
    fix i
    assume i: "i < length ?gx"
    have "map (block_root digest) ?gx ! i = take (length ?gx) (map (block_root digest) ?gm) ! i"
      using assms(1) by (simp add: tth_leaves_blocks)
    then have eq: "block_root digest (?gx ! i) = block_root digest (?gm ! i)" using i le by simp
    have mem: "?gx ! i \<in> set ?gx" "?gm ! i \<in> set ?gm" using i le by simp_all
    have "\<not> collision digest (tree_inputs digest (?gx ! i) \<union> tree_inputs digest (?gm ! i))"
      using assms(2) by (rule contrapos_nn, elim collision_mono) (use mem in \<open>auto simp: hash_inputs_def\<close>)
    then have "?gx ! i = ?gm ! i" using mem [THEN groups_nonempty] eq by (intro block_root_inj)
    then show "?gx ! i = take (length ?gx) ?gm ! i" using i by simp
  qed
  then have "base_blocks x = concat (take (length ?gx) ?gm)"
    using concat_groups [of "2 ^ j" "base_blocks x"] by (metis zero_less_power zero_less_numeral)
  moreover have "base_blocks m = concat (take (length ?gx) ?gm) @ concat (drop (length ?gx) ?gm)"
    using concat_groups [of "2 ^ j" "base_blocks m"] by (simp flip: concat_append)
  ultimately have "m = x @ concat (concat (drop (length ?gx) ?gm))"
    using concat_base_blocks [of x] concat_base_blocks [of m] by (metis concat_append)
  then show ?thesis by (metis append_eq_conv_conj)
qed

lemma tth_inj:
  assumes "tth digest x = tth digest m" "\<not> collision digest (hash_inputs digest j m \<union> hash_inputs digest j x)"
  shows "x = m"
proof -
  have "\<not> collision digest (tree_inputs digest (base_blocks x) \<union> tree_inputs digest (base_blocks m))"
    using assms(2) by (rule contrapos_nn, elim collision_mono) (auto simp: hash_inputs_def)
  moreover have "base_blocks x \<noteq> []" "base_blocks m \<noteq> []"
    using block_hashes_nonempty [of digest x] block_hashes_nonempty [of digest m] by (auto simp: block_hashes_def)
  ultimately have "base_blocks x = base_blocks m"
    using assms(1) by (intro block_root_inj) (simp_all add: tth_def block_hashes_def)
  then show ?thesis using concat_base_blocks by metis
qed

theorem segment_sound:
  fixes os :: "'o OutputStream"
  assumes tree: "leaves tree = tth_leaves digest j m" "root tree = tth digest m"
      "blockSize tree = int BASE_BLOCK_SIZE * 2 ^ j"
    and start: "BASE_BLOCK_SIZE * 2 ^ j * k \<le> length m"
    and ok: "download_segment H os junk tree s (int (BASE_BLOCK_SIZE * 2 ^ j * k)) ws = Some (Inr r)"
    and nc: "\<not> collision digest (hash_inputs digest j m \<union>
      hash_inputs digest j (take (BASE_BLOCK_SIZE * 2 ^ j * k) m @ concat ws))"
  shows "concat ws = take (length (concat ws)) (drop (BASE_BLOCK_SIZE * 2 ^ j * k) m)"
proof -
  let ?n = "BASE_BLOCK_SIZE * 2 ^ j * k" and ?d = "concat ws"
  let ?m0 = "take ?n m"
  have len: "length ?m0 = ?n" using start by simp
  then have dv: "BASE_BLOCK_SIZE * 2 ^ j dvd length ?m0" by simp
  have P: "take k (leaves tree) = file_leaves digest j ?m0" "k \<le> length (leaves tree)"
    using take_file_leaves [OF start, of digest] tree(1) by simp_all
  obtain st where st: "MerkleCheckOutputStream_new H junk tree s (int ?n) = Some st"
      "streams H j (file_leaves digest j ?m0) (int (length ?m0)) st []" "verified_ok st" "mc_real st = tree"
    using new_streams [OF tree(3) P(2), of junk s] P(1) len by metis
  obtain st1 where w: "write_all H os st ws = Inr st1" and f: "MerkleCheck_flushBuffers H os st1 True = Some (Inr r)"
    using ok st(1) by (auto simp: download_segment_def split: sum.splits)
  have st1: "streams H j (file_leaves digest j ?m0) (int (length ?m0)) st1 ?d" "verified_ok st1" "mc_real st1 = tree"
    using write_all_ok [OF st(2,3) w] st(4) by simp_all
  obtain zs where zs: "tth_leaves digest j (?m0 @ ?d) = leaves (mc_cur st1) @ zs"
    using streams_prefix [OF dv st1(1)] by blast
  obtain u :: "'o MerkleCheckOutputStream" where u: "leaves (mc_cur u) = tth_leaves digest j (?m0 @ ?d)" "root (mc_cur u) = tth digest (?m0 @ ?d)"
      "mc_real u = tree" "mc_verified u = mc_verified st1"
    and passed: "(if length (leaves (mc_cur u)) = length (leaves tree)
        then if root (mc_cur u) \<noteq> root tree then Inl TTH_INCONSISTENCY else Inr u else checkTrees u) \<noteq> Inl TTH_INCONSISTENCY"
  proof (rule flush_step [OF dv st1(1), of os True])
    fix u :: "'o MerkleCheckOutputStream" and c
    assume u: "leaves (mc_cur u) = tth_leaves digest j (?m0 @ ?d)" "root (mc_cur u) = tth digest (?m0 @ ?d)"
        "mc_real u = mc_real st1" "mc_verified u = mc_verified st1"
      and c: "c = (if length (leaves (mc_cur u)) = length (leaves (mc_real st1))
        then if root (mc_cur u) \<noteq> root (mc_real st1) then Inl TTH_INCONSISTENCY else Inr u else checkTrees u)"
      and fl: "MerkleCheck_flushBuffers H os st1 True = Some (case c of Inl e \<Rightarrow> Inl e
        | Inr u \<Rightarrow> (case os_flush os (mc_s u) True of Inl e \<Rightarrow> Inl e | Inr (s, n) \<Rightarrow> Inr (u\<lparr>mc_s := s\<rparr>, n)))"
    have "c \<noteq> Inl TTH_INCONSISTENCY" using f fl by auto
    then show ?thesis using u unfolding c st1(3) by (intro that [of u])
  qed (use f in simp)
  have "?m0 @ ?d = take (length (?m0 @ ?d)) m"
  proof (cases "length (leaves (mc_cur u)) = length (leaves tree)")
    case True
    with passed u(2) tree(2) have "tth digest (?m0 @ ?d) = tth digest m" by (simp split: if_splits)
    from tth_inj [OF this nc] show ?thesis by simp
  next
    case False
    have "verified_ok u" using verified_ok_extend [OF st1(2), of u zs] u st1(3) zs by simp
    from checkTrees_iff [OF this] passed False u(1,3) tree(1)
    have "tth_leaves digest j (?m0 @ ?d) = take (length (tth_leaves digest j (?m0 @ ?d))) (tth_leaves digest j m)"
      by (simp split: if_splits)
    then show ?thesis by (rule leaves_prefix_inj [OF _ nc])
  qed
  then have "drop ?n (?m0 @ ?d) = drop ?n (take (?n + length ?d) m)" using len by (simp only: length_append)
  then show ?thesis using len by (simp add: drop_take)
qed

end

text \<open>A stream below that never throws.\<close>

definition never_throws :: "'o OutputStream \<Rightarrow> bool" where
  "never_throws os \<longleftrightarrow> (\<forall>s b e. os_write os s b \<noteq> Inl e) \<and> (\<forall>s b e. os_flush os s b \<noteq> Inl e)"

context hasher begin

lemma write_all_passes:
  assumes "streams H j (file_leaves digest j m0) off st d" "verified_ok st" "BASE_BLOCK_SIZE * 2 ^ j dvd length m0"
    "leaves (mc_real st) = tth_leaves digest j (m0 @ d @ concat ws @ r)" "never_throws os"
  shows "\<exists>st'. write_all H os st ws = Inr st'"
  using assms
proof (induction ws arbitrary: st d)
  case (Cons w ws)
  let ?S = "BASE_BLOCK_SIZE * 2 ^ j"
  let ?f = "full ?S (d @ w)" and ?r = "rest ?S (d @ w) @ concat ws @ r"
  let ?L = "file_leaves digest j m0 @ file_leaves digest j ?f"
  have m: "m0 @ d @ concat (w # ws) @ r = m0 @ ?f @ ?r"
    using full_rest [of ?S "d @ w"] by (metis append.assoc concat.simps(2))
  have L: "?L = take (length ?L) (leaves (mc_real st))"
  proof (cases "?L = []")
    case False
    then have "m0 @ ?f @ ?r \<noteq> []" by auto
    then have "leaves (mc_real st) = ?L @ file_leaves digest j ?r"
      using Cons.prems(3,4) full_append_dvd(1) [of ?S "d @ w"]
      unfolding m by (simp add: tth_leaves_file file_leaves_append)
    then show ?thesis by simp
  qed (simp only: list.size take_0)
  obtain s n where os: "os_write os (mc_s st) w = Inr (s, n)"
    using Cons.prems(5) by (cases "os_write os (mc_s st) w") (auto simp: never_throws_def)
  obtain st1 where w: "MerkleCheck_write H os st w = Inr (st1, n)"
    using write_step [OF Cons.prems(1,2), of os w, unfolded if_P [OF L] os sum.case prod.case] by blast
  note ok = write_ok [OF Cons.prems(1,2) w]
  have "leaves (mc_real st1) = tth_leaves digest j (m0 @ (d @ w) @ concat ws @ r)"
    using Cons.prems(4) ok(3) by simp
  from Cons.IH [OF ok(1,2) Cons.prems(3) this Cons.prems(5)] show ?case by (simp add: w)
qed simp

theorem segment_passes:
  fixes os :: "'o OutputStream"
  assumes tree: "leaves tree = tth_leaves digest j m" "root tree = tth digest m"
      "blockSize tree = int BASE_BLOCK_SIZE * 2 ^ j"
    and m: "m = m0 @ concat ws @ r" "length m0 = BASE_BLOCK_SIZE * 2 ^ j * k"
    and seg: "r = [] \<or> BASE_BLOCK_SIZE * 2 ^ j dvd length (concat ws) \<and> m0 @ concat ws \<noteq> []"
    and os: "never_throws os" and small: "length m \<le> 2 ^ 62"
  shows "\<exists>u. download_segment H os junk tree s (int (BASE_BLOCK_SIZE * 2 ^ j * k)) ws = Some (Inr u)"
proof -
  let ?S = "BASE_BLOCK_SIZE * 2 ^ j" and ?d = "concat ws"
  have dv: "?S dvd length m0" using m(2) by simp
  have P: "take k (leaves tree) = file_leaves digest j m0" "k \<le> length (leaves tree)"
    using take_file_leaves [of j k m digest] tree(1) m by simp_all
  obtain st where st: "MerkleCheckOutputStream_new H junk tree s (int (?S * k)) = Some st"
      "streams H j (file_leaves digest j m0) (int (length m0)) st []" "verified_ok st" "mc_real st = tree"
    using new_streams [OF tree(3) P(2), of junk s] P(1) m(2) by metis
  have "leaves (mc_real st) = tth_leaves digest j (m0 @ [] @ ?d @ r)" using st(4) tree(1) m(1) by simp
  then obtain st1 where w: "write_all H os st ws = Inr st1"
    using write_all_passes [OF st(2,3) dv _ os] by blast
  have st1: "streams H j (file_leaves digest j m0) (int (length m0)) st1 ?d" "verified_ok st1" "mc_real st1 = tree"
    using write_all_ok [OF st(2,3) w] st(4) by simp_all
  obtain zs where zs: "tth_leaves digest j (m0 @ ?d) = leaves (mc_cur st1) @ zs"
    using streams_prefix [OF dv st1(1)] by blast
  have "\<exists>u. MerkleCheck_flushBuffers H os st1 True = Some (Inr u)"
  proof (rule flush_step [OF dv st1(1), of os True])
    fix u :: "'o MerkleCheckOutputStream" and c
    assume u: "leaves (mc_cur u) = tth_leaves digest j (m0 @ ?d)" "root (mc_cur u) = tth digest (m0 @ ?d)"
        "mc_real u = mc_real st1" "mc_verified u = mc_verified st1"
      and c: "c = (if length (leaves (mc_cur u)) = length (leaves (mc_real st1))
        then if root (mc_cur u) \<noteq> root (mc_real st1) then Inl TTH_INCONSISTENCY else Inr u else checkTrees u)"
      and fl: "MerkleCheck_flushBuffers H os st1 True = Some (case c of Inl e \<Rightarrow> Inl e
        | Inr u \<Rightarrow> (case os_flush os (mc_s u) True of Inl e \<Rightarrow> Inl e | Inr (s, n) \<Rightarrow> Inr (u\<lparr>mc_s := s\<rparr>, n)))"
    have "\<exists>v. c = Inr v"
    proof (cases "r = []")
      case True
      then have "tth_leaves digest j (m0 @ ?d) = leaves tree" "tth digest (m0 @ ?d) = root tree"
        using tree m(1) by simp_all
      then show ?thesis using u(1,2) st1(3) by (simp add: c)
    next
      case False
      then have x: "?S dvd length (m0 @ ?d)" "m0 @ ?d \<noteq> []" "m0 @ ?d @ r \<noteq> []" using seg dv by auto
      have "leaves tree = file_leaves digest j (m0 @ ?d) @ file_leaves digest j r"
        using file_leaves_append [OF x(1), of digest r] x(3) by (simp add: tree(1) m(1) tth_leaves_file)
      moreover have "file_leaves digest j r \<noteq> []" using False by (simp add: file_leaves_def groups_empty_iff)
      moreover have "verified_ok u" using verified_ok_extend [OF st1(2) u(3,4), of zs] u(1) zs by simp
      ultimately show ?thesis
        using checkTrees_iff [of u] u(1,3) st1(3) x(2) by (simp add: c tth_leaves_file)
    qed
    then obtain v where "c = Inr v" by blast
    moreover obtain s n where "os_flush os (mc_s v) True = Inr (s, n)"
      using os by (cases "os_flush os (mc_s v) True") (auto simp: never_throws_def)
    ultimately show ?thesis using fl by simp
  qed (use small m(1) in simp)
  with st(1) w show ?thesis by (simp add: download_segment_def)
qed

end

text \<open>
  C2: when a segment that starts at a block of the file passes the check, its bytes are the bytes
  of the file at that place, unless the digest collides on what was hashed for the file and for the
  download.
\<close>

theorem download_segment_sound:
  assumes "leaves tree = tth_leaves tiger j m" "root tree = tth tiger m"
      "blockSize tree = int BASE_BLOCK_SIZE * 2 ^ j"
    and "BASE_BLOCK_SIZE * 2 ^ j * k \<le> length m"
    and "download_segment (TigerHasher cfg junk) os junk' tree s (int (BASE_BLOCK_SIZE * 2 ^ j * k)) ws = Some (Inr r)"
    and "\<not> collision tiger (hash_inputs tiger j m \<union>
      hash_inputs tiger j (take (BASE_BLOCK_SIZE * 2 ^ j * k) m @ concat ws))"
  shows "concat ws = take (length (concat ws)) (drop (BASE_BLOCK_SIZE * 2 ^ j * k) m)"
  by (rule tiger_hasher.segment_sound [OF assms])

text \<open>
  C3: there are no false alarms. A segment of a file of at most \<open>2 ^ 62\<close> bytes that starts at a block
  and ends at a block or at the end of the file passes, however it is cut into writes, as long as the
  stream below does not throw. (In larger files the sizes of \<open>getHash\<close> leave \<open>int64_t\<close>.)
\<close>

theorem download_segment_passes:
  assumes "leaves tree = tth_leaves tiger j m" "root tree = tth tiger m"
      "blockSize tree = int BASE_BLOCK_SIZE * 2 ^ j"
    and "m = m0 @ concat ws @ r" "length m0 = BASE_BLOCK_SIZE * 2 ^ j * k"
    and "r = [] \<or> BASE_BLOCK_SIZE * 2 ^ j dvd length (concat ws) \<and> m0 @ concat ws \<noteq> []"
    and "never_throws os" and "length m \<le> 2 ^ 62"
  shows "\<exists>u. download_segment (TigerHasher cfg junk) os junk' tree s (int (BASE_BLOCK_SIZE * 2 ^ j * k)) ws =
    Some (Inr u)"
  by (rule tiger_hasher.segment_passes [OF assms])

text \<open>A file of three bytes, and a stream below that records what it gets.\<close>

definition recorder :: "bytes OutputStream" where
  "recorder = \<lparr>os_write = \<lambda>s b. Inr (s @ b, length b), os_flush = \<lambda>s _. Inr (s, 0)\<rparr>"

definition small_tree :: MerkleTree where
  "small_tree = \<lparr>blocks = [], leaves = tth_leaves tiger 0 [1, 2, 3], fileSize = 3, blockSize = 1024,
     root = tth tiger [1, 2, 3]\<rparr>"

lemma recorder_never_throws: "never_throws recorder"
  by (simp add: never_throws_def recorder_def)

lemma small_hash_inputs: "hash_inputs tiger 0 [1, 2, 3] = {[0, 1, 2, 3]}"
proof -
  have "base_blocks [1, 2, 3] = [[1, 2, 3]]" by (simp add: base_blocks_def groups_short BASE_BLOCK_SIZE_def)
  then show ?thesis by (simp add: hash_inputs_def tree_inputs.simps groups_short)
qed

theorem download_segment_sound_witness:
  "(\<exists>r. download_segment (TigerHasher generic_build (\<lambda>_. 0)) recorder (\<lambda>_. 7) small_tree [] 0 [[1, 2], [3]] =
      Some (Inr r)) \<and> concat [[1, 2], [3 :: u8]] = take 3 (drop 0 [1, 2, 3 :: u8])"
proof -
  have "\<exists>r. download_segment (TigerHasher generic_build (\<lambda>_. 0)) recorder (\<lambda>_. 7) small_tree []
      (int (BASE_BLOCK_SIZE * 2 ^ 0 * 0)) [[1, 2], [3]] = Some (Inr r)"
    by (rule tiger_hasher.segment_passes [of _ 0 "[1, 2, 3]" "[]" _ "[]"])
      (simp_all add: small_tree_def BASE_BLOCK_SIZE_def recorder_never_throws)
  then obtain r where r: "download_segment (TigerHasher generic_build (\<lambda>_. 0)) recorder (\<lambda>_. 7) small_tree []
      (int (BASE_BLOCK_SIZE * 2 ^ 0 * 0)) [[1, 2], [3]] = Some (Inr r)" by blast
  have "concat [[1, 2], [3 :: u8]] = take (length (concat [[1, 2], [3 :: u8]])) (drop (BASE_BLOCK_SIZE * 2 ^ 0 * 0) [1, 2, 3 :: u8])"
    by (rule download_segment_sound [OF _ _ _ _ r])
      (simp_all add: small_tree_def BASE_BLOCK_SIZE_def small_hash_inputs collision_def)
  with r show ?thesis by simp
qed

theorem download_segment_passes_witness:
  "\<exists>u. download_segment (TigerHasher generic_build (\<lambda>_. 0)) recorder (\<lambda>_. 7) small_tree [] 0 [[1], [2, 3]] =
     Some (Inr u)"
proof -
  have "\<exists>u. download_segment (TigerHasher generic_build (\<lambda>_. 0)) recorder (\<lambda>_. 7) small_tree []
      (int (BASE_BLOCK_SIZE * 2 ^ 0 * 0)) [[1], [2, 3]] = Some (Inr u)"
    by (rule download_segment_passes [of _ 0 "[1, 2, 3]" "[]" _ "[]"])
      (simp_all add: small_tree_def BASE_BLOCK_SIZE_def recorder_never_throws)
  then show ?thesis by simp
qed

section \<open>The tree of a peer\<close>

definition tree_streams :: "nat \<Rightarrow> MerkleTree \<Rightarrow> TreeOutputStream \<Rightarrow> bytes \<Rightarrow> bool" where
  "tree_streams hb t st d \<longleftrightarrow> length (to_buf st) = hb \<and> to_bufPos st = length d mod hb \<and>
     take (to_bufPos st) (to_buf st) = rest hb d \<and>
     to_tree st = t\<lparr>leaves := leaves t @ groups hb (full hb d)\<rparr>"

lemma groups_full_block:
  assumes "0 < hb" "length (rest hb d) + length x = hb"
  shows "groups hb (full hb (d @ x)) = groups hb (full hb d) @ [rest hb d @ x]" "rest hb (d @ x) = []"
    "length (d @ x) mod hb = 0"
proof -
  note fr = full_rest_block [OF assms(2,1)]
  show "rest hb (d @ x) = []" by (fact fr)
  then show "length (d @ x) mod hb = 0" using length_rest [of hb "d @ x"] by simp
  have "groups hb (rest hb d @ x) = [rest hb d @ x]" using assms by (intro groups_short) simp_all
  then show "groups hb (full hb (d @ x)) = groups hb (full hb d) @ [rest hb d @ x]"
    using assms(1) full_mod [of hb d] by (simp add: fr(1) groups_append mod_eq_0_iff_dvd)
qed

lemma TreeOutputStream_loop_streams:
  assumes "0 < hb" "tree_streams hb t st d"
  shows "\<exists>st'. TreeOutputStream_loop hb st b = Some st' \<and> tree_streams hb t st' (d @ b)"
  using assms(2)
proof (induction "length b" arbitrary: b st d rule: less_induct)
  case less
  have inv: "length (to_buf st) = hb" "to_bufPos st = length (rest hb d)" "take (to_bufPos st) (to_buf st) = rest hb d"
      "to_tree st = t\<lparr>leaves := leaves t @ groups hb (full hb d)\<rparr>" "to_bufPos st < hb"
    using less.prems assms(1) unfolding tree_streams_def by (auto simp: length_rest)
  have step: ?case if st': "TreeOutputStream_loop hb st b = TreeOutputStream_loop hb st1 (drop n b)"
      "tree_streams hb t st1 (d @ take n b)" "0 < n" "b \<noteq> []" for st1 n
    using less.hyps [OF _ st'(2), of "drop n b"] st' by simp
  consider "b = []" | (whole) "b \<noteq> []" "to_bufPos st = 0" "hb \<le> length b" |
    (fill) "b \<noteq> []" "\<not> (to_bufPos st = 0 \<and> hb \<le> length b)" "hb - to_bufPos st \<le> length b" |
    (short) "b \<noteq> []" "\<not> (to_bufPos st = 0 \<and> hb \<le> length b)" "\<not> hb - to_bufPos st \<le> length b"
    by (cases "b = []"; cases "to_bufPos st = 0 \<and> hb \<le> length b"; cases "hb - to_bufPos st \<le> length b") auto
  then show ?case
  proof cases
    case 1
    then show ?thesis using less.prems by (subst TreeOutputStream_loop.simps) simp
  next
    case whole
    let ?st = "st\<lparr>to_tree := (to_tree st)\<lparr>leaves := leaves (to_tree st) @ [take hb b]\<rparr>\<rparr>"
    have r: "rest hb d = []" using whole(2) inv(2) by simp
    then have "length (rest hb d) + length (take hb b) = hb" using whole(3) by simp
    note g = groups_full_block [OF assms(1) this]
    show ?thesis
    proof (rule step [of ?st hb])
      show "tree_streams hb t ?st (d @ take hb b)"
        using g r inv whole(2) by (simp add: tree_streams_def)
    qed (use whole assms(1) in \<open>subst TreeOutputStream_loop.simps, simp_all\<close>)
  next
    case fill
    let ?n = "hb - to_bufPos st"
    let ?buf = "blit (to_buf st) (to_bufPos st) (take ?n b)"
    let ?st = "st\<lparr>to_buf := ?buf, to_bufPos := 0, to_tree := (to_tree st)\<lparr>leaves := leaves (to_tree st) @ [take hb ?buf]\<rparr>\<rparr>"
    have len: "length (rest hb d) + length (take ?n b) = hb" using inv(2,5) fill(3) by simp
    note g = groups_full_block [OF assms(1) len]
    have buf: "length ?buf = hb" "take hb ?buf = rest hb d @ take ?n b"
      using blit_prefix [of "to_bufPos st" "to_buf st" "take ?n b"] inv fill(3)
      by (simp_all add: length_blit)
    show ?thesis
    proof (rule step [of ?st ?n])
      show "tree_streams hb t ?st (d @ take ?n b)"
        using g inv buf by (simp add: tree_streams_def)
      show "TreeOutputStream_loop hb st b = TreeOutputStream_loop hb ?st (drop ?n b)"
        using fill inv(5) by (subst TreeOutputStream_loop.simps) (cases st, auto simp: Let_def min_def)
    qed (use fill inv(5) in simp_all)
  next
    case short
    let ?n = "length b" and ?buf = "blit (to_buf st) (to_bufPos st) b"
    let ?st = "st\<lparr>to_buf := ?buf, to_bufPos := to_bufPos st + length b\<rparr>"
    have len: "length (rest hb d) + length b < hb" using short(3) inv(2) by simp
    note fr = full_rest_short [OF len]
    have buf: "length ?buf = hb" "take (to_bufPos st + length b) ?buf = rest hb d @ b"
      using blit_prefix [of "to_bufPos st" "to_buf st" b] inv short(3) by (simp_all add: length_blit)
    have "length (d @ b) mod hb = to_bufPos st + length b"
      using length_rest [of hb "d @ b"] fr(2) inv(2) by simp
    then show ?thesis
    proof (intro step [of ?st ?n])
      show "tree_streams hb t ?st (d @ take ?n b)" if "length (d @ b) mod hb = to_bufPos st + length b"
        using that fr inv buf by (simp add: tree_streams_def)
      show "TreeOutputStream_loop hb st b = TreeOutputStream_loop hb ?st (drop ?n b)"
        using short by (subst TreeOutputStream_loop.simps) (auto simp: Let_def min_def)
    qed (use short in simp_all)
  qed
qed

text \<open>The writes of a tree download, up to the end of the data.\<close>

fun receive_tree :: "'s Hasher \<Rightarrow> TreeOutputStream \<Rightarrow> bytes list \<Rightarrow> TreeOutputStream option" where
  "receive_tree H st [] = Some st"
| "receive_tree H st (w # ws) = do { (st, n) \<leftarrow> TreeOutputStream_write H st w; receive_tree H st ws }"

definition TreeOutputStream_new :: "'s Hasher \<Rightarrow> (nat \<Rightarrow> u8) \<Rightarrow> MerkleTree \<Rightarrow> TreeOutputStream" where
  "TreeOutputStream_new H junk t = \<lparr>to_tree = t, to_buf = map junk [0..<hasher_BYTES H], to_bufPos = 0\<rparr>"

lemma receive_tree_streams:
  assumes "0 < hasher_BYTES H" "tree_streams (hasher_BYTES H) t st d"
  shows "\<exists>st'. receive_tree H st ws = Some st' \<and> tree_streams (hasher_BYTES H) t st' (d @ concat ws)"
  using assms(2)
proof (induction ws arbitrary: st d)
  case (Cons w ws)
  obtain st1 where st1: "TreeOutputStream_loop (hasher_BYTES H) st w = Some st1"
      "tree_streams (hasher_BYTES H) t st1 (d @ w)"
    using TreeOutputStream_loop_streams [OF assms(1) Cons.prems, of w] by blast
  with Cons.IH [OF st1(2)] show ?case by (simp add: TreeOutputStream_write_def)
qed simp

lemma groups_concat: "0 < n \<Longrightarrow> \<forall>h\<in>set hs. length h = n \<Longrightarrow> groups n (concat hs) = hs"
proof (induction hs)
  case (Cons h hs)
  then show ?case by (subst groups.simps) auto
qed simp

lemma received_leaves:
  assumes "0 < hasher_BYTES H" "\<forall>h\<in>set hs. length h = hasher_BYTES H" "concat ws = concat hs"
  shows "\<exists>st. receive_tree H (TreeOutputStream_new H junk t) ws = Some st \<and>
    to_tree st = t\<lparr>leaves := leaves t @ hs\<rparr>"
proof -
  let ?n = "hasher_BYTES H"
  have "tree_streams ?n t (TreeOutputStream_new H junk t) []"
    by (simp add: tree_streams_def TreeOutputStream_new_def full_def rest_def)
  then obtain st where st: "receive_tree H (TreeOutputStream_new H junk t) ws = Some st"
      "tree_streams ?n t st (concat ws)"
    using receive_tree_streams [OF assms(1), of t "TreeOutputStream_new H junk t" "[]" ws] by auto
  have "full ?n (concat hs) = concat hs"
    using length_concat_const [OF assms(2)] assms(1) by (simp add: full_def)
  then show ?thesis using st assms(3) groups_concat [OF assms(1,2)] by (simp add: tree_streams_def)
qed

context hasher begin

theorem endData_accepts:
  assumes "0 < hasher_BYTES H" "2 \<le> length (tth_leaves digest j m)" "concat ws = concat (tth_leaves digest j m)"
    "leaves t = []" "fileSize t = int (length m)" "length m \<le> 2 ^ 62"
  shows "\<exists>st. receive_tree H (TreeOutputStream_new H junk t) ws = Some st \<and>
    endData_tree H (tth digest m) (to_tree st) = Some (True, t\<lparr>leaves := tth_leaves digest j m,
      blockSize := int BASE_BLOCK_SIZE * 2 ^ j, root := tth digest m\<rparr>)"
proof -
  obtain st where st: "receive_tree H (TreeOutputStream_new H junk t) ws = Some st"
      "to_tree st = t\<lparr>leaves := tth_leaves digest j m\<rparr>"
    using received_leaves [OF assms(1) length_tth_leaves assms(3), of junk t] assms(4) by auto
  let ?t = "t\<lparr>leaves := tth_leaves digest j m, blockSize := int BASE_BLOCK_SIZE * 2 ^ j\<rparr>"
  have sp: "spans (int BASE_BLOCK_SIZE * 2 ^ j) (int (length m)) (length (tth_leaves digest j m))"
    by (rule spans_leaves)
  then have "calcRoot H ?t = Some (?t\<lparr>root := tth digest m\<rparr>)"
    using calcRoot_tree_root [of ?t H] root_of_leaves [of digest j m] assms(5) int_le_2_62 [OF assms(6)]
    by (simp add: combine_node BASE_BLOCK_SIZE_def)
  then show ?thesis
    using st load_loop_spans [OF sp assms(2), of 0] assms(5) int_le_2_62 [OF assms(6)] by (simp add: endData_tree_def)
qed

end

text \<open>
  The tree of a file of at most \<open>2 ^ 62\<close> bytes with at least two leaves, sent by a peer in pieces of any size, is
  received with its leaves, gets its block size back and is accepted.
\<close>

theorem tree_download_accepted:
  assumes "2 \<le> length (tth_leaves tiger j m)" "concat ws = concat (tth_leaves tiger j m)"
    "leaves t = []" "fileSize t = int (length m)" "length m \<le> 2 ^ 62"
  shows "\<exists>st. receive_tree (TigerHasher cfg junk) (TreeOutputStream_new (TigerHasher cfg junk) junk' t) ws = Some st \<and>
    endData_tree (TigerHasher cfg junk) (tth tiger m) (to_tree st) = Some (True,
      t\<lparr>leaves := tth_leaves tiger j m, blockSize := int BASE_BLOCK_SIZE * 2 ^ j, root := tth tiger m\<rparr>)"
proof -
  have "0 < hasher_BYTES (TigerHasher cfg junk)" by (simp add: TigerHasher_def BYTES_def)
  from tiger_hasher.endData_accepts [OF this assms] show ?thesis .
qed

theorem tree_download_accepted_witness:
  "\<exists>st. receive_tree (TigerHasher generic_build (\<lambda>_. 0))
      (TreeOutputStream_new (TigerHasher generic_build (\<lambda>_. 0)) (\<lambda>_. 7)
        (MerkleTree_root 1025 1024 []\<lparr>leaves := []\<rparr>))
      [concat (tth_leaves tiger 0 (replicate 1025 0))] = Some st \<and>
    endData_tree (TigerHasher generic_build (\<lambda>_. 0)) (tth tiger (replicate 1025 0)) (to_tree st) = Some (True,
      MerkleTree_root 1025 1024 []\<lparr>leaves := tth_leaves tiger 0 (replicate 1025 0),
        blockSize := 1024, root := tth tiger (replicate 1025 0)\<rparr>)"
proof -
  let ?t = "MerkleTree_root 1025 1024 []\<lparr>leaves := []\<rparr>"
  have two: "2 \<le> length (tth_leaves tiger 0 (replicate 1025 0))"
    by (simp add: tth_leaves_def block_hashes_def base_blocks_def length_groups BASE_BLOCK_SIZE_def)
  have t: "leaves ?t = []" "fileSize ?t = int (length (replicate 1025 (0 :: u8)))"
    by (simp_all add: MerkleTree_root_def)
  show ?thesis
    using tree_download_accepted [OF two _ t, of "[concat (tth_leaves tiger 0 (replicate 1025 0))]"
        generic_build "\<lambda>_. 0" "\<lambda>_. 7"]
    by (simp add: BASE_BLOCK_SIZE_def)
qed

text \<open>
  A peer that answers with less than one hash for a file that is not empty: \<open>endData\<close> never
  leaves the loop that searches the block size.
\<close>

lemma endData_no_leaves: "leaves t = [] \<Longrightarrow> 0 < fileSize t \<Longrightarrow> endData_tree H r t = None"
  by (simp add: endData_tree_def load_loop_no_leaves)

end
