(* ===== verification/Segments.thy ===== *)
theory Segments
  imports Prelude
begin

text \<open>
  The segments of a download and its list of finished ones
  (\<open>src/client/Segment.h\<close>, and \<open>addSegmentL\<close>, \<open>isFinished\<close>, \<open>isChunkDownloaded\<close>,
  \<open>resetDownloadedL\<close>, \<open>getDoneSegments\<close> and \<open>updateDownloadedBytes\<close> of
  \<open>src/client/QueueItem.cpp\<close>).

  A file position is an \<open>int64_t\<close>; files are far shorter than its range, so positions are
  integers here. \<open>doneSegments\<close> is a \<open>boost::container::flat_set<Segment>\<close>, a vector kept
  sorted by \<open>operator<\<close>: it is the list of its elements, an iterator is an index, and
  \<open>set_insert\<close> is its \<open>insert\<close>, which leaves the set alone when an equivalent element is
  there and returns the place of the element either way.
\<close>

section \<open>Segments\<close>

record Segment =
  seg_start :: int
  seg_size :: int
  overlapped :: bool

definition mk_segment :: "int \<Rightarrow> int \<Rightarrow> Segment" where
  "mk_segment s n = \<lparr>seg_start = s, seg_size = n, overlapped = False\<rparr>"

definition default_segment :: Segment where
  "default_segment = mk_segment 0 (- 1)"

definition getEnd :: "Segment \<Rightarrow> int" where
  "getEnd s = seg_start s + seg_size s"

definition seg_setSize :: "Segment \<Rightarrow> int \<Rightarrow> Segment" where
  "seg_setSize s n = s\<lparr>seg_size := n\<rparr>"

definition seg_overlaps :: "Segment \<Rightarrow> Segment \<Rightarrow> bool" where
  "seg_overlaps a b \<longleftrightarrow> seg_start a < getEnd b \<and> seg_start b < getEnd a"

definition seg_less :: "Segment \<Rightarrow> Segment \<Rightarrow> bool" where
  "seg_less a b \<longleftrightarrow> seg_start a < seg_start b \<or>
     (seg_start a = seg_start b \<and> seg_size a < seg_size b)"

definition seg_equal :: "Segment \<Rightarrow> Segment \<Rightarrow> bool" where
  "seg_equal a b \<longleftrightarrow> seg_start a = seg_start b \<and> seg_size a = seg_size b"

definition seg_contains :: "Segment \<Rightarrow> Segment \<Rightarrow> bool" where
  "seg_contains a b \<longleftrightarrow> seg_start a \<le> seg_start b \<and> getEnd a = getEnd b"

section \<open>The set of finished segments\<close>

fun set_insert :: "Segment \<Rightarrow> Segment list \<Rightarrow> Segment list \<times> nat" where
  "set_insert s [] = ([s], 0)"
| "set_insert s (x # xs) =
     (if seg_less x s then (let (ys, i) = set_insert s xs in (x # ys, Suc i))
      else if seg_less s x then (s # x # xs, 0)
      else (x # xs, 0))"

definition list_erase :: "nat \<Rightarrow> 'a list \<Rightarrow> 'a list" where
  "list_erase i xs = take i xs @ drop (Suc i) xs"

definition big_segment :: "Segment \<Rightarrow> Segment \<Rightarrow> Segment" where
  "big_segment prev current =
     (let bigEnd = max (getEnd current) (getEnd prev)
      in mk_segment (seg_start prev) (bigEnd - seg_start prev))"

text \<open>
  The loop of \<open>addSegmentL\<close>; \<open>p\<close> is the place of \<open>prev\<close>, so \<open>current\<close> is at \<open>Suc p\<close>.
\<close>

lemma length_set_insert: "length (fst (set_insert s xs)) \<le> Suc (length xs)"
  by (induction xs) (auto split: prod.splits)

lemma length_list_erase: "i < length xs \<Longrightarrow> length (list_erase i xs) = length xs - 1"
  by (simp add: list_erase_def)

function consolidate :: "Segment list \<Rightarrow> nat \<Rightarrow> int \<Rightarrow> Segment list \<times> int" where
  "consolidate segs p sum0 =
     (if Suc p < length segs then
        let prev = segs ! p; current = segs ! Suc p in
        if getEnd prev \<ge> seg_start current then
          let big = big_segment prev current;
              removedSize = seg_size prev + seg_size current;
              ins = set_insert big (list_erase p (list_erase (Suc p) segs))
          in consolidate (fst ins) (snd ins) (sum0 - removedSize + seg_size big)
        else consolidate segs (Suc p) sum0
      else (segs, sum0))"
  by pat_completeness auto

termination consolidate
proof (relation "measures [\<lambda>(segs, p, _). length segs, \<lambda>(segs, p, _). length segs - p]", goal_cases)
  case 1
  show ?case by simp
next
  case (2 segs p sum0 prev current big removedSize ins)
  have "length (list_erase p (list_erase (Suc p) segs)) = length segs - 2"
    using 2(1) by (simp add: length_list_erase)
  with 2(1) length_set_insert [of big "list_erase p (list_erase (Suc p) segs)"]
  have "length (fst ins) < length segs" unfolding 2(7) by linarith
  then show ?case by simp
next
  case (3 segs p sum0 prev current)
  then show ?case by simp
qed

declare consolidate.simps [simp del]

definition addSegmentL :: "Segment \<Rightarrow> Segment list \<times> int \<Rightarrow> Segment list \<times> int" where
  "addSegmentL segment st =
     (let segs = fst (set_insert segment (fst st));
          sum0 = snd st + seg_size segment
      in if length segs = 1 then (segs, sum0) else consolidate segs 0 sum0)"

definition segs_finished :: "Segment list \<Rightarrow> int \<Rightarrow> bool" where
  "segs_finished segs n \<longleftrightarrow>
     length segs = 1 \<and> seg_start (hd segs) = 0 \<and> seg_size (hd segs) = n"

text \<open>
  \<open>isChunkDownloaded\<close> returns its flag and the length it leaves in \<open>len\<close>.
\<close>

fun chunk_loop :: "Segment list \<Rightarrow> int \<Rightarrow> int \<Rightarrow> bool \<times> int" where
  "chunk_loop [] startPos len = (False, len)"
| "chunk_loop (i # is) startPos len =
     (if seg_start i \<le> startPos \<and> startPos < getEnd i then (True, min len (getEnd i - startPos))
      else chunk_loop is startPos len)"

definition chunk_downloaded :: "Segment list \<Rightarrow> int \<Rightarrow> int \<Rightarrow> bool \<times> int" where
  "chunk_downloaded segs startPos len =
     (if len \<le> 0 then (False, len) else chunk_loop segs startPos len)"

section \<open>The bytes a segment list stands for\<close>

definition bytes_of :: "Segment \<Rightarrow> int set" where
  "bytes_of s = {seg_start s ..< getEnd s}"

definition covered :: "Segment list \<Rightarrow> int set" where
  "covered segs = (\<Union>s \<in> set segs. bytes_of s)"

fun separated :: "Segment list \<Rightarrow> bool" where
  "separated [] \<longleftrightarrow> True"
| "separated [a] \<longleftrightarrow> 0 < seg_size a"
| "separated (a # b # r) \<longleftrightarrow> 0 < seg_size a \<and> getEnd a < seg_start b \<and> separated (b # r)"

fun merge_segs :: "Segment \<Rightarrow> Segment list \<Rightarrow> Segment list" where
  "merge_segs p [] = [p]"
| "merge_segs p (c # r) =
     (if getEnd p \<ge> seg_start c then merge_segs (big_segment p c) r else p # merge_segs c r)"

definition total_size :: "Segment list \<Rightarrow> int" where
  "total_size segs = (\<Sum>s \<leftarrow> segs. seg_size s)"

named_theorems seg_simps \<open>unfolding of the operations on segments\<close>
declare mk_segment_def [seg_simps] getEnd_def [seg_simps] big_segment_def [seg_simps]
  seg_overlaps_def [seg_simps] seg_less_def [seg_simps]

lemma seg_less_trans: "seg_less a b \<Longrightarrow> seg_less b c \<Longrightarrow> seg_less a c"
  by (auto simp: seg_less_def)

lemma big_segment_fields:
  "seg_start (big_segment p c) = seg_start p"
  "getEnd (big_segment p c) = max (getEnd c) (getEnd p)"
  by (simp_all add: seg_simps)

text \<open>Insertion at a known place.\<close>

lemma set_insert_at:
  "\<lbrakk>\<forall>x \<in> set pre. seg_less x s; \<forall>x \<in> set post. seg_less s x\<rbrakk> \<Longrightarrow>
   set_insert s (pre @ post) = (pre @ s # post, length pre)"
proof (induction pre)
  case Nil
  show ?case
  proof (cases post)
    case (Cons x xs)
    with Nil.prems have "seg_less s x" by simp
    moreover from this have "\<not> seg_less x s" by (auto simp: seg_less_def)
    ultimately show ?thesis using Cons by simp
  qed simp
next
  case (Cons x pre)
  then show ?case by simp
qed

lemma list_erase_two:
  "list_erase (length pre) (list_erase (Suc (length pre)) (pre @ p # c # r)) = pre @ r"
  by (simp add: list_erase_def)

lemma sorted_big:
  assumes "sorted_wrt seg_less (pre @ p # c # r)"
  shows "\<forall>x \<in> set pre. seg_less x (big_segment p c)" "\<forall>x \<in> set r. seg_less (big_segment p c) x"
proof -
  have pc: "seg_less p c" using assms by (simp add: sorted_wrt_append)
  have "seg_less x (big_segment p c)" if "x \<in> set pre" for x
  proof -
    have "seg_less x p" using assms that by (simp add: sorted_wrt_append)
    then show ?thesis by (auto simp: seg_simps)
  qed
  then show "\<forall>x \<in> set pre. seg_less x (big_segment p c)" by blast
  have "seg_less (big_segment p c) x" if "x \<in> set r" for x
  proof -
    have "seg_less c x" using assms that by (simp add: sorted_wrt_append)
    with pc show ?thesis by (auto simp: seg_simps)
  qed
  then show "\<forall>x \<in> set r. seg_less (big_segment p c) x" by blast
qed

lemma sorted_merge_step:
  assumes "sorted_wrt seg_less (pre @ p # c # r)"
  shows "sorted_wrt seg_less (pre @ big_segment p c # r)"
  using assms sorted_big [OF assms] by (auto simp: sorted_wrt_append)

text \<open>
  The loop is a merge of the list from left to right, and it changes the sum0 by what
  the list changes.
\<close>

lemma consolidate_merge:
  "sorted_wrt seg_less (pre @ p # rst) \<Longrightarrow>
   consolidate (pre @ p # rst) (length pre) sum0 =
     (pre @ merge_segs p rst, sum0 + total_size (merge_segs p rst) - total_size (p # rst))"
proof (induction rst arbitrary: pre p sum0)
  case Nil
  then show ?case by (simp add: consolidate.simps [of "pre @ [p]"])
next
  case (Cons c r)
  have nths: "(pre @ p # c # r) ! length pre = p" "(pre @ p # c # r) ! Suc (length pre) = c"
    by (simp_all add: nth_append)
  show ?case
  proof (cases "getEnd p \<ge> seg_start c")
    case True
    have ins: "set_insert (big_segment p c) (pre @ r) = (pre @ big_segment p c # r, length pre)"
      using sorted_big [OF Cons.prems] by (rule set_insert_at)
    show ?thesis
      using True Cons.IH [OF sorted_merge_step [OF Cons.prems]]
      by (simp add: consolidate.simps [of "pre @ p # c # r"] nths Let_def list_erase_two ins
          total_size_def)
  next
    case False
    have "sorted_wrt seg_less ((pre @ [p]) @ c # r)" using Cons.prems by simp
    from Cons.IH [OF this, of sum0] show ?thesis
      using False
      by (simp add: consolidate.simps [of "pre @ p # c # r"] nths Let_def total_size_def)
  qed
qed

section \<open>Separated lists\<close>

lemma separated_iff:
  "separated segs \<longleftrightarrow>
     sorted_wrt (\<lambda>a b. getEnd a < seg_start b) segs \<and> (\<forall>s \<in> set segs. 0 < seg_size s)"
proof (induction segs rule: separated.induct)
  case (3 a b r)
  have "getEnd a < seg_start x"
    if "getEnd a < seg_start b" "0 < seg_size b" "getEnd b < seg_start x" for x
    using that by (simp add: getEnd_def)
  with 3 show ?case by auto
qed simp_all

lemma separated_sorted: "separated segs \<Longrightarrow> sorted_wrt seg_less segs"
proof -
  assume "separated segs"
  then have s: "sorted_wrt (\<lambda>a b. getEnd a < seg_start b) segs" and p: "\<forall>s \<in> set segs. 0 < seg_size s"
    by (simp_all add: separated_iff)
  show ?thesis
    using s by (rule sorted_wrt_mono_rel [rotated]) (use p in \<open>auto simp: getEnd_def seg_less_def\<close>)
qed

lemma covered_simps [simp]:
  "covered [] = {}"
  "covered (a # r) = bytes_of a \<union> covered r"
  "covered (xs @ ys) = covered xs \<union> covered ys"
  by (simp_all add: covered_def)

lemma total_size_simps [simp]:
  "total_size [] = 0"
  "total_size (a # r) = seg_size a + total_size r"
  by (simp_all add: total_size_def)

lemma finite_covered: "finite (covered segs)"
  by (simp add: covered_def bytes_of_def)

lemma covered_above: "separated (a # r) \<Longrightarrow> x \<in> covered r \<Longrightarrow> getEnd a < x"
  by (fastforce simp: separated_iff covered_def bytes_of_def)

lemma separated_tl: "separated (a # r) \<Longrightarrow> separated r"
  by (cases r) auto

text \<open>In a separated list no byte is counted twice.\<close>

lemma card_covered: "separated segs \<Longrightarrow> int (card (covered segs)) = total_size segs"
proof (induction segs)
  case (Cons a r)
  have "bytes_of a \<inter> covered r = {}"
    using covered_above [OF Cons.prems] by (fastforce simp: bytes_of_def)
  moreover have "finite (bytes_of a)" "int (card (bytes_of a)) = seg_size a"
    using Cons.prems by (simp_all add: bytes_of_def getEnd_def separated_iff)
  ultimately show ?case
    using Cons.IH [OF separated_tl [OF Cons.prems]] by (simp add: card_Un_disjoint finite_covered)
qed simp

section \<open>What the merge does\<close>

lemma merge_segs_hd: "merge_segs p rst \<noteq> [] \<and> seg_start (hd (merge_segs p rst)) = seg_start p"
  by (induction p rst rule: merge_segs.induct) (simp_all add: big_segment_fields)

lemma bytes_of_big:
  "\<lbrakk>seg_start p \<le> seg_start c; seg_start c \<le> getEnd p\<rbrakk> \<Longrightarrow>
   bytes_of (big_segment p c) = bytes_of p \<union> bytes_of c"
  by (auto simp: bytes_of_def big_segment_fields)

lemma sorted_merge_tl: "sorted_wrt seg_less (p # c # r) \<Longrightarrow> sorted_wrt seg_less (big_segment p c # r)"
  using sorted_merge_step [of "[]"] by simp

lemma merge_segs_covered:
  "sorted_wrt seg_less (p # rst) \<Longrightarrow> covered (merge_segs p rst) = covered (p # rst)"
proof (induction p rst rule: merge_segs.induct)
  case (2 p c r)
  show ?case
  proof (cases "getEnd p \<ge> seg_start c")
    case True
    have "seg_start p \<le> seg_start c" using 2(3) by (auto simp: seg_less_def)
    with True 2(1) [OF True sorted_merge_tl [OF 2(3)]] show ?thesis
      by (simp add: bytes_of_big Un_assoc)
  next
    case False
    with 2(2) [OF False] 2(3) show ?thesis by simp
  qed
qed simp

lemma merge_segs_separated:
  "\<lbrakk>sorted_wrt seg_less (p # rst); \<forall>s \<in> set (p # rst). 0 < seg_size s\<rbrakk> \<Longrightarrow>
   separated (merge_segs p rst)"
proof (induction p rst rule: merge_segs.induct)
  case (2 p c r)
  show ?case
  proof (cases "getEnd p \<ge> seg_start c")
    case True
    have "0 < seg_size (big_segment p c)"
      using 2(4) by (simp add: seg_simps less_max_iff_disj)
    with True 2(1) [OF True sorted_merge_tl [OF 2(3)]] 2(4) show ?thesis by simp
  next
    case False
    then have sep: "separated (merge_segs c r)" using 2(2) 2(3,4) by simp
    moreover obtain h t where "merge_segs c r = h # t" "seg_start h = seg_start c"
      using merge_segs_hd [of c r] by (cases "merge_segs c r") auto
    ultimately show ?thesis using False 2(4) by simp
  qed
qed simp

section \<open>Adding a segment\<close>

text \<open>Insertion either finds an equal segment or makes room at the place it belongs.\<close>

lemma set_insert_cases:
  assumes "sorted_wrt seg_less segs"
  obtains (present) x where "x \<in> set segs" "seg_equal x s" "fst (set_insert s segs) = segs"
  | (fresh) pre post where "segs = pre @ post" "fst (set_insert s segs) = pre @ s # post"
      "sorted_wrt seg_less (pre @ s # post)" "\<forall>x \<in> set segs. \<not> seg_equal x s"
proof -
  define pre post where "pre = takeWhile (\<lambda>x. seg_less x s) segs"
    and "post = dropWhile (\<lambda>x. seg_less x s) segs"
  have segs: "segs = pre @ post" by (simp add: pre_def post_def)
  have pre: "\<forall>x \<in> set pre. seg_less x s" by (auto simp: pre_def dest: set_takeWhileD)
  have sorted: "sorted_wrt seg_less pre" "sorted_wrt seg_less post"
    "\<forall>x \<in> set pre. \<forall>y \<in> set post. seg_less x y"
    using assms by (simp_all add: segs sorted_wrt_append)
  have at: "set_insert s (pre @ post) = (pre @ fst (set_insert s post), length pre + snd (set_insert s post))"
    using pre by (induction pre) (simp_all add: case_prod_beta Let_def)
  have fresh_case: thesis if post_above: "\<forall>x \<in> set post. seg_less s x"
  proof (rule fresh [OF segs])
    show "fst (set_insert s segs) = pre @ s # post"
      unfolding segs by (simp add: set_insert_at [OF pre post_above])
    show "sorted_wrt seg_less (pre @ s # post)"
      using sorted pre post_above by (simp add: sorted_wrt_append)
    have "seg_less x s \<or> seg_less s x" if "x \<in> set segs" for x
      using that pre post_above by (auto simp: segs)
    then show "\<forall>x \<in> set segs. \<not> seg_equal x s"
      by (fastforce simp: seg_equal_def seg_less_def)
  qed
  show thesis
  proof (cases post)
    case Nil
    with fresh_case show ?thesis by simp
  next
    case (Cons y ys)
    then have ny: "\<not> seg_less y s" using hd_dropWhile [of "\<lambda>x. seg_less x s" segs] by (simp add: post_def)
    show ?thesis
    proof (cases "seg_less s y")
      case True
      moreover have "\<forall>x \<in> set ys. seg_less s x"
        using sorted(2) True seg_less_trans by (auto simp: Cons)
      ultimately show ?thesis using fresh_case by (simp add: Cons)
    next
      case False
      have "seg_equal y s" using ny False by (auto simp: seg_equal_def seg_less_def)
      moreover have "fst (set_insert s segs) = segs"
        using at ny False by (simp add: segs Cons)
      ultimately show ?thesis using present [of y] by (simp add: segs Cons)
    qed
  qed
qed

lemma merge_segs_id: "separated (p # r) \<Longrightarrow> merge_segs p r = p # r"
  by (induction p r rule: merge_segs.induct) auto

lemma consolidate_from_start:
  "sorted_wrt seg_less (p # r) \<Longrightarrow>
   consolidate (p # r) 0 sum0 =
     (merge_segs p r, sum0 + total_size (merge_segs p r) - total_size (p # r))"
  using consolidate_merge [of "[]" p r sum0] by simp

lemma total_size_append [simp]: "total_size (xs @ ys) = total_size xs + total_size ys"
  by (simp add: total_size_def)

text \<open>A segment that is there already changes the total only.\<close>

lemma addSegmentL_present:
  assumes "separated segs" "x \<in> set segs" "seg_equal x s"
  shows "addSegmentL s (segs, sum0) = (segs, sum0 + seg_size s)"
proof -
  obtain p r where segs: "segs = p # r" using assms(2) by (cases segs) auto
  have ins: "fst (set_insert s segs) = segs"
    using separated_sorted [OF assms(1)] assms(2,3) by (cases rule: set_insert_cases [of segs s]) auto
  have "consolidate segs 0 (sum0 + seg_size s) = (segs, sum0 + seg_size s)"
    using consolidate_from_start [of p r] separated_sorted [OF assms(1)] merge_segs_id [of p r] assms(1)
    by (simp add: segs)
  then show ?thesis by (simp add: addSegmentL_def Let_def ins)
qed

lemma addSegmentL_fresh:
  assumes "segs = pre @ post" "fst (set_insert s segs) = pre @ s # post"
    "sorted_wrt seg_less (pre @ s # post)" "pre @ s # post = p # r"
  shows "addSegmentL s (segs, sum0) =
    (merge_segs p r, sum0 + total_size (merge_segs p r) - total_size segs)"
proof -
  have tot: "total_size (p # r) = total_size segs + seg_size s"
    using assms(1) by (simp flip: assms(4))
  show ?thesis
  proof (cases r)
    case Nil
    then show ?thesis using assms(2,4) tot by (simp add: addSegmentL_def)
  next
    case (Cons c r')
    then show ?thesis
      using consolidate_from_start [of p r] assms(2,3) tot
      by (simp add: addSegmentL_def assms(4))
  qed
qed

lemma addSegmentL_run:
  assumes sep: "separated segs" and pos: "0 < seg_size s"
    and run: "addSegmentL s (segs, sum0) = (segs', sum1)"
  shows "separated segs'" "covered segs' = covered segs \<union> bytes_of s"
    "sum1 - total_size segs' = sum0 - total_size segs +
       (if \<exists>x \<in> set segs. seg_equal x s then seg_size s else 0)"
proof -
  have "separated segs' \<and> covered segs' = covered segs \<union> bytes_of s \<and>
    sum1 - total_size segs' = sum0 - total_size segs +
       (if \<exists>x \<in> set segs. seg_equal x s then seg_size s else 0)"
    using separated_sorted [OF sep]
  proof (cases rule: set_insert_cases [of segs s])
    case (present x)
    have "bytes_of s = bytes_of x"
      using present(2) by (simp add: bytes_of_def getEnd_def seg_equal_def)
    then have "covered segs = covered segs \<union> bytes_of s"
      using present(1) by (auto simp: covered_def)
    moreover have "\<exists>x \<in> set segs. seg_equal x s" using present by blast
    ultimately show ?thesis
      using run addSegmentL_present [OF sep present(1,2), of sum0] sep by simp
  next
    case (fresh pre post)
    obtain p r where pr: "pre @ s # post = p # r" by (cases pre) auto
    have r: "segs' = merge_segs p r" "sum1 = sum0 + total_size (merge_segs p r) - total_size segs"
      using run unfolding addSegmentL_fresh [OF fresh(1-3) pr, of sum0] by auto
    have srt: "sorted_wrt seg_less (p # r)" using fresh(3) pr by simp
    have "\<forall>x \<in> set (pre @ s # post). 0 < seg_size x"
      using sep pos by (auto simp: separated_iff fresh(1))
    then have "separated segs'" unfolding r pr by (rule merge_segs_separated [OF srt])
    moreover have "covered segs' = covered (pre @ s # post)"
      unfolding r pr by (rule merge_segs_covered [OF srt])
    moreover have "\<not> (\<exists>x \<in> set segs. seg_equal x s)" using fresh(4) by blast
    ultimately show ?thesis using r by (auto simp: fresh(1))
  qed
  then show "separated segs'" "covered segs' = covered segs \<union> bytes_of s"
    "sum1 - total_size segs' = sum0 - total_size segs +
       (if \<exists>x \<in> set segs. seg_equal x s then seg_size s else 0)" by blast+
qed

section \<open>A finished file\<close>

lemma segs_finished_iff:
  assumes "separated segs" "0 < n"
  shows "segs_finished segs n \<longleftrightarrow> covered segs = {0 ..< n}"
proof
  assume "segs_finished segs n"
  then show "covered segs = {0 ..< n}"
    by (cases segs) (auto simp: segs_finished_def bytes_of_def getEnd_def)
next
  assume cov: "covered segs = {0 ..< n}"
  with assms(2) obtain a r where segs: "segs = a # r" by (cases segs) auto
  have above: "x \<in> covered r \<Longrightarrow> getEnd a < x" for x
    using covered_above assms(1) by (simp add: segs)
  have a: "0 < seg_size a" using assms(1) by (simp add: segs separated_iff)
  have "seg_start a \<in> covered segs" using a by (simp add: segs bytes_of_def getEnd_def)
  then have a0: "0 \<le> seg_start a" using cov by simp
  have "0 \<in> covered segs" using cov assms(2) by simp
  then have z: "seg_start a = 0"
    using a a0 above [of 0] by (auto simp: segs bytes_of_def getEnd_def)
  have r: "r = []"
  proof (cases r)
    case (Cons b r')
    have b: "getEnd a < seg_start b" "0 < seg_size b"
      using assms(1) by (simp_all add: segs Cons separated_iff)
    have "seg_start b \<in> covered segs" using b by (simp add: segs Cons bytes_of_def getEnd_def)
    then have "getEnd a \<in> covered segs" using b a z cov by (simp add: getEnd_def)
    then have False using above [of "getEnd a"] by (auto simp: segs bytes_of_def)
    then show ?thesis ..
  qed simp
  have "{0 ..< getEnd a} = {0 ..< n}" using cov z by (simp add: segs r bytes_of_def)
  then have "getEnd a = n" using assms(2) by (metis atLeastLessThan_eq_iff atLeastLessThan_empty_iff not_le)
  then show "segs_finished segs n" using z by (simp add: segs_finished_def segs r getEnd_def)
qed

section \<open>The ledger of finished bytes\<close>

text \<open>
  What the queue relies on: the state stands for a set of bytes, and recording an item
  adds the bytes of the item and nothing else.
\<close>

locale byte_ledger =
  fixes add :: "'item \<Rightarrow> 'st \<Rightarrow> 'st"
    and item_ok :: "'item \<Rightarrow> bool"
    and item_bytes :: "'item \<Rightarrow> int set"
    and ok :: "'st \<Rightarrow> bool"
    and content :: "'st \<Rightarrow> int set"
  assumes add_ok: "\<lbrakk>ok st; item_ok i\<rbrakk> \<Longrightarrow> ok (add i st)"
    and add_content: "\<lbrakk>ok st; item_ok i\<rbrakk> \<Longrightarrow> content (add i st) = content st \<union> item_bytes i"
begin

lemma add_many:
  "\<lbrakk>ok st; \<forall>i \<in> set items. item_ok i\<rbrakk> \<Longrightarrow>
   ok (fold add items st) \<and> content (fold add items st) = content st \<union> (\<Union>i \<in> set items. item_bytes i)"
  by (induction items arbitrary: st) (auto simp: add_ok add_content)

end

lemma addSegmentL_separated: "separated (fst st) \<Longrightarrow> 0 < seg_size s \<Longrightarrow> separated (fst (addSegmentL s st))"
  using addSegmentL_run(1) [of "fst st" s "snd st" "fst (addSegmentL s st)" "snd (addSegmentL s st)"] by simp

lemma addSegmentL_covered:
  "separated (fst st) \<Longrightarrow> 0 < seg_size s \<Longrightarrow> covered (fst (addSegmentL s st)) = covered (fst st) \<union> bytes_of s"
  using addSegmentL_run(2) [of "fst st" s "snd st" "fst (addSegmentL s st)" "snd (addSegmentL s st)"] by simp

interpretation done_segments: byte_ledger addSegmentL "\<lambda>s. 0 < seg_size s" bytes_of
    "\<lambda>st. separated (fst st)" "\<lambda>st. covered (fst st)"
  by unfold_locales (rule addSegmentL_separated addSegmentL_covered; assumption)+

text \<open>
  Recording a finished segment (\<open>QueueItem::addSegmentL\<close>). When the done segments are
  non-empty, sorted and separated by gaps, they are so again afterwards; they stand for
  the bytes they stood for before together with those of the new segment; and when the
  new segment is not equal to one that is there and \<open>doneSegmentsSize\<close> was the number of
  finished bytes, it is so again.
\<close>

theorem addSegmentL_correct:
  assumes "separated segs" "0 < seg_size s"
    and "addSegmentL s (segs, int (card (covered segs))) = (segs', n)"
  shows "separated segs' \<and> covered segs' = covered segs \<union> bytes_of s \<and>
    ((\<forall>x \<in> set segs. \<not> seg_equal x s) \<longrightarrow> n = int (card (covered segs')))"
proof -
  note r = addSegmentL_run [OF assms]
  have "n = int (card (covered segs'))" if "\<forall>x \<in> set segs. \<not> seg_equal x s"
  proof -
    from that have "\<not> (\<exists>x \<in> set segs. seg_equal x s)" by blast
    then show ?thesis using r(3) card_covered [OF assms(1)] card_covered [OF r(1)] by simp
  qed
  with r(1,2) show ?thesis by blast
qed

theorem addSegmentL_correct_witness:
  "let segs = [mk_segment 0 10, mk_segment 20 5, mk_segment 30 10]; s = mk_segment 8 14 in
   separated segs \<and> 0 < seg_size s \<and>
   addSegmentL s (segs, int (card (covered segs))) = ([mk_segment 0 25, mk_segment 30 10], 35) \<and>
   covered [mk_segment 0 25, mk_segment 30 10] = covered segs \<union> bytes_of s \<and>
   (35 :: int) = int (card (covered [mk_segment 0 25, mk_segment 30 10]))"
proof -
  let ?segs = "[mk_segment 0 10, mk_segment 20 5, mk_segment 30 10]"
  let ?s = "mk_segment 8 14"
  have sep: "separated ?segs" and pos: "0 < seg_size ?s" by (simp_all add: seg_simps)
  have card: "int (card (covered ?segs)) = 25"
    using card_covered [OF sep] by (simp add: seg_simps)
  have run: "addSegmentL ?s (?segs, int (card (covered ?segs))) =
      ([mk_segment 0 25, mk_segment 30 10], 35)"
    unfolding card by code_simp
  have ne: "\<forall>x \<in> set ?segs. \<not> seg_equal x ?s" by (simp add: seg_equal_def seg_simps)
  show ?thesis
    using addSegmentL_correct [OF sep pos run] sep pos run ne unfolding Let_def by blast
qed

text \<open>
  C7: The order in which the segments of a file are finished does not matter
  (\<open>addSegmentL\<close>, \<open>isFinished\<close>): after any sequence of non-empty segments has been
  recorded from an empty list, with overlaps and repetitions, the file is finished exactly
  when the segments together cover the bytes \<open>0\<close> to \<open>n - 1\<close> and nothing else.
\<close>

theorem done_segments_finished:
  assumes "\<forall>s \<in> set segs. 0 < seg_size s" "0 < n"
  shows "segs_finished (fst (fold addSegmentL segs ([], 0))) n \<longleftrightarrow>
    (\<Union>s \<in> set segs. bytes_of s) = {0 ..< n}"
  using done_segments.add_many [of "([], 0)" segs] assms by (simp add: segs_finished_iff)

theorem done_segments_finished_witness:
  "let segs = [mk_segment 20 10, mk_segment 0 10, mk_segment 5 10, mk_segment 15 5] in
   (\<forall>s \<in> set segs. 0 < seg_size s) \<and>
   (segs_finished (fst (fold addSegmentL segs ([], 0))) 30 \<longleftrightarrow>
     (\<Union>s \<in> set segs. bytes_of s) = {0 ..< 30}) \<and>
   segs_finished (fst (fold addSegmentL segs ([], 0))) 30"
proof -
  let ?segs = "[mk_segment 20 10, mk_segment 0 10, mk_segment 5 10, mk_segment 15 5]"
  have pos: "\<forall>s \<in> set ?segs. 0 < seg_size s" by (simp add: seg_simps)
  have fin: "segs_finished (fst (fold addSegmentL ?segs ([], 0))) 30" by code_simp
  have n: "0 < (30 :: int)" by simp
  show ?thesis using done_segments_finished [OF pos n] pos fin unfolding Let_def by blast
qed

section \<open>Is a chunk there?\<close>

lemma chunk_loop_hit:
  assumes "separated segs" "0 < len"
  shows "chunk_loop segs startPos len = (b, len') \<Longrightarrow>
    (b \<longleftrightarrow> startPos \<in> covered segs) \<and> (\<not> b \<longrightarrow> len' = len) \<and>
    (b \<longrightarrow> 0 < len' \<and> len' \<le> len \<and> {startPos ..< startPos + len'} \<subseteq> covered segs \<and>
       (len' < len \<longrightarrow> startPos + len' \<notin> covered segs))"
  using assms
proof (induction segs)
  case (Cons i r)
  note above = covered_above [OF Cons.prems(2)]
  have sz: "0 < seg_size i" using Cons.prems(2) by (simp add: separated_iff)
  show ?case
  proof (cases "seg_start i \<le> startPos \<and> startPos < getEnd i")
    case True
    then have b: "b" and l: "len' = min len (getEnd i - startPos)" using Cons.prems(1) by auto
    have "startPos + len' \<notin> covered (i # r)" if "len' < len"
    proof -
      have "startPos + len' = getEnd i" using that l by auto
      then show ?thesis using above [of "getEnd i"] by (auto simp: bytes_of_def)
    qed
    moreover have "{startPos ..< startPos + len'} \<subseteq> bytes_of i"
      using True l by (auto simp: bytes_of_def)
    ultimately show ?thesis using True b l Cons.prems(3) by (auto simp: bytes_of_def)
  next
    case False
    have run: "chunk_loop r startPos len = (b, len')"
      using Cons.prems(1) unfolding chunk_loop.simps if_not_P [OF False] .
    have IH: "(b \<longleftrightarrow> startPos \<in> covered r) \<and> (\<not> b \<longrightarrow> len' = len) \<and>
      (b \<longrightarrow> 0 < len' \<and> len' \<le> len \<and> {startPos ..< startPos + len'} \<subseteq> covered r \<and>
       (len' < len \<longrightarrow> startPos + len' \<notin> covered r))"
      by (rule Cons.IH [OF run separated_tl [OF Cons.prems(2)] Cons.prems(3)])
    have ni: "startPos \<notin> bytes_of i" using False by (simp add: bytes_of_def)
    have "startPos + len' \<notin> bytes_of i" if b
    proof -
      have "getEnd i < startPos" "0 < len'" using IH that above by blast+
      then show ?thesis by (simp add: bytes_of_def)
    qed
    then show ?thesis using IH ni by auto
  qed
qed simp

text \<open>
  Reading a file that is still being downloaded (\<open>QueueItem::isChunkDownloaded\<close>): for a
  positive length the answer is true exactly when the first byte is finished, and then the
  length left in \<open>len\<close> is the longest finished run from there, cut to the one asked for. A
  length that is not positive gives false and is left as it is.
\<close>

theorem chunk_downloaded_correct:
  assumes "separated segs" "chunk_downloaded segs startPos len = (b, len')"
  shows "(b \<longleftrightarrow> 0 < len \<and> startPos \<in> covered segs) \<and> (\<not> b \<longrightarrow> len' = len) \<and>
    (b \<longrightarrow> 0 < len' \<and> len' \<le> len \<and> {startPos ..< startPos + len'} \<subseteq> covered segs \<and>
       (len' < len \<longrightarrow> startPos + len' \<notin> covered segs))"
proof (cases "len \<le> 0")
  case True
  then show ?thesis using assms(2) by (auto simp: chunk_downloaded_def)
next
  case False
  then show ?thesis
    using chunk_loop_hit [OF assms(1), of len startPos b len'] assms(2)
    by (simp add: chunk_downloaded_def)
qed

theorem chunk_downloaded_correct_witness:
  "let segs = [mk_segment 0 10, mk_segment 20 5] in
   separated segs \<and> chunk_downloaded segs 4 100 = (True, 6) \<and>
   {4 ..< 4 + 6} \<subseteq> covered segs \<and> 4 + 6 \<notin> covered segs"
proof -
  let ?segs = "[mk_segment 0 10, mk_segment 20 5]"
  have sep: "separated ?segs" by (simp add: seg_simps)
  have run: "chunk_downloaded ?segs 4 100 = (True, 6)" by code_simp
  show ?thesis using chunk_downloaded_correct [OF sep run] sep run by simp
qed

end
