(* ===== verification/QueueSegments.thy ===== *)
theory QueueSegments
  imports Segments
begin

text \<open>
  The segments of a queue item: which are running, and which is asked for next
  (\<open>src/client/QueueItem.cpp\<close>, \<open>src/client/QueueItem.h\<close>, \<open>src/client/Util.h\<close>).

  \<open>Download\<close> objects are shared by pointer and changed by the transfer that owns them: a
  pointer is a number, and the operations that follow it take the store of the objects.
  The scan loops are partial functions with value \<open>None\<close> where the code does not return or
  reads past the end of \<open>posArray\<close>. The floating point formula for the wanted size of a
  segment is the argument \<open>target\<close> of \<open>getNextSegmentL\<close> (of \<open>wantedSize\<close>,
  \<open>doneSegmentsSize\<close> and the file size), and the random number drawn for a partial source is
  the argument \<open>rnd\<close>; the theorems hold for every \<open>target\<close> and \<open>rnd\<close>.
\<close>

section \<open>State\<close>

datatype seg_error =
    SUCCESS | ERROR_NO_ITEM | ERROR_NO_NEEDED_PART | ERROR_FILE_SLOTS_TAKEN
  | ERROR_DOWNLOAD_SLOTS_TAKEN | ERROR_NO_FREE_BLOCK | ERROR_INVALID_CONNECTION

record Download =
  getUser :: nat
  getSegment :: Segment
  getPos :: int
  getRunningAverage :: int
  getStartTime :: nat

type_synonym downloads_store = "nat \<Rightarrow> Download"

record RunningSegment =
  seg :: Segment
  rs_d :: "nat option"

record QueueItem =
  qi_size :: int
  blockSize :: int
  wantEnd :: bool
  maxSegments :: u8
  downloads :: "RunningSegment list"
  doneSegments :: "Segment list"
  doneSegmentsSize :: int
  downloadedBytes :: int
  averageSpeed :: int

record GetSegmentParams =
  wantedSize :: int
  enableMultiChunk :: bool
  dontBeginSegment :: bool
  dontBeginSegSpeed :: int
  maxChunkSize :: int

record PartialSource =
  ps_parts :: "u16 list"
  ps_blockSize :: int

section \<open>Finished and running segments\<close>

definition resetDownloadedL :: "QueueItem \<Rightarrow> QueueItem" where
  "resetDownloadedL q = q\<lparr>doneSegments := [], doneSegmentsSize := 0, downloadedBytes := 0\<rparr>"

definition isFinished :: "QueueItem \<Rightarrow> bool" where
  "isFinished q = segs_finished (doneSegments q) (qi_size q)"

definition isChunkDownloaded :: "QueueItem \<Rightarrow> int \<Rightarrow> int \<Rightarrow> bool \<times> int" where
  "isChunkDownloaded q startPos len = chunk_downloaded (doneSegments q) startPos len"

definition addSegment :: "Segment \<Rightarrow> QueueItem \<Rightarrow> QueueItem" where
  "addSegment segment q =
     (let (segs, n) = addSegmentL segment (doneSegments q, doneSegmentsSize q)
      in q\<lparr>doneSegments := segs, doneSegmentsSize := n\<rparr>)"

definition addDownload :: "downloads_store \<Rightarrow> nat \<Rightarrow> QueueItem \<Rightarrow> QueueItem" where
  "addDownload st d q =
     q\<lparr>downloads := downloads q @ [\<lparr>seg = getSegment (st d), rs_d = Some d\<rparr>]\<rparr>"

definition addDownload_seg :: "Segment \<Rightarrow> QueueItem \<Rightarrow> QueueItem" where
  "addDownload_seg s q = q\<lparr>downloads := downloads q @ [\<lparr>seg = s, rs_d = None\<rparr>]\<rparr>"

fun set_download :: "Segment \<Rightarrow> nat \<Rightarrow> RunningSegment list \<Rightarrow> bool \<times> RunningSegment list" where
  "set_download s d [] = (False, [])"
| "set_download s d (i # is) =
     (if seg_equal (seg i) s then (True, i\<lparr>rs_d := Some d\<rparr> # is)
      else (let (b, js) = set_download s d is in (b, i # js)))"

definition setDownloadForSegment :: "Segment \<Rightarrow> nat \<Rightarrow> QueueItem \<Rightarrow> bool \<times> QueueItem" where
  "setDownloadForSegment s d q =
     (let (b, ds) = set_download s d (downloads q) in (b, q\<lparr>downloads := ds\<rparr>))"

fun erase_first :: "('a \<Rightarrow> bool) \<Rightarrow> 'a list \<Rightarrow> bool \<times> 'a list" where
  "erase_first f [] = (False, [])"
| "erase_first f (i # is) =
     (if f i then (True, is) else (let (b, js) = erase_first f is in (b, i # js)))"

definition removeDownload_user :: "downloads_store \<Rightarrow> nat \<Rightarrow> QueueItem \<Rightarrow> bool \<times> QueueItem" where
  "removeDownload_user st user q =
     (let (b, ds) = erase_first
        (\<lambda>i. case rs_d i of None \<Rightarrow> False | Some d \<Rightarrow> getUser (st d) = user) (downloads q)
      in (b, q\<lparr>downloads := ds\<rparr>))"

definition removeDownload_seg :: "Segment \<Rightarrow> QueueItem \<Rightarrow> bool \<times> QueueItem" where
  "removeDownload_seg s q =
     (let (b, ds) = erase_first (\<lambda>i. seg_equal (seg i) s) (downloads q)
      in (b, q\<lparr>downloads := ds\<rparr>))"

fun speed_loop :: "downloads_store \<Rightarrow> RunningSegment list \<Rightarrow> int \<Rightarrow> int \<Rightarrow> int \<times> int" where
  "speed_loop st [] n totalSpeed = (n, totalSpeed)"
| "speed_loop st (i # is) n totalSpeed =
     (case rs_d i of
        None \<Rightarrow> speed_loop st is n totalSpeed
      | Some d \<Rightarrow> speed_loop st is (n + getPos (st d)) (totalSpeed + getRunningAverage (st d)))"

definition updateDownloadedBytesAndSpeed :: "downloads_store \<Rightarrow> QueueItem \<Rightarrow> QueueItem" where
  "updateDownloadedBytesAndSpeed st q =
     (let (n, s) = speed_loop st (downloads q) (doneSegmentsSize q) 0
      in q\<lparr>downloadedBytes := n, averageSpeed := s\<rparr>)"

definition updateDownloadedBytes :: "QueueItem \<Rightarrow> QueueItem" where
  "updateDownloadedBytes q = q\<lparr>downloadedBytes := doneSegmentsSize q\<rparr>"

fun multiple_loop :: "downloads_store \<Rightarrow> RunningSegment list \<Rightarrow> nat \<Rightarrow> bool" where
  "multiple_loop st [] activeSegments = False"
| "multiple_loop st (i # is) activeSegments =
     (case rs_d i of
        None \<Rightarrow> multiple_loop st is activeSegments
      | Some d \<Rightarrow>
          if getStartTime (st d) > 0
          then if activeSegments + 1 > 1 then True else multiple_loop st is (activeSegments + 1)
          else multiple_loop st is activeSegments)"

definition isMultipleSegments :: "downloads_store \<Rightarrow> QueueItem \<Rightarrow> bool" where
  "isMultipleSegments st q = multiple_loop st (downloads q) 0"

definition getUsers :: "downloads_store \<Rightarrow> QueueItem \<Rightarrow> nat list" where
  "getUsers st q =
     List.map_filter (\<lambda>i. map_option (\<lambda>d. getUser (st d)) (rs_d i)) (downloads q)"

definition getChunksVisualisation ::
  "downloads_store \<Rightarrow> QueueItem \<Rightarrow> (int \<times> int \<times> int) list \<times> Segment list" where
  "getChunksVisualisation st q =
     (map (\<lambda>i. (seg_start (seg i), getEnd (seg i),
            case rs_d i of Some d \<Rightarrow> getPos (st d) | None \<Rightarrow> 0)) (downloads q),
      doneSegments q)"

definition updateBlockSize :: "int \<Rightarrow> QueueItem \<Rightarrow> bool \<times> QueueItem" where
  "updateBlockSize treeBlockSize q =
     (if treeBlockSize > blockSize q then (True, q\<lparr>blockSize := treeBlockSize\<rparr>) else (False, q))"

section \<open>The next segment\<close>

text \<open>
  \<open>Util::roundDown\<close> adds half a block first, so it rounds to the nearest multiple.
\<close>

definition roundDown :: "int \<Rightarrow> int \<Rightarrow> int" where
  "roundDown n bs = ((n + bs div 2) div bs) * bs"

definition roundUp :: "int \<Rightarrow> int \<Rightarrow> int" where
  "roundUp n bs = ((n + bs - 1) div bs) * bs"

text \<open>
  The two inner loops of the scans, over the finished and the running segments: \<open>curSize\<close>
  at most a block asks whether the block is inside a finished segment, a larger one
  whether it touches one.
\<close>

definition done_overlaps :: "int \<Rightarrow> int \<Rightarrow> int \<Rightarrow> int \<Rightarrow> Segment \<Rightarrow> Segment list \<Rightarrow> bool" where
  "done_overlaps bs curSize start stop block segs =
     list_ex (\<lambda>i. if curSize \<le> bs then seg_start i \<le> start \<and> getEnd i \<ge> stop
                  else seg_overlaps block i) segs"

definition running_overlaps :: "Segment \<Rightarrow> RunningSegment list \<Rightarrow> bool" where
  "running_overlaps block ds = list_ex (\<lambda>i. seg_overlaps block (seg i)) ds"

fun collect_parts :: "int \<Rightarrow> int \<Rightarrow> int list \<Rightarrow> Segment list option" where
  "collect_parts start stop [] = Some []"
| "collect_parts start stop [p] =
     (if p \<le> start \<or> (start \<le> p \<and> p < stop) then None else Some [])"
| "collect_parts start stop (p # e # r) =
     (if (p \<le> start \<and> start < e) \<or> (start \<le> p \<and> p < stop)
      then map_option (Cons (mk_segment (max start p) (min stop e - max start p)))
             (collect_parts start stop r)
      else collect_parts start stop r)"

partial_function (option) forward_loop ::
  "QueueItem \<Rightarrow> int \<Rightarrow> int \<Rightarrow> bool \<Rightarrow> int list \<Rightarrow> int \<Rightarrow> int \<Rightarrow> Segment list
     \<Rightarrow> (Segment \<times> Segment list) option" where
  "forward_loop q bs targetSize want posArray start curSize needed =
     (if start < qi_size q then
        let stop = min (qi_size q) (start + curSize);
            block = mk_segment start (stop - start);
            overlaps = done_overlaps bs curSize start stop block (doneSegments q) \<or>
                       running_overlaps block (downloads q)
        in if \<not> overlaps \<and> \<not> want then Some (block, needed)
           else Option.bind
             (if overlaps then Some needed
              else map_option (append needed) (collect_parts start stop posArray))
             (\<lambda>needed. if overlaps \<and> curSize > bs
                then forward_loop q bs targetSize want posArray start (curSize - bs) needed
                else forward_loop q bs targetSize want posArray stop targetSize needed)
      else Some (mk_segment 0 0, needed))"

definition getNextSegmentForward ::
  "QueueItem \<Rightarrow> int \<Rightarrow> int \<Rightarrow> bool \<Rightarrow> int list \<Rightarrow> (Segment \<times> Segment list) option" where
  "getNextSegmentForward q bs targetSize want posArray =
     (let start = (if doneSegments q \<noteq> [] \<and> seg_start (hd (doneSegments q)) = 0
                   then getEnd (hd (doneSegments q)) else 0)
      in forward_loop q bs targetSize want posArray start targetSize [])"

partial_function (option) backward_loop ::
  "QueueItem \<Rightarrow> int \<Rightarrow> int \<Rightarrow> bool \<Rightarrow> int list \<Rightarrow> int \<Rightarrow> int \<Rightarrow> Segment list
     \<Rightarrow> (Segment \<times> Segment list) option" where
  "backward_loop q bs targetSize want posArray stop curSize needed =
     (if stop > 0 then
        let start = max 0 (stop - curSize);
            block = mk_segment start (min stop (qi_size q) - start);
            overlaps = done_overlaps bs curSize start stop block (rev (doneSegments q)) \<or>
                       running_overlaps block (rev (downloads q))
        in if \<not> overlaps \<and> \<not> want then Some (block, needed)
           else Option.bind
             (if overlaps then Some needed
              else map_option (append needed) (collect_parts start stop posArray))
             (\<lambda>needed. if overlaps \<and> curSize > bs
                then backward_loop q bs targetSize want posArray stop (curSize - bs) needed
                else backward_loop q bs targetSize want posArray start targetSize needed)
      else Some (mk_segment 0 0, needed))"

definition getNextSegmentBackward ::
  "QueueItem \<Rightarrow> int \<Rightarrow> int \<Rightarrow> bool \<Rightarrow> int list \<Rightarrow> (Segment \<times> Segment list) option" where
  "getNextSegmentBackward q bs targetSize want posArray =
     (let end0 = (if doneSegments q \<noteq> [] \<and> getEnd (last (doneSegments q)) = qi_size q
                  then seg_start (last (doneSegments q)) else 0);
          stop = (if end0 = 0 then roundUp (qi_size q) bs else end0)
      in backward_loop q bs targetSize want posArray stop targetSize [])"

definition shouldSearchBackward :: "QueueItem \<Rightarrow> bool" where
  "shouldSearchBackward q =
     (if \<not> wantEnd q \<or> doneSegments q = [] then False
      else let segBegin = hd (doneSegments q) in
      if seg_start segBegin \<noteq> 0 \<or> seg_size segBegin < 1024 * 1204 then False
      else let segEnd = last (doneSegments q) in
      if getEnd segEnd = qi_size q \<and> seg_size segEnd > qi_size q * 3 div 100 then False
      else True)"

text \<open>The single segment of an item that is downloaded without chunks.\<close>

definition single_segment :: "QueueItem \<Rightarrow> Segment" where
  "single_segment q =
     (let bs = blockSize q;
          (start, stop) =
            (case doneSegments q of
               [] \<Rightarrow> (0, qi_size q)
             | first # more_segs \<Rightarrow>
                 if seg_start first > 0 then (0, roundUp (seg_start first) bs)
                 else (roundDown (getEnd first) bs,
                       case more_segs of
                         [] \<Rightarrow> qi_size q
                       | second # _ \<Rightarrow> roundUp (seg_start second) bs))
      in mk_segment start (min (qi_size q) stop - start))"

definition segment_target :: "(int \<Rightarrow> int \<Rightarrow> int \<Rightarrow> int) \<Rightarrow> QueueItem \<Rightarrow> GetSegmentParams \<Rightarrow> int" where
  "segment_target target q gsp =
     (let t0 = target (wantedSize gsp) (doneSegmentsSize q) (qi_size q);
          t1 = (if maxChunkSize gsp \<noteq> 0 \<and> t0 > maxChunkSize gsp then maxChunkSize gsp else t0)
      in if t1 > blockSize q then roundDown t1 (blockSize q) else blockSize q)"

definition pos_array :: "QueueItem \<Rightarrow> PartialSource option \<Rightarrow> int list" where
  "pos_array q partial =
     (case partial of
        None \<Rightarrow> []
      | Some p \<Rightarrow>
          if ps_blockSize p = blockSize q
          then map (\<lambda>i. min (qi_size q) (uint i * blockSize q)) (ps_parts p)
          else [])"

definition getNextSegmentL ::
  "(int \<Rightarrow> int \<Rightarrow> int \<Rightarrow> int) \<Rightarrow> u32 \<Rightarrow> QueueItem \<Rightarrow> GetSegmentParams \<Rightarrow> PartialSource option
     \<Rightarrow> (seg_error \<times> Segment) option" where
  "getNextSegmentL target rnd q gsp partial =
     (let bs = blockSize q in
      if qi_size q = -1 \<or> bs = 0 then Some (SUCCESS, mk_segment 0 (-1))
      else if \<not> enableMultiChunk gsp then
        if downloads q \<noteq> [] then Some (ERROR_DOWNLOAD_SLOTS_TAKEN, mk_segment (-1) 0)
        else Some (SUCCESS, single_segment q)
      else if length (downloads q) \<ge> unat (maxSegments q) \<or>
              (dontBeginSegment gsp \<and> dontBeginSegSpeed gsp * 1024 < averageSpeed q)
      then Some (ERROR_NO_FREE_BLOCK, mk_segment (-1) 0)
      else
        let posArray = pos_array q partial;
            targetSize = segment_target target q gsp
        in Option.bind
             ((if shouldSearchBackward q then getNextSegmentBackward else getNextSegmentForward)
                q bs targetSize (partial \<noteq> None) posArray)
             (\<lambda>(block, neededParts).
                if seg_size block \<noteq> 0 then Some (SUCCESS, block)
                else if neededParts \<noteq> [] then
                  let n = of_nat (length neededParts) :: u32 in
                  if n = 0 then None
                  else let selected = neededParts ! unat (rnd mod n)
                       in Some (SUCCESS, seg_setSize selected (min (seg_size selected) targetSize))
                else Some (ERROR_NO_NEEDED_PART, mk_segment (-1) 0)))"

declare forward_loop.simps [code] backward_loop.simps [code]

section \<open>The scan of a file by blocks\<close>

text \<open>
  Forward and backward search are one loop over different positions. The interface is the
  recursion equation; its clients get a rule for total correctness and a bound on the
  number of parts collected.
\<close>

locale block_scan =
  fixes scan :: "int \<Rightarrow> int \<Rightarrow> Segment list \<Rightarrow> (Segment \<times> Segment list) option"
    and active :: "int \<Rightarrow> bool"
    and advance :: "int \<Rightarrow> int \<Rightarrow> int"
    and block_at :: "int \<Rightarrow> int \<Rightarrow> Segment"
    and taken :: "int \<Rightarrow> int \<Rightarrow> bool"
    and parts_at :: "int \<Rightarrow> int \<Rightarrow> Segment list option"
    and want :: bool and bs :: int and ts :: int
  assumes scan_unfold:
    "scan i cur acc =
      (if active i then
         if \<not> taken i cur \<and> \<not> want then Some (block_at i cur, acc)
         else Option.bind
           (if taken i cur then Some acc else map_option (append acc) (parts_at i cur))
           (\<lambda>acc. if taken i cur \<and> cur > bs then scan i (cur - bs) acc
                  else scan (advance i cur) ts acc)
       else Some (mk_segment 0 0, acc))"
begin

lemma scan_rule:
  fixes rank :: "int \<Rightarrow> nat"
  assumes bs: "0 < bs"
    and pos: "\<And>i cur acc. I i cur acc \<Longrightarrow> 0 < cur"
    and dec: "\<And>i cur acc. \<lbrakk>active i; I i cur acc\<rbrakk> \<Longrightarrow> rank (advance i cur) < rank i"
    and shrink: "\<And>i cur acc. \<lbrakk>active i; I i cur acc; taken i cur; bs < cur\<rbrakk> \<Longrightarrow> I i (cur - bs) acc"
    and skip: "\<And>i cur acc. \<lbrakk>active i; I i cur acc; taken i cur; cur \<le> bs\<rbrakk> \<Longrightarrow> I (advance i cur) ts acc"
    and collect: "\<And>i cur acc. \<lbrakk>active i; I i cur acc; \<not> taken i cur; want\<rbrakk> \<Longrightarrow>
      \<exists>ps. parts_at i cur = Some ps \<and> I (advance i cur) ts (acc @ ps)"
    and found: "\<And>i cur acc. \<lbrakk>active i; I i cur acc; \<not> taken i cur; \<not> want\<rbrakk> \<Longrightarrow> Q (block_at i cur, acc)"
    and out: "\<And>i cur acc. \<lbrakk>\<not> active i; I i cur acc\<rbrakk> \<Longrightarrow> Q (mk_segment 0 0, acc)"
  shows "I i cur acc \<Longrightarrow> \<exists>r. scan i cur acc = Some r \<and> Q r"
proof (induction "(rank i, nat cur)" arbitrary: i cur acc rule: wf_induct_rule [OF wf_lex_prod [OF wf_less_than wf_less_than]])
  case (1 i cur acc)
  have IH: "I i' cur' acc' \<Longrightarrow> rank i' < rank i \<or> (rank i' = rank i \<and> nat cur' < nat cur) \<Longrightarrow>
    \<exists>r. scan i' cur' acc' = Some r \<and> Q r" for i' cur' acc'
    using 1(1) by auto
  show ?case
  proof (cases "active i")
    case False
    then show ?thesis using out 1(2) by (simp add: scan_unfold [of i])
  next
    case act: True
    consider "taken i cur" "bs < cur" | "taken i cur" "cur \<le> bs"
      | "\<not> taken i cur" want | "\<not> taken i cur" "\<not> want" by linarith
    then show ?thesis
    proof cases
      case 1: 1
      have "nat (cur - bs) < nat cur" using bs pos [OF \<open>I i cur acc\<close>] by simp
      then have "\<exists>r. scan i (cur - bs) acc = Some r \<and> Q r"
        using IH shrink act 1 \<open>I i cur acc\<close> by blast
      then show ?thesis using act 1 by (simp add: scan_unfold [of i cur])
    next
      case 2
      have "\<exists>r. scan (advance i cur) ts acc = Some r \<and> Q r"
        using IH skip dec act 2 \<open>I i cur acc\<close> by blast
      then show ?thesis using act 2 by (simp add: scan_unfold [of i cur])
    next
      case 3
      obtain ps where ps: "parts_at i cur = Some ps" "I (advance i cur) ts (acc @ ps)"
        using collect act 3 \<open>I i cur acc\<close> by blast
      have "\<exists>r. scan (advance i cur) ts (acc @ ps) = Some r \<and> Q r"
        using IH ps dec act \<open>I i cur acc\<close> by blast
      then show ?thesis using act 3 ps by (simp add: scan_unfold [of i cur])
    next
      case 4
      then show ?thesis using act found \<open>I i cur acc\<close> by (simp add: scan_unfold [of i cur])
    qed
  qed
qed

end

definition wf_item :: "QueueItem \<Rightarrow> bool" where
  "wf_item q \<longleftrightarrow> 0 < qi_size q \<and> 0 < blockSize q \<and> separated (doneSegments q) \<and>
     covered (doneSegments q) \<subseteq> {0 ..< qi_size q}"

definition aligned :: "int \<Rightarrow> int \<Rightarrow> Segment \<Rightarrow> bool" where
  "aligned bs n s \<longleftrightarrow> bs dvd seg_start s \<and> (bs dvd getEnd s \<or> getEnd s = n)"

definition good_block :: "QueueItem \<Rightarrow> Segment \<Rightarrow> bool" where
  "good_block q b \<longleftrightarrow> 0 \<le> seg_start b \<and> 0 < seg_size b \<and> getEnd b \<le> qi_size q \<and>
     (\<forall>r \<in> set (downloads q). \<not> seg_overlaps b (seg r)) \<and>
     (\<forall>s \<in> set (doneSegments q). \<not> bytes_of b \<subseteq> bytes_of s) \<and>
     (blockSize q < seg_size b \<longrightarrow> bytes_of b \<inter> covered (doneSegments q) = {}) \<and>
     ((\<forall>s \<in> set (doneSegments q). aligned (blockSize q) (qi_size q) s) \<longrightarrow>
        aligned (blockSize q) (qi_size q) b)"

definition next_ok :: "QueueItem \<Rightarrow> Segment \<Rightarrow> bool" where
  "next_ok q b \<longleftrightarrow>
     (if seg_size b = 0 then downloads q = [] \<longrightarrow> isFinished q else good_block q b)"

section \<open>Forward\<close>

definition fwd_block :: "QueueItem \<Rightarrow> int \<Rightarrow> int \<Rightarrow> Segment" where
  "fwd_block q i cur = mk_segment i (min (qi_size q) (i + cur) - i)"

definition fwd_taken :: "QueueItem \<Rightarrow> int \<Rightarrow> int \<Rightarrow> int \<Rightarrow> bool" where
  "fwd_taken q bs i cur \<longleftrightarrow>
     done_overlaps bs cur i (min (qi_size q) (i + cur)) (fwd_block q i cur) (doneSegments q) \<or>
     running_overlaps (fwd_block q i cur) (downloads q)"

interpretation fwd: block_scan "forward_loop q bs ts want pa" "\<lambda>i. i < qi_size q"
    "\<lambda>i cur. min (qi_size q) (i + cur)" "fwd_block q" "fwd_taken q bs"
    "\<lambda>i cur. collect_parts i (min (qi_size q) (i + cur)) pa" want bs ts
  for q bs ts want pa
proof (unfold_locales, goal_cases)
  case (1 i cur acc)
  show ?case
    by (subst forward_loop.simps) (simp add: Let_def fwd_taken_def fwd_block_def)
qed

text \<open>A block that is not taken can be asked for.\<close>

lemma seg_overlaps_iff:
  "0 < seg_size a \<Longrightarrow> 0 < seg_size b \<Longrightarrow> seg_overlaps a b \<longleftrightarrow> bytes_of a \<inter> bytes_of b \<noteq> {}"
proof -
  assume p: "0 < seg_size a" "0 < seg_size b"
  have "max (seg_start a) (seg_start b) \<in> bytes_of a \<inter> bytes_of b" if "seg_overlaps a b"
    using that p by (auto simp: bytes_of_def seg_overlaps_def getEnd_def max_def)
  then show ?thesis by (auto simp: bytes_of_def seg_overlaps_def)
qed

lemma not_taken_block:
  assumes b: "0 < seg_size b"
    and sep: "separated segs"
    and free: "\<not> done_overlaps bs cur (seg_start b) stop b segs"
    and stop: "getEnd b = stop \<or> (\<forall>s \<in> set segs. getEnd s < getEnd b)"
    and cur: "seg_size b \<le> cur"
  shows "\<forall>s \<in> set segs. \<not> bytes_of b \<subseteq> bytes_of s"
    and "bs < seg_size b \<Longrightarrow> bytes_of b \<inter> covered segs = {}"
proof -
  have pos: "0 < seg_size s" if "s \<in> set segs" for s using sep that by (simp add: separated_iff)
  have sub: "bytes_of b \<subseteq> bytes_of s \<Longrightarrow> seg_start s \<le> seg_start b \<and> getEnd b \<le> getEnd s" for s
    using b by (simp add: bytes_of_def getEnd_def)
  show inside: "\<forall>s \<in> set segs. \<not> bytes_of b \<subseteq> bytes_of s"
  proof (rule ballI, rule notI)
    fix s assume s: "s \<in> set segs" and sb: "bytes_of b \<subseteq> bytes_of s"
    have "seg_start s \<le> seg_start b" "getEnd b \<le> getEnd s" using sub [OF sb] by simp_all
    moreover have "bytes_of b \<noteq> {}" using b by (simp add: bytes_of_def getEnd_def)
    then have "seg_overlaps b s" using sb b pos [OF s] by (simp add: seg_overlaps_iff) blast
    moreover have "getEnd b = stop" using stop s calculation(2) by fastforce
    ultimately show False
      using free s by (cases "cur \<le> bs") (auto simp: done_overlaps_def list_ex_iff)
  qed
  show "bytes_of b \<inter> covered segs = {}" if "bs < seg_size b"
  proof -
    have "\<not> seg_overlaps b s" if "s \<in> set segs" for s
      using free cur \<open>bs < seg_size b\<close> that by (auto simp: done_overlaps_def list_ex_iff)
    then show ?thesis using b pos by (auto simp: covered_def seg_overlaps_iff)
  qed
qed

lemma wf_itemD:
  assumes "wf_item q"
  shows "0 < qi_size q" "0 < blockSize q" "separated (doneSegments q)"
    "covered (doneSegments q) \<subseteq> {0 ..< qi_size q}"
  using assms by (simp_all add: wf_item_def)

lemma wf_done_bounds:
  assumes "wf_item q" "s \<in> set (doneSegments q)"
  shows "0 \<le> seg_start s" "0 < seg_size s" "getEnd s \<le> qi_size q"
proof -
  have sz: "0 < seg_size s" using assms by (simp add: wf_item_def separated_iff)
  then have "seg_start s \<in> bytes_of s" "getEnd s - 1 \<in> bytes_of s"
    by (simp_all add: bytes_of_def getEnd_def)
  then have "seg_start s \<in> {0 ..< qi_size q}" "getEnd s - 1 \<in> {0 ..< qi_size q}"
    using wf_itemD(4) [OF assms(1)] assms(2) by (auto simp: covered_def)
  with sz show "0 \<le> seg_start s" "0 < seg_size s" "getEnd s \<le> qi_size q" by simp_all
qed

lemma isFinished_iff:
  "wf_item q \<Longrightarrow> isFinished q \<longleftrightarrow> covered (doneSegments q) = {0 ..< qi_size q}"
  by (simp add: isFinished_def segs_finished_iff wf_itemD)

lemma fwd_block_fields:
  "seg_start (fwd_block q i cur) = i"
  "getEnd (fwd_block q i cur) = min (qi_size q) (i + cur)"
  "seg_size (fwd_block q i cur) = min (qi_size q) (i + cur) - i"
  by (simp_all add: fwd_block_def mk_segment_def getEnd_def)

lemma fwd_good:
  assumes wf: "wf_item q" and i: "0 \<le> i" "i < qi_size q" and cur: "0 < cur" "blockSize q dvd cur"
    and free: "\<not> fwd_taken q (blockSize q) i cur"
    and al: "(\<forall>s \<in> set (doneSegments q). aligned (blockSize q) (qi_size q) s) \<longrightarrow> blockSize q dvd i"
  shows "good_block q (fwd_block q i cur)"
proof -
  let ?b = "fwd_block q i cur"
  have sz: "0 < seg_size ?b" "seg_size ?b \<le> cur" using i cur by (simp_all add: fwd_block_fields)
  have d: "\<not> done_overlaps (blockSize q) cur (seg_start ?b) (getEnd ?b) ?b (doneSegments q)"
    and r: "\<forall>r \<in> set (downloads q). \<not> seg_overlaps ?b (seg r)"
    using free by (auto simp: fwd_taken_def fwd_block_fields running_overlaps_def list_ex_iff)
  note nt = not_taken_block [OF sz(1) wf_itemD(3) [OF wf] d disjI1 [OF refl] sz(2)]
  have "aligned (blockSize q) (qi_size q) ?b"
    if "\<forall>s \<in> set (doneSegments q). aligned (blockSize q) (qi_size q) s"
    using al that cur(2) by (auto simp: aligned_def fwd_block_fields min_def)
  then show ?thesis
    using i sz r nt by (simp add: good_block_def fwd_block_fields)
qed

text \<open>A block of at most one \<open>blockSize\<close> that is passed over is finished or running.\<close>

lemma taken_small_done:
  assumes "done_overlaps bs cur start stop b segs" "cur \<le> bs"
  shows "{start ..< stop} \<subseteq> covered segs"
proof -
  obtain s where s: "s \<in> set segs" "seg_start s \<le> start" "stop \<le> getEnd s"
    using assms by (auto simp: done_overlaps_def list_ex_iff)
  have "{start ..< stop} \<subseteq> bytes_of s" using s by (auto simp: bytes_of_def)
  with s(1) show ?thesis by (auto simp: covered_def)
qed

definition fwd_rank :: "QueueItem \<Rightarrow> int \<Rightarrow> nat" where
  "fwd_rank q i = nat ((qi_size q - i + blockSize q - 1) div blockSize q)"

lemma fwd_rank_less:
  assumes "0 < blockSize q" "i < qi_size q" "blockSize q \<le> cur"
  shows "fwd_rank q (min (qi_size q) (i + cur)) < fwd_rank q i"
proof -
  let ?b = "blockSize q" and ?n = "qi_size q - i"
  have nonneg: "0 < (?n + ?b - 1) div ?b" using assms by (simp add: pos_imp_zdiv_pos_iff)
  have "(qi_size q - min (qi_size q) (i + cur) + ?b - 1) div ?b < (?n + ?b - 1) div ?b"
  proof (cases "i + cur \<le> qi_size q")
    case True
    have "(?n - cur + ?b - 1) div ?b \<le> (?n - 1) div ?b"
      using assms by (intro zdiv_mono1) simp_all
    also have "\<dots> < (?n + ?b - 1) div ?b"
      using assms div_add_self2 [of ?b "?n - 1"] by (simp add: algebra_simps)
    finally show ?thesis using True by (simp add: algebra_simps)
  next
    case False
    then show ?thesis using nonneg assms by simp
  qed
  then show ?thesis using nonneg by (simp add: fwd_rank_def)
qed

text \<open>The position the forward search starts from: the first byte that is not finished.\<close>

definition fwd_start :: "QueueItem \<Rightarrow> int" where
  "fwd_start q = (if doneSegments q \<noteq> [] \<and> seg_start (hd (doneSegments q)) = 0
                  then getEnd (hd (doneSegments q)) else 0)"

lemma fwd_start_facts:
  assumes "wf_item q"
  shows "0 \<le> fwd_start q" "fwd_start q \<le> qi_size q" "{0 ..< fwd_start q} \<subseteq> covered (doneSegments q)"
    "\<forall>s \<in> set (doneSegments q). aligned (blockSize q) (qi_size q) s \<Longrightarrow>
       blockSize q dvd fwd_start q \<or> fwd_start q = qi_size q"
proof -
  have f: "fwd_start q = 0 \<or> (\<exists>s \<in> set (doneSegments q). seg_start s = 0 \<and> fwd_start q = getEnd s)"
    by (auto simp: fwd_start_def)
  show "0 \<le> fwd_start q" "fwd_start q \<le> qi_size q"
    using f wf_done_bounds [OF assms] wf_itemD(1) [OF assms] by (fastforce simp: getEnd_def)+
  show "{0 ..< fwd_start q} \<subseteq> covered (doneSegments q)"
    using f by (auto simp: covered_def bytes_of_def)
  show "blockSize q dvd fwd_start q \<or> fwd_start q = qi_size q"
    if "\<forall>s \<in> set (doneSegments q). aligned (blockSize q) (qi_size q) s"
    using f that by (auto simp: aligned_def)
qed

lemma getNextSegmentForward_eq:
  "getNextSegmentForward q bs ts want pa = forward_loop q bs ts want pa (fwd_start q) ts []"
  by (simp add: getNextSegmentForward_def fwd_start_def Let_def)

definition fwd_inv :: "QueueItem \<Rightarrow> int \<Rightarrow> int \<Rightarrow> bool" where
  "fwd_inv q i cur \<longleftrightarrow> 0 \<le> i \<and> i \<le> qi_size q \<and> blockSize q \<le> cur \<and> blockSize q dvd cur \<and>
     (downloads q = [] \<longrightarrow> {0 ..< i} \<subseteq> covered (doneSegments q)) \<and>
     ((\<forall>s \<in> set (doneSegments q). aligned (blockSize q) (qi_size q) s) \<longrightarrow>
        blockSize q dvd i \<or> i = qi_size q)"

lemma dvd_shrink: "0 < (b::int) \<Longrightarrow> b dvd cur \<Longrightarrow> b < cur \<Longrightarrow> b \<le> cur - b \<and> b dvd cur - b"
  by (metis dvd_diff dvd_refl zdvd_imp_le diff_gt_0_iff_gt)

lemma fwd_inv_step:
  assumes wf: "wf_item q" and inv: "fwd_inv q i cur" and i: "i < qi_size q"
    and ts: "blockSize q \<le> ts" "blockSize q dvd ts"
    and t: "downloads q = [] \<longrightarrow> {i ..< min (qi_size q) (i + cur)} \<subseteq> covered (doneSegments q)"
  shows "fwd_inv q (min (qi_size q) (i + cur)) ts"
proof -
  have b: "0 < blockSize q" using wf by (simp add: wf_item_def)
  have "{0 ..< min (qi_size q) (i + cur)} \<subseteq> covered (doneSegments q)" if "downloads q = []"
  proof -
    have "{0 ..< min (qi_size q) (i + cur)} \<subseteq> {0 ..< i} \<union> {i ..< min (qi_size q) (i + cur)}" by auto
    then show ?thesis using t inv that by (auto simp: fwd_inv_def)
  qed
  moreover have "blockSize q dvd min (qi_size q) (i + cur) \<or> min (qi_size q) (i + cur) = qi_size q"
    if "\<forall>s \<in> set (doneSegments q). aligned (blockSize q) (qi_size q) s"
    using inv i that by (auto simp: fwd_inv_def min_def)
  ultimately show ?thesis using inv i ts b by (auto simp: fwd_inv_def)
qed

lemma fwd_taken_small:
  assumes "fwd_taken q bs i cur" "cur \<le> bs" "downloads q = []"
  shows "{i ..< min (qi_size q) (i + cur)} \<subseteq> covered (doneSegments q)"
  using assms taken_small_done by (auto simp: fwd_taken_def running_overlaps_def)

lemma getNextSegmentForward_ok:
  assumes wf: "wf_item q" and ts: "blockSize q \<le> ts" "blockSize q dvd ts"
  shows "\<exists>b ps. getNextSegmentForward q (blockSize q) ts False pa = Some (b, ps) \<and> ps = [] \<and> next_ok q b"
proof -
  note b = wf_itemD(2) [OF wf]
  let ?I = "\<lambda>i cur acc. fwd_inv q i cur \<and> acc = []"
  have "\<exists>r. forward_loop q (blockSize q) ts False pa (fwd_start q) ts [] = Some r \<and>
      snd r = [] \<and> next_ok q (fst r)"
  proof (rule fwd.scan_rule [where I = ?I and rank = "fwd_rank q"], goal_cases)
    case 1 show ?case by (rule b)
  next
    case (2 i cur acc) then show ?case using b by (simp add: fwd_inv_def)
  next
    case (3 i cur acc) then show ?case using fwd_rank_less b by (simp add: fwd_inv_def)
  next
    case (4 i cur acc)
    then show ?case using dvd_shrink [OF b, of cur] by (simp add: fwd_inv_def)
  next
    case (5 i cur acc)
    then show ?case using fwd_inv_step [OF wf _ _ ts] fwd_taken_small by blast
  next
    case (6 i cur acc) then show ?case by simp
  next
    case (7 i cur acc)
    then have "good_block q (fwd_block q i cur)"
      using b by (intro fwd_good [OF wf]) (auto simp: fwd_inv_def)
    then show ?case using 7 by (simp add: next_ok_def) (simp add: good_block_def)
  next
    case (8 i cur acc)
    then have "downloads q = [] \<longrightarrow> covered (doneSegments q) = {0 ..< qi_size q}"
      using wf_itemD(4) [OF wf] by (auto simp: fwd_inv_def)
    then show ?case using 8 by (simp add: next_ok_def mk_segment_def isFinished_iff [OF wf])
  next
    case 9
    show ?case using fwd_start_facts [OF wf] ts by (auto simp: fwd_inv_def)
  qed
  then show ?thesis by (auto simp: getNextSegmentForward_eq)
qed

section \<open>Backward\<close>

definition bwd_block :: "QueueItem \<Rightarrow> int \<Rightarrow> int \<Rightarrow> Segment" where
  "bwd_block q i cur = mk_segment (max 0 (i - cur)) (min i (qi_size q) - max 0 (i - cur))"

definition bwd_taken :: "QueueItem \<Rightarrow> int \<Rightarrow> int \<Rightarrow> int \<Rightarrow> bool" where
  "bwd_taken q bs i cur \<longleftrightarrow>
     done_overlaps bs cur (max 0 (i - cur)) i (bwd_block q i cur) (rev (doneSegments q)) \<or>
     running_overlaps (bwd_block q i cur) (rev (downloads q))"

interpretation bwd: block_scan "backward_loop q bs ts want pa" "\<lambda>i. 0 < i"
    "\<lambda>i cur. max 0 (i - cur)" "bwd_block q" "bwd_taken q bs"
    "\<lambda>i cur. collect_parts (max 0 (i - cur)) i pa" want bs ts
  for q bs ts want pa
proof (unfold_locales, goal_cases)
  case (1 i cur acc)
  show ?case
    by (subst backward_loop.simps) (simp add: Let_def bwd_taken_def bwd_block_def)
qed

lemma done_overlaps_rev [simp]:
  "done_overlaps bs cur start stop b (rev segs) = done_overlaps bs cur start stop b segs"
  by (simp add: done_overlaps_def list_ex_iff)

lemma bwd_block_fields:
  "seg_start (bwd_block q i cur) = max 0 (i - cur)"
  "getEnd (bwd_block q i cur) = min i (qi_size q)"
  "seg_size (bwd_block q i cur) = min i (qi_size q) - max 0 (i - cur)"
  by (simp_all add: bwd_block_def mk_segment_def getEnd_def)

definition bwd_pos :: "QueueItem \<Rightarrow> int \<Rightarrow> int \<Rightarrow> bool" where
  "bwd_pos q i cur \<longleftrightarrow> 0 \<le> i \<and> i < qi_size q + blockSize q \<and> blockSize q \<le> cur \<and>
     blockSize q dvd cur \<and>
     (qi_size q < i \<longrightarrow> (\<forall>s \<in> set (doneSegments q). getEnd s < qi_size q)) \<and>
     ((\<forall>s \<in> set (doneSegments q). aligned (blockSize q) (qi_size q) s) \<longrightarrow> blockSize q dvd i)"

definition bwd_inv :: "QueueItem \<Rightarrow> int \<Rightarrow> int \<Rightarrow> bool" where
  "bwd_inv q i cur \<longleftrightarrow> bwd_pos q i cur \<and>
     (downloads q = [] \<longrightarrow> {i ..< qi_size q} \<subseteq> covered (doneSegments q))"

lemma bwd_good:
  assumes wf: "wf_item q" and inv: "bwd_pos q i cur" and i: "0 < i"
    and free: "\<not> bwd_taken q (blockSize q) i cur"
  shows "good_block q (bwd_block q i cur)"
proof -
  let ?b = "bwd_block q i cur"
  have sz: "0 < seg_size ?b" "seg_size ?b \<le> cur"
    using i inv wf_itemD(1,2) [OF wf] by (auto simp: bwd_block_fields bwd_pos_def)
  have d: "\<not> done_overlaps (blockSize q) cur (seg_start ?b) i ?b (doneSegments q)"
    and r: "\<forall>r \<in> set (downloads q). \<not> seg_overlaps ?b (seg r)"
    using free by (auto simp: bwd_taken_def bwd_block_fields running_overlaps_def list_ex_iff)
  have stop: "getEnd ?b = i \<or> (\<forall>s \<in> set (doneSegments q). getEnd s < getEnd ?b)"
    using inv by (auto simp: bwd_pos_def bwd_block_fields min_def)
  note nt = not_taken_block [OF sz(1) wf_itemD(3) [OF wf] d stop sz(2)]
  have "aligned (blockSize q) (qi_size q) ?b"
    if "\<forall>s \<in> set (doneSegments q). aligned (blockSize q) (qi_size q) s"
    using inv that by (auto simp: aligned_def bwd_block_fields bwd_pos_def min_def max_def)
  then show ?thesis
    using i sz r nt by (simp add: good_block_def bwd_block_fields)
qed

lemma bwd_pos_step:
  assumes wf: "wf_item q" and inv: "bwd_pos q i cur"
    and ts: "blockSize q \<le> ts" "blockSize q dvd ts"
  shows "bwd_pos q (max 0 (i - cur)) ts"
proof -
  have "blockSize q dvd max 0 (i - cur)"
    if "\<forall>s \<in> set (doneSegments q). aligned (blockSize q) (qi_size q) s"
    using inv that by (auto simp: bwd_pos_def max_def)
  then show ?thesis using inv ts wf_itemD(1,2) [OF wf] by (auto simp: bwd_pos_def)
qed

lemma bwd_inv_step:
  assumes wf: "wf_item q" and inv: "bwd_inv q i cur" and i: "0 < i"
    and ts: "blockSize q \<le> ts" "blockSize q dvd ts"
    and t: "downloads q = [] \<longrightarrow> {max 0 (i - cur) ..< i} \<subseteq> covered (doneSegments q)"
  shows "bwd_inv q (max 0 (i - cur)) ts"
proof -
  have "{max 0 (i - cur) ..< qi_size q} \<subseteq> covered (doneSegments q)" if "downloads q = []"
  proof -
    have "{max 0 (i - cur) ..< qi_size q} \<subseteq> {max 0 (i - cur) ..< i} \<union> {i ..< qi_size q}" by auto
    then show ?thesis using t inv that by (auto simp: bwd_inv_def)
  qed
  then show ?thesis using inv bwd_pos_step [OF wf _ ts] by (simp add: bwd_inv_def)
qed

lemma bwd_rank_less:
  assumes "0 < blockSize q" "0 < i" "blockSize q \<le> cur"
  shows "fwd_rank q (qi_size q - max 0 (i - cur)) < fwd_rank q (qi_size q - i)"
proof -
  have "qi_size q - max 0 (i - cur) = min (qi_size q) (qi_size q - i + cur)" by simp
  then show ?thesis using fwd_rank_less [of q "qi_size q - i" cur] assms by simp
qed

lemma bwd_taken_small:
  assumes "bwd_taken q bs i cur" "cur \<le> bs" "downloads q = []"
  shows "{max 0 (i - cur) ..< i} \<subseteq> covered (doneSegments q)"
  using assms taken_small_done by (auto simp: bwd_taken_def running_overlaps_def)

lemma roundUp_facts:
  assumes "0 < b"
  shows "n \<le> roundUp n b" "roundUp n b < n + b" "b dvd roundUp n b"
proof -
  have "roundUp n b = (n + b - 1) - (n + b - 1) mod b"
    by (simp add: roundUp_def minus_mod_eq_div_mult)
  moreover have "0 \<le> (n + b - 1) mod b" "(n + b - 1) mod b < b" using assms by simp_all
  ultimately show "n \<le> roundUp n b" "roundUp n b < n + b" by linarith+
qed (simp add: roundUp_def)

definition bwd_start :: "QueueItem \<Rightarrow> int" where
  "bwd_start q =
     (let end0 = (if doneSegments q \<noteq> [] \<and> getEnd (last (doneSegments q)) = qi_size q
                  then seg_start (last (doneSegments q)) else 0)
      in if end0 = 0 then roundUp (qi_size q) (blockSize q) else end0)"

lemma getNextSegmentBackward_eq:
  "getNextSegmentBackward q (blockSize q) ts want pa =
     backward_loop q (blockSize q) ts want pa (bwd_start q) ts []"
  by (simp add: getNextSegmentBackward_def bwd_start_def Let_def)

lemma separated_last:
  "separated segs \<Longrightarrow> s \<in> set segs \<Longrightarrow> s = last segs \<or> getEnd s < seg_start (last segs)"
proof -
  assume sep: "separated segs" and s: "s \<in> set segs"
  then have "segs = butlast segs @ [last segs]" by (cases segs) simp_all
  then have "sorted_wrt (\<lambda>a b. getEnd a < seg_start b) (butlast segs @ [last segs])"
    using sep by (simp add: separated_iff)
  moreover have "s \<in> set (butlast segs) \<or> s = last segs"
    using s in_set_butlast_appendI [of s segs "[]"] \<open>segs = butlast segs @ [last segs]\<close>
    by (metis Un_iff empty_iff list.set(1) set_ConsD set_append)
  ultimately show ?thesis by (auto simp: sorted_wrt_append)
qed

lemma bwd_start_inv:
  assumes wf: "wf_item q" and nf: "\<not> isFinished q" and ts: "blockSize q \<le> ts" "blockSize q dvd ts"
  shows "bwd_inv q (bwd_start q) ts"
proof (cases "doneSegments q \<noteq> [] \<and> getEnd (last (doneSegments q)) = qi_size q")
  case True
  let ?l = "last (doneSegments q)"
  have l: "?l \<in> set (doneSegments q)" using True by simp
  have lb: "bytes_of ?l = {seg_start ?l ..< qi_size q}" using True by (simp add: bytes_of_def)
  have "seg_start ?l \<noteq> 0"
  proof
    assume "seg_start ?l = 0"
    then have "{0 ..< qi_size q} \<subseteq> covered (doneSegments q)"
      using lb l by (auto simp: covered_def)
    then have "covered (doneSegments q) = {0 ..< qi_size q}"
      by (rule subset_antisym [OF wf_itemD(4) [OF wf]])
    then show False using nf by (simp add: isFinished_iff [OF wf])
  qed
  then have st: "bwd_start q = seg_start ?l" using True by (simp add: bwd_start_def Let_def)
  have "{seg_start ?l ..< qi_size q} \<subseteq> covered (doneSegments q)"
    using lb l by (auto simp: covered_def)
  moreover have "0 \<le> seg_start ?l" "seg_start ?l \<le> qi_size q"
    using wf_done_bounds [OF wf l] by (simp_all add: getEnd_def)
  moreover have "blockSize q dvd seg_start ?l"
    if "\<forall>s \<in> set (doneSegments q). aligned (blockSize q) (qi_size q) s"
    using that l by (simp add: aligned_def)
  ultimately show ?thesis
    using ts wf_itemD(2) [OF wf] by (simp add: bwd_inv_def bwd_pos_def st)
next
  case False
  then have st: "bwd_start q = roundUp (qi_size q) (blockSize q)" by (auto simp: bwd_start_def Let_def)
  have below: "getEnd s < qi_size q" if "s \<in> set (doneSegments q)" for s
  proof -
    have "doneSegments q \<noteq> []" using that by auto
    then have "last (doneSegments q) \<in> set (doneSegments q)" by simp
    then have "0 < seg_size (last (doneSegments q))" "getEnd (last (doneSegments q)) < qi_size q"
      using wf_done_bounds(2,3) [OF wf] False by fastforce+
    with separated_last [OF wf_itemD(3) [OF wf] that] show ?thesis
      unfolding getEnd_def by fastforce
  qed
  show ?thesis
    using ts below roundUp_facts [OF wf_itemD(2) [OF wf], of "qi_size q"] wf_itemD(1) [OF wf]
    by (auto simp: bwd_inv_def bwd_pos_def st)
qed

lemma getNextSegmentBackward_ok:
  assumes wf: "wf_item q" and nf: "\<not> isFinished q" and ts: "blockSize q \<le> ts" "blockSize q dvd ts"
  shows "\<exists>b ps. getNextSegmentBackward q (blockSize q) ts False pa = Some (b, ps) \<and> ps = [] \<and> next_ok q b"
proof -
  note b = wf_itemD(2) [OF wf]
  let ?I = "\<lambda>i cur acc. bwd_inv q i cur \<and> acc = []"
  have "\<exists>r. backward_loop q (blockSize q) ts False pa (bwd_start q) ts [] = Some r \<and>
      snd r = [] \<and> next_ok q (fst r)"
  proof (rule bwd.scan_rule [where I = ?I and rank = "\<lambda>i. fwd_rank q (qi_size q - i)"], goal_cases)
    case 1 show ?case by (rule b)
  next
    case (2 i cur acc) then show ?case using b by (simp add: bwd_inv_def bwd_pos_def)
  next
    case (3 i cur acc) then show ?case using bwd_rank_less b by (simp add: bwd_inv_def bwd_pos_def)
  next
    case (4 i cur acc)
    then show ?case using dvd_shrink [OF b, of cur] by (simp add: bwd_inv_def bwd_pos_def)
  next
    case (5 i cur acc)
    then show ?case using bwd_inv_step [OF wf _ _ ts] bwd_taken_small by blast
  next
    case (6 i cur acc) then show ?case by simp
  next
    case (7 i cur acc)
    then have "good_block q (bwd_block q i cur)" using bwd_good [OF wf] by (simp add: bwd_inv_def)
    then show ?case using 7 by (simp add: next_ok_def) (simp add: good_block_def)
  next
    case (8 i cur acc)
    then have "downloads q = [] \<longrightarrow> covered (doneSegments q) = {0 ..< qi_size q}"
      using wf_itemD(4) [OF wf] by (auto simp: bwd_inv_def bwd_pos_def)
    then show ?case using 8 by (simp add: next_ok_def mk_segment_def isFinished_iff [OF wf])
  next
    case 9
    show ?case using bwd_start_inv [OF wf nf ts] by simp
  qed
  then show ?thesis by (auto simp: getNextSegmentBackward_eq)
qed

section \<open>The segment that is asked for\<close>

lemma segment_target_ok:
  assumes "0 < blockSize q"
  shows "blockSize q \<le> segment_target target q gsp" "blockSize q dvd segment_target target q gsp"
proof -
  have "b \<le> roundDown t b" if "b < t" "0 < b" for t b :: int
  proof -
    have "b div b \<le> (t + b div 2) div b" using that by (intro zdiv_mono1) simp_all
    then have "1 \<le> (t + b div 2) div b" using that by simp
    then show ?thesis using mult_right_mono [of 1 "(t + b div 2) div b" b] that by (simp add: roundDown_def)
  qed
  moreover have "b dvd roundDown t b" for t b :: int by (simp add: roundDown_def)
  ultimately show "blockSize q \<le> segment_target target q gsp" "blockSize q dvd segment_target target q gsp"
    using assms by (auto simp: segment_target_def Let_def)
qed

lemma shouldSearchBackward_unfinished:
  assumes "0 < qi_size q" "shouldSearchBackward q"
  shows "\<not> isFinished q"
proof
  assume "isFinished q"
  then obtain s where s: "doneSegments q = [s]" "seg_start s = 0" "seg_size s = qi_size q"
    unfolding isFinished_def segs_finished_def by (cases "doneSegments q") auto
  have "qi_size q * 3 div 100 < qi_size q" using assms(1) by simp
  then show False using assms(2) s by (simp add: shouldSearchBackward_def Let_def getEnd_def split: if_splits)
qed

text \<open>The search of either direction, for a source that has the whole file.\<close>

lemma search_ok:
  assumes wf: "wf_item q"
  shows "\<exists>b. (if shouldSearchBackward q then getNextSegmentBackward else getNextSegmentForward)
      q (blockSize q) (segment_target target q gsp) False pa = Some (b, []) \<and> next_ok q b"
  using getNextSegmentForward_ok [OF wf segment_target_ok] getNextSegmentBackward_ok [OF wf _ segment_target_ok]
    shouldSearchBackward_unfinished wf_itemD(1,2) [OF wf]
  by (cases "shouldSearchBackward q") fastforce+

definition segment_limit :: "QueueItem \<Rightarrow> GetSegmentParams \<Rightarrow> bool" where
  "segment_limit q gsp \<longleftrightarrow> length (downloads q) \<ge> unat (maxSegments q) \<or>
     (dontBeginSegment gsp \<and> dontBeginSegSpeed gsp * 1024 < averageSpeed q)"

lemma getNextSegmentL_multi:
  assumes "wf_item q" "enableMultiChunk gsp" "\<not> segment_limit q gsp"
  shows "getNextSegmentL target rnd q gsp partial =
    Option.bind ((if shouldSearchBackward q then getNextSegmentBackward else getNextSegmentForward)
        q (blockSize q) (segment_target target q gsp) (partial \<noteq> None) (pos_array q partial))
      (\<lambda>(block, neededParts).
        if seg_size block \<noteq> 0 then Some (SUCCESS, block)
        else if neededParts \<noteq> [] then
          let n = of_nat (length neededParts) :: u32 in
          if n = 0 then None
          else let selected = neededParts ! unat (rnd mod n)
               in Some (SUCCESS, seg_setSize selected (min (seg_size selected) (segment_target target q gsp)))
        else Some (ERROR_NO_NEEDED_PART, mk_segment (-1) 0))"
proof -
  have "qi_size q \<noteq> -1" "blockSize q \<noteq> 0" using wf_itemD(1,2) [OF assms(1)] by simp_all
  then have n: "\<not> (qi_size q = -1 \<or> blockSize q = 0)" by simp
  show ?thesis
    using assms(2)
    unfolding getNextSegmentL_def Let_def if_not_P [OF n] if_not_P [OF assms(3) [unfolded segment_limit_def]]
    by simp
qed

lemma getNextSegmentL_full_run:
  assumes wf: "wf_item q" and multi: "enableMultiChunk gsp"
  shows "\<exists>e s. getNextSegmentL target rnd q gsp None = Some (e, s) \<and>
    (if segment_limit q gsp then e = ERROR_NO_FREE_BLOCK
     else e = SUCCESS \<and> good_block q s \<or>
          e = ERROR_NO_NEEDED_PART \<and> (downloads q = [] \<longrightarrow> isFinished q))"
proof (cases "segment_limit q gsp")
  case True
  have "qi_size q \<noteq> -1" "blockSize q \<noteq> 0" using wf_itemD(1,2) [OF wf] by simp_all
  then show ?thesis
    using True multi unfolding getNextSegmentL_def Let_def segment_limit_def by simp
next
  case False
  obtain b where b: "(if shouldSearchBackward q then getNextSegmentBackward else getNextSegmentForward)
      q (blockSize q) (segment_target target q gsp) False (pos_array q None) = Some (b, [])" "next_ok q b"
    using search_ok [OF wf] by blast
  show ?thesis
    using b(2) False unfolding getNextSegmentL_multi [OF wf multi False]
    by (simp add: b(1) next_ok_def)
qed


definition ex_item :: QueueItem where
  "ex_item = \<lparr>qi_size = 100, blockSize = 10, wantEnd = False, maxSegments = 4,
     downloads = [\<lparr>seg = mk_segment 30 20, rs_d = None\<rparr>],
     doneSegments = [mk_segment 0 20, mk_segment 60 20], doneSegmentsSize = 40,
     downloadedBytes = 40, averageSpeed = 0\<rparr>"

definition ex_params :: GetSegmentParams where
  "ex_params = \<lparr>wantedSize = 40, enableMultiChunk = True, dontBeginSegment = False,
     dontBeginSegSpeed = 0, maxChunkSize = 0\<rparr>"

lemma ex_item_wf: "wf_item ex_item"
proof -
  have "covered (doneSegments ex_item) = {0 ..< 20} \<union> {60 ..< 80}"
    by (simp add: ex_item_def bytes_of_def seg_simps)
  then show ?thesis by (auto simp: wf_item_def ex_item_def seg_simps)
qed


end
