(* ===== verification/PartialSources.thy ===== *)
theory PartialSources
  imports QueueSegments
begin

text \<open>
  Sources that have a part of the file only: the parts a peer announces, the search for a
  segment among them (\<open>getNextSegmentL\<close> with a \<open>PartialSource\<close>), and the lists of parts that
  are exchanged (\<open>getParts\<close>, \<open>isNeededPart\<close>, \<open>countParts\<close>, \<open>compareParts\<close> of
  \<open>src/client/QueueItem.cpp\<close>).

  A list of parts is a vector of \<open>uint16_t\<close> read in pairs: the first block of a run and the
  block after its last.
\<close>

section \<open>Pairs\<close>

fun pairs :: "'a list \<Rightarrow> ('a \<times> 'a) list" where
  "pairs (a # b # r) = (a, b) # pairs r"
| "pairs r = []"

lemma pairs_map: "pairs (map f xs) = map (map_prod f f) (pairs xs)"
  by (induction xs rule: pairs.induct) simp_all

section \<open>A segment from a partial source\<close>

definition part_good :: "QueueItem \<Rightarrow> int \<Rightarrow> int list \<Rightarrow> Segment \<Rightarrow> bool" where
  "part_good q ts pa x \<longleftrightarrow> 0 \<le> seg_start x \<and> 0 < seg_size x \<and> seg_size x \<le> ts \<and>
     getEnd x \<le> qi_size q \<and>
     (\<forall>r \<in> set (downloads q). \<not> seg_overlaps x (seg r)) \<and>
     (\<exists>(p, e) \<in> set (pairs pa). bytes_of x \<subseteq> {p ..< e}) \<and>
     ((\<forall>s \<in> set (doneSegments q). aligned (blockSize q) (qi_size q) s) \<longrightarrow>
        aligned (blockSize q) (qi_size q) x \<and>
        (\<forall>s \<in> set (doneSegments q). \<not> bytes_of x \<subseteq> bytes_of s))"

definition good_pairs :: "QueueItem \<Rightarrow> int list \<Rightarrow> bool" where
  "good_pairs q pa \<longleftrightarrow> even (length pa) \<and>
     (\<forall>(p, e) \<in> set (pairs pa). 0 \<le> p \<and> p < e \<and> e \<le> qi_size q \<and>
        blockSize q dvd p \<and> (blockSize q dvd e \<or> e = qi_size q))"

text \<open>An aligned piece of one block is the whole block.\<close>

lemma dvd_between: "0 < (b::int) \<Longrightarrow> b dvd x \<Longrightarrow> b dvd y \<Longrightarrow> x < y \<Longrightarrow> x + b \<le> y"
  using zdvd_imp_le [of b "y - x"] by (simp add: dvd_diff)

lemma aligned_piece:
  assumes b: "0 < bs" "aligned bs n b" "seg_size b \<le> bs" "getEnd b \<le> n"
    and x: "aligned bs n x" "0 < seg_size x" "seg_start b \<le> seg_start x" "getEnd x \<le> getEnd b"
  shows "seg_start x = seg_start b" "getEnd x = getEnd b"
proof -
  show st: "seg_start x = seg_start b"
  proof (rule ccontr)
    assume "seg_start x \<noteq> seg_start b"
    then have "seg_start b + bs \<le> seg_start x"
      using b x by (intro dvd_between) (auto simp: aligned_def)
    then show False using b(3) x(2,4) by (simp add: getEnd_def)
  qed
  have "seg_start b + bs \<le> getEnd x \<or> getEnd x = n"
  proof (cases "getEnd x = n")
    case False
    have "seg_start b < getEnd x" using st x(2) by (simp add: getEnd_def)
    then show ?thesis
      using False b(1,2) x(1) dvd_between [of bs "seg_start b" "getEnd x"] by (simp add: aligned_def)
  qed simp
  then show "getEnd x = getEnd b" using b(3,4) x(4) by (auto simp: getEnd_def)
qed

lemma part_of_block_good:
  assumes wf: "wf_item q" and b: "good_block q b" "seg_size b \<le> ts"
    and pe: "(p, e) \<in> set (pairs pa)" "0 \<le> p" "p < e" "e \<le> qi_size q" "blockSize q dvd p"
      "blockSize q dvd e \<or> e = qi_size q"
    and x: "seg_start x = max (seg_start b) p" "getEnd x = min (getEnd b) e" "0 < seg_size x"
  shows "part_good q ts pa x"
proof -
  note bs = wf_itemD(2) [OF wf]
  note B = b(1) [unfolded good_block_def]
  have sub: "bytes_of x \<subseteq> bytes_of b" "bytes_of x \<subseteq> {p ..< e}" "bytes_of x \<noteq> {}"
    using x by (auto simp: bytes_of_def getEnd_def)
  have size: "seg_size x \<le> seg_size b" using x by (simp add: getEnd_def)
  have "\<not> seg_overlaps x (seg r)" if "r \<in> set (downloads q)" for r
    using B that x by (auto simp: seg_overlaps_def)
  moreover have "\<exists>(p, e) \<in> set (pairs pa). bytes_of x \<subseteq> {p ..< e}"
    using pe(1) sub(2) by blast
  moreover have "aligned (blockSize q) (qi_size q) x \<and> (\<forall>s \<in> set (doneSegments q). \<not> bytes_of x \<subseteq> bytes_of s)"
    if al: "\<forall>s \<in> set (doneSegments q). aligned (blockSize q) (qi_size q) s"
  proof
    have ab: "aligned (blockSize q) (qi_size q) b" using B al by blast
    then show ax: "aligned (blockSize q) (qi_size q) x"
      using pe x by (auto simp: aligned_def max_def min_def)
    show "\<forall>s \<in> set (doneSegments q). \<not> bytes_of x \<subseteq> bytes_of s"
    proof (cases "blockSize q < seg_size b")
      case True
      then have "bytes_of x \<inter> covered (doneSegments q) = {}" using B sub(1) by blast
      then show ?thesis using sub(3) by (auto simp: covered_def)
    next
      case False
      then have "seg_start x = seg_start b" "getEnd x = getEnd b"
        using aligned_piece [OF bs ab _ _ ax x(3)] B x by auto
      then have "bytes_of x = bytes_of b" by (simp add: bytes_of_def)
      then show ?thesis using B by simp
    qed
  qed
  ultimately show ?thesis
    using B x pe b(2) size by (auto simp: part_good_def)
qed

lemma collect_parts_run:
  assumes "wf_item q" "good_block q b" "seg_size b \<le> ts" "min stop (qi_size q) = getEnd b"
  shows "\<lbrakk>even (length qa); set (pairs qa) \<subseteq> set (pairs pa); good_pairs q pa\<rbrakk> \<Longrightarrow>
    \<exists>ps. collect_parts (seg_start b) stop qa = Some ps \<and> length ps \<le> length qa div 2 \<and>
      (\<forall>x \<in> set ps. part_good q ts pa x)"
proof (induction qa rule: pairs.induct)
  case (1 p e r)
  have pe: "(p, e) \<in> set (pairs pa)" using 1(3) by simp
  then have pok: "0 \<le> p" "p < e" "e \<le> qi_size q" "blockSize q dvd p" "blockSize q dvd e \<or> e = qi_size q"
    using 1(4) by (auto simp: good_pairs_def)
  obtain ps where ps: "collect_parts (seg_start b) stop r = Some ps" "length ps \<le> length r div 2"
    "\<forall>x \<in> set ps. part_good q ts pa x"
    using 1 by auto
  let ?x = "mk_segment (max (seg_start b) p) (min stop e - max (seg_start b) p)"
  show ?case
  proof (cases "(p \<le> seg_start b \<and> seg_start b < e) \<or> (seg_start b \<le> p \<and> p < stop)")
    case True
    have b: "seg_start b < getEnd b" using assms(2) by (simp add: good_block_def getEnd_def)
    have "min stop e = min (getEnd b) e" using pok(3) by (simp flip: assms(4))
    moreover have "p < getEnd b" using True b pok(2,3) by (auto simp flip: assms(4))
    ultimately have "part_good q ts pa ?x"
      using True b pok(2)
      by (intro part_of_block_good [OF assms(1-3) pe pok]) (auto simp: mk_segment_def getEnd_def)
    then show ?thesis using True ps by simp
  next
    case False
    then show ?thesis using ps by auto
  qed
qed simp_all

definition fwd_pos :: "QueueItem \<Rightarrow> int \<Rightarrow> int \<Rightarrow> bool" where
  "fwd_pos q i cur \<longleftrightarrow> 0 \<le> i \<and> i \<le> qi_size q \<and> blockSize q \<le> cur \<and> blockSize q dvd cur \<and>
     ((\<forall>s \<in> set (doneSegments q). aligned (blockSize q) (qi_size q) s) \<longrightarrow>
        blockSize q dvd i \<or> i = qi_size q)"

lemma fwd_pos_step:
  assumes "fwd_pos q i cur" "i < qi_size q" "0 < blockSize q" "blockSize q \<le> ts" "blockSize q dvd ts"
  shows "fwd_pos q (min (qi_size q) (i + cur)) ts"
proof -
  have "blockSize q dvd min (qi_size q) (i + cur) \<or> min (qi_size q) (i + cur) = qi_size q"
    if "\<forall>s \<in> set (doneSegments q). aligned (blockSize q) (qi_size q) s"
    using assms(1,2) that by (auto simp: fwd_pos_def min_def)
  then show ?thesis using assms by (auto simp: fwd_pos_def)
qed

text \<open>What has been collected at position \<open>i\<close>: good parts, and no more of them than blocks passed.\<close>

definition collected :: "QueueItem \<Rightarrow> int \<Rightarrow> int list \<Rightarrow> nat \<Rightarrow> Segment list \<Rightarrow> bool" where
  "collected q ts pa left acc \<longleftrightarrow> (\<forall>x \<in> set acc. part_good q ts pa x) \<and>
     length acc + (length pa div 2) * left \<le> (length pa div 2) * fwd_rank q (- blockSize q)"

lemma collected_more:
  assumes "collected q ts pa left acc" "left' < left" "length ps \<le> length pa div 2"
    "\<forall>x \<in> set ps. part_good q ts pa x"
  shows "collected q ts pa left' (acc @ ps)"
proof -
  have "(length pa div 2) * Suc left' \<le> (length pa div 2) * left"
    using assms(2) by (intro mult_le_mono2) simp
  then have "length pa div 2 + (length pa div 2) * left' \<le> (length pa div 2) * left" by simp
  with assms(1,3,4) show ?thesis by (auto simp: collected_def)
qed

lemma collected_skip: "collected q ts pa left acc \<Longrightarrow> left' < left \<Longrightarrow> collected q ts pa left' acc"
  using collected_more [of q ts pa left acc left' "[]"] by simp

lemma fwd_rank_mono: "0 < blockSize q \<Longrightarrow> i \<le> j \<Longrightarrow> fwd_rank q j \<le> fwd_rank q i"
  unfolding fwd_rank_def by (intro nat_mono zdiv_mono1) simp_all

lemma collected_nil: "0 < blockSize q \<Longrightarrow> - blockSize q \<le> i \<Longrightarrow> collected q ts pa (fwd_rank q i) []"
  by (simp add: collected_def fwd_rank_mono)

text \<open>The bytes a peer has, and those among them that have been passed over.\<close>

definition peer_bytes :: "int list \<Rightarrow> int set" where
  "peer_bytes pa = (\<Union>(p, e) \<in> set (pairs pa). {p ..< e})"

definition passed :: "QueueItem \<Rightarrow> int list \<Rightarrow> int set \<Rightarrow> Segment list \<Rightarrow> bool" where
  "passed q pa B acc \<longleftrightarrow>
     (downloads q = [] \<and> acc = [] \<longrightarrow> B \<inter> peer_bytes pa \<subseteq> covered (doneSegments q))"

lemma collect_parts_nil:
  "collect_parts start stop pa = Some [] \<Longrightarrow> {start ..< stop} \<inter> peer_bytes pa = {}"
proof (induction pa rule: pairs.induct)
  case (1 p e r)
  then have n: "\<not> ((p \<le> start \<and> start < e) \<or> (start \<le> p \<and> p < stop))"
    and r: "collect_parts start stop r = Some []" by (auto split: if_splits)
  have "{start ..< stop} \<inter> {p ..< e} = {}" using n by auto
  then show ?case using 1(1) [OF r] by (auto simp: peer_bytes_def)
qed (simp_all add: peer_bytes_def)

lemma passed_covered:
  assumes "passed q pa B acc" "B' \<subseteq> B \<union> C" "downloads q = [] \<longrightarrow> C \<subseteq> covered (doneSegments q)"
  shows "passed q pa B' acc"
  using assms unfolding passed_def by blast

lemma passed_collected:
  assumes "passed q pa B acc" "B' \<subseteq> B \<union> {start ..< stop}" "collect_parts start stop pa = Some ps"
  shows "passed q pa B' (acc @ ps)"
proof (cases ps)
  case Nil
  then have "{start ..< stop} \<inter> peer_bytes pa = {}" using collect_parts_nil assms(3) by blast
  then show ?thesis using assms(1,2) Nil unfolding passed_def by auto
qed (simp add: passed_def)

lemma getNextSegmentForward_parts:
  assumes wf: "wf_item q" and ts: "blockSize q \<le> ts" "blockSize q dvd ts" and pa: "good_pairs q pa"
  shows "\<exists>ps. getNextSegmentForward q (blockSize q) ts True pa = Some (mk_segment 0 0, ps) \<and>
    collected q ts pa 0 ps \<and> passed q pa {0 ..< qi_size q} ps"
proof -
  note b = wf_itemD(2) [OF wf]
  have step: "\<exists>ps. collect_parts i (min (qi_size q) (i + cur)) pa = Some ps \<and>
      length ps \<le> length pa div 2 \<and> (\<forall>x \<in> set ps. part_good q ts pa x)"
    if "i < qi_size q" "fwd_pos q i cur" "cur \<le> ts" "\<not> fwd_taken q (blockSize q) i cur" for i cur
  proof -
    have "good_block q (fwd_block q i cur)"
      using that b by (intro fwd_good [OF wf]) (auto simp: fwd_pos_def)
    moreover have "seg_size (fwd_block q i cur) \<le> ts" using that by (simp add: fwd_block_fields)
    moreover have "min (min (qi_size q) (i + cur)) (qi_size q) = getEnd (fwd_block q i cur)"
      by (simp add: fwd_block_fields)
    moreover have "even (length pa)" using pa by (simp add: good_pairs_def)
    ultimately show ?thesis
      using collect_parts_run [OF wf _ _ _ _ subset_refl pa, of "fwd_block q i cur"]
      unfolding fwd_block_fields by blast
  qed
  let ?I = "\<lambda>i cur acc. fwd_pos q i cur \<and> cur \<le> ts \<and> collected q ts pa (fwd_rank q i) acc \<and>
      passed q pa {0 ..< i} acc"
  have "\<exists>r. forward_loop q (blockSize q) ts True pa (fwd_start q) ts [] = Some r \<and>
      fst r = mk_segment 0 0 \<and> collected q ts pa 0 (snd r) \<and> passed q pa {0 ..< qi_size q} (snd r)"
  proof (rule fwd.scan_rule [where I = ?I and rank = "fwd_rank q"], goal_cases)
    case 1 show ?case by (rule b)
  next
    case (2 i cur acc) then show ?case using b by (simp add: fwd_pos_def)
  next
    case (3 i cur acc) then show ?case using fwd_rank_less b by (simp add: fwd_pos_def)
  next
    case (4 i cur acc)
    then show ?case using dvd_shrink [OF b, of cur] b by (simp add: fwd_pos_def)
  next
    case (5 i cur acc)
    then have "fwd_rank q (min (qi_size q) (i + cur)) < fwd_rank q i"
      by (intro fwd_rank_less b) (simp_all add: fwd_pos_def)
    moreover have "passed q pa {0 ..< min (qi_size q) (i + cur)} acc"
    proof (rule passed_covered)
      show "passed q pa {0 ..< i} acc" using 5 by blast
      show "{0 ..< min (qi_size q) (i + cur)} \<subseteq> {0 ..< i} \<union> {i ..< min (qi_size q) (i + cur)}" by auto
      show "downloads q = [] \<longrightarrow> {i ..< min (qi_size q) (i + cur)} \<subseteq> covered (doneSegments q)"
        using fwd_taken_small [OF 5(3,4)] by blast
    qed
    ultimately show ?case using 5 fwd_pos_step [OF _ _ b ts] collected_skip by blast
  next
    case (6 i cur acc)
    then have "fwd_rank q (min (qi_size q) (i + cur)) < fwd_rank q i"
      by (intro fwd_rank_less b) (simp_all add: fwd_pos_def)
    moreover obtain ps where ps: "collect_parts i (min (qi_size q) (i + cur)) pa = Some ps"
      "length ps \<le> length pa div 2" "\<forall>x \<in> set ps. part_good q ts pa x"
      using 6 step [of i cur] by blast
    moreover have "passed q pa {0 ..< min (qi_size q) (i + cur)} (acc @ ps)"
      using 6 by (intro passed_collected [where B = "{0 ..< i}", OF _ _ ps(1)]) auto
    ultimately show ?case
      using 6 fwd_pos_step [OF _ _ b ts] collected_more [of q ts pa "fwd_rank q i"] by blast
  next
    case (7 i cur acc) then show ?case by simp
  next
    case (8 i cur acc)
    then have "i = qi_size q" by (simp add: fwd_pos_def)
    then show ?case using 8 by (simp add: collected_def)
  next
    case 9
    have "passed q pa {0 ..< fwd_start q} []"
      using fwd_start_facts(3) [OF wf] by (auto simp: passed_def)
    then show ?case using fwd_start_facts [OF wf] ts b by (auto simp: fwd_pos_def intro: collected_nil)
  qed
  then show ?thesis by (auto simp: getNextSegmentForward_eq)
qed

lemma getNextSegmentBackward_parts:
  assumes wf: "wf_item q" and nf: "\<not> isFinished q"
    and ts: "blockSize q \<le> ts" "blockSize q dvd ts" and pa: "good_pairs q pa"
  shows "\<exists>ps. getNextSegmentBackward q (blockSize q) ts True pa = Some (mk_segment 0 0, ps) \<and>
    collected q ts pa 0 ps \<and> passed q pa {0 ..< qi_size q} ps"
proof -
  note b = wf_itemD(2) [OF wf]
  have step: "\<exists>ps. collect_parts (max 0 (i - cur)) i pa = Some ps \<and>
      length ps \<le> length pa div 2 \<and> (\<forall>x \<in> set ps. part_good q ts pa x)"
    if "0 < i" "bwd_pos q i cur" "cur \<le> ts" "\<not> bwd_taken q (blockSize q) i cur" for i cur
  proof -
    have "good_block q (bwd_block q i cur)" using bwd_good [OF wf] that by blast
    moreover have "seg_size (bwd_block q i cur) \<le> ts"
      using that unfolding bwd_block_fields by linarith
    moreover have "min i (qi_size q) = getEnd (bwd_block q i cur)" by (simp only: bwd_block_fields)
    moreover have "even (length pa)" using pa by (simp add: good_pairs_def)
    ultimately show ?thesis
      using collect_parts_run [OF wf _ _ _ _ subset_refl pa, of "bwd_block q i cur"]
      unfolding bwd_block_fields by blast
  qed
  let ?rank = "\<lambda>i. fwd_rank q (qi_size q - i)"
  let ?I = "\<lambda>i cur acc. bwd_pos q i cur \<and> cur \<le> ts \<and> collected q ts pa (?rank i) acc \<and>
      passed q pa {i ..< qi_size q} acc"
  have "\<exists>r. backward_loop q (blockSize q) ts True pa (bwd_start q) ts [] = Some r \<and>
      fst r = mk_segment 0 0 \<and> collected q ts pa 0 (snd r) \<and> passed q pa {0 ..< qi_size q} (snd r)"
  proof (rule bwd.scan_rule [where I = ?I and rank = ?rank], goal_cases)
    case 1 show ?case by (rule b)
  next
    case (2 i cur acc) then show ?case using b by (simp add: bwd_pos_def)
  next
    case (3 i cur acc) then show ?case using bwd_rank_less b by (simp add: bwd_pos_def)
  next
    case (4 i cur acc)
    then show ?case using dvd_shrink [OF b, of cur] b by (simp add: bwd_pos_def)
  next
    case (5 i cur acc)
    then have "?rank (max 0 (i - cur)) < ?rank i"
      by (intro bwd_rank_less b) (simp_all add: bwd_pos_def)
    moreover have "passed q pa {max 0 (i - cur) ..< qi_size q} acc"
    proof (rule passed_covered)
      show "passed q pa {i ..< qi_size q} acc" using 5 by blast
      show "{max 0 (i - cur) ..< qi_size q} \<subseteq> {i ..< qi_size q} \<union> {max 0 (i - cur) ..< i}" by auto
      show "downloads q = [] \<longrightarrow> {max 0 (i - cur) ..< i} \<subseteq> covered (doneSegments q)"
        using bwd_taken_small [OF 5(3,4)] by blast
    qed
    ultimately show ?case using 5 bwd_pos_step [OF wf _ ts] collected_skip by blast
  next
    case (6 i cur acc)
    then have "?rank (max 0 (i - cur)) < ?rank i"
      by (intro bwd_rank_less b) (simp_all add: bwd_pos_def)
    moreover obtain ps where ps: "collect_parts (max 0 (i - cur)) i pa = Some ps"
      "length ps \<le> length pa div 2" "\<forall>x \<in> set ps. part_good q ts pa x"
      using 6 step [of i cur] by blast
    moreover have "passed q pa {max 0 (i - cur) ..< qi_size q} (acc @ ps)"
      using 6 by (intro passed_collected [where B = "{i ..< qi_size q}", OF _ _ ps(1)]) auto
    ultimately show ?case
      using 6 bwd_pos_step [OF wf _ ts] collected_more [of q ts pa "?rank i"] by blast
  next
    case (7 i cur acc) then show ?case by simp
  next
    case (8 i cur acc)
    then have "i = 0" by (simp add: bwd_pos_def)
    then show ?case using 8 by (simp add: collected_def)
  next
    case 9
    have inv: "bwd_pos q (bwd_start q) ts" and "passed q pa {bwd_start q ..< qi_size q} []"
      using bwd_start_inv [OF wf nf ts] by (auto simp: bwd_inv_def passed_def)
    moreover from inv have "- blockSize q \<le> qi_size q - bwd_start q" by (simp add: bwd_pos_def)
    ultimately show ?case using collected_nil [OF b] by simp
  qed
  then show ?thesis by (auto simp: getNextSegmentBackward_eq)
qed

definition valid_parts :: "QueueItem \<Rightarrow> PartialSource \<Rightarrow> bool" where
  "valid_parts q p \<longleftrightarrow> even (length (ps_parts p)) \<and>
     (\<forall>(a, b) \<in> set (pairs (ps_parts p)). a < b \<and> uint a * blockSize q < qi_size q)"

lemma good_pairs_pos_array:
  assumes wf: "wf_item q" and v: "valid_parts q p"
  shows "good_pairs q (pos_array q (Some p))"
proof (cases "ps_blockSize p = blockSize q")
  case True
  let ?f = "\<lambda>i :: u16. min (qi_size q) (uint i * blockSize q)"
  have b: "0 < blockSize q" by (rule wf_itemD(2) [OF wf])
  have "0 \<le> ?f x \<and> ?f x < ?f y \<and> ?f y \<le> qi_size q \<and> blockSize q dvd ?f x \<and>
      (blockSize q dvd ?f y \<or> ?f y = qi_size q)"
    if "(x, y) \<in> set (pairs (ps_parts p))" for x y
  proof -
    have xy: "uint x < uint y" "uint x * blockSize q < qi_size q"
      using v that by (auto simp: valid_parts_def word_less_def)
    then have "uint x * blockSize q < uint y * blockSize q" using b by simp
    moreover have "0 \<le> uint x * blockSize q" using b by simp
    ultimately show ?thesis using xy(2) by (auto simp: min_def)
  qed
  then show ?thesis
    using v True by (auto simp: good_pairs_def pos_array_def pairs_map valid_parts_def)
qed (simp add: pos_array_def good_pairs_def)

lemma search_parts:
  assumes wf: "wf_item q" and pa: "good_pairs q pa"
  shows "\<exists>ps. (if shouldSearchBackward q then getNextSegmentBackward else getNextSegmentForward)
      q (blockSize q) (segment_target target q gsp) True pa = Some (mk_segment 0 0, ps) \<and>
      collected q (segment_target target q gsp) pa 0 ps \<and> passed q pa {0 ..< qi_size q} ps"
  using getNextSegmentForward_parts [OF wf segment_target_ok pa]
    getNextSegmentBackward_parts [OF wf _ segment_target_ok pa]
    shouldSearchBackward_unfinished wf_itemD(1,2) [OF wf]
  by (cases "shouldSearchBackward q") auto

lemma random_index:
  assumes "0 < n" "n < 2 ^ 32"
  shows "(of_nat n :: u32) \<noteq> 0" "unat (r mod (of_nat n :: u32)) < n"
proof -
  have u: "unat (of_nat n :: u32) = n" using assms(2) by (rule unat_of_nat_u32)
  then show "(of_nat n :: u32) \<noteq> 0" using assms(1) by (metis unat_0 less_numeral_extra(3))
  show "unat (r mod (of_nat n :: u32)) < n" using assms(1) u by (simp add: unat_mod)
qed

lemma peer_bytes_in_file: "good_pairs q pa \<Longrightarrow> peer_bytes pa \<subseteq> {0 ..< qi_size q}"
  by (fastforce simp: good_pairs_def peer_bytes_def)

lemma getNextSegmentL_partial_run:
  assumes wf: "wf_item q" and multi: "enableMultiChunk gsp" and lim: "\<not> segment_limit q gsp"
    and parts: "valid_parts q p"
    and few: "(length (pos_array q (Some p)) div 2) * fwd_rank q (- blockSize q) < 2 ^ 32"
  shows "\<exists>e s. getNextSegmentL target rnd q gsp (Some p) = Some (e, s) \<and>
    (e = SUCCESS \<and> part_good q (segment_target target q gsp) (pos_array q (Some p)) s \<or>
     e = ERROR_NO_NEEDED_PART \<and>
       (downloads q = [] \<longrightarrow> peer_bytes (pos_array q (Some p)) \<subseteq> covered (doneSegments q)))"
proof -
  let ?ts = "segment_target target q gsp" and ?pa = "pos_array q (Some p)"
  note gp = good_pairs_pos_array [OF wf parts]
  obtain ps where ps: "(if shouldSearchBackward q then getNextSegmentBackward else getNextSegmentForward)
      q (blockSize q) ?ts True ?pa = Some (mk_segment 0 0, ps)" "collected q ?ts ?pa 0 ps"
      "passed q ?pa {0 ..< qi_size q} ps"
    using search_parts [OF wf gp] by blast
  have z: "seg_size (mk_segment 0 0) = 0" by (simp add: mk_segment_def)
  show ?thesis
  proof (cases "ps = []")
    case True
    then have "downloads q = [] \<longrightarrow> peer_bytes ?pa \<subseteq> covered (doneSegments q)"
      using ps(3) peer_bytes_in_file [OF gp] by (auto simp: passed_def)
    then show ?thesis
      using True ps(1) by (simp add: getNextSegmentL_multi [OF wf multi lim] z)
  next
    case False
    have "length ps < 2 ^ 32" using ps(2) few by (simp add: collected_def)
    then have idx: "(of_nat (length ps) :: u32) \<noteq> 0" "unat (rnd mod (of_nat (length ps) :: u32)) < length ps"
      using random_index [of "length ps"] False by simp_all
    let ?x = "ps ! unat (rnd mod (of_nat (length ps) :: u32))"
    have good: "part_good q ?ts ?pa ?x" using ps(2) idx(2) by (simp add: collected_def)
    then have "seg_setSize ?x (min (seg_size ?x) ?ts) = ?x"
      by (simp add: part_good_def seg_setSize_def)
    then show ?thesis
      using False ps(1) idx(1) good by (simp add: getNextSegmentL_multi [OF wf multi lim] z Let_def)
  qed
qed


definition ex_partial :: PartialSource where
  "ex_partial = \<lparr>ps_parts = [0, 3, 8, 10], ps_blockSize = 10\<rparr>"


text \<open>
  The runs are not checked where they arrive (\<open>SearchManager::onPSR\<close>): a run that ends before
  it begins makes a segment of negative size, which is handed out as a success.
\<close>

lemma descending_run_negative_segment:
  "getNextSegmentL (\<lambda>w _ _. w) 0 ex_item ex_params (Some \<lparr>ps_parts = [9, 3], ps_blockSize = 10\<rparr>) =
     Some (SUCCESS, mk_segment 90 (- 60))"
  by code_simp

text \<open>
  Finished segments that end inside a block: the bytes 20 to 30 are finished, and the first half
  of them is offered again.
\<close>

lemma unaligned_done_offered:
  "getNextSegmentL (\<lambda>w _ _. w) 0
     (ex_item\<lparr>downloads := [], doneSegments := [mk_segment 0 15, mk_segment 20 10]\<rparr>) ex_params
     (Some \<lparr>ps_parts = [2, 3], ps_blockSize = 10\<rparr>) = Some (SUCCESS, mk_segment 20 5)"
  by code_simp

end
