(* ===== verification/PartsInfo.thy ===== *)
theory PartsInfo
  imports PartialSources
begin

text \<open>
  The lists of parts that partial file sharing exchanges: \<open>getParts\<close>, \<open>isNeededPart\<close>,
  \<open>countParts\<close> and \<open>compareParts\<close> of \<open>src/client/QueueItem.cpp\<close>. A list stands for the set of
  blocks of its runs.
\<close>

section \<open>Operations\<close>

text \<open>
  The loop of \<open>isNeededPart\<close>: \<open>theirs\<close> is what follows the run that \<open>start\<close> and \<open>stop\<close> were
  read from, \<open>ours\<close> is what the index \<open>j\<close> has not passed.
\<close>

function needed_loop :: "u16 \<Rightarrow> u16 \<Rightarrow> u16 list \<Rightarrow> u16 list \<Rightarrow> bool" where
  "needed_loop start stop theirs (myStart # myEnd # ours) =
     (if start < myStart then True
      else if start \<ge> myEnd then needed_loop start stop theirs ours
      else if stop \<le> myEnd then
        (case theirs of
           s # e # theirs' \<Rightarrow> needed_loop s e theirs' (myStart # myEnd # ours)
         | _ \<Rightarrow> False)
      else needed_loop myEnd stop theirs ours)"
| "needed_loop start stop theirs [] = True"
| "needed_loop start stop theirs [x] = True"
  by pat_completeness auto

termination needed_loop
  by (relation "measure (\<lambda>(_, _, theirs, ours). length theirs + length ours)") simp_all

definition isNeededPart :: "u16 list \<Rightarrow> u16 list \<Rightarrow> bool" where
  "isNeededPart theirParts ourParts =
     (if odd (length theirParts) \<or> odd (length ourParts) then False
      else case theirParts of
             start # stop # r \<Rightarrow> needed_loop start stop r ourParts
           | _ \<Rightarrow> False)"

text \<open>\<open>getParts\<close> appends to \<open>partialInfo\<close> until it has \<open>maxSize\<close> numbers.\<close>

fun parts_loop :: "int \<Rightarrow> int \<Rightarrow> nat \<Rightarrow> u16 list \<Rightarrow> Segment list \<Rightarrow> u16 list" where
  "parts_loop n bs maxSize partialInfo [] = partialInfo"
| "parts_loop n bs maxSize partialInfo (i # is) =
     (if length partialInfo < maxSize then
        let s = word_of_int ((seg_start i + bs - 1) div bs);
            end0 = getEnd i;
            end1 = (if end0 \<ge> n then end0 + (bs - 1) else end0);
            e = word_of_int (end1 div bs)
        in parts_loop n bs maxSize (partialInfo @ [s, e]) is
      else partialInfo)"

definition getParts :: "QueueItem \<Rightarrow> int \<Rightarrow> u16 list \<Rightarrow> u16 list" where
  "getParts q bs partialInfo =
     (if bs = 0 then partialInfo
      else parts_loop (qi_size q) bs (min (length (doneSegments q) * 2) 510) partialInfo (doneSegments q))"

fun countParts :: "u16 list \<Rightarrow> int" where
  "countParts (s # e # r) = (uint e - uint s) + countParts r"
| "countParts r = 0"

definition compareParts :: "u16 list \<Rightarrow> u16 list \<Rightarrow> bool" where
  "compareParts a b = (if length a \<noteq> length b then False else a = b)"

section \<open>The blocks of a list\<close>

definition blocks_of :: "u16 list \<Rightarrow> int set" where
  "blocks_of ps = (\<Union>(s, e) \<in> set (pairs ps). {uint s ..< uint e})"

fun ascending :: "u16 list \<Rightarrow> bool" where
  "ascending (s # e # r) \<longleftrightarrow> s < e \<and> (\<forall>x \<in> set r. e \<le> x) \<and> ascending r"
| "ascending [] \<longleftrightarrow> True"
| "ascending [x] \<longleftrightarrow> False"

lemma blocks_of_simps [simp]:
  "blocks_of (s # e # r) = {uint s ..< uint e} \<union> blocks_of r"
  "blocks_of [] = {}"
  by (simp_all add: blocks_of_def)

lemma pairs_sub: "(s, e) \<in> set (pairs r) \<Longrightarrow> s \<in> set r \<and> e \<in> set r"
  by (induction r rule: pairs.induct) auto

lemma blocks_of_above: "\<forall>x \<in> set r. e \<le> x \<Longrightarrow> k \<in> blocks_of r \<Longrightarrow> uint e \<le> k"
  by (fastforce simp: blocks_of_def word_le_def dest: pairs_sub)

lemma ascending_even: "ascending ps \<Longrightarrow> even (length ps)"
  by (induction ps rule: ascending.induct) auto

text \<open>
  The loop compares the two lists from the left; what it has passed of ours lies below
  the part of theirs that is left.
\<close>

lemma needed_loop_correct:
  "\<lbrakk>ascending (start # stop # theirs); ascending ours\<rbrakk> \<Longrightarrow>
   needed_loop start stop theirs ours \<longleftrightarrow> \<not> blocks_of (start # stop # theirs) \<subseteq> blocks_of ours"
proof (induction start stop theirs ours rule: needed_loop.induct)
  case (1 start stop theirs myStart myEnd ours)
  note IH = "1.IH" and prems = "1.prems"
  have st: "uint start < uint stop" and my: "uint myStart < uint myEnd"
    using prems by (simp_all add: word_less_def)
  have theirs: "\<And>k. k \<in> blocks_of theirs \<Longrightarrow> uint stop \<le> k" using prems(1) by (intro blocks_of_above) simp_all
  have ours: "\<And>k. k \<in> blocks_of ours \<Longrightarrow> uint myEnd \<le> k" using prems(2) by (intro blocks_of_above) simp_all
  consider "start < myStart" | "\<not> start < myStart" "start \<ge> myEnd"
    | "\<not> start < myStart" "\<not> start \<ge> myEnd" "stop \<le> myEnd"
    | "\<not> start < myStart" "\<not> start \<ge> myEnd" "\<not> stop \<le> myEnd" by blast
  then show ?case
  proof cases
    case a: 1
    then have "uint start \<notin> blocks_of (myStart # myEnd # ours)"
      using my ours [of "uint start"] by (auto simp: word_less_def)
    moreover have "uint start \<in> blocks_of (start # stop # theirs)" using st by simp
    ultimately have "\<not> blocks_of (start # stop # theirs) \<subseteq> blocks_of (myStart # myEnd # ours)" by blast
    then show ?thesis using a by simp
  next
    case a: 2
    have "uint myEnd \<le> k" if "k \<in> blocks_of (start # stop # theirs)" for k
      using that a(2) st theirs [of k] by (auto simp: word_le_def)
    then have "blocks_of (start # stop # theirs) \<subseteq> blocks_of (myStart # myEnd # ours) \<longleftrightarrow>
        blocks_of (start # stop # theirs) \<subseteq> blocks_of ours" by fastforce
    then show ?thesis using a IH(1) prems by simp
  next
    case a: 3
    have cov: "{uint start ..< uint stop} \<subseteq> blocks_of (myStart # myEnd # ours)"
      using a by (auto simp: word_less_def word_le_def)
    show ?thesis
    proof (cases theirs rule: ascending.cases)
      case (1 s e r)
      then show ?thesis using a cov IH(2) prems by simp
    next
      case 2
      then show ?thesis using a cov by simp
    next
      case (3 v)
      then show ?thesis using prems by simp
    qed
  next
    case a: 4
    have "blocks_of (start # stop # theirs) \<subseteq> blocks_of (myStart # myEnd # ours) \<longleftrightarrow>
        blocks_of (myEnd # stop # theirs) \<subseteq> blocks_of ours"
    proof -
      have "uint myEnd \<le> k" if "k \<in> blocks_of (myEnd # stop # theirs)" for k
        using that a(3) theirs [of k] by (auto simp: word_le_def)
      moreover have "blocks_of (start # stop # theirs) =
          {uint start ..< uint myEnd} \<union> blocks_of (myEnd # stop # theirs)"
        using a by (auto simp: word_less_def word_le_def)
      moreover have "{uint start ..< uint myEnd} \<subseteq> {uint myStart ..< uint myEnd}"
        using a(1) by (auto simp: word_less_def)
      ultimately show ?thesis by fastforce
    qed
    then show ?thesis using a IH(3) prems by simp
  qed
qed (simp_all add: word_less_def)

text \<open>
  Which partial sources are worth a connection (\<open>QueueItem::isNeededPart\<close>): when both lists
  are ascending lists of non-empty runs, the answer is true exactly when they have a block
  that we do not have.
\<close>

lemma isNeededPart_iff:
  assumes "ascending theirs" "ascending ours"
  shows "isNeededPart theirs ours \<longleftrightarrow> \<not> blocks_of theirs \<subseteq> blocks_of ours"
proof (cases theirs rule: ascending.cases)
  case (1 s e r)
  then show ?thesis
    using assms ascending_even [OF assms(1)] ascending_even [OF assms(2)] needed_loop_correct [of s e r ours]
    by (simp add: isNeededPart_def)
qed (use assms in \<open>simp_all add: isNeededPart_def\<close>)

section \<open>The parts of an item\<close>

text \<open>The blocks of a file that are finished: the last one may be short.\<close>

definition block_done :: "QueueItem \<Rightarrow> int \<Rightarrow> int \<Rightarrow> bool" where
  "block_done q bs k \<longleftrightarrow> 0 \<le> k \<and> k * bs < qi_size q \<and>
     {k * bs ..< min (qi_size q) ((k + 1) * bs)} \<subseteq> covered (doneSegments q)"

definition run_of :: "int \<Rightarrow> int \<Rightarrow> Segment \<Rightarrow> u16 \<times> u16" where
  "run_of n bs i = (word_of_int ((seg_start i + bs - 1) div bs),
     word_of_int ((if getEnd i \<ge> n then getEnd i + (bs - 1) else getEnd i) div bs))"

lemma pairs_append: "even (length xs) \<Longrightarrow> pairs (xs @ ys) = pairs xs @ pairs ys"
  by (induction xs rule: pairs.induct) simp_all

lemma parts_loop_pairs:
  "even (length acc) \<Longrightarrow> even m \<Longrightarrow>
   even (length (parts_loop n bs m acc segs)) \<and>
   pairs (parts_loop n bs m acc segs) = pairs acc @ map (run_of n bs) (take ((m - length acc) div 2) segs)"
proof (induction segs arbitrary: acc)
  case (Cons i segs)
  show ?case
  proof (cases "length acc < m")
    case True
    have "length acc + 2 \<le> m" using True Cons.prems by presburger
    then have "(m - length acc) div 2 = Suc ((m - (length acc + 2)) div 2)" by simp
    with True Cons.IH [of "acc @ [fst (run_of n bs i), snd (run_of n bs i)]"] Cons.prems
    show ?thesis by (simp add: Let_def run_of_def pairs_append)
  qed (use Cons.prems in simp)
qed simp

lemma getParts_pairs:
  "bs \<noteq> 0 \<Longrightarrow> even (length (getParts q bs [])) \<and>
   pairs (getParts q bs []) = map (run_of (qi_size q) bs) (take 255 (doneSegments q))"
proof -
  assume "bs \<noteq> 0"
  moreover have "take (min (length (doneSegments q) * 2) 510 div 2) (doneSegments q) = take 255 (doneSegments q)"
    by (simp add: min_def)
  ultimately show ?thesis
    using parts_loop_pairs [of "[]" "min (length (doneSegments q) * 2) 510" "qi_size q" bs "doneSegments q"]
    by (simp add: getParts_def min_def)
qed

text \<open>The block numbers of a segment fit when the file has at most 65535 blocks.\<close>

lemma uint_u16: "0 \<le> k \<Longrightarrow> k < 65536 \<Longrightarrow> uint (word_of_int k :: u16) = k"
  by (simp add: unsigned_of_int take_bit_int_eq_self)

lemma less_div: "0 < (b::int) \<Longrightarrow> k < x div b \<longleftrightarrow> (k + 1) * b \<le> x"
proof -
  assume b: "0 < b"
  have m: "x = x div b * b + x mod b" "0 \<le> x mod b" "x mod b < b" using b by simp_all
  show ?thesis
  proof
    assume "k < x div b"
    then have "(k + 1) * b \<le> x div b * b" using b by (intro mult_right_mono) simp_all
    then show "(k + 1) * b \<le> x" using m by linarith
  next
    assume "(k + 1) * b \<le> x"
    then have "(k + 1) * b div b \<le> x div b" using b by (intro zdiv_mono1) simp_all
    then show "k < x div b" using b by simp
  qed
qed
lemma div_up_le: "0 < (b::int) \<Longrightarrow> (x + b - 1) div b \<le> k \<longleftrightarrow> x \<le> k * b"
  using less_div [of b k "x + b - 1"] by (auto simp: not_less algebra_simps)

lemma run_of_iff:
  assumes bs: "0 < bs" and i: "0 \<le> seg_start i" "0 < seg_size i" "getEnd i \<le> n" and n: "n \<le> 65535 * bs"
  shows "k \<in> {uint (fst (run_of n bs i)) ..< uint (snd (run_of n bs i))} \<longleftrightarrow>
    seg_start i \<le> k * bs \<and> (if getEnd i < n then (k + 1) * bs \<le> getEnd i else k * bs < n)"
proof -
  have le: "seg_start i \<le> 65535 * bs" "getEnd i \<le> 65535 * bs" "0 \<le> getEnd i"
    using i n by (simp_all add: getEnd_def)
  have "(seg_start i + bs - 1) div bs \<le> 65535" using le(1) bs by (simp add: div_up_le)
  moreover have "0 \<le> (seg_start i + bs - 1) div bs" using i bs by (simp add: pos_imp_zdiv_nonneg_iff)
  ultimately have s: "uint (fst (run_of n bs i)) = (seg_start i + bs - 1) div bs"
    by (simp add: run_of_def uint_u16)
  have "getEnd i div bs \<le> 65535"
    using zdiv_mono1 [OF le(2) bs] bs by simp
  moreover have "(getEnd i + (bs - 1)) div bs \<le> 65535"
    using div_up_le [OF bs, of "getEnd i" 65535] le(2) by (simp add: algebra_simps)
  moreover have "0 \<le> getEnd i div bs" "0 \<le> (getEnd i + (bs - 1)) div bs"
    using le(3) bs by (simp_all add: pos_imp_zdiv_nonneg_iff)
  ultimately have e: "uint (snd (run_of n bs i)) =
      (if getEnd i < n then getEnd i div bs else (getEnd i + (bs - 1)) div bs)"
    by (simp add: run_of_def uint_u16)
  have "k < (getEnd i + (bs - 1)) div bs \<longleftrightarrow> k * bs < getEnd i"
    using less_div [OF bs, of k "getEnd i + (bs - 1)"] by (auto simp: algebra_simps)
  then show ?thesis
    using i(3) div_up_le [OF bs, of "seg_start i" k] less_div [OF bs, of k "getEnd i"]
    unfolding s e by auto
qed

lemma run_of_block:
  assumes "0 < bs" "0 \<le> seg_start i" "0 < seg_size i" "getEnd i \<le> n" "n \<le> 65535 * bs"
  shows "k \<in> {uint (fst (run_of n bs i)) ..< uint (snd (run_of n bs i))} \<longleftrightarrow>
    0 \<le> k \<and> k * bs < n \<and> {k * bs ..< min n ((k + 1) * bs)} \<subseteq> bytes_of i"
proof -
  have k: "0 \<le> k \<longleftrightarrow> 0 \<le> k * bs" using assms(1) by (simp add: zero_le_mult_iff)
  have bk: "k * bs < (k + 1) * bs" using assms(1) by simp
  have A: "{k * bs ..< min n ((k + 1) * bs)} \<subseteq> bytes_of i \<longleftrightarrow>
      seg_start i \<le> k * bs \<and> min n ((k + 1) * bs) \<le> getEnd i" if "k * bs < n"
  proof -
    have "\<not> min n ((k + 1) * bs) \<le> k * bs" using that bk by linarith
    then show ?thesis by (simp add: bytes_of_def)
  qed
  show ?thesis
  proof (cases "k * bs < n")
    case True
    show ?thesis
      using assms(2,4) bk True unfolding run_of_iff [OF assms] A [OF True] k by (auto simp: min_def)
  next
    case False
    then show ?thesis using assms(4) bk unfolding run_of_iff [OF assms] by auto
  qed
qed

lemma separated_gap:
  "separated segs \<Longrightarrow> s \<in> set segs \<Longrightarrow> t \<in> set segs \<Longrightarrow>
   s = t \<or> getEnd s < seg_start t \<or> getEnd t < seg_start s"
  by (induction segs) (auto simp: separated_iff)

lemma separated_interval:
  assumes sep: "separated segs" and ab: "a < b" and cov: "{a ..< b} \<subseteq> covered segs"
  shows "\<exists>s \<in> set segs. {a ..< b} \<subseteq> bytes_of s"
proof -
  have "a \<in> covered segs" using ab cov by auto
  then obtain s where s: "s \<in> set segs" "seg_start s \<le> a" "a < getEnd s"
    by (auto simp: covered_def bytes_of_def)
  have "b \<le> getEnd s"
  proof (rule ccontr)
    assume "\<not> b \<le> getEnd s"
    then have "getEnd s \<in> covered segs" using s cov by auto
    then obtain t where t: "t \<in> set segs" "seg_start t \<le> getEnd s" "getEnd s < getEnd t"
      by (auto simp: covered_def bytes_of_def)
    then show False using separated_gap [OF sep s(1) t(1)] s by auto
  qed
  then have "{a ..< b} \<subseteq> bytes_of s" using s by (auto simp: bytes_of_def)
  with s(1) show ?thesis by blast
qed

lemma blocks_of_getParts:
  assumes "bs \<noteq> 0"
  shows "blocks_of (getParts q bs []) = (\<Union>i \<in> set (take 255 (doneSegments q)).
    {uint (fst (run_of (qi_size q) bs i)) ..< uint (snd (run_of (qi_size q) bs i))})"
  using getParts_pairs [OF assms, of q] by (simp add: blocks_of_def case_prod_beta)

lemma getParts_run:
  assumes wf: "wf_item q" and bs: "0 < bs" and n: "qi_size q \<le> 65535 * bs"
  shows "length (getParts q bs []) \<le> 510 \<and>
    (\<forall>k \<in> blocks_of (getParts q bs []). block_done q bs k) \<and>
    (length (doneSegments q) \<le> 255 \<longrightarrow> (\<forall>k. block_done q bs k \<longrightarrow> k \<in> blocks_of (getParts q bs [])))"
proof (intro conjI ballI impI allI)
  have b: "bs \<noteq> 0" using bs by simp
  note run = run_of_block [OF bs _ _ _ n]
  have "length ps = 2 * length (pairs ps)" if "even (length ps)" for ps :: "u16 list"
    using that by (induction ps rule: pairs.induct) simp_all
  from this [of "getParts q bs []"] show "length (getParts q bs []) \<le> 510"
    using getParts_pairs [OF b, of q] by simp
  show "block_done q bs k" if kb: "k \<in> blocks_of (getParts q bs [])" for k
  proof -
    obtain i where i: "i \<in> set (take 255 (doneSegments q))"
      "k \<in> {uint (fst (run_of (qi_size q) bs i)) ..< uint (snd (run_of (qi_size q) bs i))}"
      using kb unfolding blocks_of_getParts [OF b] by blast
    then have d: "i \<in> set (doneSegments q)" by (meson in_set_takeD)
    show ?thesis
      using run [OF wf_done_bounds [OF wf d], of k] i(2) d by (auto simp: block_done_def covered_def)
  qed
  show "k \<in> blocks_of (getParts q bs [])" if l: "length (doneSegments q) \<le> 255" and k: "block_done q bs k" for k
  proof -
    have "k * bs < min (qi_size q) ((k + 1) * bs)" using k bs by (simp add: block_done_def)
    then obtain i where i: "i \<in> set (doneSegments q)" "{k * bs ..< min (qi_size q) ((k + 1) * bs)} \<subseteq> bytes_of i"
      using separated_interval [OF wf_itemD(3) [OF wf]] k unfolding block_done_def by blast
    then have "k \<in> {uint (fst (run_of (qi_size q) bs i)) ..< uint (snd (run_of (qi_size q) bs i))}"
      using run [OF wf_done_bounds [OF wf i(1)], of k] k unfolding block_done_def by blast
    then show ?thesis unfolding blocks_of_getParts [OF b] using i(1) l by auto
  qed
qed

text \<open>
  What we announce to others (\<open>QueueItem::getParts\<close>), for a file of at most 65535 blocks:
  at most 510 numbers, and every block in an announced run is finished; when there are at
  most 255 finished segments, every finished block is announced.
\<close>

theorem getParts_correct:
  assumes "wf_item q" and "0 < bs" and "qi_size q \<le> 65535 * bs"
  shows "length (getParts q bs []) \<le> 510 \<and>
    (\<forall>k \<in> blocks_of (getParts q bs []). block_done q bs k) \<and>
    (length (doneSegments q) \<le> 255 \<longrightarrow> (\<forall>k. block_done q bs k \<longrightarrow> k \<in> blocks_of (getParts q bs [])))"
  using assms by (rule getParts_run)

theorem getParts_correct_witness:
  "wf_item ex_item \<and> getParts ex_item 10 [] = [0, 2, 6, 8] \<and>
   block_done ex_item 10 7 \<and> \<not> block_done ex_item 10 3"
proof -
  have n: "qi_size ex_item \<le> 65535 * 10" and l: "length (doneSegments ex_item) \<le> 255"
    by (simp_all add: ex_item_def)
  have run: "getParts ex_item 10 [] = [0, 2, 6, 8]" by code_simp
  have "7 \<in> blocks_of [0, 2, 6, 8]" "3 \<notin> blocks_of [0, 2, 6, 8]" by simp_all
  then show ?thesis using getParts_correct [OF ex_item_wf _ n] run l ex_item_wf by auto
qed

section \<open>Their parts and ours\<close>

lemma parts_of_pairs: "even (length ps) \<Longrightarrow> ps = concat (map (\<lambda>(s, e). [s, e]) (pairs ps))"
  by (induction ps rule: pairs.induct) simp_all

lemma ascending_concat:
  "ascending (concat (map (\<lambda>(s, e). [s, e]) rs)) \<longleftrightarrow>
     sorted_wrt (\<lambda>(_, e) (s, _). e \<le> s) rs \<and> (\<forall>(s, e) \<in> set rs. s < e)"
proof (induction rs)
  case (Cons r rs)
  obtain s e where r: "r = (s, e)" by (cases r)
  have "(\<forall>x \<in> set (concat (map (\<lambda>(s, e). [s, e]) rs)). e \<le> x) \<longleftrightarrow> (\<forall>(s', e') \<in> set rs. e \<le> s')"
    if "\<forall>(s, e) \<in> set rs. s < e"
    using that by fastforce
  then show ?case using Cons by (auto simp: r)
qed simp

text \<open>The runs of aligned segments are not empty and ascend.\<close>

lemma run_of_aligned:
  assumes "0 < bs" "0 \<le> seg_start i" "0 < seg_size i" "getEnd i \<le> n" "n \<le> 65535 * bs" "aligned bs n i"
  shows "fst (run_of n bs i) < snd (run_of n bs i)"
proof -
  have "bs dvd seg_start i" using assms(6) by (simp add: aligned_def)
  then obtain k where k: "seg_start i = k * bs" by (metis dvdE mult.commute)
  have "getEnd i < n \<Longrightarrow> (k + 1) * bs \<le> getEnd i"
    using dvd_between [OF assms(1), of "seg_start i" "getEnd i"] assms(3,6) k
    by (simp add: aligned_def getEnd_def algebra_simps)
  moreover have "k * bs < n" using k assms(3,4) by (simp add: getEnd_def)
  ultimately have "k \<in> {uint (fst (run_of n bs i)) ..< uint (snd (run_of n bs i))}"
    unfolding run_of_iff [OF assms(1-5)] using k by simp
  then show ?thesis by (simp add: word_less_def)
qed

lemma run_of_order:
  assumes bs: "0 < bs" and i: "0 \<le> seg_start i" "0 < seg_size i"
    and j: "getEnd i < seg_start j" "0 < seg_size j" "getEnd j \<le> n" and n: "n \<le> 65535 * bs"
  shows "snd (run_of n bs i) \<le> fst (run_of n bs j)"
proof -
  have b: "0 \<le> getEnd i" "getEnd i < n" "seg_start j \<le> 65535 * bs"
    using i j n by (simp_all add: getEnd_def)
  have e: "getEnd i div bs \<le> (seg_start j + bs - 1) div bs"
    using j(1) bs by (intro zdiv_mono1) simp_all
  have "(seg_start j + bs - 1) div bs \<le> 65535" using b(3) by (simp add: div_up_le [OF bs])
  moreover have "0 \<le> getEnd i div bs" using b(1) bs by (simp add: pos_imp_zdiv_nonneg_iff)
  ultimately show ?thesis
    using e b(2) by (simp add: run_of_def word_le_def uint_u16)
qed

lemma ascending_getParts:
  assumes wf: "wf_item q" and bs: "0 < bs" and n: "qi_size q \<le> 65535 * bs"
    and al: "\<forall>s \<in> set (doneSegments q). aligned bs (qi_size q) s"
  shows "ascending (getParts q bs [])"
proof -
  let ?segs = "take 255 (doneSegments q)" and ?run = "run_of (qi_size q) bs"
  have in_done: "s \<in> set ?segs \<Longrightarrow> s \<in> set (doneSegments q)" for s by (meson in_set_takeD)
  have "sorted_wrt (\<lambda>a b. getEnd a < seg_start b) ?segs"
    using wf_itemD(3) [OF wf] by (simp add: separated_iff sorted_wrt_take)
  then have "sorted_wrt (\<lambda>a b. snd (?run a) \<le> fst (?run b)) ?segs"
  proof (rule sorted_wrt_mono_rel [rotated])
    fix a b
    assume ab: "a \<in> set ?segs" "b \<in> set ?segs" "getEnd a < seg_start b"
    show "snd (?run a) \<le> fst (?run b)"
      using wf_done_bounds [OF wf in_done [OF ab(1)]] wf_done_bounds [OF wf in_done [OF ab(2)]] ab(3)
      by (intro run_of_order bs n) simp_all
  qed
  then have "sorted_wrt (\<lambda>(_, e) (s, _). e \<le> s) (map ?run ?segs)"
    by (simp add: sorted_wrt_map case_prod_beta)
  moreover have "fst (?run a) < snd (?run a)" if "a \<in> set ?segs" for a
    using wf_done_bounds [OF wf in_done [OF that]] al in_done [OF that]
    by (intro run_of_aligned bs n) simp_all
  then have "\<forall>(s, e) \<in> set (map ?run ?segs). s < e" by (simp add: case_prod_beta)
  ultimately show ?thesis
    using getParts_pairs [of bs q] bs parts_of_pairs [of "getParts q bs []"] ascending_concat by force
qed

text \<open>
  The decision to connect to a partial source (\<open>QueueManager::handlePartialResult\<close>:
  \<open>isNeededPart\<close> on the parts it announced and on \<open>getParts\<close> of the item). For a file of at
  most 65535 blocks with at most 255 finished segments, all aligned to blocks, and an
  ascending list of non-empty runs from the peer, the connection is wanted exactly when
  the peer has a block that is not finished here.
\<close>

theorem partial_source_wanted:
  assumes wf: "wf_item q" and n: "qi_size q \<le> 65535 * blockSize q"
    and l: "length (doneSegments q) \<le> 255"
    and al: "\<forall>s \<in> set (doneSegments q). aligned (blockSize q) (qi_size q) s"
    and theirs: "ascending theirs"
  shows "isNeededPart theirs (getParts q (blockSize q) []) \<longleftrightarrow>
    (\<exists>k \<in> blocks_of theirs. \<not> block_done q (blockSize q) k)"
proof -
  note bs = wf_itemD(2) [OF wf]
  have "k \<in> blocks_of (getParts q (blockSize q) []) \<longleftrightarrow> block_done q (blockSize q) k" for k
    using getParts_run [OF wf bs n] l by blast
  then show ?thesis
    using isNeededPart_iff [OF theirs ascending_getParts [OF wf bs n al]] by blast
qed

theorem partial_source_wanted_witness:
  "wf_item ex_item \<and> ascending [0, 2, 5, 9] \<and> isNeededPart [0, 2, 5, 9] (getParts ex_item 10 []) \<and>
   (\<exists>k \<in> blocks_of [0, 2, 5, 9]. \<not> block_done ex_item 10 k)"
proof -
  have b: "blockSize ex_item = 10" by (simp add: ex_item_def)
  have n: "qi_size ex_item \<le> 65535 * blockSize ex_item" and l: "length (doneSegments ex_item) \<le> 255"
    by (simp_all add: ex_item_def)
  have al: "\<forall>s \<in> set (doneSegments ex_item). aligned (blockSize ex_item) (qi_size ex_item) s"
    by (simp add: ex_item_def aligned_def seg_simps)
  have a: "ascending [0, 2, 5, 9]" by simp
  have "isNeededPart [0, 2, 5, 9] (getParts ex_item 10 [])" by code_simp
  then show ?thesis
    using partial_source_wanted [OF ex_item_wf n l al a] ex_item_wf a unfolding b by blast
qed

section \<open>Counting\<close>

text \<open>\<open>countParts\<close> is the number of blocks of an ascending list.\<close>

lemma countParts_correct: "ascending ps \<Longrightarrow> countParts ps = int (card (blocks_of ps))"
proof (induction ps rule: ascending.induct)
  case (1 s e r)
  have fin: "finite (blocks_of r)" by (auto simp: blocks_of_def)
  have "k \<in> blocks_of r \<Longrightarrow> uint e \<le> k" for k using 1(2) by (intro blocks_of_above) simp_all
  then have "{uint s ..< uint e} \<inter> blocks_of r = {}" by fastforce
  moreover have "uint s < uint e" using 1(2) by (simp add: word_less_def)
  ultimately show ?case using 1 fin by (simp add: card_Un_disjoint)
qed simp_all

end
