(* ===== verification/QueueSteps.thy ===== *)
theory QueueSteps
  imports PartsInfo
begin

text \<open>
  The life of a queue item: the choice of an item and the reservation of a segment of it
  for a user (\<open>QueueManager::UserQueue::getNextL\<close> of \<open>src/client/QueueManager.cpp\<close>), and the
  sequences of operations on the segments of an item.
\<close>

section \<open>Choosing an item\<close>

text \<open>
  What \<open>getNextL\<close> reads of an item that is queued for the user: the item, the user's entry in
  its sources (\<open>None\<close> when there is none, with the partial source if there is one), the
  flags of the source, and whether the item is a file list and may have several segments.
\<close>

record UserItem =
  ui_qi :: QueueItem
  ui_source :: "PartialSource option option"
  ui_sourceFlags :: u32
  ui_isFileList :: bool
  ui_allowSegments :: bool

text \<open>The arguments of a call; \<open>rnd k\<close> is the random number of the \<open>k\<close>-th item looked at.\<close>

record NextArgs =
  na_target :: "int \<Rightarrow> int \<Rightarrow> int \<Rightarrow> int"
  na_rnd :: "nat \<Rightarrow> u32"
  na_gsp :: GetSegmentParams
  na_hasFreeSlots :: bool
  na_addSegment :: bool
  na_allowRemove :: bool

record NextState =
  ns_error :: seg_error
  ns_item :: "QueueItem option"
  ns_removed :: "UserItem list"

datatype next_outcome =
    Reserved UserItem Segment
  | NoSegment NextState

definition isWaiting :: "QueueItem \<Rightarrow> bool" where
  "isWaiting q \<longleftrightarrow> downloads q = []"

text \<open>What the code does with one item: pass it over, or ask it for a segment.\<close>

datatype item_check = Skip | SlotsTaken | Ask "PartialSource option"

definition check_item :: "NextArgs \<Rightarrow> UserItem \<Rightarrow> item_check" where
  "check_item args x =
     (case ui_source x of
        None \<Rightarrow> Skip
      | Some partial \<Rightarrow>
          if isWaiting (ui_qi x) then
            if \<not> ui_isFileList x \<and> \<not> na_hasFreeSlots args then SlotsTaken else Ask partial
          else if ui_isFileList x \<or> qi_size (ui_qi x) = -1 \<or> \<not> ui_allowSegments x then Skip
          else Ask partial)"

fun items_loop ::
  "NextArgs \<Rightarrow> nat \<Rightarrow> UserItem list \<Rightarrow> UserItem list \<Rightarrow> NextState
     \<Rightarrow> (next_outcome \<times> UserItem list \<times> nat) option" where
  "items_loop args k kept [] st = Some (NoSegment st, kept, k)"
| "items_loop args k kept (x # xs) st =
     (case check_item args x of
        Skip \<Rightarrow> items_loop args (Suc k) (kept @ [x]) xs st
      | SlotsTaken \<Rightarrow>
          items_loop args (Suc k) (kept @ [x]) xs
            (st\<lparr>ns_error := ERROR_FILE_SLOTS_TAKEN, ns_item := Some (ui_qi x)\<rparr>)
      | Ask partial \<Rightarrow>
          Option.bind (getNextSegmentL (na_target args) (na_rnd args k) (ui_qi x) (na_gsp args) partial)
            (\<lambda>(sourceError, segment).
               if seg_size segment \<noteq> 0 then
                 if na_addSegment args \<and> seg_size segment \<noteq> -1 then
                   let x' = x\<lparr>ui_qi := addDownload_seg segment (ui_qi x)\<rparr>
                   in Some (Reserved x' segment, kept @ x' # xs, k)
                 else Some (Reserved x (mk_segment 0 (-1)), kept @ x # xs, k)
               else
                 let st' = (if ns_error st = ERROR_NO_ITEM
                            then st\<lparr>ns_error := sourceError, ns_item := Some (ui_qi x)\<rparr> else st)
                 in if na_allowRemove args \<and> partial \<noteq> None \<and> sourceError = ERROR_NO_NEEDED_PART
                    then items_loop args (Suc k) kept xs (st'\<lparr>ns_removed := ns_removed st' @ [x]\<rparr>)
                    else items_loop args (Suc k) (kept @ [x]) xs st'))"

text \<open>
  The queue of a user: for every priority the list of items, if there is one. The loop
  goes down from \<open>p\<close> to \<open>minPrio\<close>, and looks at \<open>p\<close> in any case.
\<close>

type_synonym user_queue = "nat \<Rightarrow> UserItem list option"

function prio_loop ::
  "NextArgs \<Rightarrow> nat \<Rightarrow> nat \<Rightarrow> nat \<Rightarrow> user_queue \<Rightarrow> NextState \<Rightarrow> (next_outcome \<times> user_queue) option" where
  "prio_loop args minPrio p k uq st =
     (case uq p of
        None \<Rightarrow> if p > minPrio then prio_loop args minPrio (p - 1) k uq st else Some (NoSegment st, uq)
      | Some items \<Rightarrow>
          (case items_loop args k [] items st of
             None \<Rightarrow> None
           | Some (Reserved x s, items', _) \<Rightarrow> Some (Reserved x s, uq(p := Some items'))
           | Some (NoSegment st', items', k') \<Rightarrow>
               let uq' = uq(p := if items' = [] then None else Some items') in
               if p > minPrio then prio_loop args minPrio (p - 1) k' uq' st'
               else Some (NoSegment st', uq')))"
  by pat_completeness auto

termination prio_loop
  by (relation "measure (\<lambda>(_, _, p, _). p)") auto

definition getNextL :: "NextArgs \<Rightarrow> nat \<Rightarrow> user_queue \<Rightarrow> (next_outcome \<times> user_queue) option" where
  "getNextL args minPrio uq =
     prio_loop args minPrio 7 0 uq \<lparr>ns_error = ERROR_NO_ITEM, ns_item = None, ns_removed = []\<rparr>"

section \<open>The item that is chosen\<close>

text \<open>The segment the \<open>k\<close>-th item offers, if it offers one.\<close>

definition offer :: "NextArgs \<Rightarrow> nat \<Rightarrow> UserItem \<Rightarrow> Segment option" where
  "offer args k x =
     (case check_item args x of
        Ask partial \<Rightarrow>
          (case getNextSegmentL (na_target args) (na_rnd args k) (ui_qi x) (na_gsp args) partial of
             Some (_, s) \<Rightarrow> if seg_size s \<noteq> 0 then Some s else None
           | None \<Rightarrow> None)
      | _ \<Rightarrow> None)"

fun first_offer :: "NextArgs \<Rightarrow> nat \<Rightarrow> UserItem list \<Rightarrow> (UserItem \<times> Segment) option" where
  "first_offer args k [] = None"
| "first_offer args k (x # xs) =
     (case offer args k x of Some s \<Rightarrow> Some (x, s) | None \<Rightarrow> first_offer args (Suc k) xs)"

fun prio_items :: "nat \<Rightarrow> nat \<Rightarrow> user_queue \<Rightarrow> UserItem list" where
  "prio_items minPrio p uq =
     (case uq p of None \<Rightarrow> [] | Some items \<Rightarrow> items) @
     (if p > minPrio then prio_items minPrio (p - 1) uq else [])"

text \<open>The items on which the search for a segment returns.\<close>

definition item_ok :: "UserItem \<Rightarrow> bool" where
  "item_ok x \<longleftrightarrow> wf_item (ui_qi x) \<and>
     (case ui_source x of
        Some (Some p) \<Rightarrow> valid_parts (ui_qi x) p \<and>
          (length (pos_array (ui_qi x) (Some p)) div 2) * fwd_rank (ui_qi x) (- blockSize (ui_qi x)) < 2 ^ 32
      | _ \<Rightarrow> True)"

lemma getNextSegmentL_returns:
  assumes wf: "wf_item q"
    and p: "\<And>p. partial = Some p \<Longrightarrow> valid_parts q p \<and>
      (length (pos_array q (Some p)) div 2) * fwd_rank q (- blockSize q) < 2 ^ 32"
  shows "\<exists>e s. getNextSegmentL target rnd q gsp partial = Some (e, s)"
proof -
  have n: "qi_size q \<noteq> -1" "blockSize q \<noteq> 0" using wf_itemD(1,2) [OF wf] by simp_all
  consider "\<not> enableMultiChunk gsp" | "enableMultiChunk gsp" "segment_limit q gsp"
    | "enableMultiChunk gsp" "\<not> segment_limit q gsp" by blast
  then show ?thesis
  proof cases
    case 1
    then show ?thesis using n by (simp add: getNextSegmentL_def Let_def)
  next
    case 2
    then show ?thesis using n unfolding getNextSegmentL_def Let_def segment_limit_def by simp
  next
    case 3
    show ?thesis
    proof (cases partial)
      case None
      then show ?thesis using getNextSegmentL_full_run [OF wf 3(1)] by blast
    next
      case (Some p)
      then show ?thesis using getNextSegmentL_partial_run [OF wf 3, of p] p by blast
    qed
  qed
qed

definition reserved_of :: "NextArgs \<Rightarrow> UserItem \<Rightarrow> Segment \<Rightarrow> next_outcome" where
  "reserved_of args x s =
     (if na_addSegment args \<and> seg_size s \<noteq> -1
      then Reserved (x\<lparr>ui_qi := addDownload_seg s (ui_qi x)\<rparr>) s
      else Reserved x (mk_segment 0 (-1)))"

lemma ask_returns:
  assumes "item_ok x" "check_item args x = Ask partial"
  shows "\<exists>e s. getNextSegmentL (na_target args) r (ui_qi x) gsp partial = Some (e, s)"
proof (rule getNextSegmentL_returns)
  have "ui_source x = Some partial"
    using assms(2) by (auto simp: check_item_def split: option.splits if_splits)
  with assms(1) show "wf_item (ui_qi x)" "\<And>p. partial = Some p \<Longrightarrow> valid_parts (ui_qi x) p \<and>
      (length (pos_array (ui_qi x) (Some p)) div 2) * fwd_rank (ui_qi x) (- blockSize (ui_qi x)) < 2 ^ 32"
    by (auto simp: item_ok_def)
qed

definition outcome_is ::
  "NextArgs \<Rightarrow> (UserItem \<times> Segment) option \<Rightarrow> nat \<Rightarrow> (next_outcome \<times> UserItem list \<times> nat) option \<Rightarrow> bool" where
  "outcome_is args fo n r \<longleftrightarrow>
     (case fo of
        Some (x, s) \<Rightarrow> \<exists>items' k'. r = Some (reserved_of args x s, items', k')
      | None \<Rightarrow> \<exists>st' items'. r = Some (NoSegment st', items', n))"

lemma items_loop_first:
  "\<forall>x \<in> set xs. item_ok x \<Longrightarrow>
   outcome_is args (first_offer args k xs) (k + length xs) (items_loop args k kept xs st)"
proof (induction xs arbitrary: k kept st)
  case (Cons x xs)
  note IH = Cons.IH [of "Suc k"]
  have ok: "item_ok x" and oks: "\<forall>x \<in> set xs. item_ok x" using Cons.prems by simp_all
  show ?case
  proof (cases "check_item args x")
    case Skip
    then show ?thesis using IH [OF oks] by (simp add: offer_def)
  next
    case SlotsTaken
    then show ?thesis using IH [OF oks] by (simp add: offer_def)
  next
    case (Ask partial)
    obtain e s where r: "getNextSegmentL (na_target args) (na_rnd args k) (ui_qi x) (na_gsp args) partial = Some (e, s)"
      using ask_returns [OF ok Ask] by blast
    show ?thesis
    proof (cases "seg_size s = 0")
      case True
      then show ?thesis using Ask r IH [OF oks] by (simp add: offer_def Let_def)
    next
      case False
      then show ?thesis using Ask r by (simp add: offer_def Let_def reserved_of_def outcome_is_def)
    qed
  qed
qed (simp add: outcome_is_def)

lemma first_offer_append:
  "first_offer args k (xs @ ys) =
     (case first_offer args k xs of Some r \<Rightarrow> Some r | None \<Rightarrow> first_offer args (k + length xs) ys)"
  by (induction xs arbitrary: k) (auto split: option.splits)

declare prio_items.simps [simp del] prio_loop.simps [simp del]

lemma prio_items_upd: "p < p' \<Longrightarrow> prio_items minPrio p (uq(p' := v)) = prio_items minPrio p uq"
  by (induction minPrio p uq rule: prio_items.induct) (auto simp: prio_items.simps)

lemma prio_loop_first:
  "\<forall>x \<in> set (prio_items minPrio p uq). item_ok x \<Longrightarrow>
   (case first_offer args k (prio_items minPrio p uq) of
      Some (x, s) \<Rightarrow> \<exists>uq'. prio_loop args minPrio p k uq st = Some (reserved_of args x s, uq')
    | None \<Rightarrow> \<exists>st' uq'. prio_loop args minPrio p k uq st = Some (NoSegment st', uq'))"
proof (induction p arbitrary: k uq st rule: less_induct)
  case (less p)
  let ?rest = "if p > minPrio then prio_items minPrio (p - 1) uq else []"
  show ?case
  proof (cases "uq p")
    case None
    then have items: "prio_items minPrio p uq = ?rest" by (simp add: prio_items.simps [of minPrio p])
    show ?thesis
    proof (cases "p > minPrio")
      case True
      have e1: "prio_loop args minPrio p k uq st = prio_loop args minPrio (p - 1) k uq st"
        using True None by (simp add: prio_loop.simps [of args minPrio p])
      have e2: "prio_items minPrio p uq = prio_items minPrio (p - 1) uq" using True items by simp
      show ?thesis unfolding e1 e2 by (rule less.IH) (use True less.prems e2 in simp_all)
    next
      case False
      then show ?thesis using items None by (simp add: prio_loop.simps [of args minPrio p])
    qed
  next
    case (Some xs)
    then have items: "prio_items minPrio p uq = xs @ ?rest" by (simp add: prio_items.simps [of minPrio p])
    have oks: "\<forall>x \<in> set xs. item_ok x" using less.prems by (simp add: items)
    note run = items_loop_first [OF oks, of args k "[]" st, unfolded outcome_is_def]
    show ?thesis
    proof (cases "first_offer args k xs")
      case (Some r)
      obtain x s where r: "r = (x, s)" by (cases r)
      obtain items' k' where il: "items_loop args k [] xs st = Some (reserved_of args x s, items', k')"
        using run Some r by auto
      obtain x' s' where rv: "reserved_of args x s = Reserved x' s'" by (cases "na_addSegment args \<and> seg_size s \<noteq> -1") (auto simp: reserved_of_def)
      show ?thesis
        using Some r il \<open>uq p = Some xs\<close> rv
        by (simp add: items first_offer_append prio_loop.simps [of args minPrio p])
    next
      case None
      obtain st' items' where il: "items_loop args k [] xs st = Some (NoSegment st', items', k + length xs)"
        using run None by auto
      let ?uq = "uq(p := if items' = [] then None else Some items')"
      show ?thesis
      proof (cases "p > minPrio")
        case True
        have same: "prio_items minPrio (p - 1) ?uq = prio_items minPrio (p - 1) uq"
          using True by (intro prio_items_upd) simp
        have e1: "prio_loop args minPrio p k uq st = prio_loop args minPrio (p - 1) (k + length xs) ?uq st'"
          using True il \<open>uq p = Some xs\<close> by (simp add: Let_def prio_loop.simps [of args minPrio p])
        have e2: "first_offer args k (prio_items minPrio p uq) =
            first_offer args (k + length xs) (prio_items minPrio (p - 1) ?uq)"
          using True None unfolding same by (simp add: items first_offer_append)
        have "\<forall>x \<in> set (prio_items minPrio (p - 1) ?uq). item_ok x"
          using less.prems True unfolding same by (simp add: items)
        then show ?thesis unfolding e1 e2 by (rule less.IH [rotated]) (use True in simp)
      next
        case False
        then show ?thesis
          using il None \<open>uq p = Some xs\<close>
          by (simp add: items first_offer_append Let_def prio_loop.simps [of args minPrio p])
      qed
    qed
  qed
qed

text \<open>
  C11: The choice of an item for a user (\<open>QueueManager::UserQueue::getNextL\<close>). When the items
  queued for the user are well-formed, the call returns. It reserves a segment of the first
  item, from the highest priority down to \<open>minPrio\<close> and in the order of the lists, that is
  not held back (no source entry, no free file slot, a running item that takes no further
  segment) and that has a segment to offer; and it reports an error only when no item has.
\<close>

theorem getNextL_first_offer:
  assumes "\<forall>x \<in> set (prio_items minPrio 7 uq). item_ok x"
  shows "case first_offer args 0 (prio_items minPrio 7 uq) of
      Some (x, s) \<Rightarrow> \<exists>uq'. getNextL args minPrio uq = Some (reserved_of args x s, uq')
    | None \<Rightarrow> \<exists>st' uq'. getNextL args minPrio uq = Some (NoSegment st', uq')"
  unfolding getNextL_def by (rule prio_loop_first [OF assms])

definition ex_queue :: user_queue where
  "ex_queue = (\<lambda>_. None)(4 := Some [
     \<lparr>ui_qi = ex_item, ui_source = None, ui_sourceFlags = 0, ui_isFileList = False, ui_allowSegments = True\<rparr>,
     \<lparr>ui_qi = ex_item, ui_source = Some None, ui_sourceFlags = 0, ui_isFileList = False, ui_allowSegments = True\<rparr>])"

definition ex_args :: NextArgs where
  "ex_args = \<lparr>na_target = (\<lambda>w _ _. w), na_rnd = (\<lambda>_. 0), na_gsp = ex_params, na_hasFreeSlots = True,
     na_addSegment = True, na_allowRemove = True\<rparr>"

lemma ex_queue_items:
  "prio_items 1 7 ex_queue =
     [\<lparr>ui_qi = ex_item, ui_source = None, ui_sourceFlags = 0, ui_isFileList = False, ui_allowSegments = True\<rparr>,
      \<lparr>ui_qi = ex_item, ui_source = Some None, ui_sourceFlags = 0, ui_isFileList = False, ui_allowSegments = True\<rparr>]"
  by (simp add: prio_items.simps ex_queue_def)

theorem getNextL_first_offer_witness:
  "list_all item_ok (prio_items 1 7 ex_queue) \<and>
   (\<exists>x uq'. getNextL ex_args 1 ex_queue = Some (Reserved x (mk_segment 20 10), uq') \<and>
     downloads (ui_qi x) = downloads ex_item @ [\<lparr>seg = mk_segment 20 10, rs_d = None\<rparr>])"
proof -
  have ok: "\<forall>x \<in> set (prio_items 1 7 ex_queue). item_ok x"
    unfolding ex_queue_items using ex_item_wf by (simp add: item_ok_def)
  have fo: "first_offer ex_args 0 (prio_items 1 7 ex_queue) = Some
      (\<lparr>ui_qi = ex_item, ui_source = Some None, ui_sourceFlags = 0, ui_isFileList = False, ui_allowSegments = True\<rparr>,
       mk_segment 20 10)"
    unfolding ex_queue_items by code_simp
  show ?thesis
    using getNextL_first_offer [OF ok, of ex_args] ok fo
    by (auto simp: reserved_of_def ex_args_def mk_segment_def addDownload_seg_def list_all_iff)
qed

section \<open>One segment at a time\<close>

text \<open>
  Without chunks the segment is the first gap of the file, when the finished segments are
  aligned to blocks.
\<close>

lemma round_aligned: "0 < b \<Longrightarrow> b dvd n \<Longrightarrow> roundDown n b = n \<and> roundUp n b = n"
proof -
  assume b: "0 < b" and d: "b dvd n"
  then obtain k where k: "n = b * k" by blast
  have h: "0 \<le> b div 2" "b div 2 < b" using b by simp_all
  have "(b * k + b div 2) div b = k" using b h by simp
  moreover have "(b * k + b - 1) div b = k"
    using b div_mult_self4 [of b k "b - 1"] by (simp add: algebra_simps)
  ultimately show ?thesis by (simp add: roundDown_def roundUp_def k algebra_simps)
qed

lemma single_segment_first_gap:
  assumes wf: "wf_item q" and nf: "\<not> isFinished q"
    and al: "\<forall>s \<in> set (doneSegments q). aligned (blockSize q) (qi_size q) s"
  shows "0 < seg_size (single_segment q) \<and> getEnd (single_segment q) \<le> qi_size q \<and>
    0 \<le> seg_start (single_segment q) \<and>
    {0 ..< seg_start (single_segment q)} \<subseteq> covered (doneSegments q) \<and>
    bytes_of (single_segment q) \<inter> covered (doneSegments q) = {}"
proof (cases "doneSegments q")
  case Nil
  then show ?thesis
    using wf_itemD(1) [OF wf] by (simp add: single_segment_def mk_segment_def getEnd_def)
next
  case (Cons a r)
  note bs = wf_itemD(2) [OF wf]
  have a: "0 \<le> seg_start a" "0 < seg_size a" "getEnd a \<le> qi_size q"
    using wf_done_bounds [OF wf, of a] by (simp_all add: Cons)
  have ra: "roundUp (seg_start a) (blockSize q) = seg_start a"
    using round_aligned [OF bs] al by (simp add: Cons aligned_def)
  have above: "\<And>x. x \<in> covered r \<Longrightarrow> getEnd a < x"
    using covered_above wf_itemD(3) [OF wf] by (simp add: Cons)
  show ?thesis
  proof (cases "seg_start a > 0")
    case True
    have s: "single_segment q = mk_segment 0 (seg_start a)"
      using True a by (simp add: single_segment_def Cons ra getEnd_def)
    have "bytes_of (mk_segment 0 (seg_start a)) \<inter> covered (a # r) = {}"
      using above a by (fastforce simp: bytes_of_def mk_segment_def getEnd_def)
    then show ?thesis using True a by (simp add: s Cons) (simp add: mk_segment_def getEnd_def)
  next
    case False
    then have a0: "seg_start a = 0" using a by simp
    have "getEnd a \<noteq> qi_size q"
    proof
      assume e: "getEnd a = qi_size q"
      have "r = []"
      proof (cases r)
        case (Cons c r')
        then have "c \<in> set (doneSegments q)" "getEnd a < seg_start c"
          using wf_itemD(3) [OF wf] by (simp_all add: \<open>doneSegments q = a # r\<close>)
        then show ?thesis using e wf_done_bounds [OF wf, of c] by (simp add: getEnd_def)
      qed simp
      then show False using nf e a0 by (simp add: isFinished_def segs_finished_def Cons getEnd_def)
    qed
    then have ea: "roundDown (getEnd a) (blockSize q) = getEnd a" "getEnd a < qi_size q"
      using round_aligned [OF bs] al a by (auto simp: Cons aligned_def)
    have cov: "{0 ..< getEnd a} \<subseteq> covered (a # r)" using a0 by (auto simp: bytes_of_def)
    show ?thesis
    proof (cases r)
      case Nil
      have "single_segment q = mk_segment (getEnd a) (qi_size q - getEnd a)"
        using False by (simp add: single_segment_def Cons Nil ea)
      then show ?thesis
        using ea a cov by (auto simp: Cons Nil mk_segment_def getEnd_def bytes_of_def)
    next
      case (Cons c r')
      have c: "getEnd a < seg_start c" "0 < seg_size c" "getEnd c \<le> qi_size q"
        using wf_itemD(3) [OF wf] wf_done_bounds [OF wf, of c] by (simp_all add: \<open>doneSegments q = a # r\<close> Cons)
      have rc: "roundUp (seg_start c) (blockSize q) = seg_start c"
        using round_aligned [OF bs] al by (simp add: \<open>doneSegments q = a # r\<close> Cons aligned_def)
      have "seg_start c \<le> qi_size q" using c by (simp add: getEnd_def)
      then have s: "single_segment q = mk_segment (getEnd a) (seg_start c - getEnd a)"
        using False by (simp add: single_segment_def Let_def \<open>doneSegments q = a # r\<close> Cons ea rc)
      have low: "seg_start c \<le> x" if "x \<in> covered r" for x
        using that wf_itemD(3) [OF wf] covered_above [of c r' x] c
        by (auto simp: \<open>doneSegments q = a # r\<close> Cons bytes_of_def getEnd_def)
      have "bytes_of (mk_segment (getEnd a) (seg_start c - getEnd a)) \<inter> covered (a # r) = {}"
        using low by (fastforce simp: bytes_of_def mk_segment_def getEnd_def)
      then show ?thesis
        using c cov a by (simp add: s \<open>doneSegments q = a # r\<close>) (simp add: mk_segment_def getEnd_def)
    qed
  qed
qed

section \<open>Sequences of operations\<close>

text \<open>
  The operations on the segments of an item, in any order. A segment is reserved when the
  search offers it (the part of \<open>getNextL\<close> that calls \<open>getNextSegmentL\<close> and \<open>addDownload\<close>);
  it is attached to its download, and removed when the transfer ends. A finished segment
  is recorded when it lies in the file. A download of a tree or of a file without known
  blocks is added with the segment it was constructed with.
\<close>

definition source_ok :: "QueueItem \<Rightarrow> PartialSource option \<Rightarrow> bool" where
  "source_ok q partial \<longleftrightarrow>
     (case partial of
        None \<Rightarrow> True
      | Some p \<Rightarrow> valid_parts q p \<and>
          (length (pos_array q (Some p)) div 2) * fwd_rank q (- blockSize q) < 2 ^ 32)"

definition mode_ok :: "QueueItem \<Rightarrow> GetSegmentParams \<Rightarrow> bool" where
  "mode_ok q gsp \<longleftrightarrow> enableMultiChunk gsp \<or>
     (\<not> isFinished q \<and> (\<forall>s \<in> set (doneSegments q). aligned (blockSize q) (qi_size q) s))"

inductive queue_step :: "QueueItem \<Rightarrow> QueueItem \<Rightarrow> bool" where
  reserve: "\<lbrakk>source_ok q partial; mode_ok q gsp;
     getNextSegmentL target rnd q gsp partial = Some (e, s); seg_size s \<noteq> 0; seg_size s \<noteq> -1\<rbrakk> \<Longrightarrow>
   queue_step q (addDownload_seg s q)"
| start_whole: "getSegment (st d) = default_segment \<Longrightarrow> queue_step q (addDownload st d q)"
| attach: "queue_step q (snd (setDownloadForSegment s d q))"
| remove_user: "queue_step q (snd (removeDownload_user st user q))"
| remove_seg: "queue_step q (snd (removeDownload_seg s q))"
| finish_seg: "\<lbrakk>0 < seg_size s; bytes_of s \<subseteq> {0 ..< qi_size q}\<rbrakk> \<Longrightarrow> queue_step q (addSegment s q)"
| reset: "queue_step q (resetDownloadedL q)"
| speed: "queue_step q (updateDownloadedBytesAndSpeed st q)"
| count_bytes: "queue_step q (updateDownloadedBytes q)"
| grow_block: "0 < bs \<Longrightarrow> queue_step q (snd (updateBlockSize bs q))"

definition running_ok :: "int \<Rightarrow> RunningSegment list \<Rightarrow> bool" where
  "running_ok n ds \<longleftrightarrow> sorted_wrt (\<lambda>a b. \<not> seg_overlaps (seg a) (seg b)) ds \<and>
     (\<forall>r \<in> set ds. seg r = default_segment \<or>
        (0 \<le> seg_start (seg r) \<and> 0 < seg_size (seg r) \<and> getEnd (seg r) \<le> n))"

definition queue_inv :: "QueueItem \<Rightarrow> bool" where
  "queue_inv q \<longleftrightarrow> wf_item q \<and> running_ok (qi_size q) (downloads q)"

lemma seg_overlaps_sym: "seg_overlaps a b = seg_overlaps b a"
  by (auto simp: seg_overlaps_def)

lemma default_overlaps_nothing:
  "0 \<le> seg_start s \<Longrightarrow> \<not> seg_overlaps default_segment s"
  by (simp add: default_segment_def seg_simps)

lemma running_ok_append:
  assumes "running_ok n ds" "\<forall>r \<in> set ds. \<not> seg_overlaps s (seg r)"
    "s = default_segment \<or> (0 \<le> seg_start s \<and> 0 < seg_size s \<and> getEnd s \<le> n)"
  shows "running_ok n (ds @ [\<lparr>seg = s, rs_d = d\<rparr>])"
  using assms by (auto simp: running_ok_def sorted_wrt_append seg_overlaps_sym)

lemma erase_first_cases:
  "snd (erase_first f xs) = xs \<or> (\<exists>us x vs. xs = us @ x # vs \<and> snd (erase_first f xs) = us @ vs)"
proof (induction xs)
  case (Cons i xs)
  show ?case
  proof (cases "f i")
    case True
    then have "i # xs = [] @ i # xs" "snd (erase_first f (i # xs)) = [] @ xs" by simp_all
    then show ?thesis by blast
  next
    case False
    have e: "snd (erase_first f (i # xs)) = i # snd (erase_first f xs)"
      using False by (simp add: case_prod_beta)
    from Cons.IH show ?thesis
    proof
      assume "\<exists>us x vs. xs = us @ x # vs \<and> snd (erase_first f xs) = us @ vs"
      then obtain us x vs where "xs = us @ x # vs" "snd (erase_first f xs) = us @ vs" by blast
      then have "i # xs = (i # us) @ x # vs \<and> snd (erase_first f (i # xs)) = (i # us) @ vs"
        using e by simp
      then show ?thesis by blast
    qed (use e in simp)
  qed
qed simp

lemma running_ok_erase: "running_ok n ds \<Longrightarrow> running_ok n (snd (erase_first f ds))"
  using erase_first_cases [of f ds] by (auto simp: running_ok_def sorted_wrt_append)

lemma set_download_segs: "map seg (snd (set_download s d ds)) = map seg ds"
  by (induction ds) (auto simp: case_prod_beta)

lemma running_ok_map: "map seg ds = map seg es \<Longrightarrow> running_ok n ds = running_ok n es"
proof -
  have "running_ok n ds \<longleftrightarrow> sorted_wrt (\<lambda>a b. \<not> seg_overlaps a b) (map seg ds) \<and>
     (\<forall>r \<in> set (map seg ds). r = default_segment \<or> (0 \<le> seg_start r \<and> 0 < seg_size r \<and> getEnd r \<le> n))" for ds
    by (simp add: running_ok_def sorted_wrt_map)
  then show "map seg ds = map seg es \<Longrightarrow> running_ok n ds = running_ok n es" by (simp only:)
qed

lemma getNextSegmentL_no_part:
  assumes "wf_item q" "enableMultiChunk gsp" "\<not> segment_limit q gsp"
    "getNextSegmentL target rnd q gsp partial = Some (ERROR_NO_NEEDED_PART, s)"
  shows "seg_size s = 0"
  using assms(4) unfolding getNextSegmentL_multi [OF assms(1-3)]
  by (auto simp: bind_eq_Some_conv Let_def mk_segment_def split: prod.splits if_splits)

text \<open>A segment that is reserved is in the file and overlaps no running one.\<close>

lemma reserve_good:
  assumes wf: "wf_item q" and "source_ok q partial" "mode_ok q gsp"
    and run: "getNextSegmentL target rnd q gsp partial = Some (e, s)" and sz: "seg_size s \<noteq> 0"
  shows "0 \<le> seg_start s" "0 < seg_size s" "getEnd s \<le> qi_size q"
    "\<forall>r \<in> set (downloads q). \<not> seg_overlaps s (seg r)"
proof -
  have n: "qi_size q \<noteq> -1" "blockSize q \<noteq> 0" using wf_itemD(1,2) [OF wf] by simp_all
  have "0 \<le> seg_start s \<and> 0 < seg_size s \<and> getEnd s \<le> qi_size q \<and>
    (\<forall>r \<in> set (downloads q). \<not> seg_overlaps s (seg r))"
  proof (cases "enableMultiChunk gsp")
    case False
    have d: "downloads q = []" and s: "s = single_segment q"
      using run n False sz by (auto simp: getNextSegmentL_def Let_def mk_segment_def split: if_splits)
    show ?thesis
      using single_segment_first_gap [OF wf] assms(3) False d by (simp add: s mode_ok_def)
  next
    case multi: True
    show ?thesis
    proof (cases "segment_limit q gsp")
      case True
      have "getNextSegmentL target rnd q gsp partial = Some (ERROR_NO_FREE_BLOCK, mk_segment (-1) 0)"
        using n multi True unfolding getNextSegmentL_def Let_def segment_limit_def by simp
      then show ?thesis using run sz by (simp add: mk_segment_def)
    next
      case False
      show ?thesis
      proof (cases partial)
        case None
        obtain b where b: "(if shouldSearchBackward q then getNextSegmentBackward else getNextSegmentForward)
            q (blockSize q) (segment_target target q gsp) False (pos_array q None) = Some (b, [])" "next_ok q b"
          using search_ok [OF wf] by blast
        have "s = b"
          using run sz unfolding None getNextSegmentL_multi [OF wf multi False]
          by (auto simp: b(1) mk_segment_def split: if_splits)
        then show ?thesis using b(2) sz by (simp add: next_ok_def good_block_def)
      next
        case (Some p)
        then have "part_good q (segment_target target q gsp) (pos_array q (Some p)) s"
          using getNextSegmentL_partial_run [OF wf multi False, of p target rnd] assms(2) run
            getNextSegmentL_no_part [OF wf multi False, of target rnd partial s] sz
          by (auto simp: source_ok_def)
        then show ?thesis by (simp add: part_good_def)
      qed
    qed
  qed
  then show "0 \<le> seg_start s" "0 < seg_size s" "getEnd s \<le> qi_size q"
    "\<forall>r \<in> set (downloads q). \<not> seg_overlaps s (seg r)" by blast+
qed

lemma queue_step_inv: "queue_step q q' \<Longrightarrow> queue_inv q \<Longrightarrow> queue_inv q'"
proof (induction rule: queue_step.induct)
  case (reserve q partial gsp target rnd e s)
  then have wf: "wf_item q" by (simp add: queue_inv_def)
  note g = reserve_good [OF wf reserve(1-4)]
  have "running_ok (qi_size q) (downloads q @ [\<lparr>seg = s, rs_d = None\<rparr>])"
    using reserve g by (intro running_ok_append) (simp_all add: queue_inv_def)
  then show ?case using wf by (simp add: queue_inv_def addDownload_seg_def wf_item_def)
next
  case (start_whole st d q)
  have "\<not> seg_overlaps default_segment (seg r)" if "r \<in> set (downloads q)" for r
  proof -
    have "0 \<le> seg_start (seg r)"
      using start_whole(2) that by (auto simp: queue_inv_def running_ok_def default_segment_def mk_segment_def)
    then show ?thesis by (rule default_overlaps_nothing)
  qed
  then have "running_ok (qi_size q) (downloads q @ [\<lparr>seg = default_segment, rs_d = Some d\<rparr>])"
    using start_whole by (intro running_ok_append) (simp_all add: queue_inv_def)
  then show ?case using start_whole by (simp add: queue_inv_def addDownload_def wf_item_def)
next
  case (attach q s d)
  have "running_ok (qi_size q) (snd (set_download s d (downloads q)))"
    using attach running_ok_map [OF set_download_segs] by (simp add: queue_inv_def)
  then show ?case
    using attach by (simp add: queue_inv_def setDownloadForSegment_def case_prod_beta wf_item_def)
next
  case (remove_user q st user)
  then show ?case
    using running_ok_erase by (simp add: queue_inv_def removeDownload_user_def case_prod_beta wf_item_def)
next
  case (remove_seg q s)
  then show ?case
    using running_ok_erase by (simp add: queue_inv_def removeDownload_seg_def case_prod_beta wf_item_def)
next
  case (finish_seg s q)
  let ?r = "addSegmentL s (doneSegments q, doneSegmentsSize q)"
  have sep: "separated (fst (doneSegments q, doneSegmentsSize q))"
    using finish_seg by (simp add: queue_inv_def wf_item_def)
  have "separated (fst ?r)" "covered (fst ?r) = covered (doneSegments q) \<union> bytes_of s"
    using addSegmentL_separated [OF sep finish_seg(1)] addSegmentL_covered [OF sep finish_seg(1)] by simp_all
  then show ?case
    using finish_seg by (simp add: queue_inv_def wf_item_def addSegment_def case_prod_beta)
next
  case (reset q)
  then show ?case by (simp add: queue_inv_def wf_item_def resetDownloadedL_def)
next
  case (speed q st)
  then show ?case
    by (simp add: queue_inv_def wf_item_def updateDownloadedBytesAndSpeed_def case_prod_beta)
next
  case (count_bytes q)
  then show ?case by (simp add: queue_inv_def wf_item_def updateDownloadedBytes_def)
next
  case (grow_block bs q)
  then show ?case by (simp add: queue_inv_def wf_item_def updateBlockSize_def)
qed

text \<open>
  C10: No two recorded running segments of an item share a byte, through every sequence of the steps
  of \<open>queue_step\<close>: reservations of what the search offers, attaching and removing downloads,
  finishing segments, resets and changes of the block size. The steps have conditions, which the
  program does not check itself: a reservation is for a full source or for a partial one whose
  runs are valid (\<open>source_ok\<close>), with chunks enabled or else for an unfinished item whose finished
  segments are aligned (\<open>mode_ok\<close>); a finished segment is not empty and lies in the file; a new block
  size is positive. Under them the recorded running segments stay pairwise disjoint and inside the
  file (or are the segment of a download that was constructed without one), and the finished
  segments stay non-empty, separated and inside the file. Outside them lie the run that ends before
  it begins (\<open>descending_run_negative_segment\<close>), and the download whose segment is set only after it
  was added, which counts as one without a segment here (\<open>late_segment_not_reserved\<close>).
\<close>

theorem queue_segments_invariant:
  assumes "queue_step\<^sup>*\<^sup>* q q'" "queue_inv q"
  shows "queue_inv q'"
  using assms by (induction rule: rtranclp_induct) (auto intro: queue_step_inv)

theorem queue_segments_invariant_witness:
  "\<exists>q'. queue_step\<^sup>*\<^sup>* ex_item q' \<and> queue_inv ex_item \<and> queue_inv q' \<and>
     map seg (downloads q') = [mk_segment 30 20, mk_segment 20 10]"
proof -
  have inv: "queue_inv ex_item"
    using ex_item_wf by (simp add: queue_inv_def running_ok_def) (simp add: ex_item_def seg_simps)
  have run: "getNextSegmentL (\<lambda>w _ _. w) 0 ex_item ex_params None = Some (SUCCESS, mk_segment 20 10)"
    by code_simp
  have "queue_step ex_item (addDownload_seg (mk_segment 20 10) ex_item)"
    by (rule queue_step.reserve [OF _ _ run])
      (simp_all add: source_ok_def mode_ok_def ex_params_def mk_segment_def)
  then have "queue_step\<^sup>*\<^sup>* ex_item (addDownload_seg (mk_segment 20 10) ex_item)" by blast
  then show ?thesis
    using queue_segments_invariant [OF _ inv] inv
    by (intro exI [of _ "addDownload_seg (mk_segment 20 10) ex_item"])
      (simp add: addDownload_seg_def ex_item_def)
qed

text \<open>
  A download that is added before its segment is set (\<open>QueueManager::getDownload\<close> calls
  \<open>addDownload\<close> and then \<open>setSegment\<close> after the block size of the item has changed) reserves
  nothing: the search offers the same segment again.
\<close>

lemma late_segment_not_reserved:
  assumes "getSegment (st d) = default_segment"
  shows "getNextSegmentL (\<lambda>w _ _. w) 0 (addDownload st d ex_item) ex_params None =
    getNextSegmentL (\<lambda>w _ _. w) 0 ex_item ex_params None"
proof -
  have q: "addDownload st d ex_item =
      ex_item\<lparr>downloads := [\<lparr>seg = mk_segment 30 20, rs_d = None\<rparr>, \<lparr>seg = default_segment, rs_d = Some d\<rparr>]\<rparr>"
    using assms by (simp add: addDownload_def ex_item_def)
  have "getNextSegmentL (\<lambda>w _ _. w) 0
      (ex_item\<lparr>downloads := [\<lparr>seg = mk_segment 30 20, rs_d = None\<rparr>, \<lparr>seg = default_segment, rs_d = Some d\<rparr>]\<rparr>)
      ex_params None = Some (SUCCESS, mk_segment 20 10)" by code_simp
  moreover have "getNextSegmentL (\<lambda>w _ _. w) 0 ex_item ex_params None = Some (SUCCESS, mk_segment 20 10)"
    by code_simp
  ultimately show ?thesis by (simp add: q)
qed

end
