(* ===== verification/Texts.thy ===== *)
theory Texts
  imports Prelude "HOL-Library.Char_ord"
begin

text \<open>
  What the client uses of \<open>std::string\<close>: the bytes of its characters, decimal numbers
  (\<open>Util::toString\<close>), searching and replacing by position, and parsing decimal digits.
\<close>

definition u8_chr :: "char \<Rightarrow> u8" where
  "u8_chr c = of_nat (of_char c)"

definition chr_u8 :: "u8 \<Rightarrow> char" where
  "chr_u8 b = char_of (unat b)"

text \<open>\<open>Text::asciiToLower\<close> and \<open>Text::asciiMakeLower\<close> of \<open>client/Text.h\<close>.\<close>

definition asciiToLower :: "u8 \<Rightarrow> u8" where
  "asciiToLower c = (if c \<ge> 65 \<and> c \<le> 90 then c - 65 + 97 else c)"

definition asciiMakeLower :: "bytes \<Rightarrow> bytes" where
  "asciiMakeLower s = map asciiToLower s"

lemma chr_u8_chr [simp]: "chr_u8 (u8_chr c) = c"
  by (simp add: chr_u8_def u8_chr_def unat_of_nat)

lemma u8_chr_u8 [simp]: "u8_chr (chr_u8 b) = b"
  using unat_u8 [of b] by (simp add: chr_u8_def u8_chr_def)

lemma chr_u8_eq_iff: "chr_u8 b = c \<longleftrightarrow> b = u8_chr c"
  by auto

text \<open>Decimal digits, the most significant first.\<close>

fun decimal :: "nat \<Rightarrow> string" where
  "decimal n = (if n < 10 then [char_of (48 + n)] else decimal (n div 10) @ [char_of (48 + n mod 10)])"

declare decimal.simps [simp del]

definition is_digit :: "char \<Rightarrow> bool" where
  "is_digit c \<longleftrightarrow> CHR ''0'' \<le> c \<and> c \<le> CHR ''9''"

definition digit_val :: "char \<Rightarrow> nat" where
  "digit_val c = of_char c - 48"

lemma is_digit_iff: "is_digit c \<longleftrightarrow> 48 \<le> (of_char c :: nat) \<and> (of_char c :: nat) \<le> 57"
  by (simp add: is_digit_def less_eq_char_def)

lemma is_digit_char_of: "n < 10 \<Longrightarrow> is_digit (char_of (48 + n))" "n < 10 \<Longrightarrow> digit_val (char_of (48 + n)) = n"
  by (simp_all add: is_digit_iff digit_val_def)

text \<open>Searching and replacing by position.\<close>

definition find_first_of :: "string \<Rightarrow> string \<Rightarrow> nat \<Rightarrow> nat option" where
  "find_first_of s cs i = List.find (\<lambda>j. s ! j \<in> set cs) [i..<length s]"

definition replace_at :: "string \<Rightarrow> nat \<Rightarrow> nat \<Rightarrow> string \<Rightarrow> string" where
  "replace_at s i n r = take i s @ r @ drop (i + n) s"

lemma find_first_of_Some:
  "find_first_of s cs i = Some j \<longleftrightarrow>
     i \<le> j \<and> j < length s \<and> s ! j \<in> set cs \<and> (\<forall>k. i \<le> k \<and> k < j \<longrightarrow> s ! k \<notin> set cs)"
proof
  assume "find_first_of s cs i = Some j"
  then obtain n where n: "n < length [i..<length s]" "s ! ([i..<length s] ! n) \<in> set cs"
    "j = [i..<length s] ! n" "\<forall>m < n. s ! ([i..<length s] ! m) \<notin> set cs"
    by (auto simp: find_first_of_def find_Some_iff)
  then have j: "j = i + n" "j < length s" by auto
  moreover have "s ! k \<notin> set cs" if "i \<le> k" "k < j" for k
    using n(4) [rule_format, of "k - i"] that j by simp
  ultimately show "i \<le> j \<and> j < length s \<and> s ! j \<in> set cs \<and> (\<forall>k. i \<le> k \<and> k < j \<longrightarrow> s ! k \<notin> set cs)"
    using n(2,3) by simp
next
  assume "i \<le> j \<and> j < length s \<and> s ! j \<in> set cs \<and> (\<forall>k. i \<le> k \<and> k < j \<longrightarrow> s ! k \<notin> set cs)"
  then show "find_first_of s cs i = Some j"
    by (auto simp: find_first_of_def find_Some_iff intro!: exI [of _ "j - i"])
qed

lemma find_first_of_None:
  "find_first_of s cs i = None \<longleftrightarrow> (\<forall>j. i \<le> j \<and> j < length s \<longrightarrow> s ! j \<notin> set cs)"
  by (auto simp: find_first_of_def find_None_iff)

text \<open>The value of a sequence of digits, behind a number read so far.\<close>

abbreviation digits_from :: "nat \<Rightarrow> string \<Rightarrow> nat" where
  "digits_from n s \<equiv> foldl (\<lambda>n c. n * 10 + digit_val c) n s"

lemma digits_from_ge: "n \<le> digits_from n s"
proof (induction s arbitrary: n)
  case (Cons c s)
  from Cons [of "n * 10 + digit_val c"] show ?case by simp
qed simp

lemma decimal_digits: "list_all is_digit (decimal n)"
  by (induction n rule: decimal.induct) (subst decimal.simps, simp add: is_digit_char_of)

lemma decimal_not_Nil [simp]: "decimal n \<noteq> []"
  by (subst decimal.simps) simp

lemma digits_from_decimal: "digits_from 0 (decimal n) = n"
  by (induction n rule: decimal.induct) (subst decimal.simps, simp add: is_digit_char_of)

end
