(* ===== verification/IpList.thy ===== *)
theory IpList
  imports Texts
begin

text \<open>
  IPv4 addresses and the lists of address ranges of the client: \<open>client/Ip4Address.cpp\<close>, \<open>client/IpList.cpp\<close>,
  \<open>client/IpList.h\<close>.

  The \<open>std::map\<close> from the start of a range to its ranges is an association list with ascending
  keys, an iterator is a position in it and the end iterator its length. The search decrements the
  iterator without comparing it with the first position: what \<open>--m.cbegin()\<close> is, is a parameter.
  The C++ standard leaves it undefined (\<open>None\<close>, and so is the result); there are implementations in
  which it is the end iterator.
\<close>

section \<open>The program\<close>

subsection \<open>Addresses\<close>

type_synonym Ip4Address = u32

fun parseIpAddress_loop :: "string \<Rightarrow> u32 \<Rightarrow> u32 \<Rightarrow> bool \<Rightarrow> nat \<Rightarrow> Ip4Address option" where
  "parseIpAddress_loop [] byte bytes digitFound dotCount =
     (if dotCount \<noteq> 3 \<or> \<not> digitFound then None else Some (push_bit 8 bytes OR byte))"
| "parseIpAddress_loop (c # s) byte bytes digitFound dotCount =
     (if is_digit c then
        let byte = byte * 10 + of_nat (of_char c) - 48 in
        if byte > 255 then None else parseIpAddress_loop s byte bytes True dotCount
      else if c = CHR ''.'' then
        if \<not> digitFound then None
        else if dotCount + 1 = 4 then None
        else parseIpAddress_loop s 0 (push_bit 8 bytes OR byte) False (dotCount + 1)
      else None)"

text \<open>The part of \<open>s\<close> from \<open>start\<close> to \<open>end\<close>. On failure the result variable is left at zero.\<close>

definition parseIpAddress :: "string \<Rightarrow> nat \<Rightarrow> nat \<Rightarrow> Ip4Address option" where
  "parseIpAddress s start end = parseIpAddress_loop (subl s start end) 0 0 False 0"

definition isValidIp4 :: "string \<Rightarrow> bool" where
  "isValidIp4 ip = (case parseIpAddress ip 0 (length ip) of Some a \<Rightarrow> a \<noteq> 0 \<and> a \<noteq> 0xFFFFFFFF | None \<Rightarrow> False)"

definition printIpAddress :: "Ip4Address \<Rightarrow> string" where
  "printIpAddress addr =
     decimal (unat (drop_bit 24 addr)) @ ''.'' @ decimal (unat (drop_bit 16 addr AND 0xFF)) @ ''.'' @
     decimal (unat (drop_bit 8 addr AND 0xFF)) @ ''.'' @ decimal (unat (addr AND 0xFF))"

subsection \<open>Lists of ranges\<close>

record Range =
  range_end :: u32
  payload :: u64

type_synonym IpListMap = "(u32 \<times> Range list) list"

datatype IpListError = ERR_LINE_SKIPPED | ERR_BAD_RANGE | ERR_ALREADY_EXISTS | ERR_BAD_FORMAT | ERR_BAD_NETMASK

fun map_insert :: "u32 \<Rightarrow> Range list \<Rightarrow> IpListMap \<Rightarrow> IpListMap" where
  "map_insert k v [] = [(k, v)]"
| "map_insert k v ((k', v') # m) =
     (if k < k' then (k, v) # (k', v') # m else if k = k' then (k, v) # m else (k', v') # map_insert k v m)"

text \<open>\<open>addRange\<close>: the error, or the new list.\<close>

definition addRange :: "IpListMap \<Rightarrow> u32 \<Rightarrow> u32 \<Rightarrow> u64 \<Rightarrow> IpListError + IpListMap" where
  "addRange m start end pl =
     (let range = \<lparr>range_end = end, payload = pl\<rparr> in
      case map_of m start of
        Some ranges \<Rightarrow>
          if list_ex (\<lambda>r. range_end r = end) ranges then Inl ERR_ALREADY_EXISTS
          else Inr (map_insert start (ranges @ [range]) m)
      | None \<Rightarrow> Inr (map_insert start [range] m))"

fun lower_bound :: "IpListMap \<Rightarrow> u32 \<Rightarrow> nat" where
  "lower_bound [] addr = 0"
| "lower_bound ((k, v) # m) addr = (if k < addr then Suc (lower_bound m addr) else 0)"

text \<open>\<open>--i\<close>, with what it gives at the first position.\<close>

definition prev :: "nat option \<Rightarrow> nat \<Rightarrow> nat option" where
  "prev before_begin i = (if i = 0 then before_begin else Some (i - 1))"

text \<open>The ranges of one start: the payload of the shortest one that reaches the address.\<close>

fun find_in :: "Range list \<Rightarrow> u32 \<Rightarrow> u32 \<Rightarrow> u32 \<Rightarrow> u64 option \<Rightarrow> u64 option" where
  "find_in [] addr start minRangeLen result = result"
| "find_in (r # rs) addr start minRangeLen result =
     (if addr \<le> range_end r then
        let rangeLen = range_end r - start in
        if rangeLen \<le> minRangeLen then find_in rs addr start rangeLen (Some (payload r))
        else find_in rs addr start minRangeLen result
      else find_in rs addr start minRangeLen result)"

text \<open>The walk to the left. The fuel bounds the number of turns; see \<open>find_loop_enough\<close>.\<close>

fun find_loop :: "nat \<Rightarrow> nat option \<Rightarrow> IpListMap \<Rightarrow> u32 \<Rightarrow> nat \<Rightarrow> u64 option option" where
  "find_loop 0 before_begin m addr i = None"
| "find_loop (Suc n) before_begin m addr i =
     (if i = length m then Some None
      else let (start, ranges) = m ! i in
        if addr < start then Some None
        else case find_in ranges addr start 0xFFFFFFFF None of
          Some pl \<Rightarrow> Some (Some pl)
        | None \<Rightarrow> (case prev before_begin i of None \<Rightarrow> None | Some i \<Rightarrow> find_loop n before_begin m addr i))"

definition IpList_find :: "nat option \<Rightarrow> IpListMap \<Rightarrow> u32 \<Rightarrow> u64 option option" where
  "IpList_find before_begin m addr =
     (let i = lower_bound m addr;
          i = (if (i = length m \<or> fst (m ! i) \<noteq> addr) \<and> i \<noteq> 0 then i - 1 else i)
      in find_loop (length m + 2) before_begin m addr i)"

subsection \<open>Lines of a list\<close>

record ParseLineResult =
  res_start :: u32
  res_end :: u32
  res_pos :: nat
  specialChar :: char

function skip_while :: "(char \<Rightarrow> bool) \<Rightarrow> string \<Rightarrow> nat \<Rightarrow> nat" where
  "skip_while P s i = (if i < length s \<and> P (s ! i) then skip_while P s (i + 1) else i)"
  by pat_completeness auto
termination
  by (relation "measure (\<lambda>(P, s, i). length s - i)") auto

declare skip_while.simps [simp del]

definition skipWhiteSpace :: "string \<Rightarrow> nat \<Rightarrow> nat" where
  "skipWhiteSpace s i = skip_while (\<lambda>c. c = CHR '' '' \<or> c = CHR 0x09) s i"

definition skipIpAddress :: "string \<Rightarrow> nat \<Rightarrow> nat" where
  "skipIpAddress s i = skip_while (\<lambda>c. is_digit c \<or> c = CHR ''.'') s i"

definition skipNumber :: "string \<Rightarrow> nat \<Rightarrow> nat" where
  "skipNumber s i = skip_while is_digit s i"

definition isValidMask :: "u32 \<Rightarrow> bool" where
  "isValidMask x = (if x = 0 then False else let x = NOT x in x AND (x + 1) = 0)"

text \<open>
  \<open>atoi\<close>: white space, a sign and digits. A number that is no \<open>int\<close> has no defined result.
\<close>

definition digits_value :: "string \<Rightarrow> nat" where
  "digits_value s = digits_from 0 s"

definition atoi :: "string \<Rightarrow> int option" where
  "atoi s =
     (let s = dropWhile (\<lambda>c. c \<in> set [CHR '' '', CHR 0x09, CHR 0x0A, CHR 0x0B, CHR 0x0C, CHR 0x0D]) s;
          neg = (s \<noteq> [] \<and> hd s = CHR ''-'');
          s = (if s \<noteq> [] \<and> (hd s = CHR ''-'' \<or> hd s = CHR ''+'') then tl s else s);
          n = int (digits_value (takeWhile is_digit s));
          v = (if neg then - n else n)
      in if - (2 ^ 31) \<le> v \<and> v < 2 ^ 31 then Some v else None)"

text \<open>
  The part from position \<open>i\<close> after the separator \<open>sep\<close>; the first address ended at \<open>j0\<close>. \<open>None\<close> as the
  error is the source's zero.
\<close>

definition parseLine_tail :: "string \<Rightarrow> char \<Rightarrow> nat \<Rightarrow> nat \<Rightarrow> ParseLineResult \<Rightarrow> (IpListError option \<times> ParseLineResult) option" where
  "parseLine_tail s sep i j0 res0 =
     (let finish = (\<lambda>res j. let res = res\<lparr>res_pos := j\<rparr> in
        if res_end res < res_start res then (Some ERR_BAD_RANGE, res) else (None, res)) in
      if sep = CHR ''/'' then
        let j = skipNumber s i in
        if j < length s \<and> s ! j = CHR ''.'' then
          let j = skipIpAddress s i in
          (case parseIpAddress s i j of
             None \<Rightarrow> Some (Some ERR_BAD_NETMASK, res0)
           | Some msk \<Rightarrow>
               if \<not> isValidMask msk then Some (Some ERR_BAD_NETMASK, res0)
               else Some (finish (res0\<lparr>res_end := res_start res0 OR NOT msk\<rparr>) j))
        else
          (case atoi (drop i s) of
             None \<Rightarrow> None
           | Some bits \<Rightarrow>
               if bits \<le> 0 \<or> bits > 32 then Some (Some ERR_BAD_NETMASK, res0)
               else let msk = push_bit (nat (32 - bits)) 0xFFFFFFFF
                 in Some (finish (res0\<lparr>res_end := res_start res0 OR NOT msk\<rparr>) j))
      else if sep = CHR ''-'' then
        let j = skipIpAddress s i in
        (case parseIpAddress s i j of
           None \<Rightarrow> Some (Some ERR_BAD_FORMAT, res0\<lparr>res_end := 0\<rparr>)
         | Some e \<Rightarrow> Some (finish (res0\<lparr>res_end := e\<rparr>) j))
      else Some (finish (res0\<lparr>res_end := res_start res0\<rparr>) j0))"

text \<open>The part from the first address on.\<close>

definition parseLine_from :: "string \<Rightarrow> nat \<Rightarrow> ParseLineResult \<Rightarrow> (IpListError option \<times> ParseLineResult) option" where
  "parseLine_from s i res0 =
     (let j = skipIpAddress s i in
      case parseIpAddress s i j of
        None \<Rightarrow> Some (Some ERR_BAD_FORMAT, res0\<lparr>res_start := 0\<rparr>)
      | Some a \<Rightarrow>
          let res0 = res0\<lparr>res_start := a\<rparr>; i = skipWhiteSpace s j in
          if i = length s then Some (None, res0\<lparr>res_end := res_start res0, res_pos := i\<rparr>)
          else
            let sep = s ! i; i = skipWhiteSpace s (i + 1) in
            if i = length s then Some (Some ERR_BAD_FORMAT, res0)
            else parseLine_tail s sep i j res0)"

definition parseLine :: "string \<Rightarrow> string \<Rightarrow> nat \<Rightarrow> (IpListError option \<times> ParseLineResult) option" where
  "parseLine s specialChars startPos =
     (let res0 = \<lparr>res_start = of_nat startPos, res_end = of_nat startPos, res_pos = startPos, specialChar = CHR 0x00\<rparr>;
          i = skipWhiteSpace s startPos
      in if i = length s then Some (Some ERR_LINE_SKIPPED, res0)
      else if s ! i = CHR ''#'' then Some (Some ERR_LINE_SKIPPED, res0)
      else if i + 1 < length s \<and> s ! (i + 1) = s ! i \<and> (s ! i = CHR ''/'' \<or> s ! i = CHR ''-'')
        then Some (Some ERR_LINE_SKIPPED, res0)
      else
        let res0 = (if s ! i \<in> set specialChars then res0\<lparr>specialChar := s ! i\<rparr> else res0);
            i = (if specialChar res0 \<noteq> CHR 0x00 then i + 1 else i)
        in if specialChar res0 \<noteq> CHR 0x00 \<and> i = length s then Some (Some ERR_BAD_FORMAT, res0)
        else parseLine_from s i res0)"

definition getErrorText :: "IpListError option \<Rightarrow> string" where
  "getErrorText error =
     (case error of
        None \<Rightarrow> ''No error''
      | Some ERR_BAD_RANGE \<Rightarrow> ''Invalid range''
      | Some ERR_ALREADY_EXISTS \<Rightarrow> ''Entry already exists''
      | Some ERR_BAD_FORMAT \<Rightarrow> ''Invalid format''
      | Some ERR_BAD_NETMASK \<Rightarrow> ''Invalid network mask''
      | Some ERR_LINE_SKIPPED \<Rightarrow> ''Error 1'')"

section \<open>Addresses and their text\<close>

text \<open>The specification: four words between dots, each a decimal number of at most 255.\<close>

fun split_dots :: "string \<Rightarrow> string list" where
  "split_dots [] = [[]]"
| "split_dots (c # s) =
     (if c = CHR ''.'' then [] # split_dots s else (c # hd (split_dots s)) # tl (split_dots s))"

definition octet :: "nat \<Rightarrow> bool \<Rightarrow> string \<Rightarrow> bool" where
  "octet n d w \<longleftrightarrow> list_all is_digit w \<and> (d \<or> w \<noteq> []) \<and> digits_from n w \<le> 255"

definition octets_value :: "u32 \<Rightarrow> string list \<Rightarrow> u32" where
  "octets_value bytes ws = foldl (\<lambda>b w. push_bit 8 b OR of_nat (digits_value w)) bytes ws"

lemma split_dots_not_Nil [simp]: "split_dots s \<noteq> []"
  by (cases s) simp_all

lemma octet_Cons:
  "is_digit c \<Longrightarrow> octet n d (c # w) \<longleftrightarrow> n * 10 + digit_val c \<le> 255 \<and> octet (n * 10 + digit_val c) True w"
  using digits_from_ge [of "n * 10 + digit_val c" w] by (auto simp: octet_def)

lemma next_byte:
  assumes "is_digit c" "n \<le> 255"
  shows "of_nat n * 10 + of_nat (of_char c) - 48 = (of_nat (n * 10 + digit_val c) :: u32)"
    and "(of_nat (n * 10 + digit_val c) :: u32) > 255 \<longleftrightarrow> n * 10 + digit_val c > 255"
proof -
  have c: "48 \<le> (of_char c :: nat)" "(of_char c :: nat) \<le> 57" using assms(1) by (simp_all add: is_digit_iff)
  then have "(of_nat (of_char c) :: u32) = of_nat (digit_val c) + 48"
    by (metis digit_val_def le_add_diff_inverse2 of_nat_add of_nat_numeral)
  then show "of_nat n * 10 + of_nat (of_char c) - 48 = (of_nat (n * 10 + digit_val c) :: u32)" by simp
  have "n * 10 + digit_val c < 2 ^ 32" using c assms(2) by (simp add: digit_val_def)
  then have "unat (of_nat (n * 10 + digit_val c) :: u32) = n * 10 + digit_val c" by (rule unat_of_nat_u32)
  then show "(of_nat (n * 10 + digit_val c) :: u32) > 255 \<longleftrightarrow> n * 10 + digit_val c > 255"
    by (simp only: word_less_nat_alt) simp
qed

lemma parseIpAddress_loop_digit:
  assumes "is_digit c" "n \<le> 255"
  shows "parseIpAddress_loop (c # s) (of_nat n) bytes d k =
    (if n * 10 + digit_val c > 255 then None else parseIpAddress_loop s (of_nat (n * 10 + digit_val c)) bytes True k)"
  unfolding parseIpAddress_loop.simps Let_def next_byte [OF assms] using assms(1) by (simp only: if_True)

lemma parseIpAddress_loop_split:
  "n \<le> 255 \<Longrightarrow> parseIpAddress_loop s (of_nat n) bytes d k =
     (case split_dots s of w # ws \<Rightarrow>
        if octet n d w \<and> list_all (octet 0 False) ws \<and> k + length ws = 3
        then Some (octets_value (push_bit 8 bytes OR of_nat (digits_from n w)) ws) else None)"
proof (induction s arbitrary: n bytes d k)
  case Nil
  then show ?case by (simp add: octet_def octets_value_def)
next
  case (Cons c s)
  obtain w ws where w: "split_dots s = w # ws" by (cases "split_dots s") auto
  show ?case
  proof (cases "is_digit c")
    case True
    then have dot: "c \<noteq> CHR ''.''" by (auto simp: is_digit_iff)
    show ?thesis
    proof (cases "n * 10 + digit_val c > 255")
      case big: True
      then have "\<not> octet n d (c # w)" using octet_Cons [OF True] by simp
      with dot big w show ?thesis
        unfolding parseIpAddress_loop_digit [OF True Cons.prems] by simp
    next
      case False
      from Cons.IH [of "n * 10 + digit_val c" bytes True k] False
      have "parseIpAddress_loop (c # s) (of_nat n) bytes d k =
          (if octet (n * 10 + digit_val c) True w \<and> list_all (octet 0 False) ws \<and> k + length ws = 3
           then Some (octets_value (push_bit 8 bytes OR of_nat (digits_from (n * 10 + digit_val c) w)) ws) else None)"
        unfolding parseIpAddress_loop_digit [OF True Cons.prems] using w by simp
      with w dot octet_Cons [OF True, of n d w] False show ?thesis by simp
    qed
  next
    case nodigit: False
    show ?thesis
    proof (cases "c = CHR ''.''")
      case True
      show ?thesis
      proof (cases "d \<and> k \<noteq> 3")
        case ok: True
        have "parseIpAddress_loop (c # s) (of_nat n) bytes d k =
            parseIpAddress_loop s (of_nat 0) (push_bit 8 bytes OR of_nat n) False (k + 1)"
          using ok True nodigit by simp
        also have "\<dots> = (if octet 0 False w \<and> list_all (octet 0 False) ws \<and> k + 1 + length ws = 3
            then Some (octets_value (push_bit 8 (push_bit 8 bytes OR of_nat n) OR of_nat (digits_from 0 w)) ws) else None)"
          by (subst Cons.IH) (simp_all add: w)
        finally show ?thesis
          using True w ok Cons.prems by (simp add: octet_def octets_value_def digits_value_def)
      next
        case False
        with True nodigit w show ?thesis by (auto simp: octet_def)
      qed
    next
      case False
      with nodigit w show ?thesis by (simp add: octet_def)
    qed
  qed
qed

lemma parseIpAddress_iff:
  "parseIpAddress_loop s 0 0 False 0 = Some a \<longleftrightarrow>
     list_all (octet 0 False) (split_dots s) \<and> length (split_dots s) = 4 \<and> a = octets_value 0 (split_dots s)"
  using parseIpAddress_loop_split [of 0 s 0 False 0]
  by (cases "split_dots s") (auto simp: octets_value_def digits_value_def)

lemma split_dots_digits:
  "list_all is_digit w \<Longrightarrow> split_dots (w @ CHR ''.'' # s) = w # split_dots s"
  "list_all is_digit w \<Longrightarrow> split_dots w = [w]"
  by (induction w) (auto simp: is_digit_iff)

lemma octet_decimal: "n \<le> 255 \<Longrightarrow> octet 0 False (decimal n)"
  by (simp add: octet_def decimal_digits digits_from_decimal)

lemma unat_byte: "unat (x AND 0xFF :: u32) \<le> 255" "unat (drop_bit 24 (x :: u32)) \<le> 255"
proof -
  show "unat (x AND 0xFF) \<le> 255"
    using word_and_le1 [of x "0xFF"] by (simp add: word_le_nat_alt)
  have "unat x < 2 ^ 32" by (rule unat_u32)
  then have "drop_bit 24 (unat x) \<le> 255" by (simp add: drop_bit_eq_div)
  then show "unat (drop_bit 24 x) \<le> 255" 
    using unat_u32 [of x] by (simp only: unsigned_drop_bit_eq) (simp add: take_bit_nat_eq_self)
qed

lemma and_0xFF: "(x :: u32) AND 0xFF = take_bit 8 x"
  by (simp add: take_bit_eq_mask mask_eq_exp_minus_1)

lemma octets_join:
  "push_bit 8 (push_bit 8 (push_bit 8 (drop_bit 24 a) OR (drop_bit 16 a AND 0xFF)) OR (drop_bit 8 a AND 0xFF)) OR (a AND 0xFF)
    = (a :: u32)"
proof (rule bit_word_eqI)
  fix n
  assume "n < LENGTH(32)"
  then show "bit (push_bit 8 (push_bit 8 (push_bit 8 (drop_bit 24 a) OR (drop_bit 16 a AND 0xFF)) OR (drop_bit 8 a AND 0xFF)) OR
      (a AND 0xFF)) n = bit a n"
    unfolding and_0xFF by (cases "n < 8"; cases "n < 16"; cases "n < 24") (auto simp: bit_simps)
qed

lemma parse_print: "parseIpAddress_loop (printIpAddress a) 0 0 False 0 = Some a"
proof -
  have split: "split_dots (printIpAddress a) = [decimal (unat (drop_bit 24 a)), decimal (unat (drop_bit 16 a AND 0xFF)),
      decimal (unat (drop_bit 8 a AND 0xFF)), decimal (unat (a AND 0xFF))]"
    by (simp add: printIpAddress_def split_dots_digits decimal_digits)
  have "octets_value 0 (split_dots (printIpAddress a)) = a"
    unfolding split octets_value_def foldl.simps digits_value_def digits_from_decimal
    by (simp only: of_nat_unat ucast_id push_bit_of_0 or.left_neutral octets_join)
  then show ?thesis unfolding parseIpAddress_iff split by (simp add: octet_decimal unat_byte)
qed

section \<open>Lines\<close>

lemma skip_while_takeWhile: "i \<le> length s \<Longrightarrow> skip_while P s i = i + length (takeWhile P (drop i s))"
proof (induction P s i rule: skip_while.induct)
  case (1 P s i)
  show ?case
  proof (cases "i < length s")
    case True
    then have "drop i s = s ! i # drop (Suc i) s" by (simp add: Cons_nth_drop_Suc)
    with 1 True show ?thesis by (subst skip_while.simps) simp
  next
    case False
    with 1(2) show ?thesis by (subst skip_while.simps) simp
  qed
qed

abbreviation blank :: "char \<Rightarrow> bool" where
  "blank c \<equiv> c = CHR '' '' \<or> c = CHR 0x09"

abbreviation ipchar :: "char \<Rightarrow> bool" where
  "ipchar c \<equiv> is_digit c \<or> c = CHR ''.''"

text \<open>A text that does not go on with a character of the class \<open>P\<close>.\<close>

definition stops :: "(char \<Rightarrow> bool) \<Rightarrow> string \<Rightarrow> bool" where
  "stops P s \<longleftrightarrow> s = [] \<or> \<not> P (hd s)"

lemma takeWhile_stops: "list_all P xs \<Longrightarrow> stops P ys \<Longrightarrow> takeWhile P (xs @ ys) = xs"
  by (cases ys) (auto simp: stops_def takeWhile_append list_all_iff)

lemma skip_while_over:
  assumes "list_all P xs" "stops P ys"
  shows "skip_while P (pre @ xs @ ys) (length pre) = length pre + length xs"
  using skip_while_takeWhile [of "length pre" "pre @ xs @ ys" P] takeWhile_stops [OF assms] by simp

lemma parseIpAddress_over:
  "parseIpAddress (pre @ xs @ ys) (length pre) (length pre + length xs) = parseIpAddress_loop xs 0 0 False 0"
  by (simp add: parseIpAddress_def subl_def)

lemma print_ipchar: "list_all ipchar (printIpAddress a)"
  using decimal_digits by (auto simp: printIpAddress_def list_all_iff)

lemma print_head: "printIpAddress a \<noteq> []" "is_digit (hd (printIpAddress a))"
  using decimal_digits [of "unat (drop_bit 24 a)"]
  by (auto simp: printIpAddress_def hd_append list_all_iff)

lemma parse_over_print:
  assumes "stops ipchar ys"
  shows "skipIpAddress (pre @ printIpAddress a @ ys) (length pre) = length pre + length (printIpAddress a)"
    and "parseIpAddress (pre @ printIpAddress a @ ys) (length pre) (length pre + length (printIpAddress a)) = Some a"
  using skip_while_over [OF print_ipchar assms] by (simp_all add: skipIpAddress_def parseIpAddress_over parse_print)

lemma skip_blanks:
  assumes "list_all blank xs" "stops blank ys"
  shows "skipWhiteSpace (pre @ xs @ ys) (length pre) = length pre + length xs"
  using skip_while_over [OF assms] by (simp add: skipWhiteSpace_def)

text \<open>The optional mark in front of an address.\<close>

definition mark :: "string \<Rightarrow> string \<Rightarrow> bool" where
  "mark sc sp \<longleftrightarrow> list_all (\<lambda>c. \<not> is_digit c) sc \<and>
     (sp = [] \<or> (\<exists>x. sp = [x] \<and> x \<in> set sc \<and> x \<noteq> CHR 0x00 \<and> x \<noteq> CHR ''#'' \<and> \<not> blank x))"

definition mark_char :: "string \<Rightarrow> char" where
  "mark_char sp = (if sp = [] then CHR 0x00 else hd sp)"

lemma parseLine_start:
  assumes b0: "list_all blank b0" and sp: "mark sc sp" and ys: "ys \<noteq> []" "is_digit (hd ys)"
    and s: "s = b0 @ sp @ ys"
  shows "parseLine s sc 0 =
    parseLine_from s (length (b0 @ sp)) \<lparr>res_start = 0, res_end = 0, res_pos = 0, specialChar = mark_char sp\<rparr>"
proof -
  have nb: "\<not> blank c" "c \<noteq> CHR ''#''" "c \<noteq> CHR ''/''" "c \<noteq> CHR ''-''" if "is_digit c" for c
    using that by (auto simp: is_digit_iff)
  have nd: "\<not> is_digit (CHR ''/'')" "\<not> is_digit (CHR ''-'')" by (simp_all add: is_digit_iff)
  from ys obtain y z where y: "ys = y # z" "is_digit y" by (cases ys) auto
  have first: "stops blank (sp @ ys)" "s ! length b0 = hd (sp @ ys)" "length b0 < length s" "hd (sp @ ys) \<noteq> CHR ''#''"
    using sp y nb by (auto simp: mark_def stops_def s nth_append)
  have i: "skipWhiteSpace s 0 = length b0"
    using skip_blanks [OF b0 first(1), of "[]"] by (simp add: s)
  have twice: "\<not> (length b0 + 1 < length s \<and> s ! (length b0 + 1) = s ! length b0 \<and>
      (s ! length b0 = CHR ''/'' \<or> s ! length b0 = CHR ''-''))"
    using sp y nb nd by (auto simp: mark_def s nth_append)
  show ?thesis
  proof (cases "sp = []")
    case True
    with sp y have "y \<notin> set sc" by (auto simp: mark_def list_all_iff)
    then show ?thesis unfolding parseLine_def Let_def i using first twice True y by (auto simp: mark_char_def)
  next
    case False
    then obtain x where x: "sp = [x]" "x \<in> set sc" "x \<noteq> CHR 0x00" using sp by (auto simp: mark_def)
    then show ?thesis unfolding parseLine_def Let_def i using first twice y s by (auto simp: mark_char_def)
  qed
qed

lemma parseLine_address:
  assumes b1: "list_all blank b1" and ys: "stops blank ys" "stops ipchar ys"
    and s: "s = pre @ printIpAddress a @ b1 @ ys"
  defines "j \<equiv> length (pre @ printIpAddress a)"
  shows "parseLine_from s (length pre) res0 =
    (if ys = [] then Some (None, res0\<lparr>res_start := a, res_end := a, res_pos := length s\<rparr>)
     else let i = skipWhiteSpace s (j + length b1 + 1) in
       if i = length s then Some (Some ERR_BAD_FORMAT, res0\<lparr>res_start := a\<rparr>)
       else parseLine_tail s (hd ys) i j (res0\<lparr>res_start := a\<rparr>))"
proof -
  have stop: "stops ipchar (b1 @ ys)"
    using b1 ys(2) by (cases b1) (auto simp: stops_def is_digit_iff)
  have j: "skipIpAddress s (length pre) = j" "parseIpAddress s (length pre) j = Some a"
    using parse_over_print [OF stop, of pre a] by (simp_all add: s j_def)
  have e: "skipWhiteSpace s j = j + length b1"
    using skip_blanks [OF b1 ys(1), of "pre @ printIpAddress a"] by (simp add: s j_def)
  have len: "length s = j + length b1 + length ys" by (simp add: s j_def)
  have sep: "s ! (j + length b1) = hd ys" if "ys \<noteq> []"
    using that by (simp add: s j_def nth_append hd_conv_nth)
  show ?thesis unfolding parseLine_from_def j Let_def by (simp add: e len sep)
qed

text \<open>Network masks: the bits that are set are the upper ones.\<close>

lemma nat_and_Suc: "(x :: nat) AND (x + 1) = 0 \<Longrightarrow> \<exists>k. x = 2 ^ k - 1"
proof (induction x rule: less_induct)
  case (less x)
  show ?case
  proof (cases "even x")
    case True
    then have "x AND (x + 1) = x" by (auto elim!: evenE simp: and_nat_unfold)
    with less.prems show ?thesis by (intro exI [of _ 0]) simp
  next
    case False
    then obtain y where y: "x = 2 * y + 1" by (elim oddE)
    then have "x AND (x + 1) = 2 * (y AND (y + 1))"
      by (simp add: and_nat_unfold [of "2 * y + 1"] and_nat_unfold [of "Suc (2 * y)"])
    with less.prems have "y AND (y + 1) = 0" by simp
    with less.IH [of y] y obtain k where k: "y = 2 ^ k - 1" by auto
    have "1 \<le> (2 :: nat) ^ k" by simp
    then have "x + 1 = 2 ^ Suc k" unfolding y k power_Suc by linarith
    then show ?thesis by (metis add_diff_cancel_right')
  qed
qed

definition netmask :: "nat \<Rightarrow> u32" where
  "netmask n = push_bit (32 - n) 0xFFFFFFFF"

lemma netmask_NOT: "n \<le> 32 \<Longrightarrow> NOT (netmask n) = mask (32 - n)"
proof -
  have "(0xFFFFFFFF :: u32) = -1" by simp
  then show "NOT (netmask n) = mask (32 - n)"
    unfolding netmask_def by (simp only: push_bit_minus_one_eq_not_mask bit.double_compl)
qed

lemma isValidMask_iff: "isValidMask m \<longleftrightarrow> (\<exists>n. 1 \<le> n \<and> n \<le> 32 \<and> m = netmask n)"
proof
  assume m: "isValidMask m"
  define x where "x = NOT m"
  have x: "x AND (x + 1) = 0" "m \<noteq> 0" using m by (auto simp: isValidMask_def x_def Let_def split: if_splits)
  have "m = NOT x" by (simp add: x_def)
  with x(2) have nm: "x \<noteq> -1" by auto
  have "1 + x \<noteq> 0" using nm by (metis add.commute eq_neg_iff_add_eq_0)
  then have x1: "unat (x + 1) = unat x + 1" using unatSuc [of x] by (simp add: add.commute)
  have "unat x AND (unat x + 1) = 0" using arg_cong [OF x(1), of unat] by (simp add: unsigned_and_eq x1)
  then obtain k where k: "unat x = 2 ^ k - 1" using nat_and_Suc by blast
  have "k < 32"
  proof (rule ccontr)
    assume "\<not> k < 32"
    then have "(2 :: nat) ^ 32 \<le> 2 ^ k" by (intro power_increasing) simp_all
    then have "2 ^ 32 - 1 \<le> unat x" unfolding k by linarith
    moreover have "unat (-1 :: u32) = 2 ^ 32 - 1" by (simp add: unsigned_minus_1_eq_mask mask_eq_exp_minus_1)
    ultimately have "unat x = unat (-1 :: u32)" using unat_u32 [of x] by linarith
    with nm show False by (simp only: word_unat_eq_iff)
  qed
  moreover have "x = of_nat (2 ^ k - 1)" using arg_cong [OF k, of "of_nat :: nat \<Rightarrow> u32"] by simp
  then have "x = mask k" by (simp add: of_nat_diff mask_eq_decr_exp)
  ultimately have "m = netmask (32 - k)" "1 \<le> 32 - k" "32 - k \<le> 32"
    using netmask_NOT [of "32 - k"] \<open>m = NOT x\<close> by (auto dest: arg_cong [of _ _ NOT])
  then show "\<exists>n. 1 \<le> n \<and> n \<le> 32 \<and> m = netmask n" by blast
next
  assume "\<exists>n. 1 \<le> n \<and> n \<le> 32 \<and> m = netmask n"
  then obtain n where n: "1 \<le> n" "n \<le> 32" "m = netmask n" by blast
  have "NOT m AND (NOT m + 1) = 0"
  proof -
    have "mask k AND (mask k + 1 :: u32) = 0" for k
    proof -
      have "mask k + 1 = (2 ^ k :: u32)" by (simp add: mask_eq_decr_exp)
      then show ?thesis by (auto intro!: bit_word_eqI simp: bit_and_iff bit_mask_iff bit_exp_iff)
    qed
    then show ?thesis unfolding n(3) netmask_NOT [OF n(2)] .
  qed
  moreover have "\<not> bit (NOT m) 31" unfolding n(3) netmask_NOT [OF n(2)] using n(1) by (simp add: bit_mask_iff)
  then have "m \<noteq> 0" by auto
  ultimately show "isValidMask m" by (simp add: isValidMask_def)
qed

lemma atoi_decimal:
  assumes "n \<le> 255" "stops is_digit ys"
  shows "atoi (decimal n @ ys) = Some (int n)"
proof -
  obtain c cs where c: "decimal n = c # cs" by (cases "decimal n") auto
  then have d: "is_digit c" using decimal_digits [of n] by simp
  have "c \<notin> set [CHR '' '', CHR 0x09, CHR 0x0A, CHR 0x0B, CHR 0x0C, CHR 0x0D]" "c \<noteq> CHR ''-''" "c \<noteq> CHR ''+''"
    using d by (auto simp: is_digit_iff)
  then have s: "dropWhile (\<lambda>c. c \<in> set [CHR '' '', CHR 0x09, CHR 0x0A, CHR 0x0B, CHR 0x0C, CHR 0x0D]) (decimal n @ ys) = decimal n @ ys"
    "hd (decimal n @ ys) \<noteq> CHR ''-''" "hd (decimal n @ ys) \<noteq> CHR ''+''"
    by (simp_all add: c)
  have "takeWhile is_digit (decimal n @ ys) = decimal n"
    using takeWhile_stops [OF decimal_digits assms(2)] .
  with s assms(1) show ?thesis
    unfolding atoi_def Let_def s by (simp add: digits_value_def digits_from_decimal)
qed

text \<open>The three forms of a line behind the first address.\<close>

lemma tail_range:
  assumes "stops ipchar rest" "s = pre @ printIpAddress e @ rest"
  shows "parseLine_tail s (CHR ''-'') (length pre) j0 res0 =
    Some (if e < res_start res0 then Some ERR_BAD_RANGE else None,
      res0\<lparr>res_end := e, res_pos := length (pre @ printIpAddress e)\<rparr>)"
  unfolding parseLine_tail_def Let_def using parse_over_print [OF assms(1), of pre e]
  by (simp add: assms(2))

lemma tail_bits:
  assumes "stops ipchar rest" "s = pre @ decimal n @ rest" "1 \<le> n" "n \<le> 32"
  shows "parseLine_tail s (CHR ''/'') (length pre) j0 res0 =
    Some (None, res0\<lparr>res_end := res_start res0 OR NOT (netmask n), res_pos := length (pre @ decimal n)\<rparr>)"
proof -
  have stop: "stops is_digit rest" using assms(1) by (auto simp: stops_def)
  have j: "skipNumber s (length pre) = length pre + length (decimal n)"
    using skip_while_over [OF decimal_digits stop, of pre] by (simp add: skipNumber_def assms(2))
  have dot: "\<not> (length pre + length (decimal n) < length s \<and> s ! (length pre + length (decimal n)) = CHR ''.'')"
    using assms(1) by (auto simp: assms(2) stops_def nth_append hd_conv_nth)
  have bits: "atoi (drop (length pre) s) = Some (int n)"
    using atoi_decimal [OF _ stop, of n] assms(2,4) by simp
  have mask: "push_bit (nat (32 - int n)) 0xFFFFFFFF = netmask n"
    using assms(4) by (simp add: netmask_def nat_diff_distrib)
  show ?thesis
    unfolding parseLine_tail_def Let_def j if_not_P [OF dot] bits
    using assms(3,4) le_word_or2 [of "res_start res0" "NOT (netmask n)"]
    by (simp add: mask not_less)
qed

lemma tail_mask:
  assumes "stops ipchar rest" "s = pre @ printIpAddress m @ rest"
  shows "parseLine_tail s (CHR ''/'') (length pre) j0 res0 =
    Some (if isValidMask m then (None, res0\<lparr>res_end := res_start res0 OR NOT m, res_pos := length (pre @ printIpAddress m)\<rparr>)
      else (Some ERR_BAD_NETMASK, res0))"
proof -
  let ?d = "decimal (unat (drop_bit 24 m))"
  obtain z where z: "printIpAddress m = ?d @ CHR ''.'' # z" by (simp add: printIpAddress_def)
  have stop: "stops is_digit (CHR ''.'' # z @ rest)" by (simp add: stops_def is_digit_iff)
  have j: "skipNumber s (length pre) = length pre + length ?d"
    using skip_while_over [OF decimal_digits stop, of pre] by (simp add: skipNumber_def assms(2) z)
  have dot: "length pre + length ?d < length s \<and> s ! (length pre + length ?d) = CHR ''.''"
    by (simp add: assms(2) z nth_append)
  show ?thesis
    unfolding parseLine_tail_def Let_def j if_P [OF dot] 
    using parse_over_print [OF assms(1), of pre m] le_word_or2 [of "res_start res0" "NOT m", THEN leD]
    by (simp add: assms(2))
qed

lemma parseLine_sep:
  assumes "list_all blank b0" "list_all blank b1" "list_all blank b2" "mark sc sp"
    and c: "\<not> blank c" "\<not> ipchar c" and tail: "tail \<noteq> []" "stops blank tail"
    and s: "s = b0 @ sp @ printIpAddress a @ b1 @ c # b2 @ tail"
  shows "parseLine s sc 0 = parseLine_tail s c (length (b0 @ sp @ printIpAddress a @ b1 @ c # b2))
    (length (b0 @ sp @ printIpAddress a)) \<lparr>res_start = a, res_end = 0, res_pos = 0, specialChar = mark_char sp\<rparr>"
proof -
  let ?pre = "b0 @ sp @ printIpAddress a @ b1 @ [c]"
  have stop: "stops blank (c # b2 @ tail)" "stops ipchar (c # b2 @ tail)" using c by (auto simp: stops_def)
  have skip: "skipWhiteSpace s (length (b0 @ sp @ printIpAddress a) + length b1 + 1) = length ?pre + length b2"
    using skip_blanks [OF assms(3) tail(2), of ?pre] by (simp add: s add.assoc)
  have "length ?pre + length b2 \<noteq> length s" using tail(1) by (simp add: s)
  moreover have "parseLine s sc 0 =
      parseLine_from s (length (b0 @ sp)) \<lparr>res_start = 0, res_end = 0, res_pos = 0, specialChar = mark_char sp\<rparr>"
    using print_head [of a] by (intro parseLine_start [OF assms(1,4)]) (simp_all add: s)
  ultimately show ?thesis
    using parseLine_address [OF assms(2) stop, of s "b0 @ sp" a] skip by (simp add: s add.assoc)
qed

lemma stops_print: "printIpAddress a @ rest \<noteq> []" "stops blank (printIpAddress a @ rest)"
  using print_head [of a] by (auto simp: stops_def is_digit_iff)

lemma stops_decimal: "decimal n @ rest \<noteq> []" "stops blank (decimal n @ rest)"
  using decimal_digits [of n] by (cases "decimal n"; auto simp: stops_def is_digit_iff)+

text \<open>
  A printed address is parsed back, and a text is accepted exactly when it is four decimal
  numbers of at most 255 between dots; its value is read without wrap-around.
\<close>

theorem parseIpAddress_correct:
  "parseIpAddress (printIpAddress a) 0 (length (printIpAddress a)) = Some a \<and>
   (parseIpAddress t 0 (length t) = Some x \<longleftrightarrow>
      length (split_dots t) = 4 \<and> list_all (octet 0 False) (split_dots t) \<and> x = octets_value 0 (split_dots t)) \<and>
   (isValidIp4 (printIpAddress a) \<longleftrightarrow> a \<noteq> 0 \<and> a \<noteq> 0xFFFFFFFF)"
  using parseIpAddress_over [of "[]" _ "[]"] parseIpAddress_iff [of t x] parse_print [of a]
  by (auto simp: isValidIp4_def)

text \<open>
  The forms of a line are read as they are meant: a single address, a range with the check of
  its order, an address with a number of network bits or with a network mask, each with blanks, an
  optional mark in front and a comment behind; a mask is accepted exactly when its set bits are the upper ones.
\<close>

theorem parseLine_correct:
  assumes "list_all blank b0" "list_all blank b1" "list_all blank b2" "mark sc sp" "stops ipchar rest"
  shows "let at = b0 @ sp @ printIpAddress a;
      res = (\<lambda>e p. \<lparr>res_start = a, res_end = e, res_pos = p, specialChar = mark_char sp\<rparr>)
    in parseLine (at @ b1) sc 0 = Some (None, res a (length (at @ b1))) \<and>
      parseLine (at @ b1 @ ''-'' @ b2 @ printIpAddress e @ rest) sc 0 =
        Some (if e < a then Some ERR_BAD_RANGE else None, res e (length (at @ b1 @ ''-'' @ b2 @ printIpAddress e))) \<and>
      (1 \<le> n \<and> n \<le> 32 \<longrightarrow> parseLine (at @ b1 @ ''/'' @ b2 @ decimal n @ rest) sc 0 =
        Some (None, res (a OR NOT (netmask n)) (length (at @ b1 @ ''/'' @ b2 @ decimal n)))) \<and>
      parseLine (at @ b1 @ ''/'' @ b2 @ printIpAddress m @ rest) sc 0 =
        Some (if \<exists>k. 1 \<le> k \<and> k \<le> 32 \<and> m = netmask k
          then (None, res (a OR NOT m) (length (at @ b1 @ ''/'' @ b2 @ printIpAddress m)))
          else (Some ERR_BAD_NETMASK, res 0 0))"
proof -
  let ?at = "b0 @ sp @ printIpAddress a"
  let ?res = "\<lambda>e p. \<lparr>res_start = a, res_end = e, res_pos = p, specialChar = mark_char sp\<rparr>"
  note sep = parseLine_sep [OF assms(1-4)]
  have c: "\<not> blank (CHR ''-'')" "\<not> ipchar (CHR ''-'')" "\<not> blank (CHR ''/'')" "\<not> ipchar (CHR ''/'')"
    by (simp_all add: is_digit_iff)
  have "parseLine (?at @ b1) sc 0 = Some (None, ?res a (length (?at @ b1)))"
    using parseLine_start [OF assms(1,4), of "printIpAddress a @ b1"] print_head [of a]
      parseLine_address [OF assms(2), of "[]" "?at @ b1" "b0 @ sp" a] by (simp add: stops_def)
  moreover have "parseLine (?at @ b1 @ ''-'' @ b2 @ printIpAddress e @ rest) sc 0 =
      Some (if e < a then Some ERR_BAD_RANGE else None, ?res e (length (?at @ b1 @ ''-'' @ b2 @ printIpAddress e)))"
    using sep [OF c(1,2) stops_print [of e rest] refl, of a] tail_range [OF assms(5) refl, of "?at @ b1 @ ''-'' @ b2" e]
    by simp
  moreover have "parseLine (?at @ b1 @ ''/'' @ b2 @ decimal n @ rest) sc 0 =
      Some (None, ?res (a OR NOT (netmask n)) (length (?at @ b1 @ ''/'' @ b2 @ decimal n)))" if "1 \<le> n" "n \<le> 32"
    using sep [OF c(3,4) stops_decimal [of n rest] refl, of a] tail_bits [OF assms(5) refl that, of "?at @ b1 @ ''/'' @ b2"]
    by simp
  moreover have "parseLine (?at @ b1 @ ''/'' @ b2 @ printIpAddress m @ rest) sc 0 =
      Some (if isValidMask m then (None, ?res (a OR NOT m) (length (?at @ b1 @ ''/'' @ b2 @ printIpAddress m)))
        else (Some ERR_BAD_NETMASK, ?res 0 0))"
    using sep [OF c(3,4) stops_print [of m rest] refl, of a] tail_mask [OF assms(5) refl, of "?at @ b1 @ ''/'' @ b2" m]
    by simp
  ultimately show ?thesis unfolding Let_def isValidMask_iff by (intro conjI impI; (elim conjE)?; assumption?) auto
qed

lemma parseLine_correct_witness:
  "parseLine '' +10.0.0.0 / 8 # comment'' ''-+'' 0 =
    Some (None, \<lparr>res_start = 0x0A000000, res_end = 0x0AFFFFFF, res_pos = 14, specialChar = CHR ''+''\<rparr>)"
proof -
  have "list_all blank '' ''" "mark ''-+'' ''+''" "stops ipchar '' # comment''" by code_simp+
  note hyps = this
  have parts: "'' '' @ ''+'' @ printIpAddress 0x0A000000 @ '' '' @ ''/'' @ '' '' @ decimal 8 @ '' # comment'' = '' +10.0.0.0 / 8 # comment''"
    "0x0A000000 OR NOT (netmask 8) = 0x0AFFFFFF" "mark_char ''+'' = CHR ''+''"
    "length ('' '' @ ''+'' @ printIpAddress 0x0A000000 @ '' '' @ ''/'' @ '' '' @ decimal 8) = 14" by code_simp+
  from parseLine_correct [OF hyps(1) hyps(1) hyps(1) hyps(2,3), of "0x0A000000" _ 8]
  have "parseLine ('' '' @ ''+'' @ printIpAddress 0x0A000000 @ '' '' @ ''/'' @ '' '' @ decimal 8 @ '' # comment'') ''-+'' 0 =
      Some (None, \<lparr>res_start = 0x0A000000, res_end = 0x0A000000 OR NOT (netmask 8),
        res_pos = length ('' '' @ ''+'' @ printIpAddress 0x0A000000 @ '' '' @ ''/'' @ '' '' @ decimal 8), specialChar = mark_char ''+''\<rparr>)"
    unfolding Let_def by simp
  then show ?thesis unfolding parts .
qed

section \<open>Ranges\<close>

definition ip_list_inv :: "IpListMap \<Rightarrow> bool" where
  "ip_list_inv m \<longleftrightarrow> sorted_wrt (<) (map fst m) \<and> list_all (\<lambda>(k, rs). rs \<noteq> [] \<and> distinct (map range_end rs)) m"

text \<open>The abstract content: start, end and payload of the ranges.\<close>

definition ranges_at :: "u32 \<Rightarrow> Range list \<Rightarrow> (u32 \<times> u32 \<times> u64) set" where
  "ranges_at s rs = (\<lambda>r. (s, range_end r, payload r)) ` set rs"

definition ranges :: "IpListMap \<Rightarrow> (u32 \<times> u32 \<times> u64) set" where
  "ranges m = (\<Union>(s, rs) \<in> set m. ranges_at s rs)"

lemma ranges_Nil [simp]: "ranges [] = {}"
  by (simp add: ranges_def)

lemma fst_map_insert: "set (map fst (map_insert k v m)) = insert k (set (map fst m))"
  by (induction k v m rule: map_insert.induct) auto

lemma sorted_map_insert: "sorted_wrt (<) (map fst m) \<Longrightarrow> sorted_wrt (<) (map fst (map_insert k v m))"
proof (induction k v m rule: map_insert.induct)
  case (2 k v k' v' m)
  consider "k < k'" | "k = k'" | "k' < k" by fastforce
  then show ?case
  proof cases
    case 3
    then have "sorted_wrt (<) (map fst (map_insert k v m))" using 2 by auto
    with 3 2(2) fst_map_insert [of k v m] show ?thesis by auto
  qed (use 2(2) in auto)
qed simp

lemma set_map_insert:
  "sorted_wrt (<) (map fst m) \<Longrightarrow> set (map_insert k v m) = insert (k, v) {x \<in> set m. fst x \<noteq> k}"
proof (induction k v m rule: map_insert.induct)
  case (2 k v k' v' m)
  consider "k < k'" | "k = k'" | "k' < k" by fastforce
  then show ?case by cases (use 2 in \<open>auto\<close>)
qed simp

lemma map_of_sorted: "sorted_wrt (<) (map fst (m :: IpListMap)) \<Longrightarrow> map_of m k = Some v \<longleftrightarrow> (k, v) \<in> set m"
  using strict_sorted_iff [of "map fst m"] by (intro map_of_eq_Some_iff) blast

lemma ranges_split:
  assumes "sorted_wrt (<) (map fst m)" "(s, rs) \<in> set m"
  shows "ranges m = ranges_at s rs \<union> ranges [x\<leftarrow>m. fst x \<noteq> s]"
proof -
  have "set m = insert (s, rs) (set [x\<leftarrow>m. fst x \<noteq> s])"
    using assms map_of_sorted [OF assms(1), of s] by auto (metis option.inject)
  then show ?thesis unfolding ranges_def by (metis (no_types, lifting) UN_insert case_prod_conv)
qed

lemma ranges_other: "(s, e, q) \<notin> ranges [x\<leftarrow>m. fst x \<noteq> s]"
  by (auto simp: ranges_def ranges_at_def)

lemma ranges_map_insert:
  assumes "sorted_wrt (<) (map fst m)"
  shows "ranges (map_insert s rs m) = ranges_at s rs \<union> ranges [x\<leftarrow>m. fst x \<noteq> s]"
  using assms by (simp add: ranges_def set_map_insert)

lemma inv_map_insert:
  "ip_list_inv m \<Longrightarrow> rs \<noteq> [] \<Longrightarrow> distinct (map range_end rs) \<Longrightarrow> ip_list_inv (map_insert s rs m)"
  by (auto simp: ip_list_inv_def list_all_iff sorted_map_insert set_map_insert)

lemma addRange_correct:
  assumes "ip_list_inv m"
  shows "case addRange m s e p of
      Inr m' \<Rightarrow> ip_list_inv m' \<and> ranges m' = insert (s, e, p) (ranges m) \<and> (\<forall>q. (s, e, q) \<notin> ranges m)
    | Inl err \<Rightarrow> err = ERR_ALREADY_EXISTS \<and> (\<exists>q. (s, e, q) \<in> ranges m)"
proof -
  have sorted: "sorted_wrt (<) (map fst m)" using assms by (simp add: ip_list_inv_def)
  show ?thesis
  proof (cases "map_of m s")
    case None
    then have "[x\<leftarrow>m. fst x \<noteq> s] = m" by (auto simp: filter_id_conv map_of_eq_None_iff)
    with ranges_other [of s e _ m] inv_map_insert [OF assms, of "[\<lparr>range_end = e, payload = p\<rparr>]" s] None
    show ?thesis by (simp add: addRange_def ranges_map_insert [OF sorted] ranges_at_def)
  next
    case (Some rs)
    then have rs: "(s, rs) \<in> set m" by (rule map_of_SomeD)
    note split = ranges_split [OF sorted this]
    have d: "distinct (map range_end rs)" using rs assms by (auto simp: ip_list_inv_def list_all_iff)
    show ?thesis
    proof (cases "list_ex (\<lambda>r. range_end r = e) rs")
      case True
      with Some show ?thesis by (auto simp: addRange_def split ranges_at_def list_ex_iff)
    next
      case False
      let ?r = "\<lparr>range_end = e, payload = p\<rparr>"
      have "ip_list_inv (map_insert s (rs @ [?r]) m)"
        using False d by (intro inv_map_insert [OF assms]) (auto simp: list_ex_iff)
      moreover have "(s, e, q) \<notin> ranges m" for q
        using False ranges_other [of s e q m] by (auto simp: split ranges_at_def list_ex_iff)
      ultimately show ?thesis
        using Some False by (simp add: addRange_def ranges_map_insert [OF sorted] split ranges_at_def)
    qed
  qed
qed

section \<open>Searching\<close>

text \<open>
  The specification of the search: of the ranges that contain the address, one with the greatest
  start, and of these the shortest.
\<close>

definition covers :: "u32 \<Rightarrow> u32 \<times> u32 \<times> u64 \<Rightarrow> bool" where
  "covers a r \<longleftrightarrow> (case r of (s, e, p) \<Rightarrow> s \<le> a \<and> a \<le> e)"

definition best :: "(u32 \<times> u32 \<times> u64) set \<Rightarrow> u32 \<Rightarrow> u32 \<times> u32 \<times> u64 \<Rightarrow> bool" where
  "best R a r \<longleftrightarrow> r \<in> R \<and> covers a r \<and>
     (\<forall>r' \<in> R. covers a r' \<longrightarrow> fst r' < fst r \<or> fst r' = fst r \<and> fst (snd r) \<le> fst (snd r'))"

lemma find_in_None:
  "find_in rs a s ml res = None \<longleftrightarrow> res = None \<and> (\<forall>r \<in> set rs. a \<le> range_end r \<longrightarrow> ml < range_end r - s)"
proof (induction rs a s ml res rule: find_in.induct)
  case (2 r rs a s ml res)
  then show ?case by (cases "a \<le> range_end r"; cases "range_end r - s \<le> ml") (auto simp: Let_def)
qed simp

lemma find_in_Some:
  "find_in rs a s ml res = Some p \<Longrightarrow>
    (res = Some p \<and> (\<forall>r \<in> set rs. a \<le> range_end r \<longrightarrow> ml \<le> range_end r - s)) \<or>
    (\<exists>r \<in> set rs. payload r = p \<and> a \<le> range_end r \<and> range_end r - s \<le> ml \<and>
       (\<forall>r' \<in> set rs. a \<le> range_end r' \<longrightarrow> range_end r - s \<le> range_end r' - s))"
proof (induction rs a s ml res rule: find_in.induct)
  case (2 r rs a s ml res)
  show ?case
  proof (cases "a \<le> range_end r \<and> range_end r - s \<le> ml")
    case True
    then have "find_in rs a s (range_end r - s) (Some (payload r)) = Some p" using 2(4) by (simp add: Let_def)
    from 2(1) [OF _ refl _ this] True show ?thesis by fastforce
  next
    case False
    then have f: "find_in rs a s ml res = Some p" using 2(4) by (auto simp: Let_def split: if_splits)
    have "(res = Some p \<and> (\<forall>r \<in> set rs. a \<le> range_end r \<longrightarrow> ml \<le> range_end r - s)) \<or>
      (\<exists>r \<in> set rs. payload r = p \<and> a \<le> range_end r \<and> range_end r - s \<le> ml \<and>
         (\<forall>r' \<in> set rs. a \<le> range_end r' \<longrightarrow> range_end r - s \<le> range_end r' - s))"
      using 2(2) [OF _ refl _ f] 2(3) [OF _ f] False by blast
    with False show ?thesis by fastforce
  qed
qed simp

lemma range_length_mono: "(s :: u32) \<le> e \<Longrightarrow> s \<le> e' \<Longrightarrow> e - s \<le> e' - s \<longleftrightarrow> e \<le> e'"
  by (simp add: word_le_nat_alt unat_sub_if' le_diff_iff)

text \<open>The ranges of one start.\<close>

lemma find_in_at:
  assumes "s \<le> a"
  shows "case find_in rs a s 0xFFFFFFFF None of
      None \<Rightarrow> \<forall>r \<in> ranges_at s rs. \<not> covers a r
    | Some p \<Rightarrow> \<exists>e. best (ranges_at s rs) a (s, e, p)"
proof (cases "find_in rs a s 0xFFFFFFFF None")
  case None
  have "(0xFFFFFFFF :: u32) = -1" by simp
  then have "\<not> (0xFFFFFFFF :: u32) < x" for x using word_n1_ge [of x] by (simp only: not_less)
  with None [unfolded find_in_None] have "\<forall>r \<in> ranges_at s rs. \<not> covers a r" by (auto simp: ranges_at_def covers_def)
  with None show ?thesis by simp
next
  case (Some p)
  then obtain r where r: "r \<in> set rs" "payload r = p" "a \<le> range_end r"
    "\<And>r'. r' \<in> set rs \<Longrightarrow> a \<le> range_end r' \<Longrightarrow> range_end r - s \<le> range_end r' - s"
    using find_in_Some [OF Some] by auto
  have "range_end r \<le> range_end r'" if "r' \<in> set rs" "a \<le> range_end r'" for r'
    using r(4) [OF that] range_length_mono [of s "range_end r" "range_end r'"] assms r(3) that(2) by (meson order.trans)
  with r assms have "best (ranges_at s rs) a (s, range_end r, p)"
    by (auto simp: best_def ranges_at_def covers_def)
  with Some show ?thesis by auto
qed

text \<open>
  The walk to the left from a position whose start is not above the address: it finds the best
  range among those up to there, or it runs into the first position.
\<close>

lemma ranges_take_Suc:
  "i < length m \<Longrightarrow> ranges (take (Suc i) m) = ranges (take i m) \<union> ranges_at (fst (m ! i)) (snd (m ! i))"
  by (auto simp: ranges_def take_Suc_conv_app_nth split: prod.splits) 

lemma ranges_fst: "r \<in> ranges m \<Longrightarrow> fst r \<in> fst ` set m"
  by (force simp: ranges_def ranges_at_def)

lemma keys_less: "sorted_wrt (<) (map fst m) \<Longrightarrow> k < i \<Longrightarrow> i < length m \<Longrightarrow> fst (m ! k) < fst (m ! i)"
  using sorted_wrt_nth_less [of "(<)" "map fst m" k i] by simp

lemma best_extend: "best R a r \<Longrightarrow> \<forall>r' \<in> R'. \<not> covers a r' \<Longrightarrow> best (R \<union> R') a r"
  by (auto simp: best_def)

lemma best_extend_left: "best R' a r \<Longrightarrow> \<forall>r' \<in> R. fst r' < fst r \<Longrightarrow> best (R \<union> R') a r"
  by (auto simp: best_def)

lemma find_loop_left:
  assumes "sorted_wrt (<) (map fst m)" "before = None \<or> before = Some (length m)"
    and "i < length m" "fst (m ! i) \<le> a" "i + 2 \<le> n"
  shows "if \<exists>r \<in> ranges (take (Suc i) m). covers a r
    then \<exists>s e p. find_loop n before m a i = Some (Some p) \<and> best (ranges (take (Suc i) m)) a (s, e, p)
    else find_loop n before m a i = map_option (\<lambda>_. None) before"
  using assms(3-5)
proof (induction i arbitrary: n rule: less_induct)
  case (less i)
  obtain s rs where s: "m ! i = (s, rs)" by (cases "m ! i")
  obtain n' where n: "n = Suc n'" "i + 1 \<le> n'" using less.prems(3) by (cases n) auto
  have step: "find_loop n before m a i =
      (case find_in rs a s 0xFFFFFFFF None of Some p \<Rightarrow> Some (Some p)
       | None \<Rightarrow> (case prev before i of None \<Rightarrow> None | Some i \<Rightarrow> find_loop n' before m a i))"
    using less.prems(1,2) s by (auto simp: n not_less [symmetric])
  note Suc_i = ranges_take_Suc [OF less.prems(1), unfolded s fst_conv snd_conv]
  show ?case
  proof (cases "find_in rs a s 0xFFFFFFFF None")
    case (Some p)
    with find_in_at [of s a rs] less.prems(2) s obtain e where e: "best (ranges_at s rs) a (s, e, p)" by auto
    have "fst r < s" if "r \<in> ranges (take i m)" for r
    proof -
      from ranges_fst [OF that] obtain k where "k < i" "fst r = fst (m ! k)"
        using less.prems(1) by (auto simp: in_set_conv_nth)
      then show ?thesis using keys_less [OF assms(1) _ less.prems(1), of k] s by simp
    qed
    with e have "best (ranges (take (Suc i) m)) a (s, e, p)" unfolding Suc_i by (auto intro: best_extend_left)
    moreover from this have "\<exists>r \<in> ranges (take (Suc i) m). covers a r" by (auto simp: best_def)
    ultimately show ?thesis using Some step by auto
  next
    case None
    with find_in_at [of s a rs] less.prems(2) s have none: "\<forall>r \<in> ranges_at s rs. \<not> covers a r" by simp
    show ?thesis
    proof (cases i)
      case 0
      then have "\<not> (\<exists>r \<in> ranges (take (Suc i) m). covers a r)" using none unfolding Suc_i by simp
      moreover have "find_loop n before m a i = map_option (\<lambda>_. None) before"
        using step None 0 assms(2) n(2) by (cases n') (auto simp: prev_def)
      ultimately show ?thesis by simp
    next
      case (Suc j)
      have "fst (m ! j) \<le> a" using keys_less [OF assms(1) _ less.prems(1), of j] less.prems(2) Suc by simp
      with less.IH [of j n'] Suc less.prems(1) n(2) have IH: "if \<exists>r \<in> ranges (take i m). covers a r
        then \<exists>s e p. find_loop n' before m a j = Some (Some p) \<and> best (ranges (take i m)) a (s, e, p)
        else find_loop n' before m a j = map_option (\<lambda>_. None) before" by simp
      have "find_loop n before m a i = find_loop n' before m a j" using step None Suc by (simp add: prev_def)
      with IH none show ?thesis unfolding Suc_i by (auto split: if_splits intro: best_extend)
    qed
  qed
qed

lemma lower_bound_le: "lower_bound m a \<le> length m"
  by (induction m a rule: lower_bound.induct) auto

lemma lower_bound_below: "i < lower_bound m a \<Longrightarrow> fst (m ! i) < a"
proof (induction m a arbitrary: i rule: lower_bound.induct)
  case (2 k v m a)
  then show ?case by (cases i) (auto split: if_splits)
qed simp

lemma lower_bound_at: "lower_bound m a < length m \<Longrightarrow> a \<le> fst (m ! lower_bound m a)"
  by (induction m a rule: lower_bound.induct) (auto split: if_splits)

text \<open>The ranges from a position above the address on do not contain it.\<close>

lemma ranges_take_drop: "ranges m = ranges (take i m) \<union> ranges (drop i m)"
  by (metis UN_Un append_take_drop_id ranges_def set_append)

lemma above_not_covers:
  assumes "sorted_wrt (<) (map fst m)" "i < length m \<Longrightarrow> a < fst (m ! i)"
  shows "\<forall>r \<in> ranges (drop i m). \<not> covers a r"
proof
  fix r
  assume r: "r \<in> ranges (drop i m)"
  from ranges_fst [OF r] obtain x where "x \<in> set (drop i m)" "fst r = fst x" by blast
  then obtain j where "j < length (drop i m)" "fst r = fst (drop i m ! j)" by (auto simp: in_set_conv_nth)
  then have "\<exists>k. k < length m \<and> i \<le> k \<and> fst r = fst (m ! k)" by (intro exI [of _ "i + j"]) auto
  then obtain k where k: "k < length m" "i \<le> k" "fst r = fst (m ! k)" by blast
  have "a < fst (m ! k)"
    using assms(2) keys_less [OF assms(1), of i k] k(1,2) by (cases "i = k") (auto intro: less_trans)
  with k(3) show "\<not> covers a r" by (auto simp: covers_def)
qed

lemma IpList_find_cases:
  assumes "ip_list_inv m" "before = None \<or> before = Some (length m)"
  shows "if \<exists>r \<in> ranges m. covers a r
    then \<exists>s e p. IpList_find before m a = Some (Some p) \<and> best (ranges m) a (s, e, p)
    else IpList_find before m a = (if \<exists>k \<in> fst ` set m. k \<le> a then map_option (\<lambda>_. None) before else Some None)"
proof -
  let ?l = "lower_bound m a"
  have sorted: "sorted_wrt (<) (map fst m)" using assms(1) by (simp add: ip_list_inv_def)
  define i where "i = (if (?l = length m \<or> fst (m ! ?l) \<noteq> a) \<and> ?l \<noteq> 0 then ?l - 1 else ?l)"
  have find: "IpList_find before m a = find_loop (length m + 2) before m a i"
    by (simp add: IpList_find_def i_def Let_def)
  show ?thesis
  proof (cases "i < length m \<and> fst (m ! i) \<le> a")
    case True
    have "Suc i < length m \<Longrightarrow> a < fst (m ! Suc i)"
    proof -
      assume "Suc i < length m"
      show "a < fst (m ! Suc i)"
      proof (cases "?l < length m \<and> fst (m ! ?l) = a")
        case True
        then have "i = ?l" by (auto simp: i_def)
        with True \<open>Suc i < length m\<close> keys_less [OF sorted, of ?l "Suc i"] show ?thesis by simp
      next
        case False
        then have "Suc i = ?l \<or> i = 0 \<and> ?l = 0" using lower_bound_le [of m a] by (auto simp: i_def)
        then show ?thesis
        proof
          assume "Suc i = ?l"
          with False \<open>Suc i < length m\<close> lower_bound_at [of m a] show ?thesis by (auto simp: order.order_iff_strict)
        next
          assume "i = 0 \<and> ?l = 0"
          with False True lower_bound_at [of m a] show ?thesis by auto
        qed
      qed
    qed
    note above = above_not_covers [OF sorted this]
    have "if \<exists>r \<in> ranges (take (Suc i) m). covers a r
      then \<exists>s e p. find_loop (length m + 2) before m a i = Some (Some p) \<and> best (ranges (take (Suc i) m)) a (s, e, p)
      else find_loop (length m + 2) before m a i = map_option (\<lambda>_. None) before"
      using True by (intro find_loop_left [OF sorted assms(2)]) auto
    moreover have "\<exists>k \<in> fst ` set m. k \<le> a" using True by (meson imageI nth_mem)
    moreover have "(\<exists>r \<in> ranges m. covers a r) \<longleftrightarrow> (\<exists>r \<in> ranges (take (Suc i) m). covers a r)"
      using above ranges_take_drop [of m "Suc i"] by blast
    moreover have "best (ranges (take (Suc i) m)) a r \<Longrightarrow> best (ranges m) a r" for r
      using best_extend [OF _ above] ranges_take_drop [of m "Suc i"] by simp
    ultimately show ?thesis unfolding find
      by (cases "\<exists>r \<in> ranges (take (Suc i) m). covers a r") (simp_all only: if_True if_False, blast)
  next
    case False
    have l: "?l = 0" using False lower_bound_le [of m a] lower_bound_below [of i m a] by (auto simp: i_def split: if_splits)
    with False have i: "i = 0" "m = [] \<or> a < fst (m ! 0)" by (auto simp: i_def split: if_splits)
    have "find_loop (length m + 2) before m a 0 = Some None" using i(2) by (cases m) auto
    moreover have "\<forall>r \<in> ranges m. \<not> covers a r" using above_not_covers [OF sorted, of 0 a] i(2) by auto
    moreover have "\<not> (\<exists>k \<in> fst ` set m. k \<le> a)"
    proof -
      have "a < fst (m ! k)" if "k < length m" for k
        using i(2) keys_less [OF sorted, of 0 k] that by (cases "k = 0") (auto intro: less_trans)
      then have "a < fst x" if "x \<in> set m" for x using that by (auto simp only: in_set_conv_nth)
      then show ?thesis by (auto simp: not_le [symmetric])
    qed
    ultimately show ?thesis using find i(1) by auto
  qed
qed

text \<open>
  C16: Adding a range keeps the order of the list and adds exactly that range, or reports that there
  is one with the same start and end. The search of an address that some range contains
  gives the payload of the best one: of the greatest start, and then of the smallest end. For an
  address below all starts it reports that there is none. For every other address that no range
  contains it decrements the iterator of the first element, so the result is undefined, except where
  that gives the end iterator: then it reports that there is none.
\<close>

theorem IpList_correct:
  assumes "ip_list_inv m" "before = None \<or> before = Some (length m)"
  shows "(case addRange m start end pl of
      Inr m' \<Rightarrow> ip_list_inv m' \<and> ranges m' = insert (start, end, pl) (ranges m)
    | Inl err \<Rightarrow> err = ERR_ALREADY_EXISTS \<and> (\<exists>q. (start, end, q) \<in> ranges m)) \<and>
    ((\<exists>r \<in> ranges m. covers a r) \<longrightarrow> (\<exists>s e p. IpList_find before m a = Some (Some p) \<and> best (ranges m) a (s, e, p))) \<and>
    (\<not> (\<exists>r \<in> ranges m. covers a r) \<longrightarrow>
      IpList_find before m a = (if \<exists>k \<in> fst ` set m. k \<le> a then map_option (\<lambda>_. None) before else Some None))"
  using addRange_correct [OF assms(1), of start "end" pl] IpList_find_cases [OF assms, of a]
  by (cases "addRange m start end pl") (auto split: if_splits)

lemma IpList_correct_witness:
  "ip_list_inv [(10, [\<lparr>range_end = 20, payload = 1\<rparr>, \<lparr>range_end = 15, payload = 2\<rparr>])] \<and>
   (\<exists>s e p. IpList_find None [(10, [\<lparr>range_end = 20, payload = 1\<rparr>, \<lparr>range_end = 15, payload = 2\<rparr>])] 12 = Some (Some p) \<and>
     best (ranges [(10, [\<lparr>range_end = 20, payload = 1\<rparr>, \<lparr>range_end = 15, payload = 2\<rparr>])]) 12 (s, e, p))"
proof -
  let ?m = "[(10, [\<lparr>range_end = 20, payload = 1\<rparr>, \<lparr>range_end = 15, payload = 2\<rparr>])] :: IpListMap"
  have inv: "ip_list_inv ?m" by (simp add: ip_list_inv_def)
  have "\<exists>r \<in> ranges ?m. covers 12 r" by (simp add: ranges_def ranges_at_def covers_def)
  with IpList_correct [OF inv, of None _ _ _ 12] inv show ?thesis by auto
qed

section \<open>The interface\<close>

text \<open>
  What the address filters of the client use of a list. \<open>lookup\<close> gives \<open>None\<close> where the search is undefined.
\<close>

locale range_store =
  fixes valid :: "'m \<Rightarrow> bool"
    and content :: "'m \<Rightarrow> (u32 \<times> u32 \<times> u64) set"
    and empty :: 'm
    and add :: "'m \<Rightarrow> u32 \<Rightarrow> u32 \<Rightarrow> u64 \<Rightarrow> IpListError + 'm"
    and lookup :: "'m \<Rightarrow> u32 \<Rightarrow> u64 option option"
  assumes valid_empty: "valid empty" and content_empty: "content empty = {}"
    and add_ok: "valid m \<Longrightarrow> add m s e p = Inr m' \<Longrightarrow> valid m' \<and> content m' = insert (s, e, p) (content m)"
    and add_dup: "valid m \<Longrightarrow> add m s e p = Inl err \<Longrightarrow> \<exists>q. (s, e, q) \<in> content m"
    and lookup_hit: "valid m \<Longrightarrow> r \<in> content m \<Longrightarrow> covers a r \<Longrightarrow>
      \<exists>s e p. lookup m a = Some (Some p) \<and> best (content m) a (s, e, p)"
    and lookup_miss: "valid m \<Longrightarrow> \<forall>r \<in> content m. \<not> covers a r \<Longrightarrow> lookup m a \<in> {None, Some None}"
begin

text \<open>The clients add ranges one after the other and log a failure.\<close>

definition add_log :: "'m \<Rightarrow> u32 \<times> u32 \<times> u64 \<Rightarrow> 'm" where
  "add_log m r = (case r of (s, e, p) \<Rightarrow> (case add m s e p of Inr m' \<Rightarrow> m' | Inl _ \<Rightarrow> m))"

text \<open>Of the ranges with the same bounds the first one stays.\<close>

lemma add_log_content:
  assumes "valid m"
  shows "valid (add_log m (s, e, p))" "content m \<subseteq> content (add_log m (s, e, p))"
    "content (add_log m (s, e, p)) \<subseteq> insert (s, e, p) (content m)"
    "\<exists>q. (s, e, q) \<in> content (add_log m (s, e, p))"
  using assms add_ok [of m s e p] add_dup [of m s e p] by (auto simp: add_log_def split: sum.splits)

lemma fold_add_log:
  "valid m \<Longrightarrow> valid (foldl add_log m rs) \<and> content m \<subseteq> content (foldl add_log m rs) \<and>
    content (foldl add_log m rs) \<subseteq> content m \<union> set rs \<and>
    (\<forall>s e p. (s, e, p) \<in> set rs \<longrightarrow> (\<exists>q. (s, e, q) \<in> content (foldl add_log m rs)))"
proof (induction rs arbitrary: m)
  case (Cons r rs)
  obtain s e p where r: "r = (s, e, p)" by (cases r) auto
  note a = add_log_content [OF Cons.prems, of s e p]
  from a(4) obtain q where "(s, e, q) \<in> content (add_log m r)" unfolding r by blast
  with Cons.IH [of "add_log m r"] a(1-3) show ?case unfolding r by (auto 0 3)
qed simp

text \<open>A list filled with ranges: an address is found exactly when one of them contains it.\<close>

lemma fold_covers:
  "(\<exists>r \<in> content (foldl add_log empty rs). covers a r) \<longleftrightarrow> (\<exists>r \<in> set rs. covers a r)"
proof -
  note f = fold_add_log [OF valid_empty, of rs, unfolded content_empty]
  show ?thesis
  proof
    assume "\<exists>r \<in> set rs. covers a r"
    then obtain s e p where r: "(s, e, p) \<in> set rs" "s \<le> a" "a \<le> e" by (auto simp: covers_def)
    with f obtain q where "(s, e, q) \<in> content (foldl add_log empty rs)" by blast
    with r show "\<exists>r \<in> content (foldl add_log empty rs). covers a r" by (auto simp: covers_def)
  qed (use f in blast)
qed

lemma best_filled:
  assumes "best (content (foldl add_log empty rs)) a r"
  shows "best (set rs) a r"
proof -
  note f = fold_add_log [OF valid_empty, of rs, unfolded content_empty]
  have "fst r' < fst r \<or> fst r' = fst r \<and> fst (snd r) \<le> fst (snd r')" if r': "r' \<in> set rs" "covers a r'" for r'
  proof -
    obtain s e p where s: "r' = (s, e, p)" by (cases r') auto
    with f r'(1) obtain q where "(s, e, q) \<in> content (foldl add_log empty rs)" by blast
    moreover have "covers a (s, e, q)" using r'(2) s by (simp add: covers_def)
    ultimately show ?thesis using assms unfolding best_def s by fastforce
  qed
  with assms f show ?thesis by (auto simp: best_def)
qed

lemma lookup_filled:
  assumes "lookup (foldl add_log empty rs) a = Some x"
  shows "(x \<noteq> None \<longleftrightarrow> (\<exists>r \<in> set rs. covers a r)) \<and>
    (\<forall>p. x = Some p \<longrightarrow> (\<exists>s e. best (set rs) a (s, e, p)))"
proof (cases "\<exists>r \<in> set rs. covers a r")
  case True
  then obtain r where "r \<in> content (foldl add_log empty rs)" "covers a r" using fold_covers [of rs a] by blast
  with lookup_hit [of "foldl add_log empty rs" r a] fold_add_log [OF valid_empty, of rs] obtain s e p where
    "lookup (foldl add_log empty rs) a = Some (Some p)" "best (content (foldl add_log empty rs)) a (s, e, p)" by blast
  with assms True best_filled [of rs a "(s, e, p)"] show ?thesis by auto
next
  case False
  then have "\<forall>r \<in> content (foldl add_log empty rs). \<not> covers a r" using fold_covers [of rs a] by blast
  from lookup_miss [OF _ this] fold_add_log [OF valid_empty, of rs] assms False show ?thesis by auto
qed

end

text \<open>A list whose search is always defined.\<close>

locale total_range_store = range_store +
  assumes lookup_total: "valid m \<Longrightarrow> lookup m a \<noteq> None"
begin

lemma lookup_filled_total: "\<exists>x. lookup (foldl add_log empty rs) a = Some x"
  using lookup_total fold_add_log [OF valid_empty, of rs] by blast

end

lemma ip_list_inv_Nil: "ip_list_inv []"
  by (simp add: ip_list_inv_def)

text \<open>The list by the letter of the standard, and with an end iterator before the first position.\<close>

interpretation strict_list: range_store ip_list_inv ranges "[]" addRange "IpList_find None"
proof
  fix m a r
  assume m: "ip_list_inv m"
  note f = IpList_find_cases [OF m, of None a]
  show "r \<in> ranges m \<Longrightarrow> covers a r \<Longrightarrow> \<exists>s e p. IpList_find None m a = Some (Some p) \<and> best (ranges m) a (s, e, p)"
    using f by (auto split: if_splits)
  show "\<forall>r \<in> ranges m. \<not> covers a r \<Longrightarrow> IpList_find None m a \<in> {None, Some None}"
    using f by (auto split: if_splits)
next
  fix m s e p m' err
  assume m: "ip_list_inv m"
  show "addRange m s e p = Inr m' \<Longrightarrow> ip_list_inv m' \<and> ranges m' = insert (s, e, p) (ranges m)"
    using addRange_correct [OF m, of s e p] by simp
  show "addRange m s e p = Inl err \<Longrightarrow> \<exists>q. (s, e, q) \<in> ranges m"
    using addRange_correct [OF m, of s e p] by simp
qed (simp_all add: ip_list_inv_Nil)

interpretation wrapping_list: total_range_store ip_list_inv ranges "[]" addRange "\<lambda>m. IpList_find (Some (length m)) m"
proof
  fix m a r
  assume m: "ip_list_inv m"
  note f = IpList_find_cases [OF m, of "Some (length m)" a]
  show "r \<in> ranges m \<Longrightarrow> covers a r \<Longrightarrow>
      \<exists>s e p. IpList_find (Some (length m)) m a = Some (Some p) \<and> best (ranges m) a (s, e, p)"
    using f by (auto split: if_splits)
  show "\<forall>r \<in> ranges m. \<not> covers a r \<Longrightarrow> IpList_find (Some (length m)) m a \<in> {None, Some None}"
    using f by (auto split: if_splits)
  show "IpList_find (Some (length m)) m a \<noteq> None" using f by (auto split: if_splits)
qed (simp_all add: strict_list.add_ok strict_list.add_dup ip_list_inv_Nil, (rule strict_list.add_dup; assumption)?)

end
