(* ===== verification/TextFile.thy ===== *)
theory TextFile
  imports Texts
begin

text \<open>
  Reading a text file line by line through a buffer of fixed size: \<open>Util::readTextFile\<close> of \<open>client/Util.cpp\<close>.

  The file is a parameter: its content, how many bytes each call of \<open>File::read\<close> delivers at most
  (\<open>chunk\<close>) and which call throws (\<open>fails\<close>). The buffer is the list of the bytes up to \<open>writePtr\<close>.
  The callback changes the state of the caller and says whether the line is good.
\<close>

section \<open>The program\<close>

datatype ReadResult = ReadOk | ReadFailed | BadInputLine | BufferOverflow

definition BUF_SIZE :: nat where
  "BUF_SIZE = 256 * 1024"

record File =
  chunk :: "nat \<Rightarrow> nat"
  fails :: "nat \<Rightarrow> bool"

text \<open>\<open>File::read\<close>, call number \<open>k\<close>: at least one byte as long as there is one and one is asked for.\<close>

definition File_read :: "File \<Rightarrow> nat \<Rightarrow> nat \<Rightarrow> string \<Rightarrow> nat" where
  "File_read f k n data = min (length data) (min n (max 1 (chunk f k)))"

fun strip_end :: "string \<Rightarrow> nat \<Rightarrow> nat \<Rightarrow> nat" where
  "strip_end buf readPtr 0 = 0"
| "strip_end buf readPtr (Suc n) =
     (if Suc n > readPtr \<and> (buf ! n = CHR 0x0D \<or> buf ! n = CHR 0x0A) then strip_end buf readPtr n else Suc n)"

definition memchr :: "string \<Rightarrow> nat \<Rightarrow> nat option" where
  "memchr buf i = find_first_of buf [CHR 0x0A] i"

text \<open>The lines of the buffer from \<open>readPtr\<close> on.\<close>

function line_loop :: "('s \<Rightarrow> string \<Rightarrow> bool \<times> 's) \<Rightarrow> bool \<Rightarrow> string \<Rightarrow> nat \<Rightarrow> 's \<Rightarrow> ReadResult \<times> nat \<times> 's" where
  "line_loop func eof buf readPtr st =
     (if readPtr < length buf then
        case (case memchr buf readPtr of None \<Rightarrow> (if \<not> eof then None else Some (length buf)) | Some i \<Rightarrow> Some i) of
          None \<Rightarrow> (ReadOk, readPtr, st)
        | Some endPtr \<Rightarrow>
            let nextPtr = endPtr + 1;
                endPtr = strip_end buf readPtr endPtr;
                (ok, st) = func st (subl buf readPtr endPtr)
            in if \<not> ok then (BadInputLine, readPtr, st) else line_loop func eof buf nextPtr st
      else (ReadOk, readPtr, st))"
  by pat_completeness auto
termination
  by (relation "measure (\<lambda>(func, eof, buf, readPtr, st). length buf - readPtr)")
    (auto simp: memchr_def find_first_of_Some split: if_splits option.splits)

declare line_loop.simps [simp del]

definition bom_size :: "string \<Rightarrow> nat" where
  "bom_size buf = (if length buf \<ge> 3 \<and> u8_chr (buf ! 0) = 0xEF \<and> u8_chr (buf ! 1) = 0xBB \<and> u8_chr (buf ! 2) = 0xBF then 3 else 0)"

function read_loop_text :: "('s \<Rightarrow> string \<Rightarrow> bool \<times> 's) \<Rightarrow> File \<Rightarrow> nat \<Rightarrow> nat \<Rightarrow> string \<Rightarrow> string \<Rightarrow> bool \<Rightarrow> 's \<Rightarrow> ReadResult \<times> 's" where
  "read_loop_text func f cap k data buf firstLine st =
     (if fails f k then (ReadFailed, st)
      else
        let n = File_read f k (cap - length buf) data;
            buf = buf @ take n data;
            eof = (n = 0);
            readPtr = (if firstLine then bom_size buf else 0);
            (r, readPtr, st) = line_loop func eof buf readPtr st
        in if r \<noteq> ReadOk then (r, st)
        else if readPtr = 0 \<and> length buf = cap then (BufferOverflow, st)
        else if eof then (ReadOk, st)
        else read_loop_text func f cap (k + 1) (drop n data) (drop readPtr buf) False st)"
  by pat_completeness auto
termination
proof (relation "measure (\<lambda>(func, f, cap, k, data, buf, firstLine, st). length data)", goal_cases)
  case (2 func f cap k data buf firstLine st n)
  have "n \<noteq> 0" using 2 by blast
  moreover have "n \<le> length data" using 2(2) by (simp only: File_read_def min.cobounded1)
  ultimately have "n \<noteq> 0" "n \<le> length data" .
  then show ?case by simp
qed simp

declare read_loop_text.simps [simp del]

definition readTextFile :: "('s \<Rightarrow> string \<Rightarrow> bool \<times> 's) \<Rightarrow> File \<Rightarrow> string \<Rightarrow> 's \<Rightarrow> ReadResult \<times> 's" where
  "readTextFile func f data st = read_loop_text func f BUF_SIZE 0 data [] True st"

section \<open>The lines of a text\<close>

text \<open>The reference: the pieces between line feeds, without carriage returns at their ends.\<close>

definition trim_cr :: "string \<Rightarrow> string" where
  "trim_cr s = rev (dropWhile (\<lambda>c. c = CHR 0x0D \<or> c = CHR 0x0A) (rev s))"

function text_lines :: "string \<Rightarrow> string list" where
  "text_lines s = (if s = [] then []
     else trim_cr (takeWhile (\<lambda>c. c \<noteq> CHR 0x0A) s) # text_lines (drop 1 (dropWhile (\<lambda>c. c \<noteq> CHR 0x0A) s)))"
  by pat_completeness auto
termination
proof (relation "measure length", goal_cases)
  case (2 s)
  then have "length (drop 1 (dropWhile (\<lambda>c. c \<noteq> CHR 0x0A) s)) < length s"
    using length_dropWhile_le [of "\<lambda>c. c \<noteq> CHR 0x0A" s] by (cases s) auto
  then show ?case by simp
qed simp

declare text_lines.simps [simp del]

definition strip_bom :: "string \<Rightarrow> string" where
  "strip_bom s = drop (bom_size s) s"

abbreviation LF :: char where
  "LF \<equiv> CHR 0x0A"

lemma trim_cr_Nil [simp]: "trim_cr [] = []"
  by (simp add: trim_cr_def)

lemma trim_cr_snoc: "trim_cr (s @ [c]) = (if c = CHR 0x0D \<or> c = LF then trim_cr s else s @ [c])"
  by (simp add: trim_cr_def)

lemma text_lines_Nil [simp]: "text_lines [] = []"
  by (simp add: text_lines.simps)

lemma takeWhile_LF: "LF \<notin> set l \<Longrightarrow> takeWhile (\<lambda>c. c \<noteq> LF) (l @ LF # t) = l"
  "LF \<notin> set l \<Longrightarrow> dropWhile (\<lambda>c. c \<noteq> LF) (l @ LF # t) = LF # t"
  "LF \<notin> set l \<Longrightarrow> takeWhile (\<lambda>c. c \<noteq> LF) l = l" "LF \<notin> set l \<Longrightarrow> dropWhile (\<lambda>c. c \<noteq> LF) l = []"
  by (induction l) auto

lemma text_lines_line: "LF \<notin> set l \<Longrightarrow> text_lines (l @ LF # t) = trim_cr l # text_lines t"
  by (subst text_lines.simps) (simp add: takeWhile_LF)

lemma text_lines_last: "LF \<notin> set l \<Longrightarrow> l \<noteq> [] \<Longrightarrow> text_lines l = [trim_cr l]"
  by (subst text_lines.simps) (simp add: takeWhile_LF)

lemma strip_end_trim: "e \<le> length buf \<Longrightarrow> subl buf i (strip_end buf i e) = trim_cr (subl buf i e)"
proof (induction e)
  case (Suc e)
  show ?case
  proof (cases "i \<le> e")
    case True
    then have "subl buf i (Suc e) = subl buf i e @ [buf ! e]"
      using Suc.prems subl_append [OF True, of "Suc e" buf] subl_Cons [of e "Suc e" buf] by simp
    with Suc True show ?thesis by (auto simp: trim_cr_snoc)
  qed (use Suc in simp)
qed simp

lemma strip_end_le: "strip_end buf i e \<le> e"
  by (induction e) auto

lemma memchr_Some:
  assumes "memchr buf i = Some j"
  shows "i \<le> j" "j < length buf" "LF \<notin> set (subl buf i j)" "drop i buf = subl buf i j @ LF # drop (j + 1) buf"
proof -
  have j: "i \<le> j" "j < length buf" "buf ! j = LF" "\<And>k. i \<le> k \<Longrightarrow> k < j \<Longrightarrow> buf ! k \<noteq> LF"
    using assms by (auto simp: memchr_def find_first_of_Some)
  then show "i \<le> j" "j < length buf" "LF \<notin> set (subl buf i j)" by (simp_all add: set_subl) (metis j(4))
  have "drop i buf = subl buf i j @ drop j buf"
    using j(1,2) unfolding subl_def by (metis append_take_drop_id drop_drop le_add_diff_inverse2 add.commute)
  then show "drop i buf = subl buf i j @ LF # drop (j + 1) buf" using j(2,3) by (simp add: Cons_nth_drop_Suc [symmetric])
qed

lemma memchr_None: "memchr buf i = None \<Longrightarrow> LF \<notin> set (drop i buf)"
  by (auto simp: memchr_def find_first_of_None in_set_conv_nth)

text \<open>The callback over a list of lines.\<close>

abbreviation run :: "('s \<Rightarrow> string \<Rightarrow> bool \<times> 's) \<Rightarrow> 's \<Rightarrow> string list \<Rightarrow> 's" where
  "run func st ls \<equiv> foldl (\<lambda>st l. snd (func st l)) st ls"

lemma line_loop_line:
  assumes "\<And>st l. fst (func st l)" "memchr buf i = Some j"
  shows "line_loop func eof buf i st = line_loop func eof buf (j + 1) (snd (func st (trim_cr (subl buf i j))))"
proof -
  note j = memchr_Some [OF assms(2)]
  have "i < length buf" using j(1,2) by simp
  then show ?thesis
    using strip_end_trim [of j buf i] j(2) assms(2) assms(1) [of st "trim_cr (subl buf i j)"]
    by (subst line_loop.simps) (simp add: Let_def case_prod_beta)
qed

lemma line_loop_eof:
  assumes "\<And>st l. fst (func st l)"
  shows "\<exists>p. line_loop func True buf i st = (ReadOk, p, run func st (text_lines (drop i buf))) \<and> i \<le> p"
proof (induction "length buf - i" arbitrary: i st rule: less_induct)
  case less
  show ?case
  proof (cases "memchr buf i")
    case (Some j)
    note j = memchr_Some [OF Some]
    have "length buf - (j + 1) < length buf - i" using j(1,2) by linarith
    from less [OF this, of "snd (func st (trim_cr (subl buf i j)))"] obtain p where
      "line_loop func True buf (j + 1) (snd (func st (trim_cr (subl buf i j)))) =
        (ReadOk, p, run func st (text_lines (drop i buf)))" "j + 1 \<le> p"
      by (auto simp: j(4) text_lines_line [OF j(3)])
    with line_loop_line [of func buf i j True st, OF assms Some] j(1) show ?thesis by auto
  next
    case None
    note lf = memchr_None [OF None]
    show ?thesis
    proof (cases "i < length buf")
      case True
      have "line_loop func True buf i st = line_loop func True buf (length buf + 1) (snd (func st (trim_cr (drop i buf))))"
        using strip_end_trim [of "length buf" buf i] assms [of st "trim_cr (drop i buf)"] True None
        by (subst line_loop.simps) (simp add: Let_def subl_def case_prod_beta)
      also have "\<dots> = (ReadOk, length buf + 1, snd (func st (trim_cr (drop i buf))))"
        by (subst line_loop.simps) simp
      finally show ?thesis using True text_lines_last [OF lf] by simp
    next
      case False
      then show ?thesis by (subst line_loop.simps) simp
    qed
  qed
qed

lemma line_loop_more:
  assumes "\<And>st l. fst (func st l)" "i \<le> length buf"
  shows "\<exists>p st'. line_loop func False buf i st = (ReadOk, p, st') \<and> i \<le> p \<and> p \<le> length buf \<and> LF \<notin> set (drop p buf) \<and>
    (\<forall>d. run func st' (text_lines (drop p buf @ d)) = run func st (text_lines (drop i buf @ d)))"
  using assms(2)
proof (induction "length buf - i" arbitrary: i st rule: less_induct)
  case less
  show ?case
  proof (cases "memchr buf i")
    case (Some j)
    note j = memchr_Some [OF Some]
    have "length buf - (j + 1) < length buf - i" "j + 1 \<le> length buf" using j(1,2) by linarith+
    from less(1) [OF this, of "snd (func st (trim_cr (subl buf i j)))"] obtain p st' where p:
      "line_loop func False buf (j + 1) (snd (func st (trim_cr (subl buf i j)))) = (ReadOk, p, st')"
      "j + 1 \<le> p" "p \<le> length buf" "LF \<notin> set (drop p buf)"
      "\<And>d. run func st' (text_lines (drop p buf @ d)) =
        run func (snd (func st (trim_cr (subl buf i j)))) (text_lines (drop (j + 1) buf @ d))" by auto
    have "run func st' (text_lines (drop p buf @ d)) = run func st (text_lines (drop i buf @ d))" for d
      using text_lines_line [OF j(3), of "drop (j + 1) buf @ d"] p(5) [of d] by (simp add: j(4))
    moreover have "line_loop func False buf i st = (ReadOk, p, st')"
      using p(1) line_loop_line [of func buf i j False st, OF assms(1) Some] by simp
    ultimately show ?thesis using p(2-4) j(1) by auto
  next
    case None
    then have "line_loop func False buf i st = (ReadOk, i, st)" by (subst line_loop.simps) simp
    with memchr_None [OF None] less(2) show ?thesis by auto
  qed
qed

section \<open>The whole file\<close>

text \<open>Every line fits into the buffer with its line feed.\<close>

definition short_lines :: "nat \<Rightarrow> string \<Rightarrow> bool" where
  "short_lines cap t \<longleftrightarrow> (\<forall>xs ys zs. t = xs @ ys @ zs \<longrightarrow> LF \<notin> set ys \<longrightarrow> length ys < cap)"

lemma short_lines_suffix: "short_lines cap (xs @ t) \<Longrightarrow> short_lines cap t"
  unfolding short_lines_def by (metis append.assoc)

lemma short_lines_prefix: "short_lines cap (ys @ t) \<Longrightarrow> LF \<notin> set ys \<Longrightarrow> length ys < cap"
  unfolding short_lines_def by (metis append_Nil)

lemma short_lines_small: "length t < cap \<Longrightarrow> short_lines cap t"
  by (auto simp: short_lines_def)

lemma File_read_0: "File_read f k n data = 0 \<longleftrightarrow> n = 0 \<or> data = []"
  by (auto simp: File_read_def min_def)

lemma read_loop_text_step:
  assumes "\<not> fails f k" "n = File_read f k (cap - length buf) data" "n \<noteq> 0"
    and "line_loop func False (buf @ take n data) (if firstLine then bom_size (buf @ take n data) else 0) st = (ReadOk, p, st')"
    and "\<not> (p = 0 \<and> length (buf @ take n data) = cap)"
  shows "read_loop_text func f cap k data buf firstLine st =
    read_loop_text func f cap (k + 1) (drop n data) (drop p (buf @ take n data)) False st'"
  using assms(1,3) unfolding read_loop_text.simps [of func f cap k data buf firstLine st] Let_def assms(2) [symmetric]
  by (simp only: assms(4) prod.case if_not_P [OF assms(5)] if_False simp_thms)

lemma read_loop_text_lines:
  assumes "\<And>st l. fst (func st l)" "\<And>k. \<not> fails f k"
  shows "LF \<notin> set buf \<Longrightarrow> short_lines cap (buf @ data) \<Longrightarrow>
    read_loop_text func f cap k data buf False st = (ReadOk, run func st (text_lines (buf @ data)))"
proof (induction "length data" arbitrary: data buf k st rule: less_induct)
  case less
  define n where "n = File_read f k (cap - length buf) data"
  have small: "length buf < cap" using short_lines_prefix less.prems by blast
  show ?case
  proof (cases "data = []")
    case True
    obtain p where "line_loop func True buf 0 st = (ReadOk, p, run func st (text_lines buf))"
      using line_loop_eof [of func buf 0 st, OF assms(1)] by auto
    with True small assms(2) show ?thesis
      by (subst read_loop_text.simps) (simp add: File_read_def Let_def)
  next
    case False
    then have n: "n \<noteq> 0" "n \<le> length data" using small by (auto simp: n_def File_read_0) (simp add: File_read_def)
    let ?buf = "buf @ take n data"
    obtain p st' where p: "line_loop func False ?buf 0 st = (ReadOk, p, st')" "p \<le> length ?buf" "LF \<notin> set (drop p ?buf)"
      "\<And>d. run func st' (text_lines (drop p ?buf @ d)) = run func st (text_lines (?buf @ d))"
      using line_loop_more [of func 0 ?buf st, OF assms(1)] by auto
    have all: "buf @ data = ?buf @ drop n data" by simp
    have over: "\<not> (p = 0 \<and> length ?buf = cap)"
      using short_lines_prefix [of cap ?buf "drop n data"] less.prems(2) p(3) unfolding all by auto
    have "read_loop_text func f cap k data buf False st =
        read_loop_text func f cap (k + 1) (drop n data) (drop p ?buf) False st'"
      using p(1) over by (intro read_loop_text_step [OF assms(2) n_def n(1)]) simp_all
    also have "\<dots> = (ReadOk, run func st' (text_lines (drop p ?buf @ drop n data)))"
    proof (rule less.hyps [OF _ p(3)])
      show "length (drop n data) < length data" using n by simp
      have "take p ?buf @ drop p ?buf @ drop n data = buf @ data" by (metis append.assoc append_take_drop_id)
      with less.prems(2) show "short_lines cap (drop p ?buf @ drop n data)" by (metis short_lines_suffix)
    qed
    also have "\<dots> = (ReadOk, run func st (text_lines (buf @ data)))" using p(4) [of "drop n data"] by simp
    finally show ?thesis .
  qed
qed

lemma bom_size_take:
  assumes "n = length data \<or> 3 \<le> n \<or> bom_size data = 0"
  shows "bom_size (take n data) = bom_size data"
  using assms by (auto simp: bom_size_def)

lemma bom_size_le: "bom_size s \<le> length s"
  by (simp add: bom_size_def)

text \<open>The test for the byte order mark sees what the first read delivered.\<close>

lemma readTextFile_first:
  fixes f :: File and data :: string
  assumes ok: "\<forall>st l. fst (func st l)" and io: "\<forall>k. \<not> fails f k"
  defines "n \<equiv> File_read f 0 (BUF_SIZE - length ('''' :: string)) data"
  assumes short: "short_lines BUF_SIZE (drop (bom_size (take n data)) data)"
  shows "readTextFile func f data st =
    (ReadOk, foldl (\<lambda>st l. snd (func st l)) st (text_lines (drop (bom_size (take n data)) data)))"
proof -
  have cap: "3 \<le> BUF_SIZE" by (simp add: BUF_SIZE_def)
  have n: "n = 0 \<longleftrightarrow> data = []" using cap by (auto simp: n_def File_read_def min_def)
  show ?thesis
  proof (cases "data = []")
    case True
    obtain p where "line_loop func True [] 0 st = (ReadOk, p, st)"
      using line_loop_eof [of func "[]" 0 st] ok by auto
    with True io cap show ?thesis
      unfolding readTextFile_def by (subst read_loop_text.simps) (simp add: File_read_def Let_def bom_size_def)
  next
    case False
    let ?b = "bom_size (take n data)"
    have b_le: "?b \<le> length (take n data)" by (rule bom_size_le)
    obtain p st' where p: "line_loop func False (take n data) ?b st = (ReadOk, p, st')" "?b \<le> p"
      "LF \<notin> set (drop p (take n data))"
      "\<And>d. run func st' (text_lines (drop p (take n data) @ d)) = run func st (text_lines (drop ?b (take n data) @ d))"
      using line_loop_more [of func ?b "take n data" st, OF _ b_le] ok by auto
    have rest: "drop ?b (take n data) @ drop n data = drop ?b data"
      using b_le by (metis append_take_drop_id drop_append diff_is_0_eq drop_0)
    have over: "\<not> (p = 0 \<and> length (take n data) = BUF_SIZE)"
      using short_lines_prefix [of BUF_SIZE "take n data" "drop n data"] short p(2,3)
      by auto
    have "readTextFile func f data st = read_loop_text func f BUF_SIZE 1 (drop n data) (drop p (take n data)) False st'"
    proof -
      have "line_loop func False ([] @ take n data) (if True then bom_size ([] @ take n data) else 0) st = (ReadOk, p, st')"
        using p(1) by simp
      moreover have "n \<noteq> 0" "\<not> fails f 0" using n False io by simp_all
      ultimately show ?thesis
        unfolding readTextFile_def using read_loop_text_step [OF _ n_def [THEN meta_eq_to_obj_eq]] over by fastforce
    qed
    also have "\<dots> = (ReadOk, run func st' (text_lines (drop p (take n data) @ drop n data)))"
    proof (rule read_loop_text_lines [OF _ _ p(3)])
      have "drop ?b (take n data) = take (p - ?b) (drop ?b (take n data)) @ drop p (take n data)"
        using p(2) by (metis append_take_drop_id drop_drop le_add_diff_inverse2)
      with short rest show "short_lines BUF_SIZE (drop p (take n data) @ drop n data)"
        by (metis append.assoc short_lines_suffix)
    qed (use ok io in auto)
    also have "\<dots> = (ReadOk, run func st (text_lines (drop ?b data)))" using p(4) [of "drop n data"] rest by simp
    finally show ?thesis .
  qed
qed

lemma readTextFile_run:
  assumes ok: "\<forall>st l. fst (func st l)" and io: "\<forall>k. \<not> fails f k" "bom_size data = 0 \<or> 3 \<le> chunk f 0"
    and short: "short_lines BUF_SIZE (strip_bom data)"
  shows "readTextFile func f data st = (ReadOk, foldl (\<lambda>st l. snd (func st l)) st (text_lines (strip_bom data)))"
proof -
  define n where "n = File_read f 0 (BUF_SIZE - length ('''' :: string)) data"
  have "n = length data \<or> 3 \<le> n \<or> bom_size data = 0"
    using io(2) by (auto simp: n_def File_read_def min_def BUF_SIZE_def)
  then have "bom_size (take n data) = bom_size data" by (rule bom_size_take)
  with readTextFile_first [OF ok io(1), of data st] short show ?thesis by (simp add: n_def strip_bom_def)
qed

text \<open>
  C17: The callback gets every line of the file exactly once and in order, without its line end and
  without the byte order mark at the start of the file, however the reads cut the file, provided that
  the callback accepts every line, no read fails, every line fits into the buffer of 256 KiB, and,
  in a file with a byte order mark, the first read delivers at least three bytes.
\<close>

theorem readTextFile_lines:
  assumes ok: "\<forall>st l. fst (func st l)" and io: "\<forall>k. \<not> fails f k" "bom_size data = 0 \<or> 3 \<le> chunk f 0" and short: "short_lines BUF_SIZE (strip_bom data)"
  shows "readTextFile func f data st = (ReadOk, foldl (\<lambda>st l. snd (func st l)) st (text_lines (strip_bom data)))"
  by (rule readTextFile_run [OF assms])

lemma readTextFile_lines_witness:
  "readTextFile (\<lambda>ls l. (True, ls @ [l])) \<lparr>chunk = (\<lambda>k. 4), fails = (\<lambda>k. False)\<rparr> (''10.0.0.1'' @ [CHR 0x0D, CHR 0x0A] @ ''#'') [] =
    (ReadOk, [''10.0.0.1'', ''#''])"
proof -
  let ?d = "''10.0.0.1'' @ [CHR 0x0D, CHR 0x0A] @ ''#''"
  have "short_lines BUF_SIZE (strip_bom ?d)"
    by (rule short_lines_small) (simp add: strip_bom_def bom_size_def BUF_SIZE_def)
  then have "readTextFile (\<lambda>ls l. (True, ls @ [l])) \<lparr>chunk = (\<lambda>k. 4), fails = (\<lambda>k. False)\<rparr> ?d [] =
      (ReadOk, foldl (\<lambda>st l. snd (True, st @ [l])) [] (text_lines (strip_bom ?d)))"
    using readTextFile_lines [of "\<lambda>ls l. (True, ls @ [l])" "\<lparr>chunk = (\<lambda>k. 4), fails = (\<lambda>k. False)\<rparr>" ?d "[]"] by simp
  moreover have "foldl (\<lambda>st l. snd (True, st @ [l])) [] (text_lines (strip_bom ?d)) = [''10.0.0.1'', ''#'']" by code_simp
  ultimately show ?thesis by simp
qed

text \<open>
  A first read of one or two bytes: \<open>firstLine\<close> is cleared before the mark is complete, and the
  mark stays in the first line.
\<close>

lemma short_first_read_keeps_mark:
  assumes "\<forall>st l. fst (func st l)" "\<forall>k. \<not> fails f k" "chunk f 0 < 3" "short_lines BUF_SIZE data"
  shows "readTextFile func f data st = (ReadOk, foldl (\<lambda>st l. snd (func st l)) st (text_lines data))"
proof -
  define n where "n = File_read f 0 (BUF_SIZE - length ('''' :: string)) data"
  have "n < 3" using assms(3) by (simp add: n_def File_read_def)
  then have "bom_size (take n data) = 0" by (simp add: bom_size_def)
  with readTextFile_first [OF assms(1,2), of data st] assms(4) show ?thesis by (simp add: n_def)
qed

end
