(* ===== verification/IpFilter.thy ===== *)
theory IpFilter
  imports IpList TextFile
begin

text \<open>
  The address filters of the client: \<open>client/IpGuard.cpp\<close> (a blacklist or whitelist for all connections),
  \<open>client/IpGrant.cpp\<close> (addresses that get an extra slot) and \<open>client/IpTrust.cpp\<close> (lines marked as
  trusted or blocked). Each loads its ranges from a text file and asks an \<open>IpList\<close>.

  The locks serialise the operations, so each is one step on the object. Messages to the log are
  left out. Where a line has a number that is no \<open>int\<close> or where the search is undefined, the result is
  \<open>None\<close>. \<open>before\<close> is what the decremented iterator of the first element is, as in the theory \<open>IpList\<close>.
\<close>

section \<open>The program\<close>

text \<open>The lines of the filters: parse, and add a range whose payload may depend on the mark.\<close>

definition add_parsed :: "u64 \<Rightarrow> ParseLineResult \<Rightarrow> IpListMap \<Rightarrow> IpListMap" where
  "add_parsed pl out m = (case addRange m (res_start out) (res_end out) pl of Inr m' \<Rightarrow> m' | Inl err \<Rightarrow> m)"

definition addLine :: "IpListMap option \<Rightarrow> string \<Rightarrow> bool \<times> IpListMap option" where
  "addLine st s = (True,
     case st of None \<Rightarrow> None
     | Some m \<Rightarrow>
         (case parseLine s [] 0 of
            None \<Rightarrow> None
          | Some (None, out) \<Rightarrow> Some (add_parsed 0 out m)
          | Some (Some err, out) \<Rightarrow> Some m))"

text \<open>
  Loading: the state after the last line, or the state after an exception (\<open>opened\<close> is false when the
  file cannot be opened).
\<close>

definition load_file :: "('s option \<Rightarrow> string \<Rightarrow> bool \<times> 's option) \<Rightarrow> ('s \<Rightarrow> 's) \<Rightarrow> File \<Rightarrow> bool \<Rightarrow> string \<Rightarrow> 's \<Rightarrow> 's option" where
  "load_file line on_error f opened data st =
     (if \<not> opened then Some (on_error st)
      else case readTextFile line f data (Some st) of
        (r, None) \<Rightarrow> None
      | (r, Some st) \<Rightarrow> Some (if r = ReadOk then st else on_error st))"

subsection \<open>IpGuard\<close>

record IpGuard =
  guard_enabled :: bool
  guard_list :: IpListMap
  isWhiteList :: bool

definition IpGuard_updateSettings :: "bool \<Rightarrow> bool \<Rightarrow> IpGuard \<Rightarrow> IpGuard" where
  "IpGuard_updateSettings optEnabled optWhiteList g = g\<lparr>guard_enabled := optEnabled, isWhiteList := optWhiteList\<rparr>"

definition IpGuard_load :: "File \<Rightarrow> bool \<Rightarrow> string \<Rightarrow> IpGuard \<Rightarrow> IpGuard option" where
  "IpGuard_load f opened data g =
     map_option (\<lambda>m. g\<lparr>guard_list := m\<rparr>) (load_file addLine (\<lambda>m. []) f opened data [])"

definition IpGuard_clear :: "IpGuard \<Rightarrow> IpGuard" where
  "IpGuard_clear g = g\<lparr>guard_list := []\<rparr>"

definition IpGuard_isBlocked :: "(IpListMap \<Rightarrow> nat option) \<Rightarrow> IpGuard \<Rightarrow> u32 \<Rightarrow> bool option" where
  "IpGuard_isBlocked before g addr =
     map_option (\<lambda>x. if x \<noteq> None then \<not> isWhiteList g else isWhiteList g)
       (IpList_find (before (guard_list g)) (guard_list g) addr)"

subsection \<open>IpGrant\<close>

type_synonym IpGrant = IpListMap

definition IpGrant_load :: "bool \<Rightarrow> File \<Rightarrow> bool \<Rightarrow> string \<Rightarrow> IpGrant \<Rightarrow> IpGrant option" where
  "IpGrant_load enabled f opened data m =
     (if \<not> enabled then Some m else load_file addLine (\<lambda>m. []) f opened data [])"

definition IpGrant_clear :: "IpGrant \<Rightarrow> IpGrant" where
  "IpGrant_clear m = []"

definition IpGrant_check :: "(IpListMap \<Rightarrow> nat option) \<Rightarrow> IpGrant \<Rightarrow> u32 \<Rightarrow> bool option" where
  "IpGrant_check before m addr =
     (if addr = 0 then Some False else map_option (\<lambda>x. x \<noteq> None) (IpList_find (before m) m addr))"

subsection \<open>IpTrust\<close>

record IpTrust =
  trust_list :: IpListMap
  trust_enabled :: bool
  hasWhiteList :: bool

definition trust_addLine :: "(bool \<times> IpListMap) option \<Rightarrow> string \<Rightarrow> bool \<times> (bool \<times> IpListMap) option" where
  "trust_addLine st s = (True,
     case st of None \<Rightarrow> None
     | Some (white, m) \<Rightarrow>
         (case parseLine s ''-+'' 0 of
            None \<Rightarrow> None
          | Some (None, out) \<Rightarrow>
              if specialChar out = CHR ''-'' then Some (white, add_parsed 1 out m)
              else Some (True, add_parsed 0 out m)
          | Some (Some err, out) \<Rightarrow> Some (white, m)))"

definition IpTrust_updateSettings :: "bool \<Rightarrow> IpTrust \<Rightarrow> IpTrust" where
  "IpTrust_updateSettings optEnabled t = t\<lparr>trust_enabled := optEnabled\<rparr>"

definition IpTrust_load :: "File \<Rightarrow> bool \<Rightarrow> string \<Rightarrow> IpTrust \<Rightarrow> IpTrust option" where
  "IpTrust_load f opened data t =
     map_option (\<lambda>(white, m). t\<lparr>hasWhiteList := white, trust_list := m\<rparr>)
       (load_file trust_addLine (\<lambda>(white, m). (white, [])) f opened data (False, []))"

definition IpTrust_clear :: "IpTrust \<Rightarrow> IpTrust" where
  "IpTrust_clear t = t\<lparr>trust_list := [], hasWhiteList := False\<rparr>"

definition IpTrust_isBlocked :: "(IpListMap \<Rightarrow> nat option) \<Rightarrow> IpTrust \<Rightarrow> u32 \<Rightarrow> bool option" where
  "IpTrust_isBlocked before t addr =
     (if \<not> trust_enabled t then Some False
      else map_option (\<lambda>x. case x of Some pl \<Rightarrow> pl \<noteq> 0 | None \<Rightarrow> hasWhiteList t)
        (IpList_find (before (trust_list t)) (trust_list t) addr))"

section \<open>The ranges of a file\<close>

text \<open>The range of a line, with its mark.\<close>

definition line_range :: "string \<Rightarrow> string \<Rightarrow> (u32 \<times> u32 \<times> char) list" where
  "line_range sc l = (case parseLine l sc 0 of Some (None, out) \<Rightarrow> [(res_start out, res_end out, specialChar out)] | _ \<Rightarrow> [])"

definition file_ranges :: "string \<Rightarrow> string list \<Rightarrow> (u32 \<times> u32 \<times> char) list" where
  "file_ranges sc ls = concat (map (line_range sc) ls)"

definition listed :: "string \<Rightarrow> string list \<Rightarrow> u32 \<Rightarrow> bool" where
  "listed sc ls a = list_ex (\<lambda>(s, e, c). s \<le> a \<and> a \<le> e) (file_ranges sc ls)"

text \<open>What the filters add for a line: without marks the payload is zero, with them it says that the address is blocked.\<close>

abbreviation plain_payload :: "u32 \<times> u32 \<times> char \<Rightarrow> u32 \<times> u32 \<times> u64" where
  "plain_payload r \<equiv> (fst r, fst (snd r), 0)"

abbreviation mark_payload :: "u32 \<times> u32 \<times> char \<Rightarrow> u32 \<times> u32 \<times> u64" where
  "mark_payload r \<equiv> (fst r, fst (snd r), if snd (snd r) = CHR ''-'' then 1 else 0)"

lemma add_parsed_log: "add_parsed pl out m = strict_list.add_log m (res_start out, res_end out, pl)"
  by (simp add: add_parsed_def strict_list.add_log_def)

lemma addLine_ok: "\<forall>st l. fst (addLine st l)" "\<forall>st l. fst (trust_addLine st l)"
  by (simp_all add: addLine_def trust_addLine_def)

lemma run_addLine:
  "\<forall>l \<in> set ls. parseLine l [] 0 \<noteq> None \<Longrightarrow>
    run addLine (Some m) ls = Some (foldl strict_list.add_log m (map plain_payload (file_ranges [] ls)))"
proof (induction ls arbitrary: m)
  case (Cons l ls)
  then obtain r out where p: "parseLine l [] 0 = Some (r, out)" by fastforce
  with Cons show ?case
    by (cases r) (auto simp: addLine_def add_parsed_log file_ranges_def line_range_def)
qed (simp add: file_ranges_def)

lemma run_trust_addLine:
  "\<forall>l \<in> set ls. parseLine l ''-+'' 0 \<noteq> None \<Longrightarrow>
    run trust_addLine (Some (w, m)) ls =
      Some (w \<or> list_ex (\<lambda>(s, e, c). c \<noteq> CHR ''-'') (file_ranges ''-+'' ls),
        foldl strict_list.add_log m (map mark_payload (file_ranges ''-+'' ls)))"
proof (induction ls arbitrary: w m)
  case (Cons l ls)
  then obtain r out where p: "parseLine l ''-+'' 0 = Some (r, out)" by fastforce
  with Cons show ?case
    by (cases r; cases "specialChar out = CHR ''-''") (auto simp: trust_addLine_def add_parsed_log file_ranges_def line_range_def)
qed (simp add: file_ranges_def)

section \<open>The filters\<close>

lemma load_file_lines:
  assumes "\<forall>st l. fst (line st l)" "\<forall>k. \<not> fails f k" "3 \<le> chunk f 0" "short_lines BUF_SIZE (strip_bom data)"
  shows "load_file line on_error f True data st = run line (Some st) (text_lines (strip_bom data))"
  unfolding load_file_def readTextFile_run [OF assms(1,2) disjI2 [OF assms(3)] assms(4)]
  by (auto split: option.splits)

lemma covers_payload: "(\<exists>r \<in> set (map plain_payload rs). covers a r) \<longleftrightarrow> list_ex (\<lambda>(s, e, c). s \<le> a \<and> a \<le> e) rs"
  "(\<exists>r \<in> set (map mark_payload rs). covers a r) \<longleftrightarrow> list_ex (\<lambda>(s, e, c). s \<le> a \<and> a \<le> e) rs"
  by (force simp: covers_def list_ex_iff)+

text \<open>The range of the file that decides about an address.\<close>

definition decides :: "(u32 \<times> u32 \<times> char) list \<Rightarrow> u32 \<Rightarrow> u32 \<times> u32 \<times> char \<Rightarrow> bool" where
  "decides rs a r \<longleftrightarrow> r \<in> set rs \<and> fst r \<le> a \<and> a \<le> fst (snd r) \<and>
     list_all (\<lambda>(s, e, c). s \<le> a \<and> a \<le> e \<longrightarrow> s < fst r \<or> s = fst r \<and> fst (snd r) \<le> e) rs"

lemma best_decides:
  assumes "best (set (map mark_payload rs)) a (s, e, p)"
  shows "\<exists>c. decides rs a (s, e, c) \<and> (p \<noteq> 0 \<longleftrightarrow> c = CHR ''-'')"
proof -
  from assms obtain x where x: "x \<in> set rs" "mark_payload x = (s, e, p)" "s \<le> a" "a \<le> e"
    by (auto simp: best_def covers_def)
  define c where "c = snd (snd x)"
  have "x = (s, e, c)" using x(2) by (auto simp: c_def prod_eq_iff)
  with x have r: "(s, e, c) \<in> set rs" "p \<noteq> 0 \<longleftrightarrow> c = CHR ''-''" "s \<le> a" "a \<le> e" by (auto split: if_splits)
  moreover have "s' < s \<or> s' = s \<and> e \<le> e'" if "(s', e', c') \<in> set rs" "s' \<le> a" "a \<le> e'" for s' e' c'
  proof -
    have "mark_payload (s', e', c') \<in> set (map mark_payload rs)" using that(1) unfolding set_map by (rule imageI)
    moreover have "covers a (mark_payload (s', e', c'))" using that by (simp add: covers_def)
    ultimately show ?thesis using assms unfolding best_def by fastforce
  qed
  ultimately have "decides rs a (s, e, c)" by (auto simp: decides_def list_all_iff)
  with r(2) show ?thesis by blast
qed

text \<open>What a search in a loaded list gives, under either meaning of the decremented first iterator.\<close>

abbreviation undefined_before :: "IpListMap \<Rightarrow> nat option" where
  "undefined_before \<equiv> \<lambda>m. None"

abbreviation end_before :: "IpListMap \<Rightarrow> nat option" where
  "end_before \<equiv> \<lambda>m. Some (length m)"

lemma find_loaded:
  assumes "before = undefined_before \<or> before = end_before" "m = foldl strict_list.add_log [] rs"
    and "IpList_find (before m) m a = Some x"
  shows "(x \<noteq> None \<longleftrightarrow> (\<exists>r \<in> set rs. covers a r)) \<and> (\<forall>p. x = Some p \<longrightarrow> (\<exists>s e. best (set rs) a (s, e, p)))"
  using assms(1)
proof
  assume "before = undefined_before"
  with strict_list.lookup_filled [of rs a x] assms(2,3) show ?thesis by simp
next
  assume "before = end_before"
  with wrapping_list.lookup_filled [of rs a x] assms(2,3) show ?thesis by simp
qed

lemma find_loaded_total: "\<exists>x. IpList_find (end_before (foldl strict_list.add_log [] rs)) (foldl strict_list.add_log [] rs) a = Some x"
  using wrapping_list.lookup_filled_total [of rs a] .

text \<open>
  C15: After the file has been loaded, \<open>IpGuard\<close> blocks the listed addresses, or as a whitelist all
  others; \<open>IpTrust\<close>, where it is enabled, blocks an address that a range contains when the range that decides,
  of the greatest start and then of the smallest end, is marked with a minus, and any other address when the file has
  a range without that mark. So it is whenever the search is defined, and the search is always
  defined where the decremented iterator of the first element is the end iterator.
\<close>

theorem ip_filters_correct:
  assumes io: "\<forall>k. \<not> fails f k" "3 \<le> chunk f 0" "short_lines BUF_SIZE (strip_bom data)"
    and lines: "ls = text_lines (strip_bom data)" "\<forall>l \<in> set ls. parseLine l [] 0 \<noteq> None \<and> parseLine l ''-+'' 0 \<noteq> None"
    and before: "before = undefined_before \<or> before = end_before"
  shows "\<exists>g' t'. IpGuard_load f True data g = Some g' \<and> IpTrust_load f True data t = Some t' \<and>
    (before = end_before \<longrightarrow> IpGuard_isBlocked before g' a \<noteq> None \<and> IpTrust_isBlocked before t' a \<noteq> None) \<and>
    (\<forall>b. IpGuard_isBlocked before g' a = Some b \<longrightarrow> (b \<longleftrightarrow> listed [] ls a \<noteq> isWhiteList g)) \<and>
    (\<forall>b. trust_enabled t \<and> IpTrust_isBlocked before t' a = Some b \<longrightarrow>
      (if listed ''-+'' ls a then \<exists>s e c. decides (file_ranges ''-+'' ls) a (s, e, c) \<and> (b \<longleftrightarrow> c = CHR ''-'')
       else b \<longleftrightarrow> list_ex (\<lambda>(s, e, c). c \<noteq> CHR ''-'') (file_ranges ''-+'' ls)))"
proof -
  let ?rg = "map plain_payload (file_ranges [] ls)" and ?rt = "map mark_payload (file_ranges ''-+'' ls)"
  let ?mg = "foldl strict_list.add_log [] ?rg" and ?mt = "foldl strict_list.add_log [] ?rt"
  let ?w = "list_ex (\<lambda>(s, e, c). c \<noteq> CHR ''-'') (file_ranges ''-+'' ls)"
  have "load_file addLine (\<lambda>m. []) f True data [] = Some ?mg"
    unfolding load_file_lines [OF addLine_ok(1) io]
    using run_addLine [of ls "[]"] lines by simp
  then have g': "IpGuard_load f True data g = Some (g\<lparr>guard_list := ?mg\<rparr>)" by (simp add: IpGuard_load_def)
  have "load_file trust_addLine (\<lambda>(white, m). (white, [])) f True data (False, []) = Some (?w, ?mt)"
    unfolding load_file_lines [OF addLine_ok(2) io]
    using run_trust_addLine [of ls False "[]"] lines by simp
  then have t': "IpTrust_load f True data t = Some (t\<lparr>hasWhiteList := ?w, trust_list := ?mt\<rparr>)" by (simp add: IpTrust_load_def)
  have guard: "b \<longleftrightarrow> listed [] ls a \<noteq> isWhiteList g" if "IpGuard_isBlocked before (g\<lparr>guard_list := ?mg\<rparr>) a = Some b" for b
  proof -
    from that obtain x where x: "IpList_find (before ?mg) ?mg a = Some x" "b = (if x \<noteq> None then \<not> isWhiteList g else isWhiteList g)"
      by (auto simp: IpGuard_isBlocked_def cong: if_cong)
    from find_loaded [OF before refl x(1)] x(2) show ?thesis unfolding covers_payload listed_def by auto
  qed
  have trust: "if listed ''-+'' ls a then \<exists>s e c. decides (file_ranges ''-+'' ls) a (s, e, c) \<and> (b \<longleftrightarrow> c = CHR ''-'') else b \<longleftrightarrow> ?w"
    if "trust_enabled t \<and> IpTrust_isBlocked before (t\<lparr>hasWhiteList := ?w, trust_list := ?mt\<rparr>) a = Some b" for b
  proof -
    from that obtain x where x: "IpList_find (before ?mt) ?mt a = Some x" "b = (case x of Some pl \<Rightarrow> pl \<noteq> 0 | None \<Rightarrow> ?w)"
      by (auto simp: IpTrust_isBlocked_def cong: if_cong option.case_cong)
    from find_loaded [OF before refl x(1)] x(2) best_decides [of "file_ranges ''-+'' ls" a]
    show ?thesis unfolding covers_payload listed_def by (cases x) (fastforce, fastforce)
  qed
  have "IpGuard_isBlocked before (g\<lparr>guard_list := ?mg\<rparr>) a \<noteq> None \<and>
      IpTrust_isBlocked before (t\<lparr>hasWhiteList := ?w, trust_list := ?mt\<rparr>) a \<noteq> None" if "before = end_before"
    using find_loaded_total [of ?rg a] find_loaded_total [of ?rt a] that
    by (auto simp: IpGuard_isBlocked_def IpTrust_isBlocked_def)
  with g' t' guard trust show ?thesis by blast
qed

lemma ip_filters_correct_witness:
  "let f = \<lparr>chunk = (\<lambda>k. 4), fails = (\<lambda>k. False)\<rparr>; g = \<lparr>guard_enabled = True, guard_list = [], isWhiteList = False\<rparr>;
     t = \<lparr>trust_list = [], trust_enabled = True, hasWhiteList = False\<rparr>
   in \<exists>g' t'. IpGuard_load f True ''10.0.0.1'' g = Some g' \<and> IpTrust_load f True ''10.0.0.1'' t = Some t' \<and>
     IpGuard_isBlocked end_before g' 0x0A000001 = Some True \<and> IpGuard_isBlocked end_before g' 0x0A000002 = Some False"
proof -
  let ?f = "\<lparr>chunk = (\<lambda>k. 4), fails = (\<lambda>k. False)\<rparr>" and ?g = "\<lparr>guard_enabled = True, guard_list = [], isWhiteList = False\<rparr>"
  let ?t = "\<lparr>trust_list = [], trust_enabled = True, hasWhiteList = False\<rparr>"
  have short: "short_lines BUF_SIZE (strip_bom ''10.0.0.1'')"
    by (rule short_lines_small) (simp add: strip_bom_def bom_size_def BUF_SIZE_def)
  have ls: "[''10.0.0.1''] = text_lines (strip_bom ''10.0.0.1'')" by code_simp
  have p: "\<forall>l \<in> set [''10.0.0.1'']. parseLine l [] 0 \<noteq> None \<and> parseLine l ''-+'' 0 \<noteq> None" by code_simp
  have listed: "listed [] [''10.0.0.1''] 0x0A000001" "\<not> listed [] [''10.0.0.1''] 0x0A000002" by code_simp+
  have w: "\<forall>k. \<not> fails ?f k" "3 \<le> chunk ?f 0" by simp_all
  note filters = ip_filters_correct [OF w short ls p disjI2 [OF refl], where g = ?g and t = ?t]
  from filters [of "0x0A000001"] filters [of "0x0A000002"] listed show ?thesis
    unfolding Let_def by auto
qed

text \<open>
  A list with one range: the search for an address above it decrements the iterator of the first
  element. By the standard this is undefined; if it gives that element again, the search does not return.
\<close>

lemma find_above_single:
  "IpList_find None [(10, [\<lparr>range_end = 20, payload = 0\<rparr>])] 30 = None"
  "find_loop n (Some 0) [(10, [\<lparr>range_end = 20, payload = 0\<rparr>])] 30 0 = None"
proof -
  show "IpList_find None [(10, [\<lparr>range_end = 20, payload = 0\<rparr>])] 30 = None" by code_simp
  show "find_loop n (Some 0) [(10, [\<lparr>range_end = 20, payload = 0\<rparr>])] 30 0 = None"
    by (induction n) (simp_all add: prev_def)
qed

text \<open>
  A read error behind a line without a mark leaves \<open>IpTrust\<close> with an empty list and the whitelist on: it then blocks every address.
\<close>

lemma trust_load_error:
  "map_option (\<lambda>t. (trust_list t, hasWhiteList t))
    (IpTrust_load \<lparr>chunk = (\<lambda>k. 16), fails = (\<lambda>k. k = 1)\<rparr> True (''10.0.0.1'' @ [LF]) t) = Some ([], True)"
proof -
  let ?f = "\<lparr>chunk = (\<lambda>k. 16), fails = (\<lambda>k. k = 1)\<rparr>" and ?d = "''10.0.0.1'' @ [LF]"
  obtain m where m: "line_loop trust_addLine False ?d 0 (Some (False, [])) = (ReadOk, 9, Some (True, m))"
  proof -
    have "line_loop trust_addLine False ?d 0 (Some (False, [])) =
        (ReadOk, 9, Some (True, [(0x0A000001, [\<lparr>range_end = 0x0A000001, payload = 0\<rparr>])]))" by code_simp
    then show thesis by (rule that)
  qed
  have n: "9 = File_read ?f 0 (BUF_SIZE - length ('''' :: string)) ?d" by (simp add: File_read_def BUF_SIZE_def)
  have "readTextFile trust_addLine ?f ?d (Some (False, [])) =
      read_loop_text trust_addLine ?f BUF_SIZE (0 + 1) (drop 9 ?d) (drop 9 ([] @ take 9 ?d)) False (Some (True, m))"
    unfolding readTextFile_def
  proof (rule read_loop_text_step [OF _ n])
    show "line_loop trust_addLine False ([] @ take 9 ?d) (if True then bom_size ([] @ take 9 ?d) else 0) (Some (False, [])) =
        (ReadOk, 9, Some (True, m))" using m by (simp add: bom_size_def u8_chr_def)
  qed simp_all
  also have "\<dots> = (ReadFailed, Some (True, m))" by (subst read_loop_text.simps) simp
  finally show ?thesis by (simp add: IpTrust_load_def load_file_def)
qed

end
