(* ===== verification/AntiFlood.thy ===== *)
theory AntiFlood
  imports Prelude
begin

text \<open>
  Protection against floods of requests (\<open>src/client/RequestCounter.h\<close>, \<open>src/client/AntiFlood.h\<close>,
  \<open>src/client/AntiFlood.cpp\<close>): a counter of the requests of the last \<open>N\<close> seconds in a ring of
  bytes, the table of banned addresses, and the decision on a request. The tables are maps;
  their keys (\<open>IpPortKey\<close>: address and port) are only compared, so they are any type. Settings are
  arguments. Times are \<open>int64_t\<close> milliseconds of a monotonic clock, not negative and far from the bounds of
  their type, and integers here.
\<close>

section \<open>The counter\<close>

record RequestCounter =
  rc_data :: "u8 list"
  rc_first :: nat
  rc_count :: int
  startTick :: int
  endTick :: int
  rc_reqCount :: u64

definition rc_reset :: "nat \<Rightarrow> RequestCounter \<Rightarrow> RequestCounter" where
  "rc_reset N c = c\<lparr>rc_first := 0, rc_count := 0, rc_data := replicate N 0\<rparr>"

definition rc_clear :: "nat \<Rightarrow> RequestCounter" where
  "rc_clear N = \<lparr>rc_data = replicate N 0, rc_first = 0, rc_count = 0, startTick = 0, endTick = 0,
     rc_reqCount = 0\<rparr>"

text \<open>The loop that moves the start of the ring by \<open>shift\<close> seconds.\<close>

fun shift_loop :: "nat \<Rightarrow> nat \<Rightarrow> RequestCounter \<Rightarrow> RequestCounter" where
  "shift_loop N 0 c = c"
| "shift_loop N (Suc shift) c =
     shift_loop N shift
       (c\<lparr>rc_count := rc_count c - uint (rc_data c ! rc_first c),
          rc_data := (rc_data c)[rc_first c := 0],
          rc_first := (rc_first c + 1) mod N\<rparr>)"

text \<open>Where the second of a request is in the ring, after room has been made for it.\<close>

definition rc_locate :: "nat \<Rightarrow> int \<Rightarrow> RequestCounter \<Rightarrow> nat \<times> RequestCounter" where
  "rc_locate N tick c =
     (let offset = tick - startTick c in
      if offset \<ge> int N then
        let lshift = offset - (int N - 1) in
        if lshift \<ge> int N then (0, (rc_reset N c)\<lparr>startTick := tick\<rparr>)
        else ((nat offset + rc_first c) mod N,
              shift_loop N (nat lshift) (c\<lparr>startTick := startTick c + lshift\<rparr>))
      else ((nat offset + rc_first c) mod N, c))"

definition rc_add :: "nat \<Rightarrow> int \<Rightarrow> RequestCounter \<Rightarrow> RequestCounter" where
  "rc_add N tickMsec c =
     (let tick = tickMsec div 1000;
          c1 = (if tick < startTick c then (rc_reset N c)\<lparr>startTick := tick, rc_reqCount := 0\<rparr> else c);
          c2 = c1\<lparr>rc_reqCount := rc_reqCount c1 + 1\<rparr>;
          (pos, c3) = rc_locate N tick c2;
          c4 = (if rc_data c3 ! pos < 255
                then c3\<lparr>rc_data := (rc_data c3)[pos := rc_data c3 ! pos + 1], rc_count := rc_count c3 + 1\<rparr>
                else c3)
      in c4\<lparr>endTick := tick\<rparr>)"

definition getReqCount :: "RequestCounter \<Rightarrow> int" where
  "getReqCount c = sint (rc_reqCount c)"

definition getAvgPerMinute :: "RequestCounter \<Rightarrow> u32" where
  "getAvgPerMinute c =
     (if startTick c \<ge> endTick c then 0
      else word_of_int (60 * rc_count c) div word_of_int (endTick c - startTick c))"

section \<open>The ring stands for the last seconds\<close>

text \<open>
  \<open>h t\<close> is the number recorded for second \<open>t\<close>; the ring shows the seconds from \<open>start\<close> on.
\<close>

definition ring :: "nat \<Rightarrow> (int \<Rightarrow> nat) \<Rightarrow> int \<Rightarrow> RequestCounter \<Rightarrow> bool" where
  "ring N h start c \<longleftrightarrow> length (rc_data c) = N \<and> rc_first c < N \<and>
     (\<forall>k < N. unat (rc_data c ! ((rc_first c + k) mod N)) = h (start + int k)) \<and>
     rc_count c = (\<Sum>k < N. int (h (start + int k)))"

lemma ring_index: "f < N \<Longrightarrow> k < N \<Longrightarrow> (f + k) mod N = (if f + k < N then f + k else f + k - N)"
  for f k N :: nat
  by (simp add: le_mod_geq)

lemma ring_shift:
  assumes r: "ring N h start c" and z: "h (start + int N) = 0" and N: "0 < N"
  shows "ring N h (start + 1)
    (c\<lparr>rc_count := rc_count c - uint (rc_data c ! rc_first c),
       rc_data := (rc_data c)[rc_first c := 0], rc_first := (rc_first c + 1) mod N\<rparr>)"
proof -
  let ?f = "rc_first c" and ?d = "rc_data c"
  have len: "length ?d = N" "?f < N" and at: "\<And>k. k < N \<Longrightarrow> unat (?d ! ((?f + k) mod N)) = h (start + int k)"
    and cnt: "rc_count c = (\<Sum>k < N. int (h (start + int k)))"
    using r by (auto simp: ring_def)
  have new: "unat (?d[?f := 0] ! (((?f + 1) mod N + k) mod N)) = h (start + 1 + int k)" if k: "k < N" for k
  proof (cases "Suc k < N")
    case True
    have "((?f + 1) mod N + k) mod N = (?f + Suc k) mod N" by (simp add: mod_add_left_eq)
    moreover have "(?f + Suc k) mod N \<noteq> ?f" using True len(2) unfolding ring_index [OF len(2) True] by auto
    ultimately show ?thesis using at [OF True] by (simp add: algebra_simps)
  next
    case False
    then have k': "k = N - 1" using k by simp
    have "((?f + 1) mod N + k) mod N = (?f + 1 + k) mod N" by (rule mod_add_left_eq)
    also have "?f + 1 + k = ?f + N" using k' N by simp
    finally have "((?f + 1) mod N + k) mod N = (?f + N) mod N" .
    then have idx: "((?f + 1) mod N + k) mod N = ?f" using len(2) by simp
    have e: "start + 1 + int k = start + int N" using k' N by simp
    show ?thesis unfolding e idx using z len by simp
  qed
  obtain M where M: "N = Suc M" using N by (cases N) auto
  have "(\<Sum>k < N. int (h (start + 1 + int k))) = (\<Sum>k < M. int (h (start + 1 + int k))) + int (h (start + int N))"
    by (simp add: M algebra_simps)
  moreover have "(\<Sum>k < N. int (h (start + int k))) = int (h start) + (\<Sum>k < M. int (h (start + 1 + int k)))"
    unfolding M by (subst sum.lessThan_Suc_shift) (simp add: algebra_simps)
  moreover have "uint (?d ! ?f) = int (h start)"
    using at [of 0] len(2) N by (simp add: uint_nat)
  ultimately have "rc_count c - uint (?d ! ?f) = (\<Sum>k < N. int (h (start + 1 + int k)))"
    using cnt z by simp
  then show ?thesis using len new N by (simp add: ring_def)
qed

lemma shift_loop_fields [simp]:
  "startTick (shift_loop N n c) = startTick c" "endTick (shift_loop N n c) = endTick c"
  "rc_reqCount (shift_loop N n c) = rc_reqCount c"
  by (induction N n c rule: shift_loop.induct) simp_all

lemma shift_loop_first: "rc_first c < N \<Longrightarrow> rc_first (shift_loop N n c) = (rc_first c + n) mod N"
  by (induction N n c rule: shift_loop.induct) (simp_all add: mod_add_left_eq)

lemma ring_shift_loop:
  assumes "ring N h start c" "0 < N" "\<And>t. start + int N \<le> t \<Longrightarrow> h t = 0"
  shows "ring N h (start + int n) (shift_loop N n c)"
  using assms(1,3)
proof (induction n arbitrary: c start)
  case (Suc n)
  let ?c = "c\<lparr>rc_count := rc_count c - uint (rc_data c ! rc_first c),
    rc_data := (rc_data c)[rc_first c := 0], rc_first := (rc_first c + 1) mod N\<rparr>"
  have "ring N h (start + 1) ?c" using Suc.prems assms(2) by (intro ring_shift) simp_all
  then have "ring N h (start + 1 + int n) (shift_loop N n ?c)" using Suc.prems by (intro Suc.IH) simp_all
  then show ?case by (simp add: algebra_simps)
qed simp

text \<open>One more request in a second of the window; a byte stays at 255.\<close>

definition bump :: "int \<Rightarrow> (int \<Rightarrow> nat) \<Rightarrow> int \<Rightarrow> nat" where
  "bump t h = h(t := min 255 (Suc (h t)))"

lemma ring_bump:
  assumes r: "ring N h start c" and j: "j < N" and p: "p = (rc_first c + j) mod N"
  shows "ring N (bump (start + int j) h) start
    (if rc_data c ! p < 255
     then c\<lparr>rc_data := (rc_data c)[p := rc_data c ! p + 1], rc_count := rc_count c + 1\<rparr> else c)"
proof -
  let ?d = "rc_data c" and ?f = "rc_first c" and ?t = "start + int j"
  have len: "length ?d = N" "?f < N" and at: "\<And>k. k < N \<Longrightarrow> unat (?d ! ((?f + k) mod N)) = h (start + int k)"
    and cnt: "rc_count c = (\<Sum>k < N. int (h (start + int k)))"
    using r by (auto simp: ring_def)
  have pN: "p < N" using len(2) by (simp add: p)
  have hp: "unat (?d ! p) = h ?t" using at [OF j] p by simp
  have sm: "(\<Sum>k < N. int (bump ?t h (start + int k))) =
      (\<Sum>k < N. int (h (start + int k))) + (int (bump ?t h ?t) - int (h ?t))"
  proof -
    have "(\<Sum>k < N. int (bump ?t h (start + int k))) - (\<Sum>k < N. int (h (start + int k))) =
        (\<Sum>k < N. if k = j then int (bump ?t h ?t) - int (h ?t) else 0)"
      unfolding sum_subtractf [symmetric] by (rule sum.cong) (auto simp: bump_def)
    then show ?thesis using j by simp
  qed
  show ?thesis
  proof (cases "?d ! p < 255")
    case True
    then have lt: "h ?t < 255" using hp by (simp add: word_less_nat_alt)
    have one: "unat (?d ! p + 1) = Suc (h ?t)"
      using lt hp unat_add_lem [of "?d ! p" 1] by simp
    have "unat (?d[p := ?d ! p + 1] ! ((?f + k) mod N)) = bump ?t h (start + int k)" if k: "k < N" for k
    proof (cases "k = j")
      case True
      then show ?thesis using one lt pN len(1) p by (simp add: bump_def)
    next
      case False
      then have "(?f + k) mod N \<noteq> p" using k j len(2) by (auto simp: p ring_index split: if_splits)
      then show ?thesis using at [OF k] False by (simp add: bump_def)
    qed
    moreover have "rc_count c + 1 = (\<Sum>k < N. int (bump ?t h (start + int k)))"
      using sm cnt lt by (simp add: bump_def)
    ultimately show ?thesis using True len by (simp add: ring_def)
  next
    case False
    then have "h ?t = 255" using hp unat_u8 [of "?d ! p"] by (simp add: word_less_nat_alt)
    then have "bump ?t h = h" by (auto simp: bump_def)
    then show ?thesis using False r by simp
  qed
qed

section \<open>A sequence of requests\<close>

definition recorded :: "int list \<Rightarrow> int \<Rightarrow> nat" where
  "recorded ts t = min 255 (count_list (map (\<lambda>m. m div 1000) ts) t)"

lemma recorded_append: "recorded (ts @ [m]) = bump (m div 1000) (recorded ts)"
  by (auto simp: recorded_def bump_def fun_eq_iff)

lemma recorded_Nil: "recorded [] t = 0"
  by (simp add: recorded_def)

lemma recorded_pos: "recorded ts t \<noteq> 0 \<Longrightarrow> \<exists>m \<in> set ts. m div 1000 = t"
proof -
  assume "recorded ts t \<noteq> 0"
  then have "count_list (map (\<lambda>m. m div 1000) ts) t \<noteq> 0" by (auto simp: recorded_def)
  then have "t \<in> set (map (\<lambda>m. m div 1000) ts)" by (simp only: count_list_0_iff not_not)
  then show ?thesis by auto
qed

definition rc_ok :: "nat \<Rightarrow> int list \<Rightarrow> RequestCounter \<Rightarrow> bool" where
  "rc_ok N ts c \<longleftrightarrow> ring N (recorded ts) (startTick c) c \<and>
     startTick c \<le> endTick c \<and> endTick c < startTick c + int N \<and>
     (\<forall>m \<in> set ts. m div 1000 \<le> endTick c \<and> (endTick c - int N < m div 1000 \<longrightarrow> startTick c \<le> m div 1000)) \<and>
     rc_reqCount c = of_nat (length ts)"

lemma rc_ok_clear: "0 < N \<Longrightarrow> rc_ok N [] (rc_clear N)"
  by (simp add: rc_ok_def rc_clear_def ring_def recorded_Nil)

lemma ring_cong:
  "\<lbrakk>rc_data c = rc_data d; rc_first c = rc_first d; rc_count c = rc_count d\<rbrakk> \<Longrightarrow>
   ring N h start c = ring N h start d"
  by (simp add: ring_def)

text \<open>Making room keeps the ring and puts the second of the request inside it.\<close>

lemma rc_locate_ring:
  assumes ok: "ring N h (startTick c) c" and N: "0 < N" and z: "\<And>t. endTick c < t \<Longrightarrow> h t = 0"
    and e: "startTick c \<le> endTick c" "endTick c < startTick c + int N" "endTick c \<le> tick"
    and loc: "rc_locate N tick c = (p, c')"
  shows "ring N h (startTick c') c'"
    "\<exists>j. j < N \<and> p = (rc_first c' + j) mod N \<and> tick = startTick c' + int j"
    "startTick c \<le> startTick c'" "startTick c < startTick c' \<longrightarrow> tick = startTick c' + int N - 1 \<or> startTick c' = tick \<and> endTick c \<le> tick - int N"
    "endTick c' = endTick c" "rc_reqCount c' = rc_reqCount c"
proof -
  let ?off = "tick - startTick c"
  have f: "rc_first c < N" using ok by (simp add: ring_def)
  consider "?off < int N" | "?off \<ge> int N" "?off - (int N - 1) \<ge> int N"
    | "?off \<ge> int N" "?off - (int N - 1) < int N" by linarith
  then have "ring N h (startTick c') c' \<and> (\<exists>j. j < N \<and> p = (rc_first c' + j) mod N \<and> tick = startTick c' + int j) \<and>
    startTick c \<le> startTick c' \<and>
    (startTick c < startTick c' \<longrightarrow> tick = startTick c' + int N - 1 \<or> startTick c' = tick \<and> endTick c \<le> tick - int N) \<and>
    endTick c' = endTick c \<and> rc_reqCount c' = rc_reqCount c"
  proof cases
    case 1
    have c: "c' = c" "p = (nat ?off + rc_first c) mod N" using loc 1 by (auto simp: rc_locate_def Let_def)
    have "nat ?off < N" "tick = startTick c + int (nat ?off)" using 1 e by simp_all
    then have "\<exists>j. j < N \<and> p = (rc_first c + j) mod N \<and> tick = startTick c + int j"
      using c(2) by (intro exI [of _ "nat ?off"]) (simp add: add.commute)
    then show ?thesis using ok c(1) by simp
  next
    case 2
    have c: "c' = (rc_reset N c)\<lparr>startTick := tick\<rparr>" "p = 0"
      using loc 2 by (auto simp: rc_locate_def Let_def)
    have "h (tick + int k) = 0" for k using 2 e by (intro z) linarith
    then have "ring N h tick c'" using N by (simp add: c(1) rc_reset_def ring_def)
    moreover have "\<exists>j. j < N \<and> p = (rc_first c' + j) mod N \<and> tick = startTick c' + int j"
      using N c by (intro exI [of _ 0]) (simp add: rc_reset_def)
    moreover have "endTick c \<le> tick - int N" using 2 e by linarith
    ultimately show ?thesis using c 2 e N by (simp add: rc_reset_def)
  next
    case 3
    let ?s = "?off - (int N - 1)"
    let ?c0 = "c\<lparr>startTick := startTick c + ?s\<rparr>"
    have c: "c' = shift_loop N (nat ?s) ?c0" "p = (nat ?off + rc_first c) mod N"
      using loc 3 by (auto simp: rc_locate_def Let_def)
    have "ring N h (startTick c) ?c0" using ok by (simp add: ring_def)
    then have rg: "ring N h (startTick c + int (nat ?s)) c'"
      unfolding c(1) using e by (intro ring_shift_loop N z) auto
    have st: "startTick c' = startTick c + int (nat ?s)" using 3 N by (simp add: c(1))
    have pN: "p = (rc_first c' + (N - 1)) mod N"
    proof -
      have "rc_first c' = (rc_first c + nat ?s) mod N" using f by (simp add: c(1) shift_loop_first)
      then have a: "(rc_first c' + (N - 1)) mod N = (rc_first c + nat ?s + (N - 1)) mod N"
        by (simp only: mod_add_left_eq)
      have b: "rc_first c + nat ?s + (N - 1) = nat ?off + rc_first c" using 3 N by simp
      show ?thesis unfolding a b by (rule c(2))
    qed
    have tk: "tick = startTick c' + int (N - 1)" using st 3 N by simp
    show ?thesis
    proof (intro conjI impI exI [of _ "N - 1"])
      show "ring N h (startTick c') c'" using rg unfolding st .
      show "N - 1 < N" using N by simp
      show "p = (rc_first c' + (N - 1)) mod N" by (rule pN)
      show "tick = startTick c' + int (N - 1)" by (rule tk)
      show "startTick c \<le> startTick c'" using st by simp
      show "tick = startTick c' + int N - 1 \<or> startTick c' = tick \<and> endTick c \<le> tick - int N"
        using tk N by simp
      show "endTick c' = endTick c" "rc_reqCount c' = rc_reqCount c" by (simp_all add: c(1))
    qed
  qed
  then show "ring N h (startTick c') c'"
    "\<exists>j. j < N \<and> p = (rc_first c' + j) mod N \<and> tick = startTick c' + int j"
    "startTick c \<le> startTick c'" "startTick c < startTick c' \<longrightarrow> tick = startTick c' + int N - 1 \<or> startTick c' = tick \<and> endTick c \<le> tick - int N"
    "endTick c' = endTick c" "rc_reqCount c' = rc_reqCount c" by blast+
qed

lemma rc_add_ok:
  assumes ok: "rc_ok N ts c" and N: "0 < N" and t: "endTick c \<le> m div 1000"
  shows "rc_ok N (ts @ [m]) (rc_add N m c)" "endTick (rc_add N m c) = m div 1000"
proof -
  let ?tick = "m div 1000" and ?h = "recorded ts"
  let ?c2 = "c\<lparr>rc_reqCount := rc_reqCount c + 1\<rparr>"
  have R: "ring N ?h (startTick c) c" "startTick c \<le> endTick c" "endTick c < startTick c + int N"
    "rc_reqCount c = of_nat (length ts)"
    and old: "\<And>x. x \<in> set ts \<Longrightarrow> x div 1000 \<le> endTick c \<and> (endTick c - int N < x div 1000 \<longrightarrow> startTick c \<le> x div 1000)"
    using ok by (auto simp: rc_ok_def)
  obtain p c3 where loc: "rc_locate N ?tick ?c2 = (p, c3)" by fastforce
  have r2: "ring N ?h (startTick ?c2) ?c2" using R(1) by (simp add: ring_def)
  have z: "?h s = 0" if "endTick ?c2 < s" for s
    using that old recorded_pos [of ts s] by fastforce
  note L = rc_locate_ring [OF r2 N z _ _ _ loc]
  have r3: "ring N ?h (startTick c3) c3" using L(1) R t by simp
  obtain j where j: "j < N" "p = (rc_first c3 + j) mod N" "?tick = startTick c3 + int j"
    using L(2) R t by auto
  have st: "startTick c \<le> startTick c3"
    "startTick c < startTick c3 \<longrightarrow> ?tick = startTick c3 + int N - 1 \<or> startTick c3 = ?tick \<and> endTick c \<le> ?tick - int N"
    "rc_reqCount c3 = rc_reqCount c + 1"
    using L(3,4,6) R t by simp_all
  let ?c4 = "if rc_data c3 ! p < 255
     then c3\<lparr>rc_data := (rc_data c3)[p := rc_data c3 ! p + 1], rc_count := rc_count c3 + 1\<rparr> else c3"
  have add: "rc_add N m c = ?c4\<lparr>endTick := ?tick\<rparr>"
    using R t loc by (simp add: rc_add_def Let_def)
  have fields: "startTick ?c4 = startTick c3" "rc_reqCount ?c4 = rc_reqCount c3" by simp_all
  show end1: "endTick (rc_add N m c) = ?tick" by (simp add: add)
  have "ring N (recorded (ts @ [m])) (startTick c3) ?c4"
    unfolding recorded_append j(3) by (rule ring_bump [OF r3 j(1,2)])
  then have "ring N (recorded (ts @ [m])) (startTick (rc_add N m c)) (rc_add N m c)"
    unfolding add by (simp add: ring_def)
  moreover have "startTick (rc_add N m c) = startTick c3" by (simp add: add)
  moreover have "rc_reqCount (rc_add N m c) = of_nat (length (ts @ [m]))"
    using R(4) st(3) by (simp add: add)
  moreover have "x div 1000 \<le> ?tick \<and> (?tick - int N < x div 1000 \<longrightarrow> startTick c3 \<le> x div 1000)"
    if "x \<in> set (ts @ [m])" for x
  proof (cases "x \<in> set ts")
    case True
    then show ?thesis using old [OF True] st(1,2) t by linarith
  next
    case False
    then have "x = m" using that by simp
    then show ?thesis using j by simp
  qed
  ultimately show "rc_ok N (ts @ [m]) (rc_add N m c)"
    using j end1 by (simp add: rc_ok_def)
qed

lemma rc_run_ok:
  assumes N: "0 < N" and pos: "\<forall>m \<in> set ts. 0 \<le> m" and s: "sorted ts"
  shows "rc_ok N ts (fold (rc_add N) ts (rc_clear N)) \<and>
    endTick (fold (rc_add N) ts (rc_clear N)) = (if ts = [] then 0 else last ts div 1000)"
  using pos s
proof (induction ts rule: rev_induct)
  case Nil
  then show ?case using rc_ok_clear [OF N] by (simp add: rc_clear_def)
next
  case (snoc m ts)
  let ?c = "fold (rc_add N) ts (rc_clear N)"
  have IH: "rc_ok N ts ?c" "endTick ?c = (if ts = [] then 0 else last ts div 1000)"
    using snoc by (simp_all add: sorted_append)
  have "ts \<noteq> [] \<Longrightarrow> last ts \<le> m" using snoc.prems(2) by (simp add: sorted_append)
  then have "endTick ?c \<le> m div 1000" using IH(2) snoc.prems(1) by (auto intro: zdiv_mono1)
  then show ?case using rc_add_ok [OF IH(1) N] by simp
qed

lemma ring_window:
  assumes ok: "rc_ok N ts c"
  shows "rc_count c = (\<Sum>s \<in> {endTick c - int N <.. endTick c}. int (recorded ts s))"
proof -
  let ?h = "recorded ts"
  have R: "rc_count c = (\<Sum>k < N. int (?h (startTick c + int k)))" "startTick c \<le> endTick c"
    "endTick c < startTick c + int N"
    and old: "\<And>x. x \<in> set ts \<Longrightarrow> x div 1000 \<le> endTick c \<and> (endTick c - int N < x div 1000 \<longrightarrow> startTick c \<le> x div 1000)"
    using ok by (auto simp: rc_ok_def ring_def)
  have z1: "?h s = 0" if "endTick c < s" for s using that old recorded_pos [of ts s] by fastforce
  have z2: "?h s = 0" if "endTick c - int N < s" "s < startTick c" for s
    using that old recorded_pos [of ts s] by fastforce
  have "(\<Sum>k < N. int (?h (startTick c + int k))) = (\<Sum>s \<in> {startTick c ..< startTick c + int N}. int (?h s))"
    by (rule sum.reindex_bij_witness [of _ "\<lambda>s. nat (s - startTick c)" "\<lambda>k. startTick c + int k"]) auto
  also have "\<dots> = (\<Sum>s \<in> {startTick c .. endTick c}. int (?h s))"
    using R(3) z1 by (intro sum.mono_neutral_right) auto
  also have "\<dots> = (\<Sum>s \<in> {endTick c - int N <.. endTick c}. int (?h s))"
    using R(3) z2 by (intro sum.mono_neutral_left) auto
  finally show ?thesis using R(1) by simp
qed

text \<open>
  C25: The request counter is a sliding window (\<open>RequestCounter<N>::add\<close>). After requests at any
  sequence of times that does not go backwards, \<open>count\<close> is the number of requests of the last
  \<open>N\<close> seconds, up to and including the second of the last request, where a second counts
  for at most 255; \<open>endTick\<close> is that second, and \<open>getReqCount\<close> the number of all requests.
\<close>

theorem request_counter_window:
  assumes "0 < N" "\<forall>m \<in> set ts. 0 \<le> m" "sorted ts" "ts \<noteq> []" "length ts < 2 ^ 63"
  shows "let c = fold (rc_add N) ts (rc_clear N); now = last ts div 1000 in
    rc_count c = (\<Sum>s \<in> {now - int N <.. now}. int (min 255 (count_list (map (\<lambda>m. m div 1000) ts) s))) \<and>
    endTick c = now \<and> getReqCount c = int (length ts)"
proof -
  let ?c = "fold (rc_add N) ts (rc_clear N)"
  have ok: "rc_ok N ts ?c" and e: "endTick ?c = last ts div 1000"
    using rc_run_ok [OF assms(1-3)] assms(4) by simp_all
  have "getReqCount ?c = int (length ts)"
    using ok assms(5) by (simp add: rc_ok_def getReqCount_def signed_of_nat signed_take_bit_int_eq_self)
  then show ?thesis using ring_window [OF ok] e by (simp add: Let_def recorded_def)
qed

theorem request_counter_window_witness:
  "sorted [1000, 1500, 2000, 5000, 5100 :: int] \<and>
   rc_count (fold (rc_add 4) [1000, 1500, 2000, 5000, 5100] (rc_clear 4)) = 3 \<and>
   (\<Sum>s \<in> {5 - 4 <.. 5 :: int}. int (min 255 (count_list (map (\<lambda>m. m div 1000) [1000, 1500, 2000, 5000, 5100 :: int]) s))) = 3"
proof -
  let ?ts = "[1000, 1500, 2000, 5000, 5100 :: int]"
  have p: "\<forall>m \<in> set ?ts. 0 \<le> m" and s: "sorted ?ts" and n: "?ts \<noteq> []" and l: "length ?ts < 2 ^ 63"
    and N: "0 < (4 :: nat)" by simp_all
  have c: "rc_count (fold (rc_add 4) ?ts (rc_clear 4)) = 3" by code_simp
  show ?thesis
    using request_counter_window [OF N p s n l] c s by (simp add: Let_def)
qed

section \<open>Banned addresses\<close>

datatype ban_state = NO_BAN | BAN_ACTIVE | BAN_EXPIRED | DONT_BAN

record BanInfo =
  unbanTime :: int
  ban_reqCount :: int
  hubUrls :: "string list"
  dontBan :: bool

type_synonym 'k IpBans = "'k \<rightharpoonup> BanInfo"

definition checkBan :: "'k IpBans \<Rightarrow> 'k \<Rightarrow> int \<Rightarrow> ban_state" where
  "checkBan bans key timestamp =
     (case bans key of
        None \<Rightarrow> NO_BAN
      | Some info \<Rightarrow>
          if dontBan info then DONT_BAN
          else if timestamp > unbanTime info then BAN_EXPIRED else BAN_ACTIVE)"

text \<open>\<open>data[key]\<close> makes an entry of zeros when there is none.\<close>

definition empty_info :: BanInfo where
  "empty_info = \<lparr>unbanTime = 0, ban_reqCount = 0, hubUrls = [], dontBan = False\<rparr>"

definition ban_entry :: "'k IpBans \<Rightarrow> 'k \<Rightarrow> BanInfo" where
  "ban_entry bans key = (case bans key of None \<Rightarrow> empty_info | Some info \<Rightarrow> info)"

definition ban_duration :: "int \<Rightarrow> int" where
  "ban_duration banTime = uint (word_of_int banTime * 1000 :: u32)"

definition addBan :: "int \<Rightarrow> 'k \<Rightarrow> int \<Rightarrow> string \<Rightarrow> int \<Rightarrow> 'k IpBans \<Rightarrow> 'k IpBans" where
  "addBan banTime key timestamp url reqCount bans =
     (let info = ban_entry bans key in
      bans(key \<mapsto> info\<lparr>dontBan := False,
        unbanTime := timestamp + ban_duration banTime,
        ban_reqCount := reqCount,
        hubUrls := (if url \<in> set (hubUrls info) then hubUrls info else hubUrls info @ [url])\<rparr>))"

definition removeBan :: "'k \<Rightarrow> 'k IpBans \<Rightarrow> 'k IpBans" where
  "removeBan key bans =
     (case bans key of
        None \<Rightarrow> bans
      | Some info \<Rightarrow> if \<not> dontBan info then bans(key := None) else bans)"

definition protect :: "'k \<Rightarrow> bool \<Rightarrow> 'k IpBans \<Rightarrow> 'k IpBans" where
  "protect key enable bans =
     (if enable
      then bans(key \<mapsto> \<lparr>unbanTime = 0, ban_reqCount = 0, hubUrls = [], dontBan = True\<rparr>)
      else case bans key of
             None \<Rightarrow> bans
           | Some info \<Rightarrow> if dontBan info then bans(key := None) else bans)"

definition removeExpired :: "int \<Rightarrow> 'k IpBans \<Rightarrow> 'k IpBans" where
  "removeExpired timestamp bans =
     (\<lambda>key. case bans key of
        None \<Rightarrow> None
      | Some info \<Rightarrow> if \<not> dontBan info \<and> timestamp > unbanTime info then None else Some info)"

section \<open>Requests\<close>

record IpItem =
  rq :: RequestCounter
  banned :: bool

type_synonym 'k HubRequestCounters = "'k \<rightharpoonup> IpItem"

text \<open>The settings are \<open>int\<close>; \<open>addRequest\<close> converts the last one to \<open>unsigned\<close> before it compares.\<close>

record FloodSettings =
  banTime :: int
  minReqCount :: int
  maxReqPerMinute :: int

definition req_item :: "'k HubRequestCounters \<Rightarrow> 'k \<Rightarrow> IpItem" where
  "req_item counters key =
     (case counters key of None \<Rightarrow> \<lparr>rq = rc_clear 120, banned = False\<rparr> | Some i \<Rightarrow> i)"

definition is_flood :: "FloodSettings \<Rightarrow> RequestCounter \<Rightarrow> bool" where
  "is_flood ss c \<longleftrightarrow> getReqCount c \<ge> minReqCount ss \<and> getAvgPerMinute c > word_of_int (maxReqPerMinute ss)"

text \<open>The result is whether the request is allowed, \<open>showMsg\<close>, and the tables.\<close>

definition addRequest ::
  "FloodSettings \<Rightarrow> 'k IpBans \<Rightarrow> 'k HubRequestCounters \<Rightarrow> 'k \<Rightarrow> int \<Rightarrow> string
     \<Rightarrow> bool \<times> bool \<times> 'k IpBans \<times> 'k HubRequestCounters" where
  "addRequest ss bans counters key timestamp url =
     (let res = checkBan bans key timestamp;
          item0 = req_item counters key;
          item1 = item0\<lparr>rq := rc_add 120 timestamp (rq item0)\<rparr>;
          reqCount = getReqCount (rq item1);
          flood = is_flood ss (rq item1);
          (res, showMsg, item2, bans) =
            (if flood \<and> \<not> banned item1 \<and> res \<noteq> DONT_BAN
             then (BAN_ACTIVE, True, item1\<lparr>banned := True\<rparr>, addBan (banTime ss) key timestamp url reqCount bans)
             else (res, False, item1, bans));
          (res, showMsg, item3, bans) =
            (if res = BAN_EXPIRED then
               if flood
               then (BAN_ACTIVE, if \<not> banned item2 then True else showMsg, item2\<lparr>banned := True\<rparr>,
                     addBan (banTime ss) key timestamp url reqCount bans)
               else (res, showMsg, item2, removeBan key bans)
             else (res, showMsg, item2, bans))
      in (res \<noteq> BAN_ACTIVE, showMsg, bans, counters(key \<mapsto> item3)))"

lemma checkBan_addBan: "checkBan (addBan bt key ts url n bans) key ts = BAN_ACTIVE"
  by (simp add: checkBan_def addBan_def ban_duration_def Let_def)

lemma unbanTime_addBan:
  "addBan bt key ts url n bans key = Some info \<Longrightarrow> unbanTime info = ts + ban_duration bt"
  by (auto simp: addBan_def Let_def)

lemma ban_other: "k \<noteq> key \<Longrightarrow> addBan bt key ts url n bans k = bans k" "k \<noteq> key \<Longrightarrow> removeBan key bans k = bans k"
  by (simp_all add: addBan_def removeBan_def Let_def split: option.splits)

lemma removeBan_expired: "checkBan bans key ts = BAN_EXPIRED \<Longrightarrow> removeBan key bans key = None"
  by (auto simp: checkBan_def removeBan_def split: option.splits if_splits)

text \<open>
  C26: The decision on a request (\<open>HubRequestCounters::addRequest\<close>). A request is refused exactly
  when the address is banned afterwards; a protected address is never refused and keeps
  its entry; a request during a ban is refused. An address without an entry that floods is banned for the
  configured time from now if this hub never banned it before (\<open>banned\<close> is not set); otherwise its
  request is allowed and it is not banned again (\<open>ban_not_renewed\<close>). An address that still floods at the first request
  after its ban has run out, while the entry is there, is banned again; a request that is no flood removes the
  entry. No other address is touched.
\<close>

theorem addRequest_correct:
  assumes run: "addRequest ss bans counters key ts url = (allowed, showMsg, bans', counters')"
  defines "item \<equiv> req_item counters key"
  defines "flood \<equiv> is_flood ss (rc_add 120 ts (rq item))"
  shows "(allowed \<longleftrightarrow> checkBan bans' key ts \<noteq> BAN_ACTIVE) \<and>
    (\<forall>k. k \<noteq> key \<longrightarrow> bans' k = bans k \<and> counters' k = counters k) \<and>
    (case checkBan bans key ts of
       DONT_BAN \<Rightarrow> allowed \<and> bans' = bans
     | BAN_ACTIVE \<Rightarrow> \<not> allowed
     | BAN_EXPIRED \<Rightarrow>
         if flood then (\<exists>info. bans' key = Some info \<and> unbanTime info = ts + ban_duration (banTime ss))
         else allowed \<and> bans' key = None
     | NO_BAN \<Rightarrow>
         if flood \<and> \<not> banned item
         then (\<exists>info. bans' key = Some info \<and> unbanTime info = ts + ban_duration (banTime ss)) \<and> showMsg
         else allowed \<and> bans' = bans)"
proof -
  have ex: "\<exists>info. addBan (banTime ss) key ts url n b key = Some info \<and> unbanTime info = ts + ban_duration (banTime ss)" for n b
    by (simp add: addBan_def Let_def)
  have exp: "checkBan (removeBan key bans) key ts = NO_BAN" if "checkBan bans key ts = BAN_EXPIRED"
    using removeBan_expired [OF that] by (simp add: checkBan_def)
  show ?thesis
    using run unfolding addRequest_def Let_def flood_def [symmetric] item_def [symmetric]
    by (cases "checkBan bans key ts"; cases flood; cases "banned item")
      (use ex exp removeBan_expired [of bans key ts] in
        \<open>auto simp: checkBan_addBan ban_other flood_def item_def\<close>)
qed

definition ex_settings :: FloodSettings where
  "ex_settings = \<lparr>banTime = 60, minReqCount = 3, maxReqPerMinute = 30\<rparr>"

definition ex_counters :: "nat HubRequestCounters" where
  "ex_counters = [7 \<mapsto> \<lparr>rq = fold (rc_add 120) [300000, 300500, 301000] (rc_clear 120), banned = False\<rparr>]"

theorem addRequest_correct_witness:
  "\<exists>info bans' counters'.
     addRequest ex_settings Map.empty ex_counters 7 301200 ''hub'' = (False, True, bans', counters') \<and>
     bans' 7 = Some info \<and> unbanTime info = 361200 \<and> checkBan bans' 7 301200 = BAN_ACTIVE"
proof -
  obtain allowed showMsg bans' counters' where
    run: "addRequest ex_settings Map.empty ex_counters 7 301200 ''hub'' = (allowed, showMsg, bans', counters')"
    by (metis prod_cases4)
  have item: "req_item ex_counters 7 =
      \<lparr>rq = fold (rc_add 120) [300000, 300500, 301000] (rc_clear 120), banned = False\<rparr>"
    by (simp add: req_item_def ex_counters_def)
  have fl: "is_flood ex_settings (rc_add 120 301200 (fold (rc_add 120) [300000, 300500, 301000] (rc_clear 120)))"
    by code_simp
  have d: "ban_duration (banTime ex_settings) = 60000"
    by (simp add: ban_duration_def ex_settings_def)
  have c: "checkBan Map.empty (7 :: nat) 301200 = NO_BAN" by (simp add: checkBan_def)
  note P = addRequest_correct [OF run, unfolded item c]
  obtain info where info: "bans' 7 = Some info" "unbanTime info = 361200" and m: showMsg
    using P fl d by auto
  have "\<not> dontBan info"
  proof -
    have "allowed \<or> checkBan bans' 7 301200 = BAN_ACTIVE" using P by blast
    then show ?thesis
      using run info by (auto simp: addRequest_def Let_def item c fl checkBan_def addBan_def ban_entry_def
        empty_info_def split: if_splits)
  qed
  then have a: "checkBan bans' 7 301200 = BAN_ACTIVE" using info by (simp add: checkBan_def)
  then have "\<not> allowed" using P by blast
  then show ?thesis using run info m a by auto
qed

text \<open>
  The flag \<open>banned\<close> of a counter is never cleared. When the ban of an address has run out and
  its entry is gone (\<open>removeExpired\<close> runs once a minute, or a request that is no flood removed it), no
  later request of the address is refused by this hub, however fast they come.
\<close>

fun run_requests ::
  "FloodSettings \<Rightarrow> 'k IpBans \<Rightarrow> 'k HubRequestCounters \<Rightarrow> 'k \<Rightarrow> (int \<times> string) list \<Rightarrow> bool list" where
  "run_requests ss bans counters key [] = []"
| "run_requests ss bans counters key ((t, url) # rs) =
     (let (allowed, _, bans', counters') = addRequest ss bans counters key t url
      in allowed # run_requests ss bans' counters' key rs)"

lemma ban_not_renewed:
  "\<lbrakk>bans key = None; banned (req_item counters key)\<rbrakk> \<Longrightarrow>
   run_requests ss bans counters key rs = replicate (length rs) True"
proof (induction rs arbitrary: counters)
  case (Cons r rs)
  obtain t url where r: "r = (t, url)" by (cases r)
  let ?item = "(req_item counters key)\<lparr>rq := rc_add 120 t (rq (req_item counters key))\<rparr>"
  have step: "addRequest ss bans counters key t url = (True, False, bans, counters(key \<mapsto> ?item))"
    using Cons.prems by (simp add: addRequest_def Let_def checkBan_def)
  have "banned (req_item (counters(key \<mapsto> ?item)) key)" using Cons.prems(2) by (simp add: req_item_def)
  note IH = Cons.IH [OF Cons.prems(1) this]
  show ?case by (simp only: r run_requests.simps step Let_def case_prod_conv IH) simp
qed simp

end
