(* ===== verification/MmdbTree.thy ===== *)
theory MmdbTree
  imports Mmdb
begin

text \<open>
  The search tree of a MaxMind DB (\<open>src/maxminddb/maxminddb.c\<close>): an array of nodes, each
  with a left and a right record of 24, 28 or 32 bits, walked along the bits of an address.
  Records below \<open>node_count\<close> are nodes, \<open>node_count\<close> itself means no data, and larger
  ones point into the data section.
\<close>

section \<open>Records\<close>

definition MMDB_DATA_SECTION_SEPARATOR :: nat where
  "MMDB_DATA_SECTION_SEPARATOR = 16"

datatype record_type_t =
  MMDB_RECORD_TYPE_SEARCH_NODE
| MMDB_RECORD_TYPE_EMPTY
| MMDB_RECORD_TYPE_DATA
| MMDB_RECORD_TYPE_INVALID

text \<open>The getters, on the mapped file and a pointer into it.\<close>

definition getter_uint24 :: "bytes \<Rightarrow> nat \<Rightarrow> u32 option" where
  "getter_uint24 m p =
    do { r0 \<leftarrow> load m p; r1 \<leftarrow> load m (p + 1); r2 \<leftarrow> load m (p + 2); Some (get_uint24 r0 r1 r2) }"

definition getter_uint32 :: "bytes \<Rightarrow> nat \<Rightarrow> u32 option" where
  "getter_uint32 m p =
    do { r0 \<leftarrow> load m p; r1 \<leftarrow> load m (p + 1); r2 \<leftarrow> load m (p + 2); r3 \<leftarrow> load m (p + 3);
         Some (get_uint32 r0 r1 r2 r3) }"

definition get_left_28_bit_record :: "bytes \<Rightarrow> nat \<Rightarrow> u32 option" where
  "get_left_28_bit_record m p =
    do { r0 \<leftarrow> load m p; r1 \<leftarrow> load m (p + 1); r2 \<leftarrow> load m (p + 2); r3 \<leftarrow> load m (p + 3);
         Some (ucast r0 * 65536 + ucast r1 * 256 + ucast r2 + push_bit 20 (ucast (r3 AND 0xf0))) }"

definition get_right_28_bit_record :: "bytes \<Rightarrow> nat \<Rightarrow> u32 option" where
  "get_right_28_bit_record m p = map_option (\<lambda>v. v AND 0xfffffff) (getter_uint32 m p)"

record record_info_s =
  record_length :: u16
  left_record_getter :: "bytes \<Rightarrow> nat \<Rightarrow> u32 option"
  right_record_getter :: "bytes \<Rightarrow> nat \<Rightarrow> u32 option"
  right_record_offset :: u8

definition record_info_for_database :: "MMDB_s \<Rightarrow> record_info_s" where
  "record_info_for_database db =
    (let len = full_record_byte_size db in
     if len = 6 then \<lparr>record_length = len, left_record_getter = getter_uint24,
       right_record_getter = getter_uint24, right_record_offset = 3\<rparr>
     else if len = 7 then \<lparr>record_length = len, left_record_getter = get_left_28_bit_record,
       right_record_getter = get_right_28_bit_record, right_record_offset = 3\<rparr>
     else if len = 8 then \<lparr>record_length = len, left_record_getter = getter_uint32,
       right_record_getter = getter_uint32, right_record_offset = 4\<rparr>
     else \<lparr>record_length = len, left_record_getter = (\<lambda>_ _. None),
       right_record_getter = (\<lambda>_ _. None), right_record_offset = 0\<rparr>)"

definition record_type :: "MMDB_s \<Rightarrow> u64 \<Rightarrow> record_type_t" where
  "record_type db record =
    (let node_count = ucast (node_count (metadata db)) in
     if record = 0 then MMDB_RECORD_TYPE_INVALID
     else if record < node_count then MMDB_RECORD_TYPE_SEARCH_NODE
     else if record = node_count then MMDB_RECORD_TYPE_EMPTY
     else if record - node_count < ucast (data_section_size db) then MMDB_RECORD_TYPE_DATA
     else MMDB_RECORD_TYPE_INVALID)"

definition data_section_offset_for_record :: "MMDB_s \<Rightarrow> u64 \<Rightarrow> u32" where
  "data_section_offset_for_record db record =
     ucast record - node_count (metadata db) - of_nat MMDB_DATA_SECTION_SEPARATOR"

record MMDB_search_node_s =
  left_record :: u64
  right_record :: u64
  left_record_type :: record_type_t
  right_record_type :: record_type_t
  left_record_entry :: u32
  right_record_entry :: u32

definition MMDB_read_node :: "MMDB_s \<Rightarrow> u32 \<Rightarrow> (mmdb_status + MMDB_search_node_s) option" where
  "MMDB_read_node db node_number =
    (let ri = record_info_for_database db in
     if right_record_offset ri = 0 then Some (Inl MMDB_UNKNOWN_DATABASE_FORMAT_ERROR)
     else if node_number > node_count (metadata db) then Some (Inl MMDB_INVALID_NODE_NUMBER_ERROR)
     else
       let p = unat (node_number * ucast (record_length ri)) in
       do {
         l \<leftarrow> left_record_getter ri (file_content db) p;
         r \<leftarrow> right_record_getter ri (file_content db) (p + unat (right_record_offset ri));
         Some (Inr \<lparr>left_record = ucast l, right_record = ucast r,
           left_record_type = record_type db (ucast l), right_record_type = record_type db (ucast r),
           left_record_entry = data_section_offset_for_record db (ucast l),
           right_record_entry = data_section_offset_for_record db (ucast r)\<rparr>)
       })"

section \<open>Walking the tree\<close>

datatype sa_family = AF_INET | AF_INET6

record MMDB_lookup_result_s =
  found_entry :: bool
  entry_offset :: u32
  netmask :: u16

definition address_bit :: "bytes \<Rightarrow> nat \<Rightarrow> bool option" where
  "address_bit address k = map_option (\<lambda>b. bit b (7 - k mod 8)) (load address (k div 8))"

text \<open>
  The loop of \<open>find_address_in_search_tree\<close>; \<open>n\<close> is how many bits are left until
  \<open>depth\<close>. The result is the last record and the number of bits used, or the error.
\<close>

fun search_loop ::
  "MMDB_s \<Rightarrow> record_info_s \<Rightarrow> bytes \<Rightarrow> nat \<Rightarrow> u64 \<Rightarrow> nat \<Rightarrow> (mmdb_status + u64 \<times> nat) option" where
  "search_loop db ri address 0 val current_bit = Some (Inr (val, current_bit))"
| "search_loop db ri address (Suc n) val current_bit =
    (if val < ucast (node_count (metadata db)) then
       do {
         b \<leftarrow> address_bit address current_bit;
         let p = unat (val * ucast (record_length ri)) in
         if p + unat (record_length ri) > data_section db then Some (Inl MMDB_CORRUPT_SEARCH_TREE_ERROR)
         else do {
           v \<leftarrow> (if b then right_record_getter ri (file_content db) (p + unat (right_record_offset ri))
                 else left_record_getter ri (file_content db) p);
           search_loop db ri address n (ucast v) (current_bit + 1)
         }
       }
     else Some (Inr (val, current_bit)))"

definition find_address_in_search_tree ::
  "MMDB_s \<Rightarrow> bytes \<Rightarrow> sa_family \<Rightarrow> MMDB_lookup_result_s \<Rightarrow>
     (mmdb_status \<times> MMDB_lookup_result_s) option" where
  "find_address_in_search_tree db address family result =
    (let ri = record_info_for_database db in
     if right_record_offset ri = 0 then Some (MMDB_UNKNOWN_DATABASE_FORMAT_ERROR, result)
     else
       let (val, current_bit) =
             (if ip_version (metadata db) = 6 \<and> family = AF_INET
              then (ucast (node_value (ipv4_start_node db)), unat (s_netmask (ipv4_start_node db)))
              else (0, 0));
           node_count = node_count (metadata db)
       in do {
         r \<leftarrow> search_loop db ri address (unat (depth db) - current_bit) val current_bit;
         (case r of
            Inl e \<Rightarrow> Some (e, result)
          | Inr (val, current_bit) \<Rightarrow>
              let result = result\<lparr>netmask := of_nat current_bit\<rparr> in
              if val \<ge> ucast (node_count + data_section_size db)
              then Some (MMDB_CORRUPT_SEARCH_TREE_ERROR, result)
              else if val = ucast node_count then Some (MMDB_SUCCESS, result\<lparr>found_entry := False\<rparr>)
              else Some (MMDB_SUCCESS, result\<lparr>found_entry := True,
                           entry_offset := data_section_offset_for_record db val\<rparr>))
       })"

text \<open>The loop that finds the node where the IPv4 addresses of an IPv6 tree start.\<close>

fun ipv4_start_loop ::
  "MMDB_s \<Rightarrow> record_info_s \<Rightarrow> nat \<Rightarrow> u32 \<Rightarrow> nat \<Rightarrow> (mmdb_status + u32 \<times> nat) option" where
  "ipv4_start_loop db ri 0 val mask_len = Some (Inr (val, mask_len))"
| "ipv4_start_loop db ri (Suc n) val mask_len =
    (if val < node_count (metadata db) then
       let p = unat (val * ucast (record_length ri)) in
       if p + unat (record_length ri) > data_section db then Some (Inl MMDB_CORRUPT_SEARCH_TREE_ERROR)
       else do {
         v \<leftarrow> left_record_getter ri (file_content db) p;
         ipv4_start_loop db ri n v (mask_len + 1)
       }
     else Some (Inr (val, mask_len)))"

definition find_ipv4_start_node :: "MMDB_s \<Rightarrow> (mmdb_status \<times> MMDB_s) option" where
  "find_ipv4_start_node db =
    (if node_value (ipv4_start_node db) \<noteq> 0 then Some (MMDB_SUCCESS, db)
     else
       let ri = record_info_for_database db in
       if right_record_offset ri = 0 then Some (MMDB_UNKNOWN_DATABASE_FORMAT_ERROR, db)
       else do {
         r \<leftarrow> ipv4_start_loop db ri 96 0 0;
         (case r of
            Inl e \<Rightarrow> Some (e, db)
          | Inr (val, mask_len) \<Rightarrow>
              Some (MMDB_SUCCESS, db\<lparr>ipv4_start_node := \<lparr>s_netmask = of_nat mask_len, node_value = val\<rparr>\<rparr>))
       })"

text \<open>A socket address: the bytes of \<open>sin_addr\<close> or \<open>sin6_addr\<close> in network order.\<close>

datatype sockaddr = Sockaddr_in bytes | Sockaddr_in6 bytes

definition no_result :: MMDB_lookup_result_s where
  "no_result = \<lparr>found_entry = False, entry_offset = 0, netmask = 0\<rparr>"

definition MMDB_lookup_sockaddr ::
  "MMDB_s \<Rightarrow> sockaddr \<Rightarrow> (mmdb_status \<times> MMDB_lookup_result_s) option" where
  "MMDB_lookup_sockaddr db sa =
    (if ip_version (metadata db) = 4 then
       case sa of
         Sockaddr_in6 _ \<Rightarrow> Some (MMDB_IPV6_LOOKUP_IN_IPV4_DATABASE_ERROR, no_result)
       | Sockaddr_in a \<Rightarrow> find_address_in_search_tree db a AF_INET no_result
     else
       case sa of
         Sockaddr_in6 a \<Rightarrow> find_address_in_search_tree db a AF_INET6 no_result
       | Sockaddr_in a \<Rightarrow> find_address_in_search_tree db (replicate 12 0 @ a) AF_INET no_result)"

section \<open>Every read stays in the tree\<close>

text \<open>
  The layout that \<open>MMDB_open\<close> establishes: nodes of a known size, then the separator, then
  the data section, all in the mapped file.
\<close>

abbreviation nodes :: "MMDB_s \<Rightarrow> nat" where
  "nodes db \<equiv> unat (node_count (metadata db))"

abbreviation reclen :: "MMDB_s \<Rightarrow> nat" where
  "reclen db \<equiv> unat (full_record_byte_size db)"

definition tree_ok :: "MMDB_s \<Rightarrow> bool" where
  "tree_ok db \<longleftrightarrow> full_record_byte_size db \<in> {6, 7, 8} \<and>
    data_section db = nodes db * reclen db + MMDB_DATA_SECTION_SEPARATOR \<and>
    data_section db \<le> length (file_content db)"

text \<open>The record of a node that a bit of the address selects.\<close>

definition child :: "MMDB_s \<Rightarrow> nat \<Rightarrow> bool \<Rightarrow> u32 option" where
  "child db v b =
    (let ri = record_info_for_database db; p = v * reclen db in
     if b then right_record_getter ri (file_content db) (p + unat (right_record_offset ri))
     else left_record_getter ri (file_content db) p)"

lemmas getter_defs = getter_uint24_def getter_uint32_def get_left_28_bit_record_def
  get_right_28_bit_record_def

lemma getter_total:
  assumes "p + 3 < length m"
  shows "\<exists>w. getter_uint24 m p = Some w" "\<exists>w. getter_uint32 m p = Some w"
    "\<exists>w. get_left_28_bit_record m p = Some w" "\<exists>w. get_right_28_bit_record m p = Some w"
  using assms by (simp_all add: getter_defs load_def)

lemma record_info:
  assumes "tree_ok db"
  shows "record_length (record_info_for_database db) = full_record_byte_size db"
    and "right_record_offset (record_info_for_database db) \<noteq> 0"
  using assms by (auto simp: tree_ok_def record_info_for_database_def Let_def)

lemma child_total:
  assumes ok: "tree_ok db" and v: "v \<le> nodes db"
  shows "\<exists>w. child db v b = Some w"
proof -
  have "v * reclen db \<le> nodes db * reclen db" using v by (rule mult_le_mono1)
  then have le: "v * reclen db + 16 \<le> length (file_content db)"
    using ok unfolding tree_ok_def MMDB_DATA_SECTION_SEPARATOR_def by linarith
  show ?thesis
    using ok getter_total [of _ "file_content db"] le
    by (auto simp: tree_ok_def child_def record_info_for_database_def Let_def)
qed

lemma node_pointer:
  assumes ok: "tree_ok db" and v: "v < ucast (node_count (metadata db))"
  shows "unat (v * ucast (full_record_byte_size db) :: u64) = unat v * reclen db"
    and "unat v * reclen db + reclen db \<le> data_section db" and "unat v < nodes db"
proof -
  show lt: "unat v < nodes db" using v by (simp add: word_less_nat_alt)
  have len: "reclen db \<le> 8" using ok by (auto simp: tree_ok_def)
  have uc: "unat (ucast (full_record_byte_size db) :: u64) = reclen db"
    using unat_u16 [of "full_record_byte_size db"]
    by (simp add: unsigned_ucast_eq take_bit_nat_eq_self)
  have "unat v * reclen db \<le> 2 ^ 32 * 8"
    using lt len unat_u32 [of "node_count (metadata db)"] by (intro mult_le_mono) auto
  then show "unat (v * ucast (full_record_byte_size db) :: u64) = unat v * reclen db"
    by (simp add: unat_word_ariths uc)
  have "(unat v + 1) * reclen db \<le> nodes db * reclen db" using lt by (intro mult_le_mono1) simp
  then show "unat v * reclen db + reclen db \<le> data_section db"
    using ok by (simp add: tree_ok_def)
qed

text \<open>One step of the loop in terms of \<open>child\<close>.\<close>

lemma search_loop_step:
  assumes ok: "tree_ok db" and bit: "address_bit address k = Some b"
  shows "search_loop db (record_info_for_database db) address (Suc n) v k =
    (if v < ucast (node_count (metadata db))
     then do { w \<leftarrow> child db (unat v) b;
               search_loop db (record_info_for_database db) address n (ucast w) (k + 1) }
     else Some (Inr (v, k)))"
proof (cases "v < ucast (node_count (metadata db))")
  case True
  note p = node_pointer [OF ok True]
  show ?thesis using True p bit record_info [OF ok] by (simp add: child_def Let_def)
qed simp

section \<open>What a walk finds\<close>

inductive tree_path :: "MMDB_s \<Rightarrow> u64 \<Rightarrow> bool list \<Rightarrow> u64 \<Rightarrow> bool" for db where
  here: "tree_path db v [] v"
| down: "unat v < nodes db \<Longrightarrow> child db (unat v) b = Some w \<Longrightarrow> tree_path db (ucast w) bs x \<Longrightarrow>
    tree_path db v (b # bs) x"

definition address_bits :: "bytes \<Rightarrow> nat \<Rightarrow> nat \<Rightarrow> bool list" where
  "address_bits address k n = map (\<lambda>i. bit (address ! (i div 8)) (7 - i mod 8)) [k..<k + n]"

lemma address_bits_Suc:
  "address_bits address k (Suc n) = bit (address ! (k div 8)) (7 - k mod 8) # address_bits address (Suc k) n"
  unfolding address_bits_def by (simp add: upt_rec del: upt_Suc)

lemma address_bit_in:
  assumes "k < 8 * length address"
  shows "address_bit address k = Some (bit (address ! (k div 8)) (7 - k mod 8))"
  using assms by (auto simp: address_bit_def load_def)

lemma search_loop_path:
  assumes ok: "tree_ok db"
  shows "k + n \<le> 8 * length address \<Longrightarrow>
    \<exists>val j. search_loop db (record_info_for_database db) address n v k = Some (Inr (val, k + j)) \<and>
      j \<le> n \<and> tree_path db v (address_bits address k j) val \<and> (j < n \<longrightarrow> nodes db \<le> unat val)"
proof (induction n arbitrary: v k)
  case 0
  then show ?case by (auto simp: address_bits_def intro: tree_path.here)
next
  case (Suc n)
  then have bit: "address_bit address k = Some (bit (address ! (k div 8)) (7 - k mod 8))"
    by (intro address_bit_in) simp
  show ?case
  proof (cases "v < ucast (node_count (metadata db))")
    case True
    obtain w where w: "child db (unat v) (bit (address ! (k div 8)) (7 - k mod 8)) = Some w"
      using child_total [OF ok] node_pointer(3) [OF ok True] by fastforce
    obtain val j where r: "search_loop db (record_info_for_database db) address n (ucast w) (Suc k) = Some (Inr (val, Suc k + j))"
      "j \<le> n" "tree_path db (ucast w) (address_bits address (Suc k) j) val" "j < n \<longrightarrow> nodes db \<le> unat val"
      using Suc.IH [of "Suc k" "ucast w"] Suc.prems by auto
    have "tree_path db v (address_bits address k (Suc j)) val"
      unfolding address_bits_Suc using node_pointer(3) [OF ok True] w r(3) by (rule tree_path.down)
    moreover have "search_loop db (record_info_for_database db) address (Suc n) v k =
        search_loop db (record_info_for_database db) address n (ucast w) (Suc k)"
      unfolding search_loop_step [OF ok bit] using True w by simp
    ultimately show ?thesis
      using r by (intro exI [of _ val] exI [of _ "Suc j"]) simp
  next
    case False
    then show ?thesis
      by (auto simp: address_bits_def word_less_nat_alt not_less intro!: exI [of _ v] exI [of _ 0] tree_path.here)
  qed
qed

text \<open>What the code makes of the record where the walk ends.\<close>

definition judge :: "MMDB_s \<Rightarrow> u64 \<Rightarrow> MMDB_lookup_result_s \<Rightarrow> mmdb_status \<times> MMDB_lookup_result_s" where
  "judge db val result =
    (if unat val \<ge> nodes db + unat (data_section_size db) then (MMDB_CORRUPT_SEARCH_TREE_ERROR, result)
     else if unat val = nodes db then (MMDB_SUCCESS, result\<lparr>found_entry := False\<rparr>)
     else (MMDB_SUCCESS, result\<lparr>found_entry := True,
             entry_offset := data_section_offset_for_record db val\<rparr>))"

lemma judge_code:
  assumes "nodes db + unat (data_section_size db) < 2 ^ 32"
  shows "(if val \<ge> ucast (node_count (metadata db) + data_section_size db)
     then Some (MMDB_CORRUPT_SEARCH_TREE_ERROR, result)
     else if val = ucast (node_count (metadata db)) then Some (MMDB_SUCCESS, result\<lparr>found_entry := False\<rparr>)
     else Some (MMDB_SUCCESS, result\<lparr>found_entry := True,
             entry_offset := data_section_offset_for_record db val\<rparr>)) = Some (judge db val result)"
proof -
  have "unat (node_count (metadata db) + data_section_size db) = nodes db + unat (data_section_size db)"
    using assms by (rule unat_add_u32)
  then show ?thesis by (simp add: judge_def word_le_nat_alt word_unat_eq_iff)
qed

definition sample_tree :: "u16 \<Rightarrow> u16 \<Rightarrow> MMDB_s" where
  "sample_tree version bits = \<lparr>open_flags = 1, filename = None, file_size = 24,
     file_content = [0, 0, 1, 0, 0, 17] @ replicate 16 0 @ [0x41, 0x61],
     data_section = 22, data_section_size = 2,
     metadata_section = 24, metadata_section_size = 0, full_record_byte_size = 6, depth = bits,
     ipv4_start_node = \<lparr>s_netmask = 0, node_value = 0\<rparr>,
     metadata = \<lparr>node_count = 1, record_size = 24, ip_version = version, database_type = None,
       languages_count = 0, languages_names = None,
       binary_format_major_version = 2, binary_format_minor_version = 0, build_epoch = 1,
       description_count = 0, descriptions = None\<rparr>\<rparr>"

lemma sample_tree_ok: "tree_ok (sample_tree version bits)"
  by (simp add: tree_ok_def sample_tree_def MMDB_DATA_SECTION_SEPARATOR_def)

text \<open>
  C33: for every address and every content of the tree, the lookup ends after at most
  \<open>depth\<close> bits without leaving the mapped file; the netmask it reports is the number of
  leading bits of the address that lead from the root to the record it stopped at, and it
  stopped early only at a record that is not a node.
\<close>

theorem find_address_in_search_tree_correct:
  assumes "tree_ok db" and "nodes db + unat (data_section_size db) < 2 ^ 32"
    and "unat (depth db) \<le> 8 * length address"
    and "ip_version (metadata db) \<noteq> 6 \<or> family \<noteq> AF_INET"
  shows "\<exists>val j. find_address_in_search_tree db address family result =
      Some (judge db val (result\<lparr>netmask := of_nat j\<rparr>)) \<and>
    j \<le> unat (depth db) \<and> tree_path db 0 (address_bits address 0 j) val \<and>
    (j < unat (depth db) \<longrightarrow> nodes db \<le> unat val)"
proof -
  obtain val j where w: "search_loop db (record_info_for_database db) address (unat (depth db)) 0 0 = Some (Inr (val, j))"
    "j \<le> unat (depth db)" "tree_path db 0 (address_bits address 0 j) val"
    "j < unat (depth db) \<longrightarrow> nodes db \<le> unat val"
    using search_loop_path [OF assms(1), of 0 "unat (depth db)" address 0] assms(3) by auto
  then have "find_address_in_search_tree db address family result =
      Some (judge db val (result\<lparr>netmask := of_nat j\<rparr>))"
    using record_info(2) [OF assms(1)] assms(4) judge_code [OF assms(2)]
    by (auto simp: find_address_in_search_tree_def Let_def)
  then show ?thesis using w by blast
qed

theorem find_address_in_search_tree_witness:
  "let db = sample_tree 4 32; address = [128, 0, 0, 1] in
    \<exists>val j. find_address_in_search_tree db address AF_INET no_result =
      Some (judge db val (no_result\<lparr>netmask := of_nat j\<rparr>)) \<and>
    j \<le> 32 \<and> tree_path db 0 (address_bits address 0 j) val \<and> (j < 32 \<longrightarrow> 1 \<le> unat val)"
  using find_address_in_search_tree_correct [OF sample_tree_ok, of 4 32 "[128, 0, 0, 1]" AF_INET no_result]
  by (simp add: sample_tree_def)

section \<open>The shortcut for IPv4 addresses\<close>

lemma search_loop_add:
  "search_loop db ri a (n1 + n2) v k =
    do { r \<leftarrow> search_loop db ri a n1 v k;
         (case r of
            Inl e \<Rightarrow> Some (Inl e)
          | Inr (val, k') \<Rightarrow> search_loop db ri a (k + n1 + n2 - k') val k') }"
proof (induction n1 arbitrary: v k)
  case (Suc n1)
  show ?case
  proof (cases "v < ucast (node_count (metadata db))")
    case True
    have "k + Suc n1 + n2 = Suc k + n1 + n2" by simp
    then show ?thesis
      using True Suc.IH [of _ "Suc k"]
      by (cases "address_bit a k") (auto simp: Let_def split: option.splits bind_splits)
  next
    case False
    have "search_loop db ri a (k + Suc n1 + n2 - k) v k = Some (Inr (v, k))"
      using False by simp
    then show ?thesis using False by simp
  qed
qed simp

lemma node_pointer32:
  assumes ok: "tree_ok db" and v: "v < node_count (metadata db)" and small: "data_section db < 2 ^ 32"
  shows "unat (v * ucast (full_record_byte_size db) :: u32) = unat v * reclen db"
    and "unat v * reclen db + reclen db \<le> data_section db" and "unat v < nodes db"
proof -
  have v64: "(ucast v :: u64) < ucast (node_count (metadata db))" using v by (simp add: word_less_nat_alt)
  note p = node_pointer [OF ok v64]
  show "unat v * reclen db + reclen db \<le> data_section db" "unat v < nodes db" using p by simp_all
  then have "unat v * reclen db < 2 ^ 32" using small by linarith
  moreover have "unat (ucast (full_record_byte_size db) :: u32) = reclen db"
    using unat_u16 [of "full_record_byte_size db"]
    by (simp add: unsigned_ucast_eq take_bit_nat_eq_self)
  ultimately show "unat (v * ucast (full_record_byte_size db) :: u32) = unat v * reclen db"
    by (simp add: unat_word_ariths)
qed

lemma ipv4_start_zero:
  assumes ok: "tree_ok db" and small: "data_section db < 2 ^ 32"
  shows "\<forall>i. k \<le> i \<longrightarrow> i < k + n \<longrightarrow> address_bit a i = Some False \<Longrightarrow>
    \<exists>x j. ipv4_start_loop db (record_info_for_database db) n v k = Some (Inr (x, j)) \<and>
      search_loop db (record_info_for_database db) a n (ucast v) k = Some (Inr (ucast x, j)) \<and> j \<le> k + n"
proof (induction n arbitrary: v k)
  case (Suc n)
  have bit: "address_bit a k = Some False" using Suc.prems by simp
  show ?case
  proof (cases "v < node_count (metadata db)")
    case True
    note p = node_pointer32 [OF ok True small]
    obtain w where w: "child db (unat v) False = Some w" using child_total [OF ok] p(3) by fastforce
    have "ipv4_start_loop db (record_info_for_database db) (Suc n) v k =
        ipv4_start_loop db (record_info_for_database db) n w (Suc k)"
      using True p w record_info [OF ok] by (simp add: child_def Let_def)
    moreover have "search_loop db (record_info_for_database db) a (Suc n) (ucast v) k =
        search_loop db (record_info_for_database db) a n (ucast w) (Suc k)"
      unfolding search_loop_step [OF ok bit] using True w by (simp add: word_less_nat_alt)
    ultimately show ?thesis using Suc.IH [of "Suc k" w] Suc.prems by auto
  next
    case False
    then show ?thesis by (simp add: word_less_nat_alt)
  qed
qed simp

lemma start_node_irrelevant:
  "search_loop (db\<lparr>ipv4_start_node := s\<rparr>) ri a n v k = search_loop db ri a n v k"
  by (induction n arbitrary: v k) (simp_all add: address_bit_def Let_def cong: if_cong)

lemma record_info_start_node [simp]:
  "record_info_for_database (db\<lparr>ipv4_start_node := s\<rparr>) = record_info_for_database db"
  by (simp add: record_info_for_database_def)

lemma mapped_bits:
  assumes "i < 96"
  shows "address_bit (replicate 12 0 @ a) i = Some False"
proof -
  have "i div 8 < 12" using assms by auto
  then show ?thesis by (simp add: address_bit_def load_def nth_append)
qed

lemma find_ipv4_start_node_finds:
  assumes ok: "tree_ok db" and small: "data_section db < 2 ^ 32"
    and "node_value (ipv4_start_node db) = 0"
  obtains x j where "find_ipv4_start_node db =
      Some (MMDB_SUCCESS, db\<lparr>ipv4_start_node := \<lparr>s_netmask = of_nat j, node_value = x\<rparr>\<rparr>)" "j \<le> 96"
    "\<And>a. search_loop db (record_info_for_database db) (replicate 12 0 @ a) 96 0 0 = Some (Inr (ucast x, j))"
proof -
  have "\<forall>i. 0 \<le> i \<longrightarrow> i < 0 + 96 \<longrightarrow> address_bit (replicate 12 0 @ a) i = Some False" for a
    using mapped_bits by simp
  from ipv4_start_zero [OF ok small this, of 0]
  have z: "\<exists>x j. ipv4_start_loop db (record_info_for_database db) 96 0 0 = Some (Inr (x, j)) \<and>
    search_loop db (record_info_for_database db) (replicate 12 0 @ a) 96 0 0 = Some (Inr (ucast x, j)) \<and> j \<le> 96" for a
    by simp
  from z [of "[]"] obtain x j where xj: "ipv4_start_loop db (record_info_for_database db) 96 0 0 = Some (Inr (x, j))"
    "j \<le> 96" by blast
  moreover have "search_loop db (record_info_for_database db) (replicate 12 0 @ a) 96 0 0 = Some (Inr (ucast x, j))" for a
    using z [of a] xj by auto
  ultimately show ?thesis
    using assms(3) record_info(2) [OF ok]
    by (intro that [of j x]) (auto simp: find_ipv4_start_node_def Let_def)
qed

text \<open>
  C34: opening an IPv6 database finds the IPv4 start node, and from then on looking up an IPv4
  address with the shortcut gives exactly the status, netmask and entry of looking up the
  address \<open>::a.b.c.d\<close> from the root.
\<close>

theorem ipv4_shortcut_correct:
  assumes "tree_ok db" and "data_section db < 2 ^ 32" and "ip_version (metadata db) = 6"
    and "depth db = 128" and "node_value (ipv4_start_node db) = 0"
  shows "\<exists>db'. find_ipv4_start_node db = Some (MMDB_SUCCESS, db') \<and>
    (\<forall>a. MMDB_lookup_sockaddr db' (Sockaddr_in a) =
         MMDB_lookup_sockaddr db' (Sockaddr_in6 (replicate 12 0 @ a)))"
proof -
  obtain x j where xj: "find_ipv4_start_node db =
      Some (MMDB_SUCCESS, db\<lparr>ipv4_start_node := \<lparr>s_netmask = of_nat j, node_value = x\<rparr>\<rparr>)" "j \<le> 96"
    "\<And>a. search_loop db (record_info_for_database db) (replicate 12 0 @ a) 96 0 0 = Some (Inr (ucast x, j))"
    using find_ipv4_start_node_finds [OF assms(1,2,5)] by blast
  let ?db = "db\<lparr>ipv4_start_node := \<lparr>s_netmask = of_nat j, node_value = x\<rparr>\<rparr>"
  have "unat (of_nat j :: u16) = j" using xj(2) by (simp add: unat_of_nat)
  moreover have "search_loop db (record_info_for_database db) (replicate 12 0 @ a) 128 0 0 =
      search_loop db (record_info_for_database db) (replicate 12 0 @ a) (128 - j) (ucast x) j" for a
    using search_loop_add [of db "record_info_for_database db" "replicate 12 0 @ a" 96 32 0 0] xj(3) by simp
  ultimately have "MMDB_lookup_sockaddr ?db (Sockaddr_in a) =
      MMDB_lookup_sockaddr ?db (Sockaddr_in6 (replicate 12 0 @ a))" for a
    using assms(3,4)
    by (simp add: MMDB_lookup_sockaddr_def find_address_in_search_tree_def start_node_irrelevant Let_def
      data_section_offset_for_record_def)
  then show ?thesis using xj(1) by blast
qed

theorem ipv4_shortcut_witness:
  "\<exists>db'. find_ipv4_start_node (sample_tree 6 128) = Some (MMDB_SUCCESS, db') \<and>
    (\<forall>a. MMDB_lookup_sockaddr db' (Sockaddr_in a) =
         MMDB_lookup_sockaddr db' (Sockaddr_in6 (replicate 12 0 @ a)))"
  using ipv4_shortcut_correct [OF sample_tree_ok, of 6 128] by (simp add: sample_tree_def)

section \<open>Reading one node\<close>

lemma read_node_total:
  assumes "tree_ok db" and "data_section db < 2 ^ 32"
  shows "\<exists>r. MMDB_read_node db v = Some r"
proof (cases "v > node_count (metadata db)")
  case True
  then show ?thesis using record_info(2) [OF assms(1)] by (simp add: MMDB_read_node_def Let_def)
next
  case False
  then have le: "unat v \<le> nodes db" by (simp add: word_le_nat_alt not_less)
  have "unat v * reclen db \<le> nodes db * reclen db" using le by (rule mult_le_mono1)
  then have lt: "unat v * reclen db < 2 ^ 32" using assms unfolding tree_ok_def by linarith
  have "unat (ucast (full_record_byte_size db) :: u32) = reclen db"
    using unat_u16 [of "full_record_byte_size db"] by (simp add: unsigned_ucast_eq take_bit_nat_eq_self)
  then have "unat (v * ucast (full_record_byte_size db)) = unat v * reclen db"
    using lt by (simp add: unat_word_ariths)
  then show ?thesis
    using child_total [OF assms(1) le, of True] child_total [OF assms(1) le, of False] record_info [OF assms(1)] False
    by (auto simp: MMDB_read_node_def child_def Let_def)
qed

text \<open>
  C35: the guard of \<open>MMDB_read_node\<close> is off by one: node number \<open>node_count\<close>, which does not
  exist, is read from the separator instead of being refused, and only larger numbers are.
\<close>

theorem MMDB_read_node_guard:
  assumes "tree_ok db" and "data_section db < 2 ^ 32"
  shows "(MMDB_read_node db v = Some (Inl MMDB_INVALID_NODE_NUMBER_ERROR) \<longleftrightarrow> node_count (metadata db) < v) \<and>
    (\<exists>node. MMDB_read_node db (node_count (metadata db)) = Some (Inr node))"
proof (intro conjI)
  show "MMDB_read_node db v = Some (Inl MMDB_INVALID_NODE_NUMBER_ERROR) \<longleftrightarrow> node_count (metadata db) < v"
    using record_info(2) [OF assms(1)]
    by (auto simp: MMDB_read_node_def Let_def bind_eq_Some_conv)
  show "\<exists>node. MMDB_read_node db (node_count (metadata db)) = Some (Inr node)"
    using read_node_total [OF assms, of "node_count (metadata db)"] record_info(2) [OF assms(1)]
    by (auto simp: MMDB_read_node_def Let_def bind_eq_Some_conv)
qed

theorem MMDB_read_node_guard_witness:
  "(MMDB_read_node (sample_tree 4 32) 2 = Some (Inl MMDB_INVALID_NODE_NUMBER_ERROR)) \<and>
    (\<exists>node. MMDB_read_node (sample_tree 4 32) 1 = Some (Inr node))"
  using MMDB_read_node_guard [OF sample_tree_ok, of 4 32 2] by (simp add: sample_tree_def)

end
