(* ===== verification/MmdbOpen.thy ===== *)
theory MmdbOpen
  imports MmdbTree MmdbList
begin

text \<open>
  Opening a MaxMind DB (\<open>src/maxminddb/maxminddb.c\<close>, \<open>src/maxminddb/maxminddb-compat-util.h\<close>):
  mapping the file, finding the metadata after its last marker, decoding the metadata with the
  functions of the data section, and checking the layout that all later reads rely on.

  The system calls that map the file are parameters, and so is the heap: \<open>h_malloc\<close> says for
  each place of the code that allocates, and for its \<open>i\<close>-th allocation, whether a request of that many
  bytes succeeds, and \<open>h_calloc\<close> does for the pool of each of the two lists that are built.
\<close>

record heap =
  h_malloc :: "string \<Rightarrow> nat \<Rightarrow> nat \<Rightarrow> bool"
  h_calloc :: "string \<Rightarrow> u64 \<Rightarrow> u64 \<Rightarrow> bool"

text \<open>A C string literal.\<close>

definition cstr :: "string \<Rightarrow> bytes" where
  "cstr s = map of_char s"

section \<open>Strings\<close>

text \<open>\<open>mmdb_strnlen\<close> on the \<open>maxlen\<close> bytes that follow the pointer.\<close>

fun mmdb_strnlen :: "bytes \<Rightarrow> nat \<Rightarrow> nat" where
  "mmdb_strnlen s 0 = 0"
| "mmdb_strnlen [] (Suc n) = 0"
| "mmdb_strnlen (c # s) (Suc n) = (if c = 0 then 0 else Suc (mmdb_strnlen s n))"

text \<open>
  \<open>mmdb_strndup(entry_data.utf8_string, entry_data.data_size)\<close>: the copy, without its
  terminator, or \<open>Inl ()\<close> when \<open>malloc\<close> fails. \<open>None\<close> is a string outside the file.
\<close>

definition mmdb_strndup :: "(nat \<Rightarrow> bool) \<Rightarrow> MMDB_s \<Rightarrow> MMDB_entry_data_s \<Rightarrow> (unit + bytes) option" where
  "mmdb_strndup malloc db ed =
    do {
      s \<leftarrow> entry_string db ed;
      let len = mmdb_strnlen s (unat (data_size ed));
      Some (if malloc (len + 1) then Inr (take len s) else Inl ())
    }"

definition mmdb_strdup :: "(nat \<Rightarrow> bool) \<Rightarrow> bytes \<Rightarrow> bytes option" where
  "mmdb_strdup malloc s = (if malloc (length s + 1) then Some s else None)"

fun memmem_loop :: "bytes \<Rightarrow> bytes \<Rightarrow> nat \<Rightarrow> nat \<Rightarrow> nat option" where
  "memmem_loop l s cur 0 = None"
| "memmem_loop l s cur (Suc n) =
    (if l ! cur = s ! 0 \<and> take (length s) (drop cur l) = s then Some cur
     else memmem_loop l s (cur + 1) n)"

fun memchr :: "bytes \<Rightarrow> u8 \<Rightarrow> nat option" where
  "memchr [] c = None"
| "memchr (x # l) c = (if x = c then Some 0 else map_option Suc (memchr l c))"

definition mmdb_memmem :: "bytes \<Rightarrow> bytes \<Rightarrow> nat option" where
  "mmdb_memmem l s =
    (if length l = 0 \<or> length s = 0 then None
     else if length l < length s then None
     else if length s = 1 then memchr l (s ! 0)
     else memmem_loop l s 0 (length l - length s + 1))"

text \<open>The first position where \<open>s\<close> occurs in \<open>l\<close>.\<close>

definition occurs_at :: "bytes \<Rightarrow> bytes \<Rightarrow> nat \<Rightarrow> bool" where
  "occurs_at l s i \<longleftrightarrow> i + length s \<le> length l \<and> take (length s) (drop i l) = s"

lemma memchr_occurs:
  "case memchr l c of
     None \<Rightarrow> \<forall>i. \<not> occurs_at l [c] i
   | Some i \<Rightarrow> occurs_at l [c] i \<and> (\<forall>j < i. \<not> occurs_at l [c] j)"
proof (induction l)
  case (Cons x l)
  have "occurs_at (x # l) [c] i = (case i of 0 \<Rightarrow> x = c | Suc j \<Rightarrow> occurs_at l [c] j)" for i
    by (auto simp: occurs_at_def split: nat.split)
  then show ?case using Cons
    by (auto simp: less_Suc_eq_0_disj split: option.splits nat.splits if_splits)
qed (simp add: occurs_at_def)

lemma memmem_loop_occurs:
  assumes "s \<noteq> []" and "cur + n + length s = length l + 1"
  shows "case memmem_loop l s cur n of
     None \<Rightarrow> \<forall>i \<ge> cur. \<not> occurs_at l s i
   | Some i \<Rightarrow> occurs_at l s i \<and> cur \<le> i \<and> (\<forall>j. cur \<le> j \<and> j < i \<longrightarrow> \<not> occurs_at l s j)"
  using assms(2)
proof (induction n arbitrary: cur)
  case 0
  then show ?case using assms(1) by (auto simp: occurs_at_def)
next
  case (Suc n)
  have pos: "0 < length s" using assms(1) by simp
  have hd: "occurs_at l s cur \<longleftrightarrow> l ! cur = s ! 0 \<and> take (length s) (drop cur l) = s"
  proof -
    have "take (length s) (drop cur l) ! 0 = l ! cur" if "cur + length s \<le> length l"
      using pos that by simp
    then show ?thesis using Suc.prems unfolding occurs_at_def by auto
  qed
  show ?case
  proof (cases "occurs_at l s cur")
    case True
    then show ?thesis using hd by auto
  next
    case False
    have skip: "(cur \<le> j \<and> occurs_at l s j) \<longleftrightarrow> (cur + 1 \<le> j \<and> occurs_at l s j)" for j
      using False by (cases "j = cur") auto
    have "memmem_loop l s cur (Suc n) = memmem_loop l s (cur + 1) n" using False hd by auto
    then show ?thesis using Suc.IH [of "cur + 1"] Suc.prems skip
      by (simp del: memmem_loop.simps split: option.splits) (blast, metis Suc_leD skip)
  qed
qed

lemma mmdb_memmem_occurs:
  assumes "s \<noteq> []"
  shows "case mmdb_memmem l s of
     None \<Rightarrow> \<forall>i. \<not> occurs_at l s i
   | Some i \<Rightarrow> occurs_at l s i \<and> (\<forall>j < i. \<not> occurs_at l s j)"
proof -
  consider "length l < length s" | "length s \<le> length l" "length s = 1" | "length s \<le> length l" "length s \<noteq> 1"
    by linarith
  then show ?thesis
  proof cases
    case 1
    then show ?thesis by (simp add: mmdb_memmem_def occurs_at_def)
  next
    case 2
    then obtain c where "s = [c]" by (auto simp: length_Suc_conv)
    then show ?thesis using 2 memchr_occurs [of l c] by (auto simp: mmdb_memmem_def)
  next
    case 3
    then have "mmdb_memmem l s = memmem_loop l s 0 (length l - length s + 1)"
      using assms by (simp add: mmdb_memmem_def)
    then show ?thesis using memmem_loop_occurs [OF assms, of 0 "length l - length s + 1" l] 3 assms
      by (simp del: memmem_loop.simps split: option.splits)
  qed
qed

section \<open>Finding the metadata\<close>

definition METADATA_MARKER :: bytes where
  "METADATA_MARKER = [0xab, 0xcd, 0xef] @ cstr ''MaxMind.com''"

definition METADATA_BLOCK_MAX_SIZE :: int where
  "METADATA_BLOCK_MAX_SIZE = 131072"

lemma marker_nonempty [simp]: "METADATA_MARKER \<noteq> []"
  by (simp add: METADATA_MARKER_def)

lemma length_marker [simp]: "length METADATA_MARKER = 14"
  by (simp add: METADATA_MARKER_def cstr_def)

lemma memmem_marker_fits:
  "mmdb_memmem l METADATA_MARKER = Some i \<Longrightarrow> i + 14 \<le> length l"
  using mmdb_memmem_occurs [of METADATA_MARKER l] by (simp add: occurs_at_def)

text \<open>The loop: after a marker at \<open>i\<close> the search goes on behind it.\<close>

function marker_loop :: "bytes \<Rightarrow> nat \<Rightarrow> nat \<times> bytes" where
  "marker_loop area pos =
    (case mmdb_memmem area METADATA_MARKER of
       None \<Rightarrow> (pos, area)
     | Some i \<Rightarrow> marker_loop (drop (i + length METADATA_MARKER) area) (pos + i + length METADATA_MARKER))"
  by pat_completeness auto
termination
  by (relation "measure (\<lambda>(area, pos). length area)") (auto dest: memmem_marker_fits)

definition find_metadata :: "bytes \<Rightarrow> int \<Rightarrow> (nat \<times> u32) option" where
  "find_metadata content fsize =
    (let max_size = (if fsize > METADATA_BLOCK_MAX_SIZE then METADATA_BLOCK_MAX_SIZE else fsize) in
     if max_size < 0 then None
     else
       let start = nat (fsize - max_size);
           (search_area, rest) = marker_loop (subl content start (nat fsize)) start
       in if search_area = start then None
          else Some (search_area, of_nat (length rest)))"

section \<open>Reading the metadata\<close>

definition zero_metadata :: MMDB_metadata_s where
  "zero_metadata = \<lparr>node_count = 0, record_size = 0, ip_version = 0, database_type = None,
     languages_count = 0, languages_names = None, binary_format_major_version = 0,
     binary_format_minor_version = 0, build_epoch = 0, description_count = 0, descriptions = None\<rparr>"

definition make_fake_metadata_db :: "MMDB_s \<Rightarrow> MMDB_s" where
  "make_fake_metadata_db db =
    \<lparr>open_flags = 0, filename = None, file_size = 0, file_content = file_content db,
     data_section = metadata_section db, data_section_size = metadata_section_size db,
     metadata_section = 0, metadata_section_size = 0, full_record_byte_size = 0, depth = 0,
     ipv4_start_node = \<lparr>s_netmask = 0, node_value = 0\<rparr>, metadata = zero_metadata\<rparr>"

text \<open>A value of the expected type at a key of the metadata map, or the error.\<close>

definition value_for_key ::
  "nat \<Rightarrow> machine \<Rightarrow> MMDB_s \<Rightarrow> string \<Rightarrow> (mmdb_status + MMDB_entry_data_s) option" where
  "value_for_key ty mach mdb key =
    do {
      (status, ed) \<leftarrow> MMDB_aget_value mach mdb 0 [cstr key];
      Some (if status \<noteq> MMDB_SUCCESS then Inl status
            else if e_type ed \<noteq> ty then Inl MMDB_INVALID_METADATA_ERROR
            else Inr ed)
    }"

definition value_for_key_as_uint16 ::
  "machine \<Rightarrow> MMDB_s \<Rightarrow> string \<Rightarrow> (mmdb_status + u16) option" where
  "value_for_key_as_uint16 mach mdb key =
    map_option (map_sum (\<lambda>st. st) (\<lambda>ed. uint16 (value_of ed))) (value_for_key MMDB_DATA_TYPE_UINT16 mach mdb key)"

definition value_for_key_as_uint32 ::
  "machine \<Rightarrow> MMDB_s \<Rightarrow> string \<Rightarrow> (mmdb_status + u32) option" where
  "value_for_key_as_uint32 mach mdb key =
    map_option (map_sum (\<lambda>st. st) (\<lambda>ed. uint32 (value_of ed))) (value_for_key MMDB_DATA_TYPE_UINT32 mach mdb key)"

definition value_for_key_as_uint64 ::
  "machine \<Rightarrow> MMDB_s \<Rightarrow> string \<Rightarrow> (mmdb_status + u64) option" where
  "value_for_key_as_uint64 mach mdb key =
    map_option (map_sum (\<lambda>st. st) (\<lambda>ed. uint64 (value_of ed))) (value_for_key MMDB_DATA_TYPE_UINT64 mach mdb key)"

definition value_for_key_as_string ::
  "(nat \<Rightarrow> bool) \<Rightarrow> machine \<Rightarrow> MMDB_s \<Rightarrow> string \<Rightarrow> (mmdb_status + bytes) option" where
  "value_for_key_as_string malloc mach mdb key =
    do {
      r \<leftarrow> value_for_key MMDB_DATA_TYPE_UTF8_STRING mach mdb key;
      (case r of
         Inl status \<Rightarrow> Some (Inl status)
       | Inr ed \<Rightarrow>
           do { s \<leftarrow> mmdb_strndup malloc mdb ed;
                Some (case s of Inl _ \<Rightarrow> Inl MMDB_OUT_OF_MEMORY_ERROR | Inr str \<Rightarrow> Inr str) })
    }"

text \<open>\<open>member = member->next\<close> and the entry found there; a null pointer is undefined behaviour.\<close>

definition next_member ::
  "MMDB_data_pool_s \<Rightarrow> cell_ref option \<Rightarrow> (cell_ref option \<times> MMDB_entry_data_s) option" where
  "next_member pool member =
    do { r \<leftarrow> member; c \<leftarrow> get_cell pool r; r' \<leftarrow> next_cell c; c' \<leftarrow> get_cell pool r';
         Some (Some r', entry_data c') }"

text \<open>
  The loop over the languages; \<open>i\<close> counts up and \<open>n\<close> elements remain. The result is the
  status, the count and the array.
\<close>

fun languages_loop ::
  "heap \<Rightarrow> MMDB_s \<Rightarrow> MMDB_data_pool_s \<Rightarrow> nat \<Rightarrow> nat \<Rightarrow> cell_ref option \<Rightarrow> bytes option list \<Rightarrow>
    (mmdb_status \<times> nat \<times> bytes option list) option" where
  "languages_loop h mdb pool i 0 member names = Some (MMDB_SUCCESS, i, names)"
| "languages_loop h mdb pool i (Suc n) member names =
    do {
      (member, ed) \<leftarrow> next_member pool member;
      if e_type ed \<noteq> MMDB_DATA_TYPE_UTF8_STRING then Some (MMDB_INVALID_METADATA_ERROR, i, names)
      else do {
        s \<leftarrow> mmdb_strndup (h_malloc h ''language'' i) mdb ed;
        (case s of
           Inl _ \<Rightarrow> Some (MMDB_OUT_OF_MEMORY_ERROR, i, names)
         | Inr str \<Rightarrow>
             do { names \<leftarrow> store names i (Some str);
                  languages_loop h mdb pool (i + 1) n member names })
      }
    }"

definition populate_languages_metadata ::
  "heap \<Rightarrow> machine \<Rightarrow> MMDB_s \<Rightarrow> MMDB_s \<Rightarrow> (mmdb_status \<times> MMDB_s) option" where
  "populate_languages_metadata h mach db mdb =
    do {
      r \<leftarrow> value_for_key MMDB_DATA_TYPE_ARRAY mach mdb ''languages'';
      (case r of
         Inl status \<Rightarrow> Some (status, db)
       | Inr ed \<Rightarrow>
           do {
             (status, list) \<leftarrow> MMDB_get_entry_data_list (h_calloc h ''languages'') mdb (e_offset ed);
             if status \<noteq> MMDB_SUCCESS then Some (status, db)
             else do {
               (pool, first) \<leftarrow> list;
               c \<leftarrow> get_cell pool first;
               let array_size = unat (data_size (entry_data c));
               let db = db\<lparr>metadata := (metadata db)\<lparr>languages_count := 0, languages_names := None\<rparr>\<rparr>;
               if \<not> h_malloc h ''languages'' 0 (8 * array_size) then Some (MMDB_OUT_OF_MEMORY_ERROR, db)
               else do {
                 (status, count, names) \<leftarrow> languages_loop h mdb pool 0 array_size (Some first) (replicate array_size None);
                 Some (status, db\<lparr>metadata := (metadata db)\<lparr>languages_count := count, languages_names := Some names\<rparr>\<rparr>)
               }
             }
           })
    }"

text \<open>One string of a description; the error statuses leave through \<open>goto cleanup\<close>.\<close>

definition description_string ::
  "(nat \<Rightarrow> bool) \<Rightarrow> MMDB_s \<Rightarrow> MMDB_entry_data_s \<Rightarrow> (mmdb_status + bytes) option" where
  "description_string malloc mdb ed =
    (if e_type ed \<noteq> MMDB_DATA_TYPE_UTF8_STRING then Some (Inl MMDB_INVALID_METADATA_ERROR)
     else do { s \<leftarrow> mmdb_strndup malloc mdb ed;
               Some (case s of Inl _ \<Rightarrow> Inl MMDB_OUT_OF_MEMORY_ERROR | Inr str \<Rightarrow> Inr str) })"

fun descriptions_loop ::
  "heap \<Rightarrow> MMDB_s \<Rightarrow> MMDB_data_pool_s \<Rightarrow> nat \<Rightarrow> nat \<Rightarrow> cell_ref option \<Rightarrow> MMDB_description_s option list \<Rightarrow>
    (mmdb_status \<times> nat \<times> MMDB_description_s option list) option" where
  "descriptions_loop h mdb pool i 0 member ds = Some (MMDB_SUCCESS, i, ds)"
| "descriptions_loop h mdb pool i (Suc n) member ds =
    (if \<not> h_malloc h ''description_s'' i 16 then Some (MMDB_OUT_OF_MEMORY_ERROR, i, ds)
     else do {
       ds \<leftarrow> store ds i (Some \<lparr>d_language = None, d_description = None\<rparr>);
       (member, ed) \<leftarrow> next_member pool member;
       l \<leftarrow> description_string (h_malloc h ''description_language'' i) mdb ed;
       (case l of
          Inl status \<Rightarrow> Some (status, i + 1, ds)
        | Inr lang \<Rightarrow>
            do {
              ds \<leftarrow> store ds i (Some \<lparr>d_language = Some lang, d_description = None\<rparr>);
              (member, ed) \<leftarrow> next_member pool member;
              d \<leftarrow> description_string (h_malloc h ''description'' i) mdb ed;
              (case d of
                 Inl status \<Rightarrow> Some (status, i + 1, ds)
               | Inr desc \<Rightarrow>
                   do { ds \<leftarrow> store ds i (Some \<lparr>d_language = Some lang, d_description = Some desc\<rparr>);
                        descriptions_loop h mdb pool (i + 1) n member ds })
            })
     })"

definition populate_description_metadata ::
  "heap \<Rightarrow> machine \<Rightarrow> MMDB_s \<Rightarrow> MMDB_s \<Rightarrow> (mmdb_status \<times> MMDB_s) option" where
  "populate_description_metadata h mach db mdb =
    do {
      r \<leftarrow> value_for_key MMDB_DATA_TYPE_MAP mach mdb ''description'';
      (case r of
         Inl status \<Rightarrow> Some (status, db)
       | Inr ed \<Rightarrow>
           do {
             (status, list) \<leftarrow> MMDB_get_entry_data_list (h_calloc h ''description'') mdb (e_offset ed);
             if status \<noteq> MMDB_SUCCESS then Some (status, db)
             else do {
               (pool, first) \<leftarrow> list;
               c \<leftarrow> get_cell pool first;
               let map_size = unat (data_size (entry_data c));
               let db = db\<lparr>metadata := (metadata db)\<lparr>description_count := 0, descriptions := None\<rparr>\<rparr>;
               if map_size = 0 then Some (MMDB_SUCCESS, db)
               else if \<not> h_malloc h ''descriptions'' 0 (8 * map_size) then Some (MMDB_OUT_OF_MEMORY_ERROR, db)
               else do {
                 (status, count, ds) \<leftarrow> descriptions_loop h mdb pool 0 map_size (Some first) (replicate map_size None);
                 Some (status, db\<lparr>metadata := (metadata db)\<lparr>description_count := count, descriptions := Some ds\<rparr>\<rparr>)
               }
             }
           })
    }"

text \<open>
  \<open>read_metadata\<close> is a sequence of assignments to the metadata, each of which may end it with a
  status. \<open>step\<close> reads a value, \<open>put\<close> stores it, and \<open>require\<close> is a check after it.
\<close>

type_synonym meta_result = "(mmdb_status \<times> MMDB_s) option"

definition meta_step ::
  "(mmdb_status + 'v) option \<Rightarrow> ('v \<Rightarrow> MMDB_metadata_s \<Rightarrow> MMDB_metadata_s) \<Rightarrow> (MMDB_s \<Rightarrow> meta_result) \<Rightarrow>
    MMDB_s \<Rightarrow> meta_result" where
  "meta_step v put k db =
    do {
      r \<leftarrow> v;
      (case r of
         Inl status \<Rightarrow> Some (status, db)
       | Inr x \<Rightarrow> k (db\<lparr>metadata := put x (metadata db)\<rparr>))
    }"

definition require :: "(MMDB_metadata_s \<Rightarrow> bool) \<Rightarrow> mmdb_status \<Rightarrow> (MMDB_s \<Rightarrow> meta_result) \<Rightarrow> MMDB_s \<Rightarrow> meta_result" where
  "require c status k db = (if c (metadata db) then k db else Some (status, db))"

definition read_sizes :: "MMDB_s \<Rightarrow> meta_result" where
  "read_sizes db =
    Some (MMDB_SUCCESS, db\<lparr>full_record_byte_size := record_size (metadata db) * 2 div 8,
       depth := if ip_version (metadata db) = 4 then 32 else 128\<rparr>)"

definition read_metadata_rest :: "heap \<Rightarrow> machine \<Rightarrow> MMDB_s \<Rightarrow> MMDB_s \<Rightarrow> meta_result" where
  "read_metadata_rest h mach mdb =
     meta_step (value_for_key_as_string (h_malloc h ''database_type'' 0) mach mdb ''database_type'')
        (\<lambda>x m. m\<lparr>database_type := Some x\<rparr>)
     (\<lambda>db. checked (populate_languages_metadata h mach db mdb)
     (meta_step (value_for_key_as_uint16 mach mdb ''binary_format_major_version'')
        (\<lambda>x m. m\<lparr>binary_format_major_version := x\<rparr>)
     (require (\<lambda>m. binary_format_major_version m \<noteq> 0) MMDB_INVALID_METADATA_ERROR
     (meta_step (value_for_key_as_uint16 mach mdb ''binary_format_minor_version'')
        (\<lambda>x m. m\<lparr>binary_format_minor_version := x\<rparr>)
     (meta_step (value_for_key_as_uint64 mach mdb ''build_epoch'') (\<lambda>x m. m\<lparr>build_epoch := x\<rparr>)
     (require (\<lambda>m. build_epoch m \<noteq> 0) MMDB_INVALID_METADATA_ERROR
     (\<lambda>db. checked (populate_description_metadata h mach db mdb) read_sizes)))))))"

definition read_metadata :: "heap \<Rightarrow> machine \<Rightarrow> MMDB_s \<Rightarrow> meta_result" where
  "read_metadata h mach db =
    (let mdb = make_fake_metadata_db db in
     (meta_step (value_for_key_as_uint32 mach mdb ''node_count'') (\<lambda>x m. m\<lparr>node_count := x\<rparr>)
     (require (\<lambda>m. node_count m \<noteq> 0) MMDB_INVALID_METADATA_ERROR
     (meta_step (value_for_key_as_uint16 mach mdb ''record_size'') (\<lambda>x m. m\<lparr>record_size := x\<rparr>)
     (require (\<lambda>m. record_size m \<noteq> 0) MMDB_INVALID_METADATA_ERROR
     (require (\<lambda>m. record_size m = 24 \<or> record_size m = 28 \<or> record_size m = 32) MMDB_UNKNOWN_DATABASE_FORMAT_ERROR
     (meta_step (value_for_key_as_uint16 mach mdb ''ip_version'') (\<lambda>x m. m\<lparr>ip_version := x\<rparr>)
     (require (\<lambda>m. ip_version m \<noteq> 0) MMDB_INVALID_METADATA_ERROR
     (require (\<lambda>m. ip_version m = 4 \<or> ip_version m = 6) MMDB_INVALID_METADATA_ERROR
     (read_metadata_rest h mach mdb))))))))) db)"

section \<open>Mapping the file\<close>

text \<open>
  What the system answers. \<open>posix_map\<close>: the descriptor, the size that \<open>fstat\<close> reports, the
  mapped bytes or whether the failure was \<open>ENOMEM\<close>. \<open>win_map\<close>: the handles and the mapped view.
\<close>

record posix_map =
  m_fd :: int
  m_fstat :: "int option"
  m_mmap :: "bool + bytes"

record win_map =
  w_name :: bool
  w_open :: bool
  w_size :: u32
  w_mapping :: bool
  w_view :: "bytes option"

definition SSIZE_MAX :: int where
  "SSIZE_MAX = 2 ^ 63 - 1"

definition map_file_posix :: "posix_map \<Rightarrow> MMDB_s \<Rightarrow> mmdb_status \<times> MMDB_s" where
  "map_file_posix io db =
    (if m_fd io < 0 then (MMDB_FILE_OPEN_ERROR, db)
     else case m_fstat io of
       None \<Rightarrow> (MMDB_FILE_OPEN_ERROR, db)
     | Some sz \<Rightarrow>
         if sz < 0 \<or> sz > SSIZE_MAX then (MMDB_OUT_OF_MEMORY_ERROR, db)
         else case m_mmap io of
           Inl enomem \<Rightarrow> (if enomem then MMDB_OUT_OF_MEMORY_ERROR else MMDB_IO_ERROR, db)
         | Inr content \<Rightarrow> (MMDB_SUCCESS, db\<lparr>file_size := sz, file_content := content\<rparr>))"

definition map_file_win :: "win_map \<Rightarrow> MMDB_s \<Rightarrow> mmdb_status \<times> MMDB_s" where
  "map_file_win io db =
    (if \<not> w_name io then (MMDB_FILE_OPEN_ERROR, db)
     else if \<not> w_open io then (MMDB_FILE_OPEN_ERROR, db)
     else if w_size io = 0xFFFFFFFF then (MMDB_FILE_OPEN_ERROR, db)
     else if \<not> w_mapping io then (MMDB_IO_ERROR, db)
     else case w_view io of
       None \<Rightarrow> (MMDB_IO_ERROR, db)
     | Some content \<Rightarrow> (MMDB_SUCCESS, db\<lparr>file_size := uint (w_size io), file_content := content\<rparr>))"

section \<open>Closing\<close>

text \<open>
  The structure after its memory has been released. Freeing beyond an array or through a null
  pointer is \<open>None\<close>. The mapping itself goes back to the system; \<open>file_content\<close> keeps its value.
\<close>

definition free_languages_metadata :: "MMDB_s \<Rightarrow> MMDB_s option" where
  "free_languages_metadata db =
    (case languages_names (metadata db) of
       None \<Rightarrow> Some db
     | Some names \<Rightarrow>
         if languages_count (metadata db) \<le> length names
         then Some (db\<lparr>metadata := (metadata db)\<lparr>languages_names := None\<rparr>\<rparr>) else None)"

definition free_descriptions_metadata :: "MMDB_s \<Rightarrow> MMDB_s option" where
  "free_descriptions_metadata db =
    (if description_count (metadata db) = 0 then Some db
     else case descriptions (metadata db) of
       None \<Rightarrow> None
     | Some ds \<Rightarrow>
         if description_count (metadata db) \<le> length ds
         then Some (db\<lparr>metadata := (metadata db)\<lparr>descriptions := None\<rparr>\<rparr>) else None)"

definition free_mmdb_struct :: "MMDB_s \<Rightarrow> MMDB_s option" where
  "free_mmdb_struct db =
    do {
      let db = db\<lparr>filename := None\<rparr>;
      let db = db\<lparr>metadata := (metadata db)\<lparr>database_type := None\<rparr>\<rparr>;
      db \<leftarrow> free_languages_metadata db;
      free_descriptions_metadata db
    }"

definition MMDB_close :: "MMDB_s \<Rightarrow> MMDB_s option" where
  "MMDB_close db = free_mmdb_struct db"

section \<open>Opening\<close>

definition MMDB_MODE_MMAP :: u32 where
  "MMDB_MODE_MMAP = 1"

definition MMDB_MODE_MASK :: u32 where
  "MMDB_MODE_MASK = 7"

text \<open>The part of \<open>MMDB_open\<close> after the file is mapped, up to \<open>cleanup\<close>.\<close>

definition open_layout :: "MMDB_s \<Rightarrow> meta_result" where
  "open_layout db =
    (if binary_format_major_version (metadata db) \<noteq> 2 then Some (MMDB_UNKNOWN_DATABASE_FORMAT_ERROR, db)
     else if \<not> can_multiply (word_of_int SSIZE_MAX) (ucast (node_count (metadata db))) (ucast (full_record_byte_size db))
     then Some (MMDB_INVALID_METADATA_ERROR, db)
     else
       let search_tree_size = uint (node_count (metadata db)) * uint (full_record_byte_size db);
           separator = int MMDB_DATA_SECTION_SEPARATOR;
           db = db\<lparr>data_section := nat (search_tree_size + separator)\<rparr>
       in
       if file_size db < separator \<or> search_tree_size > file_size db - separator
       then Some (MMDB_INVALID_METADATA_ERROR, db)
       else
         let dsize = file_size db - search_tree_size - separator in
         if dsize > 2 ^ 32 - 1 \<or> dsize \<le> 0 then Some (MMDB_INVALID_METADATA_ERROR, db)
         else
           let db = db\<lparr>data_section_size := word_of_int dsize\<rparr> in
           if data_section_size db < 3 then Some (MMDB_INVALID_DATA_ERROR, db)
           else
             let db = db\<lparr>ipv4_start_node := \<lparr>s_netmask = 0, node_value = 0\<rparr>\<rparr> in
             if ip_version (metadata db) = 6 then find_ipv4_start_node db
             else Some (MMDB_SUCCESS, db))"

definition open_mapped :: "heap \<Rightarrow> machine \<Rightarrow> MMDB_s \<Rightarrow> meta_result" where
  "open_mapped h mach db =
    (case find_metadata (file_content db) (file_size db) of
       None \<Rightarrow> Some (MMDB_INVALID_METADATA_ERROR, db)
     | Some (meta, msize) \<Rightarrow>
         checked (read_metadata h mach (db\<lparr>metadata_section := meta, metadata_section_size := msize\<rparr>))
           open_layout)"

definition MMDB_open ::
  "heap \<Rightarrow> (MMDB_s \<Rightarrow> mmdb_status \<times> MMDB_s) \<Rightarrow> machine \<Rightarrow> bytes \<Rightarrow> u32 \<Rightarrow> MMDB_s \<Rightarrow> meta_result" where
  "MMDB_open h map_file mach fname fl db =
    (let db = db\<lparr>file_content := [], data_section := 0, metadata := (metadata db)\<lparr>database_type := None,
                 languages_count := 0, languages_names := None, description_count := 0\<rparr>\<rparr> in
     do {
       (status, db) \<leftarrow>
         (case mmdb_strdup (h_malloc h ''filename'' 0) fname of
            None \<Rightarrow> Some (MMDB_OUT_OF_MEMORY_ERROR, db\<lparr>filename := None\<rparr>)
          | Some copy \<Rightarrow>
              let fl = (if fl AND MMDB_MODE_MASK = 0 then fl OR MMDB_MODE_MMAP else fl);
                  db = db\<lparr>filename := Some copy, open_flags := fl\<rparr>
              in checked (Some (map_file db)) (open_mapped h mach));
       if status \<noteq> MMDB_SUCCESS then do { db \<leftarrow> free_mmdb_struct db; Some (status, db) }
       else Some (status, db)
     })"

section \<open>A successful open establishes the layout\<close>

lemma requireE:
  assumes "require c st k db = Some (MMDB_SUCCESS, db')" and "st \<noteq> MMDB_SUCCESS"
  obtains "c (metadata db)" "k db = Some (MMDB_SUCCESS, db')"
  using assms by (auto simp: require_def split: if_splits)

text \<open>The fields outside the metadata that \<open>read_metadata\<close> leaves alone.\<close>

definition same_file :: "MMDB_s \<Rightarrow> MMDB_s \<Rightarrow> bool" where
  "same_file db db' \<longleftrightarrow> file_content db' = file_content db \<and> file_size db' = file_size db \<and>
    metadata_section db' = metadata_section db \<and> metadata_section_size db' = metadata_section_size db"

lemma same_file_trans: "same_file a b \<Longrightarrow> same_file b c \<Longrightarrow> same_file a c"
  by (simp add: same_file_def)

lemma same_file_metadata: "same_file db (db\<lparr>metadata := m\<rparr>)"
  by (simp add: same_file_def)

lemma meta_stepE:
  assumes "meta_step v put k db = Some (MMDB_SUCCESS, db')" and "v \<noteq> Some (Inl MMDB_SUCCESS)"
  obtains x db1 where "metadata db1 = put x (metadata db)" "same_file db db1" "k db1 = Some (MMDB_SUCCESS, db')"
proof -
  obtain x where "k (db\<lparr>metadata := put x (metadata db)\<rparr>) = Some (MMDB_SUCCESS, db')"
    using assms by (auto simp: meta_step_def split: bind_split_asm sum.split_asm)
  then show ?thesis by (rule that [OF _ same_file_metadata, rotated]) simp
qed

lemma checkedE:
  assumes "checked r k = Some (MMDB_SUCCESS, x)"
  obtains y where "r = Some (MMDB_SUCCESS, y)" "k y = Some (MMDB_SUCCESS, x)"
  using assms by (auto simp: checked_Some split: if_splits)

lemma value_for_key_error: "value_for_key ty mach mdb key \<noteq> Some (Inl MMDB_SUCCESS)"
  by (auto simp: value_for_key_def bind_eq_Some_conv split: if_splits)

lemma value_for_key_errors [simp]:
  "value_for_key_as_uint16 mach mdb key \<noteq> Some (Inl MMDB_SUCCESS)"
  "value_for_key_as_uint32 mach mdb key \<noteq> Some (Inl MMDB_SUCCESS)"
  "value_for_key_as_uint64 mach mdb key \<noteq> Some (Inl MMDB_SUCCESS)"
  "value_for_key_as_string malloc mach mdb key \<noteq> Some (Inl MMDB_SUCCESS)"
  using value_for_key_error
  by (auto simp: value_for_key_as_uint16_def value_for_key_as_uint32_def value_for_key_as_uint64_def
    value_for_key_as_string_def map_sum_def bind_eq_Some_conv split: sum.splits)

text \<open>What the checks and the layout look at.\<close>

definition core :: "MMDB_s \<Rightarrow> u32 \<times> u16 \<times> u16" where
  "core db = (node_count (metadata db), record_size (metadata db), ip_version (metadata db))"

text \<open>Steps that keep what the layout depends on.\<close>

definition kept :: "MMDB_s \<Rightarrow> MMDB_s \<Rightarrow> bool" where
  "kept db db' \<longleftrightarrow> same_file db db' \<and> core db' = core db"

lemma populate_languages_keeps:
  assumes "populate_languages_metadata h mach db mdb = Some (st, db')"
  shows "kept db db'"
  using assms
  by (auto simp: populate_languages_metadata_def Let_def core_def same_file_def kept_def
    split: bind_split_asm sum.split_asm if_split_asm prod.split_asm)

lemma populate_description_keeps:
  assumes "populate_description_metadata h mach db mdb = Some (st, db')"
  shows "kept db db'"
  using assms
  by (auto simp: populate_description_metadata_def Let_def core_def same_file_def kept_def
    split: bind_split_asm sum.split_asm if_split_asm prod.split_asm)

lemma kept_trans: "kept a b \<Longrightarrow> kept b c \<Longrightarrow> kept a c"
  by (simp add: kept_def same_file_def)

lemma kept_stepE:
  assumes "meta_step v put k db = Some (MMDB_SUCCESS, db')" and "v \<noteq> Some (Inl MMDB_SUCCESS)"
    and "\<And>x m. core (db\<lparr>metadata := put x m\<rparr>) = core (db\<lparr>metadata := m\<rparr>)"
  obtains db1 where "kept db db1" "k db1 = Some (MMDB_SUCCESS, db')"
proof -
  obtain x db1 where s: "metadata db1 = put x (metadata db)" "same_file db db1" "k db1 = Some (MMDB_SUCCESS, db')"
    using meta_stepE [OF assms(1,2)] by blast
  have "core db1 = core db" using s(1) assms(3) [of x "metadata db"] by (simp add: core_def)
  then show ?thesis using s that by (simp add: kept_def)
qed

lemma read_rest_success:
  assumes "read_metadata_rest h mach mdb db = Some (MMDB_SUCCESS, db')"
  obtains d where "kept db d" "read_sizes d = Some (MMDB_SUCCESS, db')"
  using assms unfolding read_metadata_rest_def
  by (elim kept_stepE requireE checkedE)
    (use populate_languages_keeps populate_description_keeps kept_trans in
      \<open>simp_all add: core_def flip: kept_def\<close>, meson)

text \<open>What \<open>read_metadata\<close> does not change, and what it has checked when it succeeds.\<close>

definition meta_checked :: "MMDB_s \<Rightarrow> MMDB_s \<Rightarrow> bool" where
  "meta_checked db db' \<longleftrightarrow> same_file db db' \<and>
    node_count (metadata db') \<noteq> 0 \<and> full_record_byte_size db' \<in> {6, 7, 8} \<and>
    (ip_version (metadata db') = 4 \<and> depth db' = 32 \<or> ip_version (metadata db') = 6 \<and> depth db' = 128)"

lemma read_metadata_success:
  assumes "read_metadata h mach db = Some (MMDB_SUCCESS, db')"
  shows "meta_checked db db'"
  using assms unfolding read_metadata_def Let_def
  by (elim meta_stepE requireE read_rest_success; (simp; fail)?)
    (auto simp: meta_checked_def kept_def core_def same_file_def read_sizes_def)

lemma ipv4_start_keeps:
  assumes "find_ipv4_start_node db = Some (st, db')"
  shows "\<exists>s. db' = db\<lparr>ipv4_start_node := s\<rparr>"
proof -
  have "\<exists>s. db = db\<lparr>ipv4_start_node := s\<rparr>" by (intro exI [of _ "ipv4_start_node db"]) simp
  then show ?thesis using assms
    by (auto simp: find_ipv4_start_node_def Let_def split: if_split_asm bind_split_asm sum.split_asm prod.split_asm)
qed

lemma open_layout_success:
  assumes ok: "meta_checked db0 db" and whole: "file_size db \<le> int (length (file_content db))"
    and "open_layout db = Some (MMDB_SUCCESS, db')"
  shows "db_ok db' \<and> tree_ok db' \<and>
    (ip_version (metadata db') = 4 \<and> depth db' = 32 \<or> ip_version (metadata db') = 6 \<and> depth db' = 128)"
proof -
  let ?tree = "uint (node_count (metadata db)) * uint (full_record_byte_size db)"
  define dsize where "dsize = file_size db - ?tree - 16"
  define d where "d = db\<lparr>data_section := nat (?tree + 16), data_section_size := word_of_int dsize,
    ipv4_start_node := \<lparr>s_netmask = 0, node_value = 0\<rparr>\<rparr>"
  have fits: "16 \<le> file_size db" "?tree \<le> file_size db - 16" "dsize \<le> 2 ^ 32 - 1" "0 < dsize"
    "\<not> (word_of_int dsize :: u32) < 3"
    and fin: "(if ip_version (metadata db) = 6 then find_ipv4_start_node d else Some (MMDB_SUCCESS, d)) =
      Some (MMDB_SUCCESS, db')"
    using assms(3) unfolding open_layout_def Let_def MMDB_DATA_SECTION_SEPARATOR_def d_def dsize_def
    by (auto split: if_split_asm)
  obtain s where db': "db' = d\<lparr>ipv4_start_node := s\<rparr>"
    using fin ipv4_start_keeps [of d] by (cases "ip_version (metadata db) = 6") (auto simp: d_def)
  have dsz: "unat (word_of_int dsize :: u32) = nat dsize"
    using fits by (intro unat_of_int_u32) simp_all
  have "3 \<le> nat dsize" using fits(5) unfolding word_less_nat_alt dsz by simp
  moreover have room: "nat (?tree + 16) + nat dsize \<le> length (file_content db)"
  proof -
    have "0 \<le> ?tree" by simp
    then show ?thesis using fits whole unfolding dsize_def by linarith
  qed
  ultimately have "db_ok db'"
    using dsz by (simp add: db_ok_def db' d_def)
  moreover have "tree_ok db'"
  proof -
    have "nat (?tree + 16) = nodes db * reclen db + 16" by (simp add: nat_add_distrib nat_mult_distrib)
    then show ?thesis using ok room
      by (simp add: tree_ok_def db' d_def meta_checked_def MMDB_DATA_SECTION_SEPARATOR_def)
  qed
  ultimately show ?thesis using ok by (auto simp: db' d_def meta_checked_def)
qed

text \<open>
  What \<open>MMDB_open\<close> needs of \<open>map_file\<close>: the reported size is not more than what is mapped.
\<close>

definition maps_whole :: "(MMDB_s \<Rightarrow> mmdb_status \<times> MMDB_s) \<Rightarrow> bool" where
  "maps_whole map_file \<longleftrightarrow>
    (\<forall>db db'. map_file db = (MMDB_SUCCESS, db') \<longrightarrow> file_size db' \<le> int (length (file_content db')))"

lemma maps_whole_posix:
  assumes "\<And>sz content. m_fstat io = Some sz \<Longrightarrow> m_mmap io = Inr content \<Longrightarrow> int (length content) = sz"
  shows "maps_whole (map_file_posix io)"
  using assms by (auto simp: maps_whole_def map_file_posix_def split: if_split_asm option.split_asm sum.split_asm)

lemma maps_whole_win:
  assumes "\<And>content. w_view io = Some content \<Longrightarrow> uint (w_size io) \<le> int (length content)"
  shows "maps_whole (map_file_win io)"
  using assms by (auto simp: maps_whole_def map_file_win_def split: if_split_asm option.split_asm)

lemma open_establishes:
  assumes "maps_whole map_file" and "MMDB_open h map_file mach fname fl db0 = Some (MMDB_SUCCESS, db)"
  shows "db_ok db \<and> tree_ok db \<and>
    (ip_version (metadata db) = 4 \<and> depth db = 32 \<or> ip_version (metadata db) = 6 \<and> depth db = 128)"
proof -
  obtain d0 d1 where map: "map_file d0 = (MMDB_SUCCESS, d1)" and op: "open_mapped h mach d1 = Some (MMDB_SUCCESS, db)"
    using assms(2)
    by (auto simp: MMDB_open_def Let_def checked_def split: bind_split_asm option.split_asm if_split_asm prod.split_asm)
  have whole: "file_size d1 \<le> int (length (file_content d1))" using assms(1) map unfolding maps_whole_def by blast
  obtain d2 d3 where rd: "read_metadata h mach d2 = Some (MMDB_SUCCESS, d3)" "open_layout d3 = Some (MMDB_SUCCESS, db)"
    and same: "file_size d2 = file_size d1" "file_content d2 = file_content d1"
    using op unfolding open_mapped_def by (auto split: option.split_asm elim!: checkedE)
  have "meta_checked d2 d3" by (rule read_metadata_success [OF rd(1)])
  moreover have "file_size d3 \<le> int (length (file_content d3))"
    using calculation whole same by (simp add: meta_checked_def same_file_def)
  ultimately show ?thesis using open_layout_success rd(2) by blast
qed

text \<open>
  C36: a successful \<open>MMDB_open\<close> establishes, for any file content, what every later operation
  relies on: the search tree, the separator and a data section of at least three bytes lie in the
  mapped file, the records have a known size, and the depth fits the IP version.
\<close>

theorem MMDB_open_establishes:
  assumes "maps_whole map_file" and "MMDB_open h map_file mach fname fl db0 = Some (MMDB_SUCCESS, db)"
  shows "db_ok db \<and> tree_ok db \<and>
    (ip_version (metadata db) = 4 \<and> depth db = 32 \<or> ip_version (metadata db) = 6 \<and> depth db = 128)"
  by (rule open_establishes [OF assms])

section \<open>Where the metadata starts\<close>

declare marker_loop.simps [simp del]

lemma occurs_at_drop: "k \<le> length l \<Longrightarrow> occurs_at (drop k l) m i \<longleftrightarrow> occurs_at l m (k + i)"
  by (auto simp: occurs_at_def add.commute)

lemma marker_loop_last:
  assumes "marker_loop area pos = (p, rest)"
  shows "pos \<le> p \<and> p - pos \<le> length area \<and> rest = drop (p - pos) area \<and>
    (\<forall>i. \<not> occurs_at rest METADATA_MARKER i) \<and>
    (p = pos \<or> 14 \<le> p - pos \<and> occurs_at area METADATA_MARKER (p - pos - 14))"
  using assms
proof (induction area pos arbitrary: p rest rule: marker_loop.induct)
  case (1 area pos)
  show ?case
  proof (cases "mmdb_memmem area METADATA_MARKER")
    case None
    then show ?thesis using 1(2) mmdb_memmem_occurs [of METADATA_MARKER area]
      by (simp add: marker_loop.simps)
  next
    case (Some i)
    let ?n = "i + 14"
    have occ: "occurs_at area METADATA_MARKER i" "?n \<le> length area"
      using mmdb_memmem_occurs [of METADATA_MARKER area] Some memmem_marker_fits [OF Some] by simp_all
    have "marker_loop (drop ?n area) (pos + ?n) = (p, rest)"
      using 1(2) Some by (subst (asm) marker_loop.simps) (simp add: add.assoc)
    then have IH: "pos + ?n \<le> p \<and> p - (pos + ?n) \<le> length (drop ?n area) \<and>
        rest = drop (p - (pos + ?n)) (drop ?n area) \<and> (\<forall>j. \<not> occurs_at rest METADATA_MARKER j) \<and>
        (p = pos + ?n \<or> 14 \<le> p - (pos + ?n) \<and> occurs_at (drop ?n area) METADATA_MARKER (p - (pos + ?n) - 14))"
      using 1(1) [OF Some, of p rest] by (simp only: length_marker add.assoc) simp
    note ih = IH [THEN conjunct1] IH [THEN conjunct2, THEN conjunct1]
      IH [THEN conjunct2, THEN conjunct2, THEN conjunct1]
      IH [THEN conjunct2, THEN conjunct2, THEN conjunct2, THEN conjunct1]
      IH [THEN conjunct2, THEN conjunct2, THEN conjunct2, THEN conjunct2]
    have "occurs_at area METADATA_MARKER (p - pos - 14)"
    proof (cases "p = pos + ?n")
      case True
      then show ?thesis using occ(1) by simp
    next
      case False
      have "p - pos - 14 = ?n + (p - (pos + ?n) - 14)" using ih(1,5) False by linarith
      then show ?thesis using ih(5) False occurs_at_drop [OF occ(2)] by simp
    qed
    then show ?thesis using ih occ(2) by auto
  qed
qed

text \<open>
  the metadata is what follows the last marker of the file: the block found starts right
  behind a marker, extends to the end of the file, has no marker inside it and is at most 128
  kilobytes long; nothing is found exactly when the last 128 kilobytes have no marker.
\<close>

theorem find_metadata_correct:
  "case find_metadata content (int (length content)) of
     Some (p, n) \<Rightarrow> 14 \<le> p \<and> occurs_at content METADATA_MARKER (p - 14) \<and> p + unat n = length content \<and>
       (\<forall>i \<ge> p. \<not> occurs_at content METADATA_MARKER i) \<and> unat n < 131072
   | None \<Rightarrow> \<forall>i \<ge> length content - 131072. \<not> occurs_at content METADATA_MARKER i"
proof -
  define start where "start = length content - 131072"
  obtain p rest where loop: "marker_loop (drop start content) start = (p, rest)" by fastforce
  note l = marker_loop_last [OF loop]
  have rest: "rest = drop p content" using l by (simp add: start_def)
  have le: "start \<le> length content" "p \<le> length content" using l by (auto simp: start_def)
  have none: "\<not> occurs_at content METADATA_MARKER i" if "p \<le> i" for i
  proof -
    have "\<not> occurs_at (drop p content) METADATA_MARKER (i - p)" using l rest by metis
    then show ?thesis using occurs_at_drop [OF le(2)] that by simp
  qed
  have area: "subl content start (length content) = drop start content" by (simp add: subl_def)
  have st: "nat (int (length content) - (if int (length content) > METADATA_BLOCK_MAX_SIZE
      then METADATA_BLOCK_MAX_SIZE else int (length content))) = start"
    by (auto simp: METADATA_BLOCK_MAX_SIZE_def start_def)
  have fm: "find_metadata content (int (length content)) =
      (if p = start then None else Some (p, of_nat (length rest)))"
    using loop area st by (simp add: find_metadata_def Let_def METADATA_BLOCK_MAX_SIZE_def)
  show ?thesis
  proof (cases "p = start")
    case True
    then show ?thesis using fm none by (simp add: start_def)
  next
    case False
    then have at: "14 \<le> p - start" "occurs_at content METADATA_MARKER (p - 14)"
      using l occurs_at_drop [OF le(1), of METADATA_MARKER "p - start - 14"] by (auto simp: start_def)
    have small: "length rest < 131072" using at(1) le(2) rest by (auto simp: start_def)
    then have "unat (of_nat (length rest) :: u32) = length rest" by (intro unat_of_nat_u32) simp
    then show ?thesis using fm False none at small rest le(2) by auto
  qed
qed

subsection \<open>Instances\<close>

text \<open>A complete file: a tree of one node, one string and the metadata.\<close>

definition pair_of :: "string \<Rightarrow> bytes \<Rightarrow> bytes" where
  "pair_of key v = header MMDB_DATA_TYPE_UTF8_STRING (length key) @ cstr key @ v"

definition sample_metadata :: bytes where
  "sample_metadata = [0xe9] @ pair_of ''node_count'' [0xc1, 1] @ pair_of ''record_size'' [0xa1, 24] @
     pair_of ''ip_version'' [0xa1, 4] @ pair_of ''database_type'' [0x41, 84] @
     pair_of ''languages'' [0x01, 4, 0x42, 101, 110] @
     pair_of ''binary_format_major_version'' [0xa1, 2] @ pair_of ''binary_format_minor_version'' [0xa0] @
     pair_of ''build_epoch'' [0x01, 2, 1] @ pair_of ''description'' [0xe1, 0x42, 101, 110, 0x41, 84]"

definition sample_file :: bytes where
  "sample_file = [0, 0, 1, 0, 0, 17] @ replicate 16 0 @ [0x42, 100, 101] @ METADATA_MARKER @ sample_metadata"

definition no_db :: MMDB_s where
  "no_db = blank_db []"

definition good_heap :: heap where
  "good_heap = \<lparr>h_malloc = (\<lambda>_ _ _. True), h_calloc = (\<lambda>_ _ _. True)\<rparr>"

definition sample_map :: posix_map where
  "sample_map = \<lparr>m_fd = 3, m_fstat = Some (int (length sample_file)), m_mmap = Inr sample_file\<rparr>"

definition sample_open :: meta_result where
  "sample_open = MMDB_open good_heap (map_file_posix sample_map) windows (cstr ''x'') 1 no_db"

lemma sample_open_success: "map_option fst sample_open = Some MMDB_SUCCESS"
  by code_simp

theorem MMDB_open_establishes_witness:
  "\<exists>db. MMDB_open good_heap (map_file_posix sample_map) windows (cstr ''x'') 1 no_db = Some (MMDB_SUCCESS, db) \<and>
    db_ok db \<and> tree_ok db"
proof -
  obtain db where db: "MMDB_open good_heap (map_file_posix sample_map) windows (cstr ''x'') 1 no_db = Some (MMDB_SUCCESS, db)"
    using sample_open_success by (auto simp: sample_open_def)
  have "maps_whole (map_file_posix sample_map)" by (rule maps_whole_posix) (auto simp: sample_map_def)
  from MMDB_open_establishes [OF this db] show ?thesis using db by blast
qed

theorem find_metadata_witness:
  "case find_metadata (METADATA_MARKER @ [224]) (int (length (METADATA_MARKER @ [224]))) of
     Some (p, n) \<Rightarrow> p + unat n = 15 | None \<Rightarrow> \<forall>i. \<not> occurs_at (METADATA_MARKER @ [224]) METADATA_MARKER i"
  using find_metadata_correct [of "METADATA_MARKER @ [224]"] by (auto split: option.splits)

text \<open>
  A file that ends with the marker: the section has no bytes, the bounds check of
  \<open>decode_one\<close> subtracts from zero, and the byte behind the mapped file is read.
\<close>

lemma empty_metadata_reads_outside:
  "MMDB_open good_heap (map_file_posix \<lparr>m_fd = 3, m_fstat = Some 14, m_mmap = Inr METADATA_MARKER\<rparr>)
     windows (cstr ''x'') 1 no_db = None"
  by code_simp

section \<open>The remaining entry points\<close>

text \<open>
  A variable argument list is the list of its strings up to the terminating \<open>NULL\<close>; \<open>calloc\<close>
  says whether the copy of the path can be allocated.
\<close>

definition path_length :: "bytes list \<Rightarrow> u64" where
  "path_length va_path = of_nat (length va_path)"

definition MMDB_vget_value ::
  "(u64 \<Rightarrow> bool) \<Rightarrow> machine \<Rightarrow> MMDB_s \<Rightarrow> u32 \<Rightarrow> MMDB_entry_data_s \<Rightarrow> bytes list \<Rightarrow>
    (mmdb_status \<times> MMDB_entry_data_s) option" where
  "MMDB_vget_value calloc mach db offset ed va_path =
    (let len = path_length va_path in
     if len = SIZE_MAX then Some (MMDB_INVALID_METADATA_ERROR, ed)
     else if \<not> calloc (len + 1) then Some (MMDB_OUT_OF_MEMORY_ERROR, ed)
     else MMDB_aget_value mach db offset va_path)"

definition MMDB_get_value ::
  "(u64 \<Rightarrow> bool) \<Rightarrow> machine \<Rightarrow> MMDB_s \<Rightarrow> u32 \<Rightarrow> MMDB_entry_data_s \<Rightarrow> bytes list \<Rightarrow>
    (mmdb_status \<times> MMDB_entry_data_s) option" where
  "MMDB_get_value calloc mach db offset ed path = MMDB_vget_value calloc mach db offset ed path"

definition MMDB_get_metadata_as_entry_data_list ::
  "(u64 \<Rightarrow> u64 \<Rightarrow> bool) \<Rightarrow> MMDB_s \<Rightarrow> (mmdb_status \<times> (MMDB_data_pool_s \<times> cell_ref) option) option" where
  "MMDB_get_metadata_as_entry_data_list calloc db =
    MMDB_get_entry_data_list calloc (make_fake_metadata_db db) 0"

text \<open>\<open>getaddrinfo\<close> with \<open>AI_NUMERICHOST\<close> is a parameter: an error number or an address.\<close>

definition MMDB_lookup_string ::
  "(bytes \<Rightarrow> int + sockaddr) \<Rightarrow> MMDB_s \<Rightarrow> bytes \<Rightarrow> mmdb_status \<Rightarrow>
    (int \<times> mmdb_status \<times> MMDB_lookup_result_s) option" where
  "MMDB_lookup_string getaddrinfo db ipstr mmdb_error =
    (case getaddrinfo ipstr of
       Inl gai_error \<Rightarrow> Some (gai_error, mmdb_error, no_result)
     | Inr sa \<Rightarrow> do { (status, result) \<leftarrow> MMDB_lookup_sockaddr db sa; Some (0, status, result) })"

definition MMDB_strerror :: "mmdb_status \<Rightarrow> string" where
  "MMDB_strerror error_code =
    (case error_code of
       MMDB_SUCCESS \<Rightarrow> ''Success (not an error)''
     | MMDB_FILE_OPEN_ERROR \<Rightarrow> ''Error opening the specified MaxMind DB file''
     | MMDB_CORRUPT_SEARCH_TREE_ERROR \<Rightarrow> ''The MaxMind DB file's search tree is corrupt''
     | MMDB_INVALID_METADATA_ERROR \<Rightarrow> ''The MaxMind DB file contains invalid metadata''
     | MMDB_IO_ERROR \<Rightarrow> ''An attempt to read data from the MaxMind DB file failed''
     | MMDB_OUT_OF_MEMORY_ERROR \<Rightarrow> ''A memory allocation call failed''
     | MMDB_UNKNOWN_DATABASE_FORMAT_ERROR \<Rightarrow>
         ''The MaxMind DB file is in a format this library can't handle (unknown record size or binary format version)''
     | MMDB_INVALID_DATA_ERROR \<Rightarrow>
         ''The MaxMind DB file's data section contains bad data (unknown data type or corrupt data)''
     | MMDB_INVALID_LOOKUP_PATH_ERROR \<Rightarrow>
         ''The lookup path contained an invalid value (like a negative integer for an array index)''
     | MMDB_LOOKUP_PATH_DOES_NOT_MATCH_DATA_ERROR \<Rightarrow>
         ''The lookup path does not match the data (key that doesn't exist, array index bigger than the array, expected array or map where none exists)''
     | MMDB_INVALID_NODE_NUMBER_ERROR \<Rightarrow>
         ''The MMDB_read_node function was called with a node number that does not exist in the search tree''
     | MMDB_IPV6_LOOKUP_IN_IPV4_DATABASE_ERROR \<Rightarrow>
         ''You attempted to look up an IPv6 address in an IPv4-only database'')"

end
