(* ===== verification/Base32.thy ===== *)
theory Base32
  imports Prelude "HOL-Library.Char_ord"
begin

text \<open>
  Base32 of the client (\<open>client/Base32.cpp\<close>, \<open>client/Base32.h\<close>) and the client identifiers and
  hash values that are written in it (\<open>client/CID.h\<close>, \<open>client/HashValue.h\<close>).

  Texts of the client are \<open>string\<close>s. The encoder walks over the bytes with a bit index, the decoder
  ORs five bits per character into the destination; writes outside the destination are \<open>None\<close>.
  The specification reads bytes and characters as sequences of bits, the most significant first.
\<close>

section \<open>The program\<close>

definition base32Table :: "int list" where
  "base32Table =
     [-1, -1, -1, -1, -1, -1, -1, -1, -1, -1, -1, -1, -1, -1, -1, -1,
      -1, -1, -1, -1, -1, -1, -1, -1, -1, -1, -1, -1, -1, -1, -1, -1,
      -1, -1, -1, -1, -1, -1, -1, -1, -1, -1, -1, -1, -1, -1, -1, -1,
      -1, -1, 26, 27, 28, 29, 30, 31, -1, -1, -1, -1, -1, -1, -1, -1,
      -1, 0, 1, 2, 3, 4, 5, 6, 7, 8, 9, 10, 11, 12, 13, 14,
      15, 16, 17, 18, 19, 20, 21, 22, 23, 24, 25, -1, -1, -1, -1, -1,
      -1, 0, 1, 2, 3, 4, 5, 6, 7, 8, 9, 10, 11, 12, 13, 14,
      15, 16, 17, 18, 19, 20, 21, 22, 23, 24, 25, -1, -1, -1, -1, -1,
      -1, -1, -1, -1, -1, -1, -1, -1, -1, -1, -1, -1, -1, -1, -1, -1,
      -1, -1, -1, -1, -1, -1, -1, -1, -1, -1, -1, -1, -1, -1, -1, -1,
      -1, -1, -1, -1, -1, -1, -1, -1, -1, -1, -1, -1, -1, -1, -1, -1,
      -1, -1, -1, -1, -1, -1, -1, -1, -1, -1, -1, -1, -1, -1, -1, -1,
      -1, -1, -1, -1, -1, -1, -1, -1, -1, -1, -1, -1, -1, -1, -1, -1,
      -1, -1, -1, -1, -1, -1, -1, -1, -1, -1, -1, -1, -1, -1, -1, -1,
      -1, -1, -1, -1, -1, -1, -1, -1, -1, -1, -1, -1, -1, -1, -1, -1,
      -1, -1, -1, -1, -1, -1, -1, -1, -1, -1, -1, -1, -1, -1, -1, -1]"

definition base32Alphabet :: string where
  "base32Alphabet = ''ABCDEFGHIJKLMNOPQRSTUVWXYZ234567''"

text \<open>One turn of the encoder: the five bits, and the next position.\<close>

definition base32_word :: "bytes \<Rightarrow> nat \<Rightarrow> nat \<Rightarrow> u8 \<times> nat \<times> nat" where
  "base32_word src i index =
     (if index > 3 then
        let w = src ! i AND drop_bit index 0xFF;
            index = (index + 5) AND 7;
            w = push_bit index w;
            w = (if i + 1 < length src then w OR drop_bit (8 - index) (src ! (i + 1)) else w)
        in (w, i + 1, index)
      else
        let w = drop_bit (8 - (index + 5)) (src ! i) AND 0x1F;
            index = (index + 5) AND 7
        in (w, if index = 0 then i + 1 else i, index))"

lemma and_7: "(n :: nat) AND 7 = n mod 8"
proof -
  have "(7 :: nat) = mask 3" by (simp add: mask_eq_exp_minus_1)
  then show ?thesis by (simp only: take_bit_eq_mask [symmetric] take_bit_eq_mod) simp
qed

function toBase32_loop :: "bytes \<Rightarrow> nat \<Rightarrow> nat \<Rightarrow> string \<Rightarrow> string" where
  "toBase32_loop src i index dst =
     (if i < length src then
        let (w, i, index) = base32_word src i index
        in toBase32_loop src i index (dst @ [base32Alphabet ! unat w])
      else dst)"
  by pat_completeness auto
termination
proof (relation "measure (\<lambda>(src, i, index, _). (length src - i) * 9 + (8 - index))")
  fix src i index dst x w y i' index'
  assume i: "i < length src" and x: "x = base32_word src i index" "(w, y) = x" "(i', index') = y"
  show "((src, i', index', dst @ [base32Alphabet ! unat w]), src, i, index, dst)
      \<in> measure (\<lambda>(src, i, index, _). (length src - i) * 9 + (8 - index))"
  proof (cases "i' = i")
    case True
    with x have "index \<le> 3" "index' = (index + 5) mod 8" "index' \<noteq> 0"
      by (auto simp: base32_word_def Let_def and_7 split: if_splits)
    then have "index < index'" "index' < 8" by (cases "index = 3"; simp)+
    with True show ?thesis by simp
  next
    case False
    with x have "i' = i + 1" by (auto simp: base32_word_def Let_def split: if_splits)
    with i show ?thesis by simp
  qed
qed simp

declare toBase32_loop.simps [simp del]

definition toBase32 :: "bytes \<Rightarrow> string \<Rightarrow> string" where
  "toBase32 src dst = toBase32_loop src 0 0 dst"

text \<open>One character of the decoder; the Boolean says that the destination is full.\<close>

definition base32_put :: "nat \<Rightarrow> nat \<Rightarrow> bytes \<Rightarrow> u8 \<Rightarrow> (bool \<times> nat \<times> nat \<times> bytes) option" where
  "base32_put index offset dst tmp =
     (if index \<le> 3 then do {
        let index = (index + 5) AND 7;
        if index = 0 then do {
          b \<leftarrow> load dst offset;
          dst \<leftarrow> store dst offset (b OR tmp);
          let offset = offset + 1;
          Some (offset = length dst, index, offset, dst)
        } else do {
          b \<leftarrow> load dst offset;
          dst \<leftarrow> store dst offset (b OR push_bit (8 - index) tmp);
          Some (False, index, offset, dst)
        }
      } else do {
        let index = (index + 5) AND 7;
        b \<leftarrow> load dst offset;
        dst \<leftarrow> store dst offset (b OR drop_bit index tmp);
        let offset = offset + 1;
        if offset = length dst then Some (True, index, offset, dst)
        else do {
          b \<leftarrow> load dst offset;
          dst \<leftarrow> store dst offset (b OR push_bit (8 - index) tmp);
          Some (False, index, offset, dst)
        }
      })"

text \<open>
  The loop up to the terminating zero. \<open>chk\<close> says that the caller passed \<open>errorPtr\<close>; the result is
  the value left there and the destination.
\<close>

fun fromBase32_loop :: "bool \<Rightarrow> string \<Rightarrow> nat \<Rightarrow> nat \<Rightarrow> bytes \<Rightarrow> (bool \<times> bytes) option" where
  "fromBase32_loop chk [] index offset dst = Some (False, dst)"
| "fromBase32_loop chk (c # src) index offset dst =
     (if c = CHR 0x00 then Some (False, dst)
      else let tmp = base32Table ! of_char c in
        if tmp = -1 then (if chk then Some (True, dst) else fromBase32_loop chk src index offset dst)
        else do {
          (stop, index, offset, dst) \<leftarrow> base32_put index offset dst (of_int tmp);
          if stop then Some (False, dst) else fromBase32_loop chk src index offset dst
        })"

definition fromBase32 :: "bool \<Rightarrow> string \<Rightarrow> nat \<Rightarrow> (bool \<times> bytes) option" where
  "fromBase32 chk src len = fromBase32_loop chk src 0 0 (replicate len 0)"

definition isBase32 :: "string \<Rightarrow> bool" where
  "isBase32 src = list_all (\<lambda>c. CHR ''A'' \<le> c \<and> c \<le> CHR ''Z'' \<or> CHR ''2'' \<le> c \<and> c \<le> CHR ''7'')
     (takeWhile (\<lambda>c. c \<noteq> CHR 0x00) src)"

text \<open>
  A client identifier is a union of 24 bytes and of the three 64-bit words they form. Every text is
  cut or padded with zeros to 39 characters before it is decoded; \<open>memcmp\<close> is the sign of the first
  difference.
\<close>

type_synonym CID = bytes

definition CID_SIZE :: nat where
  "CID_SIZE = 192 div 8"

definition CID_init :: CID where
  "CID_init = replicate CID_SIZE 0"

definition resize :: "string \<Rightarrow> nat \<Rightarrow> string" where
  "resize s n = take n s @ replicate (n - length s) (CHR 0x00)"

definition CID_toBase32 :: "CID \<Rightarrow> string \<Rightarrow> string" where
  "CID_toBase32 cid tmp = toBase32 cid tmp"

definition CID_fromBase32 :: "string \<Rightarrow> CID option" where
  "CID_fromBase32 base32 =
     (if length base32 = 39 then map_option snd (fromBase32 False (base32 @ [CHR 0x00]) CID_SIZE)
      else map_option snd (fromBase32 False (resize base32 39 @ [CHR 0x00]) CID_SIZE))"

definition CID_w :: "CID \<Rightarrow> nat \<Rightarrow> u64" where
  "CID_w cid i = word_rcat (rev (take 8 (drop (8 * i) cid)))"

fun CID_isZero_loop :: "CID \<Rightarrow> nat \<Rightarrow> nat \<Rightarrow> bool" where
  "CID_isZero_loop cid i 0 = True"
| "CID_isZero_loop cid i (Suc n) = (if CID_w cid i \<noteq> 0 then False else CID_isZero_loop cid (i + 1) n)"

definition CID_isZero :: "CID \<Rightarrow> bool" where
  "CID_isZero cid = CID_isZero_loop cid 0 (CID_SIZE div 8)"

definition CID_toHash :: "CID \<Rightarrow> u64" where
  "CID_toHash cid = CID_w cid 0"

fun memcmp :: "bytes \<Rightarrow> bytes \<Rightarrow> nat \<Rightarrow> int" where
  "memcmp (x # xs) (y # ys) (Suc n) = (if x = y then memcmp xs ys n else if x < y then -1 else 1)"
| "memcmp xs ys n = 0"

definition CID_eq :: "CID \<Rightarrow> CID \<Rightarrow> bool" where
  "CID_eq x y = (memcmp x y CID_SIZE = 0)"

definition CID_less :: "CID \<Rightarrow> CID \<Rightarrow> bool" where
  "CID_less x y = (memcmp x y CID_SIZE < 0)"

text \<open>A hash value of \<open>BYTES\<close> bytes: of Tiger, 24.\<close>

definition HashValue_fromBase32 :: "nat \<Rightarrow> string \<Rightarrow> bytes option" where
  "HashValue_fromBase32 BYTES base32 = map_option snd (fromBase32 False (base32 @ [CHR 0x00]) BYTES)"

definition HashValue_toBase32 :: "bytes \<Rightarrow> string \<Rightarrow> string" where
  "HashValue_toBase32 data tmp = toBase32 data tmp"

definition HashValue_isZero :: "bytes \<Rightarrow> bool" where
  "HashValue_isZero data = list_all (\<lambda>b. b = 0) data"

section \<open>Bits\<close>

text \<open>Bit \<open>p\<close> of a byte sequence, and of a sequence of five-bit values; the first is the highest.\<close>

definition bitAt :: "bytes \<Rightarrow> nat \<Rightarrow> bool" where
  "bitAt bs p \<longleftrightarrow> p < 8 * length bs \<and> bit (bs ! (p div 8)) (7 - p mod 8)"

definition quintAt :: "u8 list \<Rightarrow> nat \<Rightarrow> bool" where
  "quintAt vs p \<longleftrightarrow> p < 5 * length vs \<and> bit (vs ! (p div 5)) (4 - p mod 5)"

lemma bitAt_byte: "i < length bs \<Longrightarrow> k < 8 \<Longrightarrow> bitAt bs (8 * i + k) = bit (bs ! i) (7 - k)"
  by (simp add: bitAt_def div_add1_eq)

lemma bitAt_eqI:
  assumes "length xs = length ys" "\<And>p. p < 8 * length xs \<Longrightarrow> bitAt xs p = bitAt ys p"
  shows "xs = ys"
proof (rule nth_equalityI [OF assms(1)])
  fix i
  assume i: "i < length xs"
  show "xs ! i = ys ! i"
  proof (rule bit_word_eqI)
    fix n
    assume "n < LENGTH(8)"
    then have n: "n < 8" by simp
    then show "bit (xs ! i) n = bit (ys ! i) n"
      using assms(2) [of "8 * i + (7 - n)"] bitAt_byte [of i xs "7 - n"] bitAt_byte [of i ys "7 - n"] assms(1) i
      by simp
  qed
qed

lemma bitAt_outside: "8 * length bs \<le> p \<Longrightarrow> \<not> bitAt bs p"
  by (simp add: bitAt_def)

text \<open>The five bits from position \<open>p\<close> on.\<close>

lemma index_cases:
  "(index :: nat) < 8 \<Longrightarrow> index = 0 \<or> index = 1 \<or> index = 2 \<or> index = 3 \<or> index = 4 \<or> index = 5 \<or> index = 6 \<or> index = 7"
  by linarith

lemma bit_0xFF: "bit (0xFF :: u8) n \<longleftrightarrow> n < 8"
proof -
  have "(0xFF :: u8) = mask 8" by (simp add: mask_eq_exp_minus_1)
  then show ?thesis by (simp only: bit_mask_iff) simp
qed

lemma bit_0x1F: "bit (0x1F :: u8) n \<longleftrightarrow> n < 5"
proof -
  have "(0x1F :: u8) = mask 5" by (simp add: mask_eq_exp_minus_1)
  then show ?thesis by (simp only: bit_mask_iff) auto
qed

lemma base32_word_next:
  assumes "index < 8" "base32_word src i index = (w, i', index')"
  shows "8 * i' + index' = 8 * i + index + 5" "index' < 8"
  using assms index_cases [OF assms(1)]
  by (auto simp: base32_word_def Let_def and_7 split: if_splits)

lemma base32_word_bits:
  assumes i: "i < length src" and "index < 8" "base32_word src i index = (w, i', index')"
  shows "bit w r \<longleftrightarrow> r < 5 \<and> bitAt src (8 * i + index + (4 - r))"
proof (cases "index > 3")
  case True
  define k where "k = index - 3"
  have k: "k < 8" "(index + 5) AND 7 = k" "index = k + 3" "1 \<le> k" "k \<le> 4"
    using True assms(2) by (simp_all add: k_def and_7 mod_if)
  have w: "bit w r \<longleftrightarrow> k \<le> r \<and> r < 5 \<and> bit (src ! i) (r - k) \<or>
      i + 1 < length src \<and> bit (src ! (i + 1)) (8 - k + r)"
  proof -
    have "bit (push_bit k (src ! i AND drop_bit index 0xFF)) r \<longleftrightarrow> k \<le> r \<and> r < 5 \<and> bit (src ! i) (r - k)"
      unfolding bit_push_bit_iff bit_and_iff bit_drop_bit_eq comp_apply bit_0xFF using k by auto
    moreover have "w = (if i + 1 < length src
        then push_bit k (src ! i AND drop_bit index 0xFF) OR drop_bit (8 - k) (src ! (i + 1))
        else push_bit k (src ! i AND drop_bit index 0xFF))"
      using arg_cong [OF assms(3), of fst] unfolding base32_word_def if_P [OF True] Let_def k(2) by (simp only: fst_conv)
    ultimately show ?thesis by (simp add: bit_or_iff bit_drop_bit_eq)
  qed
  show ?thesis
  proof (cases "k \<le> r")
    case ge: True
    then have "\<not> bit (src ! (i + 1)) (8 - k + r)" using k by (auto dest: bit_imp_le_length)
    moreover have "bitAt src (8 * i + index + (4 - r)) = bit (src ! i) (r - k)" if "r < 5"
      using bitAt_byte [OF i, of "index + (4 - r)"] that ge k by (simp add: add.assoc)
    ultimately show ?thesis using w ge by auto
  next
    case lt: False
    define c where "c = k - 1 - r"
    have c: "k = r + 1 + c" using lt by (simp add: c_def)
    have r: "8 * i + index + (4 - r) = 8 * (i + 1) + c" "r < 5" "7 - c = 8 - k + r" "c < 8"
      using c k(3-5) by simp_all
    have "bitAt src (8 * i + index + (4 - r)) \<longleftrightarrow> i + 1 < length src \<and> bit (src ! (i + 1)) (8 - k + r)"
    proof (cases "i + 1 < length src")
      case True
      then show ?thesis unfolding r(1) using bitAt_byte [of "i + 1" src c] r by simp
    next
      case False
      then show ?thesis unfolding r(1) by (simp add: bitAt_outside)
    qed
    then show ?thesis using w lt r(2) by auto
  qed
next
  case False
  then have "bit w r \<longleftrightarrow> r < 5 \<and> bit (src ! i) (3 - index + r)"
  proof -
    have "w = drop_bit (3 - index) (src ! i) AND 0x1F"
      using assms(3) False by (simp add: base32_word_def Let_def)
    then show ?thesis by (simp only: bit_and_iff bit_drop_bit_eq comp_apply bit_0x1F) auto
  qed
  moreover have "bitAt src (8 * i + index + (4 - r)) = bit (src ! i) (3 - index + r)" if "r < 5"
    using bitAt_byte [OF i, of "index + (4 - r)"] that False by (simp add: add.assoc)
  ultimately show ?thesis by auto
qed

section \<open>Encoding\<close>

text \<open>
  The specification of the encoder: the letters of the successive groups of five bits, zeros
  behind the last byte.
\<close>

definition quint :: "bytes \<Rightarrow> nat \<Rightarrow> u8" where
  "quint src p = fold (\<lambda>r w. if bitAt src (p + (4 - r)) then set_bit r w else w) [0, 1, 2, 3, 4] 0"

lemma bit_fold_set_bit:
  "bit (fold (\<lambda>r w. if P r then set_bit r w else w) rs (w :: u8)) n \<longleftrightarrow> bit w n \<or> n \<in> set rs \<and> n < 8 \<and> P n"
  by (induction rs arbitrary: w) (auto simp: bit_set_bit_iff)

lemma bit_quint: "bit (quint src p) r \<longleftrightarrow> r < 5 \<and> bitAt src (p + (4 - r))"
proof -
  have "r < 5 \<longleftrightarrow> r \<in> set [0, 1, 2, 3, 4]" by auto
  then show ?thesis by (simp only: quint_def bit_fold_set_bit) auto
qed

function encode :: "bytes \<Rightarrow> nat \<Rightarrow> u8 list" where
  "encode src p = (if p < 8 * length src then quint src p # encode src (p + 5) else [])"
  by pat_completeness auto
termination
  by (relation "measure (\<lambda>(src, p). 8 * length src - p)") auto

declare encode.simps [simp del]

lemma toBase32_loop_encode:
  "index < 8 \<Longrightarrow> toBase32_loop src i index dst =
    dst @ map (\<lambda>w. base32Alphabet ! unat w) (encode src (8 * i + index))"
proof (induction src i index dst rule: toBase32_loop.induct)
  case (1 src i index dst)
  show ?case
  proof (cases "i < length src")
    case True
    obtain w i' index' where w: "base32_word src i index = (w, i', index')" by (metis prod_cases3)
    have "w = quint src (8 * i + index)"
      by (rule bit_eqI) (simp add: base32_word_bits [OF True 1(2) w] bit_quint)
    moreover have "8 * i + index < 8 * length src" using True 1(2) by linarith
    ultimately show ?thesis
      using 1(1) [OF True w [symmetric] refl refl] base32_word_next [OF 1(2) w] True w
      by (subst toBase32_loop.simps) (simp add: encode.simps [of src "8 * i + index"])
  next
    case False
    then show ?thesis by (subst toBase32_loop.simps) (simp add: encode.simps)
  qed
qed

lemma toBase32_encode: "toBase32 src dst = dst @ map (\<lambda>w. base32Alphabet ! unat w) (encode src 0)"
  by (simp add: toBase32_def toBase32_loop_encode)

lemma length_encode: "length (encode src p) = (8 * length src - p + 4) div 5"
proof (induction src p rule: encode.induct)
  case (1 src p)
  show ?case
  proof (cases "p < 8 * length src")
    case True
    define n where "n = 8 * length src - p"
    have "(n + 4) div 5 = Suc ((n - 5 + 4) div 5)"
    proof (cases "n \<le> 5")
      case True
      moreover have "(n + 4) div 5 = 1" using True \<open>p < 8 * length src\<close> by (intro div_nat_eqI) (auto simp: n_def)
      ultimately show ?thesis by simp
    next
      case False
      then have "n + 4 = (n - 5 + 4) + 5" by simp
      then show ?thesis by (metis div_add_self2 Suc_eq_plus1 zero_neq_numeral)
    qed
    then have "(8 * length src - p + 4) div 5 = Suc ((8 * length src - (p + 5) + 4) div 5)" by (simp add: n_def)
    with 1 True show ?thesis by (simp add: encode.simps [of src p])
  qed (simp add: encode.simps)
qed

lemma encode_nth: "k < length (encode src p) \<Longrightarrow> encode src p ! k = quint src (p + 5 * k)"
proof (induction src p arbitrary: k rule: encode.induct)
  case (1 src p)
  then show ?case by (cases k; cases "p < 8 * length src") (auto simp: encode.simps [of src p] add.assoc)
qed

lemma quintAt_encode:
  assumes "p < 8 * length src"
  shows "quintAt (encode src 0) p = bitAt src p"
proof -
  have "p div 5 < length (encode src 0)" using assms by (simp add: length_encode)
  moreover from this have "p < 5 * length (encode src 0)" by linarith
  moreover have "4 - (4 - p mod 5) = p mod 5" "4 - p mod 5 < 5"
    using mod_less_divisor [of 5 p] by linarith+
  ultimately show ?thesis
    by (simp add: quintAt_def encode_nth bit_quint)
qed

section \<open>Decoding\<close>

lemma bitAt_update_or:
  "bitAt (bs[j := bs ! j OR w]) p \<longleftrightarrow>
     bitAt bs p \<or> j < length bs \<and> p div 8 = j \<and> bit w (7 - p mod 8)"
proof (cases "p < 8 * length bs")
  case True
  then have "p div 8 < length bs" by linarith
  with True show ?thesis
    by (cases "j = p div 8") (auto simp: bitAt_def bit_or_iff)
next
  case False
  then have "\<not> p div 8 < length bs" by linarith
  with False show ?thesis by (auto simp: bitAt_def)
qed

lemma div_mod_8: "(p :: nat) div 8 = j \<longleftrightarrow> 8 * j \<le> p \<and> p < 8 * j + 8"
  by linarith

text \<open>One character appends its five bits at the current position, and stops at the end.\<close>

lemma base32_put_bits:
  assumes "index < 8" "offset < length dst" and tmp: "\<And>r. bit tmp r \<Longrightarrow> r < 5"
  obtains index' offset' dst' where
    "base32_put index offset dst tmp = Some (8 * length dst \<le> 8 * offset + index + 5, index', offset', dst')"
    "8 * offset' + index' = 8 * offset + index + 5" "index' < 8" "length dst' = length dst"
    "\<And>p. bitAt dst' p \<longleftrightarrow> bitAt dst p \<or> 8 * offset + index \<le> p \<and> p < 8 * offset + index + 5 \<and>
       p < 8 * length dst \<and> bit tmp (4 - (p - (8 * offset + index)))"
proof (cases "index \<le> 3")
  case True
  define w where "w = push_bit (3 - index) tmp"
  define dst' where "dst' = dst[offset := dst ! offset OR w]"
  have put: "base32_put index offset dst tmp =
      Some (8 * length dst \<le> 8 * offset + index + 5, (index + 5) mod 8, if index = 3 then offset + 1 else offset, dst')"
    using True assms(2) unfolding dst'_def w_def
    by (cases "index = 3") (auto simp: base32_put_def and_7 mem_simps)
  have "bitAt dst' p \<longleftrightarrow> bitAt dst p \<or> 8 * offset + index \<le> p \<and> p < 8 * offset + index + 5 \<and>
       p < 8 * length dst \<and> bit tmp (4 - (p - (8 * offset + index)))" for p
  proof -
    have "p div 8 = offset \<and> bit w (7 - p mod 8) \<longleftrightarrow> 8 * offset + index \<le> p \<and> p < 8 * offset + index + 5 \<and>
       p < 8 * length dst \<and> bit tmp (4 - (p - (8 * offset + index)))"
    proof (cases "p div 8 = offset")
      case div: True
      define k where "k = p mod 8"
      have p: "p = 8 * offset + k" "k < 8" using div by (auto simp: k_def)
      have "bit w (7 - k) \<longleftrightarrow> 3 - index \<le> 7 - k \<and> bit tmp (7 - k - (3 - index))"
        by (auto simp: w_def bit_push_bit_iff)
      also have "\<dots> \<longleftrightarrow> index \<le> k \<and> k < index + 5 \<and> bit tmp (4 - (k - index))"
      proof (cases "index \<le> k \<and> k < index + 5")
        case True
        then have "7 - k - (3 - index) = 4 - (k - index)" "3 - index \<le> 7 - k" using \<open>index \<le> 3\<close> p(2) by linarith+
        with True show ?thesis by simp
      next
        case False
        then have "3 - index \<le> 7 - k \<Longrightarrow> \<not> 7 - k - (3 - index) < 5" using \<open>index \<le> 3\<close> p(2) by linarith
        with False tmp show ?thesis by blast
      qed
      finally show ?thesis unfolding k_def [symmetric] using div p assms(2) by auto
    next
      case False
      then show ?thesis using True by (auto simp: div_mod_8)
    qed
    with assms(2) show ?thesis by (simp add: dst'_def bitAt_update_or)
  qed
  moreover have "8 * (if index = 3 then offset + 1 else offset) + (index + 5) mod 8 = 8 * offset + index + 5"
    using True by simp
  moreover have "(index + 5) mod 8 < 8" "length dst' = length dst" by (simp_all add: dst'_def)
  ultimately show thesis by (intro that [OF put])
next
  case False
  define k where "k = index - 3"
  have k: "(index + 5) AND 7 = k" "index = k + 3" "1 \<le> k" "k \<le> 4"
    using False assms(1) by (simp_all add: k_def and_7 mod_if)
  define dst1 where "dst1 = dst[offset := dst ! offset OR drop_bit k tmp]"
  define dst' where "dst' = (if offset + 1 = length dst then dst1
     else dst1[offset + 1 := dst1 ! (offset + 1) OR push_bit (8 - k) tmp])"
  have put: "base32_put index offset dst tmp =
      Some (8 * length dst \<le> 8 * offset + index + 5, k, offset + 1, dst')"
    using assms(2) k(2-4) unfolding dst'_def dst1_def base32_put_def if_not_P [OF False] k(1)
    by (auto simp: mem_simps)
  have "bitAt dst' p \<longleftrightarrow> bitAt dst p \<or> 8 * offset + index \<le> p \<and> p < 8 * offset + index + 5 \<and>
       p < 8 * length dst \<and> bit tmp (4 - (p - (8 * offset + index)))" for p
  proof -
    have lo: "p div 8 = offset \<and> bit (drop_bit k tmp) (7 - p mod 8) \<longleftrightarrow>
        8 * offset + index \<le> p \<and> p < 8 * offset + 8 \<and> bit tmp (4 - (p - (8 * offset + index)))"
    proof (cases "p div 8 = offset")
      case div: True
      define c where "c = p mod 8"
      have p: "p = 8 * offset + c" "c < 8" using div by (auto simp: c_def)
      have "k + (7 - c) < 5 \<longleftrightarrow> index \<le> c" "index \<le> c \<Longrightarrow> k + (7 - c) = 4 - (c - index)"
        using p(2) k(2-4) by linarith+
      then have "bit tmp (k + (7 - c)) \<longleftrightarrow> index \<le> c \<and> bit tmp (4 - (c - index))" using tmp by metis
      then show ?thesis unfolding c_def [symmetric] using div p by (auto simp: bit_drop_bit_eq)
    next
      case False
      then show ?thesis using assms(1) by (auto simp: div_mod_8)
    qed
    have hi: "p div 8 = offset + 1 \<and> bit (push_bit (8 - k) tmp) (7 - p mod 8) \<longleftrightarrow>
        8 * offset + 8 \<le> p \<and> p < 8 * offset + index + 5 \<and> bit tmp (4 - (p - (8 * offset + index)))"
    proof (cases "p div 8 = offset + 1")
      case div: True
      define c where "c = p mod 8"
      have p: "p = 8 * (offset + 1) + c" "c < 8" using div div_mult_mod_eq [of p 8] by (simp_all add: c_def)
      have "p - (8 * offset + index) = 5 + c - k" unfolding p(1) k(2) by simp
      then have "8 - k \<le> 7 - c \<longleftrightarrow> c < k" "c < k \<Longrightarrow> 7 - c - (8 - k) = 4 - (p - (8 * offset + index))"
        using p(2) k(3,4) by linarith+
      then have "bit (push_bit (8 - k) tmp) (7 - c) \<longleftrightarrow> c < k \<and> bit tmp (4 - (p - (8 * offset + index)))"
        by (auto simp: bit_push_bit_iff)
      then show ?thesis unfolding c_def [symmetric] using div p k(2) by auto
    next
      case False
      then show ?thesis using k(2-4) by (auto simp: div_mod_8)
    qed
    show ?thesis
    proof (cases "offset + 1 = length dst")
      case True
      have "bitAt dst' p \<longleftrightarrow> bitAt dst p \<or> p div 8 = offset \<and> bit (drop_bit k tmp) (7 - p mod 8)"
        using True by (simp add: dst'_def dst1_def bitAt_update_or)
      then show ?thesis unfolding lo using True k(2-4) by auto
    next
      case False
      have "bitAt dst' p \<longleftrightarrow> (bitAt dst p \<or> p div 8 = offset \<and> bit (drop_bit k tmp) (7 - p mod 8)) \<or>
          p div 8 = offset + 1 \<and> bit (push_bit (8 - k) tmp) (7 - p mod 8)"
        using False assms(2) bitAt_update_or [of dst1 "offset + 1"] bitAt_update_or [of dst offset]
        by (simp add: dst'_def dst1_def)
      then show ?thesis unfolding lo hi using False assms(2) k(2-4) by auto
    qed
  qed
  moreover have "8 * (offset + 1) + k = 8 * offset + index + 5" "k < 8" using k(2-4) by simp_all
  moreover have "length dst' = length dst" by (simp add: dst'_def dst1_def)
  ultimately show thesis by (intro that [OF put])
qed

text \<open>The five-bit values of a text: up to the terminating zero, without foreign characters.\<close>

definition base32_char :: "char \<Rightarrow> bool" where
  "base32_char c \<longleftrightarrow> base32Table ! of_char c \<noteq> -1"

definition base32_values :: "string \<Rightarrow> u8 list" where
  "base32_values src = map (\<lambda>c. of_int (base32Table ! of_char c))
     (filter base32_char (takeWhile (\<lambda>c. c \<noteq> CHR 0x00) src))"

lemma base32Table_range: "list_all (\<lambda>v. -1 \<le> v \<and> v < 32) base32Table"
  by (simp add: base32Table_def)

lemma length_base32Table: "length base32Table = 256"
  by (simp add: base32Table_def)

lemma base32_char_bits:
  assumes "base32_char c" "bit (of_int (base32Table ! of_char c) :: u8) r"
  shows "r < 5"
proof -
  let ?v = "base32Table ! of_char c"
  have v: "0 \<le> ?v" "?v < 2 ^ 5"
    using base32Table_range [unfolded list_all_length, rule_format, of "of_char c"] assms(1)
    by (simp_all add: base32_char_def length_base32Table)
  then have "?v = take_bit 5 ?v" by (simp add: take_bit_int_eq_self)
  with assms(2) show ?thesis by (metis bit_of_int_iff bit_take_bit_iff bit_word.rep_eq)
qed

lemma quintAt_snoc:
  "quintAt (vs @ [t]) p \<longleftrightarrow>
     quintAt vs p \<or> 5 * length vs \<le> p \<and> p < 5 * length vs + 5 \<and> bit t (4 - (p - 5 * length vs))"
proof (cases "p < 5 * length vs")
  case True
  then have "p div 5 < length vs" by linarith
  with True show ?thesis by (simp add: quintAt_def nth_append)
next
  case False
  then obtain c where c: "p = 5 * length vs + c" by (metis le_add_diff_inverse linorder_not_le)
  show ?thesis
  proof (cases "c < 5")
    case True
    with c have "p div 5 = length vs" "p mod 5 = c" by simp_all
    with c True show ?thesis by (simp add: quintAt_def)
  qed (use c in \<open>simp add: quintAt_def\<close>)
qed

lemma quintAt_append: "p < 5 * length vs \<Longrightarrow> quintAt (vs @ ws) p = quintAt vs p"
  by (auto simp: quintAt_def nth_append)

text \<open>
  The decoder never leaves the destination; without an error its bits are those of the values
  read so far and of the rest of the text.
\<close>

lemma fromBase32_loop_bits:
  assumes "index < 8" "offset < length dst" "8 * offset + index = 5 * length vs"
    and "\<And>p. p < 8 * length dst \<Longrightarrow> bitAt dst p = quintAt vs p"
  shows "\<exists>err dst'. fromBase32_loop chk src index offset dst = Some (err, dst') \<and> length dst' = length dst \<and>
    (err \<longrightarrow> chk \<and> (\<exists>c \<in> set (takeWhile (\<lambda>c. c \<noteq> CHR 0x00) src). \<not> base32_char c)) \<and>
    (\<not> err \<longrightarrow> (\<forall>p < 8 * length dst. bitAt dst' p = quintAt (vs @ base32_values src) p))"
  using assms
proof (induction src arbitrary: index offset dst vs)
  case Nil
  then show ?case by (intro exI [of _ False]) (simp add: base32_values_def)
next
  case (Cons c src)
  show ?case
  proof (cases "c = CHR 0x00")
    case True
    with Cons.prems show ?thesis by (intro exI [of _ False]) (simp add: base32_values_def)
  next
    case nz: False
    show ?thesis
    proof (cases "base32_char c")
      case False
      then have "fromBase32_loop chk (c # src) index offset dst =
          (if chk then Some (True, dst) else fromBase32_loop chk src index offset dst)"
        using nz by (simp add: base32_char_def)
      moreover have "base32_values (c # src) = base32_values src" using nz False by (simp add: base32_values_def)
      ultimately show ?thesis using Cons.IH [OF Cons.prems] nz False by auto
    next
      case True
      define t where "t = (of_int (base32Table ! of_char c) :: u8)"
      obtain i' o' dst' where put:
        "base32_put index offset dst t = Some (8 * length dst \<le> 8 * offset + index + 5, i', o', dst')"
        "8 * o' + i' = 8 * offset + index + 5" "i' < 8" "length dst' = length dst"
        "\<And>p. bitAt dst' p \<longleftrightarrow> bitAt dst p \<or> 8 * offset + index \<le> p \<and> p < 8 * offset + index + 5 \<and>
           p < 8 * length dst \<and> bit t (4 - (p - (8 * offset + index)))"
        using base32_put_bits [OF Cons.prems(1,2) base32_char_bits [OF True]] unfolding t_def by metis
      have vals: "base32_values (c # src) = t # base32_values src"
        using nz True by (simp add: base32_values_def t_def)
      have bits: "bitAt dst' p = quintAt (vs @ [t]) p" if "p < 8 * length dst'" for p
        using that put(4) by (simp add: put(5) Cons.prems(3,4) quintAt_snoc)
      have step: "fromBase32_loop chk (c # src) index offset dst =
          (if 8 * length dst \<le> 8 * offset + index + 5 then Some (False, dst')
           else fromBase32_loop chk src i' o' dst')"
        using nz True put(1) by (simp add: base32_char_def t_def)
      show ?thesis
      proof (cases "8 * length dst \<le> 8 * offset + index + 5")
        case True
        have "quintAt (vs @ base32_values (c # src)) p = quintAt (vs @ [t]) p" if "p < 8 * length dst" for p
          using quintAt_append [of p "vs @ [t]" "base32_values src"] that True Cons.prems(3) vals by simp
        with True step put(4) bits show ?thesis by (intro exI [of _ False] exI [of _ dst']) simp
      next
        case False
        have "o' < length dst'" "8 * o' + i' = 5 * length (vs @ [t])"
          using False put(2-4) Cons.prems(3) by auto
        from Cons.IH [OF put(3) this bits] False step put(4) vals nz
        show ?thesis by auto
      qed
    qed
  qed
qed

lemma fromBase32_bits:
  assumes "0 < len"
  obtains err dst where "fromBase32 chk src len = Some (err, dst)" "length dst = len"
    "err \<Longrightarrow> chk \<and> (\<exists>c \<in> set (takeWhile (\<lambda>c. c \<noteq> CHR 0x00) src). \<not> base32_char c)"
    "\<And>p. \<not> err \<Longrightarrow> p < 8 * len \<Longrightarrow> bitAt dst p = quintAt (base32_values src) p"
proof -
  have "bitAt (replicate len 0) p = quintAt [] p" for p
    by (auto simp: bitAt_def quintAt_def nth_replicate)
  with fromBase32_loop_bits [of 0 0 "replicate len 0" "[]" chk src] assms that show thesis
    unfolding fromBase32_def by fastforce
qed

section \<open>Round trip\<close>

lemma base32Alphabet_inverse:
  "list_all (\<lambda>v. base32Table ! of_char (base32Alphabet ! v) = int v \<and> base32Alphabet ! v \<noteq> CHR 0x00) [0..<32]"
  by code_simp

lemma base32Alphabet_values:
  assumes "\<And>v. v \<in> set vs \<Longrightarrow> unat v < 32"
  shows "base32_values (map (\<lambda>w. base32Alphabet ! unat w) vs) = vs"
    and "\<forall>c \<in> set (map (\<lambda>w. base32Alphabet ! unat w) vs). base32_char c \<and> c \<noteq> CHR 0x00"
proof -
  have letter: "base32Table ! of_char (base32Alphabet ! unat v) = int (unat v)" "base32Alphabet ! unat v \<noteq> CHR 0x00"
    if "v \<in> set vs" for v
    using base32Alphabet_inverse assms [OF that] by (auto simp: list_all_iff)
  have "uint v \<noteq> -1" for v :: u8 using uint_ge_0 [of v] by linarith
  then show all: "\<forall>c \<in> set (map (\<lambda>w. base32Alphabet ! unat w) vs). base32_char c \<and> c \<noteq> CHR 0x00"
    using letter by (auto simp: base32_char_def)
  then have "takeWhile (\<lambda>c. c \<noteq> CHR 0x00) (map (\<lambda>w. base32Alphabet ! unat w) vs) = map (\<lambda>w. base32Alphabet ! unat w) vs"
    by (simp add: takeWhile_eq_all_conv)
  moreover have "filter base32_char (map (\<lambda>w. base32Alphabet ! unat w) vs) = map (\<lambda>w. base32Alphabet ! unat w) vs"
    using all by (simp add: filter_id_conv)
  moreover have "map (\<lambda>v. of_int (base32Table ! of_char (base32Alphabet ! unat v))) vs = (vs :: u8 list)"
    using letter by (intro map_idI) simp
  ultimately show "base32_values (map (\<lambda>w. base32Alphabet ! unat w) vs) = vs"
    by (simp only: base32_values_def map_map comp_def)
qed

lemma quint_less: "unat (quint src p) < 32"
proof -
  have "quint src p = take_bit 5 (quint src p)" by (rule bit_eqI) (auto simp: bit_take_bit_iff bit_quint)
  then have "unat (quint src p) = unat (quint src p) mod 2 ^ 5" by (metis unsigned_take_bit_eq take_bit_eq_mod)
  also have "\<dots> < 2 ^ 5" by simp
  finally show ?thesis by simp
qed

lemma encode_less: "v \<in> set (encode src p) \<Longrightarrow> unat v < 32"
  by (auto simp: in_set_conv_nth encode_nth quint_less)

text \<open>The letters of a decoded value are the digits of an RFC 4648 text; all of them are Base32.\<close>

lemma base32Alphabet_isBase32: "list_all (\<lambda>v. isBase32 [base32Alphabet ! v]) [0..<32]"
  by code_simp

lemma base32_letters:
  "list_all (\<lambda>c. CHR ''A'' \<le> c \<and> c \<le> CHR ''Z'' \<or> CHR ''2'' \<le> c \<and> c \<le> CHR ''7'') (toBase32 src '''')"
proof -
  have "isBase32 [base32Alphabet ! unat v] \<and> base32Alphabet ! unat v \<noteq> CHR 0x00" if "v \<in> set (encode src 0)" for v
    using base32Alphabet_isBase32 base32Alphabet_inverse encode_less [OF that] by (auto simp: list_all_iff)
  then show ?thesis by (auto simp: isBase32_def toBase32_encode list_all_iff)
qed

lemma isBase32_toBase32: "isBase32 (toBase32 src '''')"
  using base32_letters [of src] by (auto simp: isBase32_def list_all_iff dest!: set_takeWhileD)

lemma base32_roundtrip_text:
  assumes "src \<noteq> []"
  shows "fromBase32 chk (toBase32 src '''' @ CHR 0x00 # t) (length src) = Some (False, src) \<and>
    isBase32 (toBase32 src '''') \<and> length (toBase32 src '''') = (8 * length src + 4) div 5"
proof -
  let ?txt = "toBase32 src ''''"
  have letters: "?txt = map (\<lambda>w. base32Alphabet ! unat w) (encode src 0)" by (simp add: toBase32_encode)
  note alphabet = base32Alphabet_values [of "encode src 0", OF encode_less [of _ src 0], folded letters]
  have upto: "takeWhile (\<lambda>c. c \<noteq> CHR 0x00) (?txt @ CHR 0x00 # t) = ?txt"
    "takeWhile (\<lambda>c. c \<noteq> CHR 0x00) ?txt = ?txt"
    using alphabet(2) by (simp_all add: takeWhile_tail takeWhile_eq_all_conv)
  then have vals: "base32_values (?txt @ CHR 0x00 # t) = encode src 0"
    using alphabet(1) by (simp only: base32_values_def)
  obtain err dst where dst: "fromBase32 chk (?txt @ CHR 0x00 # t) (length src) = Some (err, dst)" "length dst = length src"
    "err \<Longrightarrow> chk \<and> (\<exists>c \<in> set (takeWhile (\<lambda>c. c \<noteq> CHR 0x00) (?txt @ CHR 0x00 # t)). \<not> base32_char c)"
    "\<And>p. \<not> err \<Longrightarrow> p < 8 * length src \<Longrightarrow> bitAt dst p = quintAt (encode src 0) p"
    using fromBase32_bits [of "length src" chk "?txt @ CHR 0x00 # t"] assms unfolding vals by blast
  have "\<not> err" using dst(3) alphabet(2) unfolding upto by blast
  moreover from this have "dst = src" using dst(2,4) by (intro bitAt_eqI) (simp_all add: quintAt_encode)
  ultimately show ?thesis using dst(1) by (simp add: isBase32_toBase32) (simp add: letters length_encode)
qed

text \<open>
  C12: Encoding then decoding gives back every non-empty byte sequence, with or without error checking and whatever
  follows the terminating zero; the encoder writes only letters of the alphabet, five bits each, rounded up.
\<close>

theorem base32_roundtrip:
  assumes "src \<noteq> []"
  shows "fromBase32 chk (toBase32 src '''' @ CHR 0x00 # t) (length src) = Some (False, src) \<and>
    isBase32 (toBase32 src '''') \<and> length (toBase32 src '''') = (8 * length src + 4) div 5"
  by (rule base32_roundtrip_text [OF assms])

lemma base32_roundtrip_witness:
  "fromBase32 True (toBase32 [0x01, 0xFE, 0x80] '''' @ CHR 0x00 # ''x'') (length [0x01, 0xFE, 0x80 :: u8]) = Some (False, [0x01, 0xFE, 0x80])"
  using base32_roundtrip [of "[0x01, 0xFE, 0x80]" True "''x''"] by blast

section \<open>Client identifiers\<close>

lemma memcmp_0: "length xs = n \<Longrightarrow> length ys = n \<Longrightarrow> memcmp xs ys n = 0 \<longleftrightarrow> xs = ys"
  by (induction xs ys n rule: memcmp.induct) (auto split: if_splits)

lemma memcmp_neg: "memcmp ys xs n = - memcmp xs ys n"
  by (induction xs ys n rule: memcmp.induct) auto

lemma memcmp_trans: "memcmp xs ys n < 0 \<Longrightarrow> memcmp ys zs n < 0 \<Longrightarrow> memcmp xs zs n < 0"
proof (induction xs ys n arbitrary: zs rule: memcmp.induct)
  case (1 x xs y ys n)
  then show ?case by (cases zs) (auto split: if_splits)
qed auto

lemma CID_w_0:
  assumes "8 * i + 8 \<le> length cid"
  shows "CID_w cid i = 0 \<longleftrightarrow> (\<forall>b \<in> set (take 8 (drop (8 * i) cid)). b = 0)"
proof -
  define bs where "bs = take 8 (drop (8 * i) cid)"
  have len: "length bs = 8" using assms by (simp add: bs_def)
  let ?v = "horner_sum uint (2 ^ 8) bs"
  have v: "CID_w cid i = word_of_int ?v" by (simp add: CID_w_def word_rcat_def bs_def)
  have nn: "0 \<le> horner_sum uint (2 ^ 8) xs \<and> horner_sum uint (2 ^ 8) xs < 2 ^ (8 * length xs) \<and>
    (horner_sum uint (2 ^ 8) xs = 0 \<longleftrightarrow> (\<forall>b \<in> set xs. b = 0))" for xs :: bytes
  proof (induction xs)
    case (Cons x xs)
    have "0 \<le> uint x" "uint x < 2 ^ 8" "uint x = 0 \<longleftrightarrow> x = 0" using uint_lt2p [of x] by (simp_all add: uint_0_iff)
    moreover obtain h where h: "h = horner_sum uint (2 ^ 8) xs" by simp
    moreover have "uint x + 2 ^ 8 * h = 0 \<longleftrightarrow> uint x = 0 \<and> h = 0" if "0 \<le> h"
      using that add_nonneg_eq_0_iff [of "uint x" "2 ^ 8 * h"] by simp
    moreover have "uint x + 2 ^ 8 * h < 2 ^ 8 * 2 ^ (8 * length xs)" if "h < 2 ^ (8 * length xs)"
      using that \<open>uint x < 2 ^ 8\<close> by auto
    ultimately show ?case using Cons by (auto simp: power_add)
  qed simp
  have "CID_w cid i = 0 \<longleftrightarrow> ?v mod 2 ^ 64 = 0"
    unfolding v by (simp add: word_of_int_eq_0_iff dvd_eq_mod_eq_0)
  then show ?thesis using nn [of bs] len by (simp add: bs_def [symmetric])
qed

lemma CID_isZero_3: "CID_isZero_loop cid 0 3 \<longleftrightarrow> CID_w cid 0 = 0 \<and> CID_w cid 1 = 0 \<and> CID_w cid 2 = 0"
  by (simp only: eval_nat_numeral CID_isZero_loop.simps) simp

lemma CID_isZero_iff:
  assumes "length cid = CID_SIZE"
  shows "CID_isZero cid \<longleftrightarrow> cid = CID_init"
proof -
  have "CID_isZero cid \<longleftrightarrow> CID_w cid 0 = 0 \<and> CID_w cid 1 = 0 \<and> CID_w cid 2 = 0"
    by (simp add: CID_isZero_def CID_SIZE_def CID_isZero_3)
  also have "\<dots> \<longleftrightarrow> (\<forall>b \<in> set (take 8 cid @ take 8 (drop 8 cid) @ take 8 (drop 16 cid)). b = 0)"
    using assms CID_w_0 [of 0 cid] CID_w_0 [of 1 cid] CID_w_0 [of 2 cid] by (auto simp: CID_SIZE_def)
  also have "take 8 cid @ take 8 (drop 8 cid) @ take 8 (drop 16 cid) = cid"
    using assms take_add [of 8 8 cid] take_add [of 16 8 cid] by (simp add: CID_SIZE_def)
  finally show ?thesis
    using assms by (auto simp: CID_init_def CID_SIZE_def intro: replicate_eqI)
qed

text \<open>
  A client identifier survives its printed form, also when more text follows it; any text gives an
  identifier. The zero test on the words agrees with the bytes, and the comparisons are equality and a strict
  total order of the identifiers.
\<close>

theorem CID_correct:
  assumes "length x = CID_SIZE" "length y = CID_SIZE" "length z = CID_SIZE"
  shows "length (CID_toBase32 x '''') = 39 \<and> CID_fromBase32 (CID_toBase32 x '''' @ t) = Some x \<and>
    (\<exists>cid. CID_fromBase32 s = Some cid \<and> length cid = CID_SIZE) \<and>
    (CID_isZero x \<longleftrightarrow> x = CID_init) \<and> (CID_eq x y \<longleftrightarrow> x = y) \<and>
    \<not> CID_less x x \<and> (CID_less x y \<and> CID_less y z \<longrightarrow> CID_less x z) \<and>
    (CID_less x y \<or> CID_eq x y \<or> CID_less y x)"
proof (intro conjI)
  have x: "x \<noteq> []" using assms(1) by (auto simp: CID_SIZE_def)
  note trip = base32_roundtrip_text [OF x]
  show len: "length (CID_toBase32 x '''') = 39"
    using trip assms(1) by (simp add: CID_toBase32_def CID_SIZE_def)
  have "resize (CID_toBase32 x '''' @ t) 39 = CID_toBase32 x ''''" using len by (simp add: resize_def)
  with trip [of False "[]"] len show "CID_fromBase32 (CID_toBase32 x '''' @ t) = Some x"
    using assms(1) by (cases t) (simp_all add: CID_fromBase32_def CID_toBase32_def)
  have "0 < CID_SIZE" by (simp add: CID_SIZE_def)
  from fromBase32_bits [OF this, of False] show "\<exists>cid. CID_fromBase32 s = Some cid \<and> length cid = CID_SIZE"
    unfolding CID_fromBase32_def by (metis option.simps(9) snd_conv)
  show "CID_isZero x \<longleftrightarrow> x = CID_init" by (rule CID_isZero_iff [OF assms(1)])
  show eq: "CID_eq x y \<longleftrightarrow> x = y" using assms by (simp add: CID_eq_def memcmp_0)
  show "\<not> CID_less x x" using memcmp_neg [of x x] by (simp add: CID_less_def)
  show "CID_less x y \<and> CID_less y z \<longrightarrow> CID_less x z" by (auto simp: CID_less_def intro: memcmp_trans)
  show "CID_less x y \<or> CID_eq x y \<or> CID_less y x"
    using memcmp_neg [of x y] by (auto simp: CID_less_def CID_eq_def)
qed

lemma CID_correct_witness:
  "CID_fromBase32 (CID_toBase32 (replicate 24 7) '''' @ ''|'') = Some (replicate 24 7)"
  using CID_correct [of "replicate 24 7" "replicate 24 7" "replicate 24 7" "''|''"] by (simp add: CID_SIZE_def)

end
