(* ===== verification/AdcCommand.thy ===== *)
theory AdcCommand
  imports Base32 Texts
begin

text \<open>
  Commands of the ADC protocol (\<open>client/AdcCommand.cpp\<close>, \<open>client/AdcCommand.h\<close>): the object, the parser,
  the printer and the dispatch of \<open>CommandHandler\<close>.

  The name of a command is the union of four characters and a 32-bit integer; the model keeps the
  integer. \<open>parse\<close> modifies the object it is called on, also when it fails, so the model returns
  the object with the status. The escape loop is the source's search-and-replace loop; the lemmas
  show that it maps every character to its escape sequence.
\<close>

section \<open>The program\<close>

subsection \<open>Constants\<close>

datatype AdcError =
    SUCCESS | ERROR_GENERIC | ERROR_HUB_GENERIC | ERROR_HUB_FULL | ERROR_HUB_DISABLED
  | ERROR_LOGIN_GENERIC | ERROR_NICK_INVALID | ERROR_NICK_TAKEN | ERROR_BAD_PASSWORD | ERROR_CID_TAKEN
  | ERROR_COMMAND_ACCESS | ERROR_REGGED_ONLY | ERROR_INVALID_PID | ERROR_BANNED_GENERIC
  | ERROR_PERM_BANNED | ERROR_TEMP_BANNED | ERROR_PROTOCOL_GENERIC | ERROR_PROTOCOL_UNSUPPORTED
  | ERROR_CONNECT_FAILED | ERROR_INF_MISSING | ERROR_BAD_STATE | ERROR_FEATURE_MISSING | ERROR_BAD_IP
  | ERROR_NO_HUB_HASH | ERROR_TRANSFER_GENERIC | ERROR_FILE_NOT_AVAILABLE
  | ERROR_FILE_PART_NOT_AVAILABLE | ERROR_SLOTS_FULL | ERROR_NO_CLIENT_HASH

fun error_value :: "AdcError \<Rightarrow> nat" where
  "error_value SUCCESS = 0"
| "error_value ERROR_GENERIC = 0"
| "error_value ERROR_HUB_GENERIC = 10"
| "error_value ERROR_HUB_FULL = 11"
| "error_value ERROR_HUB_DISABLED = 12"
| "error_value ERROR_LOGIN_GENERIC = 20"
| "error_value ERROR_NICK_INVALID = 21"
| "error_value ERROR_NICK_TAKEN = 22"
| "error_value ERROR_BAD_PASSWORD = 23"
| "error_value ERROR_CID_TAKEN = 24"
| "error_value ERROR_COMMAND_ACCESS = 25"
| "error_value ERROR_REGGED_ONLY = 26"
| "error_value ERROR_INVALID_PID = 27"
| "error_value ERROR_BANNED_GENERIC = 30"
| "error_value ERROR_PERM_BANNED = 31"
| "error_value ERROR_TEMP_BANNED = 32"
| "error_value ERROR_PROTOCOL_GENERIC = 40"
| "error_value ERROR_PROTOCOL_UNSUPPORTED = 41"
| "error_value ERROR_CONNECT_FAILED = 42"
| "error_value ERROR_INF_MISSING = 43"
| "error_value ERROR_BAD_STATE = 44"
| "error_value ERROR_FEATURE_MISSING = 45"
| "error_value ERROR_BAD_IP = 46"
| "error_value ERROR_NO_HUB_HASH = 47"
| "error_value ERROR_TRANSFER_GENERIC = 50"
| "error_value ERROR_FILE_NOT_AVAILABLE = 51"
| "error_value ERROR_FILE_PART_NOT_AVAILABLE = 52"
| "error_value ERROR_SLOTS_FULL = 53"
| "error_value ERROR_NO_CLIENT_HASH = 54"

datatype Severity = SEV_SUCCESS | SEV_RECOVERABLE | SEV_FATAL

fun severity_value :: "Severity \<Rightarrow> nat" where
  "severity_value SEV_SUCCESS = 0"
| "severity_value SEV_RECOVERABLE = 1"
| "severity_value SEV_FATAL = 2"

datatype ParseResult =
    PARSE_OK
  | PARSE_ERROR_TOO_SHORT
  | PARSE_ERROR_INVALID_TYPE
  | PARSE_ERROR_ESCAPE_AT_EOL
  | PARSE_ERROR_UNKNOWN_ESCAPE
  | PARSE_ERROR_INVALID_SID_LENGTH
  | PARSE_ERROR_INVALID_FEATURE_LENGTH
  | PARSE_ERROR_MISSING_FROM_SID
  | PARSE_ERROR_MISSING_TO_SID
  | PARSE_ERROR_MISSING_FEATURE

definition TYPE_BROADCAST :: char where "TYPE_BROADCAST = CHR ''B''"
definition TYPE_CLIENT :: char where "TYPE_CLIENT = CHR ''C''"
definition TYPE_DIRECT :: char where "TYPE_DIRECT = CHR ''D''"
definition TYPE_ECHO :: char where "TYPE_ECHO = CHR ''E''"
definition TYPE_FEATURE :: char where "TYPE_FEATURE = CHR ''F''"
definition TYPE_INFO :: char where "TYPE_INFO = CHR ''I''"
definition TYPE_HUB :: char where "TYPE_HUB = CHR ''H''"
definition TYPE_UDP :: char where "TYPE_UDP = CHR ''U''"

lemmas TYPE_defs = TYPE_BROADCAST_def TYPE_CLIENT_def TYPE_DIRECT_def TYPE_ECHO_def TYPE_FEATURE_def
  TYPE_INFO_def TYPE_HUB_def TYPE_UDP_def

datatype AdcCmd =
    CMD_SUP | CMD_STA | CMD_INF | CMD_MSG | CMD_SCH | CMD_RES | CMD_CTM | CMD_RCM | CMD_GPA | CMD_PAS | CMD_QUI
  | CMD_GET | CMD_GFI | CMD_SND | CMD_SID | CMD_CMD | CMD_NAT | CMD_RNT | CMD_PSR | CMD_PUB | CMD_PMI | CMD_TCP
  | CMD_ZON | CMD_ZOF

definition fourCC :: "char \<Rightarrow> char \<Rightarrow> char \<Rightarrow> u32" where
  "fourCC a b c = le32 (u8_chr a) (u8_chr b) (u8_chr c) 0"

fun CMD_code :: "AdcCmd \<Rightarrow> u32" where
  "CMD_code CMD_SUP = fourCC (CHR ''S'') (CHR ''U'') (CHR ''P'')"
| "CMD_code CMD_STA = fourCC (CHR ''S'') (CHR ''T'') (CHR ''A'')"
| "CMD_code CMD_INF = fourCC (CHR ''I'') (CHR ''N'') (CHR ''F'')"
| "CMD_code CMD_MSG = fourCC (CHR ''M'') (CHR ''S'') (CHR ''G'')"
| "CMD_code CMD_SCH = fourCC (CHR ''S'') (CHR ''C'') (CHR ''H'')"
| "CMD_code CMD_RES = fourCC (CHR ''R'') (CHR ''E'') (CHR ''S'')"
| "CMD_code CMD_CTM = fourCC (CHR ''C'') (CHR ''T'') (CHR ''M'')"
| "CMD_code CMD_RCM = fourCC (CHR ''R'') (CHR ''C'') (CHR ''M'')"
| "CMD_code CMD_GPA = fourCC (CHR ''G'') (CHR ''P'') (CHR ''A'')"
| "CMD_code CMD_PAS = fourCC (CHR ''P'') (CHR ''A'') (CHR ''S'')"
| "CMD_code CMD_QUI = fourCC (CHR ''Q'') (CHR ''U'') (CHR ''I'')"
| "CMD_code CMD_GET = fourCC (CHR ''G'') (CHR ''E'') (CHR ''T'')"
| "CMD_code CMD_GFI = fourCC (CHR ''G'') (CHR ''F'') (CHR ''I'')"
| "CMD_code CMD_SND = fourCC (CHR ''S'') (CHR ''N'') (CHR ''D'')"
| "CMD_code CMD_SID = fourCC (CHR ''S'') (CHR ''I'') (CHR ''D'')"
| "CMD_code CMD_CMD = fourCC (CHR ''C'') (CHR ''M'') (CHR ''D'')"
| "CMD_code CMD_NAT = fourCC (CHR ''N'') (CHR ''A'') (CHR ''T'')"
| "CMD_code CMD_RNT = fourCC (CHR ''R'') (CHR ''N'') (CHR ''T'')"
| "CMD_code CMD_PSR = fourCC (CHR ''P'') (CHR ''S'') (CHR ''R'')"
| "CMD_code CMD_PUB = fourCC (CHR ''P'') (CHR ''U'') (CHR ''B'')"
| "CMD_code CMD_PMI = fourCC (CHR ''P'') (CHR ''M'') (CHR ''I'')"
| "CMD_code CMD_TCP = fourCC (CHR ''T'') (CHR ''C'') (CHR ''P'')"
| "CMD_code CMD_ZON = fourCC (CHR ''Z'') (CHR ''O'') (CHR ''N'')"
| "CMD_code CMD_ZOF = fourCC (CHR ''Z'') (CHR ''O'') (CHR ''F'')"

definition HUB_SID :: u32 where
  "HUB_SID = -1"

subsection \<open>The object\<close>

record AdcCommand =
  parameters :: "string list"
  features :: string
  cmdInt :: u32
  cmd_from :: u32
  cmd_to :: u32
  cmd_type :: char

definition cmdChar :: "AdcCommand \<Rightarrow> nat \<Rightarrow> char" where
  "cmdChar c i = chr_u8 (byte32 (cmdInt c) i)"

definition set_cmdChar :: "char \<Rightarrow> char \<Rightarrow> char \<Rightarrow> AdcCommand \<Rightarrow> AdcCommand" where
  "set_cmdChar x y z c = c\<lparr>cmdInt := le32 (u8_chr x) (u8_chr y) (u8_chr z) (byte32 (cmdInt c) 3)\<rparr>"

text \<open>The constructors clear the fourth character.\<close>

definition clear_cmdChar3 :: "AdcCommand \<Rightarrow> AdcCommand" where
  "clear_cmdChar3 c = c\<lparr>cmdInt := le32 (byte32 (cmdInt c) 0) (byte32 (cmdInt c) 1) (byte32 (cmdInt c) 2) 0\<rparr>"

definition AdcCommand_new :: "u32 \<Rightarrow> char \<Rightarrow> AdcCommand" where
  "AdcCommand_new cmd t = clear_cmdChar3
     \<lparr>parameters = [], features = [], cmdInt = cmd, cmd_from = 0, cmd_to = 0, cmd_type = t\<rparr>"

definition AdcCommand_to :: "u32 \<Rightarrow> u32 \<Rightarrow> char \<Rightarrow> AdcCommand" where
  "AdcCommand_to cmd target t = clear_cmdChar3
     \<lparr>parameters = [], features = [], cmdInt = cmd, cmd_from = 0, cmd_to = target, cmd_type = t\<rparr>"

definition addParam :: "string \<Rightarrow> AdcCommand \<Rightarrow> AdcCommand" where
  "addParam str c = c\<lparr>parameters := parameters c @ [str]\<rparr>"

definition addParam2 :: "string \<Rightarrow> string \<Rightarrow> AdcCommand \<Rightarrow> AdcCommand" where
  "addParam2 name val c = c\<lparr>parameters := parameters c @ [name @ val]\<rparr>"

definition addParam_code :: "u16 \<Rightarrow> string \<Rightarrow> AdcCommand \<Rightarrow> AdcCommand" where
  "addParam_code name val c =
     c\<lparr>parameters := parameters c @ [[chr_u8 (byte16 name 0), chr_u8 (byte16 name 1)] @ val]\<rparr>"

definition AdcCommand_status :: "Severity \<Rightarrow> AdcError \<Rightarrow> string \<Rightarrow> char \<Rightarrow> AdcCommand" where
  "AdcCommand_status sev err desc t =
     clear_cmdChar3 (addParam desc (addParam
       (if severity_value sev = 0 \<and> error_value err = 0 then ''000''
        else decimal (severity_value sev * 100 + error_value err))
       \<lparr>parameters = [], features = [], cmdInt = CMD_code CMD_STA, cmd_from = 0, cmd_to = 0, cmd_type = t\<rparr>))"

definition getFourCC :: "AdcCommand \<Rightarrow> string" where
  "getFourCC c = [cmd_type c, cmdChar c 0, cmdChar c 1, cmdChar c 2]"

definition setFeatures :: "string \<Rightarrow> AdcCommand \<Rightarrow> AdcCommand" where
  "setFeatures feat c = c\<lparr>features := feat\<rparr>"

definition toSID :: "string \<Rightarrow> u32" where
  "toSID sid = (case sid of [a, b, c, d] \<Rightarrow> le32 (u8_chr a) (u8_chr b) (u8_chr c) (u8_chr d) | _ \<Rightarrow> 0)"

definition fromSID :: "u32 \<Rightarrow> string" where
  "fromSID sid = [chr_u8 (byte32 sid 0), chr_u8 (byte32 sid 1), chr_u8 (byte32 sid 2), chr_u8 (byte32 sid 3)]"

definition toCode :: "string \<Rightarrow> u16" where
  "toCode x = le16 (u8_chr (x ! 0)) (u8_chr (x ! 1))"

definition getParam_at :: "nat \<Rightarrow> AdcCommand \<Rightarrow> string" where
  "getParam_at n c = (if length (parameters c) > n then parameters c ! n else [])"

fun getParam_loop :: "u16 \<Rightarrow> string list \<Rightarrow> string option" where
  "getParam_loop name [] = None"
| "getParam_loop name (p # ps) =
     (if length p \<ge> 2 \<and> name = toCode p then Some (drop 2 p) else getParam_loop name ps)"

definition getParam :: "u16 \<Rightarrow> nat \<Rightarrow> AdcCommand \<Rightarrow> string option" where
  "getParam name start c = getParam_loop name (drop start (parameters c))"

fun hasFlag_loop :: "u16 \<Rightarrow> string list \<Rightarrow> bool" where
  "hasFlag_loop name [] = False"
| "hasFlag_loop name (p # ps) =
     (if length p = 3 \<and> name = toCode p \<and> p ! 2 = CHR ''1'' then True else hasFlag_loop name ps)"

definition hasFlag :: "u16 \<Rightarrow> nat \<Rightarrow> AdcCommand \<Rightarrow> bool" where
  "hasFlag name start c = hasFlag_loop name (drop start (parameters c))"

definition TAG :: "char \<Rightarrow> char \<Rightarrow> u16" where
  "TAG x y = ucast (u8_chr x) OR push_bit 8 (ucast (u8_chr y))"

definition getNick :: "AdcCommand \<Rightarrow> string" where
  "getNick c = (case getParam (TAG (CHR ''N'') (CHR ''I'')) 0 c of Some nick \<Rightarrow> nick | None \<Rightarrow> ''[nick unknown]'')"

subsection \<open>Parsing\<close>

record ParseState =
  command :: AdcCommand
  cur :: string
  toSet :: bool
  featureSet :: bool
  fromSet :: bool

definition has_from :: "char \<Rightarrow> bool" where
  "has_from t \<longleftrightarrow> t = TYPE_BROADCAST \<or> t = TYPE_DIRECT \<or> t = TYPE_ECHO \<or> t = TYPE_FEATURE"

definition has_to :: "char \<Rightarrow> bool" where
  "has_to t \<longleftrightarrow> t = TYPE_DIRECT \<or> t = TYPE_ECHO"

text \<open>The end of a word: it is the sender, the target, the features or a parameter.\<close>

definition end_word :: "ParseState \<Rightarrow> ParseResult \<times> ParseState" where
  "end_word st =
     (let c = command st in
      if has_from (cmd_type c) \<and> \<not> fromSet st then
        let st = st\<lparr>command := c\<lparr>cmd_from := toSID (cur st)\<rparr>\<rparr> in
        if cmd_from (command st) = 0 then (PARSE_ERROR_INVALID_SID_LENGTH, st) else (PARSE_OK, st\<lparr>fromSet := True\<rparr>)
      else if has_to (cmd_type c) \<and> \<not> toSet st then
        let st = st\<lparr>command := c\<lparr>cmd_to := toSID (cur st)\<rparr>\<rparr> in
        if cmd_to (command st) = 0 then (PARSE_ERROR_INVALID_SID_LENGTH, st) else (PARSE_OK, st\<lparr>toSet := True\<rparr>)
      else if cmd_type c = TYPE_FEATURE \<and> \<not> featureSet st then
        if length (cur st) mod 5 \<noteq> 0 then (PARSE_ERROR_INVALID_FEATURE_LENGTH, st)
        else (PARSE_OK, st\<lparr>featureSet := True\<rparr>)
      else (PARSE_OK, st\<lparr>command := addParam (cur st) c\<rparr>))"

definition add_char :: "char \<Rightarrow> ParseState \<Rightarrow> ParseState" where
  "add_char x st = st\<lparr>cur := cur st @ [x]\<rparr>"

fun parse_loop :: "bool \<Rightarrow> string \<Rightarrow> ParseState \<Rightarrow> ParseResult \<times> ParseState" where
  "parse_loop nmdc [] st = (PARSE_OK, st)"
| "parse_loop nmdc (x # buf) st =
     (if x = CHR 0x5C then
        (case buf of
           [] \<Rightarrow> (PARSE_ERROR_ESCAPE_AT_EOL, st)
         | e # buf \<Rightarrow>
             if e = CHR ''s'' then parse_loop nmdc buf (add_char (CHR '' '') st)
             else if e = CHR ''n'' then parse_loop nmdc buf (add_char (CHR 0x0A) st)
             else if e = CHR 0x5C then parse_loop nmdc buf (add_char (CHR 0x5C) st)
             else if e = CHR '' '' \<and> nmdc then parse_loop nmdc buf (add_char (CHR '' '') st)
             else (PARSE_ERROR_ESCAPE_AT_EOL, st))
      else if x = CHR '' '' then
        (case end_word st of
           (PARSE_OK, st) \<Rightarrow> parse_loop nmdc buf (st\<lparr>cur := []\<rparr>)
         | (err, st) \<Rightarrow> (err, st))
      else parse_loop nmdc buf (add_char x st))"

text \<open>After the loop: the last word, if it is not empty, and what must have been set.\<close>

definition parse_last :: "ParseState \<Rightarrow> ParseResult \<times> ParseState" where
  "parse_last st = (if cur st \<noteq> [] then end_word st else (PARSE_OK, st))"

definition parse_missing :: "ParseState \<Rightarrow> ParseResult" where
  "parse_missing st =
     (let t = cmd_type (command st) in
      if has_from t \<and> \<not> fromSet st then PARSE_ERROR_MISSING_FROM_SID
      else if t = TYPE_FEATURE \<and> \<not> featureSet st then PARSE_ERROR_MISSING_FEATURE
      else if has_to t \<and> \<not> toSet st then PARSE_ERROR_MISSING_TO_SID
      else PARSE_OK)"

definition valid_type :: "char \<Rightarrow> bool" where
  "valid_type t \<longleftrightarrow> \<not> (t \<noteq> TYPE_BROADCAST \<and> t \<noteq> TYPE_CLIENT \<and> t \<noteq> TYPE_DIRECT \<and> t \<noteq> TYPE_ECHO \<and>
     t \<noteq> TYPE_FEATURE \<and> t \<noteq> TYPE_INFO \<and> t \<noteq> TYPE_HUB \<and> t \<noteq> TYPE_UDP)"

definition parse_body :: "bool \<Rightarrow> string \<Rightarrow> AdcCommand \<Rightarrow> ParseResult \<times> AdcCommand" where
  "parse_body nmdc buf c =
     (case parse_loop nmdc buf \<lparr>command = c, cur = [], toSet = False, featureSet = False, fromSet = nmdc\<rparr> of
        (PARSE_OK, st) \<Rightarrow>
          (case parse_last st of
             (PARSE_OK, st) \<Rightarrow> (parse_missing st, command st)
           | (err, st) \<Rightarrow> (err, command st))
      | (err, st) \<Rightarrow> (err, command st))"

definition parse :: "string \<Rightarrow> bool \<Rightarrow> AdcCommand \<Rightarrow> ParseResult \<times> AdcCommand" where
  "parse buf nmdc c =
     (if nmdc \<and> length buf < 7 \<or> \<not> nmdc \<and> length buf < 4 then (PARSE_ERROR_TOO_SHORT, c)
      else let c = (if nmdc then set_cmdChar (buf ! 4) (buf ! 5) (buf ! 6) (c\<lparr>cmd_type := TYPE_CLIENT\<rparr>)
                    else set_cmdChar (buf ! 1) (buf ! 2) (buf ! 3) (c\<lparr>cmd_type := buf ! 0\<rparr>))
      in if \<not> valid_type (cmd_type c) then (PARSE_ERROR_INVALID_TYPE, c)
      else let c = (if cmd_type c = TYPE_INFO then c\<lparr>cmd_from := HUB_SID\<rparr> else c)
      in parse_body nmdc (drop (if nmdc then 8 else 5) buf) c)"

subsection \<open>Printing\<close>

function escape_loop :: "bool \<Rightarrow> string \<Rightarrow> nat \<Rightarrow> string" where
  "escape_loop old tmp i =
     (case find_first_of tmp [CHR '' '', CHR 0x0A, CHR 0x5C] i of
        None \<Rightarrow> tmp
      | Some i \<Rightarrow>
          let tmp = (if old then replace_at tmp i 0 [CHR 0x5C]
                     else if tmp ! i = CHR '' '' then replace_at tmp i 1 [CHR 0x5C, CHR ''s'']
                     else if tmp ! i = CHR 0x0A then replace_at tmp i 1 [CHR 0x5C, CHR ''n'']
                     else if tmp ! i = CHR 0x5C then replace_at tmp i 1 [CHR 0x5C, CHR 0x5C]
                     else tmp)
          in escape_loop old tmp (i + 2))"
  by pat_completeness auto
termination
  by (relation "measure (\<lambda>(old, tmp, i). length tmp - i)") (auto simp: find_first_of_Some replace_at_def)

declare escape_loop.simps [simp del]

definition escape :: "string \<Rightarrow> bool \<Rightarrow> string" where
  "escape str old = escape_loop old str 0"

text \<open>\<open>tmp += cmdChar\<close> appends the characters up to the zero.\<close>

definition cmdChar_str :: "AdcCommand \<Rightarrow> string" where
  "cmdChar_str c = takeWhile (\<lambda>x. x \<noteq> CHR 0x00) [cmdChar c 0, cmdChar c 1, cmdChar c 2, cmdChar c 3]"

definition getHeaderString :: "u32 \<Rightarrow> bool \<Rightarrow> AdcCommand \<Rightarrow> string" where
  "getHeaderString sid nmdc c =
     (let tmp = (if nmdc then ''$ADC'' else [cmd_type c]);
          tmp = tmp @ cmdChar_str c;
          tmp = (if has_from (cmd_type c) then tmp @ '' '' @ fromSID sid else tmp);
          tmp = (if has_to (cmd_type c) then tmp @ '' '' @ fromSID (cmd_to c) else tmp)
      in if cmd_type c = TYPE_FEATURE then tmp @ '' '' @ features c else tmp)"

definition getHeaderString_cid :: "CID \<Rightarrow> AdcCommand \<Rightarrow> string" where
  "getHeaderString_cid cid c = [cmd_type c] @ cmdChar_str c @ '' '' @ CID_toBase32 cid []"

definition getParamString :: "bool \<Rightarrow> AdcCommand \<Rightarrow> string" where
  "getParamString nmdc c =
     fold (\<lambda>p tmp. tmp @ '' '' @ escape p nmdc) (parameters c) [] @ (if nmdc then ''|'' else [CHR 0x0A])"

definition toString :: "u32 \<Rightarrow> bool \<Rightarrow> AdcCommand \<Rightarrow> string" where
  "toString sid nmdc c = getHeaderString sid nmdc c @ getParamString nmdc c"

definition toString_cid :: "CID \<Rightarrow> bool \<Rightarrow> AdcCommand \<Rightarrow> string" where
  "toString_cid cid nmdc c = getHeaderString_cid cid c @ getParamString nmdc c"

subsection \<open>Dispatch\<close>

text \<open>
  \<open>CommandHandler::dispatch\<close>: the handler that is called, with the parsed command. The handlers
  are those of the class that inherits it.
\<close>

definition dispatch_order :: "AdcCmd list" where
  "dispatch_order = [CMD_SUP, CMD_STA, CMD_INF, CMD_MSG, CMD_SCH, CMD_RES, CMD_CTM, CMD_RCM, CMD_GPA, CMD_PAS, CMD_QUI, CMD_GET, CMD_GFI, CMD_SND, CMD_SID, CMD_CMD, CMD_NAT, CMD_RNT,
     CMD_PSR, CMD_PMI, CMD_TCP, CMD_ZON, CMD_ZOF]"

definition dispatch :: "string \<Rightarrow> bool \<Rightarrow> (AdcCmd \<times> AdcCommand) option" where
  "dispatch buf nmdc =
     (case parse buf nmdc (AdcCommand_new 0 TYPE_CLIENT) of
        (PARSE_OK, c) \<Rightarrow> map_option (\<lambda>n. (n, c)) (List.find (\<lambda>n. CMD_code n = cmdInt c) dispatch_order)
      | _ \<Rightarrow> None)"

section \<open>Escaping\<close>

definition special :: "char \<Rightarrow> bool" where
  "special c \<longleftrightarrow> c \<in> set [CHR '' '', CHR 0x0A, CHR 0x5C]"

definition plain :: "string \<Rightarrow> bool" where
  "plain s \<longleftrightarrow> list_all (\<lambda>c. \<not> special c) s"

text \<open>The escape sequence of a character, in the current and in the old form.\<close>

definition esc_char :: "bool \<Rightarrow> char \<Rightarrow> string" where
  "esc_char old c =
     (if \<not> special c then [c]
      else [CHR 0x5C, if old then c else if c = CHR '' '' then CHR ''s'' else if c = CHR 0x0A then CHR ''n'' else CHR 0x5C])"

abbreviation escaped :: "bool \<Rightarrow> string \<Rightarrow> string" where
  "escaped old s \<equiv> concat (map (esc_char old) s)"

lemma escaped_plain: "plain s \<Longrightarrow> escaped old s = s"
  by (induction s) (auto simp: plain_def esc_char_def)

lemma escape_step:
  assumes "j < length s" "special (s ! j)"
  shows "(if old then replace_at s j 0 [CHR 0x5C]
          else if s ! j = CHR '' '' then replace_at s j 1 [CHR 0x5C, CHR ''s'']
          else if s ! j = CHR 0x0A then replace_at s j 1 [CHR 0x5C, CHR ''n'']
          else if s ! j = CHR 0x5C then replace_at s j 1 [CHR 0x5C, CHR 0x5C]
          else s) = take j s @ esc_char old (s ! j) @ drop (Suc j) s"
  using assms Cons_nth_drop_Suc [of j s] by (auto simp: esc_char_def replace_at_def special_def)

lemma escape_loop_escaped: "i \<le> length s \<Longrightarrow> escape_loop old s i = take i s @ escaped old (drop i s)"
proof (induction old s i rule: escape_loop.induct)
  case (1 old s i)
  show ?case
  proof (cases "find_first_of s [CHR '' '', CHR 0x0A, CHR 0x5C] i")
    case None
    then have "plain (drop i s)"
      by (fastforce simp: find_first_of_None plain_def special_def list_all_length)
    with None show ?thesis by (subst escape_loop.simps) (simp add: escaped_plain)
  next
    case (Some j)
    then have j: "i \<le> j" "j < length s" "special (s ! j)" "\<And>k. i \<le> k \<Longrightarrow> k < j \<Longrightarrow> \<not> special (s ! k)"
      by (auto simp: find_first_of_Some special_def)
    define s' where "s' = take j s @ esc_char old (s ! j) @ drop (Suc j) s"
    have two: "length (esc_char old (s ! j)) = 2" using j(3) by (simp add: esc_char_def)
    have split: "drop i s = drop i (take j s) @ s ! j # drop (Suc j) s" "take j s = take i s @ drop i (take j s)"
      using j(1,2) by (metis append_take_drop_id drop_append id_take_nth_drop diff_is_0_eq drop_0 length_take min.absorb4,
        metis append_take_drop_id take_take min.absorb1)
    have clean: "plain (drop i (take j s))" using j by (auto simp: plain_def list_all_length)
    have "escape_loop old s i = escape_loop old s' (j + 2)"
      using Some escape_step [OF j(2,3)] by (subst escape_loop.simps) (simp add: s'_def Let_def)
    also have "\<dots> = take (j + 2) s' @ escaped old (drop (j + 2) s')"
      using 1(1) [OF Some refl] escape_step [OF j(2,3), of old] j(2) two by (simp add: s'_def Let_def)
    also have "\<dots> = (take j s @ esc_char old (s ! j)) @ escaped old (drop (Suc j) s)"
      using j(2) two by (simp add: s'_def)
    finally show ?thesis
      using split clean by (simp add: escaped_plain)
  qed
qed

lemma escape_escaped: "escape s old = escaped old s"
  by (simp add: escape_def escape_loop_escaped)

lemma newline_escaped: "CHR 0x0A \<notin> set (escaped False s)"
  by (auto simp: esc_char_def special_def split: if_splits)

section \<open>Words\<close>

text \<open>The text of a list of parameters, without the terminator.\<close>

abbreviation words_text :: "bool \<Rightarrow> string list \<Rightarrow> string" where
  "words_text nmdc ps \<equiv> concat (map (\<lambda>p. CHR '' '' # escaped nmdc p) ps)"

lemma fold_params:
  "fold (\<lambda>p tmp. tmp @ '' '' @ escape p nmdc) ps tmp = tmp @ words_text nmdc ps"
  by (induction ps arbitrary: tmp) (simp_all add: escape_escaped)

lemma getParamString_text:
  "getParamString nmdc c = words_text nmdc (parameters c) @ (if nmdc then ''|'' else [CHR 0x0A])"
  using fold_params [of nmdc "parameters c" "[]"] by (simp add: getParamString_def)

lemma add_char_cur [simp]: "add_char x st = st\<lparr>cur := cur st @ [x]\<rparr>"
  by (simp add: add_char_def)

lemma parse_loop_char:
  "(nmdc \<Longrightarrow> x \<noteq> CHR 0x0A) \<Longrightarrow> parse_loop nmdc (esc_char nmdc x @ buf) st = parse_loop nmdc buf (add_char x st)"
  by (cases nmdc) (auto simp: esc_char_def special_def)

lemma parse_loop_escaped:
  "(nmdc \<Longrightarrow> CHR 0x0A \<notin> set s) \<Longrightarrow>
     parse_loop nmdc (escaped nmdc s @ buf) st = parse_loop nmdc buf (st\<lparr>cur := cur st @ s\<rparr>)"
proof (induction s arbitrary: st)
  case (Cons x s)
  have "parse_loop nmdc (escaped nmdc (x # s) @ buf) st = parse_loop nmdc (escaped nmdc s @ buf) (add_char x st)"
    using parse_loop_char [of nmdc x "escaped nmdc s @ buf" st] Cons.prems by auto
  with Cons show ?case by simp
qed simp

text \<open>An empty last word is lost.\<close>

definition strip :: "string list \<Rightarrow> string list" where
  "strip ws = (if ws \<noteq> [] \<and> last ws = [] then butlast ws else ws)"

lemma strip_Nil [simp]: "strip [] = []"
  by (simp add: strip_def)

lemma strip_single: "strip [w] = (if w = [] then [] else [w])"
  by (simp add: strip_def)

lemma strip_Cons [simp]: "strip (w # v # ws) = w # strip (v # ws)"
  by (simp add: strip_def)

lemma strip_append: "vs \<noteq> [] \<Longrightarrow> last vs \<noteq> [] \<Longrightarrow> strip (vs @ ws) = vs @ strip ws"
  by (auto simp: strip_def butlast_append)

text \<open>The parser on the level of words.\<close>

fun run_words :: "string list \<Rightarrow> ParseState \<Rightarrow> ParseState option" where
  "run_words [] st = Some st"
| "run_words (w # ws) st =
     (case end_word (st\<lparr>cur := w\<rparr>) of (PARSE_OK, st) \<Rightarrow> run_words ws (st\<lparr>cur := []\<rparr>) | _ \<Rightarrow> None)"

lemma parse_loop_words:
  assumes "run_words (strip (w # ws)) st = Some st'" "cur st = []"
    and "nmdc \<Longrightarrow> \<forall>p \<in> set (w # ws). CHR 0x0A \<notin> set p"
  shows "\<exists>st1 st2. parse_loop nmdc (escaped nmdc w @ words_text nmdc ws) st = (PARSE_OK, st1) \<and>
    parse_last st1 = (PARSE_OK, st2) \<and> st2\<lparr>cur := []\<rparr> = st'"
  using assms
proof (induction ws arbitrary: w st)
  case Nil
  have loop: "parse_loop nmdc (escaped nmdc w) st = (PARSE_OK, st\<lparr>cur := w\<rparr>)"
    using parse_loop_escaped [of nmdc w "[]" st] Nil.prems by simp
  show ?case
  proof (cases "w = []")
    case True
    with loop Nil.prems show ?thesis by (simp add: strip_single parse_last_def)
  next
    case False
    with Nil.prems(1) obtain st2 where "end_word (st\<lparr>cur := w\<rparr>) = (PARSE_OK, st2)" "st' = st2\<lparr>cur := []\<rparr>"
      by (auto simp: strip_single split: prod.splits ParseResult.splits)
    with False loop show ?thesis by (simp add: parse_last_def)
  qed
next
  case (Cons v ws)
  from Cons.prems(1) obtain st1 where st1: "end_word (st\<lparr>cur := w\<rparr>) = (PARSE_OK, st1)"
    "run_words (strip (v # ws)) (st1\<lparr>cur := []\<rparr>) = Some st'"
    by (auto split: prod.splits ParseResult.splits)
  have "parse_loop nmdc (escaped nmdc w @ words_text nmdc (v # ws)) st =
      parse_loop nmdc (escaped nmdc v @ words_text nmdc ws) (st1\<lparr>cur := []\<rparr>)"
    using parse_loop_escaped [of nmdc w "words_text nmdc (v # ws)" st] Cons.prems(2,3) st1(1) by simp
  with Cons.IH [OF st1(2)] Cons.prems(3) show ?case by simp
qed

definition settled :: "ParseState \<Rightarrow> bool" where
  "settled st \<longleftrightarrow> (has_from (cmd_type (command st)) \<longrightarrow> fromSet st) \<and>
     (has_to (cmd_type (command st)) \<longrightarrow> toSet st) \<and> (cmd_type (command st) = TYPE_FEATURE \<longrightarrow> featureSet st)"

lemma end_word_settled: "settled st \<Longrightarrow> end_word st = (PARSE_OK, st\<lparr>command := addParam (cur st) (command st)\<rparr>)"
  by (auto simp: settled_def end_word_def Let_def)

lemma parse_missing_settled: "parse_missing st = PARSE_OK \<longleftrightarrow> settled st"
  by (auto simp: settled_def parse_missing_def Let_def)

lemma run_words_params:
  "settled st \<Longrightarrow> cur st = [] \<Longrightarrow>
    run_words ps st = Some (st\<lparr>command := (command st)\<lparr>parameters := parameters (command st) @ ps\<rparr>\<rparr>)"
proof (induction ps arbitrary: st)
  case (Cons p ps)
  then have "settled (st\<lparr>cur := p\<rparr>)" by (simp add: settled_def)
  moreover have "settled (st\<lparr>cur := [], command := addParam p (command st)\<rparr>)"
    using Cons.prems(1) by (simp add: settled_def addParam_def)
  ultimately show ?case using Cons by (cases st) (simp add: end_word_settled addParam_def)
qed simp

lemma toSID_fromSID [simp]: "toSID (fromSID sid) = sid"
  using le32_byte32 [of sid] by (simp add: toSID_def fromSID_def)

lemma fromSID_not_Nil [simp]: "fromSID sid \<noteq> []"
  by (simp add: fromSID_def)

lemmas adc_types = has_from_def has_to_def TYPE_defs

text \<open>The words of the header, and the commands whose header can be told apart from the parameters.\<close>

definition header_words :: "u32 \<Rightarrow> AdcCommand \<Rightarrow> string list" where
  "header_words sid c = (if has_from (cmd_type c) then [fromSID sid] else []) @
     (if has_to (cmd_type c) then [fromSID (cmd_to c)] else []) @ (if cmd_type c = TYPE_FEATURE then [features c] else [])"

definition printable :: "u32 \<Rightarrow> bool \<Rightarrow> AdcCommand \<Rightarrow> bool" where
  "printable sid nmdc c \<longleftrightarrow>
     valid_type (cmd_type c) \<and>
     byte32 (cmdInt c) 0 \<noteq> 0 \<and> byte32 (cmdInt c) 1 \<noteq> 0 \<and> byte32 (cmdInt c) 2 \<noteq> 0 \<and> byte32 (cmdInt c) 3 = 0 \<and>
     plain (cmdChar_str c) \<and>
     (has_from (cmd_type c) \<longrightarrow> sid \<noteq> 0 \<and> plain (fromSID sid)) \<and>
     (has_to (cmd_type c) \<longrightarrow> cmd_to c \<noteq> 0 \<and> plain (fromSID (cmd_to c))) \<and>
     (cmd_type c = TYPE_FEATURE \<longrightarrow> features c \<noteq> [] \<and> length (features c) mod 5 = 0 \<and> plain (features c)) \<and>
     (nmdc \<longrightarrow> cmd_type c = TYPE_CLIENT \<and> list_all (\<lambda>p. CHR 0x0A \<notin> set p) (parameters c))"

text \<open>What the receiver gets: the features are skipped, and an empty last parameter is lost.\<close>

definition received :: "u32 \<Rightarrow> AdcCommand \<Rightarrow> AdcCommand" where
  "received sid c = c\<lparr>parameters := strip (parameters c), features := [],
     cmd_from := (if has_from (cmd_type c) then sid else if cmd_type c = TYPE_INFO then HUB_SID else 0),
     cmd_to := (if has_to (cmd_type c) then cmd_to c else 0)\<rparr>"

lemma run_words_header:
  assumes "printable sid nmdc c" "command st = c0" "cmd_type c0 = cmd_type c" "cur st = []"
    "\<not> toSet st" "\<not> featureSet st" "fromSet st = nmdc"
  shows "\<exists>st'. run_words (header_words sid c @ ps) st = Some st' \<and> settled st' \<and>
    command st' = c0\<lparr>cmd_from := (if has_from (cmd_type c) then sid else cmd_from c0),
      cmd_to := (if has_to (cmd_type c) then cmd_to c else cmd_to c0), parameters := parameters c0 @ ps\<rparr>"
proof -
  note run = run_words_params [of _ ps]
  consider "cmd_type c = TYPE_BROADCAST" | "cmd_type c = TYPE_DIRECT \<or> cmd_type c = TYPE_ECHO"
    | "cmd_type c = TYPE_FEATURE" | "\<not> has_from (cmd_type c)" by (auto simp: has_from_def)
  then show ?thesis
  proof cases
    case 1
    with assms have "run_words (header_words sid c @ ps) st =
        run_words ps (st\<lparr>command := c0\<lparr>cmd_from := sid\<rparr>, fromSet := True\<rparr>)"
      by (cases st) (auto simp: header_words_def printable_def end_word_def adc_types)
    with 1 assms show ?thesis by (simp add: run settled_def adc_types)
  next
    case 2
    with assms have "run_words (header_words sid c @ ps) st =
        run_words ps (st\<lparr>command := c0\<lparr>cmd_from := sid, cmd_to := cmd_to c\<rparr>, fromSet := True, toSet := True\<rparr>)"
      by (cases st) (auto simp: header_words_def printable_def end_word_def adc_types)
    with 2 assms show ?thesis by (auto simp: run settled_def adc_types)
  next
    case 3
    with assms have "run_words (header_words sid c @ ps) st =
        run_words ps (st\<lparr>command := c0\<lparr>cmd_from := sid\<rparr>, fromSet := True, featureSet := True\<rparr>)"
      by (cases st) (auto simp: header_words_def printable_def end_word_def adc_types)
    with 3 assms show ?thesis by (simp add: run settled_def adc_types)
  next
    case 4
    then have "header_words sid c = []" "\<not> has_to (cmd_type c)" by (auto simp: header_words_def adc_types)
    with 4 assms show ?thesis by (simp add: run settled_def has_from_def)
  qed
qed

section \<open>Printing and parsing\<close>

lemma parse_body_words:
  assumes "run_words (strip ws) \<lparr>command = c, cur = [], toSet = False, featureSet = False, fromSet = nmdc\<rparr> = Some st'"
    and "settled st'" "nmdc \<Longrightarrow> \<forall>p \<in> set ws. CHR 0x0A \<notin> set p"
  shows "parse_body nmdc (drop 1 (words_text nmdc ws)) c = (PARSE_OK, command st')"
proof (cases ws)
  case Nil
  with assms(1,2) show ?thesis
    by (auto simp: parse_body_def parse_last_def parse_missing_settled)
next
  case (Cons w vs)
  define st where "st = \<lparr>command = c, cur = [], toSet = False, featureSet = False, fromSet = nmdc\<rparr>"
  have "cur st = []" by (simp add: st_def)
  from parse_loop_words [OF assms(1) [unfolded Cons, folded st_def] this, of nmdc] assms(3) Cons
  obtain st1 st2 where st2: "parse_loop nmdc (escaped nmdc w @ words_text nmdc vs) st = (PARSE_OK, st1)"
    "parse_last st1 = (PARSE_OK, st2)" "st2\<lparr>cur := []\<rparr> = st'" by auto
  then have "command st' = command st2" "settled st2" using assms(2) by (auto simp: settled_def)
  with st2 Cons show ?thesis by (simp add: parse_body_def st_def parse_missing_settled)
qed

lemma cmdChar_str_printable:
  assumes "printable sid nmdc c"
  shows "cmdChar_str c = [cmdChar c 0, cmdChar c 1, cmdChar c 2]"
  using assms by (simp add: printable_def cmdChar_str_def cmdChar_def chr_u8_eq_iff u8_chr_def)

lemma toString_words:
  assumes "printable sid nmdc c"
  shows "butlast (toString sid nmdc c) = (if nmdc then ''$ADC'' else [cmd_type c]) @
    [cmdChar c 0, cmdChar c 1, cmdChar c 2] @ words_text nmdc (header_words sid c @ parameters c)"
  using assms unfolding toString_def getHeaderString_def getParamString_text cmdChar_str_printable [OF assms]
  by (auto simp: Let_def butlast_append printable_def header_words_def escaped_plain adc_types)

lemma set_cmdChar_printable:
  assumes "printable sid nmdc c"
  shows "set_cmdChar (cmdChar c 0) (cmdChar c 1) (cmdChar c 2) ((AdcCommand_new 0 TYPE_CLIENT)\<lparr>cmd_type := t\<rparr>) =
    \<lparr>parameters = [], features = [], cmdInt = cmdInt c, cmd_from = 0, cmd_to = 0, cmd_type = t\<rparr>"
proof -
  have "le32 (byte32 (cmdInt c) 0) (byte32 (cmdInt c) 1) (byte32 (cmdInt c) 2) 0 = cmdInt c"
    using assms le32_byte32 [of "cmdInt c"] by (simp add: printable_def)
  moreover have "byte32 (le32 (byte32 0 0) (byte32 0 1) (byte32 0 2) 0) 3 = 0" by (simp only: byte_simps)
  ultimately show ?thesis
    by (simp add: set_cmdChar_def AdcCommand_new_def clear_cmdChar3_def cmdChar_def)
qed

lemma strip_header: "printable sid nmdc c \<Longrightarrow> strip (header_words sid c @ ps) = header_words sid c @ strip ps"
proof (cases "header_words sid c = []")
  case False
  assume "printable sid nmdc c"
  then have "cmd_type c = TYPE_FEATURE \<Longrightarrow> features c \<noteq> []" by (simp add: printable_def)
  with False have "last (header_words sid c) \<noteq> []" by (auto simp: header_words_def split: if_splits)
  with False show ?thesis by (rule strip_append)
qed simp

lemma parse_adc:
  "valid_type t \<Longrightarrow> parse ([t, x, y, z] @ buf) False c =
     parse_body False (drop 1 buf)
       (let c = set_cmdChar x y z (c\<lparr>cmd_type := t\<rparr>) in if t = TYPE_INFO then c\<lparr>cmd_from := HUB_SID\<rparr> else c)"
  by (simp add: parse_def Let_def set_cmdChar_def)

lemma parse_nmdc:
  "parse (''$ADC'' @ [x, y, z] @ buf) True c =
     parse_body True (drop 1 buf) (set_cmdChar x y z (c\<lparr>cmd_type := TYPE_CLIENT\<rparr>))"
  by (simp add: parse_def Let_def set_cmdChar_def valid_type_def TYPE_defs)

lemma parse_toString:
  assumes "printable sid nmdc c"
  shows "parse (butlast (toString sid nmdc c)) nmdc (AdcCommand_new 0 TYPE_CLIENT) = (PARSE_OK, received sid c)"
proof -
  define c0 where "c0 = \<lparr>parameters = [], features = [], cmdInt = cmdInt c,
    cmd_from = (if cmd_type c = TYPE_INFO then HUB_SID else 0), cmd_to = 0, cmd_type = cmd_type c\<rparr>"
  define ws where "ws = header_words sid c @ parameters c"
  have t: "valid_type (cmd_type c)" "nmdc \<Longrightarrow> cmd_type c = TYPE_CLIENT"
    using assms by (simp_all add: printable_def)
  have body: "parse (butlast (toString sid nmdc c)) nmdc (AdcCommand_new 0 TYPE_CLIENT) =
      parse_body nmdc (drop 1 (words_text nmdc ws)) c0"
  proof (cases nmdc)
    case True
    with t(2) show ?thesis
      using parse_nmdc [of "cmdChar c 0" "cmdChar c 1" "cmdChar c 2" "words_text nmdc ws"]
      unfolding toString_words [OF assms] ws_def [symmetric]
      by (simp only: set_cmdChar_printable [OF assms] if_True) (simp add: c0_def TYPE_defs)
  next
    case False
    with t(1) show ?thesis
      using parse_adc [of "cmd_type c" "cmdChar c 0" "cmdChar c 1" "cmdChar c 2" "words_text nmdc ws"]
      unfolding toString_words [OF assms] ws_def [symmetric]
      by (simp only: set_cmdChar_printable [OF assms] if_False append_Cons append_Nil Let_def)
        (simp add: c0_def)
  qed
  define st0 where "st0 = \<lparr>command = c0, cur = [], toSet = False, featureSet = False, fromSet = nmdc\<rparr>"
  have "\<exists>st'. run_words (header_words sid c @ strip (parameters c)) st0 = Some st' \<and> settled st' \<and>
    command st' = c0\<lparr>cmd_from := (if has_from (cmd_type c) then sid else cmd_from c0),
      cmd_to := (if has_to (cmd_type c) then cmd_to c else cmd_to c0), parameters := parameters c0 @ strip (parameters c)\<rparr>"
    by (rule run_words_header [OF assms]) (simp_all add: st0_def c0_def)
  then obtain st' where st': "run_words (strip ws) st0 = Some st'" "settled st'"
    "command st' = c0\<lparr>cmd_from := (if has_from (cmd_type c) then sid else cmd_from c0),
      cmd_to := (if has_to (cmd_type c) then cmd_to c else cmd_to c0), parameters := parameters c0 @ strip (parameters c)\<rparr>"
    unfolding ws_def strip_header [OF assms] by blast
  have "\<forall>p \<in> set ws. CHR 0x0A \<notin> set p" if nmdc
    using assms that by (auto simp: ws_def printable_def header_words_def adc_types list_all_iff)
  then have "parse_body nmdc (drop 1 (words_text nmdc ws)) c0 = (PARSE_OK, command st')"
    by (rule parse_body_words [OF st'(1) [unfolded st0_def] st'(2)])
  moreover have "command st' = received sid c" by (cases c) (simp add: st'(3) c0_def received_def)
  ultimately show ?thesis by (simp only: body)
qed

lemma newline_toString:
  assumes "printable sid False c" "cmd_type c \<noteq> CHR 0x0A"
  shows "CHR 0x0A \<notin> set (butlast (toString sid False c))"
proof -
  have "plain (cmdChar_str c)" using assms(1) by (simp add: printable_def)
  then have "CHR 0x0A \<notin> {cmdChar c 0, cmdChar c 1, cmdChar c 2}"
    unfolding cmdChar_str_printable [OF assms(1)] by (auto simp: plain_def special_def)
  moreover have "CHR 0x0A \<notin> set (words_text False ps)" for ps
    using newline_escaped by (induction ps) auto
  ultimately show ?thesis using assms(2) by (simp add: toString_words [OF assms(1)])
qed

lemma valid_type_newline: "valid_type t \<Longrightarrow> t \<noteq> CHR 0x0A"
  by (auto simp: valid_type_def TYPE_defs)

lemma CMD_code_distinct: "distinct (map CMD_code dispatch_order)"
  by code_simp

lemma find_CMD_code: "n \<in> set dispatch_order \<Longrightarrow> List.find (\<lambda>m. CMD_code m = CMD_code n) dispatch_order = Some n"
proof -
  assume n: "n \<in> set dispatch_order"
  have "distinct (map CMD_code ns) \<Longrightarrow> n \<in> set ns \<Longrightarrow> List.find (\<lambda>m. CMD_code m = CMD_code n) ns = Some n" for ns
    by (induction ns) auto
  from this [OF CMD_code_distinct n] show ?thesis .
qed

text \<open>
  C13: What the receiver parses and dispatches when a command is printed and sent, in the ADC form and
  in the \<open>$ADC\<close> form of NMDC: the command \<open>received\<close>, which has the type, the code, the sender, the target
  and the parameters of the one sent, except that an empty last parameter is lost and that the
  feature list of a feature command is skipped (the receiver always has an empty one). The command must
  be \<open>printable\<close>: a valid type, a code of three plain letters, the SIDs and the features that the type
  needs, and in the \<open>$ADC\<close> form the type \<open>TYPE_CLIENT\<close> and no line break in a parameter (which the parser
  refuses, \<open>old_escape_newline\<close>); in the ADC form the parameters have any characters. The line break
  that ends an ADC command occurs nowhere else in it.
\<close>

theorem adc_roundtrip:
  assumes "printable sid nmdc c"
  shows "parse (butlast (toString sid nmdc c)) nmdc (AdcCommand_new 0 TYPE_CLIENT) = (PARSE_OK, received sid c) \<and>
    (\<forall>n \<in> set dispatch_order. cmdInt c = CMD_code n \<longrightarrow>
       dispatch (butlast (toString sid nmdc c)) nmdc = Some (n, received sid c)) \<and>
    (\<not> nmdc \<longrightarrow> last (toString sid nmdc c) = CHR 0x0A \<and> CHR 0x0A \<notin> set (butlast (toString sid nmdc c)))"
proof (intro conjI ballI impI)
  show p: "parse (butlast (toString sid nmdc c)) nmdc (AdcCommand_new 0 TYPE_CLIENT) = (PARSE_OK, received sid c)"
    by (rule parse_toString [OF assms])
  show "dispatch (butlast (toString sid nmdc c)) nmdc = Some (n, received sid c)"
    if "n \<in> set dispatch_order" "cmdInt c = CMD_code n" for n
    using find_CMD_code [OF that(1)] p that(2) by (simp add: dispatch_def received_def)
  show "last (toString sid nmdc c) = CHR 0x0A" if "\<not> nmdc"
    using that by (simp add: toString_def getParamString_text)
  show "CHR 0x0A \<notin> set (butlast (toString sid nmdc c))" if "\<not> nmdc"
    using newline_toString assms that valid_type_newline by (auto simp: printable_def)
qed

lemma adc_roundtrip_witness:
  "dispatch (butlast (toString (toSID ''AAAB'') False
      (addParam '''' (addParam ''I4 10.0.0.1'' (AdcCommand_to (CMD_code CMD_STA) (toSID ''CCCD'') TYPE_DIRECT))))) False =
    Some (CMD_STA, \<lparr>parameters = [''I4 10.0.0.1''], features = [], cmdInt = CMD_code CMD_STA,
      cmd_from = toSID ''AAAB'', cmd_to = toSID ''CCCD'', cmd_type = TYPE_DIRECT\<rparr>)"
proof -
  let ?c = "addParam '''' (addParam ''I4 10.0.0.1'' (AdcCommand_to (CMD_code CMD_STA) (toSID ''CCCD'') TYPE_DIRECT))"
  have "printable (toSID ''AAAB'') False ?c" by code_simp
  from adc_roundtrip [OF this] have "CMD_STA \<in> set dispatch_order \<and> cmdInt ?c = CMD_code CMD_STA \<longrightarrow>
      dispatch (butlast (toString (toSID ''AAAB'') False ?c)) False = Some (CMD_STA, received (toSID ''AAAB'') ?c)"
    by blast
  moreover have "CMD_STA \<in> set dispatch_order \<and> cmdInt ?c = CMD_code CMD_STA" by code_simp
  moreover have "received (toSID ''AAAB'') ?c = \<lparr>parameters = [''I4 10.0.0.1''], features = [], cmdInt = CMD_code CMD_STA,
      cmd_from = toSID ''AAAB'', cmd_to = toSID ''CCCD'', cmd_type = TYPE_DIRECT\<rparr>"
    by code_simp
  ultimately show ?thesis by simp
qed

section \<open>What a parsed command satisfies\<close>

text \<open>The typing of a command: the fields that its type promises are there.\<close>

definition well_typed :: "bool \<Rightarrow> AdcCommand \<Rightarrow> bool" where
  "well_typed nmdc c \<longleftrightarrow> valid_type (cmd_type c) \<and> byte32 (cmdInt c) 3 = 0 \<and>
     (has_from (cmd_type c) \<longrightarrow> cmd_from c \<noteq> 0) \<and> (has_to (cmd_type c) \<longrightarrow> cmd_to c \<noteq> 0) \<and>
     (cmd_type c = TYPE_INFO \<longrightarrow> cmd_from c = HUB_SID) \<and> (nmdc \<longrightarrow> cmd_type c = TYPE_CLIENT)"

text \<open>The invariant of the loop.\<close>

definition parse_inv :: "bool \<Rightarrow> ParseState \<Rightarrow> bool" where
  "parse_inv nmdc st \<longleftrightarrow> (let c = command st in
     valid_type (cmd_type c) \<and> byte32 (cmdInt c) 3 = 0 \<and>
     (has_from (cmd_type c) \<and> fromSet st \<longrightarrow> cmd_from c \<noteq> 0) \<and> (has_to (cmd_type c) \<and> toSet st \<longrightarrow> cmd_to c \<noteq> 0) \<and>
     (cmd_type c = TYPE_INFO \<longrightarrow> cmd_from c = HUB_SID) \<and> (nmdc \<longrightarrow> cmd_type c = TYPE_CLIENT))"

lemma has_from_not_info: "has_from t \<Longrightarrow> t \<noteq> TYPE_INFO"
  by (auto simp: adc_types)

lemma end_word_OK:
  assumes "end_word st = (PARSE_OK, st')"
  obtains (sender) "has_from (cmd_type (command st))" "toSID (cur st) \<noteq> 0"
      "st' = st\<lparr>command := (command st)\<lparr>cmd_from := toSID (cur st)\<rparr>, fromSet := True\<rparr>"
    | (target) "toSID (cur st) \<noteq> 0" "st' = st\<lparr>command := (command st)\<lparr>cmd_to := toSID (cur st)\<rparr>, toSet := True\<rparr>"
    | (features) "st' = st\<lparr>featureSet := True\<rparr>"
    | (parameter) "st' = st\<lparr>command := addParam (cur st) (command st)\<rparr>"
  using assms unfolding end_word_def Let_def by (simp split: if_splits)

lemma end_word_inv:
  assumes "parse_inv nmdc st" "end_word st = (PARSE_OK, st')"
  shows "parse_inv nmdc st'"
  using assms(2)
proof (cases rule: end_word_OK)
  case sender
  with assms(1) show ?thesis by (simp add: parse_inv_def Let_def has_from_not_info)
next
  case target
  with assms(1) show ?thesis by (simp add: parse_inv_def Let_def)
next
  case features
  with assms(1) show ?thesis by (simp add: parse_inv_def Let_def)
next
  case parameter
  with assms(1) show ?thesis by (simp add: parse_inv_def Let_def addParam_def)
qed

lemma parse_inv_cur [simp]: "parse_inv nmdc (st\<lparr>cur := w\<rparr>) = parse_inv nmdc st"
  by (simp add: parse_inv_def)

lemma parse_loop_inv: "parse_loop nmdc buf st = (PARSE_OK, st') \<Longrightarrow> parse_inv nmdc st \<Longrightarrow> parse_inv nmdc st'"
proof (induction nmdc buf st rule: parse_loop.induct)
  case (2 nmdc x buf st)
  show ?case
  proof (cases "x = CHR 0x5C")
    case True
    then show ?thesis using 2(1-4,7,8) by (auto split: list.splits if_splits)
  next
    case esc: False
    show ?thesis
    proof (cases "x = CHR '' ''")
      case True
      with esc 2(7) obtain st1 where st1: "end_word st = (PARSE_OK, st1)" "parse_loop nmdc buf (st1\<lparr>cur := []\<rparr>) = (PARSE_OK, st')"
        by (auto split: prod.splits ParseResult.splits)
      from 2(5) [OF esc True st1(1) [symmetric] refl st1(2)] end_word_inv [OF 2(8) st1(1)]
      show ?thesis by simp
    next
      case False
      with esc 2(6-8) show ?thesis by simp
    qed
  qed
qed simp

lemma parse_body_inv:
  assumes "parse_body nmdc buf c0 = (PARSE_OK, c)"
    and "parse_inv nmdc \<lparr>command = c0, cur = [], toSet = False, featureSet = False, fromSet = nmdc\<rparr>"
  shows "well_typed nmdc c"
proof -
  from assms(1) obtain st1 st2 where st: "parse_loop nmdc buf
      \<lparr>command = c0, cur = [], toSet = False, featureSet = False, fromSet = nmdc\<rparr> = (PARSE_OK, st1)"
    "parse_last st1 = (PARSE_OK, st2)" "parse_missing st2 = PARSE_OK" "c = command st2"
    by (auto simp: parse_body_def split: prod.splits ParseResult.splits)
  from parse_loop_inv [OF st(1) assms(2)] st(2) have "parse_inv nmdc st2"
    by (auto simp: parse_last_def intro: end_word_inv split: if_splits)
  with st(3,4) show ?thesis
    by (auto simp: parse_missing_settled settled_def parse_inv_def well_typed_def Let_def)
qed

text \<open>
  C14: Whatever text is parsed, a command that the parser accepts is well typed: its type is one of the eight,
  broadcasts, direct, echo and feature commands have a sender, direct and echo commands a
  target, messages of the hub the sender reserved for it; its code is three characters. So every
  handler that the dispatch calls gets the code it is registered for and a well typed command.
\<close>

theorem adc_parse_typed:
  assumes "byte32 (cmdInt c0) 3 = 0"
  shows "(case parse buf nmdc c0 of (PARSE_OK, c) \<Rightarrow> well_typed nmdc c | _ \<Rightarrow> True) \<and>
    (case dispatch buf nmdc of Some (n, c) \<Rightarrow> n \<in> set dispatch_order \<and> cmdInt c = CMD_code n \<and> well_typed nmdc c | None \<Rightarrow> True)"
proof -
  have typed: "well_typed nmdc c" if ok: "parse buf nmdc c0 = (PARSE_OK, c)" and c0: "byte32 (cmdInt c0) 3 = 0" for c c0
  proof -
    define c1 where "c1 = (if nmdc then set_cmdChar (buf ! 4) (buf ! 5) (buf ! 6) (c0\<lparr>cmd_type := TYPE_CLIENT\<rparr>)
                    else set_cmdChar (buf ! 1) (buf ! 2) (buf ! 3) (c0\<lparr>cmd_type := buf ! 0\<rparr>))"
    define c2 where "c2 = (if cmd_type c1 = TYPE_INFO then c1\<lparr>cmd_from := HUB_SID\<rparr> else c1)"
    have body: "valid_type (cmd_type c1)" "parse_body nmdc (drop (if nmdc then 8 else 5) buf) c2 = (PARSE_OK, c)"
      using ok unfolding parse_def c1_def [symmetric] Let_def c2_def [symmetric] by (auto split: if_splits)
    have "byte32 (cmdInt c1) 3 = 0" "nmdc \<Longrightarrow> cmd_type c1 = TYPE_CLIENT"
      using c0 by (simp_all add: c1_def set_cmdChar_def byte_simps)
    with body(1) have "parse_inv nmdc \<lparr>command = c2, cur = [], toSet = False, featureSet = False, fromSet = nmdc\<rparr>"
      by (auto simp: parse_inv_def c2_def adc_types)
    from parse_body_inv [OF body(2) this] show ?thesis .
  qed
  have "byte32 (cmdInt (AdcCommand_new 0 TYPE_CLIENT)) 3 = 0"
    by (simp add: AdcCommand_new_def clear_cmdChar3_def byte_simps)
  with typed [of c0] typed [of "AdcCommand_new 0 TYPE_CLIENT"] assms show ?thesis
    by (auto simp: dispatch_def find_Some_iff split: prod.splits ParseResult.splits option.splits)
qed

lemma adc_parse_typed_witness:
  "byte32 (cmdInt (AdcCommand_new 0 TYPE_CLIENT)) 3 = 0 \<and>
   (case parse ''DMSG AAAB CCCD hi'' False (AdcCommand_new 0 TYPE_CLIENT) of (PARSE_OK, c) \<Rightarrow> well_typed False c | _ \<Rightarrow> False)"
proof -
  have z: "byte32 (cmdInt (AdcCommand_new 0 TYPE_CLIENT)) 3 = 0" by code_simp
  have "fst (parse ''DMSG AAAB CCCD hi'' False (AdcCommand_new 0 TYPE_CLIENT)) = PARSE_OK" by code_simp
  with adc_parse_typed [OF z, where buf = "''DMSG AAAB CCCD hi''" and nmdc = False] z show ?thesis
    by (auto split: prod.splits ParseResult.splits)
qed

section \<open>Named parameters\<close>

definition named :: "u16 \<Rightarrow> string \<Rightarrow> bool" where
  "named name p \<longleftrightarrow> length p \<ge> 2 \<and> toCode p = name"

lemma getParam_loop_named:
  "\<forall>p \<in> set ps. \<not> named name p \<Longrightarrow> named name q \<Longrightarrow> getParam_loop name (ps @ q # qs) = Some (drop 2 q)"
  by (induction ps) (auto simp: named_def)

lemma hasFlag_loop_iff: "hasFlag_loop name ps \<longleftrightarrow> (\<exists>p \<in> set ps. named name p \<and> drop 2 p = ''1'')"
proof (induction ps)
  case (Cons p ps)
  have "length p = 3 \<and> name = toCode p \<and> p ! 2 = CHR ''1'' \<longleftrightarrow> named name p \<and> drop 2 p = ''1''"
    by (cases p; cases "tl p"; cases "tl (tl p)"; auto simp: named_def)
  with Cons show ?case by (simp only: hasFlag_loop.simps) auto
qed simp

lemma toCode_bytes [simp]: "toCode (chr_u8 (byte16 name 0) # chr_u8 (byte16 name (Suc 0)) # val) = name"
  using le16_byte16 [of name] by (simp add: toCode_def)

text \<open>
  A named parameter arrives. The receiver of a command finds under a two-letter name, from any
  position before it, the value that the sender added under it, if the command had no parameter
  of that name before; the flag of that name is set when the value is \<open>1\<close> and only then.
\<close>

theorem adc_named_parameter:
  assumes "printable sid nmdc (addParam_code name val c)"
    and "\<forall>p \<in> set (parameters c). \<not> named name p" "start \<le> length (parameters c)"
  shows "case parse (butlast (toString sid nmdc (addParam_code name val c))) nmdc (AdcCommand_new 0 TYPE_CLIENT) of
      (r, d) \<Rightarrow> r = PARSE_OK \<and> getParam name start d = Some val \<and> (hasFlag name start d \<longleftrightarrow> val = ''1'')"
proof -
  let ?q = "[chr_u8 (byte16 name 0), chr_u8 (byte16 name 1)] @ val"
  have "strip (parameters (addParam_code name val c)) = parameters c @ [?q]"
    by (simp add: strip_def addParam_code_def)
  then have d: "drop start (parameters (received sid (addParam_code name val c))) = drop start (parameters c) @ [?q]"
    using assms(3) by (simp add: received_def)
  have q: "named name ?q" "drop 2 ?q = val" by (simp_all add: named_def)
  have none: "\<forall>p \<in> set (drop start (parameters c)). \<not> named name p"
    using assms(2) by (auto dest: in_set_dropD)
  have "getParam_loop name (drop start (parameters c) @ [?q]) = Some val"
    using getParam_loop_named [OF none q(1), of "[]"] by (simp only: q(2))
  moreover have "hasFlag_loop name (drop start (parameters c) @ [?q]) \<longleftrightarrow> val = ''1''"
    using none q by (auto simp: hasFlag_loop_iff)
  ultimately show ?thesis
    unfolding parse_toString [OF assms(1)] getParam_def hasFlag_def prod.case d by (intro conjI refl)
qed

lemma adc_named_parameter_witness:
  "case parse (butlast (toString (toSID ''AAAB'') False (addParam_code (TAG (CHR ''N'') (CHR ''I'')) ''a b''
      (AdcCommand_new (CMD_code CMD_INF) TYPE_BROADCAST)))) False (AdcCommand_new 0 TYPE_CLIENT) of
    (r, d) \<Rightarrow> r = PARSE_OK \<and> getParam (TAG (CHR ''N'') (CHR ''I'')) 0 d = Some ''a b'' \<and>
      (hasFlag (TAG (CHR ''N'') (CHR ''I'')) 0 d \<longleftrightarrow> ''a b'' = ''1'')"
  by (rule adc_named_parameter) code_simp+

text \<open>
  A line break in a parameter does not survive the old form: it is printed as a backslash and the
  line break, which the parser refuses, with the status of an escape at the end of the line.
\<close>

lemma old_escape_newline:
  "parse (butlast (toString 0 True (addParam [CHR 0x0A] (AdcCommand_new (CMD_code CMD_GET) TYPE_CLIENT)))) True
     (AdcCommand_new 0 TYPE_CLIENT) =
   (PARSE_ERROR_ESCAPE_AT_EOL, AdcCommand_new (CMD_code CMD_GET) TYPE_CLIENT)"
  by code_simp

text \<open>No text makes the parser report an unknown escape: it reports an escape at the end of the line instead.\<close>

lemma end_word_status: "fst (end_word st) \<noteq> PARSE_ERROR_UNKNOWN_ESCAPE"
  by (simp add: end_word_def Let_def)

lemma parse_loop_status: "fst (parse_loop nmdc buf st) \<noteq> PARSE_ERROR_UNKNOWN_ESCAPE"
proof (induction nmdc buf st rule: parse_loop.induct)
  case (2 nmdc x buf st)
  show ?case
  proof (cases "x = CHR 0x5C")
    case True
    with 2(1-4) show ?thesis by (cases buf) auto
  next
    case esc: False
    obtain r st1 where w: "end_word st = (r, st1)" by (cases "end_word st")
    from esc 2(5) [OF esc] 2(6) [OF esc] w end_word_status [of st] show ?thesis
      by (cases "x = CHR '' ''"; cases r) simp_all
  qed
qed simp

end
