(* ===== verification/LruCache.thy ===== *)
theory LruCache
  imports Prelude
begin

text \<open>
  The caches of \<open>src/client/LruCache.h\<close>: \<open>LruCache\<close>, whose items form a list from the oldest to
  the newest through their \<open>next\<close> pointers, and \<open>LruCacheEx\<close>, which also has \<open>prev\<close> pointers
  and can make an item the newest.

  The items live in a \<open>boost::unordered_map\<close>, whose elements do not move while other elements
  come and go, and an item is found under its own key: a pointer to an item is its key.
  Following a pointer to an item that is not in the map is undefined, and \<open>None\<close> here.
\<close>

section \<open>State\<close>

record ('k, 'v) Item =
  item_val :: 'v
  item_next :: "'k option"
  item_prev :: "'k option"

record ('k, 'v) Cache =
  items :: "'k \<rightharpoonup> ('k, 'v) Item"
  oldestItem :: "'k option"
  newestItem :: "'k option"

definition empty_cache :: "('k, 'v) Cache" where
  "empty_cache = \<lparr>items = Map.empty, oldestItem = None, newestItem = None\<rparr>"

text \<open>Writing through a pointer.\<close>

definition upd_item ::
  "'k \<Rightarrow> (('k, 'v) Item \<Rightarrow> ('k, 'v) Item) \<Rightarrow> ('k, 'v) Cache \<Rightarrow> ('k, 'v) Cache option" where
  "upd_item k f c =
     (case items c k of None \<Rightarrow> None | Some i \<Rightarrow> Some (c\<lparr>items := (items c)(k \<mapsto> f i)\<rparr>))"

section \<open>Operations\<close>

text \<open>
  \<open>add\<close> of \<open>LruCache\<close> (the overloads for a constant item and for one that is moved into the map
  differ in that only) and of \<open>LruCacheEx\<close>. The result says whether the item is new.
\<close>

definition lru_add :: "'k \<Rightarrow> 'v \<Rightarrow> ('k, 'v) Cache \<Rightarrow> (bool \<times> ('k, 'v) Cache) option" where
  "lru_add k v c =
     (if items c k \<noteq> None then Some (False, c)
      else
        let c1 = c\<lparr>items := (items c)(k \<mapsto> \<lparr>item_val = v, item_next = None, item_prev = None\<rparr>)\<rparr> in
        Option.bind
          (case newestItem c1 of
             Some n \<Rightarrow> upd_item n (\<lambda>i. i\<lparr>item_next := Some k\<rparr>) c1
           | None \<Rightarrow> Some (c1\<lparr>oldestItem := Some k\<rparr>))
          (\<lambda>c2. Some (True, c2\<lparr>newestItem := Some k\<rparr>)))"

definition lruex_add :: "'k \<Rightarrow> 'v \<Rightarrow> ('k, 'v) Cache \<Rightarrow> (bool \<times> ('k, 'v) Cache) option" where
  "lruex_add k v c =
     (if items c k \<noteq> None then Some (False, c)
      else
        let c1 = c\<lparr>items := (items c)(k \<mapsto> \<lparr>item_val = v, item_next = None, item_prev = None\<rparr>)\<rparr> in
        Option.bind
          (case newestItem c1 of
             Some n \<Rightarrow> upd_item n (\<lambda>i. i\<lparr>item_next := Some k\<rparr>) c1
           | None \<Rightarrow> Some (c1\<lparr>oldestItem := Some k\<rparr>))
          (\<lambda>c2. Option.bind (upd_item k (\<lambda>i. i\<lparr>item_prev := newestItem c2\<rparr>) c2)
            (\<lambda>c3. Some (True, c3\<lparr>newestItem := Some k\<rparr>))))"

definition lru_get :: "'k \<Rightarrow> ('k, 'v) Cache \<Rightarrow> 'v option" where
  "lru_get k c = map_option item_val (items c k)"

definition lru_clear :: "('k, 'v) Cache \<Rightarrow> ('k, 'v) Cache" where
  "lru_clear c = c\<lparr>items := Map.empty, oldestItem := None, newestItem := None\<rparr>"

definition lru_removeOldest :: "('k, 'v) Cache \<Rightarrow> (bool \<times> ('k, 'v) Cache) option" where
  "lru_removeOldest c =
     (case oldestItem c of
        None \<Rightarrow> Some (False, c)
      | Some o1 \<Rightarrow>
          (case items c o1 of
             None \<Rightarrow> None
           | Some i \<Rightarrow>
               let c1 = c\<lparr>items := (items c)(o1 := None), oldestItem := item_next i\<rparr>
               in Some (True, if oldestItem c1 = None then c1\<lparr>newestItem := None\<rparr> else c1)))"

definition lruex_removeOldest :: "('k, 'v) Cache \<Rightarrow> (bool \<times> ('k, 'v) Cache) option" where
  "lruex_removeOldest c =
     (case oldestItem c of
        None \<Rightarrow> Some (False, c)
      | Some o1 \<Rightarrow>
          (case items c o1 of
             None \<Rightarrow> None
           | Some i \<Rightarrow>
               let c1 = c\<lparr>items := (items c)(o1 := None), oldestItem := item_next i\<rparr>
               in case oldestItem c1 of
                    Some o2 \<Rightarrow> map_option (Pair True) (upd_item o2 (\<lambda>i. i\<lparr>item_prev := None\<rparr>) c1)
                  | None \<Rightarrow> Some (True, c1\<lparr>newestItem := None\<rparr>)))"

text \<open>The loop over either of them; \<open>items.size()\<close> is the number of keys.\<close>

partial_function (option) removeOldest_loop ::
  "(('k, 'v) Cache \<Rightarrow> (bool \<times> ('k, 'v) Cache) option) \<Rightarrow> nat \<Rightarrow> ('k, 'v) Cache \<Rightarrow> ('k, 'v) Cache option" where
  "removeOldest_loop rem sizeThreshold c =
     (if card (dom (items c)) \<ge> sizeThreshold
      then Option.bind (rem c)
        (\<lambda>(b, c'). if b then removeOldest_loop rem sizeThreshold c' else Some c')
      else Some c)"

definition makeNewest :: "'k \<Rightarrow> ('k, 'v) Cache \<Rightarrow> ('k, 'v) Cache option" where
  "makeNewest k c =
     Option.bind (items c k) (\<lambda>item.
       case item_next item of
         None \<Rightarrow> Some c
       | Some n \<Rightarrow>
           Option.bind (upd_item n (\<lambda>i. i\<lparr>item_prev := item_prev item\<rparr>) c) (\<lambda>c1.
           Option.bind
             (case item_prev item of
                Some p \<Rightarrow> upd_item p (\<lambda>i. i\<lparr>item_next := Some n\<rparr>) c1
              | None \<Rightarrow> Some (c1\<lparr>oldestItem := Some n\<rparr>)) (\<lambda>c2.
           Option.bind (newestItem c2) (\<lambda>newest.
           Option.bind (upd_item newest (\<lambda>i. i\<lparr>item_next := Some k\<rparr>) c2) (\<lambda>c3.
           Option.bind (upd_item k (\<lambda>i. i\<lparr>item_prev := Some newest, item_next := None\<rparr>) c3) (\<lambda>c4.
           Some (c4\<lparr>newestItem := Some k\<rparr>)))))))"

section \<open>The list of the items\<close>

definition head_or :: "'k list \<Rightarrow> 'k option \<Rightarrow> 'k option" where
  "head_or xs q = (case xs of [] \<Rightarrow> q | x # _ \<Rightarrow> Some x)"

definition last_or :: "'k list \<Rightarrow> 'k option \<Rightarrow> 'k option" where
  "last_or xs p = (if xs = [] then p else Some (last xs))"

lemma head_last_or [simp]:
  "head_or [] q = q" "head_or (x # xs) q = Some x" "last_or [] p = p" "last_or (xs @ [x]) p = Some x"
  "last_or (x # xs) p = last_or xs (Some x)"
  by (simp_all add: head_or_def last_or_def)

lemma last_or_append [simp]: "last_or (xs @ ys) p = last_or ys (last_or xs p)"
  by (cases ys rule: rev_cases) (simp_all add: last_or_def)

lemma head_or_append [simp]: "head_or (xs @ ys) q = head_or xs (head_or ys q)"
  by (cases xs) simp_all

text \<open>
  \<open>linked dbl m p xs q\<close>: in the map \<open>m\<close> the keys \<open>xs\<close> are linked in order, with \<open>p\<close> before them
  (when there are \<open>prev\<close> pointers) and \<open>q\<close> after them.
\<close>

fun linked :: "bool \<Rightarrow> ('k \<rightharpoonup> ('k, 'v) Item) \<Rightarrow> 'k option \<Rightarrow> 'k list \<Rightarrow> 'k option \<Rightarrow> bool" where
  "linked dbl m p [] q \<longleftrightarrow> True"
| "linked dbl m p (x # xs) q \<longleftrightarrow>
     (\<exists>i. m x = Some i \<and> item_next i = head_or xs q \<and> (dbl \<longrightarrow> item_prev i = p)) \<and>
     linked dbl m (Some x) xs q"

lemma linked_append:
  "linked dbl m p (xs @ ys) q \<longleftrightarrow> linked dbl m p xs (head_or ys q) \<and> linked dbl m (last_or xs p) ys q"
  by (induction xs arbitrary: p) auto

lemma linked_cong: "(\<And>k. k \<in> set xs \<Longrightarrow> m k = m' k) \<Longrightarrow> linked dbl m p xs q = linked dbl m' p xs q"
  by (induction xs arbitrary: p) auto

lemma linked_frame [simp]: "k \<notin> set xs \<Longrightarrow> linked dbl (m(k := v)) p xs q = linked dbl m p xs q"
  by (rule linked_cong) auto

definition cache_rep :: "bool \<Rightarrow> 'k list \<Rightarrow> ('k, 'v) Cache \<Rightarrow> bool" where
  "cache_rep dbl xs c \<longleftrightarrow> distinct xs \<and> dom (items c) = set xs \<and> oldestItem c = head_or xs None \<and>
     newestItem c = last_or xs None \<and> linked dbl (items c) None xs None"

lemma rep_mem: "cache_rep dbl xs c \<Longrightarrow> k \<in> set xs \<Longrightarrow> \<exists>i. items c k = Some i"
  by (auto simp: cache_rep_def)

lemma rep_not_mem: "cache_rep dbl xs c \<Longrightarrow> k \<notin> set xs \<Longrightarrow> items c k = None"
  by (auto simp: cache_rep_def)

lemma last_or_cases: "(xs = [] \<and> last_or xs p = p) \<or> (\<exists>ys y. xs = ys @ [y] \<and> last_or xs p = Some y)"
  by (cases xs rule: rev_cases) simp_all

text \<open>Redirecting the \<open>next\<close> pointer of the last item.\<close>

lemma linked_redirect:
  assumes "linked dbl m p (ys @ [y]) q" "y \<notin> set ys" "m y = Some i"
  shows "linked dbl (m(y \<mapsto> i\<lparr>item_next := q'\<rparr>)) p (ys @ [y]) q'"
  using assms by (auto simp: linked_append)

lemma linked_reprev:
  assumes "linked True m p (y # ys) q" "y \<notin> set ys" "m y = Some i"
  shows "linked True (m(y \<mapsto> i\<lparr>item_prev := p'\<rparr>)) p' (y # ys) q"
  using assms by auto

section \<open>Each operation\<close>

lemma lru_add_rep:
  assumes rep: "cache_rep dbl xs c" and k: "k \<notin> set xs" and dbl: "\<not> dbl"
  shows "\<exists>c'. lru_add k v c = Some (True, c') \<and> cache_rep dbl (xs @ [k]) c' \<and>
    (\<forall>j. lru_get j c' = (if j = k then Some v else lru_get j c))"
proof (cases xs rule: rev_cases)
  case Nil
  then show ?thesis
    using rep k by (simp add: lru_add_def cache_rep_def lru_get_def Let_def dbl)
next
  case (snoc ys y)
  obtain i where i: "items c y = Some i" using rep_mem [OF rep] snoc by auto
  have yk: "y \<noteq> k" "y \<notin> set ys" using k snoc rep by (auto simp: cache_rep_def)
  have n: "newestItem c = Some y" using rep by (simp add: cache_rep_def snoc)
  let ?m = "(items c)(k \<mapsto> \<lparr>item_val = v, item_next = None, item_prev = None\<rparr>)"
  let ?c = "c\<lparr>items := ?m(y \<mapsto> i\<lparr>item_next := Some k\<rparr>), newestItem := Some k\<rparr>"
  have run: "lru_add k v c = Some (True, ?c)"
    using rep_not_mem [OF rep k] n i yk by (simp add: lru_add_def upd_item_def Let_def)
  have "linked dbl ?m None (ys @ [y]) None" using rep k by (simp add: cache_rep_def snoc)
  then have "linked dbl (?m(y \<mapsto> i\<lparr>item_next := Some k\<rparr>)) None (ys @ [y]) (Some k)"
    using yk i by (intro linked_redirect) simp_all
  then have "linked dbl (?m(y \<mapsto> i\<lparr>item_next := Some k\<rparr>)) None ((ys @ [y]) @ [k]) None"
    unfolding linked_append using yk dbl by simp
  then have "cache_rep dbl (xs @ [k]) ?c"
    using rep k snoc by (auto simp: cache_rep_def)
  moreover have "lru_get j ?c = (if j = k then Some v else lru_get j c)" for j
    using i yk by (simp add: lru_get_def)
  ultimately show ?thesis using run by blast
qed

lemma lruex_add_rep:
  assumes rep: "cache_rep True xs c" and k: "k \<notin> set xs"
  shows "\<exists>c'. lruex_add k v c = Some (True, c') \<and> cache_rep True (xs @ [k]) c' \<and>
    (\<forall>j. lru_get j c' = (if j = k then Some v else lru_get j c))"
proof (cases xs rule: rev_cases)
  case Nil
  then show ?thesis
    using rep k by (simp add: lruex_add_def cache_rep_def lru_get_def Let_def upd_item_def)
next
  case (snoc ys y)
  obtain i where i: "items c y = Some i" using rep_mem [OF rep] snoc by auto
  have yk: "y \<noteq> k" "y \<notin> set ys" using k snoc rep by (auto simp: cache_rep_def)
  have n: "newestItem c = Some y" using rep by (simp add: cache_rep_def snoc)
  let ?new = "\<lparr>item_val = v, item_next = None, item_prev = Some y\<rparr>"
  let ?m = "(items c)(y \<mapsto> i\<lparr>item_next := Some k\<rparr>, k \<mapsto> ?new)"
  let ?c = "c\<lparr>items := ?m, newestItem := Some k\<rparr>"
  have run: "lruex_add k v c = Some (True, ?c)"
    using rep_not_mem [OF rep k] n i yk
    by (simp add: lruex_add_def upd_item_def Let_def fun_upd_twist [of k y])
  have "linked True (items c) None (ys @ [y]) None" using rep by (simp add: cache_rep_def snoc)
  then have "linked True ((items c)(y \<mapsto> i\<lparr>item_next := Some k\<rparr>)) None (ys @ [y]) (Some k)"
    using yk i by (intro linked_redirect) simp_all
  then have "linked True ?m None (ys @ [y]) (Some k)" using k snoc by simp
  then have "linked True ?m None ((ys @ [y]) @ [k]) None"
    unfolding linked_append using yk by simp
  then have "cache_rep True (xs @ [k]) ?c"
    using rep k snoc by (auto simp: cache_rep_def)
  moreover have "lru_get j ?c = (if j = k then Some v else lru_get j c)" for j
    using i yk by (simp add: lru_get_def)
  ultimately show ?thesis using run by blast
qed

lemma lru_removeOldest_rep:
  assumes rep: "cache_rep False (x # xs) c"
  shows "\<exists>c'. lru_removeOldest c = Some (True, c') \<and> cache_rep False xs c' \<and>
    (\<forall>j. lru_get j c' = (if j = x then None else lru_get j c))"
proof -
  obtain i where i: "items c x = Some i" "item_next i = head_or xs None"
    using rep by (auto simp: cache_rep_def)
  have x: "x \<notin> set xs" and o1: "oldestItem c = Some x" and l: "linked False (items c) (Some x) xs None"
    using rep by (auto simp: cache_rep_def)
  have l': "linked False ((items c)(x := None)) None xs None"
    using l x by (simp add: linked_frame) (cases xs; simp)
  have dom: "dom ((items c)(x := None)) = set xs" using rep x by (auto simp: cache_rep_def)
  show ?thesis
  proof (cases xs)
    case Nil
    then have e: "(items c)(x := None) = Map.empty" using dom by (simp only: dom_eq_empty_conv list.set(1))
    then have "items c j = None" if "j \<noteq> x" for j using that by (metis fun_upd_other)
    then show ?thesis
      using Nil i o1 e by (simp add: lru_removeOldest_def Let_def cache_rep_def lru_get_def)
  next
    case (Cons y ys)
    then show ?thesis
      using i o1 dom l' rep by (simp add: lru_removeOldest_def Let_def cache_rep_def lru_get_def)
  qed
qed

lemma lruex_removeOldest_rep:
  assumes rep: "cache_rep True (x # xs) c"
  shows "\<exists>c'. lruex_removeOldest c = Some (True, c') \<and> cache_rep True xs c' \<and>
    (\<forall>j. lru_get j c' = (if j = x then None else lru_get j c))"
proof -
  obtain i where i: "items c x = Some i" "item_next i = head_or xs None"
    using rep by (auto simp: cache_rep_def)
  have x: "x \<notin> set xs" and o1: "oldestItem c = Some x" and l: "linked True (items c) (Some x) xs None"
    using rep by (auto simp: cache_rep_def)
  have dom: "dom ((items c)(x := None)) = set xs" using rep x by (auto simp: cache_rep_def)
  show ?thesis
  proof (cases xs)
    case Nil
    then have e: "(items c)(x := None) = Map.empty" using dom by (simp only: dom_eq_empty_conv list.set(1))
    then have "items c j = None" if "j \<noteq> x" for j using that by (metis fun_upd_other)
    then show ?thesis
      using Nil i o1 e by (simp add: lruex_removeOldest_def Let_def cache_rep_def lru_get_def)
  next
    case (Cons y ys)
    obtain h where h: "items c y = Some h" using rep_mem [OF rep] Cons by auto
    have yx: "y \<noteq> x" "y \<notin> set ys" using rep Cons by (auto simp: cache_rep_def)
    have "linked True (((items c)(x := None))(y \<mapsto> h\<lparr>item_prev := None\<rparr>)) None (y # ys) None"
      using l x h yx Cons by (intro linked_reprev [of _ "Some x"]) simp_all
    then show ?thesis
      using i o1 dom rep h yx Cons
      by (auto simp: lruex_removeOldest_def upd_item_def Let_def cache_rep_def lru_get_def)
  qed
qed

text \<open>The first half of \<open>makeNewest\<close>: the neighbours of the item are linked to each other.\<close>

lemma makeNewest_unlink:
  assumes rep: "cache_rep True (us @ k # y # ys) c"
  obtains i c1 c2 where "items c k = Some i" "item_next i = Some y"
    "upd_item y (\<lambda>j. j\<lparr>item_prev := item_prev i\<rparr>) c = Some c1"
    "(case item_prev i of Some p \<Rightarrow> upd_item p (\<lambda>j. j\<lparr>item_next := Some y\<rparr>) c1
       | None \<Rightarrow> Some (c1\<lparr>oldestItem := Some y\<rparr>)) = Some c2"
    "linked True (items c2) None (us @ y # ys) None" "items c2 k = Some i"
    "dom (items c2) = dom (items c)" "newestItem c2 = newestItem c"
    "oldestItem c2 = head_or us (Some y)" "\<forall>j. lru_get j c2 = lru_get j c"
proof -
  let ?p = "last_or us None"
  have d: "distinct (us @ k # y # ys)" and l: "linked True (items c) None (us @ k # y # ys) None"
    using rep by (simp_all add: cache_rep_def)
  obtain i where i: "items c k = Some i" "item_next i = Some y" "item_prev i = ?p"
    using l by (auto simp: linked_append)
  obtain h where h: "items c y = Some h" using rep_mem [OF rep] by auto
  have lu: "linked True (items c) None us (Some k)" and ly: "linked True (items c) (Some k) (y # ys) None"
    using l by (simp_all add: linked_append)
  let ?c1 = "c\<lparr>items := (items c)(y \<mapsto> h\<lparr>item_prev := ?p\<rparr>)\<rparr>"
  have s1: "upd_item y (\<lambda>j. j\<lparr>item_prev := item_prev i\<rparr>) c = Some ?c1"
    using h i by (simp add: upd_item_def)
  have l1: "linked True (items ?c1) ?p (y # ys) None" "linked True (items ?c1) None us (Some k)"
    using linked_reprev [OF ly _ h, of ?p] lu d by auto
  have k1: "items ?c1 k = Some i" "dom (items ?c1) = dom (items c)" using i h d by auto
  show thesis
  proof (cases us rule: rev_cases)
    case Nil
    then show ?thesis
      using that [of i ?c1 "?c1\<lparr>oldestItem := Some y\<rparr>"] i s1 l1 k1 h by (simp add: lru_get_def)
  next
    case (snoc us' p)
    obtain g where g: "items c p = Some g" using rep_mem [OF rep, of p] snoc by auto
    have p: "p \<noteq> y" "p \<noteq> k" "p \<notin> set us'" "p \<notin> set ys" using d snoc by auto
    let ?c2 = "?c1\<lparr>items := (items ?c1)(p \<mapsto> g\<lparr>item_next := Some y\<rparr>)\<rparr>"
    have "linked True (items ?c2) None us (Some y)"
      using linked_redirect [of True "items ?c1" None us' p "Some k" g "Some y"] l1(2) p g snoc by simp
    moreover have "linked True (items ?c2) ?p (y # ys) None" using l1(1) p by simp
    ultimately have "linked True (items ?c2) None (us @ y # ys) None" unfolding linked_append by simp
    moreover have "dom (items ?c2) = dom (items c)" using g h by auto
    ultimately show ?thesis
      using that [of i ?c1 ?c2] i s1 g h p rep k1 snoc by (simp add: upd_item_def lru_get_def cache_rep_def)
  qed
qed

lemma makeNewest_rep:
  assumes rep: "cache_rep True (us @ k # vs) c"
  shows "\<exists>c'. makeNewest k c = Some c' \<and> cache_rep True (us @ vs @ [k]) c' \<and>
    (\<forall>j. lru_get j c' = lru_get j c)"
proof (cases vs)
  case Nil
  obtain i where "items c k = Some i" "item_next i = None"
    using rep by (auto simp: cache_rep_def linked_append Nil)
  then show ?thesis using rep Nil by (simp add: makeNewest_def)
next
  case (Cons y ys)
  have rep': "cache_rep True (us @ k # y # ys) c" using rep Cons by simp
  obtain i c1 c2 where i: "items c k = Some i" "item_next i = Some y"
    and s1: "upd_item y (\<lambda>j. j\<lparr>item_prev := item_prev i\<rparr>) c = Some c1"
    and s2: "(case item_prev i of Some p \<Rightarrow> upd_item p (\<lambda>j. j\<lparr>item_next := Some y\<rparr>) c1
       | None \<Rightarrow> Some (c1\<lparr>oldestItem := Some y\<rparr>)) = Some c2"
    and l2: "linked True (items c2) None (us @ y # ys) None" and k2: "items c2 k = Some i"
    and dom: "dom (items c2) = dom (items c)" and n2: "newestItem c2 = newestItem c"
    and o2: "oldestItem c2 = head_or us (Some y)" and g2: "\<forall>j. lru_get j c2 = lru_get j c"
    using makeNewest_unlink [OF rep'] by metis
  obtain zs z where z: "us @ y # ys = zs @ [z]" by (cases "us @ y # ys" rule: rev_cases) auto
  have "set (us @ k # y # ys) = insert k (set (zs @ [z]))" unfolding z [symmetric] by auto
  then have dz: "dom (items c) = insert k (insert z (set zs))" using rep' by (auto simp: cache_rep_def)
  have ks: "k \<notin> set (zs @ [z])" "distinct (zs @ [z])"
    unfolding z [symmetric] using rep' by (auto simp: cache_rep_def)
  obtain w where w: "items c2 z = Some w" using dom dz by auto
  have "last_or (us @ k # y # ys) None = last_or (us @ y # ys) None" by simp
  then have new: "newestItem c = Some z" using rep' unfolding z by (simp add: cache_rep_def)
  let ?m3 = "(items c2)(z \<mapsto> w\<lparr>item_next := Some k\<rparr>)"
  let ?c = "c2\<lparr>items := ?m3(k \<mapsto> i\<lparr>item_prev := Some z, item_next := None\<rparr>), newestItem := Some k\<rparr>"
  have run: "makeNewest k c = Some ?c"
    using i s1 s2 n2 new w k2 ks by (simp add: makeNewest_def upd_item_def)
  have "linked True ?m3 None (zs @ [z]) (Some k)"
    using l2 ks w unfolding z by (intro linked_redirect) auto
  then have l4: "linked True (items ?c) None ((zs @ [z]) @ [k]) None"
    unfolding linked_append using ks by auto
  have d4: "dom (items ?c) = set ((zs @ [z]) @ [k])" using dom dz by auto
  have "head_or us (Some y) = head_or (us @ y # ys) None" by simp
  then have h4: "oldestItem ?c = head_or ((zs @ [z]) @ [k]) None" unfolding z using o2 by simp
  have "us @ vs @ [k] = (zs @ [z]) @ [k]" using z Cons by simp
  then have "cache_rep True (us @ vs @ [k]) ?c"
    using ks l4 d4 h4 unfolding cache_rep_def by (simp only:) (simp, blast)
  moreover have "lru_get j ?c = lru_get j c" for j
    using g2 [rule_format, of j] w k2 i ks by (auto simp: lru_get_def)
  ultimately show ?thesis using run by blast
qed

section \<open>The contract of a cache\<close>

text \<open>
  What the database and the share manager rely on: \<open>rep xs c\<close> says that the keys of the cache
  are \<open>xs\<close>, from the oldest to the newest.
\<close>

locale key_cache =
  fixes add :: "'k \<Rightarrow> 'v \<Rightarrow> ('k, 'v) Cache \<Rightarrow> (bool \<times> ('k, 'v) Cache) option"
    and rem :: "('k, 'v) Cache \<Rightarrow> (bool \<times> ('k, 'v) Cache) option"
    and rep :: "'k list \<Rightarrow> ('k, 'v) Cache \<Rightarrow> bool"
  assumes rep_keys: "rep xs c \<Longrightarrow> distinct xs \<and> dom (items c) = set xs"
    and rep_empty: "rep [] empty_cache"
    and add_new: "\<lbrakk>rep xs c; k \<notin> set xs\<rbrakk> \<Longrightarrow>
      \<exists>c'. add k v c = Some (True, c') \<and> rep (xs @ [k]) c' \<and>
        (\<forall>j. lru_get j c' = (if j = k then Some v else lru_get j c))"
    and add_old: "\<lbrakk>rep xs c; k \<in> set xs\<rbrakk> \<Longrightarrow> add k v c = Some (False, c)"
    and rem_first: "rep (x # xs) c \<Longrightarrow>
      \<exists>c'. rem c = Some (True, c') \<and> rep xs c' \<and>
        (\<forall>j. lru_get j c' = (if j = x then None else lru_get j c))"
    and rem_empty: "rep [] c \<Longrightarrow> rem c = Some (False, c)"
begin

lemma rep_size: "rep xs c \<Longrightarrow> card (dom (items c)) = length xs"
  by (simp add: rep_keys distinct_card)

text \<open>The loop leaves the newest items, fewer than the threshold unless it is zero.\<close>

lemma removeOldest_rep:
  "rep xs c \<Longrightarrow>
   \<exists>c'. removeOldest_loop rem n c = Some c' \<and> rep (drop (Suc (length xs) - n) xs) c' \<and>
     (\<forall>j. lru_get j c' = (if j \<in> set (drop (Suc (length xs) - n) xs) then lru_get j c else None))"
proof (induction xs arbitrary: c)
  case Nil
  have "removeOldest_loop rem n c = Some c"
    by (simp add: removeOldest_loop.simps [of rem n c] rem_empty [OF Nil])
  moreover have "lru_get j c = None" for j
    using rep_keys [OF Nil] by (simp add: lru_get_def)
  ultimately show ?case using Nil by simp
next
  case (Cons x xs)
  have out: "lru_get j c = None" if "j \<notin> set (x # xs)" for j
  proof -
    have "j \<notin> dom (items c)" using rep_keys [OF Cons.prems] that by simp
    then show ?thesis by (simp add: lru_get_def domIff)
  qed
  show ?case
  proof (cases "n \<le> length (x # xs)")
    case True
    obtain c1 where c1: "rem c = Some (True, c1)" "rep xs c1"
      "\<And>j. lru_get j c1 = (if j = x then None else lru_get j c)"
      using rem_first [OF Cons.prems] by blast
    have "removeOldest_loop rem n c = removeOldest_loop rem n c1"
      using True c1(1) rep_size [OF Cons.prems] by (simp add: removeOldest_loop.simps [of rem n c])
    moreover have "drop (Suc (length (x # xs)) - n) (x # xs) = drop (Suc (length xs) - n) xs"
      using True by (simp add: Suc_diff_le)
    moreover have "x \<notin> set (drop (Suc (length xs) - n) xs)"
      using rep_keys [OF Cons.prems] by (auto dest: in_set_dropD)
    ultimately show ?thesis using Cons.IH [OF c1(2)] c1(3) by auto
  next
    case False
    then show ?thesis
      using Cons.prems out rep_size [OF Cons.prems] by (simp add: removeOldest_loop.simps [of rem n c])
  qed
qed

text \<open>The way the caches are used: make room, then add.\<close>

lemma bounded_add:
  assumes "rep xs c" "0 < n"
  shows "\<exists>c1 b c2. removeOldest_loop rem n c = Some c1 \<and> add k v c1 = Some (b, c2) \<and>
    card (dom (items c2)) \<le> n \<and> lru_get k c2 \<noteq> None"
proof -
  let ?ys = "drop (Suc (length xs) - n) xs"
  obtain c1 where c1: "removeOldest_loop rem n c = Some c1" "rep ?ys c1"
    using removeOldest_rep [OF assms(1), of n] by blast
  have len: "length ?ys < n" using assms(2) by simp
  show ?thesis
  proof (cases "k \<in> set ?ys")
    case True
    then have "add k v c1 = Some (False, c1)" by (rule add_old [OF c1(2)])
    moreover have "lru_get k c1 \<noteq> None" using rep_keys [OF c1(2)] True by (auto simp: lru_get_def)
    ultimately show ?thesis using c1 len rep_size [OF c1(2)] by auto
  next
    case False
    then obtain c2 where "add k v c1 = Some (True, c2)" "rep (?ys @ [k]) c2"
      "\<forall>j. lru_get j c2 = (if j = k then Some v else lru_get j c1)"
      using add_new [OF c1(2)] by blast
    then show ?thesis using c1 len rep_size [of "?ys @ [k]" c2] by auto
  qed
qed

end

lemma cache_rep_empty: "cache_rep dbl [] empty_cache"
  by (simp add: cache_rep_def empty_cache_def)

interpretation lru: key_cache lru_add lru_removeOldest "cache_rep False"
proof (unfold_locales, goal_cases)
  case (1 xs c) then show ?case by (simp add: cache_rep_def)
next
  case 2 show ?case by (rule cache_rep_empty)
next
  case (3 xs c k v) then show ?case by (intro lru_add_rep) simp_all
next
  case (4 xs c k v) then show ?case using rep_mem by (fastforce simp: lru_add_def)
next
  case (5 x xs c) then show ?case by (rule lru_removeOldest_rep)
next
  case (6 c) then show ?case by (simp add: lru_removeOldest_def cache_rep_def)
qed

interpretation lruex: key_cache lruex_add lruex_removeOldest "cache_rep True"
proof (unfold_locales, goal_cases)
  case (1 xs c) then show ?case by (simp add: cache_rep_def)
next
  case 2 show ?case by (rule cache_rep_empty)
next
  case (3 xs c k v) then show ?case by (rule lruex_add_rep)
next
  case (4 xs c k v) then show ?case using rep_mem by (fastforce simp: lruex_add_def)
next
  case (5 x xs c) then show ?case by (rule lruex_removeOldest_rep)
next
  case (6 c) then show ?case by (simp add: lruex_removeOldest_def cache_rep_def)
qed

section \<open>Sequences of operations\<close>

text \<open>
  The uses of an \<open>LruCacheEx\<close> (the cache of address information of \<open>DatabaseManager\<close>): adding,
  making room, looking up with \<open>makeNewest\<close> on what was found, clearing.
\<close>

datatype ('k, 'v) cache_op = OpAdd 'k 'v | OpEvict nat | OpTouch 'k | OpClear

fun run_op :: "('k, 'v) cache_op \<Rightarrow> ('k, 'v) Cache \<Rightarrow> ('k, 'v) Cache option" where
  "run_op (OpAdd k v) c = map_option snd (lruex_add k v c)"
| "run_op (OpEvict n) c = removeOldest_loop lruex_removeOldest n c"
| "run_op (OpTouch k) c = (if lru_get k c = None then Some c else makeNewest k c)"
| "run_op OpClear c = Some (lru_clear c)"

fun run_ops :: "('k, 'v) cache_op list \<Rightarrow> ('k, 'v) Cache \<Rightarrow> ('k, 'v) Cache option" where
  "run_ops [] c = Some c"
| "run_ops (op # ops) c = Option.bind (run_op op c) (run_ops ops)"

text \<open>The same on a list of pairs from the oldest to the newest.\<close>

fun abs_op :: "('k, 'v) cache_op \<Rightarrow> ('k \<times> 'v) list \<Rightarrow> ('k \<times> 'v) list" where
  "abs_op (OpAdd k v) l = (if k \<in> fst ` set l then l else l @ [(k, v)])"
| "abs_op (OpEvict n) l = drop (Suc (length l) - n) l"
| "abs_op (OpTouch k) l =
     (case map_of l k of None \<Rightarrow> l | Some v \<Rightarrow> filter (\<lambda>p. fst p \<noteq> k) l @ [(k, v)])"
| "abs_op OpClear l = []"

definition cache_abs :: "('k \<times> 'v) list \<Rightarrow> ('k, 'v) Cache \<Rightarrow> bool" where
  "cache_abs l c \<longleftrightarrow> cache_rep True (map fst l) c \<and> (\<forall>k. lru_get k c = map_of l k)"

lemma map_of_drop:
  "distinct (map fst l) \<Longrightarrow>
   map_of (drop n l) k = (if k \<in> set (drop n (map fst l)) then map_of l k else None)"
proof (induction l arbitrary: n)
  case (Cons p l)
  then show ?case by (cases n) (auto simp: map_of_eq_None_iff drop_map dest: in_set_dropD)
qed simp

lemma filter_split:
  "distinct (map fst (us @ (k, v) # vs)) \<Longrightarrow> filter (\<lambda>p. fst p \<noteq> k) (us @ (k, v) # vs) = us @ vs"
proof -
  assume d: "distinct (map fst (us @ (k, v) # vs))"
  then have "filter (\<lambda>p. fst p \<noteq> k) us = us" "filter (\<lambda>p. fst p \<noteq> k) vs = vs"
    by (auto simp: filter_id_conv rev_image_eqI)
  then show ?thesis by simp
qed

lemma map_of_move:
  "distinct (map fst (us @ (k, v) # vs)) \<Longrightarrow>
   map_of (us @ vs @ [(k, v)]) j = map_of (us @ (k, v) # vs) j"
proof -
  assume d: "distinct (map fst (us @ (k, v) # vs))"
  then have d2: "distinct (map fst (us @ vs @ [(k, v)]))" by auto
  have "set (us @ vs @ [(k, v)]) = set (us @ (k, v) # vs)" by auto
  then show ?thesis using map_of_eqI [of "us @ vs @ [(k, v)]" "us @ (k, v) # vs"] d d2
    by (metis map_of_inject_set)
qed

lemma run_op_refines:
  assumes "cache_abs l c"
  shows "\<exists>c'. run_op op c = Some c' \<and> cache_abs (abs_op op l) c'"
proof -
  have rep: "cache_rep True (map fst l) c" and get: "\<And>k. lru_get k c = map_of l k"
    using assms by (simp_all add: cache_abs_def)
  have d: "distinct (map fst l)" using rep by (simp add: cache_rep_def)
  show ?thesis
  proof (cases op)
    case (OpAdd k v)
    show ?thesis
    proof (cases "k \<in> fst ` set l")
      case True
      then show ?thesis using OpAdd assms lruex.add_old [OF rep, of k v] by simp
    next
      case False
      then obtain c' where "lruex_add k v c = Some (True, c')" "cache_rep True (map fst l @ [k]) c'"
        "\<forall>j. lru_get j c' = (if j = k then Some v else lru_get j c)"
        using lruex.add_new [OF rep, of k v] by auto
      moreover have "map_of l k = None" using False by (simp add: map_of_eq_None_iff)
      ultimately show ?thesis
        using False OpAdd get by (auto simp: cache_abs_def map_add_def split: option.splits)
    qed
  next
    case (OpEvict n)
    then show ?thesis
      using lruex.removeOldest_rep [OF rep, of n] get map_of_drop [OF d]
      by (auto simp: cache_abs_def drop_map)
  next
    case (OpTouch k)
    show ?thesis
    proof (cases "map_of l k")
      case None
      then show ?thesis using OpTouch assms get by simp
    next
      case (Some v)
      then obtain us vs where l: "l = us @ (k, v) # vs" by (metis map_of_SomeD split_list)
      obtain c' where c': "makeNewest k c = Some c'" "cache_rep True (map fst us @ map fst vs @ [k]) c'"
        "\<forall>j. lru_get j c' = lru_get j c"
        using makeNewest_rep [of "map fst us" k "map fst vs" c] rep by (auto simp: l)
      have "abs_op op l = us @ vs @ [(k, v)]"
        using OpTouch Some filter_split [of us k v vs] d by (simp add: l)
      moreover have "map_of (us @ vs @ [(k, v)]) j = map_of l j" for j
        using map_of_move [of us k v vs j] d by (simp add: l)
      ultimately show ?thesis using c' OpTouch Some get by (simp add: cache_abs_def)
    qed
  next
    case OpClear
    then show ?thesis by (simp add: cache_abs_def cache_rep_def lru_clear_def lru_get_def)
  qed
qed

lemma run_ops_refines:
  "cache_abs l c \<Longrightarrow> \<exists>c'. run_ops ops c = Some c' \<and> cache_abs (fold abs_op ops l) c'"
proof (induction ops arbitrary: l c)
  case (Cons op ops)
  obtain c1 where "run_op op c = Some c1" "cache_abs (abs_op op l) c1"
    using run_op_refines [OF Cons.prems] by blast
  then show ?case using Cons.IH [of "abs_op op l" c1] by simp
qed simp

text \<open>
  C27: The cache with \<open>prev\<close> and \<open>next\<close> pointers (\<open>LruCacheEx\<close>) is a list of pairs from the oldest
  to the newest. Every sequence of additions, evictions down to a threshold, look-ups that make the
  item the newest, and clears runs without following a dangling pointer, and the cache has
  afterwards the keys in the order and with the values of the list on which the same
  operations were done.
\<close>

theorem LruCacheEx_refines_list:
  "\<exists>c. run_ops ops empty_cache = Some c \<and> cache_abs (fold abs_op ops []) c"
  using run_ops_refines [of "[]" empty_cache ops] cache_rep_empty [of True]
  by (simp add: cache_abs_def lru_get_def empty_cache_def)

text \<open>
  A cache without \<open>prev\<close> pointers that is filled by making room and then adding
  (\<open>LruCache::removeOldest\<close> with a threshold and \<open>LruCache::add\<close>, as for trees, search results
  and Bloom filters) never has more items than the threshold, has the item afterwards and
  follows no dangling pointer, from every state that such a sequence reaches.
\<close>

theorem LruCache_bounded:
  assumes "cache_rep False xs c" "0 < n"
  shows "\<exists>c1 b c2 ys. removeOldest_loop lru_removeOldest n c = Some c1 \<and> lru_add k v c1 = Some (b, c2) \<and>
    cache_rep False ys c2 \<and> length ys \<le> n \<and> lru_get k c2 \<noteq> None"
proof -
  obtain c1 b c2 where c: "removeOldest_loop lru_removeOldest n c = Some c1" "lru_add k v c1 = Some (b, c2)"
    "card (dom (items c2)) \<le> n" "lru_get k c2 \<noteq> None"
    using lru.bounded_add [OF assms] by blast
  obtain zs where zs: "cache_rep False zs c1" using lru.removeOldest_rep [OF assms(1), of n] c(1) by auto
  obtain ys where ys: "cache_rep False ys c2"
    using lru.add_new [OF zs, of k v] lru.add_old [OF zs, of k v] c(2) zs by (cases "k \<in> set zs") auto
  have "length ys \<le> n" using lru.rep_size [OF ys] c(3) by simp
  then show ?thesis using c ys by blast
qed

end
