(* ===== verification/IpCache.thy ===== *)
theory IpCache
  imports LruCache IpList
begin

text \<open>
  What is known of an address: \<open>src/client/IPInfo.h\<close>, \<open>IpKey.h\<close>, \<open>NetworkUtil.h\<close>, and in
  \<open>DatabaseManager.cpp\<close> the cache of it (the two critical sections of \<open>getIPInfo\<close>,
  \<open>clearCachedP2PGuardData\<close>, \<open>clearIpCache\<close>) and the loaders \<open>loadLocation\<close>, \<open>loadP2PGuard\<close>.

  The rows that an SQLite query returns before it ends or fails are an argument of the loaders. An
  IPv6 address is its sixteen bytes in network order.
\<close>

section \<open>Addresses\<close>

datatype IpAddress = Ip4 Ip4Address | Ip6 bytes

definition ip4_bytes :: "Ip4Address \<Rightarrow> bytes" where
  "ip4_bytes ip = [ucast (drop_bit 24 ip), ucast (drop_bit 16 ip), ucast (drop_bit 8 ip), ucast ip]"

text \<open>\<open>IpKey::setIP\<close>: an IPv4 address has the key of the IPv6 address it is mapped to.\<close>

fun ip_key :: "IpAddress \<Rightarrow> bytes" where
  "ip_key (Ip4 ip) = replicate 10 0 @ [255, 255] @ ip4_bytes ip"
| "ip_key (Ip6 a) = a"

definition isPrivateIp4 :: "Ip4Address \<Rightarrow> bool" where
  "isPrivateIp4 ip \<longleftrightarrow>
     ip AND 0xff000000 = 0x0a000000 \<or> ip AND 0xffff0000 = 0xa9fe0000 \<or> ip AND 0xfff00000 = 0xac100000 \<or>
     ip AND 0xffff0000 = 0xc0a80000 \<or> ip AND 0xffc00000 = 0x64400000"

definition isPublicIp4 :: "Ip4Address \<Rightarrow> bool" where
  "isPublicIp4 ip \<longleftrightarrow> \<not> (isPrivateIp4 ip \<or> ip AND 0xff000000 = 0x7f000000)"

text \<open>The mask is an \<open>int\<close> that the conversion of the operands keeps at its value.\<close>

definition checkPrefix :: "u16 \<Rightarrow> u16 \<Rightarrow> nat \<Rightarrow> bool" where
  "checkPrefix w prefix len \<longleftrightarrow> (ucast w :: u32) AND push_bit (16 - len) 0xFFFF = ucast prefix"

definition isPublicIp6 :: "bytes \<Rightarrow> bool" where
  "isPublicIp6 a = checkPrefix (push_bit 8 (ucast (a ! 0)) OR ucast (a ! 1)) 0x2000 3"

fun isPublicIp :: "IpAddress \<Rightarrow> bool" where
  "isPublicIp (Ip4 ip) = isPublicIp4 ip"
| "isPublicIp (Ip6 a) = isPublicIp6 a"

section \<open>What is known\<close>

record IPInfo =
  known :: u32
  country :: bytes
  location :: bytes
  p2pGuard :: bytes
  countryCode :: u16
  locationImage :: int

definition FLAG_COUNTRY :: u32 where "FLAG_COUNTRY = 1"
definition FLAG_LOCATION :: u32 where "FLAG_LOCATION = 2"
definition FLAG_P2P_GUARD :: u32 where "FLAG_P2P_GUARD = 4"

definition no_info :: IPInfo where
  "no_info = \<lparr>known = 0, country = [], location = [], p2pGuard = [], countryCode = 0, locationImage = 0\<rparr>"

definition clearCountry :: "IPInfo \<Rightarrow> IPInfo" where
  "clearCountry r = r\<lparr>countryCode := 0, country := []\<rparr>"

definition clearLocation :: "IPInfo \<Rightarrow> IPInfo" where
  "clearLocation r = r\<lparr>locationImage := 0, location := []\<rparr>"

text \<open>\<open>loadLocation\<close> and \<open>loadP2PGuard\<close>, given the rows of their queries.\<close>

definition loadLocation :: "(bytes \<times> int) list \<Rightarrow> IPInfo \<Rightarrow> IPInfo" where
  "loadLocation rows result =
     (let result = fold (\<lambda>(s, i) r. r\<lparr>location := s, locationImage := i\<rparr>) rows (clearLocation result)
      in result\<lparr>known := known result OR FLAG_LOCATION\<rparr>)"

definition loadP2PGuard :: "bytes list \<Rightarrow> IPInfo \<Rightarrow> IPInfo" where
  "loadP2PGuard rows result =
     (let result = fold (\<lambda>s r. if p2pGuard r \<noteq> [] then r\<lparr>p2pGuard := (p2pGuard r @ [32, 43, 32]) @ s\<rparr>
          else r\<lparr>p2pGuard := s\<rparr>) rows (result\<lparr>p2pGuard := []\<rparr>)
      in result\<lparr>known := known result OR FLAG_P2P_GUARD\<rparr>)"

section \<open>The cache\<close>

type_synonym ip_cache = "(bytes, IPInfo) Cache"

definition IP_CACHE_SIZE :: nat where "IP_CACHE_SIZE = 3000"

text \<open>The first critical section of \<open>getIPInfo\<close>. The first component says whether it returns.\<close>

definition copy_found :: "u32 \<Rightarrow> IPInfo \<Rightarrow> IPInfo \<Rightarrow> IPInfo" where
  "copy_found found info result =
     (let result = (if found AND FLAG_COUNTRY \<noteq> 0
            then result\<lparr>country := country info, countryCode := countryCode info\<rparr> else result);
          result = (if found AND FLAG_LOCATION \<noteq> 0
            then result\<lparr>location := location info, locationImage := locationImage info\<rparr> else result);
          result = (if found AND FLAG_P2P_GUARD \<noteq> 0 then result\<lparr>p2pGuard := p2pGuard info\<rparr> else result)
      in result\<lparr>known := known result OR found\<rparr>)"

definition ipCache_lookup ::
  "bytes \<Rightarrow> IPInfo \<Rightarrow> u32 \<Rightarrow> ip_cache \<Rightarrow> (bool \<times> u32 \<times> IPInfo \<times> ip_cache) option" where
  "ipCache_lookup k result what c =
     (case lru_get k c of
        None \<Rightarrow> Some (False, what, result, c)
      | Some info \<Rightarrow>
          Option.bind (makeNewest k c) (\<lambda>c.
            let found = what AND known info; result = copy_found found info result; what = what AND NOT found
            in Some (what = 0, what, result, c)))"

text \<open>The second one.\<close>

definition merge_known :: "IPInfo \<Rightarrow> IPInfo \<Rightarrow> IPInfo" where
  "merge_known result info =
     (let info = (if known result AND FLAG_COUNTRY \<noteq> 0
            then info\<lparr>known := known info OR FLAG_COUNTRY, country := country result, countryCode := countryCode result\<rparr>
            else info);
          info = (if known result AND FLAG_LOCATION \<noteq> 0
            then info\<lparr>known := known info OR FLAG_LOCATION, location := location result, locationImage := locationImage result\<rparr>
            else info)
      in if known result AND FLAG_P2P_GUARD \<noteq> 0
         then info\<lparr>known := known info OR FLAG_P2P_GUARD, p2pGuard := p2pGuard result\<rparr> else info)"

definition ipCache_store :: "bytes \<Rightarrow> IPInfo \<Rightarrow> ip_cache \<Rightarrow> ip_cache option" where
  "ipCache_store k result c =
     Option.bind (lruex_add k result c) (\<lambda>(new, c).
     Option.bind (if new then Some c else upd_item k (\<lambda>i. i\<lparr>item_val := merge_known result (item_val i)\<rparr>) c)
       (removeOldest_loop lruex_removeOldest (IP_CACHE_SIZE + 1)))"

definition clearCachedP2PGuardData :: "Ip4Address \<Rightarrow> ip_cache \<Rightarrow> ip_cache option" where
  "clearCachedP2PGuardData ip c =
     (let k = ip_key (Ip4 ip) in
      case lru_get k c of
        None \<Rightarrow> Some c
      | Some info \<Rightarrow>
          upd_item k (\<lambda>i. i\<lparr>item_val := (item_val i)\<lparr>known := known (item_val i) AND NOT FLAG_P2P_GUARD, p2pGuard := []\<rparr>\<rparr>) c)"

definition clearIpCache :: "ip_cache \<Rightarrow> ip_cache" where
  "clearIpCache c = lru_clear c"

section \<open>The cache keeps what is stored\<close>

text \<open>The cache is well linked and not larger than its size.\<close>

definition ip_cache_ok :: "ip_cache \<Rightarrow> bool" where
  "ip_cache_ok c \<longleftrightarrow> (\<exists>ks. cache_rep True ks c \<and> length ks \<le> IP_CACHE_SIZE)"

lemma ip_cache_ok_empty: "ip_cache_ok empty_cache"
  using cache_rep_empty [of True] by (auto simp: ip_cache_ok_def intro!: exI [of _ "[]"])

lemma item_next_val [simp]: "item_next (i\<lparr>item_val := v\<rparr>) = item_next i" "item_prev (i\<lparr>item_val := v\<rparr>) = item_prev i"
  by simp_all

text \<open>Writing the value of an item leaves the links alone.\<close>

lemma linked_set_val:
  "m k = Some i \<Longrightarrow> linked dbl (m(k \<mapsto> i\<lparr>item_val := v\<rparr>)) p xs q = linked dbl m p xs q"
  by (induction xs arbitrary: p) auto

lemma upd_val_rep:
  assumes "cache_rep True ks c" "lru_get k c = Some v"
  shows "\<exists>c'. upd_item k (\<lambda>i. i\<lparr>item_val := f (item_val i)\<rparr>) c = Some c' \<and> cache_rep True ks c' \<and>
    (\<forall>j. lru_get j c' = (if j = k then Some (f v) else lru_get j c))"
proof -
  obtain i where i: "items c k = Some i" "item_val i = v" using assms(2) by (auto simp: lru_get_def)
  let ?c = "c\<lparr>items := (items c)(k \<mapsto> i\<lparr>item_val := f v\<rparr>)\<rparr>"
  have "k \<in> dom (items c)" using i(1) by blast
  then have "cache_rep True ks ?c"
    using assms(1) linked_set_val [of "items c" k i, OF i(1)] by (simp add: cache_rep_def insert_absorb)
  then show ?thesis using i by (auto simp: upd_item_def lru_get_def)
qed

lemma lru_get_mem: "cache_rep dbl ks c \<Longrightarrow> lru_get k c \<noteq> None \<longleftrightarrow> k \<in> set ks"
  by (auto simp: cache_rep_def lru_get_def domIff)

lemma ipCache_store_rep:
  assumes rep: "cache_rep True ks c" and len: "length ks \<le> IP_CACHE_SIZE"
  shows "\<exists>c' ks'. ipCache_store k res c = Some c' \<and> cache_rep True ks' c' \<and> length ks' \<le> IP_CACHE_SIZE \<and>
    lru_get k c' = Some (case lru_get k c of None \<Rightarrow> res | Some info \<Rightarrow> merge_known res info) \<and>
    (\<forall>j. j \<noteq> k \<longrightarrow> lru_get j c' = lru_get j c \<or> lru_get j c' = None \<and> length ks = IP_CACHE_SIZE \<and> j = hd ks)"
proof (cases "lru_get k c")
  case None
  then have k: "k \<notin> set ks" using lru_get_mem [OF rep] by blast
  obtain c1 where c1: "lruex_add k res c = Some (True, c1)" "cache_rep True (ks @ [k]) c1"
    "\<And>j. lru_get j c1 = (if j = k then Some res else lru_get j c)"
    using lruex.add_new [OF rep k] by blast
  let ?ys = "drop (length ks + 1 - IP_CACHE_SIZE) (ks @ [k])"
  obtain c2 where c2: "removeOldest_loop lruex_removeOldest (IP_CACHE_SIZE + 1) c1 = Some c2" "cache_rep True ?ys c2"
    "\<And>j. lru_get j c2 = (if j \<in> set ?ys then lru_get j c1 else None)"
    using lruex.removeOldest_rep [OF c1(2), of "IP_CACHE_SIZE + 1"] by auto
  have run: "ipCache_store k res c = Some c2" using c1(1) c2(1) by (simp add: ipCache_store_def)
  have ys: "?ys = (if length ks = IP_CACHE_SIZE then tl ks else ks) @ [k]"
    using len by (cases ks) (auto simp: IP_CACHE_SIZE_def)
  have other: "lru_get j c2 = lru_get j c \<or> lru_get j c2 = None \<and> length ks = IP_CACHE_SIZE \<and> j = hd ks"
    if "j \<noteq> k" for j
  proof (cases "j \<in> set ?ys")
    case True
    then show ?thesis using c2(3) c1(3) that by simp
  next
    case False
    have "j \<in> set ks \<Longrightarrow> length ks = IP_CACHE_SIZE \<and> j = hd ks"
      using False that unfolding ys by (cases ks) (auto split: if_splits)
    then show ?thesis using False c2(3) lru_get_mem [OF rep, of j] by auto
  qed
  have "length ?ys \<le> IP_CACHE_SIZE" "lru_get k c2 = Some res"
    using len c2(3) [of k] c1(3) unfolding ys by (auto simp: IP_CACHE_SIZE_def)
  then show ?thesis using run c2(2) other None by auto
next
  case (Some info)
  then have k: "k \<in> set ks" using lru_get_mem [OF rep] by blast
  obtain c1 where c1: "upd_item k (\<lambda>i. i\<lparr>item_val := merge_known res (item_val i)\<rparr>) c = Some c1" "cache_rep True ks c1"
    "\<And>j. lru_get j c1 = (if j = k then Some (merge_known res info) else lru_get j c)"
    using upd_val_rep [OF rep Some] by blast
  have "removeOldest_loop lruex_removeOldest (IP_CACHE_SIZE + 1) c1 = Some c1"
    using lruex.rep_size [OF c1(2)] len by (simp add: removeOldest_loop.simps)
  then have "ipCache_store k res c = Some c1"
    using lruex.add_old [OF rep k] c1(1) by (simp add: ipCache_store_def)
  then show ?thesis using c1 len Some by auto
qed

lemma flag_bits:
  "x AND FLAG_COUNTRY = 0 \<longleftrightarrow> \<not> bit x 0" "x AND FLAG_LOCATION = 0 \<longleftrightarrow> \<not> bit x 1"
  "x AND FLAG_P2P_GUARD = 0 \<longleftrightarrow> \<not> bit x 2"
  using and_exp_eq_0_iff_not_bit [of x 0] and_exp_eq_0_iff_not_bit [of x 1] and_exp_eq_0_iff_not_bit [of x 2]
  by (simp_all add: FLAG_COUNTRY_def FLAG_LOCATION_def FLAG_P2P_GUARD_def)

text \<open>A request asks for some of the three parts.\<close>

definition asks :: "u32 \<Rightarrow> bool" where
  "asks what \<longleftrightarrow> what AND NOT (FLAG_COUNTRY OR FLAG_LOCATION OR FLAG_P2P_GUARD) = 0"

lemma flags_mask: "FLAG_COUNTRY OR FLAG_LOCATION OR FLAG_P2P_GUARD = mask 3"
  by (simp add: FLAG_COUNTRY_def FLAG_LOCATION_def FLAG_P2P_GUARD_def mask_eq_decr_exp)

lemma asks_bits:
  assumes "asks what" "bit what n"
  shows "n = 0 \<or> n = 1 \<or> n = 2"
proof -
  have "\<not> bit (what AND NOT (mask 3)) n" using assms(1) by (simp add: asks_def flags_mask)
  then have "n < 3" using assms(2) bit_imp_le_length [OF assms(2)] by (simp add: bit_simps)
  then show ?thesis by auto
qed

lemma bit_or_flags:
  "bit (x OR FLAG_COUNTRY) 0" "bit (x OR FLAG_LOCATION) 1" "bit (x OR FLAG_P2P_GUARD) 2"
  "bit x n \<Longrightarrow> bit (x OR f) n"
  by (simp_all add: FLAG_COUNTRY_def FLAG_LOCATION_def FLAG_P2P_GUARD_def bit_or_iff)

text \<open>\<open>covers r s what\<close>: the record \<open>r\<close> has everything that is asked for, as \<open>s\<close> has it.\<close>

definition covers :: "IPInfo \<Rightarrow> IPInfo \<Rightarrow> u32 \<Rightarrow> bool" where
  "covers r s what \<longleftrightarrow> (\<forall>n. bit what n \<longrightarrow> bit (known r) n) \<and>
     (bit what 0 \<longrightarrow> country r = country s \<and> countryCode r = countryCode s) \<and>
     (bit what 1 \<longrightarrow> location r = location s \<and> locationImage r = locationImage s) \<and>
     (bit what 2 \<longrightarrow> p2pGuard r = p2pGuard s)"

lemma covers_copy: "covers r s what \<Longrightarrow> copy_found what r t = copy_found what s t"
  by (auto simp: covers_def copy_found_def flag_bits)

lemma copy_covers: "\<forall>n. bit what n \<longrightarrow> bit (known s) n \<Longrightarrow> covers s (copy_found what s t) what"
  by (simp add: covers_def copy_found_def flag_bits Let_def)

lemma covers_and: "covers r s what \<Longrightarrow> what AND known r = what"
  by (auto simp: covers_def bit_eq_iff bit_simps)

lemma merge_covers:
  assumes "asks what" "\<forall>n. bit what n \<longrightarrow> bit (known res) n"
  shows "covers (merge_known res info) res what"
proof -
  have "bit (known (merge_known res info)) n" if n: "bit what n" for n
  proof -
    have "bit (known res) n" using assms(2) n by blast
    then show ?thesis using asks_bits [OF assms(1) n]
      by (elim disjE) (simp_all add: merge_known_def flag_bits Let_def bit_or_flags bit_or_flags [simplified])
  qed
  moreover have "bit what 0 \<longrightarrow> bit (known res) 0" "bit what 1 \<longrightarrow> bit (known res) 1" "bit what 2 \<longrightarrow> bit (known res) 2"
    using assms(2) by blast+
  ultimately show ?thesis by (simp add: covers_def merge_known_def flag_bits Let_def)
qed

lemma covers_self: "\<forall>n. bit what n \<longrightarrow> bit (known res) n \<Longrightarrow> covers res res what"
  by (simp add: covers_def)

text \<open>The first critical section leaves the same contents.\<close>

lemma makeNewest_ok:
  assumes "cache_rep True ks c" "lru_get k c \<noteq> None"
  shows "\<exists>c' ks'. makeNewest k c = Some c' \<and> cache_rep True ks' c' \<and> length ks' = length ks \<and>
    (\<forall>j. lru_get j c' = lru_get j c)"
proof -
  obtain us vs where ks: "ks = us @ k # vs" using assms lru_get_mem [OF assms(1)] by (meson split_list)
  then obtain c' where "makeNewest k c = Some c'" "cache_rep True (us @ vs @ [k]) c'" "\<forall>j. lru_get j c' = lru_get j c"
    using makeNewest_rep [of us k vs c] assms(1) by auto
  then show ?thesis using ks by (intro exI [of _ c'] exI [of _ "us @ vs @ [k]"]) simp
qed

lemma ipCache_lookup_rep:
  assumes "ip_cache_ok c"
  shows "\<exists>c'. ip_cache_ok c' \<and> (\<forall>j. lru_get j c' = lru_get j c) \<and>
    ipCache_lookup k r what c = Some (case lru_get k c of
      None \<Rightarrow> (False, what, r, c')
    | Some info \<Rightarrow> (what AND NOT (known info) = 0, what AND NOT (known info), copy_found (what AND known info) info r, c'))"
proof (cases "lru_get k c")
  case None
  then show ?thesis using assms by (auto simp: ipCache_lookup_def)
next
  case (Some info)
  have e: "what AND NOT (what AND known info) = what AND NOT (known info)"
    by (auto simp: bit_eq_iff bit_simps)
  obtain ks where "cache_rep True ks c" "length ks \<le> IP_CACHE_SIZE" using assms by (auto simp: ip_cache_ok_def)
  then obtain c' where "makeNewest k c = Some c'" "ip_cache_ok c'" "\<forall>j. lru_get j c' = lru_get j c"
    using makeNewest_ok [of ks c k] Some unfolding ip_cache_ok_def by fastforce
  then show ?thesis using Some by (simp add: ipCache_lookup_def Let_def e del: bit.de_Morgan_conj)
qed

text \<open>A request that the stored record covers is answered from the cache.\<close>

lemma ipCache_hit:
  assumes "ip_cache_ok c" "lru_get k c = Some info" "covers info res what"
  shows "\<exists>c'. ip_cache_ok c' \<and> (\<forall>j. lru_get j c' = lru_get j c) \<and>
    ipCache_lookup k r what c = Some (True, 0, copy_found what res r, c')"
proof -
  have "what AND NOT (known info) = 0" using assms(3) by (auto simp: covers_def bit_eq_iff bit_simps)
  then show ?thesis
    using ipCache_lookup_rep [OF assms(1), of k r what] assms(2) covers_and [OF assms(3)] covers_copy [OF assms(3)]
    by auto
qed

end
