(* ===== verification/GeoIp.thy ===== *)
theory GeoIp
  imports MmdbOpen MmdbFormat AdcCommand IpCache
begin

text \<open>
  Location of addresses in \<open>src/client/DatabaseManager.cpp\<close>: the MaxMind database is opened on demand
  (\<open>openGeoIPDatabaseL\<close>, \<open>closeGeoIPDatabaseL\<close>), the country of an address is read from it
  (\<open>loadGeoIPInfo\<close>, \<open>getMMDBString\<close>), and \<open>getIPInfo\<close> answers from the cache of addresses or loads
  what is missing and stores it.

  The result of \<open>MMDB_open\<close> on the configured file, the clock, the machine (the contents of an
  uninitialised \<open>MMDB_entry_data_s\<close>, the width of \<open>long\<close>) and the rows of the two SQLite queries are arguments. \<open>None\<close> is a read
  outside the mapped file or through a dangling pointer.
\<close>

section \<open>The database handle\<close>

record GeoState =
  mmdb :: "MMDB_s option"
  timeCheckMmdb :: u64

definition openGeoIPDatabaseL :: "meta_result \<Rightarrow> u64 \<Rightarrow> GeoState \<Rightarrow> (bool \<times> GeoState) option" where
  "openGeoIPDatabaseL opened now st =
     (if mmdb st \<noteq> None then Some (True, st)
      else if now < timeCheckMmdb st then Some (False, st)
      else Option.bind opened (\<lambda>(status, db).
        if status = MMDB_SUCCESS then Some (True, st\<lparr>mmdb := Some db, timeCheckMmdb := 0\<rparr>)
        else Some (False, st\<lparr>mmdb := None, timeCheckMmdb := now + 600000\<rparr>)))"

definition closeGeoIPDatabaseL :: "GeoState \<Rightarrow> GeoState option" where
  "closeGeoIPDatabaseL st =
     (case mmdb st of
        None \<Rightarrow> Some (st\<lparr>timeCheckMmdb := 0\<rparr>)
      | Some db \<Rightarrow> Option.bind (MMDB_close db) (\<lambda>_. Some (st\<lparr>mmdb := None, timeCheckMmdb := 0\<rparr>)))"

section \<open>The country of an address\<close>

fun toSockAddr :: "IpAddress \<Rightarrow> sockaddr" where
  "toSockAddr (Ip4 ip) = Sockaddr_in (ip4_bytes ip)"
| "toSockAddr (Ip6 a) = Sockaddr_in6 a"

definition getMMDBString ::
  "machine \<Rightarrow> MMDB_s \<Rightarrow> MMDB_lookup_result_s \<Rightarrow> bytes list \<Rightarrow> bytes option" where
  "getMMDBString mach db lres path =
     Option.bind (MMDB_aget_value mach db (entry_offset lres) path) (\<lambda>(error, d).
       if error \<noteq> MMDB_SUCCESS \<or> \<not> has_data d \<or> e_type d \<noteq> MMDB_DATA_TYPE_UTF8_STRING then Some []
       else entry_string db d)"

definition path_of :: "string list \<Rightarrow> bytes list" where
  "path_of = map (map u8_chr)"

definition loadGeoIPInfo ::
  "machine \<Rightarrow> meta_result \<Rightarrow> u64 \<Rightarrow> IpAddress \<Rightarrow> IPInfo \<Rightarrow> GeoState \<Rightarrow> (bool \<times> IPInfo \<times> GeoState) option" where
  "loadGeoIPInfo mach opened now ip result st =
     Option.bind (openGeoIPDatabaseL opened now st) (\<lambda>(ok, st).
     if \<not> ok then Some (False, result, st)
     else Option.bind (mmdb st) (\<lambda>db.
       let result = result\<lparr>known := known result OR FLAG_COUNTRY, countryCode := 0\<rparr> in
       Option.bind (MMDB_lookup_sockaddr db (toSockAddr ip)) (\<lambda>(error, lres).
       if error \<noteq> MMDB_SUCCESS then Some (False, result, st)
       else Option.bind (getMMDBString mach db lres (path_of [''country'', ''iso_code''])) (\<lambda>code.
         if length code \<noteq> 2 then Some (False, result, st)
         else Option.bind (getMMDBString mach db lres (path_of [''country'', ''names'', ''en''])) (\<lambda>name.
           if name = [] then Some (False, result, st)
           else
             let code = asciiMakeLower code in
             Some (True, result\<lparr>country := name,
               countryCode := TAG (chr_u8 (code ! 0)) (chr_u8 (code ! 1))\<rparr>, st))))))"

lemma getMMDBString_rep:
  assumes "db_ok db" "rep db (entry_offset lres) v n" "tree_get (long64 mach) v path = Inr (MString s)"
  shows "getMMDBString mach db lres path = Some s"
  using aget_value_rep [OF assms(1,2), of mach path] assms(3)
  by (auto simp: getMMDBString_def shows_val_def)

lemma loadGeoIPInfo_run:
  assumes db: "mmdb st = Some db" "db_ok db"
    and found: "MMDB_lookup_sockaddr db (toSockAddr ip) = Some (MMDB_SUCCESS, lres)" "rep db (entry_offset lres) v n"
    and code: "tree_get (long64 mach) v (path_of [''country'', ''iso_code'']) = Inr (MString [a, b])"
    and name: "tree_get (long64 mach) v (path_of [''country'', ''names'', ''en'']) = Inr (MString name)" "name \<noteq> []"
  shows "loadGeoIPInfo mach opened now ip result st =
    Some (True, result\<lparr>known := known result OR FLAG_COUNTRY, country := name,
      countryCode := TAG (chr_u8 (asciiToLower a)) (chr_u8 (asciiToLower b))\<rparr>, st)"
  using db found(1) name(2) getMMDBString_rep [OF db(2) found(2) code]
    getMMDBString_rep [OF db(2) found(2) name(1)]
  by (simp add: loadGeoIPInfo_def openGeoIPDatabaseL_def Let_def asciiMakeLower_def)

text \<open>
  C29: The country of an address (\<open>DatabaseManager::loadGeoIPInfo\<close> on \<open>MMDB_lookup_sockaddr\<close> and
  \<open>MMDB_aget_value\<close>). When the lookup of the address ends at a record whose place in the data
  section represents a value with a two-letter code under country/iso\_code and a non-empty name under
  country/names/en, the result has that name, the code in lower case, and is marked as known.
\<close>

theorem loadGeoIPInfo_country:
  assumes db: "mmdb st = Some db" "db_ok db"
    and found: "MMDB_lookup_sockaddr db (toSockAddr ip) = Some (MMDB_SUCCESS, lres)" "rep db (entry_offset lres) v n"
    and code: "tree_get (long64 mach) v (path_of [''country'', ''iso_code'']) = Inr (MString [a, b])"
    and name: "tree_get (long64 mach) v (path_of [''country'', ''names'', ''en'']) = Inr (MString name)" "name \<noteq> []"
  shows "loadGeoIPInfo mach opened now ip result st =
    Some (True, result\<lparr>known := known result OR FLAG_COUNTRY, country := name,
      countryCode := TAG (chr_u8 (asciiToLower a)) (chr_u8 (asciiToLower b))\<rparr>, st)"
  by (rule loadGeoIPInfo_run [OF assms])

text \<open>A database of one node: addresses whose first bit is 0 lead to the record, others to none.\<close>

definition geo_doc :: doc where
  "geo_doc = DMap [(map u8_chr ''country'', DMap [(map u8_chr ''iso_code'', DString [68, 69]),
     (map u8_chr ''names'', DMap [(map u8_chr ''en'', DString (map u8_chr ''Germany''))])])]"

definition geo_db :: MMDB_s where
  "geo_db = (blank_db ([0, 0, 17, 0, 0, 1] @ replicate 16 0 @ enc geo_doc))\<lparr>data_section := 22,
     data_section_size := of_nat (length (enc geo_doc))\<rparr>"

lemma geo_enc: "enc geo_doc =
    [225, 71, 99, 111, 117, 110, 116, 114, 121, 226, 72, 105, 115, 111, 95, 99, 111, 100, 101, 66, 68, 69,
     69, 110, 97, 109, 101, 115, 225, 66, 101, 110, 71, 71, 101, 114, 109, 97, 110, 121]"
  by code_simp

lemma geo_ok: "db_ok geo_db" "bytes_at geo_db 0 (enc geo_doc)" "sizes_ok geo_doc"
proof -
  have n: "length (enc geo_doc) = 40" by (simp add: geo_enc)
  show "db_ok geo_db" by (simp add: db_ok_def geo_db_def blank_db_def n)
  show "bytes_at geo_db 0 (enc geo_doc)" by (simp add: bytes_at_def geo_db_def blank_db_def n nth_append)
  show "sizes_ok geo_doc" by (simp add: geo_doc_def max_size_def)
qed

lemma geo_rep:
  "rep geo_db (entry_offset \<lparr>found_entry = b, entry_offset = 0, netmask = m\<rparr>) (meaning geo_doc)
     (of_nat (length (enc geo_doc)))"
  using rep0_rep_rep_list_rep_map.direct [OF enc_rep(1) [OF geo_ok]] by simp

lemma geo_file: "geo_db =
    (blank_db [0, 0, 17, 0, 0, 1, 0, 0, 0, 0, 0, 0, 0, 0, 0, 0, 0, 0, 0, 0, 0, 0,
     225, 71, 99, 111, 117, 110, 116, 114, 121, 226, 72, 105, 115, 111, 95, 99, 111, 100, 101, 66, 68, 69,
     69, 110, 97, 109, 101, 115, 225, 66, 101, 110, 71, 71, 101, 114, 109, 97, 110, 121])\<lparr>data_section := 22,
     data_section_size := 40\<rparr>"
  by (simp add: geo_db_def geo_enc numeral_eq_Suc)

lemma geo_lookup:
  "MMDB_lookup_sockaddr geo_db (toSockAddr (Ip4 0x50000001)) =
     Some (MMDB_SUCCESS, \<lparr>found_entry = True, entry_offset = 0, netmask = 1\<rparr>)"
  "MMDB_lookup_sockaddr geo_db (toSockAddr (Ip4 0xC8000001)) =
     Some (MMDB_SUCCESS, \<lparr>found_entry = False, entry_offset = 0, netmask = 1\<rparr>)"
  unfolding geo_file by code_simp+

lemma geo_paths:
  "tree_get w (meaning geo_doc) (path_of [''country'', ''iso_code'']) = Inr (MString [68, 69])"
  "tree_get w (meaning geo_doc) (path_of [''country'', ''names'', ''en'']) = Inr (MString (map u8_chr ''Germany''))"
  by code_simp+

definition de_info :: IPInfo where
  "de_info = no_info\<lparr>known := FLAG_COUNTRY, country := map u8_chr ''Germany'', countryCode := TAG (CHR ''d'') (CHR ''e'')\<rparr>"

lemma geo_code: "no_info\<lparr>known := known no_info OR FLAG_COUNTRY, country := map u8_chr ''Germany'',
    countryCode := TAG (chr_u8 (asciiToLower 68)) (chr_u8 (asciiToLower 69))\<rparr> = de_info"
  by code_simp

theorem loadGeoIPInfo_country_witness:
  "loadGeoIPInfo windows None 0 (Ip4 0x50000001) no_info \<lparr>mmdb = Some geo_db, timeCheckMmdb = 0\<rparr> =
    Some (True, de_info, \<lparr>mmdb = Some geo_db, timeCheckMmdb = 0\<rparr>)"
  unfolding geo_code [symmetric]
  by (rule loadGeoIPInfo_country [OF _ geo_ok(1) geo_lookup(1) geo_rep geo_paths]) simp_all

text \<open>
  \<open>loadGeoIPInfo\<close> does not look at \<open>found_entry\<close>: an address that is not in the database has the
  entry offset 0 in its lookup result, and gets the country of the record that is first in the data
  section.
\<close>

lemma unknown_address_located:
  "loadGeoIPInfo windows None 0 (Ip4 0xC8000001) no_info \<lparr>mmdb = Some geo_db, timeCheckMmdb = 0\<rparr> =
    Some (True, de_info, \<lparr>mmdb = Some geo_db, timeCheckMmdb = 0\<rparr>)"
  unfolding geo_code [symmetric]
  by (rule loadGeoIPInfo_run [OF _ geo_ok(1) geo_lookup(2) geo_rep geo_paths]) simp_all

section \<open>Every file content and address\<close>

text \<open>What a successful \<open>MMDB_open\<close> establishes, and with it the state of the manager.\<close>

definition ready :: "MMDB_s \<Rightarrow> bool" where
  "ready db \<longleftrightarrow> db_ok db \<and> tree_ok db \<and>
     (ip_version (metadata db) = 4 \<and> depth db = 32 \<or> ip_version (metadata db) = 6 \<and> depth db = 128)"

definition geo_inv :: "GeoState \<Rightarrow> bool" where
  "geo_inv st \<longleftrightarrow> (case mmdb st of None \<Rightarrow> True | Some db \<Rightarrow> ready db)"

definition opens_ready :: "meta_result \<Rightarrow> bool" where
  "opens_ready opened \<longleftrightarrow> (\<exists>status db. opened = Some (status, db) \<and> (status = MMDB_SUCCESS \<longrightarrow> ready db))"

lemma MMDB_open_ready:
  assumes "maps_whole map_file" "MMDB_open h map_file mach fname fl db0 = Some (status, db)"
  shows "opens_ready (MMDB_open h map_file mach fname fl db0)"
  using open_establishes [OF assms(1), of h mach fname fl db0 db] assms(2)
  by (auto simp: opens_ready_def ready_def)

definition ip_wf :: "IpAddress \<Rightarrow> bool" where
  "ip_wf ip \<longleftrightarrow> (case ip of Ip4 _ \<Rightarrow> True | Ip6 a \<Rightarrow> length a = 16)"

subsection \<open>The walk through the tree\<close>

lemma search_loop_returns:
  assumes "tree_ok db" "d \<le> 8 * length address"
  shows "\<exists>w. search_loop db (record_info_for_database db) address (d - k) v k = Some (Inr w)"
proof (cases "k \<le> d")
  case True
  then show ?thesis using search_loop_path [OF assms(1), of k "d - k" address v] assms(2) by auto
qed simp

lemma find_address_returns:
  assumes "tree_ok db" "unat (depth db) \<le> 8 * length address"
  shows "\<exists>status lres. find_address_in_search_tree db address family result = Some (status, lres)"
proof -
  obtain v k where vk: "(if ip_version (metadata db) = 6 \<and> family = AF_INET
      then (ucast (node_value (ipv4_start_node db)), unat (s_netmask (ipv4_start_node db))) else (0, 0)) = (v :: u64, k)"
    by fastforce
  obtain w j where "search_loop db (record_info_for_database db) address (unat (depth db) - k) v k = Some (Inr (w, j))"
    using search_loop_returns [OF assms, of k v] by auto
  then show ?thesis
    using vk by (auto simp: find_address_in_search_tree_def Let_def split: if_splits)
qed

lemma lookup_returns:
  assumes "ready db" "ip_wf ip"
  shows "\<exists>status lres. MMDB_lookup_sockaddr db (toSockAddr ip) = Some (status, lres)"
  using assms find_address_returns [of db]
  by (cases ip) (auto simp: MMDB_lookup_sockaddr_def ready_def ip_wf_def ip4_bytes_def)

subsection \<open>The strings\<close>

definition text_in :: "MMDB_s \<Rightarrow> MMDB_entry_data_s \<Rightarrow> bool" where
  "text_in db e \<longleftrightarrow> (e_type e = MMDB_DATA_TYPE_UTF8_STRING \<longrightarrow> string_in db e)"

lemma follow_text: "db_ok db \<Longrightarrow> decode_one_follow db off mach = Some (MMDB_SUCCESS, e) \<Longrightarrow> text_in db e"
  using follow_total [of db off mach] by (auto simp: text_in_def)

lemma lookup_map_text:
  "db_ok db \<Longrightarrow> lookup_map_loop mach s db n off ed = Some (MMDB_SUCCESS, e) \<Longrightarrow> text_in db e"
proof (induction n arbitrary: off)
  case (Suc n)
  show ?case
    using Suc.prems(2) Suc.IH [OF Suc.prems(1)] follow_text [OF Suc.prems(1)]
    by (auto split: bind_split_asm if_split_asm prod.split_asm)
qed simp

lemma lookup_array_text:
  "db_ok db \<Longrightarrow> lookup_path_in_array mach s db ed = Some (MMDB_SUCCESS, e) \<Longrightarrow> text_in db e"
  using follow_text [of db]
  by (auto simp: lookup_path_in_array_def checked_def array_index_def Let_def
      split: bind_split_asm if_split_asm prod.split_asm sum.split_asm)

lemma aget_loop_text:
  "db_ok db \<Longrightarrow> text_in db ed \<Longrightarrow> aget_loop mach db path ed = Some (MMDB_SUCCESS, e) \<Longrightarrow> text_in db e"
proof (induction path arbitrary: ed)
  case (Cons p path)
  show ?case
    using Cons.prems(3)
    by (auto simp: lookup_path_in_map_def split: bind_split_asm if_split_asm prod.split_asm
        dest: lookup_map_text [OF Cons.prems(1)] lookup_array_text [OF Cons.prems(1)] intro: Cons.IH [OF Cons.prems(1)])
qed simp

lemma aget_value_text:
  assumes "db_ok db" "MMDB_aget_value mach db off path = Some (MMDB_SUCCESS, e)"
  shows "text_in db e"
  using assms(2)
  by (auto simp: MMDB_aget_value_def checked_def split: bind_split_asm if_split_asm prod.split_asm
      dest: follow_text [OF assms(1)] intro: aget_loop_text [OF assms(1)])

lemma entry_string_in: "db_ok db \<Longrightarrow> string_in db e \<Longrightarrow> \<exists>s. entry_string db e = Some s"
  by (auto simp: string_in_def entry_string_def db_ok_def split: option.splits)

lemma getMMDBString_returns:
  assumes "db_ok db"
  shows "\<exists>s. getMMDBString mach db lres path = Some s"
proof -
  obtain status e where r: "MMDB_aget_value mach db (entry_offset lres) path = Some (status, e)"
    using aget_value_returns [OF assms] by blast
  show ?thesis
  proof (cases "status \<noteq> MMDB_SUCCESS \<or> \<not> has_data e \<or> e_type e \<noteq> MMDB_DATA_TYPE_UTF8_STRING")
    case False
    then have "string_in db e" using r aget_value_text [OF assms, of mach] by (auto simp: text_in_def)
    then show ?thesis using r False entry_string_in [OF assms] by (simp add: getMMDBString_def)
  qed (simp add: getMMDBString_def r)
qed

subsection \<open>The country\<close>

lemma open_returns:
  assumes "geo_inv st" "opens_ready opened"
  shows "\<exists>ok st'. openGeoIPDatabaseL opened now st = Some (ok, st') \<and> geo_inv st' \<and> (ok \<longrightarrow> mmdb st' \<noteq> None)"
  using assms by (auto simp: openGeoIPDatabaseL_def opens_ready_def geo_inv_def)

lemma loadGeoIPInfo_returns:
  assumes "geo_inv st" "opens_ready opened" "ip_wf ip"
  shows "\<exists>b r st'. loadGeoIPInfo mach opened now ip result st = Some (b, r, st') \<and> geo_inv st'"
proof -
  obtain ok st' where op: "openGeoIPDatabaseL opened now st = Some (ok, st')" "geo_inv st'" "ok \<longrightarrow> mmdb st' \<noteq> None"
    using open_returns [OF assms(1,2)] by blast
  show ?thesis
  proof (cases "mmdb st'")
    case None
    then show ?thesis using op by (intro exI [of _ False]) (simp add: loadGeoIPInfo_def)
  next
    case (Some db)
    then have db: "ready db" "db_ok db" using op(2) by (simp_all add: geo_inv_def ready_def)
    obtain status lres where "MMDB_lookup_sockaddr db (toSockAddr ip) = Some (status, lres)"
      using lookup_returns [OF db(1) assms(3)] by blast
    moreover obtain code where "getMMDBString mach db lres (path_of [''country'', ''iso_code'']) = Some code"
      using getMMDBString_returns [OF db(2)] by blast
    moreover obtain name where "getMMDBString mach db lres (path_of [''country'', ''names'', ''en'']) = Some name"
      using getMMDBString_returns [OF db(2)] by blast
    ultimately show ?thesis using op Some by (auto simp: loadGeoIPInfo_def Let_def)
  qed
qed

section \<open>Everything known of an address\<close>

text \<open>
  What \<open>getIPInfo\<close> depends on: the outcome of opening the database, the clock, the option
  \<open>USE_CUSTOM_LOCATIONS\<close>, and the connection to the SQLite database, given by the rows that the two
  queries return for an address.
\<close>

record IpEnv =
  opened_db :: meta_result
  tick :: u64
  machine_of :: machine
  useCustomLocations :: bool
  conn :: "((Ip4Address \<Rightarrow> (bytes \<times> int) list) \<times> (Ip4Address \<Rightarrow> bytes list)) option"

definition load_country :: "IpEnv \<Rightarrow> IpAddress \<Rightarrow> IPInfo \<Rightarrow> GeoState \<Rightarrow> (IPInfo \<times> GeoState) option" where
  "load_country env ip result st =
     (let result = clearCountry result in
      if isPublicIp ip then map_option snd (loadGeoIPInfo (machine_of env) (opened_db env) (tick env) ip result st)
      else Some (result\<lparr>known := known result OR FLAG_COUNTRY\<rparr>, st))"

definition load_location :: "IpEnv \<Rightarrow> IpAddress \<Rightarrow> IPInfo \<Rightarrow> IPInfo" where
  "load_location env ip result =
     (case ip of
        Ip4 a \<Rightarrow>
          if useCustomLocations env
          then (case conn env of Some (rows, _) \<Rightarrow> loadLocation (rows a) result | None \<Rightarrow> result)
          else result\<lparr>known := known result OR FLAG_LOCATION\<rparr>
      | Ip6 _ \<Rightarrow> result\<lparr>known := known result OR FLAG_LOCATION\<rparr>)"

definition load_p2pGuard :: "IpEnv \<Rightarrow> IpAddress \<Rightarrow> IPInfo \<Rightarrow> IPInfo" where
  "load_p2pGuard env ip result =
     (case ip of
        Ip4 a \<Rightarrow> (case conn env of Some (_, rows) \<Rightarrow> loadP2PGuard (rows a) result | None \<Rightarrow> result)
      | Ip6 _ \<Rightarrow> result\<lparr>known := known result OR FLAG_P2P_GUARD\<rparr>)"

definition load_missing ::
  "IpEnv \<Rightarrow> IpAddress \<Rightarrow> u32 \<Rightarrow> IPInfo \<Rightarrow> GeoState \<Rightarrow> (IPInfo \<times> GeoState) option" where
  "load_missing env ip what result st =
     Option.bind (if what AND FLAG_COUNTRY \<noteq> 0 then load_country env ip result st else Some (result, st)) (\<lambda>(result, st).
     let result = (if what AND FLAG_LOCATION \<noteq> 0 then load_location env ip result else result);
         result = (if what AND FLAG_P2P_GUARD \<noteq> 0 then load_p2pGuard env ip result else result)
     in Some (result, st))"

definition getIPInfo ::
  "IpEnv \<Rightarrow> IpAddress \<Rightarrow> IPInfo \<Rightarrow> u32 \<Rightarrow> bool \<Rightarrow> GeoState \<times> ip_cache \<Rightarrow> (IPInfo \<times> GeoState \<times> ip_cache) option" where
  "getIPInfo env ip result what onlyCached = (\<lambda>(st, c).
     Option.bind (ipCache_lookup (ip_key ip) result what c) (\<lambda>(ret, what, result, c).
     if ret \<or> onlyCached then Some (result, st, c)
     else
       Option.bind (load_missing env ip what result st) (\<lambda>(result, st).
       Option.bind (ipCache_store (ip_key ip) result c) (\<lambda>c. Some (result, st, c)))))"

lemma load_country_returns:
  assumes "geo_inv st" "opens_ready (opened_db env)" "ip_wf ip"
  shows "\<exists>r st'. load_country env ip result st = Some (r, st') \<and> geo_inv st'"
  using loadGeoIPInfo_returns [OF assms, of "machine_of env" "tick env" "clearCountry result"] assms(1)
  by (auto simp: load_country_def Let_def)

lemma load_missing_returns:
  assumes "geo_inv st" "opens_ready (opened_db env)" "ip_wf ip"
  shows "\<exists>r st'. load_missing env ip what result st = Some (r, st') \<and> geo_inv st'"
proof -
  obtain r st' where "(if what AND FLAG_COUNTRY \<noteq> 0 then load_country env ip result st else Some (result, st)) = Some (r, st')"
    "geo_inv st'"
    using load_country_returns [OF assms, of result] assms(1) by (cases "what AND FLAG_COUNTRY \<noteq> 0") auto
  then show ?thesis by (auto simp: load_missing_def Let_def)
qed

lemma getIPInfo_stored:
  assumes "ip_cache_ok c" "geo_inv st" "opens_ready (opened_db env)" "ip_wf ip"
  shows "\<exists>res st' c'. getIPInfo env ip r what False (st, c) = Some (res, st', c') \<and> geo_inv st' \<and> ip_cache_ok c' \<and>
    (\<exists>info. lru_get (ip_key ip) c' = Some info \<and>
      (info = res \<or> (\<exists>old. info = merge_known res old) \<or>
       what AND NOT (known info) = 0 \<and> res = copy_found (what AND known info) info r))"
proof -
  obtain c1 where c1: "ip_cache_ok c1" "\<forall>j. lru_get j c1 = lru_get j c"
    and look: "ipCache_lookup (ip_key ip) r what c = Some (case lru_get (ip_key ip) c of
      None \<Rightarrow> (False, what, r, c1)
    | Some info \<Rightarrow> (what AND NOT (known info) = 0, what AND NOT (known info), copy_found (what AND known info) info r, c1))"
    using ipCache_lookup_rep [OF assms(1)] by blast
  obtain ret w r1 where lk: "ipCache_lookup (ip_key ip) r what c = Some (ret, w, r1, c1)"
    using look by (cases "lru_get (ip_key ip) c") auto
  show ?thesis
  proof (cases ret)
    case True
    then obtain info where "lru_get (ip_key ip) c = Some info" "what AND NOT (known info) = 0"
      "r1 = copy_found (what AND known info) info r"
      using look lk by (cases "lru_get (ip_key ip) c") auto
    then show ?thesis using True lk c1 assms(2) by (auto simp: getIPInfo_def)
  next
    case False
    obtain res st' where lc: "load_missing env ip w r1 st = Some (res, st')" "geo_inv st'"
      using load_missing_returns [OF assms(2-4)] by blast
    obtain ks where "cache_rep True ks c1" "length ks \<le> IP_CACHE_SIZE" using c1(1) by (auto simp: ip_cache_ok_def)
    then obtain c2 where c2: "ipCache_store (ip_key ip) res c1 = Some c2" "ip_cache_ok c2"
      "lru_get (ip_key ip) c2 = Some (case lru_get (ip_key ip) c1 of None \<Rightarrow> res | Some info \<Rightarrow> merge_known res info)"
      using ipCache_store_rep [of ks c1 "ip_key ip" res] unfolding ip_cache_ok_def by blast
    have "getIPInfo env ip r what False (st, c) = Some (res, st', c2)"
      using False lk lc c2(1) by (simp add: getIPInfo_def)
    then show ?thesis using lc(2) c2 by (cases "lru_get (ip_key ip) c1") auto
  qed
qed

lemma not_and_bits: "what AND NOT (k :: u32) = 0 \<longleftrightarrow> (\<forall>n. bit what n \<longrightarrow> bit k n)"
proof -
  have "bit what n \<Longrightarrow> n < 32" for n using bit_imp_le_length [of what n] by simp
  then show ?thesis by (auto simp: bit_eq_iff bit_simps)
qed

text \<open>
  C28: Everything known of an address (\<open>DatabaseManager::getIPInfo\<close>). The cache is well linked and within
  its size, the open database, if there is one, has its tree and data section in the file, and \<open>MMDB_open\<close>
  of the configured file gives a result, a database with these bounds when it reports success
  (\<open>opens_ready\<close>; by \<open>MMDB_open_ready\<close> it does so whenever it does not itself read outside the
  mapping, as it can for a file that ends at the metadata marker, \<open>empty_metadata_reads_outside\<close>). Then the
  call returns without a read outside the mapped file or through a dangling pointer, keeps the cache
  well linked and within \<open>IP_CACHE_SIZE\<close>, and what it returned is remembered: when it has everything
  that was asked for, the same request restricted to the cache gives the same country, location and
  note afterwards, whatever the database and the connection are by then.
\<close>

theorem getIPInfo_remembered:
  assumes "ip_cache_ok c" "geo_inv st" "opens_ready (opened_db env)" "ip_wf ip" "asks what"
  shows "\<exists>res st' c'. getIPInfo env ip r what False (st, c) = Some (res, st', c') \<and> geo_inv st' \<and> ip_cache_ok c' \<and>
    (what AND NOT (known res) = 0 \<longrightarrow>
      (\<forall>env2 r2 st2. \<exists>c2. getIPInfo env2 ip r2 what True (st2, c') = Some (copy_found what res r2, st2, c2) \<and> ip_cache_ok c2))"
proof -
  obtain res st' c' info where run: "getIPInfo env ip r what False (st, c) = Some (res, st', c')" "geo_inv st'" "ip_cache_ok c'"
    and info: "lru_get (ip_key ip) c' = Some info"
      "info = res \<or> (\<exists>old. info = merge_known res old) \<or>
       what AND NOT (known info) = 0 \<and> res = copy_found (what AND known info) info r"
    using getIPInfo_stored [OF assms(1-4), of r what] by blast
  have cov: "covers info res what" if k: "what AND NOT (known res) = 0"
    using info(2)
  proof (elim disjE exE conjE)
    assume "info = res"
    then show ?thesis using k covers_self by (simp add: not_and_bits)
  next
    fix old assume "info = merge_known res old"
    then show ?thesis using k merge_covers [OF assms(5)] by (simp add: not_and_bits)
  next
    assume h: "what AND NOT (known info) = 0" "res = copy_found (what AND known info) info r"
    have "what AND known info = what" using h(1) unfolding not_and_bits by (auto simp: bit_eq_iff bit_simps)
    then show ?thesis using copy_covers [of what info r] h by (simp add: not_and_bits)
  qed
  have "\<exists>c2. getIPInfo env2 ip r2 what True (st2, c') = Some (copy_found what res r2, st2, c2) \<and> ip_cache_ok c2"
    if "what AND NOT (known res) = 0" for env2 r2 st2
    using ipCache_hit [OF run(3) info(1) cov [OF that], of r2] by (auto simp: getIPInfo_def)
  then show ?thesis using run by blast
qed

definition geo_env :: IpEnv where
  "geo_env = \<lparr>opened_db = Some (MMDB_FILE_OPEN_ERROR, geo_db), tick = 0, machine_of = windows,
     useCustomLocations = False, conn = Some (\<lambda>_. [], \<lambda>_. [[110]])\<rparr>"

definition geo_state :: GeoState where
  "geo_state = \<lparr>mmdb = Some geo_db, timeCheckMmdb = 0\<rparr>"

lemma geo_ready: "ready geo_db" "geo_inv geo_state" "opens_ready (opened_db geo_env)"
proof -
  show r: "ready geo_db" using geo_ok(1)
    by (simp add: ready_def tree_ok_def geo_file blank_db_def MMDB_DATA_SECTION_SEPARATOR_def)
  show "geo_inv geo_state" using r by (simp add: geo_inv_def geo_state_def)
  show "opens_ready (opened_db geo_env)" by (simp add: opens_ready_def geo_env_def)
qed

lemma geo_known:
  assumes "getIPInfo geo_env (Ip4 0x50000001) no_info 7 False (geo_state, empty_cache) = Some (res, st', c')"
  shows "res = de_info\<lparr>known := 7, p2pGuard := [110]\<rparr>"
proof -
  have "loadGeoIPInfo windows (opened_db geo_env) 0 (Ip4 0x50000001) no_info geo_state = Some (True, de_info, geo_state)"
    unfolding geo_code [symmetric] geo_state_def
    by (rule loadGeoIPInfo_run [OF _ geo_ok(1) geo_lookup(1) geo_rep geo_paths]) simp_all
  moreover have "isPublicIp (Ip4 0x50000001)" by code_simp
  moreover have "clearCountry no_info = no_info" by (simp add: clearCountry_def no_info_def)
  ultimately have "load_country geo_env (Ip4 0x50000001) no_info geo_state = Some (de_info, geo_state)"
    by (simp add: load_country_def geo_env_def)
  moreover have "load_p2pGuard geo_env (Ip4 0x50000001) (load_location geo_env (Ip4 0x50000001) de_info) =
      de_info\<lparr>known := 7, p2pGuard := [110]\<rparr>"
    by code_simp
  ultimately have "load_missing geo_env (Ip4 0x50000001) 7 no_info geo_state =
      Some (de_info\<lparr>known := 7, p2pGuard := [110]\<rparr>, geo_state)"
    by (simp add: load_missing_def Let_def FLAG_COUNTRY_def FLAG_LOCATION_def FLAG_P2P_GUARD_def)
  moreover have "ipCache_lookup k no_info 7 empty_cache = Some (False, 7, no_info, empty_cache)" for k
    by (simp add: ipCache_lookup_def lru_get_def empty_cache_def)
  ultimately show ?thesis using assms by (auto simp: getIPInfo_def split: bind_split_asm)
qed

theorem getIPInfo_remembered_witness:
  "\<exists>st' c' c2. getIPInfo geo_env (Ip4 0x50000001) no_info 7 False (geo_state, empty_cache) =
      Some (de_info\<lparr>known := 7, p2pGuard := [110]\<rparr>, st', c') \<and>
    getIPInfo geo_env (Ip4 0x50000001) no_info 7 True (st', c') =
      Some (copy_found 7 (de_info\<lparr>known := 7, p2pGuard := [110]\<rparr>) no_info, st', c2)"
proof -
  have a: "ip_wf (Ip4 0x50000001)" "asks 7"
    by (simp_all add: ip_wf_def asks_def FLAG_COUNTRY_def FLAG_LOCATION_def FLAG_P2P_GUARD_def)
  obtain res st' c' where run: "getIPInfo geo_env (Ip4 0x50000001) no_info 7 False (geo_state, empty_cache) = Some (res, st', c')"
    and again: "7 AND NOT (known res) = 0 \<longrightarrow> (\<forall>env2 r2 st2. \<exists>c2. getIPInfo env2 (Ip4 0x50000001) r2 7 True (st2, c') =
        Some (copy_found 7 res r2, st2, c2) \<and> ip_cache_ok c2)"
    using getIPInfo_remembered [OF ip_cache_ok_empty geo_ready(2,3) a, of no_info] by blast
  have "7 AND NOT (known (de_info\<lparr>known := 7, p2pGuard := [110]\<rparr>)) = 0" by simp
  then show ?thesis using run again unfolding geo_known [OF run] by blast
qed

end
