(* ===== verification/StringSearch.thy ===== *)
theory StringSearch
  imports Prelude "HOL-Library.Sublist"
begin

text \<open>
  The search for a word in names: \<open>src/client/StringSearch.h\<close>, Sunday's quick search. The table of
  shifts has 256 entries of \<open>uint8_t\<close> for patterns below 255 bytes and of \<open>uint16_t\<close> for others;
  the arithmetic of its construction wraps at that width. A text is a \<open>std::string\<close>, which has a
  zero behind its last byte. Lower case is an argument (\<open>Text::makeLower\<close>, \<open>Text::toLower\<close>).

  Copies have the table of the original; an object that was moved from has no table and matches nothing.
\<close>

section \<open>The program\<close>

record StringSearch =
  delta1 :: "nat list option"
  ss_pattern :: bytes
  ignoreCase :: bool
  smallTable :: bool

definition initDelta1 :: "nat \<Rightarrow> bytes \<Rightarrow> nat list" where
  "initDelta1 w p =
     (let x = (length p + 1) mod 2 ^ w;
          d = replicate 256 x;
          x = (x + 2 ^ w - 1) mod 2 ^ w
      in fold (\<lambda>i d. d[unat (p ! i) := (x - i) mod 2 ^ w]) [0..<x] d)"

definition new_search :: "(bytes \<Rightarrow> bytes) \<Rightarrow> bytes \<Rightarrow> bool \<Rightarrow> StringSearch" where
  "new_search makeLower p ic =
     (let p = (if ic then makeLower p else p); small = length p < 255
      in \<lparr>delta1 = Some (initDelta1 (if small then 8 else 16) p), ss_pattern = p, ignoreCase = ic, smallTable = small\<rparr>)"

definition moved_from :: "StringSearch \<Rightarrow> StringSearch" where
  "moved_from s = s\<lparr>delta1 := None, ss_pattern := []\<rparr>"

definition same_search :: "StringSearch \<Rightarrow> StringSearch \<Rightarrow> bool" where
  "same_search a b \<longleftrightarrow> ss_pattern a = ss_pattern b \<and> ignoreCase a = ignoreCase b"

text \<open>The inner loop: how many bytes of the pattern are at \<open>tx\<close>.\<close>

function match_len :: "bytes \<Rightarrow> bytes \<Rightarrow> nat \<Rightarrow> nat \<Rightarrow> nat" where
  "match_len px t tx i = (if i < length px \<and> px ! i = t ! (tx + i) then match_len px t tx (i + 1) else i)"
  by auto
termination by (relation "measure (\<lambda>(px, t, tx, i). length px - i)") auto

partial_function (option) doMatch :: "nat list \<Rightarrow> bytes \<Rightarrow> bytes \<Rightarrow> nat \<Rightarrow> bool option" where
  "doMatch d t px tx =
     (if tx < length t - length px + 1 then
        if match_len px t tx 0 = length px then Some True
        else Option.bind (load (t @ [0]) (tx + length px)) (\<lambda>c.
             Option.bind (load d (unat c)) (\<lambda>shift. doMatch d t px (tx + shift)))
      else Some False)"

declare match_len.simps [simp del] doMatch.simps [code]

definition matchKeepCase :: "StringSearch \<Rightarrow> bytes \<Rightarrow> bool option" where
  "matchKeepCase s t =
     (case delta1 s of
        None \<Rightarrow> Some False
      | Some d \<Rightarrow> if length t < length (ss_pattern s) then Some False else doMatch d t (ss_pattern s) 0)"

definition ss_match :: "(bytes \<Rightarrow> bytes) \<Rightarrow> StringSearch \<Rightarrow> bytes \<Rightarrow> bool option" where
  "ss_match toLower s t = (if ignoreCase s then matchKeepCase s (toLower t) else matchKeepCase s t)"

section \<open>The table\<close>

text \<open>
  What the search needs of a table of shifts: never zero, never beyond the pattern and the byte
  behind it, and never over an occurrence of the byte in the pattern.
\<close>

definition shifts :: "bytes \<Rightarrow> nat list \<Rightarrow> nat \<Rightarrow> bool" where
  "shifts p d n \<longleftrightarrow> length d = 256 \<and>
     (\<forall>c < 256. 1 \<le> d ! c \<and> d ! c \<le> length p + 1 \<and> (\<forall>j < n. unat (p ! j) = c \<longrightarrow> d ! c \<le> length p - j))"

lemma shifts_step:
  assumes "shifts p d n" "n < length p"
  shows "shifts p (d[unat (p ! n) := length p - n]) (Suc n)"
proof -
  have len: "length d = 256" using assms(1) by (simp add: shifts_def)
  have "1 \<le> d[unat (p ! n) := length p - n] ! c \<and> d[unat (p ! n) := length p - n] ! c \<le> length p + 1 \<and>
      (\<forall>j < Suc n. unat (p ! j) = c \<longrightarrow> d[unat (p ! n) := length p - n] ! c \<le> length p - j)" if c: "c < 256" for c
  proof (cases "c = unat (p ! n)")
    case True
    then show ?thesis using assms(2) len unat_u8 [of "p ! n"] by auto
  next
    case False
    then show ?thesis using assms(1) c by (auto simp: shifts_def less_Suc_eq)
  qed
  then show ?thesis using len by (simp add: shifts_def)
qed

lemma shifts_fold:
  "n \<le> length p \<Longrightarrow>
   shifts p (fold (\<lambda>i d. d[unat (p ! i) := length p - i]) [0..<n] (replicate 256 (length p + 1))) n"
proof (induction n)
  case 0
  then show ?case by (simp add: shifts_def)
next
  case (Suc n)
  then show ?case using shifts_step [OF Suc.IH] by simp
qed

lemma initDelta1_shifts:
  assumes "length p + 1 < 2 ^ w"
  shows "shifts p (initDelta1 w p) (length p)"
proof -
  let ?n = "length p"
  have "(?n + 1) mod 2 ^ w = ?n + 1" "(?n + 1 + 2 ^ w - 1) mod 2 ^ w = ?n"
    using assms by simp_all
  moreover have "fold (\<lambda>i d. d[unat (p ! i) := (?n - i) mod 2 ^ w]) [0..<?n] (replicate 256 (?n + 1)) =
      fold (\<lambda>i d. d[unat (p ! i) := ?n - i]) [0..<?n] (replicate 256 (?n + 1))"
    using assms by (intro fold_cong) (auto simp: less_imp_diff_less)
  ultimately show ?thesis using shifts_fold [of ?n p] by (simp add: initDelta1_def Let_def)
qed

section \<open>The search\<close>

definition occurs :: "bytes \<Rightarrow> bytes \<Rightarrow> nat \<Rightarrow> bool" where
  "occurs p t q \<longleftrightarrow> q + length p \<le> length t \<and> (\<forall>i < length p. p ! i = t ! (q + i))"

lemma match_len_full:
  "(\<forall>k < i. px ! k = t ! (tx + k)) \<Longrightarrow> i \<le> length px \<Longrightarrow>
   match_len px t tx i = length px \<longleftrightarrow> (\<forall>k < length px. px ! k = t ! (tx + k))"
proof (induction px t tx i rule: match_len.induct)
  case (1 px t tx i)
  show ?case
  proof (cases "i < length px \<and> px ! i = t ! (tx + i)")
    case True
    then show ?thesis
      using 1 by (simp add: match_len.simps [of px t tx i] less_Suc_eq)
  next
    case False
    then have "match_len px t tx i = i" by (simp only: match_len.simps [of px t tx i] if_False)
    then show ?thesis using False 1(2,3) by (cases "i < length px") auto
  qed
qed

text \<open>No occurrence is passed over.\<close>

lemma shift_safe:
  assumes d: "shifts p d (length p)" and tx: "tx + length p \<le> length t"
    and c: "(t @ [0]) ! (tx + length p) = c" and no: "\<not> occurs p t tx"
    and q: "tx \<le> q" "occurs p t q"
  shows "tx + d ! unat c \<le> q"
proof (rule ccontr)
  assume "\<not> tx + d ! unat c \<le> q"
  then have lt: "q - tx < d ! unat c" using q(1) by linarith
  have c256: "unat c < 256" by (rule unat_u8)
  have pos: "0 < q - tx" using no q by (cases "q = tx") auto
  have le: "q - tx \<le> length p" using lt d c256 by (fastforce simp: shifts_def)
  let ?j = "length p - (q - tx)"
  have j: "?j < length p" "q + ?j = tx + length p" using pos le q(1) by simp_all
  have "tx + length p < length t" using q pos j by (simp add: occurs_def)
  then have "p ! ?j = c" using q(2) j c by (simp add: occurs_def nth_append)
  then have "d ! unat c \<le> length p - ?j" using d j(1) c256 by (simp add: shifts_def)
  then show False using lt le by simp
qed

lemma doMatch_finds:
  assumes d: "shifts p d (length p)" and len: "length p \<le> length t"
  shows "doMatch d t p tx = Some (\<exists>q \<ge> tx. occurs p t q)"
proof (induction "length t + 1 - tx" arbitrary: tx rule: less_induct)
  case less
  show ?case
  proof (cases "tx < length t - length p + 1")
    case True
    then have tx: "tx + length p \<le> length t" using len by simp
    have here: "match_len p t tx 0 = length p \<longleftrightarrow> occurs p t tx"
      using match_len_full [of 0 p t tx] tx by (simp add: occurs_def)
    show ?thesis
    proof (cases "occurs p t tx")
      case o: True
      then show ?thesis using here True by (auto simp: doMatch.simps [of d t p tx])
    next
      case no: False
      let ?c = "(t @ [0]) ! (tx + length p)"
      have sh: "1 \<le> d ! unat ?c" "unat ?c < length d" using d unat_u8 [of ?c] by (simp_all add: shifts_def)
      have run: "doMatch d t p tx = doMatch d t p (tx + d ! unat ?c)"
        using True no here tx sh(2) by (simp add: doMatch.simps [of d t p tx] load_def)
      have "(\<exists>q \<ge> tx + d ! unat ?c. occurs p t q) \<longleftrightarrow> (\<exists>q \<ge> tx. occurs p t q)"
        using shift_safe [OF d tx refl no] by (meson add_leE)
      moreover have "doMatch d t p (tx + d ! unat ?c) = Some (\<exists>q \<ge> tx + d ! unat ?c. occurs p t q)"
        using sh(1) tx by (intro less) simp
      ultimately show ?thesis using run by simp
    qed
  next
    case False
    then have "\<not> occurs p t q" if "tx \<le> q" for q using that len by (auto simp: occurs_def)
    then show ?thesis using False by (auto simp: doMatch.simps [of d t p tx])
  qed
qed

lemma occurs_sublist: "(\<exists>q. occurs p t q) \<longleftrightarrow> sublist p t"
proof
  assume "\<exists>q. occurs p t q"
  then obtain q where q: "occurs p t q" ..
  have "take (length p) (drop q t) = p" using q by (intro nth_equalityI) (auto simp: occurs_def)
  then have "t = take q t @ p @ drop (q + length p) t"
    by (metis append_take_drop_id drop_drop add.commute)
  then show "sublist p t" by (metis sublist_def)
next
  assume "sublist p t"
  then obtain us vs where "t = us @ p @ vs" by (auto simp: sublist_def)
  then have "occurs p t (length us)" by (auto simp: occurs_def nth_append)
  then show "\<exists>q. occurs p t q" ..
qed

text \<open>A search whose table belongs to its pattern, as the constructor makes it.\<close>

definition well_made :: "StringSearch \<Rightarrow> bool" where
  "well_made s \<longleftrightarrow> length (ss_pattern s) < 65535 \<and>
     delta1 s = Some (initDelta1 (if length (ss_pattern s) < 255 then 8 else 16) (ss_pattern s))"

lemma matchKeepCase_sublist:
  assumes "well_made s"
  shows "matchKeepCase s t = Some (sublist (ss_pattern s) t)"
proof -
  let ?p = "ss_pattern s"
  have d: "shifts ?p (initDelta1 (if length ?p < 255 then 8 else 16) ?p) (length ?p)"
    using assms by (intro initDelta1_shifts) (auto simp: well_made_def)
  show ?thesis
    using doMatch_finds [OF d, of t 0] occurs_sublist [of ?p t] sublist_length_le [of ?p t] assms
    by (auto simp: matchKeepCase_def well_made_def)
qed

lemma new_search_fields [simp]:
  "ss_pattern (new_search lower p ic) = (if ic then lower p else p)" "ignoreCase (new_search lower p ic) = ic"
  by (simp_all add: new_search_def Let_def)

lemma new_search_made: "length (if ic then lower p else p) < 65535 \<Longrightarrow> well_made (new_search lower p ic)"
  by (simp add: well_made_def new_search_def Let_def)

text \<open>
  C20: The search for a word (\<open>StringSearch::match\<close>). For every pattern of less than 65535 bytes and every
  text the search returns, reads nothing behind the terminating zero, and says whether the pattern
  occurs in the text, both in lower case when case is ignored.
\<close>

theorem StringSearch_correct:
  assumes "length (if ic then lower p else p) < 65535"
  shows "ss_match lower (new_search lower p ic) t =
    Some (if ic then sublist (lower p) (lower t) else sublist p t)"
  using matchKeepCase_sublist [OF new_search_made [of ic lower p, OF assms]] by (cases ic) (simp_all add: ss_match_def)

theorem StringSearch_correct_witness:
  "ss_match (map (\<lambda>c. c OR 32)) (new_search (map (\<lambda>c. c OR 32)) [65, 66] True) [99, 97, 98] = Some True \<and>
   ss_match (map (\<lambda>c. c OR 32)) (new_search (map (\<lambda>c. c OR 32)) [65, 66] True) [97, 99, 98] = Some False"
proof -
  have s: "sublist [97, 98] [99, 97, 98 :: u8]" by (simp add: sublist_Cons_right)
  have n: "\<not> sublist [97, 98] [97, 99, 98 :: u8]" by (simp add: sublist_Cons_right)
  show ?thesis
    using StringSearch_correct [of True "map (\<lambda>c. c OR 32)" "[65, 66]"] s n by simp
qed

text \<open>
  A pattern of 65535 bytes makes the table wrap: the shift of a byte that is not in the pattern is
  zero, and the search does not move on.
\<close>

lemma wrapped_table:
  assumes "length p = 65535" "c \<notin> set p"
  shows "initDelta1 16 p ! unat c = 0" "length (initDelta1 16 p) = 256"
proof -
  have "length (fold (\<lambda>i d. d[unat (p ! i) := f i]) ns d) = length d" for ns :: "nat list" and d :: "nat list" and f
    by (induction ns arbitrary: d) simp_all
  moreover have "fold (\<lambda>i d. d[unat (p ! i) := f i]) ns d ! unat c = d ! unat c"
    if "\<forall>i \<in> set ns. p ! i \<noteq> c" for ns :: "nat list" and d :: "nat list" and f
    using that
  proof (induction ns arbitrary: d)
    case (Cons i ns)
    then have "unat (p ! i) \<noteq> unat c" by (simp add: word_unat_eq_iff)
    then show ?case using Cons by simp
  qed simp
  moreover have "\<forall>i \<in> set [0..<65535]. p ! i \<noteq> c" using assms by (auto simp: in_set_conv_nth)
  ultimately show "initDelta1 16 p ! unat c = 0" "length (initDelta1 16 p) = 256"
    using assms(1) unat_u8 [of c] by (simp_all add: initDelta1_def Let_def)
qed

lemma doMatch_stuck:
  assumes "doMatch d t p tx = Some y" "tx + length p < length t" "\<not> occurs p t tx" "d ! unat (t ! (tx + length p)) = 0"
    "length d = 256"
  shows False
  using assms
proof (induction d t p tx y rule: doMatch.raw_induct)
  case (1 f d t p tx y)
  have "match_len p t tx 0 \<noteq> length p"
    using match_len_full [of 0 p t tx] 1(4,5) unfolding occurs_def by auto
  then have "f d t p tx = Some y"
    using 1(2,4,6,7) unat_u8 [of "t ! (tx + length p)"] by (simp add: load_def nth_append split: if_split_asm)
  then show False using 1 by blast
qed (rule assms(1))

lemma long_pattern_loops:
  assumes "length p = 65535" "65535 < length t" "\<not> occurs p t 0" "t ! 65535 \<notin> set p"
  shows "matchKeepCase (new_search (\<lambda>s. s) p False) t = None"
proof -
  have "doMatch (initDelta1 16 p) t p 0 = None"
  proof (cases "doMatch (initDelta1 16 p) t p 0")
    case (Some y)
    then show ?thesis using doMatch_stuck [OF Some] wrapped_table [OF assms(1,4)] assms by simp
  qed
  then show ?thesis using assms by (simp add: matchKeepCase_def new_search_def Let_def)
qed

end
