(* ===== verification/BloomFilters.thy ===== *)
theory BloomFilters
  imports LruCache "HOL-Library.Sublist"
begin

text \<open>
  The two Bloom filters of the share: \<open>src/client/BloomFilter.h\<close>, in which the names of shared files and
  directories are recorded by their pieces of \<open>N\<close> bytes, and \<open>src/client/HashBloom.cpp\<close>, in which the roots
  of the shared files are recorded for the hub, with \<open>ShareManager::getHashBloom\<close>, which keeps filters in a
  cache. A \<open>std::vector<bool>\<close> is a list; reading or writing outside of it, taking a remainder by
  zero and shifting by the width or more are undefined and \<open>None\<close>. \<open>size_t\<close> has 64 bits and \<open>char\<close> a sign.
  Not modelled: \<open>getInfo\<close>, a statistic, and the unused \<open>get_k\<close> and \<open>get_m\<close>, which compute in floating point.
\<close>

section \<open>Names by their pieces\<close>

definition hash_step :: "u8 \<Rightarrow> u64 \<Rightarrow> u64" where
  "hash_step c h = h XOR (ucast ((scast c :: u32) + 0x9e3779b9) + push_bit 6 h + drop_bit 2 h)"

definition getPos :: "bool list \<Rightarrow> bytes \<Rightarrow> nat \<Rightarrow> nat \<Rightarrow> nat option" where
  "getPos tbl s i l =
     (if tbl = [] then None else Some (unat (fold hash_step (subl s i (i + l)) 0) mod length tbl))"

fun xadd_loop :: "nat list \<Rightarrow> bytes \<Rightarrow> nat \<Rightarrow> bool list \<Rightarrow> bool list option" where
  "xadd_loop [] s n tbl = Some tbl"
| "xadd_loop (i # is') s n tbl =
     Option.bind (getPos tbl s i n) (\<lambda>p. Option.bind (store tbl p True) (xadd_loop is' s n))"

definition bloom_add :: "nat \<Rightarrow> bytes \<Rightarrow> bool list \<Rightarrow> bool list option" where
  "bloom_add N s tbl = (if length s \<ge> N then xadd_loop [0..<length s - N + 1] s N tbl else Some tbl)"

fun match_loop :: "nat list \<Rightarrow> bytes \<Rightarrow> nat \<Rightarrow> bool list \<Rightarrow> bool option" where
  "match_loop [] s n tbl = Some True"
| "match_loop (i # is') s n tbl =
     Option.bind (getPos tbl s i n) (\<lambda>p. Option.bind (load tbl p) (\<lambda>b.
       if \<not> b then Some False else match_loop is' s n tbl))"

definition bloom_match :: "nat \<Rightarrow> bytes \<Rightarrow> bool list \<Rightarrow> bool option" where
  "bloom_match N s tbl = (if length s \<ge> N then match_loop [0..<length s - N + 1] s N tbl else Some True)"

fun bloom_match_all :: "nat \<Rightarrow> bytes list \<Rightarrow> bool list \<Rightarrow> bool option" where
  "bloom_match_all N [] tbl = Some True"
| "bloom_match_all N (s # ss) tbl =
     Option.bind (bloom_match N s tbl) (\<lambda>b. if \<not> b then Some False else bloom_match_all N ss tbl)"

definition bloom_clear :: "bool list \<Rightarrow> bool list" where
  "bloom_clear tbl = replicate (length tbl) False"

subsection \<open>Every piece of a recorded name is in the table\<close>

definition gram :: "nat \<Rightarrow> bytes \<Rightarrow> nat" where
  "gram m g = unat (fold hash_step g 0) mod m"

definition knows :: "nat \<Rightarrow> bool list \<Rightarrow> bytes \<Rightarrow> bool" where
  "knows N tbl s \<longleftrightarrow> (\<forall>g. sublist g s \<and> length g = N \<longrightarrow> tbl ! gram (length tbl) g)"

lemma getPos_gram: "tbl \<noteq> [] \<Longrightarrow> getPos tbl s i l = Some (gram (length tbl) (subl s i (i + l)))"
  by (simp add: getPos_def gram_def)

lemma gram_less: "tbl \<noteq> [] \<Longrightarrow> gram (length tbl) g < length tbl"
  by (simp add: gram_def)

lemma xadd_loop_sets:
  "tbl \<noteq> [] \<Longrightarrow> \<exists>tbl'. xadd_loop js s n tbl = Some tbl' \<and> length tbl' = length tbl \<and>
     (\<forall>p < length tbl. tbl' ! p \<longleftrightarrow> tbl ! p \<or> (\<exists>i \<in> set js. p = gram (length tbl) (subl s i (i + n))))"
proof (induction js arbitrary: tbl)
  case (Cons i js)
  let ?p = "gram (length tbl) (subl s i (i + n))"
  have p: "?p < length tbl" by (rule gram_less [OF Cons.prems])
  have "tbl[?p := True] \<noteq> []" using Cons.prems by simp
  from Cons.IH [OF this] obtain tbl' where t: "xadd_loop js s n (tbl[?p := True]) = Some tbl'" "length tbl' = length tbl"
    "\<forall>q < length tbl. tbl' ! q \<longleftrightarrow> tbl[?p := True] ! q \<or> (\<exists>i \<in> set js. q = gram (length tbl) (subl s i (i + n)))"
    by auto
  have "xadd_loop (i # js) s n tbl = Some tbl'"
    using t(1) p by (simp add: getPos_gram [OF Cons.prems] store_in)
  moreover have "tbl' ! q \<longleftrightarrow> tbl ! q \<or> (\<exists>i \<in> set (i # js). q = gram (length tbl) (subl s i (i + n)))" if "q < length tbl" for q
    using t(3) that by (cases "q = ?p") auto
  ultimately show ?case using t(2) by blast
qed simp

lemma sublist_subl:
  assumes "N \<le> length s"
  shows "sublist g s \<and> length g = N \<longleftrightarrow> (\<exists>i \<in> set [0..<length s - N + 1]. g = subl s i (i + N))"
proof
  assume "sublist g s \<and> length g = N"
  then obtain us vs where "s = us @ g @ vs" "length g = N" by (auto simp: sublist_def)
  then show "\<exists>i \<in> set [0..<length s - N + 1]. g = subl s i (i + N)"
    by (intro bexI [of _ "length us"]) (simp_all add: subl_def)
next
  assume "\<exists>i \<in> set [0..<length s - N + 1]. g = subl s i (i + N)"
  then obtain i where i': "i \<in> set [0..<length s - N + 1]" and i2: "g = subl s i (i + N)" by blast
  have i: "i + N \<le> length s" "g = subl s i (i + N)" using i' i2 assms by auto
  have "s = take i s @ g @ drop (i + N) s"
    unfolding i(2) subl_def by (metis append_take_drop_id drop_drop add.commute diff_add_inverse)
  then show "sublist g s \<and> length g = N" using i by (metis length_subl sublist_def diff_add_inverse)
qed

lemma bloom_add_knows:
  assumes "tbl \<noteq> []"
  shows "\<exists>tbl'. bloom_add N s tbl = Some tbl' \<and> length tbl' = length tbl \<and> knows N tbl' s \<and>
    (\<forall>p < length tbl. tbl ! p \<longrightarrow> tbl' ! p)"
proof (cases "N \<le> length s")
  case True
  obtain tbl' where t: "xadd_loop [0..<length s - N + 1] s N tbl = Some tbl'" "length tbl' = length tbl"
    "\<forall>p < length tbl. tbl' ! p \<longleftrightarrow> tbl ! p \<or>
      (\<exists>i \<in> set [0..<length s - N + 1]. p = gram (length tbl) (subl s i (i + N)))"
    using xadd_loop_sets [OF assms] by blast
  have "tbl' ! gram (length tbl') g" if "sublist g s \<and> length g = N" for g
    using that t(2,3) gram_less [OF assms, of g] unfolding sublist_subl [OF True] by auto
  then show ?thesis using t True by (auto simp: bloom_add_def knows_def)
next
  case False
  then have "knows N tbl s" by (auto simp: knows_def dest: sublist_length_le)
  then show ?thesis using False by (simp add: bloom_add_def)
qed

lemma knows_mono:
  "knows N tbl s \<Longrightarrow> length tbl' = length tbl \<Longrightarrow> tbl \<noteq> [] \<Longrightarrow> \<forall>p < length tbl. tbl ! p \<longrightarrow> tbl' ! p \<Longrightarrow> knows N tbl' s"
  using gram_less [of tbl] by (auto simp: knows_def)

lemma match_loop_all:
  "tbl \<noteq> [] \<Longrightarrow> match_loop js s n tbl = Some (\<forall>i \<in> set js. tbl ! gram (length tbl) (subl s i (i + n)))"
  by (induction js) (simp_all add: getPos_gram load_in gram_less)

lemma bloom_match_knows:
  assumes "tbl \<noteq> []"
  shows "bloom_match N s tbl = Some (knows N tbl s)"
proof (cases "N \<le> length s")
  case True
  then show ?thesis
    using sublist_subl [OF True] by (auto simp: bloom_match_def match_loop_all [OF assms] knows_def)
next
  case False
  then show ?thesis by (auto simp: bloom_match_def knows_def dest: sublist_length_le)
qed

text \<open>No false negatives: a part of a recorded name is found.\<close>

lemma knows_sublist: "knows N tbl s \<Longrightarrow> sublist p s \<Longrightarrow> knows N tbl p"
  by (auto simp: knows_def intro: sublist_order.order_trans)

lemma bloom_match_all_knows:
  "tbl \<noteq> [] \<Longrightarrow> bloom_match_all N ss tbl = Some (\<forall>s \<in> set ss. knows N tbl s)"
  by (induction ss) (simp_all add: bloom_match_knows)

section \<open>Roots for the hub\<close>

record HashBloom =
  bloom :: "bool list"
  hb_k :: nat
  hb_h :: nat

definition new_hash_bloom :: HashBloom where
  "new_hash_bloom = \<lparr>bloom = [], hb_k = 0, hb_h = 0\<rparr>"

text \<open>\<open>resize\<close> cuts the vector or appends \<open>false\<close>.\<close>

definition resize :: "nat \<Rightarrow> 'a \<Rightarrow> 'a list \<Rightarrow> 'a list" where
  "resize m z xs = take m xs @ replicate (m - length xs) z"

definition hb_reset :: "nat \<Rightarrow> nat \<Rightarrow> nat \<Rightarrow> HashBloom \<Rightarrow> HashBloom" where
  "hb_reset k m h b = b\<lparr>bloom := resize m False (bloom b), hb_k := k, hb_h := h\<rparr>"

definition hb_push_back :: "bool \<Rightarrow> HashBloom \<Rightarrow> HashBloom" where
  "hb_push_back v b = b\<lparr>bloom := bloom b @ [v]\<rparr>"

definition TTH_BITS :: nat where "TTH_BITS = 192"

definition tth_piece :: "bytes \<Rightarrow> nat \<Rightarrow> nat \<Rightarrow> u64" where
  "tth_piece tth start h =
     fold (\<lambda>i x. let b = start + i in
        if tth ! (b div 8) AND push_bit (b mod 8) 1 \<noteq> 0 then x OR push_bit i 1 else x) [0..<h] 0"

definition hb_pos :: "HashBloom \<Rightarrow> bytes \<Rightarrow> nat \<Rightarrow> nat option" where
  "hb_pos b tth n =
     (if (n + 1) * hb_h b > TTH_BITS then Some 0
      else if hb_h b > 64 \<or> bloom b = [] then None
      else Some (unat (tth_piece tth (n * hb_h b) (hb_h b)) mod length (bloom b)))"

fun hb_add_loop :: "nat list \<Rightarrow> bytes \<Rightarrow> HashBloom \<Rightarrow> HashBloom option" where
  "hb_add_loop [] tth b = Some b"
| "hb_add_loop (i # ns) tth b =
     Option.bind (hb_pos b tth i) (\<lambda>p. Option.bind (store (bloom b) p True) (\<lambda>v.
       hb_add_loop ns tth (b\<lparr>bloom := v\<rparr>)))"

definition hb_add :: "bytes \<Rightarrow> HashBloom \<Rightarrow> HashBloom option" where
  "hb_add tth b = hb_add_loop [0..<hb_k b] tth b"

fun hb_match_loop :: "nat list \<Rightarrow> bytes \<Rightarrow> HashBloom \<Rightarrow> bool option" where
  "hb_match_loop [] tth b = Some True"
| "hb_match_loop (i # ns) tth b =
     Option.bind (hb_pos b tth i) (\<lambda>p. Option.bind (load (bloom b) p) (\<lambda>v.
       if \<not> v then Some False else hb_match_loop ns tth b))"

definition hb_match :: "bytes \<Rightarrow> HashBloom \<Rightarrow> bool option" where
  "hb_match tth b = (if bloom b = [] then Some False else hb_match_loop [0..<hb_k b] tth b)"

fun copy_to_loop :: "nat list \<Rightarrow> bool list \<Rightarrow> bytes \<Rightarrow> bytes option" where
  "copy_to_loop [] bs v = Some v"
| "copy_to_loop (i # ns) bs v =
     Option.bind (load v (i div 8)) (\<lambda>x.
     Option.bind (store v (i div 8) (x OR push_bit (i mod 8) (of_bool (bs ! i)))) (copy_to_loop ns bs))"

definition hb_copy_to :: "HashBloom \<Rightarrow> bytes \<Rightarrow> bytes option" where
  "hb_copy_to b v = copy_to_loop [0..<length (bloom b)] (bloom b) (resize (length (bloom b) div 8) 0 v)"

subsection \<open>What the hub reads\<close>

text \<open>The bit that stands for piece \<open>n\<close> of a root in a filter of \<open>m\<close> bits.\<close>

definition piece_bit :: "nat \<Rightarrow> nat \<Rightarrow> bytes \<Rightarrow> nat \<Rightarrow> nat" where
  "piece_bit m h tth n =
     (if (n + 1) * h > TTH_BITS then 0 else unat (tth_piece tth (n * h) h) mod m)"

lemma piece_bit_less: "0 < m \<Longrightarrow> piece_bit m h tth n < m"
  by (simp add: piece_bit_def)

lemma hb_pos_piece: "bloom b \<noteq> [] \<Longrightarrow> hb_h b \<le> 64 \<Longrightarrow> hb_pos b tth n = Some (piece_bit (length (bloom b)) (hb_h b) tth n)"
  by (simp add: hb_pos_def piece_bit_def)

lemma hb_add_loop_sets:
  "bloom b \<noteq> [] \<Longrightarrow> hb_h b \<le> 64 \<Longrightarrow>
   \<exists>v. hb_add_loop ns tth b = Some (b\<lparr>bloom := v\<rparr>) \<and> length v = length (bloom b) \<and>
     (\<forall>p < length v. v ! p \<longleftrightarrow> bloom b ! p \<or> (\<exists>n \<in> set ns. p = piece_bit (length v) (hb_h b) tth n))"
proof (induction ns arbitrary: b)
  case Nil
  show ?case by (intro exI [of _ "bloom b"]) simp
next
  case (Cons n ns)
  let ?m = "length (bloom b)"
  let ?p = "piece_bit ?m (hb_h b) tth n" and ?b = "b\<lparr>bloom := (bloom b)[piece_bit ?m (hb_h b) tth n := True]\<rparr>"
  have p: "?p < ?m" using piece_bit_less Cons.prems(1) by simp
  have "bloom ?b \<noteq> []" "hb_h ?b \<le> 64" using Cons.prems by simp_all
  from Cons.IH [OF this] obtain v where v: "hb_add_loop ns tth ?b = Some (?b\<lparr>bloom := v\<rparr>)" "length v = ?m"
    "\<forall>q < ?m. v ! q \<longleftrightarrow> (bloom b)[?p := True] ! q \<or> (\<exists>n \<in> set ns. q = piece_bit ?m (hb_h b) tth n)"
    by auto
  have "hb_add_loop (n # ns) tth b = Some (b\<lparr>bloom := v\<rparr>)"
    using v(1) p by (simp add: hb_pos_piece [OF Cons.prems] store_in)
  moreover have "v ! q \<longleftrightarrow> bloom b ! q \<or> (\<exists>n \<in> set (n # ns). q = piece_bit ?m (hb_h b) tth n)" if "q < ?m" for q
    using v(3) that by (cases "q = ?p") auto
  ultimately show ?case using v(2) by (intro exI [of _ v]) simp
qed

text \<open>Adding the roots of the share one after the other.\<close>

fun hb_add_all :: "bytes list \<Rightarrow> HashBloom \<Rightarrow> HashBloom option" where
  "hb_add_all [] b = Some b"
| "hb_add_all (tth # tths) b = Option.bind (hb_add tth b) (hb_add_all tths)"

lemma hb_add_all_sets:
  "bloom b \<noteq> [] \<Longrightarrow> hb_h b \<le> 64 \<Longrightarrow>
   \<exists>v. hb_add_all tths b = Some (b\<lparr>bloom := v\<rparr>) \<and> length v = length (bloom b) \<and>
     (\<forall>p < length v. v ! p \<longleftrightarrow> bloom b ! p \<or>
        (\<exists>tth \<in> set tths. \<exists>n < hb_k b. p = piece_bit (length v) (hb_h b) tth n))"
proof (induction tths arbitrary: b)
  case Nil
  show ?case by (intro exI [of _ "bloom b"]) simp
next
  case (Cons tth tths)
  obtain v where v: "hb_add tth b = Some (b\<lparr>bloom := v\<rparr>)" "length v = length (bloom b)"
    "\<forall>p < length v. v ! p \<longleftrightarrow> bloom b ! p \<or> (\<exists>n \<in> set [0..<hb_k b]. p = piece_bit (length v) (hb_h b) tth n)"
    using hb_add_loop_sets [OF Cons.prems, of "[0..<hb_k b]" tth] unfolding hb_add_def by blast
  have "bloom (b\<lparr>bloom := v\<rparr>) \<noteq> []" "hb_h (b\<lparr>bloom := v\<rparr>) \<le> 64" using Cons.prems v(2) by auto
  from Cons.IH [OF this] obtain w where w: "hb_add_all tths (b\<lparr>bloom := v\<rparr>) = Some (b\<lparr>bloom := w\<rparr>)" "length w = length v"
    "\<forall>p < length w. w ! p \<longleftrightarrow> v ! p \<or> (\<exists>tth \<in> set tths. \<exists>n < hb_k b. p = piece_bit (length w) (hb_h b) tth n)"
    by auto
  have "w ! p \<longleftrightarrow> bloom b ! p \<or> (\<exists>t \<in> set (tth # tths). \<exists>n < hb_k b. p = piece_bit (length w) (hb_h b) t n)"
    if "p < length w" for p
    using that v(2,3) w(2,3) by auto
  then show ?case using v w by (intro exI [of _ w]) simp
qed

lemma copy_to_loop_bits:
  "8 * length v = length bs \<Longrightarrow> \<forall>n \<in> set ns. n < length bs \<Longrightarrow>
   \<exists>w. copy_to_loop ns bs v = Some w \<and> length w = length v \<and>
     (\<forall>p < length bs. bit (w ! (p div 8)) (p mod 8) \<longleftrightarrow> bit (v ! (p div 8)) (p mod 8) \<or> p \<in> set ns \<and> bs ! p)"
proof (induction ns arbitrary: v)
  case (Cons n ns)
  let ?x = "v ! (n div 8) OR push_bit (n mod 8) (of_bool (bs ! n))"
  let ?v = "v[n div 8 := ?x]"
  have n: "n div 8 < length v" using Cons.prems by auto
  obtain w where w: "copy_to_loop ns bs ?v = Some w" "length w = length v"
    "\<forall>p < length bs. bit (w ! (p div 8)) (p mod 8) \<longleftrightarrow> bit (?v ! (p div 8)) (p mod 8) \<or> p \<in> set ns \<and> bs ! p"
    using Cons.IH [of ?v] Cons.prems by auto
  have "bit (?v ! (p div 8)) (p mod 8) \<longleftrightarrow> bit (v ! (p div 8)) (p mod 8) \<or> p = n \<and> bs ! p" for p
  proof (cases "p div 8 = n div 8")
    case True
    have "bit (push_bit (n mod 8) (of_bool (bs ! n)) :: u8) (p mod 8) \<longleftrightarrow> p mod 8 = n mod 8 \<and> bs ! n"
      by (auto simp: bit_push_bit_iff bit_of_bool_iff)
    moreover have "p mod 8 = n mod 8 \<longleftrightarrow> p = n" using True by (metis div_mod_decomp)
    ultimately show ?thesis using True n by (auto simp: bit_or_iff)
  next
    case False
    then show ?thesis by auto
  qed
  then show ?case using w n by (intro exI [of _ w]) (auto simp: load_in store_in)
qed auto

section \<open>The filter that is sent\<close>

text \<open>
  \<open>ShareManager::getHashBloom\<close>: the filter of the roots in \<open>tthIndex\<close>, or what the cache has for the
  parameters.
\<close>

type_synonym bloom_key = "u32 \<times> u32 \<times> u32"

definition HASH_BLOOM_CACHE_SIZE :: nat where "HASH_BLOOM_CACHE_SIZE = 50"

definition make_bloom :: "bytes list \<Rightarrow> nat \<Rightarrow> nat \<Rightarrow> nat \<Rightarrow> bytes \<Rightarrow> bytes option" where
  "make_bloom index k m h v =
     Option.bind (hb_add_all index (hb_reset k m h new_hash_bloom)) (\<lambda>b. hb_copy_to b v)"

definition getHashBloom ::
  "bytes list \<Rightarrow> nat \<Rightarrow> nat \<Rightarrow> nat \<Rightarrow> bytes \<Rightarrow> (bloom_key, bytes) Cache \<Rightarrow> (bytes \<times> (bloom_key, bytes) Cache) option" where
  "getHashBloom index k m h v c =
     (let key = (of_nat k, of_nat m, of_nat h) in
      case lru_get key c of
        Some data \<Rightarrow> Some (data, c)
      | None \<Rightarrow>
          Option.bind (make_bloom index k m h v) (\<lambda>v.
          Option.bind (removeOldest_loop lru_removeOldest HASH_BLOOM_CACHE_SIZE c) (\<lambda>c.
          Option.bind (lru_add key v c) (\<lambda>(_, c). Some (v, c)))))"

lemma make_bloom_bits:
  assumes "0 < h" "h \<le> 64" "0 < m" "8 dvd m"
  shows "\<exists>v. make_bloom index k m h [] = Some v \<and> length v = m div 8 \<and>
    (\<forall>p < m. bit (v ! (p div 8)) (p mod 8) \<longleftrightarrow> (\<exists>tth \<in> set index. \<exists>n < k. p = piece_bit m h tth n))"
proof -
  let ?b = "hb_reset k m h new_hash_bloom"
  have b: "bloom ?b = replicate m False" "hb_h ?b = h" "hb_k ?b = k"
    by (simp_all add: hb_reset_def new_hash_bloom_def resize_def)
  obtain w where w: "hb_add_all index ?b = Some (?b\<lparr>bloom := w\<rparr>)" "length w = m"
    "\<forall>p < m. w ! p \<longleftrightarrow> (\<exists>tth \<in> set index. \<exists>n < k. p = piece_bit m h tth n)"
    using hb_add_all_sets [of ?b index] assms by (auto simp: b)
  let ?v = "resize (m div 8) 0 [] :: bytes"
  have "8 * length ?v = length w" using assms w by (simp add: resize_def)
  then obtain v where "copy_to_loop [0..<length w] w ?v = Some v" "length v = length ?v"
    "\<forall>p < length w. bit (v ! (p div 8)) (p mod 8) \<longleftrightarrow> bit (?v ! (p div 8)) (p mod 8) \<or> p \<in> set [0..<length w] \<and> w ! p"
    using copy_to_loop_bits [of ?v w "[0..<length w]"] by auto
  moreover have "\<not> bit (?v ! (p div 8)) (p mod 8)" if "p < m" for p
  proof -
    have "p div 8 < m div 8" using that assms(4) by (auto elim: dvdE)
    then show ?thesis by (simp add: resize_def)
  qed
  ultimately show ?thesis
    using w by (auto simp: make_bloom_def hb_copy_to_def resize_def)
qed

text \<open>
  C21: The Bloom filter for the hub (\<open>ShareManager::getHashBloom\<close> on \<open>HashBloom\<close>). For the parameters that
  \<open>AdcHub\<close> lets through and an empty cache, the filter is made without leaving its memory, has the size
  asked for, and a bit of it is set exactly when it stands for a piece of a shared root: the hub finds
  every shared file.
\<close>

theorem getHashBloom_exact:
  assumes "0 < h" "h \<le> 64" "0 < m" "8 dvd m"
  shows "\<exists>v c. getHashBloom index k m h [] empty_cache = Some (v, c) \<and> length v = m div 8 \<and>
    (\<forall>p < m. bit (v ! (p div 8)) (p mod 8) \<longleftrightarrow> (\<exists>tth \<in> set index. \<exists>n < k. p = piece_bit m h tth n))"
proof -
  obtain v where v: "make_bloom index k m h [] = Some v" "length v = m div 8"
    "\<forall>p < m. bit (v ! (p div 8)) (p mod 8) \<longleftrightarrow> (\<exists>tth \<in> set index. \<exists>n < k. p = piece_bit m h tth n)"
    using make_bloom_bits [OF assms] by blast
  have e: "lru_get key (empty_cache :: (bloom_key, bytes) Cache) = None" for key by (simp add: lru_get_def empty_cache_def)
  obtain c1 b c where c: "removeOldest_loop lru_removeOldest HASH_BLOOM_CACHE_SIZE (empty_cache :: (bloom_key, bytes) Cache) = Some c1"
    "lru_add (of_nat k, of_nat m, of_nat h) v c1 = Some (b, c)"
    using lru.bounded_add [OF lru.rep_empty, of HASH_BLOOM_CACHE_SIZE "(of_nat k, of_nat m, of_nat h)" v]
    by (auto simp: HASH_BLOOM_CACHE_SIZE_def)
  have "getHashBloom index k m h [] empty_cache = Some (v, c)"
    using v(1) c by (simp add: getHashBloom_def Let_def e)
  then show ?thesis using v by blast
qed

theorem getHashBloom_exact_witness:
  "\<exists>v c. getHashBloom [replicate 24 255] 3 64 24 [] empty_cache = Some (v, c) \<and> length v = 8 \<and>
    bit (v ! (piece_bit 64 24 (replicate 24 255) 2 div 8)) (piece_bit 64 24 (replicate 24 255) 2 mod 8)"
proof -
  obtain v c where v: "getHashBloom [replicate 24 255] 3 64 24 [] empty_cache = Some (v, c)" "length v = 64 div 8"
    "\<forall>p < 64. bit (v ! (p div 8)) (p mod 8) \<longleftrightarrow>
      (\<exists>tth \<in> set [replicate 24 255]. \<exists>n < 3. p = piece_bit 64 24 tth n)"
    using getHashBloom_exact [of 24 64 "[replicate 24 255]" 3] by auto
  have "piece_bit 64 24 (replicate 24 255) 2 < 64" by (rule piece_bit_less) simp
  moreover have "\<exists>n < 3. piece_bit 64 24 (replicate 24 255) 2 = piece_bit 64 24 (replicate 24 255) n"
    by (rule exI [of _ 2]) simp
  ultimately show ?thesis using v by (intro exI [of _ v] exI [of _ c]) simp
qed

text \<open>
  The cached filter is returned whatever the index is by then. \<open>tthIndex\<close> grows when a file is added
  or has been hashed (\<open>ShareManager::addFile\<close>, \<open>on(FileHashed)\<close>) without the cache being cleared.
\<close>

lemma cached_bloom_stale:
  assumes "lru_get (of_nat k, of_nat m, of_nat h) c = Some v"
  shows "getHashBloom index k m h v0 c = Some (v, c)"
  using assms by (simp add: getHashBloom_def Let_def)

end
