(* ===== verification/ShareSearch.thy ===== *)
theory ShareSearch
  imports StringSearch BloomFilters Texts Base32
begin

text \<open>
  Searching the share: \<open>src/client/ShareManagerItems.h\<close>, \<open>ShareManagerItems.cpp\<close> and, of \<open>ShareManager.cpp\<close>,
  \<open>searchL\<close> and \<open>search\<close> for NMDC and ADC searches by words, \<open>AdcSearchParam::isExcluded\<close>, \<open>hasExt\<close>,
  \<open>updateBloomL\<close> and \<open>updateBloomDirL\<close>.

  A directory is its node with the files and directories in the order in which the maps of the source
  are walked. \<open>getParent\<close> is the list of the names above it, nearest first. Lower case
  (\<open>Text::toLower\<close>) is an argument. \<open>1 << type\<close> outside the width of \<open>int\<close> is undefined and \<open>None\<close>.
  Left out: the counter of hits, and that a client which shuts down stops searching.
\<close>

section \<open>Shared files and directories\<close>

definition getLowerName :: "bytes \<Rightarrow> bytes \<Rightarrow> bytes" where
  "getLowerName name lowerName = (if lowerName = [] then name else lowerName)"

record SharedFile =
  sf_name :: bytes
  sf_lowerName :: bytes
  sf_size :: int
  sf_typesMask :: u16
  sf_tth :: bytes

datatype SharedDir = SharedDir
  (sd_name: bytes) (sd_lowerName: bytes) (sd_files: "SharedFile list") (sd_dirs: "SharedDir list")
  (totalSize: int) (filesTypesMask: u16) (dirsTypesMask: u16)

abbreviation file_lower :: "SharedFile \<Rightarrow> bytes" where
  "file_lower f \<equiv> getLowerName (sf_name f) (sf_lowerName f)"

abbreviation dir_lower :: "SharedDir \<Rightarrow> bytes" where
  "dir_lower d \<equiv> getLowerName (sd_name d) (sd_lowerName d)"

definition FILE_TYPE_ANY :: int where "FILE_TYPE_ANY = 0"
definition FILE_TYPE_DIRECTORY :: int where "FILE_TYPE_DIRECTORY = 7"
definition FILE_TYPE_TTH :: int where "FILE_TYPE_TTH = 8"

definition mask_has :: "u16 \<Rightarrow> int \<Rightarrow> bool option" where
  "mask_has m ty = (if ty < 0 \<or> 31 < ty then None else Some (bit m (nat ty)))"

definition file_hasType :: "SharedFile \<Rightarrow> int \<Rightarrow> bool option" where
  "file_hasType f ty = (if ty = FILE_TYPE_ANY then Some True else mask_has (sf_typesMask f) ty)"

definition dir_hasType :: "SharedDir \<Rightarrow> int \<Rightarrow> bool option" where
  "dir_hasType d ty =
     (if ty = FILE_TYPE_ANY then Some True else mask_has (filesTypesMask d OR dirsTypesMask d) ty)"

text \<open>\<open>getNMDCPathL\<close>: the names from the directory upwards, each put in front with a backslash.\<close>

definition getNMDCPathL :: "bytes list \<Rightarrow> bytes" where
  "getNMDCPathL names = fold (\<lambda>name result. (name @ [92]) @ result) names []"

datatype result_type = TYPE_FILE | TYPE_DIRECTORY

record SearchResultCore =
  r_type :: result_type
  r_size :: int
  r_file :: bytes
  r_tth :: bytes

definition no_tth :: bytes where "no_tth = replicate 24 0"

definition file_result :: "bytes list \<Rightarrow> SharedFile \<Rightarrow> SearchResultCore" where
  "file_result names f =
     \<lparr>r_type = TYPE_FILE, r_size = sf_size f, r_file = getNMDCPathL names @ sf_name f, r_tth = sf_tth f\<rparr>"

section \<open>Searches of NMDC hubs\<close>

datatype SizeModes = SIZE_DONTCARE | SIZE_ATLEAST | SIZE_ATMOST | SIZE_EXACT

record NmdcSearchParam =
  sizeMode :: SizeModes
  sp_size :: int
  fileType :: int
  maxResults :: nat
  sp_filter :: bytes
  cacheKey :: bytes

text \<open>The loop over the words that removes those found in a name, and the one over the words of a file.\<close>

fun remove_matched :: "StringSearch list \<Rightarrow> bytes \<Rightarrow> StringSearch list \<Rightarrow> StringSearch list option" where
  "remove_matched [] name cur = Some cur"
| "remove_matched (k # ks) name cur =
     Option.bind (matchKeepCase k name) (\<lambda>b.
       remove_matched ks name (if b then filter (\<lambda>x. \<not> same_search x k) cur else cur))"

fun all_match :: "StringSearch list \<Rightarrow> bytes \<Rightarrow> bool option" where
  "all_match [] name = Some True"
| "all_match (k # ks) name = Option.bind (matchKeepCase k name) (\<lambda>b. if b then all_match ks name else Some False)"

text \<open>The loop over the files of a directory; the first component says whether \<open>searchL\<close> returns.\<close>

fun files_loop ::
  "NmdcSearchParam \<Rightarrow> bytes list \<Rightarrow> StringSearch list \<Rightarrow> SharedFile list \<Rightarrow> SearchResultCore list \<Rightarrow>
     (bool \<times> SearchResultCore list) option" where
  "files_loop sp names cur [] results = Some (False, results)"
| "files_loop sp names cur (f # fs) results =
     (if sizeMode sp = SIZE_ATLEAST \<and> sf_size f < sp_size sp \<or> sizeMode sp = SIZE_ATMOST \<and> sf_size f > sp_size sp
      then files_loop sp names cur fs results
      else Option.bind (file_hasType f (fileType sp)) (\<lambda>ty.
        if \<not> ty then files_loop sp names cur fs results
        else Option.bind (all_match cur (file_lower f)) (\<lambda>ok.
          if \<not> ok then files_loop sp names cur fs results
          else
            let results = results @ [file_result names f] in
            if length results \<ge> maxResults sp then Some (True, results)
            else files_loop sp names cur fs results)))"

definition dir_wanted :: "NmdcSearchParam \<Rightarrow> bool" where
  "dir_wanted sp \<longleftrightarrow>
     fileType sp = FILE_TYPE_ANY \<and> (sizeMode sp \<noteq> SIZE_ATLEAST \<or> sp_size sp = 0) \<or> fileType sp = FILE_TYPE_DIRECTORY"

definition dir_result :: "int \<Rightarrow> bytes list \<Rightarrow> SearchResultCore" where
  "dir_result sz names = \<lparr>r_type = TYPE_DIRECTORY, r_size = sz, r_file = getNMDCPathL names, r_tth = no_tth\<rparr>"

fun searchL ::
    "NmdcSearchParam \<Rightarrow> bytes list \<Rightarrow> StringSearch list \<Rightarrow> SharedDir \<Rightarrow> SearchResultCore list \<Rightarrow> SearchResultCore list option"
  and searchL_dirs ::
    "NmdcSearchParam \<Rightarrow> bytes list \<Rightarrow> StringSearch list \<Rightarrow> SharedDir list \<Rightarrow> SearchResultCore list \<Rightarrow> SearchResultCore list option"
where
  "searchL sp up strings (SharedDir nm lo fs ds tot fm dm) results =
     (let names = nm # up in
      Option.bind (dir_hasType (SharedDir nm lo fs ds tot fm dm) (fileType sp)) (\<lambda>ty.
      if \<not> ty then Some results
      else Option.bind (remove_matched strings (getLowerName nm lo) strings) (\<lambda>cur.
        let results = (if cur = [] \<and> dir_wanted sp then results @ [dir_result 0 names] else results) in
        Option.bind (if fileType sp \<noteq> FILE_TYPE_DIRECTORY then files_loop sp names cur fs results else Some (False, results))
          (\<lambda>(ret, results).
            if ret then Some results
            else Option.bind (if fileType sp = FILE_TYPE_ANY then Some True else mask_has dm (fileType sp)) (\<lambda>down.
              if down then searchL_dirs sp names cur ds results else Some results)))))"
| "searchL_dirs sp names cur [] results = Some results"
| "searchL_dirs sp names cur (d # ds) results =
     Option.bind (searchL sp names cur d results) (\<lambda>results.
       if length results \<ge> maxResults sp then Some results else searchL_dirs sp names cur ds results)"

section \<open>What is to be found\<close>

text \<open>A word is covered when it occurs in one of the names.\<close>

definition covered :: "bytes list \<Rightarrow> StringSearch \<Rightarrow> bool" where
  "covered names w \<longleftrightarrow> (\<exists>n \<in> set names. sublist (ss_pattern w) n)"

definition file_wanted :: "NmdcSearchParam \<Rightarrow> SharedFile \<Rightarrow> bool" where
  "file_wanted sp f \<longleftrightarrow> \<not> (sizeMode sp = SIZE_ATLEAST \<and> sf_size f < sp_size sp) \<and>
     \<not> (sizeMode sp = SIZE_ATMOST \<and> sf_size f > sp_size sp) \<and>
     (fileType sp = FILE_TYPE_ANY \<or> bit (sf_typesMask f) (nat (fileType sp)))"

text \<open>
  All hits in the order of the walk: a directory or a file is one when every word occurs in its name
  or in the name of a directory above it within the share (\<open>lows\<close>: their names in lower case).
\<close>

fun hits :: "NmdcSearchParam \<Rightarrow> bytes list \<Rightarrow> bytes list \<Rightarrow> StringSearch list \<Rightarrow> SharedDir \<Rightarrow> SearchResultCore list" where
  "hits sp up lows ws (SharedDir nm lo fs ds tot fm dm) =
     (let names = nm # up; lows = getLowerName nm lo # lows in
      (if list_all (covered lows) ws \<and> dir_wanted sp then [dir_result 0 names] else []) @
      (if fileType sp = FILE_TYPE_DIRECTORY then []
       else map (file_result names) (filter (\<lambda>f. file_wanted sp f \<and> list_all (covered (file_lower f # lows)) ws) fs)) @
      concat (map (hits sp names lows ws) ds))"

text \<open>The masks of a tree: nothing below a directory has a type that its masks do not have.\<close>

fun types_ok :: "SharedDir \<Rightarrow> bool" where
  "types_ok (SharedDir nm lo fs ds tot fm dm) \<longleftrightarrow>
     list_all (\<lambda>f. sf_typesMask f AND NOT fm = 0) fs \<and>
     list_all (\<lambda>d. (filesTypesMask d OR dirsTypesMask d) AND NOT dm = 0) ds \<and> list_all types_ok ds"

lemma mask_sub: "x AND NOT y = 0 \<Longrightarrow> bit x n \<Longrightarrow> bit y n" for x y :: "'a::len word"
proof -
  assume a: "x AND NOT y = 0" "bit x n"
  then have "\<not> bit (x AND NOT y) n" by simp
  then show ?thesis using a(2) bit_imp_le_length [OF a(2)] by (simp add: bit_simps)
qed

text \<open>A type that the masks do not have is not found.\<close>

lemma no_type_no_hits:
  "types_ok d \<Longrightarrow> fileType sp \<noteq> FILE_TYPE_ANY \<Longrightarrow> fileType sp \<noteq> FILE_TYPE_DIRECTORY \<Longrightarrow>
   \<not> bit (filesTypesMask d OR dirsTypesMask d) (nat (fileType sp)) \<Longrightarrow> hits sp up lows ws d = []"
proof (induction sp up lows ws d rule: hits.induct)
  case (1 sp up lows ws nm lo fs ds tot fm dm)
  let ?n = "nat (fileType sp)"
  have no: "\<not> bit fm ?n" "\<not> bit dm ?n" using 1(5) by (simp_all add: bit_or_iff)
  have "\<not> file_wanted sp f" if "f \<in> set fs" for f
    using 1(2,3) that mask_sub [of "sf_typesMask f" fm ?n] no(1) by (auto simp: file_wanted_def list_all_iff)
  moreover have "hits sp (nm # up) (getLowerName nm lo # lows) ws d = []" if d: "d \<in> set ds" for d
  proof -
    have "\<not> bit (filesTypesMask d OR dirsTypesMask d) ?n"
      using 1(2) d mask_sub [of "filesTypesMask d OR dirsTypesMask d" dm ?n] no(2) by (auto simp: list_all_iff)
    then show ?thesis using 1(1) [OF refl refl d] 1(2,3,4) d by (simp add: list_all_iff)
  qed
  ultimately show ?case using 1(3,4) by (auto simp: Let_def dir_wanted_def)
qed

lemma remove_matched_filter:
  assumes "list_all well_made ks"
  shows "remove_matched ks name cur =
    Some (filter (\<lambda>x. \<not> (\<exists>k \<in> set ks. same_search x k \<and> sublist (ss_pattern k) name)) cur)"
  using assms
proof (induction ks arbitrary: cur)
  case (Cons k ks)
  then show ?case
    by (auto simp: matchKeepCase_sublist conj_disj_distribR intro!: filter_cong)
qed simp

lemma remove_matched_self:
  assumes "list_all well_made ks"
  shows "remove_matched ks name ks = Some (filter (\<lambda>x. \<not> sublist (ss_pattern x) name) ks)"
  unfolding remove_matched_filter [OF assms]
  by (auto simp: same_search_def intro!: filter_cong)

lemma all_match_all:
  "list_all well_made ks \<Longrightarrow> all_match ks name = Some (list_all (\<lambda>k. sublist (ss_pattern k) name) ks)"
  by (induction ks) (simp_all add: matchKeepCase_sublist)

text \<open>\<open>extends m out res hs\<close>: the hits were appended in order, all of them unless the number of results has been reached.\<close>

definition extends :: "nat \<Rightarrow> 'a list \<Rightarrow> 'a list \<Rightarrow> 'a list \<Rightarrow> bool" where
  "extends m out res hs \<longleftrightarrow> (\<exists>ys. out = res @ ys \<and> prefix ys hs \<and> (ys = hs \<or> m \<le> length out))"

lemma extends_done: "extends m res res []"
  by (simp add: extends_def)

lemma extends_full: "extends m out res hs \<Longrightarrow> m \<le> length out \<Longrightarrow> extends m out res (hs @ hs')"
  by (auto simp: extends_def)

lemma extends_app:
  assumes "out1 = res @ hs1" "extends m out out1 hs2"
  shows "extends m out res (hs1 @ hs2)"
  using assms by (auto simp: extends_def)

lemma extends_trans:
  assumes "extends m out1 res hs1" "extends m out out1 hs2" "\<not> m \<le> length out1"
  shows "extends m out res (hs1 @ hs2)"
  using assms by (auto simp: extends_def)

definition file_hits :: "NmdcSearchParam \<Rightarrow> bytes list \<Rightarrow> StringSearch list \<Rightarrow> SharedFile list \<Rightarrow> SearchResultCore list" where
  "file_hits sp names cur fs =
     map (file_result names) (filter (\<lambda>f. file_wanted sp f \<and> list_all (\<lambda>k. sublist (ss_pattern k) (file_lower f)) cur) fs)"

lemma files_loop_hits:
  assumes "list_all well_made cur" "0 \<le> fileType sp" "fileType sp < 32"
  shows "\<exists>ret out. files_loop sp names cur fs res = Some (ret, out) \<and> extends (maxResults sp) out res (file_hits sp names cur fs) \<and>
    (if ret then maxResults sp \<le> length out else out = res @ file_hits sp names cur fs)"
proof (induction fs arbitrary: res)
  case Nil
  show ?case by (intro exI [of _ False]) (simp add: file_hits_def extends_done)
next
  case (Cons f fs)
  have ty: "file_hasType f (fileType sp) = Some (fileType sp = FILE_TYPE_ANY \<or> bit (sf_typesMask f) (nat (fileType sp)))"
    using assms(2,3) by (simp add: file_hasType_def mask_has_def)
  show ?case
  proof (cases "file_wanted sp f \<and> list_all (\<lambda>k. sublist (ss_pattern k) (file_lower f)) cur")
    case False
    then have "files_loop sp names cur (f # fs) res = files_loop sp names cur fs res"
      by (auto simp: ty all_match_all [OF assms(1)] file_wanted_def)
    moreover have "file_hits sp names cur (f # fs) = file_hits sp names cur fs"
      using False by (simp add: file_hits_def)
    ultimately show ?thesis using Cons [of res] by (simp only:)
  next
    case True
    let ?r = "res @ [file_result names f]"
    have h: "file_hits sp names cur (f # fs) = [file_result names f] @ file_hits sp names cur fs"
      using True by (simp add: file_hits_def)
    have run: "files_loop sp names cur (f # fs) res =
        (if length ?r \<ge> maxResults sp then Some (True, ?r) else files_loop sp names cur fs ?r)"
      using True by (auto simp: ty all_match_all [OF assms(1)] file_wanted_def)
    show ?thesis
    proof (cases "length ?r \<ge> maxResults sp")
      case True
      then show ?thesis unfolding run h by (auto simp: extends_def)
    next
      case False
      then show ?thesis using Cons [of ?r] extends_app [OF refl] unfolding run h by fastforce
    qed
  qed
qed

lemma searchL_dirs_hits:
  assumes "\<And>d res. d \<in> set ds \<Longrightarrow> \<exists>out. searchL sp up cur d res = Some out \<and> extends (maxResults sp) out res (h d)"
  shows "\<exists>out. searchL_dirs sp up cur ds res = Some out \<and> extends (maxResults sp) out res (concat (map h ds))"
  using assms
proof (induction ds arbitrary: res)
  case Nil
  show ?case by (simp add: extends_done)
next
  case (Cons d ds)
  obtain out1 where o1: "searchL sp up cur d res = Some out1" "extends (maxResults sp) out1 res (h d)"
    using Cons.prems [of d] by auto
  show ?case
  proof (cases "maxResults sp \<le> length out1")
    case True
    then show ?thesis using o1 extends_full [OF o1(2) True] by simp
  next
    case False
    obtain out where "searchL_dirs sp up cur ds out1 = Some out" "extends (maxResults sp) out out1 (concat (map h ds))"
      using Cons.IH [of out1] Cons.prems by auto
    then show ?thesis using o1 False extends_trans [OF o1(2) _ False] by simp
  qed
qed

lemma covered_Cons: "covered (n # names) w \<longleftrightarrow> sublist (ss_pattern w) n \<or> covered names w"
  by (simp add: covered_def)

text \<open>The words that are left are those that no name above has.\<close>

lemma uncovered_rest:
  "filter (\<lambda>x. \<not> sublist (ss_pattern x) n) (filter (\<lambda>w. \<not> covered names w) ws) = filter (\<lambda>w. \<not> covered (n # names) w) ws"
  by (auto simp: covered_Cons intro: filter_cong)

lemma uncovered_all:
  "list_all (\<lambda>k. sublist (ss_pattern k) n) (filter (\<lambda>w. \<not> covered names w) ws) \<longleftrightarrow> list_all (covered (n # names)) ws"
  by (auto simp: list_all_iff covered_Cons)

lemma uncovered_none: "filter (\<lambda>w. \<not> covered names w) ws = [] \<longleftrightarrow> list_all (covered names) ws"
  by (auto simp: filter_empty_conv list_all_iff)

lemma searchL_hits:
  assumes ty: "0 \<le> fileType sp" "fileType sp < 32" "fileType sp \<noteq> FILE_TYPE_DIRECTORY" and ws: "list_all well_made ws"
  shows "types_ok d \<Longrightarrow> \<exists>out. searchL sp up (filter (\<lambda>w. \<not> covered lows w) ws) d res = Some out \<and>
    extends (maxResults sp) out res (hits sp up lows ws d)"
proof (induction d arbitrary: up lows res)
  case (SharedDir nm lo fs ds tot fm dm)
  let ?d = "SharedDir nm lo fs ds tot fm dm" and ?names = "nm # up" and ?lows = "getLowerName nm lo # lows"
  let ?strings = "filter (\<lambda>w. \<not> covered lows w) ws" and ?cur = "filter (\<lambda>w. \<not> covered ?lows w) ws"
  let ?any = "fileType sp = FILE_TYPE_ANY" and ?n = "nat (fileType sp)"
  have made: "list_all well_made ?strings" "list_all well_made ?cur" using ws by (auto simp: list_all_iff)
  have has: "dir_hasType ?d (fileType sp) = Some (?any \<or> bit (fm OR dm) ?n)"
    using ty by (simp add: dir_hasType_def mask_has_def)
  show ?case
  proof (cases "?any \<or> bit (fm OR dm) ?n")
    case False
    then have "hits sp up lows ws ?d = []" using SharedDir.prems ty(3) by (intro no_type_no_hits) simp_all
    then show ?thesis using False has by (simp add: Let_def extends_done del: hits.simps)
  next
    case True
    let ?here = "if list_all (covered ?lows) ws \<and> dir_wanted sp then [dir_result 0 ?names] else []"
    let ?fh = "file_hits sp ?names ?cur fs" and ?dh = "concat (map (hits sp ?names ?lows ws) ds)"
    have hits: "hits sp up lows ws ?d = ?here @ ?fh @ ?dh"
      using ty(3) by (simp add: Let_def file_hits_def uncovered_all)
    have rm: "remove_matched ?strings (getLowerName nm lo) ?strings = Some ?cur"
      by (simp only: remove_matched_self [OF made(1)] uncovered_rest)
    have here: "(if ?cur = [] \<and> dir_wanted sp then res @ [dir_result 0 ?names] else res) = res @ ?here"
      by (simp add: uncovered_none)
    obtain ret out where fl: "files_loop sp ?names ?cur fs (res @ ?here) = Some (ret, out)"
      "extends (maxResults sp) out (res @ ?here) ?fh"
      "if ret then maxResults sp \<le> length out else out = (res @ ?here) @ ?fh"
      using files_loop_hits [OF made(2) ty(1,2), of ?names fs "res @ ?here"] by blast
    have run: "searchL sp up ?strings ?d res =
        (if ret then Some out
         else if ?any \<or> bit dm ?n then searchL_dirs sp ?names ?cur ds out else Some out)"
      using True ty by (simp add: Let_def has rm here fl(1) mask_has_def)
    show ?thesis
    proof (cases ret)
      case True
      have "extends (maxResults sp) out res (?here @ ?fh)" using extends_app [OF refl fl(2)] .
      then show ?thesis using True fl(3) run hits extends_full [of "maxResults sp" out res "?here @ ?fh" ?dh] by auto
    next
      case False
      then have out: "out = (res @ ?here) @ ?fh" using fl(3) by simp
      have down: "\<exists>out2. searchL_dirs sp ?names ?cur ds out = Some out2 \<and> extends (maxResults sp) out2 out ?dh"
        using SharedDir.IH SharedDir.prems by (intro searchL_dirs_hits) (auto simp: list_all_iff)
      have none: "?dh = []" if "\<not> (?any \<or> bit dm ?n)"
      proof -
        have "hits sp ?names ?lows ws d = []" if d: "d \<in> set ds" for d
          using SharedDir.prems d ty(3) mask_sub [of "filesTypesMask d OR dirsTypesMask d" dm ?n] \<open>\<not> (?any \<or> bit dm ?n)\<close>
          by (intro no_type_no_hits) (auto simp: list_all_iff)
        then show ?thesis by simp
      qed
      show ?thesis
      proof (cases "?any \<or> bit dm ?n")
        case True
        then show ?thesis using down False run out extends_app [OF refl, of "maxResults sp"] unfolding hits
          by (metis append.assoc)
      next
        case no: False
        then show ?thesis using False run none [OF no] unfolding hits out by (simp add: extends_def)
      qed
    qed
  qed
qed

section \<open>The search over all shares\<close>

text \<open>\<open>StringTokenizer::slice\<close> for a single character.\<close>

function slice :: "u8 \<Rightarrow> bytes \<Rightarrow> bytes list" where
  "slice tok s =
     (case dropWhile (\<lambda>c. c \<noteq> tok) s of
        [] \<Rightarrow> if s = [] then [] else [s]
      | _ # s' \<Rightarrow> takeWhile (\<lambda>c. c \<noteq> tok) s # slice tok s')"
  by auto
termination
proof (relation "measure (\<lambda>(tok, s). length s)", simp, goal_cases)
  case (1 tok s x s')
  have "length (dropWhile (\<lambda>c. c \<noteq> tok) s) \<le> length s" by (rule length_dropWhile_le)
  then show ?case using 1 by simp
qed

declare slice.simps [simp del]

record ShareListItem =
  sli_lowerPath :: bytes
  sli_dir :: SharedDir
  sli_removed :: bool

definition hasShare :: "bytes list \<Rightarrow> ShareListItem \<Rightarrow> bool" where
  "hasShare grp sli = list_ex (\<lambda>item. sli_lowerPath sli = item) grp"

fun shares_loop ::
  "NmdcSearchParam \<Rightarrow> bytes list \<Rightarrow> StringSearch list \<Rightarrow> ShareListItem list \<Rightarrow> SearchResultCore list \<Rightarrow> SearchResultCore list option" where
  "shares_loop sp grp ssl [] results = Some results"
| "shares_loop sp grp ssl (sli # shares) results =
     (if sli_removed sli \<or> \<not> hasShare grp sli then shares_loop sp grp ssl shares results
      else Option.bind (searchL sp [] ssl (sli_dir sli) results) (\<lambda>results.
        if length results \<ge> maxResults sp then Some results else shares_loop sp grp ssl shares results))"

definition SEARCH_CACHE_SIZE :: nat where "SEARCH_CACHE_SIZE = 200"

definition BLOOM_N :: nat where "BLOOM_N = 5"

definition search_words :: "(bytes \<Rightarrow> bytes) \<Rightarrow> bytes \<Rightarrow> StringSearch list" where
  "search_words lower flt = map (\<lambda>s. new_search lower s True) (filter (\<lambda>s. s \<noteq> []) (slice 36 (lower flt)))"

definition remember ::
  "bytes \<Rightarrow> SearchResultCore list \<Rightarrow> (bytes, SearchResultCore list) Cache \<Rightarrow>
     (SearchResultCore list \<times> (bytes, SearchResultCore list) Cache) option" where
  "remember key results c =
     (if key = [] then Some (results, c)
      else Option.bind (removeOldest_loop lru_removeOldest SEARCH_CACHE_SIZE c) (\<lambda>c.
           Option.bind (lru_add key results c) (\<lambda>(_, c). Some (results, c))))"

text \<open>
  A search for a TTH root. An entry of \<open>tthIndex\<close> has the root as its key, a file, and the directory of the
  file: here the names from the directory upwards, and the position in \<open>shares\<close> of the share that
  the topmost directory belongs to, if it belongs to one.
\<close>

record TTHMapItem =
  ti_tth :: bytes
  ti_names :: "bytes list"
  ti_share :: "nat option"
  ti_file :: SharedFile

definition isTTHBase32 :: "bytes \<Rightarrow> bool" where
  "isTTHBase32 str \<longleftrightarrow> length str = 43 \<and> take 4 str = map u8_chr ''TTH:'' \<and>
     list_all (\<lambda>c. u8_chr (CHR ''A'') \<le> c \<and> c \<le> u8_chr (CHR ''Z'') \<or> u8_chr (CHR ''2'') \<le> c \<and> c \<le> u8_chr (CHR ''7''))
       (drop 4 str)"

definition item_in_group :: "bytes list \<Rightarrow> ShareListItem list \<Rightarrow> TTHMapItem \<Rightarrow> bool" where
  "item_in_group g shares item =
     (if ti_names item = [] then False
      else case ti_share item of
        None \<Rightarrow> False
      | Some k \<Rightarrow> k < length shares \<and> hasShare g (shares ! k))"

fun searchTTH_loop :: "bytes list \<Rightarrow> ShareListItem list \<Rightarrow> TTHMapItem list \<Rightarrow> SearchResultCore list \<Rightarrow> SearchResultCore list" where
  "searchTTH_loop g shares [] results = results"
| "searchTTH_loop g shares (item # rest) results =
     (if item_in_group g shares item then results @ [file_result (ti_names item) (ti_file item)]
      else searchTTH_loop g shares rest results)"

definition searchTTH :: "bytes \<Rightarrow> bytes list option \<Rightarrow> ShareListItem list \<Rightarrow> TTHMapItem list \<Rightarrow>
    SearchResultCore list \<Rightarrow> SearchResultCore list" where
  "searchTTH tth grp shares tthIndex results = (case grp of
     None \<Rightarrow> results
   | Some g \<Rightarrow> searchTTH_loop g shares (filter (\<lambda>item. ti_tth item = tth) tthIndex) results)"

text \<open>\<open>search\<close>. \<open>grp\<close> is the entry of \<open>shareGroups\<close>, if there is one.\<close>

definition nmdc_search ::
  "(bytes \<Rightarrow> bytes) \<Rightarrow> NmdcSearchParam \<Rightarrow> bytes list option \<Rightarrow> ShareListItem list \<Rightarrow> TTHMapItem list \<Rightarrow> bool list \<Rightarrow>
     SearchResultCore list \<Rightarrow> (bytes, SearchResultCore list) Cache \<Rightarrow>
     (SearchResultCore list \<times> (bytes, SearchResultCore list) Cache) option" where
  "nmdc_search lower sp grp shares tthIndex tbl results c =
     (if fileType sp = FILE_TYPE_TTH then
        if isTTHBase32 (sp_filter sp)
        then map_option (\<lambda>tth. (searchTTH tth grp shares tthIndex results, c))
          (HashValue_fromBase32 24 (map chr_u8 (drop 4 (sp_filter sp))))
        else Some (results, c)
      else case (if cacheKey sp \<noteq> [] then lru_get (cacheKey sp) c else None) of
        Some cached \<Rightarrow> Some (cached, c)
      | None \<Rightarrow>
          Option.bind (bloom_match_all BLOOM_N (slice 36 (lower (sp_filter sp))) tbl) (\<lambda>bloomMatch.
          if \<not> bloomMatch then Some (results, c)
          else if search_words lower (sp_filter sp) = [] then remember (cacheKey sp) results c
          else (case grp of
                  None \<Rightarrow> Some (results, c)
                | Some g \<Rightarrow>
                    Option.bind (shares_loop sp g (search_words lower (sp_filter sp)) shares results)
                      (\<lambda>results. remember (cacheKey sp) results c))))"

text \<open>\<open>updateBloomDirL\<close> and \<open>updateBloomL\<close>.\<close>

fun bloom_files :: "SharedFile list \<Rightarrow> bool list \<Rightarrow> bool list option" where
  "bloom_files [] tbl = Some tbl"
| "bloom_files (f # fs) tbl = Option.bind (bloom_add BLOOM_N (file_lower f) tbl) (bloom_files fs)"

fun updateBloomDirL :: "SharedDir \<Rightarrow> bool list \<Rightarrow> bool list option"
  and updateBloomDirs :: "SharedDir list \<Rightarrow> bool list \<Rightarrow> bool list option"
where
  "updateBloomDirL (SharedDir nm lo fs ds tot fm dm) tbl =
     Option.bind (bloom_add BLOOM_N (getLowerName nm lo) tbl) (\<lambda>tbl.
     Option.bind (bloom_files fs tbl) (updateBloomDirs ds))"
| "updateBloomDirs [] tbl = Some tbl"
| "updateBloomDirs (d # ds) tbl = Option.bind (updateBloomDirL d tbl) (updateBloomDirs ds)"

fun updateBloom_loop :: "ShareListItem list \<Rightarrow> bool list \<Rightarrow> bool list option" where
  "updateBloom_loop [] tbl = Some tbl"
| "updateBloom_loop (sli # shares) tbl =
     (if \<not> sli_removed sli then Option.bind (updateBloomDirL (sli_dir sli) tbl) (updateBloom_loop shares)
      else updateBloom_loop shares tbl)"

definition updateBloomL :: "ShareListItem list \<Rightarrow> bool list \<Rightarrow> bool list option" where
  "updateBloomL shares tbl = updateBloom_loop shares (bloom_clear tbl)"

subsection \<open>The names that are recorded\<close>

fun dir_names :: "SharedDir \<Rightarrow> bytes list" where
  "dir_names (SharedDir nm lo fs ds tot fm dm) = getLowerName nm lo # map file_lower fs @ concat (map dir_names ds)"

definition shares_known :: "bool list \<Rightarrow> ShareListItem list \<Rightarrow> bool" where
  "shares_known tbl shares \<longleftrightarrow> tbl \<noteq> [] \<and>
     (\<forall>sli \<in> set shares. \<not> sli_removed sli \<longrightarrow> (\<forall>n \<in> set (dir_names (sli_dir sli)). knows BLOOM_N tbl n))"

lemma hits_covered:
  "hits sp up lows ws d \<noteq> [] \<Longrightarrow> w \<in> set ws \<Longrightarrow> covered (dir_names d @ lows) w"
proof (induction sp up lows ws d rule: hits.induct)
  case (1 sp up lows ws nm lo fs ds tot fm dm)
  let ?lows = "getLowerName nm lo # lows"
  consider "list_all (covered ?lows) ws"
    | f where "f \<in> set fs" "list_all (covered (file_lower f # ?lows)) ws"
    | d where "d \<in> set ds" "hits sp (nm # up) ?lows ws d \<noteq> []"
    using 1(2) by (auto simp: Let_def filter_empty_conv split: if_split_asm)
  then show ?case
  proof cases
    case 1
    then show ?thesis using \<open>w \<in> set ws\<close> by (auto simp: list_all_iff covered_def)
  next
    case 2
    then have "covered (file_lower f # ?lows) w" using \<open>w \<in> set ws\<close> by (simp add: list_all_iff)
    then show ?thesis using 2(1) by (auto simp: covered_def)
  next
    case 3
    then have "covered (dir_names d @ ?lows) w" using 1(1) [OF refl refl 3(1)] \<open>w \<in> set ws\<close> by blast
    then show ?thesis using 3(1) by (auto simp: covered_def)
  qed
qed

text \<open>\<open>adds ns tbl r\<close>: the step returned a table of the same size that knows the names \<open>ns\<close> and what was known.\<close>

definition adds :: "bytes list \<Rightarrow> bool list \<Rightarrow> bool list option \<Rightarrow> bool" where
  "adds ns tbl r \<longleftrightarrow> (\<exists>tbl'. r = Some tbl' \<and> length tbl' = length tbl \<and> (\<forall>p < length tbl. tbl ! p \<longrightarrow> tbl' ! p) \<and>
     (\<forall>n \<in> set ns. knows BLOOM_N tbl' n))"

lemma adds_name: "tbl \<noteq> [] \<Longrightarrow> adds [n] tbl (bloom_add BLOOM_N n tbl)"
  using bloom_add_knows [of tbl BLOOM_N n] by (auto simp: adds_def)

lemma adds_none: "adds [] tbl (Some tbl)"
  by (simp add: adds_def)

lemma adds_bind:
  assumes "adds ns tbl r" "tbl \<noteq> []" "\<And>t. t \<noteq> [] \<Longrightarrow> adds ns' t (k t)"
  shows "adds (ns @ ns') tbl (Option.bind r k)"
proof -
  obtain t where t: "r = Some t" "length t = length tbl" "\<forall>p < length tbl. tbl ! p \<longrightarrow> t ! p" "\<forall>n \<in> set ns. knows BLOOM_N t n"
    using assms(1) by (auto simp: adds_def)
  have "t \<noteq> []" using t(2) assms(2) by auto
  then obtain u where u: "k t = Some u" "length u = length t" "\<forall>p < length t. t ! p \<longrightarrow> u ! p" "\<forall>n \<in> set ns'. knows BLOOM_N u n"
    using assms(3) [OF \<open>t \<noteq> []\<close>] by (auto simp: adds_def)
  have "knows BLOOM_N u n" if "n \<in> set ns" for n
    using t(4) that knows_mono [OF _ u(2) \<open>t \<noteq> []\<close> u(3)] by blast
  then show ?thesis using t u by (auto simp: adds_def)
qed

lemma adds_files: "tbl \<noteq> [] \<Longrightarrow> adds (map file_lower fs) tbl (bloom_files fs tbl)"
proof (induction fs arbitrary: tbl)
  case (Cons f fs)
  show ?case using adds_bind [OF adds_name [OF Cons.prems] Cons.prems Cons.IH] by simp
qed (simp add: adds_none)

lemma adds_dirs:
  "(\<And>d t. d \<in> set ds \<Longrightarrow> t \<noteq> [] \<Longrightarrow> adds (dir_names d) t (updateBloomDirL d t)) \<Longrightarrow> tbl \<noteq> [] \<Longrightarrow>
   adds (concat (map dir_names ds)) tbl (updateBloomDirs ds tbl)"
proof (induction ds arbitrary: tbl)
  case (Cons d ds)
  have "adds (concat (map dir_names ds)) t (updateBloomDirs ds t)" if "t \<noteq> []" for t
    using Cons.prems(1) that by (intro Cons.IH) auto
  then show ?case using adds_bind [OF Cons.prems(1) [of d tbl] Cons.prems(2)] Cons.prems(2) by simp
qed (simp add: adds_none)

lemma adds_dir: "tbl \<noteq> [] \<Longrightarrow> adds (dir_names d) tbl (updateBloomDirL d tbl)"
proof (induction d arbitrary: tbl)
  case (SharedDir nm lo fs ds tot fm dm)
  have rest: "adds (map file_lower fs @ concat (map dir_names ds)) t (Option.bind (bloom_files fs t) (updateBloomDirs ds))"
    if "t \<noteq> []" for t
    using adds_bind [OF adds_files [OF that] that adds_dirs] SharedDir.IH by blast
  show ?case using adds_bind [OF adds_name [OF SharedDir.prems] SharedDir.prems rest] by simp
qed

lemma adds_shares:
  "tbl \<noteq> [] \<Longrightarrow>
   adds (concat (map (dir_names \<circ> sli_dir) (filter (\<lambda>sli. \<not> sli_removed sli) shares))) tbl (updateBloom_loop shares tbl)"
proof (induction shares arbitrary: tbl)
  case (Cons sli shares)
  show ?case using adds_bind [OF adds_dir [OF Cons.prems, of "sli_dir sli"] Cons.prems Cons.IH] Cons by simp
qed (simp add: adds_none)

text \<open>After \<open>updateBloomL\<close> the filter has every name of the shares.\<close>

lemma updateBloomL_knows:
  assumes "tbl \<noteq> []"
  shows "\<exists>tbl'. updateBloomL shares tbl = Some tbl' \<and> shares_known tbl' shares"
proof -
  have ne: "bloom_clear tbl \<noteq> []" using assms by (simp add: bloom_clear_def)
  obtain tbl' where "updateBloom_loop shares (bloom_clear tbl) = Some tbl'" "length tbl' = length (bloom_clear tbl)"
    "\<forall>n \<in> set (concat (map (dir_names \<circ> sli_dir) (filter (\<lambda>sli. \<not> sli_removed sli) shares))). knows BLOOM_N tbl' n"
    using adds_shares [OF ne, of shares] by (auto simp: adds_def)
  then show ?thesis using ne by (auto simp: updateBloomL_def shares_known_def)
qed

subsection \<open>The whole search\<close>

lemma shares_loop_hits:
  assumes ty: "0 \<le> fileType sp" "fileType sp < 32" "fileType sp \<noteq> FILE_TYPE_DIRECTORY" and ws: "list_all well_made ws"
    and ok: "\<forall>sli \<in> set shares. types_ok (sli_dir sli)"
  shows "\<exists>out. shares_loop sp g ws shares res = Some out \<and> extends (maxResults sp) out res
    (concat (map (\<lambda>sli. hits sp [] [] ws (sli_dir sli)) (filter (\<lambda>sli. \<not> sli_removed sli \<and> hasShare g sli) shares)))"
  using ok
proof (induction shares arbitrary: res)
  case (Cons sli shares)
  show ?case
  proof (cases "sli_removed sli \<or> \<not> hasShare g sli")
    case True
    then show ?thesis using Cons by auto
  next
    case False
    have "filter (\<lambda>w. \<not> covered [] w) ws = ws" by (simp add: covered_def)
    then obtain out1 where o1: "searchL sp [] ws (sli_dir sli) res = Some out1"
      "extends (maxResults sp) out1 res (hits sp [] [] ws (sli_dir sli))"
      using searchL_hits [OF ty ws, of "sli_dir sli" "[]" "[]" res] Cons.prems by auto
    show ?thesis
    proof (cases "maxResults sp \<le> length out1")
      case True
      then show ?thesis using o1 False extends_full [OF o1(2) True] by auto
    next
      case few: False
      obtain out where "shares_loop sp g ws shares out1 = Some out" "extends (maxResults sp) out out1
          (concat (map (\<lambda>sli. hits sp [] [] ws (sli_dir sli)) (filter (\<lambda>sli. \<not> sli_removed sli \<and> hasShare g sli) shares)))"
        using Cons.IH [of out1] Cons.prems by auto
      then show ?thesis using o1 few False extends_trans [OF o1(2) _ few] by auto
    qed
  qed
qed (simp add: extends_done)

lemma remember_returns:
  assumes "cache_rep False xs c"
  shows "\<exists>c'. remember key results c = Some (results, c')"
proof (cases "key = []")
  case False
  obtain c1 b c2 where "removeOldest_loop lru_removeOldest SEARCH_CACHE_SIZE c = Some c1" "lru_add key results c1 = Some (b, c2)"
    using lru.bounded_add [OF assms, of SEARCH_CACHE_SIZE key results] by (auto simp: SEARCH_CACHE_SIZE_def)
  then show ?thesis using False by (simp add: remember_def)
qed (simp add: remember_def)

definition all_hits ::
  "(bytes \<Rightarrow> bytes) \<Rightarrow> NmdcSearchParam \<Rightarrow> bytes list \<Rightarrow> ShareListItem list \<Rightarrow> SearchResultCore list" where
  "all_hits lower sp g shares =
     (let ws = search_words lower (sp_filter sp) in
      if ws = [] then []
      else concat (map (\<lambda>sli. hits sp [] [] ws (sli_dir sli)) (filter (\<lambda>sli. \<not> sli_removed sli \<and> hasShare g sli) shares)))"

text \<open>What the Bloom filter does not know is no hit.\<close>

lemma unknown_word_no_hits:
  assumes "shares_known tbl shares" "t \<in> set (slice 36 (lower (sp_filter sp)))" "lower t = t" "\<not> knows BLOOM_N tbl t"
  shows "all_hits lower sp g shares = []"
proof -
  have "t \<noteq> []" using assms(4) by (auto simp: knows_def BLOOM_N_def)
  then have w: "new_search lower t True \<in> set (search_words lower (sp_filter sp))"
    using assms(2) by (auto simp: search_words_def)
  have "hits sp [] [] (search_words lower (sp_filter sp)) (sli_dir sli) = []"
    if sli: "sli \<in> set shares" "\<not> sli_removed sli" for sli
  proof (rule ccontr)
    assume "hits sp [] [] (search_words lower (sp_filter sp)) (sli_dir sli) \<noteq> []"
    from hits_covered [OF this w] obtain n where n: "n \<in> set (dir_names (sli_dir sli))" "sublist t n"
      by (auto simp: covered_def assms(3))
    have "knows BLOOM_N tbl n" using assms(1) sli n(1) by (simp add: shares_known_def)
    then show False using knows_sublist n(2) assms(4) by blast
  qed
  then show ?thesis by (auto simp: all_hits_def Let_def)
qed

lemma nmdc_search_run:
  assumes ty: "0 \<le> fileType sp" "fileType sp < 32" "fileType sp \<noteq> FILE_TYPE_DIRECTORY" "fileType sp \<noteq> FILE_TYPE_TTH"
    and words: "\<forall>t \<in> set (slice 36 (lower (sp_filter sp))). lower t = t \<and> length t < 65535"
    and known: "shares_known tbl shares" and types: "\<forall>sli \<in> set shares. types_ok (sli_dir sli)"
    and cache: "cache_rep False xs c" "lru_get (cacheKey sp) c = None"
  shows "\<exists>out c'. nmdc_search lower sp (Some g) shares tthIndex tbl [] c = Some (out, c') \<and>
    extends (maxResults sp) out [] (all_hits lower sp g shares)"
proof -
  let ?sl = "slice 36 (lower (sp_filter sp))" and ?ws = "search_words lower (sp_filter sp)"
  have new: "(if cacheKey sp \<noteq> [] then lru_get (cacheKey sp) c else None) = None" using cache(2) by simp
  have bm: "bloom_match_all BLOOM_N ?sl tbl = Some (\<forall>t \<in> set ?sl. knows BLOOM_N tbl t)"
    using known by (intro bloom_match_all_knows) (simp add: shares_known_def)
  have made: "list_all well_made ?ws"
    using words by (auto simp: search_words_def list_all_iff intro!: new_search_made)
  consider (no) "\<not> (\<forall>t \<in> set ?sl. knows BLOOM_N tbl t)" | (none) "\<forall>t \<in> set ?sl. knows BLOOM_N tbl t" "?ws = []"
    | (some) "\<forall>t \<in> set ?sl. knows BLOOM_N tbl t" "?ws \<noteq> []"
    by blast
  then show ?thesis
  proof cases
    case no
    then have "all_hits lower sp g shares = []" using unknown_word_no_hits [OF known] words by blast
    then show ?thesis using no ty(4) unfolding nmdc_search_def new bm by (simp add: extends_done)
  next
    case none
    then show ?thesis
      using remember_returns [OF cache(1), of "cacheKey sp" "[]"] ty(4) unfolding nmdc_search_def new bm
      by (auto simp: all_hits_def extends_done)
  next
    case some
    obtain out where out: "shares_loop sp g ?ws shares [] = Some out" "extends (maxResults sp) out [] (all_hits lower sp g shares)"
      using shares_loop_hits [OF ty(1-3) made types, of g "[]"] some(2) by (auto simp: all_hits_def)
    obtain c' where "remember (cacheKey sp) out c = Some (out, c')" using remember_returns [OF cache(1)] by blast
    then show ?thesis using some out ty(4) unfolding nmdc_search_def new bm by simp
  qed
qed

text \<open>
  C18: A search by words on an NMDC hub (\<open>ShareManager::search\<close>, \<open>searchL\<close>, with \<open>StringSearch\<close>, \<open>BloomFilter\<close> and
  \<open>LruCache\<close>), for a type below 32 other than directory and TTH, with words shorter than 65535 bytes that
  lower case leaves alone, when the answer is not in the cache. When the masks of the types (\<open>types_ok\<close>) and
  the Bloom filter (\<open>shares_known\<close>) are up to date, the search returns the files and directories of the
  group's shares in which every word occurs in the name or in that of a directory above, and that
  fit the type and the size (at least or at most; an exact size is not compared), in the order of the walk: all of them, or a beginning with at least as
  many as were asked for. The Bloom filter then loses none. (Searches for directories find nothing,
  \<open>directory_search_finds_nothing\<close>; searches for a TTH are \<open>nmdc_search_tth\<close>.)
\<close>

theorem nmdc_search_correct:
  assumes "0 \<le> fileType sp" "fileType sp < 32" "fileType sp \<noteq> FILE_TYPE_DIRECTORY" "fileType sp \<noteq> FILE_TYPE_TTH"
    and "\<forall>t \<in> set (slice 36 (lower (sp_filter sp))). lower t = t \<and> length t < 65535"
    and "shares_known tbl shares" "\<forall>sli \<in> set shares. types_ok (sli_dir sli)"
    and "cache_rep False xs c" "lru_get (cacheKey sp) c = None"
  shows "\<exists>out c'. nmdc_search lower sp (Some g) shares tthIndex tbl [] c = Some (out, c') \<and>
    prefix out (all_hits lower sp g shares) \<and> (out = all_hits lower sp g shares \<or> maxResults sp \<le> length out)"
  using nmdc_search_run [OF assms, of g] by (auto simp: extends_def)

text \<open>A share with a file in a directory below; the words are in different names.\<close>

definition ex_file :: SharedFile where
  "ex_file = \<lparr>sf_name = map u8_chr ''Abbey.mp3'', sf_lowerName = map u8_chr ''abbey.mp3'', sf_size = 7, sf_typesMask = 2,
     sf_tth = replicate 24 1\<rparr>"

definition ex_tree :: SharedDir where
  "ex_tree = SharedDir (map u8_chr ''Beatles'') (map u8_chr ''beatles'') []
     [SharedDir (map u8_chr ''1969'') (map u8_chr ''1969'') []
       [SharedDir (map u8_chr ''cd1'') (map u8_chr ''cd1'') [ex_file] [] 7 2 0] 7 0 2] 7 0 2"

definition ex_shares :: "ShareListItem list" where
  "ex_shares = [\<lparr>sli_lowerPath = [99], sli_dir = ex_tree, sli_removed = False\<rparr>]"

definition ex_param :: NmdcSearchParam where
  "ex_param = \<lparr>sizeMode = SIZE_DONTCARE, sp_size = 0, fileType = 1, maxResults = 10,
     sp_filter = map u8_chr ''Beatles$abbey'', cacheKey = []\<rparr>"

definition ex_path :: bytes where
  "ex_path = map u8_chr ''Beatles'' @ [92] @ map u8_chr ''1969'' @ [92] @ map u8_chr ''cd1'' @ [92] @ map u8_chr ''Abbey.mp3''"

lemma ex_hits: "all_hits asciiMakeLower ex_param [[99]] ex_shares =
    [\<lparr>r_type = TYPE_FILE, r_size = 7, r_file = ex_path, r_tth = replicate 24 1\<rparr>]"
  by code_simp

lemma ex_words: "\<forall>t \<in> set (slice 36 (asciiMakeLower (sp_filter ex_param))). asciiMakeLower t = t \<and> length t < 65535"
proof -
  have "slice 36 (asciiMakeLower (sp_filter ex_param)) = [map u8_chr ''beatles'', map u8_chr ''abbey'']" by code_simp
  moreover have "asciiMakeLower (map u8_chr ''beatles'') = map u8_chr ''beatles''"
    "asciiMakeLower (map u8_chr ''abbey'') = map u8_chr ''abbey''" by code_simp+
  ultimately show ?thesis by simp
qed

lemma knows_all: "0 < m \<Longrightarrow> knows N (replicate m True) s"
  by (auto simp: knows_def gram_def)

lemma ex_types: "types_ok ex_tree"
  by code_simp

theorem nmdc_search_correct_witness:
  "\<exists>c'. nmdc_search asciiMakeLower ex_param (Some [[99]]) ex_shares [] (replicate 8 True) [] empty_cache =
    Some ([\<lparr>r_type = TYPE_FILE, r_size = 7, r_file = ex_path, r_tth = replicate 24 1\<rparr>], c')"
proof -
  have "shares_known (replicate 8 True) ex_shares" by (simp add: shares_known_def knows_all)
  moreover have "\<forall>sli \<in> set ex_shares. types_ok (sli_dir sli)" by (simp add: ex_shares_def ex_types)
  moreover have "lru_get (cacheKey ex_param) (empty_cache :: (bytes, SearchResultCore list) Cache) = None"
    by (simp add: lru_get_def empty_cache_def)
  moreover have "0 \<le> fileType ex_param" "fileType ex_param < 32" "fileType ex_param \<noteq> FILE_TYPE_DIRECTORY"
    "fileType ex_param \<noteq> FILE_TYPE_TTH" "maxResults ex_param = 10" by (simp_all add: ex_param_def FILE_TYPE_DIRECTORY_def FILE_TYPE_TTH_def)
  ultimately obtain out c' where o: "nmdc_search asciiMakeLower ex_param (Some [[99]]) ex_shares [] (replicate 8 True) [] empty_cache = Some (out, c')"
    "prefix out (all_hits asciiMakeLower ex_param [[99]] ex_shares)" "out = all_hits asciiMakeLower ex_param [[99]] ex_shares \<or> 10 \<le> length out"
    using nmdc_search_correct [OF _ _ _ _ ex_words _ _ cache_rep_empty, of "replicate 8 True" ex_shares "[[99]]" "[]"] by auto
  have "length out \<le> 1" using prefix_length_le [OF o(2)] by (simp add: ex_hits)
  then have "out = all_hits asciiMakeLower ex_param [[99]] ex_shares" using o(3) by simp
  then show ?thesis using o(1) by (simp add: ex_hits)
qed

text \<open>
  A search for a TTH root finds the first file of the index with this root in a share of the group, and
  nothing else; the cache is not used.
\<close>

lemma searchTTH_loop_first:
  "searchTTH_loop g shares rest results = results @ map (\<lambda>item. file_result (ti_names item) (ti_file item))
     (take 1 (filter (item_in_group g shares) rest))"
  by (induction rest) auto

lemma isTTHBase32_root:
  assumes "length tth = 24"
  shows "isTTHBase32 (map u8_chr (''TTH:'' @ toBase32 tth ''''))"
proof -
  have "tth \<noteq> []" using assms by auto
  then have "length (toBase32 tth '''') = 39" using base32_roundtrip_text [of tth] assms by simp
  moreover have "list_all (\<lambda>c. CHR ''A'' \<le> c \<and> c \<le> CHR ''Z'' \<or> CHR ''2'' \<le> c \<and> c \<le> CHR ''7'') (toBase32 tth '''')"
    by (rule base32_letters)
  moreover have "u8_chr a \<le> u8_chr b \<longleftrightarrow> a \<le> b" for a b
    by (simp add: u8_chr_def word_le_nat_alt unat_of_nat less_eq_char_def)
  ultimately show ?thesis by (simp add: isTTHBase32_def list_all_iff)
qed

lemma nmdc_search_tth:
  assumes "fileType sp = FILE_TYPE_TTH" "length tth = 24" "sp_filter sp = map u8_chr (''TTH:'' @ toBase32 tth '''')"
  shows "nmdc_search lower sp (Some g) shares tthIndex tbl [] c =
    Some (map (\<lambda>item. file_result (ti_names item) (ti_file item))
      (take 1 (filter (item_in_group g shares) (filter (\<lambda>item. ti_tth item = tth) tthIndex))), c)"
proof -
  have "tth \<noteq> []" using assms(2) by auto
  then have "HashValue_fromBase32 24 (toBase32 tth '''') = Some tth"
    using base32_roundtrip_text [of tth False "[]"] assms(2) by (simp add: HashValue_fromBase32_def)
  moreover have "map chr_u8 (drop 4 (sp_filter sp)) = toBase32 tth ''''"
    by (simp add: assms(3) comp_def)
  ultimately show ?thesis
    using isTTHBase32_root [OF assms(2)] assms(1,3)
    by (simp add: nmdc_search_def searchTTH_def searchTTH_loop_first)
qed

text \<open>
  The masks are made of the types of files only, and no file has the type of a directory: a search for
  directories ends at the first comparison and finds nothing.
\<close>

lemma directory_search_finds_nothing:
  assumes "fileType sp = FILE_TYPE_DIRECTORY" "\<not> bit (filesTypesMask d OR dirsTypesMask d) 7"
  shows "searchL sp up ws d res = Some res"
  using assms by (cases d) (simp add: dir_hasType_def mask_has_def FILE_TYPE_DIRECTORY_def FILE_TYPE_ANY_def Let_def)

text \<open>
  Sharing one more file (\<open>ShareManager::addFile\<close>) in a directory: the masks are set to the type of this file
  alone, and the types of its other files and of the directories below are no longer found.
\<close>

definition addFile_dir :: "SharedFile \<Rightarrow> SharedDir \<Rightarrow> SharedDir option" where
  "addFile_dir f d =
     (if list_ex (\<lambda>g. file_lower g = file_lower f) (sd_files d) then None
      else Some (SharedDir (sd_name d) (sd_lowerName d) (sd_files d @ [f]) (sd_dirs d) (totalSize d + sf_size f) (sf_typesMask f) 0))"

lemma addFile_hides_types:
  assumes "addFile_dir f d = Some d'" "fileType sp = int t" "0 < t" "t < 32" "\<not> bit (sf_typesMask f) t"
  shows "searchL sp up ws d' res = Some res"
  using assms by (auto simp: addFile_dir_def dir_hasType_def mask_has_def FILE_TYPE_ANY_def Let_def split: if_split_asm)

end
