(* ===== verification/AdcSearch.thy ===== *)
theory AdcSearch
  imports ShareSearch
begin

text \<open>
  Searches of ADC hubs in \<open>src/client/ShareManager.cpp\<close>: \<open>AdcSearchParam::isExcluded\<close> and \<open>hasExt\<close>, the second
  \<open>searchL\<close> with its words from the parameters or from the directory above (\<open>replaceInclude\<close>), and \<open>search\<close>.
  \<open>hasExt\<close> changes the parameters, so they are passed on. The constructor that reads the
  parameters of the command is not modelled.
\<close>

section \<open>The program\<close>

record AdcSearchParam =
  include_words :: "StringSearch list"
  exclude_words :: "StringSearch list"
  exts :: "bytes list"
  noExts :: "bytes list"
  gt :: int
  lt :: int
  adc_root :: "bytes option"
  isDirectory :: bool
  adc_maxResults :: nat
  adc_cacheKey :: bytes

fun isExcluded_loop :: "StringSearch list \<Rightarrow> bytes \<Rightarrow> bool option" where
  "isExcluded_loop [] s = Some False"
| "isExcluded_loop (k # ks) s = Option.bind (matchKeepCase k s) (\<lambda>b. if b then Some True else isExcluded_loop ks s)"

definition isExcluded :: "AdcSearchParam \<Rightarrow> bytes \<Rightarrow> bool option" where
  "isExcluded sp s = isExcluded_loop (exclude_words sp) s"

text \<open>\<open>std::set_difference\<close> with the order of strings.\<close>

fun bytes_less :: "bytes \<Rightarrow> bytes \<Rightarrow> bool" where
  "bytes_less _ [] = False"
| "bytes_less [] (_ # _) = True"
| "bytes_less (a # as) (b # bs) = (a < b \<or> a = b \<and> bytes_less as bs)"

fun set_difference :: "bytes list \<Rightarrow> bytes list \<Rightarrow> bytes list" where
  "set_difference [] ys = []"
| "set_difference (x # xs) [] = x # xs"
| "set_difference (x # xs) (y # ys) =
     (if bytes_less x y then x # set_difference xs (y # ys)
      else if bytes_less y x then set_difference (x # xs) ys
      else set_difference xs ys)"

definition has_suffix :: "bytes \<Rightarrow> bytes \<Rightarrow> bool" where
  "has_suffix name e \<longleftrightarrow> length name \<ge> length e \<and>
     asciiMakeLower (drop (length name - length e) name) = asciiMakeLower e"

definition hasExt :: "bytes \<Rightarrow> AdcSearchParam \<Rightarrow> bool \<times> AdcSearchParam" where
  "hasExt name sp =
     (if exts sp = [] then (True, sp)
      else
        let sp = (if noExts sp \<noteq> [] then sp\<lparr>exts := set_difference (exts sp) (noExts sp), noExts := []\<rparr> else sp)
        in (list_ex (has_suffix name) (exts sp), sp))"

text \<open>The loop over the words for the name of a directory; \<open>newStr\<close> is null until a word is found.\<close>

fun adc_remove ::
  "AdcSearchParam \<Rightarrow> StringSearch list \<Rightarrow> bytes \<Rightarrow> StringSearch list \<Rightarrow> StringSearch list option \<Rightarrow> StringSearch list option option" where
  "adc_remove sp [] name cur newStr = Some newStr"
| "adc_remove sp (k # ks) name cur newStr =
     Option.bind (matchKeepCase k name) (\<lambda>b.
     Option.bind (if b then isExcluded sp name else Some True) (\<lambda>ex.
       if b \<and> \<not> ex
       then adc_remove sp ks name cur
         (Some (filter (\<lambda>x. \<not> same_search x k) (case newStr of None \<Rightarrow> cur | Some l \<Rightarrow> l)))
       else adc_remove sp ks name cur newStr))"

fun adc_files ::
  "bytes list \<Rightarrow> StringSearch list \<Rightarrow> SharedFile list \<Rightarrow> AdcSearchParam \<Rightarrow> SearchResultCore list \<Rightarrow>
     (bool \<times> SearchResultCore list \<times> AdcSearchParam) option" where
  "adc_files names cur [] sp results = Some (False, results, sp)"
| "adc_files names cur (f # fs) sp results =
     (if sf_size f < gt sp \<or> sf_size f > lt sp then adc_files names cur fs sp results
      else Option.bind (isExcluded sp (file_lower f)) (\<lambda>ex.
        if ex then adc_files names cur fs sp results
        else
          let (ok, sp) = hasExt (file_lower f) sp in
          if \<not> ok then adc_files names cur fs sp results
          else Option.bind (all_match cur (file_lower f)) (\<lambda>all.
            if \<not> all then adc_files names cur fs sp results
            else
              let results = results @ [file_result names f] in
              if length results \<ge> adc_maxResults sp then Some (True, results, sp)
              else adc_files names cur fs sp results)))"

fun adc_searchL ::
    "bytes list \<Rightarrow> StringSearch list option \<Rightarrow> SharedDir \<Rightarrow> AdcSearchParam \<Rightarrow> SearchResultCore list \<Rightarrow>
       (SearchResultCore list \<times> AdcSearchParam) option"
  and adc_searchL_dirs ::
    "bytes list \<Rightarrow> StringSearch list option \<Rightarrow> SharedDir list \<Rightarrow> AdcSearchParam \<Rightarrow> SearchResultCore list \<Rightarrow>
       (SearchResultCore list \<times> AdcSearchParam) option"
where
  "adc_searchL up replaceInclude (SharedDir nm lo fs ds tot fm dm) sp results =
     (let names = nm # up;
          cur = (case replaceInclude of None \<Rightarrow> include_words sp | Some l \<Rightarrow> l) in
      Option.bind (adc_remove sp cur (getLowerName nm lo) cur None) (\<lambda>newStr.
        let cur = (case newStr of None \<Rightarrow> cur | Some l \<Rightarrow> l);
            results = (if cur = [] \<and> exts sp = [] \<and> gt sp = 0 then results @ [dir_result tot names] else results) in
        Option.bind (if \<not> isDirectory sp then adc_files names cur fs sp results else Some (False, results, sp))
          (\<lambda>(ret, results, sp).
            if ret then Some (results, sp) else adc_searchL_dirs names newStr ds sp results)))"
| "adc_searchL_dirs names newStr [] sp results = Some (results, sp)"
| "adc_searchL_dirs names newStr (d # ds) sp results =
     Option.bind (adc_searchL names newStr d sp results) (\<lambda>(results, sp).
       if length results \<ge> adc_maxResults sp then Some (results, sp) else adc_searchL_dirs names newStr ds sp results)"

fun adc_shares_loop ::
  "bytes list \<Rightarrow> ShareListItem list \<Rightarrow> AdcSearchParam \<Rightarrow> SearchResultCore list \<Rightarrow> (SearchResultCore list \<times> AdcSearchParam) option" where
  "adc_shares_loop grp [] sp results = Some (results, sp)"
| "adc_shares_loop grp (sli # shares) sp results =
     (if sli_removed sli \<or> \<not> hasShare grp sli then adc_shares_loop grp shares sp results
      else Option.bind (adc_searchL [] None (sli_dir sli) sp results) (\<lambda>(results, sp).
        if length results \<ge> adc_maxResults sp then Some (results, sp) else adc_shares_loop grp shares sp results))"

definition adc_search ::
  "AdcSearchParam \<Rightarrow> bytes list option \<Rightarrow> ShareListItem list \<Rightarrow> TTHMapItem list \<Rightarrow> bool list \<Rightarrow> SearchResultCore list \<Rightarrow>
     (bytes, SearchResultCore list) Cache \<Rightarrow> (SearchResultCore list \<times> (bytes, SearchResultCore list) Cache) option" where
  "adc_search sp grp shares tthIndex tbl results c = (case adc_root sp of
     Some tth \<Rightarrow> Some (searchTTH tth grp shares tthIndex results, c)
   | None \<Rightarrow>
     (case (if adc_cacheKey sp \<noteq> [] then lru_get (adc_cacheKey sp) c else None) of
        Some cached \<Rightarrow> Some (cached, c)
      | None \<Rightarrow>
          Option.bind (bloom_match_all BLOOM_N (map ss_pattern (include_words sp)) tbl) (\<lambda>bloomMatch.
          if \<not> bloomMatch then Some (results, c)
          else (case grp of
                  None \<Rightarrow> Some (results, c)
                | Some g \<Rightarrow>
                    Option.bind (adc_shares_loop g shares sp results)
                      (\<lambda>(results, sp). remember (adc_cacheKey sp) results c)))))"

section \<open>What is found\<close>

definition excluded :: "AdcSearchParam \<Rightarrow> bytes \<Rightarrow> bool" where
  "excluded sp s \<longleftrightarrow> list_ex (\<lambda>k. sublist (ss_pattern k) s) (exclude_words sp)"

definition adc_wanted :: "AdcSearchParam \<Rightarrow> SharedFile \<Rightarrow> bool" where
  "adc_wanted sp f \<longleftrightarrow> gt sp \<le> sf_size f \<and> sf_size f \<le> lt sp \<and> \<not> excluded sp (file_lower f) \<and>
     (exts sp = [] \<or> list_ex (has_suffix (file_lower f)) (exts sp))"

text \<open>
  The hits of an ADC search, with the words that are found in directories further up (\<open>deep\<close>), or only
  with those found in the name itself and in that of its directory. The name of a directory
  counts unless it is excluded.
\<close>

fun adc_hits :: "bool \<Rightarrow> AdcSearchParam \<Rightarrow> bytes list \<Rightarrow> bytes list \<Rightarrow> SharedDir \<Rightarrow> SearchResultCore list" where
  "adc_hits deep sp up lows (SharedDir nm lo fs ds tot fm dm) =
     (let names = nm # up; low = getLowerName nm lo;
          lows = (if excluded sp low then [] else [low]) @ (if deep then lows else []) in
      (if list_all (covered lows) (include_words sp) \<and> exts sp = [] \<and> gt sp = 0 then [dir_result tot names] else []) @
      (if isDirectory sp then []
       else map (file_result names) (filter (\<lambda>f. adc_wanted sp f \<and> list_all (covered (file_lower f # lows)) (include_words sp)) fs)) @
      concat (map (adc_hits deep sp names lows) ds))"

lemma isExcluded_excluded: "list_all well_made (exclude_words sp) \<Longrightarrow> isExcluded sp s = Some (excluded sp s)"
proof -
  have "list_all well_made ks \<Longrightarrow> isExcluded_loop ks s = Some (list_ex (\<lambda>k. sublist (ss_pattern k) s) ks)" for ks
    by (induction ks) (simp_all add: matchKeepCase_sublist)
  then show "list_all well_made (exclude_words sp) \<Longrightarrow> ?thesis" by (simp add: isExcluded_def excluded_def)
qed

lemma hasExt_pure: "noExts sp = [] \<Longrightarrow> hasExt name sp = (exts sp = [] \<or> list_ex (has_suffix name) (exts sp), sp)"
  by (simp add: hasExt_def)

text \<open>\<open>between m out res lo hi\<close>: all that was appended is in \<open>hi\<close>, in its order, and all of \<open>lo\<close> was, unless enough was found.\<close>

definition between :: "nat \<Rightarrow> 'a list \<Rightarrow> 'a list \<Rightarrow> 'a list \<Rightarrow> 'a list \<Rightarrow> bool" where
  "between m out res lo hi \<longleftrightarrow> (\<exists>ys. out = res @ ys \<and> subseq ys hi \<and> (subseq lo ys \<or> m \<le> length out))"

lemma between_done: "between m res res [] []"
  by (simp add: between_def)

lemma between_full: "between m out res lo hi \<Longrightarrow> m \<le> length out \<Longrightarrow> between m out res (lo @ lo') (hi @ hi')"
  by (auto simp: between_def intro: list_emb_append_mono [where ys = "[]", simplified])

lemma between_trans:
  assumes "between m out1 res lo1 hi1" "between m out out1 lo2 hi2"
  shows "between m out res (lo1 @ lo2) (hi1 @ hi2)"
proof -
  obtain ys where ys: "out1 = res @ ys" "subseq ys hi1" "subseq lo1 ys \<or> m \<le> length out1"
    using assms(1) by (auto simp: between_def)
  obtain zs where zs: "out = out1 @ zs" "subseq zs hi2" "subseq lo2 zs \<or> m \<le> length out"
    using assms(2) by (auto simp: between_def)
  have "subseq (lo1 @ lo2) (ys @ zs) \<or> m \<le> length out"
    using ys(3) zs(1,3) by (auto intro: list_emb_append_mono)
  then show ?thesis using ys zs list_emb_append_mono [OF ys(2) zs(2)] by (auto simp: between_def)
qed

lemma subseq_filter_mono: "(\<And>x. x \<in> set xs \<Longrightarrow> P x \<Longrightarrow> Q x) \<Longrightarrow> subseq (filter P xs) (filter Q xs)"
  by (induction xs) auto

lemma adc_remove_filter:
  assumes "list_all well_made (exclude_words sp)" "list_all well_made ks"
  shows "adc_remove sp ks name cur newStr =
    Some (if \<not> excluded sp name \<and> (\<exists>k \<in> set ks. sublist (ss_pattern k) name)
      then Some (filter (\<lambda>x. \<not> (\<exists>k \<in> set ks. same_search x k \<and> sublist (ss_pattern k) name)) (case newStr of None \<Rightarrow> cur | Some l \<Rightarrow> l))
      else newStr)"
  using assms(2)
proof (induction ks arbitrary: newStr)
  case (Cons k ks)
  have k: "matchKeepCase k name = Some (sublist (ss_pattern k) name)" and ks: "list_all well_made ks"
    using Cons.prems by (simp_all add: matchKeepCase_sublist)
  note ex = isExcluded_excluded [OF assms(1), of name]
  show ?case
  proof (cases "sublist (ss_pattern k) name \<and> \<not> excluded sp name")
    case True
    have e: "filter (\<lambda>x. \<not> (\<exists>j \<in> set ks. same_search x j \<and> sublist (ss_pattern j) name)) (filter (\<lambda>x. \<not> same_search x k) l) =
        filter (\<lambda>x. \<not> (\<exists>j \<in> set (k # ks). same_search x j \<and> sublist (ss_pattern j) name)) l" for l
      using True by (auto intro: filter_cong)
    have none: "filter (\<lambda>x. \<not> same_search x k) l =
        filter (\<lambda>x. \<not> (\<exists>j \<in> set (k # ks). same_search x j \<and> sublist (ss_pattern j) name)) l"
      if "\<not> (\<exists>j \<in> set ks. sublist (ss_pattern j) name)" for l
      using True that by (auto intro!: filter_cong)
    show ?thesis
    proof (cases "\<exists>j \<in> set ks. sublist (ss_pattern j) name")
      case t: True
      then show ?thesis using True Cons.IH [OF ks] k ex e by simp
    next
      case False
      then show ?thesis using True Cons.IH [OF ks] k ex none [OF False] by simp
    qed
  next
    case False
    then have run: "adc_remove sp (k # ks) name cur newStr = adc_remove sp ks name cur newStr"
      using k ex by auto
    show ?thesis
    proof (cases "excluded sp name")
      case True
      then show ?thesis using run Cons.IH [OF ks] by simp
    next
      case ne: False
      then have "\<not> sublist (ss_pattern k) name" using False by blast
      then show ?thesis using run Cons.IH [OF ks] ne by simp
    qed
  qed
qed simp

definition rest_words :: "AdcSearchParam \<Rightarrow> bytes \<Rightarrow> StringSearch list \<Rightarrow> StringSearch list" where
  "rest_words sp name cur = (if excluded sp name then cur else filter (\<lambda>x. \<not> sublist (ss_pattern x) name) cur)"

lemma adc_remove_self:
  assumes "list_all well_made (exclude_words sp)" "list_all well_made cur"
  shows "\<exists>newStr. adc_remove sp cur name cur None = Some newStr \<and>
    (newStr = None \<or> newStr = Some (rest_words sp name cur)) \<and>
    (case newStr of None \<Rightarrow> cur | Some l \<Rightarrow> l) = rest_words sp name cur"
proof -
  have "filter (\<lambda>x. \<not> (\<exists>k \<in> set cur. same_search x k \<and> sublist (ss_pattern k) name)) cur =
      filter (\<lambda>x. \<not> sublist (ss_pattern x) name) cur"
    by (auto simp: same_search_def intro!: filter_cong)
  moreover have "filter (\<lambda>x. \<not> sublist (ss_pattern x) name) cur = cur" if "\<not> (\<exists>k \<in> set cur. sublist (ss_pattern k) name)"
    using that by (simp add: filter_id_conv)
  ultimately show ?thesis
    unfolding adc_remove_filter [OF assms] by (auto simp: rest_words_def)
qed

definition adc_file_hits :: "AdcSearchParam \<Rightarrow> bytes list \<Rightarrow> StringSearch list \<Rightarrow> SharedFile list \<Rightarrow> SearchResultCore list" where
  "adc_file_hits sp names cur fs =
     map (file_result names) (filter (\<lambda>f. adc_wanted sp f \<and> list_all (\<lambda>k. sublist (ss_pattern k) (file_lower f)) cur) fs)"

lemma adc_files_hits:
  assumes "list_all well_made cur" "list_all well_made (exclude_words sp)" "noExts sp = []"
  shows "\<exists>ret out. adc_files names cur fs sp res = Some (ret, out, sp) \<and>
    extends (adc_maxResults sp) out res (adc_file_hits sp names cur fs) \<and>
    (if ret then adc_maxResults sp \<le> length out else out = res @ adc_file_hits sp names cur fs)"
proof (induction fs arbitrary: res)
  case Nil
  show ?case by (intro exI [of _ False]) (simp add: adc_file_hits_def extends_done)
next
  case (Cons f fs)
  note rules = isExcluded_excluded [OF assms(2)] hasExt_pure [OF assms(3)] all_match_all [OF assms(1)]
  show ?case
  proof (cases "adc_wanted sp f \<and> list_all (\<lambda>k. sublist (ss_pattern k) (file_lower f)) cur")
    case False
    then have "adc_files names cur (f # fs) sp res = adc_files names cur fs sp res"
      by (auto simp: rules adc_wanted_def)
    moreover have "adc_file_hits sp names cur (f # fs) = adc_file_hits sp names cur fs"
      using False by (simp add: adc_file_hits_def)
    ultimately show ?thesis using Cons [of res] by (simp only:)
  next
    case True
    let ?r = "res @ [file_result names f]"
    have h: "adc_file_hits sp names cur (f # fs) = [file_result names f] @ adc_file_hits sp names cur fs"
      using True by (simp add: adc_file_hits_def)
    have run: "adc_files names cur (f # fs) sp res =
        (if length ?r \<ge> adc_maxResults sp then Some (True, ?r, sp) else adc_files names cur fs sp ?r)"
      using True by (auto simp: rules adc_wanted_def)
    show ?thesis
    proof (cases "length ?r \<ge> adc_maxResults sp")
      case True
      then show ?thesis unfolding run h by (auto simp: extends_def)
    next
      case False
      then show ?thesis using Cons [of ?r] extends_app [OF refl] unfolding run h by fastforce
    qed
  qed
qed

text \<open>\<open>keeps sp lows cur\<close>: words were removed only when a name above has them.\<close>

definition keeps :: "AdcSearchParam \<Rightarrow> bytes list \<Rightarrow> StringSearch list \<Rightarrow> bool" where
  "keeps sp lows cur \<longleftrightarrow> set cur \<subseteq> set (include_words sp) \<and> (\<forall>w \<in> set (include_words sp). w \<in> set cur \<or> covered lows w)"

abbreviation own_lows :: "AdcSearchParam \<Rightarrow> bytes \<Rightarrow> bytes list" where
  "own_lows sp low \<equiv> (if excluded sp low then [] else [low])"

lemma keeps_rest: "keeps sp lows cur \<Longrightarrow> keeps sp (own_lows sp low @ lows) (rest_words sp low cur)"
  by (auto simp: keeps_def rest_words_def covered_def)

lemma keeps_all: "keeps sp lows (include_words sp)"
  by (simp add: keeps_def)

lemma rest_in_file:
  assumes "keeps sp lows cur"
  shows "list_all (\<lambda>k. sublist (ss_pattern k) n) (rest_words sp low cur) \<Longrightarrow>
      list_all (covered (n # own_lows sp low @ lows)) (include_words sp)"
    and "list_all (covered (n # own_lows sp low)) (include_words sp) \<Longrightarrow>
      list_all (\<lambda>k. sublist (ss_pattern k) n) (rest_words sp low cur)"
  using assms by (auto simp: keeps_def rest_words_def list_all_iff covered_def split: if_split_asm)

lemma rest_none:
  assumes "keeps sp lows cur"
  shows "rest_words sp low cur = [] \<Longrightarrow> list_all (covered (own_lows sp low @ lows)) (include_words sp)"
    and "list_all (covered (own_lows sp low)) (include_words sp) \<Longrightarrow> rest_words sp low cur = []"
  using assms by (auto simp: keeps_def rest_words_def list_all_iff covered_def filter_empty_conv split: if_split_asm)

lemma adc_file_hits_between:
  assumes "keeps sp lows cur"
  shows "subseq (adc_file_hits sp names (rest_words sp low cur) fs)
      (map (file_result names) (filter (\<lambda>f. adc_wanted sp f \<and> list_all (covered (file_lower f # own_lows sp low @ lows)) (include_words sp)) fs))"
    and "subseq (map (file_result names) (filter (\<lambda>f. adc_wanted sp f \<and> list_all (covered (file_lower f # own_lows sp low)) (include_words sp)) fs))
      (adc_file_hits sp names (rest_words sp low cur) fs)"
  unfolding adc_file_hits_def using rest_in_file [OF assms]
  by (intro subseq_map subseq_filter_mono; blast)+

lemma adc_dirs_between:
  assumes "\<And>d res. d \<in> set ds \<Longrightarrow>
    \<exists>out. adc_searchL names rep d sp res = Some (out, sp) \<and> between (adc_maxResults sp) out res (lo d) (hi d)"
  shows "\<exists>out. adc_searchL_dirs names rep ds sp res = Some (out, sp) \<and>
    between (adc_maxResults sp) out res (concat (map lo ds)) (concat (map hi ds))"
  using assms
proof (induction ds arbitrary: res)
  case Nil
  show ?case by (simp add: between_done)
next
  case (Cons d ds)
  obtain out1 where o1: "adc_searchL names rep d sp res = Some (out1, sp)" "between (adc_maxResults sp) out1 res (lo d) (hi d)"
    using Cons.prems [of d] by auto
  show ?case
  proof (cases "adc_maxResults sp \<le> length out1")
    case True
    then show ?thesis using o1 between_full [OF o1(2) True] by simp
  next
    case False
    obtain out where "adc_searchL_dirs names rep ds sp out1 = Some (out, sp)"
      "between (adc_maxResults sp) out out1 (concat (map lo ds)) (concat (map hi ds))"
      using Cons.IH [of out1] Cons.prems by auto
    then show ?thesis using o1 False between_trans [OF o1(2)] by simp
  qed
qed

lemma between_files:
  assumes "extends m out res fh" "subseq lo fh" "subseq fh hi"
  shows "between m out res lo hi"
proof -
  obtain ys where ys: "out = res @ ys" "prefix ys fh" "ys = fh \<or> m \<le> length out" using assms(1) by (auto simp: extends_def)
  have "subseq ys hi" using prefix_imp_subseq [OF ys(2)] assms(3) by (rule subseq_order.order_trans)
  then show ?thesis using ys assms(2) by (auto simp: between_def)
qed

lemma between_here: "(b \<Longrightarrow> c) \<Longrightarrow> (a \<Longrightarrow> b) \<Longrightarrow>
    between m (res @ (if b then [x] else [])) res (if a then [x] else []) (if c then [x] else [])"
  by (auto simp: between_def)

lemma adc_searchL_between:
  assumes made: "list_all well_made (include_words sp)" "list_all well_made (exclude_words sp)" and no: "noExts sp = []"
  shows "keeps sp lows (case rep of None \<Rightarrow> include_words sp | Some l \<Rightarrow> l) \<Longrightarrow>
    \<exists>out. adc_searchL up rep d sp res = Some (out, sp) \<and>
      between (adc_maxResults sp) out res (adc_hits False sp up l d) (adc_hits True sp up lows d)"
proof (induction d arbitrary: up rep lows l res)
  case (SharedDir nm lo fs ds tot fm dm)
  let ?d = "SharedDir nm lo fs ds tot fm dm" and ?names = "nm # up" and ?low = "getLowerName nm lo"
  let ?own = "own_lows sp ?low" and ?inc = "include_words sp" and ?m = "adc_maxResults sp"
  define cur where "cur = (case rep of None \<Rightarrow> ?inc | Some l \<Rightarrow> l)"
  let ?rest = "rest_words sp ?low cur" and ?dir = "exts sp = [] \<and> gt sp = 0"
  have k: "keeps sp lows cur" using SharedDir.prems by (simp add: cur_def)
  have made2: "list_all well_made cur" "list_all well_made ?rest"
    using k made(1) by (auto simp: keeps_def rest_words_def list_all_iff)
  obtain newStr where new: "adc_remove sp cur ?low cur None = Some newStr" "newStr = None \<or> newStr = Some ?rest"
    "(case newStr of None \<Rightarrow> cur | Some l \<Rightarrow> l) = ?rest"
    using adc_remove_self [OF made(2) made2(1)] by blast
  let ?b = "?rest = [] \<and> ?dir" and ?dr = "dir_result tot ?names"
  let ?here = "res @ (if ?b then [?dr] else [])"
  let ?la = "if list_all (covered ?own) ?inc \<and> ?dir then [?dr] else []"
  let ?ha = "if list_all (covered (?own @ lows)) ?inc \<and> ?dir then [?dr] else []"
  let ?fl = "\<lambda>ls. if isDirectory sp then []
    else map (file_result ?names) (filter (\<lambda>f. adc_wanted sp f \<and> list_all (covered (file_lower f # ls)) ?inc) fs)"
  have lo: "adc_hits False sp up l ?d = ?la @ ?fl ?own @ concat (map (adc_hits False sp ?names ?own) ds)"
    and hi: "adc_hits True sp up lows ?d = ?ha @ ?fl (?own @ lows) @ concat (map (adc_hits True sp ?names (?own @ lows)) ds)"
    by (simp_all add: Let_def)
  have b1: "between ?m ?here res ?la ?ha" using rest_none [OF k, of ?low] by (intro between_here) auto
  have "\<exists>ret out. (if \<not> isDirectory sp then adc_files ?names ?rest fs sp ?here else Some (False, ?here, sp)) = Some (ret, out, sp) \<and>
      between ?m out ?here (?fl ?own) (?fl (?own @ lows)) \<and> (ret \<longrightarrow> ?m \<le> length out)"
  proof (cases "isDirectory sp")
    case True
    then show ?thesis by (intro exI [of _ False]) (simp add: between_done)
  next
    case False
    obtain ret out where f: "adc_files ?names ?rest fs sp ?here = Some (ret, out, sp)"
      "extends ?m out ?here (adc_file_hits sp ?names ?rest fs)" "if ret then ?m \<le> length out else out = ?here @ adc_file_hits sp ?names ?rest fs"
      using adc_files_hits [OF made2(2) made(2) no] by blast
    have "between ?m out ?here (?fl ?own) (?fl (?own @ lows))"
      using between_files [OF f(2) adc_file_hits_between(2) [OF k] adc_file_hits_between(1) [OF k]] False by simp
    then show ?thesis using f False by (intro exI [of _ ret] exI [of _ out]) simp
  qed
  then obtain ret out where f: "(if \<not> isDirectory sp then adc_files ?names ?rest fs sp ?here else Some (False, ?here, sp)) = Some (ret, out, sp)"
    "between ?m out ?here (?fl ?own) (?fl (?own @ lows))" "ret \<longrightarrow> ?m \<le> length out"
    by blast
  have run: "adc_searchL up rep ?d sp res = (if ret then Some (out, sp) else adc_searchL_dirs ?names newStr ds sp out)"
  proof -
    have h: "(if ?rest = [] \<and> exts sp = [] \<and> gt sp = 0 then res @ [?dr] else res) = ?here" by simp
    show ?thesis
      by (simp only: adc_searchL.simps Let_def cur_def [symmetric] new(1) bind.bind_lunit new(3) h f(1) prod.case)
  qed
  have b2: "between ?m out res (?la @ ?fl ?own) (?ha @ ?fl (?own @ lows))" by (rule between_trans [OF b1 f(2)])
  show ?case
  proof (cases ret)
    case True
    then show ?thesis using run f(3) between_full [OF b2] unfolding lo hi by auto
  next
    case False
    have "keeps sp (?own @ lows) (case newStr of None \<Rightarrow> ?inc | Some l \<Rightarrow> l)"
      using new(2) keeps_rest [OF k, of ?low] keeps_all [of sp "?own @ lows"] by (elim disjE) (simp_all only: option.case)
    then have "\<exists>o2. adc_searchL_dirs ?names newStr ds sp out = Some (o2, sp) \<and>
        between ?m o2 out (concat (map (adc_hits False sp ?names ?own) ds)) (concat (map (adc_hits True sp ?names (?own @ lows)) ds))"
      using SharedDir.IH by (intro adc_dirs_between) blast
    then obtain o2 where o2: "adc_searchL_dirs ?names newStr ds sp out = Some (o2, sp)"
      "between ?m o2 out (concat (map (adc_hits False sp ?names ?own) ds)) (concat (map (adc_hits True sp ?names (?own @ lows)) ds))"
      by blast
    have "between ?m o2 res (adc_hits False sp up l ?d) (adc_hits True sp up lows ?d)"
      using between_trans [OF b2 o2(2)] unfolding lo hi by (simp only: append.assoc)
    moreover have "adc_searchL up rep ?d sp res = Some (o2, sp)" using run False o2(1) by (simp only: if_False)
    ultimately show ?thesis by blast
  qed
qed

section \<open>The whole search\<close>

definition adc_all_hits :: "bool \<Rightarrow> AdcSearchParam \<Rightarrow> bytes list \<Rightarrow> ShareListItem list \<Rightarrow> SearchResultCore list" where
  "adc_all_hits deep sp g shares =
     concat (map (\<lambda>sli. adc_hits deep sp [] [] (sli_dir sli)) (filter (\<lambda>sli. \<not> sli_removed sli \<and> hasShare g sli) shares))"

lemma adc_shares_between:
  assumes "list_all well_made (include_words sp)" "list_all well_made (exclude_words sp)" "noExts sp = []"
  shows "\<exists>out. adc_shares_loop g shares sp res = Some (out, sp) \<and>
    between (adc_maxResults sp) out res (adc_all_hits False sp g shares) (adc_all_hits True sp g shares)"
proof (induction shares arbitrary: res)
  case Nil
  show ?case by (simp add: adc_all_hits_def between_done)
next
  case (Cons sli shares)
  show ?case
  proof (cases "sli_removed sli \<or> \<not> hasShare g sli")
    case True
    then show ?thesis using Cons by (auto simp: adc_all_hits_def)
  next
    case False
    have h: "adc_all_hits deep sp g (sli # shares) = adc_hits deep sp [] [] (sli_dir sli) @ adc_all_hits deep sp g shares" for deep
      using False by (simp add: adc_all_hits_def)
    obtain out1 where o1: "adc_searchL [] None (sli_dir sli) sp res = Some (out1, sp)"
      "between (adc_maxResults sp) out1 res (adc_hits False sp [] [] (sli_dir sli)) (adc_hits True sp [] [] (sli_dir sli))"
      using adc_searchL_between [OF assms, of "[]" None "[]" "sli_dir sli" res "[]"] keeps_all by auto
    show ?thesis
    proof (cases "adc_maxResults sp \<le> length out1")
      case True
      then show ?thesis using o1 False between_full [OF o1(2) True] by (auto simp: h)
    next
      case few: False
      then show ?thesis using o1 False Cons.IH [of out1] between_trans [OF o1(2)] by (fastforce simp: h)
    qed
  qed
qed

lemma adc_hits_covered:
  "adc_hits deep sp up lows d \<noteq> [] \<Longrightarrow> w \<in> set (include_words sp) \<Longrightarrow> covered (dir_names d @ lows) w"
proof (induction deep sp up lows d rule: adc_hits.induct)
  case (1 deep sp up lows nm lo fs ds tot fm dm)
  let ?lows = "own_lows sp (getLowerName nm lo) @ (if deep then lows else [])"
  have sub: "covered ?lows w \<Longrightarrow> covered (dir_names (SharedDir nm lo fs ds tot fm dm) @ lows) w"
    by (auto simp: covered_def split: if_split_asm)
  consider "list_all (covered ?lows) (include_words sp)"
    | f where "f \<in> set fs" "list_all (covered (file_lower f # ?lows)) (include_words sp)"
    | d where "d \<in> set ds" "adc_hits deep sp (nm # up) ?lows d \<noteq> []"
    using 1(2) by (auto simp: Let_def filter_empty_conv split: if_split_asm)
  then show ?case
  proof cases
    case 1
    then show ?thesis using \<open>w \<in> set (include_words sp)\<close> sub by (simp add: list_all_iff)
  next
    case 2
    then have "covered (file_lower f # ?lows) w" using \<open>w \<in> set (include_words sp)\<close> by (simp add: list_all_iff)
    then show ?thesis using 2(1) sub by (auto simp: covered_def)
  next
    case 3
    have "covered (dir_names d @ ?lows) w"
      using 1(1) [OF refl refl refl 3(1)] 3(2) \<open>w \<in> set (include_words sp)\<close> by blast
    then show ?thesis using 3(1) sub by (auto simp: covered_def)
  qed
qed

lemma adc_unknown_word:
  assumes "shares_known tbl shares" "w \<in> set (include_words sp)" "\<not> knows BLOOM_N tbl (ss_pattern w)"
  shows "adc_all_hits deep sp g shares = []"
proof -
  have "adc_hits deep sp [] [] (sli_dir sli) = []" if sli: "sli \<in> set shares" "\<not> sli_removed sli" for sli
  proof (rule ccontr)
    assume "adc_hits deep sp [] [] (sli_dir sli) \<noteq> []"
    from adc_hits_covered [OF this assms(2)] obtain n where n: "n \<in> set (dir_names (sli_dir sli))" "sublist (ss_pattern w) n"
      by (auto simp: covered_def)
    have "knows BLOOM_N tbl n" using assms(1) sli n(1) by (simp add: shares_known_def)
    then show False using knows_sublist n(2) assms(3) by blast
  qed
  then show ?thesis by (auto simp: adc_all_hits_def)
qed

text \<open>
  C19: A search by words on an ADC hub (\<open>ShareManager::search\<close>, \<open>searchL\<close> with \<open>AdcSearchParam\<close>) without excluded
  extensions (no \<open>RX\<close> parameter, \<open>noExts\<close> empty; with them files of any extension can be accepted,
  \<open>hasExt_all_excluded\<close>), with well-made words, an up-to-date Bloom filter (\<open>shares_known\<close>) and no answer in the
  cache. A directory counts for a word when the word occurs in its name and its name has no excluded
  word. Everything found is a hit: a file of the group's shares that fits the size and the extensions, whose
  own name has no excluded word, and in which every word occurs in its name or counts for a directory
  above; or, when no extension and no least size is asked for, a directory such that every word counts for it or
  for a directory above. And, unless as many results as asked for were found, everything is found of this kind
  for which the words occur in its own name or count for its own directory (those further up may be
  forgotten, \<open>grandparent_word_forgotten\<close>).
\<close>

theorem adc_search_correct:
  assumes "list_all well_made (include_words sp)" "list_all well_made (exclude_words sp)" "noExts sp = []"
    and "adc_root sp = None" and "shares_known tbl shares" "cache_rep False xs c" "lru_get (adc_cacheKey sp) c = None"
  shows "\<exists>out c'. adc_search sp (Some g) shares tthIndex tbl [] c = Some (out, c') \<and>
    subseq out (adc_all_hits True sp g shares) \<and>
    (subseq (adc_all_hits False sp g shares) out \<or> adc_maxResults sp \<le> length out)"
proof -
  have new: "(if adc_cacheKey sp \<noteq> [] then lru_get (adc_cacheKey sp) c else None) = None" using assms(7) by simp
  have bm: "bloom_match_all BLOOM_N (map ss_pattern (include_words sp)) tbl =
      Some (\<forall>w \<in> set (include_words sp). knows BLOOM_N tbl (ss_pattern w))"
    using assms(5) bloom_match_all_knows [of tbl BLOOM_N "map ss_pattern (include_words sp)"] by (simp add: shares_known_def)
  show ?thesis
  proof (cases "\<forall>w \<in> set (include_words sp). knows BLOOM_N tbl (ss_pattern w)")
    case True
    obtain out where out: "adc_shares_loop g shares sp [] = Some (out, sp)"
      "between (adc_maxResults sp) out [] (adc_all_hits False sp g shares) (adc_all_hits True sp g shares)"
      using adc_shares_between [OF assms(1-3)] by blast
    obtain c' where "remember (adc_cacheKey sp) out c = Some (out, c')" using remember_returns [OF assms(6)] by blast
    then show ?thesis using True out assms(4) unfolding adc_search_def new bm by (auto simp: between_def)
  next
    case False
    then have "adc_all_hits deep sp g shares = []" for deep using adc_unknown_word [OF assms(5)] by blast
    then show ?thesis using False assms(4) unfolding adc_search_def new bm by simp
  qed
qed

definition ex_adc :: AdcSearchParam where
  "ex_adc = \<lparr>include_words = [new_search asciiMakeLower (map u8_chr ''cd1'') True, new_search asciiMakeLower (map u8_chr ''abbey'') True],
     exclude_words = [], exts = [], noExts = [], gt = 0, lt = 100, adc_root = None, isDirectory = False, adc_maxResults = 10, adc_cacheKey = []\<rparr>"

lemma ex_adc_hits: "adc_all_hits deep ex_adc [[99]] ex_shares =
    [\<lparr>r_type = TYPE_FILE, r_size = 7, r_file = ex_path, r_tth = replicate 24 1\<rparr>]"
proof (cases deep)
  case True
  have "adc_all_hits True ex_adc [[99]] ex_shares = [\<lparr>r_type = TYPE_FILE, r_size = 7, r_file = ex_path, r_tth = replicate 24 1\<rparr>]"
    by code_simp
  then show ?thesis using True by simp
next
  case False
  have "adc_all_hits False ex_adc [[99]] ex_shares = [\<lparr>r_type = TYPE_FILE, r_size = 7, r_file = ex_path, r_tth = replicate 24 1\<rparr>]"
    by code_simp
  then show ?thesis using False by simp
qed

lemma ex_adc_max: "adc_maxResults ex_adc = 10"
  by (simp add: ex_adc_def)

theorem adc_search_correct_witness:
  "\<exists>c'. adc_search ex_adc (Some [[99]]) ex_shares [] (replicate 8 True) [] empty_cache =
    Some ([\<lparr>r_type = TYPE_FILE, r_size = 7, r_file = ex_path, r_tth = replicate 24 1\<rparr>], c')"
proof -
  let ?r = "[\<lparr>r_type = TYPE_FILE, r_size = 7, r_file = ex_path, r_tth = replicate 24 1\<rparr>] :: SearchResultCore list"
  have made: "list_all well_made (include_words ex_adc)" "list_all well_made (exclude_words ex_adc)" "noExts ex_adc = []"
    "adc_root ex_adc = None"
    by (simp_all add: ex_adc_def new_search_made asciiMakeLower_def)
  have "shares_known (replicate 8 True) ex_shares" by (simp add: shares_known_def knows_all)
  moreover have "lru_get (adc_cacheKey ex_adc) (empty_cache :: (bytes, SearchResultCore list) Cache) = None"
    by (simp add: lru_get_def empty_cache_def)
  ultimately obtain out c' where o: "adc_search ex_adc (Some [[99]]) ex_shares [] (replicate 8 True) [] empty_cache = Some (out, c')"
    "subseq out ?r" "subseq ?r out \<or> 10 \<le> length out"
    using adc_search_correct [OF made _ cache_rep_empty, of "replicate 8 True" ex_shares "[[99]]" "[]"] ex_adc_max
    unfolding ex_adc_hits by auto
  have "length out \<le> 1" using list_emb_length [OF o(2)] by simp
  then have "out = ?r" using o(2,3) subseq_order.order_antisym [of out ?r] by auto
  then show ?thesis using o(1) by simp
qed

text \<open>
  \<open>searchL\<close> hands \<open>newStr\<close> down, which is null when the name of this directory has none of the words: the
  words found further up are forgotten. The file is found by the NMDC search and not by the ADC one.
\<close>

definition far_adc :: AdcSearchParam where
  "far_adc = ex_adc\<lparr>include_words := [new_search asciiMakeLower (map u8_chr ''beatles'') True, new_search asciiMakeLower (map u8_chr ''abbey'') True]\<rparr>"

lemma grandparent_word_forgotten:
  "map_option fst (adc_searchL [] None ex_tree far_adc []) = Some []"
  "adc_all_hits True far_adc [[99]] ex_shares = [\<lparr>r_type = TYPE_FILE, r_size = 7, r_file = ex_path, r_tth = replicate 24 1\<rparr>]"
  by code_simp+

text \<open>When every extension asked for is also excluded, the first file is refused and all others are accepted.\<close>

lemma hasExt_all_excluded:
  assumes "exts sp = [e]" "noExts sp = [e]"
  shows "fst (hasExt name sp) = False" "fst (hasExt name2 (snd (hasExt name sp))) = True"
proof -
  have "\<not> bytes_less e e" by (induction e) simp_all
  then show "fst (hasExt name sp) = False" "fst (hasExt name2 (snd (hasExt name sp))) = True"
    using assms by (simp_all add: hasExt_def)
qed

end
