(* ===== verification/SearchQueue.thy ===== *)
theory SearchQueue
  imports ShareSearch
begin

text \<open>
  The outgoing searches of a hub: \<open>src/client/SearchQueue.cpp\<close>, \<open>SearchQueue.h\<close>, and its
  use in \<open>src/client/Client.cpp\<close>. Searches wait in a queue, those
  of the user before the automatic ones, and are sent one after the other with an interval between
  them. The owners of a search are a \<open>std::unordered_set\<close>, a list without repetition here. Times are
  milliseconds, \<open>uint64_t\<close> far from its bound, and natural numbers here.
\<close>

section \<open>The program\<close>

datatype SearchMode = MODE_DEFAULT | MODE_ACTIVE | MODE_PASSIVE

record Search =
  searchMode :: SearchMode
  s_sizeMode :: SizeModes
  s_size :: int
  s_fileType :: int
  s_filter :: bytes
  s_filterExclude :: bytes
  token :: u32
  extList :: "bytes list"
  owners :: "u64 list"

definition isAutoToken :: "Search \<Rightarrow> bool" where
  "isAutoToken s \<longleftrightarrow> token s AND 1 = 0"

definition search_equals :: "Search \<Rightarrow> Search \<Rightarrow> bool" where
  "search_equals a b \<longleftrightarrow> s_sizeMode a = s_sizeMode b \<and> s_size a = s_size b \<and> s_fileType a = s_fileType b \<and>
     s_filter a = s_filter b \<and> s_filterExclude a = s_filterExclude b"

record SearchQueue =
  searchQueue :: "Search list"
  lastSearchTime :: nat
  lastSearchPassive :: bool
  interval :: nat
  intervalPassive :: nat

definition new_queue :: SearchQueue where
  "new_queue = \<lparr>searchQueue = [], lastSearchTime = 0, lastSearchPassive = False, interval = 0, intervalPassive = 0\<rparr>"

text \<open>The loop that looks for an equal search; the first component says whether \<open>add\<close> returns.\<close>

fun dupe_loop :: "Search \<Rightarrow> Search list \<Rightarrow> bool \<times> Search list" where
  "dupe_loop s [] = (False, [])"
| "dupe_loop s (i # q) =
     (if search_equals i s then
        let i = i\<lparr>owners := List.insert (hd (owners s)) (owners i)\<rparr> in
        if \<not> isAutoToken s \<and> isAutoToken i then (False, q) else (True, i # q)
      else let (ret, q) = dupe_loop s q in (ret, i # q))"

fun insert_manual :: "Search \<Rightarrow> Search list \<Rightarrow> Search list" where
  "insert_manual s [] = [s]"
| "insert_manual s (i # q) = (if isAutoToken i then s # i # q else i # insert_manual s q)"

definition sq_add :: "Search \<Rightarrow> SearchQueue \<Rightarrow> bool \<times> SearchQueue" where
  "sq_add s sq =
     (let (ret, q) = dupe_loop s (searchQueue sq) in
      if ret then (False, sq\<lparr>searchQueue := q\<rparr>)
      else if isAutoToken s \<or> q = [] then (True, sq\<lparr>searchQueue := q @ [s]\<rparr>)
      else (True, sq\<lparr>searchQueue := insert_manual s q\<rparr>))"

definition wait_for :: "bool \<Rightarrow> SearchQueue \<Rightarrow> nat" where
  "wait_for passive sq = (if passive then intervalPassive sq else interval sq)"

definition sq_pop :: "nat \<Rightarrow> SearchQueue \<Rightarrow> Search option \<times> SearchQueue" where
  "sq_pop now sq =
     (case searchQueue sq of
        [] \<Rightarrow> (None, sq)
      | s # q \<Rightarrow>
          if lastSearchTime sq \<noteq> 0 \<and> now \<le> lastSearchTime sq + wait_for (lastSearchPassive sq) sq then (None, sq)
          else (Some s, sq\<lparr>searchQueue := q, lastSearchPassive := (searchMode s = MODE_PASSIVE), lastSearchTime := now\<rparr>))"

fun time_loop :: "u64 \<Rightarrow> SearchQueue \<Rightarrow> Search list \<Rightarrow> nat \<Rightarrow> nat" where
  "time_loop owner sq [] searchTime = 0"
| "time_loop owner sq (s # q) searchTime =
     (if isAutoToken s \<or> owners s = [] then 0
      else if owner \<in> set (owners s) then searchTime
      else time_loop owner sq q (searchTime + wait_for (searchMode s = MODE_PASSIVE) sq))"

definition getSearchTime :: "u64 \<Rightarrow> nat \<Rightarrow> SearchQueue \<Rightarrow> nat" where
  "getSearchTime owner now sq =
     (if owner = 0 then 0
      else
        let searchTime = (if lastSearchTime sq \<noteq> 0
              then let t = lastSearchTime sq + wait_for (lastSearchPassive sq) sq in if now > t then now else t
              else now)
        in time_loop owner sq (searchQueue sq) searchTime)"

fun cancel_loop :: "u64 \<Rightarrow> Search list \<Rightarrow> bool \<times> Search list" where
  "cancel_loop owner [] = (False, [])"
| "cancel_loop owner (i # q) =
     (if owner \<in> set (owners i) then
        let os = removeAll owner (owners i) in (True, if os = [] then q else i\<lparr>owners := os\<rparr> # q)
      else let (r, q) = cancel_loop owner q in (r, i # q))"

definition cancelSearch :: "u64 \<Rightarrow> SearchQueue \<Rightarrow> bool \<times> SearchQueue" where
  "cancelSearch owner sq = (let (r, q) = cancel_loop owner (searchQueue sq) in (r, sq\<lparr>searchQueue := q\<rparr>))"

definition hasQueuedItems :: "SearchQueue \<Rightarrow> bool" where
  "hasQueuedItems sq \<longleftrightarrow> searchQueue sq \<noteq> []"

text \<open>\<open>Client::setSearchInterval\<close> and \<open>setSearchIntervalPassive\<close>.\<close>

definition clip_interval :: "nat \<Rightarrow> nat" where
  "clip_interval i = (if i < 2000 then 2000 else if i > 120000 then 120000 else i)"

definition setSearchInterval :: "nat \<Rightarrow> SearchQueue \<Rightarrow> SearchQueue" where
  "setSearchInterval i sq = sq\<lparr>interval := clip_interval i\<rparr>"

definition setSearchIntervalPassive :: "nat \<Rightarrow> SearchQueue \<Rightarrow> SearchQueue" where
  "setSearchIntervalPassive i sq = sq\<lparr>intervalPassive := clip_interval i\<rparr>"

text \<open>
  The part of \<open>SearchParam\<close> that a hub's search uses, \<open>Client::searchInternal\<close> and the part of
  \<open>Client::on(Second)\<close> after the state of the connection has been looked after. A search that goes
  out is \<open>searchToken\<close>'s argument. What the clock and \<open>isActive\<close> give are arguments.
\<close>

record SearchParam =
  p_searchMode :: SearchMode
  p_sizeMode :: SizeModes
  p_size :: int
  p_fileType :: int
  p_filter :: bytes
  p_filterExclude :: bytes
  p_token :: u32
  p_owner :: u64
  p_extList :: "bytes list"

definition to_search :: "SearchParam \<Rightarrow> bool \<Rightarrow> Search" where
  "to_search sp active = \<lparr>
     searchMode = (if p_searchMode sp = MODE_DEFAULT then (if active then MODE_ACTIVE else MODE_PASSIVE) else p_searchMode sp),
     s_sizeMode = p_sizeMode sp, s_size = p_size sp, s_fileType = p_fileType sp, s_filter = p_filter sp,
     s_filterExclude = p_filterExclude sp, token = p_token sp, extList = p_extList sp, owners = [p_owner sp]\<rparr>"

definition of_search :: "Search \<Rightarrow> SearchParam" where
  "of_search s = \<lparr>p_searchMode = searchMode s, p_sizeMode = s_sizeMode s, p_size = s_size s, p_fileType = s_fileType s,
     p_filter = s_filter s, p_filterExclude = s_filterExclude s, p_token = token s, p_owner = 0, p_extList = extList s\<rparr>"

definition searchInternal :: "SearchParam \<Rightarrow> bool \<Rightarrow> nat \<Rightarrow> SearchQueue \<Rightarrow> nat \<times> SearchParam option \<times> SearchQueue" where
  "searchInternal sp active now sq =
     (if interval sq \<noteq> 0 then
        let sq = snd (sq_add (to_search sp active) sq);
            st = getSearchTime (p_owner sp) now sq
        in (if st \<noteq> 0 then st - now else 0, None, sq)
      else (0, Some sp, sq))"

definition on_Second :: "bool \<Rightarrow> nat \<Rightarrow> SearchQueue \<Rightarrow> SearchParam option \<times> SearchQueue" where
  "on_Second normal tick sq =
     (if interval sq = 0 then (None, sq)
      else if normal then (case sq_pop tick sq of (None, sq) \<Rightarrow> (None, sq) | (Some s, sq) \<Rightarrow> (Some (of_search s), sq))
      else (None, sq))"

section \<open>The order of the queue\<close>

text \<open>
  The searches of the user come first, no two searches are the same, and each has an owner.
\<close>

definition before_ok :: "Search \<Rightarrow> Search \<Rightarrow> bool" where
  "before_ok a b \<longleftrightarrow> \<not> search_equals a b \<and> (isAutoToken a \<longrightarrow> isAutoToken b)"

definition queue_ok :: "Search list \<Rightarrow> bool" where
  "queue_ok q \<longleftrightarrow> sorted_wrt before_ok q \<and> (\<forall>s \<in> set q. owners s \<noteq> [])"

lemma search_equals_sym: "search_equals a b \<longleftrightarrow> search_equals b a"
  by (auto simp: search_equals_def)

lemma with_owners [simp]:
  "isAutoToken (s\<lparr>owners := os\<rparr>) = isAutoToken s" "search_equals (s\<lparr>owners := os\<rparr>) b = search_equals s b"
  "search_equals b (s\<lparr>owners := os\<rparr>) = search_equals b s"
  by (simp_all add: isAutoToken_def search_equals_def)

lemma before_owners [simp]:
  "before_ok (s\<lparr>owners := os\<rparr>) b = before_ok s b" "before_ok b (s\<lparr>owners := os\<rparr>) = before_ok b s"
  by (simp_all add: before_ok_def)

text \<open>After the loop either an equal search has one more owner, or there is none left in the queue.\<close>

lemma dupe_loop_set:
  "dupe_loop s q = (ret, q') \<Longrightarrow> x \<in> set q' \<Longrightarrow> \<exists>y \<in> set q. \<exists>os. x = y\<lparr>owners := os\<rparr> \<and> (owners y \<noteq> [] \<longrightarrow> os \<noteq> [])"
proof (induction q arbitrary: q' ret)
  case (Cons i q)
  obtain r q1 where r: "dupe_loop s q = (r, q1)" by fastforce
  have self: "y = y\<lparr>owners := owners y\<rparr>" for y :: Search by simp
  show ?case
  proof (cases "search_equals i s")
    case True
    have "List.insert (hd (owners s)) (owners i) \<noteq> []" by (metis list.distinct(1) in_set_insert insert_iff set_empty set_insert empty_iff)
    then show ?thesis using Cons.prems True self by (auto simp: Let_def split: if_split_asm) (metis self)+
  next
    case False
    then have "q' = i # q1" using Cons.prems(1) r by simp
    then show ?thesis using Cons.IH [OF r] Cons.prems(2) self by (auto; metis)
  qed
qed simp

lemma dupe_loop_ok:
  assumes "queue_ok q" "dupe_loop s q = (ret, q')"
  shows "queue_ok q' \<and> (\<not> ret \<longrightarrow> (\<forall>x \<in> set q'. \<not> search_equals x s))"
  using assms
proof (induction q arbitrary: q' ret)
  case (Cons i q)
  obtain r q1 where r: "dupe_loop s q = (r, q1)" by fastforce
  have q: "queue_ok q" and i: "\<forall>x \<in> set q. before_ok i x" "owners i \<noteq> []" using Cons.prems(1) by (auto simp: queue_ok_def)
  show ?case
  proof (cases "search_equals i s")
    case True
    have other: "\<not> search_equals x s" if "x \<in> set q" for x
      using i(1) that True by (auto simp: before_ok_def search_equals_def)
    show ?thesis
    proof (cases "\<not> isAutoToken s \<and> isAutoToken i")
      case t: True
      then show ?thesis using Cons.prems(2) True q other by (auto simp: Let_def)
    next
      case f: False
      have "q' = i\<lparr>owners := List.insert (hd (owners s)) (owners i)\<rparr> # q" "ret"
        using Cons.prems(2) True f by (auto simp: Let_def)
      moreover have "List.insert (hd (owners s)) (owners i) \<noteq> []" using i(2) by (auto simp: List.insert_def)
      ultimately show ?thesis using q i by (auto simp: queue_ok_def)
    qed
  next
    case False
    then have q': "q' = i # q1" "ret = r" using Cons.prems(2) r by auto
    have IH: "queue_ok q1 \<and> (\<not> r \<longrightarrow> (\<forall>x \<in> set q1. \<not> search_equals x s))" by (rule Cons.IH [OF q r])
    have "before_ok i x" if "x \<in> set q1" for x
      using dupe_loop_set [OF r that] i(1) by auto
    then show ?thesis using IH q' i(2) False by (auto simp: queue_ok_def)
  qed
qed (simp add: queue_ok_def)

lemma insert_manual_set: "set (insert_manual s q) = insert s (set q)"
  by (induction q) auto

lemma insert_manual_ok:
  assumes "queue_ok q" "\<not> isAutoToken s" "owners s \<noteq> []" "\<forall>x \<in> set q. \<not> search_equals x s"
  shows "queue_ok (insert_manual s q)"
  using assms
proof (induction q)
  case (Cons i q)
  then have IH: "queue_ok (insert_manual s q)" by (auto simp: queue_ok_def)
  show ?case
  proof (cases "isAutoToken i")
    case True
    then show ?thesis using Cons.prems by (auto simp: queue_ok_def before_ok_def search_equals_sym)
  next
    case False
    then have "\<forall>x \<in> set (insert_manual s q). before_ok i x"
      using Cons.prems by (auto simp: insert_manual_set queue_ok_def before_ok_def)
    then show ?thesis using False IH Cons.prems(1) by (auto simp: queue_ok_def)
  qed
qed (simp add: queue_ok_def)

lemma append_auto_ok:
  assumes "queue_ok q" "isAutoToken s \<or> q = []" "owners s \<noteq> []" "\<forall>x \<in> set q. \<not> search_equals x s"
  shows "queue_ok (q @ [s])"
  using assms by (auto simp: queue_ok_def sorted_wrt_append before_ok_def)

lemma sq_add_ok:
  assumes "queue_ok (searchQueue sq)" "owners s \<noteq> []"
  shows "queue_ok (searchQueue (snd (sq_add s sq)))"
proof -
  obtain ret q where d: "dupe_loop s (searchQueue sq) = (ret, q)" by fastforce
  from dupe_loop_ok [OF assms(1) d] have q: "queue_ok q" "\<not> ret \<longrightarrow> (\<forall>x \<in> set q. \<not> search_equals x s)" by auto
  then show ?thesis
    using insert_manual_ok [OF q(1) _ assms(2)] append_auto_ok [OF q(1) _ assms(2)] d by (auto simp: sq_add_def)
qed

lemma cancel_loop_set:
  "x \<in> set (snd (cancel_loop w q)) \<Longrightarrow> \<exists>y \<in> set q. \<exists>os. x = y\<lparr>owners := os\<rparr>"
proof (induction q)
  case (Cons i q)
  have self: "y = y\<lparr>owners := owners y\<rparr>" for y :: Search by simp
  show ?case
  proof (cases "w \<in> set (owners i)")
    case True
    then show ?thesis using Cons.prems by (auto simp: Let_def split: if_split_asm) (metis self)+
  next
    case False
    then have "x = i \<or> x \<in> set (snd (cancel_loop w q))" using Cons.prems by (auto split: prod.splits)
    then show ?thesis using Cons.IH self by (auto; metis)
  qed
qed simp

lemma cancel_loop_ok: "queue_ok q \<Longrightarrow> queue_ok (snd (cancel_loop w q))"
proof (induction q)
  case (Cons i q)
  then have q: "queue_ok q" and i: "\<forall>x \<in> set q. before_ok i x" "owners i \<noteq> []" by (auto simp: queue_ok_def)
  show ?case
  proof (cases "w \<in> set (owners i)")
    case True
    then show ?thesis using q i by (auto simp: queue_ok_def Let_def)
  next
    case False
    have "\<forall>x \<in> set (snd (cancel_loop w q)). before_ok i x" using i(1) by (auto dest!: cancel_loop_set)
    then show ?thesis using False Cons.IH [OF q] i(2) by (auto simp: queue_ok_def split: prod.splits)
  qed
qed simp

lemma cancelSearch_ok: "queue_ok (searchQueue sq) \<Longrightarrow> queue_ok (searchQueue (snd (cancelSearch w sq)))"
  using cancel_loop_ok [of "searchQueue sq" w] by (auto simp: cancelSearch_def split: prod.splits)

lemma sq_pop_ok: "queue_ok (searchQueue sq) \<Longrightarrow> queue_ok (searchQueue (snd (sq_pop now sq)))"
  by (auto simp: sq_pop_def queue_ok_def split: list.split)

section \<open>Runs\<close>

text \<open>
  What happens to the queue of a hub in an order of its own: a search is asked for, a second passes,
  an owner cancels, the hub's rules set the intervals. A run gives what goes out, with its time.
\<close>

datatype SearchEvent =
  Ask SearchParam bool nat | Second bool nat | Cancel u64 | SetInterval nat | SetPassive nat

fun sq_event :: "SearchEvent \<Rightarrow> SearchQueue \<Rightarrow> (nat \<times> SearchParam) list \<times> SearchQueue" where
  "sq_event (Ask sp active now) sq =
     (case searchInternal sp active now sq of (_, out, sq) \<Rightarrow> (case out of None \<Rightarrow> [] | Some p \<Rightarrow> [(now, p)], sq))"
| "sq_event (Second normal tick) sq =
     (case on_Second normal tick sq of (out, sq) \<Rightarrow> (case out of None \<Rightarrow> [] | Some p \<Rightarrow> [(tick, p)], sq))"
| "sq_event (Cancel w) sq = ([], snd (cancelSearch w sq))"
| "sq_event (SetInterval i) sq = ([], setSearchInterval i sq)"
| "sq_event (SetPassive i) sq = ([], setSearchIntervalPassive i sq)"

fun sq_run :: "SearchEvent list \<Rightarrow> SearchQueue \<Rightarrow> (nat \<times> SearchParam) list \<times> SearchQueue" where
  "sq_run [] sq = ([], sq)"
| "sq_run (e # es) sq = (case sq_event e sq of (out, sq) \<Rightarrow> (case sq_run es sq of (outs, sq) \<Rightarrow> (out @ outs, sq)))"

fun event_time :: "SearchEvent \<Rightarrow> bool" where
  "event_time (Second _ tick) \<longleftrightarrow> 0 < tick"
| "event_time _ \<longleftrightarrow> True"

definition intervals_ok :: "SearchQueue \<Rightarrow> bool" where
  "intervals_ok sq \<longleftrightarrow> 2000 \<le> interval sq \<and> 2000 \<le> intervalPassive sq"

lemma to_search_owners [simp]: "owners (to_search sp a) = [p_owner sp]"
  by (simp add: to_search_def)

lemma sq_add_keeps [simp]:
  "interval (snd (sq_add s sq)) = interval sq" "intervalPassive (snd (sq_add s sq)) = intervalPassive sq"
  "lastSearchTime (snd (sq_add s sq)) = lastSearchTime sq"
  by (simp_all add: sq_add_def Let_def split: prod.split)

lemma cancelSearch_keeps [simp]:
  "interval (snd (cancelSearch w sq)) = interval sq" "intervalPassive (snd (cancelSearch w sq)) = intervalPassive sq"
  "lastSearchTime (snd (cancelSearch w sq)) = lastSearchTime sq"
  by (simp_all add: cancelSearch_def Let_def split: prod.split)

lemma set_keeps [simp]:
  "searchQueue (setSearchInterval i sq) = searchQueue sq" "searchQueue (setSearchIntervalPassive i sq) = searchQueue sq"
  "lastSearchTime (setSearchInterval i sq) = lastSearchTime sq" "lastSearchTime (setSearchIntervalPassive i sq) = lastSearchTime sq"
  by (simp_all add: setSearchInterval_def setSearchIntervalPassive_def)

lemma sq_pop_cases:
  "sq_pop now sq = (None, sq) \<or>
   (\<exists>s q. searchQueue sq = s # q \<and> (lastSearchTime sq \<noteq> 0 \<longrightarrow> lastSearchTime sq + wait_for (lastSearchPassive sq) sq < now) \<and>
     sq_pop now sq = (Some s, sq\<lparr>searchQueue := q, lastSearchPassive := (searchMode s = MODE_PASSIVE), lastSearchTime := now\<rparr>))"
  by (auto simp: sq_pop_def split: list.split)

text \<open>One event: the order is kept, and what goes out does so after the interval.\<close>

lemma sq_event_ok:
  assumes "queue_ok (searchQueue sq)" "intervals_ok sq" "event_time e" "sq_event e sq = (out, sq')"
  shows "queue_ok (searchQueue sq') \<and> intervals_ok sq' \<and>
    (out = [] \<and> lastSearchTime sq' = lastSearchTime sq \<or>
     (\<exists>t p. out = [(t, p)] \<and> lastSearchTime sq' = t \<and> 0 < t \<and> (lastSearchTime sq \<noteq> 0 \<longrightarrow> lastSearchTime sq + 2000 < t)))"
proof (cases e)
  case (Ask sp active now)
  have "interval sq \<noteq> 0" using assms(2) by (simp add: intervals_ok_def)
  then have "out = []" "sq' = snd (sq_add (to_search sp active) sq)" using assms(4) Ask by (auto simp: searchInternal_def Let_def)
  then show ?thesis using sq_add_ok [OF assms(1), of "to_search sp active"] assms(2) by (simp add: intervals_ok_def)
next
  case (Second normal tick)
  have i: "interval sq \<noteq> 0" "2000 \<le> wait_for b sq" for b using assms(2) by (auto simp: intervals_ok_def wait_for_def)
  show ?thesis
  proof (cases "normal \<and> fst (sq_pop tick sq) \<noteq> None")
    case False
    then have "out = []" "sq' = sq" using assms(4) Second i(1) sq_pop_cases [of tick sq] by (auto simp: on_Second_def split: if_split_asm)
    then show ?thesis using assms by simp
  next
    case True
    with sq_pop_cases [of tick sq] obtain s q where s: "searchQueue sq = s # q"
        "lastSearchTime sq \<noteq> 0 \<longrightarrow> lastSearchTime sq + wait_for (lastSearchPassive sq) sq < tick"
        "sq_pop tick sq = (Some s, sq\<lparr>searchQueue := q, lastSearchPassive := (searchMode s = MODE_PASSIVE), lastSearchTime := tick\<rparr>)"
      by auto
    then have "out = [(tick, of_search s)]" "sq' = sq\<lparr>searchQueue := q, lastSearchPassive := (searchMode s = MODE_PASSIVE), lastSearchTime := tick\<rparr>"
      using assms(4) Second i(1) True by (auto simp: on_Second_def)
    moreover have "lastSearchTime sq \<noteq> 0 \<longrightarrow> lastSearchTime sq + 2000 < tick" using s(2) i(2) [of "lastSearchPassive sq"] by linarith
    ultimately show ?thesis using s(1) assms(1,2,3) Second by (auto simp: queue_ok_def intervals_ok_def)
  qed
next
  case (Cancel w)
  then have "out = []" "sq' = snd (cancelSearch w sq)" using assms(4) by auto
  then show ?thesis using cancelSearch_ok [OF assms(1), of w] assms(2) by (simp add: intervals_ok_def)
next
  case (SetInterval i)
  then have "out = []" "sq' = setSearchInterval i sq" using assms(4) by auto
  then show ?thesis using assms(1,2) by (simp add: intervals_ok_def setSearchInterval_def clip_interval_def)
next
  case (SetPassive i)
  then have "out = []" "sq' = setSearchIntervalPassive i sq" using assms(4) by auto
  then show ?thesis using assms(1,2) by (simp add: intervals_ok_def setSearchIntervalPassive_def clip_interval_def)
qed

definition paced :: "(nat \<times> SearchParam) list \<Rightarrow> bool" where
  "paced = sorted_wrt (\<lambda>(t, _) (u, _). t + 2000 < u)"

lemma sq_run_ok:
  assumes "queue_ok (searchQueue sq)" "intervals_ok sq" "list_all event_time es" "sq_run es sq = (outs, sq')"
  shows "queue_ok (searchQueue sq') \<and> intervals_ok sq' \<and> paced outs \<and>
    (lastSearchTime sq \<noteq> 0 \<longrightarrow> (\<forall>(t, _) \<in> set outs. lastSearchTime sq + 2000 < t))"
  using assms
proof (induction es arbitrary: sq outs)
  case (Cons e es)
  obtain out sq1 where 1: "sq_event e sq = (out, sq1)" by fastforce
  obtain outs2 where 2: "sq_run es sq1 = (outs2, sq')" "outs = out @ outs2" using Cons.prems(4) 1 by (auto split: prod.splits)
  have e: "event_time e" "list_all event_time es" using Cons.prems(3) by auto
  note S = sq_event_ok [OF Cons.prems(1,2) e(1) 1]
  have IH: "queue_ok (searchQueue sq') \<and> intervals_ok sq' \<and> paced outs2 \<and>
      (lastSearchTime sq1 \<noteq> 0 \<longrightarrow> (\<forall>(t, _) \<in> set outs2. lastSearchTime sq1 + 2000 < t))"
    using S by (intro Cons.IH [OF _ _ e(2) 2(1)]) auto
  show ?case
  proof (cases "out = []")
    case True
    then show ?thesis using IH S 2(2) by auto
  next
    case False
    then obtain t p where o: "out = [(t, p)]" "lastSearchTime sq1 = t" "0 < t"
      "lastSearchTime sq \<noteq> 0 \<longrightarrow> lastSearchTime sq + 2000 < t" using S by auto
    then have "\<forall>(u, _) \<in> set outs2. t + 2000 < u" using IH by auto
    then show ?thesis using IH 2(2) o by (fastforce simp: paced_def)
  qed
qed (simp add: paced_def)

section \<open>The time that is announced\<close>

text \<open>The seconds of a hub that is in its normal state, with nothing else happening: what goes out, with its owners.\<close>

fun pops :: "nat list \<Rightarrow> SearchQueue \<Rightarrow> (nat \<times> Search) list" where
  "pops [] sq = []"
| "pops (t # ts) sq = (case sq_pop t sq of (None, sq) \<Rightarrow> pops ts sq | (Some s, sq) \<Rightarrow> (t, s) # pops ts sq)"

definition earliest :: "nat \<Rightarrow> SearchQueue \<Rightarrow> nat" where
  "earliest now sq = (if lastSearchTime sq \<noteq> 0 then max now (lastSearchTime sq + wait_for (lastSearchPassive sq) sq) else now)"

lemma getSearchTime_earliest:
  "w \<noteq> 0 \<Longrightarrow> getSearchTime w now sq = time_loop w sq (searchQueue sq) (earliest now sq)"
  by (auto simp: getSearchTime_def earliest_def Let_def max_def)

lemma time_loop_mono: "a \<le> b \<Longrightarrow> time_loop w sq q a \<le> time_loop w sq q b"
  by (induction q arbitrary: a b) auto

lemma time_loop_queue [simp]:
  "time_loop w (sq\<lparr>searchQueue := q', lastSearchPassive := p, lastSearchTime := t\<rparr>) q a = time_loop w sq q a"
  by (induction q arbitrary: a) (auto simp: wait_for_def)

lemma getSearchTime_pop:
  assumes "sq_pop t sq = (Some s, sq')" "now \<le> t" "0 < now"
  shows "if w \<in> set (owners s) then getSearchTime w now sq \<le> t else getSearchTime w now sq \<le> getSearchTime w t sq'"
proof (cases "w = 0")
  case False
  obtain q where q: "searchQueue sq = s # q" "lastSearchTime sq \<noteq> 0 \<longrightarrow> lastSearchTime sq + wait_for (lastSearchPassive sq) sq < t"
      "sq' = sq\<lparr>searchQueue := q, lastSearchPassive := (searchMode s = MODE_PASSIVE), lastSearchTime := t\<rparr>"
    using sq_pop_cases [of t sq] assms(1) by auto
  have e: "earliest now sq \<le> t" using q(2) assms(2) by (auto simp: earliest_def)
  have "earliest t sq' = t + wait_for (searchMode s = MODE_PASSIVE) sq" using q(3) assms(2,3) by (auto simp: earliest_def wait_for_def)
  then show ?thesis using q False e by (auto simp: getSearchTime_earliest intro: time_loop_mono)
qed (simp add: getSearchTime_def)

lemma getSearchTime_later: "now \<le> t \<Longrightarrow> getSearchTime w now sq \<le> getSearchTime w t sq"
  by (cases "w = 0") (auto simp: getSearchTime_earliest getSearchTime_def [of 0] earliest_def intro: time_loop_mono)

lemma pops_after:
  assumes "sorted (now # ts)" "0 < now" "(t, s) \<in> set (pops ts sq)" "w \<in> set (owners s)"
  shows "getSearchTime w now sq \<le> t"
  using assms
proof (induction ts arbitrary: now sq)
  case (Cons u ts)
  have u: "now \<le> u" "sorted (u # ts)" "0 < u" using Cons.prems(1,2) by auto
  show ?case
  proof (cases "sq_pop u sq")
    case (Pair r sq')
    show ?thesis
    proof (cases r)
      case None
      then have "sq' = sq" using sq_pop_cases [of u sq] Pair by auto
      then have "getSearchTime w u sq \<le> t" using Cons.IH [OF u(2,3), of sq] Cons.prems(3,4) None Pair by auto
      then show ?thesis using getSearchTime_later [OF u(1), of w sq] by simp
    next
      case (Some s')
      note P = getSearchTime_pop [OF Pair [unfolded Some] u(1) Cons.prems(2), of w]
      show ?thesis
      proof (cases "w \<in> set (owners s')")
        case True
        have "(t, s) = (u, s') \<or> (t, s) \<in> set (pops ts sq')" using Cons.prems(3) Pair Some by auto
        moreover have "u \<le> t" if "(t, s) \<in> set (pops us sq1)" "sorted (u # us)" for us sq1
          using that by (induction us arbitrary: sq1) (auto split: prod.splits option.splits)
        ultimately have "u \<le> t" using u(2) by auto
        then show ?thesis using P True by auto
      next
        case False
        then have "(t, s) \<in> set (pops ts sq')" using Cons.prems(3,4) Pair Some by auto
        then show ?thesis using Cons.IH [OF u(2,3), of sq'] P False Cons.prems(4) by auto
      qed
    qed
  qed
qed simp

text \<open>And it is not only a bound: a hub whose timer comes at the announced moments sends the search right after.\<close>

lemma pop_when_due:
  assumes "searchQueue sq = s # q" "earliest now sq < t"
  shows "fst (sq_pop t sq) = Some s"
  using assms by (auto simp: sq_pop_def earliest_def split: if_split_asm)

fun ticking :: "nat \<Rightarrow> nat list \<Rightarrow> bool" where
  "ticking d (t # u # ts) \<longleftrightarrow> t \<le> u \<and> u \<le> t + d \<and> ticking d (u # ts)"
| "ticking d _ \<longleftrightarrow> True"

lemma ticking_sorted: "ticking d ts \<Longrightarrow> sorted ts"
  by (induction d ts rule: ticking.induct) auto

definition waits :: "SearchQueue \<Rightarrow> Search list \<Rightarrow> nat" where
  "waits sq q = sum_list (map (\<lambda>s. wait_for (searchMode s = MODE_PASSIVE) sq) q)"

lemma wait_for_queue [simp]:
  "wait_for b (sq\<lparr>searchQueue := q', lastSearchPassive := p, lastSearchTime := t\<rparr>) = wait_for b sq"
  by (simp add: wait_for_def)

lemma waits_simps [simp]:
  "waits sq [] = 0" "waits sq (s # q) = wait_for (searchMode s = MODE_PASSIVE) sq + waits sq q"
  "waits (sq\<lparr>searchQueue := q', lastSearchPassive := p, lastSearchTime := t\<rparr>) q = waits sq q"
  by (simp_all add: waits_def)

lemma pops_by:
  assumes "ticking d (now # ts)" "0 < now" "0 < d" "k < length (searchQueue sq)"
    and "earliest now sq + waits sq (take k (searchQueue sq)) + d * Suc k \<le> D" "D \<le> last (now # ts)"
  shows "\<exists>t \<le> D. (t, searchQueue sq ! k) \<in> set (pops ts sq)"
  using assms
proof (induction ts arbitrary: now sq k)
  case Nil
  have "now \<le> earliest now sq" by (simp add: earliest_def)
  then show ?case using Nil.prems by simp
next
  case (Cons u ts)
  have u: "now \<le> u" "u \<le> now + d" "ticking d (u # ts)" "0 < u" "D \<le> last (u # ts)" using Cons.prems by auto
  obtain s q where q: "searchQueue sq = s # q" using Cons.prems(4) by (cases "searchQueue sq") auto
  have n: "now \<le> earliest now sq" by (simp add: earliest_def)
  show ?case
  proof (cases "fst (sq_pop u sq)")
    case None
    then have p: "sq_pop u sq = (None, sq)" using sq_pop_cases [of u sq] by auto
    then have "earliest u sq = earliest now sq" using u(1) q by (auto simp: sq_pop_def earliest_def split: if_split_asm)
    then show ?thesis using Cons.IH [OF u(3,4) Cons.prems(3,4) _ u(5)] Cons.prems(5) p by simp
  next
    case (Some s')
    let ?sq = "sq\<lparr>searchQueue := q, lastSearchPassive := (searchMode s = MODE_PASSIVE), lastSearchTime := u\<rparr>"
    have p: "sq_pop u sq = (Some s, ?sq)" using sq_pop_cases [of u sq] Some q by auto
    show ?thesis
    proof (cases k)
      case 0
      then have "u \<le> D" using u(2) n Cons.prems(5) by simp
      then show ?thesis using 0 p q by auto
    next
      case (Suc j)
      have e: "earliest u ?sq = u + wait_for (searchMode s = MODE_PASSIVE) sq" using u(4) by (simp add: earliest_def)
      have "earliest u ?sq + waits ?sq (take j (searchQueue ?sq)) + d * Suc j \<le> D"
        unfolding e using Cons.prems(5) u(2) n q Suc by simp
      then have "\<exists>t \<le> D. (t, searchQueue ?sq ! j) \<in> set (pops ts ?sq)"
        using Cons.prems(4) q Suc by (intro Cons.IH [OF u(3,4) Cons.prems(3) _ _ u(5)]) auto
      then show ?thesis using p q Suc by auto
    qed
  qed
qed

text \<open>The announced time counts the waits of the searches before the first one of the owner.\<close>

lemma time_loop_index:
  "time_loop w sq q a \<noteq> 0 \<Longrightarrow> \<exists>k < length q. w \<in> set (owners (q ! k)) \<and> time_loop w sq q a = a + waits sq (take k q)"
proof (induction q arbitrary: a)
  case (Cons s q)
  show ?case
  proof (cases "w \<in> set (owners s)")
    case True
    then show ?thesis using Cons.prems by (intro exI [of _ 0]) (auto split: if_split_asm)
  next
    case False
    let ?a = "a + wait_for (searchMode s = MODE_PASSIVE) sq"
    have t: "time_loop w sq (s # q) a = time_loop w sq q ?a" "time_loop w sq q ?a \<noteq> 0"
      using Cons.prems False by (auto split: if_split_asm)
    from Cons.IH [OF t(2)] obtain k where "k < length q" "w \<in> set (owners (q ! k))" "time_loop w sq q ?a = ?a + waits sq (take k q)" by auto
    then show ?thesis using t(1) by (intro exI [of _ "Suc k"]) auto
  qed
qed simp

lemma time_loop_manual:
  "queue_ok q \<Longrightarrow> x \<in> set q \<Longrightarrow> \<not> isAutoToken x \<Longrightarrow> w \<in> set (owners x) \<Longrightarrow> 0 < a \<Longrightarrow> time_loop w sq q a \<noteq> 0"
proof (induction q arbitrary: a)
  case (Cons s q)
  have "\<not> isAutoToken s" "owners s \<noteq> []" "queue_ok q" using Cons.prems(1,2,3) by (auto simp: queue_ok_def before_ok_def)
  then show ?case using Cons.IH Cons.prems by auto
qed simp

lemma dupe_loop_joined:
  "dupe_loop s q = (True, q') \<Longrightarrow> owners s = [w] \<Longrightarrow> \<not> isAutoToken s \<Longrightarrow>
   \<exists>x \<in> set q'. search_equals x s \<and> \<not> isAutoToken x \<and> w \<in> set (owners x)"
  by (induction q arbitrary: q') (auto simp: Let_def split: if_split_asm prod.splits)

lemma sq_add_manual:
  assumes "owners s = [w]" "\<not> isAutoToken s"
  shows "\<exists>x \<in> set (searchQueue (snd (sq_add s sq))). search_equals x s \<and> \<not> isAutoToken x \<and> w \<in> set (owners x)"
proof -
  obtain ret q where d: "dupe_loop s (searchQueue sq) = (ret, q)" by fastforce
  have "search_equals s s" by (simp add: search_equals_def)
  then show ?thesis using d assms dupe_loop_joined [of s "searchQueue sq" q w]
    by (cases ret) (auto simp: sq_add_def insert_manual_set)
qed

lemma announced_time:
  assumes "getSearchTime w now sq \<noteq> 0" "ticking d (now # ts)" "0 < now" "0 < d"
    and "getSearchTime w now sq + d * length (searchQueue sq) \<le> last (now # ts)"
  shows "\<exists>t s. (t, s) \<in> set (pops ts sq) \<and> w \<in> set (owners s) \<and> t \<le> getSearchTime w now sq + d * length (searchQueue sq)"
proof -
  have w: "w \<noteq> 0" using assms(1) by (auto simp: getSearchTime_def)
  note g = getSearchTime_earliest [OF w, of now sq]
  obtain k where k: "k < length (searchQueue sq)" "w \<in> set (owners (searchQueue sq ! k))"
      "getSearchTime w now sq = earliest now sq + waits sq (take k (searchQueue sq))"
    using time_loop_index assms(1) unfolding g by metis
  have "d * Suc k \<le> d * length (searchQueue sq)" using k(1) by (intro mult_le_mono2) simp
  then show ?thesis using pops_by [OF assms(2-4) k(1) _ assms(5)] k(2,3) by auto
qed

lemma getSearchTime_ge: "getSearchTime w now sq \<noteq> 0 \<Longrightarrow> now \<le> getSearchTime w now sq"
  using time_loop_index [of w sq "searchQueue sq" "earliest now sq"]
  by (cases "w = 0") (auto simp: getSearchTime_earliest getSearchTime_def [of 0] earliest_def)

text \<open>What \<open>searchInternal\<close> does with a search of the user.\<close>

lemma searchInternal_manual:
  assumes "queue_ok (searchQueue sq)" "intervals_ok sq" "\<not> isAutoToken (to_search sp active)" "p_owner sp \<noteq> 0" "0 < now"
    and "searchInternal sp active now sq = (wait, out, sq')"
  shows "out = None" "queue_ok (searchQueue sq')" "getSearchTime (p_owner sp) now sq' = now + wait"
    "\<exists>x \<in> set (searchQueue sq'). search_equals x (to_search sp active) \<and> p_owner sp \<in> set (owners x)"
proof -
  let ?s = "to_search sp active"
  have "interval sq \<noteq> 0" using assms(2) by (simp add: intervals_ok_def)
  then have r: "sq' = snd (sq_add ?s sq)" "out = None"
      "wait = (let st = getSearchTime (p_owner sp) now sq' in if st \<noteq> 0 then st - now else 0)"
    using assms(6) by (auto simp: searchInternal_def Let_def)
  show ok: "queue_ok (searchQueue sq')" using sq_add_ok [OF assms(1), of ?s] r(1) by simp
  obtain x where x: "x \<in> set (searchQueue sq')" "search_equals x ?s" "\<not> isAutoToken x" "p_owner sp \<in> set (owners x)"
    using sq_add_manual [of ?s "p_owner sp" sq] assms(3) r(1) by auto
  have "0 < earliest now sq'" using assms(5) by (auto simp: earliest_def max_def)
  then have "getSearchTime (p_owner sp) now sq' \<noteq> 0"
    using time_loop_manual [OF ok x(1,3,4)] assms(4) by (simp add: getSearchTime_earliest)
  then show "getSearchTime (p_owner sp) now sq' = now + wait" using getSearchTime_ge r(3) by (simp add: Let_def)
  show "\<exists>x \<in> set (searchQueue sq'). search_equals x ?s \<and> p_owner sp \<in> set (owners x)" using x by auto
qed (use assms in \<open>auto simp: searchInternal_def intervals_ok_def Let_def split: if_split_asm\<close>)

section \<open>Properties\<close>

text \<open>
  C22: The searches of a hub. Whatever is asked for, cancelled or set by the hub's rules in whatever
  order, with the timer passing in between: the queue always holds the searches of the user before the
  automatic ones, no search twice and each with somebody who waits for it; and what goes out to the hub
  does so with more than two seconds between any two.
\<close>

lemma search_queue_paced:
  assumes "list_all event_time es"
    and "sq_run es (setSearchIntervalPassive j (setSearchInterval i new_queue)) = (outs, sq)"
  shows "queue_ok (searchQueue sq) \<and> sorted_wrt (\<lambda>(t, _) (u, _). t + 2000 < u) outs"
  using sq_run_ok [OF _ _ assms]
  by (simp add: paced_def queue_ok_def new_queue_def setSearchInterval_def setSearchIntervalPassive_def intervals_ok_def clip_interval_def)

definition sample_search :: "nat \<Rightarrow> u32 \<Rightarrow> SearchParam" where
  "sample_search n tok = \<lparr>p_searchMode = MODE_DEFAULT, p_sizeMode = SIZE_DONTCARE, p_size = 0, p_fileType = 0,
     p_filter = [of_nat n], p_filterExclude = [], p_token = tok, p_owner = of_nat n, p_extList = []\<rparr>"

lemmas sq_eval = sample_search_def searchInternal_def sq_add_def to_search_def of_search_def getSearchTime_def on_Second_def sq_pop_def
  wait_for_def setSearchInterval_def setSearchIntervalPassive_def clip_interval_def new_queue_def isAutoToken_def search_equals_def
  cancelSearch_def

lemma search_queue_paced_witness:
  "fst (sq_run [Ask (sample_search 7 2) True 1000, Ask (sample_search 9 3) True 1100, Second True 2000, Second True 3000, Second True 5000]
     (setSearchIntervalPassive 0 (setSearchInterval 0 new_queue))) =
     [(2000, (sample_search 9 3)\<lparr>p_searchMode := MODE_ACTIVE, p_owner := 0\<rparr>), (5000, (sample_search 7 2)\<lparr>p_searchMode := MODE_ACTIVE, p_owner := 0\<rparr>)] \<and>
   queue_ok (searchQueue (snd (sq_run [Ask (sample_search 7 2) True 1000, Ask (sample_search 9 3) True 1100, Second True 2000, Second True 3000, Second True 5000]
     (setSearchIntervalPassive 0 (setSearchInterval 0 new_queue)))))"
  using search_queue_paced [of "[Ask (sample_search 7 2) True 1000, Ask (sample_search 9 3) True 1100, Second True 2000, Second True 3000, Second True 5000]" 0 0]
  by (auto simp: sq_eval split: prod.splits)

text \<open>
  C23: What the user is told. A search that the user asks for is put in the queue, or joins an equal one that
  waits there already, and the time to wait that is shown is right: if the timer of the hub comes at
  least every \<open>d\<close> milliseconds, a search of that owner goes out, none does before the time that was shown, and
  the first does at most \<open>d\<close> later for each search in the queue.
\<close>

lemma searchInternal_announces:
  assumes "queue_ok (searchQueue sq)" "intervals_ok sq" "\<not> isAutoToken (to_search sp active)" "p_owner sp \<noteq> 0" "0 < now"
    and "searchInternal sp active now sq = (wait, out, sq')"
    and "ticking d (now # ts)" "0 < d" "now + wait + d * length (searchQueue sq') \<le> last (now # ts)"
  shows "out = None \<and>
    (\<exists>x \<in> set (searchQueue sq'). search_equals x (to_search sp active) \<and> p_owner sp \<in> set (owners x)) \<and>
    (\<exists>t s. (t, s) \<in> set (pops ts sq') \<and> p_owner sp \<in> set (owners s) \<and> t \<le> now + wait + d * length (searchQueue sq')) \<and>
    (\<forall>(t, s) \<in> set (pops ts sq'). p_owner sp \<in> set (owners s) \<longrightarrow> now + wait \<le> t)"
proof -
  note S = searchInternal_manual [OF assms(1-6)]
  have g: "getSearchTime (p_owner sp) now sq' \<noteq> 0" using S(3) assms(5) by simp
  have "\<forall>(t, s) \<in> set (pops ts sq'). p_owner sp \<in> set (owners s) \<longrightarrow> now + wait \<le> t"
    using pops_after [OF ticking_sorted [OF assms(7)] assms(5), of _ _ sq'] S(3) by fastforce
  then show ?thesis using announced_time [OF g assms(7,5,8)] assms(9) S by simp
qed

definition waiting_queue :: SearchQueue where
  "waiting_queue = snd (sq_run [Ask (sample_search 7 2) True 1000, Ask (sample_search 9 3) True 1100, Second True 2000]
     (setSearchIntervalPassive 0 (setSearchInterval 0 new_queue)))"

lemma searchInternal_announces_witness:
  "fst (searchInternal (sample_search 11 5) True 2500 waiting_queue) = 1500 \<and>
   (\<exists>t s. (t, s) \<in> set (pops [3500, 4500, 5500, 6500] (snd (snd (searchInternal (sample_search 11 5) True 2500 waiting_queue)))) \<and>
      11 \<in> set (owners s) \<and> t \<le> 6000)"
proof -
  let ?r = "searchInternal (sample_search 11 5) True 2500 waiting_queue"
  have r: "fst ?r = 1500" "length (searchQueue (snd (snd ?r))) = 2" by (simp_all add: waiting_queue_def sq_eval)
  have q: "queue_ok (searchQueue waiting_queue)" "intervals_ok waiting_queue" "\<not> isAutoToken (to_search (sample_search 11 5) True)"
    by (simp_all add: waiting_queue_def sq_eval queue_ok_def intervals_ok_def)
  show ?thesis
    using searchInternal_announces [OF q, of 2500 "fst ?r" "fst (snd ?r)" "snd (snd ?r)" 1000 "[3500, 4500, 5500, 6500]"] r
    by (simp add: sample_search_def)
qed

text \<open>
  A flaw: when the user asks for what an automatic search waits for, the owner is added to the automatic search,
  which is then taken out; the new one has only its own owner. Whoever owned the automatic search is
  forgotten and cannot cancel any more.
\<close>

lemma add_forgets_owner:
  "let s = to_search (sample_search 7 2) True;
       q = snd (sq_add (s\<lparr>token := 3, owners := [9]\<rparr>) (snd (sq_add s new_queue)))
   in map owners (searchQueue q) = [[9]] \<and> fst (cancelSearch 7 q) = False"
  by (simp add: sq_eval Let_def)

end
