(* ===== verification/Utf8.thy ===== *)
theory Utf8
  imports Prelude
begin

text \<open>
  UTF-8 and the wide strings of the system: \<open>src/client/Text.cpp\<close>. A \<open>wchar_t\<close> has 16 bits on Windows, where
  wide strings are UTF-16, and 32 bits elsewhere; the file is compiled for one or the other, and both are
  here. Each conversion goes twice over its input, first for the size of the result, then to write it
  into the resized string; the writes go through \<open>store\<close>, the reads of the bytes through \<open>load\<close>.
\<close>

section \<open>The program\<close>

definition ERROR_CHAR :: u32 where "ERROR_CHAR = 0xFFFD"

text \<open>\<open>std::string::resize\<close>.\<close>

definition resize :: "'a \<Rightarrow> 'a list \<Rightarrow> nat \<Rightarrow> 'a list" where
  "resize z tgt n = take n (tgt @ replicate (n - length tgt) z)"

definition isAscii :: "bytes \<Rightarrow> bool" where
  "isAscii str = list_all (\<lambda>p. p AND 0x80 = 0) str"

text \<open>The bytes that \<open>wcToUtf8\<close> writes; it returns their number.\<close>

definition wcToUtf8 :: "u32 \<Rightarrow> bytes" where
  "wcToUtf8 value =
     (if value < 0x80 then [ucast value]
      else if value < 0x800 then [ucast (0xC0 OR drop_bit 6 value), ucast (0x80 OR (value AND 0x3F))]
      else if value < 0x10000 then
        [ucast (0xE0 OR drop_bit 12 value), ucast (0x80 OR (drop_bit 6 value AND 0x3F)), ucast (0x80 OR (value AND 0x3F))]
      else
        [ucast (0xF0 OR drop_bit 18 value), ucast (0x80 OR (drop_bit 12 value AND 0x3F)),
         ucast (0x80 OR (drop_bit 6 value AND 0x3F)), ucast (0x80 OR (value AND 0x3F))])"

fun put_bytes :: "'a list \<Rightarrow> nat \<Rightarrow> 'a list \<Rightarrow> 'a list option" where
  "put_bytes out o1 [] = Some out"
| "put_bytes out o1 (b # bs) = do { out \<leftarrow> store out o1 b; put_bytes out (o1 + 1) bs }"

text \<open>
  A step of the loop over UTF-16: the characters that are converted, and the high surrogate that waits.
\<close>

definition wide_step :: "u16 \<Rightarrow> u16 \<Rightarrow> u32 list \<times> u16" where
  "wide_step highSurrogate c =
     (let value = ucast c :: u32 in
      if value \<ge> 0xD800 \<and> value < 0xDC00 then (if highSurrogate \<noteq> 0 then [ERROR_CHAR] else [], c)
      else if value \<ge> 0xDC00 \<and> value < 0xE000 then
        (if highSurrogate = 0 then ([ERROR_CHAR], highSurrogate)
         else ([((value - 0xDC00) OR push_bit 10 (ucast highSurrogate - 0xD800)) + 0x10000], 0))
      else if highSurrogate \<noteq> 0 then ([ERROR_CHAR, value], 0)
      else ([value], highSurrogate))"

fun utf8_size16 :: "u16 list \<Rightarrow> u16 \<Rightarrow> nat \<Rightarrow> nat" where
  "utf8_size16 [] highSurrogate outSize =
     (if highSurrogate \<noteq> 0 then outSize + length (wcToUtf8 ERROR_CHAR) else outSize)"
| "utf8_size16 (c # str) highSurrogate outSize =
     (case wide_step highSurrogate c of (vs, highSurrogate) \<Rightarrow>
        utf8_size16 str highSurrogate (outSize + sum_list (map (\<lambda>v. length (wcToUtf8 v)) vs)))"

fun put_chars :: "bytes \<Rightarrow> nat \<Rightarrow> u32 list \<Rightarrow> (bytes \<times> nat) option" where
  "put_chars tgt out [] = Some (tgt, out)"
| "put_chars tgt out (v # vs) = do { tgt \<leftarrow> put_bytes tgt out (wcToUtf8 v); put_chars tgt (out + length (wcToUtf8 v)) vs }"

fun utf8_write16 :: "u16 list \<Rightarrow> u16 \<Rightarrow> bytes \<Rightarrow> nat \<Rightarrow> bytes option" where
  "utf8_write16 [] highSurrogate tgt out =
     (if highSurrogate \<noteq> 0 then put_bytes tgt out (wcToUtf8 ERROR_CHAR) else Some tgt)"
| "utf8_write16 (c # str) highSurrogate tgt out =
     (case wide_step highSurrogate c of (vs, highSurrogate) \<Rightarrow>
        do { (tgt, out) \<leftarrow> put_chars tgt out vs; utf8_write16 str highSurrogate tgt out })"

definition wideToUtf8_16 :: "u16 list \<Rightarrow> bytes \<Rightarrow> bytes option" where
  "wideToUtf8_16 str tgt =
     (let outSize = utf8_size16 str 0 0 in
      if outSize = 0 then Some [] else utf8_write16 str 0 (resize 0 tgt outSize) 0)"

definition wide_value :: "u32 \<Rightarrow> u32" where
  "wide_value value = (if value < 0x110000 then value else ERROR_CHAR)"

fun utf8_size32 :: "u32 list \<Rightarrow> nat \<Rightarrow> nat" where
  "utf8_size32 [] outSize = outSize"
| "utf8_size32 (value # str) outSize = utf8_size32 str (outSize + length (wcToUtf8 (wide_value value)))"

fun utf8_write32 :: "u32 list \<Rightarrow> bytes \<Rightarrow> nat \<Rightarrow> bytes option" where
  "utf8_write32 [] tgt out = Some tgt"
| "utf8_write32 (value # str) tgt out =
     do { tgt \<leftarrow> put_bytes tgt out (wcToUtf8 (wide_value value)); utf8_write32 str tgt (out + length (wcToUtf8 (wide_value value))) }"

definition wideToUtf8_32 :: "u32 list \<Rightarrow> bytes \<Rightarrow> bytes option" where
  "wideToUtf8_32 str tgt =
     (let outSize = utf8_size32 str 0 in
      if outSize = 0 then Some [] else utf8_write32 str (resize 0 tgt outSize) 0)"

text \<open>
  The test \<open>len - pos < k + 1 || (s[pos + k] & 0xC0) != 0x80\<close>: \<open>Some None\<close> when it holds, else the byte.
\<close>

definition cont :: "bytes \<Rightarrow> nat \<Rightarrow> nat \<Rightarrow> nat \<Rightarrow> u8 option option" where
  "cont s pos len k =
     (if len - pos < k + 1 then Some None
      else do { b \<leftarrow> load s (pos + k); Some (if b AND 0xC0 \<noteq> 0x80 then None else Some b) })"

definition two_bytes :: "bytes \<Rightarrow> nat \<Rightarrow> nat \<Rightarrow> u8 \<Rightarrow> u32 \<Rightarrow> (int \<times> u32) option" where
  "two_bytes s pos len b0 wc = do {
     c1 \<leftarrow> cont s pos len 1;
     case c1 of None \<Rightarrow> Some (-1, wc) | Some b1 \<Rightarrow>
       (let wc = push_bit 6 (ucast (b0 AND 0x1F)) OR ucast (b1 AND 0x3F) in
        if wc < 0x80 then Some (-1, wc) else Some (2, wc)) }"

definition three_bytes :: "bytes \<Rightarrow> nat \<Rightarrow> nat \<Rightarrow> u8 \<Rightarrow> u32 \<Rightarrow> (int \<times> u32) option" where
  "three_bytes s pos len b0 wc = do {
     c1 \<leftarrow> cont s pos len 1;
     case c1 of None \<Rightarrow> Some (-1, wc) | Some b1 \<Rightarrow> do {
       c2 \<leftarrow> cont s pos len 2;
       case c2 of None \<Rightarrow> Some (-2, wc) | Some b2 \<Rightarrow>
         (let wc = push_bit 12 (ucast (b0 AND 0xF)) OR push_bit 6 (ucast (b1 AND 0x3F)) OR ucast (b2 AND 0x3F) in
          if wc < 0x800 then Some (-2, wc)
          else if wc \<ge> 0xD800 \<and> wc \<le> 0xDFFF then Some (-2, wc)
          else Some (3, wc)) } }"

definition four_bytes :: "bytes \<Rightarrow> nat \<Rightarrow> nat \<Rightarrow> u8 \<Rightarrow> u32 \<Rightarrow> (int \<times> u32) option" where
  "four_bytes s pos len b0 wc = do {
     c1 \<leftarrow> cont s pos len 1;
     case c1 of None \<Rightarrow> Some (-1, wc) | Some b1 \<Rightarrow>
       (let wc = push_bit 18 (ucast (b0 AND 0x7)) in
        if wc > 0x10FFFF then Some (-1, wc)
        else do {
          c2 \<leftarrow> cont s pos len 2;
          case c2 of None \<Rightarrow> Some (-2, wc) | Some b2 \<Rightarrow>
            (let wc = wc OR push_bit 12 (ucast (b1 AND 0x3F)) in
             if wc > 0x10FFFF \<or> wc < 0x10000 then Some (-2, wc)
             else do {
               c3 \<leftarrow> cont s pos len 3;
               case c3 of None \<Rightarrow> Some (-3, wc) | Some b3 \<Rightarrow>
                 Some (4, wc OR (push_bit 6 (ucast (b2 AND 0x3F)) OR ucast (b3 AND 0x3F))) }) }) }"

definition utf8ToWc :: "bytes \<Rightarrow> nat \<Rightarrow> nat \<Rightarrow> u32 \<Rightarrow> (int \<times> u32) option" where
  "utf8ToWc s pos len wc = do {
     b0 \<leftarrow> load s pos;
     if b0 AND 0x80 = 0 then Some (1, ucast b0)
     else if b0 AND 0xC0 = 0x80 then Some (-1, wc)
     else if b0 AND 0xE0 = 0xC0 then two_bytes s pos len b0 wc
     else if b0 AND 0xF0 = 0xE0 then three_bytes s pos len b0 wc
     else if b0 AND 0xF8 = 0xF0 then four_bytes s pos len b0 wc
     else Some (-1, wc) }"

text \<open>The loops move forward.\<close>

lemma two_bytes_range: "two_bytes s pos len b wc = Some (r, wc') \<Longrightarrow> r \<in> {-1, 2}"
  unfolding two_bytes_def Let_def by (auto simp: bind_eq_Some_conv split: if_split_asm option.splits)

lemma three_bytes_range: "three_bytes s pos len b wc = Some (r, wc') \<Longrightarrow> r \<in> {-1, -2, 3}"
  unfolding three_bytes_def Let_def by (auto simp: bind_eq_Some_conv split: if_split_asm option.splits)

lemma four_bytes_range: "four_bytes s pos len b wc = Some (r, wc') \<Longrightarrow> r \<in> {-1, -2, -3, 4}"
  unfolding four_bytes_def Let_def by (auto simp: bind_eq_Some_conv split: if_split_asm option.splits)

lemma utf8ToWc_range: "utf8ToWc s pos len wc = Some (r, wc') \<Longrightarrow> r \<noteq> 0 \<and> -3 \<le> r \<and> r \<le> 4"
  unfolding utf8ToWc_def
  by (auto simp: bind_eq_Some_conv dest!: two_bytes_range three_bytes_range four_bytes_range split: if_split_asm)

function validateUtf8 :: "bytes \<Rightarrow> nat \<Rightarrow> nat \<Rightarrow> bool option" where
  "validateUtf8 data len pos =
     (if pos < len then do {
        (b, _) \<leftarrow> utf8ToWc data pos len 0;
        if b < 0 then Some False else validateUtf8 data len (pos + nat b) }
      else Some True)"
  by auto
termination
  by (relation "measure (\<lambda>(_, len, pos). len - pos)") (auto dest!: utf8ToWc_range)

function wide_size16 :: "bytes \<Rightarrow> nat \<Rightarrow> nat \<Rightarrow> u32 \<Rightarrow> nat \<Rightarrow> nat option" where
  "wide_size16 data len i wc outSize =
     (if i < len then do {
        (result, wc) \<leftarrow> utf8ToWc data i len wc;
        if result < 0 then wide_size16 data len (i + nat (- result)) wc (outSize + 1)
        else wide_size16 data len (i + nat result) wc (outSize + (if wc \<ge> 0x10000 then 2 else 1)) }
      else Some outSize)"
  by auto
termination
  by (relation "measure (\<lambda>(_, len, i, _, _). len - i)") (auto dest!: utf8ToWc_range)

function wide_write16 :: "bytes \<Rightarrow> nat \<Rightarrow> nat \<Rightarrow> u32 \<Rightarrow> u16 list \<Rightarrow> nat \<Rightarrow> u16 list option" where
  "wide_write16 data len i wc tgt out =
     (if i < len then do {
        (result, wc) \<leftarrow> utf8ToWc data i len wc;
        if result < 0 then do {
          tgt \<leftarrow> store tgt out (ucast ERROR_CHAR);
          wide_write16 data len (i + nat (- result)) wc tgt (out + 1) }
        else if wc \<ge> 0x10000 then do {
          let wc = wc - 0x10000;
          tgt \<leftarrow> store tgt out (ucast (0xD800 OR drop_bit 10 wc));
          tgt \<leftarrow> store tgt (out + 1) (ucast (0xDC00 OR (wc AND 0x3FF)));
          wide_write16 data len (i + nat result) wc tgt (out + 2) }
        else do {
          tgt \<leftarrow> store tgt out (ucast wc);
          wide_write16 data len (i + nat result) wc tgt (out + 1) } }
      else Some tgt)"
  by auto
termination
  by (relation "measure (\<lambda>(_, len, i, _, _, _). len - i)") (auto dest!: utf8ToWc_range)

definition utf8ToWide_16 :: "bytes \<Rightarrow> u16 list \<Rightarrow> u16 list option" where
  "utf8ToWide_16 str tgt = do {
     outSize \<leftarrow> wide_size16 str (length str) 0 0 0;
     if outSize = 0 then Some [] else wide_write16 str (length str) 0 0 (resize 0 tgt outSize) 0 }"

function wide_size32 :: "bytes \<Rightarrow> nat \<Rightarrow> nat \<Rightarrow> u32 \<Rightarrow> nat \<Rightarrow> nat option" where
  "wide_size32 data len i wc outSize =
     (if i < len then do {
        (result, wc) \<leftarrow> utf8ToWc data i len wc;
        wide_size32 data len (i + nat (abs result)) wc (outSize + 1) }
      else Some outSize)"
  by auto
termination
  by (relation "measure (\<lambda>(_, len, i, _, _). len - i)") (auto dest!: utf8ToWc_range)

function wide_write32 :: "bytes \<Rightarrow> nat \<Rightarrow> nat \<Rightarrow> u32 \<Rightarrow> u32 list \<Rightarrow> nat \<Rightarrow> u32 list option" where
  "wide_write32 data len i wc tgt out =
     (if i < len then do {
        (result, wc) \<leftarrow> utf8ToWc data i len wc;
        if result < 0 then do {
          tgt \<leftarrow> store tgt out ERROR_CHAR;
          wide_write32 data len (i + nat (- result)) wc tgt (out + 1) }
        else do {
          tgt \<leftarrow> store tgt out wc;
          wide_write32 data len (i + nat result) wc tgt (out + 1) } }
      else Some tgt)"
  by auto
termination
  by (relation "measure (\<lambda>(_, len, i, _, _, _). len - i)") (auto dest!: utf8ToWc_range)

definition utf8ToWide_32 :: "bytes \<Rightarrow> u32 list \<Rightarrow> u32 list option" where
  "utf8ToWide_32 str tgt = do {
     outSize \<leftarrow> wide_size32 str (length str) 0 0 0;
     if outSize = 0 then Some [] else wide_write32 str (length str) 0 0 (resize 0 tgt outSize) 0 }"

declare validateUtf8.simps [simp del] wide_size16.simps [simp del] wide_write16.simps [simp del]
  wide_size32.simps [simp del] wide_write32.simps [simp del]

text \<open>\<open>Text::toLower\<close> of a UTF-8 string; \<open>towlower\<close> of the system is an argument.\<close>

definition toLower_16 :: "(u16 \<Rightarrow> u16) \<Rightarrow> bytes \<Rightarrow> bytes option" where
  "toLower_16 towlower str = do { ws \<leftarrow> utf8ToWide_16 str []; wideToUtf8_16 (map towlower ws) [] }"

definition toLower_32 :: "(u32 \<Rightarrow> u32) \<Rightarrow> bytes \<Rightarrow> bytes option" where
  "toLower_32 towlower str = do { ws \<leftarrow> utf8ToWide_32 str []; wideToUtf8_32 (map towlower ws) [] }"

section \<open>Bits and numbers\<close>

lemma unat_or_disjoint:
  fixes x y :: "'a::len word"
  assumes "2 ^ k dvd unat x" "unat y < 2 ^ k"
  shows "unat (x OR y) = unat x + unat y"
proof -
  from assms(1) obtain m where x: "unat x = push_bit k m" by (auto simp: push_bit_eq_mult mult.commute elim!: dvdE)
  have y: "unat y = take_bit k (unat y)" using assms(2) by (simp add: take_bit_nat_eq_self)
  have "unat x AND unat y = 0" unfolding x by (subst y, rule bit_eqI) (auto simp: bit_simps)
  then show ?thesis by (simp add: unsigned_or_eq disjunctive_add_eq_or)
qed

lemma unat_or_disjoint2:
  "2 ^ k dvd unat y \<Longrightarrow> unat x < 2 ^ k \<Longrightarrow> unat (x OR y :: 'a::len word) = unat x + unat y"
  using unat_or_disjoint [of k y x] by (simp add: or.commute)

lemma unat_push: "unat a * 2 ^ k < 2 ^ LENGTH('a) \<Longrightarrow> unat (push_bit k a :: 'a::len word) = unat a * 2 ^ k"
  by (simp only: unsigned_push_bit_eq) (simp add: push_bit_eq_mult take_bit_nat_eq_self)

lemma unat_drop: "unat (drop_bit k a :: 'a::len word) = unat a div 2 ^ k"
  by (simp only: unsigned_drop_bit_eq) (simp add: drop_bit_eq_div take_bit_nat_eq_self unsigned_less)

lemma unat_masked:
  "unat (b AND 0x1F :: u8) = unat b mod 32" "unat (b AND 0xF :: u8) = unat b mod 16" "unat (b AND 0x7 :: u8) = unat b mod 8"
  "unat (b AND 0x3F :: u8) = unat b mod 64" "unat (v AND 0x3F :: u32) = unat v mod 64" "unat (v AND 0x3FF :: u32) = unat v mod 1024"
proof -
  have m: "(0x1F :: u8) = mask 5" "(0xF :: u8) = mask 4" "(0x7 :: u8) = mask 3" "(0x3F :: u8) = mask 6" "(0x3F :: u32) = mask 6" "(0x3FF :: u32) = mask 10"
    by (simp_all add: mask_numeral)
  show "unat (b AND 0x1F :: u8) = unat b mod 32" "unat (b AND 0xF :: u8) = unat b mod 16" "unat (b AND 0x7 :: u8) = unat b mod 8"
    "unat (b AND 0x3F :: u8) = unat b mod 64" "unat (v AND 0x3F :: u32) = unat v mod 64" "unat (v AND 0x3FF :: u32) = unat v mod 1024"
    unfolding m take_bit_eq_mask [symmetric] unsigned_take_bit_eq by (simp_all add: take_bit_eq_mod)
qed

text \<open>What the tests of the first byte mean; all 256 bytes are tried.\<close>

definition lead_ok :: "nat \<Rightarrow> bool" where
  "lead_ok n \<longleftrightarrow> (let b = of_nat n :: u8 in
     (b AND 0x80 = 0 \<longleftrightarrow> n < 128) \<and> (b AND 0xC0 = 0x80 \<longleftrightarrow> 128 \<le> n \<and> n < 192) \<and> (b AND 0xE0 = 0xC0 \<longleftrightarrow> 192 \<le> n \<and> n < 224) \<and>
     (b AND 0xF0 = 0xE0 \<longleftrightarrow> 224 \<le> n \<and> n < 240) \<and> (b AND 0xF8 = 0xF0 \<longleftrightarrow> 240 \<le> n \<and> n < 248))"

lemma lead_all: "list_all lead_ok [0..<256]"
  by code_simp

lemma lead_bytes:
  fixes b :: u8
  shows "b AND 0x80 = 0 \<longleftrightarrow> unat b < 128" "b AND 0xC0 = 0x80 \<longleftrightarrow> 128 \<le> unat b \<and> unat b < 192"
    "b AND 0xE0 = 0xC0 \<longleftrightarrow> 192 \<le> unat b \<and> unat b < 224" "b AND 0xF0 = 0xE0 \<longleftrightarrow> 224 \<le> unat b \<and> unat b < 240"
    "b AND 0xF8 = 0xF0 \<longleftrightarrow> 240 \<le> unat b \<and> unat b < 248"
proof -
  have "lead_ok (unat b)" using lead_all unat_u8 [of b] by (simp add: list_all_iff del: upt_rec_numeral)
  then show "b AND 0x80 = 0 \<longleftrightarrow> unat b < 128" "b AND 0xC0 = 0x80 \<longleftrightarrow> 128 \<le> unat b \<and> unat b < 192"
    "b AND 0xE0 = 0xC0 \<longleftrightarrow> 192 \<le> unat b \<and> unat b < 224" "b AND 0xF0 = 0xE0 \<longleftrightarrow> 224 \<le> unat b \<and> unat b < 240"
    "b AND 0xF8 = 0xF0 \<longleftrightarrow> 240 \<le> unat b \<and> unat b < 248"
    unfolding lead_ok_def Let_def by simp_all
qed

section \<open>UTF-8 and UTF-16 by the book\<close>

text \<open>The encodings of RFC 3629 and RFC 2781, with division and remainder.\<close>

definition scalar :: "u32 \<Rightarrow> bool" where
  "scalar c \<longleftrightarrow> unat c < 0x110000 \<and> \<not> (0xD800 \<le> unat c \<and> unat c < 0xE000)"

definition utf8_ref :: "nat \<Rightarrow> nat list" where
  "utf8_ref n =
     (if n < 128 then [n]
      else if n < 2048 then [192 + n div 64, 128 + n mod 64]
      else if n < 65536 then [224 + n div 4096, 128 + n div 64 mod 64, 128 + n mod 64]
      else [240 + n div 262144, 128 + n div 4096 mod 64, 128 + n div 64 mod 64, 128 + n mod 64])"

definition utf16_ref :: "nat \<Rightarrow> nat list" where
  "utf16_ref n = (if n < 65536 then [n] else [0xD800 + (n - 65536) div 1024, 0xDC00 + (n - 65536) mod 1024])"

definition utf8_of :: "u32 list \<Rightarrow> bytes" where
  "utf8_of cs = concat (map (\<lambda>c. map of_nat (utf8_ref (unat c))) cs)"

definition utf16_of :: "u32 list \<Rightarrow> u16 list" where
  "utf16_of cs = concat (map (\<lambda>c. map of_nat (utf16_ref (unat c))) cs)"

lemma ucast_byte: "unat (v :: u32) < 256 \<Longrightarrow> (ucast v :: u8) = of_nat (unat v)"
  by (metis of_nat_unat)

lemma or_byte:
  assumes "2 ^ k dvd unat x" "unat v < 2 ^ k" "unat x + 2 ^ k \<le> 256"
  shows "(ucast (x OR v :: u32) :: u8) = of_nat (unat x + unat v)"
proof -
  have u: "unat (x OR v) = unat x + unat v" by (rule unat_or_disjoint [OF assms(1,2)])
  then have "unat (x OR v) < 256" using assms(2,3) by linarith
  then show ?thesis unfolding u [symmetric] by (rule ucast_byte)
qed

lemma or_lead:
  fixes v :: u32
  shows "unat v < 32 \<Longrightarrow> (ucast (0xC0 OR v) :: u8) = of_nat (192 + unat v)"
    "unat v < 16 \<Longrightarrow> (ucast (0xE0 OR v) :: u8) = of_nat (224 + unat v)"
    "unat v < 8 \<Longrightarrow> (ucast (0xF0 OR v) :: u8) = of_nat (240 + unat v)"
    "unat v < 64 \<Longrightarrow> (ucast (0x80 OR v) :: u8) = of_nat (128 + unat v)"
proof -
  have n: "unat (0xC0 :: u32) = 192" "unat (0xE0 :: u32) = 224" "unat (0xF0 :: u32) = 240" "unat (0x80 :: u32) = 128" by simp_all
  have "2 ^ k dvd unat x \<Longrightarrow> unat v < 2 ^ k \<Longrightarrow> unat x + 2 ^ k \<le> 256 \<Longrightarrow> (ucast (x OR v) :: u8) = of_nat (unat x + unat v)"
    for k and x :: u32 by (rule or_byte)
  from this [of 5 "0xC0"] this [of 4 "0xE0"] this [of 3 "0xF0"] this [of 6 "0x80"]
  show "unat v < 32 \<Longrightarrow> (ucast (0xC0 OR v) :: u8) = of_nat (192 + unat v)"
    "unat v < 16 \<Longrightarrow> (ucast (0xE0 OR v) :: u8) = of_nat (224 + unat v)"
    "unat v < 8 \<Longrightarrow> (ucast (0xF0 OR v) :: u8) = of_nat (240 + unat v)"
    "unat v < 64 \<Longrightarrow> (ucast (0x80 OR v) :: u8) = of_nat (128 + unat v)"
    unfolding n by (simp_all del: of_nat_add)
qed

lemma wcToUtf8_ref:
  assumes "unat v < 0x110000"
  shows "wcToUtf8 v = map of_nat (utf8_ref (unat v))"
proof -
  have c: "v < 0x80 \<longleftrightarrow> unat v < 128" "v < 0x800 \<longleftrightarrow> unat v < 2048" "v < 0x10000 \<longleftrightarrow> unat v < 65536"
    by (simp_all add: word_less_nat_alt)
  have low: "(ucast (0x80 OR (w AND 0x3F :: u32)) :: u8) = of_nat (128 + unat w mod 64)" for w
    by (subst or_lead(4)) (simp_all add: unat_masked)
  have d: "unat (drop_bit 6 v) = unat v div 64" "unat (drop_bit 12 v) = unat v div 4096" "unat (drop_bit 18 v) = unat v div 262144"
    by (simp_all only: unat_drop) simp_all
  consider "unat v < 128" | "128 \<le> unat v" "unat v < 2048" | "2048 \<le> unat v" "unat v < 65536" | "65536 \<le> unat v" by linarith
  then show ?thesis
  proof cases
    case 1
    then show ?thesis using ucast_byte [of v] by (simp add: wcToUtf8_def utf8_ref_def c)
  next
    case 2
    then have "unat (drop_bit 6 v) < 32" unfolding d by simp
    then show ?thesis using 2 by (simp only: wcToUtf8_def utf8_ref_def c or_lead low d) simp
  next
    case 3
    then have "unat (drop_bit 12 v) < 16" unfolding d by simp
    then show ?thesis using 3 by (simp only: wcToUtf8_def utf8_ref_def c or_lead low d) simp
  next
    case 4
    then have "unat (drop_bit 18 v) < 8" unfolding d using assms by simp
    then show ?thesis using 4 by (simp only: wcToUtf8_def utf8_ref_def c or_lead low d) simp
  qed
qed

text \<open>The numbers that the bits of the bytes make.\<close>

lemma unat_shifted:
  "unat (push_bit 6 (ucast (b AND 0x1F)) :: u32) = unat b mod 32 * 64" "unat (push_bit 12 (ucast (b AND 0xF)) :: u32) = unat b mod 16 * 4096"
  "unat (push_bit 18 (ucast (b AND 0x7)) :: u32) = unat b mod 8 * 262144" "unat (push_bit 6 (ucast (b AND 0x3F)) :: u32) = unat b mod 64 * 64"
  "unat (push_bit 12 (ucast (b AND 0x3F)) :: u32) = unat b mod 64 * 4096" "unat (ucast (b AND 0x3F) :: u32) = unat b mod 64" for b :: u8
proof -
  have u: "unat (push_bit k (ucast x) :: u32) = unat x * 2 ^ k" if "k \<le> 18" for k and x :: u8
  proof -
    have "(2 :: nat) ^ k \<le> 2 ^ 18" using that by (intro power_increasing) simp_all
    then have "unat x * 2 ^ k < 2 ^ 8 * 2 ^ 18" using unat_u8 [of x] by (intro mult_less_le_imp_less) simp_all
    then show ?thesis using unat_push [of "ucast x :: u32" k] by simp
  qed
  show "unat (push_bit 6 (ucast (b AND 0x1F)) :: u32) = unat b mod 32 * 64" "unat (push_bit 12 (ucast (b AND 0xF)) :: u32) = unat b mod 16 * 4096"
    "unat (push_bit 18 (ucast (b AND 0x7)) :: u32) = unat b mod 8 * 262144" "unat (push_bit 6 (ucast (b AND 0x3F)) :: u32) = unat b mod 64 * 64"
    "unat (push_bit 12 (ucast (b AND 0x3F)) :: u32) = unat b mod 64 * 4096"
    by (simp_all only: u unat_masked) simp_all
  show "unat (ucast (b AND 0x3F) :: u32) = unat b mod 64" by (simp only: unat_ucast_u8_u32 unat_masked)
qed

lemma mod_mult_less: "(a :: nat) mod 64 * 64 + b mod 64 < 4096"
proof -
  have "a mod 64 \<le> 63" "b mod 64 \<le> 63" by simp_all
  then show ?thesis by linarith
qed

lemma value2: "unat (push_bit 6 (ucast (b0 AND 0x1F)) OR ucast (b1 AND 0x3F) :: u32) = unat b0 mod 32 * 64 + unat b1 mod 64" for b0 b1 :: u8
  by (subst unat_or_disjoint [of 6]) (simp_all only: unat_shifted, simp_all)

lemma value_low: "unat (push_bit 6 (ucast (b2 AND 0x3F)) OR ucast (b3 AND 0x3F) :: u32) = unat b2 mod 64 * 64 + unat b3 mod 64" for b2 b3 :: u8
  by (subst unat_or_disjoint [of 6]) (simp_all only: unat_shifted, simp_all)

lemma value3: "unat (push_bit 12 (ucast (b0 AND 0xF)) OR push_bit 6 (ucast (b1 AND 0x3F)) OR ucast (b2 AND 0x3F) :: u32) =
    unat b0 mod 16 * 4096 + unat b1 mod 64 * 64 + unat b2 mod 64" for b0 b1 b2 :: u8
  unfolding or.assoc
  by (subst unat_or_disjoint [of 12]) (simp_all only: unat_shifted value_low, simp_all add: mod_mult_less)

lemma value_high: "unat (push_bit 18 (ucast (b0 AND 0x7)) OR push_bit 12 (ucast (b1 AND 0x3F)) :: u32) =
    unat b0 mod 8 * 262144 + unat b1 mod 64 * 4096" for b0 b1 :: u8
  by (subst unat_or_disjoint [of 18]) (simp_all only: unat_shifted, simp_all)

lemma value4: "unat ((push_bit 18 (ucast (b0 AND 0x7)) OR push_bit 12 (ucast (b1 AND 0x3F))) OR
      (push_bit 6 (ucast (b2 AND 0x3F)) OR ucast (b3 AND 0x3F)) :: u32) =
    unat b0 mod 8 * 262144 + unat b1 mod 64 * 4096 + (unat b2 mod 64 * 64 + unat b3 mod 64)" for b0 b1 b2 b3 :: u8
  by (subst unat_or_disjoint [of 12]) (simp_all only: value_high value_low, simp_all add: mod_mult_less)

lemma cont_eq:
  "cont s pos (length s) k =
     Some (if pos + k < length s \<and> 128 \<le> unat (s ! (pos + k)) \<and> unat (s ! (pos + k)) < 192 then Some (s ! (pos + k)) else None)"
  by (auto simp: cont_def load_def lead_bytes)

definition is_cont :: "bytes \<Rightarrow> nat \<Rightarrow> bool" where
  "is_cont s i \<longleftrightarrow> i < length s \<and> 128 \<le> unat (s ! i) \<and> unat (s ! i) < 192"

lemma block_mod:
  fixes h m x :: nat
  assumes "m dvd h" "h \<le> x" "x < h + m"
  shows "x = h + x mod m"
proof -
  from assms(1) obtain k where h: "h = m * k" by (elim dvdE)
  have "x mod m = (m * k + (x - h)) mod m" using assms(2) h by simp
  also have "\<dots> = (x - h) mod m" by (rule mod_mult_self4)
  also have "\<dots> = x - h" using assms(2,3) by (intro mod_less) linarith
  finally show ?thesis using assms(2) by simp
qed

lemma digits:
  fixes a b c d :: nat
  assumes "c < 64" "d < 64" "b < 64"
  shows "(c * 64 + d) div 64 = c" "(c * 64 + d) mod 64 = d"
    "(b * 4096 + c * 64 + d) div 4096 = b" "(b * 4096 + c * 64 + d) div 64 mod 64 = c" "(b * 4096 + c * 64 + d) mod 64 = d"
    "(a * 262144 + b * 4096 + (c * 64 + d)) div 262144 = a" "(a * 262144 + b * 4096 + (c * 64 + d)) div 4096 mod 64 = b"
    "(a * 262144 + b * 4096 + (c * 64 + d)) div 64 mod 64 = c" "(a * 262144 + b * 4096 + (c * 64 + d)) mod 64 = d"
proof -
  have one: "(q * 64 + r) div 64 = q" "(q * 64 + r) mod 64 = r" if "r < 64" for q r :: nat using that by simp_all
  have split: "x div 4096 = x div 64 div 64" "x div 262144 = x div 64 div 64 div 64" for x :: nat by (simp_all add: div_mult2_eq [symmetric])
  have e: "b * 4096 + c * 64 + d = (b * 64 + c) * 64 + d" "a * 262144 + b * 4096 + (c * 64 + d) = ((a * 64 + b) * 64 + c) * 64 + d" by simp_all
  show "(c * 64 + d) div 64 = c" "(c * 64 + d) mod 64 = d"
    "(b * 4096 + c * 64 + d) div 4096 = b" "(b * 4096 + c * 64 + d) div 64 mod 64 = c" "(b * 4096 + c * 64 + d) mod 64 = d"
    "(a * 262144 + b * 4096 + (c * 64 + d)) div 262144 = a" "(a * 262144 + b * 4096 + (c * 64 + d)) div 4096 mod 64 = b"
    "(a * 262144 + b * 4096 + (c * 64 + d)) div 64 mod 64 = c" "(a * 262144 + b * 4096 + (c * 64 + d)) mod 64 = d"
    unfolding split e by (simp_all only: one [OF assms(1)] one [OF assms(2)] one [OF assms(3)])
qed

lemma is_cont_mod: "is_cont s i \<Longrightarrow> unat (s ! i) = 128 + unat (s ! i) mod 64"
  unfolding is_cont_def by (rule block_mod) simp_all

lemma of_nat_unat_nth: "(of_nat n :: u8) = b" if "n = unat b" for n b
  using that by simp

lemma two_bytes_eq:
  "two_bytes s pos (length s) b0 wc =
     Some (if is_cont s (pos + 1)
           then (let v = push_bit 6 (ucast (b0 AND 0x1F)) OR ucast (s ! (pos + 1) AND 0x3F) in (if unat v < 128 then -1 else 2, v))
           else (-1, wc))"
  by (simp add: two_bytes_def cont_eq is_cont_def Let_def word_less_nat_alt)

lemma two_bytes_sound:
  assumes "192 \<le> unat b0" "unat b0 < 224" "two_bytes s pos (length s) b0 wc = Some (r, w)" "0 < r"
  shows "r = 2 \<and> pos + 1 < length s \<and> scalar w \<and> map of_nat (utf8_ref (unat w)) = [b0, s ! (pos + 1)]"
proof -
  have c: "is_cont s (pos + 1)" and w: "w = push_bit 6 (ucast (b0 AND 0x1F)) OR ucast (s ! (pos + 1) AND 0x3F)" "128 \<le> unat w" and r: "r = 2"
    using assms(3,4) by (auto simp: two_bytes_eq Let_def split: if_split_asm)
  have u: "unat w = unat b0 mod 32 * 64 + unat (s ! (pos + 1)) mod 64" unfolding w(1) by (rule value2)
  have b: "unat b0 = 192 + unat b0 mod 32" using assms(1,2) by (intro block_mod) simp_all
  note b1 = is_cont_mod [OF c]
  have k: "unat b0 mod 32 < 32" "unat (s ! (pos + 1)) mod 64 < 64" by simp_all
  then have "unat w < 2048" using u by linarith
  moreover have "unat w div 64 = unat b0 mod 32" "unat w mod 64 = unat (s ! (pos + 1)) mod 64" unfolding u by simp_all
  ultimately have "utf8_ref (unat w) = [unat b0, unat (s ! (pos + 1))]" using w(2) b b1 by (simp add: utf8_ref_def)
  then show ?thesis using r c \<open>unat w < 2048\<close> by (simp add: scalar_def is_cont_def)
qed

lemma three_bytes_eq:
  "three_bytes s pos (length s) b0 wc =
     Some (if \<not> is_cont s (pos + 1) then (-1, wc) else if \<not> is_cont s (pos + 2) then (-2, wc)
           else (let v = push_bit 12 (ucast (b0 AND 0xF)) OR push_bit 6 (ucast (s ! (pos + 1) AND 0x3F)) OR ucast (s ! (pos + 2) AND 0x3F)
                 in (if unat v < 2048 \<or> 0xD800 \<le> unat v \<and> unat v < 0xE000 then -2 else 3, v)))"
proof -
  have c: "v < 0x800 \<longleftrightarrow> unat v < 2048" "0xD800 \<le> v \<longleftrightarrow> 0xD800 \<le> unat v" "v \<le> 0xDFFF \<longleftrightarrow> unat v < 0xE000" for v :: u32
    by (auto simp: word_less_nat_alt word_le_nat_alt)
  show ?thesis unfolding three_bytes_def cont_eq Let_def c by (simp add: is_cont_def)
qed

lemma three_bytes_sound:
  assumes "224 \<le> unat b0" "unat b0 < 240" "three_bytes s pos (length s) b0 wc = Some (r, w)" "0 < r"
  shows "r = 3 \<and> pos + 2 < length s \<and> scalar w \<and> map of_nat (utf8_ref (unat w)) = [b0, s ! (pos + 1), s ! (pos + 2)]"
proof -
  have c: "is_cont s (pos + 1)" "is_cont s (pos + 2)" and r: "r = 3"
    and w: "w = push_bit 12 (ucast (b0 AND 0xF)) OR push_bit 6 (ucast (s ! (pos + 1) AND 0x3F)) OR ucast (s ! (pos + 2) AND 0x3F)"
      "2048 \<le> unat w" "\<not> (0xD800 \<le> unat w \<and> unat w < 0xE000)"
    using assms(3,4) unfolding three_bytes_eq Let_def by (auto split: if_split_asm)
  have u: "unat w = unat b0 mod 16 * 4096 + unat (s ! (pos + 1)) mod 64 * 64 + unat (s ! (pos + 2)) mod 64" unfolding w(1) by (rule value3)
  have b: "unat b0 = 224 + unat b0 mod 16" using assms(1,2) by (intro block_mod) simp_all
  have k: "unat b0 mod 16 < 16" "unat (s ! (pos + 1)) mod 64 < 64" "unat (s ! (pos + 2)) mod 64 < 64" by simp_all
  then have l: "unat w < 65536" using u by linarith
  have "unat w div 4096 = unat b0 mod 16" "unat w div 64 mod 64 = unat (s ! (pos + 1)) mod 64" "unat w mod 64 = unat (s ! (pos + 2)) mod 64"
    unfolding u by (simp_all only: digits [OF k(2,3)])
  then have "utf8_ref (unat w) = [unat b0, unat (s ! (pos + 1)), unat (s ! (pos + 2))]"
    using w(2) l b is_cont_mod [OF c(1)] is_cont_mod [OF c(2)] by (simp add: utf8_ref_def)
  then show ?thesis using r c l w(3) by (simp add: scalar_def is_cont_def)
qed

lemma four_bytes_eq:
  "four_bytes s pos (length s) b0 wc =
     Some (if \<not> is_cont s (pos + 1) then (-1, wc)
       else let v = push_bit 18 (ucast (b0 AND 0x7)) in
         if 0x110000 \<le> unat v then (-1, v)
         else if \<not> is_cont s (pos + 2) then (-2, v)
         else let v = v OR push_bit 12 (ucast (s ! (pos + 1) AND 0x3F)) in
           if 0x110000 \<le> unat v \<or> unat v < 65536 then (-2, v)
           else if \<not> is_cont s (pos + 3) then (-3, v)
           else (4, v OR (push_bit 6 (ucast (s ! (pos + 2) AND 0x3F)) OR ucast (s ! (pos + 3) AND 0x3F))))"
proof -
  have c: "0x10FFFF < v \<longleftrightarrow> 0x110000 \<le> unat v" "v < 0x10000 \<longleftrightarrow> unat v < 65536" for v :: u32
    by (auto simp: word_less_nat_alt word_le_nat_alt)
  show ?thesis unfolding four_bytes_def cont_eq Let_def c by (simp add: is_cont_def)
qed

lemma four_bytes_sound:
  assumes "240 \<le> unat b0" "unat b0 < 248" "four_bytes s pos (length s) b0 wc = Some (r, w)" "0 < r"
  shows "r = 4 \<and> pos + 3 < length s \<and> scalar w \<and> map of_nat (utf8_ref (unat w)) = [b0, s ! (pos + 1), s ! (pos + 2), s ! (pos + 3)]"
proof -
  define h :: u32 where "h = push_bit 18 (ucast (b0 AND 0x7)) OR push_bit 12 (ucast (s ! (pos + 1) AND 0x3F))"
  have c: "is_cont s (pos + 1)" "is_cont s (pos + 2)" "is_cont s (pos + 3)" and r: "r = 4"
    and w: "w = h OR (push_bit 6 (ucast (s ! (pos + 2) AND 0x3F)) OR ucast (s ! (pos + 3) AND 0x3F))"
      "65536 \<le> unat h" "unat h < 0x110000"
    using assms(3,4) unfolding four_bytes_eq Let_def h_def by (auto split: if_split_asm)
  let ?x = "unat b0 mod 8" and ?a = "unat (s ! (pos + 1)) mod 64" and ?b = "unat (s ! (pos + 2)) mod 64" and ?c = "unat (s ! (pos + 3)) mod 64"
  have u: "unat h = ?x * 262144 + ?a * 4096" "unat w = ?x * 262144 + ?a * 4096 + (?b * 64 + ?c)"
    unfolding w(1) h_def by (rule value_high, rule value4)
  have b: "unat b0 = 240 + ?x" using assms(1,2) by (intro block_mod) simp_all
  have k: "?a < 64" "?b < 64" "?c < 64" by simp_all
  have l: "unat w < 0x110000"
  proof -
    have "4096 dvd unat h" unfolding u by (intro dvd_add) simp_all
    then obtain m where m: "unat h = 4096 * m" by (elim dvdE)
    then have "m < 272" using w(3) by linarith
    then show ?thesis using m u k by linarith
  qed
  have "unat w div 262144 = ?x" "unat w div 4096 mod 64 = ?a" "unat w div 64 mod 64 = ?b" "unat w mod 64 = ?c"
    unfolding u by (simp_all only: digits [OF k(2,3,1)])
  moreover have "65536 \<le> unat w" using w(2) u by linarith
  ultimately have "utf8_ref (unat w) = [unat b0, unat (s ! (pos + 1)), unat (s ! (pos + 2)), unat (s ! (pos + 3))]"
    using b is_cont_mod [OF c(1)] is_cont_mod [OF c(2)] is_cont_mod [OF c(3)] by (simp add: utf8_ref_def)
  then show ?thesis using r c l \<open>65536 \<le> unat w\<close> by (simp add: scalar_def is_cont_def)
qed

text \<open>The parser of one character: it returns, stays inside, and accepts only what the encoding of a character is.\<close>

lemma utf8ToWc_sound:
  assumes "pos < length s"
  shows "\<exists>r w. utf8ToWc s pos (length s) wc = Some (r, w) \<and> r \<noteq> 0 \<and> pos + nat \<bar>r\<bar> \<le> length s \<and>
    (0 < r \<longrightarrow> scalar w \<and> take (nat r) (drop pos s) = map of_nat (utf8_ref (unat w)))"
proof -
  let ?b = "s ! pos"
  have t: "take (Suc n) (drop pos s) = ?b # take n (drop (pos + 1) s)" for n
    using assms by (simp add: Cons_nth_drop_Suc [symmetric])
  have t2: "take (Suc n) (drop p s) = s ! p # take n (drop (p + 1) s)" if "p < length s" for n p
    using that by (simp add: Cons_nth_drop_Suc [symmetric])
  consider (a) "unat ?b < 128" | (b) "128 \<le> unat ?b" "unat ?b < 192" | (c) "192 \<le> unat ?b" "unat ?b < 224"
    | (d) "224 \<le> unat ?b" "unat ?b < 240" | (e) "240 \<le> unat ?b" "unat ?b < 248" | (f) "248 \<le> unat ?b" by linarith
  then show ?thesis
  proof cases
    case a
    then have "utf8ToWc s pos (length s) wc = Some (1, ucast ?b)" using assms by (simp add: utf8ToWc_def load_def lead_bytes)
    moreover have "scalar (ucast ?b)" "map of_nat (utf8_ref (unat (ucast ?b :: u32))) = [?b]" using a by (simp_all add: scalar_def utf8_ref_def)
    ultimately show ?thesis using assms t [of 0] by auto
  next
    case b
    then have "utf8ToWc s pos (length s) wc = Some (-1, wc)" using assms by (simp add: utf8ToWc_def load_def lead_bytes)
    then show ?thesis using assms by auto
  next
    case c
    then have u: "utf8ToWc s pos (length s) wc = two_bytes s pos (length s) ?b wc" using assms by (simp add: utf8ToWc_def load_def lead_bytes)
    obtain r w where rw: "two_bytes s pos (length s) ?b wc = Some (r, w)" unfolding two_bytes_eq by (metis surj_pair)
    then have "r = -1 \<or> r = 2" using two_bytes_range by blast
    then show ?thesis using two_bytes_sound [OF c rw(1)] rw u assms t [of 1] t2 [of "pos + 1" 0] by (auto simp: numeral_2_eq_2)
  next
    case d
    then have u: "utf8ToWc s pos (length s) wc = three_bytes s pos (length s) ?b wc" using assms by (simp add: utf8ToWc_def load_def lead_bytes)
    obtain r w where rw: "three_bytes s pos (length s) ?b wc = Some (r, w)" unfolding three_bytes_eq by (metis surj_pair)
    then have "r = -1 \<or> r = -2 \<and> is_cont s (pos + 1) \<or> r = 3" unfolding three_bytes_eq Let_def by (auto split: if_split_asm)
    then show ?thesis using three_bytes_sound [OF d rw(1)] rw u assms t [of 2] t2 [of "pos + 1" 1] t2 [of "pos + 2" 0]
      by (auto simp: is_cont_def numeral_3_eq_3 numeral_2_eq_2)
  next
    case e
    then have u: "utf8ToWc s pos (length s) wc = four_bytes s pos (length s) ?b wc" using assms by (simp add: utf8ToWc_def load_def lead_bytes)
    obtain r w where rw: "four_bytes s pos (length s) ?b wc = Some (r, w)" unfolding four_bytes_eq by (metis surj_pair)
    then have "r = -1 \<or> r = -2 \<and> is_cont s (pos + 1) \<or> r = -3 \<and> is_cont s (pos + 2) \<or> r = 4"
      unfolding four_bytes_eq Let_def by (auto split: if_split_asm)
    then show ?thesis using four_bytes_sound [OF e rw(1)] rw u assms t [of 3] t2 [of "pos + 1" 2] t2 [of "pos + 2" 1] t2 [of "pos + 3" 0]
      by (auto simp: is_cont_def numeral_eq_Suc)
  next
    case f
    then have "utf8ToWc s pos (length s) wc = Some (-1, wc)" using assms by (simp add: utf8ToWc_def load_def lead_bytes)
    then show ?thesis using assms by auto
  qed
qed

lemma drop_nth_prefix: "drop pos s = xs @ rest \<Longrightarrow> i < length xs \<Longrightarrow> pos + i < length s \<and> s ! (pos + i) = xs ! i"
proof -
  assume d: "drop pos s = xs @ rest" and i: "i < length xs"
  have "length s - pos = length xs + length rest" using arg_cong [OF d, of length] by simp
  then have l: "pos + i < length s" using i by linarith
  have "s ! (pos + i) = drop pos s ! i" using l by simp
  then show ?thesis using d i l by (simp add: nth_append)
qed

lemma unat_small_byte: "n < 256 \<Longrightarrow> unat (of_nat n :: u8) = n"
  by (simp add: unat_of_nat)

lemma mod_base: "m dvd h \<Longrightarrow> q < m \<Longrightarrow> (h + q) mod m = (q :: nat)"
  by (auto elim!: dvdE)

lemma cont_byte:
  assumes "pos < length s" "s ! pos = of_nat (128 + q)" "q < 64"
  shows "is_cont s pos" "unat (s ! pos) mod 64 = q"
proof -
  have "unat (s ! pos) = 128 + q" unfolding assms(2) using assms(3) by (intro unat_small_byte) simp
  then show "is_cont s pos" "unat (s ! pos) mod 64 = q" using assms(1,3) by (simp_all add: is_cont_def mod_base)
qed

lemma two_bytes_complete:
  assumes "128 \<le> unat c" "unat c < 2048" "b0 = of_nat (192 + unat c div 64)"
    and "pos + 1 < length s" "s ! (pos + 1) = of_nat (128 + unat c mod 64)"
  shows "two_bytes s pos (length s) b0 wc = Some (2, c)"
proof -
  have q: "unat c div 64 < 32" using assms(2) by simp
  then have b0: "unat b0 mod 32 = unat c div 64" unfolding assms(3) by (subst unat_small_byte) (simp_all add: mod_base)
  note b1 = cont_byte [OF assms(4,5), simplified]
  have "push_bit 6 (ucast (b0 AND 0x1F)) OR ucast (s ! (pos + 1) AND 0x3F) = c"
    by (rule word_unat_eq_iff [THEN iffD2]) (simp add: value2 b0 b1)
  then show ?thesis using b1 assms(1) by (auto simp: two_bytes_eq Let_def)
qed

lemma three_bytes_complete:
  assumes "2048 \<le> unat c" "unat c < 65536" "scalar c" "b0 = of_nat (224 + unat c div 4096)"
    and "pos + 1 < length s" "s ! (pos + 1) = of_nat (128 + unat c div 64 mod 64)"
    and "pos + 2 < length s" "s ! (pos + 2) = of_nat (128 + unat c mod 64)"
  shows "three_bytes s pos (length s) b0 wc = Some (3, c)"
proof -
  have q: "unat c div 4096 < 16" using assms(2) by simp
  then have b0: "unat b0 mod 16 = unat c div 4096" unfolding assms(4) by (subst unat_small_byte) (simp_all add: mod_base)
  note b1 = cont_byte [OF assms(5,6), simplified] and b2 = cont_byte [OF assms(7,8), simplified]
  have "unat c = unat c div 64 div 64 * 4096 + unat c div 64 mod 64 * 64 + unat c mod 64"
    using div_mult_mod_eq [of "unat c" 64] div_mult_mod_eq [of "unat c div 64" 64] by linarith
  then have v: "push_bit 12 (ucast (b0 AND 0xF)) OR push_bit 6 (ucast (s ! (pos + 1) AND 0x3F)) OR ucast (s ! (pos + 2) AND 0x3F) = c"
    by (intro word_unat_eq_iff [THEN iffD2]) (simp add: value3 b0 b1 b2 div_mult2_eq [of _ 64 64, simplified])
  have "\<not> (0xD800 \<le> unat c \<and> unat c < 0xE000)" using assms(3) by (simp add: scalar_def)
  then show ?thesis using b1 b2 assms(1) v by (auto simp: three_bytes_eq Let_def)
qed

lemma four_bytes_complete:
  assumes "65536 \<le> unat c" "unat c < 0x110000" "b0 = of_nat (240 + unat c div 262144)"
    and "pos + 1 < length s" "s ! (pos + 1) = of_nat (128 + unat c div 4096 mod 64)"
    and "pos + 2 < length s" "s ! (pos + 2) = of_nat (128 + unat c div 64 mod 64)"
    and "pos + 3 < length s" "s ! (pos + 3) = of_nat (128 + unat c mod 64)"
  shows "four_bytes s pos (length s) b0 wc = Some (4, c)"
proof -
  let ?n = "unat c"
  have q: "?n div 262144 < 8" using assms(2) by simp
  then have b0: "unat b0 mod 8 = ?n div 262144" unfolding assms(3) by (subst unat_small_byte) (simp_all add: mod_base)
  note b1 = cont_byte [OF assms(4,5), simplified] and b2 = cont_byte [OF assms(6,7), simplified] and b3 = cont_byte [OF assms(8,9), simplified]
  have split: "?n div 4096 = ?n div 64 div 64" "?n div 262144 = ?n div 64 div 64 div 64" by (simp_all add: div_mult2_eq [symmetric])
  have e: "?n = ?n div 262144 * 262144 + ?n div 4096 mod 64 * 4096 + (?n div 64 mod 64 * 64 + ?n mod 64)"
    unfolding split using div_mult_mod_eq [of ?n 64] div_mult_mod_eq [of "?n div 64" 64] div_mult_mod_eq [of "?n div 64 div 64" 64] by linarith
  define h :: u32 where "h = push_bit 18 (ucast (b0 AND 0x7)) OR push_bit 12 (ucast (s ! (pos + 1) AND 0x3F))"
  have h: "unat h = ?n div 262144 * 262144 + ?n div 4096 mod 64 * 4096" unfolding h_def value_high by (simp add: b0 b1)
  have m: "?n div 64 mod 64 * 64 + ?n mod 64 < 4096" by (rule mod_mult_less)
  have hb: "unat h < 0x110000" "65536 \<le> unat h"
  proof -
    have "4096 dvd unat h" unfolding h by (intro dvd_add) simp_all
    then obtain k where k: "unat h = 4096 * k" by (elim dvdE)
    have nk: "?n = 4096 * k + (?n div 64 mod 64 * 64 + ?n mod 64)" using e h k by linarith
    show "unat h < 0x110000" using h e assms(2) by linarith
    have "15 < k" using nk m assms(1) by linarith
    then show "65536 \<le> unat h" using k by linarith
  qed
  have p: "unat (push_bit 18 (ucast (b0 AND 0x7)) :: u32) < 0x110000" unfolding unat_shifted b0 using h hb(1) by linarith
  have v: "h OR (push_bit 6 (ucast (s ! (pos + 2) AND 0x3F)) OR ucast (s ! (pos + 3) AND 0x3F)) = c"
    by (intro word_unat_eq_iff [THEN iffD2]) (use e in \<open>simp add: h_def value4 b0 b1 b2 b3\<close>)
  show ?thesis unfolding four_bytes_eq Let_def h_def [symmetric] using b1 b2 b3 p hb v by auto
qed

lemma utf8ToWc_complete:
  assumes "scalar c" "drop pos s = map of_nat (utf8_ref (unat c)) @ rest"
  shows "utf8ToWc s pos (length s) wc = Some (int (length (utf8_ref (unat c))), c)"
proof -
  let ?n = "unat c"
  note nth = drop_nth_prefix [OF assms(2)]
  have n: "?n < 0x110000" using assms(1) by (simp add: scalar_def)
  have load: "load s pos = Some b \<Longrightarrow> utf8ToWc s pos (length s) wc = (if unat b < 128 then Some (1, ucast b) else if unat b < 192 then Some (-1, wc)
      else if unat b < 224 then two_bytes s pos (length s) b wc else if unat b < 240 then three_bytes s pos (length s) b wc
      else if unat b < 248 then four_bytes s pos (length s) b wc else Some (-1, wc))" for b
    by (simp add: utf8ToWc_def lead_bytes)
  consider "?n < 128" | "128 \<le> ?n" "?n < 2048" | "2048 \<le> ?n" "?n < 65536" | "65536 \<le> ?n" by linarith
  then show ?thesis
  proof cases
    case 1
    then have b: "load s pos = Some (of_nat ?n)" using nth [of 0] by (simp add: load_def utf8_ref_def)
    have "unat (ucast (of_nat ?n :: u8) :: u32) = ?n" using unat_small_byte [of ?n] 1 by (simp only: unat_ucast_u8_u32)
    then have "ucast (of_nat ?n :: u8) = c" by (rule word_unat_eq_iff [THEN iffD2])
    then show ?thesis using 1 load [OF b] unat_small_byte [of ?n] by (simp add: utf8_ref_def)
  next
    case 2
    have u: "unat (of_nat (192 + ?n div 64) :: u8) = 192 + ?n div 64" using 2 by (intro unat_small_byte) simp
    have r: "utf8_ref ?n = [192 + ?n div 64, 128 + ?n mod 64]" using 2 by (simp add: utf8_ref_def)
    have b: "load s pos = Some (of_nat (192 + ?n div 64))" using nth [of 0] by (simp add: load_def r)
    have "two_bytes s pos (length s) (of_nat (192 + ?n div 64)) wc = Some (2, c)"
      using nth [of 1] r by (intro two_bytes_complete [OF 2 refl]) simp_all
    moreover have "?n div 64 < 32" using 2 by simp
    ultimately show ?thesis using load [OF b] u r by (simp del: of_nat_add)
  next
    case 3
    have u: "unat (of_nat (224 + ?n div 4096) :: u8) = 224 + ?n div 4096" using 3 by (intro unat_small_byte) simp
    have r: "utf8_ref ?n = [224 + ?n div 4096, 128 + ?n div 64 mod 64, 128 + ?n mod 64]" using 3 by (simp add: utf8_ref_def)
    have b: "load s pos = Some (of_nat (224 + ?n div 4096))" using nth [of 0] by (simp add: load_def r)
    have "three_bytes s pos (length s) (of_nat (224 + ?n div 4096)) wc = Some (3, c)"
      using nth [of 1] nth [of 2] r by (intro three_bytes_complete [OF 3 assms(1) refl]) simp_all
    moreover have "?n div 4096 < 16" using 3 by simp
    ultimately show ?thesis using load [OF b] u r by (simp del: of_nat_add)
  next
    case 4
    have u: "unat (of_nat (240 + ?n div 262144) :: u8) = 240 + ?n div 262144" using n by (intro unat_small_byte) simp
    have r: "utf8_ref ?n = [240 + ?n div 262144, 128 + ?n div 4096 mod 64, 128 + ?n div 64 mod 64, 128 + ?n mod 64]" using 4 by (simp add: utf8_ref_def)
    have b: "load s pos = Some (of_nat (240 + ?n div 262144))" using nth [of 0] by (simp add: load_def r)
    have "four_bytes s pos (length s) (of_nat (240 + ?n div 262144)) wc = Some (4, c)"
      using nth [of 1] nth [of 2] nth [of 3] r by (intro four_bytes_complete [OF 4 n refl]) simp_all
    moreover have "?n div 262144 < 8" using n by simp
    ultimately show ?thesis using load [OF b] u r by (simp del: of_nat_add)
  qed
qed

section \<open>The two passes\<close>

text \<open>Writing a list at a position.\<close>

definition over :: "'a list \<Rightarrow> nat \<Rightarrow> 'a list \<Rightarrow> 'a list" where
  "over tgt p bs = take p tgt @ bs @ drop (p + length bs) tgt"

lemma over_Nil [simp]: "over tgt p [] = tgt"
  by (simp add: over_def)

lemma length_over [simp]: "p + length bs \<le> length tgt \<Longrightarrow> length (over tgt p bs) = length tgt"
  by (simp add: over_def)

lemma over_append: "p + length (a @ b) \<le> length tgt \<Longrightarrow> over (over tgt p a) (p + length a) b = over tgt p (a @ b)"
  by (simp add: over_def ac_simps)

lemma over_whole: "length bs = length tgt \<Longrightarrow> over tgt 0 bs = bs"
  by (simp add: over_def)

lemma store_over: "p < length tgt \<Longrightarrow> store tgt p b = Some (over tgt p [b])"
  by (simp add: store_def over_def upd_conv_take_nth_drop)

lemma put_bytes_over: "p + length bs \<le> length tgt \<Longrightarrow> put_bytes tgt p bs = Some (over tgt p bs)"
proof (induction bs arbitrary: tgt p)
  case (Cons b bs)
  then show ?case using over_append [of p "[b]" bs tgt] by (simp add: store_over)
qed simp

lemma length_resize [simp]: "length (resize z tgt n) = n"
  by (simp add: resize_def)

text \<open>What \<open>wc\<close> was before does not matter.\<close>

lemma utf8ToWc_wc:
  assumes "utf8ToWc s pos (length s) wc = Some (r, w)"
  shows "\<exists>w'. utf8ToWc s pos (length s) wc' = Some (r, w') \<and> (0 < r \<longrightarrow> w' = w)"
proof -
  have two: "two_bytes s pos (length s) b wc = Some (r, w) \<Longrightarrow> \<exists>w'. two_bytes s pos (length s) b wc' = Some (r, w') \<and> (0 < r \<longrightarrow> w' = w)" for b
    unfolding two_bytes_eq Let_def by (auto split: if_split_asm)
  have three: "three_bytes s pos (length s) b wc = Some (r, w) \<Longrightarrow> \<exists>w'. three_bytes s pos (length s) b wc' = Some (r, w') \<and> (0 < r \<longrightarrow> w' = w)" for b
    unfolding three_bytes_eq Let_def by (auto split: if_split_asm)
  have four: "four_bytes s pos (length s) b wc = Some (r, w) \<Longrightarrow> \<exists>w'. four_bytes s pos (length s) b wc' = Some (r, w') \<and> (0 < r \<longrightarrow> w' = w)" for b
    unfolding four_bytes_eq Let_def by (auto split: if_split_asm)
  obtain b where "load s pos = Some b" using assms by (auto simp: utf8ToWc_def bind_eq_Some_conv)
  then show ?thesis using assms two [of b] three [of b] four [of b] unfolding utf8ToWc_def by (auto split: if_split_asm)
qed

text \<open>The characters that a string of bytes is read as.\<close>

function chars :: "bytes \<Rightarrow> nat \<Rightarrow> u32 \<Rightarrow> u32 list" where
  "chars s i wc =
     (if i < length s then
        (case utf8ToWc s i (length s) wc of
           None \<Rightarrow> []
         | Some (r, w) \<Rightarrow> if r < 0 then ERROR_CHAR # chars s (i + nat (- r)) w else w # chars s (i + nat r) w)
      else [])"
  by auto
termination
  by (relation "measure (\<lambda>(s, i, _). length s - i)") (auto dest!: utf8ToWc_range)

declare chars.simps [simp del]

lemma chars_end: "\<not> i < length s \<Longrightarrow> chars s i wc = []"
  by (simp add: chars.simps)

text \<open>One step of all loops.\<close>

lemma chars_step:
  assumes "i < length s"
  obtains (bad) r w where "utf8ToWc s i (length s) wc = Some (r, w)" "r < 0" "i < i + nat (- r)" "i + nat (- r) \<le> length s"
      "chars s i wc = ERROR_CHAR # chars s (i + nat (- r)) w"
  | (good) r w where "utf8ToWc s i (length s) wc = Some (r, w)" "0 < r" "i < i + nat r" "i + nat r \<le> length s"
      "chars s i wc = w # chars s (i + nat r) w" "scalar w" "take (nat r) (drop i s) = map of_nat (utf8_ref (unat w))"
proof -
  from utf8ToWc_sound [OF assms, of wc] obtain r w where r: "utf8ToWc s i (length s) wc = Some (r, w)" "r \<noteq> 0" "i + nat \<bar>r\<bar> \<le> length s"
    "0 < r \<longrightarrow> scalar w \<and> take (nat r) (drop i s) = map of_nat (utf8_ref (unat w))" by auto
  show thesis
  proof (cases "r < 0")
    case True
    then show thesis using bad [OF r(1) True] r assms by (simp add: chars.simps [of s i])
  next
    case False
    then show thesis using good [OF r(1)] r assms by (simp add: chars.simps [of s i])
  qed
qed

lemma ERROR_CHAR_scalar: "scalar ERROR_CHAR"
  by (simp add: scalar_def ERROR_CHAR_def)

lemma chars_scalar: "list_all scalar (chars s i wc)"
proof (induction "length s - i" arbitrary: i wc rule: less_induct)
  case less
  show ?case
  proof (cases "i < length s")
    case True
    then show ?thesis
      by (cases rule: chars_step [of i s wc]) (use True less in \<open>simp_all add: ERROR_CHAR_scalar\<close>)
  qed (simp add: chars_end)
qed

lemma chars_wc: "chars s i wc = chars s i wc'"
proof (induction "length s - i" arbitrary: i wc wc' rule: less_induct)
  case less
  show ?case
  proof (cases "i < length s")
    case True
    then show ?thesis
    proof (cases rule: chars_step [of i s wc])
      case (bad r w)
      from utf8ToWc_wc [OF bad(1), of wc'] obtain w' where "utf8ToWc s i (length s) wc' = Some (r, w')" by auto
      then show ?thesis using bad True less [of "i + nat (- r)" w w'] by (simp add: chars.simps [of s i wc'])
    next
      case (good r w)
      from utf8ToWc_wc [OF good(1), of wc'] good(2) have "utf8ToWc s i (length s) wc' = Some (r, w)" by auto
      then show ?thesis using good True by (simp add: chars.simps [of s i wc'])
    qed
  qed (simp add: chars_end)
qed

lemma wide_size32_chars: "wide_size32 s (length s) i wc n = Some (n + length (chars s i wc))"
proof (induction "length s - i" arbitrary: i wc n rule: less_induct)
  case less
  show ?case
  proof (cases "i < length s")
    case True
    then show ?thesis
      by (cases rule: chars_step [of i s wc]) (use True less in \<open>simp_all add: wide_size32.simps [of s "length s" i]\<close>)
  qed (simp add: chars_end wide_size32.simps)
qed

lemma wide_write32_chars:
  "out + length (chars s i wc) \<le> length tgt \<Longrightarrow> wide_write32 s (length s) i wc tgt out = Some (over tgt out (chars s i wc))"
proof (induction "length s - i" arbitrary: i wc tgt out rule: less_induct)
  case less
  note w = wide_write32.simps [of s "length s" i]
  show ?case
  proof (cases "i < length s")
    case True
    then show ?thesis
    proof (cases rule: chars_step [of i s wc])
      case (bad r w)
      then show ?thesis using less True over_append [of out "[ERROR_CHAR]" "chars s (i + nat (- r)) w" tgt] by (simp add: w store_over)
    next
      case (good r w)
      then show ?thesis using less True over_append [of out "[w]" "chars s (i + nat r) w" tgt] by (simp add: w store_over)
    qed
  qed (simp add: chars_end w)
qed

lemma utf8ToWide_32_chars: "utf8ToWide_32 s tgt = Some (chars s 0 0)"
  by (auto simp: utf8ToWide_32_def wide_size32_chars wide_write32_chars over_whole)

text \<open>The same for UTF-16.\<close>

lemma ucast_u16: "unat (v :: u32) < 65536 \<Longrightarrow> (ucast v :: u16) = of_nat (unat v)"
  by (metis of_nat_unat)

lemma or_u16: "2 ^ k dvd unat x \<Longrightarrow> unat v < 2 ^ k \<Longrightarrow> unat x + 2 ^ k \<le> 65536 \<Longrightarrow> (ucast (x OR v :: u32) :: u16) = of_nat (unat x + unat v)"
  using unat_or_disjoint [of k x v] ucast_u16 [of "x OR v"] by (simp del: of_nat_add)

lemma surrogates:
  fixes w :: u32
  assumes "65536 \<le> unat w" "unat w < 0x110000"
  shows "[ucast (0xD800 OR drop_bit 10 (w - 0x10000)), ucast (0xDC00 OR ((w - 0x10000) AND 0x3FF))] = (map of_nat (utf16_ref (unat w)) :: u16 list)"
proof -
  have u: "unat (w - 0x10000) = unat w - 65536" using assms(1) by (subst unat_sub) (simp_all add: word_le_nat_alt)
  have n: "unat (0xD800 :: u32) = 0xD800" "unat (0xDC00 :: u32) = 0xDC00" by simp_all
  have d: "unat (drop_bit 10 (w - 0x10000)) = (unat w - 65536) div 1024" by (simp only: unat_drop u) simp
  have m: "unat ((w - 0x10000) AND 0x3FF) = (unat w - 65536) mod 1024" by (simp only: unat_masked u)
  have "(ucast (0xD800 OR drop_bit 10 (w - 0x10000)) :: u16) = of_nat (0xD800 + (unat w - 65536) div 1024)"
    using or_u16 [of 10 "0xD800" "drop_bit 10 (w - 0x10000)"] assms(2) unfolding n d by (simp del: of_nat_add)
  moreover have "(ucast (0xDC00 OR ((w - 0x10000) AND 0x3FF)) :: u16) = of_nat (0xDC00 + (unat w - 65536) mod 1024)"
    using or_u16 [of 10 "0xDC00" "(w - 0x10000) AND 0x3FF"] unfolding n m by (simp del: of_nat_add)
  ultimately show ?thesis using assms(1) by (simp add: utf16_ref_def del: of_nat_add)
qed

lemma utf16_of_simps [simp]: "utf16_of [] = []" "utf16_of (c # cs) = map of_nat (utf16_ref (unat c)) @ utf16_of cs"
  by (simp_all add: utf16_of_def)

lemma unat_ERROR_CHAR: "unat ERROR_CHAR = 65533"
  by (simp add: ERROR_CHAR_def)

lemma utf16_error: "(map of_nat (utf16_ref (unat ERROR_CHAR)) :: u16 list) = [ucast ERROR_CHAR]"
  by (simp add: utf16_ref_def ERROR_CHAR_def)

lemma wide_ge: "0x10000 \<le> w \<longleftrightarrow> 65536 \<le> unat (w :: u32)"
  by (simp add: word_le_nat_alt)

lemma wide_size16_chars: "wide_size16 s (length s) i wc n = Some (n + length (utf16_of (chars s i wc)))"
proof (induction "length s - i" arbitrary: i wc n rule: less_induct)
  case less
  show ?case
  proof (cases "i < length s")
    case True
    then show ?thesis
      by (cases rule: chars_step [of i s wc])
        (use True less in \<open>simp_all add: wide_size16.simps [of s "length s" i] utf16_ref_def wide_ge unat_ERROR_CHAR\<close>)
  qed (simp add: chars_end wide_size16.simps)
qed

lemma wide_write16_chars:
  "out + length (utf16_of (chars s i wc)) \<le> length tgt \<Longrightarrow>
   wide_write16 s (length s) i wc tgt out = Some (over tgt out (utf16_of (chars s i wc)))"
proof (induction "length s - i" arbitrary: i wc tgt out rule: less_induct)
  case less
  note w = wide_write16.simps [of s "length s" i]
  show ?case
  proof (cases "i < length s")
    case True
    then show ?thesis
    proof (cases rule: chars_step [of i s wc])
      case (bad r w')
      then show ?thesis
        using less True over_append [of out "[ucast ERROR_CHAR]" "utf16_of (chars s (i + nat (- r)) w')" tgt]
        by (simp add: w store_over utf16_error)
    next
      case (good r w')
      show ?thesis
      proof (cases "65536 \<le> unat w'")
        case True
        let ?d = "w' - 0x10000" and ?a = "ucast (0xD800 OR drop_bit 10 (w' - 0x10000)) :: u16" and ?b = "ucast (0xDC00 OR ((w' - 0x10000) AND 0x3FF)) :: u16"
        have s: "map of_nat (utf16_ref (unat w')) = [?a, ?b]" using surrogates [OF True] good(6) by (simp add: scalar_def)
        have c: "chars s (i + nat r) w' = chars s (i + nat r) ?d" by (rule chars_wc)
        have l: "out + (2 + length (utf16_of (chars s (i + nat r) ?d))) \<le> length tgt" using less.prems good(5) s c by simp
        have "wide_write16 s (length s) i wc tgt out = wide_write16 s (length s) (i + nat r) ?d (over tgt out [?a, ?b]) (out + 2)"
          using good(1,2) \<open>i < length s\<close> True l over_append [of out "[?a]" "[?b]" tgt] by (simp add: w wide_ge Let_def store_over)
        also have "\<dots> = Some (over (over tgt out [?a, ?b]) (out + 2) (utf16_of (chars s (i + nat r) ?d)))"
          using l good(2) \<open>i < length s\<close> by (intro less.hyps) auto
        also have "over (over tgt out [?a, ?b]) (out + 2) (utf16_of (chars s (i + nat r) ?d)) = over tgt out (utf16_of (chars s i wc))"
          using over_append [of out "[?a, ?b]" "utf16_of (chars s (i + nat r) ?d)" tgt] l good(5) s c by simp
        finally show ?thesis .
      next
        case False
        have s: "map of_nat (utf16_ref (unat w')) = [ucast w' :: u16]" using False ucast_u16 [of w'] by (simp add: utf16_ref_def)
        show ?thesis
          using less good \<open>i < length s\<close> False over_append [of out "[ucast w']" "utf16_of (chars s (i + nat r) w')" tgt]
          by (simp add: w wide_ge s store_over)
      qed
    qed
  qed (simp add: chars_end w)
qed

lemma utf8ToWide_16_chars: "utf8ToWide_16 s tgt = Some (utf16_of (chars s 0 0))"
  by (auto simp: utf8ToWide_16_def wide_size16_chars wide_write16_chars over_whole)

section \<open>Validity\<close>

lemma utf8_of_simps [simp]: "utf8_of [] = []" "utf8_of (c # cs) = map of_nat (utf8_ref (unat c)) @ utf8_of cs"
  "utf8_of (cs @ ds) = utf8_of cs @ utf8_of ds"
  by (simp_all add: utf8_of_def)

lemma utf8_ref_Nil [simp]: "utf8_ref n \<noteq> []"
  by (simp add: utf8_ref_def)

lemma validateUtf8_sound:
  "\<exists>b. validateUtf8 s (length s) i = Some b \<and> (b \<longrightarrow> utf8_of (chars s i wc) = drop i s)"
proof (induction "length s - i" arbitrary: i wc rule: less_induct)
  case less
  note v = validateUtf8.simps [of s "length s" i]
  show ?case
  proof (cases "i < length s")
    case True
    have c: "chars s i wc = chars s i 0" by (rule chars_wc)
    show ?thesis using True
    proof (cases rule: chars_step [of i s 0])
      case (bad r w)
      then show ?thesis using True by (intro exI [of _ False]) (simp add: v)
    next
      case (good r w)
      have "drop i s = take (nat r) (drop i s) @ drop (i + nat r) s" by (metis append_take_drop_id drop_drop add.commute)
      then show ?thesis using good True less [of "i + nat r" w] c by (auto simp: v)
    qed
  qed (auto simp: chars_end v)
qed

lemma chars_complete:
  "list_all scalar cs \<Longrightarrow> drop i s = utf8_of cs \<Longrightarrow> chars s i wc = cs \<and> validateUtf8 s (length s) i = Some True"
proof (induction cs arbitrary: i wc)
  case Nil
  then show ?case by (simp add: chars_end validateUtf8.simps [of s "length s" i])
next
  case (Cons c cs)
  let ?n = "length (utf8_ref (unat c))"
  have d: "drop i s = map of_nat (utf8_ref (unat c)) @ utf8_of cs" using Cons.prems(2) by simp
  have i: "i < length s" using arg_cong [OF d, of length] by (cases "utf8_ref (unat c)") auto
  have p: "utf8ToWc s i (length s) x = Some (int ?n, c)" for x using Cons.prems(1) by (intro utf8ToWc_complete [OF _ d]) simp
  have "drop (i + ?n) s = drop ?n (drop i s)" by (simp add: add.commute)
  also have "\<dots> = utf8_of cs" unfolding d by simp
  finally have "chars s (i + ?n) c = cs \<and> validateUtf8 s (length s) (i + ?n) = Some True" using Cons.prems(1) by (intro Cons.IH) auto
  then show ?case using i p by (simp add: chars.simps [of s i] validateUtf8.simps [of s "length s" i])
qed

lemma validateUtf8_iff: "validateUtf8 s (length s) 0 = Some True \<longleftrightarrow> (\<exists>cs. list_all scalar cs \<and> s = utf8_of cs)"
  using validateUtf8_sound [of s 0 0] chars_complete [of _ 0 s 0] chars_scalar [of s 0 0] by (metis drop0 option.inject)

lemma validateUtf8_returns: "validateUtf8 s (length s) 0 \<in> {Some True, Some False}"
  using validateUtf8_sound [of s 0 0] by auto

section \<open>From wide strings\<close>

lemma wide_value_ref: "wcToUtf8 (wide_value v) = map of_nat (utf8_ref (unat (wide_value v)))"
  by (rule wcToUtf8_ref) (simp add: wide_value_def word_less_nat_alt unat_ERROR_CHAR)

lemma utf8_size32_of: "utf8_size32 str n = n + length (utf8_of (map wide_value str))"
  by (induction str arbitrary: n) (simp_all add: wide_value_ref)

lemma utf8_write32_of:
  "out + length (utf8_of (map wide_value str)) \<le> length tgt \<Longrightarrow> utf8_write32 str tgt out = Some (over tgt out (utf8_of (map wide_value str)))"
proof (induction str arbitrary: tgt out)
  case (Cons v str)
  then show ?case using over_append [of out "map of_nat (utf8_ref (unat (wide_value v)))" "utf8_of (map wide_value str)" tgt]
    by (simp add: wide_value_ref put_bytes_over)
qed simp

lemma wideToUtf8_32_of: "wideToUtf8_32 str tgt = Some (utf8_of (map wide_value str))"
  by (auto simp: wideToUtf8_32_def utf8_size32_of utf8_write32_of over_whole Let_def)

lemma wide_value_scalar: "list_all scalar cs \<Longrightarrow> map wide_value cs = cs"
  by (induction cs) (auto simp: wide_value_def scalar_def word_less_nat_alt)

text \<open>The characters that UTF-16 is read as.\<close>

fun units :: "u16 list \<Rightarrow> u16 \<Rightarrow> u32 list" where
  "units [] h = (if h \<noteq> 0 then [ERROR_CHAR] else [])"
| "units (c # str) h = (case wide_step h c of (vs, h) \<Rightarrow> vs @ units str h)"

definition waits_for :: "u16 \<Rightarrow> bool" where
  "waits_for h \<longleftrightarrow> h = 0 \<or> 0xD800 \<le> unat h \<and> unat h < 0xDC00"

lemma unat_ucast_u16_u32: "unat (ucast (c :: u16) :: u32) = unat c"
  using unat_u16 [of c] by (simp add: unsigned_ucast_eq take_bit_nat_eq_self)

lemma pair_value:
  fixes h c :: u16
  assumes "0xD800 \<le> unat h" "unat h < 0xDC00" "0xDC00 \<le> unat c" "unat c < 0xE000"
  shows "unat (((ucast c - 0xDC00) OR push_bit 10 (ucast h - 0xD800)) + 0x10000 :: u32) = 65536 + (unat h - 0xD800) * 1024 + (unat c - 0xDC00)"
proof -
  have c: "unat (ucast c - 0xDC00 :: u32) = unat c - 0xDC00"
    using assms by (subst unat_sub) (simp_all add: word_le_nat_alt unat_ucast_u16_u32)
  have h: "unat (ucast h - 0xD800 :: u32) = unat h - 0xD800"
    using assms by (subst unat_sub) (simp_all add: word_le_nat_alt unat_ucast_u16_u32)
  have p: "unat (push_bit 10 (ucast h - 0xD800) :: u32) = (unat h - 0xD800) * 1024"
    using assms by (subst unat_push) (simp_all only: h, simp_all)
  have e: "unat ((ucast c - 0xDC00) OR push_bit 10 (ucast h - 0xD800) :: u32) = (unat c - 0xDC00) + (unat h - 0xD800) * 1024"
    using assms by (subst unat_or_disjoint2 [of 10]) (simp_all only: c p, simp_all)
  have k: "unat (0x10000 :: u32) = 65536" by simp
  have "unat c - 0xDC00 < 1024" "unat h - 0xD800 < 1024" using assms by linarith+
  then have "unat ((ucast c - 0xDC00) OR push_bit 10 (ucast h - 0xD800) :: u32) + unat (0x10000 :: u32) < 2 ^ 32" unfolding e k by simp
  from unat_add_u32 [OF this] show ?thesis unfolding e k by linarith
qed

lemma wide_step_cases:
  assumes "waits_for h"
  obtains (high) "0xD800 \<le> unat c" "unat c < 0xDC00" "wide_step h c = (if h \<noteq> 0 then [ERROR_CHAR] else [], c)"
  | (lone) "0xDC00 \<le> unat c" "unat c < 0xE000" "h = 0" "wide_step h c = ([ERROR_CHAR], 0)"
  | (pair) v where "0xDC00 \<le> unat c" "unat c < 0xE000" "h \<noteq> 0" "0xD800 \<le> unat h" "unat h < 0xDC00" "wide_step h c = ([v], 0)"
      "unat v = 65536 + (unat h - 0xD800) * 1024 + (unat c - 0xDC00)" "scalar v"
  | (plain) "\<not> (0xD800 \<le> unat c \<and> unat c < 0xE000)" "wide_step h c = (if h \<noteq> 0 then [ERROR_CHAR, ucast c] else [ucast c], 0)"
proof -
  let ?v = "ucast c :: u32"
  have w: "?v \<ge> 0xD800 \<longleftrightarrow> 0xD800 \<le> unat c" "?v < 0xDC00 \<longleftrightarrow> unat c < 0xDC00" "?v \<ge> 0xDC00 \<longleftrightarrow> 0xDC00 \<le> unat c" "?v < 0xE000 \<longleftrightarrow> unat c < 0xE000"
    by (simp_all add: word_le_nat_alt word_less_nat_alt unat_ucast_u16_u32)
  consider "0xD800 \<le> unat c" "unat c < 0xDC00" | "0xDC00 \<le> unat c" "unat c < 0xE000" "h = 0"
    | "0xDC00 \<le> unat c" "unat c < 0xE000" "h \<noteq> 0" | "\<not> (0xD800 \<le> unat c \<and> unat c < 0xE000)" by linarith
  then show thesis
  proof cases
    case 1
    then have "wide_step h c = (if h \<noteq> 0 then [ERROR_CHAR] else [], c)" by (simp add: wide_step_def Let_def w)
    then show thesis using high 1 by blast
  next
    case 2
    then have "wide_step h c = ([ERROR_CHAR], 0)" by (simp add: wide_step_def Let_def w)
    then show thesis using lone 2 by blast
  next
    case 3
    let ?p = "((?v - 0xDC00) OR push_bit 10 (ucast h - 0xD800)) + 0x10000"
    have h: "0xD800 \<le> unat h" "unat h < 0xDC00" using assms 3(3) by (simp_all add: waits_for_def)
    have p: "unat ?p = 65536 + (unat h - 0xD800) * 1024 + (unat c - 0xDC00)" by (rule pair_value [OF h 3(1,2)])
    have "unat c - 0xDC00 < 1024" "unat h - 0xD800 < 1024" using h 3 by linarith+
    then have "scalar ?p" unfolding scalar_def p by simp
    moreover have "wide_step h c = ([?p], 0)" using 3 unfolding wide_step_def Let_def w by simp
    ultimately show thesis using pair [OF 3 h] p by blast
  next
    case 4
    then have "wide_step h c = (if h \<noteq> 0 then [ERROR_CHAR, ?v] else [?v], 0)"
      unfolding wide_step_def Let_def w by (cases "unat c < 0xD800") auto
    then show thesis using plain 4 by blast
  qed
qed

lemma wide_step_scalar:
  assumes "waits_for h" "wide_step h c = (vs, h')"
  shows "list_all scalar vs \<and> waits_for h'"
  using assms(1)
proof (cases rule: wide_step_cases [of h c])
  case plain
  have "scalar (ucast c)" using plain(1) unat_u16 [of c] by (auto simp: scalar_def unat_ucast_u16_u32)
  then show ?thesis using plain assms(2) ERROR_CHAR_scalar by (auto simp: waits_for_def split: if_split_asm)
qed (use assms(2) ERROR_CHAR_scalar in \<open>auto simp: waits_for_def split: if_split_asm\<close>)

lemma units_scalar: "waits_for h \<Longrightarrow> list_all scalar (units str h)"
proof (induction str arbitrary: h)
  case (Cons c str)
  obtain vs h' where s: "wide_step h c = (vs, h')" by fastforce
  then show ?case using wide_step_scalar [OF Cons.prems s] Cons.IH [of h'] by simp
qed (simp add: ERROR_CHAR_scalar)

lemma wcToUtf8_scalar: "scalar v \<Longrightarrow> wcToUtf8 v = map of_nat (utf8_ref (unat v))"
  by (rule wcToUtf8_ref) (simp add: scalar_def)

lemma sizes_of: "list_all scalar vs \<Longrightarrow> sum_list (map (\<lambda>v. length (wcToUtf8 v)) vs) = length (utf8_of vs)"
  by (induction vs) (simp_all add: wcToUtf8_scalar)

lemma utf8_size16_of: "waits_for h \<Longrightarrow> utf8_size16 str h n = n + length (utf8_of (units str h))"
proof (induction str arbitrary: h n)
  case (Cons c str)
  obtain vs h' where s: "wide_step h c = (vs, h')" by fastforce
  then show ?case using wide_step_scalar [OF Cons.prems s] Cons.IH [of h'] by (simp add: sizes_of)
qed (simp add: wcToUtf8_scalar ERROR_CHAR_scalar)

lemma put_chars_over:
  "list_all scalar vs \<Longrightarrow> out + length (utf8_of vs) \<le> length tgt \<Longrightarrow>
   put_chars tgt out vs = Some (over tgt out (utf8_of vs), out + length (utf8_of vs))"
proof (induction vs arbitrary: tgt out)
  case (Cons v vs)
  then show ?case using over_append [of out "map of_nat (utf8_ref (unat v))" "utf8_of vs" tgt]
    by (simp add: wcToUtf8_scalar put_bytes_over)
qed simp

lemma utf8_write16_of:
  "waits_for h \<Longrightarrow> out + length (utf8_of (units str h)) \<le> length tgt \<Longrightarrow> utf8_write16 str h tgt out = Some (over tgt out (utf8_of (units str h)))"
proof (induction str arbitrary: h tgt out)
  case (Cons c str)
  obtain vs h' where s: "wide_step h c = (vs, h')" by fastforce
  then show ?case using wide_step_scalar [OF Cons.prems(1) s] Cons.prems(2) Cons.IH [of h' "out + length (utf8_of vs)" "over tgt out (utf8_of vs)"]
      over_append [of out "utf8_of vs" "utf8_of (units str h')" tgt]
    by (simp add: put_chars_over)
qed (auto simp: wcToUtf8_scalar ERROR_CHAR_scalar put_bytes_over split: if_split_asm)

lemma waits_for_0 [simp]: "waits_for 0"
  by (simp add: waits_for_def)

lemma wideToUtf8_16_of: "wideToUtf8_16 str tgt = Some (utf8_of (units str 0))"
  by (auto simp: wideToUtf8_16_def utf8_size16_of utf8_write16_of over_whole Let_def)

lemma unat_small_u16: "n < 65536 \<Longrightarrow> unat (of_nat n :: u16) = n"
  by (simp only: unat_of_nat) (simp add: take_bit_nat_eq_self)

lemma wide_step_plain:
  assumes "unat v < 65536" "scalar v"
  shows "wide_step 0 (of_nat (unat v)) = ([v], 0)"
proof -
  have c: "unat (of_nat (unat v) :: u16) = unat v" by (rule unat_small_u16 [OF assms(1)])
  have u: "(ucast (of_nat (unat v) :: u16) :: u32) = v" by (rule word_unat_eq_iff [THEN iffD2]) (simp only: unat_ucast_u16_u32 c)
  from waits_for_0 show ?thesis
    by (cases rule: wide_step_cases [of 0 "of_nat (unat v)"]) (use assms(2) c u in \<open>simp_all add: scalar_def\<close>)
qed

lemma wide_step_pair:
  assumes "65536 \<le> unat v" "scalar v"
  defines "n \<equiv> unat v - 65536"
  shows "wide_step 0 (of_nat (0xD800 + n div 1024)) = ([], of_nat (0xD800 + n div 1024))"
    "wide_step (of_nat (0xD800 + n div 1024)) (of_nat (0xDC00 + n mod 1024)) = ([v], 0)"
proof -
  let ?h = "of_nat (0xD800 + n div 1024) :: u16" and ?c = "of_nat (0xDC00 + n mod 1024) :: u16"
  have n: "n div 1024 < 1024" "n mod 1024 < 1024" using assms by (auto simp: scalar_def)
  have u: "unat ?h = 0xD800 + n div 1024" "unat ?c = 0xDC00 + n mod 1024"
    using n by (intro unat_small_u16; linarith)+
  have h: "waits_for ?h" using u n by (simp add: waits_for_def)
  from waits_for_0 show "wide_step 0 ?h = ([], ?h)"
  proof (cases rule: wide_step_cases [of 0 ?h])
    case high
    then show ?thesis by (simp only: if_False not_True_eq_False simp_thms)
  qed (use u n in linarith)+
  from h show "wide_step ?h ?c = ([v], 0)"
  proof (cases rule: wide_step_cases [of ?h ?c])
    case (pair w)
    have "unat w = 65536 + (n div 1024 * 1024 + n mod 1024)" using pair(7) by (simp only: u diff_add_inverse add.assoc)
    also have "\<dots> = 65536 + n" by (simp only: div_mult_mod_eq)
    also have "\<dots> = unat v" using assms(1) by (simp add: n_def)
    finally have "w = v" by (rule word_unat_eq_iff [THEN iffD2])
    then show ?thesis using pair(6) by (simp only:)
  next
    case lone
    then show ?thesis using u(1) by (metis add_is_0 unsigned_0 zero_neq_numeral)
  qed (use u n in simp_all)
qed

lemma units_utf16: "list_all scalar cs \<Longrightarrow> units (utf16_of cs) 0 = cs"
proof (induction cs)
  case (Cons c cs)
  then have c: "scalar c" and IH: "units (utf16_of cs) 0 = cs" by auto
  show ?case
  proof (cases "unat c < 65536")
    case True
    then show ?thesis using IH wide_step_plain [OF True c] by (simp add: utf16_ref_def)
  next
    case False
    then have "65536 \<le> unat c" by simp
    note p = wide_step_pair [OF this c]
    have "utf16_of (c # cs) = of_nat (0xD800 + (unat c - 65536) div 1024) # of_nat (0xDC00 + (unat c - 65536) mod 1024) # utf16_of cs"
      using False by (simp add: utf16_ref_def)
    then show ?thesis using IH p by (simp del: of_nat_add utf16_of_simps)
  qed
qed simp

lemma valid_utf8_of: "list_all scalar cs \<Longrightarrow> validateUtf8 (utf8_of cs) (length (utf8_of cs)) 0 = Some True"
  by (auto simp: validateUtf8_iff)

section \<open>Properties\<close>

text \<open>
  C24: UTF-8 and wide strings. \<open>validateUtf8\<close> accepts exactly the encodings of sequences of Unicode characters. For any
  bytes at all, \<open>utf8ToWide\<close> followed by \<open>wideToUtf8\<close> stays inside the strings whose sizes the first passes
  compute and gives valid UTF-8, the same with 16-bit and with 32-bit wide characters; and it gives back the very same
  bytes exactly when they were valid.
\<close>

lemma utf8_wide_roundtrip:
  "validateUtf8 s (length s) 0 = Some (\<exists>cs. list_all scalar cs \<and> s = utf8_of cs) \<and>
   (\<exists>t. Option.bind (utf8ToWide_16 s a) (\<lambda>w. wideToUtf8_16 w b) = Some t \<and>
        Option.bind (utf8ToWide_32 s c) (\<lambda>w. wideToUtf8_32 w d) = Some t \<and>
        validateUtf8 t (length t) 0 = Some True \<and> (t = s \<longleftrightarrow> validateUtf8 s (length s) 0 = Some True))"
proof -
  let ?cs = "chars s 0 0"
  have c: "list_all scalar ?cs" by (rule chars_scalar)
  have "validateUtf8 s (length s) 0 = Some True \<longleftrightarrow> utf8_of ?cs = s"
    using validateUtf8_sound [of s 0 0] chars_complete [OF c, of 0 s] by auto
  moreover have "validateUtf8 s (length s) 0 = Some (\<exists>cs. list_all scalar cs \<and> s = utf8_of cs)"
    using validateUtf8_iff [of s] validateUtf8_returns [of s] by auto
  ultimately show ?thesis
    using c by (auto simp: utf8ToWide_16_chars utf8ToWide_32_chars wideToUtf8_16_of wideToUtf8_32_of units_utf16 wide_value_scalar valid_utf8_of)
qed

text \<open>
  The other way round, for 16-bit wide characters: whatever the wide string is, the result is valid UTF-8, and it is
  converted back to the same string exactly when that was well-formed UTF-16.
\<close>

lemma wide_utf8_roundtrip:
  "\<exists>t. wideToUtf8_16 w b = Some t \<and> validateUtf8 t (length t) 0 = Some True \<and>
     (utf8ToWide_16 t a = Some w \<longleftrightarrow> (\<exists>cs. list_all scalar cs \<and> w = utf16_of cs))"
proof -
  let ?cs = "units w 0"
  have c: "list_all scalar ?cs" by (intro units_scalar) simp
  have "chars (utf8_of ?cs) 0 0 = ?cs" using chars_complete [OF c, of 0 "utf8_of ?cs"] by simp
  then show ?thesis using c units_utf16 by (auto simp: wideToUtf8_16_of utf8ToWide_16_chars valid_utf8_of)
qed

text \<open>With 16-bit wide characters \<open>toLower\<close> gives valid UTF-8 whatever the system's table is.\<close>

lemma toLower_valid: "\<exists>t. toLower_16 f s = Some t \<and> validateUtf8 t (length t) 0 = Some True"
  using wide_utf8_roundtrip [of "map f (utf16_of (chars s 0 0))" "[]"] by (auto simp: toLower_16_def utf8ToWide_16_chars)

text \<open>
  A flaw: with 32-bit wide characters a surrogate, which is not a character, is not replaced but written in three
  bytes, and the result is not valid.
\<close>

lemma surrogate_written: "\<exists>t. wideToUtf8_32 [0xD800] b = Some t \<and> t = [0xED, 0xA0, 0x80] \<and> validateUtf8 t (length t) 0 = Some False"
proof -
  have t: "wideToUtf8_32 [0xD800] b = Some [0xED, 0xA0, 0x80]"
    by (simp add: wideToUtf8_32_of wide_value_def utf8_ref_def)
  have "validateUtf8 [0xED, 0xA0, 0x80] 3 0 = Some False" by code_simp
  then show ?thesis using t by (simp add: numeral_3_eq_3)
qed

end
