(* ===== verification/Spec2Isabelle.thy ===== *)
theory Spec2Isabelle
  imports MidlSort MapperNatpmp MmdbList MerkleStream QueueSteps IpFilter AntiFlood GeoIp AdcSearch SearchQueue Utf8
begin

text \<open>
  BlackLink is a client of the Direct Connect file-sharing network. Its own code is the C++ library
  \<open>client/\<close> (hubs, transfers, hashing, search, settings) and the user interface \<open>windows/\<close>; with it come the C
  libraries it links: LMDB (hash database), maxminddb (location of addresses), natpmp and miniupnpc
  (port mappings), zlib, bzip2, OpenSSL, SQLite, Lua. This development models parts of \<open>client/\<close> and
  of the C libraries that the client uses directly, from the source, and proves what they promise.

  \<^bold>\<open>How the parts work together.\<close> A peer announces a file by the root of its Merkle tree over Tiger hashes. The
  client asks for the leaves of the tree (\<open>TreeOutputStream\<close>, \<open>DownloadManager::endData\<close>), stores them in the
  hash database, whose lists of page numbers are the ID lists of \<open>lmdb/midl.c\<close>, and checks every downloaded segment against
  them (\<open>MerkleCheckOutputStream\<close>). The segments of a file are handed out to its sources and recorded
  when they are finished (\<open>QueueItem\<close>); sources that have a part of the file only announce which. Identifiers and roots travel as Base32. Hubs and peers talk in
  ADC commands. Connections are filtered by lists of address ranges read from text files. Port
  mappings are requested from the gateway with NAT-PMP. Addresses are shown with the country that
  a MaxMind database file gives, looked up through a cache (\<open>DatabaseManager::getIPInfo\<close>). Addresses that send too many
  requests are banned for a time. Hubs pass on searches of other users, which are answered from the tree of shared
  directories.

  \<^bold>\<open>Conventions.\<close> Machine integers are words of their width wherever the code can reach their
  bounds, and \<open>nat\<close> or \<open>int\<close> otherwise; signed sums and products that can leave their type go through \<open>int32\<close> and
  \<open>int64\<close>, which are \<open>None\<close>, undefined behaviour, when they do, and the theorems state the sizes up to which that
  does not happen. Bytes are \<open>8 word\<close>s, texts of the client \<open>string\<close>s. Memory a function got from its
  caller is a list that is read and written through \<open>load\<close> and \<open>store\<close> (theory \<open>Prelude\<close>), which are \<open>None\<close> outside of it: a theorem
  that a result is \<open>Some\<close> says that no access leaves the memory. Errors of the code are
  values of a datatype or of a sum. Code that is not part of the repository (sockets, clocks, files, allocation) is a parameter.

  \<^bold>\<open>Theories.\<close>

  \<^item> \<open>Prelude\<close>: widths, memory, byte orders, and the collections \<open>mem_simps\<close> and \<open>byte_simps\<close>. \<open>Buffers\<close>:
    copying into a buffer, cutting a sequence into blocks. \<open>Texts\<close>: characters and bytes, decimal
    numbers, search and replacement by position.
  \<^item> \<open>Midl\<close>, \<open>MidlSort\<close> (\<open>lmdb/midl.c\<close>, \<open>lmdb/midl.h\<close>): ID lists with their capacity cell in front and ID2 lists; growth, append, merge,
    insertion, binary search. The sort is the quicksort of the source with its explicit stack of
    64 integers. Shown: search, merge, insertion and sorting are correct, the stack suffices and no index overflows
    for lists of up to \<open>2 ^ 30\<close> entries, failure of \<open>realloc\<close> changes nothing.
  \<^item> \<open>Natpmp\<close> (\<open>natpmp/natpmp.c\<close>, \<open>natpmp/natpmp.h\<close>), \<open>MapperNatpmp\<close> (\<open>client/Mapper_NATPMP.cpp\<close>): the protocol engine as
    a state record with pending request, retry time and try number, and the waiting loop of the client.
    Shown: the schedule of retransmissions, the packets, that \<open>addMapping\<close> succeeds only on a reply that its loop received,
    returns, and succeeds when the gateway answers.
  \<^item> \<open>Mmdb\<close>, \<open>MmdbLookup\<close>, \<open>MmdbRep\<close>, \<open>MmdbFormat\<close>, \<open>MmdbTree\<close>, \<open>DataPool\<close>, \<open>MmdbList\<close>, \<open>MmdbOpen\<close> (\<open>maxminddb/maxminddb.c\<close>, \<open>maxminddb/data-pool.c\<close> and
    headers): decoding of the data section, lookup of a path, search tree, lists of all entries in a growing pool,
    opening of a file with its metadata. Shown: no content of a data section of at least three bytes in the file makes a
    lookup read outside the mapping, whatever the width of \<open>long\<close>; lookups refine the lookup in the tree of values that a section
    represents, an encoder for such trees is inverted, the walk through the search tree and its shortcut for
    IPv4 are right, \<open>MMDB_open\<close> establishes the conditions the others need.
  \<^item> \<open>TigerTable\<close>, \<open>TigerHash\<close> (\<open>client/TigerHash.cpp\<close>): the hash in all its build variants. The locale \<open>hasher\<close> states what
    the tree needs of a hash; \<open>tiger_hasher\<close> discharges it. Shown: the digest depends on the message only, not on how it is cut.
  \<^item> \<open>MerkleTree\<close> (\<open>client/MerkleTree.h\<close>), \<open>MerkleStream\<close> (\<open>client/MerkleCheckOutputStream.h\<close>, parts of \<open>client/QueueManager.cpp\<close> and
    \<open>client/DownloadManager.cpp\<close>): for files of up to \<open>2 ^ 62\<close> bytes that are cut at multiples of 1024 bytes the incremental tree
    equals the reference definition; trees survive storage; a segment that passes the check is the data of the file or the hash has a collision; right data pass.
  \<^item> \<open>Segments\<close> (\<open>client/Segment.h\<close>, the finished segments of \<open>client/QueueItem.cpp\<close>), \<open>QueueSegments\<close> (running segments and
    \<open>getNextSegmentL\<close> with its searches forward and backward), \<open>PartialSources\<close> and \<open>PartsInfo\<close> (partial file sharing:
    \<open>getNextSegmentL\<close> for a partial source, \<open>getParts\<close>, \<open>isNeededPart\<close>), \<open>QueueSteps\<close> (\<open>UserQueue::getNextL\<close> of \<open>client/QueueManager.cpp\<close> and the
    sequences of operations as a step relation). An item is a record with the members of \<open>QueueItem\<close> that concern
    segments. The locale \<open>byte_ledger\<close> is what the queue relies on when segments are recorded, \<open>block_scan\<close> the
    common shape of the two searches with its rule for total correctness; both searches interpret it. Shown:
    finished segments stand for the union of what was recorded, a file is finished exactly when that is the file,
    the search returns a segment that is needed or none is left, running segments never share a byte while the steps keep their
    conditions (valid runs of partial sources, finished segments inside the file), an
    item that has a segment is found by priority, and a partial source is connected to exactly when it is useful.
  \<^item> \<open>Base32\<close> (\<open>client/Base32.cpp\<close>, \<open>client/CID.h\<close>, \<open>client/HashValue.h\<close>): round trip, identifiers, their order.
  \<^item> \<open>AdcCommand\<close> (\<open>client/AdcCommand.cpp\<close>, \<open>client/AdcCommand.h\<close>): commands survive printing and parsing in both forms, accepted
    commands are well typed, named parameters arrive.
  \<^item> \<open>IpList\<close> (\<open>client/Ip4Address.cpp\<close>, \<open>client/IpList.cpp\<close>), \<open>TextFile\<close> (\<open>Util::readTextFile\<close>), \<open>IpFilter\<close> (\<open>client/IpGuard.cpp\<close>, \<open>client/IpGrant.cpp\<close>,
    \<open>client/IpTrust.cpp\<close>): addresses, lines and ranges; the locales \<open>range_store\<close> and \<open>total_range_store\<close> are the interface
    between the list and the filters, interpreted for the list by the letter of the C++ standard and for a map whose
    first iterator has the end iterator before it.

  \<^item> \<open>AntiFlood\<close> (\<open>client/RequestCounter.h\<close>, \<open>client/AntiFlood.cpp\<close>): the counter of requests in a ring of seconds and the table of bans.
    Shown: the counter is a sliding window over any ascending sequence of requests; who is refused, banned and released.
  \<^item> \<open>LruCache\<close> (\<open>client/LruCache.h\<close>): the two caches with their lists of pointers. The locale \<open>key_cache\<close> is what their users rely on; both
    interpret it. Shown: a cache is a list from the oldest to the newest item, no dangling pointer is followed.
  \<^item> \<open>StringSearch\<close> (\<open>client/StringSearch.h\<close>), \<open>BloomFilters\<close> (\<open>client/BloomFilter.h\<close>, \<open>client/HashBloom.cpp\<close>), \<open>ShareSearch\<close>, \<open>AdcSearch\<close> (\<open>searchL\<close> and
    \<open>search\<close> of \<open>client/ShareManager.cpp\<close>): words in names by quick search, the filter that rules words out, the filter of roots for
    the hub, and the searches over the tree of shared directories, a datatype of nodes. Shown: quick search is the
    occurrence test, the filters lose nothing, a search by words returns the hits that a reference definition over the tree gives
    (\<open>hits\<close>; searches by root return the first file of the group; for ADC only those that \<open>adc_hits\<close> has with and without the names further up).
  \<^item> \<open>SearchQueue\<close> (\<open>client/SearchQueue.cpp\<close>, \<open>searchInternal\<close> and \<open>on(Second)\<close> of \<open>client/Client.cpp\<close>): the searches that wait for a hub. Shown: the
    order of the queue and the distance between searches over every run; the time announced to the user is kept.
  \<^item> \<open>Utf8\<close> (\<open>client/Text.cpp\<close>): UTF-8 and the wide strings of the system, with 16 and with 32 bits, in their two passes. Shown: validation is
    membership in the encodings of Unicode characters, conversion and back is the identity exactly on valid text.
  \<^item> \<open>IpCache\<close>, \<open>GeoIp\<close> (\<open>client/DatabaseManager.cpp\<close>, \<open>client/IPInfo.h\<close>, \<open>client/IpKey.h\<close>, parts of \<open>client/NetworkUtil.cpp\<close>): what is known of an
    address. \<open>GeoIp\<close> puts the cache on the theories of the MaxMind database: a lookup in a database that
    \<open>MMDB_open\<close> accepted returns for every address, and what was found is remembered.

  \<^bold>\<open>Loops and fuel.\<close> Most loops are \<open>function\<close>s with a measure. The loop of \<open>LruCache::removeOldest\<close> and those in \<open>MerkleTree\<close> and \<open>MerkleStream\<close>
    that do not end on some inputs are partial functions, \<open>None\<close> where they do not return; the theorems show the inputs with a
    result, the findings those without. Fuel have the waiting loop of \<open>MapperNatpmp\<close> (theorem \<open>addMapping_returns\<close>: five turns
    and one more for each time \<open>select\<close> comes back early suffice), the skipping of values in \<open>MmdbLookup\<close> (twice the size of the section
    suffices), and the walk of \<open>IpList_find\<close>, whose fuel of two more than the length of the list is enough for both interpretations (\<open>IpList_find_cases\<close>).

  \<^bold>\<open>Not modelled.\<close> The user interface \<open>windows/\<close>; sockets, TLS, threads and locks (each modelled operation is one step, as the
  locks of the source make it); the managers of \<open>client/\<close> beyond the functions named above, among them share, search and hub code and
  the rest of the queue; settings, SQLite and LMDB storage proper (\<open>lmdb/mdb.c\<close>: a memory-mapped B+ tree whose correctness rests on the
  operating system's mapping); the third-party libraries boost, OpenSSL, zlib, bzip2, Lua, WTL, nasm, miniupnpc. Log
  messages and debug output are left out of the modelled functions. IPv6 addresses go through \<open>inet_pton\<close> and are left out.
\<close>

end
